(* ===== verification/Vara_Prelude.thy ===== *)
theory Vara_Prelude
  imports Main "HOL-Library.Word"
begin

text \<open>
  Shared vocabulary of the development: byte strings, fallible results, fixed-width integers in
  big-endian form, object identifiers, and the list operations of the Go runtime that the
  components use (slicing, reading from a \<^verbatim>\<open>bytes.Reader\<close>).

  A Go \<^verbatim>\<open>byte\<close> is a \<^typ>\<open>char\<close> (eight bits) and both \<^verbatim>\<open>[]byte\<close> and \<^verbatim>\<open>string\<close> are char lists. A
  \<^verbatim>\<open>[32]byte\<close> is a \<open>256 word\<close>: a Go array has exactly its declared length, so no length invariant
  has to be carried. \<^verbatim>\<open>uint32\<close>, \<^verbatim>\<open>uint64\<close> and \<^verbatim>\<open>int64\<close> keep their width as words.
\<close>

section \<open>Types and collections\<close>

type_synonym byte = char
type_synonym bytes = "char list"
type_synonym BaseID = "256 word"
type_synonym ObjectID = BaseID
type_synonym CommitID = BaseID
type_synonym TreeID = BaseID
type_synonym BlobID = BaseID
type_synonym u8 = "8 word"
type_synonym u32 = "32 word"
type_synonym u64 = "64 word"

text \<open>\<open>codec\<close> collects the equations that evaluate an encoder followed by its decoder;
  \<open>res_simps\<close> the equations of the error plumbing.\<close>

named_theorems codec \<open>encoder/decoder equations\<close>
named_theorems res_simps \<open>equations of the result type\<close>

abbreviation NUL :: byte where "NUL \<equiv> CHR 0x00"
abbreviation LF :: byte where "LF \<equiv> CHR 0x0A"
abbreviation CR :: byte where "CR \<equiv> CHR 0x0D"
abbreviation TAB :: byte where "TAB \<equiv> CHR 0x09"

section \<open>Fallible results\<close>

definition bind_res :: "'e + 'a \<Rightarrow> ('a \<Rightarrow> 'e + 'b) \<Rightarrow> 'e + 'b" where
  "bind_res m f = (case m of Inl e \<Rightarrow> Inl e | Inr x \<Rightarrow> f x)"

definition of_opt :: "'e \<Rightarrow> 'a option \<Rightarrow> 'e + 'a" where
  "of_opt e m = (case m of None \<Rightarrow> Inl e | Some x \<Rightarrow> Inr x)"

lemma bind_res_simps [simp, res_simps]:
  "bind_res (Inl e) f = Inl e"
  "bind_res (Inr x) f = f x"
  by (simp_all add: bind_res_def)

lemma of_opt_simps [simp, res_simps]:
  "of_opt e None = Inl e"
  "of_opt e (Some x) = Inr x"
  by (simp_all add: of_opt_def)

lemma bind_res_eq_Inr [res_simps]:
  "bind_res m f = Inr y \<longleftrightarrow> (\<exists>x. m = Inr x \<and> f x = Inr y)"
  by (cases m) auto

lemma bind_res_eq_Inl [res_simps]:
  "bind_res m f = Inl e \<longleftrightarrow> m = Inl e \<or> (\<exists>x. m = Inr x \<and> f x = Inl e)"
  by (cases m) auto

lemma of_opt_eq_Inr [res_simps]: "of_opt e m = Inr y \<longleftrightarrow> m = Some y"
  by (cases m) auto

lemma of_opt_eq_Inl [res_simps]: "of_opt e m = Inl e' \<longleftrightarrow> m = None \<and> e' = e"
  by (cases m) auto

lemma bind_res_cong [fundef_cong]:
  "m = m' \<Longrightarrow> (\<And>x. m' = Inr x \<Longrightarrow> f x = f' x) \<Longrightarrow> bind_res m f = bind_res m' f'"
  by (cases m') auto

section \<open>Reading from a byte stream\<close>

text \<open>\<^verbatim>\<open>io.ReadFull\<close> (and the \<^verbatim>\<open>r.Read\<close> calls whose result length is checked): exactly \<open>n\<close> bytes, or
  failure.\<close>

definition read_full :: "nat \<Rightarrow> bytes \<Rightarrow> (bytes \<times> bytes) option" where
  "read_full n bs = (if length bs < n then None else Some (take n bs, drop n bs))"

lemma read_full_append [simp, codec]: "length xs = n \<Longrightarrow> read_full n (xs @ ys) = Some (xs, ys)"
  by (auto simp: read_full_def)

lemma read_full_Some [codec]:
  "read_full n bs = Some (xs, ys) \<longleftrightarrow> bs = xs @ ys \<and> length xs = n"
  by (auto simp: read_full_def)

text \<open>The bytes before the first NUL and those after it; failure when there is no NUL.\<close>

fun read_until_nul :: "bytes \<Rightarrow> (bytes \<times> bytes) option" where
  "read_until_nul [] = None"
| "read_until_nul (b # bs) =
     (if b = NUL then Some ([], bs)
      else (case read_until_nul bs of None \<Rightarrow> None | Some (xs, ys) \<Rightarrow> Some (b # xs, ys)))"

lemma read_until_nul_append [simp, codec]:
  "NUL \<notin> set xs \<Longrightarrow> read_until_nul (xs @ NUL # ys) = Some (xs, ys)"
  by (induction xs) auto

lemma read_until_nul_Some [codec]:
  "read_until_nul bs = Some (xs, ys) \<longleftrightarrow> bs = xs @ NUL # ys \<and> NUL \<notin> set xs"
proof (induction bs arbitrary: xs)
  case Nil
  then show ?case by simp
next
  case (Cons b bs)
  show ?case
  proof (cases "b = NUL")
    case True
    then show ?thesis by (auto simp: append_eq_Cons_conv Cons_eq_append_conv)
  next
    case False
    then show ?thesis
      by (cases xs) (auto simp: Cons.IH split: option.splits)
  qed
qed

section \<open>Big-endian integers\<close>

fun be_bytes :: "nat \<Rightarrow> nat \<Rightarrow> bytes" where
  "be_bytes 0 n = []"
| "be_bytes (Suc k) n = char_of (n div 256 ^ k) # be_bytes k n"

fun be_val :: "bytes \<Rightarrow> nat" where
  "be_val [] = 0"
| "be_val (b # bs) = of_char b * 256 ^ length bs + be_val bs"

lemma length_be_bytes [simp]: "length (be_bytes k n) = k"
  by (induction k) auto

lemma be_val_be_bytes [simp, codec]: "be_val (be_bytes k n) = n mod 256 ^ k"
proof (induction k)
  case 0
  then show ?case by simp
next
  case (Suc k)
  have "n mod 256 ^ Suc k = (n div 256 ^ k mod 256) * 256 ^ k + n mod 256 ^ k"
    by (metis mod_mult2_eq mult.commute power_Suc)
  with Suc show ?case by simp
qed

lemma be_val_bound: "be_val bs < 256 ^ length bs"
proof (induction bs)
  case Nil
  then show ?case by simp
next
  case (Cons b bs)
  have "of_char b * 256 ^ length bs + be_val bs < (of_char b + 1) * 256 ^ length bs"
    using Cons by simp
  also have "\<dots> \<le> 256 * 256 ^ length bs"
    by (rule mult_right_mono) (use nat_of_char_less_256 [of b] in \<open>auto simp: Suc_le_eq\<close>)
  finally show ?case by simp
qed

lemma be_bytes_cong: "n mod 256 ^ k = m mod 256 ^ k \<Longrightarrow> be_bytes k n = be_bytes k m"
proof (induction k)
  case 0
  then show ?case by simp
next
  case (Suc k)
  have low: "n mod 256 ^ k = m mod 256 ^ k"
    by (metis Suc.prems dvd_triv_right mod_mod_cancel power_Suc)
  have split: "x mod 256 ^ Suc k = 256 ^ k * (x div 256 ^ k mod 256) + x mod 256 ^ k" for x :: nat
    by (metis mod_mult2_eq power_Suc2)
  have "256 ^ k * (n div 256 ^ k mod 256) = 256 ^ k * (m div 256 ^ k mod 256)"
    using Suc.prems low split [of n] split [of m] by simp
  then have "n div 256 ^ k mod 256 = m div 256 ^ k mod 256" by simp
  with low Suc.IH show ?case
    by (metis be_bytes.simps(2) char_of_mod_256)
qed

lemma be_bytes_be_val [simp, codec]: "length bs = k \<Longrightarrow> be_bytes k (be_val bs) = bs"
proof (induction bs arbitrary: k)
  case Nil
  then show ?case by simp
next
  case (Cons b bs)
  then obtain k' where k: "k = Suc k'" "length bs = k'" by auto
  have bound: "be_val bs < 256 ^ k'" using be_val_bound [of bs] k by simp
  have "be_bytes k' (of_char b * 256 ^ k' + be_val bs) = be_bytes k' (be_val bs)"
    by (rule be_bytes_cong) simp
  moreover have "(of_char b * 256 ^ k' + be_val bs) div 256 ^ k' = of_char b"
    using bound by simp
  ultimately show ?case using k Cons.IH [of k'] by simp
qed

section \<open>Fixed-width words as bytes\<close>

text \<open>\<^verbatim>\<open>binary.Write(..., binary.BigEndian, w)\<close> and the raw bytes of a \<^verbatim>\<open>[32]byte\<close>.\<close>

definition word_bytes :: "'a::len word \<Rightarrow> bytes" where
  "word_bytes w = be_bytes (LENGTH('a) div 8) (unat w)"

definition bytes_word :: "bytes \<Rightarrow> 'a::len word" where
  "bytes_word bs = of_nat (be_val bs)"

lemma length_word_bytes [simp]: "length (word_bytes (w :: 'a::len word)) = LENGTH('a) div 8"
  by (simp add: word_bytes_def)

lemma pow_256_div_8: "8 dvd n \<Longrightarrow> (256 :: nat) ^ (n div 8) = 2 ^ n"
proof -
  assume "8 dvd n"
  then obtain k where "n = 8 * k" by auto
  then show ?thesis by (simp add: power_mult)
qed

lemma bytes_word_bytes:
  assumes "8 dvd LENGTH('a)"
  shows "bytes_word (word_bytes (w :: 'a::len word)) = w"
  using assms by (simp add: bytes_word_def word_bytes_def pow_256_div_8)

lemma word_bytes_word:
  assumes "8 dvd LENGTH('a)" "length bs = LENGTH('a) div 8"
  shows "word_bytes (bytes_word bs :: 'a::len word) = bs"
proof -
  have "be_val bs < 2 ^ LENGTH('a)"
    using be_val_bound [of bs] assms by (simp add: pow_256_div_8)
  then have "unat (of_nat (be_val bs) :: 'a word) = be_val bs"
    by (simp add: unat_of_nat take_bit_eq_mod)
  then show ?thesis using assms by (simp add: bytes_word_def word_bytes_def)
qed

lemma bytes_word_bytes_sized [simp, codec]:
  "bytes_word (word_bytes (a :: u8)) = a"
  "bytes_word (word_bytes (b :: u32)) = b"
  "bytes_word (word_bytes (c :: u64)) = c"
  "bytes_word (word_bytes (d :: BaseID)) = d"
  by (simp_all add: bytes_word_bytes)

lemma word_bytes_word_sized [simp, codec]:
  "length bs = 1 \<Longrightarrow> word_bytes (bytes_word bs :: u8) = bs"
  "length bs = 4 \<Longrightarrow> word_bytes (bytes_word bs :: u32) = bs"
  "length bs = 8 \<Longrightarrow> word_bytes (bytes_word bs :: u64) = bs"
  "length bs = 32 \<Longrightarrow> word_bytes (bytes_word bs :: BaseID) = bs"
  by (simp_all add: word_bytes_word)

lemma word_bytes_inj [simp]:
  "word_bytes (b :: u32) = word_bytes b' \<longleftrightarrow> b = b'"
  "word_bytes (c :: u64) = word_bytes c' \<longleftrightarrow> c = c'"
  "word_bytes (d :: BaseID) = word_bytes d' \<longleftrightarrow> d = d'"
  by (metis bytes_word_bytes_sized)+

text \<open>\<^verbatim>\<open>uint32(len(xs))\<close>: the conversion keeps the low 32 bits.\<close>

lemma unat_of_nat_len32 [simp]: "n < 2 ^ 32 \<Longrightarrow> unat (of_nat n :: u32) = n"
  by (simp add: unat_of_nat take_bit_eq_mod)

section \<open>Slices\<close>

text \<open>\<^verbatim>\<open>xs[i:j]\<close> on a Go slice: a run-time panic (\<^term>\<open>None\<close>) unless \<open>0 \<le> i \<le> j \<le> len(xs)\<close>.\<close>

definition slice :: "'a list \<Rightarrow> nat \<Rightarrow> nat \<Rightarrow> 'a list option" where
  "slice xs i j = (if i \<le> j \<and> j \<le> length xs then Some (take (j - i) (drop i xs)) else None)"

abbreviation sub :: "'a list \<Rightarrow> nat \<Rightarrow> nat \<Rightarrow> 'a list" where
  "sub xs i j \<equiv> take (j - i) (drop i xs)"

lemma slice_Some: "slice xs i j = Some ys \<longleftrightarrow> i \<le> j \<and> j \<le> length xs \<and> ys = sub xs i j"
  by (auto simp: slice_def)

lemma sub_append: "i \<le> j \<Longrightarrow> j \<le> k \<Longrightarrow> sub xs i j @ sub xs j k = sub xs i k"
proof -
  assume a: "i \<le> j" "j \<le> k"
  have "k - i = (j - i) + (k - j)" using a by simp
  then have "sub xs i k = take (j - i) (drop i xs) @ take (k - j) (drop (j - i) (drop i xs))"
    by (simp only: take_add)
  then show ?thesis using a by simp
qed

lemma sub_self [simp]: "sub xs i i = []"
  by simp

lemma sub_all: "sub xs 0 (length xs) = xs"
  by simp

lemma length_sub: "j \<le> length xs \<Longrightarrow> length (sub xs i j) = j - i"
  by simp

lemma sub_Suc: "i < length xs \<Longrightarrow> sub xs i (Suc i) = [xs ! i]"
  by (simp add: Suc_diff_le take_Suc_conv_app_nth)

section \<open>Codecs\<close>

text \<open>
  The contract of an encoder/decoder pair: decoding an encoded well-formed value gives it back. A
  canonical codec also accepts nothing but encodings of well-formed values. The file formats of the
  program interpret these locales in the theories that define them.
\<close>

locale decoder =
  fixes enc :: "'a \<Rightarrow> bytes"
    and dec :: "bytes \<Rightarrow> 'e + 'a"
    and wf :: "'a \<Rightarrow> bool"
  assumes dec_enc: "wf x \<Longrightarrow> dec (enc x) = Inr x"
begin

lemma enc_inj: "wf x \<Longrightarrow> wf y \<Longrightarrow> enc x = enc y \<Longrightarrow> x = y"
  by (metis dec_enc sum.inject(2))

lemma enc_inj_on: "inj_on enc {x. wf x}"
  by (auto simp: inj_on_def intro: enc_inj)

end

locale canonical_codec = decoder enc dec wf
  for enc :: "'a \<Rightarrow> bytes" and dec :: "bytes \<Rightarrow> 'e + 'a" and wf :: "'a \<Rightarrow> bool" +
  assumes enc_dec: "dec b = Inr x \<Longrightarrow> enc x = b \<and> wf x"
begin

lemma dec_iff: "dec b = Inr x \<longleftrightarrow> wf x \<and> b = enc x"
  using dec_enc enc_dec by blast

lemma dec_inj: "dec b = Inr x \<Longrightarrow> dec b' = Inr x \<Longrightarrow> b = b'"
  by (simp add: dec_iff)

lemma dec_fails_iff: "(\<exists>e. dec b = Inl e) \<longleftrightarrow> (\<nexists>x. wf x \<and> b = enc x)"
  by (metis Inl_Inr_False dec_iff obj_sumE)

end

end
