(* ===== verification/Sha256.thy ===== *)
theory Sha256
  imports Vara_Prelude
begin

unbundle bit_operations_syntax

text \<open>
  \<^verbatim>\<open>pkg/hash\<close>: \<^verbatim>\<open>hash.Compute\<close> is SHA-256 (\<^verbatim>\<open>crypto/sha256.Sum256\<close>). The standard library's function
  is written out from FIPS 180-4, so an object identifier in this development is the real digest and
  not an uninterpreted symbol. Collision freedom is not assumed anywhere: statements that need two
  contents to have different identifiers say so about those contents.
\<close>

definition sha_K :: "u32 list" where
  "sha_K =
    [1116352408,1899447441,3049323471,3921009573,961987163,1508970993,2453635748,2870763221,
     3624381080,310598401,607225278,1426881987,1925078388,2162078206,2614888103,3248222580,
     3835390401,4022224774,264347078,604807628,770255983,1249150122,1555081692,1996064986,
     2554220882,2821834349,2952996808,3210313671,3336571891,3584528711,113926993,338241895,
     666307205,773529912,1294757372,1396182291,1695183700,1986661051,2177026350,2456956037,
     2730485921,2820302411,3259730800,3345764771,3516065817,3600352804,4094571909,275423344,
     430227734,506948616,659060556,883997877,958139571,1322822218,1537002063,1747873779,
     1955562222,2024104815,2227730452,2361852424,2428436474,2756734187,3204031479,3329325298]"

definition sha_H0 :: "u32 list" where
  "sha_H0 = [1779033703,3144134277,1013904242,2773480762,1359893119,2600822924,528734635,1541459225]"

definition sha_sigma :: "nat \<Rightarrow> nat \<Rightarrow> nat \<Rightarrow> u32 \<Rightarrow> u32" where
  "sha_sigma a b c x = (word_rotr a x) XOR (word_rotr b x) XOR (drop_bit c x)"

definition sha_Sigma :: "nat \<Rightarrow> nat \<Rightarrow> nat \<Rightarrow> u32 \<Rightarrow> u32" where
  "sha_Sigma a b c x = (word_rotr a x) XOR (word_rotr b x) XOR (word_rotr c x)"

text \<open>The message schedule, newest word first.\<close>

fun sha_expand :: "nat \<Rightarrow> u32 list \<Rightarrow> u32 list" where
  "sha_expand 0 w = w"
| "sha_expand (Suc n) w =
     sha_expand n ((sha_sigma 17 19 10 (w ! 1) + w ! 6 + sha_sigma 7 18 3 (w ! 14) + w ! 15) # w)"

definition sha_round :: "u32 \<times> u32 \<Rightarrow> u32 list \<Rightarrow> u32 list" where
  "sha_round kw s =
     (let a = s ! 0; b = s ! 1; c = s ! 2; d = s ! 3; e = s ! 4; f = s ! 5; g = s ! 6; h = s ! 7;
          t1 = h + sha_Sigma 6 11 25 e + ((e AND f) XOR (NOT e AND g)) + fst kw + snd kw;
          t2 = sha_Sigma 2 13 22 a + ((a AND b) XOR (a AND c) XOR (b AND c))
      in [t1 + t2, a, b, c, d + t1, e, f, g])"

definition sha_compress :: "u32 list \<Rightarrow> u32 list \<Rightarrow> u32 list" where
  "sha_compress w16 h = map2 (+) h (fold sha_round (zip sha_K (rev (sha_expand 48 (rev w16)))) h)"

fun chunks :: "nat \<Rightarrow> nat \<Rightarrow> 'a list \<Rightarrow> 'a list list" where
  "chunks 0 n xs = []"
| "chunks (Suc k) n xs = take n xs # chunks k n (drop n xs)"

definition sha_pad :: "bytes \<Rightarrow> bytes" where
  "sha_pad m = m @ [CHR 0x80] @ replicate ((119 - length m mod 64) mod 64) NUL @ be_bytes 8 (8 * length m)"

definition sha256_words :: "bytes \<Rightarrow> u32 list" where
  "sha256_words m =
     (let p = sha_pad m in
      fold (\<lambda>block. sha_compress (map bytes_word (chunks 16 4 block)))
        (chunks (length p div 64) 64 p) sha_H0)"

definition Compute :: "bytes \<Rightarrow> BaseID" where
  "Compute m = bytes_word (concat (map word_bytes (sha256_words m)))"

lemma length_sha_compress: "length h = 8 \<Longrightarrow> length (sha_compress w h) = 8"
proof -
  assume "length h = 8"
  moreover have "length (fold sha_round kws s) = 8" if "length s = 8" for kws s
    using that by (induction kws arbitrary: s) (auto simp: sha_round_def Let_def)
  ultimately show ?thesis by (simp add: sha_compress_def)
qed

lemma length_sha256_words: "length (sha256_words m) = 8"
proof -
  have "length (fold (\<lambda>block. sha_compress (map bytes_word (chunks 16 4 block))) bs s) = 8"
    if "length s = 8" for bs s
    using that by (induction bs arbitrary: s) (auto simp: length_sha_compress)
  then show ?thesis by (simp add: sha256_words_def Let_def sha_H0_def)
qed

text \<open>The digest has 32 bytes: reading it as a \<^verbatim>\<open>[32]byte\<close> loses nothing.\<close>

lemma word_bytes_Compute: "word_bytes (Compute m) = concat (map word_bytes (sha256_words m))"
proof -
  have "length (concat (map (word_bytes :: u32 \<Rightarrow> bytes) ws)) = 4 * length ws" for ws
    by (induction ws) auto
  then have "length (concat (map word_bytes (sha256_words m))) = 32"
    by (simp add: length_sha256_words)
  then show ?thesis by (simp add: Compute_def)
qed

end
