(* ===== verification/Object_Format.thy ===== *)
theory Object_Format
  imports Sha256
begin

text \<open>
  \<^verbatim>\<open>pkg/types/id.go\<close> (identifiers and their hexadecimal form) and \<^verbatim>\<open>pkg/object\<close> without the store
  (\<^verbatim>\<open>object.go\<close>, \<^verbatim>\<open>blob.go\<close>, \<^verbatim>\<open>tree.go\<close>, \<^verbatim>\<open>commit.go\<close>): the three object kinds, their on-disk byte
  format and its decoder. The lemmas show that decoding inverts encoding on every object whose
  strings contain no NUL, and that the format is canonical: whatever the decoder accepts is the
  encoding of what it returns.
\<close>

section \<open>Errors (\<^verbatim>\<open>internal/errors\<close>)\<close>

datatype verr =
    ErrRepositoryNotFound
  | ErrInvalidObject
  | ErrCorruptIndex
  | ErrLockTimeout
  | ErrMergeConflict
  | ErrRefNotFound
  | ErrObjectNotFound
  | ErrRefValidation
  | ErrHexLength              \<comment> \<open>\<^verbatim>\<open>hex.ErrLength\<close>\<close>
  | ErrHexByte                \<comment> \<open>\<^verbatim>\<open>hex.InvalidByteError\<close>\<close>
  | ErrIO                     \<comment> \<open>an error the operating system returned\<close>
  | ErrMsg string             \<comment> \<open>an \<^verbatim>\<open>fmt.Errorf\<close> without a wrapped sentinel\<close>

section \<open>Identifiers (\<^verbatim>\<open>pkg/types/id.go\<close>)\<close>

definition hex_digit :: "nat \<Rightarrow> char" where
  "hex_digit n = ''0123456789abcdef'' ! (n mod 16)"

fun hex_EncodeToString :: "bytes \<Rightarrow> string" where
  "hex_EncodeToString [] = []"
| "hex_EncodeToString (b # bs) =
     hex_digit (of_char b div 16) # hex_digit (of_char b mod 16) # hex_EncodeToString bs"

definition from_hex_char :: "char \<Rightarrow> nat option" where
  "from_hex_char c =
     (let n = of_char c :: nat in
      if 48 \<le> n \<and> n \<le> 57 then Some (n - 48)
      else if 97 \<le> n \<and> n \<le> 102 then Some (n - 87)
      else if 65 \<le> n \<and> n \<le> 70 then Some (n - 55)
      else None)"

fun hex_DecodeString :: "string \<Rightarrow> verr + bytes" where
  "hex_DecodeString [] = Inr []"
| "hex_DecodeString [c] = (case from_hex_char c of None \<Rightarrow> Inl ErrHexByte | Some _ \<Rightarrow> Inl ErrHexLength)"
| "hex_DecodeString (c # d # cs) =
     (case (from_hex_char c, from_hex_char d) of
        (Some h, Some l) \<Rightarrow> bind_res (hex_DecodeString cs) (\<lambda>bs. Inr (char_of (16 * h + l) # bs))
      | _ \<Rightarrow> Inl ErrHexByte)"

definition BaseID_String :: "BaseID \<Rightarrow> string" where
  "BaseID_String i = hex_EncodeToString (word_bytes i)"

definition ParseHex :: "string \<Rightarrow> verr + BaseID" where
  "ParseHex s =
     (if length s \<noteq> 64 then Inl ErrHexLength
      else bind_res (hex_DecodeString s) (\<lambda>b. Inr (bytes_word b)))"

section \<open>Objects\<close>

datatype ObjectType = TypeBlob | TypeTree | TypeCommit

definition ObjectType_string :: "ObjectType \<Rightarrow> string" where
  "ObjectType_string t = (case t of
      TypeBlob \<Rightarrow> ''vara-blob:v1'' | TypeTree \<Rightarrow> ''vara-tree:v1'' | TypeCommit \<Rightarrow> ''vara-commit:v1'')"

record TreeEntry =
  te_Mode :: u32
  te_Hash :: ObjectID
  te_Name :: string

record Commit =
  TreeHash :: TreeID
  Parents :: "CommitID list"
  Author :: string
  Message :: string
  Timestamp :: u64   \<comment> \<open>\<^verbatim>\<open>int64\<close>, two's complement\<close>

datatype Object = Blob bytes | Tree "TreeEntry list" | CommitObj Commit

definition Object_Type :: "Object \<Rightarrow> ObjectType" where
  "Object_Type obj = (case obj of Blob _ \<Rightarrow> TypeBlob | Tree _ \<Rightarrow> TypeTree | CommitObj _ \<Rightarrow> TypeCommit)"

definition WriteHeader :: "ObjectType \<Rightarrow> bytes" where
  "WriteHeader t = ObjectType_string t @ [NUL]"

definition readUntilNul :: "bytes \<Rightarrow> verr + (bytes \<times> bytes)" where
  "readUntilNul r = of_opt ErrIO (read_until_nul r)"

definition ReadHeader :: "bytes \<Rightarrow> verr + (ObjectType \<times> bytes)" where
  "ReadHeader r =
     (case readUntilNul r of
        Inl _ \<Rightarrow> Inl ErrInvalidObject
      | Inr (typ, r') \<Rightarrow>
          if typ = ObjectType_string TypeBlob then Inr (TypeBlob, r')
          else if typ = ObjectType_string TypeTree then Inr (TypeTree, r')
          else if typ = ObjectType_string TypeCommit then Inr (TypeCommit, r')
          else Inl ErrInvalidObject)"

subsection \<open>Serialization\<close>

definition Blob_Serialize :: "bytes \<Rightarrow> bytes" where
  "Blob_Serialize d = WriteHeader TypeBlob @ d"

definition entry_bytes :: "TreeEntry \<Rightarrow> bytes" where
  "entry_bytes e = word_bytes (te_Mode e) @ word_bytes (te_Hash e) @ te_Name e @ [NUL]"

definition Tree_Serialize :: "TreeEntry list \<Rightarrow> bytes" where
  "Tree_Serialize es = WriteHeader TypeTree @ concat (map entry_bytes es)"

definition Commit_Serialize :: "Commit \<Rightarrow> bytes" where
  "Commit_Serialize c =
     WriteHeader TypeCommit @ word_bytes (TreeHash c)
       @ word_bytes (of_nat (length (Parents c)) :: u32)
       @ concat (map word_bytes (Parents c))
       @ word_bytes (Timestamp c) @ Author c @ [NUL] @ Message c"

fun Serialize :: "Object \<Rightarrow> bytes" where
  "Serialize (Blob d) = Blob_Serialize d"
| "Serialize (Tree es) = Tree_Serialize es"
| "Serialize (CommitObj c) = Commit_Serialize c"

definition BlobHash :: "bytes \<Rightarrow> BlobID" where
  "BlobHash content = Compute (Blob_Serialize content)"

text \<open>\<^verbatim>\<open>NewTree\<close> sorts by name. \<^verbatim>\<open>sort.Slice\<close> is not stable; names in a tree are distinct map keys at
  its only call, so the order it produces is the sorted one.\<close>

fun lex_less :: "string \<Rightarrow> string \<Rightarrow> bool" where
  "lex_less _ [] = False"
| "lex_less [] (_ # _) = True"
| "lex_less (a # as) (b # bs) =
     (if (of_char a :: nat) < of_char b then True
      else if (of_char b :: nat) < of_char a then False else lex_less as bs)"

fun insert_by :: "('a \<Rightarrow> string) \<Rightarrow> 'a \<Rightarrow> 'a list \<Rightarrow> 'a list" where
  "insert_by k x [] = [x]"
| "insert_by k x (y # ys) = (if lex_less (k y) (k x) then y # insert_by k x ys else x # y # ys)"

definition sort_by :: "('a \<Rightarrow> string) \<Rightarrow> 'a list \<Rightarrow> 'a list" where
  "sort_by k xs = foldr (insert_by k) xs []"

definition NewTree :: "TreeEntry list \<Rightarrow> Object" where
  "NewTree es = Tree (sort_by te_Name es)"

subsection \<open>Deserialization\<close>

definition DeserializeBlob :: "bytes \<Rightarrow> verr + Object" where
  "DeserializeBlob r = Inr (Blob r)"

text \<open>One iteration of the loop of \<^verbatim>\<open>DeserializeTree\<close>.\<close>

definition read_entry :: "bytes \<Rightarrow> (TreeEntry \<times> bytes) option" where
  "read_entry r =
     Option.bind (read_full 4 r) (\<lambda>(m, r1).
     Option.bind (read_full 32 r1) (\<lambda>(h, r2).
     Option.bind (read_until_nul r2) (\<lambda>(n, r3).
       Some (\<lparr>te_Mode = bytes_word m, te_Hash = bytes_word h, te_Name = n\<rparr>, r3))))"

lemma read_entry_Some:
  "read_entry r = Some (e, r') \<longleftrightarrow> r = entry_bytes e @ r' \<and> NUL \<notin> set (te_Name e)"
  (is "?L \<longleftrightarrow> ?R")
proof
  assume ?L
  then show ?R
    by (auto simp: read_entry_def bind_eq_Some_conv read_full_Some read_until_nul_Some entry_bytes_def)
next
  assume ?R
  then show ?L by (cases e) (auto simp: read_entry_def entry_bytes_def)
qed

lemma length_read_entry: "read_entry r = Some (e, r') \<Longrightarrow> length r' < length r"
  by (auto simp: read_entry_Some entry_bytes_def)

function read_entries :: "bytes \<Rightarrow> TreeEntry list \<Rightarrow> verr + TreeEntry list" where
  "read_entries r acc =
     (if r = [] then Inr acc
      else case read_entry r of
        None \<Rightarrow> Inl ErrInvalidObject
      | Some (e, r') \<Rightarrow> read_entries r' (acc @ [e]))"
  by pat_completeness auto
termination
  by (relation "measure (length \<circ> fst)") (auto simp: length_read_entry)

declare read_entries.simps [simp del]

definition DeserializeTree :: "bytes \<Rightarrow> verr + Object" where
  "DeserializeTree r = bind_res (read_entries r []) (\<lambda>es. Inr (Tree es))"

fun read_ids :: "nat \<Rightarrow> bytes \<Rightarrow> (BaseID list \<times> bytes) option" where
  "read_ids 0 r = Some ([], r)"
| "read_ids (Suc n) r =
     Option.bind (read_full 32 r) (\<lambda>(p, r1).
     Option.bind (read_ids n r1) (\<lambda>(ps, r2). Some (bytes_word p # ps, r2)))"

definition DeserializeCommit :: "bytes \<Rightarrow> verr + Object" where
  "DeserializeCommit r =
     bind_res (of_opt ErrInvalidObject (read_full 32 r)) (\<lambda>(t, r1).
     bind_res (of_opt ErrInvalidObject (read_full 4 r1)) (\<lambda>(n, r2).
     bind_res (of_opt ErrInvalidObject (read_ids (unat (bytes_word n :: u32)) r2)) (\<lambda>(ps, r3).
     bind_res (of_opt ErrInvalidObject (read_full 8 r3)) (\<lambda>(ts, r4).
     bind_res (of_opt ErrInvalidObject (read_until_nul r4)) (\<lambda>(a, m).
       Inr (CommitObj \<lparr>TreeHash = bytes_word t, Parents = ps, Author = a, Message = m,
                      Timestamp = bytes_word ts\<rparr>))))))"

definition Deserialize :: "bytes \<Rightarrow> verr + Object" where
  "Deserialize raw =
     bind_res (ReadHeader raw) (\<lambda>(typ, r).
       case typ of
         TypeBlob \<Rightarrow> DeserializeBlob r
       | TypeTree \<Rightarrow> DeserializeTree r
       | TypeCommit \<Rightarrow> DeserializeCommit r)"

section \<open>The format is a canonical codec\<close>

text \<open>What the format can represent: no NUL inside a name or an author, and a parent count that fits
  the 32-bit field. Messages and blob contents are unrestricted.\<close>

fun wf_object :: "Object \<Rightarrow> bool" where
  "wf_object (Blob _) = True"
| "wf_object (Tree es) = (\<forall>e \<in> set es. NUL \<notin> set (te_Name e))"
| "wf_object (CommitObj c) = (NUL \<notin> set (Author c) \<and> length (Parents c) < 2 ^ 32)"

lemma nul_notin_type_string [simp]: "NUL \<notin> set (ObjectType_string t)"
  by (cases t) (simp_all add: ObjectType_string_def)

lemma ObjectType_string_inj [simp]: "ObjectType_string t = ObjectType_string t' \<longleftrightarrow> t = t'"
  by (cases t; cases t') (simp_all add: ObjectType_string_def)

lemma ReadHeader_iff: "ReadHeader raw = Inr (t, r) \<longleftrightarrow> raw = WriteHeader t @ r"
proof
  assume "ReadHeader raw = Inr (t, r)"
  then show "raw = WriteHeader t @ r"
    by (auto simp: ReadHeader_def readUntilNul_def WriteHeader_def res_simps read_until_nul_Some
        split: sum.splits if_splits)
next
  assume "raw = WriteHeader t @ r"
  then show "ReadHeader raw = Inr (t, r)"
    by (cases t) (simp_all add: ReadHeader_def readUntilNul_def WriteHeader_def)
qed

lemma ReadHeader_WriteHeader [simp]: "ReadHeader (WriteHeader t @ r) = Inr (t, r)"
  by (simp add: ReadHeader_iff)

lemma read_entries_Nil [simp]: "read_entries [] acc = Inr acc"
  by (simp add: read_entries.simps)

lemma read_entries_step:
  "r \<noteq> [] \<Longrightarrow> read_entries r acc =
     (case read_entry r of None \<Rightarrow> Inl ErrInvalidObject | Some (e, r') \<Rightarrow> read_entries r' (acc @ [e]))"
  by (subst read_entries.simps) simp

lemma read_entries_iff:
  "read_entries r acc = Inr es' \<longleftrightarrow>
     (\<exists>es. es' = acc @ es \<and> r = concat (map entry_bytes es) \<and> wf_object (Tree es))"
proof (induction r acc rule: read_entries.induct)
  case (1 r acc)
  show ?case
  proof (cases "r = []")
    case True
    have "concat (map entry_bytes es) = [] \<longleftrightarrow> es = []" for es
      by (cases es) (simp_all add: entry_bytes_def)
    with True show ?thesis by auto
  next
    case False
    show ?thesis
    proof (cases "read_entry r")
      case None
      then have "r \<noteq> concat (map entry_bytes es)" if "wf_object (Tree es)" for es
        using False that read_entry_Some [of r "hd es" "concat (map entry_bytes (tl es))"]
        by (cases es) auto
      with None False show ?thesis by (auto simp: read_entries_step)
    next
      case (Some p)
      then obtain e r' where p: "read_entry r = Some (e, r')" by (cases p) auto
      then have r: "r = entry_bytes e @ r'" "NUL \<notin> set (te_Name e)"
        by (simp_all add: read_entry_Some)
      have uniq: "es = e # tl es \<and> r' = concat (map entry_bytes (tl es))"
        if "r = concat (map entry_bytes es)" "wf_object (Tree es)" for es
      proof (cases es)
        case Nil
        then show ?thesis using that False by simp
      next
        case (Cons d ds)
        then have "read_entry r = Some (d, concat (map entry_bytes ds))"
          using that by (auto simp: read_entry_Some)
        with p Cons show ?thesis by simp
      qed
      have "read_entries r acc = Inr es' \<longleftrightarrow> read_entries r' (acc @ [e]) = Inr es'"
        using p False by (simp add: read_entries_step)
      also have "\<dots> \<longleftrightarrow> (\<exists>es. es' = acc @ e # es \<and> r' = concat (map entry_bytes es) \<and> wf_object (Tree es))"
        using 1 [OF False p refl] by simp
      also have "\<dots> \<longleftrightarrow> (\<exists>es. es' = acc @ es \<and> r = concat (map entry_bytes es) \<and> wf_object (Tree es))"
        (is "?L \<longleftrightarrow> ?R")
      proof
        assume ?L
        then obtain es where "es' = acc @ e # es" "r' = concat (map entry_bytes es)" "wf_object (Tree es)"
          by blast
        then show ?R using r by (intro exI [of _ "e # es"]) simp
      next
        assume ?R
        then obtain es where es: "es' = acc @ es" "r = concat (map entry_bytes es)" "wf_object (Tree es)"
          by blast
        have "es = e # tl es" and r': "r' = concat (map entry_bytes (tl es))"
          using uniq [OF es(2,3)] by auto
        then obtain ds where "es = e # ds" "tl es = ds" by (metis list.sel(3))
        with es r' show ?L by (intro exI [of _ ds]) simp
      qed
      finally show ?thesis .
    qed
  qed
qed

lemma read_ids_iff:
  "read_ids n r = Some (ps, r') \<longleftrightarrow> length ps = n \<and> r = concat (map word_bytes ps) @ r'"
proof (induction n arbitrary: r ps)
  case 0
  then show ?case by auto
next
  case (Suc n)
  show ?case
    by (cases ps) (auto simp: bind_eq_Some_conv read_full_Some Suc.IH
        intro!: exI [of _ "word_bytes (hd ps)"])
qed

lemma read_ids_concat [simp, codec]:
  "length ps = n \<Longrightarrow> read_ids n (concat (map word_bytes ps) @ r) = Some (ps, r)"
  by (simp add: read_ids_iff)

lemma DeserializeCommit_iff:
  "DeserializeCommit r = Inr obj \<longleftrightarrow>
     (\<exists>c. obj = CommitObj c \<and> wf_object obj \<and> WriteHeader TypeCommit @ r = Commit_Serialize c)"
  (is "?L \<longleftrightarrow> ?R")
proof
  assume ?L
  moreover have "unat (bytes_word aa :: u32) < 2 ^ 32" for aa
    using unsigned_less [of "bytes_word aa :: u32"] by simp
  ultimately show ?R
    by (auto simp: DeserializeCommit_def res_simps read_full_Some read_ids_iff read_until_nul_Some
        Commit_Serialize_def)
next
  assume ?R
  then show ?L
    by (auto simp: DeserializeCommit_def Commit_Serialize_def)
qed

interpretation objects: canonical_codec Serialize Deserialize wf_object
proof
  fix obj :: Object
  assume wf: "wf_object obj"
  show "Deserialize (Serialize obj) = Inr obj"
  proof (cases obj)
    case (Blob d)
    then show ?thesis by (simp add: Deserialize_def Blob_Serialize_def DeserializeBlob_def)
  next
    case (Tree es)
    with wf have "read_entries (concat (map entry_bytes es)) [] = Inr es"
      using read_entries_iff [of _ "[]" es] by simp
    with Tree show ?thesis by (simp add: Deserialize_def Tree_Serialize_def DeserializeTree_def)
  next
    case (CommitObj c)
    then obtain r where r: "Commit_Serialize c = WriteHeader TypeCommit @ r"
      by (simp add: Commit_Serialize_def)
    with CommitObj wf have "DeserializeCommit r = Inr obj" by (auto simp: DeserializeCommit_iff)
    with CommitObj r show ?thesis by (simp add: Deserialize_def)
  qed
next
  fix raw obj
  assume a: "Deserialize raw = Inr obj"
  then obtain t r where "raw = WriteHeader t @ r"
    by (auto simp: Deserialize_def res_simps ReadHeader_iff)
  with a show "Serialize obj = raw \<and> wf_object obj"
    by (cases t) (auto simp: Deserialize_def res_simps DeserializeBlob_def DeserializeTree_def
        DeserializeCommit_iff read_entries_iff Blob_Serialize_def Tree_Serialize_def)
qed

section \<open>Hexadecimal identifiers\<close>

lemma from_hex_char_digit [simp]: "n < 16 \<Longrightarrow> from_hex_char (hex_digit n) = Some n"
proof -
  assume "n < 16"
  then have "n \<in> set [0..<16]" by simp
  moreover have "\<forall>n \<in> set [0..<16]. from_hex_char (hex_digit n) = Some n"
    by (simp add: upt_rec [of _ 16] from_hex_char_def hex_digit_def)
  ultimately show ?thesis by blast
qed

lemma length_hex_Encode [simp]: "length (hex_EncodeToString bs) = 2 * length bs"
  by (induction bs) auto

lemma hex_Decode_Encode [simp]: "hex_DecodeString (hex_EncodeToString bs) = Inr bs"
proof (induction bs)
  case Nil
  then show ?case by simp
next
  case (Cons b bs)
  have "of_char b div 16 < (16 :: nat)"
    using nat_of_char_less_256 [of b] by linarith
  with Cons show ?case by simp
qed

lemma length_BaseID_String [simp]: "length (BaseID_String i) = 64"
  by (simp add: BaseID_String_def)

interpretation hex_ids: decoder BaseID_String ParseHex "\<lambda>_. True"
  by unfold_locales (simp add: ParseHex_def, simp add: BaseID_String_def)

lemma ParseHex_BaseID_String [simp]: "ParseHex (BaseID_String i) = Inr i"
  by (rule hex_ids.dec_enc) simp

section \<open>Properties\<close>

text \<open>C16. Decoding the serialized form of any representable object gives the object back: blobs,
  trees and commits survive a trip through their on-disk format unchanged.\<close>

theorem deserialize_serialize:
  assumes "wf_object obj"
  shows "Deserialize (Serialize obj) = Inr obj"
  using assms by (rule objects.dec_enc)

definition sample_commit :: Object where
  "sample_commit = CommitObj \<lparr>TreeHash = 7, Parents = [1, 2], Author = ''ann'', Message = ''hi'', Timestamp = 5\<rparr>"

theorem deserialize_serialize_witness:
  "wf_object sample_commit \<and> Deserialize (Serialize sample_commit) = Inr sample_commit"
proof -
  have "wf_object sample_commit" by (simp add: sample_commit_def)
  then show ?thesis using deserialize_serialize by blast
qed

text \<open>C17. The object format is canonical: whatever bytes the decoder accepts are exactly the
  serialization of the object it returns, so re-serializing a decoded object (as the pack reader
  does before it stores one) reproduces the bytes that were hashed.\<close>

theorem deserialize_canonical:
  assumes "Deserialize raw = Inr obj"
  shows "Serialize obj = raw \<and> wf_object obj"
  using assms by (rule objects.enc_dec)

theorem deserialize_canonical_witness:
  "\<exists>raw. Deserialize raw = Inr sample_commit \<and> Serialize sample_commit = raw"
proof -
  have "Deserialize (Serialize sample_commit) = Inr sample_commit"
    by (rule objects.dec_enc) (simp add: sample_commit_def)
  then show ?thesis using deserialize_canonical by blast
qed

text \<open>An author with an embedded NUL byte is not recoverable: the stored commit decodes to a
  different author and message, because the author field is NUL-terminated and nothing rejects such
  a name when the commit is written.\<close>

theorem nul_author_corrupts:
  "Deserialize (Serialize (CommitObj \<lparr>TreeHash = t, Parents = [], Author = ''a'' @ [NUL] @ ''b'',
      Message = ''m'', Timestamp = 0\<rparr>))
   = Inr (CommitObj \<lparr>TreeHash = t, Parents = [], Author = ''a'', Message = ''b'' @ [NUL] @ ''m'', Timestamp = 0\<rparr>)"
proof -
  have "Serialize (CommitObj \<lparr>TreeHash = t, Parents = [], Author = ''a'' @ [NUL] @ ''b'', Message = ''m'', Timestamp = 0\<rparr>)
      = Serialize (CommitObj \<lparr>TreeHash = t, Parents = [], Author = ''a'', Message = ''b'' @ [NUL] @ ''m'', Timestamp = 0\<rparr>)"
    by (simp add: Commit_Serialize_def)
  then show ?thesis by (simp only:) (rule objects.dec_enc, simp)
qed

text \<open>Printing an identifier and parsing it back is the identity; the printed form always has
  64 characters.\<close>

theorem hex_roundtrip: "ParseHex (BaseID_String i) = Inr i \<and> length (BaseID_String i) = 64"
  by (simp add: hex_ids.dec_enc)

end
