(* ===== verification/Index_File.thy ===== *)
theory Index_File
  imports Object_Format
begin

text \<open>
  \<^verbatim>\<open>pkg/index\<close>: the staging area and its binary file. Each entry is a fingerprint, a blob identifier,
  a state byte and a NUL-terminated path; the file is a signature, a version, a 32-bit count and the
  entries.
\<close>

section \<open>Data\<close>

type_synonym EntryState = u8

definition StateUnmodified :: EntryState where "StateUnmodified = 0"
definition StateAdded :: EntryState where "StateAdded = 1"
definition StateModified :: EntryState where "StateModified = 2"
definition StateDeleted :: EntryState where "StateDeleted = 3"

record Entry =
  Fingerprint :: u64
  ie_ObjectID :: BlobID
  ie_State :: EntryState
  ie_Path :: string

record Index =
  Entries :: "Entry list"

definition Signature :: string where "Signature = ''VARA''"
definition Version :: u32 where "Version = 1"

definition New :: Index where "New = \<lparr>Entries = []\<rparr>"

section \<open>Serialization\<close>

definition index_entry_bytes :: "Entry \<Rightarrow> bytes" where
  "index_entry_bytes e =
     word_bytes (Fingerprint e) @ word_bytes (ie_ObjectID e) @ word_bytes (ie_State e) @ ie_Path e @ [NUL]"

definition Index_Serialize :: "Index \<Rightarrow> bytes" where
  "Index_Serialize idx =
     Signature @ word_bytes Version @ word_bytes (of_nat (length (Entries idx)) :: u32)
       @ concat (map index_entry_bytes (Entries idx))"

fun read_index_entries :: "nat \<Rightarrow> bytes \<Rightarrow> verr + Entry list" where
  "read_index_entries 0 r = Inr []"
| "read_index_entries (Suc n) r =
     bind_res (of_opt ErrCorruptIndex (read_full 8 r)) (\<lambda>(fp, r1).
     bind_res (of_opt ErrCorruptIndex (read_full 32 r1)) (\<lambda>(oid, r2).
     bind_res (of_opt ErrCorruptIndex (read_full 1 r2)) (\<lambda>(st, r3).
     bind_res (of_opt ErrCorruptIndex (read_until_nul r3)) (\<lambda>(path, r4).
     bind_res (read_index_entries n r4) (\<lambda>es.
       Inr (\<lparr>Fingerprint = bytes_word fp, ie_ObjectID = bytes_word oid, ie_State = bytes_word st,
             ie_Path = path\<rparr> # es))))))"

definition Index_Deserialize :: "bytes \<Rightarrow> verr + Index" where
  "Index_Deserialize data =
     bind_res (of_opt ErrCorruptIndex (read_full 4 data)) (\<lambda>(sig, r1).
       if sig \<noteq> Signature then Inl ErrCorruptIndex else
     bind_res (of_opt ErrCorruptIndex (read_full 4 r1)) (\<lambda>(v, r2).
       if bytes_word v \<noteq> Version then Inl ErrCorruptIndex else
     bind_res (of_opt ErrCorruptIndex (read_full 4 r2)) (\<lambda>(n, r3).
     bind_res (read_index_entries (unat (bytes_word n :: u32)) r3) (\<lambda>es.
       Inr \<lparr>Entries = es\<rparr>))))"

section \<open>Round trip\<close>

definition wf_index :: "Index \<Rightarrow> bool" where
  "wf_index idx \<longleftrightarrow> length (Entries idx) < 2 ^ 32 \<and> (\<forall>e \<in> set (Entries idx). NUL \<notin> set (ie_Path e))"

lemma read_index_entries_concat:
  "(\<forall>e \<in> set es. NUL \<notin> set (ie_Path e)) \<Longrightarrow>
     read_index_entries (length es) (concat (map index_entry_bytes es) @ rest) = Inr es"
  by (induction es) (simp_all add: index_entry_bytes_def)

lemma length_Signature [simp]: "length Signature = 4"
  by (simp add: Signature_def)

lemma Index_Deserialize_junk:
  assumes "wf_index idx"
  shows "Index_Deserialize (Index_Serialize idx @ junk) = Inr idx"
  using assms read_index_entries_concat [of "Entries idx" junk]
  by (simp add: wf_index_def Index_Deserialize_def Index_Serialize_def)

interpretation index_file: decoder Index_Serialize Index_Deserialize wf_index
  using Index_Deserialize_junk [where junk = "[]"] by unfold_locales simp

lemma Index_Deserialize_Inl: "Index_Deserialize data = Inl e \<Longrightarrow> e = ErrCorruptIndex"
proof -
  have "read_index_entries n r = Inl e \<Longrightarrow> e = ErrCorruptIndex" for n r
    by (induction n arbitrary: r) (auto simp: res_simps)
  then show "Index_Deserialize data = Inl e \<Longrightarrow> e = ErrCorruptIndex"
    by (auto simp: Index_Deserialize_def res_simps split: if_splits)
qed

section \<open>Properties\<close>

text \<open>Reading a written index gives the same entries in the same order, with their fingerprints,
  states and paths.\<close>

theorem index_roundtrip:
  assumes "wf_index idx"
  shows "Index_Deserialize (Index_Serialize idx) = Inr idx"
  using assms by (rule index_file.dec_enc)

definition sample_index :: Index where
  "sample_index = \<lparr>Entries = [\<lparr>Fingerprint = 9, ie_ObjectID = 4, ie_State = StateAdded, ie_Path = ''src/a.go''\<rparr>]\<rparr>"

theorem index_roundtrip_witness: "Index_Deserialize (Index_Serialize sample_index) = Inr sample_index"
  by (rule index_roundtrip) (simp add: wf_index_def sample_index_def)

text \<open>The index file carries no integrity trailer: arbitrary bytes after the last entry are
  accepted and ignored, where the package comment promises that a SHA-256 trailer is verified.\<close>

theorem index_ignores_trailing_bytes:
  assumes "wf_index idx"
  shows "Index_Deserialize (Index_Serialize idx @ junk) = Inr idx"
  using assms by (rule Index_Deserialize_junk)

theorem index_ignores_trailing_bytes_witness:
  "Index_Deserialize (Index_Serialize sample_index @ ''garbage'') = Inr sample_index"
  by (rule index_ignores_trailing_bytes) (simp add: wf_index_def sample_index_def)

end
