(* ===== verification/Go_Strings.thy ===== *)
theory Go_Strings
  imports Vara_Prelude
begin

text \<open>
  The functions of Go's \<^verbatim>\<open>strings\<close> package the program uses, on byte strings. White space is Unicode
  white space in its UTF-8 encoding, which is self-synchronizing: an encoded space at the end of a
  string is a byte suffix of it, so trimming can compare suffixes.
\<close>

definition HasPrefix :: "string \<Rightarrow> string \<Rightarrow> bool" where
  "HasPrefix s p \<longleftrightarrow> take (length p) s = p"

definition HasSuffix :: "string \<Rightarrow> string \<Rightarrow> bool" where
  "HasSuffix s p \<longleftrightarrow> HasPrefix (rev s) (rev p)"

definition TrimPrefix :: "string \<Rightarrow> string \<Rightarrow> string" where
  "TrimPrefix s p = (if HasPrefix s p then drop (length p) s else s)"

definition TrimSuffix :: "string \<Rightarrow> string \<Rightarrow> string" where
  "TrimSuffix s p = (if HasSuffix s p then take (length s - length p) s else s)"

fun Contains :: "string \<Rightarrow> string \<Rightarrow> bool" where
  "Contains [] p \<longleftrightarrow> p = []"
| "Contains (c # s) p \<longleftrightarrow> HasPrefix (c # s) p \<or> Contains s p"

definition TrimRight :: "string \<Rightarrow> char set \<Rightarrow> string" where
  "TrimRight s cs = rev (dropWhile (\<lambda>c. c \<in> cs) (rev s))"

definition space_runes :: "string list" where
  "space_runes = map (map (char_of :: nat \<Rightarrow> char))
     ([[9], [10], [11], [12], [13], [32], [194, 133], [194, 160], [225, 154, 128]]
      @ map (\<lambda>n. [226, 128, n]) [128 ..< 139]
      @ [[226, 128, 168], [226, 128, 169], [226, 128, 175], [226, 129, 159], [227, 128, 128]])"

fun trim_runes :: "nat \<Rightarrow> string list \<Rightarrow> string \<Rightarrow> string" where
  "trim_runes 0 rs s = s"
| "trim_runes (Suc n) rs s =
     (case find (HasPrefix s) rs of None \<Rightarrow> s | Some r \<Rightarrow> trim_runes n rs (drop (length r) s))"

text \<open>Every white space rune has at least one byte, so as many rounds as the string has bytes suffice.\<close>

definition TrimSpace :: "string \<Rightarrow> string" where
  "TrimSpace s =
     (let t = trim_runes (length s) space_runes s
      in rev (trim_runes (length t) (map rev space_runes) (rev t)))"

text \<open>\<^verbatim>\<open>strings.Split(s, sep)\<close> for a one-byte separator: always at least one part.\<close>

fun split_at :: "char \<Rightarrow> string \<Rightarrow> string \<Rightarrow> string list" where
  "split_at c acc [] = [acc]"
| "split_at c acc (x # s) = (if x = c then acc # split_at c [] s else split_at c (acc @ [x]) s)"

definition Split :: "string \<Rightarrow> char \<Rightarrow> string list" where
  "Split s c = split_at c [] s"

fun Join :: "string list \<Rightarrow> string \<Rightarrow> string" where
  "Join [] sep = []"
| "Join [x] sep = x"
| "Join (x # xs) sep = x @ sep @ Join xs sep"

section \<open>Lemmas\<close>

lemma HasPrefix_append [simp]: "HasPrefix (p @ s) p"
  by (simp add: HasPrefix_def)

lemma HasPrefix_Nil [simp]: "HasPrefix s []"
  by (simp add: HasPrefix_def)

lemma HasPrefix_iff: "HasPrefix s p \<longleftrightarrow> (\<exists>r. s = p @ r)"
  by (metis HasPrefix_append HasPrefix_def append_take_drop_id)

lemma TrimPrefix_append [simp]: "TrimPrefix (p @ s) p = s"
  by (simp add: TrimPrefix_def)

lemma split_at_no_sep: "c \<notin> set s \<Longrightarrow> split_at c acc s = [acc @ s]"
  by (induction s arbitrary: acc) auto

lemma Split_no_sep: "c \<notin> set s \<Longrightarrow> Split s c = [s]"
  by (simp add: Split_def split_at_no_sep)

lemma split_at_append: "c \<notin> set s \<Longrightarrow> split_at c acc (s @ c # t) = (acc @ s) # split_at c [] t"
  by (induction s arbitrary: acc) auto

lemma Split_append: "c \<notin> set s \<Longrightarrow> Split (s @ c # t) c = s # Split t c"
  by (simp add: Split_def split_at_append)

lemma split_at_nonempty: "split_at c acc s \<noteq> []"
  by (induction c acc s rule: split_at.induct) auto

lemma Join_split_at: "Join (split_at c acc s) [c] = acc @ s"
proof (induction c acc s rule: split_at.induct)
  case (2 c acc x s)
  show ?case
  proof (cases "x = c")
    case True
    obtain y ys where "split_at c [] s = y # ys" using split_at_nonempty [of c "[]" s] by (cases "split_at c [] s") auto
    with 2 True show ?thesis by simp
  qed (use 2 in simp)
qed simp

lemma Join_Split: "Join (Split s c) [c] = s"
  by (simp add: Split_def Join_split_at)

lemma Split_sep_free: "x \<in> set (Split s c) \<Longrightarrow> c \<notin> set x"
proof -
  have "c \<notin> set acc \<Longrightarrow> x \<in> set (split_at c acc s) \<Longrightarrow> c \<notin> set x" for acc
    by (induction c acc s rule: split_at.induct) (auto split: if_splits)
  from this [of "[]"] show "x \<in> set (Split s c) \<Longrightarrow> c \<notin> set x" by (simp add: Split_def)
qed

text \<open>A printable ASCII character neither starts nor ends a white space rune.\<close>

definition graphic :: "char \<Rightarrow> bool" where
  "graphic c \<longleftrightarrow> 33 \<le> (of_char c :: nat) \<and> (of_char c :: nat) < 127"

lemma space_runes_facts:
  "\<forall>r \<in> set space_runes. r \<noteq> [] \<and> \<not> graphic (hd r)"
  "\<forall>r \<in> set (map rev space_runes). r \<noteq> [] \<and> \<not> graphic (hd r) \<and> (hd r = LF \<longrightarrow> r = [LF])"
  "[LF] \<in> set (map rev space_runes)"
  by code_simp+

lemma trim_runes_graphic:
  "graphic c \<Longrightarrow> \<forall>r \<in> set rs. r \<noteq> [] \<and> \<not> graphic (hd r) \<Longrightarrow> trim_runes n rs (c # s) = c # s"
proof (cases n)
  case (Suc m)
  assume "graphic c" "\<forall>r \<in> set rs. r \<noteq> [] \<and> \<not> graphic (hd r)"
  then have "find (HasPrefix (c # s)) rs = None"
    by (auto simp: find_None_iff HasPrefix_iff) (metis append_Cons list.exhaust_sel list.inject)
  with Suc show ?thesis by simp
qed simp

lemma trim_runes_LF: "trim_runes (Suc n) (map rev space_runes) (LF # s) = trim_runes n (map rev space_runes) s"
proof -
  have "\<exists>r. find (HasPrefix (LF # s)) (map rev space_runes) = Some r"
    using space_runes_facts(3) HasPrefix_append [of "[LF]" s] by (metis append_Cons append_Nil find_None_iff not_None_eq)
  then obtain r where r: "find (HasPrefix (LF # s)) (map rev space_runes) = Some r" by blast
  then have "r \<in> set (map rev space_runes)" "HasPrefix (LF # s) r" by (auto simp: find_Some_iff)
  with space_runes_facts(2) have "r = [LF]" by (metis HasPrefix_iff append_Cons hd_Cons_tl list.inject)
  with r show ?thesis by simp
qed

lemma TrimSpace_graphic:
  assumes "s \<noteq> []" "graphic (hd s)" "graphic (last s)"
  shows "TrimSpace s = s" "TrimSpace (s @ [LF]) = s"
proof -
  obtain c t where s: "s = c # t" using assms(1) by (cases s) auto
  obtain d u where r: "rev s = d # u" using assms(1) by (cases "rev s") auto
  have d: "d = last s" using r by (metis hd_rev list.sel(1))
  have f: "trim_runes n space_runes (c # x) = c # x" for n x
    using trim_runes_graphic space_runes_facts(1) assms(2) s by auto
  have b: "trim_runes n (map rev space_runes) (rev s) = rev s" for n
    unfolding r using space_runes_facts(2) assms(3) d by (intro trim_runes_graphic) auto
  show "TrimSpace s = s" using f b s by (simp add: TrimSpace_def Let_def)
  show "TrimSpace (s @ [LF]) = s"
    using f [of _ "t @ [LF]"] b trim_runes_LF [of "length s" "rev s"] s by (simp add: TrimSpace_def Let_def)
qed

lemma split_at_append_sep: "split_at c acc (a @ c # b) = split_at c acc a @ split_at c [] b"
  by (induction c acc a rule: split_at.induct) auto

lemma Split_append_sep: "Split (a @ c # b) c = Split a c @ Split b c"
  by (simp add: Split_def split_at_append_sep)

lemma Split_part: "x \<in> set (Split s c) \<Longrightarrow> \<exists>a b. s = a @ x @ b"
proof -
  have "x \<in> set (split_at c acc s) \<Longrightarrow> \<exists>a b. acc @ s = a @ x @ b" for acc
  proof (induction c acc s rule: split_at.induct)
    case (1 c acc)
    then show ?case by (intro exI [of _ "[]"]) simp
  next
    case (2 c acc y s)
    show ?case
    proof (cases "y = c")
      case False
      with 2 show ?thesis by simp
    next
      case True
      with 2(3) consider "x = acc" | "x \<in> set (split_at c [] s)" by auto
      then show ?thesis
      proof cases
        case 1
        then show ?thesis by (intro exI [of _ "[]"] exI [of _ "y # s"]) simp
      next
        case rest: 2
        with 2(1) [OF True] obtain a b where "s = a @ x @ b" by auto
        then show ?thesis by (intro exI [of _ "acc @ y # a"] exI [of _ b]) simp
      qed
    qed
  qed
  from this [of "[]"] show "x \<in> set (Split s c) \<Longrightarrow> \<exists>a b. s = a @ x @ b" by (simp add: Split_def)
qed

lemma Contains_part: "Contains (a @ x @ b) x"
proof (induction a)
  case Nil
  show ?case by (cases "x @ b") (auto simp: HasPrefix_iff intro: sym)
qed simp

lemma Split_nonempty: "Split s c \<noteq> []"
  by (simp add: Split_def split_at_nonempty)

lemma Split_hd:
  assumes "s \<noteq> []" "hd s \<noteq> c"
  shows "hd (Split s c) \<noteq> []" "hd (hd (Split s c)) = hd s"
proof -
  have "acc \<noteq> [] \<Longrightarrow> hd (split_at c acc t) \<noteq> [] \<and> hd (hd (split_at c acc t)) = hd acc" for acc t
    by (induction t arbitrary: acc) (auto simp: hd_append)
  from this [of "[hd s]" "tl s"] assms show "hd (Split s c) \<noteq> []" "hd (hd (Split s c)) = hd s"
    by (cases s; simp add: Split_def)+
qed

lemma Join_append: "xs \<noteq> [] \<Longrightarrow> ys \<noteq> [] \<Longrightarrow> Join (xs @ ys) sep = Join xs sep @ sep @ Join ys sep"
  by (induction xs sep rule: Join.induct) (auto simp: neq_Nil_conv)

end
