(* ===== verification/Myers_Diff.thy ===== *)
theory Myers_Diff
  imports Vara_Prelude
begin

text \<open>
  \<^verbatim>\<open>pkg/diff/myers.go\<close>: the greedy line diff. The vector \<^verbatim>\<open>v\<close> is a list of integers indexed by diagonal
  plus offset, exactly as in the code; every array access is checked, and an access that Go would
  answer with a panic makes the model return \<^const>\<open>None\<close>. The theorems at the end show that no access
  panics, that the loop always ends at the corner of the edit graph (so the fallback is dead code),
  that the script transforms one file into the other, and that it is a shortest one.
\<close>

section \<open>Edit scripts\<close>

datatype edit = Keep string string | Insert string | Delete string

fun src_of :: "edit list \<Rightarrow> string list" where
  "src_of [] = []"
| "src_of (Keep a b # es) = a # src_of es"
| "src_of (Insert b # es) = src_of es"
| "src_of (Delete a # es) = a # src_of es"

fun dst_of :: "edit list \<Rightarrow> string list" where
  "dst_of [] = []"
| "dst_of (Keep a b # es) = b # dst_of es"
| "dst_of (Insert b # es) = b # dst_of es"
| "dst_of (Delete a # es) = dst_of es"

fun keeps_ok :: "edit list \<Rightarrow> bool" where
  "keeps_ok [] = True"
| "keeps_ok (Keep a b # es) \<longleftrightarrow> a = b \<and> keeps_ok es"
| "keeps_ok (_ # es) = keeps_ok es"

fun cost :: "edit list \<Rightarrow> nat" where
  "cost [] = 0"
| "cost (Keep a b # es) = cost es"
| "cost (_ # es) = Suc (cost es)"

definition is_script :: "string list \<Rightarrow> string list \<Rightarrow> edit list \<Rightarrow> bool" where
  "is_script src dst es \<longleftrightarrow> src_of es = src \<and> dst_of es = dst \<and> keeps_ok es"

section \<open>The algorithm\<close>

definition vget :: "'a list \<Rightarrow> int \<Rightarrow> 'a option" where
  "vget v i = (if 0 \<le> i \<and> i < int (length v) then Some (v ! nat i) else None)"

definition vset :: "'a list \<Rightarrow> int \<Rightarrow> 'a \<Rightarrow> 'a list option" where
  "vset v i x = (if 0 \<le> i \<and> i < int (length v) then Some (v[nat i := x]) else None)"

definition go_down :: "int \<Rightarrow> int list \<Rightarrow> int \<Rightarrow> int \<Rightarrow> bool option" where
  "go_down offset v d k =
     (if k = - d then Some True
      else if k = d then Some False
      else case vget v (k - 1 + offset) of None \<Rightarrow> None | Some a \<Rightarrow>
        (case vget v (k + 1 + offset) of None \<Rightarrow> None | Some b \<Rightarrow> Some (a < b)))"

function extend :: "string list \<Rightarrow> string list \<Rightarrow> int \<Rightarrow> int \<Rightarrow> int option" where
  "extend src dst x y =
     (if x < int (length src) \<and> y < int (length dst)
      then (case vget src x of None \<Rightarrow> None | Some a \<Rightarrow>
           (case vget dst y of None \<Rightarrow> None | Some b \<Rightarrow>
             if a = b then extend src dst (x + 1) (y + 1) else Some x))
      else Some x)"
  by pat_completeness auto
termination
  by (relation "measure (\<lambda>(src, dst, x, y). nat (int (length src) - x))") auto

declare extend.simps [simp del]

function myers_round :: "string list \<Rightarrow> string list \<Rightarrow> int \<Rightarrow> int \<Rightarrow> int \<Rightarrow> int list \<Rightarrow> (int list \<times> bool) option" where
  "myers_round src dst offset d k v =
     (if k > d then Some (v, False)
      else case go_down offset v d k of None \<Rightarrow> None | Some down \<Rightarrow>
        (case (if down then vget v (k + 1 + offset)
               else map_option (\<lambda>a. a + 1) (vget v (k - 1 + offset))) of
          None \<Rightarrow> None | Some x0 \<Rightarrow>
        (case extend src dst x0 (x0 - k) of None \<Rightarrow> None | Some x \<Rightarrow>
        (case vset v (k + offset) x of None \<Rightarrow> None | Some v' \<Rightarrow>
          if x \<ge> int (length src) \<and> x - k \<ge> int (length dst) then Some (v', True)
          else myers_round src dst offset d (k + 2) v'))))"
  by pat_completeness auto
termination
  by (relation "measure (\<lambda>(src, dst, offset, d, k, v). nat (d + 1 - k))") auto

declare myers_round.simps [simp del]

function back_snake :: "string list \<Rightarrow> string list \<Rightarrow> int \<Rightarrow> int \<Rightarrow> int \<Rightarrow> int \<Rightarrow> edit list option" where
  "back_snake src dst x0 y0 x y =
     (if x > x0 \<and> y > y0
      then (case vget src (x - 1) of None \<Rightarrow> None | Some a \<Rightarrow>
           (case vget dst (y - 1) of None \<Rightarrow> None | Some b \<Rightarrow>
             map_option (\<lambda>es. Keep a b # es) (back_snake src dst x0 y0 (x - 1) (y - 1))))
      else Some [])"
  by pat_completeness auto
termination
  by (relation "measure (\<lambda>(src, dst, x0, y0, x, y). nat (x - x0))") auto

declare back_snake.simps [simp del]

fun back_loop :: "int list list \<Rightarrow> string list \<Rightarrow> string list \<Rightarrow> int \<Rightarrow> nat \<Rightarrow> int \<Rightarrow> int \<Rightarrow> edit list option" where
  "back_loop traces src dst offset 0 x y = back_snake src dst 0 0 x y"
| "back_loop traces src dst offset (Suc d) x y =
     (case vget traces (int (Suc d)) of None \<Rightarrow> None | Some v \<Rightarrow>
     (let k = x - y in
      case go_down offset v (int (Suc d)) k of None \<Rightarrow> None | Some down \<Rightarrow>
     (let prevK = (if down then k + 1 else k - 1) in
      case vget v (prevK + offset) of None \<Rightarrow> None | Some prevX \<Rightarrow>
     (let prevY = prevX - prevK in
      case (if down then back_snake src dst prevX (prevY + 1) x y
            else back_snake src dst (prevX + 1) prevY x y) of None \<Rightarrow> None | Some ks \<Rightarrow>
     (case (if down then map_option Insert (vget dst prevY) else map_option Delete (vget src prevX)) of
        None \<Rightarrow> None | Some e \<Rightarrow>
        map_option (\<lambda>es. ks @ e # es) (back_loop traces src dst offset d prevX prevY))))))"

definition buildEdits :: "int list list \<Rightarrow> string list \<Rightarrow> string list \<Rightarrow> nat \<Rightarrow> int \<Rightarrow> edit list option" where
  "buildEdits traces src dst d offset =
     map_option rev (back_loop traces src dst offset d (int (length src)) (int (length dst)))"

function myers_loop :: "string list \<Rightarrow> string list \<Rightarrow> nat \<Rightarrow> int list \<Rightarrow> int list list \<Rightarrow> edit list option" where
  "myers_loop src dst d v traces =
     (let mx = length src + length dst in
      if d > mx then Some (map Delete src @ map Insert dst)
      else case myers_round src dst (int mx) (int d) (- int d) v of
        None \<Rightarrow> None
      | Some (v', True) \<Rightarrow> buildEdits (traces @ [v]) src dst d (int mx)
      | Some (v', False) \<Rightarrow> myers_loop src dst (Suc d) v' (traces @ [v]))"
  by pat_completeness auto
termination
  by (relation "measure (\<lambda>(src, dst, d, v, t). length src + length dst + 1 - d)") auto

declare myers_loop.simps [simp del]

definition myersDiff :: "string list \<Rightarrow> string list \<Rightarrow> edit list option" where
  "myersDiff src dst =
     (if src = [] then Some (map Insert dst)
      else if dst = [] then Some (map Delete src)
      else myers_loop src dst 0 (replicate (2 * (length src + length dst) + 1) 0) [])"

section \<open>The furthest reaching points\<close>

fun lcp :: "'a list \<Rightarrow> 'a list \<Rightarrow> nat" where
  "lcp (x # xs) (y # ys) = (if x = y then Suc (lcp xs ys) else 0)"
| "lcp _ _ = 0"

definition slide :: "'a list \<Rightarrow> 'a list \<Rightarrow> int \<Rightarrow> int \<Rightarrow> int" where
  "slide src dst k x = x + int (lcp (drop (nat x) src) (drop (nat (x - k)) dst))"

fun reach :: "'a list \<Rightarrow> 'a list \<Rightarrow> nat \<Rightarrow> int \<Rightarrow> int" where
  "reach src dst 0 k = slide src dst k 0"
| "reach src dst (Suc d) k = slide src dst k
     (if k = - int (Suc d) \<or> (k \<noteq> int (Suc d) \<and> reach src dst d (k - 1) < reach src dst d (k + 1))
      then reach src dst d (k + 1) else reach src dst d (k - 1) + 1)"

definition diag :: "nat \<Rightarrow> int \<Rightarrow> bool" where
  "diag d k \<longleftrightarrow> - int d \<le> k \<and> k \<le> int d \<and> even (int d - k)"

lemma diag_0 [simp]: "diag 0 k \<longleftrightarrow> k = 0"
  by (auto simp: diag_def)

lemma diag_Suc_down: "diag (Suc d) k \<Longrightarrow> k \<noteq> int (Suc d) \<Longrightarrow> diag d (k + 1)"
  unfolding diag_def by (auto elim!: evenE) presburger+

lemma diag_Suc_right: "diag (Suc d) k \<Longrightarrow> k \<noteq> - int (Suc d) \<Longrightarrow> diag d (k - 1)"
  unfolding diag_def by (auto elim!: evenE) presburger+

lemma diag_down_Suc: "diag d (k + 1) \<Longrightarrow> diag (Suc d) k"
  unfolding diag_def by auto

lemma diag_right_Suc: "diag d (k - 1) \<Longrightarrow> diag (Suc d) k"
  unfolding diag_def by auto

lemma lcp_le: "lcp xs ys \<le> length xs" "lcp xs ys \<le> length ys"
  by (induction xs ys rule: lcp.induct) auto

lemma lcp_nth: "i < lcp xs ys \<Longrightarrow> xs ! i = ys ! i"
  by (induction xs ys arbitrary: i rule: lcp.induct) (auto simp: nth_Cons split: if_splits nat.splits)

lemma lcp_max: "lcp xs ys < length xs \<Longrightarrow> lcp xs ys < length ys \<Longrightarrow> xs ! lcp xs ys \<noteq> ys ! lcp xs ys"
  by (induction xs ys rule: lcp.induct) auto

lemma slide_ge: "x \<le> slide src dst k x"
  by (simp add: slide_def)

lemma slide_beyond:
  assumes "0 \<le> x" "k \<le> x" "slide src dst k x > x"
  shows "slide src dst k x \<le> int (length src)" "slide src dst k x - k \<le> int (length dst)"
  using assms lcp_le [of "drop (nat x) src" "drop (nat (x - k)) dst"]
  unfolding slide_def length_drop by linarith+

lemma slide_eq:
  assumes "0 \<le> x" "k \<le> x" "x \<le> i" "i < slide src dst k x"
  shows "src ! nat i = dst ! nat (i - k)"
proof -
  define j where "j = nat (i - x)"
  have j: "j < lcp (drop (nat x) src) (drop (nat (x - k)) dst)" "nat i = nat x + j" "nat (i - k) = nat (x - k) + j"
    using assms by (auto simp: slide_def j_def)
  have b: "nat x + j < length src" "nat (x - k) + j < length dst"
    using j(1) lcp_le [of "drop (nat x) src" "drop (nat (x - k)) dst"] unfolding length_drop by linarith+
  from lcp_nth [OF j(1)] b j show ?thesis by simp
qed

lemma slide_stops:
  assumes "0 \<le> x" "k \<le> x" "slide src dst k x = r" "r < int (length src)" "r - k < int (length dst)"
  shows "src ! nat r \<noteq> dst ! nat (r - k)"
proof -
  define l where "l = lcp (drop (nat x) src) (drop (nat (x - k)) dst)"
  have r: "nat r = nat x + l" "nat (r - k) = nat (x - k) + l"
    using assms by (auto simp: slide_def l_def)
  have b: "nat x + l < length src" "nat (x - k) + l < length dst"
    using r assms slide_ge [of x src dst k] by linarith+
  then have "l < length (drop (nat x) src)" "l < length (drop (nat (x - k)) dst)"
    unfolding length_drop by linarith+
  then have "drop (nat x) src ! l \<noteq> drop (nat (x - k)) dst ! l"
    unfolding l_def by (rule lcp_max)
  with b r show ?thesis by simp
qed

text \<open>The starting point of a slide, and the two ways it dominates its neighbours.\<close>

definition start :: "'a list \<Rightarrow> 'a list \<Rightarrow> nat \<Rightarrow> int \<Rightarrow> int" where
  "start src dst d k =
     (if k = - int (Suc d) \<or> (k \<noteq> int (Suc d) \<and> reach src dst d (k - 1) < reach src dst d (k + 1))
      then reach src dst d (k + 1) else reach src dst d (k - 1) + 1)"

lemma reach_Suc: "reach src dst (Suc d) k = slide src dst k (start src dst d k)"
  by (simp add: start_def)

declare reach.simps(2) [simp del]

lemma start_ge_down: "diag d (k + 1) \<Longrightarrow> reach src dst d (k + 1) \<le> start src dst d k"
  by (auto simp: start_def diag_def)

lemma start_ge_right: "diag d (k - 1) \<Longrightarrow> reach src dst d (k - 1) + 1 \<le> start src dst d k"
  by (auto simp: start_def diag_def)

lemma start_cases:
  assumes "diag (Suc d) k"
  obtains "start src dst d k = reach src dst d (k + 1)" "diag d (k + 1)"
  | "start src dst d k = reach src dst d (k - 1) + 1" "diag d (k - 1)"
proof (cases "k = - int (Suc d) \<or> (k \<noteq> int (Suc d) \<and> reach src dst d (k - 1) < reach src dst d (k + 1))")
  case True
  then have "k \<noteq> int (Suc d)" by auto
  with True diag_Suc_down [OF assms] that(1) show ?thesis by (simp add: start_def)
next
  case False
  then have "start src dst d k = reach src dst d (k - 1) + 1" unfolding start_def by (rule if_not_P)
  with False diag_Suc_right [OF assms] that(2) show ?thesis by blast
qed

lemma reach_bounds: "diag d k \<Longrightarrow> 0 \<le> reach src dst d k \<and> k \<le> reach src dst d k \<and> int d \<le> 2 * reach src dst d k - k"
proof (induction d arbitrary: k)
  case 0
  then show ?case using slide_ge [of 0 src dst 0] by simp
next
  case (Suc d)
  have "0 \<le> start src dst d k \<and> k \<le> start src dst d k \<and> int (Suc d) \<le> 2 * start src dst d k - k"
    using Suc.prems by (rule start_cases [of d k src dst]) (use Suc.IH [of "k + 1"] Suc.IH [of "k - 1"] in force)+
  with slide_ge [of "start src dst d k" src dst k] show ?case by (simp add: reach_Suc)
qed

lemma start_bounds:
  assumes "diag (Suc d) k" shows "0 \<le> start src dst d k" "k \<le> start src dst d k"
  by (rule start_cases [OF assms, of src dst];
      use reach_bounds [of d "k + 1" src dst] reach_bounds [of d "k - 1" src dst] in force)+

text \<open>A point beyond the right edge was already matched one round earlier on the neighbouring
  diagonal, and likewise below the bottom edge; hence the first round to touch the corner from
  outside touches it exactly.\<close>

lemma reach_beyond_src:
  "\<lbrakk>diag d k; reach src dst d k > int (length src)\<rbrakk> \<Longrightarrow>
     \<exists>e. d = Suc e \<and> diag e (k - 1) \<and> reach src dst d k \<le> reach src dst e (k - 1) + 1"
proof (induction d arbitrary: k rule: less_induct)
  case (less d)
  show ?case
  proof (cases d)
    case 0
    with less.prems show ?thesis using slide_beyond [of 0 k src dst] by (force simp: slide_def)
  next
    case (Suc e)
    have s: "start src dst e k = reach src dst d k"
      using less.prems slide_beyond [of "start src dst e k" k src dst] start_bounds [of e k src dst] slide_ge [of "start src dst e k" src dst k]
      unfolding Suc reach_Suc by linarith
    from less.prems(1) show ?thesis unfolding Suc
    proof (rule start_cases [of e k src dst])
      assume a: "start src dst e k = reach src dst e (k + 1)" "diag e (k + 1)"
      from less.IH [of e "k + 1"] a s less.prems(2) Suc obtain c where
        c: "e = Suc c" "diag c k" "reach src dst e (k + 1) \<le> reach src dst c k + 1" by auto
      then have g: "diag e (k - 1)" using diag_down_Suc [of c "k - 1"] by simp
      have "reach src dst c k \<le> start src dst c (k - 1)" using start_ge_down [of c "k - 1"] c by simp
      also have "\<dots> \<le> reach src dst e (k - 1)" unfolding c(1) reach_Suc by (rule slide_ge)
      finally show "\<exists>e'. Suc e = Suc e' \<and> diag e' (k - 1) \<and> reach src dst (Suc e) k \<le> reach src dst e' (k - 1) + 1"
        using g c a s Suc by auto
    qed (use s Suc in auto)
  qed
qed

lemma reach_beyond_dst:
  "\<lbrakk>diag d k; reach src dst d k - k > int (length dst)\<rbrakk> \<Longrightarrow>
     \<exists>e. d = Suc e \<and> diag e (k + 1) \<and> reach src dst d k \<le> reach src dst e (k + 1)"
proof (induction d arbitrary: k rule: less_induct)
  case (less d)
  show ?case
  proof (cases d)
    case 0
    with less.prems show ?thesis using slide_beyond [of 0 k src dst] by (force simp: slide_def)
  next
    case (Suc e)
    have s: "start src dst e k = reach src dst d k"
      using less.prems slide_beyond [of "start src dst e k" k src dst] start_bounds [of e k src dst] slide_ge [of "start src dst e k" src dst k]
      unfolding Suc reach_Suc by linarith
    from less.prems(1) show ?thesis unfolding Suc
    proof (rule start_cases [of e k src dst])
      assume a: "start src dst e k = reach src dst e (k - 1) + 1" "diag e (k - 1)"
      from less.IH [of e "k - 1"] a s less.prems(2) Suc obtain c where
        c: "e = Suc c" "diag c k" "reach src dst e (k - 1) \<le> reach src dst c k" by auto
      then have g: "diag e (k + 1)" using diag_right_Suc [of c "k + 1"] by simp
      have "reach src dst c k + 1 \<le> start src dst c (k + 1)" using start_ge_right [of c "k + 1"] c by simp
      also have "\<dots> \<le> reach src dst e (k + 1)" unfolding c(1) reach_Suc by (rule slide_ge)
      finally show "\<exists>e'. Suc e = Suc e' \<and> diag e' (k + 1) \<and> reach src dst (Suc e) k \<le> reach src dst e' (k + 1)"
        using g c a s Suc by auto
    qed (use s Suc in auto)
  qed
qed

definition corner :: "'a list \<Rightarrow> 'a list \<Rightarrow> nat \<Rightarrow> int \<Rightarrow> bool" where
  "corner src dst d k \<longleftrightarrow> reach src dst d k \<ge> int (length src) \<and> reach src dst d k - k \<ge> int (length dst)"

lemma corner_exact:
  assumes "diag d k" "corner src dst d k" "\<And>e j. e < d \<Longrightarrow> diag e j \<Longrightarrow> \<not> corner src dst e j"
  shows "reach src dst d k = int (length src)" "k = int (length src) - int (length dst)"
proof -
  have 1: "\<not> reach src dst d k > int (length src)"
  proof
    assume "reach src dst d k > int (length src)"
    from reach_beyond_src [OF assms(1) this] obtain e where
      e: "d = Suc e" "diag e (k - 1)" "reach src dst d k \<le> reach src dst e (k - 1) + 1" by blast
    with assms(3) [of e "k - 1"] assms(2) \<open>reach src dst d k > int (length src)\<close> show False
      by (auto simp: corner_def)
  qed
  have 2: "\<not> reach src dst d k - k > int (length dst)"
  proof
    assume "reach src dst d k - k > int (length dst)"
    from reach_beyond_dst [OF assms(1) this] obtain e where
      e: "d = Suc e" "diag e (k + 1)" "reach src dst d k \<le> reach src dst e (k + 1)" by blast
    with assms(3) [of e "k + 1"] assms(2) \<open>reach src dst d k - k > int (length dst)\<close> show False
      by (auto simp: corner_def)
  qed
  from 1 2 assms(2) show "reach src dst d k = int (length src)" "k = int (length src) - int (length dst)"
    by (auto simp: corner_def)
qed

lemma corner_by_max:
  defines "D \<equiv> \<lambda>src dst. length src + length dst"
  shows "diag (D src dst) (int (length src) - int (length dst))"
        "corner src dst (D src dst) (int (length src) - int (length dst))"
proof -
  show g: "diag (D src dst) (int (length src) - int (length dst))" by (simp add: diag_def D_def)
  from reach_bounds [OF g, of src dst]
  show "corner src dst (D src dst) (int (length src) - int (length dst))" by (simp add: corner_def D_def)
qed

section \<open>The loops compute the furthest reaching points\<close>

lemma vget_in [simp]: "0 \<le> i \<Longrightarrow> i < int (length v) \<Longrightarrow> vget v i = Some (v ! nat i)"
  by (simp add: vget_def)

lemma vset_in [simp]: "0 \<le> i \<Longrightarrow> i < int (length v) \<Longrightarrow> vset v i x = Some (v[nat i := x])"
  by (simp add: vset_def)

lemma extend_slide:
  "0 \<le> x \<Longrightarrow> k \<le> x \<Longrightarrow> extend src dst x (x - k) = Some (slide src dst k x)"
proof (induction "nat (int (length src) - x)" arbitrary: x rule: less_induct)
  case less
  let ?y = "x - k"
  show ?case
  proof (cases "x < int (length src) \<and> ?y < int (length dst)")
    case True
    then have "nat x < length src" "nat ?y < length dst" using less.prems by linarith+
    then have d: "drop (nat x) src = src ! nat x # drop (nat (x + 1)) src"
      "drop (nat ?y) dst = dst ! nat ?y # drop (nat (?y + 1)) dst"
      using less.prems Cons_nth_drop_Suc [of "nat x" src] Cons_nth_drop_Suc [of "nat ?y" dst]
      by (simp_all add: nat_add_distrib)
    have r: "extend src dst x ?y =
      (if src ! nat x = dst ! nat ?y then extend src dst (x + 1) (?y + 1) else Some x)"
      using True less.prems by (subst extend.simps) simp
    have "extend src dst (x + 1) (x + 1 - k) = Some (slide src dst k (x + 1))"
      using True less.prems by (intro less.hyps) auto
    with d r show ?thesis by (auto simp: slide_def algebra_simps)
  next
    case False
    then have "drop (nat x) src = [] \<or> drop (nat ?y) dst = []" by auto
    then have "lcp (drop (nat x) src) (drop (nat ?y) dst) = 0"
      using lcp_le [of "drop (nat x) src" "drop (nat ?y) dst"] by auto
    with False show ?thesis by (subst extend.simps) (auto simp: slide_def)
  qed
qed

definition from_pt :: "'a list \<Rightarrow> 'a list \<Rightarrow> nat \<Rightarrow> int \<Rightarrow> int" where
  "from_pt src dst d k = (case d of 0 \<Rightarrow> 0 | Suc e \<Rightarrow> start src dst e k)"

lemma reach_from_pt: "reach src dst d k = slide src dst k (from_pt src dst d k)"
  by (cases d) (simp_all add: from_pt_def reach_Suc)

lemma from_pt_bounds: "diag d k \<Longrightarrow> 0 \<le> from_pt src dst d k \<and> k \<le> from_pt src dst d k"
  using start_bounds by (cases d) (auto simp: from_pt_def)

definition row_ok :: "'a list \<Rightarrow> 'a list \<Rightarrow> nat \<Rightarrow> int list \<Rightarrow> bool" where
  "row_ok src dst d v \<longleftrightarrow>
     length v = 2 * (length src + length dst) + 1 \<and>
     (case d of 0 \<Rightarrow> v ! (length src + length dst + 1) = 0
      | Suc e \<Rightarrow> \<forall>j. diag e j \<longrightarrow> v ! nat (j + int (length src + length dst)) = reach src dst e j)"

definition down_at :: "'a list \<Rightarrow> 'a list \<Rightarrow> nat \<Rightarrow> int \<Rightarrow> bool" where
  "down_at src dst d k \<longleftrightarrow> k = - int d \<or> (k \<noteq> int d \<and>
     (case d of 0 \<Rightarrow> True | Suc e \<Rightarrow> reach src dst e (k - 1) < reach src dst e (k + 1)))"

lemma row_ok_get:
  assumes "row_ok src dst (Suc e) v" "diag e j" "e \<le> length src + length dst"
  shows "vget v (j + int (length src + length dst)) = Some (reach src dst e j)"
proof -
  have "0 \<le> j + int (length src + length dst)" "j + int (length src + length dst) < int (length v)"
    using assms by (auto simp: row_ok_def diag_def)
  with assms show ?thesis by (simp add: row_ok_def)
qed

lemma go_down_row:
  assumes "row_ok src dst d v" "diag d k" "d \<le> length src + length dst"
  shows "go_down (int (length src + length dst)) v (int d) k = Some (down_at src dst d k)"
proof (cases d)
  case 0
  with assms show ?thesis by (simp add: go_down_def down_at_def)
next
  case (Suc e)
  with assms diag_Suc_down [of e k] diag_Suc_right [of e k]
    row_ok_get [of src dst e v "k - 1"] row_ok_get [of src dst e v "k + 1"]
  show ?thesis by (auto simp: go_down_def down_at_def)
qed

lemma start_row:
  assumes "row_ok src dst d v" "diag d k" "d \<le> length src + length dst" "src \<noteq> []"
  shows "(if down_at src dst d k then vget v (k + 1 + int (length src + length dst))
          else map_option (\<lambda>a. a + 1) (vget v (k - 1 + int (length src + length dst)))) =
         Some (from_pt src dst d k)"
proof (cases d)
  case 0
  have "length src + length dst + 1 < length v" using assms by (cases src) (auto simp: row_ok_def)
  moreover have "nat (1 + int (length src + length dst)) = length src + length dst + 1" by linarith
  ultimately have "vget v (1 + int (length src + length dst)) = Some 0"
    using 0 assms(1) by (auto simp: vget_def row_ok_def simp del: of_nat_add)
  then show ?thesis using 0 assms by (simp add: down_at_def from_pt_def)
next
  case (Suc e)
  show ?thesis
  proof (cases "down_at src dst d k")
    case True
    then have "diag e (k + 1)" using diag_Suc_down [of e k] assms(2) unfolding Suc down_at_def by force
    with True Suc assms row_ok_get [of src dst e v "k + 1"] show ?thesis
      by (auto simp: down_at_def from_pt_def start_def)
  next
    case False
    then have "diag e (k - 1)" using diag_Suc_right [of e k] assms(2) unfolding Suc down_at_def by force
    with False Suc assms row_ok_get [of src dst e v "k - 1"] show ?thesis
      by (auto simp: down_at_def from_pt_def start_def)
  qed
qed

lemma row_ok_update:
  assumes "row_ok src dst d v" "diag d k" "d \<le> length src + length dst"
  shows "row_ok src dst d (v[nat (k + int (length src + length dst)) := x])"
proof (cases d)
  case 0
  with assms show ?thesis by (simp add: row_ok_def nat_int_add)
next
  case (Suc e)
  have "nat (k + int (length src + length dst)) \<noteq> nat (j + int (length src + length dst))" if "diag e j" for j
  proof
    assume "nat (k + int (length src + length dst)) = nat (j + int (length src + length dst))"
    with that assms Suc have "k = j" unfolding diag_def by linarith
    with that assms(2) Suc show False by (auto simp: diag_def)
  qed
  with assms Suc show ?thesis by (auto simp: row_ok_def)
qed

lemma diag_step: "diag d k \<Longrightarrow> k < int d \<Longrightarrow> diag d (k + 2)"
  unfolding diag_def by (auto elim!: evenE) presburger+

lemma diag_below_step: "diag d j \<Longrightarrow> diag d k \<Longrightarrow> j < k + 2 \<Longrightarrow> j \<le> k"
  unfolding diag_def by presburger

definition row_done :: "'a list \<Rightarrow> 'a list \<Rightarrow> nat \<Rightarrow> int \<Rightarrow> int list \<Rightarrow> bool" where
  "row_done src dst d k v \<longleftrightarrow> (\<forall>j. diag d j \<and> j < k \<longrightarrow>
     v ! nat (j + int (length src + length dst)) = reach src dst d j \<and> \<not> corner src dst d j)"

lemma row_done_step:
  assumes "row_done src dst d k v" "diag d k" "d \<le> length src + length dst" "\<not> corner src dst d k"
    "length v = 2 * (length src + length dst) + 1"
  shows "row_done src dst d (k + 2) (v[nat (k + int (length src + length dst)) := reach src dst d k])"
  unfolding row_done_def
proof (intro allI impI)
  fix j assume j: "diag d j \<and> j < k + 2"
  let ?i = "\<lambda>j. nat (j + int (length src + length dst))"
  show "v[?i k := reach src dst d k] ! ?i j = reach src dst d j \<and> \<not> corner src dst d j"
  proof (cases "j = k")
    case True
    have "?i k < length v" using assms(2,3,5) by (auto simp: diag_def nat_less_iff)
    with True assms(4) show ?thesis by simp
  next
    case False
    with j diag_below_step [of d j k] assms(2) have "j < k" by auto
    moreover have "?i k \<noteq> ?i j" using j assms(2,3) False unfolding diag_def by linarith
    ultimately show ?thesis using assms(1) j by (simp add: row_done_def)
  qed
qed

lemma myers_round_unfold:
  assumes "row_ok src dst d v" "diag d k" "d \<le> length src + length dst" "src \<noteq> []"
  defines "v' \<equiv> v[nat (k + int (length src + length dst)) := reach src dst d k]"
  shows "myers_round src dst (int (length src + length dst)) (int d) k v =
     (if corner src dst d k then Some (v', True)
      else myers_round src dst (int (length src + length dst)) (int d) (k + 2) v')"
proof -
  have "extend src dst (from_pt src dst d k) (from_pt src dst d k - k) = Some (reach src dst d k)"
    using from_pt_bounds [OF assms(2), of src dst] by (simp add: extend_slide reach_from_pt)
  moreover have "0 \<le> k + int (length src + length dst)" "k + int (length src + length dst) < int (length v)"
    "\<not> k > int d"
    using assms(1-3) by (auto simp: row_ok_def diag_def)
  ultimately show ?thesis
    using go_down_row [OF assms(1-3)] start_row [OF assms(1-4)]
    by (subst myers_round.simps) (simp add: corner_def v'_def del: of_nat_add)
qed

lemma myers_round_spec:
  assumes "row_ok src dst d v" "diag d k" "d \<le> length src + length dst" "src \<noteq> []" "row_done src dst d k v"
  shows "\<exists>v' b. myers_round src dst (int (length src + length dst)) (int d) k v = Some (v', b) \<and>
    (if b then \<exists>j. diag d j \<and> corner src dst d j
     else row_ok src dst (Suc d) v' \<and> (\<forall>j. diag d j \<longrightarrow> \<not> corner src dst d j))"
  using assms
proof (induction "nat (int d - k)" arbitrary: k v rule: less_induct)
  case less
  let ?v = "v[nat (k + int (length src + length dst)) := reach src dst d k]"
  note unf = myers_round_unfold [OF less.prems(1-4)]
  show ?case
  proof (cases "corner src dst d k")
    case True
    with unf less.prems show ?thesis by auto
  next
    case False
    have len: "length v = 2 * (length src + length dst) + 1" using less.prems by (simp add: row_ok_def)
    note rd = row_done_step [OF less.prems(5,2,3) False len]
    note ro = row_ok_update [OF less.prems(1-3), of "reach src dst d k"]
    show ?thesis
    proof (cases "k < int d")
      case True
      with less.hyps [OF _ ro diag_step [OF less.prems(2) True] less.prems(3,4) rd] unf False
      show ?thesis by simp
    next
      case last: False
      have all: "j < k + 2" if "diag d j" for j using that last less.prems(2) by (auto simp: diag_def)
      have "row_ok src dst (Suc d) ?v" using rd all len by (auto simp: row_ok_def row_done_def)
      moreover have "\<forall>j. diag d j \<longrightarrow> \<not> corner src dst d j" using rd all by (auto simp: row_done_def)
      moreover have "myers_round src dst (int (length src + length dst)) (int d) (k + 2) ?v = Some (?v, False)"
        using last by (subst myers_round.simps) simp
      ultimately show ?thesis using unf False by (intro exI [of _ ?v] exI [of _ False]) simp
    qed
  qed
qed

section \<open>Walking back\<close>

lemma src_of_append [simp]: "src_of (xs @ ys) = src_of xs @ src_of ys"
  by (induction xs rule: src_of.induct) auto

lemma dst_of_append [simp]: "dst_of (xs @ ys) = dst_of xs @ dst_of ys"
  by (induction xs rule: dst_of.induct) auto

lemma keeps_ok_append [simp]: "keeps_ok (xs @ ys) \<longleftrightarrow> keeps_ok xs \<and> keeps_ok ys"
  by (induction xs rule: keeps_ok.induct) auto

lemma cost_append [simp]: "cost (xs @ ys) = cost xs + cost ys"
  by (induction xs rule: cost.induct) auto

lemma keeps_ok_rev [simp]: "keeps_ok (rev xs) = keeps_ok xs"
  by (induction xs rule: keeps_ok.induct) auto

lemma cost_rev [simp]: "cost (rev xs) = cost xs"
  by (induction xs rule: cost.induct) auto

lemma take_nat_snoc:
  assumes "0 < x" "x \<le> int (length xs)"
  shows "take (nat x) xs = take (nat (x - 1)) xs @ [xs ! nat (x - 1)]"
proof -
  have "nat x = Suc (nat (x - 1))" "nat (x - 1) < length xs" using assms by auto
  then show ?thesis by (simp add: take_Suc_conv_app_nth)
qed

lemma back_snake_spec:
  assumes "0 \<le> x0" "0 \<le> y0" "x0 \<le> x" "x - y = x0 - y0" "x \<le> int (length src)" "y \<le> int (length dst)"
    "\<And>i. x0 \<le> i \<Longrightarrow> i < x \<Longrightarrow> src ! nat i = dst ! nat (i - (x - y))"
  shows "\<exists>ks. back_snake src dst x0 y0 x y = Some ks \<and> keeps_ok ks \<and> cost ks = 0 \<and>
    take (nat x0) src @ src_of (rev ks) = take (nat x) src \<and>
    take (nat y0) dst @ dst_of (rev ks) = take (nat y) dst"
  using assms
proof (induction "nat (x - x0)" arbitrary: x y rule: less_induct)
  case less
  show ?case
  proof (cases "x > x0")
    case False
    with less.prems show ?thesis by (subst back_snake.simps) auto
  next
    case True
    then have y: "y > y0" using less.prems by auto
    have "\<exists>ks. back_snake src dst x0 y0 (x - 1) (y - 1) = Some ks \<and> keeps_ok ks \<and> cost ks = 0 \<and>
      take (nat x0) src @ src_of (rev ks) = take (nat (x - 1)) src \<and>
      take (nat y0) dst @ dst_of (rev ks) = take (nat (y - 1)) dst"
      using True less.prems by (intro less.hyps) auto
    moreover have "vget src (x - 1) = Some (src ! nat (x - 1))" "vget dst (y - 1) = Some (dst ! nat (y - 1))"
      using True y less.prems by auto
    moreover have "src ! nat (x - 1) = dst ! nat (y - 1)" using less.prems(7) [of "x - 1"] True by simp
    ultimately show ?thesis
      using True y less.prems take_nat_snoc [of x src] take_nat_snoc [of y dst]
      by (subst back_snake.simps) auto
  qed
qed

definition back_ok :: "string list \<Rightarrow> string list \<Rightarrow> nat \<Rightarrow> int \<Rightarrow> int \<Rightarrow> edit list option \<Rightarrow> bool" where
  "back_ok src dst d x y r \<longleftrightarrow> (\<exists>es. r = Some es \<and> keeps_ok es \<and> cost es = d \<and>
     src_of (rev es) = take (nat x) src \<and> dst_of (rev es) = take (nat y) dst)"

lemma down_at_start:
  assumes "diag (Suc e) k"
  shows "if down_at src dst (Suc e) k then diag e (k + 1) \<and> start src dst e k = reach src dst e (k + 1)
         else diag e (k - 1) \<and> start src dst e k = reach src dst e (k - 1) + 1"
proof (cases "down_at src dst (Suc e) k")
  case True
  with diag_Suc_down [OF assms] show ?thesis unfolding down_at_def start_def by auto
next
  case False
  with diag_Suc_right [OF assms] show ?thesis unfolding down_at_def start_def by auto
qed

lemma back_loop_down:
  fixes k x y :: int
  assumes "diag (Suc e) (x - y)" "down_at src dst (Suc e) (x - y)" "x = reach src dst (Suc e) (x - y)"
    "x \<le> int (length src)" "y \<le> int (length dst)"
  defines "px \<equiv> reach src dst e (x - y + 1)"
  shows "px \<le> int (length src)" "px - (x - y + 1) \<le> int (length dst)"
    "vget dst (px - (x - y + 1)) = Some (dst ! nat (px - (x - y + 1)))"
    "\<exists>ks. back_snake src dst px (px - (x - y + 1) + 1) x y = Some ks \<and> keeps_ok ks \<and> cost ks = 0 \<and>
       take (nat px) src @ src_of (rev ks) = take (nat x) src \<and>
       take (nat (px - (x - y + 1))) dst @ dst ! nat (px - (x - y + 1)) # dst_of (rev ks) = take (nat y) dst"
proof -
  define py where "py = px - (x - y + 1)"
  have d: "diag e (x - y + 1)" and st: "start src dst e (x - y) = px"
    using down_at_start [OF assms(1), of src dst] assms(2) by (simp_all add: px_def)
  have x: "x = slide src dst (x - y) px" using assms(3) st by (simp add: reach_Suc)
  have b: "0 \<le> px" "0 \<le> py" using reach_bounds [OF d, of src dst] by (simp_all add: px_def py_def)
  have le: "px \<le> x" "py + 1 \<le> y" using slide_ge [of px src dst "x - y"] x by (simp_all add: py_def)
  from le assms show "px \<le> int (length src)" "px - (x - y + 1) \<le> int (length dst)" by (simp_all add: py_def)
  show "vget dst (px - (x - y + 1)) = Some (dst ! nat (px - (x - y + 1)))"
    unfolding py_def [symmetric] using b le assms by simp
  have eq: "src ! nat i = dst ! nat (i - (x - y))" if "px \<le> i" "i < x" for i
    using slide_eq [of px "x - y" i src dst] that x b by (simp add: py_def)
  have y: "0 \<le> py + 1" "x - y = px - (py + 1)" using b by (simp_all add: py_def)
  from back_snake_spec [OF b(1) y(1) le(1) y(2) assms(4,5) eq] obtain ks where
    ks: "back_snake src dst px (py + 1) x y = Some ks" "keeps_ok ks" "cost ks = 0"
      "take (nat px) src @ src_of (rev ks) = take (nat x) src"
      "take (nat (py + 1)) dst @ dst_of (rev ks) = take (nat y) dst"
    by blast
  have "take (nat (py + 1)) dst = take (nat py) dst @ [dst ! nat py]"
    using take_nat_snoc [of "py + 1" dst] b le assms(5) by simp
  with ks show "\<exists>ks. back_snake src dst px (px - (x - y + 1) + 1) x y = Some ks \<and> keeps_ok ks \<and> cost ks = 0 \<and>
       take (nat px) src @ src_of (rev ks) = take (nat x) src \<and>
       take (nat (px - (x - y + 1))) dst @ dst ! nat (px - (x - y + 1)) # dst_of (rev ks) = take (nat y) dst"
    unfolding py_def [symmetric] by (intro exI [of _ ks]) simp
qed

lemma back_loop_right:
  fixes k x y :: int
  assumes "diag (Suc e) (x - y)" "\<not> down_at src dst (Suc e) (x - y)" "x = reach src dst (Suc e) (x - y)"
    "x \<le> int (length src)" "y \<le> int (length dst)"
  defines "px \<equiv> reach src dst e (x - y - 1)"
  shows "px \<le> int (length src)" "px - (x - y - 1) \<le> int (length dst)"
    "vget src px = Some (src ! nat px)"
    "\<exists>ks. back_snake src dst (px + 1) (px - (x - y - 1)) x y = Some ks \<and> keeps_ok ks \<and> cost ks = 0 \<and>
       take (nat px) src @ src ! nat px # src_of (rev ks) = take (nat x) src \<and>
       take (nat (px - (x - y - 1))) dst @ dst_of (rev ks) = take (nat y) dst"
proof -
  define py where "py = px - (x - y - 1)"
  have d: "diag e (x - y - 1)" and st: "start src dst e (x - y) = px + 1"
    using down_at_start [OF assms(1), of src dst] assms(2) by (simp_all add: px_def)
  have x: "x = slide src dst (x - y) (px + 1)" using assms(3) st by (simp add: reach_Suc)
  have b: "0 \<le> px" "0 \<le> py" using reach_bounds [OF d, of src dst] by (simp_all add: px_def py_def)
  have le: "px + 1 \<le> x" "py \<le> y" using slide_ge [of "px + 1" src dst "x - y"] x by (simp_all add: py_def)
  from le assms show "px \<le> int (length src)" "px - (x - y - 1) \<le> int (length dst)" by (simp_all add: py_def)
  show "vget src px = Some (src ! nat px)" using b le assms by simp
  have eq: "src ! nat i = dst ! nat (i - (x - y))" if "px + 1 \<le> i" "i < x" for i
    using slide_eq [of "px + 1" "x - y" i src dst] that x b by (simp add: py_def)
  have y: "0 \<le> px + 1" "x - y = px + 1 - py" using b by (simp_all add: py_def)
  from back_snake_spec [OF y(1) b(2) le(1) y(2) assms(4,5) eq] obtain ks where
    ks: "back_snake src dst (px + 1) py x y = Some ks" "keeps_ok ks" "cost ks = 0"
      "take (nat (px + 1)) src @ src_of (rev ks) = take (nat x) src"
      "take (nat py) dst @ dst_of (rev ks) = take (nat y) dst"
    by blast
  have "take (nat (px + 1)) src = take (nat px) src @ [src ! nat px]"
    using take_nat_snoc [of "px + 1" src] b le assms(4) by simp
  with ks show "\<exists>ks. back_snake src dst (px + 1) (px - (x - y - 1)) x y = Some ks \<and> keeps_ok ks \<and> cost ks = 0 \<and>
       take (nat px) src @ src ! nat px # src_of (rev ks) = take (nat x) src \<and>
       take (nat (px - (x - y - 1))) dst @ dst_of (rev ks) = take (nat y) dst"
    unfolding py_def [symmetric] by (intro exI [of _ ks]) simp
qed

lemma back_loop_spec:
  assumes "diag d (x - y)" "x = reach src dst d (x - y)" "x \<le> int (length src)" "y \<le> int (length dst)"
    "d \<le> length src + length dst"
    "\<And>i. i \<le> d \<Longrightarrow> i < length traces \<and> row_ok src dst i (traces ! i)"
  shows "back_ok src dst d x y (back_loop traces src dst (int (length src + length dst)) d x y)"
  using assms
proof (induction d arbitrary: x y)
  case 0
  then have "x = y" "x = slide src dst 0 0" by auto
  with back_snake_spec [of 0 0 x y src dst] slide_eq [of 0 0 _ src dst] slide_ge [of 0 src dst 0] 0
  show ?case by (auto simp: back_ok_def)
next
  case (Suc e)
  let ?mx = "int (length src + length dst)"
  define v where "v = traces ! Suc e"
  have v: "vget traces (int (Suc e)) = Some v" and row: "row_ok src dst (Suc e) v"
    using Suc.prems(6) [of "Suc e"] by (auto simp: v_def nat_add_distrib simp flip: Suc_as_int)
  note gd = go_down_row [OF row Suc.prems(1,5)]
  have IH: "back_ok src dst e px (px - k) (back_loop traces src dst ?mx e px (px - k))"
    if "diag e k" "px = reach src dst e k" "px \<le> int (length src)" "px - k \<le> int (length dst)" for px k
    using Suc.IH [of px "px - k"] Suc.prems(5,6) that by auto
  show ?case
  proof (cases "down_at src dst (Suc e) (x - y)")
    case True
    note bd = back_loop_down [OF Suc.prems(1) True Suc.prems(2-4)]
    have dg: "diag e (x - y + 1)" using down_at_start [OF Suc.prems(1), of src dst] True by simp
    then have "vget v (x - y + 1 + ?mx) = Some (reach src dst e (x - y + 1))"
      using row_ok_get [OF row] Suc.prems(5) by simp
    moreover from IH [OF dg refl bd(1,2)] obtain es where
      "back_loop traces src dst ?mx e (reach src dst e (x - y + 1))
         (reach src dst e (x - y + 1) - (x - y + 1)) = Some es" "keeps_ok es" "cost es = e"
      "src_of (rev es) = take (nat (reach src dst e (x - y + 1))) src"
      "dst_of (rev es) = take (nat (reach src dst e (x - y + 1) - (x - y + 1))) dst"
      unfolding back_ok_def by blast
    ultimately show ?thesis using v gd True bd(3,4)
      by (auto simp: back_ok_def Let_def simp del: of_nat_add of_nat_Suc)
  next
    case False
    note bd = back_loop_right [OF Suc.prems(1) False Suc.prems(2-4)]
    have dg: "diag e (x - y - 1)" using down_at_start [OF Suc.prems(1), of src dst] False by simp
    then have "vget v (x - y - 1 + ?mx) = Some (reach src dst e (x - y - 1))"
      using row_ok_get [OF row] Suc.prems(5) by simp
    moreover from IH [OF dg refl bd(1,2)] obtain es where
      "back_loop traces src dst ?mx e (reach src dst e (x - y - 1))
         (reach src dst e (x - y - 1) - (x - y - 1)) = Some es" "keeps_ok es" "cost es = e"
      "src_of (rev es) = take (nat (reach src dst e (x - y - 1))) src"
      "dst_of (rev es) = take (nat (reach src dst e (x - y - 1) - (x - y - 1))) dst"
      unfolding back_ok_def by blast
    ultimately show ?thesis using v gd False bd(3,4)
      by (auto simp: back_ok_def Let_def simp del: of_nat_add of_nat_Suc)
  qed
qed

section \<open>No script is shorter\<close>

lemma reach_furthest:
  assumes "keeps_ok es" "src_of es = take x src" "dst_of es = take y dst" "x \<le> length src" "y \<le> length dst"
  shows "diag (cost es) (int x - int y) \<and> int x \<le> reach src dst (cost es) (int x - int y)"
  using assms
proof (induction es arbitrary: x y rule: rev_induct)
  case Nil
  then have "x = 0" "y = 0" by auto
  then show ?case using slide_ge [of 0 src dst 0] by simp
next
  case (snoc e es)
  let ?k = "int x - int y"
  show ?case
  proof (cases e)
    case (Keep a b)
    with snoc.prems obtain x' y' where xy: "x = Suc x'" "y = Suc y'" by (cases x; cases y) auto
    with snoc.prems Keep have t: "src_of es = take x' src" "dst_of es = take y' dst" "src ! x' = dst ! y'"
      by (auto simp: take_Suc_conv_app_nth)
    from snoc.IH [OF _ t(1,2)] snoc.prems xy have
      IH: "diag (cost es) ?k" "int x' \<le> reach src dst (cost es) ?k" by auto
    have "reach src dst (cost es) ?k \<noteq> int x'"
    proof
      assume "reach src dst (cost es) ?k = int x'"
      with slide_stops [of "from_pt src dst (cost es) ?k" ?k src dst "int x'"] from_pt_bounds [OF IH(1), of src dst]
        snoc.prems xy t(3) show False by (simp add: reach_from_pt)
    qed
    with IH Keep xy show ?thesis by simp
  next
    case (Insert b)
    with snoc.prems obtain y' where xy: "y = Suc y'" by (cases y) auto
    with snoc.prems Insert have t: "src_of es = take x src" "dst_of es = take y' dst"
      by (auto simp: take_Suc_conv_app_nth)
    from snoc.IH [OF _ t] snoc.prems xy have
      IH: "diag (cost es) (?k + 1)" "int x \<le> reach src dst (cost es) (?k + 1)" by (auto simp: algebra_simps)
    with start_ge_down [OF IH(1), of src dst] slide_ge [of "start src dst (cost es) ?k" src dst ?k] diag_down_Suc [OF IH(1)] Insert
    show ?thesis by (simp add: reach_Suc)
  next
    case (Delete a)
    with snoc.prems obtain x' where xy: "x = Suc x'" by (cases x) auto
    with snoc.prems Delete have t: "src_of es = take x' src" "dst_of es = take y dst"
      by (auto simp: take_Suc_conv_app_nth)
    from snoc.IH [OF _ t] snoc.prems xy have
      IH: "diag (cost es) (?k - 1)" "int x' \<le> reach src dst (cost es) (?k - 1)" by (auto simp: algebra_simps)
    with start_ge_right [OF IH(1), of src dst] slide_ge [of "start src dst (cost es) ?k" src dst ?k] diag_right_Suc [OF IH(1)] Delete xy
    show ?thesis by (simp add: reach_Suc)
  qed
qed

lemma script_corner:
  assumes "is_script src dst es"
  shows "diag (cost es) (int (length src) - int (length dst))"
    "corner src dst (cost es) (int (length src) - int (length dst))"
  using reach_furthest [of es "length src" src "length dst" dst] assms
  by (auto simp: is_script_def corner_def)

section \<open>The whole loop\<close>

lemma row_ok_init: "src \<noteq> [] \<Longrightarrow> row_ok src dst 0 (replicate (2 * (length src + length dst) + 1) 0)"
  by (cases src) (auto simp: row_ok_def simp del: replicate.simps intro!: nth_replicate)

definition shortest :: "string list \<Rightarrow> string list \<Rightarrow> edit list \<Rightarrow> bool" where
  "shortest src dst es \<longleftrightarrow> is_script src dst es \<and> (\<forall>es'. is_script src dst es' \<longrightarrow> cost es \<le> cost es')"

lemma buildEdits_shortest:
  assumes "d \<le> length src + length dst" "diag d j" "corner src dst d j"
    "\<And>e i. e < d \<Longrightarrow> diag e i \<Longrightarrow> \<not> corner src dst e i"
    "\<And>i. i \<le> d \<Longrightarrow> i < length traces \<and> row_ok src dst i (traces ! i)"
  shows "\<exists>es. buildEdits traces src dst d (int (length src + length dst)) = Some es \<and> shortest src dst es"
proof -
  note exact = corner_exact [OF assms(2,3,4)]
  have "back_ok src dst d (int (length src)) (int (length dst))
    (back_loop traces src dst (int (length src + length dst)) d (int (length src)) (int (length dst)))"
    using assms(1,2,5) exact by (intro back_loop_spec) auto
  then obtain es where es: "buildEdits traces src dst d (int (length src + length dst)) = Some (rev es)"
    "is_script src dst (rev es)" "cost es = d"
    by (auto simp: back_ok_def buildEdits_def is_script_def)
  have "d \<le> cost es'" if "is_script src dst es'" for es'
    using script_corner [OF that] assms(4) by (meson not_less)
  with es show ?thesis by (auto simp: shortest_def)
qed

lemma myers_loop_shortest:
  assumes "src \<noteq> []" "d \<le> length src + length dst" "row_ok src dst d v" "length traces = d"
    "\<And>i. i < d \<Longrightarrow> row_ok src dst i (traces ! i)"
    "\<And>e i. e < d \<Longrightarrow> diag e i \<Longrightarrow> \<not> corner src dst e i"
  shows "\<exists>es. myers_loop src dst d v traces = Some es \<and> shortest src dst es"
  using assms
proof (induction "length src + length dst - d" arbitrary: d v traces rule: less_induct)
  case less
  have dg: "diag d (- int d)" by (simp add: diag_def)
  have rd: "row_done src dst d (- int d) v" by (auto simp: row_done_def diag_def)
  have tr: "i < length (traces @ [v]) \<and> row_ok src dst i ((traces @ [v]) ! i)" if "i \<le> d" for i
    using that less.prems by (auto simp: nth_append)
  from myers_round_spec [OF less.prems(3) dg less.prems(2,1) rd] obtain v' b where
    r: "myers_round src dst (int (length src + length dst)) (int d) (- int d) v = Some (v', b)"
    and b: "if b then \<exists>j. diag d j \<and> corner src dst d j
            else row_ok src dst (Suc d) v' \<and> (\<forall>j. diag d j \<longrightarrow> \<not> corner src dst d j)" by blast
  show ?case
  proof (cases b)
    case True
    with b obtain j where "diag d j" "corner src dst d j" by auto
    from buildEdits_shortest [OF less.prems(2) this less.prems(6) tr] r True less.prems(2)
    show ?thesis by (subst myers_loop.simps) (simp add: Let_def)
  next
    case False
    then have row: "row_ok src dst (Suc d) v'" and nc: "\<And>j. diag d j \<Longrightarrow> \<not> corner src dst d j" using b by auto
    then have lt: "d < length src + length dst"
      using less.prems(2) corner_by_max [of src dst] by (metis le_neq_implies_less)
    have "\<exists>es. myers_loop src dst (Suc d) v' (traces @ [v]) = Some es \<and> shortest src dst es"
    proof (rule less.hyps)
      show "\<not> corner src dst e i" if "e < Suc d" "diag e i" for e i
        using that nc less.prems(6) by (auto simp: less_Suc_eq)
    qed (use lt row tr less.prems in auto)
    with r False less.prems(2) show ?thesis by (subst myers_loop.simps) (simp add: Let_def)
  qed
qed

lemma src_of_map [simp]: "src_of (map Insert dst) = []" "src_of (map Delete src) = src"
  by (induction dst; simp) (induction src; simp)

lemma dst_of_map [simp]: "dst_of (map Insert dst) = dst" "dst_of (map Delete src) = []"
  by (induction dst; simp) (induction src; simp)

lemma keeps_ok_map [simp]: "keeps_ok (map Insert dst)" "keeps_ok (map Delete src)"
  by (induction dst; simp) (induction src; simp)

lemma cost_map [simp]: "cost (map Insert dst) = length dst" "cost (map Delete src) = length src"
  by (induction dst; simp) (induction src; simp)

lemma cost_lower:
  "length (src_of es) \<le> length (dst_of es) + cost es" "length (dst_of es) \<le> length (src_of es) + cost es"
  by (induction es rule: cost.induct) auto

lemma myersDiff_total: "\<exists>es. myersDiff src dst = Some es \<and> shortest src dst es"
proof (cases "src = [] \<or> dst = []")
  case True
  then show ?thesis using cost_lower
    by (auto simp: myersDiff_def shortest_def is_script_def) (metis add_0 list.size(3))+
next
  case False
  then show ?thesis
    using myers_loop_shortest [of src 0 dst "replicate (2 * (length src + length dst) + 1) 0" "[]"] row_ok_init [of src dst]
    by (auto simp: myersDiff_def)
qed

section \<open>Properties\<close>

text \<open>C14. The line diff never panics and never falls through to its fallback: for any two files it
  returns an edit script whose kept and deleted lines are the old file, whose kept and inserted lines
  are the new file, and no other such script has fewer insertions and deletions.\<close>

theorem myers_shortest_script:
  "\<exists>es. myersDiff src dst = Some es \<and> src_of es = src \<and> dst_of es = dst \<and> keeps_ok es \<and>
    (\<forall>es'. src_of es' = src \<and> dst_of es' = dst \<and> keeps_ok es' \<longrightarrow> cost es \<le> cost es')"
  using myersDiff_total [of src dst] by (simp add: shortest_def is_script_def conj_assoc)

theorem myers_shortest_script_witness:
  "\<exists>es. myersDiff [''a'', ''b''] [''b'', ''c''] = Some es \<and> cost es \<le> 2"
proof -
  have "src_of [Delete ''a'', Keep ''b'' ''b'', Insert ''c''] = [''a'', ''b''] \<and>
    dst_of [Delete ''a'', Keep ''b'' ''b'', Insert ''c''] = [''b'', ''c''] \<and>
    keeps_ok [Delete ''a'', Keep ''b'' ''b'', Insert ''c'']" by simp
  with myers_shortest_script [of "[''a'', ''b'']" "[''b'', ''c'']"]
  show ?thesis by fastforce
qed

end
