(* ===== verification/Three_Way.thy ===== *)
theory Three_Way
  imports Myers_Diff
begin

text \<open>
  \<^verbatim>\<open>pkg/diff/threeway.go\<close> and \<^verbatim>\<open>ThreeWayMerge\<close> of \<^verbatim>\<open>pkg/diff/diff.go\<close>: change blocks are cut out of the two
  edit scripts and merged region by region. The indices \<^verbatim>\<open>oi\<close> and \<^verbatim>\<open>ti\<close> of the code only move forward, so
  the model keeps the blocks that are left. A slice with bounds out of order is the panic it is in Go
  (the outcome \<^verbatim>\<open>Panic\<close>), and the outer loop is a \<^verbatim>\<open>partial_function\<close>, because it does not always
  return: \<^const>\<open>None\<close> is a merge that runs forever.
\<close>

datatype 'a outcome = Panic | Done 'a

section \<open>Lines\<close>

fun split_from :: "bytes \<Rightarrow> bytes \<Rightarrow> string list" where
  "split_from line [] = (if line = [] then [] else [line])"
| "split_from line (b # data) =
     (if b = LF then (line @ [b]) # split_from [] data else split_from (line @ [b]) data)"

definition splitLines :: "bytes \<Rightarrow> string list" where
  "splitLines data = split_from [] data"

section \<open>Change blocks\<close>

record changeBlock =
  baseStart :: nat
  baseEnd :: nat
  newLines :: "string list"

fun change_region :: "edit list \<Rightarrow> nat \<Rightarrow> string list \<Rightarrow> edit list \<times> nat \<times> string list" where
  "change_region (Delete a # es) i new = change_region es (i + 1) new"
| "change_region (Insert b # es) i new = change_region es i (new @ [b])"
| "change_region es i new = (es, i, new)"

lemma change_region_length: "change_region es i new = (es', i', new') \<Longrightarrow> length es' \<le> length es"
  by (induction es i new rule: change_region.induct) auto

function extract_blocks :: "edit list \<Rightarrow> nat \<Rightarrow> changeBlock list" where
  "extract_blocks [] i = []"
| "extract_blocks (e # es) i =
     (case e of
        Keep a b \<Rightarrow> extract_blocks es (i + 1)
      | _ \<Rightarrow> (case change_region (e # es) i [] of (es', i', new) \<Rightarrow>
          \<lparr>baseStart = i, baseEnd = i', newLines = new\<rparr> # extract_blocks es' i'))"
  by pat_completeness auto
termination
  by (relation "measure (\<lambda>(es, i). length es)") (auto, (metis change_region_length less_Suc_eq_le)+)

definition extractChangeBlocks :: "edit list \<Rightarrow> changeBlock list" where
  "extractChangeBlocks edits = extract_blocks edits 0"

section \<open>Merging\<close>

fun apply_loop :: "string list \<Rightarrow> changeBlock list \<Rightarrow> nat \<Rightarrow> nat \<Rightarrow> string list \<Rightarrow> (changeBlock list \<times> string list) option" where
  "apply_loop base (b # bs) pos regionEnd acc =
     (if baseStart b < regionEnd
      then (case slice base pos (baseStart b) of None \<Rightarrow> None
            | Some ctx \<Rightarrow> apply_loop base bs (baseEnd b) regionEnd (acc @ ctx @ newLines b))
      else map_option (\<lambda>tail. (b # bs, acc @ tail)) (slice base pos regionEnd))"
| "apply_loop base [] pos regionEnd acc = map_option (\<lambda>tail. ([], acc @ tail)) (slice base pos regionEnd)"

text \<open>\<^verbatim>\<open>*changed\<close> is set exactly when a block is consumed; without one, \<^verbatim>\<open>pos\<close> is still \<^verbatim>\<open>regionStart\<close>, so the
  two final slices of the code are the same expression.\<close>

definition applyBlocksInRegion ::
    "string list \<Rightarrow> changeBlock list \<Rightarrow> nat \<Rightarrow> nat \<Rightarrow> (changeBlock list \<times> bool \<times> string list) option" where
  "applyBlocksInRegion base blocks regionStart regionEnd =
     map_option (\<lambda>(rest, ls). (rest, length rest < length blocks, ls)) (apply_loop base blocks regionStart regionEnd [])"

definition next_start :: "string list \<Rightarrow> changeBlock list \<Rightarrow> nat" where
  "next_start base bs = (case bs of [] \<Rightarrow> length base | b # _ \<Rightarrow> baseStart b)"

definition grow_eq :: "changeBlock list \<Rightarrow> nat \<Rightarrow> nat" where
  "grow_eq bs re = (case bs of [] \<Rightarrow> re | b # _ \<Rightarrow> if baseStart b \<le> re then max re (baseEnd b) else re)"

definition grow_lt :: "changeBlock list \<Rightarrow> nat \<Rightarrow> nat" where
  "grow_lt bs re = (case bs of [] \<Rightarrow> re | b # _ \<Rightarrow> if baseStart b < re \<and> baseEnd b > re then baseEnd b else re)"

lemma grow_lt_ge: "re \<le> grow_lt bs re"
  by (simp add: grow_lt_def split: list.split)

function expand_region :: "changeBlock list \<Rightarrow> changeBlock list \<Rightarrow> nat \<Rightarrow> nat" where
  "expand_region ours theirs re =
     (let re' = grow_lt theirs (grow_lt ours re) in
      if re' \<noteq> re then expand_region ours theirs re' else re)"
  by pat_completeness auto
termination
  by (relation "measure (\<lambda>(o', t, re). (case o' of [] \<Rightarrow> 0 | b # _ \<Rightarrow> baseEnd b) + (case t of [] \<Rightarrow> 0 | b # _ \<Rightarrow> baseEnd b) - re)")
    (auto simp: grow_lt_def split: list.splits if_splits)

declare expand_region.simps [simp del]

record merge_state =
  ms_pos :: nat
  ms_ours :: "changeBlock list"
  ms_theirs :: "changeBlock list"
  ms_result :: "string list"
  ms_conflict :: bool

definition resolve_region ::
    "string \<Rightarrow> string \<Rightarrow> bool \<Rightarrow> string list \<Rightarrow> bool \<Rightarrow> string list \<Rightarrow> string list \<times> bool" where
  "resolve_region ourLabel theirLabel ourChanged ourNew theirChanged theirNew =
     (if \<not> ourChanged \<and> \<not> theirChanged then ([], False)
      else if ourNew = theirNew then (ourNew, False)
      else if \<not> ourChanged then (theirNew, False)
      else if \<not> theirChanged then (ourNew, False)
      else ([''<<<<<<< '' @ ourLabel @ [LF]] @ ourNew @ [''======='' @ [LF]] @ theirNew
              @ [''>>>>>>> '' @ theirLabel @ [LF]], True))"

definition merge_step :: "string list \<Rightarrow> string \<Rightarrow> string \<Rightarrow> merge_state \<Rightarrow> (merge_state + (string list \<times> bool)) outcome" where
  "merge_step base ourLabel theirLabel s =
     (if ms_ours s = [] \<and> ms_theirs s = []
      then (case slice base (ms_pos s) (length base) of None \<Rightarrow> Panic
            | Some rest \<Rightarrow> Done (Inr (ms_result s @ rest, ms_conflict s)))
      else let nxt = min (next_start base (ms_ours s)) (next_start base (ms_theirs s)) in
        case slice base (ms_pos s) nxt of None \<Rightarrow> Panic | Some ctx \<Rightarrow>
       (let re = expand_region (ms_ours s) (ms_theirs s) (grow_eq (ms_theirs s) (grow_eq (ms_ours s) nxt)) in
        case applyBlocksInRegion base (ms_ours s) nxt re of None \<Rightarrow> Panic | Some (ours', oc, on) \<Rightarrow>
       (case applyBlocksInRegion base (ms_theirs s) nxt re of None \<Rightarrow> Panic | Some (theirs', tc, tn) \<Rightarrow>
       (case resolve_region ourLabel theirLabel oc on tc tn of (out, conf) \<Rightarrow>
          Done (Inl \<lparr>ms_pos = re, ms_ours = ours', ms_theirs = theirs',
                     ms_result = ms_result s @ ctx @ out, ms_conflict = ms_conflict s \<or> conf\<rparr>)))))"

partial_function (option) merge_loop ::
    "string list \<Rightarrow> string \<Rightarrow> string \<Rightarrow> merge_state \<Rightarrow> (string list \<times> bool) outcome option" where
  "merge_loop base ourLabel theirLabel s =
     (case merge_step base ourLabel theirLabel s of
        Panic \<Rightarrow> Some Panic
      | Done r \<Rightarrow> (case r of Inl s' \<Rightarrow> merge_loop base ourLabel theirLabel s' | Inr res \<Rightarrow> Some (Done res)))"

declare merge_loop.simps [code]

definition mergeChangeBlocks ::
    "string list \<Rightarrow> changeBlock list \<Rightarrow> changeBlock list \<Rightarrow> string \<Rightarrow> string \<Rightarrow> (string list \<times> bool) outcome option" where
  "mergeChangeBlocks base ours theirs ourLabel theirLabel =
     merge_loop base ourLabel theirLabel
       \<lparr>ms_pos = 0, ms_ours = ours, ms_theirs = theirs, ms_result = [], ms_conflict = False\<rparr>"

definition ensureNL :: "bytes \<Rightarrow> bytes" where
  "ensureNL result = (if result \<noteq> [] \<and> last result \<noteq> LF then result @ [LF] else result)"

definition wholeFileConflict :: "string list \<Rightarrow> string list \<Rightarrow> string \<Rightarrow> string \<Rightarrow> bytes" where
  "wholeFileConflict ourLines theirLines ourLabel theirLabel =
     ensureNL (ensureNL (''<<<<<<< '' @ ourLabel @ [LF] @ concat ourLines) @ ''======='' @ [LF] @ concat theirLines)
       @ ''>>>>>>> '' @ theirLabel @ [LF]"

definition ThreeWayMerge ::
    "bytes \<Rightarrow> bytes \<Rightarrow> bytes \<Rightarrow> string \<Rightarrow> string \<Rightarrow> (bytes \<times> bool) outcome option" where
  "ThreeWayMerge base ours theirs ourLabel theirLabel =
     (let baseLines = splitLines base; ourLines = splitLines ours; theirLines = splitLines theirs in
      if baseLines = []
      then Some (Done (if ourLines = theirLines then (ours, False)
                       else (wholeFileConflict ourLines theirLines ourLabel theirLabel, True)))
      else case myersDiff baseLines ourLines of None \<Rightarrow> Some Panic | Some editsBO \<Rightarrow>
          (case myersDiff baseLines theirLines of None \<Rightarrow> Some Panic | Some editsBT \<Rightarrow>
          (case mergeChangeBlocks baseLines (extractChangeBlocks editsBO) (extractChangeBlocks editsBT)
                  ourLabel theirLabel of
             None \<Rightarrow> None
           | Some Panic \<Rightarrow> Some Panic
           | Some (Done (merged, hasConflict)) \<Rightarrow> Some (Done (concat merged, hasConflict)))))"

section \<open>Lines and blocks reconstruct the files\<close>

lemma concat_split_from: "concat (split_from line data) = line @ data"
  by (induction line data rule: split_from.induct) auto

lemma concat_splitLines [simp]: "concat (splitLines data) = data"
  by (simp add: splitLines_def concat_split_from)

lemma splitLines_Nil [simp]: "splitLines [] = []"
  by (simp add: splitLines_def)

lemma splitLines_eq_Nil [simp]: "splitLines data = [] \<longleftrightarrow> data = []"
  using concat_splitLines [of data] by fastforce

lemma splitLines_inj: "splitLines a = splitLines b \<Longrightarrow> a = b"
  by (metis concat_splitLines)

text \<open>The shape of a split file: every line but the last ends with its only newline.\<close>

definition full_line :: "string \<Rightarrow> bool" where
  "full_line l \<longleftrightarrow> (\<exists>p. l = p @ [LF] \<and> LF \<notin> set p)"

definition lines_ok :: "string list \<Rightarrow> bool" where
  "lines_ok ls \<longleftrightarrow> (\<forall>l \<in> set (butlast ls). full_line l) \<and>
     (ls \<noteq> [] \<longrightarrow> full_line (last ls) \<or> (last ls \<noteq> [] \<and> LF \<notin> set (last ls)))"

lemma lines_ok_Nil [simp]: "lines_ok []"
  by (simp add: lines_ok_def)

lemma lines_ok_single: "lines_ok [l] \<longleftrightarrow> full_line l \<or> (l \<noteq> [] \<and> LF \<notin> set l)"
  by (simp add: lines_ok_def)

lemma lines_ok_Cons: "ls \<noteq> [] \<Longrightarrow> lines_ok (l # ls) \<longleftrightarrow> full_line l \<and> lines_ok ls"
  by (auto simp: lines_ok_def)

lemma lines_ok_append: "c \<noteq> [] \<Longrightarrow> lines_ok (a @ c) \<longleftrightarrow> (\<forall>l \<in> set a. full_line l) \<and> lines_ok c"
  by (induction a) (auto simp: lines_ok_Cons)

lemma lines_ok_full: "\<forall>l \<in> set a. full_line l \<Longrightarrow> lines_ok a"
  by (auto simp: lines_ok_def dest: in_set_butlastD)

lemma lines_ok_replace:
  assumes "lines_ok (a @ m @ c)" "m \<noteq> []" "\<forall>l \<in> set m'. full_line l"
  shows "lines_ok (a @ m' @ c)"
proof (cases "c = []")
  case True
  with assms lines_ok_append [of m a] have "\<forall>l \<in> set (a @ m'). full_line l" by auto
  then have "lines_ok (a @ m')" by (rule lines_ok_full)
  with True show ?thesis by simp
next
  case False
  with assms lines_ok_append [of c "a @ m"] lines_ok_append [of c "a @ m'"] show ?thesis by auto
qed

lemma lines_ok_split_from: "LF \<notin> set line \<Longrightarrow> lines_ok (split_from line data)"
proof (induction line data rule: split_from.induct)
  case (2 line b data)
  have "full_line (line @ [b])" if "b = LF" using that 2(3) by (auto simp: full_line_def)
  with 2 show ?case by (cases "split_from [] data = []") (auto simp: lines_ok_Cons lines_ok_single)
qed (auto simp: lines_ok_single)

lemma lines_ok_splitLines [simp]: "lines_ok (splitLines data)"
  by (simp add: splitLines_def lines_ok_split_from)

lemma split_from_line: "LF \<notin> set p \<Longrightarrow> split_from acc (p @ LF # data) = (acc @ p @ [LF]) # split_from [] data"
  by (induction p arbitrary: acc) auto

lemma split_from_last: "LF \<notin> set p \<Longrightarrow> split_from acc p = (if acc @ p = [] then [] else [acc @ p])"
  by (induction p arbitrary: acc) auto

lemma splitLines_concat: "lines_ok ls \<Longrightarrow> splitLines (concat ls) = ls"
proof (induction ls)
  case (Cons l ls)
  show ?case
  proof (cases "full_line l")
    case True
    then obtain p where "l = p @ [LF]" "LF \<notin> set p" by (auto simp: full_line_def)
    with Cons show ?thesis by (cases "ls = []") (simp_all add: splitLines_def split_from_line lines_ok_Cons)
  next
    case False
    with Cons.prems have "ls = []" "l \<noteq> []" "LF \<notin> set l" by (cases "ls = []"; auto simp: lines_ok_Cons lines_ok_single)+
    then show ?thesis by (simp add: splitLines_def split_from_last)
  qed
qed (simp add: splitLines_def)

fun wf_blocks :: "nat \<Rightarrow> nat \<Rightarrow> changeBlock list \<Rightarrow> bool" where
  "wf_blocks lo n [] = True"
| "wf_blocks lo n (b # bs) \<longleftrightarrow>
     lo \<le> baseStart b \<and> baseStart b \<le> baseEnd b \<and> baseEnd b \<le> n \<and> wf_blocks (Suc (baseEnd b)) n bs"

fun apply_blocks :: "string list \<Rightarrow> nat \<Rightarrow> changeBlock list \<Rightarrow> string list" where
  "apply_blocks base pos [] = drop pos base"
| "apply_blocks base pos (b # bs) = sub base pos (baseStart b) @ newLines b @ apply_blocks base (baseEnd b) bs"

lemma wf_blocks_mono: "wf_blocks lo n bs \<Longrightarrow> lo' \<le> lo \<Longrightarrow> wf_blocks lo' n bs"
  by (cases bs) auto

lemma sub_Cons: "i < j \<Longrightarrow> j \<le> length xs \<Longrightarrow> sub xs i j = xs ! i # sub xs (Suc i) j"
  using sub_append [of i "Suc i" j xs] sub_Suc [of i xs] by (metis Suc_leI append_Cons append_Nil le_SucI le_refl order_less_le_trans)

lemma apply_blocks_keep:
  assumes "wf_blocks (Suc i) (length base) bs" "i < length base"
  shows "apply_blocks base i bs = base ! i # apply_blocks base (Suc i) bs"
proof (cases bs)
  case Nil
  with assms(2) show ?thesis by (simp add: Cons_nth_drop_Suc)
next
  case (Cons b bs')
  with assms sub_Cons [of i "baseStart b" base] show ?thesis by simp
qed

lemma change_region_spec:
  assumes "change_region es i new = (es', i', new')" "keeps_ok es" "src_of es = drop i base" "i \<le> length base"
  shows "i \<le> i' \<and> i' \<le> length base \<and> src_of es' = drop i' base \<and> new' @ dst_of es' = new @ dst_of es \<and>
    keeps_ok es' \<and> (es' = [] \<or> (\<exists>a b t. es' = Keep a b # t))"
  using assms
proof (induction es i new rule: change_region.induct)
  case (1 a es i new)
  from 1(4) have "drop i base \<noteq> []" by auto
  then have "i < length base" by simp
  moreover from 1(4) have "src_of es = drop (i + 1) base"
    by (metis drop_Suc Suc_eq_plus1 list.sel(3) src_of.simps(4) tl_drop)
  ultimately show ?case using 1 by auto
qed auto

lemma extract_blocks_region:
  assumes "change_region es i [] = (es', i', new)" "keeps_ok es" "src_of es = drop i base" "i \<le> length base"
    "keeps_ok es' \<Longrightarrow> src_of es' = drop i' base \<Longrightarrow> i' \<le> length base \<Longrightarrow>
       apply_blocks base i' (extract_blocks es' i') = dst_of es' \<and>
       (es' = [] \<or> (\<exists>a b t. es' = Keep a b # t) \<longrightarrow> wf_blocks (Suc i') (length base) (extract_blocks es' i'))"
  defines "bs \<equiv> \<lparr>baseStart = i, baseEnd = i', newLines = new\<rparr> # extract_blocks es' i'"
  shows "wf_blocks i (length base) bs \<and> apply_blocks base i bs = dst_of es"
  using change_region_spec [OF assms(1-4)] assms(5) by (simp add: bs_def)

lemma extract_blocks_spec:
  assumes "keeps_ok es" "src_of es = drop i base" "i \<le> length base"
  shows "wf_blocks i (length base) (extract_blocks es i) \<and> apply_blocks base i (extract_blocks es i) = dst_of es \<and>
    (es = [] \<or> (\<exists>a b t. es = Keep a b # t) \<longrightarrow> wf_blocks (Suc i) (length base) (extract_blocks es i))"
  using assms
proof (induction es i rule: extract_blocks.induct)
  case (1 i)
  then show ?case by simp
next
  case (2 e es i)
  show ?case
  proof (cases e)
    case (Keep a b)
    with 2 have b: "b = a" and k: "keeps_ok es" and d: "drop i base = a # src_of es" by auto
    then have i: "i < length base" by (metis drop_all list.distinct(1) not_less)
    with d have t: "src_of es = drop (i + 1) base" "base ! i = a"
      by (metis Cons_nth_drop_Suc list.inject Suc_eq_plus1)+
    from 2(1) [OF Keep k t(1)] i have w: "wf_blocks (Suc i) (length base) (extract_blocks es (Suc i))"
      "apply_blocks base (Suc i) (extract_blocks es (Suc i)) = dst_of es" by auto
    from apply_blocks_keep [OF w(1) i] wf_blocks_mono [OF w(1), of i] w t b Keep show ?thesis by simp
  next
    case (Insert b)
    obtain es' i' new where r: "change_region (e # es) i [] = (es', i', new)" by (metis prod_cases3)
    from extract_blocks_region [OF r 2(4-6)] 2(2) [OF Insert r [symmetric] refl] Insert r show ?thesis by auto
  next
    case (Delete a)
    obtain es' i' new where r: "change_region (e # es) i [] = (es', i', new)" by (metis prod_cases3)
    from extract_blocks_region [OF r 2(4-6)] 2(3) [OF Delete r [symmetric] refl] Delete r show ?thesis by auto
  qed
qed

lemma extractChangeBlocks_spec:
  assumes "is_script base other es"
  shows "wf_blocks 0 (length base) (extractChangeBlocks es)" "apply_blocks base 0 (extractChangeBlocks es) = other"
  using extract_blocks_spec [of es 0 base] assms by (auto simp: is_script_def extractChangeBlocks_def)

section \<open>One-sided and identical changes\<close>

lemma slice_in [simp]: "i \<le> j \<Longrightarrow> j \<le> length xs \<Longrightarrow> slice xs i j = Some (sub xs i j)"
  by (simp add: slice_def)

lemma merge_loop_stuck:
  assumes "merge_step base la lb s = Done (Inl s)"
  shows "merge_loop base la lb s = None"
proof -
  have "merge_step b l1 l2 t \<noteq> Done (Inl t)" if "merge_loop b l1 l2 t = Some r" for b l1 l2 t r
    by (rule merge_loop.raw_induct [OF _ that]) (auto split: outcome.splits sum.splits)
  with assms show ?thesis by (metis option.exhaust)
qed

lemma apply_region_hd:
  assumes "wf_blocks lo (length base) (b # bs)"
  shows "applyBlocksInRegion base (b # bs) (baseStart b) (baseEnd b) =
    Some (if baseStart b < baseEnd b then (bs, True, newLines b) else (b # bs, False, []))"
  using assms by (cases bs) (auto simp: applyBlocksInRegion_def)

lemma apply_region_Nil:
  "lo \<le> hi \<Longrightarrow> hi \<le> length base \<Longrightarrow> applyBlocksInRegion base [] lo hi = Some ([], False, sub base lo hi)"
  by (simp add: applyBlocksInRegion_def)

definition side :: "bool \<Rightarrow> changeBlock list \<Rightarrow> changeBlock list" where
  "side f bs = (if f then bs else [])"

lemma merge_step_hd:
  assumes "f \<or> g" "wf_blocks pos (length base) (b # bs)"
  shows "merge_step base la lb \<lparr>ms_pos = pos, ms_ours = side f (b # bs), ms_theirs = side g (b # bs), ms_result = r, ms_conflict = c\<rparr> =
    Done (Inl (if baseStart b < baseEnd b
      then \<lparr>ms_pos = baseEnd b, ms_ours = side f bs, ms_theirs = side g bs, ms_result = r @ sub base pos (baseStart b) @ newLines b, ms_conflict = c\<rparr>
      else \<lparr>ms_pos = baseEnd b, ms_ours = side f (b # bs), ms_theirs = side g (b # bs), ms_result = r @ sub base pos (baseStart b), ms_conflict = c\<rparr>))"
proof -
  have le: "pos \<le> baseStart b" "baseStart b \<le> baseEnd b" "baseEnd b \<le> length base" using assms(2) by auto
  have nx: "min (next_start base (side f (b # bs))) (next_start base (side g (b # bs))) = baseStart b"
    using assms(1) le by (auto simp: side_def next_start_def)
  have ge: "grow_eq (side g (b # bs)) (grow_eq (side f (b # bs)) (baseStart b)) = baseEnd b"
    using assms(1) le by (auto simp: side_def grow_eq_def)
  have ex: "expand_region (side f (b # bs)) (side g (b # bs)) (baseEnd b) = baseEnd b"
    by (subst expand_region.simps) (simp add: side_def grow_lt_def)
  have ap: "applyBlocksInRegion base (side h (b # bs)) (baseStart b) (baseEnd b) =
      Some (if h \<and> baseStart b < baseEnd b then (side h bs, True, newLines b)
            else (side h (b # bs), False, sub base (baseStart b) (baseEnd b)))" for h
    using apply_region_hd [OF assms(2)] apply_region_Nil [OF le(2,3)] le by (auto simp: side_def)
  have ne: "\<not> (side f (b # bs) = [] \<and> side g (b # bs) = [])" using assms(1) by (auto simp: side_def)
  show ?thesis
    using le ne assms(1)
    by (auto simp: merge_step_def Let_def nx ge ex ap resolve_region_def) (auto simp: side_def)
qed

definition has_insertion :: "changeBlock list \<Rightarrow> bool" where
  "has_insertion bs \<longleftrightarrow> (\<exists>b \<in> set bs. baseStart b = baseEnd b)"

lemma merge_loop_sides:
  assumes "f \<or> g" "wf_blocks pos (length base) bs" "pos \<le> length base"
  shows "merge_loop base la lb \<lparr>ms_pos = pos, ms_ours = side f bs, ms_theirs = side g bs, ms_result = r, ms_conflict = c\<rparr> =
    (if has_insertion bs then None else Some (Done (r @ apply_blocks base pos bs, c)))"
  using assms
proof (induction bs arbitrary: pos r)
  case Nil
  then show ?case by (subst merge_loop.simps) (simp add: merge_step_def side_def has_insertion_def)
next
  case (Cons b bs)
  note st = merge_step_hd [OF Cons.prems(1,2), of la lb r c]
  show ?case
  proof (cases "baseStart b < baseEnd b")
    case True
    have "wf_blocks (baseEnd b) (length base) bs" "baseEnd b \<le> length base"
      using Cons.prems(2) wf_blocks_mono [of "Suc (baseEnd b)" "length base" bs "baseEnd b"] by auto
    from Cons.IH [OF Cons.prems(1) this] True st show ?thesis
      by (subst merge_loop.simps) (auto simp: has_insertion_def)
  next
    case False
    then have e: "baseStart b = baseEnd b" using Cons.prems(2) by simp
    have "wf_blocks (baseEnd b) (length base) (b # bs)" using Cons.prems(2) e by simp
    from merge_step_hd [OF Cons.prems(1) this, of la lb "r @ sub base pos (baseStart b)" c] e
    have "merge_loop base la lb \<lparr>ms_pos = baseEnd b, ms_ours = side f (b # bs), ms_theirs = side g (b # bs),
        ms_result = r @ sub base pos (baseStart b), ms_conflict = c\<rparr> = None"
      by (intro merge_loop_stuck) simp
    with st e show ?thesis by (subst merge_loop.simps) (simp add: has_insertion_def)
  qed
qed

section \<open>Termination when every block replaces something\<close>

lemma apply_loop_length:
  "apply_loop base bs pos re acc = Some (rest, ls) \<Longrightarrow>
     set rest \<subseteq> set bs \<and> length rest \<le> length bs \<and> (bs \<noteq> [] \<and> baseStart (hd bs) < re \<longrightarrow> length rest < length bs)"
  by (induction base bs pos re acc rule: apply_loop.induct) (auto split: if_splits option.splits)

lemma apply_region_length:
  assumes "applyBlocksInRegion base bs lo re = Some (rest, ch, ls)"
  shows "set rest \<subseteq> set bs" "length rest \<le> length bs"
    "bs \<noteq> [] \<Longrightarrow> baseStart (hd bs) < re \<Longrightarrow> length rest < length bs"
  using assms apply_loop_length [of base bs lo re "[]"] by (auto simp: applyBlocksInRegion_def)

lemma grow_eq_ge: "re \<le> grow_eq bs re"
  by (simp add: grow_eq_def split: list.split)

lemma expand_region_ge: "re \<le> expand_region os ts re"
proof (induction os ts re rule: expand_region.induct)
  case (1 os ts re)
  have "re \<le> grow_lt ts (grow_lt os re)" using grow_lt_ge order_trans by blast
  with 1 show ?case by (subst expand_region.simps) (fastforce simp: Let_def)
qed

lemma region_covers:
  assumes "bs = os \<or> bs = ts" "bs \<noteq> []" "baseStart (hd bs) = nxt" "baseStart (hd bs) < baseEnd (hd bs)"
  shows "baseStart (hd bs) < expand_region os ts (grow_eq ts (grow_eq os nxt))"
proof -
  have "nxt < grow_eq ts (grow_eq os nxt)"
    using assms(1)
  proof
    assume "bs = os"
    with assms have "nxt < grow_eq os nxt" by (cases os) (auto simp: grow_eq_def)
    with grow_eq_ge [of "grow_eq os nxt" ts] show ?thesis by simp
  next
    assume "bs = ts"
    with assms grow_eq_ge [of nxt os] show ?thesis by (cases ts) (auto simp: grow_eq_def)
  qed
  with assms(3) expand_region_ge show ?thesis by (metis order_less_le_trans)
qed

lemma merge_step_consumes:
  assumes "merge_step base la lb s = Done (Inl s')"
    "\<forall>b \<in> set (ms_ours s) \<union> set (ms_theirs s). baseStart b < baseEnd b \<and> baseEnd b \<le> length base"
  shows "length (ms_ours s') + length (ms_theirs s') < length (ms_ours s) + length (ms_theirs s)"
    "set (ms_ours s') \<subseteq> set (ms_ours s)" "set (ms_theirs s') \<subseteq> set (ms_theirs s)"
proof -
  define nxt where "nxt = min (next_start base (ms_ours s)) (next_start base (ms_theirs s))"
  define re where "re = expand_region (ms_ours s) (ms_theirs s) (grow_eq (ms_theirs s) (grow_eq (ms_ours s) nxt))"
  obtain oc on tc tn where ap:
      "applyBlocksInRegion base (ms_ours s) nxt re = Some (ms_ours s', oc, on)"
      "applyBlocksInRegion base (ms_theirs s) nxt re = Some (ms_theirs s', tc, tn)"
    and ne: "\<not> (ms_ours s = [] \<and> ms_theirs s = [])"
    using assms(1) unfolding merge_step_def Let_def nxt_def [symmetric] re_def [symmetric]
    by (auto split: if_splits option.splits prod.splits)
  show "set (ms_ours s') \<subseteq> set (ms_ours s)" "set (ms_theirs s') \<subseteq> set (ms_theirs s)"
    using apply_region_length ap by blast+
  have "\<exists>bs. (bs = ms_ours s \<or> bs = ms_theirs s) \<and> bs \<noteq> [] \<and> baseStart (hd bs) = nxt"
    using ne assms(2) by (cases "ms_ours s"; cases "ms_theirs s") (force simp: nxt_def next_start_def min_def)+
  then obtain bs where bs: "bs = ms_ours s \<or> bs = ms_theirs s" "bs \<noteq> []" "baseStart (hd bs) = nxt" by blast
  with assms(2) have "baseStart (hd bs) < baseEnd (hd bs)" by (metis UnI1 UnI2 hd_in_set)
  from region_covers [OF bs this] have "baseStart (hd bs) < re" by (simp add: re_def)
  with bs apply_region_length(2,3) [OF ap(1)] apply_region_length(2,3) [OF ap(2)]
  show "length (ms_ours s') + length (ms_theirs s') < length (ms_ours s) + length (ms_theirs s)"
    by (metis add_le_less_mono add_less_le_mono)
qed

lemma merge_loop_returns:
  assumes "\<forall>b \<in> set (ms_ours s) \<union> set (ms_theirs s). baseStart b < baseEnd b \<and> baseEnd b \<le> length base"
  shows "\<exists>r. merge_loop base la lb s = Some r"
  using assms
proof (induction "length (ms_ours s) + length (ms_theirs s)" arbitrary: s rule: less_induct)
  case less
  show ?case
  proof (cases "\<exists>s'. merge_step base la lb s = Done (Inl s')")
    case True
    then obtain s' where s': "merge_step base la lb s = Done (Inl s')" by blast
    with merge_step_consumes [OF s' less.prems] less.prems have "\<exists>r. merge_loop base la lb s' = Some r"
      by (intro less.hyps) auto
    with s' show ?thesis by (subst merge_loop.simps) simp
  next
    case False
    then show ?thesis by (subst merge_loop.simps) (auto split: outcome.splits sum.splits)
  qed
qed

lemma wf_blocks_bounds: "wf_blocks lo n bs \<Longrightarrow> b \<in> set bs \<Longrightarrow> baseStart b \<le> baseEnd b \<and> baseEnd b \<le> n"
  by (induction bs arbitrary: lo) auto

section \<open>Whole files\<close>

definition file_blocks :: "bytes \<Rightarrow> bytes \<Rightarrow> changeBlock list" where
  "file_blocks base other = extractChangeBlocks (the (myersDiff (splitLines base) (splitLines other)))"

text \<open>Some block of the diff inserts lines without replacing any.\<close>

definition inserts_only :: "bytes \<Rightarrow> bytes \<Rightarrow> bool" where
  "inserts_only base other \<longleftrightarrow> has_insertion (file_blocks base other)"

lemma file_blocks_spec:
  "myersDiff (splitLines base) (splitLines other) = Some (the (myersDiff (splitLines base) (splitLines other)))"
  "wf_blocks 0 (length (splitLines base)) (file_blocks base other)"
  "apply_blocks (splitLines base) 0 (file_blocks base other) = splitLines other"
proof -
  obtain es where es: "myersDiff (splitLines base) (splitLines other) = Some es" "is_script (splitLines base) (splitLines other) es"
    using myersDiff_total [of "splitLines base" "splitLines other"] by (auto simp: shortest_def)
  then show "myersDiff (splitLines base) (splitLines other) = Some (the (myersDiff (splitLines base) (splitLines other)))" by simp
  show "wf_blocks 0 (length (splitLines base)) (file_blocks base other)"
    "apply_blocks (splitLines base) 0 (file_blocks base other) = splitLines other"
    using es extractChangeBlocks_spec [OF es(2)] by (simp_all add: file_blocks_def)
qed

lemma ThreeWayMerge_eq:
  assumes "base \<noteq> []"
  shows "ThreeWayMerge base ours theirs la lb =
    map_option (\<lambda>r. case r of Panic \<Rightarrow> Panic | Done (m, c) \<Rightarrow> Done (concat m, c))
      (mergeChangeBlocks (splitLines base) (file_blocks base ours) (file_blocks base theirs) la lb)"
  using assms file_blocks_spec(1) [of base ours] file_blocks_spec(1) [of base theirs]
  by (auto simp: ThreeWayMerge_def Let_def file_blocks_def split: option.split outcome.split)

lemma cost_0_blocks: "cost es = 0 \<Longrightarrow> extract_blocks es i = []"
  by (induction es arbitrary: i rule: cost.induct) auto

lemma keep_script: "is_script xs xs (map (\<lambda>x. Keep x x) xs) \<and> cost (map (\<lambda>x. Keep x x) xs) = 0"
  by (induction xs) (auto simp: is_script_def)

lemma file_blocks_self [simp]: "file_blocks base base = []"
proof -
  obtain es where es: "myersDiff (splitLines base) (splitLines base) = Some es" "shortest (splitLines base) (splitLines base) es"
    using myersDiff_total by blast
  then have "cost es = 0" using keep_script [of "splitLines base"] by (auto simp: shortest_def)
  with es show ?thesis by (simp add: file_blocks_def extractChangeBlocks_def cost_0_blocks)
qed

lemma ThreeWayMerge_sides:
  assumes "base \<noteq> []" "f \<or> g"
  shows "ThreeWayMerge base (if f then x else base) (if g then x else base) la lb =
    (if inserts_only base x then None else Some (Done (x, False)))"
proof -
  have "file_blocks base (if h then x else base) = side h (file_blocks base x)" for h
    by (simp add: side_def)
  with merge_loop_sides [OF assms(2) file_blocks_spec(2) [of base x], of la lb "[]" False] file_blocks_spec(3) [of base x]
  show ?thesis by (simp add: ThreeWayMerge_eq [OF assms(1)] mergeChangeBlocks_def inserts_only_def)
qed

section \<open>Properties\<close>

text \<open>C27. When only one side changed a non-empty file, or both sides made the same change, the merge
  takes that change without a conflict, unless the diff contains a block that only inserts lines: then
  it does not return.\<close>

theorem threeway_one_change:
  assumes "base \<noteq> []"
  shows "ThreeWayMerge base x base la lb = (if inserts_only base x then None else Some (Done (x, False))) \<and>
    ThreeWayMerge base base x la lb = (if inserts_only base x then None else Some (Done (x, False))) \<and>
    ThreeWayMerge base x x la lb = (if inserts_only base x then None else Some (Done (x, False)))"
  using ThreeWayMerge_sides [OF assms, of True False x la lb] ThreeWayMerge_sides [OF assms, of False True x la lb]
    ThreeWayMerge_sides [OF assms, of True True x la lb] by simp

lemma inserts_only_samples:
  "\<not> inserts_only (''a'' @ [LF] @ ''b'' @ [LF]) (''c'' @ [LF] @ ''b'' @ [LF])"
  "inserts_only (''a'' @ [LF]) (''a'' @ [LF] @ ''b'' @ [LF])"
  "\<not> inserts_only (''a'' @ [LF] @ ''b'' @ [LF]) (''a'' @ [LF])"
  by code_simp+

theorem threeway_one_change_witness:
  "ThreeWayMerge (''a'' @ [LF] @ ''b'' @ [LF]) (''c'' @ [LF] @ ''b'' @ [LF]) (''a'' @ [LF] @ ''b'' @ [LF]) ''HEAD'' ''dev'' =
     Some (Done (''c'' @ [LF] @ ''b'' @ [LF], False))"
  using threeway_one_change [of "''a'' @ [LF] @ ''b'' @ [LF]" "''c'' @ [LF] @ ''b'' @ [LF]" "''HEAD''" "''dev''"]
    inserts_only_samples(1) by simp

text \<open>Appending a line to a one-line file on one side, with the other side unchanged, already makes
  the merge run forever; the comment in \<^verbatim>\<open>ThreeWayMerge\<close> confines the problem to an empty base.\<close>

theorem threeway_append_diverges:
  "ThreeWayMerge (''a'' @ [LF]) (''a'' @ [LF] @ ''b'' @ [LF]) (''a'' @ [LF]) la lb = None"
  using ThreeWayMerge_sides [of "''a'' @ [LF]" True False "''a'' @ [LF] @ ''b'' @ [LF]" la lb] inserts_only_samples(2)
  by simp

text \<open>If every block of both diffs replaces or deletes at least one line, the merge returns: it
  gives a result or panics, but does not run forever.\<close>

theorem threeway_returns:
  assumes "\<not> inserts_only base ours" "\<not> inserts_only base theirs"
  shows "\<exists>r. ThreeWayMerge base ours theirs la lb = Some r"
proof (cases "base = []")
  case True
  then show ?thesis by (simp add: ThreeWayMerge_def Let_def)
next
  case False
  have "baseStart b < baseEnd b \<and> baseEnd b \<le> length (splitLines base)"
    if "b \<in> set (file_blocks base ours) \<union> set (file_blocks base theirs)" for b
    using that assms wf_blocks_bounds [OF file_blocks_spec(2)]
    by (fastforce simp: inserts_only_def has_insertion_def order_le_less)
  then show ?thesis
    using merge_loop_returns by (auto simp: ThreeWayMerge_eq [OF False] mergeChangeBlocks_def)
qed

theorem threeway_returns_witness:
  "\<exists>r. ThreeWayMerge (''a'' @ [LF] @ ''b'' @ [LF]) (''c'' @ [LF] @ ''b'' @ [LF]) (''a'' @ [LF]) ''HEAD'' ''dev'' = Some r"
  by (rule threeway_returns) (rule inserts_only_samples)+

text \<open>Overlapping changes can take the merge out of bounds: here ours replaces the first three
  lines, theirs the first and the last three, and the slice after their last block has its bounds in the
  wrong order, which is a run-time panic.\<close>

theorem threeway_overlap_panics:
  "ThreeWayMerge (''a'' @ [LF] @ ''b'' @ [LF] @ ''c'' @ [LF] @ ''d'' @ [LF] @ ''e'' @ [LF])
     (''X'' @ [LF] @ ''d'' @ [LF] @ ''e'' @ [LF]) (''Y'' @ [LF] @ ''b'' @ [LF] @ ''Z'' @ [LF])
     ''HEAD'' ''dev'' = Some Panic"
  by code_simp

end
