(* ===== verification/Conflict_Markers.thy ===== *)
theory Conflict_Markers
  imports Go_Strings Three_Way
begin

text \<open>
  \<^verbatim>\<open>internal/conflict/conflict.go\<close> and \<^verbatim>\<open>hunks.go\<close>: reading and rewriting the conflict markers of a file.
  \<^verbatim>\<open>splitLines\<close> and \<^verbatim>\<open>equalLines\<close> of this package are the functions of \<^verbatim>\<open>pkg/diff\<close>. A line number in an
  error message is part of the error value.
\<close>

section \<open>Markers\<close>

definition markerBegin :: string where "markerBegin = ''<<<<<<<''"
definition markerSep :: string where "markerSep = ''=======''"
definition markerEnd :: string where "markerEnd = ''>>>>>>>''"
definition markerBase :: string where "markerBase = ''|||||||''"

definition trimEnd :: "string \<Rightarrow> string" where
  "trimEnd line = TrimRight line {CR, LF}"

definition isBegin :: "string \<Rightarrow> bool" where "isBegin line = HasPrefix (trimEnd line) markerBegin"
definition isEnd :: "string \<Rightarrow> bool" where "isEnd line = HasPrefix (trimEnd line) markerEnd"
definition isSep :: "string \<Rightarrow> bool" where "isSep line \<longleftrightarrow> trimEnd line = markerSep"
definition isBaseMarker :: "string \<Rightarrow> bool" where "isBaseMarker line = HasPrefix (trimEnd line) markerBase"

definition HasMarkers :: "bytes \<Rightarrow> bool" where
  "HasMarkers data = list_ex isBegin (splitLines data)"

definition binarySniffLen :: nat where "binarySniffLen = 8000"

definition IsBinary :: "bytes \<Rightarrow> bool" where
  "IsBinary data = list_ex (\<lambda>b. b = NUL) (take binarySniffLen data)"

definition Count :: "bytes \<Rightarrow> nat" where
  "Count data = length (filter isBegin (splitLines data))"

section \<open>Resolving by strategy\<close>

datatype Strategy = Ours | Theirs | Union | Auto

definition ParseStrategy :: "string \<Rightarrow> Strategy option" where
  "ParseStrategy s =
     (if s = ''ours'' then Some Ours else if s = ''theirs'' then Some Theirs
      else if s = ''union'' then Some Union else if s = ''auto'' then Some Auto else None)"

record Stats =
  Total :: nat
  Resolved :: nat
  Remaining :: nat

datatype marker_error = Malformed nat | MissingSep | MissingEnd | SecondBase nat | EndBeforeSep nat | Unterminated nat

fun resolveHunk :: "string list \<Rightarrow> string list \<Rightarrow> Strategy \<Rightarrow> string list \<Rightarrow> string list \<times> bool" where
  "resolveHunk ours theirs Ours original = (ours, True)"
| "resolveHunk ours theirs Theirs original = (theirs, True)"
| "resolveHunk ours theirs Union original = (ours @ theirs, True)"
| "resolveHunk ours theirs Auto original =
     (if ours = theirs then (ours, True)
      else if ours = [] then (theirs, True)
      else if theirs = [] then (ours, True)
      else (original, False))"

text \<open>The two scanning loops of \<^verbatim>\<open>Resolve\<close>; \<open>j\<close> is the index of the first line left.\<close>

fun scan_ours :: "nat \<Rightarrow> string list \<Rightarrow> string list \<Rightarrow> marker_error + (string list \<times> nat \<times> string list)" where
  "scan_ours j acc [] = Inl MissingSep"
| "scan_ours j acc (l # ls) =
     (if isSep l then Inr (acc, j, l # ls)
      else if isBegin l \<or> isEnd l then Inl (Malformed (j + 1))
      else scan_ours (j + 1) (acc @ [l]) ls)"

fun scan_theirs :: "nat \<Rightarrow> string list \<Rightarrow> string list \<Rightarrow> marker_error + (string list \<times> nat \<times> string list)" where
  "scan_theirs j acc [] = Inl MissingEnd"
| "scan_theirs j acc (l # ls) =
     (if isEnd l then Inr (acc, j, l # ls)
      else if isBegin l \<or> isSep l then Inl (Malformed (j + 1))
      else scan_theirs (j + 1) (acc @ [l]) ls)"

lemma scan_ours_split:
  "scan_ours j acc ls = Inr (os, j', rest) \<Longrightarrow>
     \<exists>mid s tail. ls = mid @ rest \<and> rest = s # tail \<and> isSep s \<and> os = acc @ mid \<and> j' = j + length mid \<and>
       (\<forall>l \<in> set mid. \<not> isSep l \<and> \<not> isBegin l \<and> \<not> isEnd l)"
proof (induction j acc ls rule: scan_ours.induct)
  case (2 j acc l ls)
  show ?case
  proof (cases "isSep l")
    case False
    with 2 obtain mid s tail where "ls = mid @ rest \<and> rest = s # tail \<and> isSep s \<and> os = (acc @ [l]) @ mid \<and> j' = j + 1 + length mid \<and>
       (\<forall>l \<in> set mid. \<not> isSep l \<and> \<not> isBegin l \<and> \<not> isEnd l)" by (auto split: if_splits)
    with 2 False show ?thesis by (intro exI [of _ "l # mid"]) (auto split: if_splits)
  qed (use 2 in auto)
qed simp

lemma scan_theirs_split:
  "scan_theirs j acc ls = Inr (ts, j', rest) \<Longrightarrow>
     \<exists>mid s tail. ls = mid @ rest \<and> rest = s # tail \<and> isEnd s \<and> ts = acc @ mid \<and> j' = j + length mid \<and>
       (\<forall>l \<in> set mid. \<not> isSep l \<and> \<not> isBegin l \<and> \<not> isEnd l)"
proof (induction j acc ls rule: scan_theirs.induct)
  case (2 j acc l ls)
  show ?case
  proof (cases "isEnd l")
    case False
    with 2 obtain mid s tail where "ls = mid @ rest \<and> rest = s # tail \<and> isEnd s \<and> ts = (acc @ [l]) @ mid \<and> j' = j + 1 + length mid \<and>
       (\<forall>l \<in> set mid. \<not> isSep l \<and> \<not> isBegin l \<and> \<not> isEnd l)" by (auto split: if_splits)
    with 2 False show ?thesis by (intro exI [of _ "l # mid"]) (auto split: if_splits)
  qed (use 2 in auto)
qed simp

text \<open>One conflict hunk: the lines after the begin marker, up to and with the end marker. The result is
  our lines, their lines, the lines of the hunk after its begin marker, and the lines left.\<close>

definition scan_hunk :: "nat \<Rightarrow> string list \<Rightarrow> marker_error + (string list \<times> string list \<times> string list \<times> string list)" where
  "scan_hunk i ls =
     bind_res (scan_ours i [] ls) (\<lambda>(os, j, rest).
     bind_res (scan_theirs (j + 1) [] (tl rest)) (\<lambda>(ts, j', rest').
       Inr (os, ts, take (j' + 1 - i) ls, tl rest')))"

lemma scan_hunk_split:
  assumes "scan_hunk i ls = Inr (os, ts, raw, rest)"
  shows "\<exists>s e. ls = raw @ rest \<and> raw = os @ s # ts @ [e] \<and> isSep s \<and> isEnd e \<and>
    (\<forall>l \<in> set os \<union> set ts. \<not> isSep l \<and> \<not> isBegin l \<and> \<not> isEnd l)"
proof -
  from assms obtain j r1 j' r2 where a: "scan_ours i [] ls = Inr (os, j, r1)"
    "scan_theirs (j + 1) [] (tl r1) = Inr (ts, j', r2)" "raw = take (j' + 1 - i) ls" "rest = tl r2"
    by (auto simp: scan_hunk_def res_simps)
  from scan_ours_split [OF a(1)] scan_theirs_split [OF a(2)] a(3,4) show ?thesis by force
qed

lemma scan_hunk_shorter: "scan_hunk i ls = Inr (os, ts, raw, rest) \<Longrightarrow> length rest < length ls"
  using scan_hunk_split by fastforce

function resolve_lines :: "Strategy \<Rightarrow> nat \<Rightarrow> string list \<Rightarrow> string list \<Rightarrow> Stats \<Rightarrow> marker_error + (string list \<times> Stats)" where
  "resolve_lines strat i [] out stats = Inr (out, stats)"
| "resolve_lines strat i (l # ls) out stats =
     (if \<not> isBegin l then resolve_lines strat (i + 1) ls (out @ [l]) stats
      else case scan_hunk (i + 1) ls of
        Inl e \<Rightarrow> Inl e
      | Inr (os, ts, raw, rest) \<Rightarrow>
         (case resolveHunk os ts strat (l # raw) of (resolved, ok) \<Rightarrow>
            resolve_lines strat (i + 1 + length raw) rest (out @ resolved)
              (if ok then stats\<lparr>Total := Total stats + 1, Resolved := Resolved stats + 1\<rparr>
               else stats\<lparr>Total := Total stats + 1, Remaining := Remaining stats + 1\<rparr>)))"
  by pat_completeness auto
termination
  by (relation "measure (\<lambda>(strat, i, ls, out, stats). length ls)") (auto dest: scan_hunk_shorter)

definition no_stats :: Stats where
  "no_stats = \<lparr>Total = 0, Resolved = 0, Remaining = 0\<rparr>"

definition Resolve :: "bytes \<Rightarrow> Strategy \<Rightarrow> marker_error + (bytes \<times> Stats)" where
  "Resolve data strat =
     bind_res (resolve_lines strat 0 (splitLines data) [] no_stats) (\<lambda>(out, stats). Inr (concat out, stats))"

section \<open>Hunks\<close>

record Hunk =
  OurLabel :: string
  TheirLabel :: string
  hk_Ours :: "string list"
  hk_Base :: "string list"
  hk_Theirs :: "string list"
  HasBase :: bool
  Raw :: "string list"

datatype Segment = Text "string list" | HunkSeg Hunk

datatype Pick = PickSkip | PickOurs | PickTheirs | PickBoth | PickBothTheirsFirst | PickCustom

record Decision =
  pick :: Pick
  Custom :: "string list"

definition label :: "string \<Rightarrow> string \<Rightarrow> string" where
  "label line marker = TrimSpace (TrimPrefix (trimEnd line) marker)"

datatype section_ptr = InOurs | InBase | InTheirs

text \<open>The inner loop of \<^verbatim>\<open>Parse\<close>: \<open>j\<close> is the index of the first line left, \<open>sect\<close> what the pointer
  \<^verbatim>\<open>section\<close> points to.\<close>

fun parse_hunk :: "nat \<Rightarrow> nat \<Rightarrow> section_ptr \<Rightarrow> Hunk \<Rightarrow> string list \<Rightarrow> marker_error + (Hunk \<times> nat \<times> string list)" where
  "parse_hunk ln0 j sect h [] = Inl (Unterminated (ln0 + 1))"
| "parse_hunk ln0 j sect h (l # ls) =
     (if isBegin l then Inl (Malformed (j + 1))
      else if isBaseMarker l \<and> \<not> HasBase h \<and> sect = InOurs
        then parse_hunk ln0 (j + 1) InBase (h\<lparr>HasBase := True\<rparr>) ls
      else if isBaseMarker l \<and> HasBase h \<and> sect = InBase then Inl (SecondBase (j + 1))
      else if isSep l \<and> sect \<noteq> InTheirs then parse_hunk ln0 (j + 1) InTheirs h ls
      else if isEnd l \<and> sect = InTheirs then Inr (h\<lparr>TheirLabel := label l markerEnd\<rparr>, j, ls)
      else if isEnd l then Inl (EndBeforeSep (j + 1))
      else parse_hunk ln0 (j + 1) sect
        (case sect of
           InOurs \<Rightarrow> h\<lparr>hk_Ours := hk_Ours h @ [l]\<rparr>
         | InBase \<Rightarrow> h\<lparr>hk_Base := hk_Base h @ [l]\<rparr>
         | InTheirs \<Rightarrow> h\<lparr>hk_Theirs := hk_Theirs h @ [l]\<rparr>) ls)"

lemma parse_hunk_split:
  "parse_hunk ln0 j sect h ls = Inr (h', j', rest) \<Longrightarrow> \<exists>raw. ls = raw @ rest \<and> j' + 1 = j + length raw \<and> raw \<noteq> []"
proof (induction ln0 j sect h ls rule: parse_hunk.induct)
  case (2 ln0 j sect h l ls)
  show ?case
  proof (cases "isEnd l \<and> sect = InTheirs \<and> j' = j \<and> rest = ls")
    case True
    then show ?thesis by (intro exI [of _ "[l]"]) simp
  next
    case False
    with 2 have "\<exists>raw. ls = raw @ rest \<and> j' + 1 = j + 1 + length raw \<and> raw \<noteq> []" by (auto split: if_splits)
    then obtain raw where "ls = raw @ rest" "j' + 1 = j + 1 + length raw" by blast
    then show ?thesis by (intro exI [of _ "l # raw"]) simp
  qed
qed simp

definition flush :: "string list \<Rightarrow> Segment list \<Rightarrow> Segment list" where
  "flush tx segs = (if tx = [] then segs else segs @ [Text tx])"

definition new_hunk :: "string \<Rightarrow> Hunk" where
  "new_hunk l = \<lparr>OurLabel = label l markerBegin, TheirLabel = [], hk_Ours = [], hk_Base = [], hk_Theirs = [],
                 HasBase = False, Raw = []\<rparr>"

function parse_lines :: "nat \<Rightarrow> string list \<Rightarrow> string list \<Rightarrow> Segment list \<Rightarrow> marker_error + Segment list" where
  "parse_lines i [] tx segs = Inr (flush tx segs)"
| "parse_lines i (l # ls) tx segs =
     (if \<not> isBegin l then parse_lines (i + 1) ls (tx @ [l]) segs
      else case parse_hunk i (i + 1) InOurs (new_hunk l) ls of
        Inl e \<Rightarrow> Inl e
      | Inr (h, j, rest) \<Rightarrow>
          parse_lines (j + 1) rest []
            (flush tx segs @ [HunkSeg (h\<lparr>Raw := take (j + 1 - i) (l # ls)\<rparr>)]))"
  by pat_completeness auto
termination
  by (relation "measure (\<lambda>(i, ls, tx, segs). length ls)") (auto dest: parse_hunk_split)

definition Parse :: "bytes \<Rightarrow> marker_error + Segment list" where
  "Parse data = parse_lines 0 (splitLines data) [] []"

definition HunkCount :: "Segment list \<Rightarrow> nat" where
  "HunkCount segs = length (filter (\<lambda>s. case s of Text _ \<Rightarrow> False | HunkSeg _ \<Rightarrow> True) segs)"

definition joinLines :: "string list \<Rightarrow> string list \<Rightarrow> string list" where
  "joinLines a b =
     (if a \<noteq> [] \<and> b \<noteq> [] \<and> \<not> HasSuffix (last a) [LF] then butlast a @ [last a @ [LF]] else a) @ b"

definition no_decision :: Decision where
  "no_decision = \<lparr>pick = PickSkip, Custom = []\<rparr>"

definition settle :: "Hunk \<Rightarrow> Decision \<Rightarrow> string list" where
  "settle h d = (case pick d of
     PickOurs \<Rightarrow> hk_Ours h
   | PickTheirs \<Rightarrow> hk_Theirs h
   | PickBoth \<Rightarrow> joinLines (hk_Ours h) (hk_Theirs h)
   | PickBothTheirsFirst \<Rightarrow> joinLines (hk_Theirs h) (hk_Ours h)
   | PickCustom \<Rightarrow> Custom d
   | PickSkip \<Rightarrow> Raw h)"

fun assemble_loop :: "Segment list \<Rightarrow> Decision list \<Rightarrow> nat \<Rightarrow> string list \<Rightarrow> nat \<Rightarrow> string list \<times> nat" where
  "assemble_loop [] ds k out remaining = (out, remaining)"
| "assemble_loop (Text t # segs) ds k out remaining = assemble_loop segs ds k (out @ t) remaining"
| "assemble_loop (HunkSeg h # segs) ds k out remaining =
     (let d = (if k < length ds then ds ! k else no_decision) in
      assemble_loop segs ds (k + 1) (out @ settle h d) (if pick d = PickSkip then remaining + 1 else remaining))"

definition Assemble :: "Segment list \<Rightarrow> Decision list \<Rightarrow> bytes \<times> nat" where
  "Assemble segs ds = (case assemble_loop segs ds 0 [] 0 of (out, remaining) \<Rightarrow> (concat out, remaining))"

section \<open>Resolve\<close>

abbreviation begins :: "string list \<Rightarrow> nat" where
  "begins ls \<equiv> length (filter isBegin ls)"

lemma marker_kinds: "isSep s \<Longrightarrow> \<not> isBegin s" "isEnd s \<Longrightarrow> \<not> isBegin s" "isSep s \<Longrightarrow> \<not> isEnd s"
    "isSep s \<Longrightarrow> \<not> isBaseMarker s" "isEnd s \<Longrightarrow> \<not> isBaseMarker s"
  by (auto simp: isBegin_def isSep_def isEnd_def isBaseMarker_def HasPrefix_def markerBegin_def markerSep_def
      markerEnd_def markerBase_def)

lemma begins_0: "\<forall>l \<in> set ls. \<not> isBegin l \<Longrightarrow> filter isBegin ls = []"
  by simp

text \<open>What one hunk contributes: the lines of a hunk and the lines that replace it.\<close>

lemma scan_hunk_resolved:
  assumes h: "scan_hunk i ls = Inr (os, ts, raw, rest)" and r: "resolveHunk os ts strat (l # raw) = (res, ok)"
    and l: "isBegin l" and lo: "lines_ok (out @ l # ls)"
  shows "lines_ok (out @ res @ rest)" "begins ls = begins rest" "begins res = (if ok then 0 else 1)" "strat \<noteq> Auto \<Longrightarrow> ok"
    "ls = raw @ rest"
proof -
  from scan_hunk_split [OF h] obtain s e where sp: "ls = raw @ rest" "raw = os @ s # ts @ [e]" "isSep s" "isEnd e"
      "\<forall>l \<in> set os \<union> set ts. \<not> isBegin l" by blast
  have nb: "begins os = 0" "begins ts = 0" "\<not> isBegin s" "\<not> isBegin e"
    using sp(3-5) marker_kinds by (auto intro!: begins_0)
  show "ls = raw @ rest" by (rule sp)
  show "begins ls = begins rest" using sp(1,2) nb by simp
  have res: "ok \<Longrightarrow> set res \<subseteq> set os \<union> set ts" "\<not> ok \<Longrightarrow> res = l # raw" "ok \<Longrightarrow> begins res = 0"
    using r nb by (cases strat; auto split: if_splits)+
  from res nb l sp(2) show "begins res = (if ok then 0 else 1)" by auto
  show "strat \<noteq> Auto \<Longrightarrow> ok" using r by (cases strat) (auto split: if_splits)
  have full: "\<forall>l \<in> set os \<union> set ts. full_line l"
    using lo lines_ok_append [of "[e] @ rest" "out @ l # os @ s # ts"] sp(1,2) by auto
  show "lines_ok (out @ res @ rest)"
  proof (cases ok)
    case True
    with res full have "\<forall>l \<in> set res. full_line l" by blast
    moreover have "lines_ok (out @ (l # raw) @ rest)" using lo sp(1) by simp
    ultimately show ?thesis using lines_ok_replace [of out "l # raw" rest res] by simp
  qed (use lo sp res in simp)
qed

lemma resolve_lines_spec:
  assumes "resolve_lines strat i ls out st = Inr (out', st')" "lines_ok (out @ ls)"
  shows "\<exists>r m. st' = \<lparr>Total = Total st + r + m, Resolved = Resolved st + r, Remaining = Remaining st + m\<rparr> \<and>
     r + m = begins ls \<and> (strat \<noteq> Auto \<longrightarrow> m = 0) \<and> lines_ok out' \<and> begins out' = begins out + m"
  using assms
proof (induction strat i ls out st rule: resolve_lines.induct)
  case (1 strat i out st)
  then show ?case by (intro exI [of _ 0]) simp
next
  case (2 strat i l ls out st)
  show ?case
  proof (cases "isBegin l")
    case False
    with 2(1) [OF False] 2(3,4) show ?thesis by simp
  next
    case True
    with 2(3) obtain os ts raw rest where h: "scan_hunk (i + 1) ls = Inr (os, ts, raw, rest)"
      by (cases "scan_hunk (i + 1) ls") auto
    obtain res ok where r: "resolveHunk os ts strat (l # raw) = (res, ok)" by fastforce
    note hk = scan_hunk_resolved [OF h r True 2(4)]
    define st1 where "st1 = (if ok then st\<lparr>Total := Total st + 1, Resolved := Resolved st + 1\<rparr>
               else st\<lparr>Total := Total st + 1, Remaining := Remaining st + 1\<rparr>)"
    have eq: "resolve_lines strat (i + 1 + length raw) rest (out @ res) st1 = Inr (out', st')"
      using 2(3) True h r by (simp add: st1_def)
    have "\<exists>r m. st' = \<lparr>Total = Total st1 + r + m, Resolved = Resolved st1 + r, Remaining = Remaining st1 + m\<rparr> \<and>
       r + m = begins rest \<and> (strat \<noteq> Auto \<longrightarrow> m = 0) \<and> lines_ok out' \<and> begins out' = begins (out @ res) + m"
      using 2(2) [OF _ h refl refl refl r [symmetric] eq [unfolded st1_def]] True hk(1)
      unfolding st1_def by simp
    then obtain r' m where rm: "st' = \<lparr>Total = Total st1 + r' + m, Resolved = Resolved st1 + r', Remaining = Remaining st1 + m\<rparr>"
       "r' + m = begins rest" "strat \<noteq> Auto \<longrightarrow> m = 0" "lines_ok out'" "begins out' = begins (out @ res) + m" by blast
    show ?thesis
    proof (cases ok)
      case ok: True
      with rm hk True show ?thesis by (intro exI [of _ "r' + 1"] exI [of _ m]) (auto simp: st1_def)
    next
      case nok: False
      with rm hk True show ?thesis by (intro exI [of _ r'] exI [of _ "m + 1"]) (auto simp: st1_def)
    qed
  qed
qed

lemma resolve_lines_plain:
  "begins ls = 0 \<Longrightarrow> resolve_lines strat i ls out st = Inr (out @ ls, st)"
  by (induction ls arbitrary: i out) (auto split: if_splits)

section \<open>Parse and Assemble\<close>

definition seg_lines :: "(Hunk \<Rightarrow> string list) \<Rightarrow> Segment list \<Rightarrow> string list" where
  "seg_lines f segs = concat (map (\<lambda>s. case s of Text t \<Rightarrow> t | HunkSeg h \<Rightarrow> f h) segs)"

lemma seg_lines_simps [simp]:
  "seg_lines f [] = []"
  "seg_lines f (Text t # segs) = t @ seg_lines f segs"
  "seg_lines f (HunkSeg h # segs) = f h @ seg_lines f segs"
  "seg_lines f (a @ b) = seg_lines f a @ seg_lines f b"
  "seg_lines f (flush tx segs) = seg_lines f segs @ tx"
  by (simp_all add: seg_lines_def flush_def)

lemma HunkCount_simps [simp]:
  "HunkCount [] = 0"
  "HunkCount (Text t # segs) = HunkCount segs"
  "HunkCount (HunkSeg h # segs) = Suc (HunkCount segs)"
  "HunkCount (a @ b) = HunkCount a + HunkCount b"
  "HunkCount (flush tx segs) = HunkCount segs"
  by (simp_all add: HunkCount_def flush_def)

lemma parse_lines_raw:
  "parse_lines i ls tx segs = Inr segs' \<Longrightarrow> seg_lines Raw segs' = seg_lines Raw segs @ tx @ ls"
proof (induction i ls tx segs rule: parse_lines.induct)
  case (2 i l ls tx segs)
  show ?case
  proof (cases "isBegin l")
    case True
    with 2(3) obtain h j rest where h: "parse_hunk i (i + 1) InOurs (new_hunk l) ls = Inr (h, j, rest)"
      by (cases "parse_hunk i (i + 1) InOurs (new_hunk l) ls") auto
    from parse_hunk_split [OF h] obtain raw where raw: "ls = raw @ rest" "j + 1 = i + 1 + length raw" by blast
    then have "take (j + 1 - i) (l # ls) = l # raw" by simp
    with 2(2) [OF _ h refl refl] 2(3) True h raw show ?thesis by simp
  qed (use 2 in simp)
qed auto

lemma assemble_skip:
  "\<forall>d \<in> set ds. pick d = PickSkip \<Longrightarrow>
     assemble_loop segs ds k out n = (out @ seg_lines Raw segs, n + HunkCount segs)"
proof (induction segs ds k out n rule: assemble_loop.induct)
  case (3 h segs ds k out n)
  let ?d = "if k < length ds then ds ! k else no_decision"
  have "pick ?d = PickSkip" using 3(2) by (simp add: no_decision_def)
  with 3 show ?case by (simp add: Let_def settle_def)
qed simp_all

lemma assemble_all:
  assumes "pick d \<noteq> PickSkip" "k + HunkCount segs \<le> n"
  shows "assemble_loop segs (replicate n d) k out r = (out @ seg_lines (\<lambda>h. settle h d) segs, r)"
  using assms(2)
proof (induction segs arbitrary: k out)
  case (Cons s segs)
  then show ?case using assms(1) by (cases s) (simp_all add: Let_def)
qed simp

lemma parse_hunk_scanned:
  assumes "isSep s" "isEnd e"
    "\<forall>l \<in> set os \<union> set ts. \<not> isSep l \<and> \<not> isBegin l \<and> \<not> isEnd l \<and> \<not> isBaseMarker l"
  shows "parse_hunk i j InOurs h (os @ s # ts @ e # rest) =
    Inr (h\<lparr>hk_Ours := hk_Ours h @ os, hk_Theirs := hk_Theirs h @ ts, TheirLabel := label e markerEnd\<rparr>,
         j + length os + 1 + length ts, rest)"
proof -
  have t: "\<forall>l \<in> set ts. \<not> isSep l \<and> \<not> isBegin l \<and> \<not> isEnd l \<and> \<not> isBaseMarker l \<Longrightarrow>
    parse_hunk i j InTheirs h (ts @ e # rest) =
    Inr (h\<lparr>hk_Theirs := hk_Theirs h @ ts, TheirLabel := label e markerEnd\<rparr>, j + length ts, rest)" for j h
    using assms(2) marker_kinds(2,5) [of e] by (induction ts arbitrary: j h) auto
  have o: "\<forall>l \<in> set os. \<not> isSep l \<and> \<not> isBegin l \<and> \<not> isEnd l \<and> \<not> isBaseMarker l \<Longrightarrow>
    parse_hunk i j InOurs h (os @ s # ts @ e # rest) =
    parse_hunk i (j + length os + 1) InTheirs (h\<lparr>hk_Ours := hk_Ours h @ os\<rparr>) (ts @ e # rest)" for j h
    using assms(1) marker_kinds(1,3,4) [of s] by (induction os arbitrary: j h) auto
  from o [of j h] t [of "j + length os + 1" "h\<lparr>hk_Ours := hk_Ours h @ os\<rparr>"] assms(3) show ?thesis by simp
qed

fun pick_of :: "Strategy \<Rightarrow> Pick" where
  "pick_of Ours = PickOurs"
| "pick_of Theirs = PickTheirs"
| "pick_of Union = PickBoth"
| "pick_of Auto = PickSkip"

lemma joinLines_full: "\<forall>l \<in> set a. full_line l \<Longrightarrow> joinLines a b = a @ b"
proof -
  assume a: "\<forall>l \<in> set a. full_line l"
  have "HasSuffix (last a) [LF]" if "a \<noteq> []"
    using a last_in_set [OF that] by (auto simp: full_line_def HasSuffix_def HasPrefix_def)
  then show ?thesis by (auto simp: joinLines_def)
qed

lemma resolve_as_picks:
  assumes "resolve_lines strat i ls out st = Inr (out', st')" "strat \<noteq> Auto" "lines_ok (out @ ls)"
    "\<forall>l \<in> set ls. \<not> isBaseMarker l" "pick d = pick_of strat" "out = seg_lines (\<lambda>h. settle h d) segs @ tx"
  shows "\<exists>segs'. parse_lines i ls tx segs = Inr segs' \<and> seg_lines (\<lambda>h. settle h d) segs' = out' \<and>
    HunkCount segs' = HunkCount segs + begins ls"
  using assms
proof (induction strat i ls out st arbitrary: tx segs rule: resolve_lines.induct)
  case (2 strat i l ls out st)
  show ?case
  proof (cases "isBegin l")
    case False
    with 2(1) [OF False, of segs "tx @ [l]"] 2(3-8) show ?thesis by simp
  next
    case True
    with 2(3) obtain os ts raw rest where h: "scan_hunk (i + 1) ls = Inr (os, ts, raw, rest)"
      by (cases "scan_hunk (i + 1) ls") auto
    obtain res ok where r: "resolveHunk os ts strat (l # raw) = (res, ok)" by fastforce
    note hk = scan_hunk_resolved [OF h r True 2(5)]
    from scan_hunk_split [OF h] obtain s e where sp: "ls = raw @ rest" "raw = os @ s # ts @ [e]" "isSep s" "isEnd e"
      "\<forall>l \<in> set os \<union> set ts. \<not> isSep l \<and> \<not> isBegin l \<and> \<not> isEnd l" by blast
    define hu where "hu = (new_hunk l)\<lparr>hk_Ours := os, hk_Theirs := ts, TheirLabel := label e markerEnd, Raw := l # raw\<rparr>"
    define segs1 where "segs1 = flush tx segs @ [HunkSeg hu]"
    have "\<forall>l \<in> set os \<union> set ts. \<not> isSep l \<and> \<not> isBegin l \<and> \<not> isEnd l \<and> \<not> isBaseMarker l"
      using sp 2(6) by auto
    from parse_hunk_scanned [OF sp(3,4) this, of i "i + 1" "new_hunk l" rest] sp(1,2)
    have ph: "parse_lines i (l # ls) tx segs = parse_lines (i + 1 + length raw) rest [] segs1"
      using True by (simp add: segs1_def hu_def new_hunk_def numeral_3_eq_3 add.assoc)
    have "\<forall>l \<in> set os. full_line l"
      using 2(5) lines_ok_append [of "[e] @ rest" "out @ l # os @ s # ts"] sp(1,2) by auto
    with r 2(4,7) have "settle hu d = res"
      by (cases strat) (auto simp: settle_def hu_def joinLines_full)
    then have o: "out @ res = seg_lines (\<lambda>h. settle h d) segs1 @ []" using 2(8) by (simp add: segs1_def)
    from hk(4) [OF 2(4)] 2(3) True h r have eq: "resolve_lines strat (i + 1 + length raw) rest (out @ res)
        (if ok then st\<lparr>Total := Total st + 1, Resolved := Resolved st + 1\<rparr>
         else st\<lparr>Total := Total st + 1, Remaining := Remaining st + 1\<rparr>) = Inr (out', st')" by simp
    have rb: "\<forall>l \<in> set rest. \<not> isBaseMarker l" using 2(6) sp(1) by auto
    have lo: "lines_ok ((out @ res) @ rest)" using hk(1) by simp
    from 2(2) [OF _ h refl refl refl r [symmetric] eq 2(4) lo rb 2(7) o] True ph hk(2)
    show ?thesis by (simp add: segs1_def)
  qed
qed simp

lemma Resolve_Parse:
  assumes "Resolve data strat = Inr (out, stats)" "strat \<noteq> Auto" "\<forall>l \<in> set (splitLines data). \<not> isBaseMarker l"
  shows "\<exists>segs. Parse data = Inr segs \<and> HunkCount segs = Total stats \<and>
    concat (seg_lines (\<lambda>h. settle h \<lparr>pick = pick_of strat, Custom = []\<rparr>) segs) = out"
proof -
  from assms(1) obtain ls where ls: "resolve_lines strat 0 (splitLines data) [] no_stats = Inr (ls, stats)" "out = concat ls"
    by (auto simp: Resolve_def res_simps)
  from resolve_as_picks [OF ls(1) assms(2) _ assms(3), of "\<lparr>pick = pick_of strat, Custom = []\<rparr>" "[]" "[]"] ls(2)
    resolve_lines_spec [OF ls(1)] show ?thesis by (auto simp: Parse_def no_stats_def)
qed

section \<open>Properties\<close>

text \<open>Whatever the strategy, a successful \<^verbatim>\<open>Resolve\<close> accounts for every conflict: its total is the number
  of begin markers of the input, each is either resolved or remaining, the output has exactly as many
  begin markers as hunks remain, and only the automatic strategy leaves any.\<close>

theorem resolve_accounts:
  assumes "Resolve data strat = Inr (out, stats)"
  shows "Total stats = Count data \<and> Total stats = Resolved stats + Remaining stats \<and>
    Count out = Remaining stats \<and> (strat \<noteq> Auto \<longrightarrow> Remaining stats = 0 \<and> \<not> HasMarkers out)"
proof -
  from assms obtain ls where ls: "resolve_lines strat 0 (splitLines data) [] no_stats = Inr (ls, stats)" "out = concat ls"
    by (auto simp: Resolve_def res_simps)
  from resolve_lines_spec [OF ls(1)] obtain r m where
    "stats = \<lparr>Total = r + m, Resolved = r, Remaining = m\<rparr>" "r + m = begins (splitLines data)"
    "strat \<noteq> Auto \<longrightarrow> m = 0" "lines_ok ls" "begins ls = m" by (auto simp: no_stats_def)
  with ls(2) show ?thesis by (auto simp: Count_def HasMarkers_def splitLines_concat list_ex_iff filter_empty_conv)
qed

definition two_way :: bytes where
  "two_way = concat [''a'' @ [LF], ''<<<<<<< HEAD'' @ [LF], ''b'' @ [LF], ''======='' @ [LF], ''c'' @ [LF], ''>>>>>>> dev'' @ [LF]]"

lemma two_way_ours: "Resolve two_way Ours = Inr (''a'' @ [LF] @ ''b'' @ [LF], \<lparr>Total = 1, Resolved = 1, Remaining = 0\<rparr>)"
  by code_simp

theorem resolve_accounts_witness: "Count two_way = 1 \<and> \<not> HasMarkers (''a'' @ [LF] @ ''b'' @ [LF])"
  using resolve_accounts [OF two_way_ours] by simp

text \<open>Parsing a file and putting it back together with no decision (or only skips) returns it byte for
  byte and reports every hunk as unresolved.\<close>

theorem assemble_undecided:
  assumes "Parse data = Inr segs" "\<forall>d \<in> set ds. pick d = PickSkip"
  shows "Assemble segs ds = (data, HunkCount segs)"
  using parse_lines_raw [of 0 "splitLines data" "[]" "[]" segs] assms assemble_skip [OF assms(2), of segs 0 "[]" 0]
  by (simp add: Parse_def Assemble_def)

lemma two_way_plain: "\<forall>l \<in> set (splitLines two_way). \<not> isBaseMarker l"
  by code_simp

lemma two_way_parse: "\<exists>segs. Parse two_way = Inr segs \<and> HunkCount segs = 1"
  using Resolve_Parse [OF two_way_ours _ two_way_plain] by auto

theorem assemble_undecided_witness: "\<exists>segs. Parse two_way = Inr segs \<and> Assemble segs [no_decision] = (two_way, 1)"
proof -
  obtain segs where s: "Parse two_way = Inr segs" "HunkCount segs = 1" using two_way_parse by blast
  with assemble_undecided [OF s(1), of "[no_decision]"] show ?thesis by (simp add: no_decision_def)
qed



end
