(* ===== verification/Conflict_Render.thy ===== *)
theory Conflict_Render
  imports Conflict_Markers "HOL-Library.Sublist"
begin

text \<open>
  \<^verbatim>\<open>internal/conflict/threeway.go\<close> and \<^verbatim>\<open>render.go\<close>: the second three-way merge of the program, over change
  blocks cut out of a longest common subsequence. \<^verbatim>\<open>lineChange\<close> has the fields of \<^verbatim>\<open>changeBlock\<close> (\<^verbatim>\<open>repl\<close> is
  \<^const>\<open>newLines\<close>). As in the first merge, a bad slice is the outcome \<^const>\<open>Panic\<close> and a loop that does not
  end is \<^const>\<open>None\<close>; here neither ever happens.
\<close>

type_synonym lineChange = changeBlock

section \<open>The table of common subsequences\<close>

text \<open>Row \<open>i\<close> of the table from row \<open>i + 1\<close>, filled from the right as the inner loop does.\<close>

fun lcs_row :: "string \<Rightarrow> string list \<Rightarrow> nat list \<Rightarrow> nat list" where
  "lcs_row x (y # ys) (below # nxt) =
     (let row = lcs_row x ys nxt in
      (if x = y then hd nxt + 1 else if below \<ge> hd row then below else hd row) # row)"
| "lcs_row x _ _ = [0]"

fun lcs_table :: "string list \<Rightarrow> string list \<Rightarrow> nat list list" where
  "lcs_table [] other = [replicate (length other + 1) 0]"
| "lcs_table (x # base) other = (let t = lcs_table base other in lcs_row x other (hd t) # t)"

section \<open>Change blocks\<close>

function lcs_region :: "string list \<Rightarrow> string list \<Rightarrow> nat list list \<Rightarrow> nat \<Rightarrow> nat \<Rightarrow> string list \<Rightarrow> nat \<times> nat \<times> string list" where
  "lcs_region base other lcs i j repl =
     (if i < length base \<and> j < length other \<and> base ! i \<noteq> other ! j
      then if lcs ! (i + 1) ! j \<ge> lcs ! i ! (j + 1) then lcs_region base other lcs (i + 1) j repl
           else lcs_region base other lcs i (j + 1) (repl @ [other ! j])
      else (i, j, repl))"
  by pat_completeness auto
termination
  by (relation "measure (\<lambda>(base, other, lcs, i, j, repl). (length base - i) + (length other - j))") auto

declare lcs_region.simps [simp del]

lemma lcs_region_spec:
  assumes "lcs_region base other lcs i j repl = (i', j', repl')" "i \<le> length base" "j \<le> length other"
  shows "i \<le> i' \<and> i' \<le> length base \<and> j \<le> j' \<and> j' \<le> length other \<and> repl' = repl @ sub other j j' \<and>
    (i' < length base \<and> j' < length other \<longrightarrow> base ! i' = other ! j') \<and>
    (i < length base \<and> j < length other \<and> base ! i \<noteq> other ! j \<longrightarrow> i + j < i' + j')"
  using assms
proof (induction base other lcs i j repl rule: lcs_region.induct)
  case (1 base other lcs i j repl)
  show ?case
  proof (cases "i < length base \<and> j < length other \<and> base ! i \<noteq> other ! j")
    case True
    note cond = True
    show ?thesis
    proof (cases "lcs ! (i + 1) ! j \<ge> lcs ! i ! (j + 1)")
      case True
      with 1(1) [OF cond True] 1(3) cond show ?thesis by (subst (asm) lcs_region.simps) auto
    next
      case False
      with 1(2) [OF cond False] 1(3) cond sub_Suc [of j other] sub_append [of j "Suc j" j' other]
      show ?thesis by (subst (asm) lcs_region.simps) auto
    qed
  next
    case False
    with 1(3-5) show ?thesis by (subst (asm) lcs_region.simps) auto
  qed
qed

function lcs_blocks :: "string list \<Rightarrow> string list \<Rightarrow> nat list list \<Rightarrow> nat \<Rightarrow> nat \<Rightarrow> lineChange list \<times> nat \<times> nat" where
  "lcs_blocks base other lcs i j =
     (if i < length base \<and> j < length other
      then if base ! i = other ! j then lcs_blocks base other lcs (i + 1) (j + 1)
           else (case lcs_region base other lcs i j [] of (i', j', repl) \<Rightarrow>
                  case lcs_blocks base other lcs i' j' of (bs, ie, je) \<Rightarrow>
                    (\<lparr>baseStart = i, baseEnd = i', newLines = repl\<rparr> # bs, ie, je))
      else ([], i, j))"
  by pat_completeness auto
termination
proof (relation "measure (\<lambda>(base, other, lcs, i, j). (length base - i) + (length other - j))", goal_cases)
  case (3 base other lcs i j x y i' repl)
  then show ?case using lcs_region_spec [of base other lcs i j "[]" x i' repl] by auto
qed auto

declare lcs_blocks.simps [simp del]

definition join_tail :: "string list \<Rightarrow> string list \<Rightarrow> lineChange list \<Rightarrow> nat \<Rightarrow> nat \<Rightarrow> lineChange list" where
  "join_tail base other blocks i j =
     (if i < length base \<or> j < length other
      then if blocks \<noteq> [] \<and> baseEnd (last blocks) = i
           then butlast blocks @ [(last blocks)\<lparr>baseEnd := length base, newLines := newLines (last blocks) @ drop j other\<rparr>]
           else blocks @ [\<lparr>baseStart = i, baseEnd = length base, newLines = drop j other\<rparr>]
      else blocks)"

definition changeBlocks :: "string list \<Rightarrow> string list \<Rightarrow> lineChange list" where
  "changeBlocks base other =
     (if base = [] then if other = [] then [] else [\<lparr>baseStart = 0, baseEnd = 0, newLines = other\<rparr>]
      else case lcs_blocks base other (lcs_table base other) 0 0 of (blocks, i, j) \<Rightarrow>
        join_tail base other blocks i j)"

section \<open>Rendering\<close>

datatype MarkerStyle = StyleMerge | StyleDiff3 | StyleZdiff3

definition ParseMarkerStyle :: "string \<Rightarrow> MarkerStyle \<times> bool" where
  "ParseMarkerStyle s =
     (if s = ''merge'' \<or> s = '''' then (StyleMerge, True)
      else if s = ''diff3'' then (StyleDiff3, True)
      else if s = ''zdiff3'' then (StyleZdiff3, True)
      else (StyleMerge, False))"

definition commonPrefixLen :: "string list \<Rightarrow> string list \<Rightarrow> nat" where
  "commonPrefixLen a b = lcp a b"

definition commonSuffixLen :: "string list \<Rightarrow> string list \<Rightarrow> nat" where
  "commonSuffixLen a b = lcp (rev a) (rev b)"

text \<open>\<^verbatim>\<open>base[i:j]\<close> after the two trimming loops; the second one never passes \<open>i\<close>.\<close>

definition trimBaseByHoist :: "string list \<Rightarrow> string list \<Rightarrow> string list \<Rightarrow> string list" where
  "trimBaseByHoist base pre suf =
     (let rest = drop (lcp base pre) base in take (length rest - lcp (rev rest) (rev suf)) rest)"

definition emitConflict ::
    "bytes \<Rightarrow> string list \<Rightarrow> string list \<Rightarrow> string list \<Rightarrow> string \<Rightarrow> string \<Rightarrow> MarkerStyle \<Rightarrow> bytes" where
  "emitConflict out ourMid baseRegion theirMid ourLabel theirLabel style =
     (if style = StyleZdiff3 then
        let pre = commonPrefixLen ourMid theirMid;
            suf = commonSuffixLen (drop pre ourMid) (drop pre theirMid);
            hoistPre = take pre ourMid;
            hoistSuf = drop (length ourMid - suf) ourMid;
            oMid = sub ourMid pre (length ourMid - suf);
            tMid = sub theirMid pre (length theirMid - suf);
            bMid = trimBaseByHoist baseRegion hoistPre hoistSuf;
            out = ensureNL (out @ concat hoistPre);
            out = ensureNL (out @ ''<<<<<<< '' @ ourLabel @ [LF] @ concat oMid);
            out = ensureNL (out @ ''||||||| base'' @ [LF] @ concat bMid);
            out = ensureNL (out @ ''======='' @ [LF] @ concat tMid)
        in ensureNL (out @ ''>>>>>>> '' @ theirLabel @ [LF] @ concat hoistSuf)
      else
        let out = ensureNL (out @ ''<<<<<<< '' @ ourLabel @ [LF] @ concat ourMid);
            out = (if style = StyleDiff3 then ensureNL (out @ ''||||||| base'' @ [LF] @ concat baseRegion) else out);
            out = ensureNL (out @ ''======='' @ [LF] @ concat theirMid)
        in out @ ''>>>>>>> '' @ theirLabel @ [LF])"

fun flatten_loop :: "string list \<Rightarrow> lineChange list \<Rightarrow> nat \<Rightarrow> nat \<Rightarrow> string list \<Rightarrow> string list option" where
  "flatten_loop base [] pos re out =
     (if re > pos then map_option (\<lambda>c. out @ c) (slice base pos re) else Some out)"
| "flatten_loop base (b # region) pos re out =
     (if baseStart b > pos
      then (case slice base pos (baseStart b) of None \<Rightarrow> None
            | Some c \<Rightarrow> flatten_loop base region (baseEnd b) re (out @ c @ newLines b))
      else flatten_loop base region (baseEnd b) re (out @ newLines b))"

definition flattenRegion :: "string list \<Rightarrow> lineChange list \<Rightarrow> nat \<Rightarrow> nat \<Rightarrow> string list option" where
  "flattenRegion base region rs re = flatten_loop base region rs re []"

text \<open>The region of one iteration: each side gives up its leading blocks while they start inside the
  region or at its first line, and the region grows to their ends.\<close>

fun absorb :: "nat \<Rightarrow> lineChange list \<Rightarrow> nat \<Rightarrow> lineChange list \<Rightarrow> lineChange list \<times> nat \<times> lineChange list" where
  "absorb rs (b # bs) re region =
     (if baseStart b < re \<or> baseStart b = rs
      then absorb rs bs (if baseEnd b > re then baseEnd b else re) (region @ [b])
      else (b # bs, re, region))"
| "absorb rs [] re region = ([], re, region)"

lemma absorb_spec:
  "absorb rs bs re region = (bs', re', region') \<Longrightarrow>
     \<exists>c. bs = c @ bs' \<and> region' = region @ c \<and> re \<le> re' \<and> (\<forall>b \<in> set c. baseEnd b \<le> re') \<and>
       (re' = re \<or> (\<exists>b \<in> set c. re' = baseEnd b)) \<and>
       (bs' \<noteq> [] \<longrightarrow> \<not> (baseStart (hd bs') < re' \<or> baseStart (hd bs') = rs))"
proof (induction rs bs re region rule: absorb.induct)
  case (1 rs b bs re region)
  show ?case
  proof (cases "baseStart b < re \<or> baseStart b = rs")
    case True
    with 1 obtain c where c: "bs = c @ bs'" "region' = (region @ [b]) @ c" "(if baseEnd b > re then baseEnd b else re) \<le> re'"
      "\<forall>b \<in> set c. baseEnd b \<le> re'"
      "re' = (if baseEnd b > re then baseEnd b else re) \<or> (\<exists>b \<in> set c. re' = baseEnd b)"
      "bs' \<noteq> [] \<longrightarrow> \<not> (baseStart (hd bs') < re' \<or> baseStart (hd bs') = rs)" by auto
    then show ?thesis by (intro exI [of _ "b # c"]) (auto split: if_splits)
  qed (use 1 in auto)
qed simp

lemma absorb_length: "absorb rs bs re region = (bs', re', region') \<Longrightarrow> length bs' \<le> length bs"
  using absorb_spec by fastforce

function grow_region :: "nat \<Rightarrow> lineChange list \<Rightarrow> lineChange list \<Rightarrow> nat \<Rightarrow> lineChange list \<Rightarrow> lineChange list \<Rightarrow>
    lineChange list \<times> lineChange list \<times> nat \<times> lineChange list \<times> lineChange list" where
  "grow_region rs ours theirs re ourRegion theirRegion =
     (case absorb rs ours re ourRegion of (ours', re1, ourRegion') \<Rightarrow>
      case absorb rs theirs re1 theirRegion of (theirs', re2, theirRegion') \<Rightarrow>
        if length ours' < length ours \<or> length theirs' < length theirs
        then grow_region rs ours' theirs' re2 ourRegion' theirRegion'
        else (ours', theirs', re2, ourRegion', theirRegion'))"
  by pat_completeness auto
termination
proof (relation "measure (\<lambda>(rs, ours, theirs, re, o', t). length ours + length theirs)", goal_cases)
  case (2 rs os ts re or tr os' p re1 or' ts' q re2 tr')
  then show ?case using absorb_length [of rs os re or os' re1 or'] absorb_length [of rs ts re1 tr ts' re2 tr'] by auto
qed simp

declare grow_region.simps [simp del]

record render_state =
  rd_pos :: nat
  rd_ours :: "lineChange list"
  rd_theirs :: "lineChange list"
  rd_out :: bytes
  rd_stats :: Stats

definition settle_region ::
    "string \<Rightarrow> string \<Rightarrow> MarkerStyle \<Rightarrow> bool \<Rightarrow> bool \<Rightarrow> string list \<Rightarrow> string list option \<Rightarrow> string list \<Rightarrow> bytes \<times> Stats \<Rightarrow> (bytes \<times> Stats) option" where
  "settle_region ourLabel theirLabel style ourChanged theirChanged ourOut baseRegion theirOut = (\<lambda>(out, stats).
     if ourChanged \<and> \<not> theirChanged then Some (out @ concat ourOut, stats)
     else if theirChanged \<and> \<not> ourChanged then Some (out @ concat theirOut, stats)
     else if ourOut = theirOut
       then Some (out @ concat ourOut, stats\<lparr>Total := Total stats + 1, Resolved := Resolved stats + 1\<rparr>)
     else map_option (\<lambda>baseLines. (emitConflict out ourOut baseLines theirOut ourLabel theirLabel style,
           stats\<lparr>Total := Total stats + 1, Remaining := Remaining stats + 1\<rparr>)) baseRegion)"

definition render_step ::
    "string list \<Rightarrow> string \<Rightarrow> string \<Rightarrow> MarkerStyle \<Rightarrow> render_state \<Rightarrow> (render_state + (bytes \<times> Stats)) outcome" where
  "render_step base ourLabel theirLabel style s =
     (if rd_ours s = [] \<and> rd_theirs s = []
      then (case slice base (rd_pos s) (length base) of None \<Rightarrow> Panic
            | Some rest \<Rightarrow> Done (Inr (rd_out s @ concat rest, rd_stats s)))
      else let nxt = min (next_start base (rd_ours s)) (next_start base (rd_theirs s)) in
        case slice base (rd_pos s) nxt of None \<Rightarrow> Panic | Some ctx \<Rightarrow>
       (case grow_region nxt (rd_ours s) (rd_theirs s) nxt [] [] of (ours', theirs', re, oreg, treg) \<Rightarrow>
       (case flattenRegion base oreg nxt re of None \<Rightarrow> Panic | Some ourOut \<Rightarrow>
       (case flattenRegion base treg nxt re of None \<Rightarrow> Panic | Some theirOut \<Rightarrow>
       (case settle_region ourLabel theirLabel style (oreg \<noteq> []) (treg \<noteq> []) ourOut (slice base nxt re) theirOut
               (rd_out s @ concat ctx, rd_stats s) of None \<Rightarrow> Panic | Some (out, stats) \<Rightarrow>
          Done (Inl \<lparr>rd_pos = re, rd_ours = ours', rd_theirs = theirs', rd_out = out, rd_stats = stats\<rparr>))))))"

partial_function (option) render_loop ::
    "string list \<Rightarrow> string \<Rightarrow> string \<Rightarrow> MarkerStyle \<Rightarrow> render_state \<Rightarrow> (bytes \<times> Stats) outcome option" where
  "render_loop base ourLabel theirLabel style s =
     (case render_step base ourLabel theirLabel style s of
        Panic \<Rightarrow> Some Panic
      | Done r \<Rightarrow> (case r of Inl s' \<Rightarrow> render_loop base ourLabel theirLabel style s' | Inr res \<Rightarrow> Some (Done res)))"

declare render_loop.simps [code]

definition Render ::
    "bytes \<Rightarrow> bytes \<Rightarrow> bytes \<Rightarrow> string \<Rightarrow> string \<Rightarrow> MarkerStyle \<Rightarrow> (bytes \<times> Stats) outcome option" where
  "Render base ours theirs ourLabel theirLabel style =
     (let baseLines = splitLines base; ourLines = splitLines ours; theirLines = splitLines theirs in
      if baseLines = [] then
        Some (Done (if ourLines = theirLines then (ours, no_stats)
                    else (emitConflict [] ourLines [] theirLines ourLabel theirLabel style,
                          \<lparr>Total = 1, Resolved = 0, Remaining = 1\<rparr>)))
      else render_loop baseLines ourLabel theirLabel style
        \<lparr>rd_pos = 0, rd_ours = changeBlocks baseLines ourLines, rd_theirs = changeBlocks baseLines theirLines,
         rd_out = [], rd_stats = no_stats\<rparr>)"

definition MergeThreeWay :: "bytes \<Rightarrow> bytes \<Rightarrow> bytes \<Rightarrow> string \<Rightarrow> string \<Rightarrow> (bytes \<times> Stats) outcome option" where
  "MergeThreeWay base ours theirs ourLabel theirLabel = Render base ours theirs ourLabel theirLabel StyleMerge"

section \<open>Change blocks turn the base into the other file\<close>

lemma join_tail_Cons:
  "bs \<noteq> [] \<Longrightarrow> join_tail base other (b # bs) i j = b # join_tail base other bs i j"
  by (simp add: join_tail_def)

lemma lcs_blocks_spec:
  assumes "lcs_blocks base other lcs i j = (bs, ie, je)" "i \<le> length base" "j \<le> length other"
  defines "fb \<equiv> join_tail base other bs ie je"
  shows "i \<le> ie \<and> ie \<le> length base \<and> j \<le> je \<and> je \<le> length other \<and> wf_blocks i (length base) fb \<and>
    apply_blocks base i fb = drop j other \<and>
    (i < length base \<and> j < length other \<and> base ! i = other ! j \<longrightarrow> wf_blocks (Suc i) (length base) fb)"
  using assms(1-3) unfolding fb_def
proof (induction base other lcs i j arbitrary: bs rule: lcs_blocks.induct)
  case (1 base other lcs i j)
  show ?case
  proof (cases "i < length base \<and> j < length other")
    case False
    with 1(3-5) have "bs = []" "ie = i" "je = j" by (subst (asm) lcs_blocks.simps; auto)+
    with False 1(4,5) show ?thesis by (auto simp: join_tail_def)
  next
    case in_range: True
    show ?thesis
    proof (cases "base ! i = other ! j")
      case True
      with in_range 1(3) have "lcs_blocks base other lcs (i + 1) (j + 1) = (bs, ie, je)"
        by (subst (asm) lcs_blocks.simps) simp
      from 1(1) [OF in_range True this] in_range have
        r: "i + 1 \<le> ie" "ie \<le> length base" "j + 1 \<le> je" "je \<le> length other"
          "wf_blocks (Suc i) (length base) (join_tail base other bs ie je)"
          "apply_blocks base (Suc i) (join_tail base other bs ie je) = drop (Suc j) other" by auto
      from apply_blocks_keep [OF r(5)] in_range wf_blocks_mono [OF r(5), of i] r True show ?thesis
        by (simp add: Cons_nth_drop_Suc)
    next
      case False
      obtain i' j' repl where reg: "lcs_region base other lcs i j [] = (i', j', repl)" by (metis prod_cases3)
      obtain bs' where sub: "lcs_blocks base other lcs i' j' = (bs', ie, je)"
        and bs: "bs = \<lparr>baseStart = i, baseEnd = i', newLines = repl\<rparr> # bs'"
        using 1(3) in_range False reg by (subst (asm) lcs_blocks.simps) (auto split: prod.splits)
      from lcs_region_spec [OF reg 1(4,5)] have rg: "i \<le> i'" "i' \<le> length base" "j \<le> j'" "j' \<le> length other"
        "repl = Vara_Prelude.sub other j j'" "i' < length base \<and> j' < length other \<longrightarrow> base ! i' = other ! j'" by auto
      from 1(2) [OF in_range False reg [symmetric] refl sub rg(2,4)] have
        r: "i' \<le> ie" "ie \<le> length base" "j' \<le> je" "je \<le> length other"
          "wf_blocks i' (length base) (join_tail base other bs' ie je)"
          "apply_blocks base i' (join_tail base other bs' ie je) = drop j' other"
          "i' < length base \<and> j' < length other \<longrightarrow> wf_blocks (Suc i') (length base) (join_tail base other bs' ie je)"
        using rg(6) by auto
      have dj: "repl @ drop j' other = drop j other"
        using rg(3-5) by (metis add_diff_inverse_nat append_take_drop_id drop_drop linorder_not_le add.commute)
      show ?thesis
      proof (cases "bs' = []")
        case True
        have "i' = ie \<Longrightarrow> ie < length base \<or> je < length other \<Longrightarrow> drop je other = drop j' other"
          using r(6) True by (simp add: join_tail_def)
        with True bs r rg in_range False dj show ?thesis
          by (cases "i' = ie") (auto simp: join_tail_def split: if_splits)
      next
        case ne: False
        then have "i' < length base \<and> j' < length other"
          using sub by (subst (asm) lcs_blocks.simps) (auto split: if_splits)
        with ne bs r rg in_range False dj show ?thesis by (simp add: join_tail_Cons)
      qed
    qed
  qed
qed

lemma changeBlocks_spec:
  "wf_blocks 0 (length base) (changeBlocks base other)" "apply_blocks base 0 (changeBlocks base other) = other"
proof -
  obtain bs i j where b: "lcs_blocks base other (lcs_table base other) 0 0 = (bs, i, j)" by (metis prod_cases3)
  from lcs_blocks_spec [OF b] show "wf_blocks 0 (length base) (changeBlocks base other)"
    "apply_blocks base 0 (changeBlocks base other) = other"
    using b by (auto simp: changeBlocks_def)
qed

lemma lcs_blocks_self: "lcs_blocks base base lcs i i = ([], max i (length base), max i (length base))"
  by (induction "length base - i" arbitrary: i) (subst lcs_blocks.simps; auto)+

lemma changeBlocks_self [simp]: "changeBlocks base base = []"
  by (simp add: changeBlocks_def lcs_blocks_self join_tail_def)

section \<open>The table holds the lengths of the longest common subsequences\<close>

fun lcs_len :: "string list \<Rightarrow> string list \<Rightarrow> nat" where
  "lcs_len (x # xs) (y # ys) =
     (if x = y then lcs_len xs ys + 1 else max (lcs_len xs (y # ys)) (lcs_len (x # xs) ys))"
| "lcs_len _ _ = 0"

lemma lcs_len_Nil2 [simp]: "lcs_len xs [] = 0"
  by (cases xs) auto

definition suffix_row :: "string list \<Rightarrow> string list \<Rightarrow> nat list" where
  "suffix_row xs ys = map (\<lambda>j. lcs_len xs (drop j ys)) [0 ..< length ys + 1]"

lemma suffix_row_Cons: "suffix_row xs (y # ys) = lcs_len xs (y # ys) # suffix_row xs ys"
  unfolding suffix_row_def by (subst upt_conv_Cons) (simp_all add: map_Suc_upt [symmetric] del: upt_Suc)

lemma suffix_row_hd [simp]: "hd (suffix_row xs ys) = lcs_len xs ys" "suffix_row xs ys \<noteq> []"
  by (cases ys; simp add: suffix_row_Cons; simp add: suffix_row_def)+

lemma lcs_row_suffix: "lcs_row x ys (suffix_row xs ys) = suffix_row (x # xs) ys"
  by (induction ys) (auto simp: suffix_row_Cons Let_def, auto simp: suffix_row_def)

lemma lcs_table_hd: "hd (lcs_table xs ys) = suffix_row xs ys"
proof (induction xs)
  case Nil
  show ?case by (auto simp: suffix_row_def intro!: nth_equalityI simp del: upt_Suc replicate.simps)
next
  case (Cons x xs)
  then show ?case by (simp add: Let_def lcs_row_suffix)
qed

lemma lcs_table_nth:
  "i \<le> length xs \<Longrightarrow> j \<le> length ys \<Longrightarrow> lcs_table xs ys ! i ! j = lcs_len (drop i xs) (drop j ys)"
proof (induction xs arbitrary: i)
  case Nil
  then show ?case by (simp del: replicate.simps)
next
  case (Cons x xs)
  then show ?case
    using lcs_table_hd [of "x # xs" ys]
    by (cases i) (auto simp: Let_def lcs_row_suffix lcs_table_hd suffix_row_def simp del: upt_Suc)
qed

lemma lcs_len_upper: "subseq zs xs \<Longrightarrow> subseq zs ys \<Longrightarrow> length zs \<le> lcs_len xs ys"
proof (induction xs ys arbitrary: zs rule: lcs_len.induct)
  case (1 x xs y ys)
  show ?case
  proof (cases "x = y")
    case True
    show ?thesis
    proof (cases "\<exists>zs'. zs = x # zs'")
      case True
      with 1 \<open>x = y\<close> show ?thesis by auto
    next
      case False
      with 1(4,5) \<open>x = y\<close> have "subseq zs xs" "subseq zs ys" by (auto elim: list_emb.cases)
      with 1(1) [OF \<open>x = y\<close>] \<open>x = y\<close> show ?thesis by fastforce
    qed
  next
    case False
    then have "subseq zs xs \<or> subseq zs ys" using 1(4,5) by (auto elim: list_emb.cases)
    with 1(2) [OF False, of zs] 1(3) [OF False, of zs] 1(4,5) False show ?thesis by (auto simp: le_max_iff_disj)
  qed
qed auto

lemma lcs_len_attained: "\<exists>zs. subseq zs xs \<and> subseq zs ys \<and> length zs = lcs_len xs ys"
proof (induction xs ys rule: lcs_len.induct)
  case (1 x xs y ys)
  show ?case
  proof (cases "x = y")
    case True
    with 1(1) obtain zs where "subseq zs xs" "subseq zs ys" "length zs = lcs_len xs ys" by blast
    with True show ?thesis by (intro exI [of _ "x # zs"]) auto
  next
    case False
    with 1(2,3) obtain a b where "subseq a xs" "subseq a (y # ys)" "length a = lcs_len xs (y # ys)"
      "subseq b (x # xs)" "subseq b ys" "length b = lcs_len (x # xs) ys" by blast
    with False show ?thesis
      by (cases "lcs_len xs (y # ys) \<ge> lcs_len (x # xs) ys") (auto intro: exI [of _ a] exI [of _ b])
  qed
qed auto

definition replaced :: "lineChange list \<Rightarrow> nat" where
  "replaced bs = sum_list (map (\<lambda>b. baseEnd b - baseStart b) bs)"

lemma lcs_len_drop:
  assumes "i < length base" "j < length other"
  shows "lcs_len (drop i base) (drop j other) =
    (if base ! i = other ! j then Suc (lcs_len (drop (Suc i) base) (drop (Suc j) other))
     else max (lcs_len (drop (Suc i) base) (drop j other)) (lcs_len (drop i base) (drop (Suc j) other)))"
  using Cons_nth_drop_Suc [OF assms(1)] Cons_nth_drop_Suc [OF assms(2)]
  by (metis Suc_eq_plus1 lcs_len.simps(1))

lemma lcs_region_len:
  assumes "lcs_region base other (lcs_table base other) i j repl = (i', j', repl')" "i \<le> length base" "j \<le> length other"
  shows "lcs_len (drop i' base) (drop j' other) = lcs_len (drop i base) (drop j other)"
  using assms
proof (induction "(length base - i) + (length other - j)" arbitrary: i j repl rule: less_induct)
  case less
  show ?case
  proof (cases "i < length base \<and> j < length other \<and> base ! i \<noteq> other ! j")
    case True
    then have t: "lcs_table base other ! (i + 1) ! j = lcs_len (drop (Suc i) base) (drop j other)"
      "lcs_table base other ! i ! (j + 1) = lcs_len (drop i base) (drop (Suc j) other)"
      by (auto simp: lcs_table_nth)
    show ?thesis
    proof (cases "lcs_table base other ! (i + 1) ! j \<ge> lcs_table base other ! i ! (j + 1)")
      case le: True
      with True less.prems have "lcs_region base other (lcs_table base other) (i + 1) j repl = (i', j', repl')"
        by (subst (asm) lcs_region.simps) simp
      from less.hyps [OF _ this] le True t lcs_len_drop [of i base j other] show ?thesis by auto
    next
      case le: False
      with True less.prems have "lcs_region base other (lcs_table base other) i (j + 1) (repl @ [other ! j]) = (i', j', repl')"
        by (subst (asm) lcs_region.simps) simp
      from less.hyps [OF _ this] le True t lcs_len_drop [of i base j other] show ?thesis by auto
    qed
  next
    case False
    with less.prems show ?thesis by (subst (asm) lcs_region.simps) auto
  qed
qed

lemma replaced_simps [simp]:
  "replaced [] = 0" "replaced (b # bs) = (baseEnd b - baseStart b) + replaced bs" "replaced (a @ c) = replaced a + replaced c"
  by (simp_all add: replaced_def)

lemma lcs_blocks_replaced:
  assumes "lcs_blocks base other (lcs_table base other) i j = (bs, ie, je)" "i \<le> length base" "j \<le> length other"
  shows "replaced (join_tail base other bs ie je) + lcs_len (drop i base) (drop j other) = length base - i"
  using assms
proof (induction "(length base - i) + (length other - j)" arbitrary: i j bs rule: less_induct)
  case less
  show ?case
  proof (cases "i < length base \<and> j < length other")
    case False
    with less.prems have "bs = []" "ie = i" "je = j" by (subst (asm) lcs_blocks.simps; auto)+
    with False less.prems show ?thesis by (auto simp: join_tail_def not_less)
  next
    case in_range: True
    show ?thesis
    proof (cases "base ! i = other ! j")
      case True
      with in_range less.prems have "lcs_blocks base other (lcs_table base other) (i + 1) (j + 1) = (bs, ie, je)"
        by (subst (asm) lcs_blocks.simps) simp
      from less.hyps [OF _ this] in_range True lcs_len_drop [of i base j other] show ?thesis by auto
    next
      case False
      obtain i' j' repl where reg: "lcs_region base other (lcs_table base other) i j [] = (i', j', repl)" by (metis prod_cases3)
      obtain bs' where sub: "lcs_blocks base other (lcs_table base other) i' j' = (bs', ie, je)"
        and bs: "bs = \<lparr>baseStart = i, baseEnd = i', newLines = repl\<rparr> # bs'"
        using less.prems(1) in_range False reg by (subst (asm) lcs_blocks.simps) (auto split: prod.splits)
      from lcs_region_spec [OF reg] less.prems in_range False have rg: "i \<le> i'" "i' \<le> length base" "j \<le> j'" "j' \<le> length other"
        "i + j < i' + j'" by auto
      from less.hyps [OF _ sub rg(2,4)] rg
      have r: "replaced (join_tail base other bs' ie je) + lcs_len (drop i base) (drop j other) = length base - i'"
        using lcs_region_len [OF reg] less.prems by auto
      have b: "i' \<le> ie" "ie \<le> length base" using lcs_blocks_spec [OF sub rg(2,4)] by auto
      show ?thesis
      proof (cases "bs' = []")
        case True
        with bs r b rg show ?thesis by (cases "i' = ie") (auto simp: join_tail_def split: if_splits)
      next
        case ne: False
        with bs r b rg show ?thesis by (simp add: join_tail_Cons)
      qed
    qed
  qed
qed

lemma changeBlocks_replaced: "replaced (changeBlocks base other) + lcs_len base other = length base"
proof -
  obtain bs i j where b: "lcs_blocks base other (lcs_table base other) 0 0 = (bs, i, j)" by (metis prod_cases3)
  from lcs_blocks_replaced [OF b] b show ?thesis by (auto simp: changeBlocks_def)
qed

section \<open>Regions\<close>

definition shut :: "nat \<Rightarrow> nat \<Rightarrow> lineChange list \<Rightarrow> bool" where
  "shut rs re bs \<longleftrightarrow> (bs \<noteq> [] \<longrightarrow> \<not> (baseStart (hd bs) < re \<or> baseStart (hd bs) = rs))"

definition region_of :: "nat \<Rightarrow> lineChange list \<Rightarrow> lineChange list \<Rightarrow> nat \<Rightarrow>
    lineChange list \<Rightarrow> lineChange list \<Rightarrow> nat \<Rightarrow> lineChange list \<Rightarrow> lineChange list \<Rightarrow> bool" where
  "region_of rs os ts re os' ts' re' c d \<longleftrightarrow>
     os = c @ os' \<and> ts = d @ ts' \<and> re \<le> re' \<and> (\<forall>b \<in> set c \<union> set d. baseEnd b \<le> re') \<and>
     (re' = re \<or> (\<exists>b \<in> set c \<union> set d. re' = baseEnd b)) \<and> shut rs re' os' \<and> shut rs re' ts'"

lemma grow_region_spec:
  "grow_region rs os ts re oreg treg = (os', ts', re', oreg', treg') \<Longrightarrow>
     \<exists>c d. region_of rs os ts re os' ts' re' c d \<and> oreg' = oreg @ c \<and> treg' = treg @ d"
proof (induction rs os ts re oreg treg rule: grow_region.induct)
  case (1 rs os ts re oreg treg)
  obtain os1 re1 or1 where a: "absorb rs os re oreg = (os1, re1, or1)" by (metis prod_cases3)
  obtain ts1 re2 tr1 where b: "absorb rs ts re1 treg = (ts1, re2, tr1)" by (metis prod_cases3)
  from absorb_spec [OF a] obtain c where c: "os = c @ os1" "or1 = oreg @ c" "re \<le> re1" "\<forall>b \<in> set c. baseEnd b \<le> re1"
    "re1 = re \<or> (\<exists>b \<in> set c. re1 = baseEnd b)" "shut rs re1 os1" by (auto simp: shut_def)
  from absorb_spec [OF b] obtain d where d: "ts = d @ ts1" "tr1 = treg @ d" "re1 \<le> re2" "\<forall>b \<in> set d. baseEnd b \<le> re2"
    "re2 = re1 \<or> (\<exists>b \<in> set d. re2 = baseEnd b)" "shut rs re2 ts1" by (auto simp: shut_def)
  show ?case
  proof (cases "length os1 < length os \<or> length ts1 < length ts")
    case True
    with 1(2) a b have "grow_region rs os1 ts1 re2 or1 tr1 = (os', ts', re', oreg', treg')"
      by (subst (asm) grow_region.simps) simp
    from 1(1) [OF a [symmetric] refl b [symmetric] refl True this] obtain c' d' where
      g: "region_of rs os1 ts1 re2 os' ts' re' c' d'" "oreg' = or1 @ c'" "treg' = tr1 @ d'" by blast
    then have "region_of rs os ts re os' ts' re' (c @ c') (d @ d')"
      using c d by (auto simp: region_of_def)
    with g c d show ?thesis by auto
  next
    case False
    with c d have cd: "c = []" "d = []" by auto
    from False 1(2) a b have "os' = os1" "ts' = ts1" "re' = re2" "oreg' = or1" "treg' = tr1"
      by (subst (asm) grow_region.simps; simp)+
    with c d cd show ?thesis by (auto simp: region_of_def)
  qed
qed

text \<open>The region is the least one closed under absorption, so it does not depend on which side is
  looked at first.\<close>

lemma absorb_least:
  assumes "absorb rs bs re region = (bs', re', region')" "bs = c @ r" "shut rs R r" "re \<le> R" "\<forall>b \<in> set c. baseEnd b \<le> R"
  shows "re' \<le> R \<and> (\<exists>c'. bs' = c' @ r \<and> (\<forall>b \<in> set c'. baseEnd b \<le> R))"
  using assms
proof (induction rs bs re region arbitrary: c rule: absorb.induct)
  case (1 rs b bs re region)
  show ?case
  proof (cases "baseStart b < re \<or> baseStart b = rs")
    case True
    show ?thesis
    proof (cases c)
      case Nil
      with 1(3-5) True show ?thesis by (auto simp: shut_def)
    next
      case (Cons x c')
      with 1(1) [of c'] 1(2-6) True show ?thesis by auto
    qed
  next
    case False
    with 1(2) have "bs' = b # bs" "re' = re" by auto
    with 1(3-6) show ?thesis by auto
  qed
qed auto

lemma grow_region_least:
  assumes "grow_region rs os ts re oreg treg = (os', ts', re', oreg', treg')" "os = c @ ro" "ts = d @ rt"
    "shut rs R ro" "shut rs R rt" "re \<le> R" "\<forall>b \<in> set c \<union> set d. baseEnd b \<le> R"
  shows "re' \<le> R \<and> (\<exists>c'. os' = c' @ ro) \<and> (\<exists>d'. ts' = d' @ rt)"
  using assms
proof (induction rs os ts re oreg treg arbitrary: c d rule: grow_region.induct)
  case (1 rs os ts re oreg treg)
  obtain os1 re1 or1 where a: "absorb rs os re oreg = (os1, re1, or1)" by (metis prod_cases3)
  obtain ts1 re2 tr1 where b: "absorb rs ts re1 treg = (ts1, re2, tr1)" by (metis prod_cases3)
  from absorb_least [OF a 1(3,5,7)] 1(8) obtain c' where
    a': "re1 \<le> R" "os1 = c' @ ro" "\<forall>b \<in> set c'. baseEnd b \<le> R" by auto
  from absorb_least [OF b 1(4,6) a'(1)] 1(8) obtain d' where
    b': "re2 \<le> R" "ts1 = d' @ rt" "\<forall>b \<in> set d'. baseEnd b \<le> R" by auto
  show ?case
  proof (cases "length os1 < length os \<or> length ts1 < length ts")
    case True
    with 1(2) a b have g: "grow_region rs os1 ts1 re2 or1 tr1 = (os', ts', re', oreg', treg')"
      by (subst (asm) grow_region.simps) simp
    have u: "\<forall>b \<in> set c' \<union> set d'. baseEnd b \<le> R" using a' b' by auto
    from 1(1) [OF a [symmetric] refl b [symmetric] refl True g a'(2) b'(2) 1(5,6) b'(1) u] show ?thesis .
  next
    case False
    with 1(2) a b have "os' = os1" "ts' = ts1" "re' = re2" by (subst (asm) grow_region.simps; simp)+
    with a' b' show ?thesis by auto
  qed
qed

lemma grow_region_le:
  assumes "grow_region rs os ts re oreg treg = (os', ts', re', oreg', treg')" "region_of rs os ts re ro rt R c d"
  shows "re' \<le> R" "length ro \<le> length os'" "length rt \<le> length ts'"
proof -
  have "os = c @ ro" "ts = d @ rt" "shut rs R ro" "shut rs R rt" "re \<le> R" "\<forall>b \<in> set c \<union> set d. baseEnd b \<le> R"
    using assms(2) by (simp_all add: region_of_def)
  from grow_region_least [OF assms(1) this] show "re' \<le> R" "length ro \<le> length os'" "length rt \<le> length ts'" by auto
qed

lemma region_of_swap: "region_of rs ts os re ts' os' re' d c = region_of rs os ts re os' ts' re' c d"
  by (auto simp: region_of_def Un_commute)

lemma grow_region_swap:
  assumes "grow_region rs os ts re [] [] = (os', ts', re', c, d)"
  shows "grow_region rs ts os re [] [] = (ts', os', re', d, c)"
proof -
  obtain os2 ts2 re2 c2 d2 where g2: "grow_region rs ts os re [] [] = (ts2, os2, re2, d2, c2)" by (metis prod_cases5)
  from grow_region_spec [OF assms] have s1: "region_of rs os ts re os' ts' re' c d" by auto
  from grow_region_spec [OF g2] have s2: "region_of rs os ts re os2 ts2 re2 c2 d2" by (auto simp: region_of_swap)
  note l1 = grow_region_le [OF assms s2] and l2 = grow_region_le [OF g2 region_of_swap [THEN iffD2, OF s1]]
  from s1 s2 have "c @ os' = c2 @ os2" "d @ ts' = d2 @ ts2" by (simp_all add: region_of_def)
  moreover have "length os2 = length os'" "length ts2 = length ts'" "re2 = re'" using l1 l2 by auto
  ultimately show ?thesis using g2 by simp
qed

section \<open>The loop\<close>

lemma wf_blocks_suffix:
  "wf_blocks lo n (c @ d) \<Longrightarrow> (d \<noteq> [] \<longrightarrow> lo' \<le> baseStart (hd d)) \<Longrightarrow> wf_blocks lo' n d"
  by (induction c arbitrary: lo) (cases d; auto)+

lemma wf_blocks_prefix: "wf_blocks lo n (c @ d) \<Longrightarrow> wf_blocks lo n c"
  by (induction c arbitrary: lo) auto

fun flat :: "string list \<Rightarrow> lineChange list \<Rightarrow> nat \<Rightarrow> nat \<Rightarrow> string list" where
  "flat base [] pos re = sub base pos re"
| "flat base (b # bs) pos re = sub base pos (baseStart b) @ newLines b @ flat base bs (baseEnd b) re"

lemma flatten_loop_flat:
  assumes "wf_blocks pos (length base) region" "\<forall>b \<in> set region. baseEnd b \<le> re" "pos \<le> re" "re \<le> length base"
  shows "flatten_loop base region pos re out = Some (out @ flat base region pos re)"
  using assms
proof (induction region arbitrary: pos out)
  case (Cons b region)
  then have "wf_blocks (baseEnd b) (length base) region" using wf_blocks_mono [of "Suc (baseEnd b)"] by auto
  with Cons show ?case by simp
qed auto

definition rd_ok :: "string list \<Rightarrow> render_state \<Rightarrow> bool" where
  "rd_ok base s \<longleftrightarrow> rd_pos s \<le> length base \<and> wf_blocks (rd_pos s) (length base) (rd_ours s) \<and>
     wf_blocks (rd_pos s) (length base) (rd_theirs s)"

lemma next_start_bounds:
  "wf_blocks lo (length base) bs \<Longrightarrow> lo \<le> length base \<Longrightarrow> lo \<le> next_start base bs \<and> next_start base bs \<le> length base"
  by (cases bs) (auto simp: next_start_def)

lemma region_side:
  assumes "wf_blocks lo (length base) (c @ bs)" "nxt \<le> next_start base (c @ bs)" "nxt \<le> re" "re \<le> length base"
    "\<forall>b \<in> set c. baseEnd b \<le> re" "shut nxt re bs"
  shows "flattenRegion base c nxt re = Some (flat base c nxt re)" "wf_blocks re (length base) bs"
proof -
  have "wf_blocks nxt (length base) (c @ bs)"
    using wf_blocks_suffix [of lo "length base" "[]" "c @ bs" nxt] assms(1,2)
    by (cases "c @ bs") (auto simp: next_start_def)
  from wf_blocks_prefix [OF this] assms(3-5) show "flattenRegion base c nxt re = Some (flat base c nxt re)"
    by (simp add: flattenRegion_def flatten_loop_flat)
  show "wf_blocks re (length base) bs"
    using wf_blocks_suffix [OF assms(1), of re] assms(6) by (auto simp: shut_def)
qed

lemma region_end:
  assumes "region_of nxt os ts nxt os' ts' re c d" "wf_blocks lo n os" "wf_blocks lo n ts" "nxt \<le> n"
  shows "nxt \<le> re" "re \<le> n"
  using assms wf_blocks_bounds [OF assms(2)] wf_blocks_bounds [OF assms(3)] by (auto simp: region_of_def)

definition after_region ::
    "string list \<Rightarrow> string \<Rightarrow> string \<Rightarrow> MarkerStyle \<Rightarrow> render_state \<Rightarrow> nat \<Rightarrow> lineChange list \<Rightarrow> lineChange list \<Rightarrow> nat \<Rightarrow>
      lineChange list \<Rightarrow> lineChange list \<Rightarrow> render_state" where
  "after_region base la lb style s nxt os' ts' re c d =
     (case the (settle_region la lb style (c \<noteq> []) (d \<noteq> []) (flat base c nxt re) (Some (sub base nxt re)) (flat base d nxt re)
                 (rd_out s @ concat (sub base (rd_pos s) nxt), rd_stats s)) of
        (out, stats) \<Rightarrow> \<lparr>rd_pos = re, rd_ours = os', rd_theirs = ts', rd_out = out, rd_stats = stats\<rparr>)"

lemma after_region_sel [simp]:
  "rd_pos (after_region base la lb style s nxt os' ts' re c d) = re"
  "rd_ours (after_region base la lb style s nxt os' ts' re c d) = os'"
  "rd_theirs (after_region base la lb style s nxt os' ts' re c d) = ts'"
  by (simp_all add: after_region_def split: prod.split)

lemma render_step_region:
  assumes "rd_ok base s" "rd_ours s \<noteq> [] \<or> rd_theirs s \<noteq> []"
  defines "nxt \<equiv> min (next_start base (rd_ours s)) (next_start base (rd_theirs s))"
  assumes g: "grow_region nxt (rd_ours s) (rd_theirs s) nxt [] [] = (os', ts', re, c, d)"
  shows "render_step base la lb style s = Done (Inl (after_region base la lb style s nxt os' ts' re c d))"
    "rd_ok base (after_region base la lb style s nxt os' ts' re c d)"
    "length os' + length ts' < length (rd_ours s) + length (rd_theirs s)"
proof -
  from grow_region_spec [OF g] have r: "region_of nxt (rd_ours s) (rd_theirs s) nxt os' ts' re c d" by simp
  have o: "rd_ours s = c @ os'" and t: "rd_theirs s = d @ ts'" using r by (simp_all add: region_of_def)
  have w: "wf_blocks (rd_pos s) (length base) (c @ os')" "wf_blocks (rd_pos s) (length base) (d @ ts')" "rd_pos s \<le> length base"
    using assms(1) o t by (simp_all add: rd_ok_def)
  have n: "rd_pos s \<le> nxt" "nxt \<le> length base"
    using next_start_bounds [OF w(1,3)] next_start_bounds [OF w(2,3)] by (auto simp: nxt_def o t)
  have e: "nxt \<le> re" "re \<le> length base" using region_end [OF r _ _ n(2)] w o t by auto
  have fo: "flattenRegion base c nxt re = Some (flat base c nxt re)" "wf_blocks re (length base) os'"
    by (rule region_side [OF w(1) _ e]; use r in \<open>auto simp: region_of_def nxt_def o\<close>)+
  have ft: "flattenRegion base d nxt re = Some (flat base d nxt re)" "wf_blocks re (length base) ts'"
    by (rule region_side [OF w(2) _ e]; use r in \<open>auto simp: region_of_def nxt_def t\<close>)+
  show "rd_ok base (after_region base la lb style s nxt os' ts' re c d)" using fo ft e by (simp add: rd_ok_def)
  obtain out stats where st: "settle_region la lb style (c \<noteq> []) (d \<noteq> []) (flat base c nxt re) (Some (sub base nxt re)) (flat base d nxt re)
     (rd_out s @ concat (sub base (rd_pos s) nxt), rd_stats s) = Some (out, stats)"
    by (cases "settle_region la lb style (c \<noteq> []) (d \<noteq> []) (flat base c nxt re) (Some (sub base nxt re)) (flat base d nxt re)
     (rd_out s @ concat (sub base (rd_pos s) nxt), rd_stats s)") (auto simp: settle_region_def split: if_splits)
  show "render_step base la lb style s = Done (Inl (after_region base la lb style s nxt os' ts' re c d))"
    using assms(2) n e g st fo ft unfolding render_step_def Let_def nxt_def [symmetric]
    by (simp add: after_region_def)
  have "\<exists>bs. (bs = rd_ours s \<or> bs = rd_theirs s) \<and> bs \<noteq> [] \<and> baseStart (hd bs) = nxt"
  proof (cases "rd_ours s = [] \<or> (rd_theirs s \<noteq> [] \<and> next_start base (rd_theirs s) < next_start base (rd_ours s))")
    case True
    then have "rd_theirs s \<noteq> []" "nxt = next_start base (rd_theirs s)"
      using assms(2) next_start_bounds [OF w(2,3)] by (auto simp: nxt_def t next_start_def)
    then show ?thesis by (auto simp: next_start_def split: list.splits)
  next
    case False
    then have "rd_ours s \<noteq> []" "nxt = next_start base (rd_ours s)"
      using next_start_bounds [OF w(1,3)] by (auto simp: nxt_def o next_start_def split: list.splits)
    then show ?thesis by (auto simp: next_start_def split: list.splits)
  qed
  then have "\<not> (os' = rd_ours s \<and> ts' = rd_theirs s)" using r by (auto simp: region_of_def shut_def)
  then show "length os' + length ts' < length (rd_ours s) + length (rd_theirs s)" using o t by auto
qed

lemma render_loop_total:
  "rd_ok base s \<Longrightarrow> \<exists>out stats. render_loop base la lb style s = Some (Done (out, stats)) \<and>
     (Total (rd_stats s) = Resolved (rd_stats s) + Remaining (rd_stats s) \<longrightarrow> Total stats = Resolved stats + Remaining stats)"
proof (induction "length (rd_ours s) + length (rd_theirs s)" arbitrary: s rule: less_induct)
  case less
  show ?case
  proof (cases "rd_ours s \<noteq> [] \<or> rd_theirs s \<noteq> []")
    case True
    define nxt where "nxt = min (next_start base (rd_ours s)) (next_start base (rd_theirs s))"
    obtain os' ts' re c d where g: "grow_region nxt (rd_ours s) (rd_theirs s) nxt [] [] = (os', ts', re, c, d)" by (metis prod_cases5)
    note st = render_step_region(1,2) [OF less.prems True g [unfolded nxt_def], where la = la and lb = lb and style = style, folded nxt_def]
      render_step_region(3) [OF less.prems True g [unfolded nxt_def]]
    have tot: "Total (rd_stats s) = Resolved (rd_stats s) + Remaining (rd_stats s) \<longrightarrow>
      Total (rd_stats (after_region base la lb style s nxt os' ts' re c d)) =
      Resolved (rd_stats (after_region base la lb style s nxt os' ts' re c d)) +
      Remaining (rd_stats (after_region base la lb style s nxt os' ts' re c d))"
      by (simp add: after_region_def settle_region_def)
    from less.hyps [OF _ st(2)] st(1,3) tot show ?thesis by (subst render_loop.simps) auto
  next
    case False
    with less.prems show ?thesis by (subst render_loop.simps) (auto simp: render_step_def rd_ok_def)
  qed
qed

text \<open>One side, or both with the same blocks.\<close>

lemma absorb_hd:
  assumes "wf_blocks lo n (b # bs)"
  shows "absorb (baseStart b) (b # bs) (baseStart b) [] = (bs, baseEnd b, [b])"
    "absorb (baseStart b) (b # bs) (baseEnd b) [] = (bs, baseEnd b, [b])"
    "absorb (baseStart b) bs (baseEnd b) [b] = (bs, baseEnd b, [b])"
  using assms by (cases bs; auto)+

lemma grow_region_sides:
  assumes "f \<or> g" "wf_blocks lo n (b # bs)"
  shows "grow_region (baseStart b) (side f (b # bs)) (side g (b # bs)) (baseStart b) [] [] =
    (side f bs, side g bs, baseEnd b, side f [b], side g [b])"
  using assms(1) absorb_hd [OF assms(2)]
  by (cases f; cases g) (simp_all add: side_def grow_region.simps [of _ "b # bs"] grow_region.simps [of _ "[]" "b # bs"] grow_region.simps [of _ "bs"] grow_region.simps [of _ "[]" "bs"])

lemma render_loop_sides:
  assumes "f \<or> g" "wf_blocks pos (length base) bs" "pos \<le> length base"
  shows "render_loop base la lb style \<lparr>rd_pos = pos, rd_ours = side f bs, rd_theirs = side g bs, rd_out = out, rd_stats = st\<rparr> =
    Some (Done (out @ concat (apply_blocks base pos bs),
      if f \<and> g then st\<lparr>Total := Total st + length bs, Resolved := Resolved st + length bs\<rparr> else st))"
  using assms
proof (induction bs arbitrary: pos out st)
  case Nil
  then show ?case by (subst render_loop.simps) (simp add: render_step_def side_def)
next
  case (Cons b bs)
  define s where "s = \<lparr>rd_pos = pos, rd_ours = side f (b # bs), rd_theirs = side g (b # bs), rd_out = out, rd_stats = st\<rparr>"
  have ok: "rd_ok base s" "rd_ours s \<noteq> [] \<or> rd_theirs s \<noteq> []" using Cons.prems by (auto simp: rd_ok_def s_def side_def)
  have nx: "min (next_start base (rd_ours s)) (next_start base (rd_theirs s)) = baseStart b"
    using Cons.prems(1,2) by (auto simp: s_def side_def next_start_def)
  have gr: "grow_region (min (next_start base (rd_ours s)) (next_start base (rd_theirs s))) (rd_ours s) (rd_theirs s)
      (min (next_start base (rd_ours s)) (next_start base (rd_theirs s))) [] [] =
    (side f bs, side g bs, baseEnd b, side f [b], side g [b])"
    unfolding nx using grow_region_sides [OF Cons.prems(1,2)] by (simp add: s_def)
  have w: "wf_blocks (baseEnd b) (length base) bs" "baseEnd b \<le> length base"
    using Cons.prems(2) wf_blocks_mono [of "Suc (baseEnd b)" "length base" bs "baseEnd b"] by auto
  have af: "after_region base la lb style s (baseStart b) (side f bs) (side g bs) (baseEnd b) (side f [b]) (side g [b]) =
    \<lparr>rd_pos = baseEnd b, rd_ours = side f bs, rd_theirs = side g bs,
     rd_out = out @ concat (sub base pos (baseStart b)) @ concat (newLines b),
     rd_stats = if f \<and> g then st\<lparr>Total := Total st + 1, Resolved := Resolved st + 1\<rparr> else st\<rparr>"
    using Cons.prems(1) by (auto simp: after_region_def settle_region_def s_def side_def)
  have "render_loop base la lb style s = render_loop base la lb style
      (after_region base la lb style s (baseStart b) (side f bs) (side g bs) (baseEnd b) (side f [b]) (side g [b]))"
    using render_step_region(1) [OF ok gr, of la lb style] unfolding nx by (subst render_loop.simps) simp
  also have "\<dots> = Some (Done (out @ concat (apply_blocks base pos (b # bs)),
      if f \<and> g then st\<lparr>Total := Total st + length (b # bs), Resolved := Resolved st + length (b # bs)\<rparr> else st))"
    unfolding af Cons.IH [OF Cons.prems(1) w] by simp
  finally show ?case by (simp add: s_def)
qed

lemma Render_sides:
  assumes "base \<noteq> []" "f \<or> g"
  shows "Render base (if f then x else base) (if g then x else base) la lb style =
    Some (Done (x, if f \<and> g then \<lparr>Total = length (changeBlocks (splitLines base) (splitLines x)),
      Resolved = length (changeBlocks (splitLines base) (splitLines x)), Remaining = 0\<rparr> else no_stats))"
proof -
  have s: "changeBlocks (splitLines base) (splitLines (if h then x else base)) = side h (changeBlocks (splitLines base) (splitLines x))" for h
    by (simp add: side_def)
  show ?thesis
    using render_loop_sides [OF assms(2) changeBlocks_spec(1) [of "splitLines base" "splitLines x"], of la lb style "[]" no_stats] assms(1)
    by (simp add: Render_def Let_def s changeBlocks_spec(2) no_stats_def)
qed

text \<open>Exchanging the two sides.\<close>

lemma settle_region_swap:
  assumes "settle_region la lb style oc tc oo (Some br) to' (out, st) = Some (out1, st1)"
    "settle_region lb la style tc oc to' (Some br) oo (out', st) = Some (out2, st2)" "Remaining st = 0 \<longrightarrow> out = out'"
  shows "st1 = st2 \<and> (Remaining st1 = 0 \<longrightarrow> out1 = out2)"
  using assms by (auto simp: settle_region_def split: if_splits)

lemma render_loop_swap:
  assumes "rd_ok base s" "rd_ok base t" "rd_pos t = rd_pos s" "rd_ours t = rd_theirs s" "rd_theirs t = rd_ours s"
    "rd_stats t = rd_stats s" "Remaining (rd_stats s) = 0 \<longrightarrow> rd_out s = rd_out t"
    "render_loop base la lb style s = Some (Done (out1, st1))" "render_loop base lb la style t = Some (Done (out2, st2))"
  shows "st1 = st2 \<and> (Remaining st1 = 0 \<longrightarrow> out1 = out2)"
  using assms
proof (induction "length (rd_ours s) + length (rd_theirs s)" arbitrary: s t rule: less_induct)
  case less
  show ?case
  proof (cases "rd_ours s \<noteq> [] \<or> rd_theirs s \<noteq> []")
    case True
    define nxt where "nxt = min (next_start base (rd_ours s)) (next_start base (rd_theirs s))"
    have nxt': "nxt = min (next_start base (rd_ours t)) (next_start base (rd_theirs t))" by (simp add: less.prems nxt_def min.commute)
    obtain os' ts' re c d where g: "grow_region nxt (rd_ours s) (rd_theirs s) nxt [] [] = (os', ts', re, c, d)" by (metis prod_cases5)
    have g': "grow_region nxt (rd_ours t) (rd_theirs t) nxt [] [] = (ts', os', re, d, c)"
      using grow_region_swap [OF g] less.prems by simp
    have ne: "rd_ours t \<noteq> [] \<or> rd_theirs t \<noteq> []" using True less.prems by auto
    define s1 where "s1 = after_region base la lb style s nxt os' ts' re c d"
    define t1 where "t1 = after_region base lb la style t nxt ts' os' re d c"
    have st: "render_step base la lb style s = Done (Inl s1)" "rd_ok base s1" "length os' + length ts' < length (rd_ours s) + length (rd_theirs s)"
      unfolding s1_def using render_step_region [OF less.prems(1) True g [unfolded nxt_def], folded nxt_def] by auto
    have st': "render_step base lb la style t = Done (Inl t1)" "rd_ok base t1"
      unfolding t1_def using render_step_region [OF less.prems(2) ne g' [unfolded nxt'], folded nxt'] by auto
    have "render_loop base la lb style s = render_loop base la lb style s1"
      by (subst render_loop.simps) (simp add: st(1))
    moreover have "render_loop base lb la style t = render_loop base lb la style t1"
      by (subst render_loop.simps) (simp add: st'(1))
    ultimately have rl: "render_loop base la lb style s1 = Some (Done (out1, st1))" "render_loop base lb la style t1 = Some (Done (out2, st2))"
      using less.prems(8,9) by simp_all
    have "rd_stats s1 = rd_stats t1 \<and> (Remaining (rd_stats s1) = 0 \<longrightarrow> rd_out s1 = rd_out t1)"
      using less.prems(3,6,7) unfolding s1_def t1_def after_region_def settle_region_def by auto
    with less.hyps [OF _ st(2) st'(2) _ _ _ _ _ rl] st(3) show ?thesis by (simp add: s1_def t1_def)
  next
    case False
    then have "render_loop base la lb style s = Some (Done (rd_out s @ concat (drop (rd_pos s) base), rd_stats s))"
      using less.prems(1) by (subst render_loop.simps) (simp add: render_step_def rd_ok_def)
    moreover have "render_loop base lb la style t = Some (Done (rd_out t @ concat (drop (rd_pos s) base), rd_stats s))"
      using less.prems(1-6) False by (subst render_loop.simps) (simp add: render_step_def rd_ok_def)
    ultimately show ?thesis using less.prems(7-9) by auto
  qed
qed

section \<open>Properties\<close>

text \<open>The change blocks are correct and minimal: in order and separated, they turn the base into the
  other file, and the base lines they leave untouched are as many as a longest common subsequence has.\<close>

theorem change_blocks_minimal:
  "wf_blocks 0 (length base) (changeBlocks base other) \<and> apply_blocks base 0 (changeBlocks base other) = other \<and>
   (\<exists>zs. subseq zs base \<and> subseq zs other \<and> length zs + replaced (changeBlocks base other) = length base) \<and>
   (\<forall>zs. subseq zs base \<and> subseq zs other \<longrightarrow> length zs + replaced (changeBlocks base other) \<le> length base)"
  using changeBlocks_spec [of base other] changeBlocks_replaced [of base other] lcs_len_attained [of base other]
    lcs_len_upper [of _ base other] by (metis add.commute add_le_cancel_right)

theorem change_blocks_minimal_witness:
  "length [''b''] + replaced (changeBlocks [''a'', ''b''] [''b'', ''c'']) \<le> 2"
  using change_blocks_minimal [of "[''a'', ''b'']" "[''b'', ''c'']"] by (auto dest!: spec [of _ "[''b'']"])


text \<open>A change made on one side only is taken as it is, with no conflict counted; the same change made
  on both sides is taken once, and every region of it is counted as resolved.\<close>

theorem render_one_change:
  assumes "base \<noteq> []"
  shows "Render base x base la lb style = Some (Done (x, no_stats)) \<and>
    Render base base x la lb style = Some (Done (x, no_stats)) \<and>
    (\<exists>n. Render base x x la lb style = Some (Done (x, \<lparr>Total = n, Resolved = n, Remaining = 0\<rparr>)))"
  using Render_sides [OF assms, of True False x la lb style] Render_sides [OF assms, of False True x la lb style]
    Render_sides [OF assms, of True True x la lb style] by simp

theorem render_one_change_witness:
  "Render (''a'' @ [LF]) (''a'' @ [LF] @ ''b'' @ [LF]) (''a'' @ [LF]) ''HEAD'' ''dev'' StyleDiff3 =
     Some (Done (''a'' @ [LF] @ ''b'' @ [LF], no_stats))"
  using render_one_change [of "''a'' @ [LF]" "''a'' @ [LF] @ ''b'' @ [LF]" "''HEAD''" "''dev''" StyleDiff3] by simp

text \<open>The merge does not depend on which side is called ours: with the sides and labels exchanged the
  counters are the same, and a result without conflicts is the same bytes.\<close>

theorem render_swap:
  assumes "Render base ours theirs la lb style = Some (Done (out, stats))"
  shows "\<exists>out'. Render base theirs ours lb la style = Some (Done (out', stats)) \<and> (Remaining stats = 0 \<longrightarrow> out' = out)"
proof (cases "base = []")
  case True
  with assms show ?thesis by (auto simp: Render_def Let_def no_stats_def split: if_splits dest: splitLines_inj)
next
  case False
  define st where "st = (\<lambda>a b. \<lparr>rd_pos = 0, rd_ours = changeBlocks (splitLines base) (splitLines a),
      rd_theirs = changeBlocks (splitLines base) (splitLines b), rd_out = [], rd_stats = no_stats\<rparr>)"
  have ok: "rd_ok (splitLines base) (st a b)" for a b by (simp add: st_def rd_ok_def changeBlocks_spec)
  have R: "Render base a b l1 l2 style = render_loop (splitLines base) l1 l2 style (st a b)" for a b l1 l2
    using False by (simp add: Render_def Let_def st_def)
  from render_loop_total [OF ok [of theirs ours], of lb la style] obtain out' stats' where
    r: "render_loop (splitLines base) lb la style (st theirs ours) = Some (Done (out', stats'))" by blast
  from render_loop_swap [OF ok ok _ _ _ _ _ assms [unfolded R] r] r show ?thesis by (auto simp: R st_def)
qed

theorem render_swap_witness:
  "\<exists>out'. Render (''a'' @ [LF]) (''a'' @ [LF]) (''b'' @ [LF]) ''dev'' ''HEAD'' StyleMerge = Some (Done (out', no_stats)) \<and>
     out' = ''b'' @ [LF]"
proof -
  have "Render (''a'' @ [LF]) (''b'' @ [LF]) (''a'' @ [LF]) ''HEAD'' ''dev'' StyleMerge = Some (Done (''b'' @ [LF], no_stats))"
    using Render_sides [of "''a'' @ [LF]" True False "''b'' @ [LF]" "''HEAD''" "''dev''" StyleMerge] by simp
  from render_swap [OF this] show ?thesis by (simp add: no_stats_def)
qed

end
