(* ===== verification/Object_Store.thy ===== *)
theory Object_Store
  imports Object_Format
begin

text \<open>
  The file system as the repository sees it, the atomic replace of \<^verbatim>\<open>internal/fsutil\<close>, and the object
  store of \<^verbatim>\<open>pkg/object/store.go\<close>.

  A file system is a map from paths to contents. What the operating system answers is an argument
  (\<^verbatim>\<open>io\<close>), so every error return of the source is a branch of the model. Zstandard
  (\<^verbatim>\<open>github.com/klauspost/compress\<close>) is third-party code: the record \<open>zstd\<close> is a parameter and what is
  relied on is \<open>zstd_ok\<close>, that decompression inverts compression.
\<close>

section \<open>File system and I/O outcomes\<close>

type_synonym path = string
type_synonym fs = "path \<rightharpoonup> bytes"

record io =
  io_mkdir :: "path \<Rightarrow> bool"            \<comment> \<open>\<^verbatim>\<open>os.MkdirAll\<close> succeeds\<close>
  io_open :: "path \<Rightarrow> bool"             \<comment> \<open>opening for writing succeeds\<close>
  io_write :: "path \<Rightarrow> bool"            \<comment> \<open>every byte is written\<close>
  io_short :: "path \<Rightarrow> nat"             \<comment> \<open>bytes written before a failing write\<close>
  io_sync :: "path \<Rightarrow> bool"
  io_close :: "path \<Rightarrow> bool"
  io_rename :: "path \<Rightarrow> nat \<Rightarrow> bool"    \<comment> \<open>outcome of the n-th attempt\<close>

definition io_ok :: io where
  "io_ok = \<lparr>io_mkdir = \<lambda>_. True, io_open = \<lambda>_. True, io_write = \<lambda>_. True, io_short = \<lambda>_. 0,
            io_sync = \<lambda>_. True, io_close = \<lambda>_. True, io_rename = \<lambda>_ _. True\<rparr>"

definition os_Remove :: "path \<Rightarrow> fs \<Rightarrow> fs" where
  "os_Remove p fs = fs(p := None)"

definition os_Rename :: "path \<Rightarrow> path \<Rightarrow> fs \<Rightarrow> fs" where
  "os_Rename src dst fs = (fs(dst := fs src))(src := None)"

text \<open>\<^verbatim>\<open>os.WriteFile\<close>: open and truncate, write, close.\<close>

definition os_WriteFile :: "io \<Rightarrow> path \<Rightarrow> bytes \<Rightarrow> fs \<Rightarrow> fs \<times> (verr + unit)" where
  "os_WriteFile io p data fs =
     (if \<not> io_open io p then (fs, Inl ErrIO)
      else if \<not> io_write io p then (fs(p \<mapsto> take (io_short io p) data), Inl ErrIO)
      else if \<not> io_close io p then (fs(p \<mapsto> data), Inl ErrIO)
      else (fs(p \<mapsto> data), Inr ()))"

section \<open>Atomic replace (\<^verbatim>\<open>internal/fsutil\<close>)\<close>

text \<open>\<^verbatim>\<open>renameFile\<close>: \<open>n\<close> further attempts are allowed after the one numbered \<open>a\<close>.\<close>

fun renameFile :: "io \<Rightarrow> path \<Rightarrow> nat \<Rightarrow> nat \<Rightarrow> bool" where
  "renameFile io tmp a 0 = io_rename io tmp a"
| "renameFile io tmp a (Suc n) = (if io_rename io tmp a then True else renameFile io tmp (Suc a) n)"

text \<open>\<^verbatim>\<open>WriteFile\<close> with the file system after each of its system calls, in order: what a crash at any
  point leaves behind is one of these states.\<close>

definition WriteFile :: "io \<Rightarrow> nat \<Rightarrow> path \<Rightarrow> path \<Rightarrow> bytes \<Rightarrow> fs \<Rightarrow> fs list \<times> (verr + unit)" where
  "WriteFile io retries tmp final data fs =
     (if \<not> io_open io tmp then ([fs], Inl ErrIO)
      else let f1 = fs(tmp \<mapsto> []) in
      if \<not> io_write io tmp then
        (let f2 = f1(tmp \<mapsto> take (io_short io tmp) data) in ([fs, f1, f2, os_Remove tmp f2], Inl ErrIO))
      else let f2 = f1(tmp \<mapsto> data) in
      if \<not> io_sync io tmp then ([fs, f1, f2, os_Remove tmp f2], Inl ErrIO)
      else if \<not> io_close io tmp then ([fs, f1, f2, os_Remove tmp f2], Inl ErrIO)
      else if \<not> renameFile io tmp 0 retries then ([fs, f1, f2, os_Remove tmp f2], Inl ErrIO)
      else ([fs, f1, f2, os_Rename tmp final f2], Inr ()))"

lemma WriteFile_trace_nonempty: "fst (WriteFile io n tmp final data fs) \<noteq> []"
  by (simp add: WriteFile_def Let_def)

lemma WriteFile_trace_final:
  assumes "tmp \<noteq> final" "f \<in> set (fst (WriteFile io n tmp final data fs))"
  shows "f final = fs final \<or> f final = Some data"
  using assms by (auto simp: WriteFile_def Let_def os_Remove_def os_Rename_def split: if_splits)

lemma WriteFile_frame:
  assumes "p \<noteq> tmp" "p \<noteq> final" "f \<in> set (fst (WriteFile io n tmp final data fs))"
  shows "f p = fs p"
  using assms by (auto simp: WriteFile_def Let_def os_Remove_def os_Rename_def split: if_splits)

lemma WriteFile_last:
  assumes "tmp \<noteq> final" "WriteFile io n tmp final data fs = (tr, r)"
  shows "case r of
           Inr _ \<Rightarrow> last tr = (fs(final \<mapsto> data))(tmp := None)
         | Inl _ \<Rightarrow> last tr final = fs final \<and> (last tr = fs \<or> last tr tmp = None)"
  using assms by (auto simp: WriteFile_def Let_def os_Remove_def os_Rename_def fun_upd_twist split: if_splits)

section \<open>The object store (\<^verbatim>\<open>pkg/object/store.go\<close>)\<close>

record zstd =
  Compress :: "bytes \<Rightarrow> bytes"
  Decompress :: "bytes \<Rightarrow> bytes option"

definition zstd_ok :: "zstd \<Rightarrow> bool" where
  "zstd_ok z \<longleftrightarrow> (\<forall>x. Decompress z (Compress z x) = Some x)"

record Store =
  ObjectsDir :: path

definition NewStore :: "path \<Rightarrow> Store" where
  "NewStore d = \<lparr>ObjectsDir = d\<rparr>"

definition shard_dir :: "Store \<Rightarrow> ObjectID \<Rightarrow> path" where
  "shard_dir s i = ObjectsDir s @ ''/'' @ take 2 (BaseID_String i)"

definition object_path :: "Store \<Rightarrow> ObjectID \<Rightarrow> path" where
  "object_path s i = shard_dir s i @ ''/'' @ drop 2 (BaseID_String i)"

definition Store_Write :: "zstd \<Rightarrow> io \<Rightarrow> Store \<Rightarrow> Object \<Rightarrow> fs \<Rightarrow> fs \<times> (verr + ObjectID)" where
  "Store_Write z io s obj fs =
     (let raw = Serialize obj;
          i = Compute raw;
          p = object_path s i;
          tmp = p @ ''.tmp''
      in
      if \<not> io_mkdir io (shard_dir s i) then (fs, Inl ErrIO)
      else if fs p \<noteq> None then (fs, Inr i)
      else case os_WriteFile io tmp (Compress z raw) fs of
        (fs1, Inl e) \<Rightarrow> (fs1, Inl e)
      | (fs1, Inr _) \<Rightarrow>
          if io_rename io tmp 0 then (os_Rename tmp p fs1, Inr i)
          else (os_Remove tmp fs1, Inl ErrIO))"

definition Store_Read :: "zstd \<Rightarrow> Store \<Rightarrow> fs \<Rightarrow> ObjectID \<Rightarrow> verr + Object" where
  "Store_Read z s fs i =
     (case fs (object_path s i) of
        None \<Rightarrow> Inl ErrObjectNotFound
      | Some compressed \<Rightarrow>
          (case Decompress z compressed of
             None \<Rightarrow> Inl ErrInvalidObject
           | Some raw \<Rightarrow> if Compute raw \<noteq> i then Inl ErrInvalidObject else Deserialize raw))"

subsection \<open>Paths\<close>

lemma object_path_inj [simp]: "object_path s i = object_path s j \<longleftrightarrow> i = j"
proof
  assume "object_path s i = object_path s j"
  then have "take 2 (BaseID_String i) = take 2 (BaseID_String j)"
      and "drop 2 (BaseID_String i) = drop 2 (BaseID_String j)"
    by (auto simp: object_path_def shard_dir_def dest: append_eq_append_conv [THEN iffD1, rotated])
  then have "BaseID_String i = BaseID_String j" by (metis append_take_drop_id)
  then show "i = j" by (rule hex_ids.enc_inj [rotated 2]) simp_all
qed simp

lemma length_object_path: "length (object_path s i) = length (ObjectsDir s) + 66"
  by (simp add: object_path_def shard_dir_def)

lemma object_path_not_tmp [simp]:
  "object_path s i \<noteq> object_path s j @ ''.tmp''"
  "object_path s j @ ''.tmp'' \<noteq> object_path s i"
  using length_object_path [of s i] length_object_path [of s j] by (metis add_cancel_left_right length_append length_0_conv list.distinct(1))+

section \<open>The store as a content-addressed source\<close>

text \<open>Clients of the store (traversals, merge, transfer) see it through \<^verbatim>\<open>Read\<close>. The contract they
  rely on: what is read under an identifier hashes to it.\<close>

locale object_source =
  fixes rd :: "ObjectID \<Rightarrow> verr + Object"
  assumes addressed: "rd i = Inr obj \<Longrightarrow> Compute (Serialize obj) = i"
begin

lemma agree_or_collision:
  assumes "rd i = Inr a" "wf_object a" "wf_object b" "Compute (Serialize b) = i" "a \<noteq> b"
  shows "Serialize a \<noteq> Serialize b \<and> Compute (Serialize a) = Compute (Serialize b)"
  using assms addressed objects.enc_inj by blast

end

lemma Store_Read_Inr:
  "Store_Read z s fs i = Inr obj \<longleftrightarrow>
     (\<exists>c. fs (object_path s i) = Some c \<and> Decompress z c = Some (Serialize obj)
          \<and> Compute (Serialize obj) = i \<and> wf_object obj)"
  by (auto simp: Store_Read_def objects.dec_iff split: option.splits if_splits)

interpretation disk: object_source "Store_Read z s fs" for z s fs
  by unfold_locales (auto simp: Store_Read_Inr)

text \<open>The store invariant: every object file decompresses to bytes that hash to its name and decode
  as an object.\<close>

definition store_ok :: "zstd \<Rightarrow> Store \<Rightarrow> fs \<Rightarrow> bool" where
  "store_ok z s fs \<longleftrightarrow> (\<forall>i. fs (object_path s i) \<noteq> None \<longrightarrow> (\<exists>obj. Store_Read z s fs i = Inr obj))"

lemma Store_Write_object_files:
  assumes "Store_Write z io s obj fs = (fs', r)"
  shows "fs' (object_path s i) = fs (object_path s i) \<or>
         (i = Compute (Serialize obj) \<and> fs (object_path s i) = None
          \<and> fs' (object_path s i) = Some (Compress z (Serialize obj)))"
  using assms
  by (auto simp: Store_Write_def Let_def os_WriteFile_def os_Rename_def os_Remove_def
      split: if_splits prod.splits sum.splits)

lemma Store_Write_ok:
  assumes "Store_Write z io s obj fs = (fs', Inr i)"
  shows "i = Compute (Serialize obj) \<and> fs' (object_path s i) \<noteq> None \<and>
         (fs (object_path s i) = None \<longrightarrow> fs' (object_path s i) = Some (Compress z (Serialize obj)))"
  using assms
  by (auto simp: Store_Write_def Let_def os_WriteFile_def os_Rename_def os_Remove_def
      split: if_splits prod.splits sum.splits)

section \<open>Properties\<close>



text \<open>When \<^verbatim>\<open>fsutil.WriteFile\<close> reports success the destination holds the data and the temporary
  file is gone; when it reports failure the destination is unchanged.\<close>

theorem WriteFile_result:
  assumes "tmp \<noteq> final" "WriteFile io n tmp final data fs = (tr, r)"
  shows "case r of
           Inr _ \<Rightarrow> last tr = (fs(final \<mapsto> data))(tmp := None)
         | Inl _ \<Rightarrow> last tr final = fs final \<and> (last tr = fs \<or> last tr tmp = None)"
  using assms by (rule WriteFile_last)

theorem WriteFile_result_witness:
  "last (fst (WriteFile io_ok 0 ''a.tmp'' ''a'' ''new'' Map.empty)) = [''a'' \<mapsto> ''new''](''a.tmp'' := None)"
  using WriteFile_result [of "''a.tmp''" "''a''" io_ok 0 "''new''" Map.empty
      "fst (WriteFile io_ok 0 ''a.tmp'' ''a'' ''new'' Map.empty)" "Inr ()"]
  by (simp add: WriteFile_def io_ok_def Let_def)

text \<open>Objects are immutable: no outcome of \<^verbatim>\<open>Store.Write\<close>, failed writes and renames included,
  changes an object file that already exists.\<close>

theorem store_write_immutable:
  assumes "Store_Write z io s obj fs = (fs', r)" "fs (object_path s i) = Some c"
  shows "fs' (object_path s i) = Some c"
  using Store_Write_object_files [OF assms(1), of i] assms(2) by auto

definition zstd_id :: zstd where
  "zstd_id = \<lparr>Compress = (\<lambda>x. x), Decompress = Some\<rparr>"

theorem store_write_immutable_witness:
  "fst (Store_Write zstd_id io_ok (NewStore ''v'') (Blob ''x'') [object_path (NewStore ''v'') 5 \<mapsto> ''c''])
     (object_path (NewStore ''v'') 5) = Some ''c''"
proof -
  let ?fs = "[object_path (NewStore ''v'') 5 \<mapsto> ''c'']"
  obtain fs' r where w: "Store_Write zstd_id io_ok (NewStore ''v'') (Blob ''x'') ?fs = (fs', r)"
    by fastforce
  from store_write_immutable [OF w, of 5] w show ?thesis by simp
qed

text \<open>Writing keeps the store healthy: from a store in which every object file reads back, any
  \<^verbatim>\<open>Store.Write\<close> of a representable object, successful or not, leads to such a store.\<close>

theorem store_write_preserves_ok:
  assumes "zstd_ok z" "store_ok z s fs" "wf_object obj" "Store_Write z io s obj fs = (fs', r)"
  shows "store_ok z s fs'"
  unfolding store_ok_def
proof (intro allI impI)
  fix i
  assume "fs' (object_path s i) \<noteq> None"
  with Store_Write_object_files [OF assms(4), of i]
  consider "fs' (object_path s i) = fs (object_path s i)" "fs (object_path s i) \<noteq> None"
    | "i = Compute (Serialize obj)" "fs' (object_path s i) = Some (Compress z (Serialize obj))"
    by auto
  then show "\<exists>obj'. Store_Read z s fs' i = Inr obj'"
  proof cases
    case 1
    then have "Store_Read z s fs' i = Store_Read z s fs i" by (simp add: Store_Read_def)
    with 1 assms(2) show ?thesis by (simp add: store_ok_def)
  next
    case 2
    with assms(1,3) have "Store_Read z s fs' i = Inr obj" by (simp add: Store_Read_Inr zstd_ok_def)
    then show ?thesis ..
  qed
qed

theorem store_write_preserves_ok_witness:
  "store_ok zstd_id (NewStore ''v'') (fst (Store_Write zstd_id io_ok (NewStore ''v'') (Blob ''x'') Map.empty))"
  by (rule store_write_preserves_ok [where z = zstd_id and io = io_ok and obj = "Blob ''x''" and fs = Map.empty
        and r = "snd (Store_Write zstd_id io_ok (NewStore ''v'') (Blob ''x'') Map.empty)"])
     (simp_all add: zstd_ok_def zstd_id_def store_ok_def)

text \<open>C15. Read after write: in a healthy store, once \<^verbatim>\<open>Store.Write\<close> of a representable object reports an
  identifier, \<^verbatim>\<open>Store.Read\<close> of that identifier returns this object, unless a different content
  with the same SHA-256 digest was stored before.\<close>

theorem store_read_after_write:
  assumes "zstd_ok z" "store_ok z s fs" "wf_object obj" "Store_Write z io s obj fs = (fs', Inr i)"
    and no_collision: "\<And>old. Store_Read z s fs i = Inr old \<Longrightarrow> Serialize old = Serialize obj"
  shows "Store_Read z s fs' i = Inr obj"
proof (cases "fs (object_path s i)")
  case None
  with Store_Write_ok [OF assms(4)] assms(1,3) show ?thesis by (auto simp: Store_Read_Inr zstd_ok_def)
next
  case (Some c)
  with assms(2) obtain old where old: "Store_Read z s fs i = Inr old"
    unfolding store_ok_def by blast
  with no_collision assms(3) have "old = obj"
    by (meson Store_Read_Inr objects.enc_inj)
  moreover have "fs' (object_path s i) = fs (object_path s i)"
    using Store_Write_object_files [OF assms(4), of i] Some by auto
  ultimately show ?thesis using old by (simp add: Store_Read_def)
qed

theorem store_read_after_write_witness:
  "Store_Read zstd_id (NewStore ''v'') (fst (Store_Write zstd_id io_ok (NewStore ''v'') (Blob ''x'') Map.empty))
     (BlobHash ''x'') = Inr (Blob ''x'')"
  by (rule store_read_after_write [where z = zstd_id and io = io_ok and obj = "Blob ''x''" and fs = Map.empty])
     (simp_all add: zstd_ok_def zstd_id_def store_ok_def Store_Write_def io_ok_def Let_def os_WriteFile_def
        BlobHash_def Store_Read_def)

text \<open>Integrity of reads on any disk content whatsoever: if \<^verbatim>\<open>Store.Read\<close> returns an object, its
  serialized form hashes to the requested identifier, so a damaged or substituted file is never
  returned as the object it is named after.\<close>

theorem store_read_integrity:
  assumes "Store_Read z s fs i = Inr obj"
  shows "Compute (Serialize obj) = i \<and> wf_object obj"
  using assms by (auto simp: Store_Read_Inr)

theorem store_read_integrity_witness:
  "Compute (Serialize (Blob ''x'')) = BlobHash ''x'' \<and> wf_object (Blob ''x'')"
  by (rule store_read_integrity [where z = zstd_id and s = "NewStore ''v''"
        and fs = "[object_path (NewStore ''v'') (BlobHash ''x'') \<mapsto> Serialize (Blob ''x'')]"])
     (simp add: Store_Read_Inr zstd_id_def BlobHash_def)

end
