(* ===== verification/Refs.thy ===== *)
theory Refs
  imports Object_Store Go_Strings
begin

text \<open>
  \<^verbatim>\<open>pkg/refs\<close>: names that stand for commits, each a small file under the repository directory that holds
  either a hexadecimal identifier or \<^verbatim>\<open>ref: <name>\<close>. \<^verbatim>\<open>filepath.Join\<close> cleans its result, so the model has
  \<^verbatim>\<open>filepath.Clean\<close> written out. The loop of \<^verbatim>\<open>Update\<close> has no cycle check: it is a \<^verbatim>\<open>partial_function\<close>, and
  \<^const>\<open>None\<close> is an update that never returns.
\<close>

section \<open>Paths\<close>

fun clean_parts :: "bool \<Rightarrow> string list \<Rightarrow> string list \<Rightarrow> string list" where
  "clean_parts rooted stack [] = rev stack"
| "clean_parts rooted stack (c # cs) =
     (if c = '''' \<or> c = ''.'' then clean_parts rooted stack cs
      else if c = ''..'' then
        (case stack of
           [] \<Rightarrow> clean_parts rooted (if rooted then [] else [''..'']) cs
         | p # ps \<Rightarrow> if p = ''..'' then clean_parts rooted (''..'' # stack) cs else clean_parts rooted ps cs)
      else clean_parts rooted (c # stack) cs)"

definition filepath_Clean :: "path \<Rightarrow> path" where
  "filepath_Clean p =
     (let rooted = HasPrefix p ''/''; parts = clean_parts rooted [] (Split p (CHR ''/'')) in
      if rooted then ''/'' @ Join parts ''/'' else if parts = [] then ''.'' else Join parts ''/'')"

definition filepath_Join :: "path \<Rightarrow> path \<Rightarrow> path" where
  "filepath_Join a b =
     (if a = [] \<and> b = [] then [] else if a = [] then filepath_Clean b else filepath_Clean (a @ ''/'' @ b))"

section \<open>The resolver\<close>

record FSResolver =
  VaraDir :: path

record Reference =
  ref_Name :: string
  ref_ObjectID :: CommitID
  ref_Target :: string

definition IsSymbolic :: "Reference \<Rightarrow> bool" where
  "IsSymbolic r \<longleftrightarrow> ref_Target r \<noteq> []"

definition refPath :: "FSResolver \<Rightarrow> string \<Rightarrow> path" where
  "refPath r name = filepath_Join (VaraDir r) name"

definition restricted :: "char list" where
  "restricted = [CHR ''~'', CHR ''^'', CHR '':'', CHR ''?'', CHR ''*'', CHR ''['', CHR 0x5C, CHR '' '']"

datatype name_error = EmptyName | LongName | BadStart | BadEnd | DotDot | RestrictedChar | ControlChar

definition ValidateName :: "string \<Rightarrow> name_error option" where
  "ValidateName name =
     (if name = [] then Some EmptyName
      else if length name > 255 then Some LongName
      else if hd name = CHR ''/'' \<or> hd name = CHR ''.'' then Some BadStart
      else if last name = CHR ''/'' \<or> last name = CHR ''.'' then Some BadEnd
      else if Contains name ''..'' then Some DotDot
      else if list_ex (\<lambda>ch. ch \<in> set name) restricted then Some RestrictedChar
      else if list_ex (\<lambda>b. of_char b < (0x20 :: nat) \<or> b = CHR 0x7F) name then Some ControlChar
      else None)"

datatype ref_error = Circular string | RefNotFound string | InvalidContent string | RefExists string | RefIO | NotSymbolic string

definition ref_prefix :: string where "ref_prefix = ''ref: ''"

text \<open>What a reference file says, after trimming.\<close>

definition ref_content :: "FSResolver \<Rightarrow> fs \<Rightarrow> string \<Rightarrow> string option" where
  "ref_content r fs name = map_option TrimSpace (fs (refPath r name))"

partial_function (option) resolve_loop :: "FSResolver \<Rightarrow> fs \<Rightarrow> string set \<Rightarrow> string \<Rightarrow> (ref_error + CommitID) option" where
  "resolve_loop r fs visited cur =
     (if cur \<in> visited then Some (Inl (Circular cur))
      else case ref_content r fs cur of
        None \<Rightarrow> Some (Inl (RefNotFound cur))
      | Some content \<Rightarrow>
          if HasPrefix content ref_prefix
          then resolve_loop r fs (insert cur visited) (TrimPrefix content ref_prefix)
          else (case ParseHex content of
                  Inl _ \<Rightarrow> Some (Inl (InvalidContent cur))
                | Inr i \<Rightarrow> Some (Inr i)))"

declare resolve_loop.simps [code]

definition Resolve_ref :: "FSResolver \<Rightarrow> fs \<Rightarrow> string \<Rightarrow> (ref_error + CommitID) option" where
  "Resolve_ref r fs name = resolve_loop r fs {} name"

definition atomicWrite :: "io \<Rightarrow> nat \<Rightarrow> path \<Rightarrow> string \<Rightarrow> fs \<Rightarrow> fs \<times> (ref_error + unit)" where
  "atomicWrite io n p content fs =
     (case WriteFile io n (p @ ''.lock'') p content fs of
        (tr, Inl _) \<Rightarrow> (last tr, Inl RefIO)
      | (tr, Inr _) \<Rightarrow> (last tr, Inr ()))"

definition filepath_Dir :: "path \<Rightarrow> path" where
  "filepath_Dir p = filepath_Clean (rev (dropWhile (\<lambda>c. c \<noteq> CHR ''/'') (rev p)))"

partial_function (option) follow :: "FSResolver \<Rightarrow> fs \<Rightarrow> string \<Rightarrow> string option" where
  "follow r fs cur =
     (case ref_content r fs cur of
        None \<Rightarrow> Some cur
      | Some content \<Rightarrow>
          if HasPrefix content ref_prefix then follow r fs (TrimPrefix content ref_prefix) else Some cur)"

declare follow.simps [code]

definition write_ref :: "io \<Rightarrow> nat \<Rightarrow> FSResolver \<Rightarrow> string \<Rightarrow> string \<Rightarrow> fs \<Rightarrow> fs \<times> (ref_error + unit)" where
  "write_ref io n r name content fs =
     (if \<not> io_mkdir io (filepath_Dir (refPath r name)) then (fs, Inl RefIO)
      else atomicWrite io n (refPath r name) content fs)"

definition Update_ref :: "io \<Rightarrow> nat \<Rightarrow> FSResolver \<Rightarrow> string \<Rightarrow> CommitID \<Rightarrow> fs \<Rightarrow> (fs \<times> (ref_error + unit)) option" where
  "Update_ref io n r name i fs =
     map_option (\<lambda>cur. write_ref io n r cur (BaseID_String i @ [LF]) fs) (follow r fs name)"

definition Create_ref :: "io \<Rightarrow> nat \<Rightarrow> FSResolver \<Rightarrow> string \<Rightarrow> CommitID \<Rightarrow> fs \<Rightarrow> fs \<times> (ref_error + unit)" where
  "Create_ref io n r name i fs =
     (if fs (refPath r name) \<noteq> None then (fs, Inl (RefExists name))
      else write_ref io n r name (BaseID_String i @ [LF]) fs)"

definition Delete_ref :: "FSResolver \<Rightarrow> string \<Rightarrow> fs \<Rightarrow> fs \<times> (ref_error + unit)" where
  "Delete_ref r name fs =
     (if fs (refPath r name) = None then (fs, Inl RefIO) else (os_Remove (refPath r name) fs, Inr ()))"

definition Symbolic :: "io \<Rightarrow> nat \<Rightarrow> FSResolver \<Rightarrow> string \<Rightarrow> string \<Rightarrow> fs \<Rightarrow> fs \<times> (ref_error + unit)" where
  "Symbolic io n r name target fs = write_ref io n r name (ref_prefix @ target @ [LF]) fs"

definition ResolveSymbolic :: "FSResolver \<Rightarrow> fs \<Rightarrow> string \<Rightarrow> ref_error + string" where
  "ResolveSymbolic r fs name =
     (case ref_content r fs name of
        None \<Rightarrow> Inl RefIO
      | Some content \<Rightarrow>
          if HasPrefix content ref_prefix then Inr (TrimPrefix content ref_prefix) else Inl (NotSymbolic name))"

definition Detached :: "FSResolver \<Rightarrow> fs \<Rightarrow> string \<Rightarrow> ref_error + bool" where
  "Detached r fs name =
     (case ref_content r fs name of None \<Rightarrow> Inl RefIO | Some content \<Rightarrow> Inr (\<not> HasPrefix content ref_prefix))"

text \<open>\<^verbatim>\<open>List\<close> over the files \<^verbatim>\<open>filepath.Walk\<close> visits under \<^verbatim>\<open>refs\<close>, given as their names relative to the
  repository directory in the order of the walk.\<close>

definition List_refs :: "FSResolver \<Rightarrow> fs \<Rightarrow> string list \<Rightarrow> Reference list" where
  "List_refs r fs names =
     concat (map (\<lambda>name.
       if HasSuffix (refPath r name) ''.lock'' then []
       else case Resolve_ref r fs name of
              Some (Inr i) \<Rightarrow> [\<lparr>ref_Name = name, ref_ObjectID = i, ref_Target = []\<rparr>]
            | _ \<Rightarrow> []) names)"

section \<open>Reference files\<close>

lemma hex_digit_graphic: "graphic (hex_digit n)" "hex_digit n \<noteq> CHR ''r''"
proof -
  have "\<forall>k \<in> {..< 16}. graphic (''0123456789abcdef'' ! k) \<and> ''0123456789abcdef'' ! k \<noteq> CHR ''r''" by code_simp
  then show "graphic (hex_digit n)" "hex_digit n \<noteq> CHR ''r''" by (auto simp: hex_digit_def)
qed

lemma hex_graphic: "c \<in> set (hex_EncodeToString bs) \<Longrightarrow> graphic c \<and> c \<noteq> CHR ''r''"
  by (induction bs) (auto simp: hex_digit_graphic)

lemma BaseID_String_graphic: "c \<in> set (BaseID_String i) \<Longrightarrow> graphic c \<and> c \<noteq> CHR ''r''"
  by (simp add: BaseID_String_def hex_graphic)

lemma BaseID_String_nonempty [simp]: "BaseID_String i \<noteq> []"
  using length_BaseID_String [of i] by (metis list.size(3) zero_neq_numeral)

lemma TrimSpace_id_line [simp]: "TrimSpace (BaseID_String i @ [LF]) = BaseID_String i"
  by (rule TrimSpace_graphic) (use BaseID_String_graphic [of _ i] hd_in_set [of "BaseID_String i"] last_in_set [of "BaseID_String i"] in auto)

lemma id_not_symbolic [simp]: "\<not> HasPrefix (BaseID_String i) ref_prefix"
proof
  assume "HasPrefix (BaseID_String i) ref_prefix"
  then obtain s where "BaseID_String i = CHR ''r'' # s" by (auto simp: HasPrefix_iff ref_prefix_def)
  then show False using BaseID_String_graphic [of "CHR ''r''" i] by simp
qed

lemma ParseHex_String [simp]: "ParseHex (BaseID_String i) = Inr i"
  by (rule hex_ids.dec_enc) simp

text \<open>A symbolic step, and the chain of steps that ends at an identifier.\<close>

definition sym_step :: "FSResolver \<Rightarrow> fs \<Rightarrow> string \<Rightarrow> string option" where
  "sym_step r fs name = (case ref_content r fs name of
     Some content \<Rightarrow> if HasPrefix content ref_prefix then Some (TrimPrefix content ref_prefix) else None
   | None \<Rightarrow> None)"

inductive resolves :: "FSResolver \<Rightarrow> fs \<Rightarrow> nat \<Rightarrow> string \<Rightarrow> CommitID \<Rightarrow> bool" for r fs where
  direct: "sym_step r fs n = None \<Longrightarrow> ref_content r fs n = Some content \<Longrightarrow> ParseHex content = Inr i \<Longrightarrow> resolves r fs 0 n i"
| symbolic: "sym_step r fs n = Some m \<Longrightarrow> resolves r fs k m i \<Longrightarrow> resolves r fs (Suc k) n i"

inductive_cases resolves_0: "resolves r fs 0 n i"
inductive_cases resolves_Suc: "resolves r fs (Suc k) n i"

lemma resolves_depth: "resolves r fs k n i \<Longrightarrow> resolves r fs k' n i' \<Longrightarrow> k' = k \<and> i' = i"
proof (induction arbitrary: k' i' rule: resolves.induct)
  case (direct n content i)
  from direct(4) direct(1-3) show ?case by (auto elim: resolves.cases)
next
  case (symbolic n m k i)
  from symbolic(4) symbolic(1) obtain k'' where "k' = Suc k''" "resolves r fs k'' m i'" by (auto elim: resolves.cases)
  with symbolic.IH [of k'' i'] show ?case by simp
qed

lemma resolve_loop_step:
  "sym_step r fs n = Some m \<Longrightarrow> n \<notin> V \<Longrightarrow> resolve_loop r fs V n = resolve_loop r fs (insert n V) m"
  by (subst resolve_loop.simps) (auto simp: sym_step_def split: option.splits if_splits)

lemma resolve_loop_complete:
  "resolves r fs k n i \<Longrightarrow> \<forall>v \<in> V. \<exists>k' j. k' > k \<and> resolves r fs k' v j \<Longrightarrow> resolve_loop r fs V n = Some (Inr i)"
proof (induction arbitrary: V rule: resolves.induct)
  case (direct n content i)
  have "n \<notin> V"
  proof
    assume "n \<in> V"
    with direct obtain k' j where "k' > 0" "resolves r fs k' n j" by blast
    with resolves_depth [OF resolves.direct [OF direct(1-3)]] show False by auto
  qed
  with direct show ?case by (subst resolve_loop.simps) (auto simp: sym_step_def split: if_splits)
next
  case (symbolic n m k i)
  have "n \<notin> V"
  proof
    assume "n \<in> V"
    with symbolic obtain k' j where "k' > Suc k" "resolves r fs k' n j" by blast
    with resolves_depth [OF resolves.symbolic [OF symbolic(1,2)]] show False by auto
  qed
  moreover have "\<forall>v \<in> insert n V. \<exists>k' j. k' > k \<and> resolves r fs k' v j"
    using symbolic(4) resolves.symbolic [OF symbolic(1,2)] Suc_lessD by fastforce
  ultimately show ?case using resolve_loop_step [OF symbolic(1), of V] symbolic.IH by simp
qed

lemma resolve_loop_sound:
  assumes "resolve_loop r fs V n = Some (Inr i)"
  shows "\<exists>k. resolves r fs k n i"
proof -
  have "\<forall>i. res = Inr i \<longrightarrow> (\<exists>k. resolves r fs k n i)" if "resolve_loop r fs V n = Some res" for r fs V n res
  proof (rule resolve_loop.raw_induct [OF _ that], intro allI impI)
    fix f r fs V n res i
    assume IH: "\<And>r fs V n res. f r fs V n = Some res \<Longrightarrow> \<forall>i. res = Inr i \<longrightarrow> (\<exists>k. resolves r fs k n i)"
      and eq: "(if n \<in> V then Some (Inl (Circular n))
        else case ref_content r fs n of None \<Rightarrow> Some (Inl (RefNotFound n))
          | Some content \<Rightarrow> if HasPrefix content ref_prefix then f r fs (insert n V) (TrimPrefix content ref_prefix)
              else (case ParseHex content of Inl _ \<Rightarrow> Some (Inl (InvalidContent n)) | Inr i \<Rightarrow> Some (Inr i))) = Some res"
      and i: "res = Inr i"
    show "\<exists>k. resolves r fs k n i"
    proof (cases "sym_step r fs n")
      case None
      with eq i obtain content where "ref_content r fs n = Some content" "ParseHex content = Inr i"
        by (auto simp: sym_step_def split: if_splits option.splits sum.splits)
      with None show ?thesis by (blast intro: resolves.direct)
    next
      case (Some m)
      then have "f r fs (insert n V) m = Some res" using eq i by (auto simp: sym_step_def split: if_splits option.splits)
      from IH [OF this] i Some show ?thesis by (blast intro: resolves.symbolic)
    qed
  qed
  with assms show ?thesis by blast
qed

text \<open>With finitely many files only finitely many names can ever be visited.\<close>

lemma resolve_loop_returns:
  assumes "finite (dom fs)" "finite V"
  shows "resolve_loop r fs V n \<noteq> None"
proof -
  define N where "N = (\<lambda>p. TrimPrefix (TrimSpace (the (fs p))) ref_prefix) ` dom fs"
  have N: "sym_step r fs n = Some m \<Longrightarrow> m \<in> N" for n m
    by (force simp: sym_step_def ref_content_def N_def split: option.splits if_splits)
  have fN: "finite N" using assms(1) by (simp add: N_def)
  have "m \<in> N \<Longrightarrow> finite V \<Longrightarrow> resolve_loop r fs V m \<noteq> None" for m V
  proof (induction "card (N - V)" arbitrary: V m rule: less_induct)
    case less
    show ?case
    proof (cases "m \<in> V")
      case True
      then show ?thesis by (subst resolve_loop.simps) simp
    next
      case mV: False
      show ?thesis
      proof (cases "sym_step r fs m")
        case None
        then show ?thesis by (subst resolve_loop.simps) (auto simp: sym_step_def split: option.splits sum.splits if_splits)
      next
        case (Some m')
        have "card (N - insert m V) < card (N - V)"
          using less.prems mV fN by (intro psubset_card_mono) auto
        from less.hyps [OF this N [OF Some]] less.prems resolve_loop_step [OF Some mV] show ?thesis by simp
      qed
    qed
  qed
  then have step: "sym_step r fs n = Some m \<Longrightarrow> n \<notin> V \<Longrightarrow> resolve_loop r fs V n \<noteq> None" for m
    using assms(2) N resolve_loop_step [of r fs n m V] by simp
  show ?thesis
  proof (cases "n \<in> V \<or> sym_step r fs n = None")
    case True
    then show ?thesis by (subst resolve_loop.simps) (auto simp: sym_step_def split: option.splits sum.splits if_splits)
  qed (use step in auto)
qed

section \<open>Following symbolic references\<close>

inductive leads :: "FSResolver \<Rightarrow> fs \<Rightarrow> string \<Rightarrow> string \<Rightarrow> bool" for r fs where
  stop: "sym_step r fs n = None \<Longrightarrow> leads r fs n n"
| step: "sym_step r fs n = Some m \<Longrightarrow> leads r fs m e \<Longrightarrow> leads r fs n e"

lemma follow_step: "follow r fs n = (case sym_step r fs n of None \<Rightarrow> Some n | Some m \<Rightarrow> follow r fs m)"
  by (subst follow.simps) (auto simp: sym_step_def split: option.splits)

lemma follow_complete: "leads r fs n e \<Longrightarrow> follow r fs n = Some e"
  by (induction rule: leads.induct) (subst follow_step, simp)+

lemma follow_sound:
  assumes "follow r fs n = Some e"
  shows "leads r fs n e"
  by (rule follow.raw_induct [OF _ assms])
    (auto simp: sym_step_def split: option.splits if_splits intro: leads.intros)

lemma leads_end: "leads r fs n e \<Longrightarrow> sym_step r fs e = None"
  by (induction rule: leads.induct) auto

lemma sym_step_path: "refPath r m = refPath r n \<Longrightarrow> sym_step r fs m = sym_step r fs n"
  by (simp add: sym_step_def ref_content_def)

lemma lock_neq [simp]: "p @ ''.lock'' \<noteq> p" "p \<noteq> p @ ''.lock''"
  by simp_all

lemma write_ref_result:
  assumes "write_ref io n r name content fs = (fs', res)"
  shows "res = Inr () \<Longrightarrow> fs' = (fs(refPath r name \<mapsto> content))(refPath r name @ ''.lock'' := None)"
    "res \<noteq> Inr () \<Longrightarrow> fs' (refPath r name) = fs (refPath r name)"
    "p \<noteq> refPath r name \<Longrightarrow> p \<noteq> refPath r name @ ''.lock'' \<Longrightarrow> fs' p = fs p"
proof -
  obtain tr w where w: "WriteFile io n (refPath r name @ ''.lock'') (refPath r name) content fs = (tr, w)" by fastforce
  note last = WriteFile_last [OF lock_neq(1) w]
  have tr: "last tr \<in> set tr" using WriteFile_trace_nonempty [of io n "refPath r name @ ''.lock''" "refPath r name" content fs] w by simp
  show "res = Inr () \<Longrightarrow> fs' = (fs(refPath r name \<mapsto> content))(refPath r name @ ''.lock'' := None)"
    "res \<noteq> Inr () \<Longrightarrow> fs' (refPath r name) = fs (refPath r name)"
    using assms last w by (auto simp: write_ref_def atomicWrite_def split: if_splits sum.splits)
  show "p \<noteq> refPath r name \<Longrightarrow> p \<noteq> refPath r name @ ''.lock'' \<Longrightarrow> fs' p = fs p"
    using assms w WriteFile_frame [of p "refPath r name @ ''.lock''" "refPath r name" "last tr" io n content fs] tr
    by (auto simp: write_ref_def atomicWrite_def split: if_splits sum.splits)
qed

lemma resolves_after_write:
  assumes "leads r fs n e" "fs (refPath r e @ ''.lock'') = None"
    "fs' = (fs(refPath r e \<mapsto> BaseID_String i @ [LF]))(refPath r e @ ''.lock'' := None)"
  shows "\<exists>k. resolves r fs' k n i"
  using assms
proof (induction rule: leads.induct)
  case (stop n)
  then have "ref_content r fs' n = Some (BaseID_String i)" by (simp add: ref_content_def)
  then have "resolves r fs' 0 n i" by (auto simp: sym_step_def intro!: resolves.direct)
  then show ?case by blast
next
  case (step n m e)
  have "sym_step r fs e = None" using leads_end step(2) by blast
  with step(1) sym_step_path [of r n e fs] have "refPath r n \<noteq> refPath r e" by auto
  moreover have "refPath r n \<noteq> refPath r e @ ''.lock''"
    using step(1,4) by (auto simp: sym_step_def ref_content_def)
  ultimately have "sym_step r fs' n = Some m" using step(1,5) by (simp add: sym_step_def ref_content_def)
  with step.IH [OF step(4,5)] show ?case by (blast intro: resolves.symbolic)
qed

section \<open>Names stay inside their directory\<close>

lemma clean_parts_append: "clean_parts rooted st (xs @ ys) = clean_parts rooted (rev (clean_parts rooted st xs)) ys"
  by (induction rooted st xs rule: clean_parts.induct) (auto split: list.splits)

lemma clean_parts_plain:
  "''..'' \<notin> set ys \<Longrightarrow> clean_parts rooted st ys = rev st @ filter (\<lambda>c. c \<noteq> '''' \<and> c \<noteq> ''.'') ys"
  by (induction ys arbitrary: st) auto

lemma valid_parts:
  assumes "ValidateName name = None"
  shows "''..'' \<notin> set (Split name (CHR ''/''))" "filter (\<lambda>c. c \<noteq> '''' \<and> c \<noteq> ''.'') (Split name (CHR ''/'')) \<noteq> []"
proof -
  have v: "name \<noteq> []" "hd name \<noteq> CHR ''/''" "hd name \<noteq> CHR ''.''" "\<not> Contains name ''..''"
    using assms by (auto simp: ValidateName_def split: if_splits)
  show "''..'' \<notin> set (Split name (CHR ''/''))" using Split_part Contains_part v(4) by metis
  have "hd (Split name (CHR ''/'')) \<noteq> ''.''" using Split_hd [OF v(1,2)] v(3) by auto
  moreover have "hd (Split name (CHR ''/'')) \<in> set (Split name (CHR ''/''))" by (simp add: Split_nonempty)
  ultimately show "filter (\<lambda>c. c \<noteq> '''' \<and> c \<noteq> ''.'') (Split name (CHR ''/'')) \<noteq> []"
    using Split_hd [OF v(1,2)] by (auto simp: filter_empty_conv)
qed

lemma refPath_rooted:
  assumes "HasPrefix (VaraDir r) ''/''"
  shows "refPath r name = ''/'' @ Join (clean_parts True [] (Split (VaraDir r) (CHR ''/'') @ Split name (CHR ''/''))) ''/''"
proof -
  have "VaraDir r \<noteq> []" "HasPrefix (VaraDir r @ ''/'' @ name) ''/''" using assms by (auto simp: HasPrefix_iff)
  then show ?thesis
    using Split_append_sep [of "VaraDir r" "CHR ''/''" name]
    by (simp add: refPath_def filepath_Join_def filepath_Clean_def Let_def)
qed

section \<open>Properties\<close>

text \<open>C26. Resolving is exact and always returns: with finitely many files it terminates, and it returns an
  identifier if and only if a finite chain of symbolic references leads from the name to a file that
  holds it.\<close>

theorem resolve_exact:
  assumes "finite (dom fs)"
  shows "Resolve_ref r fs name \<noteq> None \<and> (Resolve_ref r fs name = Some (Inr i) \<longleftrightarrow> (\<exists>k. resolves r fs k name i))"
  using resolve_loop_returns [OF assms, of "{}" r name] resolve_loop_sound [of r fs "{}" name i] resolve_loop_complete [of r fs _ name i "{}"]
  by (auto simp: Resolve_ref_def)

definition sample_refs :: "(path \<times> bytes) list" where
  "sample_refs = [(''/v/HEAD'', ''ref: refs/heads/main'' @ [LF]), (''/v/refs/heads/main'', BaseID_String 7 @ [LF])]"

definition sample_res :: FSResolver where
  "sample_res = \<lparr>VaraDir = ''/v''\<rparr>"

lemma sample_paths:
  "refPath sample_res ''HEAD'' = ''/v/HEAD''"
  "refPath sample_res ''refs/heads/main'' = ''/v/refs/heads/main''"
  "refPath sample_res ''refs/heads/main.lock'' = ''/v/refs/heads/main.lock''"
  by code_simp+

lemma sample_trim: "TrimSpace (''ref: refs/heads/main'' @ [LF]) = ''ref: refs/heads/main''"
  by (rule TrimSpace_graphic(2)) code_simp+

lemma sample_steps:
  "sym_step sample_res (map_of sample_refs) ''HEAD'' = Some ''refs/heads/main''"
  "sym_step sample_res (map_of sample_refs) ''refs/heads/main'' = None"
  "ref_content sample_res (map_of sample_refs) ''refs/heads/main'' = Some (BaseID_String 7)"
  using sample_trim
  by (simp_all add: sym_step_def ref_content_def sample_paths sample_refs_def)
    (simp_all add: ref_prefix_def HasPrefix_def TrimPrefix_def)

theorem resolve_exact_witness: "Resolve_ref sample_res (map_of sample_refs) ''HEAD'' = Some (Inr 7)"
proof -
  have "resolves sample_res (map_of sample_refs) 0 ''refs/heads/main'' 7"
    by (rule resolves.direct [OF sample_steps(2,3)]) simp
  from resolves.symbolic [OF sample_steps(1) this] resolve_exact [where fs = "map_of sample_refs", OF finite_dom_map_of, of sample_res "''HEAD''" 7]
  show ?thesis by blast
qed

text \<open>Resolving a name after a successful update of it gives the new commit, through any chain of
  symbolic references; and the update touches only the file at the end of the chain and its lock file.\<close>

theorem update_then_resolve:
  assumes "follow r fs name = Some e" "fs (refPath r e @ ''.lock'') = None"
    "Update_ref io n r name i fs = Some (fs', Inr ())"
  shows "Resolve_ref r fs' name = Some (Inr i) \<and>
    (\<forall>p. p \<noteq> refPath r e \<and> p \<noteq> refPath r e @ ''.lock'' \<longrightarrow> fs' p = fs p)"
proof -
  from assms(1,3) have w: "write_ref io n r e (BaseID_String i @ [LF]) fs = (fs', Inr ())" by (simp add: Update_ref_def)
  note fs' = write_ref_result(1) [OF w refl]
  from resolves_after_write [OF follow_sound [OF assms(1)] assms(2) fs'] obtain k where "resolves r fs' k name i" by blast
  then have "Resolve_ref r fs' name = Some (Inr i)" unfolding Resolve_ref_def by (rule resolve_loop_complete) simp
  with write_ref_result(3) [OF w] show ?thesis by blast
qed

theorem update_then_resolve_witness:
  "Resolve_ref sample_res (fst (the (Update_ref io_ok 0 sample_res ''HEAD'' 9 (map_of sample_refs)))) ''HEAD'' = Some (Inr 9)"
proof -
  have f: "follow sample_res (map_of sample_refs) ''HEAD'' = Some ''refs/heads/main''"
    by (simp add: follow_step [of _ _ "''HEAD''"] follow_step [of _ _ "''refs/heads/main''"] sample_steps)
  then have "Update_ref io_ok 0 sample_res ''HEAD'' 9 (map_of sample_refs) =
    Some (fst (the (Update_ref io_ok 0 sample_res ''HEAD'' 9 (map_of sample_refs))), Inr ())"
    by (simp add: Update_ref_def write_ref_def atomicWrite_def WriteFile_def io_ok_def Let_def)
  moreover have "map_of sample_refs (refPath sample_res ''refs/heads/main'' @ ''.lock'') = None"
    by (simp add: sample_paths sample_refs_def)
  ultimately show ?thesis using update_then_resolve [OF f] by blast
qed

text \<open>A cycle of symbolic references, which \<^verbatim>\<open>Resolve\<close> reports as an error, makes \<^verbatim>\<open>Update\<close> run forever.\<close>

theorem update_cycle_diverges:
  assumes "sym_step r fs a = Some b" "sym_step r fs b = Some a" "a \<noteq> b"
  shows "Update_ref io n r a i fs = None \<and> Resolve_ref r fs a = Some (Inl (Circular a))"
proof -
  have "\<not> leads r fs c e" if "c = a \<or> c = b" for c e
  proof
    assume "leads r fs c e"
    then show False using that by (induction rule: leads.induct) (use assms in auto)
  qed
  then have "follow r fs a = None" using follow_sound [of r fs a] by (cases "follow r fs a") auto
  moreover have "Resolve_ref r fs a = Some (Inl (Circular a))"
    using resolve_loop_step [OF assms(1), of "{}"] resolve_loop_step [OF assms(2), of "{a}"] assms(3)
    by (simp add: Resolve_ref_def) (subst resolve_loop.simps, simp)
  ultimately show ?thesis by (simp add: Update_ref_def)
qed

theorem update_cycle_diverges_witness:
  "Update_ref io_ok 0 sample_res ''HEAD'' 9 [''/v/HEAD'' \<mapsto> ''ref: refs/heads/main'' @ [LF], ''/v/refs/heads/main'' \<mapsto> ''ref: HEAD'' @ [LF]] = None"
proof -
  have t: "TrimSpace (''ref: HEAD'' @ [LF]) = ''ref: HEAD''" by (rule TrimSpace_graphic(2)) code_simp+
  let ?fs = "[''/v/HEAD'' \<mapsto> ''ref: refs/heads/main'' @ [LF], ''/v/refs/heads/main'' \<mapsto> ''ref: HEAD'' @ [LF]]"
  have "sym_step sample_res ?fs ''HEAD'' = Some ''refs/heads/main''" "sym_step sample_res ?fs ''refs/heads/main'' = Some ''HEAD''"
    using sample_trim t by (simp_all add: sym_step_def ref_content_def sample_paths)
      (simp_all add: HasPrefix_def TrimPrefix_def ref_prefix_def)
  from update_cycle_diverges [OF this] show ?thesis by simp
qed

text \<open>The validated names include ones that end in \<^verbatim>\<open>.lock\<close>; updating a branch removes the branch of the
  same name with that suffix, because the atomic write uses its file as the temporary file.\<close>

theorem lock_branch_lost:
  assumes "write_ref io n sample_res ''refs/heads/main'' content fs = (fs', Inr ())"
  shows "ValidateName ''main.lock'' = None \<and> Resolve_ref sample_res fs' ''refs/heads/main.lock'' = Some (Inl (RefNotFound ''refs/heads/main.lock''))"
proof -
  have "fs' (refPath sample_res ''refs/heads/main.lock'') = None"
    using write_ref_result(1) [OF assms refl] by (simp add: sample_paths)
  moreover have "ValidateName ''main.lock'' = None" by code_simp
  ultimately show ?thesis
    unfolding Resolve_ref_def by (subst resolve_loop.simps) (simp add: ref_content_def)
qed

theorem lock_branch_lost_witness:
  "Resolve_ref sample_res (fst (write_ref io_ok 0 sample_res ''refs/heads/main'' ''x'' [''/v/refs/heads/main.lock'' \<mapsto> BaseID_String 5 @ [LF]]))
     ''refs/heads/main.lock'' = Some (Inl (RefNotFound ''refs/heads/main.lock''))"
proof -
  have "write_ref io_ok 0 sample_res ''refs/heads/main'' ''x'' [''/v/refs/heads/main.lock'' \<mapsto> BaseID_String 5 @ [LF]] =
    (fst (write_ref io_ok 0 sample_res ''refs/heads/main'' ''x'' [''/v/refs/heads/main.lock'' \<mapsto> BaseID_String 5 @ [LF]]), Inr ())"
    by (simp add: write_ref_def atomicWrite_def WriteFile_def io_ok_def Let_def)
  from lock_branch_lost [OF this] show ?thesis by simp
qed

text \<open>A validated branch name cannot leave the directory of the branches, whatever slashes and dots it
  contains: the file of the branch is strictly below it.\<close>

theorem branch_path_confined:
  assumes "HasPrefix (VaraDir r) ''/''" "ValidateName name = None"
  shows "\<exists>rest. rest \<noteq> [] \<and> refPath r (''refs/heads/'' @ name) = refPath r ''refs/heads'' @ ''/'' @ rest"
proof -
  let ?D = "clean_parts True [] (Split (VaraDir r) (CHR ''/''))"
  let ?F = "filter (\<lambda>c. c \<noteq> '''' \<and> c \<noteq> ''.'') (Split name (CHR ''/''))"
  have sp: "Split (''refs/heads/'' @ name) (CHR ''/'') = [''refs'', ''heads''] @ Split name (CHR ''/'')"
    "Split ''refs/heads'' (CHR ''/'') = [''refs'', ''heads'']"
    by (simp_all add: Split_def)
  have a: "refPath r ''refs/heads'' = ''/'' @ Join (?D @ [''refs'', ''heads'']) ''/''"
    unfolding refPath_rooted [OF assms(1)] clean_parts_append sp by simp
  have b: "refPath r (''refs/heads/'' @ name) = ''/'' @ Join (?D @ [''refs'', ''heads''] @ ?F) ''/''"
    unfolding refPath_rooted [OF assms(1)] clean_parts_append sp using valid_parts(1) [OF assms(2)]
    by (simp add: clean_parts_plain)
  have "Join (?D @ [''refs'', ''heads''] @ ?F) ''/'' = Join (?D @ [''refs'', ''heads'']) ''/'' @ ''/'' @ Join ?F ''/''"
    using Join_append [of "?D @ [''refs'', ''heads'']" ?F "''/''"] valid_parts(2) [OF assms(2)] by simp
  moreover have "Join ?F ''/'' \<noteq> []"
  proof -
    obtain f fs where f: "?F = f # fs" using valid_parts(2) [OF assms(2)] by (cases ?F) auto
    then have "f \<noteq> []" by (metis (mono_tags, lifting) filter_eq_ConsD)
    then show ?thesis unfolding f by (cases fs) auto
  qed
  ultimately show ?thesis using a b by auto
qed

theorem branch_path_confined_witness:
  "\<exists>rest. rest \<noteq> [] \<and> refPath sample_res (''refs/heads/'' @ ''a/./b'') = refPath sample_res ''refs/heads'' @ ''/'' @ rest"
  by (rule branch_path_confined) code_simp+

end
