(* ===== verification/Reflog.thy ===== *)
theory Reflog
  imports Refs
begin

text \<open>
  \<^verbatim>\<open>pkg/reflog\<close> and the reflog part of \<^verbatim>\<open>pkg/recovery\<close>: one line per movement of a reference, appended to a
  text file and read back with \<^verbatim>\<open>bufio.Scanner\<close> (which refuses lines of 64 KiB and more), and the choice
  of the entry the next undo reverses.
\<close>

section \<open>Decimal numbers\<close>

definition digit :: "nat \<Rightarrow> char" where
  "digit n = char_of (48 + n)"

fun dec_nat :: "nat \<Rightarrow> string" where
  "dec_nat n = (if n < 10 then [digit n] else dec_nat (n div 10) @ [digit (n mod 10)])"

declare dec_nat.simps [simp del]

definition dec_int :: "int \<Rightarrow> string" where
  "dec_int i = (if i < 0 then CHR ''-'' # dec_nat (nat (- i)) else dec_nat (nat i))"

fun parse_digits :: "nat \<Rightarrow> string \<Rightarrow> nat option" where
  "parse_digits acc [] = Some acc"
| "parse_digits acc (c # s) =
     (let n = of_char c :: nat in if 48 \<le> n \<and> n \<le> 57 then parse_digits (10 * acc + (n - 48)) s else None)"

text \<open>\<^verbatim>\<open>strconv.ParseInt(s, 10, 64)\<close> with its error ignored: zero on a syntax error, the nearest bound on a
  range error.\<close>

definition ParseInt64 :: "string \<Rightarrow> int" where
  "ParseInt64 s =
     (let (neg, body) = (case s of c # t \<Rightarrow> if c = CHR ''-'' then (True, t) else if c = CHR ''+'' then (False, t) else (False, s)
                                 | [] \<Rightarrow> (False, []))
      in if body = [] then 0
         else case parse_digits 0 body of
           None \<Rightarrow> 0
         | Some n \<Rightarrow> if neg then - min (int n) (2 ^ 63) else min (int n) (2 ^ 63 - 1))"

section \<open>The log\<close>

record RefEntry =
  OldID :: CommitID
  NewID :: CommitID
  re_Author :: string
  re_Timestamp :: int
  re_Message :: string

record LogManager =
  log_VaraDir :: path

definition reflogPath :: "LogManager \<Rightarrow> string \<Rightarrow> path" where
  "reflogPath m refName = filepath_Join (log_VaraDir m) (''logs/'' @ refName)"

definition reflog_line :: "RefEntry \<Rightarrow> string" where
  "reflog_line e =
     (if OldID e = 0 then replicate 64 (CHR ''0'') else BaseID_String (OldID e)) @ '' '' @ BaseID_String (NewID e) @ '' ''
       @ re_Author e @ '' '' @ dec_int (re_Timestamp e) @ [TAB] @ re_Message e @ [LF]"

definition Reflog_Append :: "io \<Rightarrow> int \<Rightarrow> LogManager \<Rightarrow> string \<Rightarrow> CommitID \<Rightarrow> CommitID \<Rightarrow> string \<Rightarrow> string \<Rightarrow> fs \<Rightarrow> fs \<times> (verr + unit)" where
  "Reflog_Append io now m refName oldID newID author message fs =
     (let p = reflogPath m refName;
          old = (case fs p of None \<Rightarrow> [] | Some c \<Rightarrow> c);
          line = reflog_line \<lparr>OldID = oldID, NewID = newID, re_Author = author, re_Timestamp = now, re_Message = message\<rparr>
      in
      if \<not> io_mkdir io (filepath_Dir p) then (fs, Inl ErrIO)
      else if \<not> io_open io p then (fs, Inl ErrIO)
      else if \<not> io_write io p then (fs(p \<mapsto> old @ take (io_short io p) line), Inl ErrIO)
      else (fs(p \<mapsto> old @ line), Inr ()))"

definition MaxScanTokenSize :: nat where "MaxScanTokenSize = 65536"

text \<open>\<^verbatim>\<open>bufio.ScanLines\<close>: the lines without their newline and without one carriage return before it.\<close>

fun raw_lines :: "bytes \<Rightarrow> bytes \<Rightarrow> string list" where
  "raw_lines acc [] = (if acc = [] then [] else [acc])"
| "raw_lines acc (b # data) = (if b = LF then acc # raw_lines [] data else raw_lines (acc @ [b]) data)"

definition drop_CR :: "string \<Rightarrow> string" where
  "drop_CR l = (if l \<noteq> [] \<and> last l = CR then butlast l else l)"

fun SplitN2 :: "char \<Rightarrow> string \<Rightarrow> string \<Rightarrow> (string \<times> string) option" where
  "SplitN2 c acc [] = None"
| "SplitN2 c acc (x # s) = (if x = c then Some (acc, s) else SplitN2 c (acc @ [x]) s)"

definition id_or_zero :: "string \<Rightarrow> CommitID" where
  "id_or_zero s = (case ParseHex s of Inl _ \<Rightarrow> 0 | Inr i \<Rightarrow> i)"

definition parse_entry :: "string \<Rightarrow> RefEntry option" where
  "parse_entry line =
     (if line = [] then None
      else case SplitN2 TAB [] line of
        None \<Rightarrow> None
      | Some (m0, message) \<Rightarrow>
         (let meta = Split m0 (CHR '' '') in
          if length meta < 4 then None
          else Some \<lparr>OldID = id_or_zero (meta ! 0), NewID = id_or_zero (meta ! 1),
                     re_Author = Join (sub meta 2 (length meta - 1)) '' '',
                     re_Timestamp = ParseInt64 (last meta), re_Message = message\<rparr>))"

fun scan_entries :: "string list \<Rightarrow> RefEntry list \<Rightarrow> RefEntry list \<times> bool" where
  "scan_entries [] acc = (acc, True)"
| "scan_entries (l # ls) acc =
     (if length l \<ge> MaxScanTokenSize then (acc, False)
      else scan_entries ls (case parse_entry (drop_CR l) of None \<Rightarrow> acc | Some e \<Rightarrow> acc @ [e]))"

text \<open>The entries read, and whether the scanner reached the end without an error.\<close>

definition Reflog_Read :: "LogManager \<Rightarrow> fs \<Rightarrow> string \<Rightarrow> RefEntry list \<times> bool" where
  "Reflog_Read m fs refName =
     (case fs (reflogPath m refName) of None \<Rightarrow> ([], True) | Some data \<Rightarrow> scan_entries (raw_lines [] data) [])"

section \<open>Choosing what to undo (\<^verbatim>\<open>pkg/recovery\<close>)\<close>

definition UndoPrefix :: string where "UndoPrefix = ''undo: ''"

datatype undo_error = ErrNoHistory | ErrFirstCommit | ErrReadReflog

definition is_undo :: "RefEntry \<Rightarrow> bool" where
  "is_undo e = HasPrefix (re_Message e) UndoPrefix"

fun undo_walk :: "nat \<Rightarrow> RefEntry list \<Rightarrow> RefEntry option" where
  "undo_walk skip [] = None"
| "undo_walk skip (e # es) =
     (if is_undo e then undo_walk (skip + 1) es
      else if skip > 0 then undo_walk (skip - 1) es
      else Some e)"

definition undo_target :: "RefEntry list \<Rightarrow> undo_error + RefEntry" where
  "undo_target entries =
     (case undo_walk 0 (rev entries) of
        Some e \<Rightarrow> if OldID e = 0 then Inl ErrFirstCommit else Inr e
      | None \<Rightarrow> if entries \<noteq> [] then Inl ErrFirstCommit else Inl ErrNoHistory)"

definition UndoTarget :: "LogManager \<Rightarrow> fs \<Rightarrow> string \<Rightarrow> undo_error + RefEntry" where
  "UndoTarget m fs refName =
     (case Reflog_Read m fs refName of (entries, ok) \<Rightarrow> if \<not> ok then Inl ErrReadReflog else undo_target entries)"

definition HeadHistory :: "LogManager \<Rightarrow> fs \<Rightarrow> undo_error + RefEntry list" where
  "HeadHistory m fs =
     (case Reflog_Read m fs ''HEAD'' of (entries, ok) \<Rightarrow> if \<not> ok then Inl ErrReadReflog else Inr (rev entries))"

section \<open>Numbers round trip\<close>

lemma digit_code [simp]: "n < 10 \<Longrightarrow> (of_char (digit n) :: nat) = 48 + n"
  by (simp add: digit_def)

lemma parse_digits_append: "parse_digits acc (s @ t) = (case parse_digits acc s of None \<Rightarrow> None | Some a \<Rightarrow> parse_digits a t)"
  by (induction s arbitrary: acc) (auto simp: Let_def)

lemma parse_dec_nat: "parse_digits 0 (dec_nat n) = Some n"
proof (induction n rule: dec_nat.induct)
  case (1 n)
  show ?case
  proof (cases "n < 10")
    case True
    then show ?thesis by (subst dec_nat.simps) (simp add: Let_def)
  next
    case False
    with 1 show ?thesis by (subst dec_nat.simps) (simp add: parse_digits_append Let_def)
  qed
qed

lemma dec_nat_chars: "c \<in> set (dec_nat n) \<Longrightarrow> 48 \<le> (of_char c :: nat) \<and> (of_char c :: nat) \<le> 57"
proof (induction n rule: dec_nat.induct)
  case (1 n)
  then show ?case by (subst (asm) (2) dec_nat.simps) (auto split: if_splits)
qed

lemma dec_nat_nonempty [simp]: "dec_nat n \<noteq> []"
  by (subst dec_nat.simps) simp

lemma ParseInt64_dec:
  assumes "- (2 ^ 63) \<le> i" "i < 2 ^ 63"
  shows "ParseInt64 (dec_int i) = i"
proof (cases "i < 0")
  case True
  with assms show ?thesis by (simp add: ParseInt64_def dec_int_def parse_dec_nat)
next
  case False
  obtain c t where s: "dec_nat (nat i) = c # t" by (cases "dec_nat (nat i)") auto
  have "c \<noteq> CHR ''-''" "c \<noteq> CHR ''+''" using dec_nat_chars [of c "nat i"] s by auto
  with False assms s parse_dec_nat [of "nat i"] show ?thesis by (auto simp: ParseInt64_def dec_int_def)
qed

lemma dec_int_chars: "c \<in> set (dec_int i) \<Longrightarrow> c \<noteq> CHR '' '' \<and> c \<noteq> TAB \<and> c \<noteq> LF"
  using dec_nat_chars [of c] by (fastforce simp: dec_int_def split: if_splits)

section \<open>Appending and reading\<close>

lemma zero_id: "BaseID_String 0 = replicate 64 (CHR ''0'')"
proof -
  have "char_of (0 :: nat) = NUL" by code_simp
  then have "be_bytes n 0 = replicate n NUL" for n by (induction n) simp_all
  moreover have "hex_EncodeToString (replicate n NUL) = replicate (2 * n) (CHR ''0'')" for n
    by (induction n) (simp_all add: hex_digit_def)
  ultimately show ?thesis by (simp add: BaseID_String_def word_bytes_def)
qed

lemma reflog_line_id:
  "reflog_line e = BaseID_String (OldID e) @ '' '' @ BaseID_String (NewID e) @ '' '' @ re_Author e @ '' ''
     @ dec_int (re_Timestamp e) @ [TAB] @ re_Message e @ [LF]"
  by (simp add: reflog_line_def zero_id)

definition entry_ok :: "RefEntry \<Rightarrow> bool" where
  "entry_ok e \<longleftrightarrow> TAB \<notin> set (re_Author e) \<and> LF \<notin> set (re_Author e) \<and> LF \<notin> set (re_Message e) \<and>
     (re_Message e = [] \<or> last (re_Message e) \<noteq> CR) \<and> - (2 ^ 63) \<le> re_Timestamp e \<and> re_Timestamp e < 2 ^ 63 \<and>
     length (reflog_line e) \<le> MaxScanTokenSize"

lemma SplitN2_append: "c \<notin> set a \<Longrightarrow> SplitN2 c acc (a @ c # b) = Some (acc @ a, b)"
  by (induction a arbitrary: acc) auto

lemma id_chars: "c \<in> set (BaseID_String i) \<Longrightarrow> c \<noteq> CHR '' '' \<and> c \<noteq> TAB \<and> c \<noteq> LF"
  using BaseID_String_graphic [of c i] by (auto simp: graphic_def)

lemma id_or_zero_String [simp]: "id_or_zero (BaseID_String i) = i"
  by (simp add: id_or_zero_def)

lemma parse_reflog_line:
  assumes "entry_ok e"
  shows "parse_entry (drop_CR (butlast (reflog_line e))) = Some e"
proof -
  define m0 where "m0 = BaseID_String (OldID e) @ '' '' @ BaseID_String (NewID e) @ '' '' @ re_Author e @ '' '' @ dec_int (re_Timestamp e)"
  have l: "butlast (reflog_line e) = m0 @ TAB # re_Message e" by (simp add: reflog_line_id m0_def butlast_append)
  have cr: "drop_CR (m0 @ TAB # re_Message e) = m0 @ TAB # re_Message e" using assms by (auto simp: drop_CR_def entry_ok_def)
  have "TAB \<notin> set m0" using assms id_chars dec_int_chars by (fastforce simp: m0_def entry_ok_def)
  then have s2: "SplitN2 TAB [] (m0 @ TAB # re_Message e) = Some (m0, re_Message e)" by (simp add: SplitN2_append)
  have sp: "Split m0 (CHR '' '') = BaseID_String (OldID e) # BaseID_String (NewID e) # Split (re_Author e) (CHR '' '') @ [dec_int (re_Timestamp e)]"
    using id_chars dec_int_chars
    by (simp add: m0_def Split_append Split_append_sep Split_no_sep)
       (metis Split_append_sep Split_no_sep Split_append)
  have "m0 \<noteq> []" by (simp add: m0_def)
  then show ?thesis
    using assms s2 sp Split_nonempty [of "re_Author e" "CHR '' ''"] unfolding l cr
    by (auto simp: parse_entry_def Let_def ParseInt64_dec entry_ok_def Join_Split numeral_2_eq_2 Suc_le_eq)
qed

lemma raw_lines_append: "raw_lines acc (a @ LF # b) = raw_lines acc (a @ [LF]) @ raw_lines [] b"
  by (induction acc a rule: raw_lines.induct) auto

lemma raw_lines_line: "LF \<notin> set l \<Longrightarrow> raw_lines acc (l @ [LF]) = [acc @ l]"
  by (induction l arbitrary: acc) auto

lemma scan_entries_append: "scan_entries ls acc = (es, True) \<Longrightarrow> scan_entries (ls @ ls') acc = scan_entries ls' es"
  by (induction ls acc rule: scan_entries.induct) (auto split: if_splits)

definition log_closed :: "bytes option \<Rightarrow> bool" where
  "log_closed c \<longleftrightarrow> (case c of None \<Rightarrow> True | Some d \<Rightarrow> d = [] \<or> last d = LF)"

lemma scan_appended:
  assumes "entry_ok e" "log_closed (Some data)" "scan_entries (raw_lines [] data) [] = (es, True)"
  shows "scan_entries (raw_lines [] (data @ reflog_line e)) [] = (es @ [e], True)"
proof -
  define l where "l = butlast (reflog_line e)"
  have rl: "reflog_line e = l @ [LF]" by (simp add: l_def reflog_line_def butlast_append)
  have "LF \<notin> set l" using assms(1) id_chars dec_int_chars
    by (fastforce simp: l_def reflog_line_id butlast_append entry_ok_def)
  then have "raw_lines [] (data @ reflog_line e) = raw_lines [] data @ [l]"
    using assms(2) raw_lines_append [of "[]" "butlast data" "l @ [LF]"] raw_lines_line [of l "[]"]
    by (cases data rule: rev_cases) (auto simp: rl log_closed_def)
  moreover have "length l < MaxScanTokenSize" using assms(1) rl by (simp add: entry_ok_def)
  ultimately show ?thesis
    using scan_entries_append [OF assms(3), of "[l]"] parse_reflog_line [OF assms(1)] by (simp add: l_def)
qed

section \<open>The undo stack\<close>

text \<open>What the history of a reference means: an ordinary entry is pushed, an undo pops the one it
  reversed.\<close>

fun undo_stack :: "RefEntry list \<Rightarrow> RefEntry list \<Rightarrow> RefEntry list" where
  "undo_stack st [] = st"
| "undo_stack st (e # es) = undo_stack (if is_undo e then tl st else e # st) es"

lemma undo_stack_append: "undo_stack st (es @ fs) = undo_stack (undo_stack st es) fs"
  by (induction st es rule: undo_stack.induct) auto

lemma undo_walk_stack:
  "undo_walk k (rev es) = (case drop k (undo_stack [] es) of [] \<Rightarrow> None | e # _ \<Rightarrow> Some e)"
proof (induction es arbitrary: k rule: rev_induct)
  case (snoc e es)
  show ?case
  proof (cases "is_undo e")
    case True
    with snoc [of "k + 1"] show ?thesis by (simp add: undo_stack_append drop_Suc)
  next
    case False
    with snoc [of "k - 1"] show ?thesis by (cases k) (simp_all add: undo_stack_append)
  qed
qed simp

lemma undo_stack_undos: "\<forall>u \<in> set us. is_undo u \<Longrightarrow> undo_stack st us = drop (length us) st"
  by (induction us arbitrary: st) (auto simp: drop_Suc)

section \<open>Properties\<close>

text \<open>Appending an entry and reading the log back gives the old entries and the new one with all its
  fields, for authors without tabs and messages without newlines, as long as the line fits the scanner.\<close>

theorem reflog_append_read:
  assumes "Reflog_Append io now m refName old new author message fs = (fs', Inr ())"
    "Reflog_Read m fs refName = (es, True)" "log_closed (fs (reflogPath m refName))"
    "entry_ok \<lparr>OldID = old, NewID = new, re_Author = author, re_Timestamp = now, re_Message = message\<rparr>"
  shows "Reflog_Read m fs' refName =
      (es @ [\<lparr>OldID = old, NewID = new, re_Author = author, re_Timestamp = now, re_Message = message\<rparr>], True) \<and>
    log_closed (fs' (reflogPath m refName))"
proof -
  let ?e = "\<lparr>OldID = old, NewID = new, re_Author = author, re_Timestamp = now, re_Message = message\<rparr>"
  let ?d = "case fs (reflogPath m refName) of None \<Rightarrow> [] | Some c \<Rightarrow> c"
  have f: "fs' (reflogPath m refName) = Some (?d @ reflog_line ?e)"
    using assms(1) by (auto simp: Reflog_Append_def Let_def split: if_splits)
  have "log_closed (Some ?d)" "scan_entries (raw_lines [] ?d) [] = (es, True)"
    using assms(2,3) by (auto simp: log_closed_def Reflog_Read_def split: option.splits)
  from scan_appended [OF assms(4) this] f show ?thesis by (simp add: Reflog_Read_def log_closed_def reflog_line_def)
qed

theorem reflog_append_read_witness:
  "fst (Reflog_Read \<lparr>log_VaraDir = ''/v''\<rparr> (fst (Reflog_Append io_ok 5 \<lparr>log_VaraDir = ''/v''\<rparr> ''HEAD'' 0 7 ''A B'' ''commit: x'' Map.empty)) ''HEAD'')
     = [\<lparr>OldID = 0, NewID = 7, re_Author = ''A B'', re_Timestamp = 5, re_Message = ''commit: x''\<rparr>]"
proof -
  let ?m = "\<lparr>log_VaraDir = ''/v''\<rparr>"
  have a: "Reflog_Append io_ok 5 ?m ''HEAD'' 0 7 ''A B'' ''commit: x'' Map.empty =
    (fst (Reflog_Append io_ok 5 ?m ''HEAD'' 0 7 ''A B'' ''commit: x'' Map.empty), Inr ())"
    by (simp add: Reflog_Append_def io_ok_def Let_def)
  have "length (dec_int 5) = 1" by (simp add: dec_int_def dec_nat.simps)
  then have "entry_ok \<lparr>OldID = 0, NewID = 7, re_Author = ''A B'', re_Timestamp = 5, re_Message = ''commit: x''\<rparr>"
    by (simp add: entry_ok_def reflog_line_id MaxScanTokenSize_def)
  from reflog_append_read [OF a _ _ this, of "[]"] show ?thesis by (simp add: Reflog_Read_def log_closed_def)
qed

text \<open>Undo walks a stack: after any history and any number of further undos, the entry chosen is the
  one that many places below the top of the stack of changes not yet undone, so consecutive undos step
  back one change at a time and never revisit one.\<close>

theorem undo_target_stack:
  assumes "\<forall>u \<in> set us. is_undo u"
  shows "undo_target (es @ us) =
    (case drop (length us) (undo_stack [] es) of
       e # _ \<Rightarrow> if OldID e = 0 then Inl ErrFirstCommit else Inr e
     | [] \<Rightarrow> if es @ us \<noteq> [] then Inl ErrFirstCommit else Inl ErrNoHistory)"
  using undo_walk_stack [of 0 "es @ us"] undo_stack_undos [OF assms]
  by (auto simp: undo_target_def undo_stack_append split: list.split)

theorem undo_target_stack_witness:
  "undo_target [\<lparr>OldID = 1, NewID = 2, re_Author = [], re_Timestamp = 0, re_Message = ''a''\<rparr>,
                \<lparr>OldID = 2, NewID = 3, re_Author = [], re_Timestamp = 0, re_Message = ''b''\<rparr>,
                \<lparr>OldID = 3, NewID = 2, re_Author = [], re_Timestamp = 0, re_Message = ''undo: b''\<rparr>] =
     Inr \<lparr>OldID = 1, NewID = 2, re_Author = [], re_Timestamp = 0, re_Message = ''a''\<rparr>"
  using undo_target_stack [of "[\<lparr>OldID = 3, NewID = 2, re_Author = [], re_Timestamp = 0, re_Message = ''undo: b''\<rparr>]"
      "[\<lparr>OldID = 1, NewID = 2, re_Author = [], re_Timestamp = 0, re_Message = ''a''\<rparr>,
        \<lparr>OldID = 2, NewID = 3, re_Author = [], re_Timestamp = 0, re_Message = ''b''\<rparr>]"]
  by (simp add: is_undo_def HasPrefix_def UndoPrefix_def)

text \<open>A message with a newline is not escaped: its first line alone is read back as the message, and
  what follows can be an entry of its own that was never recorded.\<close>

theorem reflog_newline_forges:
  "Reflog_Read m [reflogPath m ''HEAD'' \<mapsto> reflog_line \<lparr>OldID = a, NewID = b, re_Author = ''A'', re_Timestamp = 1,
       re_Message = ''x'' @ [LF] @ butlast (reflog_line \<lparr>OldID = c, NewID = d, re_Author = ''B'', re_Timestamp = 2, re_Message = ''y''\<rparr>)\<rparr>] ''HEAD'' =
     ([\<lparr>OldID = a, NewID = b, re_Author = ''A'', re_Timestamp = 1, re_Message = ''x''\<rparr>,
       \<lparr>OldID = c, NewID = d, re_Author = ''B'', re_Timestamp = 2, re_Message = ''y''\<rparr>], True)"
proof -
  let ?e = "\<lparr>OldID = a, NewID = b, re_Author = ''A'', re_Timestamp = 1, re_Message = ''x''\<rparr>"
  let ?f = "\<lparr>OldID = c, NewID = d, re_Author = ''B'', re_Timestamp = 2, re_Message = ''y''\<rparr>"
  have d: "dec_int 1 = ''1''" "dec_int 2 = ''2''" by code_simp+
  have ok: "entry_ok ?e" "entry_ok ?f" by (simp_all add: entry_ok_def reflog_line_id MaxScanTokenSize_def d)
  have "reflog_line \<lparr>OldID = a, NewID = b, re_Author = ''A'', re_Timestamp = 1, re_Message = ''x'' @ [LF] @ butlast (reflog_line ?f)\<rparr> =
    reflog_line ?e @ reflog_line ?f"
    by (simp add: reflog_line_id butlast_append)
  moreover have "scan_entries (raw_lines [] (reflog_line ?e)) [] = ([?e], True)"
    using scan_appended [OF ok(1), of "[]" "[]"] by (simp add: log_closed_def)
  from scan_appended [OF ok(2) _ this] have "scan_entries (raw_lines [] (reflog_line ?e @ reflog_line ?f)) [] = ([?e, ?f], True)"
    by (simp add: log_closed_def reflog_line_def)
  ultimately show ?thesis by (simp add: Reflog_Read_def)
qed

end
