(* ===== verification/Transactions.thy ===== *)
theory Transactions
  imports Refs
begin

text \<open>
  \<^verbatim>\<open>internal/locking\<close>, \<^verbatim>\<open>internal/transaction\<close> and the journal scan of \<^verbatim>\<open>pkg/recovery\<close>. A lock is a file created
  exclusively; the lock files are a map from names to the process that created them. The waiting loop of
  \<^verbatim>\<open>AcquireWithTimeout\<close> runs against a clock that advances by the sleeps. Several processes are a step
  relation over that map. Journal files hold JSON; the model keeps the journal itself as the content.
\<close>

section \<open>Waiting for a lock\<close>

definition defaultTimeout :: nat where "defaultTimeout = 30000"    \<comment> \<open>milliseconds\<close>
definition initialBackoff :: nat where "initialBackoff = 10"
definition maxBackoff :: nat where "maxBackoff = 500"

text \<open>What the exclusive open does at a given time.\<close>

datatype attempt = Created | Exists | OpenFails

partial_function (option) acquire_loop :: "(nat \<Rightarrow> attempt) \<Rightarrow> nat \<Rightarrow> nat \<Rightarrow> nat \<Rightarrow> (nat \<times> (verr + unit)) option" where
  "acquire_loop att deadline now backoff =
     (case att now of
        Created \<Rightarrow> Some (now, Inr ())
      | OpenFails \<Rightarrow> Some (now, Inl ErrIO)
      | Exists \<Rightarrow>
          if now > deadline then Some (now, Inl ErrLockTimeout)
          else acquire_loop att deadline (now + backoff)
            (let b = backoff * 2 in if b > maxBackoff then maxBackoff else b))"

declare acquire_loop.simps [code]

definition AcquireWithTimeout :: "bool \<Rightarrow> (nat \<Rightarrow> attempt) \<Rightarrow> nat \<Rightarrow> nat \<Rightarrow> (nat \<times> (verr + unit)) option" where
  "AcquireWithTimeout mkdir_ok att now timeout =
     (if \<not> mkdir_ok then Some (now, Inl ErrIO) else acquire_loop att (now + timeout) now initialBackoff)"

definition Acquire :: "bool \<Rightarrow> (nat \<Rightarrow> attempt) \<Rightarrow> nat \<Rightarrow> (nat \<times> (verr + unit)) option" where
  "Acquire mkdir_ok att now = AcquireWithTimeout mkdir_ok att now defaultTimeout"

section \<open>Lock files\<close>

definition NameRepository :: string where "NameRepository = ''locks/repository.lock''"
definition NameRefs :: string where "NameRefs = ''locks/refs.lock''"
definition NameIndex :: string where "NameIndex = ''locks/index.lock''"
definition NameObjects :: string where "NameObjects = ''locks/objects.lock''"

definition hierarchy :: "string list" where
  "hierarchy = [NameRepository, NameRefs, NameIndex, NameObjects]"

type_synonym pid = nat
type_synonym locks = "string \<rightharpoonup> pid"

text \<open>One exclusive open, and \<^verbatim>\<open>Release\<close>, which removes the file whoever created it.\<close>

definition try_lock :: "pid \<Rightarrow> string \<Rightarrow> locks \<Rightarrow> locks \<times> bool" where
  "try_lock p name l = (if l name = None then (l(name \<mapsto> p), True) else (l, False))"

definition Release :: "string \<Rightarrow> locks \<Rightarrow> locks" where
  "Release name l = l(name := None)"

definition releaseLocks :: "string list \<Rightarrow> locks \<Rightarrow> locks" where
  "releaseLocks held l = foldl (\<lambda>l n. Release n l) l held"

section \<open>Transactions\<close>

datatype State = StateBegin | StateExecute | StateVerify | StateCommit | StateComplete | StateFailed | StateOther string

record journal =
  j_ID :: string
  j_State :: State
  j_Command :: string
  j_Objects :: "string list"
  j_Refs :: "string \<rightharpoonup> string"

record Transaction =
  t_id :: string
  t_j :: journal
  t_path :: path
  t_locks :: "string list"
  t_committed :: bool

type_synonym journals = "path \<rightharpoonup> journal"

text \<open>\<^verbatim>\<open>flush\<close>: an atomic write, so either the journal is replaced or the old file stays.\<close>

definition flush_journal :: "bool \<Rightarrow> Transaction \<Rightarrow> journals \<Rightarrow> journals \<times> (verr + unit)" where
  "flush_journal ok t js = (if ok then (js(t_path t \<mapsto> t_j t), Inr ()) else (js, Inl ErrIO))"

text \<open>The locks of \<^verbatim>\<open>Begin\<close>, taken in order; \<open>avail\<close> tells whether waiting for a lock succeeds.\<close>

fun begin_locks :: "(string \<Rightarrow> bool) \<Rightarrow> pid \<Rightarrow> string list \<Rightarrow> string list \<Rightarrow> locks \<Rightarrow> locks \<times> (verr + string list)" where
  "begin_locks avail p [] acquired l = (l, Inr acquired)"
| "begin_locks avail p (n # ns) acquired l =
     (if \<not> avail n then (releaseLocks acquired l, Inl ErrLockTimeout)
      else case try_lock p n l of
        (l', True) \<Rightarrow> begin_locks avail p ns (acquired @ [n]) l'
      | (l', False) \<Rightarrow> (releaseLocks acquired l', Inl ErrLockTimeout))"

definition Begin_txn :: "(string \<Rightarrow> bool) \<Rightarrow> bool \<Rightarrow> bool \<Rightarrow> pid \<Rightarrow> path \<Rightarrow> string \<Rightarrow> string \<Rightarrow> string list \<Rightarrow> locks \<times> journals \<Rightarrow>
    (locks \<times> journals) \<times> (verr + Transaction)" where
  "Begin_txn avail mkdir_ok flush_ok p varaDir now command names w =
     (case begin_locks avail p names [] (fst w) of
        (l, Inl e) \<Rightarrow> ((l, snd w), Inl e)
      | (l, Inr acquired) \<Rightarrow>
          if \<not> mkdir_ok then ((releaseLocks acquired l, snd w), Inl ErrIO)
          else
            let i = ''txn-'' @ now;
                t = \<lparr>t_id = i, t_j = \<lparr>j_ID = i, j_State = StateBegin, j_Command = command, j_Objects = [], j_Refs = Map.empty\<rparr>,
                     t_path = filepath_Join varaDir (''journal/'' @ i @ ''.json''), t_locks = acquired, t_committed = False\<rparr>
            in case flush_journal flush_ok t (snd w) of
                 (js, Inl e) \<Rightarrow> ((releaseLocks acquired l, js), Inl e)
               | (js, Inr _) \<Rightarrow> ((l, js), Inr t))"

definition SetState :: "bool \<Rightarrow> State \<Rightarrow> Transaction \<Rightarrow> journals \<Rightarrow> Transaction \<times> journals \<times> (verr + unit)" where
  "SetState ok s t js = (let t' = t\<lparr>t_j := (t_j t)\<lparr>j_State := s\<rparr>\<rparr> in (t', flush_journal ok t' js))"

definition TrackObject :: "string \<Rightarrow> Transaction \<Rightarrow> Transaction" where
  "TrackObject i t = t\<lparr>t_j := (t_j t)\<lparr>j_Objects := j_Objects (t_j t) @ [i]\<rparr>\<rparr>"

definition TrackRef :: "string \<Rightarrow> string \<Rightarrow> Transaction \<Rightarrow> Transaction" where
  "TrackRef name hex t = t\<lparr>t_j := (t_j t)\<lparr>j_Refs := (j_Refs (t_j t))(name \<mapsto> hex)\<rparr>\<rparr>"

definition Commit_txn :: "bool \<Rightarrow> Transaction \<Rightarrow> locks \<times> journals \<Rightarrow> Transaction \<times> (locks \<times> journals) \<times> (verr + unit)" where
  "Commit_txn ok t w =
     (let t1 = t\<lparr>t_j := (t_j t)\<lparr>j_State := StateComplete\<rparr>\<rparr>; (js, err) = flush_journal ok t1 (snd w)
      in (t1\<lparr>t_locks := [], t_committed := True\<rparr>, (releaseLocks (t_locks t1) (fst w), js), err))"

definition Rollback_txn :: "bool \<Rightarrow> Transaction \<Rightarrow> locks \<times> journals \<Rightarrow> Transaction \<times> (locks \<times> journals)" where
  "Rollback_txn ok t w =
     (if t_committed t then (t, w)
      else let t1 = t\<lparr>t_j := (t_j t)\<lparr>j_State := StateFailed\<rparr>\<rparr>; (js, err) = flush_journal ok t1 (snd w)
        in (t1\<lparr>t_locks := [], t_committed := True\<rparr>, (releaseLocks (t_locks t1) (fst w), js)))"

section \<open>Crash recovery (\<^verbatim>\<open>pkg/recovery\<close>)\<close>

datatype dirent = Subdir | Corrupt | JournalFile journal

record PendingTransaction =
  p_ID :: string
  p_State :: State
  p_Command :: string
  p_Path :: path

text \<open>\<^verbatim>\<open>ScanJournal\<close> over the listing of the journal directory (\<^const>\<open>None\<close>: it does not exist).\<close>

definition ScanJournal :: "path \<Rightarrow> (string \<times> dirent) list option \<Rightarrow> PendingTransaction list" where
  "ScanJournal varaDir listing =
     (case listing of
        None \<Rightarrow> []
      | Some es \<Rightarrow> concat (map (\<lambda>(name, d).
          case d of
            JournalFile j \<Rightarrow>
              if HasSuffix name ''.json'' \<and> j_State j \<noteq> StateComplete \<and> j_State j \<noteq> StateFailed
              then [\<lparr>p_ID = j_ID j, p_State = j_State j, p_Command = j_Command j,
                     p_Path = filepath_Join varaDir (''journal/'' @ name)\<rparr>]
              else []
          | _ \<Rightarrow> []) es))"

section \<open>Waiting ends\<close>

definition acquire_ok :: "(nat \<Rightarrow> attempt) \<Rightarrow> nat \<Rightarrow> nat \<Rightarrow> nat \<times> (verr + unit) \<Rightarrow> bool" where
  "acquire_ok att deadline now r \<longleftrightarrow> now \<le> fst r \<and> fst r \<le> max now (deadline + maxBackoff) \<and>
     (case snd r of
        Inr _ \<Rightarrow> att (fst r) = Created
      | Inl e \<Rightarrow> (e = ErrLockTimeout \<and> att (fst r) = Exists \<and> fst r > deadline) \<or> (e = ErrIO \<and> att (fst r) = OpenFails))"

lemma acquire_loop_returns:
  assumes "0 < backoff" "backoff \<le> maxBackoff"
  shows "\<exists>r. acquire_loop att deadline now backoff = Some r \<and> acquire_ok att deadline now r"
  using assms
proof (induction "deadline + 1 - now" arbitrary: now backoff rule: less_induct)
  case less
  show ?case
  proof (cases "att now = Exists \<and> now \<le> deadline")
    case True
    define b where "b = (let b = backoff * 2 in if b > maxBackoff then maxBackoff else b)"
    have b: "0 < b" "b \<le> maxBackoff" using less.prems by (auto simp: b_def maxBackoff_def Let_def)
    have "deadline + 1 - (now + backoff) < deadline + 1 - now" using less.prems True by linarith
    from less.hyps [OF this b] obtain r where
      r: "acquire_loop att deadline (now + backoff) b = Some r" "acquire_ok att deadline (now + backoff) r" by auto
    have "acquire_loop att deadline now backoff = acquire_loop att deadline (now + backoff) b"
      using True by (subst acquire_loop.simps) (simp add: b_def)
    moreover have "acquire_ok att deadline now r"
      using r(2) True less.prems by (auto simp: acquire_ok_def max_def split: if_splits)
    ultimately show ?thesis using r by simp
  next
    case False
    then show ?thesis by (subst acquire_loop.simps) (auto simp: acquire_ok_def split: attempt.splits)
  qed
qed

section \<open>Locks of one transaction\<close>

lemma releaseLocks_simp: "releaseLocks held l = (\<lambda>n. if n \<in> set held then None else l n)"
  unfolding releaseLocks_def by (induction held arbitrary: l) (auto simp: Release_def fun_eq_iff)

lemma begin_locks_spec:
  assumes "begin_locks avail p names acquired l = (l', r)" "\<forall>n \<in> set acquired. l n = Some p \<and> l0 n = None"
    "\<forall>n. n \<notin> set acquired \<longrightarrow> l n = l0 n"
  shows "case r of Inl _ \<Rightarrow> l' = l0
    | Inr held \<Rightarrow> held = acquired @ names \<and> l' = (\<lambda>n. if n \<in> set held then Some p else l0 n) \<and> (\<forall>n \<in> set held. l0 n = None)"
  using assms
proof (induction avail p names acquired l rule: begin_locks.induct)
  case (1 avail p acquired l)
  then show ?case by (auto simp: fun_eq_iff)
next
  case (2 avail p n ns acquired l)
  show ?case
  proof (cases "avail n \<and> l n = None")
    case True
    with 2(2) have "begin_locks avail p ns (acquired @ [n]) (l(n \<mapsto> p)) = (l', r)" by (simp add: try_lock_def)
    moreover have "n \<notin> set acquired" "l0 n = None" using True 2(3,4) by auto
    moreover have "try_lock p n l = (l(n \<mapsto> p), True)" using True by (simp add: try_lock_def)
    ultimately have A: "\<forall>m \<in> set (acquired @ [n]). (l(n \<mapsto> p)) m = Some p \<and> l0 m = None"
      and B: "\<forall>m. m \<notin> set (acquired @ [n]) \<longrightarrow> (l(n \<mapsto> p)) m = l0 m"
      and eq: "begin_locks avail p ns (acquired @ [n]) (l(n \<mapsto> p)) = (l', r)"
      and tl: "try_lock p n l = (l(n \<mapsto> p), True)"
      using 2(3,4) by auto
    from 2(1) [OF _ tl [symmetric] _ eq A B] True show ?thesis by (auto split: sum.splits)
  next
    case False
    then have "l' = releaseLocks acquired l" "\<exists>e. r = Inl e" using 2(2) by (auto simp: try_lock_def split: if_splits)
    then show ?thesis using 2(3,4) by (auto simp: releaseLocks_simp fun_eq_iff)
  qed
qed

section \<open>Many processes\<close>

datatype phase = Acquiring "string list" | Active | Releasing "string list" | Ended

record proc =
  ph :: phase
  held :: "string list"

type_synonym system = "locks \<times> (pid \<Rightarrow> proc)"

inductive step :: "system \<Rightarrow> system \<Rightarrow> bool" where
  acquire: "ph (P p) = Acquiring (n # ns) \<Longrightarrow> try_lock p n l = (l', True) \<Longrightarrow>
    step (l, P) (l', P(p := \<lparr>ph = Acquiring ns, held = held (P p) @ [n]\<rparr>))"
| started: "ph (P p) = Acquiring [] \<Longrightarrow> step (l, P) (l, P(p := (P p)\<lparr>ph := Active\<rparr>))"
| finish: "ph (P p) = Active \<Longrightarrow> step (l, P) (l, P(p := (P p)\<lparr>ph := Releasing (held (P p))\<rparr>))"
| release: "ph (P p) = Releasing (n # ns) \<Longrightarrow>
    step (l, P) (Release n l, P(p := \<lparr>ph = Releasing ns, held = remove1 n (held (P p))\<rparr>))"
| ended: "ph (P p) = Releasing [] \<Longrightarrow> step (l, P) (l, P(p := (P p)\<lparr>ph := Ended\<rparr>))"

text \<open>A process that gives up waiting releases what it holds and ends with an error.\<close>

inductive giveup :: "system \<Rightarrow> system \<Rightarrow> bool" where
  "ph (P p) = Acquiring (n # ns) \<Longrightarrow> try_lock p n l = (l', False) \<Longrightarrow>
    giveup (l, P) (l', P(p := (P p)\<lparr>ph := Releasing (held (P p))\<rparr>))"

inductive reachable :: "(pid \<Rightarrow> string list) \<Rightarrow> system \<Rightarrow> bool" for want where
  init: "reachable want (Map.empty, \<lambda>p. \<lparr>ph = Acquiring (want p), held = []\<rparr>)"
| stepped: "reachable want s \<Longrightarrow> step s s' \<Longrightarrow> reachable want s'"
| gave_up: "reachable want s \<Longrightarrow> giveup s s' \<Longrightarrow> reachable want s'"

definition proc_ok :: "string list \<Rightarrow> locks \<Rightarrow> pid \<Rightarrow> proc \<Rightarrow> bool" where
  "proc_ok w l p q \<longleftrightarrow>
     (\<forall>n. n \<in> set (held q) \<longleftrightarrow> l n = Some p) \<and> distinct (held q) \<and>
     (case ph q of
        Acquiring ns \<Rightarrow> held q @ ns = w
      | Active \<Rightarrow> True
      | Releasing ns \<Rightarrow> held q = ns
      | Ended \<Rightarrow> held q = [])"

lemma proc_okD:
  assumes "proc_ok w l p q"
  shows "n \<in> set (held q) \<longleftrightarrow> l n = Some p" "distinct (held q)" "ph q = Releasing ns \<Longrightarrow> held q = ns"
    "ph q = Acquiring ns \<Longrightarrow> held q @ ns = w" "ph q = Ended \<Longrightarrow> held q = []"
  using assms unfolding proc_ok_def by auto

definition all_ok :: "(pid \<Rightarrow> string list) \<Rightarrow> system \<Rightarrow> bool" where
  "all_ok want s \<longleftrightarrow> (\<forall>p. proc_ok (want p) (fst s) p (snd s p))"

lemma step_ok: "step s s' \<Longrightarrow> all_ok want s \<Longrightarrow> all_ok want s'"
proof (induction rule: step.induct)
  case (acquire P p n ns l l')
  have ok: "proc_ok (want q) l q (P q)" for q using acquire(3) by (simp add: all_ok_def)
  have l: "l n = None" "l' = l(n \<mapsto> p)" using acquire(2) by (auto simp: try_lock_def split: if_splits)
  have "n \<notin> set (held (P p))" using ok [of p] l(1) by (auto simp: proc_ok_def)
  then have "proc_ok (want p) l' p \<lparr>ph = Acquiring ns, held = held (P p) @ [n]\<rparr>"
    using ok [of p] l acquire(1) by (simp add: proc_ok_def)
  moreover have "proc_ok (want q) l' q (P q)" if "q \<noteq> p" for q
    using ok [of q] l that by (simp add: proc_ok_def)
  ultimately show ?case by (simp add: all_ok_def)
next
  case (release P p n ns l)
  have ok: "proc_ok (want q) l q (P q)" for q using release(2) by (simp add: all_ok_def)
  have h: "held (P p) = n # ns" by (rule proc_okD(3) [OF ok release(1)])
  have d: "distinct (n # ns)" "l n = Some p"
    using proc_okD(2) [OF ok, of p] proc_okD(1) [OF ok, of n p] unfolding h by simp_all
  have "proc_ok (want p) (Release n l) p \<lparr>ph = Releasing ns, held = remove1 n (held (P p))\<rparr>"
    using proc_okD(1) [OF ok, of _ p] d unfolding h proc_ok_def Release_def by auto
  moreover have "proc_ok (want q) (Release n l) q (P q)" if "q \<noteq> p" for q
    using ok [of q] d(2) that unfolding proc_ok_def Release_def by auto
  ultimately show ?case by (simp add: all_ok_def)
qed (fastforce simp: all_ok_def proc_ok_def split: phase.splits)+

lemma giveup_ok: "giveup s s' \<Longrightarrow> all_ok want s \<Longrightarrow> all_ok want s'"
  by (induction rule: giveup.induct) (fastforce simp: all_ok_def proc_ok_def try_lock_def split: phase.splits if_splits)

lemma reachable_ok: "reachable want s \<Longrightarrow> all_ok want s"
  by (induction rule: reachable.induct) (auto simp: step_ok giveup_ok, simp add: all_ok_def proc_ok_def)

definition rank :: "string \<Rightarrow> nat" where
  "rank n = length (takeWhile (\<lambda>m. m \<noteq> n) hierarchy)"

definition ordered :: "string list \<Rightarrow> bool" where
  "ordered ns \<longleftrightarrow> sorted_wrt (\<lambda>a b. rank a < rank b) ns"

lemma ordered_distinct: "ordered ns \<Longrightarrow> distinct ns"
  unfolding ordered_def by (induction ns) auto

lemma rank_le: "rank n \<le> 4"
  using length_takeWhile_le [of "\<lambda>m. m \<noteq> n" hierarchy] by (simp add: rank_def hierarchy_def)

lemma unblocked_step:
  assumes "\<not> (\<exists>n ns q. ph (P p) = Acquiring (n # ns) \<and> l n = Some q)" "ph (P p) \<noteq> Ended"
  shows "\<exists>s'. step (l, P) s'"
proof (cases "ph (P p)")
  case (Acquiring ns)
  show ?thesis
  proof (cases ns)
    case Nil
    with Acquiring show ?thesis by (auto intro: step.started)
  next
    case (Cons n ms)
    with Acquiring assms(1) have "try_lock p n l = (l(n \<mapsto> p), True)" by (auto simp: try_lock_def)
    with Acquiring Cons show ?thesis by (blast intro: step.acquire)
  qed
next
  case (Releasing ns)
  then show ?thesis by (cases ns) (auto intro: step.release step.ended)
qed (use assms in \<open>auto intro: step.finish\<close>)

lemma no_deadlock:
  assumes "\<forall>p. proc_ok (want p) l p (P p)" "\<forall>p. ordered (want p)" "ph (P p) \<noteq> Ended"
  shows "\<exists>s'. step (l, P) s'"
proof -
  have "ph (P p) = Acquiring (n # ns) \<Longrightarrow> l n = Some q \<Longrightarrow> \<exists>s'. step (l, P) s'" for p n ns q
  proof (induction "4 - rank n" arbitrary: p n ns q rule: less_induct)
    case less
    have hq: "n \<in> set (held (P q))" using assms(1) less.prems(2) by (auto simp: proc_ok_def)
    then have "ph (P q) \<noteq> Ended" using assms(1) by (auto simp: proc_ok_def dest: spec [of _ q])
    show ?case
    proof (cases "\<exists>m ms r. ph (P q) = Acquiring (m # ms) \<and> l m = Some r")
      case True
      then obtain m ms r where m: "ph (P q) = Acquiring (m # ms)" "l m = Some r" by blast
      have "held (P q) @ m # ms = want q" using assms(1) m(1) by (auto simp: proc_ok_def dest: spec [of _ q])
      then have "sorted_wrt (\<lambda>a b. rank a < rank b) (held (P q) @ m # ms)" using assms(2) by (metis ordered_def)
      then have "rank n < rank m" using hq by (auto simp: sorted_wrt_append)
      moreover have "rank m \<le> 4" by (rule rank_le)
      ultimately have "4 - rank m < 4 - rank n" by linarith
      from less.hyps [OF this m] show ?thesis .
    next
      case False
      with unblocked_step [of P q l] \<open>ph (P q) \<noteq> Ended\<close> show ?thesis by blast
    qed
  qed
  with unblocked_step [of P p l] assms(3) show ?thesis by blast
qed

section \<open>Journals\<close>

definition finished :: "State \<Rightarrow> bool" where
  "finished s \<longleftrightarrow> s = StateComplete \<or> s = StateFailed"

text \<open>A transaction's work: states and tracked objects and references, each persisted when its write
  succeeds.\<close>

datatype txn_op = OpState State | OpObject string | OpRef string string

fun run_op :: "txn_op \<Rightarrow> Transaction \<times> journals \<Rightarrow> Transaction \<times> journals" where
  "run_op (OpState s) (t, js) = (case SetState True s t js of (t', js', _) \<Rightarrow> (t', js'))"
| "run_op (OpObject i) (t, js) = (TrackObject i t, js)"
| "run_op (OpRef n h) (t, js) = (TrackRef n h t, js)"

lemma run_op_keeps:
  assumes "run_op op (t, js) = (t', js')" "\<exists>j. js (t_path t) = Some j \<and> j_ID j = t_id t \<and> \<not> finished (j_State j)"
    "j_ID (t_j t) = t_id t" "\<forall>s. op = OpState s \<longrightarrow> \<not> finished s"
  shows "t_path t' = t_path t \<and> t_id t' = t_id t \<and> t_locks t' = t_locks t \<and> t_committed t' = t_committed t \<and> j_ID (t_j t') = t_id t' \<and>
    (\<exists>j. js' (t_path t') = Some j \<and> j_ID j = t_id t' \<and> \<not> finished (j_State j))"
  using assms by (cases op) (auto simp: SetState_def flush_journal_def TrackObject_def TrackRef_def Let_def)

lemma run_ops_keep:
  assumes "fold run_op ops (t, js) = (t', js')" "\<exists>j. js (t_path t) = Some j \<and> j_ID j = t_id t \<and> \<not> finished (j_State j)"
    "j_ID (t_j t) = t_id t" "\<forall>s. OpState s \<in> set ops \<longrightarrow> \<not> finished s"
  shows "t_path t' = t_path t \<and> t_id t' = t_id t \<and> t_locks t' = t_locks t \<and> t_committed t' = t_committed t \<and> j_ID (t_j t') = t_id t' \<and>
    (\<exists>j. js' (t_path t') = Some j \<and> j_ID j = t_id t' \<and> \<not> finished (j_State j))"
  using assms
proof (induction ops arbitrary: t js)
  case (Cons op ops)
  obtain t1 js1 where o: "run_op op (t, js) = (t1, js1)" by fastforce
  from run_op_keeps [OF o Cons.prems(2,3)] Cons.prems(4)
  have k: "t_path t1 = t_path t" "t_id t1 = t_id t" "t_locks t1 = t_locks t" "t_committed t1 = t_committed t" "j_ID (t_j t1) = t_id t1"
    "\<exists>j. js1 (t_path t1) = Some j \<and> j_ID j = t_id t1 \<and> \<not> finished (j_State j)" by auto
  have "fold run_op ops (t1, js1) = (t', js')" "\<forall>s. OpState s \<in> set ops \<longrightarrow> \<not> finished s" using Cons.prems(1,4) o by auto
  from Cons.IH [OF this(1) k(6,5) this(2)] show ?case unfolding k(1-4) .
qed simp

lemma begin_all_or_nothing_spec:
  assumes "Begin_txn avail mk fl p dir now cmd names (l, js) = ((l', js'), r)"
  shows "case r of
      Inl _ \<Rightarrow> l' = l \<and> js' = js
    | Inr t \<Rightarrow> l' = (\<lambda>n. if n \<in> set names then Some p else l n) \<and> (\<forall>n \<in> set names. l n = None) \<and>
        t_locks t = names \<and> js' = js(t_path t \<mapsto> t_j t) \<and> j_State (t_j t) = StateBegin \<and> j_ID (t_j t) = t_id t \<and> \<not> t_committed t"
proof -
  obtain l1 r1 where b: "begin_locks avail p names [] l = (l1, r1)" by fastforce
  from begin_locks_spec [OF b, of l] have sp: "case r1 of Inl _ \<Rightarrow> l1 = l
    | Inr hs \<Rightarrow> hs = names \<and> l1 = (\<lambda>n. if n \<in> set hs then Some p else l n) \<and> (\<forall>n \<in> set hs. l n = None)" by (auto split: sum.splits)
  have rel: "\<forall>n \<in> set names. l n = None \<Longrightarrow> releaseLocks names (\<lambda>n. if n \<in> set names then Some p else l n) = l"
    by (auto simp: releaseLocks_simp fun_eq_iff)
  show ?thesis
    using assms b sp rel
    by (cases r1) (auto simp: Begin_txn_def flush_journal_def Let_def split: if_splits)
qed

section \<open>Properties\<close>

text \<open>Waiting for a lock always ends, at most one back-off step after the timeout: with the lock, which
  the exclusive open then really created, or with the timeout error, which is only given when the lock
  is still taken after the deadline, or with the error of the operating system.\<close>

theorem acquire_bounded:
  "\<exists>t r. AcquireWithTimeout True att now timeout = Some (t, r) \<and> now \<le> t \<and> t \<le> now + timeout + maxBackoff \<and>
    (case r of
       Inr _ \<Rightarrow> att t = Created
     | Inl e \<Rightarrow> e = ErrLockTimeout \<and> att t = Exists \<and> t > now + timeout \<or> e = ErrIO \<and> att t = OpenFails)"
  using acquire_loop_returns [of initialBackoff att "now + timeout" now]
  by (auto simp: AcquireWithTimeout_def acquire_ok_def initialBackoff_def maxBackoff_def split: sum.splits)

text \<open>\<^verbatim>\<open>Begin\<close> is all or nothing: on any failure, of a lock, of the journal directory or of the journal
  write, the lock files are exactly what they were; on success the process holds every lock it asked for
  and the journal on disk is in the begin state.\<close>

theorem begin_all_or_nothing:
  assumes "Begin_txn avail mk fl p dir now cmd names (l, js) = ((l', js'), r)"
  shows "case r of
      Inl _ \<Rightarrow> l' = l \<and> js' = js
    | Inr t \<Rightarrow> l' = (\<lambda>n. if n \<in> set names then Some p else l n) \<and> (\<forall>n \<in> set names. l n = None) \<and>
        t_locks t = names \<and> js' = js(t_path t \<mapsto> t_j t) \<and> j_State (t_j t) = StateBegin \<and> j_ID (t_j t) = t_id t \<and> \<not> t_committed t"
  using assms by (rule begin_all_or_nothing_spec)

theorem begin_all_or_nothing_witness:
  "fst (fst (Begin_txn (\<lambda>_. True) True True 3 ''/v'' ''1'' ''merge'' [NameRefs, NameIndex] ([NameIndex \<mapsto> 9], Map.empty))) = [NameIndex \<mapsto> 9]"
proof -
  let ?B = "Begin_txn (\<lambda>_. True) True True 3 ''/v'' ''1'' ''merge'' [NameRefs, NameIndex] ([NameIndex \<mapsto> 9], Map.empty)"
  have "?B = ((fst (fst ?B), snd (fst ?B)), snd ?B)" by simp
  from begin_all_or_nothing [OF this] show ?thesis
    by (auto split: sum.splits)
qed


definition two_procs :: "pid \<Rightarrow> string list" where
  "two_procs p = (if p < 2 then [NameRefs, NameIndex] else [])"

lemma two_procs_step:
  "reachable two_procs ([NameRefs \<mapsto> 0], (\<lambda>p. \<lparr>ph = Acquiring (two_procs p), held = []\<rparr>)(0 := \<lparr>ph = Acquiring [NameIndex], held = [NameRefs]\<rparr>))"
  using reachable.stepped [OF reachable.init step.acquire, of two_procs 0 NameRefs "[NameIndex]" "[NameRefs \<mapsto> 0]"]
  by (simp add: two_procs_def try_lock_def)




text \<open>What recovery sees: after \<^verbatim>\<open>Begin\<close> and any work that persists its states, the transaction is pending
  if the process dies there, and no longer pending once \<^verbatim>\<open>Commit\<close> or \<^verbatim>\<open>Rollback\<close> has written its journal; the
  locks are free again, and a \<^verbatim>\<open>Rollback\<close> after a \<^verbatim>\<open>Commit\<close> changes nothing.\<close>

theorem journal_lifecycle:
  assumes "Begin_txn avail mk fl p dir now cmd names (l, js) = ((l1, js1), Inr t)"
    "fold run_op ops (t, js1) = (t2, js2)" "\<forall>s. OpState s \<in> set ops \<longrightarrow> \<not> finished s"
    "Commit_txn True t2 (l1, js2) = (t3, (l3, js3), e)" "Rollback_txn True t2 (l1, js2) = (t4, (l4, js4))"
  shows "(\<exists>j. js2 (t_path t) = Some j \<and> length (ScanJournal dir (Some [(''x.json'', JournalFile j)])) = 1) \<and>
    (\<exists>j. js3 (t_path t) = Some j \<and> ScanJournal dir (Some [(''x.json'', JournalFile j)]) = []) \<and>
    (\<exists>j. js4 (t_path t) = Some j \<and> ScanJournal dir (Some [(''x.json'', JournalFile j)]) = []) \<and>
    l3 = l \<and> l4 = l \<and> Rollback_txn ok t3 (l3, js3) = (t3, (l3, js3))"
proof -
  from begin_all_or_nothing_spec [OF assms(1)] have b: "l1 = (\<lambda>n. if n \<in> set names then Some p else l n)" "\<forall>n \<in> set names. l n = None"
    "t_locks t = names" "js1 = js(t_path t \<mapsto> t_j t)" "j_State (t_j t) = StateBegin" "j_ID (t_j t) = t_id t" "\<not> t_committed t" by auto
  have "\<exists>j. js1 (t_path t) = Some j \<and> j_ID j = t_id t \<and> \<not> finished (j_State j)" using b by (simp add: finished_def)
  from run_ops_keep [OF assms(2) this b(6) assms(3)] have k: "t_path t2 = t_path t" "t_locks t2 = names" "\<not> t_committed t2"
    "\<exists>j. js2 (t_path t) = Some j \<and> \<not> finished (j_State j)" using b by auto
  have rel: "releaseLocks names l1 = l" using b(1,2) by (auto simp: releaseLocks_simp fun_eq_iff)
  have suf: "HasSuffix ''x.json'' ''.json''" by (simp add: HasSuffix_def HasPrefix_def)
  have c: "l3 = l" "js3 (t_path t) = Some ((t_j t2)\<lparr>j_State := StateComplete\<rparr>)" "t_committed t3"
    using assms(4) k rel by (auto simp: Commit_txn_def flush_journal_def)
  have r: "l4 = l" "js4 (t_path t) = Some ((t_j t2)\<lparr>j_State := StateFailed\<rparr>)"
    using assms(5) k rel by (auto simp: Rollback_txn_def flush_journal_def)
  show ?thesis using k(4) c r suf by (auto simp: ScanJournal_def finished_def Rollback_txn_def)
qed

theorem journal_lifecycle_witness:
  "\<exists>t1 w1 t3 w3 e. Begin_txn (\<lambda>_. True) True True 3 ''/v'' ''1'' ''merge'' [NameRefs] (Map.empty, Map.empty) = (w1, Inr t1) \<and>
    Commit_txn True t1 w1 = (t3, w3, e) \<and> fst w3 = Map.empty \<and> (\<exists>j. snd w3 (t_path t1) = Some j \<and> j_State j = StateComplete)"
proof -
  obtain l1 js1 t where b: "Begin_txn (\<lambda>_. True) True True 3 ''/v'' ''1'' ''merge'' [NameRefs] (Map.empty, Map.empty) = ((l1, js1), Inr t)"
    by (simp add: Begin_txn_def try_lock_def flush_journal_def Let_def)
  obtain t3 l3 js3 e where c: "Commit_txn True t (l1, js1) = (t3, (l3, js3), e)" by (metis prod_cases4 surj_pair)
  obtain t4 l4 js4 where r: "Rollback_txn True t (l1, js1) = (t4, (l4, js4))" by (metis prod_cases3)
  from journal_lifecycle [OF b _ _ c r, of "[]"] have "l3 = Map.empty" by simp
  moreover have "\<exists>j. js3 (t_path t) = Some j \<and> j_State j = StateComplete" using c by (auto simp: Commit_txn_def flush_journal_def)
  ultimately show ?thesis using b c by fastforce
qed

text \<open>\<^verbatim>\<open>Release\<close> is documented as safe to call more than once, but it removes the file whoever created it: a
  second release after another process has taken the lock lets a third one in beside it.\<close>

theorem release_twice_unsafe:
  "let l1 = fst (try_lock 1 n Map.empty); l2 = Release n l1; (l3, got2) = try_lock 2 n l2; l4 = Release n l3; (l5, got3) = try_lock 3 n l4
   in got2 \<and> got3"
  by (simp add: try_lock_def Release_def Let_def)

end
