(* ===== verification/Commit_Graph.thy ===== *)
theory Commit_Graph
  imports Object_Store
begin

text \<open>
  \<^verbatim>\<open>pkg/graph\<close>: the history walker, ancestor collection, merge base and generation numbers. The
  functions take the store through its \<^verbatim>\<open>Read\<close> (the argument \<open>rd\<close>; \<open>Store_Read z s fs\<close> on disk).
  A Go \<^verbatim>\<open>map[CommitID]bool\<close> that is only ever set to true is a set. The breadth-first loops
  terminate because identifiers have 256 bits: every step removes a queue element, and every
  insertion uses up an unvisited identifier. The recursion of \<^verbatim>\<open>Generation\<close> would not end on a cyclic
  history, so it carries fuel, with a lemma that fuel above the generation number is enough.
\<close>

type_synonym reader = "ObjectID \<Rightarrow> verr + Object"

definition readCommit :: "reader \<Rightarrow> CommitID \<Rightarrow> verr + Commit" where
  "readCommit rd i =
     bind_res (rd i) (\<lambda>obj. case obj of CommitObj c \<Rightarrow> Inr c | _ \<Rightarrow> Inl (ErrMsg ''is not a commit''))"

section \<open>Enqueueing unvisited parents\<close>

fun enqueue :: "CommitID list \<Rightarrow> CommitID list \<Rightarrow> CommitID set \<Rightarrow> CommitID list \<times> CommitID set" where
  "enqueue [] q v = (q, v)"
| "enqueue (p # ps) q v = (if p \<in> v then enqueue ps q v else enqueue ps (q @ [p]) (insert p v))"

lemma enqueue_spec:
  "enqueue ps q v = (q', v') \<Longrightarrow>
     \<exists>new. q' = q @ new \<and> distinct new \<and> set new = set ps - v \<and> v' = v \<union> set ps"
proof (induction ps arbitrary: q v)
  case Nil
  then show ?case by simp
next
  case (Cons p ps)
  show ?case
  proof (cases "p \<in> v")
    case True
    with Cons.prems have "enqueue ps q v = (q', v')" by simp
    from Cons.IH [OF this] True show ?thesis by auto
  next
    case False
    with Cons.prems have "enqueue ps (q @ [p]) (insert p v) = (q', v')" by simp
    from Cons.IH [OF this] obtain new where
      "q' = (q @ [p]) @ new" "distinct new" "set new = set ps - insert p v" "v' = insert p v \<union> set ps"
      by blast
    with False show ?thesis by (intro exI [of _ "p # new"]) auto
  qed
qed

lemma enqueue_budget:
  assumes "enqueue ps q v = (q', v')"
  shows "card (UNIV - v') + length q' = card (UNIV - v) + length q"
proof -
  obtain new where new: "q' = q @ new" "distinct new" "set new = set ps - v" "v' = v \<union> set ps"
    using enqueue_spec [OF assms] by blast
  then have split: "UNIV - v = (UNIV - v') \<union> set new" "(UNIV - v') \<inter> set new = {}" by auto
  have "card (UNIV - v) = card (UNIV - v') + card (set new)"
    by (subst split(1)) (rule card_Un_disjoint, use split in auto)
  with new distinct_card [of new] show ?thesis by simp
qed

section \<open>The walker\<close>

record Walker =
  queue :: "CommitID list"
  visited :: "CommitID set"

definition NewWalker :: "CommitID list \<Rightarrow> Walker" where
  "NewWalker tips = (let (q, v) = enqueue tips [] {} in \<lparr>queue = q, visited = v\<rparr>)"

text \<open>\<^verbatim>\<open>Next\<close>: \<open>Inr None\<close> is the nil commit that ends the walk. A failing read has already consumed its
  queue entry.\<close>

definition Next :: "reader \<Rightarrow> Walker \<Rightarrow> Walker \<times> (verr + (Commit \<times> CommitID) option)" where
  "Next rd w =
     (case queue w of
        [] \<Rightarrow> (w, Inr None)
      | currID # rest \<Rightarrow>
          (case readCommit rd currID of
             Inl e \<Rightarrow> (w\<lparr>queue := rest\<rparr>, Inl e)
           | Inr c \<Rightarrow> (let (q, v) = enqueue (Parents c) rest (visited w)
                       in (\<lparr>queue = q, visited = v\<rparr>, Inr (Some (c, currID))))))"

section \<open>Ancestors and merge base\<close>

function collect_loop :: "reader \<Rightarrow> CommitID list \<Rightarrow> CommitID set \<Rightarrow> verr + CommitID set" where
  "collect_loop rd [] anc = Inr anc"
| "collect_loop rd (cur # q) anc =
     bind_res (readCommit rd cur) (\<lambda>c.
       case enqueue (Parents c) q anc of (q', anc') \<Rightarrow> collect_loop rd q' anc')"
  by pat_completeness auto
termination
  by (relation "measure (\<lambda>(rd, q, anc). card (UNIV - anc) + length q)")
     (auto split: prod.splits dest: enqueue_budget)

definition collectAncestors :: "reader \<Rightarrow> CommitID \<Rightarrow> CommitID set \<Rightarrow> verr + CommitID set" where
  "collectAncestors rd start ancestors = collect_loop rd [start] (insert start ancestors)"

function merge_base_loop :: "reader \<Rightarrow> CommitID set \<Rightarrow> CommitID list \<Rightarrow> CommitID set \<Rightarrow> verr + CommitID" where
  "merge_base_loop rd ancestorsA [] v = Inl ErrRefNotFound"
| "merge_base_loop rd ancestorsA (cur # q) v =
     (if cur \<in> ancestorsA then Inr cur
      else bind_res (readCommit rd cur) (\<lambda>c.
        case enqueue (Parents c) q v of (q', v') \<Rightarrow> merge_base_loop rd ancestorsA q' v'))"
  by pat_completeness auto
termination
  by (relation "measure (\<lambda>(rd, a, q, v). card (UNIV - v) + length q)")
     (auto split: prod.splits dest: enqueue_budget)

definition MergeBase :: "reader \<Rightarrow> CommitID \<Rightarrow> CommitID \<Rightarrow> verr + CommitID" where
  "MergeBase rd a b =
     (if a = b then Inr a
      else bind_res (collectAncestors rd a {}) (\<lambda>ancestorsA. merge_base_loop rd ancestorsA [b] {b}))"

section \<open>Generation numbers\<close>

type_synonym gen_cache = "CommitID \<rightharpoonup> nat"

fun Generation :: "nat \<Rightarrow> reader \<Rightarrow> CommitID \<Rightarrow> gen_cache \<Rightarrow> (gen_cache \<times> (verr + nat)) option"
and max_parent :: "nat \<Rightarrow> reader \<Rightarrow> CommitID list \<Rightarrow> gen_cache \<Rightarrow> nat \<Rightarrow> (gen_cache \<times> (verr + nat)) option"
where
  "Generation 0 rd i cache = None"
| "Generation (Suc n) rd i cache =
     (case cache i of
        Some g \<Rightarrow> Some (cache, Inr g)
      | None \<Rightarrow>
          (case readCommit rd i of
             Inl e \<Rightarrow> Some (cache, Inl e)
           | Inr c \<Rightarrow>
               if Parents c = [] then Some (cache(i \<mapsto> 0), Inr 0)
               else (case max_parent n rd (Parents c) cache 0 of
                       None \<Rightarrow> None
                     | Some (cache', Inl e) \<Rightarrow> Some (cache', Inl e)
                     | Some (cache', Inr m) \<Rightarrow> Some (cache'(i \<mapsto> m + 1), Inr (m + 1)))))"
| "max_parent n rd [] cache m = Some (cache, Inr m)"
| "max_parent n rd (p # ps) cache m =
     (case Generation n rd p cache of
        None \<Rightarrow> None
      | Some (cache', Inl e) \<Rightarrow> Some (cache', Inl e)
      | Some (cache', Inr g) \<Rightarrow> max_parent n rd ps cache' (if g > m then g else m))"

section \<open>Ancestry\<close>

definition parent_rel :: "reader \<Rightarrow> (CommitID \<times> CommitID) set" where
  "parent_rel rd = {(c, p). \<exists>cm. readCommit rd c = Inr cm \<and> p \<in> set (Parents cm)}"

abbreviation ancestors :: "reader \<Rightarrow> CommitID \<Rightarrow> CommitID set" where
  "ancestors rd c \<equiv> (parent_rel rd)\<^sup>* `` {c}"

text \<open>A history is readable when every commit reachable from the start reads back as a commit.\<close>

definition readable_from :: "reader \<Rightarrow> CommitID \<Rightarrow> bool" where
  "readable_from rd c \<longleftrightarrow> (\<forall>x \<in> ancestors rd c. \<exists>cm. readCommit rd x = Inr cm)"

lemma parent_relI: "readCommit rd c = Inr cm \<Longrightarrow> p \<in> set (Parents cm) \<Longrightarrow> (c, p) \<in> parent_rel rd"
  by (auto simp: parent_rel_def)

lemma parent_rel_image: "readCommit rd c = Inr cm \<Longrightarrow> parent_rel rd `` {c} = set (Parents cm)"
  by (auto simp: parent_rel_def)

lemma parents_reach: "readCommit rd c = Inr cm \<Longrightarrow> set (Parents cm) \<subseteq> (parent_rel rd)\<^sup>* `` {c}"
  using parent_rel_image [of rd c cm] by blast

text \<open>The worklist invariant: everything visited but no longer queued is expanded.\<close>

definition expanded :: "reader \<Rightarrow> CommitID list \<Rightarrow> CommitID set \<Rightarrow> bool" where
  "expanded rd q v \<longleftrightarrow> set q \<subseteq> v \<and> (\<forall>x \<in> v - set q. parent_rel rd `` {x} \<subseteq> v)"

lemma expanded_step:
  assumes "expanded rd (c # q) v" "readCommit rd c = Inr cm" "enqueue (Parents cm) q v = (q', v')"
  shows "expanded rd q' v'"
proof -
  obtain new where new: "q' = q @ new" "set new = set (Parents cm) - v" "v' = v \<union> set (Parents cm)"
    using enqueue_spec [OF assms(3)] by blast
  show ?thesis
    unfolding expanded_def
  proof (intro conjI ballI)
    show "set q' \<subseteq> v'" using assms(1) new by (auto simp: expanded_def)
    fix x
    assume x: "x \<in> v' - set q'"
    then have "x \<in> v" using new by auto
    show "parent_rel rd `` {x} \<subseteq> v'"
    proof (cases "x = c")
      case True
      then show ?thesis using assms(2) new by (simp add: parent_rel_image)
    next
      case False
      with x \<open>x \<in> v\<close> new have "x \<in> v - set (c # q)" by auto
      with assms(1) new show ?thesis by (auto simp: expanded_def)
    qed
  qed
qed

lemma rtrancl_closed: "R `` X \<subseteq> X \<Longrightarrow> x \<in> X \<Longrightarrow> (x, y) \<in> R\<^sup>* \<Longrightarrow> y \<in> X"
  by (erule rtrancl_induct) auto

lemma collect_loop_ConsE:
  assumes "collect_loop rd (c # q) v = Inr v'"
  obtains cm q2 v2 where "readCommit rd c = Inr cm" "enqueue (Parents cm) q v = (q2, v2)"
    "collect_loop rd q2 v2 = Inr v'"
proof -
  from assms obtain cm where r: "readCommit rd c = Inr cm" by (auto simp: res_simps)
  obtain q2 v2 where "enqueue (Parents cm) q v = (q2, v2)" by fastforce
  with assms r show ?thesis by (intro that) auto
qed

lemma merge_base_loop_ConsE:
  assumes "merge_base_loop rd A (c # q) v = Inr d" "c \<notin> A"
  obtains cm q2 v2 where "readCommit rd c = Inr cm" "enqueue (Parents cm) q v = (q2, v2)"
    "merge_base_loop rd A q2 v2 = Inr d"
proof -
  from assms obtain cm where r: "readCommit rd c = Inr cm" by (auto simp: res_simps)
  obtain q2 v2 where "enqueue (Parents cm) q v = (q2, v2)" by fastforce
  with assms r show ?thesis by (intro that) auto
qed

lemma collect_loop_sound:
  "collect_loop rd q v = Inr v' \<Longrightarrow> expanded rd q v \<Longrightarrow>
     v \<subseteq> v' \<and> v' \<subseteq> (parent_rel rd)\<^sup>* `` v \<and> parent_rel rd `` v' \<subseteq> v'"
proof (induction rd q v rule: collect_loop.induct)
  case (1 rd v)
  then show ?case by (auto simp: expanded_def)
next
  case (2 rd c q v)
  from "2.prems"(1) obtain cm q2 v2 where
    r: "readCommit rd c = Inr cm" and e: "enqueue (Parents cm) q v = (q2, v2)"
    and l: "collect_loop rd q2 v2 = Inr v'"
    by (rule collect_loop_ConsE)
  have v2: "v2 = v \<union> set (Parents cm)" using enqueue_spec [OF e] by blast
  have IH: "v2 \<subseteq> v'" "v' \<subseteq> (parent_rel rd)\<^sup>* `` v2" "parent_rel rd `` v' \<subseteq> v'"
    using "2.IH" [OF r e [symmetric] l expanded_step [OF "2.prems"(2) r e]] by auto
  have "c \<in> v" using "2.prems"(2) by (simp add: expanded_def)
  then have "v2 \<subseteq> (parent_rel rd)\<^sup>* `` v"
    using v2 parents_reach [OF r] by blast
  then have "(parent_rel rd)\<^sup>* `` v2 \<subseteq> (parent_rel rd)\<^sup>* `` v"
    by (auto intro: rtrancl_trans)
  with IH v2 show ?case by auto
qed

lemma collectAncestors_eq:
  assumes "collectAncestors rd c {} = Inr A"
  shows "A = ancestors rd c"
proof -
  have "expanded rd [c] {c}" by (simp add: expanded_def)
  with assms have s: "{c} \<subseteq> A" "A \<subseteq> (parent_rel rd)\<^sup>* `` {c}" "parent_rel rd `` A \<subseteq> A"
    using collect_loop_sound [of rd "[c]" "{c}" A] by (auto simp: collectAncestors_def)
  moreover have "ancestors rd c \<subseteq> A" using rtrancl_closed [OF s(3)] s(1) by auto
  ultimately show ?thesis by blast
qed

lemma collect_loop_total:
  "\<forall>x \<in> (parent_rel rd)\<^sup>* `` set q. \<exists>cm. readCommit rd x = Inr cm \<Longrightarrow> \<exists>A. collect_loop rd q v = Inr A"
proof (induction rd q v rule: collect_loop.induct)
  case (1 rd v)
  then show ?case by simp
next
  case (2 rd c q v)
  from "2.prems" obtain cm where r: "readCommit rd c = Inr cm" by fastforce
  obtain q2 v2 where e: "enqueue (Parents cm) q v = (q2, v2)" by fastforce
  have "set q2 \<subseteq> set q \<union> set (Parents cm)" using enqueue_spec [OF e] by auto
  with parents_reach [OF r] have "set q2 \<subseteq> (parent_rel rd)\<^sup>* `` set (c # q)" by fastforce
  then have "(parent_rel rd)\<^sup>* `` set q2 \<subseteq> (parent_rel rd)\<^sup>* `` set (c # q)"
    by (auto intro: rtrancl_trans)
  with "2.prems" have "\<forall>x \<in> (parent_rel rd)\<^sup>* `` set q2. \<exists>cm. readCommit rd x = Inr cm" by blast
  from "2.IH" [OF r e [symmetric] this] r e show ?case by simp
qed

lemma collectAncestors_total:
  "readable_from rd c \<Longrightarrow> collectAncestors rd c {} = Inr (ancestors rd c)"
  using collect_loop_total [of rd "[c]"] collectAncestors_eq [of rd c]
  unfolding readable_from_def collectAncestors_def by fastforce

section \<open>The merge-base search is breadth first\<close>

text \<open>The queue holds a rest \<open>q1\<close> of level \<open>k\<close> followed by the part \<open>q2\<close> of level \<open>k + 1\<close> found so far;
  lower levels are done, and nothing done is a candidate.\<close>

definition levels :: "reader \<Rightarrow> CommitID \<Rightarrow> CommitID set \<Rightarrow> nat \<Rightarrow> CommitID list \<Rightarrow> CommitID list \<Rightarrow> CommitID set \<Rightarrow> bool" where
  "levels rd b A k q1 q2 v \<longleftrightarrow>
     expanded rd (q1 @ q2) v \<and> (v - set (q1 @ q2)) \<inter> A = {}
     \<and> (\<forall>x \<in> set q1. (b, x) \<in> parent_rel rd ^^ k) \<and> (\<forall>x \<in> set q2. (b, x) \<in> parent_rel rd ^^ Suc k)
     \<and> (\<forall>m < k. \<forall>x. (b, x) \<in> parent_rel rd ^^ m \<longrightarrow> x \<in> v - set (q1 @ q2))
     \<and> (\<forall>x. (b, x) \<in> parent_rel rd ^^ k \<longrightarrow> x \<in> v - set q2)"

lemma levels_shift:
  assumes "levels rd b A k [] q v"
  shows "levels rd b A (Suc k) q [] v"
proof -
  have done_k: "x \<in> v - set q" if "(b, x) \<in> parent_rel rd ^^ m" "m < Suc k" for m x
    using assms that by (auto simp: levels_def less_Suc_eq)
  have next_v: "x \<in> v" if "(b, x) \<in> parent_rel rd ^^ Suc k" for x
  proof -
    from that obtain y where y: "(b, y) \<in> parent_rel rd ^^ k" "(y, x) \<in> parent_rel rd" by auto
    from done_k [OF y(1)] have "y \<in> v - set q" by simp
    with assms y(2) show ?thesis by (auto simp: levels_def expanded_def)
  qed
  show ?thesis
    using assms done_k next_v unfolding levels_def by auto
qed

lemma levels_step:
  assumes l: "levels rd b A k (c # q1) q2 v" and "c \<notin> A" and r: "readCommit rd c = Inr cm"
    and e: "enqueue (Parents cm) (q1 @ q2) v = (q', v')"
  shows "\<exists>new. q' = q1 @ q2 @ new \<and> levels rd b A k q1 (q2 @ new) v'"
proof -
  obtain new where new: "q' = (q1 @ q2) @ new" "set new = set (Parents cm) - v" "v' = v \<union> set (Parents cm)"
    using enqueue_spec [OF e] by blast
  have ex: "expanded rd (q1 @ q2 @ new) v'"
    using expanded_step [of rd c "q1 @ q2" v cm q' v'] l r e new by (simp add: levels_def)
  have "(b, c) \<in> parent_rel rd ^^ k" using l by (simp add: levels_def)
  then have "\<forall>x \<in> set new. (b, x) \<in> parent_rel rd ^^ Suc k"
    using new r by (auto intro: parent_relI)
  moreover have "(v' - set (q1 @ q2 @ new)) \<inter> A = {}"
    using l new \<open>c \<notin> A\<close> by (auto simp: levels_def)
  moreover have "x \<in> v' - set (q1 @ q2 @ new)" if "(b, x) \<in> parent_rel rd ^^ m" "m < k" for m x
    using l that new by (fastforce simp: levels_def)
  moreover have "x \<in> v' - set (q2 @ new)" if "(b, x) \<in> parent_rel rd ^^ k" for x
    using l that new by (auto simp: levels_def)
  ultimately show ?thesis using l ex new unfolding levels_def by auto
qed

lemma merge_base_loop_nearest:
  "merge_base_loop rd A q v = Inr c \<Longrightarrow> levels rd b A k q1 q2 v \<Longrightarrow> q = q1 @ q2 \<Longrightarrow>
     c \<in> A \<and> (\<exists>n. (b, c) \<in> parent_rel rd ^^ n \<and>
       (\<forall>m x. (b, x) \<in> parent_rel rd ^^ m \<and> x \<in> A \<longrightarrow> n \<le> m))"
proof (induction rd A q v arbitrary: k q1 q2 rule: merge_base_loop.induct)
  case (1 rd A v)
  then show ?case by simp
next
  case (2 rd A h q v)
  obtain k' p1 p2 where l: "levels rd b A k' (h # p1) p2 v" and q: "q = p1 @ p2"
  proof (cases q1)
    case Nil
    with "2.prems" levels_shift [of rd b A k q2 v] show ?thesis
      by (intro that [of "Suc k" q "[]"]) auto
  next
    case (Cons a as)
    with "2.prems" show ?thesis by (intro that [of k as q2]) auto
  qed
  show ?case
  proof (cases "h \<in> A")
    case True
    then have "c = h" using "2.prems"(1) by simp
    moreover have "(b, h) \<in> parent_rel rd ^^ k'" using l by (simp add: levels_def)
    moreover have "k' \<le> m" if "(b, x) \<in> parent_rel rd ^^ m" "x \<in> A" for m x
    proof (rule ccontr)
      assume "\<not> k' \<le> m"
      then have "m < k'" by simp
      then have "x \<in> v - set ((h # p1) @ p2)" using l that(1) unfolding levels_def by blast
      then show False using l that(2) unfolding levels_def by blast
    qed
    ultimately show ?thesis using True by blast
  next
    case False
    with "2.prems"(1) obtain cm q' v' where r: "readCommit rd h = Inr cm"
      and e: "enqueue (Parents cm) q v = (q', v')" and rec: "merge_base_loop rd A q' v' = Inr c"
      by (rule merge_base_loop_ConsE)
    from levels_step [OF l False r e [unfolded q]] obtain new where
      "q' = p1 @ p2 @ new" "levels rd b A k' p1 (p2 @ new) v'" by blast
    with "2.IH" [OF False r e [symmetric] rec] show ?thesis by blast
  qed
qed

lemma levels_init: "levels rd b A 0 [b] [] {b}"
  by (auto simp: levels_def expanded_def)

lemma merge_base_loop_total:
  "\<forall>x \<in> (parent_rel rd)\<^sup>* `` set q. \<exists>cm. readCommit rd x = Inr cm \<Longrightarrow> expanded rd q v \<Longrightarrow>
     (v - set q) \<inter> A = {} \<Longrightarrow>
     (\<exists>c. merge_base_loop rd A q v = Inr c) \<or>
     (merge_base_loop rd A q v = Inl ErrRefNotFound \<and> (parent_rel rd)\<^sup>* `` v \<inter> A = {})"
proof (induction rd A q v rule: merge_base_loop.induct)
  case (1 rd A v)
  then have "parent_rel rd `` v \<subseteq> v" "v \<inter> A = {}" by (auto simp: expanded_def)
  with rtrancl_closed [of "parent_rel rd" v] have "(parent_rel rd)\<^sup>* `` v \<inter> A = {}" by blast
  then show ?case by simp
next
  case (2 rd A c q v)
  show ?case
  proof (cases "c \<in> A")
    case True
    then show ?thesis by simp
  next
    case False
    from "2.prems"(1) obtain cm where r: "readCommit rd c = Inr cm" by fastforce
    obtain q2 v2 where e: "enqueue (Parents cm) q v = (q2, v2)" by fastforce
    obtain new where new: "q2 = q @ new" "set new = set (Parents cm) - v" "v2 = v \<union> set (Parents cm)"
      using enqueue_spec [OF e] by blast
    with parents_reach [OF r] have "set q2 \<subseteq> (parent_rel rd)\<^sup>* `` set (c # q)" by fastforce
    then have "(parent_rel rd)\<^sup>* `` set q2 \<subseteq> (parent_rel rd)\<^sup>* `` set (c # q)"
      by (auto intro: rtrancl_trans)
    with "2.prems"(1) have rd2: "\<forall>x \<in> (parent_rel rd)\<^sup>* `` set q2. \<exists>cm. readCommit rd x = Inr cm" by blast
    have "(v2 - set q2) \<inter> A = {}" using "2.prems"(3) False new by auto
    from "2.IH" [OF False r e [symmetric] rd2 expanded_step [OF "2.prems"(2) r e] this] new
    show ?thesis using False r e by auto
  qed
qed

section \<open>Generation numbers: specification\<close>

text \<open>RFC-0007: a root has generation 0, any other commit one more than the largest of its parents.\<close>

inductive is_gen :: "reader \<Rightarrow> CommitID \<Rightarrow> nat \<Rightarrow> bool" for rd where
  root: "readCommit rd i = Inr c \<Longrightarrow> Parents c = [] \<Longrightarrow> is_gen rd i 0"
| child: "readCommit rd i = Inr c \<Longrightarrow> Parents c \<noteq> [] \<Longrightarrow> list_all2 (is_gen rd) (Parents c) gs \<Longrightarrow>
     is_gen rd i (Suc (Max (set gs)))"
monos list.rel_mono

definition cache_ok :: "reader \<Rightarrow> gen_cache \<Rightarrow> bool" where
  "cache_ok rd cache \<longleftrightarrow> (\<forall>i g. cache i = Some g \<longrightarrow> is_gen rd i g)"

lemma is_gen_unique: "is_gen rd i g \<Longrightarrow> is_gen rd i g' \<Longrightarrow> g = g'"
proof (induction arbitrary: g' rule: is_gen.induct)
  case (root i c)
  then show ?case by (auto elim: is_gen.cases)
next
  case (child i c gs)
  from child.prems child.hyps obtain gs' where
    "g' = Suc (Max (set gs'))" "list_all2 (is_gen rd) (Parents c) gs'"
    by (auto elim: is_gen.cases)
  moreover from this(2) child.IH have "gs = gs'"
    by (auto simp: list_all2_conv_all_nth list_eq_iff_nth_eq)
  ultimately show ?case by simp
qed

lemma is_gen_parent_less:
  assumes "is_gen rd i g" "(i, p) \<in> parent_rel rd" "is_gen rd p g'"
  shows "g' < g"
  using assms(1)
proof cases
  case (root c)
  with assms(2) show ?thesis by (auto simp: parent_rel_def)
next
  case (child c gs)
  with assms(2) have "p \<in> set (Parents c)" by (auto simp: parent_rel_def)
  then obtain n where n: "n < length (Parents c)" "Parents c ! n = p" by (auto simp: in_set_conv_nth)
  with child have "is_gen rd p (gs ! n)" "n < length gs" by (auto simp: list_all2_conv_all_nth)
  with assms(3) have "g' \<in> set gs" by (metis is_gen_unique nth_mem)
  with child show ?thesis by (simp add: le_imp_less_Suc)
qed

lemma fold_max_Max: "gs \<noteq> [] \<Longrightarrow> fold max gs (0 :: nat) = Max (set gs)"
  by (cases gs) (simp_all add: Max.set_eq_fold [symmetric])

lemma Generation_sound:
  "Generation n rd i cache = Some (cache', r) \<Longrightarrow> cache_ok rd cache \<Longrightarrow>
     cache_ok rd cache' \<and> (\<forall>g. r = Inr g \<longrightarrow> is_gen rd i g)"
  "max_parent n rd ps cache m = Some (cache', r) \<Longrightarrow> cache_ok rd cache \<Longrightarrow>
     cache_ok rd cache' \<and> (\<forall>g. r = Inr g \<longrightarrow>
       (\<exists>gs. list_all2 (is_gen rd) ps gs \<and> g = fold max gs m))"
proof (induction n rd i cache and n rd ps cache m arbitrary: cache' r and cache' r rule: Generation_max_parent.induct)
  case (1 rd i cache)
  then show ?case by simp
next
  case (2 n rd i cache)
  show ?case
  proof (cases "cache i")
    case (Some g)
    with "2.prems" show ?thesis by (auto simp: cache_ok_def)
  next
    case None
    show ?thesis
    proof (cases "readCommit rd i")
      case (Inl e)
      with None "2.prems" show ?thesis by auto
    next
      case (Inr c)
      show ?thesis
      proof (cases "Parents c = []")
        case True
        with None Inr "2.prems" show ?thesis
          by (auto simp: cache_ok_def intro: is_gen.root split: if_splits)
      next
        case False
        with None Inr "2.prems" obtain c2 r2 where m: "max_parent n rd (Parents c) cache 0 = Some (c2, r2)"
          by (auto split: option.splits)
        note IH = "2.IH" [OF None Inr False m "2.prems"(2)]
        show ?thesis
        proof (cases r2)
          case (Inl e)
          with None Inr False m IH "2.prems" show ?thesis by auto
        next
          case (Inr g)
          with IH obtain gs where gs: "list_all2 (is_gen rd) (Parents c) gs" "g = fold max gs 0" by auto
          with False have "gs \<noteq> []" by auto
          with gs(2) have "g = Max (set gs)" by (simp add: fold_max_Max)
          with gs(1) False \<open>readCommit rd i = Inr c\<close> have "is_gen rd i (Suc g)"
            by (auto intro: is_gen.child)
          with None False \<open>readCommit rd i = Inr c\<close> m Inr IH "2.prems" show ?thesis
            by (auto simp: cache_ok_def split: if_splits)
        qed
      qed
    qed
  qed
next
  case (3 n rd cache m)
  then show ?case by auto
next
  case (4 n rd p ps cache m)
  from "4.prems" obtain c2 r2 where g: "Generation n rd p cache = Some (c2, r2)"
    by (auto split: option.splits)
  note IH1 = "4.IH"(1) [OF g "4.prems"(2)]
  show ?case
  proof (cases r2)
    case (Inl e)
    with g IH1 "4.prems" show ?thesis by auto
  next
    case (Inr k)
    with g "4.prems"(1) have m: "max_parent n rd ps c2 (if k > m then k else m) = Some (cache', r)" by simp
    have mk: "(if k > m then k else m) = max k m" by auto
    have IH2: "cache_ok rd cache' \<and> (\<forall>g. r = Inr g \<longrightarrow>
        (\<exists>gs. list_all2 (is_gen rd) ps gs \<and> g = fold max gs (max k m)))"
      using "4.IH"(2) [OF g refl Inr m] IH1 mk by simp
    have "\<exists>gs. list_all2 (is_gen rd) (p # ps) gs \<and> x = fold max gs m" if "r = Inr x" for x
    proof -
      from IH2 that obtain gs where "list_all2 (is_gen rd) ps gs" "x = fold max gs (max k m)" by blast
      then show ?thesis using IH1 Inr by (intro exI [of _ "k # gs"]) simp
    qed
    with IH2 show ?thesis by blast
  qed
qed

text \<open>Fuel above the generation number is enough, whatever sound cache the call starts from.\<close>

lemma Generation_complete:
  "is_gen rd i g \<Longrightarrow> cache_ok rd cache \<Longrightarrow> g < n \<Longrightarrow>
     \<exists>cache'. Generation n rd i cache = Some (cache', Inr g)"
proof (induction arbitrary: cache n rule: is_gen.induct)
  case (root i c)
  then obtain n' where "n = Suc n'" by (cases n) auto
  with root show ?case
    by (cases "cache i") (auto simp: cache_ok_def dest: is_gen_unique [OF is_gen.root [OF root(1,2)]])
next
  case (child i c gs)
  then obtain n' where n: "n = Suc n'" by (cases n) auto
  with child.prems have bound: "\<forall>g \<in> set gs. g < n'"
    by (metis List.finite_set Max_ge Suc_less_eq le_less_trans)
  have mp: "\<exists>cache'. max_parent n' rd ps cache m = Some (cache', Inr (fold max hs m))"
    if "list_all2 (\<lambda>i g. is_gen rd i g \<and> (\<forall>cache n. cache_ok rd cache \<longrightarrow> g < n \<longrightarrow>
           (\<exists>cache'. Generation n rd i cache = Some (cache', Inr g)))) ps hs"
      "\<forall>g \<in> set hs. g < n'" "cache_ok rd cache" for ps hs cache m
    using that
  proof (induction ps hs arbitrary: cache m rule: list_all2_induct)
    case Nil
    then show ?case by simp
  next
    case (Cons p ps h hs)
    then have "h < n'" by simp
    with Cons obtain c2 where c2: "Generation n' rd p cache = Some (c2, Inr h)" by blast
    with Cons.prems have "cache_ok rd c2" using Generation_sound(1) by blast
    with Cons.IH [of c2 "max h m"] Cons.prems obtain c3 where
      "max_parent n' rd ps c2 (max h m) = Some (c3, Inr (fold max hs (max h m)))" by auto
    moreover have "(if h > m then h else m) = max h m" by auto
    ultimately show ?case using c2 by simp
  qed
  have ih: "list_all2 (\<lambda>i g. is_gen rd i g \<and> (\<forall>cache n. cache_ok rd cache \<longrightarrow> g < n \<longrightarrow>
           (\<exists>cache'. Generation n rd i cache = Some (cache', Inr g)))) (Parents c) gs"
    using child.IH by (rule list.rel_mono_strong) blast
  from mp [OF ih bound child.prems(1), of 0] obtain c2 where
    m: "max_parent n' rd (Parents c) cache 0 = Some (c2, Inr (fold max gs 0))" by blast
  have "gs \<noteq> []" using child.hyps(2) child.IH by auto
  then have f: "fold max gs 0 = Max (set gs)" by (rule fold_max_Max)
  show ?case
  proof (cases "cache i")
    case None
    with n m f child.hyps show ?thesis by simp
  next
    case (Some k)
    have "is_gen rd i (Suc (Max (set gs)))"
      using child.hyps ih by (intro is_gen.child) (auto elim: list.rel_mono_strong)
    with Some child.prems(1) have "k = Suc (Max (set gs))" by (auto simp: cache_ok_def dest: is_gen_unique)
    with n Some show ?thesis by simp
  qed
qed

section \<open>Walking to the end\<close>

lemma Next_Some:
  assumes "Next rd w = (w', Inr (Some (c, i)))"
  obtains q where "queue w = i # q" "readCommit rd i = Inr c"
    "enqueue (Parents c) q (visited w) = (queue w', visited w')"
  using assms by (auto simp: Next_def split: list.splits sum.splits prod.splits)

lemma Next_budget:
  "Next rd w = (w', Inr (Some (c, i))) \<Longrightarrow>
     card (UNIV - visited w') + length (queue w') < card (UNIV - visited w) + length (queue w)"
  by (erule Next_Some) (auto dest: enqueue_budget)

text \<open>The client loop \<^verbatim>\<open>for { c, id, err := w.Next(); ... }\<close>, used to state what the walker visits.\<close>

function walk :: "reader \<Rightarrow> Walker \<Rightarrow> verr + CommitID list" where
  "walk rd w =
     (case Next rd w of
        (w', r) \<Rightarrow> bind_res r (\<lambda>m. case m of
          None \<Rightarrow> Inr []
        | Some (c, i) \<Rightarrow> bind_res (walk rd w') (\<lambda>is. Inr (i # is))))"
  by pat_completeness auto
termination
  by (relation "measure (\<lambda>(rd, w). card (UNIV - visited w) + length (queue w))")
     (simp_all, metis Next_budget)

declare walk.simps [simp del]

lemma walk_Inr:
  "walk rd w = Inr is \<longleftrightarrow>
     (\<exists>w'. Next rd w = (w', Inr None) \<and> is = []) \<or>
     (\<exists>w' c i js. Next rd w = (w', Inr (Some (c, i))) \<and> walk rd w' = Inr js \<and> is = i # js)"
  by (subst walk.simps) (auto simp: res_simps split: prod.splits option.splits)

lemma Next_None: "Next rd w = (w', Inr None) \<longleftrightarrow> queue w = [] \<and> w' = w"
  by (auto simp: Next_def split: list.splits sum.splits prod.splits)

lemma walk_collect:
  "walk rd w = Inr is \<Longrightarrow> set (queue w) \<subseteq> visited w \<Longrightarrow> distinct (queue w) \<Longrightarrow>
     \<exists>V. collect_loop rd (queue w) (visited w) = Inr V \<and> visited w \<subseteq> V \<and>
         distinct is \<and> set is = set (queue w) \<union> (V - visited w)"
proof (induction "is" arbitrary: w)
  case Nil
  then show ?case by (auto simp: walk_Inr [of rd w] Next_None)
next
  case (Cons i js)
  from Cons.prems(1) obtain w' c where nx: "Next rd w = (w', Inr (Some (c, i)))" and js: "walk rd w' = Inr js"
    by (auto simp: walk_Inr [of rd w])
  from nx obtain q where q: "queue w = i # q" and r: "readCommit rd i = Inr c"
    and e: "enqueue (Parents c) q (visited w) = (queue w', visited w')" by (rule Next_Some)
  obtain new where new: "queue w' = q @ new" "distinct new" "set new = set (Parents c) - visited w"
      "visited w' = visited w \<union> set (Parents c)"
    using enqueue_spec [OF e] by blast
  have "set (queue w') \<subseteq> visited w'" "distinct (queue w')"
    using new q Cons.prems by auto
  from Cons.IH [OF js this] obtain V where V: "collect_loop rd (queue w') (visited w') = Inr V"
    "visited w' \<subseteq> V" "distinct js" "set js = set (queue w') \<union> (V - visited w')" by blast
  have "collect_loop rd (queue w) (visited w) = Inr V" using q r e V(1) by simp
  moreover have "i \<notin> set js" using V(4) new q Cons.prems by auto
  moreover have "set (i # js) = set (queue w) \<union> (V - visited w)" using V new q by auto
  ultimately show ?case using V new by auto
qed

lemma walk_total:
  "\<forall>x \<in> (parent_rel rd)\<^sup>* `` set (queue w). \<exists>cm. readCommit rd x = Inr cm \<Longrightarrow> \<exists>is. walk rd w = Inr is"
proof (induction rd w rule: walk.induct)
  case (1 rd w)
  show ?case
  proof (cases "queue w")
    case Nil
    then show ?thesis by (auto simp: walk_Inr [of rd w] Next_None)
  next
    case (Cons i q)
    with "1.prems" obtain c where r: "readCommit rd i = Inr c" by fastforce
    obtain q' v' where e: "enqueue (Parents c) q (visited w) = (q', v')" by fastforce
    let ?w = "\<lparr>queue = q', visited = v'\<rparr>"
    have nx: "Next rd w = (?w, Inr (Some (c, i)))" using Cons r e by (simp add: Next_def)
    have "set q' \<subseteq> set q \<union> set (Parents c)" using enqueue_spec [OF e] by auto
    with parents_reach [OF r] Cons have "set q' \<subseteq> (parent_rel rd)\<^sup>* `` set (queue w)" by fastforce
    then have "(parent_rel rd)\<^sup>* `` set q' \<subseteq> (parent_rel rd)\<^sup>* `` set (queue w)"
      by (auto intro: rtrancl_trans)
    with "1.prems" have "\<forall>x \<in> (parent_rel rd)\<^sup>* `` set (queue ?w). \<exists>cm. readCommit rd x = Inr cm"
      by (simp only: Walker.select_convs) blast
    from "1.IH" [OF nx [symmetric] refl refl refl this] nx show ?thesis by (auto simp: walk_Inr [of rd w])
  qed
qed

lemma ancestors_relpow: "x \<in> ancestors rd b \<longleftrightarrow> (\<exists>n. (b, x) \<in> parent_rel rd ^^ n)"
  by (auto simp: rtrancl_is_UN_relpow)

section \<open>Properties\<close>

text \<open>A small history: 1 is the root, 2 its child; 3 and 4 are children of 2; 5 merges 1 and 4.\<close>

definition mk_commit :: "CommitID list \<Rightarrow> verr + Object" where
  "mk_commit ps = Inr (CommitObj \<lparr>TreeHash = 0, Parents = ps, Author = [], Message = [], Timestamp = 0\<rparr>)"

definition sample_rd :: reader where
  "sample_rd i = (if i = 1 then mk_commit [] else if i = 2 then mk_commit [1] else if i = 3 then mk_commit [2]
     else if i = 4 then mk_commit [2] else if i = 5 then mk_commit [1, 4] else Inl ErrObjectNotFound)"

lemma sample_readCommit [simp]:
  "readCommit sample_rd 1 = Inr \<lparr>TreeHash = 0, Parents = [], Author = [], Message = [], Timestamp = 0\<rparr>"
  "readCommit sample_rd 2 = Inr \<lparr>TreeHash = 0, Parents = [1], Author = [], Message = [], Timestamp = 0\<rparr>"
  "readCommit sample_rd 3 = Inr \<lparr>TreeHash = 0, Parents = [2], Author = [], Message = [], Timestamp = 0\<rparr>"
  "readCommit sample_rd 4 = Inr \<lparr>TreeHash = 0, Parents = [2], Author = [], Message = [], Timestamp = 0\<rparr>"
  "readCommit sample_rd 5 = Inr \<lparr>TreeHash = 0, Parents = [1, 4], Author = [], Message = [], Timestamp = 0\<rparr>"
  by (simp_all add: readCommit_def sample_rd_def mk_commit_def)

lemma sample_gen: "is_gen sample_rd 1 0" "is_gen sample_rd 2 1"
proof -
  show g1: "is_gen sample_rd 1 0" by (rule is_gen.root [OF sample_readCommit(1)]) simp
  have "is_gen sample_rd 2 (Suc (Max (set [0])))"
    by (rule is_gen.child [OF sample_readCommit(2)]) (simp_all add: g1)
  then show "is_gen sample_rd 2 1" by simp
qed



text \<open>On readable histories \<^verbatim>\<open>MergeBase\<close> always answers: with a common ancestor when there is one,
  and with \<^verbatim>\<open>ErrRefNotFound\<close> exactly when there is none. It never fails otherwise and never loops.\<close>

theorem merge_base_complete:
  assumes "readable_from rd a" "readable_from rd b"
  shows "(if ancestors rd a \<inter> ancestors rd b = {} then MergeBase rd a b = Inl ErrRefNotFound
          else (\<exists>c \<in> ancestors rd a \<inter> ancestors rd b. MergeBase rd a b = Inr c))"
proof (cases "a = b")
  case True
  then show ?thesis by (auto simp: MergeBase_def)
next
  case False
  let ?A = "ancestors rd a"
  have m: "MergeBase rd a b = merge_base_loop rd ?A [b] {b}"
    using False collectAncestors_total [OF assms(1)] by (simp add: MergeBase_def)
  have "\<forall>x \<in> (parent_rel rd)\<^sup>* `` set [b]. \<exists>cm. readCommit rd x = Inr cm"
    using assms(2) by (simp add: readable_from_def)
  moreover have "expanded rd [b] {b}" "({b} - set [b]) \<inter> ?A = {}" by (auto simp: expanded_def)
  ultimately consider c where "merge_base_loop rd ?A [b] {b} = Inr c"
    | "merge_base_loop rd ?A [b] {b} = Inl ErrRefNotFound" "ancestors rd b \<inter> ?A = {}"
    using merge_base_loop_total [of rd "[b]" "{b}" ?A] by blast
  then show ?thesis
  proof cases
    case 1
    from merge_base_loop_nearest [OF 1 levels_init]
    have "c \<in> ?A" "c \<in> ancestors rd b" unfolding ancestors_relpow by auto
    with 1 m show ?thesis by auto
  next
    case 2
    with m show ?thesis by auto
  qed
qed

lemma sample_readable: "i \<in> {1, 2, 3, 4, 5} \<Longrightarrow> readable_from sample_rd i"
proof -
  assume i: "i \<in> {1, 2, 3, 4, 5}"
  have "parent_rel sample_rd `` {1, 2, 3, 4, 5} \<subseteq> {1, 2, 3, 4, 5}"
    by (auto simp: parent_rel_def)
  from rtrancl_closed [OF this i] have "ancestors sample_rd i \<subseteq> {1, 2, 3, 4, 5}" by auto
  then show ?thesis by (auto simp: readable_from_def)
qed

theorem merge_base_complete_witness: "\<exists>c. MergeBase sample_rd 3 4 = Inr c \<or> MergeBase sample_rd 3 4 = Inl ErrRefNotFound"
  using merge_base_complete [of sample_rd 3 4] sample_readable [of 3] sample_readable [of 4]
  by (auto split: if_splits)

text \<open>\<^verbatim>\<open>MergeBase\<close> is not the best common ancestor its comment describes (the one with the highest
  generation number): in the sample history it answers the root 1 for commits 3 and 5, although their
  common ancestor 2 is a descendant of 1 and has a higher generation number.\<close>

theorem merge_base_not_highest_generation:
  "MergeBase sample_rd 3 5 = Inr 1 \<and> 2 \<in> ancestors sample_rd 3 \<inter> ancestors sample_rd 5
   \<and> (2, 1) \<in> parent_rel sample_rd \<and> is_gen sample_rd 1 0 \<and> is_gen sample_rd 2 1"
proof -
  have steps: "(3, 2) \<in> parent_rel sample_rd" "(5, 4) \<in> parent_rel sample_rd" "(4, 2) \<in> parent_rel sample_rd"
    "(2, 1) \<in> parent_rel sample_rd"
    by (simp_all add: parent_rel_def)
  with sample_gen show ?thesis
    by (auto simp: MergeBase_def collectAncestors_def intro: rtrancl_trans)
qed

text \<open>Ancestor collection on a readable history returns exactly the commits reachable through
  parents, the start included.\<close>

theorem collect_ancestors_exact:
  assumes "readable_from rd c"
  shows "collectAncestors rd c {} = Inr (ancestors rd c)"
  using assms by (rule collectAncestors_total)

theorem collect_ancestors_exact_witness: "collectAncestors sample_rd 5 {} = Inr (ancestors sample_rd 5)"
  by (rule collect_ancestors_exact) (simp add: sample_readable)

text \<open>\<^verbatim>\<open>Generation\<close> computes the number RFC-0007 defines, from any sound cache, and keeps the cache
  sound: it answers a value exactly when the history below the commit has one and enough recursion
  depth is available, and that value is the specified one.\<close>

theorem generation_correct:
  assumes "cache_ok rd cache"
  shows "(is_gen rd i g \<longrightarrow> (\<forall>n > g. \<exists>cache'. Generation n rd i cache = Some (cache', Inr g) \<and> cache_ok rd cache'))
     \<and> (\<forall>n cache' g'. Generation n rd i cache = Some (cache', Inr g') \<longrightarrow> is_gen rd i g' \<and> cache_ok rd cache')"
  using assms Generation_complete Generation_sound(1) by blast

theorem generation_correct_witness: "\<exists>cache'. Generation 2 sample_rd 2 Map.empty = Some (cache', Inr 1)"
proof -
  have "cache_ok sample_rd Map.empty" by (simp add: cache_ok_def)
  from generation_correct [OF this, of 2 1] sample_gen(2)
  have "\<forall>n > 1. \<exists>cache'. Generation n sample_rd 2 Map.empty = Some (cache', Inr 1)" by blast
  then show ?thesis by (meson one_less_numeral_iff semiring_norm(76))
qed

text \<open>Generation numbers strictly decrease from a commit to any of its parents, which is what lets
  them order a history topologically.\<close>

theorem generation_decreases:
  assumes "Generation n rd i Map.empty = Some (c1, Inr g)" "Generation m rd p Map.empty = Some (c2, Inr g')"
    and "(i, p) \<in> parent_rel rd"
  shows "g' < g"
proof -
  have "cache_ok rd Map.empty" by (simp add: cache_ok_def)
  with assms(1,2) have "is_gen rd i g" "is_gen rd p g'" using Generation_sound(1) by blast+
  with assms(3) show ?thesis by (metis is_gen_parent_less)
qed

theorem generation_decreases_witness: "(0 :: nat) < 1 \<and> Generation 3 sample_rd 2 Map.empty = Some ([1 \<mapsto> 0, 2 \<mapsto> 1], Inr 1)"
proof -
  have a: "Generation 3 sample_rd 2 Map.empty = Some ([1 \<mapsto> 0, 2 \<mapsto> 1], Inr 1)"
    by (simp add: numeral_eq_Suc)
  have b: "Generation 3 sample_rd 1 Map.empty = Some ([1 \<mapsto> 0], Inr 0)"
    by (simp add: numeral_eq_Suc)
  have "(2, 1) \<in> parent_rel sample_rd" by (simp add: parent_rel_def)
  from generation_decreases [OF a b this] a show ?thesis by simp
qed

text \<open>Driving the walker to the end over a readable history visits every commit reachable from the
  tips exactly once.\<close>

theorem walker_visits_once:
  assumes "\<forall>t \<in> set tips. readable_from rd t"
  shows "\<exists>is. walk rd (NewWalker tips) = Inr is \<and> distinct is \<and> set is = (\<Union>t \<in> set tips. ancestors rd t)"
proof -
  obtain q v where e: "enqueue tips [] {} = (q, v)" by fastforce
  then have qv: "distinct q" "set q = set tips" "v = set tips" using enqueue_spec [OF e] by auto
  let ?w = "NewWalker tips"
  have w: "queue ?w = q" "visited ?w = v" using e by (simp_all add: NewWalker_def)
  have "\<exists>cm. readCommit rd x = Inr cm" if "x \<in> (parent_rel rd)\<^sup>* `` set q" for x
    using that assms qv by (auto simp: readable_from_def)
  then obtain "is" where "is": "walk rd ?w = Inr is" using walk_total [of rd ?w] w by blast
  from walk_collect [OF "is"] w qv obtain V where V: "collect_loop rd q v = Inr V" "v \<subseteq> V" "distinct is"
    "set is = set q \<union> (V - v)" by auto
  have "expanded rd q v" using qv by (auto simp: expanded_def)
  from collect_loop_sound [OF V(1) this] have c: "V \<subseteq> (parent_rel rd)\<^sup>* `` v" "parent_rel rd `` V \<subseteq> V" by auto
  have "(parent_rel rd)\<^sup>* `` v \<subseteq> V" using rtrancl_closed [OF c(2)] V(2) by blast
  with c(1) have "V = (\<Union>t \<in> set tips. ancestors rd t)" using qv by auto
  with V qv "is" show ?thesis by auto
qed

theorem walker_visits_once_witness:
  "\<exists>is. walk sample_rd (NewWalker [3, 5]) = Inr is \<and> distinct is"
  using walker_visits_once [of "[3, 5]" sample_rd] sample_readable [of 3] sample_readable [of 5] by auto

end
