(* ===== verification/Go_Sort.thy ===== *)
theory Go_Sort
  imports Object_Format
begin

text \<open>
  Go compares strings bytewise and the repository sorts with \<^verbatim>\<open>sort.Slice\<close> on such keys. \<open>lex_less\<close> is
  that comparison and \<open>sort_by\<close> the sort (both in \<^verbatim>\<open>Object_Format\<close>). \<^verbatim>\<open>sort.Slice\<close> is not stable, so
  only what holds of every sorting algorithm is used: with injective keys the result is the one strictly
  increasing list of the elements, whatever order they came in.
\<close>

lemma lex_less_irrefl [simp]: "\<not> lex_less s s"
  by (induction s) auto

lemma lex_less_trans: "lex_less r s \<Longrightarrow> lex_less s t \<Longrightarrow> lex_less r t"
proof (induction r t arbitrary: s rule: lex_less.induct)
  case (1 r)
  then show ?case by (cases s) auto
next
  case (2 b bs)
  then show ?case by simp
next
  case (3 a as b bs)
  then show ?case by (cases s) (auto split: if_splits)
qed

lemma lex_less_total: "lex_less s t \<or> s = t \<or> lex_less t s"
proof (induction s t rule: lex_less.induct)
  case (1 s)
  then show ?case by (cases s) auto
next
  case (3 a as b bs)
  then show ?case by auto
qed auto

lemma set_insert_by [simp]: "set (insert_by k x xs) = insert x (set xs)"
  by (induction xs) auto

lemma set_sort_by [simp]: "set (sort_by k xs) = set xs"
  by (induction xs) (auto simp: sort_by_def)

lemma length_insert_by [simp]: "length (insert_by k x xs) = Suc (length xs)"
  by (induction xs) auto

lemma length_sort_by [simp]: "length (sort_by k xs) = length xs"
  by (induction xs) (auto simp: sort_by_def)

lemma distinct_sort_by [simp]: "distinct (sort_by k xs) = distinct xs"
  by (metis card_distinct distinct_card length_sort_by set_sort_by)

abbreviation strictly_by :: "('a \<Rightarrow> string) \<Rightarrow> 'a list \<Rightarrow> bool" where
  "strictly_by k \<equiv> sorted_wrt (\<lambda>x y. lex_less (k x) (k y))"

lemma insert_by_strict:
  "strictly_by k xs \<Longrightarrow> k x \<notin> k ` set xs \<Longrightarrow> strictly_by k (insert_by k x xs)"
proof (induction xs)
  case Nil
  then show ?case by simp
next
  case (Cons y ys)
  show ?case
  proof (cases "lex_less (k y) (k x)")
    case True
    with Cons show ?thesis by auto
  next
    case False
    with Cons.prems have "lex_less (k x) (k y)" using lex_less_total [of "k x" "k y"] by auto
    with Cons.prems False show ?thesis by (auto intro: lex_less_trans)
  qed
qed

lemma sort_by_strict: "distinct (map k xs) \<Longrightarrow> strictly_by k (sort_by k xs)"
proof (induction xs)
  case Nil
  then show ?case by (simp add: sort_by_def)
next
  case (Cons x xs)
  then have "strictly_by k (sort_by k xs)" "k x \<notin> k ` set (sort_by k xs)" by auto
  then show ?case using insert_by_strict by (simp add: sort_by_def)
qed

lemma strictly_by_unique:
  "strictly_by k xs \<Longrightarrow> strictly_by k ys \<Longrightarrow> set xs = set ys \<Longrightarrow> xs = ys"
proof (induction xs arbitrary: ys)
  case Nil
  then show ?case by simp
next
  case (Cons x xs)
  then obtain y zs where ys: "ys = y # zs" by (cases ys) auto
  have asym: "lex_less (k a) (k b) \<Longrightarrow> \<not> lex_less (k b) (k a)" for a b
    using lex_less_trans lex_less_irrefl by blast
  have "x = y"
    using Cons.prems asym unfolding ys by (metis insertE insertI1 list.simps(15) sorted_wrt.simps(2))
  moreover have "x \<notin> set xs" "y \<notin> set zs" using Cons.prems(1,2) unfolding ys by auto
  ultimately have "set xs = set zs" using Cons.prems(3) unfolding ys by auto
  with Cons.IH Cons.prems(1,2) \<open>x = y\<close> show ?case unfolding ys by simp
qed

lemma sort_by_perm:
  "inj_on k (set xs) \<Longrightarrow> distinct xs \<Longrightarrow> distinct ys \<Longrightarrow> set xs = set ys \<Longrightarrow> sort_by k xs = sort_by k ys"
  by (rule strictly_by_unique [of k]) (simp_all add: sort_by_strict distinct_map)

lemma BaseID_String_inj: "inj BaseID_String"
  using hex_ids.enc_inj by (auto simp: inj_on_def)

end
