(* ===== verification/Enumerate_Objects.thy ===== *)
theory Enumerate_Objects
  imports Commit_Graph Go_Sort
begin

text \<open>
  \<^verbatim>\<open>pkg/transfer/enumerate.go\<close>: the objects one repository must send to another. The walks take the
  store through its \<^verbatim>\<open>Read\<close> (the argument \<open>rd\<close>) and return, beside the error, the set they had
  collected when they stopped: the caller of a failed walk keeps it. Go iterates a map in an
  unspecified order; \<^verbatim>\<open>Enumerate\<close> takes that order as the argument \<open>ord\<close>.
\<close>

section \<open>Commits\<close>

function walk_loop :: "reader \<Rightarrow> CommitID set \<Rightarrow> CommitID list \<Rightarrow> CommitID set \<Rightarrow> CommitID set \<times> verr option" where
  "walk_loop rd stop [] seen = (seen, None)"
| "walk_loop rd stop (cur # q) seen =
     (case readCommit rd cur of
        Inl e \<Rightarrow> (seen, Some e)
      | Inr c \<Rightarrow> (case enqueue (filter (\<lambda>p. p \<notin> stop) (Parents c)) q seen of
                    (q', seen') \<Rightarrow> walk_loop rd stop q' seen'))"
  by pat_completeness auto
termination
  by (relation "measure (\<lambda>(rd, stop, q, seen). card (UNIV - seen) + length q)")
     (auto split: prod.splits dest: enqueue_budget)

definition walkCommits :: "reader \<Rightarrow> CommitID \<Rightarrow> CommitID set \<Rightarrow> CommitID set \<Rightarrow> CommitID set \<times> verr option" where
  "walkCommits rd start seen stop =
     (if start \<in> stop then (seen, None)
      else if start \<in> seen then (seen, None)
      else walk_loop rd stop [start] (insert start seen))"

section \<open>Trees\<close>

definition modeSubtree :: u32 where
  "modeSubtree = 16384"

definition readTree :: "reader \<Rightarrow> ObjectID \<Rightarrow> verr + TreeEntry list" where
  "readTree rd i =
     bind_res (rd i) (\<lambda>obj. case obj of Tree es \<Rightarrow> Inr es | _ \<Rightarrow> Inl (ErrMsg ''is not a tree''))"

text \<open>The entry loop of \<^verbatim>\<open>addTreeClosureExcluding\<close>. The recursive call on a subtree puts the entries of
  that subtree in front of the remaining ones, and an error ends the whole descent;
  \<open>add_entries_Cons\<close> below is the loop with the call written as in the source.\<close>

function add_entries :: "reader \<Rightarrow> ObjectID set \<Rightarrow> TreeEntry list \<Rightarrow> ObjectID set \<Rightarrow> ObjectID set \<times> verr option" where
  "add_entries rd exclude [] objs = (objs, None)"
| "add_entries rd exclude (e # es) objs =
     (if te_Mode e = modeSubtree then
        (if te_Hash e \<in> exclude \<or> te_Hash e \<in> objs then add_entries rd exclude es objs
         else case readTree rd (te_Hash e) of
                Inl err \<Rightarrow> (insert (te_Hash e) objs, Some err)
              | Inr inner \<Rightarrow> add_entries rd exclude (inner @ es) (insert (te_Hash e) objs))
      else add_entries rd exclude es (if te_Hash e \<in> exclude then objs else insert (te_Hash e) objs))"
  by pat_completeness auto
termination
proof (relation "measures [\<lambda>(rd, ex, es, objs). card (UNIV - objs), \<lambda>(rd, ex, es, objs). length es]", goal_cases)
  case (3 rd ex e es objs inner)
  then have "card (UNIV - insert (te_Hash e) objs) < card (UNIV - objs)"
    by (intro psubset_card_mono) auto
  then show ?case by simp
next
  case (4 rd ex e es objs)
  have "card (UNIV - insert (te_Hash e) objs) \<le> card (UNIV - objs)" by (intro card_mono) auto
  then show ?case by (auto simp: le_less)
qed auto

definition addTreeClosureExcluding ::
    "reader \<Rightarrow> ObjectID \<Rightarrow> ObjectID set \<Rightarrow> ObjectID set \<Rightarrow> ObjectID set \<times> verr option" where
  "addTreeClosureExcluding rd treeID objs exclude =
     (if treeID \<in> exclude \<or> treeID \<in> objs then (objs, None)
      else case readTree rd treeID of
             Inl err \<Rightarrow> (insert treeID objs, Some err)
           | Inr es \<Rightarrow> add_entries rd exclude es (insert treeID objs))"

definition addTreeClosure :: "reader \<Rightarrow> ObjectID \<Rightarrow> ObjectID set \<Rightarrow> ObjectID set \<times> verr option" where
  "addTreeClosure rd treeID objs = addTreeClosureExcluding rd treeID objs {}"

section \<open>Enumeration\<close>

text \<open>Step 1: a have that cannot be walked is skipped, but what its walk had marked stays marked.\<close>

fun have_step :: "reader \<Rightarrow> CommitID \<Rightarrow> CommitID set \<times> ObjectID set \<Rightarrow> CommitID set \<times> ObjectID set" where
  "have_step rd h (boundary, haveObjs) =
     (case walkCommits rd h boundary {} of
        (boundary', Some _) \<Rightarrow> (boundary', haveObjs)
      | (boundary', None) \<Rightarrow>
          (case readCommit rd h of
             Inl _ \<Rightarrow> (boundary', haveObjs)
           | Inr c \<Rightarrow> (boundary', fst (addTreeClosure rd (TreeHash c) haveObjs))))"

fun want_loop :: "reader \<Rightarrow> CommitID set \<Rightarrow> CommitID list \<Rightarrow> CommitID set \<Rightarrow> verr + CommitID set" where
  "want_loop rd boundary [] send = Inr send"
| "want_loop rd boundary (w # ws) send =
     (if w \<in> boundary then want_loop rd boundary ws send
      else case walkCommits rd w send boundary of
             (_, Some e) \<Rightarrow> Inl e
           | (send', None) \<Rightarrow> want_loop rd boundary ws send')"

fun send_loop :: "reader \<Rightarrow> ObjectID set \<Rightarrow> CommitID list \<Rightarrow> ObjectID set \<Rightarrow> verr + ObjectID set" where
  "send_loop rd haveObjs [] objs = Inr objs"
| "send_loop rd haveObjs (c # cs) objs =
     bind_res (readCommit rd c) (\<lambda>commit.
       case addTreeClosureExcluding rd (TreeHash commit) (insert c objs) haveObjs of
         (_, Some e) \<Rightarrow> Inl e
       | (objs', None) \<Rightarrow> send_loop rd haveObjs cs objs')"

definition Enumerate ::
    "(ObjectID set \<Rightarrow> ObjectID list) \<Rightarrow> reader \<Rightarrow> CommitID list \<Rightarrow> CommitID list \<Rightarrow> verr + ObjectID list" where
  "Enumerate ord rd wants haves =
     (case fold (have_step rd) haves ({}, {}) of (boundary, haveObjs) \<Rightarrow>
        bind_res (want_loop rd boundary wants {}) (\<lambda>send.
        bind_res (send_loop rd haveObjs (ord send) {}) (\<lambda>objs.
        Inr (sort_by BaseID_String (ord objs)))))"

text \<open>The iteration order of a Go map visits every key once.\<close>

definition map_order :: "(ObjectID set \<Rightarrow> ObjectID list) \<Rightarrow> bool" where
  "map_order ord \<longleftrightarrow> (\<forall>S. set (ord S) = S \<and> distinct (ord S))"

section \<open>Reachability\<close>

definition obj_rel :: "reader \<Rightarrow> (ObjectID \<times> ObjectID) set" where
  "obj_rel rd = {(x, y). (\<exists>c. readCommit rd x = Inr c \<and> (y = TreeHash c \<or> y \<in> set (Parents c)))
                       \<or> (\<exists>es. readTree rd x = Inr es \<and> y \<in> te_Hash ` set es)}"

abbreviation reaches :: "reader \<Rightarrow> ObjectID set \<Rightarrow> ObjectID set" where
  "reaches rd X \<equiv> (obj_rel rd)\<^sup>* `` X"

text \<open>What the enumeration relies on: an entry without the directory mode names a blob (or nothing
  readable), never a tree or a commit.\<close>

definition leaf_ok :: "reader \<Rightarrow> bool" where
  "leaf_ok rd \<longleftrightarrow> (\<forall>x es e obj. readTree rd x = Inr es \<and> e \<in> set es \<and> te_Mode e \<noteq> modeSubtree
      \<and> rd (te_Hash e) = Inr obj \<longrightarrow> (\<exists>d. obj = Blob d))"

lemma readTree_iff: "readTree rd i = Inr es \<longleftrightarrow> rd i = Inr (Tree es)"
  by (cases "rd i"; cases "projr (rd i)") (auto simp: readTree_def)

lemma readCommit_iff: "readCommit rd i = Inr c \<longleftrightarrow> rd i = Inr (CommitObj c)"
  by (cases "rd i"; cases "projr (rd i)") (auto simp: readCommit_def)

lemma obj_rel_tree: "rd x = Inr (Tree es) \<Longrightarrow> obj_rel rd `` {x} = te_Hash ` set es"
  by (auto simp: obj_rel_def readCommit_iff readTree_iff)

lemma obj_rel_commit:
  "readCommit rd x = Inr c \<Longrightarrow> obj_rel rd `` {x} = insert (TreeHash c) (set (Parents c))"
  by (auto simp: obj_rel_def readCommit_iff readTree_iff)

lemma parent_in_obj_rel: "parent_rel rd \<subseteq> obj_rel rd"
  by (auto simp: parent_rel_def obj_rel_def)

lemma reaches_step: "x \<in> reaches rd X \<Longrightarrow> (x, y) \<in> obj_rel rd \<Longrightarrow> y \<in> reaches rd X"
  by (auto intro: rtrancl_into_rtrancl)

lemma reaches_subset: "Y \<subseteq> reaches rd X \<Longrightarrow> reaches rd Y \<subseteq> reaches rd X"
  by (auto intro: rtrancl_trans)

lemma ancestors_reach: "(parent_rel rd)\<^sup>* `` X \<subseteq> reaches rd X"
  using rtrancl_mono [OF parent_in_obj_rel] by blast

text \<open>One step of a walk followed by the rest of it.\<close>

lemma grow_step:
  "v1 \<subseteq> v2 \<Longrightarrow> v2 \<subseteq> v1 \<union> A \<Longrightarrow> v0 \<subseteq> v1 \<Longrightarrow> v1 \<subseteq> v0 \<union> B \<Longrightarrow> A \<subseteq> B \<Longrightarrow> v0 \<subseteq> v2 \<and> v2 \<subseteq> v0 \<union> B"
  by blast

lemma closure_mono: "X \<subseteq> Y \<Longrightarrow> R\<^sup>* `` X \<subseteq> R\<^sup>* `` Y"
  by (rule Image_mono) auto

lemma closure_trans: "X \<subseteq> R\<^sup>* `` Y \<Longrightarrow> R\<^sup>* `` X \<subseteq> R\<^sup>* `` Y"
  by (auto intro: rtrancl_trans)

section \<open>The commit walk\<close>

definition expanded_to :: "reader \<Rightarrow> CommitID set \<Rightarrow> CommitID list \<Rightarrow> CommitID set \<Rightarrow> bool" where
  "expanded_to rd stop q v \<longleftrightarrow> set q \<subseteq> v \<and> (\<forall>x \<in> v - set q. parent_rel rd `` {x} \<subseteq> v \<union> stop)"

lemma walk_loop_ConsE:
  assumes "walk_loop rd stop (c # q) v = (v', None)"
  obtains cm q2 where "readCommit rd c = Inr cm"
    "enqueue (filter (\<lambda>p. p \<notin> stop) (Parents cm)) q v = (q2, v \<union> (set (Parents cm) - stop))"
    "walk_loop rd stop q2 (v \<union> (set (Parents cm) - stop)) = (v', None)"
    "set q2 = set q \<union> (set (Parents cm) - stop - v)"
proof -
  from assms obtain cm where r: "readCommit rd c = Inr cm" by (auto split: sum.splits)
  obtain q2 v2 where e: "enqueue (filter (\<lambda>p. p \<notin> stop) (Parents cm)) q v = (q2, v2)" by fastforce
  obtain new where "q2 = q @ new" "set new = set (filter (\<lambda>p. p \<notin> stop) (Parents cm)) - v"
    "v2 = v \<union> set (filter (\<lambda>p. p \<notin> stop) (Parents cm))"
    using enqueue_spec [OF e] by blast
  then have v2: "v2 = v \<union> (set (Parents cm) - stop)" "set q2 = set q \<union> (set (Parents cm) - stop - v)"
    by auto
  from assms r e have "walk_loop rd stop q2 v2 = (v', None)" by simp
  with r e v2 show ?thesis by (intro that [of cm q2]) auto
qed

lemma walk_loop_bounds:
  "walk_loop rd stop q v = (v', r) \<Longrightarrow> set q \<subseteq> v \<Longrightarrow>
     v \<subseteq> v' \<and> v' \<subseteq> v \<union> (parent_rel rd)\<^sup>* `` set q \<and> (v' - v) \<inter> stop = {}"
proof (induction rd stop q v rule: walk_loop.induct)
  case (1 rd stop seen)
  then show ?case by auto
next
  case (2 rd stop c q v)
  show ?case
  proof (cases "readCommit rd c")
    case (Inl e)
    with "2.prems" show ?thesis by auto
  next
    case (Inr cm)
    obtain q2 v2 where e: "enqueue (filter (\<lambda>p. p \<notin> stop) (Parents cm)) q v = (q2, v2)" by fastforce
    obtain new where new: "q2 = q @ new" "set new = set (filter (\<lambda>p. p \<notin> stop) (Parents cm)) - v"
      "v2 = v \<union> set (filter (\<lambda>p. p \<notin> stop) (Parents cm))"
      using enqueue_spec [OF e] by blast
    have q2: "set q2 \<subseteq> v2" using new "2.prems" by auto
    have w: "walk_loop rd stop q2 v2 = (v', r)" using "2.prems" Inr e by simp
    have IH: "v2 \<subseteq> v'" "v' \<subseteq> v2 \<union> (parent_rel rd)\<^sup>* `` set q2" "(v' - v2) \<inter> stop = {}"
      using "2.IH" [OF Inr e [symmetric] w q2] by auto
    have "set (Parents cm) \<subseteq> (parent_rel rd)\<^sup>* `` {c}" by (rule parents_reach [OF Inr])
    then have "set q2 \<subseteq> (parent_rel rd)\<^sup>* `` set (c # q)" "v2 \<subseteq> v \<union> (parent_rel rd)\<^sup>* `` set (c # q)"
      using new by fastforce+
    moreover from this(1) have "(parent_rel rd)\<^sup>* `` set q2 \<subseteq> (parent_rel rd)\<^sup>* `` set (c # q)"
      using rtrancl_trans [of _ _ "parent_rel rd"] by blast
    ultimately have "v2 \<union> (parent_rel rd)\<^sup>* `` set q2 \<subseteq> v \<union> (parent_rel rd)\<^sup>* `` set (c # q)"
      by (metis Un_least le_supI2)
    with IH(2) have "v' \<subseteq> v \<union> (parent_rel rd)\<^sup>* `` set (c # q)" by (rule order_trans)
    moreover have "(v2 - v) \<inter> stop = {}" using new by auto
    with IH(3) have "(v' - v) \<inter> stop = {}" by blast
    moreover have "v \<subseteq> v'" using IH(1) new(3) by blast
    ultimately show ?thesis by (intro conjI)
  qed
qed

lemma walk_loop_expanded:
  "walk_loop rd stop q v = (v', None) \<Longrightarrow> expanded_to rd stop q v \<Longrightarrow> expanded_to rd stop [] v'"
proof (induction rd stop q v rule: walk_loop.induct)
  case (1 rd stop seen)
  then show ?case by simp
next
  case (2 rd stop c q v)
  obtain cm q2 where r: "readCommit rd c = Inr cm"
    and e: "enqueue (filter (\<lambda>p. p \<notin> stop) (Parents cm)) q v = (q2, v \<union> (set (Parents cm) - stop))"
    and w: "walk_loop rd stop q2 (v \<union> (set (Parents cm) - stop)) = (v', None)"
    and q2: "set q2 = set q \<union> (set (Parents cm) - stop - v)"
    using "2.prems"(1) by (rule walk_loop_ConsE)
  have "expanded_to rd stop q2 (v \<union> (set (Parents cm) - stop))"
    unfolding expanded_to_def
  proof (intro conjI ballI)
    show "set q2 \<subseteq> v \<union> (set (Parents cm) - stop)"
      using q2 "2.prems"(2) by (auto simp: expanded_to_def)
    fix x
    assume x: "x \<in> v \<union> (set (Parents cm) - stop) - set q2"
    show "parent_rel rd `` {x} \<subseteq> v \<union> (set (Parents cm) - stop) \<union> stop"
    proof (cases "x = c")
      case True
      with parent_rel_image [OF r] show ?thesis by blast
    next
      case False
      with x q2 have "x \<in> v - set (c # q)" by auto
      with "2.prems"(2) show ?thesis unfolding expanded_to_def by blast
    qed
  qed
  from "2.IH" [OF r e [symmetric] w this] show ?case .
qed

lemma walkCommits_bounds:
  assumes "walkCommits rd c v stop = (v', r)"
  shows "v \<subseteq> v' \<and> v' \<subseteq> v \<union> ancestors rd c \<and> (v' - v) \<inter> stop = {}"
proof (cases "c \<in> stop \<or> c \<in> v")
  case True
  with assms show ?thesis by (auto simp: walkCommits_def split: if_splits)
next
  case False
  with assms have "walk_loop rd stop [c] (insert c v) = (v', r)" by (simp add: walkCommits_def)
  from walk_loop_bounds [OF this] False show ?thesis by auto
qed

lemma walkCommits_expanded:
  assumes "walkCommits rd c v stop = (v', None)" "expanded_to rd stop [] v"
  shows "expanded_to rd stop [] v' \<and> c \<in> v' \<union> stop"
proof (cases "c \<in> stop \<or> c \<in> v")
  case True
  with assms show ?thesis by (auto simp: walkCommits_def split: if_splits)
next
  case False
  with assms have w: "walk_loop rd stop [c] (insert c v) = (v', None)" by (simp add: walkCommits_def)
  moreover have "expanded_to rd stop [c] (insert c v)"
    using assms(2) by (auto simp: expanded_to_def)
  ultimately have "expanded_to rd stop [] v'" by (rule walk_loop_expanded)
  moreover have "c \<in> v'" using walk_loop_bounds [OF w] by auto
  ultimately show ?thesis by blast
qed

lemma want_loop_spec:
  "want_loop rd b ws v = Inr v' \<Longrightarrow> expanded_to rd b [] v \<Longrightarrow> v \<inter> b = {} \<Longrightarrow>
     expanded_to rd b [] v' \<and> v \<subseteq> v' \<and> set ws \<subseteq> v' \<union> b \<and> v' \<inter> b = {}
     \<and> v' \<subseteq> v \<union> (parent_rel rd)\<^sup>* `` set ws"
proof (induction ws arbitrary: v)
  case Nil
  then show ?case by auto
next
  case (Cons w ws)
  show ?case
  proof (cases "w \<in> b")
    case True
    with Cons show ?thesis by force
  next
    case False
    with Cons.prems(1) obtain v2 where w: "walkCommits rd w v b = (v2, None)" "want_loop rd b ws v2 = Inr v'"
      by (auto split: prod.splits option.splits)
    have e: "expanded_to rd b [] v2" "w \<in> v2 \<union> b"
      using walkCommits_expanded [OF w(1) Cons.prems(2)] by auto
    have s: "v \<subseteq> v2" "v2 \<subseteq> v \<union> ancestors rd w" "(v2 - v) \<inter> b = {}"
      using walkCommits_bounds [OF w(1)] by auto
    then have "v2 \<inter> b = {}" using Cons.prems(3) by blast
    have IH: "expanded_to rd b [] v'" "v2 \<subseteq> v'" "set ws \<subseteq> v' \<union> b" "v' \<inter> b = {}"
        "v' \<subseteq> v2 \<union> (parent_rel rd)\<^sup>* `` set ws"
      using Cons.IH [OF w(2) e(1) \<open>v2 \<inter> b = {}\<close>] by auto
    have "v' \<subseteq> v \<union> (parent_rel rd)\<^sup>* `` set (w # ws)" using IH(5) s(2) by fastforce
    with IH e s show ?thesis by auto
  qed
qed

section \<open>The tree walk\<close>

text \<open>Splitting the work list gives back the loop of the source, with its recursive call.\<close>

lemma add_entries_append:
  "add_entries rd ex (xs @ ys) objs =
     (case add_entries rd ex xs objs of (objs', Some e) \<Rightarrow> (objs', Some e) | (objs', None) \<Rightarrow> add_entries rd ex ys objs')"
  by (induction rd ex xs objs rule: add_entries.induct) (auto split: sum.splits)

lemma add_entries_Cons:
  "add_entries rd ex (e # es) objs =
     (if te_Mode e = modeSubtree then
        (case addTreeClosureExcluding rd (te_Hash e) objs ex of
           (objs', Some err) \<Rightarrow> (objs', Some err)
         | (objs', None) \<Rightarrow> add_entries rd ex es objs')
      else add_entries rd ex es (if te_Hash e \<in> ex then objs else insert (te_Hash e) objs))"
  by (auto simp: addTreeClosureExcluding_def add_entries_append split: sum.splits)

definition tree_link :: "reader \<Rightarrow> ObjectID set \<Rightarrow> (ObjectID \<times> ObjectID) set" where
  "tree_link rd ex = {(x, y). y \<notin> ex \<and> (\<exists>es. rd x = Inr (Tree es) \<and> y \<in> te_Hash ` set es)}"

lemma tree_link_in_obj_rel: "tree_link rd ex \<subseteq> obj_rel rd"
  by (auto simp: tree_link_def obj_rel_def readTree_iff)

lemma add_entries_bounds:
  "add_entries rd ex es objs = (objs', r) \<Longrightarrow>
     objs \<subseteq> objs' \<and> objs' \<subseteq> objs \<union> (tree_link rd ex)\<^sup>* `` (te_Hash ` set es - ex)"
proof (induction rd ex es objs rule: add_entries.induct)
  case (1 rd ex objs)
  then show ?case by simp
next
  case (2 rd ex e es objs)
  let ?R = "\<lambda>es. (tree_link rd ex)\<^sup>* `` (te_Hash ` set es - ex)"
  have rest: "?R es \<subseteq> ?R (e # es)" by auto
  have hd: "te_Hash e \<notin> ex \<Longrightarrow> te_Hash e \<in> ?R (e # es)" by auto
  show ?case
  proof (cases "te_Mode e = modeSubtree")
    case False
    let ?o = "if te_Hash e \<in> ex then objs else insert (te_Hash e) objs"
    have "add_entries rd ex es ?o = (objs', r)" using "2.prems" False by simp
    from "2.IH"(3) [OF False this] have IH: "?o \<subseteq> objs'" "objs' \<subseteq> ?o \<union> ?R es" by auto
    have "?o \<subseteq> objs \<union> ?R (e # es)" "objs \<subseteq> ?o" using hd by auto
    from grow_step [OF IH this(2,1) rest] show ?thesis .
  next
    case True
    show ?thesis
    proof (cases "te_Hash e \<in> ex \<or> te_Hash e \<in> objs")
      case skip: True
      have "add_entries rd ex es objs = (objs', r)" using "2.prems" True skip by auto
      from "2.IH"(1) [OF True skip this] rest show ?thesis by blast
    next
      case new: False
      show ?thesis
      proof (cases "readTree rd (te_Hash e)")
        case (Inl err)
        with "2.prems" True new hd show ?thesis by auto
      next
        case (Inr inner)
        have a: "add_entries rd ex (inner @ es) (insert (te_Hash e) objs) = (objs', r)"
          using "2.prems" True new Inr by simp
        have IH: "insert (te_Hash e) objs \<subseteq> objs'" "objs' \<subseteq> insert (te_Hash e) objs \<union> ?R (inner @ es)"
          using "2.IH"(2) [OF True new Inr a] by auto
        have "te_Hash ` set inner - ex \<subseteq> tree_link rd ex `` {te_Hash e}"
          using Inr by (auto simp: tree_link_def readTree_iff)
        then have "te_Hash ` set (inner @ es) - ex \<subseteq> ?R (e # es)" using new by auto
        then have "?R (inner @ es) \<subseteq> ?R (e # es)" by (rule closure_trans)
        moreover have "insert (te_Hash e) objs \<subseteq> objs \<union> ?R (e # es)" using hd new by auto
        ultimately show ?thesis by (intro grow_step [OF IH]) auto
      qed
    qed
  qed
qed

text \<open>What a completed walk has achieved: every tree it recorded has its entries recorded or excluded.\<close>

definition tree_closed :: "reader \<Rightarrow> ObjectID set \<Rightarrow> TreeEntry list \<Rightarrow> ObjectID set \<Rightarrow> bool" where
  "tree_closed rd ex pend objs \<longleftrightarrow>
     (\<forall>x \<in> objs. \<forall>es. rd x = Inr (Tree es) \<longrightarrow> te_Hash ` set es \<subseteq> objs \<union> ex \<union> te_Hash ` set pend)"

definition leaves_ok :: "reader \<Rightarrow> TreeEntry list \<Rightarrow> bool" where
  "leaves_ok rd es \<longleftrightarrow> (\<forall>e \<in> set es. te_Mode e \<noteq> modeSubtree \<longrightarrow>
     (\<forall>obj. rd (te_Hash e) = Inr obj \<longrightarrow> (\<exists>d. obj = Blob d)))"

lemma leaf_ok_leaves: "leaf_ok rd \<Longrightarrow> rd x = Inr (Tree es) \<Longrightarrow> leaves_ok rd es"
  by (auto simp: leaf_ok_def leaves_ok_def readTree_iff)

lemma tree_closed_skip:
  "tree_closed rd ex (e # es) objs \<Longrightarrow> te_Hash e \<in> objs \<union> ex \<Longrightarrow> tree_closed rd ex es objs"
  unfolding tree_closed_def by fastforce

lemma tree_closed_leaf:
  "tree_closed rd ex (e # es) objs \<Longrightarrow> (\<And>t. rd (te_Hash e) \<noteq> Inr (Tree t)) \<Longrightarrow>
     tree_closed rd ex es (insert (te_Hash e) objs)"
  unfolding tree_closed_def by fastforce

lemma tree_closed_enter:
  "tree_closed rd ex (e # es) objs \<Longrightarrow> rd (te_Hash e) = Inr (Tree inner) \<Longrightarrow>
     tree_closed rd ex (inner @ es) (insert (te_Hash e) objs)"
  unfolding tree_closed_def by fastforce

lemma add_entries_complete:
  "add_entries rd ex es objs = (objs', None) \<Longrightarrow> leaf_ok rd \<Longrightarrow> leaves_ok rd es \<Longrightarrow>
   tree_closed rd ex es objs \<Longrightarrow>
     tree_closed rd ex [] objs' \<and> (\<forall>x \<in> objs' - objs. \<forall>c. rd x \<noteq> Inr (CommitObj c))"
proof (induction rd ex es objs rule: add_entries.induct)
  case (1 rd ex objs)
  then show ?case by simp
next
  case (2 rd ex e es objs)
  have lv: "leaves_ok rd es" using "2.prems"(3) by (simp add: leaves_ok_def)
  show ?case
  proof (cases "te_Mode e = modeSubtree")
    case False
    let ?o = "if te_Hash e \<in> ex then objs else insert (te_Hash e) objs"
    have leaf: "rd (te_Hash e) \<noteq> Inr (Tree t)" "rd (te_Hash e) \<noteq> Inr (CommitObj c)" for t c
      using "2.prems"(3) False by (auto simp: leaves_ok_def)
    have "tree_closed rd ex es ?o"
      using tree_closed_skip [OF "2.prems"(4)] tree_closed_leaf [OF "2.prems"(4) leaf(1)] by auto
    moreover have "add_entries rd ex es ?o = (objs', None)" using "2.prems" False by simp
    ultimately have "tree_closed rd ex [] objs'" "\<forall>x \<in> objs' - ?o. \<forall>c. rd x \<noteq> Inr (CommitObj c)"
      using "2.IH"(3) [OF False _ "2.prems"(2) lv] by auto
    with leaf(2) show ?thesis by (auto split: if_splits)
  next
    case True
    show ?thesis
    proof (cases "te_Hash e \<in> ex \<or> te_Hash e \<in> objs")
      case skip: True
      have "add_entries rd ex es objs = (objs', None)" using "2.prems" True skip by auto
      moreover have "tree_closed rd ex es objs" using tree_closed_skip [OF "2.prems"(4)] skip by blast
      ultimately show ?thesis using "2.IH"(1) [OF True skip _ "2.prems"(2) lv] by blast
    next
      case new: False
      then obtain inner where i: "readTree rd (te_Hash e) = Inr inner"
        using "2.prems"(1) True by (auto split: sum.splits)
      then have a: "add_entries rd ex (inner @ es) (insert (te_Hash e) objs) = (objs', None)"
        using "2.prems"(1) True new by simp
      have t: "rd (te_Hash e) = Inr (Tree inner)" using i by (simp add: readTree_iff)
      have "leaves_ok rd (inner @ es)"
        using leaf_ok_leaves [OF "2.prems"(2) t] lv by (auto simp: leaves_ok_def)
      from "2.IH"(2) [OF True new i a "2.prems"(2) this tree_closed_enter [OF "2.prems"(4) t]]
      show ?thesis using t by auto
    qed
  qed
qed


lemma addTree_bounds:
  assumes "addTreeClosureExcluding rd t objs ex = (objs', r)"
  shows "objs \<subseteq> objs' \<and> objs' \<subseteq> objs \<union> (tree_link rd ex)\<^sup>* `` ({t} - ex)"
proof -
  let ?e = "\<lparr>te_Mode = modeSubtree, te_Hash = t, te_Name = []\<rparr>"
  have "add_entries rd ex [?e] objs = (objs', r)"
    by (cases r) (use assms in \<open>simp_all add: add_entries_Cons del: add_entries.simps(2)\<close>)
  from add_entries_bounds [OF this] show ?thesis by simp
qed

lemma addTree_complete:
  assumes "addTreeClosureExcluding rd t objs ex = (objs', None)" "leaf_ok rd" "tree_closed rd ex [] objs"
  shows "tree_closed rd ex [] objs' \<and> t \<in> objs' \<union> ex \<and> (\<forall>x \<in> objs' - objs. \<forall>c. rd x \<noteq> Inr (CommitObj c))"
proof (cases "t \<in> ex \<or> t \<in> objs")
  case True
  with assms show ?thesis by (auto simp: addTreeClosureExcluding_def)
next
  case False
  with assms(1) obtain es where es: "rd t = Inr (Tree es)" "add_entries rd ex es (insert t objs) = (objs', None)"
    by (auto simp: addTreeClosureExcluding_def readTree_iff split: sum.splits)
  have "tree_closed rd ex es (insert t objs)" using assms(3) es(1) by (fastforce simp: tree_closed_def)
  from add_entries_complete [OF es(2) assms(2) leaf_ok_leaves [OF assms(2) es(1)] this]
    add_entries_bounds [OF es(2)] es(1)
  show ?thesis by auto
qed

section \<open>The three steps\<close>

definition tree_roots :: "reader \<Rightarrow> CommitID set \<Rightarrow> ObjectID set" where
  "tree_roots rd C = {TreeHash cm | c cm. c \<in> C \<and> readCommit rd c = Inr cm}"

lemma send_loop_ConsE:
  assumes "send_loop rd ex (c # cs) objs = Inr objs'"
  obtains cm o2 where "readCommit rd c = Inr cm"
    "addTreeClosureExcluding rd (TreeHash cm) (insert c objs) ex = (o2, None)" "send_loop rd ex cs o2 = Inr objs'"
proof -
  from assms obtain cm where cm: "readCommit rd c = Inr cm" by (auto simp: res_simps)
  obtain o2 r where a: "addTreeClosureExcluding rd (TreeHash cm) (insert c objs) ex = (o2, r)" by fastforce
  show ?thesis by (rule that [OF cm]) (use assms cm a in \<open>auto split: option.splits\<close>)
qed

lemma send_loop_bounds:
  "send_loop rd ex cs objs = Inr objs' \<Longrightarrow>
     objs \<union> set cs \<subseteq> objs' \<and> objs' \<subseteq> objs \<union> set cs \<union> (tree_link rd ex)\<^sup>* `` (tree_roots rd (set cs) - ex)"
proof (induction cs arbitrary: objs)
  case Nil
  then show ?case by simp
next
  case (Cons c cs)
  obtain cm o2 where cm: "readCommit rd c = Inr cm"
    and a: "addTreeClosureExcluding rd (TreeHash cm) (insert c objs) ex = (o2, None)"
    and s: "send_loop rd ex cs o2 = Inr objs'"
    using Cons.prems by (rule send_loop_ConsE)
  have "{TreeHash cm} \<union> tree_roots rd (set cs) \<subseteq> tree_roots rd (set (c # cs))"
    using cm by (auto simp: tree_roots_def)
  then have roots: "(tree_link rd ex)\<^sup>* `` ({TreeHash cm} - ex) \<subseteq> (tree_link rd ex)\<^sup>* `` (tree_roots rd (set (c # cs)) - ex)"
      "(tree_link rd ex)\<^sup>* `` (tree_roots rd (set cs) - ex) \<subseteq> (tree_link rd ex)\<^sup>* `` (tree_roots rd (set (c # cs)) - ex)"
    by (intro closure_mono; blast)+
  define A where "A = (tree_link rd ex)\<^sup>* `` (tree_roots rd (set (c # cs)) - ex)"
  have "insert c objs \<subseteq> o2" "o2 \<subseteq> insert c objs \<union> A"
    using addTree_bounds [OF a] roots(1) unfolding A_def [symmetric] by (meson Un_mono order_refl order_trans)+
  moreover have "o2 \<union> set cs \<subseteq> objs'" "objs' \<subseteq> o2 \<union> set cs \<union> A"
    using Cons.IH [OF s] roots(2) unfolding A_def [symmetric] by (meson Un_mono order_refl order_trans)+
  ultimately show ?case unfolding A_def [symmetric] by auto
qed

lemma send_loop_complete:
  "send_loop rd ex cs objs = Inr objs' \<Longrightarrow> leaf_ok rd \<Longrightarrow> tree_closed rd ex [] objs \<Longrightarrow>
     tree_closed rd ex [] objs' \<and> (\<forall>c \<in> set cs. \<exists>cm. readCommit rd c = Inr cm \<and> TreeHash cm \<in> objs' \<union> ex)
     \<and> (\<forall>x \<in> objs' - objs. (\<exists>c. rd x = Inr (CommitObj c)) \<longrightarrow> x \<in> set cs)"
proof (induction cs arbitrary: objs)
  case Nil
  then show ?case by simp
next
  case (Cons c cs)
  obtain cm o2 where cm: "readCommit rd c = Inr cm"
    and a: "addTreeClosureExcluding rd (TreeHash cm) (insert c objs) ex = (o2, None)"
    and s: "send_loop rd ex cs o2 = Inr objs'"
    using Cons.prems(1) by (rule send_loop_ConsE)
  have "tree_closed rd ex [] (insert c objs)"
    using Cons.prems(3) cm by (fastforce simp: tree_closed_def readCommit_iff)
  from addTree_complete [OF a Cons.prems(2) this]
  have o2: "tree_closed rd ex [] o2" "TreeHash cm \<in> o2 \<union> ex"
      "\<forall>x \<in> o2 - insert c objs. \<forall>c. rd x \<noteq> Inr (CommitObj c)" by auto
  have "o2 \<subseteq> objs'" using send_loop_bounds [OF s] by blast
  with Cons.IH [OF s Cons.prems(2) o2(1)] o2 cm show ?case by auto
qed

text \<open>The set that is sent, independent of the order in which the commits are visited.\<close>

lemma send_loop_exact:
  assumes "send_loop rd ex cs {} = Inr objs" "leaf_ok rd"
  shows "objs = set cs \<union> (tree_link rd ex)\<^sup>* `` (tree_roots rd (set cs) - ex)"
proof -
  have c: "tree_closed rd ex [] objs" "\<forall>c \<in> set cs. \<exists>cm. readCommit rd c = Inr cm \<and> TreeHash cm \<in> objs \<union> ex"
    using send_loop_complete [OF assms] by (auto simp: tree_closed_def)
  have "tree_roots rd (set cs) - ex \<subseteq> objs" using c(2) by (auto simp: tree_roots_def)
  moreover have "tree_link rd ex `` objs \<subseteq> objs" using c(1) by (auto simp: tree_link_def tree_closed_def)
  ultimately have "(tree_link rd ex)\<^sup>* `` (tree_roots rd (set cs) - ex) \<subseteq> objs"
    using rtrancl_closed [of "tree_link rd ex" objs] by blast
  with send_loop_bounds [OF assms(1)] show ?thesis by auto
qed

lemma have_step_bounds:
  assumes "have_step rd h (b, ho) = (b', ho')"
  shows "b \<subseteq> b' \<and> b' \<subseteq> b \<union> ancestors rd h \<and> ho' \<subseteq> ho \<union> reaches rd {h}"
proof -
  obtain b2 r where w: "walkCommits rd h b {} = (b2, r)" by fastforce
  have b2: "b' = b2" using assms w by (auto split: option.splits sum.splits)
  have "ho' \<subseteq> ho \<union> reaches rd {h}"
  proof (cases "r = None \<and> (\<exists>c. readCommit rd h = Inr c)")
    case True
    then obtain c where c: "readCommit rd h = Inr c" by blast
    have "ho' = fst (addTreeClosure rd (TreeHash c) ho)" using assms w True c by auto
    then have "ho' \<subseteq> ho \<union> (tree_link rd {})\<^sup>* `` {TreeHash c}"
      using addTree_bounds [of rd "TreeHash c" ho "{}"] by (metis addTreeClosure_def Diff_empty prod.collapse)
    moreover have "(tree_link rd {})\<^sup>* `` {TreeHash c} \<subseteq> reaches rd {TreeHash c}"
      using rtrancl_mono [OF tree_link_in_obj_rel] by blast
    moreover have "(h, TreeHash c) \<in> obj_rel rd" using c by (auto simp: obj_rel_def)
    then have "reaches rd {TreeHash c} \<subseteq> reaches rd {h}" by (intro reaches_subset) auto
    ultimately show ?thesis by blast
  next
    case False
    with assms w have "ho' = ho" by (auto split: option.splits sum.splits)
    then show ?thesis by blast
  qed
  with walkCommits_bounds [OF w] b2 show ?thesis by blast
qed

lemma have_steps_bounds:
  "fold (have_step rd) hs (b, ho) = (b', ho') \<Longrightarrow>
     b \<subseteq> b' \<and> b' \<subseteq> b \<union> (parent_rel rd)\<^sup>* `` set hs \<and> ho' \<subseteq> ho \<union> reaches rd (set hs)"
proof (induction hs arbitrary: b ho)
  case Nil
  then show ?case by simp
next
  case (Cons h hs)
  obtain b2 ho2 where s: "have_step rd h (b, ho) = (b2, ho2)" by fastforce
  with Cons.prems have "fold (have_step rd) hs (b2, ho2) = (b', ho')" by simp
  note IH = Cons.IH [OF this]
  have "ancestors rd h \<subseteq> (parent_rel rd)\<^sup>* `` set (h # hs)" "(parent_rel rd)\<^sup>* `` set hs \<subseteq> (parent_rel rd)\<^sup>* `` set (h # hs)"
    "reaches rd {h} \<subseteq> reaches rd (set (h # hs))" "reaches rd (set hs) \<subseteq> reaches rd (set (h # hs))"
    by (rule closure_mono; simp add: subset_insertI)+
  moreover define A where "A = (parent_rel rd)\<^sup>* `` set (h # hs)"
  moreover define B where "B = reaches rd (set (h # hs))"
  ultimately have sub: "ancestors rd h \<subseteq> A" "(parent_rel rd)\<^sup>* `` set hs \<subseteq> A" "reaches rd {h} \<subseteq> B"
    "reaches rd (set hs) \<subseteq> B" by simp_all
  have "b2 \<subseteq> b \<union> A" "b \<subseteq> b2" "ho2 \<subseteq> ho \<union> B" "b2 \<subseteq> b'" "b' \<subseteq> b2 \<union> A" "ho' \<subseteq> ho2 \<union> B"
    using IH have_step_bounds [OF s] sub by (meson Un_mono order_refl order_trans)+
  then show ?case unfolding A_def [symmetric] B_def [symmetric] by blast
qed


lemma EnumerateE:
  assumes "Enumerate ord rd wants haves = Inr ids" "map_order ord"
  obtains b ho send objs where "fold (have_step rd) haves ({}, {}) = (b, ho)"
    "want_loop rd b wants {} = Inr send" "send_loop rd ho (ord send) {} = Inr objs"
    "ids = sort_by BaseID_String (ord objs)" "set ids = objs" "set (ord send) = send"
  using assms by (auto simp: Enumerate_def map_order_def res_simps split: prod.splits)

lemma walk_loop_total:
  "\<forall>x \<in> (parent_rel rd)\<^sup>* `` set q. \<exists>cm. readCommit rd x = Inr cm \<Longrightarrow> \<exists>v'. walk_loop rd stop q v = (v', None)"
proof (induction rd stop q v rule: walk_loop.induct)
  case (1 rd stop v)
  then show ?case by simp
next
  case (2 rd stop c q v)
  from "2.prems" obtain cm where r: "readCommit rd c = Inr cm" by fastforce
  obtain q2 v2 where e: "enqueue (filter (\<lambda>p. p \<notin> stop) (Parents cm)) q v = (q2, v2)" by fastforce
  have "set q2 \<subseteq> set q \<union> set (Parents cm)" using enqueue_spec [OF e] by auto
  with parents_reach [OF r] have "set q2 \<subseteq> (parent_rel rd)\<^sup>* `` set (c # q)" by fastforce
  then have "(parent_rel rd)\<^sup>* `` set q2 \<subseteq> (parent_rel rd)\<^sup>* `` set (c # q)" by (rule closure_trans)
  with "2.prems" have "\<forall>x \<in> (parent_rel rd)\<^sup>* `` set q2. \<exists>cm. readCommit rd x = Inr cm" by blast
  from "2.IH" [OF r e [symmetric] this] r e show ?case by simp
qed

lemma have_steps_boundary:
  "fold (have_step rd) hs (b, ho) = (b', ho') \<Longrightarrow> \<forall>h \<in> set hs. readable_from rd h \<Longrightarrow>
   expanded_to rd {} [] b \<Longrightarrow> expanded_to rd {} [] b' \<and> b \<union> set hs \<subseteq> b'"
proof (induction hs arbitrary: b ho)
  case Nil
  then show ?case by simp
next
  case (Cons h hs)
  obtain b2 ho2 where s: "have_step rd h (b, ho) = (b2, ho2)" by fastforce
  obtain b3 where w: "walkCommits rd h b {} = (b3, None)"
    using walk_loop_total [of rd "[h]" "{}" "insert h b"] Cons.prems(2)
    by (cases "h \<in> b") (auto simp: walkCommits_def readable_from_def simp del: walk_loop.simps)
  then have "b2 = b3" using s by (auto split: sum.splits)
  then have b2: "expanded_to rd {} [] b2" "h \<in> b2" "b \<subseteq> b2"
    using walkCommits_expanded [OF w Cons.prems(3)] walkCommits_bounds [OF w] by auto
  have "fold (have_step rd) hs (b2, ho2) = (b', ho')" using Cons.prems(1) s by simp
  from Cons.IH [OF this _ b2(1)] Cons.prems(2) b2 show ?case by auto
qed

section \<open>Coverage\<close>

lemma enumerate_covers:
  assumes "Enumerate ord rd wants haves = Inr ids" "map_order ord" "leaf_ok rd"
  shows "reaches rd (set wants) \<subseteq> set ids \<union> reaches rd (set haves)"
proof -
  obtain b ho send objs where h: "fold (have_step rd) haves ({}, {}) = (b, ho)"
    and w: "want_loop rd b wants {} = Inr send" and s: "send_loop rd ho (ord send) {} = Inr objs"
    and ids: "set ids = objs" "set (ord send) = send"
    using assms(1,2) by (rule EnumerateE)
  define H where "H = reaches rd (set haves)"
  have "b \<subseteq> (parent_rel rd)\<^sup>* `` set haves" "ho \<subseteq> H"
    using have_steps_bounds [OF h] unfolding H_def by auto
  then have bH: "b \<subseteq> H" "ho \<subseteq> H" unfolding H_def using ancestors_reach [of rd "set haves"] by auto
  have send: "expanded_to rd b [] send" "set wants \<subseteq> send \<union> b"
    using want_loop_spec [OF w] by (auto simp: expanded_to_def)
  have objs: "tree_closed rd ho [] objs" "\<forall>c \<in> send. \<exists>cm. readCommit rd c = Inr cm \<and> TreeHash cm \<in> objs \<union> ho"
      "\<forall>x \<in> objs. (\<exists>c. rd x = Inr (CommitObj c)) \<longrightarrow> x \<in> send"
    using send_loop_complete [OF s assms(3)] ids(2) by (auto simp: tree_closed_def)
  have "send \<subseteq> objs" using send_loop_bounds [OF s] ids by auto
  have closed: "y \<in> objs \<union> H" if x: "x \<in> objs" "(x, y) \<in> obj_rel rd" for x y
  proof (cases "\<exists>cm. readCommit rd x = Inr cm")
    case True
    then obtain cm where cm: "readCommit rd x = Inr cm" by blast
    then have "x \<in> send" using objs(3) x(1) by (auto simp: readCommit_iff)
    have "y = TreeHash cm \<or> (x, y) \<in> parent_rel rd"
      using x(2) obj_rel_commit [OF cm] parent_rel_image [OF cm] by auto
    moreover have "TreeHash cm \<in> objs \<union> H" using objs(2) \<open>x \<in> send\<close> cm bH(2) by fastforce
    moreover have "parent_rel rd `` {x} \<subseteq> objs \<union> H"
      using send(1) \<open>x \<in> send\<close> bH(1) \<open>send \<subseteq> objs\<close> unfolding expanded_to_def by fastforce
    ultimately show ?thesis by blast
  next
    case False
    with x(2) obtain es where "rd x = Inr (Tree es)" "y \<in> te_Hash ` set es"
      by (auto simp: obj_rel_def readTree_iff)
    with objs(1) x(1) bH show ?thesis by (fastforce simp: tree_closed_def)
  qed
  have "obj_rel rd `` (objs \<union> H) \<subseteq> objs \<union> H"
    using closed reaches_step [of _ rd "set haves"] unfolding H_def by blast
  moreover have "set wants \<subseteq> objs \<union> H" using send(2) bH(1) \<open>send \<subseteq> objs\<close> by blast
  ultimately show ?thesis
    using rtrancl_closed [of "obj_rel rd" "objs \<union> H"] ids(1) unfolding H_def by blast
qed

text \<open>Without haves, the enumeration is the whole closure.\<close>

lemma enumerate_reaches:
  assumes "Enumerate ord rd wants [] = Inr ids" "map_order ord" "leaf_ok rd"
  shows "reaches rd (set wants) \<subseteq> set ids"
  using enumerate_covers [OF assms] by simp

lemma enumerate_within:
  assumes "Enumerate ord rd wants haves = Inr ids" "map_order ord"
  shows "set ids \<subseteq> reaches rd (set wants)"
proof -
  obtain b ho send objs where w: "want_loop rd b wants {} = Inr send" and s: "send_loop rd ho (ord send) {} = Inr objs"
    and ids: "set ids = objs" "set (ord send) = send"
    using assms by (rule EnumerateE)
  have send: "send \<subseteq> (parent_rel rd)\<^sup>* `` set wants"
    using want_loop_spec [OF w] by (auto simp: expanded_to_def)
  define Q where "Q = reaches rd (set wants)"
  have sQ: "send \<subseteq> Q" using send ancestors_reach [of rd "set wants"] unfolding Q_def by (rule order_trans)
  have "y \<in> Q" if "c \<in> send" "readCommit rd c = Inr cm" "y = TreeHash cm" for c cm y
    using reaches_step [of c rd "set wants" y] that sQ obj_rel_commit [OF that(2)] unfolding Q_def by auto
  then have roots: "tree_roots rd send - ho \<subseteq> Q" by (auto simp: tree_roots_def)
  have "(tree_link rd ho)\<^sup>* `` (tree_roots rd send - ho) \<subseteq> reaches rd (tree_roots rd send - ho)"
    using rtrancl_mono [OF tree_link_in_obj_rel] by blast
  moreover have "reaches rd (tree_roots rd send - ho) \<subseteq> Q"
    using roots unfolding Q_def by (rule reaches_subset)
  ultimately have "(tree_link rd ho)\<^sup>* `` (tree_roots rd send - ho) \<subseteq> Q" by (rule order_trans)
  with sQ have "send \<union> (tree_link rd ho)\<^sup>* `` (tree_roots rd send - ho) \<subseteq> Q" by (rule Un_least)
  moreover have "set ids \<subseteq> send \<union> (tree_link rd ho)\<^sup>* `` (tree_roots rd send - ho)"
    using send_loop_bounds [OF s] ids by simp
  ultimately have "set ids \<subseteq> Q" by (rule order_trans [rotated])
  then show ?thesis unfolding Q_def .
qed

section \<open>A sample repository\<close>

definition sample_reader :: reader where
  "sample_reader x =
     (if x = 1 then Inr (CommitObj \<lparr>TreeHash = 2, Parents = [3], Author = [], Message = [], Timestamp = 0\<rparr>)
      else if x = 2 then Inr (Tree [\<lparr>te_Mode = modeSubtree, te_Hash = 5, te_Name = ''d''\<rparr>,
                                    \<lparr>te_Mode = 33188, te_Hash = 6, te_Name = ''f''\<rparr>])
      else if x = 3 then Inr (CommitObj \<lparr>TreeHash = 5, Parents = [], Author = [], Message = [], Timestamp = 0\<rparr>)
      else if x = 5 then Inr (Tree [\<lparr>te_Mode = 33188, te_Hash = 7, te_Name = ''g''\<rparr>])
      else if x = 6 then Inr (Blob ''new'')
      else if x = 7 then Inr (Blob ''old'')
      else Inl ErrObjectNotFound)"

lemma sample_leaf_ok: "leaf_ok sample_reader"
  by (auto simp: leaf_ok_def sample_reader_def readTree_iff modeSubtree_def split: if_splits)

lemma sample_map_order: "map_order sorted_list_of_set"
  by (simp add: map_order_def)

lemma sample_enumerate:
  "\<exists>ids. Enumerate sorted_list_of_set sample_reader [1] [3] = Inr ids \<and> set ids = {1, 2, 6}"
proof -
  have "fold (have_step sample_reader) [3] ({}, {}) = ({3}, {5, 7})"
    by (simp add: walkCommits_def readCommit_def readTree_def sample_reader_def addTreeClosure_def
        addTreeClosureExcluding_def modeSubtree_def insert_commute)
  moreover have "want_loop sample_reader {3} [1] {} = Inr {1}"
    by (simp add: walkCommits_def readCommit_def sample_reader_def)
  moreover have "send_loop sample_reader {5, 7} [1] {} = Inr {1, 2, 6}"
    by (simp add: readCommit_def readTree_def sample_reader_def addTreeClosureExcluding_def
        modeSubtree_def insert_commute)
  ultimately show ?thesis by (simp add: Enumerate_def)
qed

section \<open>Properties\<close>

text \<open>C4. A transfer is complete: every object reachable from a wanted commit (through parents, root
  trees, subtrees and file entries) is either in the enumeration or reachable from a commit the receiver
  says it has. Whatever order the maps are visited in, and whichever haves are unknown to the sender.\<close>

theorem enumerate_complete:
  assumes "Enumerate ord rd wants haves = Inr ids" "map_order ord" "leaf_ok rd"
  shows "reaches rd (set wants) \<subseteq> set ids \<union> reaches rd (set haves)"
  using assms by (rule enumerate_covers)

theorem enumerate_complete_witness:
  "\<exists>ids. set ids = {1, 2, 6} \<and> reaches sample_reader {1} \<subseteq> set ids \<union> reaches sample_reader {3}"
proof -
  obtain ids where ids: "Enumerate sorted_list_of_set sample_reader [1] [3] = Inr ids" "set ids = {1, 2, 6}"
    using sample_enumerate by blast
  from enumerate_complete [OF ids(1) sample_map_order sample_leaf_ok] ids(2) show ?thesis by auto
qed

text \<open>A transfer sends nothing unrelated: every enumerated object is reachable from a wanted commit,
  and when the sender can read the history of all haves, no commit is sent that the receiver already has
  as an ancestor of a have. The list is strictly increasing in the hex identifier.\<close>

theorem enumerate_sound:
  assumes "Enumerate ord rd wants haves = Inr ids" "map_order ord" "leaf_ok rd"
  shows "set ids \<subseteq> reaches rd (set wants)
    \<and> (\<forall>x \<in> set ids. \<forall>c. (\<forall>h \<in> set haves. readable_from rd h) \<and> readCommit rd x = Inr c \<longrightarrow>
         x \<notin> (parent_rel rd)\<^sup>* `` set haves)
    \<and> strictly_by BaseID_String ids"
proof (intro conjI ballI allI impI)
  obtain b ho send objs where h: "fold (have_step rd) haves ({}, {}) = (b, ho)"
    and w: "want_loop rd b wants {} = Inr send" and s: "send_loop rd ho (ord send) {} = Inr objs"
    and srt: "ids = sort_by BaseID_String (ord objs)"
    and ids: "set ids = objs" "set (ord send) = send"
    using assms(1,2) by (rule EnumerateE)
  have send: "send \<subseteq> (parent_rel rd)\<^sup>* `` set wants" "send \<inter> b = {}"
    using want_loop_spec [OF w] by (auto simp: expanded_to_def)
  show "set ids \<subseteq> reaches rd (set wants)" using assms(1,2) by (rule enumerate_within)
  show "strictly_by BaseID_String ids"
    unfolding srt using assms(2) inj_on_subset [OF BaseID_String_inj]
    by (intro sort_by_strict) (auto simp: distinct_map map_order_def)
  fix x c
  assume x: "x \<in> set ids" and a: "(\<forall>h \<in> set haves. readable_from rd h) \<and> readCommit rd x = Inr c"
  have "x \<in> send"
    using send_loop_complete [OF s assms(3)] ids x a by (auto simp: tree_closed_def readCommit_iff)
  have e: "expanded_to rd {} [] b" "set haves \<subseteq> b"
    using have_steps_boundary [OF h] a by (auto simp: expanded_to_def)
  then have "parent_rel rd `` b \<subseteq> b" by (auto simp: expanded_to_def)
  with e(2) have "(parent_rel rd)\<^sup>* `` set haves \<subseteq> b" using rtrancl_closed [of "parent_rel rd" b] by blast
  with \<open>x \<in> send\<close> send(2) show "x \<notin> (parent_rel rd)\<^sup>* `` set haves" by blast
qed

theorem enumerate_sound_witness:
  "\<exists>ids. set ids = {1, 2, 6} \<and> set ids \<subseteq> reaches sample_reader {1} \<and> strictly_by BaseID_String ids"
proof -
  obtain ids where ids: "Enumerate sorted_list_of_set sample_reader [1] [3] = Inr ids" "set ids = {1, 2, 6}"
    using sample_enumerate by blast
  from enumerate_sound [OF ids(1) sample_map_order sample_leaf_ok] ids(2) show ?thesis by auto
qed

text \<open>The pack is deterministic: the enumeration does not depend on the order in which Go visits its
  maps.\<close>

theorem enumerate_deterministic:
  assumes "Enumerate ord rd wants haves = Inr ids" "Enumerate ord' rd wants haves = Inr ids'"
    and "map_order ord" "map_order ord'" "leaf_ok rd"
  shows "ids = ids'"
proof -
  obtain b ho send objs where 1: "fold (have_step rd) haves ({}, {}) = (b, ho)"
    "want_loop rd b wants {} = Inr send" "send_loop rd ho (ord send) {} = Inr objs"
    "ids = sort_by BaseID_String (ord objs)" "set ids = objs" "set (ord send) = send"
    using assms(1,3) by (rule EnumerateE)
  obtain b' ho' send' objs' where 2: "fold (have_step rd) haves ({}, {}) = (b', ho')"
    "want_loop rd b' wants {} = Inr send'" "send_loop rd ho' (ord' send') {} = Inr objs'"
    "ids' = sort_by BaseID_String (ord' objs')" "set ids' = objs'" "set (ord' send') = send'"
    using assms(2,4) by (rule EnumerateE)
  have "b' = b" "ho' = ho" "send' = send" using 1 2 by auto
  then have "objs' = objs"
    using send_loop_exact [OF 1(3) assms(5)] send_loop_exact [OF 2(3) assms(5)] 1(6) 2(6) by simp
  then show ?thesis
    unfolding 1(4) 2(4) using assms(3,4)
    by (intro sort_by_perm inj_on_subset [OF BaseID_String_inj]) (auto simp: map_order_def)
qed

theorem enumerate_deterministic_witness:
  "\<exists>ids ids'. Enumerate sorted_list_of_set sample_reader [1] [3] = Inr ids
    \<and> Enumerate (\<lambda>S. rev (sorted_list_of_set S)) sample_reader [1] [3] = Inr ids' \<and> ids = ids'"
proof -
  obtain ids where ids: "Enumerate sorted_list_of_set sample_reader [1] [3] = Inr ids"
    using sample_enumerate by blast
  obtain ids' where ids': "Enumerate (\<lambda>S. rev (sorted_list_of_set S)) sample_reader [1] [3] = Inr ids'"
    using ids by (auto simp: Enumerate_def res_simps walkCommits_def readCommit_def sample_reader_def
        split: prod.splits)
  from enumerate_deterministic [OF ids ids' sample_map_order _ sample_leaf_ok] ids ids' show ?thesis
    by (simp add: map_order_def)
qed

end
