(* ===== verification/Garbage_Collection.thy ===== *)
theory Garbage_Collection
  imports Enumerate_Objects Reflog
begin

text \<open>
  \<^verbatim>\<open>pkg/gc\<close>: the roots of a repository, the loose objects on disk, and the sweep. What the operating
  system lists is an argument: \<open>ls d\<close> is \<^verbatim>\<open>os.ReadDir d\<close>, names with a directory flag, \<open>None\<close> an error;
  \<open>names\<close> are the reference files in the order \<^verbatim>\<open>List\<close> walks them; \<open>rm p\<close> says whether removing \<open>p\<close>
  succeeds. \<open>listing_ok\<close> states what \<^verbatim>\<open>os.ReadDir\<close> promises about them.
\<close>

section \<open>Roots\<close>

definition add_root :: "reader \<Rightarrow> CommitID \<Rightarrow> CommitID list \<Rightarrow> CommitID list" where
  "add_root rd c roots =
     (if c = 0 \<or> c \<in> set roots then roots
      else case readCommit rd c of Inl _ \<Rightarrow> roots | Inr _ \<Rightarrow> roots @ [c])"

definition gatherRoots :: "path \<Rightarrow> string list \<Rightarrow> reader \<Rightarrow> fs \<Rightarrow> CommitID list" where
  "gatherRoots varaDir names rd fs =
     (let r = \<lparr>VaraDir = varaDir\<rparr>;
          roots1 = fold (add_root rd) (map ref_ObjectID (List_refs r fs names)) [];
          roots2 = (case Resolve_ref r fs ''HEAD'' of Some (Inr head) \<Rightarrow> add_root rd head roots1 | _ \<Rightarrow> roots1)
      in case Reflog_Read \<lparr>log_VaraDir = varaDir\<rparr> fs ''HEAD'' of
           (entries, True) \<Rightarrow> fold (\<lambda>e rs. add_root rd (NewID e) (add_root rd (OldID e) rs)) entries roots2
         | (entries, False) \<Rightarrow> roots2)"

section \<open>Loose objects\<close>

definition isHex :: "string \<Rightarrow> nat \<Rightarrow> bool" where
  "isHex s n \<longleftrightarrow> length s = n \<and>
     (\<forall>c \<in> set s. let k = of_char c :: nat in (48 \<le> k \<and> k \<le> 57) \<or> (97 \<le> k \<and> k \<le> 102))"

record looseObject =
  lo_id :: ObjectID
  lo_path :: path
  lo_size :: nat

fun list_shard :: "path \<Rightarrow> string \<Rightarrow> fs \<Rightarrow> (string \<times> bool) list \<Rightarrow> looseObject list" where
  "list_shard varaDir shard fs [] = []"
| "list_shard varaDir shard fs ((name, isDir) # files) =
     (if isDir \<or> \<not> isHex name 62 then list_shard varaDir shard fs files
      else case ParseHex (shard @ name) of
             Inl _ \<Rightarrow> list_shard varaDir shard fs files
           | Inr i \<Rightarrow>
               (let p = varaDir @ ''/'' @ shard @ ''/'' @ name in
                \<lparr>lo_id = i, lo_path = p, lo_size = (case fs p of None \<Rightarrow> 0 | Some c \<Rightarrow> length c)\<rparr>
                # list_shard varaDir shard fs files))"

fun list_shards ::
    "(path \<Rightarrow> (string \<times> bool) list option) \<Rightarrow> path \<Rightarrow> fs \<Rightarrow> (string \<times> bool) list \<Rightarrow> verr + looseObject list" where
  "list_shards ls varaDir fs [] = Inr []"
| "list_shards ls varaDir fs ((shard, isDir) # entries) =
     (if \<not> isDir \<or> \<not> isHex shard 2 then list_shards ls varaDir fs entries
      else case ls (varaDir @ ''/'' @ shard) of
             None \<Rightarrow> Inl ErrIO
           | Some files \<Rightarrow>
               bind_res (list_shards ls varaDir fs entries) (\<lambda>rest. Inr (list_shard varaDir shard fs files @ rest)))"

definition listLooseObjects :: "(path \<Rightarrow> (string \<times> bool) list option) \<Rightarrow> path \<Rightarrow> fs \<Rightarrow> verr + looseObject list" where
  "listLooseObjects ls varaDir fs =
     (case ls varaDir of None \<Rightarrow> Inl ErrIO | Some entries \<Rightarrow> list_shards ls varaDir fs entries)"

section \<open>The sweep\<close>

record Result =
  Scanned :: nat
  Reachable :: nat
  Removed :: nat
  BytesFreed :: nat

fun sweep :: "(path \<Rightarrow> bool) \<Rightarrow> bool \<Rightarrow> ObjectID list \<Rightarrow> looseObject list \<Rightarrow> Result \<Rightarrow> fs \<Rightarrow> Result \<times> fs \<times> verr option" where
  "sweep rm apply reachable [] res fs = (res, fs, None)"
| "sweep rm apply reachable (x # xs) res fs =
     (if lo_id x \<in> set reachable then sweep rm apply reachable xs res fs
      else let res1 = res\<lparr>Removed := Removed res + 1, BytesFreed := BytesFreed res + lo_size x\<rparr> in
           if apply then
             (if rm (lo_path x) then sweep rm apply reachable xs res1 (os_Remove (lo_path x) fs)
              else (res1, fs, Some ErrIO))
           else sweep rm apply reachable xs res1 fs)"

definition Collect_gc ::
    "(ObjectID set \<Rightarrow> ObjectID list) \<Rightarrow> (path \<Rightarrow> (string \<times> bool) list option) \<Rightarrow> (path \<Rightarrow> bool) \<Rightarrow> string list \<Rightarrow> zstd
     \<Rightarrow> path \<Rightarrow> bool \<Rightarrow> fs \<Rightarrow> Result \<times> fs \<times> verr option" where
  "Collect_gc ord ls rm names z varaDir apply fs =
     (let res = \<lparr>Scanned = 0, Reachable = 0, Removed = 0, BytesFreed = 0\<rparr>;
          rd = Store_Read z (NewStore varaDir) fs;
          roots = gatherRoots varaDir names rd fs
      in case (if roots = [] then Inr [] else Enumerate ord rd roots []) of
           Inl e \<Rightarrow> (res, fs, Some e)
         | Inr reachable \<Rightarrow>
             (let res1 = res\<lparr>Reachable := length reachable\<rparr> in
              case listLooseObjects ls varaDir fs of
                Inl e \<Rightarrow> (res1, fs, Some e)
              | Inr objs \<Rightarrow> sweep rm apply reachable objs (res1\<lparr>Scanned := length objs\<rparr>) fs))"


section \<open>Directory listings\<close>

text \<open>\<^verbatim>\<open>os.ReadDir\<close> on the repository: it succeeds, lists the directory and the file of every object that is
  on disk, and lists as files only what exists.\<close>

definition listing_ok :: "(path \<Rightarrow> (string \<times> bool) list option) \<Rightarrow> path \<Rightarrow> fs \<Rightarrow> bool" where
  "listing_ok ls varaDir fs \<longleftrightarrow>
     (\<exists>entries. ls varaDir = Some entries \<and>
        (\<forall>shard. (shard, True) \<in> set entries \<longrightarrow> ls (varaDir @ ''/'' @ shard) \<noteq> None) \<and>
        (\<forall>i. fs (object_path (NewStore varaDir) i) \<noteq> None \<longrightarrow>
           (take 2 (BaseID_String i), True) \<in> set entries \<and>
           (\<exists>files. ls (varaDir @ ''/'' @ take 2 (BaseID_String i)) = Some files \<and>
              (drop 2 (BaseID_String i), False) \<in> set files)))"

lemma hex_char_digit: "(48 \<le> k \<and> k \<le> 57) \<or> (97 \<le> k \<and> k \<le> 102) \<Longrightarrow>
    \<exists>n < 16. from_hex_char (char_of (k :: nat)) = Some n \<and> hex_digit n = char_of k"
proof (elim disjE conjE)
  have "\<forall>j \<in> {..<10}. ''0123456789abcdef'' ! j = (char_of (48 + j) :: char)" by code_simp
  moreover assume "48 \<le> k" "k \<le> 57"
  moreover from this have "k - 48 \<in> {..<10}" "48 + (k - 48) = k" by auto
  ultimately have "''0123456789abcdef'' ! (k - 48) = (char_of k :: char)" by (metis (no_types))
  with \<open>48 \<le> k\<close> \<open>k \<le> 57\<close> show ?thesis
    by (intro exI [of _ "k - 48"]) (auto simp: from_hex_char_def hex_digit_def Let_def)
next
  have "\<forall>j \<in> {10..<16}. ''0123456789abcdef'' ! j = (char_of (87 + j) :: char)" by code_simp
  moreover assume "97 \<le> k" "k \<le> 102"
  moreover from this have "k - 87 \<in> {10..<16}" "87 + (k - 87) = k" by auto
  ultimately have "''0123456789abcdef'' ! (k - 87) = (char_of k :: char)" by (metis (no_types))
  with \<open>97 \<le> k\<close> \<open>k \<le> 102\<close> show ?thesis
    by (intro exI [of _ "k - 87"]) (auto simp: from_hex_char_def hex_digit_def Let_def)
qed

lemma isHex_char: "isHex s n \<Longrightarrow> c \<in> set s \<Longrightarrow> \<exists>k < 16. from_hex_char c = Some k \<and> hex_digit k = c"
  using hex_char_digit [of "of_char c"] by (auto simp: isHex_def Let_def)

lemma hex_digit_pair: "h < 16 \<Longrightarrow> l < 16 \<Longrightarrow>
    hex_EncodeToString (char_of (16 * h + l) # bs) = hex_digit h # hex_digit l # hex_EncodeToString bs"
  by (simp add: div_mult_self1 mod_less)

lemma isHex_decode: "isHex s n \<Longrightarrow> even n \<Longrightarrow> \<exists>bs. hex_DecodeString s = Inr bs \<and> hex_EncodeToString bs = s"
proof (induction s arbitrary: n rule: hex_DecodeString.induct)
  case (3 c d s)
  obtain h where h: "h < 16" "from_hex_char c = Some h" "hex_digit h = c" using isHex_char [OF "3.prems"(1)] by auto
  obtain l where l: "l < 16" "from_hex_char d = Some l" "hex_digit l = d" using isHex_char [OF "3.prems"(1)] by auto
  have "isHex s (length s)" "even (length s)" using "3.prems" by (auto simp: isHex_def)
  then obtain bs where "hex_DecodeString s = Inr bs" "hex_EncodeToString bs = s"
    using "3.IH" [OF refl h(2) l(2)] by blast
  with h l show ?case by (intro exI [of _ "char_of (16 * h + l) # bs"]) (simp add: hex_digit_pair del: hex_EncodeToString.simps)
qed (auto simp: isHex_def)

lemma isHex_ParseHex:
  assumes "isHex s 64"
  shows "\<exists>i. ParseHex s = Inr i \<and> BaseID_String i = s"
proof -
  obtain bs where bs: "hex_DecodeString s = Inr bs" "hex_EncodeToString bs = s"
    using isHex_decode [OF assms] by auto
  have "length s = 64" using assms by (simp add: isHex_def)
  moreover from this bs(2) have "length bs = 32" using length_hex_Encode [of bs] by simp
  ultimately show ?thesis using bs by (simp add: ParseHex_def BaseID_String_def)
qed

lemma isHex_append: "isHex s m \<Longrightarrow> isHex t n \<Longrightarrow> isHex (s @ t) (m + n)"
  by (auto simp: isHex_def)

lemma isHex_BaseID: "isHex (take 2 (BaseID_String i)) 2" "isHex (drop 2 (BaseID_String i)) 62"
proof -
  have d: "\<forall>k \<in> {..<16}. let j = of_char (''0123456789abcdef'' ! k) :: nat in (48 \<le> j \<and> j \<le> 57) \<or> (97 \<le> j \<and> j \<le> 102)"
    by code_simp
  have "let j = of_char c :: nat in (48 \<le> j \<and> j \<le> 57) \<or> (97 \<le> j \<and> j \<le> 102)" if "c \<in> set (hex_EncodeToString bs)" for c bs
    using that d by (induction bs) (auto simp: hex_digit_def Let_def)
  then show "isHex (take 2 (BaseID_String i)) 2" "isHex (drop 2 (BaseID_String i)) 62"
    by (auto simp: isHex_def BaseID_String_def simp del: word_bytes_def dest: in_set_takeD in_set_dropD)
qed

lemma object_path_shard:
  "object_path (NewStore varaDir) i = varaDir @ ''/'' @ take 2 (BaseID_String i) @ ''/'' @ drop 2 (BaseID_String i)"
  by (simp add: object_path_def shard_dir_def NewStore_def)

text \<open>A listed object carries the path of its identifier, and every object on disk is listed.\<close>

lemma list_shard_sound:
  "x \<in> set (list_shard varaDir shard fs files) \<Longrightarrow> isHex shard 2 \<Longrightarrow> lo_path x = object_path (NewStore varaDir) (lo_id x)"
proof (induction varaDir shard fs files rule: list_shard.induct)
  case (2 varaDir shard fs name isDir files)
  show ?case
  proof (cases "isDir \<or> \<not> isHex name 62 \<or> x \<in> set (list_shard varaDir shard fs files)")
    case True
    with 2 show ?thesis by (auto simp: Let_def split: if_splits sum.splits)
  next
    case False
    have "isHex (shard @ name) 64" using isHex_append [OF "2.prems"(2), of name 62] False by simp
    from isHex_ParseHex [OF this] obtain i where i: "ParseHex (shard @ name) = Inr i" "BaseID_String i = shard @ name" by blast
    have "length shard = 2" using "2.prems"(2) by (simp add: isHex_def)
    with i False "2.prems"(1) show ?thesis by (auto simp: Let_def object_path_shard)
  qed
qed simp

lemma list_shard_complete:
  "(name, False) \<in> set files \<Longrightarrow> isHex name 62 \<Longrightarrow> ParseHex (shard @ name) = Inr i \<Longrightarrow>
     i \<in> lo_id ` set (list_shard varaDir shard fs files)"
  by (induction varaDir shard fs files rule: list_shard.induct) (auto simp: Let_def split: sum.splits)

lemma list_shards_sound:
  "list_shards ls varaDir fs entries = Inr objs \<Longrightarrow> x \<in> set objs \<Longrightarrow> lo_path x = object_path (NewStore varaDir) (lo_id x)"
  by (induction ls varaDir fs entries arbitrary: objs rule: list_shards.induct)
     (auto simp: bind_res_eq_Inr split: if_splits option.splits intro: list_shard_sound)

lemma list_shards_complete:
  "list_shards ls varaDir fs entries = Inr objs \<Longrightarrow> (shard, True) \<in> set entries \<Longrightarrow> isHex shard 2 \<Longrightarrow>
   ls (varaDir @ ''/'' @ shard) = Some files \<Longrightarrow> set (list_shard varaDir shard fs files) \<subseteq> set objs"
  by (induction ls varaDir fs entries arbitrary: objs rule: list_shards.induct)
     (fastforce simp: bind_res_eq_Inr split: if_splits option.splits)+

lemma list_shards_total:
  "\<forall>shard. (shard, True) \<in> set entries \<longrightarrow> ls (varaDir @ ''/'' @ shard) \<noteq> None \<Longrightarrow> \<exists>objs. list_shards ls varaDir fs entries = Inr objs"
  by (induction ls varaDir fs entries rule: list_shards.induct) fastforce+

lemma listLooseObjects_ok:
  assumes "listing_ok ls varaDir fs"
  obtains objs where "listLooseObjects ls varaDir fs = Inr objs"
    "\<And>x. x \<in> set objs \<Longrightarrow> lo_path x = object_path (NewStore varaDir) (lo_id x)"
    "\<And>i. fs (object_path (NewStore varaDir) i) \<noteq> None \<Longrightarrow> i \<in> lo_id ` set objs"
proof -
  obtain entries where e: "ls varaDir = Some entries"
    and t: "\<forall>shard. (shard, True) \<in> set entries \<longrightarrow> ls (varaDir @ ''/'' @ shard) \<noteq> None"
    and c: "\<And>i. fs (object_path (NewStore varaDir) i) \<noteq> None \<Longrightarrow> (take 2 (BaseID_String i), True) \<in> set entries \<and>
           (\<exists>files. ls (varaDir @ ''/'' @ take 2 (BaseID_String i)) = Some files \<and> (drop 2 (BaseID_String i), False) \<in> set files)"
    using assms unfolding listing_ok_def by blast
  obtain objs where o: "list_shards ls varaDir fs entries = Inr objs" using list_shards_total [OF t] by blast
  show ?thesis
  proof (rule that)
    show "listLooseObjects ls varaDir fs = Inr objs" using e o by (simp add: listLooseObjects_def)
    show "lo_path x = object_path (NewStore varaDir) (lo_id x)" if "x \<in> set objs" for x
      using list_shards_sound [OF o that] .
    fix i
    assume "fs (object_path (NewStore varaDir) i) \<noteq> None"
    from c [OF this] obtain files where f: "(take 2 (BaseID_String i), True) \<in> set entries"
      "ls (varaDir @ ''/'' @ take 2 (BaseID_String i)) = Some files" "(drop 2 (BaseID_String i), False) \<in> set files" by blast
    have "i \<in> lo_id ` set (list_shard varaDir (take 2 (BaseID_String i)) fs files)"
      by (rule list_shard_complete [OF f(3) isHex_BaseID(2)]) simp
    with list_shards_complete [OF o f(1) isHex_BaseID(1) f(2)] show "i \<in> lo_id ` set objs" by blast
  qed
qed


section \<open>The sweep removes exactly the unreachable objects\<close>

lemma sweep_frame:
  "sweep rm del keep xs res fs = (res', fs', r) \<Longrightarrow> fs' p \<noteq> fs p \<Longrightarrow>
     del \<and> fs' p = None \<and> (\<exists>x \<in> set xs. lo_id x \<notin> set keep \<and> p = lo_path x)"
proof (induction rm del keep xs res fs arbitrary: res' fs' rule: sweep.induct)
  case (2 rm del keep x xs res fs)
  show ?case
  proof (cases "lo_id x \<in> set keep \<or> \<not> del \<or> \<not> rm (lo_path x)")
    case True
    with 2 show ?thesis by (auto simp: Let_def split: if_splits)
  next
    case False
    define res1 where "res1 = res\<lparr>Removed := Removed res + 1, BytesFreed := BytesFreed res + lo_size x\<rparr>"
    have s: "sweep rm del keep xs res1 (os_Remove (lo_path x) fs) = (res', fs', r)"
      using "2.prems"(1) False by (simp add: res1_def)
    show ?thesis
    proof (cases "fs' p \<noteq> os_Remove (lo_path x) fs p")
      case True
      with "2.IH"(2) [OF _ res1_def _ _ s] False show ?thesis by auto
    next
      case unchanged: False
      with "2.prems"(2) have "p = lo_path x" "fs' p = None" by (auto simp: os_Remove_def split: if_splits)
      with False show ?thesis by auto
    qed
  qed
qed simp

lemma sweep_removes:
  "sweep rm True keep xs res fs = (res', fs', None) \<Longrightarrow> x \<in> set xs \<Longrightarrow> lo_id x \<notin> set keep \<Longrightarrow> fs' (lo_path x) = None"
proof (induction rm True keep xs res fs arbitrary: res' fs' rule: sweep.induct)
  case (2 rm keep y ys res fs)
  show ?case
  proof (cases "lo_id y \<in> set keep")
    case True
    with 2 show ?thesis by auto
  next
    case False
    define res1 where "res1 = res\<lparr>Removed := Removed res + 1, BytesFreed := BytesFreed res + lo_size y\<rparr>"
    have rm: "rm (lo_path y)" and s: "sweep rm True keep ys res1 (os_Remove (lo_path y) fs) = (res', fs', None)"
      using "2.prems"(1) False by (auto simp: res1_def Let_def split: if_splits)
    show ?thesis
    proof (cases "x \<in> set ys")
      case True
      with "2.hyps"(2) [OF False res1_def _ rm s] "2.prems"(3) show ?thesis by simp
    next
      case notin: False
      with "2.prems"(2) have "x = y" by simp
      have "os_Remove (lo_path y) fs (lo_path y) = None" by (simp add: os_Remove_def)
      with sweep_frame [OF s, of "lo_path y"] show ?thesis unfolding \<open>x = y\<close> by (cases "fs' (lo_path y)") auto
    qed
  qed
qed simp

lemma sweep_total: "\<forall>p. rm p \<Longrightarrow> \<exists>res' fs'. sweep rm del keep xs res fs = (res', fs', None)"
  by (induction rm del keep xs res fs rule: sweep.induct) (auto simp: Let_def)

section \<open>Properties\<close>



text \<open>Garbage collection is complete: when a run that deletes returns without error, the object files left
  on disk are exactly those of objects reachable from the roots. In particular a blob that is only staged in
  the index, which no commit names yet, is gone.\<close>

theorem gc_exact:
  assumes "Collect_gc ord ls rm names z d True fs = (res, fs', None)" "map_order ord" "listing_ok ls d fs"
    and "leaf_ok (Store_Read z (NewStore d) fs)"
  shows "fs' (object_path (NewStore d) i) \<noteq> None \<longleftrightarrow> fs (object_path (NewStore d) i) \<noteq> None
    \<and> i \<in> reaches (Store_Read z (NewStore d) fs) (set (gatherRoots d names (Store_Read z (NewStore d) fs) fs))"
proof -
  let ?rd = "Store_Read z (NewStore d) fs"
  let ?roots = "gatherRoots d names ?rd fs"
  let ?p = "object_path (NewStore d) i"
  obtain objs where o: "listLooseObjects ls d fs = Inr objs"
      "\<And>x. x \<in> set objs \<Longrightarrow> lo_path x = object_path (NewStore d) (lo_id x)"
      "\<And>i. fs (object_path (NewStore d) i) \<noteq> None \<Longrightarrow> i \<in> lo_id ` set objs"
    using assms(3) by (rule listLooseObjects_ok) blast
  obtain keep where k: "(if ?roots = [] then Inr [] else Enumerate ord ?rd ?roots []) = Inr keep"
    using assms(1) by (cases "if ?roots = [] then Inr [] else Enumerate ord ?rd ?roots []") (auto simp: Collect_gc_def Let_def)
  have keep: "reaches ?rd (set ?roots) = set keep"
    using k enumerate_reaches [of ord ?rd ?roots keep] enumerate_within [of ord ?rd ?roots "[]" keep] assms(2,4)
    by (auto split: if_splits)
  have "\<exists>res0. sweep rm True keep objs res0 fs = (res, fs', None)"
    using assms(1) k o(1) by (auto simp: Collect_gc_def Let_def)
  then obtain res0 where s: "sweep rm True keep objs res0 fs = (res, fs', None)" ..
  show ?thesis
  proof (cases "fs ?p \<noteq> None \<and> i \<notin> set keep")
    case True
    then obtain x where x: "x \<in> set objs" "lo_id x = i" using o(3) by blast
    have "fs' ?p = None" using sweep_removes [OF s x(1)] True x o(2) by simp
    with True keep show ?thesis by simp
  next
    case False
    have eq: "fs' ?p = fs ?p"
      using sweep_frame [OF s, of ?p] o(2) False by (metis object_path_inj)
    show ?thesis unfolding keep eq using False by blast
  qed
qed


text \<open>A repository that holds one staged blob and no commit.\<close>

definition staged_fs :: fs where
  "staged_fs = [object_path (NewStore ''v'') (BlobHash ''x'') \<mapsto> Serialize (Blob ''x'')]"

definition staged_ls :: "path \<Rightarrow> (string \<times> bool) list option" where
  "staged_ls p = (if p = ''v'' then Some [(take 2 (BaseID_String (BlobHash ''x'')), True)]
                  else Some [(drop 2 (BaseID_String (BlobHash ''x'')), False)])"

lemma staged_ok:
  "listing_ok staged_ls ''v'' staged_fs" "leaf_ok (Store_Read zstd_id (NewStore ''v'') staged_fs)"
proof -
  show "listing_ok staged_ls ''v'' staged_fs"
    by (auto simp: listing_ok_def staged_ls_def staged_fs_def split: if_splits)
  have "Store_Read zstd_id (NewStore ''v'') staged_fs i \<noteq> Inr (Tree es)" for i es
    using objects.enc_inj [of "Tree es" "Blob ''x''"] by (fastforce simp: Store_Read_Inr staged_fs_def zstd_id_def split: if_splits)
  then show "leaf_ok (Store_Read zstd_id (NewStore ''v'') staged_fs)" by (auto simp: leaf_ok_def readTree_iff)
qed

lemma staged_no_roots: "gatherRoots ''v'' [] rd staged_fs = []"
proof -
  have short: "staged_fs p = None" if "length p < 60" for p
    using that length_object_path [of "NewStore ''v''" "BlobHash ''x''"] by (auto simp: staged_fs_def)
  have "refPath \<lparr>VaraDir = ''v''\<rparr> ''HEAD'' = ''v/HEAD''" "reflogPath \<lparr>log_VaraDir = ''v''\<rparr> ''HEAD'' = ''v/logs/HEAD''"
    by code_simp+
  then have "ref_content \<lparr>VaraDir = ''v''\<rparr> staged_fs ''HEAD'' = None"
      "Reflog_Read \<lparr>log_VaraDir = ''v''\<rparr> staged_fs ''HEAD'' = ([], True)"
    by (simp_all add: ref_content_def Reflog_Read_def short)
  moreover from this(1) have "\<exists>e. Resolve_ref \<lparr>VaraDir = ''v''\<rparr> staged_fs ''HEAD'' = Some (Inl e)"
    unfolding Resolve_ref_def by (subst resolve_loop.simps) (simp add: ref_content_def)
  ultimately show ?thesis by (auto simp: gatherRoots_def List_refs_def Let_def)
qed


theorem gc_exact_witness:
  "\<exists>res fs'. Collect_gc sorted_list_of_set staged_ls (\<lambda>_. True) [] zstd_id ''v'' True staged_fs = (res, fs', None)
     \<and> staged_fs (object_path (NewStore ''v'') (BlobHash ''x'')) \<noteq> None \<and> fs' (object_path (NewStore ''v'') (BlobHash ''x'')) = None"
proof -
  obtain objs where "listLooseObjects staged_ls ''v'' staged_fs = Inr objs"
    using staged_ok(1) by (rule listLooseObjects_ok)
  then obtain res fs' where c: "Collect_gc sorted_list_of_set staged_ls (\<lambda>_. True) [] zstd_id ''v'' True staged_fs = (res, fs', None)"
    using sweep_total [of "\<lambda>_. True"] by (simp add: Collect_gc_def Let_def staged_no_roots) blast
  moreover have "fs' (object_path (NewStore ''v'') (BlobHash ''x'')) = None"
    using gc_exact [OF c sample_map_order staged_ok, of "BlobHash ''x''"] unfolding staged_no_roots by simp
  moreover have "staged_fs (object_path (NewStore ''v'') (BlobHash ''x'')) \<noteq> None" by (simp add: staged_fs_def)
  ultimately show ?thesis by blast
qed

end
