(* ===== verification/Verify_Repo.thy ===== *)
theory Verify_Repo
  imports Garbage_Collection Index_File
begin

text \<open>
  \<^verbatim>\<open>pkg/verify\<close>: the integrity check of a repository. Objects are listed as in garbage collection (\<open>ls\<close> is
  \<^verbatim>\<open>os.ReadDir\<close>), maps are visited in an order \<open>ord\<close>, and a failed type assertion is a panic (\<open>None\<close>). The
  recursive closure \<^verbatim>\<open>dfs\<close> of \<^verbatim>\<open>verifyDAG\<close> is run on an explicit stack of calls (a commit and the parents it
  has still to look at); \<open>dfs_loop_append\<close> is the call and return of the source. Journal and snapshot checks
  parse JSON and tar archives and enter as their results.
\<close>

section \<open>Results\<close>

datatype problem =
    UnreadableShard | InvalidHexName | ReadHashError | MissingEntry string ObjectID | TreeMissing ObjectID
  | ParentMissing ObjectID | CycleThrough ObjectID | CannotResolve | MissingObject ObjectID | ParseError

record CategoryResult =
  Verified :: nat
  Errors :: "(string \<times> problem) list"

definition cr_empty :: CategoryResult where
  "cr_empty = \<lparr>Verified = 0, Errors = []\<rparr>"

definition cr_ok :: "CategoryResult \<Rightarrow> CategoryResult" where
  "cr_ok c = c\<lparr>Verified := Verified c + 1\<rparr>"

definition cr_fail :: "string \<Rightarrow> problem \<Rightarrow> CategoryResult \<Rightarrow> CategoryResult" where
  "cr_fail name p c = c\<lparr>Errors := Errors c @ [(name, p)]\<rparr>"

definition healthy :: "CategoryResult \<Rightarrow> bool" where
  "healthy c \<longleftrightarrow> Errors c = []"

definition short :: "ObjectID \<Rightarrow> string" where
  "short i = take 7 (BaseID_String i)"

section \<open>Phase 1: objects\<close>

record scan =
  sc_result :: CategoryResult
  sc_all :: "ObjectID set"
  sc_trees :: "ObjectID set"
  sc_commits :: "ObjectID set"

fun scan_files :: "reader \<Rightarrow> string \<Rightarrow> (string \<times> bool) list \<Rightarrow> scan \<Rightarrow> scan" where
  "scan_files rd shard [] s = s"
| "scan_files rd shard ((name, isDir) # files) s =
     (if isDir \<or> \<not> isHex name 62 then scan_files rd shard files s
      else case ParseHex (shard @ name) of
             Inl _ \<Rightarrow> scan_files rd shard files (s\<lparr>sc_result := cr_fail (shard @ name) InvalidHexName (sc_result s)\<rparr>)
           | Inr i \<Rightarrow>
               (case rd i of
                  Inl _ \<Rightarrow> scan_files rd shard files (s\<lparr>sc_result := cr_fail (take 7 (shard @ name)) ReadHashError (sc_result s)\<rparr>)
                | Inr obj \<Rightarrow>
                    scan_files rd shard files
                      \<lparr>sc_result = cr_ok (sc_result s), sc_all = insert i (sc_all s),
                       sc_trees = (case obj of Tree _ \<Rightarrow> insert i (sc_trees s) | _ \<Rightarrow> sc_trees s),
                       sc_commits = (case obj of CommitObj _ \<Rightarrow> insert i (sc_commits s) | _ \<Rightarrow> sc_commits s)\<rparr>))"

fun scan_shards :: "(path \<Rightarrow> (string \<times> bool) list option) \<Rightarrow> path \<Rightarrow> reader \<Rightarrow> (string \<times> bool) list \<Rightarrow> scan \<Rightarrow> scan" where
  "scan_shards ls varaDir rd [] s = s"
| "scan_shards ls varaDir rd ((shard, isDir) # entries) s =
     (if \<not> isDir \<or> \<not> isHex shard 2 then scan_shards ls varaDir rd entries s
      else case ls (varaDir @ ''/'' @ shard) of
             None \<Rightarrow> scan_shards ls varaDir rd entries (s\<lparr>sc_result := cr_fail shard UnreadableShard (sc_result s)\<rparr>)
           | Some files \<Rightarrow> scan_shards ls varaDir rd entries (scan_files rd shard files s))"

definition scanObjects :: "(path \<Rightarrow> (string \<times> bool) list option) \<Rightarrow> path \<Rightarrow> reader \<Rightarrow> verr + scan" where
  "scanObjects ls varaDir rd =
     (case ls varaDir of
        None \<Rightarrow> Inl ErrIO
      | Some entries \<Rightarrow>
          Inr (scan_shards ls varaDir rd entries \<lparr>sc_result = cr_empty, sc_all = {}, sc_trees = {}, sc_commits = {}\<rparr>))"

section \<open>Phases 2 and 3: trees and commits\<close>

definition check_entries :: "ObjectID set \<Rightarrow> string \<Rightarrow> TreeEntry list \<Rightarrow> CategoryResult \<Rightarrow> CategoryResult" where
  "check_entries allObjects name es c =
     fold (\<lambda>e c. if te_Hash e \<in> allObjects then c else cr_fail name (MissingEntry (te_Name e) (te_Hash e)) c) es c"

fun verifyTrees :: "reader \<Rightarrow> ObjectID set \<Rightarrow> ObjectID list \<Rightarrow> CategoryResult \<Rightarrow> CategoryResult option" where
  "verifyTrees rd allObjects [] c = Some c"
| "verifyTrees rd allObjects (i # ids) c =
     (case rd i of
        Inr (Tree es) \<Rightarrow>
          (let c1 = check_entries allObjects (short i) es c in
           verifyTrees rd allObjects ids
             (if \<forall>e \<in> set es. te_Hash e \<in> allObjects then cr_ok c1 else c1))
      | _ \<Rightarrow> None)"

definition check_parents :: "ObjectID set \<Rightarrow> string \<Rightarrow> CommitID list \<Rightarrow> CategoryResult \<Rightarrow> CategoryResult" where
  "check_parents allObjects name ps c =
     fold (\<lambda>p c. if p \<in> allObjects then c else cr_fail name (ParentMissing p) c) ps c"

fun verifyCommits ::
    "reader \<Rightarrow> ObjectID set \<Rightarrow> ObjectID list \<Rightarrow> (ObjectID \<rightharpoonup> ObjectID list) \<Rightarrow> CategoryResult
     \<Rightarrow> ((ObjectID \<rightharpoonup> ObjectID list) \<times> CategoryResult) option" where
  "verifyCommits rd allObjects [] dag c = Some (dag, c)"
| "verifyCommits rd allObjects (i # ids) dag c =
     (case rd i of
        Inr (CommitObj cm) \<Rightarrow>
          (let c1 = (if TreeHash cm \<in> allObjects then c else cr_fail (short i) (TreeMissing (TreeHash cm)) c);
               c2 = check_parents allObjects (short i) (Parents cm) c1
           in verifyCommits rd allObjects ids (dag(i \<mapsto> Parents cm))
                (if TreeHash cm \<in> allObjects \<and> (\<forall>p \<in> set (Parents cm). p \<in> allObjects) then cr_ok c2 else c2))
      | _ \<Rightarrow> None)"

section \<open>Phase 4: cycles\<close>

definition parents_of :: "(ObjectID \<rightharpoonup> ObjectID list) \<Rightarrow> ObjectID \<Rightarrow> ObjectID list" where
  "parents_of dag i = (case dag i of None \<Rightarrow> [] | Some ps \<Rightarrow> ps)"

record colors =
  grey :: "ObjectID set"
  black :: "ObjectID set"

type_synonym frame = "ObjectID \<times> ObjectID list"

text \<open>The result \<open>Some (id, parent)\<close> is the pair of the failure message; \<open>None\<close> is the answer \<^verbatim>\<open>false\<close>.\<close>

function dfs_loop ::
    "(ObjectID \<rightharpoonup> ObjectID list) \<Rightarrow> frame list \<Rightarrow> colors \<Rightarrow> colors \<times> (ObjectID \<times> ObjectID) option" where
  "dfs_loop dag [] col = (col, None)"
| "dfs_loop dag ((i, []) # st) col = dfs_loop dag st \<lparr>grey = grey col - {i}, black = insert i (black col)\<rparr>"
| "dfs_loop dag ((i, p # ps) # st) col =
     (if p \<in> grey col then (col, Some (i, p))
      else if p \<notin> grey col \<union> black col
      then dfs_loop dag ((p, parents_of dag p) # (i, ps) # st) (col\<lparr>grey := insert p (grey col)\<rparr>)
      else dfs_loop dag ((i, ps) # st) col)"
  by pat_completeness auto

definition white_count :: "colors \<Rightarrow> nat" where
  "white_count col = card (UNIV - (grey col \<union> black col))"

definition pending :: "frame list \<Rightarrow> nat" where
  "pending st = sum_list (map (\<lambda>(i, ps). Suc (length ps)) st)"

termination dfs_loop
proof (relation "measures [\<lambda>(dag, st, col). white_count col, \<lambda>(dag, st, col). pending st]", goal_cases)
  case (2 dag i st col)
  have "UNIV - ((grey col - {i}) \<union> insert i (black col)) \<subseteq> UNIV - (grey col \<union> black col)" by auto
  then have "white_count \<lparr>grey = grey col - {i}, black = insert i (black col)\<rparr> \<le> white_count col"
    unfolding white_count_def by (intro card_mono) auto
  then show ?case by (auto simp: pending_def le_less)
next
  case (3 dag i p ps st col)
  then have "white_count (col\<lparr>grey := insert p (grey col)\<rparr>) < white_count col"
    unfolding white_count_def by (intro psubset_card_mono) auto
  then show ?case by simp
next
  case (4 dag i p ps st col)
  then show ?case by (simp add: pending_def)
qed simp

definition dfs :: "(ObjectID \<rightharpoonup> ObjectID list) \<Rightarrow> ObjectID \<Rightarrow> colors \<Rightarrow> colors \<times> (ObjectID \<times> ObjectID) option" where
  "dfs dag i col = dfs_loop dag [(i, parents_of dag i)] (col\<lparr>grey := insert i (grey col)\<rparr>)"

fun dag_loop :: "(ObjectID \<rightharpoonup> ObjectID list) \<Rightarrow> ObjectID list \<Rightarrow> colors \<Rightarrow> (ObjectID \<times> ObjectID) option" where
  "dag_loop dag [] col = None"
| "dag_loop dag (i # ids) col =
     (if i \<in> grey col \<union> black col then dag_loop dag ids col
      else case dfs dag i col of
             (col', Some e) \<Rightarrow> Some e
           | (col', None) \<Rightarrow> dag_loop dag ids col')"

definition verifyDAG :: "(ObjectID set \<Rightarrow> ObjectID list) \<Rightarrow> (ObjectID \<rightharpoonup> ObjectID list) \<Rightarrow> CategoryResult \<Rightarrow> CategoryResult" where
  "verifyDAG ord dag c =
     (case dag_loop dag (ord (dom dag)) \<lparr>grey = {}, black = {}\<rparr> of
        Some (i, p) \<Rightarrow> cr_fail (short i) (CycleThrough p) c
      | None \<Rightarrow> c\<lparr>Verified := card (dom dag)\<rparr>)"

section \<open>Phases 5 and 6: references and index\<close>

definition verify_target :: "ObjectID set \<Rightarrow> string \<Rightarrow> ObjectID \<Rightarrow> CategoryResult \<Rightarrow> CategoryResult" where
  "verify_target allObjects name i c = (if i \<in> allObjects then cr_ok c else cr_fail name (MissingObject i) c)"

definition verifyRefs :: "path \<Rightarrow> string list \<Rightarrow> fs \<Rightarrow> ObjectID set \<Rightarrow> CategoryResult \<Rightarrow> CategoryResult" where
  "verifyRefs varaDir names fs allObjects c =
     (let r = \<lparr>VaraDir = varaDir\<rparr>;
          c1 = (case Resolve_ref r fs ''HEAD'' of
                  Some (Inr i) \<Rightarrow> verify_target allObjects ''HEAD'' i c
                | _ \<Rightarrow> cr_fail ''HEAD'' CannotResolve c)
      in fold (\<lambda>ref. verify_target allObjects (ref_Name ref) (ref_ObjectID ref)) (List_refs r fs names) c1)"

definition verifyIndex :: "path \<Rightarrow> fs \<Rightarrow> CategoryResult \<Rightarrow> CategoryResult" where
  "verifyIndex varaDir fs c =
     (case fs (filepath_Join varaDir ''index'') of
        None \<Rightarrow> cr_ok c
      | Some data \<Rightarrow>
          if data = [] then cr_ok c
          else case Index_Deserialize data of Inl _ \<Rightarrow> cr_fail ''index'' ParseError c | Inr _ \<Rightarrow> cr_ok c)"

section \<open>The report\<close>

record Report =
  rp_Objects :: CategoryResult
  rp_Trees :: CategoryResult
  rp_Commits :: CategoryResult
  rp_Refs :: CategoryResult
  rp_Index :: CategoryResult
  rp_Journal :: CategoryResult
  rp_Snapshots :: CategoryResult
  rp_Graph :: CategoryResult

definition Healthy :: "Report \<Rightarrow> bool" where
  "Healthy r \<longleftrightarrow> healthy (rp_Objects r) \<and> healthy (rp_Trees r) \<and> healthy (rp_Commits r) \<and> healthy (rp_Refs r)
     \<and> healthy (rp_Index r) \<and> healthy (rp_Journal r) \<and> healthy (rp_Snapshots r) \<and> healthy (rp_Graph r)"

definition Verify ::
    "(ObjectID set \<Rightarrow> ObjectID list) \<Rightarrow> (path \<Rightarrow> (string \<times> bool) list option) \<Rightarrow> string list \<Rightarrow> CategoryResult \<Rightarrow> CategoryResult
     \<Rightarrow> zstd \<Rightarrow> path \<Rightarrow> fs \<Rightarrow> (verr + Report) option" where
  "Verify ord ls names journal snapshots z varaDir fs =
     (let rd = Store_Read z (NewStore varaDir) fs in
      case scanObjects ls varaDir rd of
        Inl e \<Rightarrow> Some (Inl e)
      | Inr s \<Rightarrow>
          (case verifyTrees rd (sc_all s) (ord (sc_trees s)) cr_empty of
             None \<Rightarrow> None
           | Some trees \<Rightarrow>
               (case verifyCommits rd (sc_all s) (ord (sc_commits s)) Map.empty cr_empty of
                  None \<Rightarrow> None
                | Some (dag, commits) \<Rightarrow>
                    Some (Inr \<lparr>rp_Objects = sc_result s, rp_Trees = trees, rp_Commits = commits,
                      rp_Refs = verifyRefs varaDir names fs (sc_all s) cr_empty,
                      rp_Index = verifyIndex varaDir fs cr_empty, rp_Journal = journal, rp_Snapshots = snapshots,
                      rp_Graph = verifyDAG ord dag cr_empty\<rparr>))))"

section \<open>Cycle detection is exact\<close>

text \<open>A call is run to its end before the caller goes on; a cycle found in it ends both.\<close>

lemma dfs_loop_append:
  "dfs_loop dag (st @ st') col =
     (case dfs_loop dag st col of (col', None) \<Rightarrow> dfs_loop dag st' col' | (col', Some e) \<Rightarrow> (col', Some e))"
  by (induction dag st col rule: dfs_loop.induct) auto

definition edges :: "(ObjectID \<rightharpoonup> ObjectID list) \<Rightarrow> (ObjectID \<times> ObjectID) set" where
  "edges dag = {(x, p). p \<in> set (parents_of dag x)}"

text \<open>Frames from the innermost call outwards: what a call no longer has to look at is finished or is the
  call it waits for (\<open>A\<close>).\<close>

fun stack_ok :: "(ObjectID \<rightharpoonup> ObjectID list) \<Rightarrow> ObjectID set \<Rightarrow> ObjectID set \<Rightarrow> frame list \<Rightarrow> bool" where
  "stack_ok dag B A [] \<longleftrightarrow> True"
| "stack_ok dag B A ((i, ps) # st) \<longleftrightarrow> A \<union> set ps \<subseteq> set (parents_of dag i)
     \<and> set (parents_of dag i) \<subseteq> set ps \<union> B \<union> A \<and> stack_ok dag B {i} st"

definition dfs_inv :: "(ObjectID \<rightharpoonup> ObjectID list) \<Rightarrow> frame list \<Rightarrow> colors \<Rightarrow> bool" where
  "dfs_inv dag st col \<longleftrightarrow> grey col = fst ` set st \<and> distinct (map fst st) \<and> grey col \<inter> black col = {}
     \<and> stack_ok dag (black col) {} st \<and> edges dag `` black col \<subseteq> black col
     \<and> (\<forall>x \<in> black col. (x, x) \<notin> (edges dag)\<^sup>+)"

lemma stack_ok_mono: "stack_ok dag B A st \<Longrightarrow> B \<subseteq> B' \<Longrightarrow> stack_ok dag B' A st"
  by (induction dag B A st rule: stack_ok.induct) auto

lemma stack_ok_return: "stack_ok dag B {i} st \<Longrightarrow> stack_ok dag (insert i B) {} st"
  by (cases st) (auto intro: stack_ok_mono)

lemma stack_ok_path: "stack_ok dag B {i} st \<Longrightarrow> j \<in> fst ` set st \<Longrightarrow> (j, i) \<in> (edges dag)\<^sup>+"
proof (induction st arbitrary: i)
  case (Cons f st)
  obtain k ps where f: "f = (k, ps)" by (cases f)
  with Cons.prems have k: "(k, i) \<in> edges dag" "stack_ok dag B {k} st" by (auto simp: edges_def)
  show ?case
  proof (cases "j = k")
    case False
    with Cons.prems f have "(j, k) \<in> (edges dag)\<^sup>+" by (intro Cons.IH [OF k(2)]) auto
    with k(1) show ?thesis by (rule trancl_into_trancl [rotated])
  qed (use k in auto)
qed simp

lemma closed_trancl: "r `` B \<subseteq> B \<Longrightarrow> (x, y) \<in> r\<^sup>+ \<Longrightarrow> r `` {x} \<subseteq> B \<Longrightarrow> y \<in> B"
  by (erule trancl_induct) auto

lemma dfs_inv_return:
  assumes "dfs_inv dag ((i, []) # st) col"
  shows "dfs_inv dag st \<lparr>grey = grey col - {i}, black = insert i (black col)\<rparr>"
proof -
  have i: "edges dag `` {i} \<subseteq> black col" "edges dag `` black col \<subseteq> black col" "i \<notin> black col"
    using assms by (auto simp: dfs_inv_def edges_def)
  then have "(i, i) \<notin> (edges dag)\<^sup>+" using closed_trancl [of "edges dag" "black col" i i] by blast
  with assms i stack_ok_return [of dag "black col" i st] show ?thesis by (auto simp: dfs_inv_def)
qed

lemma dfs_inv_call:
  "dfs_inv dag ((i, p # ps) # st) col \<Longrightarrow> p \<notin> grey col \<union> black col \<Longrightarrow>
     dfs_inv dag ((p, parents_of dag p) # (i, ps) # st) (col\<lparr>grey := insert p (grey col)\<rparr>)"
  by (auto simp: dfs_inv_def)

lemma dfs_inv_skip: "dfs_inv dag ((i, p # ps) # st) col \<Longrightarrow> p \<in> black col \<Longrightarrow> dfs_inv dag ((i, ps) # st) col"
  by (auto simp: dfs_inv_def)

lemma dfs_loop_exact:
  "dfs_inv dag st col \<Longrightarrow> dfs_loop dag st col = (col', r) \<Longrightarrow>
     (case r of None \<Rightarrow> dfs_inv dag [] col' \<and> fst ` set st \<union> black col \<subseteq> black col'
      | Some (i, p) \<Rightarrow> (i, p) \<in> edges dag \<and> (p, i) \<in> (edges dag)\<^sup>*)"
proof (induction dag st col rule: dfs_loop.induct)
  case (2 dag i st col)
  from "2.IH" [OF dfs_inv_return [OF "2.prems"(1)]] "2.prems"(2) show ?case by (auto split: option.splits)
next
  case (3 dag i p ps st col)
  consider "p \<in> grey col" | "p \<notin> grey col \<union> black col" | "p \<notin> grey col" "p \<in> black col" by blast
  then show ?case
  proof cases
    case 1
    with "3.prems" have "p = i \<or> p \<in> fst ` set st" "stack_ok dag (black col) {i} st" "p \<in> set (parents_of dag i)"
      by (auto simp: dfs_inv_def)
    with stack_ok_path [of dag "black col" i st p] have "(p, i) \<in> (edges dag)\<^sup>*" by (auto intro: trancl_into_rtrancl)
    moreover have "(i, p) \<in> edges dag" using \<open>p \<in> set (parents_of dag i)\<close> by (simp add: edges_def)
    ultimately
    show ?thesis using 1 "3.prems"(2) by auto
  next
    case 2
    from "3.IH"(1) [OF _ _ dfs_inv_call [OF "3.prems"(1) 2]] 2 "3.prems"(2) show ?thesis by (auto split: option.splits)
  next
    case 3
    from "3.IH"(2) [OF _ _ dfs_inv_skip [OF "3.prems"(1) 3(2)]] 3 "3.prems"(2) show ?thesis by (auto split: option.splits)
  qed
qed auto

lemma dfs_inv_start:
  "dfs_inv dag [] col \<Longrightarrow> i \<notin> black col \<Longrightarrow>
     dfs_inv dag [(i, parents_of dag i)] (col\<lparr>grey := insert i (grey col)\<rparr>)"
  by (auto simp: dfs_inv_def)

lemma dag_loop_exact:
  "dfs_inv dag [] col \<Longrightarrow>
     (case dag_loop dag ids col of
        None \<Rightarrow> \<exists>col'. dfs_inv dag [] col' \<and> set ids \<union> black col \<subseteq> black col'
      | Some (i, p) \<Rightarrow> (i, p) \<in> edges dag \<and> (p, i) \<in> (edges dag)\<^sup>*)"
proof (induction dag ids col rule: dag_loop.induct)
  case (2 dag i ids col)
  show ?case
  proof (cases "i \<in> grey col \<union> black col")
    case True
    with "2.prems" have "i \<in> black col" by (auto simp: dfs_inv_def)
    then show ?thesis using True "2.IH"(1) [OF True "2.prems"] by (auto split: option.splits)
  next
    case False
    obtain col' r where d: "dfs dag i col = (col', r)" by fastforce
    from False have "i \<notin> black col" by simp
    from dfs_loop_exact [OF dfs_inv_start [OF "2.prems" this] d [unfolded dfs_def]]
    have e: "case r of None \<Rightarrow> dfs_inv dag [] col' \<and> insert i (black col) \<subseteq> black col'
             | Some (i, p) \<Rightarrow> (i, p) \<in> edges dag \<and> (p, i) \<in> (edges dag)\<^sup>*" by (auto split: option.splits)
    show ?thesis
    proof (cases r)
      case None
      with e have c: "dfs_inv dag [] col'" "insert i (black col) \<subseteq> black col'" by auto
      from "2.IH"(2) [OF False d [symmetric] None c(1)] c(2) show ?thesis
        using False d None by (auto split: option.splits)
    qed (use e False d in auto)
  qed
qed (auto split: option.splits)


lemma cycle_in_dom: "(x, x) \<in> (edges dag)\<^sup>+ \<Longrightarrow> x \<in> dom dag"
  by (erule converse_tranclE) (cases "dag x"; simp add: edges_def parents_of_def domIff)+

lemma dfs_inv_empty: "dfs_inv dag [] \<lparr>grey = {}, black = {}\<rparr>"
  by (simp add: dfs_inv_def)

lemma dag_exact:
  assumes "map_order ord"
  shows "healthy (verifyDAG ord dag cr_empty) \<longleftrightarrow> acyclic {(x, p). p \<in> set (parents_of dag x)}"
    and "\<forall>(name, e) \<in> set (Errors (verifyDAG ord dag cr_empty)). \<exists>i p. name = short i \<and> e = CycleThrough p
          \<and> p \<in> set (parents_of dag i) \<and> (p, i) \<in> {(x, p). p \<in> set (parents_of dag x)}\<^sup>*"
proof -
  have ord: "set (ord (dom dag)) = dom dag" using assms by (simp add: map_order_def)
  note x = dag_loop_exact [OF dfs_inv_empty, of dag "ord (dom dag)"]
  have "acyclic (edges dag)" if "dag_loop dag (ord (dom dag)) \<lparr>grey = {}, black = {}\<rparr> = None"
  proof -
    from x that ord obtain col where "dfs_inv dag [] col" "dom dag \<subseteq> black col" by auto
    then have "(y, y) \<notin> (edges dag)\<^sup>+" if "y \<in> dom dag" for y using that unfolding dfs_inv_def by blast
    then show ?thesis using cycle_in_dom unfolding acyclic_def by blast
  qed
  moreover have "\<not> acyclic (edges dag) \<and> (i, p) \<in> edges dag \<and> (p, i) \<in> (edges dag)\<^sup>*"
    if "dag_loop dag (ord (dom dag)) \<lparr>grey = {}, black = {}\<rparr> = Some (i, p)" for i p
  proof -
    from x that have e: "(i, p) \<in> edges dag" "(p, i) \<in> (edges dag)\<^sup>*" by simp_all
    from rtrancl_into_trancl2 [OF this] e show ?thesis by (auto simp: acyclic_def)
  qed
  ultimately show "healthy (verifyDAG ord dag cr_empty) \<longleftrightarrow> acyclic {(x, p). p \<in> set (parents_of dag x)}"
    and "\<forall>(name, e) \<in> set (Errors (verifyDAG ord dag cr_empty)). \<exists>i p. name = short i \<and> e = CycleThrough p
          \<and> p \<in> set (parents_of dag i) \<and> (p, i) \<in> {(x, p). p \<in> set (parents_of dag x)}\<^sup>*"
    by (auto simp: verifyDAG_def healthy_def cr_empty_def cr_fail_def edges_def split: option.splits)
qed

text \<open>The cycle check is exact: in whatever order Go visits the map of commits, no error is recorded
  precisely when the parent relation of the map has no cycle, and an error names a commit and one of its parents from which
  the commit is reached again. (The search itself always ends: \<open>dfs_loop\<close> is a total function.)\<close>

theorem verify_dag_exact:
  assumes "map_order ord"
  shows "(healthy (verifyDAG ord dag cr_empty) \<longleftrightarrow> acyclic {(x, p). p \<in> set (parents_of dag x)})
    \<and> (\<forall>(name, e) \<in> set (Errors (verifyDAG ord dag cr_empty)). \<exists>i p. name = short i \<and> e = CycleThrough p
          \<and> p \<in> set (parents_of dag i) \<and> (p, i) \<in> {(x, p). p \<in> set (parents_of dag x)}\<^sup>*)"
  by (intro conjI dag_exact [OF assms])

theorem verify_dag_exact_witness:
  "\<not> healthy (verifyDAG sorted_list_of_set [1 \<mapsto> [2], 2 \<mapsto> [1]] cr_empty)"
proof -
  let ?dag = "[1 \<mapsto> [2], 2 \<mapsto> [1]] :: ObjectID \<rightharpoonup> ObjectID list"
  have "(1, 2) \<in> {(x, p). p \<in> set (parents_of ?dag x)}" "(2, 1) \<in> {(x, p). p \<in> set (parents_of ?dag x)}"
    by (simp_all add: parents_of_def)
  then have "(1, 1) \<in> {(x, p). p \<in> set (parents_of ?dag x)}\<^sup>+" by (meson r_into_trancl' trancl_into_trancl)
  then have "\<not> acyclic {(x, p). p \<in> set (parents_of ?dag x)}" by (auto simp: acyclic_def)
  with verify_dag_exact [OF sample_map_order, of ?dag] show ?thesis by blast
qed

section \<open>A healthy report\<close>

lemma errors_grow [simp]: "Errors (cr_ok c) = Errors c" "Errors (cr_fail n p c) = Errors c @ [(n, p)]"
  by (simp_all add: cr_ok_def cr_fail_def)

text \<open>The identifiers collected are those of objects that were read, and the two kinds are told apart.\<close>

definition scan_ok :: "reader \<Rightarrow> scan \<Rightarrow> bool" where
  "scan_ok rd s \<longleftrightarrow> (\<forall>i \<in> sc_all s. \<exists>obj. rd i = Inr obj)
     \<and> sc_trees s = {i \<in> sc_all s. \<exists>es. rd i = Inr (Tree es)}
     \<and> sc_commits s = {i \<in> sc_all s. \<exists>cm. rd i = Inr (CommitObj cm)}"

lemma scan_files_ok: "scan_ok rd s \<Longrightarrow> scan_ok rd (scan_files rd shard files s)"
proof (induction rd shard files s rule: scan_files.induct)
  case (2 rd shard name isDir files s)
  have "scan_ok rd \<lparr>sc_result = r, sc_all = insert i (sc_all s),
      sc_trees = (case obj of Tree _ \<Rightarrow> insert i (sc_trees s) | _ \<Rightarrow> sc_trees s),
      sc_commits = (case obj of CommitObj _ \<Rightarrow> insert i (sc_commits s) | _ \<Rightarrow> sc_commits s)\<rparr>"
    if "rd i = Inr obj" for i obj r
    using that "2.prems" by (auto simp: scan_ok_def split: Object.splits)
  moreover have "scan_ok rd (s\<lparr>sc_result := r\<rparr>)" for r using "2.prems" by (simp add: scan_ok_def)
  ultimately show ?case using 2 by (auto split: sum.splits)
qed simp

lemma scan_shards_ok: "scan_ok rd s \<Longrightarrow> scan_ok rd (scan_shards ls varaDir rd entries s)"
proof (induction ls varaDir rd entries s rule: scan_shards.induct)
  case (2 ls varaDir rd shard isDir entries s)
  have "scan_ok rd (s\<lparr>sc_result := r\<rparr>)" for r using "2.prems" by (simp add: scan_ok_def)
  with 2 scan_files_ok show ?case by (auto split: option.splits)
qed simp

lemma scanObjects_ok: "scanObjects ls varaDir rd = Inr s \<Longrightarrow> scan_ok rd s"
  unfolding scanObjects_def by (auto split: option.splits intro!: scan_shards_ok) (simp add: scan_ok_def)

lemma errors_if: "Errors (if b then cr_ok c else c) = Errors c"
  by simp

lemma check_entries_Errors:
  "Errors (check_entries A name es c) = [] \<longleftrightarrow> Errors c = [] \<and> te_Hash ` set es \<subseteq> A"
  unfolding check_entries_def by (induction es arbitrary: c) auto

lemma check_parents_Errors: "Errors (check_parents A name ps c) = [] \<longleftrightarrow> Errors c = [] \<and> set ps \<subseteq> A"
  unfolding check_parents_def by (induction ps arbitrary: c) auto

lemma verifyTrees_spec:
  "\<forall>i \<in> set ids. \<exists>es. rd i = Inr (Tree es) \<Longrightarrow>
     \<exists>c'. verifyTrees rd A ids c = Some c' \<and> (Errors c' = [] \<longleftrightarrow> Errors c = [] \<and>
       (\<forall>i \<in> set ids. \<forall>es. rd i = Inr (Tree es) \<longrightarrow> te_Hash ` set es \<subseteq> A))"
proof (induction ids arbitrary: c)
  case (Cons i ids)
  then obtain es where es: "rd i = Inr (Tree es)" and ids: "\<forall>i \<in> set ids. \<exists>es. rd i = Inr (Tree es)" by auto
  let ?c = "check_entries A (short i) es c"
  obtain c' where "verifyTrees rd A ids (if \<forall>e \<in> set es. te_Hash e \<in> A then cr_ok ?c else ?c) = Some c'"
      "Errors c' = [] \<longleftrightarrow> Errors ?c = [] \<and>
        (\<forall>i \<in> set ids. \<forall>es. rd i = Inr (Tree es) \<longrightarrow> te_Hash ` set es \<subseteq> A)"
    using Cons.IH [OF ids, of "if \<forall>e \<in> set es. te_Hash e \<in> A then cr_ok ?c else ?c"]
    unfolding errors_if by blast
  with es show ?case by (simp add: Let_def check_entries_Errors)
qed simp

lemma verifyCommits_spec:
  "\<forall>i \<in> set ids. \<exists>cm. rd i = Inr (CommitObj cm) \<Longrightarrow>
     \<exists>dag' c'. verifyCommits rd A ids dag c = Some (dag', c')
       \<and> (\<forall>i. dag' i = (if i \<in> set ids then (case rd i of Inr (CommitObj cm) \<Rightarrow> Some (Parents cm) | _ \<Rightarrow> None) else dag i))
       \<and> (Errors c' = [] \<longleftrightarrow> Errors c = [] \<and>
         (\<forall>i \<in> set ids. \<forall>cm. rd i = Inr (CommitObj cm) \<longrightarrow> insert (TreeHash cm) (set (Parents cm)) \<subseteq> A))"
proof (induction ids arbitrary: c dag)
  case (Cons i ids)
  then obtain cm where cm: "rd i = Inr (CommitObj cm)" and ids: "\<forall>i \<in> set ids. \<exists>cm. rd i = Inr (CommitObj cm)" by auto
  let ?c1 = "if TreeHash cm \<in> A then c else cr_fail (short i) (TreeMissing (TreeHash cm)) c"
  let ?c2 = "check_parents A (short i) (Parents cm) ?c1"
  let ?c3 = "if TreeHash cm \<in> A \<and> (\<forall>p \<in> set (Parents cm). p \<in> A) then cr_ok ?c2 else ?c2"
  have "Errors ?c3 = [] \<longleftrightarrow> Errors c = [] \<and> insert (TreeHash cm) (set (Parents cm)) \<subseteq> A"
    by (auto simp: check_parents_Errors)
  moreover obtain dag' c' where "verifyCommits rd A ids (dag(i \<mapsto> Parents cm)) ?c3 = Some (dag', c')"
      "\<forall>j. dag' j = (if j \<in> set ids then (case rd j of Inr (CommitObj cm) \<Rightarrow> Some (Parents cm) | _ \<Rightarrow> None)
         else (dag(i \<mapsto> Parents cm)) j)"
      "Errors c' = [] \<longleftrightarrow> Errors ?c3 = [] \<and>
         (\<forall>i \<in> set ids. \<forall>cm. rd i = Inr (CommitObj cm) \<longrightarrow> insert (TreeHash cm) (set (Parents cm)) \<subseteq> A)"
    using Cons.IH [OF ids, of "dag(i \<mapsto> Parents cm)" ?c3] by blast
  ultimately show ?case using cm by (simp add: Let_def)
qed simp

lemma verifyRefs_Errors:
  "Errors (verifyRefs d names fs A cr_empty) = [] \<longleftrightarrow>
     (\<exists>i \<in> A. Resolve_ref \<lparr>VaraDir = d\<rparr> fs ''HEAD'' = Some (Inr i))
     \<and> ref_ObjectID ` set (List_refs \<lparr>VaraDir = d\<rparr> fs names) \<subseteq> A"
proof -
  have "Errors (fold (\<lambda>ref. verify_target A (ref_Name ref) (ref_ObjectID ref)) rs c) = []
      \<longleftrightarrow> Errors c = [] \<and> ref_ObjectID ` set rs \<subseteq> A" for rs c
    by (induction rs arbitrary: c) (auto simp: verify_target_def)
  then show ?thesis
    by (auto simp: verifyRefs_def Let_def verify_target_def cr_empty_def split: option.splits sum.splits)
qed


text \<open>The check itself never panics: the type assertions of the later phases are on identifiers the first
  phase has sorted by kind.\<close>

lemma VerifyE:
  assumes "map_order ord" "scanObjects ls d (Store_Read z (NewStore d) fs) = Inr s"
  obtains r where "Verify ord ls names journal snapshots z d fs = Some (Inr r)"
    "rp_Journal r = journal" "rp_Snapshots r = snapshots" "rp_Objects r = sc_result s"
    "rp_Index r = verifyIndex d fs cr_empty" "rp_Refs r = verifyRefs d names fs (sc_all s) cr_empty"
    "healthy (rp_Trees r) \<longleftrightarrow> (\<forall>i \<in> sc_all s. \<forall>es. Store_Read z (NewStore d) fs i = Inr (Tree es) \<longrightarrow> te_Hash ` set es \<subseteq> sc_all s)"
    "healthy (rp_Commits r) \<longleftrightarrow> (\<forall>i \<in> sc_all s. \<forall>cm. Store_Read z (NewStore d) fs i = Inr (CommitObj cm)
       \<longrightarrow> insert (TreeHash cm) (set (Parents cm)) \<subseteq> sc_all s)"
    "healthy (rp_Graph r) \<longleftrightarrow> acyclic {(x, p). x \<in> sc_all s \<and> (x, p) \<in> parent_rel (Store_Read z (NewStore d) fs)}"
proof -
  let ?rd = "Store_Read z (NewStore d) fs"
  from assms(1) have ord: "set (ord S) = S" for S by (simp add: map_order_def)
  have empty: "Errors cr_empty = [] \<longleftrightarrow> True" by (simp add: cr_empty_def)
  from scanObjects_ok [OF assms(2)] have s: "sc_trees s = {i \<in> sc_all s. \<exists>es. ?rd i = Inr (Tree es)}"
      "sc_commits s = {i \<in> sc_all s. \<exists>cm. ?rd i = Inr (CommitObj cm)}"
    by (auto simp: scan_ok_def)
  obtain ct where t: "verifyTrees ?rd (sc_all s) (ord (sc_trees s)) cr_empty = Some ct"
      "Errors ct = [] \<longleftrightarrow> (\<forall>i \<in> sc_trees s. \<forall>es. ?rd i = Inr (Tree es) \<longrightarrow> te_Hash ` set es \<subseteq> sc_all s)"
    using verifyTrees_spec [of "ord (sc_trees s)" ?rd "sc_all s" cr_empty] unfolding ord empty using s(1) by blast
  obtain dag cc where c: "verifyCommits ?rd (sc_all s) (ord (sc_commits s)) Map.empty cr_empty = Some (dag, cc)"
      "\<forall>i. dag i = (if i \<in> sc_commits s then (case ?rd i of Inr (CommitObj cm) \<Rightarrow> Some (Parents cm) | _ \<Rightarrow> None) else None)"
      "Errors cc = [] \<longleftrightarrow>
         (\<forall>i \<in> sc_commits s. \<forall>cm. ?rd i = Inr (CommitObj cm) \<longrightarrow> insert (TreeHash cm) (set (Parents cm)) \<subseteq> sc_all s)"
    using verifyCommits_spec [of "ord (sc_commits s)" ?rd "sc_all s" Map.empty cr_empty]
    unfolding ord empty using s(2) by blast
  have "p \<in> set (parents_of dag x) \<longleftrightarrow> x \<in> sc_all s \<and> (x, p) \<in> parent_rel ?rd" for x p
    by (auto simp: parents_of_def c(2) s parent_rel_def readCommit_iff split: sum.splits Object.splits)
  then have e: "{(x, p). p \<in> set (parents_of dag x)} = {(x, p). x \<in> sc_all s \<and> (x, p) \<in> parent_rel ?rd}" by simp
  have "Errors ct = [] \<longleftrightarrow> (\<forall>i \<in> sc_all s. \<forall>es. ?rd i = Inr (Tree es) \<longrightarrow> te_Hash ` set es \<subseteq> sc_all s)"
    unfolding t(2) s(1) by blast
  moreover have "Errors cc = [] \<longleftrightarrow> (\<forall>i \<in> sc_all s. \<forall>cm. ?rd i = Inr (CommitObj cm)
       \<longrightarrow> insert (TreeHash cm) (set (Parents cm)) \<subseteq> sc_all s)"
    unfolding c(3) s(2) by blast
  ultimately show thesis
    using t(1) c(1) dag_exact(1) [OF assms(1), of dag] unfolding e
    by (intro that [of "\<lparr>rp_Objects = sc_result s, rp_Trees = ct, rp_Commits = cc,
          rp_Refs = verifyRefs d names fs (sc_all s) cr_empty, rp_Index = verifyIndex d fs cr_empty,
          rp_Journal = journal, rp_Snapshots = snapshots, rp_Graph = verifyDAG ord dag cr_empty\<rparr>"])
      (simp_all add: Verify_def assms(2) healthy_def)
qed

text \<open>C30. What a clean bill of health means: when the check reports the repository healthy, \<^verbatim>\<open>HEAD\<close> resolves, every
  object that \<^verbatim>\<open>HEAD\<close> or a listed reference leads to, through commits, parents and tree entries, can be read back
  and its bytes hash to its name, and the history behind them has no cycle. Nothing is assumed about
  what the directory listing returns.\<close>

theorem verify_healthy:
  assumes "Verify ord ls names journal snapshots z d fs = Some (Inr r)" "Healthy r" "map_order ord"
  shows "\<exists>h. Resolve_ref \<lparr>VaraDir = d\<rparr> fs ''HEAD'' = Some (Inr h)
     \<and> (let rd = Store_Read z (NewStore d) fs;
            live = reaches rd (insert h (ref_ObjectID ` set (List_refs \<lparr>VaraDir = d\<rparr> fs names)))
        in (\<forall>i \<in> live. \<exists>obj. rd i = Inr obj \<and> Compute (Serialize obj) = i)
           \<and> acyclic {(x, p). x \<in> live \<and> (x, p) \<in> parent_rel rd})"
proof -
  let ?rd = "Store_Read z (NewStore d) fs"
  obtain s where s: "scanObjects ls d ?rd = Inr s"
    using assms(1) by (auto simp: Verify_def Let_def split: sum.splits)
  obtain r' where r': "Verify ord ls names journal snapshots z d fs = Some (Inr r')"
      "rp_Refs r' = verifyRefs d names fs (sc_all s) cr_empty"
      "healthy (rp_Trees r') \<longleftrightarrow> (\<forall>i \<in> sc_all s. \<forall>es. ?rd i = Inr (Tree es) \<longrightarrow> te_Hash ` set es \<subseteq> sc_all s)"
      "healthy (rp_Commits r') \<longleftrightarrow> (\<forall>i \<in> sc_all s. \<forall>cm. ?rd i = Inr (CommitObj cm)
         \<longrightarrow> insert (TreeHash cm) (set (Parents cm)) \<subseteq> sc_all s)"
      "healthy (rp_Graph r') \<longleftrightarrow> acyclic {(x, p). x \<in> sc_all s \<and> (x, p) \<in> parent_rel ?rd}"
    using assms(3) s by (rule VerifyE)
  have "r' = r" using assms(1) r'(1) by simp
  with assms(2) r'(2-) have trees: "\<forall>i \<in> sc_all s. \<forall>es. ?rd i = Inr (Tree es) \<longrightarrow> te_Hash ` set es \<subseteq> sc_all s"
      and commits: "\<forall>i \<in> sc_all s. \<forall>cm. ?rd i = Inr (CommitObj cm) \<longrightarrow> insert (TreeHash cm) (set (Parents cm)) \<subseteq> sc_all s"
      and ac: "acyclic {(x, p). x \<in> sc_all s \<and> (x, p) \<in> parent_rel ?rd}"
      and refs: "Errors (verifyRefs d names fs (sc_all s) cr_empty) = []"
    by (simp_all add: Healthy_def healthy_def)
  have "obj_rel ?rd `` sc_all s \<subseteq> sc_all s"
    using trees commits unfolding obj_rel_def readCommit_iff readTree_iff by blast
  then have closed: "(obj_rel ?rd)\<^sup>* `` sc_all s \<subseteq> sc_all s" using rtrancl_closed [of "obj_rel ?rd" "sc_all s"] by blast
  from refs obtain h where h: "Resolve_ref \<lparr>VaraDir = d\<rparr> fs ''HEAD'' = Some (Inr h)"
      and live: "insert h (ref_ObjectID ` set (List_refs \<lparr>VaraDir = d\<rparr> fs names)) \<subseteq> sc_all s"
    unfolding verifyRefs_Errors by blast
  let ?live = "reaches ?rd (insert h (ref_ObjectID ` set (List_refs \<lparr>VaraDir = d\<rparr> fs names)))"
  have sub: "?live \<subseteq> sc_all s" using Image_mono [OF subset_refl live] closed by (rule subset_trans)
  have "\<exists>obj. ?rd i = Inr obj \<and> Compute (Serialize obj) = i" if "i \<in> ?live" for i
  proof -
    have "i \<in> sc_all s" using sub that by (rule subsetD)
    then obtain obj where "?rd i = Inr obj" using scanObjects_ok [OF s] by (auto simp: scan_ok_def)
    then show ?thesis by (auto simp: Store_Read_Inr)
  qed
  moreover have "acyclic {(x, p). x \<in> ?live \<and> (x, p) \<in> parent_rel ?rd}"
    by (rule acyclic_subset [OF ac]) (use sub in auto)
  ultimately show ?thesis unfolding Let_def using h by blast
qed


text \<open>A repository with one blob, which a detached \<^verbatim>\<open>HEAD\<close> names.\<close>

definition one_blob :: fs where
  "one_blob = staged_fs(''v/HEAD'' \<mapsto> BaseID_String (BlobHash ''x'') @ [LF])"

lemma one_blob_object: "one_blob (object_path (NewStore ''v'') i) = staged_fs (object_path (NewStore ''v'') i)"
  using length_object_path [of "NewStore ''v''" i] by (auto simp: one_blob_def)

lemma one_blob_read: "Store_Read zstd_id (NewStore ''v'') one_blob (BlobHash ''x'') = Inr (Blob ''x'')"
  by (simp add: Store_Read_Inr one_blob_object) (simp add: staged_fs_def zstd_id_def BlobHash_def)

lemma one_blob_HEAD: "Resolve_ref \<lparr>VaraDir = ''v''\<rparr> one_blob ''HEAD'' = Some (Inr (BlobHash ''x''))"
proof -
  have "refPath \<lparr>VaraDir = ''v''\<rparr> ''HEAD'' = ''v/HEAD''" by code_simp
  then show ?thesis
    unfolding Resolve_ref_def by (subst resolve_loop.simps) (simp add: ref_content_def one_blob_def)
qed


lemma one_blob_scan:
  "scanObjects staged_ls ''v'' (Store_Read zstd_id (NewStore ''v'') one_blob) =
     Inr \<lparr>sc_result = cr_ok cr_empty, sc_all = {BlobHash ''x''}, sc_trees = {}, sc_commits = {}\<rparr>"
  by (simp add: scanObjects_def staged_ls_def isHex_BaseID one_blob_read)

lemma one_blob_index: "healthy (verifyIndex ''v'' one_blob cr_empty)"
proof -
  have "filepath_Join ''v'' ''index'' = ''v/index''" by code_simp
  moreover have "one_blob ''v/index'' = None"
  proof -
    have "length (object_path (NewStore ''v'') (BlobHash ''x'')) \<noteq> length ''v/index''"
      unfolding length_object_path by simp
    then have "''v/index'' \<noteq> object_path (NewStore ''v'') (BlobHash ''x'')" by metis
    then show ?thesis by (simp add: one_blob_def staged_fs_def)
  qed
  ultimately show ?thesis by (simp add: verifyIndex_def healthy_def cr_empty_def)
qed

lemma one_blob_healthy:
  "\<exists>r. Verify sorted_list_of_set staged_ls [] cr_empty cr_empty zstd_id ''v'' one_blob = Some (Inr r) \<and> Healthy r"
proof -
  have kind: "Store_Read zstd_id (NewStore ''v'') one_blob i = Inr obj \<Longrightarrow> i = BlobHash ''x'' \<Longrightarrow> obj = Blob ''x''" for i obj
    using one_blob_read by simp
  have "{(x, p). x = BlobHash ''x'' \<and> (x, p) \<in> parent_rel (Store_Read zstd_id (NewStore ''v'') one_blob)} = {}"
    using kind by (fastforce simp: parent_rel_def readCommit_iff)
  then have "acyclic {(x, p). x = BlobHash ''x'' \<and> (x, p) \<in> parent_rel (Store_Read zstd_id (NewStore ''v'') one_blob)}"
    by (simp only:) (simp add: acyclic_def)
  moreover have "Errors (verifyRefs ''v'' [] one_blob {BlobHash ''x''} cr_empty) = []"
    unfolding verifyRefs_Errors using one_blob_HEAD by (simp add: List_refs_def)
  moreover have "healthy cr_empty" "healthy (cr_ok cr_empty)" by (simp_all add: healthy_def cr_empty_def)
  moreover have "\<forall>es. Store_Read zstd_id (NewStore ''v'') one_blob (BlobHash ''x'') \<noteq> Inr (Tree es)"
      "\<forall>cm. Store_Read zstd_id (NewStore ''v'') one_blob (BlobHash ''x'') \<noteq> Inr (CommitObj cm)"
    by (simp_all add: one_blob_read)
  moreover note one_blob_index
  ultimately show ?thesis
    by (rule_tac VerifyE [OF sample_map_order one_blob_scan, of "[]" cr_empty cr_empty])
      (simp add: Healthy_def, simp add: healthy_def)
qed

theorem verify_healthy_witness:
  "\<exists>h obj. Resolve_ref \<lparr>VaraDir = ''v''\<rparr> one_blob ''HEAD'' = Some (Inr h)
     \<and> Store_Read zstd_id (NewStore ''v'') one_blob h = Inr obj \<and> Compute (Serialize obj) = h"
proof -
  obtain r where r: "Verify sorted_list_of_set staged_ls [] cr_empty cr_empty zstd_id ''v'' one_blob = Some (Inr r)" "Healthy r"
    using one_blob_healthy by blast
  from verify_healthy [OF this sample_map_order] obtain h where h: "Resolve_ref \<lparr>VaraDir = ''v''\<rparr> one_blob ''HEAD'' = Some (Inr h)"
      "\<forall>i \<in> reaches (Store_Read zstd_id (NewStore ''v'') one_blob)
         (insert h (ref_ObjectID ` set (List_refs \<lparr>VaraDir = ''v''\<rparr> one_blob []))).
         \<exists>obj. Store_Read zstd_id (NewStore ''v'') one_blob i = Inr obj \<and> Compute (Serialize obj) = i"
    unfolding Let_def by blast
  from h(2) have "\<exists>obj. Store_Read zstd_id (NewStore ''v'') one_blob h = Inr obj \<and> Compute (Serialize obj) = h"
    by (rule bspec) auto
  with h(1) show ?thesis by blast
qed

end
