(* ===== verification/Pack.thy ===== *)
theory Pack
  imports Enumerate_Objects
begin

text \<open>
  \<^verbatim>\<open>pkg/transfer/pack.go\<close>: the VPCK stream. \<^verbatim>\<open>WritePack\<close> produces the bytes (the writer accepts them
  all), \<^verbatim>\<open>ReadPack\<close> decodes a stream into a store on a file system. The length prefix is Go's
  \<^verbatim>\<open>binary.PutUvarint\<close> / \<^verbatim>\<open>ReadUvarint\<close>; their shifts and ors act on disjoint bits, so they are
  written as arithmetic on naturals, and \<open>ReadUvarint_bound\<close> shows that a 64-bit value never overflows.
  \<^verbatim>\<open>make([]byte, n)\<close> panics when \<open>n\<close> exceeds what the runtime can address (\<open>maxAlloc\<close>, two to the 48 on
  64-bit Linux): a panic is the result \<open>None\<close>.
\<close>

section \<open>Varints (\<^verbatim>\<open>encoding/binary\<close>)\<close>

fun PutUvarint :: "nat \<Rightarrow> bytes" where
  "PutUvarint x = (if 128 \<le> x then char_of (x mod 128 + 128) # PutUvarint (x div 128) else [char_of x])"

declare PutUvarint.simps [simp del]

definition MaxVarintLen64 :: nat where
  "MaxVarintLen64 = 10"

text \<open>\<open>n\<close> bytes may still be read, \<open>x\<close> is the value so far and \<open>s\<close> the shift.\<close>

fun uvarint_loop :: "nat \<Rightarrow> nat \<Rightarrow> nat \<Rightarrow> bytes \<Rightarrow> verr + (nat \<times> bytes)" where
  "uvarint_loop 0 x s bs = Inl (ErrMsg ''binary: varint overflows a 64-bit integer'')"
| "uvarint_loop (Suc n) x s [] = Inl ErrIO"
| "uvarint_loop (Suc n) x s (b # bs) =
     (if (of_char b :: nat) < 128 then
        (if n = 0 \<and> (of_char b :: nat) > 1 then Inl (ErrMsg ''binary: varint overflows a 64-bit integer'')
         else Inr (x + of_char b * 2 ^ s, bs))
      else uvarint_loop n (x + (of_char b mod 128) * 2 ^ s) (s + 7) bs)"

definition ReadUvarint :: "bytes \<Rightarrow> verr + (nat \<times> bytes)" where
  "ReadUvarint bs = uvarint_loop MaxVarintLen64 0 0 bs"

section \<open>Writing a pack\<close>

definition packMagic :: bytes where
  "packMagic = ''VPCK''"

definition packVersion :: u8 where
  "packVersion = 1"

fun write_records :: "zstd \<Rightarrow> reader \<Rightarrow> ObjectID list \<Rightarrow> verr + bytes" where
  "write_records z rd [] = Inr []"
| "write_records z rd (i # ids) =
     bind_res (rd i) (\<lambda>obj.
       let compressed = Compress z (Serialize obj) in
       bind_res (write_records z rd ids) (\<lambda>rest. Inr (PutUvarint (length compressed) @ compressed @ rest)))"

definition WritePack :: "zstd \<Rightarrow> reader \<Rightarrow> ObjectID list \<Rightarrow> verr + bytes" where
  "WritePack z rd ids =
     (let header = packMagic @ word_bytes packVersion @ word_bytes (of_nat (length ids) :: u32) in
      bind_res (write_records z rd ids) (\<lambda>records.
        Inr ((header @ records) @ word_bytes (Compute (header @ records)))))"

section \<open>Reading a pack\<close>

record PackResult =
  ObjectsRead :: nat
  ObjectsWritten :: nat

definition maxAlloc :: nat where
  "maxAlloc = 2 ^ 48"

text \<open>The first half of the loop body: one record up to its decoded object.\<close>

definition decode_record :: "zstd \<Rightarrow> bytes \<Rightarrow> (verr + (Object \<times> bytes)) option" where
  "decode_record z buf =
     (case ReadUvarint buf of
        Inl e \<Rightarrow> Some (Inl e)
      | Inr (clen, buf1) \<Rightarrow>
          if clen > maxAlloc then None
          else Some (case read_full clen buf1 of
            None \<Rightarrow> Inl ErrIO
          | Some (compressed, buf2) \<Rightarrow>
              (case Decompress z compressed of
                 None \<Rightarrow> Inl ErrInvalidObject
               | Some raw \<Rightarrow> bind_res (Deserialize raw) (\<lambda>obj. Inr (obj, buf2)))))"

fun read_records ::
    "zstd \<Rightarrow> io \<Rightarrow> Store \<Rightarrow> nat \<Rightarrow> bytes \<Rightarrow> PackResult \<Rightarrow> fs \<Rightarrow> (PackResult \<times> fs \<times> (verr + bytes)) option" where
  "read_records z io s 0 buf res fs = Some (res, fs, Inr buf)"
| "read_records z io s (Suc n) buf res fs =
     (case decode_record z buf of
        None \<Rightarrow> None
      | Some (Inl e) \<Rightarrow> Some (res, fs, Inl e)
      | Some (Inr (obj, buf2)) \<Rightarrow>
          (let res1 = res\<lparr>ObjectsRead := ObjectsRead res + 1\<rparr> in
           case Store_Write z io s obj fs of
             (fs1, Inl e) \<Rightarrow> Some (res1, fs1, Inl e)
           | (fs1, Inr _) \<Rightarrow>
               read_records z io s n buf2 (res1\<lparr>ObjectsWritten := ObjectsWritten res1 + 1\<rparr>) fs1))"

definition ReadPack :: "zstd \<Rightarrow> io \<Rightarrow> Store \<Rightarrow> bytes \<Rightarrow> fs \<Rightarrow> (PackResult \<times> fs \<times> (verr + unit)) option" where
  "ReadPack z io s stream fs =
     (let res = \<lparr>ObjectsRead = 0, ObjectsWritten = 0\<rparr> in
      if length stream < 9 + 32 then Some (res, fs, Inl (ErrMsg ''pack: stream too short''))
      else let body = take (length stream - 32) stream; trailer = drop (length stream - 32) stream in
      if word_bytes (Compute body) \<noteq> trailer then Some (res, fs, Inl (ErrMsg ''pack: checksum mismatch''))
      else if take 4 body \<noteq> packMagic then Some (res, fs, Inl (ErrMsg ''pack: bad magic''))
      else if sub body 4 5 \<noteq> word_bytes packVersion then Some (res, fs, Inl (ErrMsg ''pack: unsupported version''))
      else let count = unat (bytes_word (sub body 5 9) :: u32) in
      case read_records z io s count (drop 9 body) res fs of
        None \<Rightarrow> None
      | Some (res1, fs1, Inl e) \<Rightarrow> Some (res1, fs1, Inl e)
      | Some (res1, fs1, Inr buf) \<Rightarrow>
          if buf \<noteq> [] then Some (res1, fs1, Inl (ErrMsg ''pack: trailing bytes''))
          else Some (res1, fs1, Inr ()))"

section \<open>Varint lemmas\<close>

lemma uvarint_loop_PutUvarint:
  "x < 128 ^ n \<Longrightarrow> n \<le> 9 \<Longrightarrow> uvarint_loop (Suc n) a s (PutUvarint x @ bs) = Inr (a + x * 2 ^ s, bs)"
proof (induction n arbitrary: x a s)
  case 0
  then show ?case by (simp add: PutUvarint.simps)
next
  case (Suc n)
  show ?case
  proof (cases "128 \<le> x")
    case False
    then show ?thesis by (simp add: PutUvarint.simps)
  next
    case True
    have "x div 128 < 128 ^ n" using Suc.prems(1) by (simp add: less_mult_imp_div_less mult.commute)
    then have IH: "uvarint_loop (Suc n) b (s + 7) (PutUvarint (x div 128) @ bs) = Inr (b + x div 128 * 2 ^ (s + 7), bs)" for b
      using Suc by simp
    have "(of_char (char_of (x mod 128 + 128) :: char) :: nat) = x mod 128 + 128" by simp
    moreover have "x mod 128 * 2 ^ s + x div 128 * 2 ^ (s + 7) = x * 2 ^ s"
    proof -
      have "(2 :: nat) ^ (s + 7) = 128 * 2 ^ s" by (simp add: power_add)
      then have "x mod 128 * 2 ^ s + x div 128 * 2 ^ (s + 7) = (x mod 128 + x div 128 * 128) * 2 ^ s"
        by (simp only: distrib_right mult.assoc)
      also have "x mod 128 + x div 128 * 128 = x" by (rule mod_div_mult_eq)
      finally show ?thesis .
    qed
    ultimately show ?thesis using True IH by (subst PutUvarint.simps) (simp add: add.assoc)
  qed
qed

lemma ReadUvarint_PutUvarint [simp, codec]: "x < 2 ^ 63 \<Longrightarrow> ReadUvarint (PutUvarint x @ bs) = Inr (x, bs)"
proof -
  assume "x < 2 ^ 63"
  then have "x < 128 ^ 9" by simp
  moreover have "MaxVarintLen64 = Suc 9" by (simp add: MaxVarintLen64_def)
  ultimately show ?thesis using uvarint_loop_PutUvarint [of x 9 0 0 bs] unfolding ReadUvarint_def by simp
qed

lemma uvarint_loop_bound:
  "uvarint_loop n x s bs = Inr (v, r) \<Longrightarrow> s + 7 * n = 70 \<Longrightarrow> x < 2 ^ s \<Longrightarrow> v < 2 ^ 64"
proof (induction n x s bs rule: uvarint_loop.induct)
  case (3 n x s b bs)
  show ?case
  proof (cases "(of_char b :: nat) < 128")
    case True
    then have v: "v = x + of_char b * 2 ^ s" "n \<noteq> 0 \<or> (of_char b :: nat) \<le> 1"
      using "3.prems"(1) by (auto split: if_splits)
    show ?thesis
    proof (cases "n = 0")
      case True
      then have "s = 63" using "3.prems"(2) by simp
      have "(of_char b :: nat) * 2 ^ 63 \<le> 2 ^ 63" using v(2) True by (metis mult_le_mono1 mult_1)
      with v(1) "3.prems"(3) \<open>s = 63\<close> show ?thesis by simp
    next
      case False
      then have s: "s + 7 \<le> 63" using "3.prems"(2) by simp
      have "(of_char b :: nat) * 2 ^ s \<le> 127 * 2 ^ s" using True by (intro mult_right_mono) auto
      with v(1) "3.prems"(3) have "v < 128 * 2 ^ s" by linarith
      also have "(128 :: nat) * 2 ^ s = 2 ^ (s + 7)" by (simp add: power_add)
      also have "(2 :: nat) ^ (s + 7) \<le> 2 ^ 64" using s by (intro power_increasing) auto
      finally show ?thesis .
    qed
  next
    case False
    let ?x = "x + (of_char b mod 128) * 2 ^ s"
    have "(of_char b mod 128 :: nat) * 2 ^ s \<le> 127 * 2 ^ s" by (intro mult_right_mono) auto
    with "3.prems"(3) have "?x < 128 * 2 ^ s" by linarith
    then have "?x < 2 ^ (s + 7)" by (simp add: power_add mult.commute)
    with "3.IH" False "3.prems" show ?thesis by simp
  qed
qed auto

lemma ReadUvarint_bound: "ReadUvarint bs = Inr (v, r) \<Longrightarrow> v < 2 ^ 64"
  unfolding ReadUvarint_def MaxVarintLen64_def by (erule uvarint_loop_bound) auto

lemma uvarint_loop_consumes: "uvarint_loop n x s bs = Inr (v, r) \<Longrightarrow> length r < length bs"
  by (induction n x s bs rule: uvarint_loop.induct) (fastforce split: if_splits)+


section \<open>Ingesting records\<close>

lemma Store_Write_io_ok: "\<exists>fs'. Store_Write z io_ok s obj fs = (fs', Inr (Compute (Serialize obj)))"
  by (simp add: Store_Write_def io_ok_def Let_def os_WriteFile_def)

lemma Store_Read_same_file:
  "fs' (object_path s i) = fs (object_path s i) \<Longrightarrow> Store_Read z s fs' i = Store_Read z s fs i"
  by (simp add: Store_Read_def)

text \<open>Writes only ever add objects: what the invariant and the readers see of one write.\<close>

lemma Store_Write_extends:
  assumes "zstd_ok z" "store_ok z s fs" "wf_object obj" "Store_Write z io s obj fs = (fs', r)"
  shows "store_ok z s fs' \<and> (\<forall>i. fs (object_path s i) \<noteq> None \<longrightarrow> fs' (object_path s i) = fs (object_path s i))"
  using store_write_preserves_ok [OF assms] Store_Write_object_files [OF assms(4)] by metis

lemma Store_Write_reads:
  assumes "zstd_ok z" "store_ok z s fs" "wf_object obj" "Store_Write z io s obj fs = (fs', Inr j)"
  shows "Store_Read z s fs' i = (if i = j \<and> fs (object_path s i) = None then Inr obj else Store_Read z s fs i)"
proof -
  have j: "j = Compute (Serialize obj)"
      "fs (object_path s j) = None \<Longrightarrow> fs' (object_path s j) = Some (Compress z (Serialize obj))"
    using Store_Write_ok [OF assms(4)] by auto
  show ?thesis
  proof (cases "i = j \<and> fs (object_path s i) = None")
    case True
    with j assms(1,3) show ?thesis by (auto simp: Store_Read_Inr zstd_ok_def)
  next
    case False
    then have "fs' (object_path s i) = fs (object_path s i)"
      using Store_Write_object_files [OF assms(4), of i] j(1) by auto
    from Store_Read_same_file [of fs' s i fs z, OF this] False show ?thesis by (metis (full_types))
  qed
qed

lemma decode_record_wf: "decode_record z buf = Some (Inr (obj, buf2)) \<Longrightarrow> wf_object obj"
  by (auto simp: decode_record_def bind_res_eq_Inr objects.dec_iff split: sum.splits prod.splits if_splits option.splits)

lemma decode_record_written:
  assumes "zstd_ok z" "wf_object obj" "length (Compress z (Serialize obj)) \<le> maxAlloc"
  shows "decode_record z (PutUvarint (length (Compress z (Serialize obj))) @ Compress z (Serialize obj) @ rest)
       = Some (Inr (obj, rest))"
proof -
  have "length (Compress z (Serialize obj)) < 2 ^ 63" using assms(3) by (simp add: maxAlloc_def)
  from ReadUvarint_PutUvarint [OF this] assms show ?thesis
    by (simp add: decode_record_def zstd_ok_def objects.dec_enc)
qed

lemma read_records_safe:
  "read_records z io s n buf res fs = Some (res', fs', r) \<Longrightarrow> zstd_ok z \<Longrightarrow> store_ok z s fs \<Longrightarrow>
   store_ok z s fs' \<and> (\<forall>i. fs (object_path s i) \<noteq> None \<longrightarrow> fs' (object_path s i) = fs (object_path s i))
   \<and> (case r of Inr _ \<Rightarrow> ObjectsRead res' = ObjectsRead res + n \<and> ObjectsWritten res' = ObjectsWritten res + n
             | Inl _ \<Rightarrow> ObjectsRead res' < ObjectsRead res + n + 1)"
proof (induction n arbitrary: buf res fs)
  case 0
  then show ?case by auto
next
  case (Suc n)
  show ?case
  proof (cases "\<exists>e. res' = res \<and> fs' = fs \<and> r = Inl e")
    case True
    with Suc.prems show ?thesis by auto
  next
    case False
    with Suc.prems(1) obtain obj buf2 where d: "decode_record z buf = Some (Inr (obj, buf2))"
      by (cases "decode_record z buf") (auto split: sum.splits)
    obtain fs1 r1 where w: "Store_Write z io s obj fs = (fs1, r1)" by fastforce
    have "wf_object obj" using d by (rule decode_record_wf)
    then have ext: "store_ok z s fs1"
        "\<forall>i. fs (object_path s i) \<noteq> None \<longrightarrow> fs1 (object_path s i) = fs (object_path s i)"
      using Store_Write_extends [OF Suc.prems(2,3) _ w] by auto
    show ?thesis
    proof (cases r1)
      case (Inl e)
      with Suc.prems(1) d w ext show ?thesis by auto
    next
      case (Inr j)
      let ?res = "res\<lparr>ObjectsRead := ObjectsRead res + 1, ObjectsWritten := ObjectsWritten res + 1\<rparr>"
      have "read_records z io s n buf2 ?res fs1 = Some (res', fs', r)"
        using Suc.prems(1) d w Inr by simp
      from Suc.IH [OF this Suc.prems(2) ext(1)] ext(2) show ?thesis by (auto split: sum.splits)
    qed
  qed
qed

lemma read_records_write:
  "write_records z rd ids = Inr bs \<Longrightarrow> zstd_ok z \<Longrightarrow> store_ok z s fs \<Longrightarrow>
   \<forall>i \<in> set ids. \<forall>obj. rd i = Inr obj \<longrightarrow>
      wf_object obj \<and> Compute (Serialize obj) = i \<and> length (Compress z (Serialize obj)) \<le> maxAlloc \<Longrightarrow>
   \<forall>i \<in> set ids. \<forall>a. Store_Read z s fs i = Inr a \<longrightarrow> rd i = Inr a \<Longrightarrow>
   \<exists>res' fs'. read_records z io_ok s (length ids) (bs @ extra) res fs = Some (res', fs', Inr extra)
      \<and> (\<forall>i \<in> set ids. Store_Read z s fs' i = rd i)
      \<and> (\<forall>i a. Store_Read z s fs i = Inr a \<longrightarrow> Store_Read z s fs' i = Inr a)"
proof (induction ids arbitrary: bs res fs)
  case Nil
  then show ?case by simp
next
  case (Cons i ids)
  then obtain obj rest where o: "rd i = Inr obj" and wr: "write_records z rd ids = Inr rest"
    and bs: "bs = PutUvarint (length (Compress z (Serialize obj))) @ Compress z (Serialize obj) @ rest"
    by (auto simp: res_simps Let_def)
  have obj: "wf_object obj" "Compute (Serialize obj) = i" "length (Compress z (Serialize obj)) \<le> maxAlloc"
    using Cons.prems(4) o by auto
  obtain fs1 where w: "Store_Write z io_ok s obj fs = (fs1, Inr i)"
    using Store_Write_io_ok [of z s obj fs] obj(2) by auto
  have ext: "store_ok z s fs1" using Store_Write_extends [OF Cons.prems(2,3) obj(1) w] by blast
  have reads: "Store_Read z s fs1 j = (if j = i \<and> fs (object_path s j) = None then Inr obj else Store_Read z s fs j)" for j
    by (rule Store_Write_reads [OF Cons.prems(2,3) obj(1) w])
  have old: "\<forall>j a. Store_Read z s fs j = Inr a \<longrightarrow> Store_Read z s fs1 j = Inr a"
    using reads by (auto simp: Store_Read_Inr)
  have i1: "Store_Read z s fs1 i = Inr obj"
  proof (cases "fs (object_path s i)")
    case (Some c)
    with Cons.prems(3) obtain a where "Store_Read z s fs i = Inr a" by (auto simp: store_ok_def)
    with Cons.prems(5) o reads Some show ?thesis by auto
  qed (use reads in simp)
  have agree: "\<forall>j \<in> set ids. \<forall>a. Store_Read z s fs1 j = Inr a \<longrightarrow> rd j = Inr a"
    using Cons.prems(5) reads o by auto
  let ?res = "res\<lparr>ObjectsRead := ObjectsRead res + 1, ObjectsWritten := ObjectsWritten res + 1\<rparr>"
  obtain res' fs' where IH: "read_records z io_ok s (length ids) (rest @ extra) ?res fs1 = Some (res', fs', Inr extra)"
      "\<forall>j \<in> set ids. Store_Read z s fs' j = rd j"
      "\<forall>j a. Store_Read z s fs1 j = Inr a \<longrightarrow> Store_Read z s fs' j = Inr a"
    using Cons.IH [OF wr Cons.prems(2) ext _ agree] Cons.prems(4) by (meson list.set_intros(2))
  have "read_records z io_ok s (length (i # ids)) (bs @ extra) res fs = Some (res', fs', Inr extra)"
    using IH(1) bs w decode_record_written [OF Cons.prems(2) obj(1,3)] by simp
  with IH(2,3) i1 o old show ?case by auto
qed


section \<open>Properties\<close>

lemma pack_transfer:
  assumes "zstd_ok z" "store_ok z s fs" "length ids < 2 ^ 32"
    and "WritePack z (Store_Read z s0 fs0) ids = Inr stream"
    and "\<forall>i \<in> set ids. \<forall>obj. Store_Read z s0 fs0 i = Inr obj \<longrightarrow> length (Compress z (Serialize obj)) \<le> maxAlloc"
    and "\<forall>i \<in> set ids. \<forall>a. Store_Read z s fs i = Inr a \<longrightarrow> Store_Read z s0 fs0 i = Inr a"
  shows "\<exists>res fs'. ReadPack z io_ok s stream fs = Some (res, fs', Inr ())
    \<and> ObjectsRead res = length ids
    \<and> (\<forall>i \<in> set ids. Store_Read z s fs' i = Store_Read z s0 fs0 i)
    \<and> (\<forall>i a. Store_Read z s fs i = Inr a \<longrightarrow> Store_Read z s fs' i = Inr a)"
proof -
  let ?hd = "packMagic @ word_bytes packVersion @ word_bytes (of_nat (length ids) :: u32)"
  obtain recs where recs: "write_records z (Store_Read z s0 fs0) ids = Inr recs"
    and stream: "stream = (?hd @ recs) @ word_bytes (Compute (?hd @ recs))"
    using assms(4) by (auto simp: WritePack_def Let_def res_simps)
  have len: "length packMagic = 4" "length (word_bytes packVersion) = 1" by (simp_all add: packMagic_def)
  let ?res = "\<lparr>ObjectsRead = 0, ObjectsWritten = 0\<rparr>"
  have src: "\<forall>i \<in> set ids. \<forall>obj. Store_Read z s0 fs0 i = Inr obj \<longrightarrow>
      wf_object obj \<and> Compute (Serialize obj) = i \<and> length (Compress z (Serialize obj)) \<le> maxAlloc"
    using assms(5) unfolding Store_Read_Inr by blast
  obtain res fs' where r: "read_records z io_ok s (length ids) (recs @ []) ?res fs = Some (res, fs', Inr [])"
    and post: "\<forall>i \<in> set ids. Store_Read z s fs' i = Store_Read z s0 fs0 i"
      "\<forall>i a. Store_Read z s fs i = Inr a \<longrightarrow> Store_Read z s fs' i = Inr a"
    using read_records_write [OF recs assms(1,2) src assms(6), of "[]" ?res] by blast
  have "ObjectsRead res = length ids" using read_records_safe [OF r assms(1,2)] by simp
  moreover have "ReadPack z io_ok s stream fs = Some (res, fs', Inr ())"
    using r assms(3) len unfolding stream ReadPack_def Let_def by simp
  ultimately show ?thesis using post by blast
qed

text \<open>C3. A transfer delivers: for identifiers the sender's store can read, \<^verbatim>\<open>WritePack\<close> gives a stream, and
  \<^verbatim>\<open>ReadPack\<close> of that stream into any healthy store succeeds, after which every one of those identifiers
  reads as the sender's object and everything the receiver had before reads as before. (Fewer than two to
  the 32 objects, none compressing beyond the allocation limit, and no SHA-256 collision with an object the
  receiver already has.)\<close>

theorem pack_roundtrip:
  assumes "zstd_ok z" "store_ok z s fs" "length ids < 2 ^ 32"
    and "WritePack z (Store_Read z s0 fs0) ids = Inr stream"
    and "\<forall>i \<in> set ids. \<forall>obj. Store_Read z s0 fs0 i = Inr obj \<longrightarrow> length (Compress z (Serialize obj)) \<le> maxAlloc"
    and "\<forall>i \<in> set ids. \<forall>a. Store_Read z s fs i = Inr a \<longrightarrow> Store_Read z s0 fs0 i = Inr a"
  shows "\<exists>res fs'. ReadPack z io_ok s stream fs = Some (res, fs', Inr ())
    \<and> ObjectsRead res = length ids
    \<and> (\<forall>i \<in> set ids. Store_Read z s fs' i = Store_Read z s0 fs0 i)
    \<and> (\<forall>i a. Store_Read z s fs i = Inr a \<longrightarrow> Store_Read z s fs' i = Inr a)"
  by (rule pack_transfer [OF assms])


text \<open>A record length is not checked against the bytes that are left: a stream of 49 bytes with a
  correct checksum, announcing a record of two to the 49 bytes, makes \<^verbatim>\<open>ReadPack\<close> panic in the allocation
  instead of returning its record-body error.\<close>

theorem readpack_length_panics:
  "let header = packMagic @ word_bytes packVersion @ word_bytes (1 :: u32) @ PutUvarint (2 ^ 49) in
   ReadPack z io s (header @ word_bytes (Compute header)) fs = None"
proof -
  let ?h = "packMagic @ word_bytes packVersion @ word_bytes (1 :: u32) @ PutUvarint (2 ^ 49)"
  have len: "length packMagic = 4" "length (word_bytes packVersion) = 1" by (simp_all add: packMagic_def)
  have "ReadUvarint (PutUvarint (2 ^ 49)) = Inr (2 ^ 49, [])"
    using ReadUvarint_PutUvarint [of "2 ^ 49" "[]"] by simp
  moreover have "unat (bytes_word (word_bytes (1 :: u32)) :: u32) = Suc 0" by simp
  moreover have "maxAlloc < 2 ^ 49" by (simp add: maxAlloc_def)
  ultimately show ?thesis using len by (simp add: ReadPack_def Let_def decode_record_def del: bytes_word_bytes_sized)
qed


lemma sample_store_ok: "store_ok zstd_id s Map.empty" "zstd_ok zstd_id"
  by (simp_all add: store_ok_def zstd_ok_def zstd_id_def)

lemma Store_Read_empty: "Store_Read z s Map.empty i = Inl ErrObjectNotFound"
  by (simp add: Store_Read_def)

theorem pack_roundtrip_witness:
  "\<exists>stream res fs'. WritePack zstd_id (Store_Read zstd_id (NewStore ''a'')
        [object_path (NewStore ''a'') (BlobHash ''x'') \<mapsto> Serialize (Blob ''x'')]) [BlobHash ''x''] = Inr stream
    \<and> ReadPack zstd_id io_ok (NewStore ''b'') stream Map.empty = Some (res, fs', Inr ())
    \<and> Store_Read zstd_id (NewStore ''b'') fs' (BlobHash ''x'') = Inr (Blob ''x'')"
proof -
  let ?fs0 = "[object_path (NewStore ''a'') (BlobHash ''x'') \<mapsto> Serialize (Blob ''x'')]"
  let ?rd = "Store_Read zstd_id (NewStore ''a'') ?fs0"
  have rd: "?rd (BlobHash ''x'') = Inr (Blob ''x'')" by (simp add: Store_Read_Inr zstd_id_def BlobHash_def)
  then obtain stream where w: "WritePack zstd_id ?rd [BlobHash ''x''] = Inr stream"
    by (simp add: WritePack_def Let_def del: Serialize.simps)
  have "length (Compress zstd_id (Serialize (Blob ''x''))) \<le> maxAlloc"
    by (simp add: zstd_id_def Blob_Serialize_def WriteHeader_def ObjectType_string_def maxAlloc_def)
  with rd w have "\<exists>res fs'. ReadPack zstd_id io_ok (NewStore ''b'') stream Map.empty = Some (res, fs', Inr ())
      \<and> (\<forall>i \<in> set [BlobHash ''x'']. Store_Read zstd_id (NewStore ''b'') fs' i = ?rd i)"
    using pack_roundtrip [of zstd_id "NewStore ''b''" Map.empty "[BlobHash ''x'']" "NewStore ''a''" ?fs0 stream]
    by (simp add: sample_store_ok Store_Read_empty del: Serialize.simps) blast
  with rd w show ?thesis by auto
qed


end
