(* ===== verification/Remote_Transport.thy ===== *)
theory Remote_Transport
  imports Pack Transactions
begin

text \<open>
  \<^verbatim>\<open>internal/transport\<close>, the transport over a local repository, which is also what the server runs a request
  on: advertising references, packing what a peer lacks, and receiving a push, which ingests a pack and then
  moves references by compare-and-swap under the references lock. A reference update that never returns
  (a cycle of symbolic references) and a panic of the pack reader are \<open>None\<close>. The waiting for the lock is the
  modelled \<^verbatim>\<open>AcquireWithTimeout\<close>; reasons keep their text, in which the text of an operating system error is
  the argument \<open>oserr\<close>.
\<close>

section \<open>Opening\<close>

record RefAdvertisement =
  adv_Name :: string
  adv_Target :: CommitID

record RefUpdate =
  u_Name :: string
  u_Old :: CommitID
  u_New :: CommitID
  u_Force :: bool

record RefUpdateResult =
  rs_Name :: string
  rs_OK :: bool
  rs_Reason :: string

record Local =
  l_varaDir :: path
  l_store :: Store
  l_refs :: FSResolver

definition zeroCommit :: CommitID where "zeroCommit = 0"

text \<open>\<^verbatim>\<open>strings.Cut\<close>, and \<^verbatim>\<open>filepath.Abs\<close> for the working directory \<open>cwd\<close> (\<open>None\<close>: it cannot be determined).\<close>

fun Cut :: "string \<Rightarrow> string \<Rightarrow> (string \<times> string) option" where
  "Cut [] sep = (if sep = [] then Some ([], []) else None)"
| "Cut (c # s) sep =
     (if HasPrefix (c # s) sep then Some ([], drop (length sep) (c # s))
      else map_option (\<lambda>(b, a). (c # b, a)) (Cut s sep))"

definition filepath_Abs :: "path option \<Rightarrow> path \<Rightarrow> verr + path" where
  "filepath_Abs cwd p =
     (if HasPrefix p ''/'' then Inr (filepath_Clean p)
      else case cwd of None \<Rightarrow> Inl ErrIO | Some d \<Rightarrow> Inr (filepath_Join d p))"

definition ParsePath :: "path option \<Rightarrow> string \<Rightarrow> verr + path" where
  "ParsePath cwd url =
     (if HasPrefix url ''file://'' then
        let p = TrimPrefix url ''file://'' in
        filepath_Abs cwd (if length p \<ge> 3 \<and> p ! 0 = CHR ''/'' \<and> p ! 2 = CHR '':'' then drop 1 p else p)
      else case Cut url ''://'' of
             Some (scheme, _) \<Rightarrow> Inl (ErrMsg (''unsupported remote scheme '' @ scheme))
           | None \<Rightarrow> filepath_Abs cwd url)"

definition OpenLocal :: "path option \<Rightarrow> (path \<Rightarrow> bool) \<Rightarrow> string \<Rightarrow> verr + Local" where
  "OpenLocal cwd isDir url =
     bind_res (ParsePath cwd url) (\<lambda>root.
       let varaDir = filepath_Join root ''.vara'' in
       if \<not> isDir varaDir then Inl (ErrMsg (''no VARA repository at '' @ root))
       else Inr \<lparr>l_varaDir = varaDir, l_store = NewStore varaDir, l_refs = \<lparr>VaraDir = varaDir\<rparr>\<rparr>)"

section \<open>Advertising and fetching\<close>

definition ListRefs :: "Local \<Rightarrow> fs \<Rightarrow> string list \<Rightarrow> RefAdvertisement list" where
  "ListRefs l fs names =
     map (\<lambda>r. \<lparr>adv_Name = ref_Name r, adv_Target = ref_ObjectID r\<rparr>)
       (filter (\<lambda>r. HasPrefix (ref_Name r) ''refs/heads/'') (List_refs (l_refs l) fs names))"

definition HeadTarget :: "Local \<Rightarrow> fs \<Rightarrow> ref_error + string" where
  "HeadTarget l fs = ResolveSymbolic (l_refs l) fs ''HEAD''"

definition FetchPack ::
    "(ObjectID set \<Rightarrow> ObjectID list) \<Rightarrow> zstd \<Rightarrow> Local \<Rightarrow> fs \<Rightarrow> CommitID list \<Rightarrow> CommitID list \<Rightarrow> verr + bytes" where
  "FetchPack ord z l fs wants haves =
     bind_res (Enumerate ord (Store_Read z (l_store l) fs) wants haves) (\<lambda>ids.
       WritePack z (Store_Read z (l_store l) fs) ids)"

section \<open>Receiving\<close>

definition shortID :: "CommitID \<Rightarrow> string" where
  "shortID c = (if c = zeroCommit then ''(none)'' else take 7 (BaseID_String c))"

definition ref_error_text :: "string \<Rightarrow> ref_error \<Rightarrow> string" where
  "ref_error_text oserr e = (case e of RefExists name \<Rightarrow> ''reference already exists: '' @ name | _ \<Rightarrow> oserr)"

definition reject :: "RefUpdate \<Rightarrow> string \<Rightarrow> RefUpdateResult" where
  "reject u reason = \<lparr>rs_Name = u_Name u, rs_OK = False, rs_Reason = reason\<rparr>"

definition applied :: "RefUpdate \<Rightarrow> RefUpdateResult" where
  "applied u = \<lparr>rs_Name = u_Name u, rs_OK = True, rs_Reason = []\<rparr>"

definition move_ref ::
    "io \<Rightarrow> nat \<Rightarrow> string \<Rightarrow> Local \<Rightarrow> CommitID \<Rightarrow> RefUpdate \<Rightarrow> fs \<Rightarrow> (fs \<times> RefUpdateResult) option" where
  "move_ref io n oserr l cur u fs =
     (if cur = zeroCommit then
        Some (case Create_ref io n (l_refs l) (u_Name u) (u_New u) fs of
                (fs', Inl e) \<Rightarrow> (fs', reject u (''create ref: '' @ ref_error_text oserr e))
              | (fs', Inr _) \<Rightarrow> (fs', applied u))
      else map_option (\<lambda>w. case w of
                (fs', Inl e) \<Rightarrow> (fs', reject u (''update ref: '' @ ref_error_text oserr e))
              | (fs', Inr _) \<Rightarrow> (fs', applied u))
            (Update_ref io n (l_refs l) (u_Name u) (u_New u) fs))"

definition not_fast_forward :: "reader \<Rightarrow> CommitID \<Rightarrow> RefUpdate \<Rightarrow> bool" where
  "not_fast_forward rd cur u \<longleftrightarrow> \<not> u_Force u \<and> cur \<noteq> zeroCommit \<and> MergeBase rd cur (u_New u) \<noteq> Inr cur"

definition applyUpdate :: "zstd \<Rightarrow> io \<Rightarrow> nat \<Rightarrow> string \<Rightarrow> Local \<Rightarrow> RefUpdate \<Rightarrow> fs \<Rightarrow> (fs \<times> RefUpdateResult) option" where
  "applyUpdate z io n oserr l u fs =
     (case Resolve_ref (l_refs l) fs (u_Name u) of
        None \<Rightarrow> None
      | Some res \<Rightarrow>
          let cur = (case res of Inl _ \<Rightarrow> zeroCommit | Inr c \<Rightarrow> c);
              rd = Store_Read z (l_store l) fs
          in
          if cur \<noteq> u_Old u
          then Some (fs, reject u (''stale: '' @ u_Name u @ '' moved to '' @ shortID cur @ '' since ref discovery''))
          else if isl (rd (u_New u))
          then Some (fs, reject u (''new commit '' @ shortID (u_New u) @ '' missing from pack''))
          else if not_fast_forward rd cur u
          then Some (fs, reject u (''non-fast-forward: '' @ shortID cur @ '' is not an ancestor of '' @ shortID (u_New u)))
          else move_ref io n oserr l cur u fs)"

fun apply_updates ::
    "zstd \<Rightarrow> io \<Rightarrow> nat \<Rightarrow> string \<Rightarrow> Local \<Rightarrow> RefUpdate list \<Rightarrow> fs \<Rightarrow> (fs \<times> RefUpdateResult list) option" where
  "apply_updates z io n oserr l [] fs = Some (fs, [])"
| "apply_updates z io n oserr l (u # us) fs =
     (case applyUpdate z io n oserr l u fs of
        None \<Rightarrow> None
      | Some (fs1, r) \<Rightarrow> map_option (\<lambda>(fs2, rs). (fs2, r # rs)) (apply_updates z io n oserr l us fs1))"

datatype recv_error = IngestPack verr | RefsLock verr

text \<open>The lock is taken at time \<open>now\<close> and waited for at most thirty seconds; \<open>att\<close> and \<open>mk\<close> are what opening
  the lock file and creating its directory do.\<close>

definition ReceivePack ::
    "zstd \<Rightarrow> io \<Rightarrow> nat \<Rightarrow> string \<Rightarrow> bool \<Rightarrow> (nat \<Rightarrow> attempt) \<Rightarrow> nat \<Rightarrow> Local \<Rightarrow> bytes \<Rightarrow> RefUpdate list \<Rightarrow> fs
     \<Rightarrow> (fs \<times> (recv_error + RefUpdateResult list)) option" where
  "ReceivePack z io n oserr mk att now l pack updates fs =
     (case ReadPack z io (l_store l) pack fs of
        None \<Rightarrow> None
      | Some (_, fs1, Inl e) \<Rightarrow> Some (fs1, Inl (IngestPack e))
      | Some (_, fs1, Inr _) \<Rightarrow>
          (case AcquireWithTimeout mk att now 30000 of
             None \<Rightarrow> None
           | Some (_, Inl e) \<Rightarrow> Some (fs1, Inl (RefsLock e))
           | Some (_, Inr _) \<Rightarrow>
               map_option (\<lambda>(fs2, rs). (fs2, Inr rs)) (apply_updates z io n oserr l updates fs1)))"


section \<open>What one update does\<close>

lemma MergeBase_ancestor:
  assumes "MergeBase rd a b = Inr c"
  shows "c \<in> ancestors rd b"
proof (cases "a = b")
  case False
  with assms obtain A where "merge_base_loop rd A [b] {b} = Inr c" by (auto simp: MergeBase_def res_simps)
  from merge_base_loop_nearest [OF this levels_init] show ?thesis by (auto intro: relpow_imp_rtrancl)
qed (use assms in \<open>auto simp: MergeBase_def\<close>)

lemma resolves_leads:
  "resolves r fs k name i \<Longrightarrow> \<exists>e content. leads r fs name e \<and> ref_content r fs e = Some content \<and> ParseHex content = Inr i"
  by (induction rule: resolves.induct) (blast intro: leads.intros)+

lemma HasSuffix_append [simp]: "HasSuffix (s @ p) p"
  by (simp add: HasSuffix_def)

text \<open>A write that fails leaves every file but the lock file as it was.\<close>

lemma write_ref_failed:
  assumes "write_ref io n r name content fs = (fs', Inl e)" "\<not> HasSuffix p ''.lock''"
  shows "fs' p = fs p"
proof (cases "p = refPath r name")
  case False
  moreover have "p \<noteq> refPath r name @ ''.lock''" using assms(2) by auto
  ultimately show ?thesis by (rule write_ref_result(3) [OF assms(1)])
qed (use write_ref_result(2) [OF assms(1)] in simp)

lemma applyUpdate_cases [consumes 1, case_names rejected created moved]:
  assumes "applyUpdate z io n oserr l u fs = Some (fs', res)"
  obtains "\<not> rs_OK res" "\<forall>p. \<not> HasSuffix p ''.lock'' \<longrightarrow> fs' p = fs p"
  | obj where "rs_OK res" "u_Old u = zeroCommit" "fs (refPath (l_refs l) (u_Name u)) = None"
      "Store_Read z (l_store l) fs (u_New u) = Inr obj" "leads (l_refs l) fs (u_Name u) (u_Name u)"
      "fs' = (fs(refPath (l_refs l) (u_Name u) \<mapsto> BaseID_String (u_New u) @ [LF]))(refPath (l_refs l) (u_Name u) @ ''.lock'' := None)"
  | obj e content where "rs_OK res" "u_Old u \<noteq> zeroCommit" "Resolve_ref (l_refs l) fs (u_Name u) = Some (Inr (u_Old u))"
      "Store_Read z (l_store l) fs (u_New u) = Inr obj" "leads (l_refs l) fs (u_Name u) e"
      "ref_content (l_refs l) fs e = Some content" "ParseHex content = Inr (u_Old u)"
      "\<not> u_Force u \<Longrightarrow> u_Old u \<in> ancestors (Store_Read z (l_store l) fs) (u_New u)"
      "fs' = (fs(refPath (l_refs l) e \<mapsto> BaseID_String (u_New u) @ [LF]))(refPath (l_refs l) e @ ''.lock'' := None)"
proof -
  let ?r = "l_refs l" and ?rd = "Store_Read z (l_store l) fs"
  obtain rs where rs: "Resolve_ref ?r fs (u_Name u) = Some rs"
    using assms by (auto simp: applyUpdate_def split: option.splits)
  define cur where "cur = (case rs of Inl _ \<Rightarrow> zeroCommit | Inr c \<Rightarrow> c)"
  show thesis
  proof (cases "cur \<noteq> u_Old u \<or> isl (?rd (u_New u)) \<or> not_fast_forward ?rd cur u")
    case True
    then have "fs' = fs \<and> \<not> rs_OK res"
      using assms rs by (auto simp: applyUpdate_def Let_def cur_def [symmetric] reject_def split: if_splits)
    then show thesis by (intro that(1)) auto
  next
    case False
    then obtain obj where obj: "?rd (u_New u) = Inr obj" by (cases "?rd (u_New u)") auto
    from False have cur: "cur = u_Old u" by simp
    have mv: "move_ref io n oserr l cur u fs = Some (fs', res)"
      using assms rs False by (simp add: applyUpdate_def Let_def cur_def [symmetric])
    show thesis
    proof (cases "cur = zeroCommit")
      case True
      obtain fs1 w where c: "Create_ref io n ?r (u_Name u) (u_New u) fs = (fs1, w)" by fastforce
      with mv True have fs1: "fs' = fs1" "rs_OK res \<longleftrightarrow> isl w = False"
        by (auto simp: move_ref_def reject_def applied_def split: sum.splits)
      show thesis
      proof (cases "fs (refPath ?r (u_Name u)) = None")
        case True
        then have w: "write_ref io n ?r (u_Name u) (BaseID_String (u_New u) @ [LF]) fs = (fs1, w)"
          using c by (simp add: Create_ref_def)
        have "leads ?r fs (u_Name u) (u_Name u)"
          using True by (auto simp: sym_step_def ref_content_def intro: leads.stop)
        then show thesis
          using write_ref_result(1) [OF w] write_ref_failed [of io n ?r "u_Name u" _ fs fs1] w fs1 cur obj True \<open>cur = zeroCommit\<close>
          by (cases w) (auto intro: that)
      next
        case False
        with c fs1 show thesis by (intro that(1)) (auto simp: Create_ref_def split: if_splits)
      qed
    next
      case nz: False
      then have res: "Resolve_ref ?r fs (u_Name u) = Some (Inr cur)"
        using rs by (auto simp: cur_def split: sum.splits)
      obtain e content where e: "leads ?r fs (u_Name u) e" "ref_content ?r fs e = Some content" "ParseHex content = Inr cur"
        using resolve_loop_sound [OF res [unfolded Resolve_ref_def]] resolves_leads by blast
      obtain fs1 w where w: "write_ref io n ?r e (BaseID_String (u_New u) @ [LF]) fs = (fs1, w)" by fastforce
      with mv nz follow_complete [OF e(1)] have fs1: "fs' = fs1" "rs_OK res \<longleftrightarrow> isl w = False"
        by (auto simp: move_ref_def Update_ref_def reject_def applied_def split: sum.splits)
      have "\<not> u_Force u \<Longrightarrow> cur \<in> ancestors ?rd (u_New u)" using False nz MergeBase_ancestor [of ?rd cur "u_New u"] by (auto simp: not_fast_forward_def)
      then show thesis
        using write_ref_result(1) [OF w] write_ref_failed [of io n ?r e _ fs fs1] w fs1 cur obj nz e res
        by (cases w) (auto intro: that)
    qed
  qed
qed


section \<open>Properties of a push\<close>

lemma Resolve_after_write:
  assumes "leads r fs name e" "fs (refPath r e @ ''.lock'') = None"
    "fs' = (fs(refPath r e \<mapsto> BaseID_String i @ [LF]))(refPath r e @ ''.lock'' := None)"
  shows "Resolve_ref r fs' name = Some (Inr i)"
  using resolves_after_write [OF assms] resolve_loop_complete [of r fs' _ name i "{}"] by (auto simp: Resolve_ref_def)

text \<open>C7. A reference moves only by compare-and-swap and only forward: an update that is accepted found the
  reference absent or at the value the pusher named, its commit is readable, it is a descendant of the old
  value unless the push was forced or the reference is new, and the reference resolves to it afterwards. An
  update that is rejected leaves every file as it was, apart from a lock file of a write that failed.\<close>

theorem push_update_sound:
  assumes "applyUpdate z io n oserr l u fs = Some (fs', res)"
    and "\<forall>e. leads (l_refs l) fs (u_Name u) e \<longrightarrow> fs (refPath (l_refs l) e @ ''.lock'') = None"
  shows "if rs_OK res
    then (if u_Old u = zeroCommit then fs (refPath (l_refs l) (u_Name u)) = None
          else Resolve_ref (l_refs l) fs (u_Name u) = Some (Inr (u_Old u))
            \<and> (u_Force u \<or> u_Old u \<in> ancestors (Store_Read z (l_store l) fs) (u_New u)))
      \<and> (\<exists>obj. Store_Read z (l_store l) fs (u_New u) = Inr obj)
      \<and> Resolve_ref (l_refs l) fs' (u_Name u) = Some (Inr (u_New u))
    else (\<forall>p. \<not> HasSuffix p ''.lock'' \<longrightarrow> fs' p = fs p)"
  using assms(1)
proof (cases rule: applyUpdate_cases)
  case (created obj)
  with Resolve_after_write [OF created(5) _ created(6)] assms(2) show ?thesis by auto
next
  case (moved obj e content)
  with Resolve_after_write [OF moved(5) _ moved(9)] assms(2) show ?thesis by auto
qed auto

text \<open>Of two pushes that saw the same value of a reference one wins: after an accepted update that changed it, a second
  update that names the old value again is rejected as stale, forced or not, and changes nothing.\<close>

theorem push_race_one_wins:
  assumes "applyUpdate z io n oserr l u fs = Some (fs1, res1)" "rs_OK res1" "u_New u \<noteq> u_Old u"
    and "\<forall>e. leads (l_refs l) fs (u_Name u) e \<longrightarrow> fs (refPath (l_refs l) e @ ''.lock'') = None"
    and "u_Name u' = u_Name u" "u_Old u' = u_Old u"
  shows "\<exists>res2. applyUpdate z io' n' oserr l u' fs1 = Some (fs1, res2) \<and> \<not> rs_OK res2
    \<and> HasPrefix (rs_Reason res2) ''stale''"
proof -
  have "Resolve_ref (l_refs l) fs1 (u_Name u) = Some (Inr (u_New u))"
    using assms(1)
  proof (cases rule: applyUpdate_cases)
    case (created obj)
    with Resolve_after_write [OF created(5) _ created(6)] assms(4) show ?thesis by auto
  next
    case (moved obj e content)
    with Resolve_after_write [OF moved(5) _ moved(9)] assms(4) show ?thesis by auto
  qed (use assms(2) in simp)
  with assms(3,5,6) show ?thesis
    by (simp add: applyUpdate_def Let_def reject_def HasPrefix_def)
qed

section \<open>History is kept\<close>

definition reader_le :: "reader \<Rightarrow> reader \<Rightarrow> bool" where
  "reader_le rd rd' \<longleftrightarrow> (\<forall>i obj. rd i = Inr obj \<longrightarrow> rd' i = Inr obj)"

lemma reader_le_refl [simp]: "reader_le rd rd"
  by (simp add: reader_le_def)

lemma reader_le_trans: "reader_le a b \<Longrightarrow> reader_le b c \<Longrightarrow> reader_le a c"
  by (simp add: reader_le_def)

lemma ancestors_mono: "reader_le rd rd' \<Longrightarrow> x \<in> ancestors rd c \<Longrightarrow> x \<in> ancestors rd' c"
proof -
  assume "reader_le rd rd'"
  then have "parent_rel rd \<subseteq> parent_rel rd'" by (auto simp: parent_rel_def readCommit_iff reader_le_def)
  from rtrancl_mono [OF this] show "x \<in> ancestors rd c \<Longrightarrow> x \<in> ancestors rd' c" by blast
qed

lemma ancestors_trans: "x \<in> ancestors rd y \<Longrightarrow> y \<in> ancestors rd c \<Longrightarrow> x \<in> ancestors rd c"
  by auto

text \<open>What is relied on of the compression library: a text of 64 hexadecimal digits is not a compressed
  frame (a frame starts with the bytes 28 B5 2F FD).\<close>

definition zstd_frame :: "zstd \<Rightarrow> bool" where
  "zstd_frame z \<longleftrightarrow> (\<forall>c raw i. Decompress z c = Some raw \<longrightarrow> ParseHex (TrimSpace c) \<noteq> Inr i)"

lemma hex_digit_in: "hex_digit n \<in> set ''0123456789abcdef''"
  unfolding hex_digit_def by (rule nth_mem) simp

lemma hex_chars: "set (BaseID_String i) \<subseteq> set ''0123456789abcdef''"
proof -
  have "set (hex_EncodeToString bs) \<subseteq> set ''0123456789abcdef''" for bs
    by (induction bs) (use hex_digit_in in auto)
  then show ?thesis by (simp add: BaseID_String_def)
qed

lemma object_path_no_lock: "object_path s i \<noteq> p @ ''.lock''"
proof
  assume eq: "object_path s i = p @ ''.lock''"
  have "last (object_path s i) = last (drop 2 (BaseID_String i))" by (simp add: object_path_def)
  also have "\<dots> \<in> set (BaseID_String i)"
    by (rule subsetD [OF set_drop_subset [of 2]], rule last_in_set) simp
  finally have "last (p @ ''.lock'') \<in> set (BaseID_String i)" unfolding eq .
  then have "CHR ''k'' \<in> set (BaseID_String i)" by simp
  then have "CHR ''k'' \<in> set ''0123456789abcdef''" using hex_chars by blast
  then show False by simp
qed

text \<open>Neither a pack nor an update takes a readable object away.\<close>

lemma Store_Write_le:
  assumes "Store_Write z io s obj fs = (fs', r)"
  shows "reader_le (Store_Read z s fs) (Store_Read z s fs')"
  unfolding reader_le_def
proof (intro allI impI)
  fix i a
  assume "Store_Read z s fs i = Inr a"
  then show "Store_Read z s fs' i = Inr a"
    using Store_Write_object_files [OF assms, of i] by (auto simp: Store_Read_Inr)
qed

lemma Store_Write_frame:
  "Store_Write z io s obj fs = (fs', r) \<Longrightarrow> \<forall>i. p \<noteq> object_path s i \<and> p \<noteq> object_path s i @ ''.tmp'' \<Longrightarrow> fs' p = fs p"
  by (auto simp: Store_Write_def Let_def os_WriteFile_def os_Rename_def os_Remove_def split: if_splits prod.splits sum.splits)

lemma read_records_le:
  "read_records z io s k buf res fs = Some (res', fs', r) \<Longrightarrow>
     reader_le (Store_Read z s fs) (Store_Read z s fs')
     \<and> (\<forall>p. (\<forall>i. p \<noteq> object_path s i \<and> p \<noteq> object_path s i @ ''.tmp'') \<longrightarrow> fs' p = fs p)"
proof (induction k arbitrary: buf res fs)
  case (Suc k)
  show ?case
  proof (cases "\<exists>obj buf2. decode_record z buf = Some (Inr (obj, buf2))")
    case True
    then obtain obj buf2 where d: "decode_record z buf = Some (Inr (obj, buf2))" by blast
    obtain fs1 w where w: "Store_Write z io s obj fs = (fs1, w)" by fastforce
    note one = Store_Write_le [OF w] Store_Write_frame [OF w]
    show ?thesis
    proof (cases w)
      case (Inl e)
      with Suc.prems d w one show ?thesis by auto
    next
      case (Inr j)
      with Suc.prems d w obtain res1 where "read_records z io s k buf2 res1 fs1 = Some (res', fs', r)" by auto
      from Suc.IH [OF this] one show ?thesis by (auto intro: reader_le_trans)
    qed
  next
    case False
    with Suc.prems have "fs' = fs" by (auto split: option.splits sum.splits prod.splits)
    then show ?thesis by simp
  qed
qed simp

lemma ReadPack_le:
  assumes "ReadPack z io s pack fs = Some (res, fs', r)"
  shows "reader_le (Store_Read z s fs) (Store_Read z s fs')
    \<and> (\<forall>p. (\<forall>i. p \<noteq> object_path s i \<and> p \<noteq> object_path s i @ ''.tmp'') \<longrightarrow> fs' p = fs p)"
proof -
  consider "fs' = fs" | k buf res0 res1 r1 where "read_records z io s k buf res0 fs = Some (res1, fs', r1)"
    using assms by (auto simp: ReadPack_def Let_def split: if_splits option.splits sum.splits)
  then show ?thesis
  proof cases
    case 2
    then show ?thesis by (rule read_records_le)
  qed simp
qed

lemma ref_write_le:
  assumes "zstd_frame z" "fs q = None \<or> (\<exists>c i. fs q = Some c \<and> ParseHex (TrimSpace c) = Inr i)"
    and "fs' = (fs(q \<mapsto> content))(q @ ''.lock'' := None)"
  shows "reader_le (Store_Read z s fs) (Store_Read z s fs')"
  unfolding reader_le_def
proof (intro allI impI)
  fix i obj
  assume i: "Store_Read z s fs i = Inr obj"
  then obtain c where "fs (object_path s i) = Some c" "Decompress z c = Some (Serialize obj)" by (auto simp: Store_Read_Inr)
  with assms(1,2) have "object_path s i \<noteq> q" by (auto simp: zstd_frame_def)
  then have "fs' (object_path s i) = fs (object_path s i)" using object_path_no_lock [of s i q] assms(3) by simp
  with i show "Store_Read z s fs' i = Inr obj" by (simp add: Store_Read_Inr)
qed


text \<open>A branch that holds its commit directly.\<close>

definition direct_ref :: "FSResolver \<Rightarrow> fs \<Rightarrow> string \<Rightarrow> CommitID \<Rightarrow> bool" where
  "direct_ref r fs name v \<longleftrightarrow> sym_step r fs name = None \<and> (\<exists>content. ref_content r fs name = Some content \<and> ParseHex content = Inr v)"

lemma direct_ref_frame: "fs' (refPath r name) = fs (refPath r name) \<Longrightarrow> direct_ref r fs' name v = direct_ref r fs name v"
  by (simp add: direct_ref_def sym_step_def ref_content_def)

lemma direct_ref_written: "fs (refPath r name) = Some (BaseID_String v @ [LF]) \<Longrightarrow> direct_ref r fs name v"
  by (simp add: direct_ref_def sym_step_def ref_content_def)

lemma direct_ref_resolves: "direct_ref r fs name v \<Longrightarrow> Resolve_ref r fs name = Some (Inr v)"
  unfolding direct_ref_def Resolve_ref_def
  by (auto intro!: resolve_loop_complete [where k = 0] intro: resolves.direct)

lemma HasSuffix_iff: "HasSuffix s p \<longleftrightarrow> (\<exists>q. s = q @ p)"
proof
  assume "HasSuffix s p"
  then obtain t where "rev s = rev p @ t" by (auto simp: HasSuffix_def HasPrefix_iff)
  then have "s = rev t @ p" by (metis rev_append rev_rev_ident)
  then show "\<exists>q. s = q @ p" ..
qed auto

lemma update_keeps_history:
  assumes "applyUpdate z io n oserr l u fs = Some (fs', res)" "zstd_frame z" "u_Force u \<longrightarrow> u_Old u = zeroCommit"
    and "direct_ref (l_refs l) fs name v" "\<not> HasSuffix (refPath (l_refs l) name) ''.lock''"
  shows "reader_le (Store_Read z (l_store l) fs) (Store_Read z (l_store l) fs')
    \<and> (\<exists>v'. direct_ref (l_refs l) fs' name v' \<and> v \<in> ancestors (Store_Read z (l_store l) fs') v')"
  using assms(1)
proof (cases rule: applyUpdate_cases)
  case rejected
  have "fs' (object_path (l_store l) i) = fs (object_path (l_store l) i)" for i
    using rejected(2) object_path_no_lock [of "l_store l" i] by (auto simp: HasSuffix_iff)
  then have "reader_le (Store_Read z (l_store l) fs) (Store_Read z (l_store l) fs')" by (simp add: reader_le_def Store_Read_def)
  moreover have "direct_ref (l_refs l) fs' name v" using rejected(2) assms(4,5) direct_ref_frame [of fs' "l_refs l" name fs] by simp
  ultimately show ?thesis by auto
next
  case (created obj)
  have "refPath (l_refs l) name \<noteq> refPath (l_refs l) (u_Name u)"
    using assms(4) created(3) by (auto simp: direct_ref_def ref_content_def)
  moreover have "refPath (l_refs l) name \<noteq> refPath (l_refs l) (u_Name u) @ ''.lock''" using assms(5) by auto
  ultimately have "fs' (refPath (l_refs l) name) = fs (refPath (l_refs l) name)" using created(6) by simp
  with assms(4) have "direct_ref (l_refs l) fs' name v" using direct_ref_frame [of fs' "l_refs l" name fs] by simp
  with ref_write_le [OF assms(2) _ created(6)] created(3) show ?thesis by auto
next
  case (moved obj e content)
  obtain c where c: "fs (refPath (l_refs l) e) = Some c" "TrimSpace c = content" using moved(6) by (auto simp: ref_content_def)
  have le: "reader_le (Store_Read z (l_store l) fs) (Store_Read z (l_store l) fs')"
    using ref_write_le [OF assms(2) _ moved(9)] c moved(7) by blast
  have lock: "refPath (l_refs l) name \<noteq> refPath (l_refs l) e @ ''.lock''" using assms(5) by auto
  show ?thesis
  proof (cases "refPath (l_refs l) name = refPath (l_refs l) e")
    case True
    with assms(4) c moved(7) have "u_Old u = v" by (auto simp: direct_ref_def ref_content_def)
    with moved(2,8) assms(3) have "v \<in> ancestors (Store_Read z (l_store l) fs) (u_New u)" by auto
    then have "v \<in> ancestors (Store_Read z (l_store l) fs') (u_New u)" by (rule ancestors_mono [OF le])
    moreover have "direct_ref (l_refs l) fs' name (u_New u)" using True lock moved(9) by (intro direct_ref_written) simp
    ultimately show ?thesis using le by blast
  next
    case False
    then have "direct_ref (l_refs l) fs' name v"
      using lock moved(9) assms(4) direct_ref_frame [of fs' "l_refs l" name fs] by simp
    with le show ?thesis by auto
  qed
qed

lemma updates_keep_history:
  "apply_updates z io n oserr l us fs = Some (fs', rs) \<Longrightarrow> zstd_frame z \<Longrightarrow> \<forall>u \<in> set us. u_Force u \<longrightarrow> u_Old u = zeroCommit \<Longrightarrow>
   direct_ref (l_refs l) fs name v \<Longrightarrow> \<not> HasSuffix (refPath (l_refs l) name) ''.lock'' \<Longrightarrow>
   \<exists>v'. direct_ref (l_refs l) fs' name v' \<and> v \<in> ancestors (Store_Read z (l_store l) fs') v'
      \<and> reader_le (Store_Read z (l_store l) fs) (Store_Read z (l_store l) fs')"
proof (induction us arbitrary: fs v rs)
  case (Cons u us)
  then obtain fs1 r rs' where u: "applyUpdate z io n oserr l u fs = Some (fs1, r)"
      and us: "apply_updates z io n oserr l us fs1 = Some (fs', rs')"
    by (auto split: option.splits)
  obtain v1 where v1: "direct_ref (l_refs l) fs1 name v1" "v \<in> ancestors (Store_Read z (l_store l) fs1) v1"
      "reader_le (Store_Read z (l_store l) fs) (Store_Read z (l_store l) fs1)"
    using update_keeps_history [OF u Cons.prems(2) _ Cons.prems(4,5)] Cons.prems(3) by auto
  obtain v2 where v2: "direct_ref (l_refs l) fs' name v2" "v1 \<in> ancestors (Store_Read z (l_store l) fs') v2"
      "reader_le (Store_Read z (l_store l) fs1) (Store_Read z (l_store l) fs')"
    using Cons.IH [OF us Cons.prems(2) _ v1(1) Cons.prems(5)] Cons.prems(3) by auto
  from ancestors_mono [OF v2(3) v1(2)] v2(2) have "v \<in> ancestors (Store_Read z (l_store l) fs') v2" by (rule ancestors_trans)
  with v2(1) reader_le_trans [OF v1(3) v2(3)] show ?case by blast
qed auto

lemma receive_history:
  assumes "ReceivePack z io n oserr mk att now l pack updates fs = Some (fs', r)" "zstd_frame z"
    and "\<forall>u \<in> set updates. u_Force u \<longrightarrow> u_Old u = zeroCommit"
    and "direct_ref (l_refs l) fs name v" "\<not> HasSuffix (refPath (l_refs l) name) ''.lock''"
    and "\<forall>i. refPath (l_refs l) name \<noteq> object_path (l_store l) i \<and> refPath (l_refs l) name \<noteq> object_path (l_store l) i @ ''.tmp''"
  shows "\<exists>v'. Resolve_ref (l_refs l) fs' name = Some (Inr v') \<and> v \<in> ancestors (Store_Read z (l_store l) fs') v'"
proof -
  obtain res fs1 r1 where p: "ReadPack z io (l_store l) pack fs = Some (res, fs1, r1)"
    using assms(1) by (auto simp: ReceivePack_def split: option.splits)
  have one: "direct_ref (l_refs l) fs1 name v"
    using ReadPack_le [OF p] assms(4,6) direct_ref_frame [of fs1 "l_refs l" name fs] by simp
  have "fs' = fs1 \<or> (\<exists>rs. apply_updates z io n oserr l updates fs1 = Some (fs', rs))"
    using assms(1) p by (auto simp: ReceivePack_def split: option.splits sum.splits)
  then show ?thesis
  proof
    assume "fs' = fs1"
    with direct_ref_resolves [OF one] show ?thesis by auto
  next
    assume "\<exists>rs. apply_updates z io n oserr l updates fs1 = Some (fs', rs)"
    then obtain rs where "apply_updates z io n oserr l updates fs1 = Some (fs', rs)" ..
    from updates_keep_history [OF this assms(2,3) one assms(5)] direct_ref_resolves show ?thesis by blast
  qed
qed

text \<open>A push without force never loses history: whatever pack it carries, whatever updates it asks for
  (a forced update may only create), in whatever order, and whichever of them are rejected or fail half way, a
  branch that named a commit before still names a commit afterwards, and the old one is among its
  ancestors.\<close>

theorem receive_keeps_history:
  assumes "ReceivePack z io n oserr mk att now l pack updates fs = Some (fs', r)" "zstd_frame z"
    and "\<forall>u \<in> set updates. u_Force u \<longrightarrow> u_Old u = zeroCommit"
    and "direct_ref (l_refs l) fs name v" "\<not> HasSuffix (refPath (l_refs l) name) ''.lock''"
    and "\<forall>i. refPath (l_refs l) name \<noteq> object_path (l_store l) i \<and> refPath (l_refs l) name \<noteq> object_path (l_store l) i @ ''.tmp''"
  shows "\<exists>v'. Resolve_ref (l_refs l) fs' name = Some (Inr v') \<and> v \<in> ancestors (Store_Read z (l_store l) fs') v'"
  by (rule receive_history [OF assms])


section \<open>A fetch delivers\<close>

lemma enumerate_distinct: "Enumerate ord rd wants haves = Inr ids \<Longrightarrow> map_order ord \<Longrightarrow> distinct ids"
  by (erule (1) EnumerateE) (simp add: map_order_def)

lemma FetchPackE:
  assumes "FetchPack ord z l fs wants haves = Inr stream"
  obtains ids where "Enumerate ord (Store_Read z (l_store l) fs) wants haves = Inr ids"
    "WritePack z (Store_Read z (l_store l) fs) ids = Inr stream"
  using assms by (auto simp: FetchPack_def res_simps)



section \<open>What the checks miss\<close>

text \<open>A history in which a merge (4) has the root (1) as its second parent: 4 has parents 3 and 1, 3 has
  parent 2, and 2 has parent 1.\<close>

definition ff_reader :: reader where
  "ff_reader i =
     (let c = (\<lambda>ps. Inr (CommitObj \<lparr>TreeHash = 9, Parents = ps, Author = ''a'', Message = ''m'', Timestamp = 0\<rparr>)) in
      if i = 4 then c [3, 1] else if i = 3 then c [2] else if i = 2 then c [1] else if i = 1 then c []
      else Inl ErrObjectNotFound)"

text \<open>The fast-forward test refuses some fast-forwards: it asks whether the merge base is the old value,
  but the merge base is the common ancestor nearest to the new commit, and a shortcut in the history can make
  that an older one.\<close>

theorem fast_forward_refused:
  "not_fast_forward ff_reader 2 \<lparr>u_Name = ''refs/heads/main'', u_Old = 2, u_New = 4, u_Force = False\<rparr>
    \<and> 2 \<in> ancestors ff_reader 4"
proof
  have "MergeBase ff_reader 2 4 = Inr 1"
    by (simp add: MergeBase_def collectAncestors_def ff_reader_def readCommit_def Let_def)
  then show "not_fast_forward ff_reader 2 \<lparr>u_Name = ''refs/heads/main'', u_Old = 2, u_New = 4, u_Force = False\<rparr>"
    by (simp add: not_fast_forward_def zeroCommit_def)
  have "(4, 3) \<in> parent_rel ff_reader" "(3, 2) \<in> parent_rel ff_reader"
    by (auto simp: parent_rel_def ff_reader_def readCommit_def Let_def)
  then show "2 \<in> ancestors ff_reader 4" by (meson ImageI rtrancl.simps singletonI)
qed

text \<open>The name of a pushed reference is never validated: a push that creates \<^verbatim>\<open>../../evil\<close> in the repository
  \<^verbatim>\<open>/srv/repo\<close> is accepted and writes a file outside of it.\<close>

lemma renameFile_io_ok [simp]: "renameFile io_ok p k n"
  by (cases n) (simp_all add: io_ok_def)

lemma write_ref_io_ok:
  "write_ref io_ok n r name content fs = ((fs(refPath r name \<mapsto> content))(refPath r name @ ''.lock'' := None), Inr ())"
proof -
  obtain fs' w where w: "write_ref io_ok n r name content fs = (fs', w)" by fastforce
  then have "w = Inr ()"
    by (auto simp: write_ref_def atomicWrite_def WriteFile_def Let_def split: if_splits) (auto simp: io_ok_def)
  with write_ref_result(1) [OF w] w show ?thesis by simp
qed

definition srv_local :: Local where
  "srv_local = \<lparr>l_varaDir = ''/srv/repo/.vara'', l_store = NewStore ''/srv/repo/.vara'', l_refs = \<lparr>VaraDir = ''/srv/repo/.vara''\<rparr>\<rparr>"

theorem push_escapes_repository:
  assumes "fs ''/srv/evil'' = None" "Store_Read z (l_store srv_local) fs i = Inr obj"
  shows "\<exists>fs' res. applyUpdate z io_ok n oserr srv_local \<lparr>u_Name = ''../../evil'', u_Old = zeroCommit, u_New = i, u_Force = False\<rparr> fs
      = Some (fs', res) \<and> rs_OK res \<and> fs' ''/srv/evil'' = Some (BaseID_String i @ [LF])"
proof -
  have p: "refPath \<lparr>VaraDir = ''/srv/repo/.vara''\<rparr> ''../../evil'' = ''/srv/evil''" by code_simp
  then have "\<exists>e. Resolve_ref (l_refs srv_local) fs ''../../evil'' = Some (Inl e)"
    unfolding Resolve_ref_def srv_local_def by (subst resolve_loop.simps) (simp add: ref_content_def assms(1))
  then obtain e where "Resolve_ref (l_refs srv_local) fs ''../../evil'' = Some (Inl e)" ..
  with p assms show ?thesis
    by (simp add: applyUpdate_def not_fast_forward_def move_ref_def Create_ref_def write_ref_io_ok Let_def applied_def
        srv_local_def)
qed


section \<open>A small server repository\<close>

text \<open>A stand-in for the compression library: a frame is the data behind an opening parenthesis.\<close>

definition zstd_tag :: zstd where
  "zstd_tag = \<lparr>Compress = (\<lambda>x. CHR ''('' # x),
     Decompress = (\<lambda>c. case c of [] \<Rightarrow> None | a # x \<Rightarrow> if a = CHR ''('' then Some x else None)\<rparr>"

lemma trim_runes_keep: "c \<in> set s \<Longrightarrow> \<forall>r \<in> set rs. c \<notin> set r \<Longrightarrow> c \<in> set (trim_runes n rs s)"
proof (induction n rs s rule: trim_runes.induct)
  case (2 n rs s)
  show ?case
  proof (cases "find (HasPrefix s) rs")
    case (Some r)
    then have "HasPrefix s r" "r \<in> set rs" by (auto simp: find_Some_iff)
    then obtain t where "s = r @ t" by (auto simp: HasPrefix_iff)
    with 2 Some \<open>r \<in> set rs\<close> show ?thesis by auto
  qed (use 2 in simp)
qed simp

lemma hex_decode_chars: "hex_DecodeString s = Inr bs \<Longrightarrow> c \<in> set s \<Longrightarrow> from_hex_char c \<noteq> None"
  by (induction s arbitrary: bs rule: hex_DecodeString.induct) (auto simp: res_simps split: option.splits sum.splits)

lemma zstd_tag_ok: "zstd_ok zstd_tag" "zstd_frame zstd_tag"
proof -
  show "zstd_ok zstd_tag" by (simp add: zstd_ok_def zstd_tag_def)
  have paren: "\<forall>r \<in> set space_runes. CHR ''('' \<notin> set r" "from_hex_char CHR ''('' = None" by code_simp+
  have "ParseHex (TrimSpace c) \<noteq> Inr i" if "Decompress zstd_tag c = Some raw" for c raw i
  proof
    assume "ParseHex (TrimSpace c) = Inr i"
    then obtain bs where bs: "hex_DecodeString (TrimSpace c) = Inr bs" by (auto simp: ParseHex_def bind_res_eq_Inr split: if_splits)
    have "CHR ''('' \<in> set c" using that by (auto simp: zstd_tag_def split: list.splits if_splits)
    then have "CHR ''('' \<in> set (TrimSpace c)"
      unfolding TrimSpace_def Let_def set_rev using paren(1) by (intro trim_runes_keep) (simp_all add: trim_runes_keep)
    with hex_decode_chars [OF bs] paren(2) show False by blast
  qed
  then show "zstd_frame zstd_tag" by (auto simp: zstd_frame_def)
qed

definition srv_main :: CommitID where
  "srv_main = (if BlobHash ''x'' = 1 then 2 else 1)"

definition srv_fs :: fs where
  "srv_fs = [object_path (NewStore ''/srv/repo/.vara'') (BlobHash ''x'') \<mapsto> CHR ''('' # Serialize (Blob ''x''),
     ''/srv/repo/.vara/refs/heads/main'' \<mapsto> BaseID_String srv_main @ [LF]]"

definition dev_update :: RefUpdate where
  "dev_update = \<lparr>u_Name = ''refs/heads/dev'', u_Old = zeroCommit, u_New = BlobHash ''x'', u_Force = False\<rparr>"

lemma srv_paths:
  "refPath (l_refs srv_local) ''refs/heads/dev'' = ''/srv/repo/.vara/refs/heads/dev''"
  "refPath (l_refs srv_local) ''refs/heads/main'' = ''/srv/repo/.vara/refs/heads/main''"
  unfolding srv_local_def by code_simp+

lemma srv_short: "length p < 60 \<Longrightarrow> srv_fs p = (if p = ''/srv/repo/.vara/refs/heads/main'' then Some (BaseID_String srv_main @ [LF]) else None)"
  using length_object_path [of "NewStore ''/srv/repo/.vara''" "BlobHash ''x''"] by (auto simp: srv_fs_def)

lemma srv_read: "Store_Read zstd_tag (l_store srv_local) srv_fs (BlobHash ''x'') = Inr (Blob ''x'')"
proof -
  have "length (object_path (NewStore ''/srv/repo/.vara'') (BlobHash ''x'')) \<noteq> length ''/srv/repo/.vara/refs/heads/main''"
    unfolding length_object_path by simp
  then have "object_path (NewStore ''/srv/repo/.vara'') (BlobHash ''x'') \<noteq> ''/srv/repo/.vara/refs/heads/main''" by metis
  then show ?thesis by (simp add: Store_Read_Inr srv_fs_def srv_local_def zstd_tag_def BlobHash_def)
qed

lemma srv_dev:
  "\<exists>fs'. applyUpdate zstd_tag io_ok 0 [] srv_local dev_update srv_fs = Some (fs', applied dev_update)"
  "leads (l_refs srv_local) srv_fs ''refs/heads/dev'' e \<Longrightarrow> e = ''refs/heads/dev''"
proof -
  have none: "ref_content (l_refs srv_local) srv_fs ''refs/heads/dev'' = None"
    by (simp add: ref_content_def srv_paths srv_short)
  then have "sym_step (l_refs srv_local) srv_fs ''refs/heads/dev'' = None" by (simp add: sym_step_def)
  then show "leads (l_refs srv_local) srv_fs ''refs/heads/dev'' e \<Longrightarrow> e = ''refs/heads/dev''" by (auto elim: leads.cases)
  have "\<exists>er. Resolve_ref (l_refs srv_local) srv_fs ''refs/heads/dev'' = Some (Inl er)"
    unfolding Resolve_ref_def by (subst resolve_loop.simps) (simp add: none)
  then obtain er where "Resolve_ref (l_refs srv_local) srv_fs ''refs/heads/dev'' = Some (Inl er)" ..
  then show "\<exists>fs'. applyUpdate zstd_tag io_ok 0 [] srv_local dev_update srv_fs = Some (fs', applied dev_update)"
    using srv_read
    by (simp add: applyUpdate_def dev_update_def not_fast_forward_def move_ref_def Create_ref_def write_ref_io_ok
        Let_def srv_paths srv_short)
qed


theorem push_update_sound_witness:
  "\<exists>fs'. applyUpdate zstd_tag io_ok 0 [] srv_local dev_update srv_fs = Some (fs', applied dev_update)
     \<and> Resolve_ref (l_refs srv_local) fs' ''refs/heads/dev'' = Some (Inr (BlobHash ''x''))"
proof -
  obtain fs' where u: "applyUpdate zstd_tag io_ok 0 [] srv_local dev_update srv_fs = Some (fs', applied dev_update)"
    using srv_dev(1) by blast
  have "\<forall>e. leads (l_refs srv_local) srv_fs (u_Name dev_update) e \<longrightarrow> srv_fs (refPath (l_refs srv_local) e @ ''.lock'') = None"
  proof (intro allI impI)
    fix e
    assume "leads (l_refs srv_local) srv_fs (u_Name dev_update) e"
    then have "e = ''refs/heads/dev''" by (intro srv_dev(2)) (simp add: dev_update_def)
    then show "srv_fs (refPath (l_refs srv_local) e @ ''.lock'') = None" by (simp add: srv_paths srv_short)
  qed
  from push_update_sound [OF u this] u show ?thesis by (simp add: applied_def dev_update_def)
qed

definition force_update :: RefUpdate where
  "force_update = \<lparr>u_Name = ''refs/heads/main'', u_Old = srv_main, u_New = BlobHash ''x'', u_Force = True\<rparr>"

lemma srv_main_direct: "direct_ref (l_refs srv_local) srv_fs ''refs/heads/main'' srv_main"
  by (rule direct_ref_written) (simp add: srv_paths srv_short)

lemma srv_main_leads: "leads (l_refs srv_local) srv_fs ''refs/heads/main'' e \<longleftrightarrow> e = ''refs/heads/main''"
  using srv_main_direct by (auto simp: direct_ref_def elim: leads.cases intro: leads.stop)

lemma srv_force:
  "\<exists>fs'. applyUpdate zstd_tag io_ok 0 [] srv_local force_update srv_fs = Some (fs', applied force_update)"
proof -
  have "srv_main \<noteq> zeroCommit" by (simp add: srv_main_def zeroCommit_def)
  moreover have "follow (l_refs srv_local) srv_fs ''refs/heads/main'' = Some ''refs/heads/main''"
    using srv_main_leads by (intro follow_complete) simp
  ultimately show ?thesis
    using srv_read direct_ref_resolves [OF srv_main_direct]
    by (simp add: applyUpdate_def force_update_def not_fast_forward_def move_ref_def Update_ref_def write_ref_io_ok Let_def)
qed

theorem push_race_one_wins_witness:
  "\<exists>fs1 res2. applyUpdate zstd_tag io_ok 0 [] srv_local force_update srv_fs = Some (fs1, applied force_update)
     \<and> applyUpdate zstd_tag io_ok 0 [] srv_local force_update fs1 = Some (fs1, res2) \<and> \<not> rs_OK res2"
proof -
  obtain fs1 where u: "applyUpdate zstd_tag io_ok 0 [] srv_local force_update srv_fs = Some (fs1, applied force_update)"
    using srv_force by blast
  have "u_New force_update \<noteq> u_Old force_update" by (simp add: force_update_def srv_main_def)
  moreover have "srv_fs (refPath (l_refs srv_local) ''refs/heads/main'' @ ''.lock'') = None" by (simp add: srv_paths srv_short)
  then have "\<forall>e. leads (l_refs srv_local) srv_fs (u_Name force_update) e \<longrightarrow> srv_fs (refPath (l_refs srv_local) e @ ''.lock'') = None"
    by (simp add: force_update_def srv_main_leads)
  moreover have "rs_OK (applied force_update)" by (simp add: applied_def)
  ultimately show ?thesis
    using push_race_one_wins [OF u, of force_update io_ok 0] u by blast
qed

lemma short_not_object: "length p \<le> 60 \<Longrightarrow> p \<noteq> object_path s i \<and> p \<noteq> object_path s i @ ''.tmp''"
  using length_object_path [of s i] by (auto simp: length_append)

definition srv_pack :: bytes where
  "srv_pack = (let header = packMagic @ word_bytes packVersion @ word_bytes (0 :: u32) in header @ word_bytes (Compute header))"

lemma srv_pack_read: "\<exists>res. ReadPack z io s srv_pack fs = Some (res, fs, Inr ())"
proof -
  have len: "length packMagic = 4" "length (word_bytes packVersion) = 1" by (simp_all add: packMagic_def)
  have "unat (bytes_word (word_bytes (0 :: u32)) :: u32) = 0" by simp
  with len show ?thesis unfolding srv_pack_def ReadPack_def Let_def by simp
qed

theorem receive_keeps_history_witness:
  "\<exists>fs' r v'. ReceivePack zstd_tag io_ok 0 [] True (\<lambda>_. Created) 0 srv_local srv_pack [dev_update] srv_fs = Some (fs', Inr r)
     \<and> Resolve_ref (l_refs srv_local) fs' ''refs/heads/main'' = Some (Inr v')"
proof -
  obtain fs' where u: "applyUpdate zstd_tag io_ok 0 [] srv_local dev_update srv_fs = Some (fs', applied dev_update)"
    using srv_dev(1) by blast
  have "AcquireWithTimeout True (\<lambda>_. Created) 0 30000 = Some (0, Inr ())"
    by (simp add: AcquireWithTimeout_def acquire_loop.simps)
  moreover obtain res where "ReadPack zstd_tag io_ok (l_store srv_local) srv_pack srv_fs = Some (res, srv_fs, Inr ())"
    using srv_pack_read by blast
  ultimately have p: "ReceivePack zstd_tag io_ok 0 [] True (\<lambda>_. Created) 0 srv_local srv_pack [dev_update] srv_fs = Some (fs', Inr [applied dev_update])"
    using u by (simp add: ReceivePack_def)
  have "\<not> HasSuffix (refPath (l_refs srv_local) ''refs/heads/main'') ''.lock''" unfolding srv_paths by code_simp
  moreover have "\<forall>i. refPath (l_refs srv_local) ''refs/heads/main'' \<noteq> object_path (l_store srv_local) i
      \<and> refPath (l_refs srv_local) ''refs/heads/main'' \<noteq> object_path (l_store srv_local) i @ ''.tmp''"
    unfolding srv_paths by (intro allI short_not_object) simp
  moreover have "\<forall>u \<in> set [dev_update]. u_Force u \<longrightarrow> u_Old u = zeroCommit" by (simp add: dev_update_def)
  ultimately show ?thesis
    using receive_keeps_history [OF p zstd_tag_ok(2) _ srv_main_direct] p by blast
qed



theorem push_escapes_repository_witness:
  "\<exists>fs' res. applyUpdate zstd_tag io_ok 0 [] srv_local \<lparr>u_Name = ''../../evil'', u_Old = zeroCommit, u_New = BlobHash ''x'', u_Force = False\<rparr> srv_fs
      = Some (fs', res) \<and> rs_OK res \<and> fs' ''/srv/evil'' = Some (BaseID_String (BlobHash ''x'') @ [LF])"
  using push_escapes_repository [OF _ srv_read, of 0 "[]"] by (simp add: srv_short)

end
