(* ===== verification/Authz.thy ===== *)
theory Authz
  imports Refs
begin

text \<open>
  \<^verbatim>\<open>internal/authz\<close>: which subject may do what on which repository. A policy is a JSON file per repository, read
  through a cache keyed by the file's modification time. The JSON codec of the standard library is the pair of arguments
  \<open>json\<close> and \<open>unjson\<close>; a Go map of subjects is the list of its bindings in the order Go visits them; \<open>mtime\<close> is
  what \<^verbatim>\<open>os.Stat\<close> reports for a file. The audit log is not modelled.
\<close>

section \<open>Capabilities\<close>

type_synonym Capability = string

definition CapRead :: Capability where "CapRead = ''read''"
definition CapCreateRef :: Capability where "CapCreateRef = ''create-ref''"
definition CapPush :: Capability where "CapPush = ''push''"
definition CapForcePush :: Capability where "CapForcePush = ''force-push''"
definition CapDeleteRef :: Capability where "CapDeleteRef = ''delete-ref''"

definition CapCreateRepo :: Capability where "CapCreateRepo = ''create-repo''"
definition CapListRepos :: Capability where "CapListRepos = ''list-repos''"
definition CapDeleteRepo :: Capability where "CapDeleteRepo = ''delete-repo''"
definition CapRenameRepo :: Capability where "CapRenameRepo = ''rename-repo''"
definition CapAdmin :: Capability where "CapAdmin = ''admin''"
definition CapArchive :: Capability where "CapArchive = ''archive''"
definition CapManageAccounts :: Capability where "CapManageAccounts = ''manage-accounts''"

text \<open>The table as the package initializer leaves it.\<close>

definition Known :: "Capability list" where
  "Known = [CapRead, CapCreateRef, CapPush, CapForcePush, CapDeleteRef]
     @ [CapCreateRepo, CapListRepos, CapDeleteRepo, CapRenameRepo, CapAdmin, CapArchive, CapManageAccounts]"

definition RequiredForUpdate :: "bool \<Rightarrow> bool \<Rightarrow> bool \<Rightarrow> Capability" where
  "RequiredForUpdate oldZero newZero force =
     (if newZero then CapDeleteRef else if oldZero then CapCreateRef else if force then CapForcePush else CapPush)"

section \<open>Policies\<close>

type_synonym Policy = "string \<rightharpoonup> (Capability \<rightharpoonup> bool)"

definition DenyAll :: Policy where "DenyAll = Map.empty"

text \<open>A nil policy is \<open>None\<close>.\<close>

definition Allows :: "Policy option \<Rightarrow> string \<Rightarrow> Capability \<Rightarrow> bool" where
  "Allows p subject cap =
     (case p of
        None \<Rightarrow> False
      | Some subjects \<Rightarrow>
          (case subjects subject of None \<Rightarrow> False | Some caps \<Rightarrow> (case caps cap of None \<Rightarrow> False | Some b \<Rightarrow> b)))"

record policyFile =
  pf_Version :: int
  pf_Subjects :: "(string \<times> string list) list"

datatype authz_error = PolicyRead | PolicyJSON | UnknownCapability string string | PolicyWrite | PolicyStat

fun load_caps :: "string \<Rightarrow> string list \<Rightarrow> (Capability \<rightharpoonup> bool) \<Rightarrow> authz_error + (Capability \<rightharpoonup> bool)" where
  "load_caps subject [] caps = Inr caps"
| "load_caps subject (c # cs) caps =
     (if c \<notin> set Known then Inl (UnknownCapability c subject) else load_caps subject cs (caps(c \<mapsto> True)))"

fun load_subjects :: "(string \<times> string list) list \<Rightarrow> Policy \<Rightarrow> authz_error + Policy" where
  "load_subjects [] p = Inr p"
| "load_subjects ((subject, cs) # ss) p =
     (case load_caps subject cs Map.empty of
        Inl e \<Rightarrow> Inl e
      | Inr caps \<Rightarrow> load_subjects ss (p(subject \<mapsto> caps)))"

definition LoadPolicy :: "(bytes \<Rightarrow> policyFile option) \<Rightarrow> fs \<Rightarrow> path \<Rightarrow> authz_error + Policy" where
  "LoadPolicy unjson fs p =
     (case fs p of
        None \<Rightarrow> Inl PolicyRead
      | Some data \<Rightarrow>
          (case unjson data of
             None \<Rightarrow> Inl PolicyJSON
           | Some pf \<Rightarrow> load_subjects (pf_Subjects pf) Map.empty))"

fun write_caps :: "string \<Rightarrow> Capability list \<Rightarrow> string list \<Rightarrow> authz_error + string list" where
  "write_caps subject [] out = Inr out"
| "write_caps subject (c # cs) out =
     (if c \<notin> set Known then Inl (UnknownCapability c subject) else write_caps subject cs (out @ [c]))"

fun write_subjects :: "(string \<times> Capability list) list \<Rightarrow> (string \<times> string list) list \<Rightarrow> authz_error + (string \<times> string list) list" where
  "write_subjects [] acc = Inr acc"
| "write_subjects ((subject, cs) # ss) acc =
     (case write_caps subject cs [] of
        Inl e \<Rightarrow> Inl e
      | Inr out \<Rightarrow> write_subjects ss (acc @ [(subject, out)]))"

definition WritePolicy ::
    "(policyFile \<Rightarrow> bytes) \<Rightarrow> io \<Rightarrow> nat \<Rightarrow> path \<Rightarrow> (string \<times> Capability list) list \<Rightarrow> fs \<Rightarrow> fs \<times> (authz_error + unit)" where
  "WritePolicy json io n p subjects fs =
     (case write_subjects subjects [] of
        Inl e \<Rightarrow> (fs, Inl e)
      | Inr ss \<Rightarrow>
          (case WriteFile io n (p @ ''.tmp'') p (json \<lparr>pf_Version = 1, pf_Subjects = ss\<rparr> @ [LF]) fs of
             (tr, Inl _) \<Rightarrow> (last tr, Inl PolicyWrite)
           | (tr, Inr _) \<Rightarrow> (last tr, Inr ())))"

definition PolicyPath :: "path \<Rightarrow> string \<Rightarrow> path" where
  "PolicyPath root repo = filepath_Join root (repo @ ''.json'')"

section \<open>The policy store\<close>

record cacheEntry =
  ce_policy :: Policy
  ce_modTime :: nat

record PolicyStore =
  ps_root :: path
  ps_byRepo :: "string \<rightharpoonup> cacheEntry"

datatype stat = StatNotExist | StatFails | StatTime nat

definition PolicyFor ::
    "(bytes \<Rightarrow> policyFile option) \<Rightarrow> (path \<Rightarrow> stat) \<Rightarrow> fs \<Rightarrow> PolicyStore \<Rightarrow> string \<Rightarrow> PolicyStore \<times> Policy \<times> authz_error option" where
  "PolicyFor unjson mtime fs s repo =
     (let p = filepath_Join (ps_root s) (repo @ ''.json'') in
      case mtime p of
        StatNotExist \<Rightarrow> (s, DenyAll, None)
      | StatFails \<Rightarrow> (s, DenyAll, Some PolicyStat)
      | StatTime t \<Rightarrow>
          if (case ps_byRepo s repo of None \<Rightarrow> False | Some e \<Rightarrow> ce_modTime e = t)
          then (s, ce_policy (the (ps_byRepo s repo)), None)
          else case LoadPolicy unjson fs p of
                 Inl err \<Rightarrow>
                   (case ps_byRepo s repo of
                      Some e \<Rightarrow> (s, ce_policy e, Some err)
                    | None \<Rightarrow> (s, DenyAll, Some err))
               | Inr pol \<Rightarrow> (s\<lparr>ps_byRepo := (ps_byRepo s)(repo \<mapsto> \<lparr>ce_policy = pol, ce_modTime = t\<rparr>)\<rparr>, pol, None))"

record Denied =
  d_Subject :: string
  d_Action :: Capability
  d_Resource :: string

definition Authorize ::
    "(bytes \<Rightarrow> policyFile option) \<Rightarrow> (path \<Rightarrow> stat) \<Rightarrow> fs \<Rightarrow> PolicyStore \<Rightarrow> string \<Rightarrow> Capability \<Rightarrow> string \<Rightarrow> PolicyStore \<times> Denied option" where
  "Authorize unjson mtime fs s subject cap repo =
     (case PolicyFor unjson mtime fs s repo of
        (s', p, _) \<Rightarrow>
          (s', if Allows (Some p) subject cap then None
               else Some \<lparr>d_Subject = subject, d_Action = cap, d_Resource = repo\<rparr>))"


section \<open>What a policy file grants\<close>

definition cap_table :: "string list \<Rightarrow> Capability \<rightharpoonup> bool" where
  "cap_table cs c = (if c \<in> set cs then Some True else None)"

lemma load_caps_exact:
  "load_caps subject cs m = (if set cs \<subseteq> set Known then Inr (m ++ cap_table cs)
     else Inl (UnknownCapability (hd (filter (\<lambda>c. c \<notin> set Known) cs)) subject))"
proof (induction cs arbitrary: m)
  case (Cons c cs)
  have "m(c \<mapsto> True) ++ cap_table cs = m ++ cap_table (c # cs)"
    by (auto simp: fun_eq_iff map_add_def cap_table_def)
  with Cons show ?case by auto
qed (auto simp: cap_table_def fun_eq_iff map_add_def)

lemma load_subjects_exact:
  "(\<exists>pol. load_subjects ss p = Inr pol) \<longleftrightarrow> (\<forall>(s, cs) \<in> set ss. set cs \<subseteq> set Known)"
  "load_subjects ss p = Inr pol \<Longrightarrow> pol = p ++ (\<lambda>s. map_option cap_table (map_of (rev ss) s))"
proof (induction ss arbitrary: p)
  case Nil
  { case 1 then show ?case by simp }
  { case 2 then show ?case by (simp add: fun_eq_iff map_add_def) }
next
  case (Cons x ss)
  obtain s cs where x: "x = (s, cs)" by (cases x)
  { case 1 then show ?case using Cons.IH(1) by (auto simp: x load_caps_exact) }
  { case 2
    then have "load_subjects ss (p(s \<mapsto> cap_table cs)) = Inr pol"
      by (auto simp: x load_caps_exact split: if_splits)
    from Cons.IH(2) [OF this] show ?case
      by (auto simp: x fun_eq_iff map_add_def map_of_append split: option.splits) }
qed

lemma Allows_table: "Allows (Some pol) s c \<longleftrightarrow> (\<exists>caps. pol s = Some caps \<and> caps c = Some True)"
  by (auto simp: Allows_def split: option.splits)

text \<open>Who holds what by the text of a policy, with the subjects of a Go map pairwise different.\<close>

definition grants :: "(string \<times> string list) list \<Rightarrow> string \<Rightarrow> Capability \<Rightarrow> bool" where
  "grants ss s c \<longleftrightarrow> (\<exists>cs. (s, cs) \<in> set ss \<and> c \<in> set cs)"

lemma load_subjects_Allows:
  assumes "load_subjects ss Map.empty = Inr pol" "distinct (map fst ss)"
  shows "Allows (Some pol) s c \<longleftrightarrow> grants ss s c"
proof -
  have "distinct (map fst (rev ss))" using assms(2) by (simp add: rev_map [symmetric])
  then have "map_of (rev ss) s = Some cs \<longleftrightarrow> (s, cs) \<in> set ss" for cs by simp
  with load_subjects_exact(2) [OF assms(1)] show ?thesis
    by (auto simp: Allows_table grants_def cap_table_def split: if_splits)
qed

lemma LoadPolicyE:
  assumes "LoadPolicy unjson fs p = Inr pol"
  obtains data pf where "fs p = Some data" "unjson data = Some pf" "load_subjects (pf_Subjects pf) Map.empty = Inr pol"
  using assms by (auto simp: LoadPolicy_def split: option.splits)

lemma write_caps_exact: "write_caps subject cs out = (if set cs \<subseteq> set Known then Inr (out @ cs)
     else Inl (UnknownCapability (hd (filter (\<lambda>c. c \<notin> set Known) cs)) subject))"
  by (induction cs arbitrary: out) auto

lemma write_subjects_exact:
  "write_subjects ss acc = Inr out \<longleftrightarrow> out = acc @ ss \<and> (\<forall>(s, cs) \<in> set ss. set cs \<subseteq> set Known)"
  by (induction ss acc rule: write_subjects.induct) (auto simp: write_caps_exact)

section \<open>Properties\<close>

text \<open>A policy file is all or nothing: it loads exactly when it is readable JSON and every capability it
  names is a known one, and a loaded policy allows a subject exactly the capabilities the file lists for
  that subject, so that anything not granted explicitly is denied.\<close>

theorem load_policy_exact:
  assumes "fs p = Some data" "unjson data = Some pf" "distinct (map fst (pf_Subjects pf))"
  shows "if \<forall>(s, cs) \<in> set (pf_Subjects pf). set cs \<subseteq> set Known
    then \<exists>pol. LoadPolicy unjson fs p = Inr pol
      \<and> (\<forall>s c. Allows (Some pol) s c \<longleftrightarrow> (\<exists>cs. (s, cs) \<in> set (pf_Subjects pf) \<and> c \<in> set cs))
    else \<exists>e. LoadPolicy unjson fs p = Inl e"
proof (cases "\<exists>pol. load_subjects (pf_Subjects pf) Map.empty = Inr pol")
  case True
  then obtain pol where pol: "load_subjects (pf_Subjects pf) Map.empty = Inr pol" ..
  moreover have "\<forall>(s, cs) \<in> set (pf_Subjects pf). set cs \<subseteq> set Known" using True load_subjects_exact(1) by blast
  moreover have "Allows (Some pol) s c \<longleftrightarrow> (\<exists>cs. (s, cs) \<in> set (pf_Subjects pf) \<and> c \<in> set cs)" for s c
    using load_subjects_Allows [OF pol assms(3)] by (simp add: grants_def)
  ultimately show ?thesis using assms by (simp add: LoadPolicy_def)
next
  case False
  then obtain e where "load_subjects (pf_Subjects pf) Map.empty = Inl e" by (metis sum.exhaust)
  moreover have "\<not> (\<forall>(s, cs) \<in> set (pf_Subjects pf). set cs \<subseteq> set Known)" using False load_subjects_exact(1) by blast
  ultimately show ?thesis using assms by (simp add: LoadPolicy_def)
qed

text \<open>Seeding is faithful: after a successful \<^verbatim>\<open>WritePolicy\<close> the file loads, and the loaded policy grants
  exactly what was asked for. (JSON decoding inverts encoding on the written value, with the line feed after
  it ignored.)\<close>

theorem write_policy_roundtrip:
  assumes "WritePolicy json io n p subjects fs = (fs', Inr ())" "distinct (map fst subjects)"
    and "unjson (json \<lparr>pf_Version = 1, pf_Subjects = subjects\<rparr> @ [LF]) = Some \<lparr>pf_Version = 1, pf_Subjects = subjects\<rparr>"
  shows "\<exists>pol. LoadPolicy unjson fs' p = Inr pol
    \<and> (\<forall>s c. Allows (Some pol) s c \<longleftrightarrow> (\<exists>cs. (s, cs) \<in> set subjects \<and> c \<in> set cs))"
proof -
  obtain ss where w: "write_subjects subjects [] = Inr ss"
    using assms(1) by (auto simp: WritePolicy_def split: sum.splits)
  then have ss: "ss = subjects" "\<forall>(s, cs) \<in> set subjects. set cs \<subseteq> set Known" by (auto simp: write_subjects_exact)
  let ?data = "json \<lparr>pf_Version = 1, pf_Subjects = ss\<rparr> @ [LF]"
  obtain tr where tr: "WriteFile io n (p @ ''.tmp'') p ?data fs = (tr, Inr ())" "fs' = last tr"
    using assms(1) w by (auto simp: WritePolicy_def split: prod.splits sum.splits)
  have "fs' p = Some ?data" using WriteFile_last [OF _ tr(1)] tr(2) by simp
  moreover obtain pol where pol: "load_subjects ss Map.empty = Inr pol"
    using load_subjects_exact(1) [of ss Map.empty] ss by blast
  ultimately have "LoadPolicy unjson fs' p = Inr pol" using assms(3) ss(1) by (simp add: LoadPolicy_def)
  moreover have "Allows (Some pol) s c \<longleftrightarrow> (\<exists>cs. (s, cs) \<in> set subjects \<and> c \<in> set cs)" for s c
    using load_subjects_Allows [OF pol] assms(2) ss(1) by (simp add: grants_def)
  ultimately show ?thesis by blast
qed


text \<open>The cache is good as long as a file whose modification time is the cached one has the cached
  content.\<close>

definition cache_ok :: "(bytes \<Rightarrow> policyFile option) \<Rightarrow> (path \<Rightarrow> stat) \<Rightarrow> fs \<Rightarrow> PolicyStore \<Rightarrow> bool" where
  "cache_ok unjson mtime fs s \<longleftrightarrow> (\<forall>repo e. ps_byRepo s repo = Some e
     \<and> mtime (filepath_Join (ps_root s) (repo @ ''.json'')) = StatTime (ce_modTime e)
     \<longrightarrow> LoadPolicy unjson fs (filepath_Join (ps_root s) (repo @ ''.json'')) = Inr (ce_policy e))"

text \<open>The policy in force: the file's when it loads, else the last one that did.\<close>

definition in_force :: "(bytes \<Rightarrow> policyFile option) \<Rightarrow> (path \<Rightarrow> stat) \<Rightarrow> fs \<Rightarrow> PolicyStore \<Rightarrow> string \<Rightarrow> Policy" where
  "in_force unjson mtime fs s repo =
     (case mtime (filepath_Join (ps_root s) (repo @ ''.json'')) of
        StatTime _ \<Rightarrow>
          (case LoadPolicy unjson fs (filepath_Join (ps_root s) (repo @ ''.json'')) of
             Inr pol \<Rightarrow> pol
           | Inl _ \<Rightarrow> (case ps_byRepo s repo of Some e \<Rightarrow> ce_policy e | None \<Rightarrow> DenyAll))
      | _ \<Rightarrow> DenyAll)"

lemma PolicyFor_in_force:
  assumes "cache_ok unjson mtime fs s" "PolicyFor unjson mtime fs s repo = (s', p, err)"
  shows "p = in_force unjson mtime fs s repo" "cache_ok unjson mtime fs s'"
    "in_force unjson mtime fs s' = in_force unjson mtime fs s" "ps_root s' = ps_root s"
proof -
  let ?p = "filepath_Join (ps_root s) (repo @ ''.json'')"
  have "p = in_force unjson mtime fs s repo \<and> (s' = s \<or> (\<exists>t. mtime ?p = StatTime t \<and> LoadPolicy unjson fs ?p = Inr p
      \<and> s' = s\<lparr>ps_byRepo := (ps_byRepo s)(repo \<mapsto> \<lparr>ce_policy = p, ce_modTime = t\<rparr>)\<rparr>))"
    using assms by (auto simp: PolicyFor_def in_force_def cache_ok_def Let_def split: stat.splits option.splits sum.splits if_splits)
  then consider "p = in_force unjson mtime fs s repo" "s' = s"
    | t where "p = in_force unjson mtime fs s repo" "mtime ?p = StatTime t" "LoadPolicy unjson fs ?p = Inr p"
      "s' = s\<lparr>ps_byRepo := (ps_byRepo s)(repo \<mapsto> \<lparr>ce_policy = p, ce_modTime = t\<rparr>)\<rparr>"
    by blast
  then have "p = in_force unjson mtime fs s repo \<and> cache_ok unjson mtime fs s'
      \<and> in_force unjson mtime fs s' = in_force unjson mtime fs s \<and> ps_root s' = ps_root s"
  proof cases
    case (2 t)
    have "in_force unjson mtime fs s' = in_force unjson mtime fs s"
      by (rule ext) (use 2(2-4) in \<open>auto simp: in_force_def split: stat.splits sum.splits\<close>)
    moreover have "cache_ok unjson mtime fs s'" using assms(1) 2(2-4) by (auto simp: cache_ok_def)
    moreover have "ps_root s' = ps_root s" using 2(4) by simp
    ultimately show ?thesis using 2(1) by blast
  qed (use assms(1) in simp)
  then show "p = in_force unjson mtime fs s repo" "cache_ok unjson mtime fs s'"
    "in_force unjson mtime fs s' = in_force unjson mtime fs s" "ps_root s' = ps_root s" by simp_all
qed

lemma Authorize_in_force:
  assumes "cache_ok unjson mtime fs s" "Authorize unjson mtime fs s subject cap repo = (s', d)"
  shows "d = None \<longleftrightarrow> Allows (Some (in_force unjson mtime fs s repo)) subject cap"
    "cache_ok unjson mtime fs s'" "in_force unjson mtime fs s' = in_force unjson mtime fs s" "ps_root s' = ps_root s"
proof -
  obtain p err where "PolicyFor unjson mtime fs s repo = (s', p, err)" "d = None \<longleftrightarrow> Allows (Some p) subject cap"
    using assms(2) by (auto simp: Authorize_def split: prod.splits if_splits)
  with PolicyFor_in_force [OF assms(1) this(1)]
  show "d = None \<longleftrightarrow> Allows (Some (in_force unjson mtime fs s repo)) subject cap"
    "cache_ok unjson mtime fs s'" "in_force unjson mtime fs s' = in_force unjson mtime fs s" "ps_root s' = ps_root s"
    by auto
qed


section \<open>Samples\<close>

definition alice_policy :: policyFile where
  "alice_policy = \<lparr>pf_Version = 1, pf_Subjects = [(''alice'', [CapRead, CapPush]), (''anonymous'', [CapRead])]\<rparr>"

definition alice_fs :: fs where "alice_fs = [''/p/r.json'' \<mapsto> ''alice'']"

definition alice_json :: "bytes \<Rightarrow> policyFile option" where
  "alice_json data = (if data = ''alice'' then Some alice_policy else None)"

definition alice_store :: PolicyStore where "alice_store = \<lparr>ps_root = ''/p'', ps_byRepo = Map.empty\<rparr>"

lemma alice_path: "filepath_Join ''/p'' (''r'' @ ''.json'') = ''/p/r.json''" by code_simp

lemma alice_known: "\<forall>(s, cs) \<in> set (pf_Subjects alice_policy). set cs \<subseteq> set Known"
  by (simp add: alice_policy_def Known_def)

theorem load_policy_exact_witness:
  "\<exists>pol. LoadPolicy alice_json alice_fs ''/p/r.json'' = Inr pol \<and> Allows (Some pol) ''alice'' CapPush
     \<and> \<not> Allows (Some pol) ''alice'' CapForcePush \<and> \<not> Allows (Some pol) ''bob'' CapRead"
proof -
  have "distinct (map fst (pf_Subjects alice_policy))" by (simp add: alice_policy_def)
  from load_policy_exact [where fs = alice_fs and p = "''/p/r.json''" and unjson = alice_json, OF _ _ this] alice_known
  show ?thesis by (auto simp: alice_fs_def alice_json_def) (auto simp: alice_policy_def CapPush_def CapForcePush_def CapRead_def)
qed

theorem write_policy_roundtrip_witness:
  "\<exists>pol. LoadPolicy (\<lambda>_. Some \<lparr>pf_Version = 1, pf_Subjects = [(''bob'', [CapPush])]\<rparr>)
      (fst (WritePolicy (\<lambda>_. ''{}'') io_ok 0 ''/p/r.json'' [(''bob'', [CapPush])] Map.empty)) ''/p/r.json'' = Inr pol
    \<and> Allows (Some pol) ''bob'' CapPush"
proof -
  obtain fs' where w: "WritePolicy (\<lambda>_. ''{}'') io_ok 0 ''/p/r.json'' [(''bob'', [CapPush])] Map.empty = (fs', Inr ())"
    by (simp add: WritePolicy_def Known_def WriteFile_def io_ok_def Let_def)
  let ?u = "\<lambda>_. Some \<lparr>pf_Version = 1, pf_Subjects = [(''bob'', [CapPush])]\<rparr>"
  show ?thesis using write_policy_roundtrip [OF w, of ?u] w by auto
qed


text \<open>A broken policy file does not deny: what the last good one granted stays in force, even when the file
  had been removed in between to revoke everything.\<close>

theorem broken_policy_keeps_grants:
  "let s1 = fst (PolicyFor alice_json (\<lambda>_. StatTime 1) alice_fs alice_store ''r'');
       s2 = fst (PolicyFor alice_json (\<lambda>_. StatNotExist) Map.empty s1 ''r'')
   in snd (Authorize alice_json (\<lambda>_. StatNotExist) Map.empty s1 ''alice'' CapPush ''r'') \<noteq> None
    \<and> snd (Authorize alice_json (\<lambda>_. StatTime 3) [''/p/r.json'' \<mapsto> ''broken''] s2 ''alice'' CapPush ''r'') = None"
  by code_simp

end
