(* ===== verification/Throttle.thy ===== *)
theory Throttle
  imports Go_Strings
begin

text \<open>
  \<^verbatim>\<open>internal/server/throttle.go\<close>: the counters that slow down password guessing. Times and durations are integers
  (nanoseconds, as \<^verbatim>\<open>time.Duration\<close>); the zero \<^verbatim>\<open>time.Time\<close>, which lies before every time the clock returns,
  is \<open>None\<close>. The mutex makes every operation atomic, so an operation is a function of the state and of
  what the clock says.
\<close>

section \<open>The limiter\<close>

record failure =
  f_count :: nat
  f_last :: int
  f_until :: "int option"

record failureLimiter =
  fl_free :: nat
  fl_base :: int
  fl_max :: int
  fl_forget :: int
  fl_entries :: "string \<rightharpoonup> failure"
  fl_lastSweep :: "int option"

definition newFailureLimiter :: "nat \<Rightarrow> int \<Rightarrow> int \<Rightarrow> int \<Rightarrow> failureLimiter" where
  "newFailureLimiter free base mx forget =
     \<lparr>fl_free = free, fl_base = base, fl_max = mx, fl_forget = forget, fl_entries = Map.empty, fl_lastSweep = None\<rparr>"

definition limiter_wait :: "int \<Rightarrow> failureLimiter \<Rightarrow> string \<Rightarrow> int" where
  "limiter_wait now l key =
     (case fl_entries l key of
        None \<Rightarrow> 0
      | Some f \<Rightarrow> (case f_until f of None \<Rightarrow> 0 | Some u \<Rightarrow> if u - now > 0 then u - now else 0))"

definition minute :: int where "minute = 60 * 1000000000"

definition limiter_sweep :: "int \<Rightarrow> failureLimiter \<Rightarrow> failureLimiter" where
  "limiter_sweep now l =
     (if (case fl_lastSweep l of None \<Rightarrow> False | Some t \<Rightarrow> now - t < minute) then l
      else l\<lparr>fl_lastSweep := Some now,
             fl_entries := (\<lambda>k. case fl_entries l k of
                None \<Rightarrow> None | Some f \<Rightarrow> if now - f_last f > fl_forget l then None else Some f)\<rparr>)"

text \<open>The doubling loop, with as many rounds left as the count is above the free attempts.\<close>

fun double_loop :: "nat \<Rightarrow> int \<Rightarrow> int \<Rightarrow> int" where
  "double_loop 0 mx d = d"
| "double_loop (Suc k) mx d = (if d < mx then double_loop k mx (d * 2) else d)"

definition penalty :: "failureLimiter \<Rightarrow> nat \<Rightarrow> int" where
  "penalty l count = (let d = double_loop (count - fl_free l) (fl_max l) (fl_base l) in if d > fl_max l then fl_max l else d)"

definition limiter_fail :: "int \<Rightarrow> failureLimiter \<Rightarrow> string \<Rightarrow> failureLimiter" where
  "limiter_fail now l0 key =
     (let l = limiter_sweep now l0;
          f = (case fl_entries l key of
                 None \<Rightarrow> \<lparr>f_count = 0, f_last = now, f_until = None\<rparr>
               | Some f \<Rightarrow> if now - f_last f > fl_forget l then \<lparr>f_count = 0, f_last = now, f_until = None\<rparr> else f);
          c = f_count f + 1;
          f' = \<lparr>f_count = c, f_last = now,
                f_until = (if c \<ge> fl_free l then Some (now + penalty l c) else f_until f)\<rparr>
      in l\<lparr>fl_entries := (fl_entries l)(key \<mapsto> f')\<rparr>)"

definition limiter_clear :: "failureLimiter \<Rightarrow> string \<Rightarrow> failureLimiter" where
  "limiter_clear l key = l\<lparr>fl_entries := (fl_entries l)(key := None)\<rparr>"

section \<open>The guard of the server\<close>

record guessGuard =
  g_pair :: failureLimiter
  g_addr :: failureLimiter

definition second :: int where "second = 1000000000"

definition newGuessGuard :: guessGuard where
  "newGuessGuard = \<lparr>g_pair = newFailureLimiter 5 (30 * second) (15 * minute) (60 * minute),
     g_addr = newFailureLimiter 20 (30 * second) (15 * minute) (60 * minute)\<rparr>"

text \<open>\<open>lower\<close> is \<^verbatim>\<open>strings.ToLower\<close> and \<open>host\<close> the host part of the connection's address.\<close>

definition pairKey :: "(string \<Rightarrow> string) \<Rightarrow> string \<Rightarrow> string \<Rightarrow> string" where
  "pairKey lower host user = host @ ''|'' @ lower user"

definition throttled :: "(string \<Rightarrow> string) \<Rightarrow> int \<Rightarrow> string \<Rightarrow> string \<Rightarrow> guessGuard \<Rightarrow> int option" where
  "throttled lower now host user g =
     (let w = limiter_wait now (g_pair g) (pairKey lower host user);
          a = limiter_wait now (g_addr g) host;
          wait = (if a > w then a else w)
      in if wait \<le> 0 then None else Some ((wait + second - 1) div second))"

definition guard_failed :: "(string \<Rightarrow> string) \<Rightarrow> int \<Rightarrow> string \<Rightarrow> string \<Rightarrow> guessGuard \<Rightarrow> guessGuard" where
  "guard_failed lower now host user g =
     \<lparr>g_pair = limiter_fail now (g_pair g) (pairKey lower host user), g_addr = limiter_fail now (g_addr g) host\<rparr>"

definition guard_succeeded :: "(string \<Rightarrow> string) \<Rightarrow> string \<Rightarrow> string \<Rightarrow> guessGuard \<Rightarrow> guessGuard" where
  "guard_succeeded lower host user g = g\<lparr>g_pair := limiter_clear (g_pair g) (pairKey lower host user)\<rparr>"

section \<open>The penalty\<close>

lemma double_loop_bounds: "0 < d \<Longrightarrow> d \<le> double_loop k mx d"
proof (induction k mx d rule: double_loop.induct)
  case (2 k mx d)
  then show ?case by (auto intro: order_trans [of d "d * 2"])
qed simp

lemma double_loop_exact: "0 < d \<Longrightarrow> d \<le> mx \<Longrightarrow> min mx (double_loop k mx d) = min mx (d * 2 ^ k)"
proof (induction k arbitrary: d)
  case (Suc k)
  show ?case
  proof (cases "d < mx")
    case True
    show ?thesis
    proof (cases "d * 2 \<le> mx")
      case True
      with Suc \<open>d < mx\<close> show ?thesis by (simp add: mult.assoc)
    next
      case False
      have "d * 2 \<le> double_loop k mx (d * 2)" using Suc.prems by (intro double_loop_bounds) simp
      moreover have "d * 2 \<le> d * 2 ^ Suc k" using Suc.prems by simp
      then have "mx \<le> d * 2 ^ Suc k" using False by linarith
      ultimately show ?thesis using \<open>d < mx\<close> False by (simp add: min_absorb1)
    qed
  next
    case False
    with Suc.prems have "d = mx" by simp
    moreover have "d * 1 \<le> d * 2 ^ Suc k" using Suc.prems by (intro mult_left_mono one_le_power) auto
    ultimately show ?thesis using False by simp
  qed
qed simp

lemma penalty_exact:
  assumes "0 < fl_base l" "fl_base l \<le> fl_max l"
  shows "penalty l c = min (fl_max l) (fl_base l * 2 ^ (c - fl_free l))"
  using double_loop_exact [OF assms, of "c - fl_free l"] by (auto simp: penalty_def Let_def min_def split: if_splits)

lemma sweep_fields [simp]:
  "fl_free (limiter_sweep now l) = fl_free l" "fl_base (limiter_sweep now l) = fl_base l"
  "fl_max (limiter_sweep now l) = fl_max l" "fl_forget (limiter_sweep now l) = fl_forget l"
  by (simp_all add: limiter_sweep_def)

lemma fail_fields [simp]:
  "fl_free (limiter_fail now l k) = fl_free l" "fl_base (limiter_fail now l k) = fl_base l"
  "fl_max (limiter_fail now l k) = fl_max l" "fl_forget (limiter_fail now l k) = fl_forget l"
  by (simp_all add: limiter_fail_def Let_def)

lemma penalty_sweep [simp]: "penalty (limiter_sweep now l) c = penalty l c"
  by (simp add: penalty_def Let_def)

text \<open>The entry a failure leaves: the count goes on unless the last failure is forgotten.\<close>

definition counted :: "int \<Rightarrow> failureLimiter \<Rightarrow> string \<Rightarrow> nat" where
  "counted now l key = (case fl_entries l key of
     None \<Rightarrow> 0 | Some f \<Rightarrow> if now - f_last f > fl_forget l then 0 else f_count f)"

lemma fail_entry:
  "\<exists>f. fl_entries (limiter_fail now l key) key = Some f \<and> f_last f = now \<and> f_count f = counted now l key + 1
     \<and> (f_count f \<ge> fl_free l \<longrightarrow> f_until f = Some (now + penalty l (f_count f)))"
  by (auto simp: limiter_fail_def limiter_sweep_def counted_def penalty_def Let_def split: option.splits if_splits)

lemma fail_other:
  "k \<noteq> key \<Longrightarrow> fl_entries (limiter_fail now l key) k = fl_entries (limiter_sweep now l) k"
  by (simp add: limiter_fail_def Let_def)

section \<open>The rate of guessing\<close>

text \<open>A run of failed attempts by many clients: each is let through by the limiter and then recorded. The
  clock does not run backwards.\<close>

fun guesses :: "(int \<times> string) list \<Rightarrow> failureLimiter \<Rightarrow> bool" where
  "guesses [] l \<longleftrightarrow> True"
| "guesses ((t, k) # ev) l \<longleftrightarrow> limiter_wait t l k = 0 \<and> guesses ev (limiter_fail t l k)"

text \<open>How many of the last failures, most recent first, are linked by gaps that are not forgotten.\<close>

fun streak :: "int \<Rightarrow> int list \<Rightarrow> nat" where
  "streak forget [] = 0"
| "streak forget [h] = 1"
| "streak forget (h # h' # hs) = (if h - h' > forget then 1 else Suc (streak forget (h' # hs)))"

lemma streak_short:
  "streak forget hs \<le> n \<Longrightarrow> n < length hs \<Longrightarrow> sorted_wrt (\<ge>) hs \<Longrightarrow> hs ! 0 - hs ! n > forget"
proof (induction forget hs arbitrary: n rule: streak.induct)
  case (3 forget h h' hs)
  then obtain m where n: "n = Suc m" by (cases n) (auto split: if_splits)
  show ?case
  proof (cases "h - h' > forget")
    case True
    have "(h' # hs) ! m \<le> h'" using "3.prems" n by (cases m) auto
    with True n show ?thesis by simp
  next
    case False
    with "3.IH" [OF False, of m] "3.prems" n have "(h' # hs) ! 0 - (h' # hs) ! m > forget" by auto
    with "3.prems" n show ?thesis by auto
  qed
qed auto

definition guess_inv :: "string \<Rightarrow> int \<Rightarrow> int list \<Rightarrow> failureLimiter \<Rightarrow> bool" where
  "guess_inv k now hs l \<longleftrightarrow> sorted_wrt (\<ge>) hs \<and> (\<forall>h \<in> set hs. h \<le> now)
     \<and> (hs = [] \<or> (case fl_entries l k of
          None \<Rightarrow> now - hd hs > fl_forget l
        | Some f \<Rightarrow> f_last f = hd hs \<and> f_count f \<ge> streak (fl_forget l) hs
            \<and> (f_count f \<ge> fl_free l \<longrightarrow> (\<exists>u. f_until f = Some u \<and> u \<ge> hd hs + fl_base l))))"

lemma guess_inv_later: "guess_inv k now hs l \<Longrightarrow> now \<le> now' \<Longrightarrow> guess_inv k now' hs l"
  by (fastforce simp: guess_inv_def split: option.splits)

lemma guess_inv_sweep: "guess_inv k now hs l \<Longrightarrow> guess_inv k now hs (limiter_sweep now l)"
  by (auto simp: guess_inv_def limiter_sweep_def split: option.splits if_splits)

lemma guess_inv_other: "guess_inv k now hs l \<Longrightarrow> k' \<noteq> k \<Longrightarrow> guess_inv k now hs (limiter_fail now l k')"
  using guess_inv_sweep [of k now hs l] fail_other [of k k' now l]
  by (cases "fl_entries (limiter_sweep now l) k") (simp_all add: guess_inv_def)

lemma penalty_base: "0 < fl_base l \<Longrightarrow> fl_base l \<le> fl_max l \<Longrightarrow> fl_base l \<le> penalty l c"
  using double_loop_bounds [of "fl_base l" "c - fl_free l" "fl_max l"] by (auto simp: penalty_def Let_def)

lemma guess_inv_fail:
  assumes "guess_inv k now hs l" "0 < fl_base l" "fl_base l \<le> fl_max l" "0 \<le> fl_forget l"
  shows "guess_inv k now (now # hs) (limiter_fail now l k)"
proof -
  obtain f where f: "fl_entries (limiter_fail now l k) k = Some f" "f_last f = now" "f_count f = counted now l k + 1"
      "f_count f \<ge> fl_free l \<longrightarrow> f_until f = Some (now + penalty l (f_count f))"
    using fail_entry by blast
  have "streak (fl_forget l) (now # hs) \<le> counted now l k + 1"
    using assms(1) by (cases hs) (auto simp: guess_inv_def counted_def split: option.splits)
  with f assms(1) penalty_base [OF assms(2,3), of "f_count f"] show ?thesis by (auto simp: guess_inv_def)
qed

text \<open>One more attempt that is let through keeps its distance from the one that many failures ago.\<close>

lemma guess_spacing:
  assumes "guess_inv k now hs l" "limiter_wait now l k = 0" "0 < fl_free l" "fl_free l \<le> length hs" "0 \<le> fl_forget l"
  shows "min (fl_base l) (fl_forget l) \<le> now - hs ! (fl_free l - 1)"
proof (cases "streak (fl_forget l) hs < fl_free l")
  case True
  have "hs ! 0 - hs ! (fl_free l - 1) > fl_forget l"
    using True assms(1,3,4) by (intro streak_short) (auto simp: guess_inv_def)
  moreover have "hs ! 0 \<le> now" using assms(1,3,4) by (cases hs) (auto simp: guess_inv_def)
  ultimately show ?thesis by linarith
next
  case False
  have hs: "hs \<noteq> []" "hs ! (fl_free l - 1) \<le> hd hs"
    using assms(1,3,4) by (cases hs; cases "fl_free l - 1"; auto simp: guess_inv_def)+
  show ?thesis
  proof (cases "fl_entries l k")
    case None
    with assms(1) hs show ?thesis by (auto simp: guess_inv_def)
  next
    case (Some f)
    with assms(1) False hs(1) obtain u where "f_until f = Some u" "u \<ge> hd hs + fl_base l" by (auto simp: guess_inv_def)
    with assms(2) Some hs(2) show ?thesis by (auto simp: limiter_wait_def split: if_splits)
  qed
qed


definition spaced :: "nat \<Rightarrow> int \<Rightarrow> int list \<Rightarrow> bool" where
  "spaced n d hs \<longleftrightarrow> (\<forall>i. i + n < length hs \<longrightarrow> d \<le> hs ! i - hs ! (i + n))"

lemma spaced_Cons: "0 < n \<Longrightarrow> spaced n d hs \<Longrightarrow> (n \<le> length hs \<longrightarrow> d \<le> t - hs ! (n - 1)) \<Longrightarrow> spaced n d (t # hs)"
  unfolding spaced_def
proof (intro allI impI)
  fix i
  assume "0 < n" and hs: "\<forall>i. i + n < length hs \<longrightarrow> d \<le> hs ! i - hs ! (i + n)"
    and t: "n \<le> length hs \<longrightarrow> d \<le> t - hs ! (n - 1)" and i: "i + n < length (t # hs)"
  then show "d \<le> (t # hs) ! i - (t # hs) ! (i + n)"
    by (cases i) (auto simp: nth_Cons' dest: spec [of _ "i - 1"])
qed

lemma guesses_spaced:
  "guesses ev l \<Longrightarrow> guess_inv k now hs l \<Longrightarrow> sorted (now # map fst ev) \<Longrightarrow>
   spaced (fl_free l) (min (fl_base l) (fl_forget l)) hs \<Longrightarrow>
   0 < fl_free l \<Longrightarrow> 0 < fl_base l \<Longrightarrow> fl_base l \<le> fl_max l \<Longrightarrow> 0 \<le> fl_forget l \<Longrightarrow>
   spaced (fl_free l) (min (fl_base l) (fl_forget l)) (rev (map fst (filter (\<lambda>(t, k'). k' = k) ev)) @ hs)"
proof (induction ev arbitrary: l now hs)
  case (Cons e ev)
  obtain t k' where e: "e = (t, k')" by (cases e)
  have inv: "guess_inv k t hs l" using Cons.prems(2,3) e by (intro guess_inv_later [OF Cons.prems(2)]) simp
  have run: "limiter_wait t l k' = 0" "guesses ev (limiter_fail t l k')" "sorted (t # map fst ev)"
    using Cons.prems(1,3) e by auto
  show ?case
  proof (cases "k' = k")
    case True
    note inv' = guess_inv_fail [OF inv Cons.prems(6-8)]
    have "spaced (fl_free l) (min (fl_base l) (fl_forget l)) (t # hs)"
      using guess_spacing [OF inv] run(1) True Cons.prems(5,8) by (intro spaced_Cons Cons.prems(4,5)) auto
    with Cons.IH [OF run(2) _ run(3), of "t # hs"] inv' True Cons.prems(5-8) show ?thesis by (simp add: e)
  next
    case False
    with Cons.IH [OF run(2) guess_inv_other [OF inv False] run(3)] Cons.prems(4-8) show ?thesis by (simp add: e)
  qed
qed simp



end
