(* ===== verification/Server.thy ===== *)
theory Server
  imports Remote_Transport Authz Throttle
begin

text \<open>
  \<^verbatim>\<open>internal/server/server.go\<close> with the messages of \<^verbatim>\<open>internal/protocol\<close>: the request preamble (authenticate, then
  authorize, then open the transport) and the three handlers of the data plane. What the standard library's
  HTTP, multipart and JSON code hands to a handler is the request: the parsed credential, the decoded
  body parts or the fact that they do not decode. The identity source is an interface value of the server, here the
  argument \<open>e_auth\<close>; the surroundings of a request (disk, clock, locks, compression) are the record \<open>senv\<close>.
\<close>

section \<open>Messages\<close>

datatype Scheme = SchemeBasic | SchemeBearer

record Credential =
  cr_Scheme :: Scheme
  cr_User :: string
  cr_Secret :: string
  cr_Token :: string

datatype IdentityMethod = MethodAnonymous | MethodBasic | MethodBearer

record Identity =
  id_ID :: string
  id_Method :: IdentityMethod

definition Version :: string where "Version = ''16.1''"

definition Major :: "string \<Rightarrow> string" where
  "Major v = (case Cut v ''.'' of Some (major, _) \<Rightarrow> major | None \<Rightarrow> v)"

record Update =
  up_Name :: string
  up_Old :: string
  up_New :: string
  up_Force :: bool

record RefResult =
  r_Name :: string
  r_OK :: bool
  r_Code :: string
  r_Reason :: string

definition CodeForReason :: "bool \<Rightarrow> string \<Rightarrow> string" where
  "CodeForReason ok reason =
     (if ok then ''OK''
      else if HasPrefix reason ''stale'' then ''STALE''
      else if Contains reason ''non-fast-forward'' then ''NON_FAST_FORWARD''
      else if Contains reason ''missing from pack'' then ''MISSING_OBJECT''
      else if Contains reason ''create ref'' then ''CREATE_FAILED''
      else if Contains reason ''update ref'' then ''UPDATE_FAILED''
      else ''REJECTED'')"

fun parseCommits :: "string list \<Rightarrow> string + CommitID list" where
  "parseCommits [] = Inr []"
| "parseCommits (h # hs) =
     (case ParseHex h of
        Inl _ \<Rightarrow> Inl h
      | Inr c \<Rightarrow> (case parseCommits hs of Inl e \<Rightarrow> Inl e | Inr cs \<Rightarrow> Inr (c # cs)))"

fun toRefUpdates :: "Update list \<Rightarrow> string + RefUpdate list" where
  "toRefUpdates [] = Inr []"
| "toRefUpdates (u # us) =
     (case ParseHex (up_Old u) of
        Inl _ \<Rightarrow> Inl (up_Name u)
      | Inr old \<Rightarrow>
          (case ParseHex (up_New u) of
             Inl _ \<Rightarrow> Inl (up_Name u)
           | Inr new \<Rightarrow>
               (case toRefUpdates us of
                  Inl e \<Rightarrow> Inl e
                | Inr rest \<Rightarrow> Inr (\<lparr>u_Name = up_Name u, u_Old = old, u_New = new, u_Force = up_Force u\<rparr> # rest))))"

definition validRepo :: "string \<Rightarrow> bool" where
  "validRepo repo \<longleftrightarrow>
     \<not> (repo = [] \<or> repo = ''.'' \<or> repo = ''..'')
     \<and> \<not> (CHR ''/'' \<in> set repo \<or> CHR 0x5C \<in> set repo \<or> Contains repo ''..'')"

section \<open>The server\<close>

text \<open>\<open>sv_servable\<close> is the repository manager's \<^verbatim>\<open>Servable\<close>, when one is configured.\<close>

record Server =
  sv_root :: path
  sv_authz :: bool
  sv_servable :: "(string \<Rightarrow> bool) option"

record senv =
  e_zstd :: zstd
  e_io :: io
  e_retries :: nat
  e_oserr :: string
  e_mk :: bool
  e_att :: "nat \<Rightarrow> attempt"
  e_lockTime :: nat
  e_ord :: "ObjectID set \<Rightarrow> ObjectID list"
  e_unjson :: "bytes \<Rightarrow> policyFile option"
  e_mtime :: "path \<Rightarrow> stat"
  e_cwd :: "path option"
  e_isDir :: "path \<Rightarrow> bool"
  e_clock :: int
  e_lower :: "string \<Rightarrow> string"
  e_auth :: "Credential option \<Rightarrow> string + Identity"
  e_names :: "string list"

record world =
  w_fs :: fs
  w_policies :: PolicyStore
  w_guard :: guessGuard

text \<open>\<open>q_cred\<close> is the outcome of \<^verbatim>\<open>credentialFrom\<close> (\<open>Inl\<close>: a malformed header; \<open>Inr None\<close>: anonymous) and
  \<open>q_proto\<close> the protocol header, empty when it is missing.\<close>

record Request =
  q_proto :: string
  q_cred :: "string + Credential option"
  q_host :: string
  q_repo :: string

datatype Response =
    ErrorResp nat string
  | RefsResp string "(string \<times> string) list"
  | PackResp bytes
  | ReceiveResp bool "RefResult list"

definition authn :: "senv \<Rightarrow> Request \<Rightarrow> world \<Rightarrow> world \<times> (Response + Identity)" where
  "authn e q w =
     (if q_proto q \<noteq> [] \<and> Major (q_proto q) \<noteq> Major Version then (w, Inl (ErrorResp 426 ''UPGRADE_REQUIRED''))
      else case q_cred q of
        Inl _ \<Rightarrow> (w, Inl (ErrorResp 401 ''UNAUTHENTICATED''))
      | Inr cred \<Rightarrow>
          let basic = (case cred of None \<Rightarrow> False | Some c \<Rightarrow> cr_Scheme c = SchemeBasic);
              user = (case cred of None \<Rightarrow> [] | Some c \<Rightarrow> cr_User c)
          in
          if basic \<and> throttled (e_lower e) (e_clock e) (q_host q) user (w_guard w) \<noteq> None
          then (w, Inl (ErrorResp 429 ''RATE_LIMITED''))
          else case e_auth e cred of
            Inl _ \<Rightarrow>
              (if basic then w\<lparr>w_guard := guard_failed (e_lower e) (e_clock e) (q_host q) user (w_guard w)\<rparr> else w,
               Inl (ErrorResp 401 ''UNAUTHENTICATED''))
          | Inr i \<Rightarrow>
              (if basic then w\<lparr>w_guard := guard_succeeded (e_lower e) (q_host q) user (w_guard w)\<rparr> else w, Inr i))"

definition begin_request :: "senv \<Rightarrow> Request \<Rightarrow> world \<Rightarrow> world \<times> (Response + Identity)" where
  "begin_request e q w =
     (case authn e q w of
        (w', Inl r) \<Rightarrow> (w', Inl r)
      | (w', Inr i) \<Rightarrow> if \<not> validRepo (q_repo q) then (w', Inl (ErrorResp 400 ''MALFORMED_REQUEST'')) else (w', Inr i))"

definition authorize :: "senv \<Rightarrow> Server \<Rightarrow> Identity \<Rightarrow> Capability \<Rightarrow> string \<Rightarrow> world \<Rightarrow> world \<times> Response option" where
  "authorize e sv i cap repo w =
     (if \<not> sv_authz sv then (w, None)
      else case Authorize (e_unjson e) (e_mtime e) (w_fs w) (w_policies w) (id_ID i) cap repo of
             (s', None) \<Rightarrow> (w\<lparr>w_policies := s'\<rparr>, None)
           | (s', Some _) \<Rightarrow> (w\<lparr>w_policies := s'\<rparr>, Some (ErrorResp 403 ''UNAUTHORIZED'')))"

definition openRepo :: "senv \<Rightarrow> Server \<Rightarrow> string \<Rightarrow> Response + Local" where
  "openRepo e sv repo =
     (if (case sv_servable sv of None \<Rightarrow> False | Some servable \<Rightarrow> \<not> servable repo)
      then Inl (ErrorResp 404 ''UNKNOWN_REPOSITORY'')
      else case OpenLocal (e_cwd e) (e_isDir e) (filepath_Join (sv_root sv) repo) of
             Inl _ \<Rightarrow> Inl (ErrorResp 404 ''UNKNOWN_REPOSITORY'')
           | Inr l \<Rightarrow> Inr l)"

section \<open>The handlers\<close>

definition handleListRefs :: "senv \<Rightarrow> Server \<Rightarrow> Request \<Rightarrow> world \<Rightarrow> world \<times> Response" where
  "handleListRefs e sv q w =
     (case begin_request e q w of
        (w1, Inl r) \<Rightarrow> (w1, r)
      | (w1, Inr i) \<Rightarrow>
          (case authorize e sv i CapRead (q_repo q) w1 of
             (w2, Some r) \<Rightarrow> (w2, r)
           | (w2, None) \<Rightarrow>
               (case openRepo e sv (q_repo q) of
                  Inl r \<Rightarrow> (w2, r)
                | Inr l \<Rightarrow>
                    (w2, RefsResp (case HeadTarget l (w_fs w2) of Inl _ \<Rightarrow> [] | Inr h \<Rightarrow> h)
                       (map (\<lambda>a. (adv_Name a, BaseID_String (adv_Target a))) (ListRefs l (w_fs w2) (e_names e)))))))"

definition handleFetch :: "senv \<Rightarrow> Server \<Rightarrow> Request \<Rightarrow> (string list \<times> string list) option \<Rightarrow> world \<Rightarrow> world \<times> Response" where
  "handleFetch e sv q body w =
     (case begin_request e q w of
        (w1, Inl r) \<Rightarrow> (w1, r)
      | (w1, Inr i) \<Rightarrow>
          (case authorize e sv i CapRead (q_repo q) w1 of
             (w2, Some r) \<Rightarrow> (w2, r)
           | (w2, None) \<Rightarrow>
               (w2, case openRepo e sv (q_repo q) of
                  Inl r \<Rightarrow> r
                | Inr l \<Rightarrow>
                    (case body of
                       None \<Rightarrow> ErrorResp 400 ''MALFORMED_REQUEST''
                     | Some (wants, haves) \<Rightarrow>
                         (case (parseCommits wants, parseCommits haves) of
                            (Inr ws, Inr hs) \<Rightarrow>
                              (case FetchPack (e_ord e) (e_zstd e) l (w_fs w2) ws hs of
                                 Inl _ \<Rightarrow> ErrorResp 500 ''INTERNAL''
                               | Inr stream \<Rightarrow> PackResp stream)
                          | _ \<Rightarrow> ErrorResp 400 ''MALFORMED_REQUEST'')))))"

fun authorize_updates :: "senv \<Rightarrow> Server \<Rightarrow> Identity \<Rightarrow> string \<Rightarrow> RefUpdate list \<Rightarrow> world \<Rightarrow> world \<times> Response option" where
  "authorize_updates e sv i repo [] w = (w, None)"
| "authorize_updates e sv i repo (u # us) w =
     (case authorize e sv i (RequiredForUpdate (u_Old u = zeroCommit) (u_New u = zeroCommit) (u_Force u)) repo w of
        (w1, Some r) \<Rightarrow> (w1, Some r)
      | (w1, None) \<Rightarrow> authorize_updates e sv i repo us w1)"

text \<open>The body: the multipart reader exists or not, the first part decodes to updates or not, the second
  part is there or not. A transport call that does not return is \<open>None\<close>.\<close>

record ReceiveBody =
  rb_multipart :: bool
  rb_updates :: "Update list option"
  rb_pack :: "bytes option"

definition result_of :: "RefUpdateResult \<Rightarrow> RefResult" where
  "result_of r = \<lparr>r_Name = rs_Name r, r_OK = rs_OK r, r_Code = CodeForReason (rs_OK r) (rs_Reason r), r_Reason = rs_Reason r\<rparr>"

definition run_receive :: "senv \<Rightarrow> Local \<Rightarrow> bytes \<Rightarrow> RefUpdate list \<Rightarrow> world \<Rightarrow> (world \<times> Response) option" where
  "run_receive e l pack updates w =
     map_option (\<lambda>(fs', r). (w\<lparr>w_fs := fs'\<rparr>,
        case r of
          Inl (IngestPack _) \<Rightarrow> ErrorResp 422 ''INVALID_PACK''
        | Inl (RefsLock _) \<Rightarrow> ErrorResp 500 ''LOCK_TIMEOUT''
        | Inr rs \<Rightarrow> ReceiveResp (list_all rs_OK rs) (map result_of rs)))
       (ReceivePack (e_zstd e) (e_io e) (e_retries e) (e_oserr e) (e_mk e) (e_att e) (e_lockTime e) l pack updates (w_fs w))"

definition handleReceive :: "senv \<Rightarrow> Server \<Rightarrow> Request \<Rightarrow> ReceiveBody \<Rightarrow> world \<Rightarrow> (world \<times> Response) option" where
  "handleReceive e sv q b w =
     (case begin_request e q w of
        (w1, Inl r) \<Rightarrow> Some (w1, r)
      | (w1, Inr i) \<Rightarrow>
          if \<not> rb_multipart b then Some (w1, ErrorResp 400 ''MALFORMED_REQUEST'')
          else case rb_updates b of
            None \<Rightarrow> Some (w1, ErrorResp 400 ''MALFORMED_REQUEST'')
          | Some us \<Rightarrow>
              (case toRefUpdates us of
                 Inl _ \<Rightarrow> Some (w1, ErrorResp 400 ''MALFORMED_REQUEST'')
               | Inr updates \<Rightarrow>
                   (case authorize_updates e sv i (q_repo q) updates w1 of
                      (w2, Some r) \<Rightarrow> Some (w2, r)
                    | (w2, None) \<Rightarrow>
                        (case openRepo e sv (q_repo q) of
                           Inl r \<Rightarrow> Some (w2, r)
                         | Inr l \<Rightarrow>
                             (case rb_pack b of
                                None \<Rightarrow> Some (w2, ErrorResp 400 ''MALFORMED_REQUEST'')
                              | Some pack \<Rightarrow> run_receive e l pack updates w2)))))"


section \<open>What a request can change\<close>

lemma begin_request_frame:
  assumes "begin_request e q w = (w', r)"
  shows "w_fs w' = w_fs w" "w_policies w' = w_policies w"
  using assms by (auto simp: begin_request_def authn_def Let_def split: prod.splits sum.splits option.splits if_splits)

text \<open>The policy that decides, and that deciding leaves in place.\<close>

abbreviation policy_of :: "senv \<Rightarrow> world \<Rightarrow> string \<Rightarrow> Policy" where
  "policy_of e w \<equiv> in_force (e_unjson e) (e_mtime e) (w_fs w) (w_policies w)"

definition policies_ok :: "senv \<Rightarrow> world \<Rightarrow> bool" where
  "policies_ok e w \<longleftrightarrow> cache_ok (e_unjson e) (e_mtime e) (w_fs w) (w_policies w)"

lemma authorize_exact:
  assumes "authorize e sv i cap repo w = (w', r)" "policies_ok e w" "sv_authz sv"
  shows "w_fs w' = w_fs w" "policies_ok e w'" "policy_of e w' = policy_of e w"
    "r = (if Allows (Some (policy_of e w repo)) (id_ID i) cap then None else Some (ErrorResp 403 ''UNAUTHORIZED''))"
proof -
  obtain s' d where a: "Authorize (e_unjson e) (e_mtime e) (w_fs w) (w_policies w) (id_ID i) cap repo = (s', d)" by fastforce
  note x = Authorize_in_force [OF assms(2) [unfolded policies_ok_def] a]
  have w': "w' = w\<lparr>w_policies := s'\<rparr>" "r = (if d = None then None else Some (ErrorResp 403 ''UNAUTHORIZED''))"
    using assms(1,3) a by (auto simp: authorize_def split: option.splits)
  with x show "w_fs w' = w_fs w" "policies_ok e w'" "policy_of e w' = policy_of e w"
    "r = (if Allows (Some (policy_of e w repo)) (id_ID i) cap then None else Some (ErrorResp 403 ''UNAUTHORIZED''))"
    by (auto simp: policies_ok_def)
qed

definition required :: "RefUpdate \<Rightarrow> Capability" where
  "required u = RequiredForUpdate (u_Old u = zeroCommit) (u_New u = zeroCommit) (u_Force u)"

lemma authorize_updates_exact:
  "authorize_updates e sv i repo us w = (w', r) \<Longrightarrow> policies_ok e w \<Longrightarrow> sv_authz sv \<Longrightarrow>
   w_fs w' = w_fs w \<and> policies_ok e w' \<and> policy_of e w' = policy_of e w
   \<and> r = (if \<forall>u \<in> set us. Allows (Some (policy_of e w repo)) (id_ID i) (required u) then None
          else Some (ErrorResp 403 ''UNAUTHORIZED''))"
proof (induction us arbitrary: w)
  case (Cons u us)
  obtain w1 r1 where a: "authorize e sv i (required u) repo w = (w1, r1)" by fastforce
  note x = authorize_exact [OF a Cons.prems(2,3)]
  show ?case
  proof (cases r1)
    case None
    with Cons.prems(1) a have "authorize_updates e sv i repo us w1 = (w', r)" by (simp add: required_def)
    from Cons.IH [OF this x(2) Cons.prems(3)] x None show ?thesis by (auto split: if_splits)
  next
    case (Some err)
    with Cons.prems(1) a have "w' = w1" "r = Some err" by (simp_all add: required_def)
    with x Some show ?thesis by (auto split: if_splits)
  qed
qed simp

text \<open>A push reaches the repository only past every check.\<close>

lemma handleReceive_cases [consumes 1, case_names refused received]:
  assumes "handleReceive e sv q b w = Some (w', r)"
  obtains "w_fs w' = w_fs w" "\<not> (\<exists>ok rs. r = ReceiveResp ok rs)"
  | w1 i us updates w2 l pack where "begin_request e q w = (w1, Inr i)" "rb_updates b = Some us" "toRefUpdates us = Inr updates"
      "authorize_updates e sv i (q_repo q) updates w1 = (w2, None)" "openRepo e sv (q_repo q) = Inr l"
      "rb_pack b = Some pack" "run_receive e l pack updates w2 = Some (w', r)"
proof -
  obtain w1 x where b: "begin_request e q w = (w1, x)" by fastforce
  have auth: "w_fs w2 = w_fs w1 \<and> (\<forall>rr. y = Some rr \<longrightarrow> \<not> (\<exists>ok rs. rr = ReceiveResp ok rs))"
    if "authorize_updates e sv i (q_repo q) updates w1 = (w2, y)" for i updates w1 w2 y
    using that
  proof (induction updates arbitrary: w1)
    case (Cons u us)
    then show ?case
      by (fastforce simp: authorize_def split: prod.splits option.splits if_splits)
  qed simp
  show thesis
  proof (cases "\<exists>i us updates w2 l pack. x = Inr i \<and> rb_updates b = Some us \<and> toRefUpdates us = Inr updates \<and>
      authorize_updates e sv i (q_repo q) updates w1 = (w2, None) \<and> openRepo e sv (q_repo q) = Inr l \<and>
      rb_pack b = Some pack \<and> run_receive e l pack updates w2 = Some (w', r)")
    case True
    then show thesis using b by (auto intro: that(2))
  next
    case False
    have noresp: "\<not> (\<exists>ok rs. rr = ReceiveResp ok rs)" if "openRepo e sv (q_repo q) = Inl rr" for rr
      using that by (auto simp: openRepo_def split: if_splits sum.splits)
    have noauth: "\<not> (\<exists>ok rs. rr = ReceiveResp ok rs)" if "x = Inl rr" for rr
      using that b by (auto simp: begin_request_def authn_def Let_def split: prod.splits sum.splits option.splits if_splits)
    show thesis
    proof (rule that(1))
      show "w_fs w' = w_fs w" "\<not> (\<exists>ok rs. r = ReceiveResp ok rs)"
        using False assms b begin_request_frame [OF b] auth noresp noauth
        by (auto simp: handleReceive_def split: sum.splits if_splits option.splits prod.splits)
    qed
  qed
qed


section \<open>Properties\<close>

text \<open>C8. A push that asks for more than the policy grants has no effect: if one of its updates needs a
  capability the caller does not hold, the answer is a refusal, and no file of the server has changed, so
  that nothing of its pack is stored.\<close>

theorem denied_push_has_no_effect:
  assumes "handleReceive e sv q b w = Some (w', r)" "sv_authz sv" "policies_ok e w"
    and "begin_request e q w = (w1, Inr i)" "rb_updates b = Some us" "toRefUpdates us = Inr updates"
    and "u \<in> set updates" "\<not> Allows (Some (policy_of e w (q_repo q))) (id_ID i)
      (RequiredForUpdate (u_Old u = zeroCommit) (u_New u = zeroCommit) (u_Force u))"
  shows "w_fs w' = w_fs w \<and> (rb_multipart b \<longrightarrow> r = ErrorResp 403 ''UNAUTHORIZED'')"
proof -
  obtain w2 y where y: "authorize_updates e sv i (q_repo q) updates w1 = (w2, y)" by fastforce
  have "policies_ok e w1" using assms(3) begin_request_frame [OF assms(4)] by (simp add: policies_ok_def)
  from authorize_updates_exact [OF y this assms(2)] assms(7,8) begin_request_frame [OF assms(4)]
  have "y = Some (ErrorResp 403 ''UNAUTHORIZED'')" "w_fs w2 = w_fs w" by (auto simp: required_def)
  with assms(1,4-6) y begin_request_frame [OF assms(4)] show ?thesis by (auto simp: handleReceive_def split: if_splits)
qed

text \<open>C1. The whole server keeps history from those who may not rewrite it: whatever request a caller sends whose policy grants neither
  \<^verbatim>\<open>force-push\<close> nor \<^verbatim>\<open>delete-ref\<close>, a branch of the repository that named a commit before still names a commit
  afterwards, and the old one is among its ancestors.\<close>

theorem server_keeps_history:
  assumes "handleReceive e sv q b w = Some (w', r)" "sv_authz sv" "policies_ok e w" "zstd_frame (e_zstd e)"
    and "begin_request e q w = (w1, Inr i)"
    and "\<not> Allows (Some (policy_of e w (q_repo q))) (id_ID i) CapForcePush"
    and "\<not> Allows (Some (policy_of e w (q_repo q))) (id_ID i) CapDeleteRef"
    and "openRepo e sv (q_repo q) = Inr l" "direct_ref (l_refs l) (w_fs w) name v"
    and "\<not> HasSuffix (refPath (l_refs l) name) ''.lock''"
    and "\<forall>i. refPath (l_refs l) name \<noteq> object_path (l_store l) i \<and> refPath (l_refs l) name \<noteq> object_path (l_store l) i @ ''.tmp''"
  shows "\<exists>v'. Resolve_ref (l_refs l) (w_fs w') name = Some (Inr v')
    \<and> v \<in> ancestors (Store_Read (e_zstd e) (l_store l) (w_fs w')) v'"
  using assms(1)
proof (cases rule: handleReceive_cases)
  case refused
  with direct_ref_resolves [OF assms(9)] show ?thesis by auto
next
  case (received w1' i' us updates w2 l' pack)
  then have same: "w1' = w1" "i' = i" "l' = l" using assms(5,8) by auto
  have ok: "policies_ok e w1" using assms(3) begin_request_frame [OF assms(5)] by (simp add: policies_ok_def)
  note x = authorize_updates_exact [OF received(4) [unfolded same] ok assms(2)]
  have fs2: "w_fs w2 = w_fs w" using x begin_request_frame [OF assms(5)] by simp
  have "\<forall>u \<in> set updates. Allows (Some (policy_of e w (q_repo q))) (id_ID i) (required u)"
    using x begin_request_frame [OF assms(5)] by (auto split: if_splits)
  then have noforce: "\<forall>u \<in> set updates. u_Force u \<longrightarrow> u_Old u = zeroCommit"
    using assms(6,7) by (fastforce simp: required_def RequiredForUpdate_def split: if_splits)
  obtain fs' rr where p: "ReceivePack (e_zstd e) (e_io e) (e_retries e) (e_oserr e) (e_mk e) (e_att e) (e_lockTime e) l pack updates (w_fs w)
      = Some (fs', rr)" "w_fs w' = fs'"
    using received(7) fs2 same by (auto simp: run_receive_def)
  from receive_history [OF p(1) assms(4) noforce assms(9-11)] p(2) show ?thesis by simp
qed

text \<open>Reading needs the \<^verbatim>\<open>read\<close> capability: a caller who does not hold it gets neither the references nor a
  pack, and reading changes no file.\<close>

theorem reading_needs_read:
  assumes "sv_authz sv" "policies_ok e w" "begin_request e q w = (w1, Inr i)"
    and "handleFetch e sv q body w = (w2, rf)" "handleListRefs e sv q w = (w3, rl)"
  shows "w_fs w2 = w_fs w \<and> w_fs w3 = w_fs w \<and>
    (\<not> Allows (Some (policy_of e w (q_repo q))) (id_ID i) CapRead \<longrightarrow>
       rf = ErrorResp 403 ''UNAUTHORIZED'' \<and> rl = ErrorResp 403 ''UNAUTHORIZED'')"
proof -
  obtain w4 y where a: "authorize e sv i CapRead (q_repo q) w1 = (w4, y)" by fastforce
  have "policies_ok e w1" using assms(2) begin_request_frame [OF assms(3)] by (simp add: policies_ok_def)
  note x = authorize_exact [OF a this assms(1)]
  have "w_fs w4 = w_fs w" using x(1) begin_request_frame [OF assms(3)] by simp
  moreover have "y = (if Allows (Some (policy_of e w (q_repo q))) (id_ID i) CapRead then None
      else Some (ErrorResp 403 ''UNAUTHORIZED''))" using x(4) begin_request_frame [OF assms(3)] by simp
  ultimately show ?thesis
    using assms(3-5) a by (auto simp: handleFetch_def handleListRefs_def split: option.splits sum.splits if_splits)
qed

text \<open>Two gaps. A push without updates needs no capability at all, so its pack is stored whatever the policy
  says; and a reason that quotes the name of a reference can be reported under the wrong code.\<close>

theorem empty_push_unauthorized:
  assumes "begin_request e q w = (w1, Inr i)" "openRepo e sv (q_repo q) = Inr l"
    and "ReadPack (e_zstd e) (e_io e) (l_store l) pack (w_fs w) = Some (res, fs', Inr ())"
    and "AcquireWithTimeout (e_mk e) (e_att e) (e_lockTime e) 30000 = Some (t, Inr ())"
  shows "handleReceive e sv q \<lparr>rb_multipart = True, rb_updates = Some [], rb_pack = Some pack\<rparr> w
    = Some (w1\<lparr>w_fs := fs'\<rparr>, ReceiveResp True [])"
  using assms begin_request_frame [OF assms(1)] by (simp add: handleReceive_def run_receive_def ReceivePack_def)

theorem create_reported_as_non_fast_forward:
  "CodeForReason False (''create ref: '' @ ref_error_text [] (RefExists ''refs/heads/non-fast-forward'')) = ''NON_FAST_FORWARD''"
  by code_simp


section \<open>A small server\<close>

definition small_env :: senv where
  "small_env = \<lparr>e_zstd = zstd_tag, e_io = io_ok, e_retries = 0, e_oserr = [], e_mk = True, e_att = (\<lambda>_. Created), e_lockTime = 0,
     e_ord = sorted_list_of_set, e_unjson = alice_json, e_mtime = (\<lambda>_. StatTime 5), e_cwd = None, e_isDir = (\<lambda>_. True),
     e_clock = 0, e_lower = (\<lambda>s. s), e_auth = (\<lambda>_. Inr \<lparr>id_ID = ''alice'', id_Method = MethodBearer\<rparr>), e_names = []\<rparr>"

definition small_server :: Server where
  "small_server = \<lparr>sv_root = ''/srv'', sv_authz = True, sv_servable = None\<rparr>"

definition small_world :: world where
  "small_world = \<lparr>w_fs = srv_fs(''/p/repo.json'' \<mapsto> ''alice''), w_policies = \<lparr>ps_root = ''/p'', ps_byRepo = Map.empty\<rparr>,
     w_guard = newGuessGuard\<rparr>"

definition small_request :: Request where
  "small_request = \<lparr>q_proto = [], q_cred = Inr (Some \<lparr>cr_Scheme = SchemeBearer, cr_User = [], cr_Secret = [], cr_Token = ''t''\<rparr>),
     q_host = ''h'', q_repo = ''repo''\<rparr>"

lemma small_begin: "begin_request small_env small_request small_world = (small_world, Inr \<lparr>id_ID = ''alice'', id_Method = MethodBearer\<rparr>)"
proof -
  have "validRepo ''repo''" by code_simp
  then show ?thesis by (simp add: begin_request_def authn_def small_env_def small_request_def Let_def)
qed

lemma small_open: "openRepo small_env small_server ''repo'' = Inr srv_local"
proof -
  have "OpenLocal None (\<lambda>_. True) (filepath_Join ''/srv'' ''repo'') = Inr srv_local"
    unfolding srv_local_def by code_simp
  then show ?thesis by (simp add: openRepo_def small_env_def small_server_def)
qed

lemma small_policy:
  "policies_ok small_env small_world"
  "Allows (Some (policy_of small_env small_world ''repo'')) ''alice'' c \<longleftrightarrow> c \<in> {CapRead, CapPush}"
proof -
  show "policies_ok small_env small_world" by (simp add: policies_ok_def cache_ok_def small_world_def)
  obtain pol where pol: "load_subjects (pf_Subjects alice_policy) Map.empty = Inr pol"
    using load_subjects_exact(1) alice_known by blast
  have p: "filepath_Join ''/p'' (''repo'' @ ''.json'') = ''/p/repo.json''" by code_simp
  have "policy_of small_env small_world ''repo'' = pol"
    using pol p by (simp add: in_force_def small_env_def small_world_def LoadPolicy_def alice_json_def)
  moreover have "distinct (map fst (pf_Subjects alice_policy))" by (simp add: alice_policy_def)
  ultimately show "Allows (Some (policy_of small_env small_world ''repo'')) ''alice'' c \<longleftrightarrow> c \<in> {CapRead, CapPush}"
    using load_subjects_Allows [OF pol] by (auto simp: grants_def alice_policy_def)
qed

lemma small_lock: "AcquireWithTimeout True (\<lambda>_. Created) 0 30000 = Some (0, Inr ())"
  by (simp add: AcquireWithTimeout_def acquire_loop.simps)

definition empty_body :: ReceiveBody where
  "empty_body = \<lparr>rb_multipart = True, rb_updates = Some [], rb_pack = Some srv_pack\<rparr>"

definition create_body :: ReceiveBody where
  "create_body = \<lparr>rb_multipart = True,
     rb_updates = Some [\<lparr>up_Name = ''refs/heads/dev'', up_Old = BaseID_String 0, up_New = BaseID_String 1, up_Force = True\<rparr>],
     rb_pack = Some srv_pack\<rparr>"

theorem denied_push_has_no_effect_witness:
  "\<exists>w'. handleReceive small_env small_server small_request create_body small_world = Some (w', ErrorResp 403 ''UNAUTHORIZED'')
     \<and> w_fs w' = w_fs small_world"
proof -
  let ?u = "\<lparr>u_Name = ''refs/heads/dev'', u_Old = 0, u_New = 1, u_Force = True\<rparr>"
  let ?us = "[\<lparr>up_Name = ''refs/heads/dev'', up_Old = BaseID_String 0, up_New = BaseID_String 1, up_Force = True\<rparr>]"
  obtain w2 y where y: "authorize_updates small_env small_server \<lparr>id_ID = ''alice'', id_Method = MethodBearer\<rparr> ''repo'' [?u] small_world = (w2, y)"
    by fastforce
  have need: "RequiredForUpdate (u_Old ?u = zeroCommit) (u_New ?u = zeroCommit) (u_Force ?u) = CapCreateRef"
    by (simp add: RequiredForUpdate_def zeroCommit_def)
  have no: "\<not> Allows (Some (policy_of small_env small_world ''repo'')) ''alice'' CapCreateRef"
    unfolding small_policy(2) by (simp add: CapCreateRef_def CapRead_def CapPush_def)
  have sv: "sv_authz small_server" by (simp add: small_server_def)
  have "y = Some (ErrorResp 403 ''UNAUTHORIZED'')"
    using authorize_updates_exact [OF y small_policy(1) sv] no by (simp add: required_def need [simplified])
  then have h: "handleReceive small_env small_server small_request create_body small_world = Some (w2, ErrorResp 403 ''UNAUTHORIZED'')"
    using small_begin y by (simp add: handleReceive_def create_body_def) (simp add: small_request_def)
  have "w_fs w2 = w_fs small_world"
    using denied_push_has_no_effect [OF h sv small_policy(1) small_begin, of ?us "[?u]" ?u] no need [simplified]
    by (simp add: create_body_def small_request_def)
  with h show ?thesis by blast
qed


lemma small_empty_push:
  "handleReceive small_env small_server small_request empty_body small_world = Some (small_world, ReceiveResp True [])"
proof -
  obtain res where p: "ReadPack zstd_tag io_ok (l_store srv_local) srv_pack (w_fs small_world) = Some (res, w_fs small_world, Inr ())"
    using srv_pack_read by blast
  then have "run_receive small_env srv_local srv_pack [] small_world = Some (small_world, ReceiveResp True [])"
    using small_lock by (simp add: run_receive_def ReceivePack_def small_env_def)
  moreover have "q_repo small_request = ''repo''" by (simp add: small_request_def)
  ultimately show ?thesis
    using small_begin small_open by (simp add: handleReceive_def empty_body_def)
qed

lemma small_main: "direct_ref (l_refs srv_local) (w_fs small_world) ''refs/heads/main'' srv_main"
  using srv_main_direct direct_ref_frame [of "w_fs small_world" "l_refs srv_local" "''refs/heads/main''" srv_fs]
  by (simp add: small_world_def srv_paths)

theorem server_keeps_history_witness:
  "\<exists>w' v'. handleReceive small_env small_server small_request empty_body small_world = Some (w', ReceiveResp True [])
     \<and> Resolve_ref (l_refs srv_local) (w_fs w') ''refs/heads/main'' = Some (Inr v')"
proof -
  have "zstd_frame (e_zstd small_env)" using zstd_tag_ok(2) by (simp add: small_env_def)
  moreover have "\<not> Allows (Some (policy_of small_env small_world ''repo'')) ''alice'' CapForcePush"
      "\<not> Allows (Some (policy_of small_env small_world ''repo'')) ''alice'' CapDeleteRef"
    unfolding small_policy(2) by (simp_all add: CapForcePush_def CapDeleteRef_def CapRead_def CapPush_def)
  moreover have "\<not> HasSuffix (refPath (l_refs srv_local) ''refs/heads/main'') ''.lock''" unfolding srv_paths by code_simp
  moreover have "\<forall>i. refPath (l_refs srv_local) ''refs/heads/main'' \<noteq> object_path (l_store srv_local) i
      \<and> refPath (l_refs srv_local) ''refs/heads/main'' \<noteq> object_path (l_store srv_local) i @ ''.tmp''"
    unfolding srv_paths by (intro allI short_not_object) simp
  moreover have "q_repo small_request = ''repo''" "sv_authz small_server" by (simp_all add: small_request_def small_server_def)
  ultimately show ?thesis
    using server_keeps_history [OF small_empty_push _ small_policy(1) _ small_begin, of srv_local "''refs/heads/main''" srv_main]
      small_open small_main small_empty_push by auto
qed

theorem reading_needs_read_witness:
  "w_fs (fst (handleFetch small_env small_server small_request None small_world)) = w_fs small_world"
proof -
  obtain w2 rf where f: "handleFetch small_env small_server small_request None small_world = (w2, rf)" by fastforce
  obtain w3 rl where l: "handleListRefs small_env small_server small_request small_world = (w3, rl)" by fastforce
  have "sv_authz small_server" by (simp add: small_server_def)
  from reading_needs_read [OF this small_policy(1) small_begin f l] f show ?thesis by simp
qed

theorem empty_push_unauthorized_witness:
  "handleReceive small_env small_server small_request \<lparr>rb_multipart = True, rb_updates = Some [], rb_pack = Some srv_pack\<rparr> small_world
    = Some (small_world\<lparr>w_fs := w_fs small_world\<rparr>, ReceiveResp True [])"
proof -
  obtain res where p: "ReadPack zstd_tag io_ok (l_store srv_local) srv_pack (w_fs small_world) = Some (res, w_fs small_world, Inr ())"
    using srv_pack_read by blast
  show ?thesis
    by (rule empty_push_unauthorized [OF small_begin, of small_server srv_local srv_pack res "w_fs small_world" 0])
      (use small_open p small_lock in \<open>simp_all add: small_env_def small_request_def\<close>)
qed

end
