(* ===== verification/Passwords.thy ===== *)
theory Passwords
  imports Server Reflog
begin

text \<open>
  \<^verbatim>\<open>internal/identity/password.go\<close>, \<^verbatim>\<open>secret.go\<close> and \<^verbatim>\<open>source.go\<close>: password hashes in PHC form, bearer secrets and the
  Authorization header. Of the standard library the model has \<^verbatim>\<open>encoding/base64\<close> (the alphabets, the padded and the raw
  form, line breaks ignored by the decoder) and the scanning of numbers by \<^verbatim>\<open>fmt.Sscanf\<close>. The key
  derivation \<^verbatim>\<open>argon2.IDKey\<close> is third-party code: the argument \<open>idkey\<close> of password, salt, rounds, memory, threads and key length,
  where \<open>None\<close> is its panic on zero rounds or threads. Random bytes are arguments, \<open>None\<close> for a failing reader.
\<close>

section \<open>Base 64\<close>

definition b64_std :: string where
  "b64_std = ''ABCDEFGHIJKLMNOPQRSTUVWXYZabcdefghijklmnopqrstuvwxyz0123456789+/''"

definition b64_url :: string where
  "b64_url = ''ABCDEFGHIJKLMNOPQRSTUVWXYZabcdefghijklmnopqrstuvwxyz0123456789-_''"

definition code :: "char \<Rightarrow> nat" where "code c = of_char c"

fun b64_raw :: "string \<Rightarrow> bytes \<Rightarrow> string" where
  "b64_raw al [] = []"
| "b64_raw al [a] = [al ! (code a div 4), al ! (code a mod 4 * 16)]"
| "b64_raw al [a, b] = [al ! (code a div 4), al ! (code a mod 4 * 16 + code b div 16), al ! (code b mod 16 * 4)]"
| "b64_raw al (a # b # c # r) =
     al ! (code a div 4) # al ! (code a mod 4 * 16 + code b div 16) # al ! (code b mod 16 * 4 + code c div 64) # al ! (code c mod 64)
       # b64_raw al r"

fun index_of :: "char \<Rightarrow> string \<Rightarrow> nat option" where
  "index_of c [] = None"
| "index_of c (x # xs) = (if x = c then Some 0 else map_option Suc (index_of c xs))"

text \<open>A group of two, three or four characters gives one, two or three bytes; left-over bits are not checked.\<close>

definition b64_group :: "string \<Rightarrow> string \<Rightarrow> bytes option" where
  "b64_group al cs =
     (case map (\<lambda>c. index_of c al) cs of
        [Some p, Some q] \<Rightarrow> Some [char_of (p * 4 + q div 16)]
      | [Some p, Some q, Some r] \<Rightarrow> Some [char_of (p * 4 + q div 16), char_of (q mod 16 * 16 + r div 4)]
      | [Some p, Some q, Some r, Some s] \<Rightarrow>
          Some [char_of (p * 4 + q div 16), char_of (q mod 16 * 16 + r div 4), char_of (r mod 4 * 64 + s)]
      | _ \<Rightarrow> None)"

definition not_newline :: "char \<Rightarrow> bool" where
  "not_newline c \<longleftrightarrow> c \<noteq> LF \<and> c \<noteq> CHR 0x0D"

fun b64_quads :: "bool \<Rightarrow> string \<Rightarrow> string \<Rightarrow> bytes option" where
  "b64_quads pad al [] = Some []"
| "b64_quads pad al (a # b # c # d # r) =
     (if pad \<and> r = [] \<and> c = CHR ''='' \<and> d = CHR ''='' then b64_group al [a, b]
      else if pad \<and> r = [] \<and> d = CHR ''='' then b64_group al [a, b, c]
      else case b64_group al [a, b, c, d] of
        None \<Rightarrow> None
      | Some x \<Rightarrow> map_option (\<lambda>y. x @ y) (b64_quads pad al r))"
| "b64_quads pad al cs = (if pad then None else b64_group al cs)"

definition DecodeString :: "bool \<Rightarrow> string \<Rightarrow> string \<Rightarrow> bytes option" where
  "DecodeString pad al s = b64_quads pad al (filter not_newline s)"

section \<open>Scanning numbers\<close>

text \<open>\<^verbatim>\<open>SkipSpace\<close> of a formatted scan: a line break is an error.\<close>

fun skip_space :: "nat \<Rightarrow> string \<Rightarrow> string option" where
  "skip_space 0 s = Some s"
| "skip_space (Suc n) s =
     (case find (HasPrefix s) space_runes of
        None \<Rightarrow> Some s
      | Some r \<Rightarrow> if r = [LF] then None else skip_space n (drop (length r) s))"

definition is_digit :: "char \<Rightarrow> bool" where
  "is_digit c \<longleftrightarrow> 48 \<le> (of_char c :: nat) \<and> (of_char c :: nat) \<le> 57"

definition scan_lit :: "string \<Rightarrow> string \<Rightarrow> string option" where
  "scan_lit p s = (if HasPrefix s p then Some (drop (length p) s) else None)"

definition scan_digits :: "string \<Rightarrow> (nat \<times> string) option" where
  "scan_digits s =
     (case takeWhile is_digit s of
        [] \<Rightarrow> None
      | ds \<Rightarrow> map_option (\<lambda>n. (n, dropWhile is_digit s)) (parse_digits 0 ds))"

definition scan_uint :: "nat \<Rightarrow> string \<Rightarrow> (nat \<times> string) option" where
  "scan_uint bits s =
     (case skip_space (length s) s of
        None \<Rightarrow> None
      | Some t \<Rightarrow>
          (case scan_digits t of
             None \<Rightarrow> None
           | Some (n, rest) \<Rightarrow> if n < 2 ^ bits then Some (n, rest) else None))"

definition scan_int :: "string \<Rightarrow> (int \<times> string) option" where
  "scan_int s =
     (case skip_space (length s) s of
        None \<Rightarrow> None
      | Some t \<Rightarrow>
          (let (neg, body) = (case t of c # u \<Rightarrow> if c = CHR ''-'' then (True, u) else if c = CHR ''+'' then (False, u) else (False, t)
                                      | [] \<Rightarrow> (False, []))
           in case scan_digits body of
                None \<Rightarrow> None
              | Some (n, rest) \<Rightarrow>
                  if neg then (if n \<le> 2 ^ 63 then Some (- int n, rest) else None)
                  else if n < 2 ^ 63 then Some (int n, rest) else None))"

section \<open>Password hashes\<close>

record argon2Params =
  ap_memory :: nat
  ap_time :: nat
  ap_threads :: nat
  ap_keyLen :: nat
  ap_saltLen :: nat

definition defaultArgon2 :: argon2Params where
  "defaultArgon2 = \<lparr>ap_memory = 64 * 1024, ap_time = 2, ap_threads = 4, ap_keyLen = 32, ap_saltLen = 16\<rparr>"

definition argon2_Version :: nat where "argon2_Version = 19"

type_synonym kdf = "bytes \<Rightarrow> bytes \<Rightarrow> nat \<Rightarrow> nat \<Rightarrow> nat \<Rightarrow> nat \<Rightarrow> bytes option"

datatype pw_error = PwRandom | PwPHC | PwPanic

definition HashPassword :: "kdf \<Rightarrow> bytes option \<Rightarrow> string \<Rightarrow> pw_error + string" where
  "HashPassword idkey rand plain =
     (case rand of
        None \<Rightarrow> Inl PwRandom
      | Some salt \<Rightarrow>
          (let p = defaultArgon2 in
           case idkey plain salt (ap_time p) (ap_memory p) (ap_threads p) (ap_keyLen p) of
             None \<Rightarrow> Inl PwPanic
           | Some key \<Rightarrow>
               Inr (''$argon2id$v='' @ dec_nat argon2_Version @ ''$m='' @ dec_nat (ap_memory p) @ '',t='' @ dec_nat (ap_time p)
                    @ '',p='' @ dec_nat (ap_threads p) @ ''$'' @ b64_raw b64_std salt @ ''$'' @ b64_raw b64_std key)))"

definition scan_version :: "string \<Rightarrow> int option" where
  "scan_version s = (case scan_lit ''v='' s of None \<Rightarrow> None | Some t \<Rightarrow> map_option fst (scan_int t))"

definition scan_params :: "string \<Rightarrow> argon2Params option" where
  "scan_params s =
     (case scan_lit ''m='' s of None \<Rightarrow> None | Some s1 \<Rightarrow>
      (case scan_uint 32 s1 of None \<Rightarrow> None | Some (mem, s2) \<Rightarrow>
       (case scan_lit '',t='' s2 of None \<Rightarrow> None | Some s3 \<Rightarrow>
        (case scan_uint 32 s3 of None \<Rightarrow> None | Some (tm, s4) \<Rightarrow>
         (case scan_lit '',p='' s4 of None \<Rightarrow> None | Some s5 \<Rightarrow>
          (case scan_uint 8 s5 of None \<Rightarrow> None | Some (th, s6) \<Rightarrow>
             Some \<lparr>ap_memory = mem, ap_time = tm, ap_threads = th, ap_keyLen = 0, ap_saltLen = 0\<rparr>))))))"

definition parsePHC :: "string \<Rightarrow> pw_error + argon2Params \<times> bytes \<times> bytes" where
  "parsePHC encoded =
     (let parts = Split encoded (CHR ''$'') in
      if length parts \<noteq> 6 \<or> parts ! 0 \<noteq> [] \<or> parts ! 1 \<noteq> ''argon2id'' then Inl PwPHC
      else if scan_version (parts ! 2) \<noteq> Some (int argon2_Version) then Inl PwPHC
      else case scan_params (parts ! 3) of
        None \<Rightarrow> Inl PwPHC
      | Some p \<Rightarrow>
          (case DecodeString False b64_std (parts ! 4) of
             None \<Rightarrow> Inl PwPHC
           | Some salt \<Rightarrow>
               (case DecodeString False b64_std (parts ! 5) of
                  None \<Rightarrow> Inl PwPHC
                | Some hash \<Rightarrow> Inr (p, salt, hash))))"

definition VerifyPassword :: "kdf \<Rightarrow> string \<Rightarrow> string \<Rightarrow> pw_error + bool \<times> bool" where
  "VerifyPassword idkey encoded plain =
     (case parsePHC encoded of
        Inl e \<Rightarrow> Inl e
      | Inr (p, salt, want) \<Rightarrow>
          (case idkey plain salt (ap_time p) (ap_memory p) (ap_threads p) (length want mod 2 ^ 32) of
             None \<Rightarrow> Inl PwPanic
           | Some got \<Rightarrow>
               Inr (got = want,
                    ap_memory p \<noteq> ap_memory defaultArgon2 \<or> ap_time p \<noteq> ap_time defaultArgon2 \<or> ap_threads p \<noteq> ap_threads defaultArgon2)))"

section \<open>Bearer secrets and the Authorization header\<close>

definition HashSecret :: "string \<Rightarrow> string" where
  "HashSecret plaintext = BaseID_String (Compute plaintext)"

definition NewSecret :: "bytes option \<Rightarrow> (string \<times> string) option" where
  "NewSecret rand = map_option (\<lambda>b. (b64_raw b64_url b, HashSecret (b64_raw b64_url b))) rand"

text \<open>\<open>lower\<close> is \<^verbatim>\<open>strings.ToLower\<close>; the result is an error, no credential, or the credential.\<close>

definition ParseHeader :: "(string \<Rightarrow> string) \<Rightarrow> string \<Rightarrow> string + Credential option" where
  "ParseHeader lower header =
     (if header = [] then Inr None
      else case Cut header '' '' of
        None \<Rightarrow> Inl ''malformed Authorization header''
      | Some (scheme, rest0) \<Rightarrow>
          (let rest = TrimSpace rest0 in
           if lower scheme = ''basic'' then
             (case DecodeString True b64_std rest of
                None \<Rightarrow> Inl ''invalid base64 in Basic credential''
              | Some raw \<Rightarrow>
                  (case Cut raw '':'' of
                     None \<Rightarrow> Inl ''malformed Basic credential (expected user:secret)''
                   | Some (user, secret) \<Rightarrow> Inr (Some \<lparr>cr_Scheme = SchemeBasic, cr_User = user, cr_Secret = secret, cr_Token = []\<rparr>)))
           else if lower scheme = ''bearer'' then
             (if rest = [] then Inl ''empty bearer token''
              else Inr (Some \<lparr>cr_Scheme = SchemeBearer, cr_User = [], cr_Secret = [], cr_Token = rest\<rparr>))
           else Inl (''unsupported authentication scheme '' @ scheme)))"


section \<open>Base 64 round trips\<close>

definition alphabet :: "string \<Rightarrow> bool" where
  "alphabet al \<longleftrightarrow> length al = 64 \<and> distinct al \<and> list_all not_newline al \<and> CHR ''='' \<notin> set al \<and> CHR ''$'' \<notin> set al"

lemma alphabets: "alphabet b64_std" "alphabet b64_url"
  by (simp_all add: alphabet_def b64_std_def b64_url_def not_newline_def)

lemma index_of_nth: "distinct al \<Longrightarrow> i < length al \<Longrightarrow> index_of (al ! i) al = Some i"
proof (induction al arbitrary: i)
  case (Cons x xs)
  then show ?case by (cases i) auto
qed simp

lemma index_of_alphabet [simp]: "alphabet al \<Longrightarrow> i < 64 \<Longrightarrow> index_of (al ! i) al = Some i"
  by (simp add: alphabet_def index_of_nth)

lemma code_bound [simp]: "code c < 256"
proof -
  have "of_char c = (of_char c :: nat) mod 256" by simp
  then show ?thesis unfolding code_def by (metis mod_less_divisor zero_less_numeral)
qed

lemma code_small [simp]:
  "code c div 16 div 16 = 0" "code c div 64 div 4 = 0" "code c div 16 mod 16 = code c div 16" "code c div 64 mod 4 = code c div 64"
proof -
  have "code c div 16 < 16" "code c div 64 < 4" by (simp_all add: less_mult_imp_div_less)
  then show "code c div 16 div 16 = 0" "code c div 64 div 4 = 0" "code c div 16 mod 16 = code c div 16" "code c div 64 mod 4 = code c div 64"
    by simp_all
qed

lemma code_parts [simp]:
  "code a div 4 < 64" "code a mod 4 * 16 < 64" "code a mod 4 * 16 + code b div 16 < 64"
  "code b mod 16 * 4 < 64" "code b mod 16 * 4 + code c div 64 < 64" "code c mod 64 < 64"
proof -
  have s: "code a div 4 < 64" "code b div 16 < 16" "code c div 64 < 4" by (simp_all add: less_mult_imp_div_less)
  have "code a mod 4 < 4" "code b mod 16 < 16" "code c mod 64 < 64" by simp_all
  with s show "code a div 4 < 64" "code a mod 4 * 16 < 64" "code a mod 4 * 16 + code b div 16 < 64"
    "code b mod 16 * 4 < 64" "code b mod 16 * 4 + code c div 64 < 64" "code c mod 64 < 64" by linarith+
qed

lemma char_code [simp]: "char_of (code c) = c"
  by (simp add: code_def)

lemma groups:
  assumes "alphabet al"
  shows "b64_group al [al ! (code a div 4), al ! (code a mod 4 * 16)] = Some [a]"
    "b64_group al [al ! (code a div 4), al ! (code a mod 4 * 16 + code b div 16), al ! (code b mod 16 * 4)] = Some [a, b]"
    "b64_group al [al ! (code a div 4), al ! (code a mod 4 * 16 + code b div 16), al ! (code b mod 16 * 4 + code c div 64), al ! (code c mod 64)]
       = Some [a, b, c]"
  using assms by (simp_all add: b64_group_def)

lemma quads_raw: "alphabet al \<Longrightarrow> b64_quads False al (b64_raw al s) = Some s"
  by (induction al s rule: b64_raw.induct) (simp_all add: groups)

lemma raw_chars: "alphabet al \<Longrightarrow> set (b64_raw al s) \<subseteq> set al"
  by (induction al s rule: b64_raw.induct) (auto simp: alphabet_def)

lemma raw_no_newline: "alphabet al \<Longrightarrow> filter not_newline (b64_raw al s) = b64_raw al s"
  using raw_chars [of al s] by (intro filter_True) (auto simp: alphabet_def list_all_iff)

lemma decode_raw: "alphabet al \<Longrightarrow> DecodeString False al (b64_raw al s) = Some s"
  by (simp add: DecodeString_def raw_no_newline quads_raw)


section \<open>Numbers in a hash\<close>

lemma digit_no_space: "is_digit c \<Longrightarrow> find (HasPrefix (c # s)) space_runes = None"
proof -
  assume d: "is_digit c"
  have "\<not> HasPrefix (c # s) r" if "r \<in> set space_runes" for r
  proof
    assume "HasPrefix (c # s) r"
    then have "r = [] \<or> hd r = c" by (cases r) (auto simp: HasPrefix_def)
    moreover have "graphic c" using d by (simp add: is_digit_def graphic_def)
    ultimately show False using space_runes_facts(1) that by auto
  qed
  then show ?thesis by (auto simp: find_None_iff)
qed

lemma skip_digit: "is_digit c \<Longrightarrow> skip_space n (c # s) = Some (c # s)"
  by (cases n) (simp_all add: digit_no_space)

lemma dec_digits: "list_all is_digit (dec_nat n)"
  using dec_nat_chars [of _ n] by (auto simp: list_all_iff is_digit_def)

lemma dec_cons: "\<exists>c s. dec_nat n = c # s \<and> is_digit c"
  using dec_digits [of n] by (cases "dec_nat n") auto

lemma scan_digits_dec:
  assumes "rest = [] \<or> \<not> is_digit (hd rest)"
  shows "scan_digits (dec_nat n @ rest) = Some (n, rest)"
proof -
  have all: "\<forall>c \<in> set (dec_nat n). is_digit c" using dec_digits [of n] by (simp add: list_all_iff)
  have "takeWhile is_digit (dec_nat n @ rest) = dec_nat n" "dropWhile is_digit (dec_nat n @ rest) = rest"
    using all assms by (cases rest; simp add: takeWhile_append2 dropWhile_append2)+
  moreover obtain c s where "dec_nat n = c # s" using dec_cons by blast
  ultimately show ?thesis using parse_dec_nat [of n] by (simp add: scan_digits_def del: parse_digits.simps)
qed

lemma scan_uint_dec:
  assumes "rest = [] \<or> \<not> is_digit (hd rest)" "n < 2 ^ bits"
  shows "scan_uint bits (dec_nat n @ rest) = Some (n, rest)"
proof -
  obtain c s where "dec_nat n = c # s" "is_digit c" using dec_cons by blast
  then have "skip_space k (dec_nat n @ rest) = Some (dec_nat n @ rest)" for k by (simp add: skip_digit)
  then show ?thesis using assms by (simp add: scan_uint_def scan_digits_dec)
qed

lemma scan_int_dec:
  assumes "rest = [] \<or> \<not> is_digit (hd rest)" "n < 2 ^ 63"
  shows "scan_int (dec_nat n @ rest) = Some (int n, rest)"
proof -
  obtain c s where c: "dec_nat n = c # s" "is_digit c" using dec_cons by blast
  then have skip: "skip_space k (dec_nat n @ rest) = Some (dec_nat n @ rest)" for k by (simp add: skip_digit)
  have "c \<noteq> CHR ''-''" "c \<noteq> CHR ''+''" using c(2) by (auto simp: is_digit_def)
  then show ?thesis using scan_digits_dec [OF assms(1), of n] assms(2) c(1) by (simp add: scan_int_def skip [unfolded c(1), simplified] c(1) Let_def del: skip_space.simps)
qed

lemma scan_lit_append [simp]: "scan_lit p (p @ s) = Some s"
  by (simp add: scan_lit_def)

lemma scan_version_dec: "n < 2 ^ 63 \<Longrightarrow> scan_version (''v='' @ dec_nat n) = Some (int n)"
  using scan_int_dec [of "[]" n] scan_lit_append [of "''v=''" "dec_nat n"] by (simp add: scan_version_def del: append_Cons)

lemma scan_params_dec:
  assumes "mem < 2 ^ 32" "tm < 2 ^ 32" "th < 2 ^ 8"
  shows "scan_params (''m='' @ dec_nat mem @ '',t='' @ dec_nat tm @ '',p='' @ dec_nat th) =
    Some \<lparr>ap_memory = mem, ap_time = tm, ap_threads = th, ap_keyLen = 0, ap_saltLen = 0\<rparr>"
proof -
  have "\<not> is_digit (CHR '','')" by (simp add: is_digit_def)
  then have
    "scan_uint 32 (dec_nat mem @ '',t='' @ dec_nat tm @ '',p='' @ dec_nat th) = Some (mem, '',t='' @ dec_nat tm @ '',p='' @ dec_nat th)"
    "scan_uint 32 (dec_nat tm @ '',p='' @ dec_nat th) = Some (tm, '',p='' @ dec_nat th)"
    "scan_uint 8 (dec_nat th @ []) = Some (th, [])"
    using assms by (intro scan_uint_dec; simp)+
  then show ?thesis
    unfolding scan_params_def by (simp only: scan_lit_append option.case prod.case append_Nil2)
qed

section \<open>A password verifies against its own hash\<close>

lemma dec_no_dollar: "CHR ''$'' \<notin> set (dec_nat n)"
  using dec_nat_chars [of "CHR ''$''" n] by auto

lemma raw_no_dollar: "CHR ''$'' \<notin> set (b64_raw b64_std s)"
  using raw_chars [OF alphabets(1), of s] alphabets(1) by (auto simp: alphabet_def)

lemma split_phc:
  assumes "CHR ''$'' \<notin> set v" "CHR ''$'' \<notin> set ps" "CHR ''$'' \<notin> set s" "CHR ''$'' \<notin> set h"
  shows "Split (''$argon2id$v='' @ v @ ''$'' @ ps @ ''$'' @ s @ ''$'' @ h) (CHR ''$'') = [[], ''argon2id'', ''v='' @ v, ps, s, h]"
proof -
  have "Split ([] @ CHR ''$'' # ''argon2id'' @ CHR ''$'' # (''v='' @ v) @ CHR ''$'' # ps @ CHR ''$'' # s @ CHR ''$'' # h) (CHR ''$'')
      = [[], ''argon2id'', ''v='' @ v, ps, s, h]"
    using assms by (subst Split_append, simp)+ (simp add: Split_no_sep)
  then show ?thesis by simp
qed

lemma parse_hash:
  assumes "HashPassword idkey rand plain = Inr h"
  obtains salt key where "rand = Some salt" "idkey plain salt 2 65536 4 32 = Some key"
    "parsePHC h = Inr (\<lparr>ap_memory = 65536, ap_time = 2, ap_threads = 4, ap_keyLen = 0, ap_saltLen = 0\<rparr>, salt, key)"
proof -
  obtain salt key where s: "rand = Some salt" "idkey plain salt 2 65536 4 32 = Some key"
    using assms by (auto simp: HashPassword_def defaultArgon2_def Let_def split: option.splits)
  let ?ps = "''m='' @ dec_nat 65536 @ '',t='' @ dec_nat 2 @ '',p='' @ dec_nat 4"
  have h: "h = ''$argon2id$v='' @ dec_nat 19 @ ''$'' @ ?ps @ ''$'' @ b64_raw b64_std salt @ ''$'' @ b64_raw b64_std key"
    using assms s by (simp add: HashPassword_def defaultArgon2_def argon2_Version_def)
  have "CHR ''$'' \<notin> set ?ps" using dec_no_dollar by simp
  note sp = split_phc [OF dec_no_dollar [of 19] this raw_no_dollar [of salt] raw_no_dollar [of key], folded h]
  have v: "scan_version (''v='' @ dec_nat 19) = Some 19" using scan_version_dec [of 19] by simp
  have p: "scan_params ?ps = Some \<lparr>ap_memory = 65536, ap_time = 2, ap_threads = 4, ap_keyLen = 0, ap_saltLen = 0\<rparr>"
    by (rule scan_params_dec) simp_all
  define vs ps where "vs = ''v='' @ dec_nat 19" and "ps = ?ps"
  have sp': "Split h (CHR ''$'') = [[], ''argon2id'', vs, ps, b64_raw b64_std salt, b64_raw b64_std key]" using sp by (simp only: vs_def ps_def)
  have "parsePHC h = Inr (\<lparr>ap_memory = 65536, ap_time = 2, ap_threads = 4, ap_keyLen = 0, ap_saltLen = 0\<rparr>, salt, key)"
    using v [folded vs_def] p [folded ps_def] unfolding parsePHC_def sp' Let_def
    by (simp add: decode_raw alphabets argon2_Version_def)
  with s that show ?thesis by blast
qed


text \<open>What is relied on of the key derivation: with at least one round and one thread it gives a key of the asked length.\<close>

definition kdf_ok :: "kdf \<Rightarrow> bool" where
  "kdf_ok idkey \<longleftrightarrow> (\<forall>p s t m th n. t \<ge> 1 \<and> th \<ge> 1 \<longrightarrow> (\<exists>key. idkey p s t m th n = Some key \<and> length key = n))"

lemma hash_verifies:
  assumes "kdf_ok idkey" "HashPassword idkey (Some salt) pw = Inr h"
  shows "VerifyPassword idkey h q = Inr (idkey q salt 2 65536 4 32 = idkey pw salt 2 65536 4 32, False)"
proof -
  obtain key where k: "idkey pw salt 2 65536 4 32 = Some key"
    "parsePHC h = Inr (\<lparr>ap_memory = 65536, ap_time = 2, ap_threads = 4, ap_keyLen = 0, ap_saltLen = 0\<rparr>, salt, key)"
    using parse_hash [OF assms(2)] by auto
  have one: "(1 :: nat) \<le> 2 \<and> (1 :: nat) \<le> 4" by simp
  have "length key = 32" using assms(1) one k(1) unfolding kdf_ok_def by (metis option.inject)
  moreover obtain got where "idkey q salt 2 65536 4 32 = Some got" using assms(1) one unfolding kdf_ok_def by metis
  ultimately show ?thesis using k by (simp add: VerifyPassword_def defaultArgon2_def)
qed

text \<open>A password hash reads back: verifying any password against it succeeds without an error, asks for no new
  hash, and matches exactly when the key derived from that password with the stored salt is the key derived
  from the original password.\<close>

theorem password_roundtrip:
  assumes "kdf_ok idkey" "HashPassword idkey (Some salt) pw = Inr h"
  shows "VerifyPassword idkey h q = Inr (idkey q salt 2 65536 4 32 = idkey pw salt 2 65536 4 32, False)"
  using hash_verifies [OF assms] .

text \<open>A key derivation for the witness: the password and the salt, padded.\<close>

definition toy_kdf :: kdf where
  "toy_kdf p s t m th n = (if t \<ge> 1 \<and> th \<ge> 1 then Some (take n (p @ s @ replicate n (CHR ''x''))) else None)"

lemma toy_kdf_ok: "kdf_ok toy_kdf"
  unfolding kdf_ok_def toy_kdf_def by auto

theorem password_roundtrip_witness:
  "\<exists>h. HashPassword toy_kdf (Some ''salt'') ''secret12'' = Inr h \<and> VerifyPassword toy_kdf h ''secret12'' = Inr (True, False)
     \<and> VerifyPassword toy_kdf h ''secret13'' = Inr (False, False)"
proof -
  obtain h where h: "HashPassword toy_kdf (Some ''salt'') ''secret12'' = Inr h"
    by (simp add: HashPassword_def defaultArgon2_def toy_kdf_def)
  show ?thesis
    using h password_roundtrip [OF toy_kdf_ok h, of "''secret12''"] password_roundtrip [OF toy_kdf_ok h, of "''secret13''"]
    by (simp add: toy_kdf_def)
qed

section \<open>The Authorization header\<close>

definition b64_pad :: "bytes \<Rightarrow> string" where
  "b64_pad s = (let r = b64_raw b64_std s in r @ replicate ((4 - length r mod 4) mod 4) (CHR ''=''))"

lemma quads_pad: "alphabet al \<Longrightarrow> b64_quads True al (b64_raw al s @ replicate ((4 - length (b64_raw al s) mod 4) mod 4) (CHR ''='')) = Some s"
proof (induction al s rule: b64_raw.induct)
  case (2 al a)
  then show ?case by (simp add: groups numeral_2_eq_2)
next
  case (3 al a b)
  have "al ! (code b mod 16 * 4) \<in> set al" using 3 by (intro nth_mem) (simp add: alphabet_def)
  then have "al ! (code b mod 16 * 4) \<noteq> CHR ''=''" using 3 unfolding alphabet_def by metis
  moreover have "(4 - Suc (Suc (Suc 0)) mod 4) mod 4 = Suc 0" by simp
  ultimately show ?case using groups(2) [OF 3, of a b] by (simp del: mod_Suc_eq)
next
  case (4 al a b c r)
  have "al ! (code c mod 64) \<in> set al" using 4 by (intro nth_mem) (simp add: alphabet_def)
  then have "al ! (code c mod 64) \<noteq> CHR ''=''" using 4 unfolding alphabet_def by metis
  with 4 show ?case by (simp add: groups)
qed simp

lemma decode_pad: "DecodeString True b64_std (b64_pad s) = Some s"
proof -
  have "filter not_newline (b64_pad s) = b64_pad s"
    by (simp add: b64_pad_def Let_def raw_no_newline alphabets not_newline_def)
  then show ?thesis using quads_pad [OF alphabets(1), of s] by (simp add: DecodeString_def b64_pad_def Let_def)
qed


lemma Cut_char: "c \<notin> set a \<Longrightarrow> Cut (a @ c # b) [c] = Some (a, b)"
  by (induction a) (auto simp: HasPrefix_def)

lemma header_basic:
  assumes "CHR '':'' \<notin> set user" "lower ''Basic'' = ''basic''"
  shows "ParseHeader lower (''Basic '' @ b64_pad (user @ '':'' @ secret)) =
    Inr (Some \<lparr>cr_Scheme = SchemeBasic, cr_User = user, cr_Secret = secret, cr_Token = []\<rparr>)"
proof -
  let ?p = "b64_pad (user @ '':'' @ secret)"
  have "set b64_std \<subseteq> {c. graphic c}" by (simp add: b64_std_def graphic_def)
  then have g: "\<forall>c \<in> set ?p. graphic c"
    using raw_chars [OF alphabets(1), of "user @ '':'' @ secret"] by (auto simp: b64_pad_def Let_def graphic_def)
  have ne: "?p \<noteq> []" by (cases user; cases "tl user @ '':'' @ secret"; cases "tl (tl user @ '':'' @ secret)") (auto simp: b64_pad_def Let_def elim!: b64_raw.elims)
  have trim: "TrimSpace ?p = ?p" using TrimSpace_graphic [of ?p] g ne by simp
  have "Cut (''Basic'' @ CHR '' '' # ?p) '' '' = Some (''Basic'', ?p)" by (rule Cut_char) simp
  then have cut: "Cut (''Basic '' @ ?p) '' '' = Some (''Basic'', ?p)" by simp
  have "Cut (user @ CHR '':'' # secret) '':'' = Some (user, secret)" using assms(1) by (rule Cut_char)
  then have cut2: "Cut (user @ '':'' @ secret) '':'' = Some (user, secret)" by simp
  show ?thesis
    unfolding ParseHeader_def cut option.case prod.case Let_def trim decode_pad cut2 assms(2) by simp
qed

end
