(* ===== verification/Accounts.thy ===== *)
theory Accounts
  imports Passwords
begin

text \<open>
  \<^verbatim>\<open>internal/identity\<close>: accounts, sessions and API tokens. The two stores are directories of JSON files: accounts named after
  their user, credentials named after the hash of their secret. The model has the files as maps from these
  names to the record, or to \<open>None\<close> for a file that does not decode. What can fail on disk is given with every operation:
  \<open>ok k\<close> says whether its \<open>k\<close>-th write or removal succeeds, \<open>ls\<close> is the listing of the credential
  directory (\<open>None\<close>: unreadable). Times are nanoseconds, \<open>0\<close> is the zero time.
\<close>

section \<open>Accounts and credentials\<close>

datatype AccountState = AccountActive | AccountDisabled | AccountCreating | AccountDeleting

record Account =
  ac_Username :: string
  ac_PasswordHash :: string
  ac_State :: AccountState
  ac_CreatedAt :: int

definition MinPasswordLen :: nat where "MinPasswordLen = 8"
definition MaxPasswordLen :: nat where "MaxPasswordLen = 1024"

definition ValidPassword :: "string \<Rightarrow> bool" where
  "ValidPassword pw \<longleftrightarrow> MinPasswordLen \<le> length pw \<and> length pw \<le> MaxPasswordLen"

definition user_char :: "char \<Rightarrow> bool" where
  "user_char c \<longleftrightarrow> (let n = of_char c :: nat in (65 \<le> n \<and> n \<le> 90) \<or> (97 \<le> n \<and> n \<le> 122) \<or> (48 \<le> n \<and> n \<le> 57))
     \<or> c = CHR ''.'' \<or> c = CHR ''_'' \<or> c = CHR ''-''"

definition ValidUsername :: "string \<Rightarrow> bool" where
  "ValidUsername name \<longleftrightarrow>
     \<not> (length name = 0 \<or> length name > 39 \<or> name = ''.'' \<or> name = ''..'')
     \<and> \<not> (hd name = CHR ''_'' \<or> hd name = CHR ''.'' \<or> hd name = CHR ''-'')
     \<and> list_all user_char name"

datatype CredentialKind = KindSession | KindToken

record BearerCredential =
  bc_ID :: string
  bc_Kind :: CredentialKind
  bc_Subject :: string
  bc_Name :: string
  bc_SecretHash :: string
  bc_CreatedAt :: int
  bc_ExpiresAt :: int
  bc_IdleSeconds :: int
  bc_LastUsedAt :: int
  bc_Revoked :: bool

definition second :: int where "second = 1000000000"

text \<open>\<^verbatim>\<open>time.Duration(c.IdleSeconds) * time.Second\<close> is a product of 64-bit integers.\<close>

definition idle_window :: "int \<Rightarrow> int" where
  "idle_window n = sint (word_of_int (n * second) :: 64 word)"

definition valid :: "BearerCredential \<Rightarrow> int \<Rightarrow> bool" where
  "valid c now \<longleftrightarrow>
     \<not> bc_Revoked c
     \<and> \<not> (bc_ExpiresAt c \<noteq> 0 \<and> now > bc_ExpiresAt c)
     \<and> \<not> (bc_IdleSeconds c > 0 \<and> bc_LastUsedAt c \<noteq> 0 \<and> now > bc_LastUsedAt c + idle_window (bc_IdleSeconds c))"

section \<open>The stores\<close>

record idstore =
  is_accounts :: "string \<rightharpoonup> Account option"
  is_creds :: "string \<rightharpoonup> BearerCredential option"

datatype id_error = ErrNoAccount | ErrAccountExists | ErrNoCredential | ErrWeakPassword | ErrInvalidCredentials | ErrFile | ErrRandom | Panic_argon2

definition acct_create :: "bool \<Rightarrow> Account \<Rightarrow> idstore \<Rightarrow> idstore \<times> id_error option" where
  "acct_create ok a st =
     (if \<not> ValidUsername (ac_Username a) then (st, Some ErrNoAccount)
      else if is_accounts st (ac_Username a) \<noteq> None then (st, Some ErrAccountExists)
      else if \<not> ok then (st, Some ErrFile)
      else (st\<lparr>is_accounts := (is_accounts st)(ac_Username a \<mapsto> Some a)\<rparr>, None))"

definition acct_get :: "string \<Rightarrow> idstore \<Rightarrow> id_error + Account" where
  "acct_get username st =
     (if \<not> ValidUsername username then Inl ErrNoAccount
      else case is_accounts st username of
        None \<Rightarrow> Inl ErrNoAccount
      | Some None \<Rightarrow> Inl ErrFile
      | Some (Some a) \<Rightarrow> Inr a)"

definition acct_update :: "bool \<Rightarrow> Account \<Rightarrow> idstore \<Rightarrow> idstore \<times> id_error option" where
  "acct_update ok a st =
     (if \<not> ValidUsername (ac_Username a) then (st, Some ErrNoAccount)
      else if is_accounts st (ac_Username a) = None then (st, Some ErrNoAccount)
      else if \<not> ok then (st, Some ErrFile)
      else (st\<lparr>is_accounts := (is_accounts st)(ac_Username a \<mapsto> Some a)\<rparr>, None))"

definition acct_delete :: "bool \<Rightarrow> string \<Rightarrow> idstore \<Rightarrow> idstore \<times> id_error option" where
  "acct_delete ok username st =
     (if \<not> ValidUsername username then (st, Some ErrNoAccount)
      else if is_accounts st username = None then (st, None)
      else if \<not> ok then (st, Some ErrFile)
      else (st\<lparr>is_accounts := (is_accounts st)(username := None)\<rparr>, None))"

definition cred_put :: "bool \<Rightarrow> BearerCredential \<Rightarrow> idstore \<Rightarrow> idstore \<times> id_error option" where
  "cred_put ok c st =
     (if ok then (st\<lparr>is_creds := (is_creds st)(bc_SecretHash c \<mapsto> Some c)\<rparr>, None) else (st, Some ErrFile))"

definition GetBySecretHash :: "string \<Rightarrow> idstore \<Rightarrow> id_error + BearerCredential" where
  "GetBySecretHash hash st =
     (case is_creds st hash of
        None \<Rightarrow> Inl ErrNoCredential
      | Some None \<Rightarrow> Inl ErrFile
      | Some (Some c) \<Rightarrow> Inr c)"

definition Touch :: "bool \<Rightarrow> string \<Rightarrow> int \<Rightarrow> idstore \<Rightarrow> idstore \<times> id_error option" where
  "Touch ok hash t st =
     (case is_creds st hash of
        Some (Some c) \<Rightarrow>
          if ok then (st\<lparr>is_creds := (is_creds st)(hash \<mapsto> Some (c\<lparr>bc_LastUsedAt := t\<rparr>))\<rparr>, None) else (st, Some ErrFile)
      | _ \<Rightarrow> (st, Some ErrFile))"

text \<open>\<^verbatim>\<open>forEach\<close> over the listed names: a file that does not read is skipped, an error of the callback ends the walk.\<close>

fun each_cred ::
    "(BearerCredential \<Rightarrow> string \<Rightarrow> 's \<times> idstore \<Rightarrow> ('s \<times> idstore) \<times> id_error option) \<Rightarrow> string list \<Rightarrow> 's \<times> idstore
     \<Rightarrow> ('s \<times> idstore) \<times> id_error option" where
  "each_cred fn [] x = (x, None)"
| "each_cred fn (n # ns) x =
     (case is_creds (snd x) n of
        Some (Some c) \<Rightarrow>
          (case fn c n x of
             (x', Some e) \<Rightarrow> (x', Some e)
           | (x', None) \<Rightarrow> each_cred fn ns x')
      | _ \<Rightarrow> each_cred fn ns x)"

definition forEach ::
    "string list option \<Rightarrow> (BearerCredential \<Rightarrow> string \<Rightarrow> 's \<times> idstore \<Rightarrow> ('s \<times> idstore) \<times> id_error option) \<Rightarrow> 's \<times> idstore
     \<Rightarrow> ('s \<times> idstore) \<times> id_error option" where
  "forEach ls fn x = (case ls of None \<Rightarrow> (x, Some ErrFile) | Some ns \<Rightarrow> each_cred fn ns x)"

definition remove_cred :: "bool \<Rightarrow> string \<Rightarrow> idstore \<Rightarrow> idstore \<times> id_error option" where
  "remove_cred ok n st = (if ok then (st\<lparr>is_creds := (is_creds st)(n := None)\<rparr>, None) else (st, Some ErrFile))"

definition ListBySubject :: "string list option \<Rightarrow> string \<Rightarrow> idstore \<Rightarrow> BearerCredential list \<times> id_error option" where
  "ListBySubject ls subject st =
     (case forEach ls (\<lambda>c n (acc, st). ((if bc_Subject c = subject then acc @ [c] else acc, st), None)) ([], st) of
        ((out, _), e) \<Rightarrow> (out, e))"

definition RevokeByID :: "string list option \<Rightarrow> (string \<Rightarrow> bool) \<Rightarrow> string \<Rightarrow> string \<Rightarrow> idstore \<Rightarrow> idstore \<times> id_error option" where
  "RevokeByID ls rm subject i st =
     (case forEach ls
        (\<lambda>c n (found, st).
           if bc_Subject c = subject \<and> bc_ID c = i
           then (case remove_cred (rm n) n st of (st', e) \<Rightarrow> ((True, st'), e))
           else ((found, st), None)) (False, st) of
        ((_, st'), Some e) \<Rightarrow> (st', Some e)
      | ((found, st'), None) \<Rightarrow> (st', if found then None else Some ErrNoCredential))"

definition DeleteBySecretHash :: "bool \<Rightarrow> string \<Rightarrow> idstore \<Rightarrow> idstore \<times> id_error option" where
  "DeleteBySecretHash ok hash st = (if is_creds st hash = None then (st, None) else remove_cred ok hash st)"

definition RevokeAllForSubject :: "string list option \<Rightarrow> (string \<Rightarrow> bool) \<Rightarrow> string \<Rightarrow> idstore \<Rightarrow> idstore \<times> id_error option" where
  "RevokeAllForSubject ls rm subject st =
     (case forEach ls
        (\<lambda>c n (u, st).
           if bc_Subject c = subject then (case remove_cred (rm n) n st of (st', e) \<Rightarrow> ((u, st'), e)) else ((u, st), None)) ((), st) of
        ((_, st'), e) \<Rightarrow> (st', e))"


section \<open>The account manager\<close>

definition sessionAbsolute :: int where "sessionAbsolute = 24 * 3600 * second"
definition sessionIdle :: int where "sessionIdle = 2 * 3600 * second"

fun pw_id_error :: "pw_error \<Rightarrow> id_error" where
  "pw_id_error PwRandom = ErrRandom"
| "pw_id_error PwPHC = ErrInvalidCredentials"
| "pw_id_error PwPanic = Panic_argon2"

definition CreateAccount :: "kdf \<Rightarrow> bytes option \<Rightarrow> bool \<Rightarrow> int \<Rightarrow> string \<Rightarrow> string \<Rightarrow> idstore \<Rightarrow> idstore \<times> id_error option" where
  "CreateAccount idkey rand ok now username password st =
     (if \<not> ValidUsername username then (st, Some ErrNoAccount)
      else if \<not> ValidPassword password then (st, Some ErrWeakPassword)
      else case HashPassword idkey rand password of
        Inl e \<Rightarrow> (st, Some (pw_id_error e))
      | Inr hash \<Rightarrow>
          acct_create ok \<lparr>ac_Username = username, ac_PasswordHash = hash, ac_State = AccountActive, ac_CreatedAt = now\<rparr> st)"

definition DisableAccount ::
    "bool \<Rightarrow> string list option \<Rightarrow> (string \<Rightarrow> bool) \<Rightarrow> string \<Rightarrow> idstore \<Rightarrow> idstore \<times> id_error option" where
  "DisableAccount ok ls rm username st =
     (case acct_get username st of
        Inl e \<Rightarrow> (st, Some e)
      | Inr a \<Rightarrow>
          (case acct_update ok (a\<lparr>ac_State := AccountDisabled\<rparr>) st of
             (st1, Some e) \<Rightarrow> (st1, Some e)
           | (st1, None) \<Rightarrow> RevokeAllForSubject ls rm username st1))"

definition DeleteAccount ::
    "bool \<Rightarrow> string list option \<Rightarrow> (string \<Rightarrow> bool) \<Rightarrow> string \<Rightarrow> idstore \<Rightarrow> idstore \<times> id_error option" where
  "DeleteAccount ok ls rm username st =
     (case acct_get username st of
        Inl e \<Rightarrow> (st, Some e)
      | Inr _ \<Rightarrow>
          (case RevokeAllForSubject ls rm username st of
             (st1, Some e) \<Rightarrow> (st1, Some e)
           | (st1, None) \<Rightarrow> acct_delete ok username st1))"

definition ChangePassword :: "kdf \<Rightarrow> bytes option \<Rightarrow> bool \<Rightarrow> string \<Rightarrow> string \<Rightarrow> idstore \<Rightarrow> idstore \<times> id_error option" where
  "ChangePassword idkey rand ok username newPassword st =
     (if \<not> ValidPassword newPassword then (st, Some ErrWeakPassword)
      else case acct_get username st of
        Inl e \<Rightarrow> (st, Some e)
      | Inr a \<Rightarrow>
          (case HashPassword idkey rand newPassword of
             Inl e \<Rightarrow> (st, Some (pw_id_error e))
           | Inr hash \<Rightarrow> acct_update ok (a\<lparr>ac_PasswordHash := hash\<rparr>) st))"

text \<open>The part \<^verbatim>\<open>Login\<close> and the Basic source share: look the account up, verify the password, upgrade an old hash
  (a failure there is ignored).\<close>

definition check_password :: "kdf \<Rightarrow> bytes option \<Rightarrow> bool \<Rightarrow> string \<Rightarrow> string \<Rightarrow> idstore \<Rightarrow> idstore \<times> (id_error + Account)" where
  "check_password idkey rand ok username password st =
     (case acct_get username st of
        Inl _ \<Rightarrow> (st, Inl ErrInvalidCredentials)
      | Inr a \<Rightarrow>
          if ac_State a \<noteq> AccountActive then (st, Inl ErrInvalidCredentials)
          else case VerifyPassword idkey (ac_PasswordHash a) password of
            Inl e \<Rightarrow> (st, Inl (pw_id_error e))
          | Inr (match, needsRehash) \<Rightarrow>
              if \<not> match then (st, Inl ErrInvalidCredentials)
              else if needsRehash then
                (case HashPassword idkey rand password of
                   Inl PwPanic \<Rightarrow> (st, Inl Panic_argon2)
                 | Inl _ \<Rightarrow> (st, Inr a)
                 | Inr nh \<Rightarrow> (fst (acct_update ok (a\<lparr>ac_PasswordHash := nh\<rparr>) st), Inr a))
              else (st, Inr a))"

text \<open>\<open>secret\<close> and \<open>cid\<close> are the random secret and the random credential identifier.\<close>

definition Login ::
    "kdf \<Rightarrow> bytes option \<Rightarrow> (nat \<Rightarrow> bool) \<Rightarrow> int \<Rightarrow> bytes option \<Rightarrow> string \<Rightarrow> string \<Rightarrow> string \<Rightarrow> idstore
     \<Rightarrow> idstore \<times> (id_error + string \<times> int)" where
  "Login idkey rand ok now secret cid username password st =
     (case check_password idkey rand (ok 0) username password st of
        (st1, Inl e) \<Rightarrow> (st1, Inl e)
      | (st1, Inr _) \<Rightarrow>
          (case NewSecret secret of
             None \<Rightarrow> (st1, Inl ErrRandom)
           | Some (plaintext, hash) \<Rightarrow>
               (case cred_put (ok 1)
                  \<lparr>bc_ID = cid, bc_Kind = KindSession, bc_Subject = username, bc_Name = [], bc_SecretHash = hash, bc_CreatedAt = now,
                   bc_ExpiresAt = now + sessionAbsolute, bc_IdleSeconds = sessionIdle div second, bc_LastUsedAt = now, bc_Revoked = False\<rparr> st1 of
                  (st2, Some e) \<Rightarrow> (st2, Inl e)
                | (st2, None) \<Rightarrow> (st2, Inr (plaintext, now + sessionAbsolute)))))"

definition Logout :: "bool \<Rightarrow> string \<Rightarrow> idstore \<Rightarrow> idstore \<times> id_error option" where
  "Logout ok secret st = DeleteBySecretHash ok (HashSecret secret) st"

definition CreateToken ::
    "bool \<Rightarrow> int \<Rightarrow> bytes option \<Rightarrow> string \<Rightarrow> string \<Rightarrow> string \<Rightarrow> idstore \<Rightarrow> idstore \<times> (id_error + string \<times> string)" where
  "CreateToken ok now secret cid subject name st =
     (case NewSecret secret of
        None \<Rightarrow> (st, Inl ErrRandom)
      | Some (plaintext, hash) \<Rightarrow>
          (case cred_put ok
             \<lparr>bc_ID = cid, bc_Kind = KindToken, bc_Subject = subject, bc_Name = name, bc_SecretHash = hash, bc_CreatedAt = now,
              bc_ExpiresAt = 0, bc_IdleSeconds = 0, bc_LastUsedAt = 0, bc_Revoked = False\<rparr> st of
             (st1, Some e) \<Rightarrow> (st1, Inl e)
           | (st1, None) \<Rightarrow> (st1, Inr (cid, plaintext))))"

record TokenInfo =
  ti_ID :: string
  ti_Name :: string
  ti_CreatedAt :: int
  ti_LastUsedAt :: int

definition token_info :: "BearerCredential \<Rightarrow> TokenInfo" where
  "token_info c = \<lparr>ti_ID = bc_ID c, ti_Name = bc_Name c, ti_CreatedAt = bc_CreatedAt c, ti_LastUsedAt = bc_LastUsedAt c\<rparr>"

definition ListTokens :: "string list option \<Rightarrow> string \<Rightarrow> idstore \<Rightarrow> id_error + TokenInfo list" where
  "ListTokens ls subject st =
     (case ListBySubject ls subject st of
        (_, Some e) \<Rightarrow> Inl e
      | (creds, None) \<Rightarrow> Inr (map token_info (filter (\<lambda>c. bc_Kind c = KindToken) creds)))"

definition RevokeToken :: "string list option \<Rightarrow> (string \<Rightarrow> bool) \<Rightarrow> string \<Rightarrow> string \<Rightarrow> idstore \<Rightarrow> idstore \<times> id_error option" where
  "RevokeToken ls rm subject i st = RevokeByID ls rm subject i st"

section \<open>Identity sources\<close>

text \<open>A panic of the key derivation ends the request.\<close>

datatype auth_error = AuthError string | AuthPanic

definition basic_authenticate ::
    "kdf \<Rightarrow> bytes option \<Rightarrow> bool \<Rightarrow> Credential option \<Rightarrow> idstore \<Rightarrow> idstore \<times> (auth_error + Identity)" where
  "basic_authenticate idkey rand ok cred st =
     (case cred of
        None \<Rightarrow> (st, Inl (AuthError ''credentials required''))
      | Some cr \<Rightarrow>
          if cr_Scheme cr \<noteq> SchemeBasic then (st, Inl (AuthError ''unsupported authentication scheme for this server''))
          else case check_password idkey rand ok (cr_User cr) (cr_Secret cr) st of
            (st1, Inl e) \<Rightarrow> (st1, Inl (if e = Panic_argon2 then AuthPanic else AuthError ''invalid credentials''))
          | (st1, Inr a) \<Rightarrow> (st1, Inr \<lparr>id_ID = ac_Username a, id_Method = MethodBasic\<rparr>))"

definition bearer_authenticate :: "bool \<Rightarrow> int \<Rightarrow> Credential option \<Rightarrow> idstore \<Rightarrow> idstore \<times> (auth_error + Identity)" where
  "bearer_authenticate ok now cred st =
     (case cred of
        None \<Rightarrow> (st, Inl (AuthError ''credentials required''))
      | Some cr \<Rightarrow>
          if cr_Scheme cr \<noteq> SchemeBearer then (st, Inl (AuthError ''unsupported authentication scheme for this server''))
          else case GetBySecretHash (HashSecret (cr_Token cr)) st of
            Inl _ \<Rightarrow> (st, Inl (AuthError ''invalid token''))
          | Inr c \<Rightarrow>
              if \<not> valid c now then (st, Inl (AuthError ''invalid token''))
              else case acct_get (bc_Subject c) st of
                Inl _ \<Rightarrow> (st, Inl (AuthError ''invalid token''))
              | Inr a \<Rightarrow>
                  if ac_State a \<noteq> AccountActive then (st, Inl (AuthError ''invalid token''))
                  else (fst (Touch ok (HashSecret (cr_Token cr)) now st), Inr \<lparr>id_ID = bc_Subject c, id_Method = MethodBearer\<rparr>))"

text \<open>The sources of a fixed configuration (\<^verbatim>\<open>sources.go\<close>), and \<^verbatim>\<open>Multi\<close> over sources that may change the stores.\<close>

definition Anonymous :: Identity where "Anonymous = \<lparr>id_ID = ''anonymous'', id_Method = MethodAnonymous\<rparr>"

definition fixed_basic :: "(string \<rightharpoonup> string) \<Rightarrow> Credential option \<Rightarrow> auth_error + Identity" where
  "fixed_basic creds cred =
     (case cred of
        None \<Rightarrow> Inl (AuthError ''credentials required'')
      | Some cr \<Rightarrow>
          if cr_Scheme cr \<noteq> SchemeBasic then Inl (AuthError ''unsupported authentication scheme for this server'')
          else if creds (cr_User cr) = None \<or> cr_Secret cr \<noteq> the (creds (cr_User cr)) then Inl (AuthError ''invalid credentials'')
          else Inr \<lparr>id_ID = cr_User cr, id_Method = MethodBasic\<rparr>)"

definition fixed_bearer :: "(string \<rightharpoonup> string) \<Rightarrow> Credential option \<Rightarrow> auth_error + Identity" where
  "fixed_bearer tokens cred =
     (case cred of
        None \<Rightarrow> Inl (AuthError ''credentials required'')
      | Some cr \<Rightarrow>
          if cr_Scheme cr \<noteq> SchemeBearer then Inl (AuthError ''unsupported authentication scheme for this server'')
          else case tokens (cr_Token cr) of
            None \<Rightarrow> Inl (AuthError ''invalid token'')
          | Some subject \<Rightarrow> Inr \<lparr>id_ID = subject, id_Method = MethodBearer\<rparr>)"

type_synonym source = "Credential option \<Rightarrow> idstore \<Rightarrow> idstore \<times> (auth_error + Identity)"

fun try_sources :: "source list \<Rightarrow> Credential option \<Rightarrow> auth_error \<Rightarrow> idstore \<Rightarrow> idstore \<times> (auth_error + Identity)" where
  "try_sources [] cred e st = (st, Inl e)"
| "try_sources (src # srcs) cred e st =
     (case src cred st of
        (st1, Inr i) \<Rightarrow> (st1, Inr i)
      | (st1, Inl AuthPanic) \<Rightarrow> (st1, Inl AuthPanic)
      | (st1, Inl e1) \<Rightarrow> try_sources srcs cred e1 st1)"

definition Multi_Authenticate :: "source list \<Rightarrow> bool \<Rightarrow> Credential option \<Rightarrow> idstore \<Rightarrow> idstore \<times> (auth_error + Identity)" where
  "Multi_Authenticate srcs allowAnonymous cred st =
     (case cred of
        None \<Rightarrow> (st, if allowAnonymous then Inr Anonymous else Inl (AuthError ''credentials required''))
      | Some _ \<Rightarrow> try_sources srcs cred (AuthError ''no configured method accepted the credential'') st)"


section \<open>What revocation leaves\<close>

text \<open>\<open>creds_within P st st'\<close>: the accounts are the same, and of the credentials only such with \<open>P\<close> are gone.\<close>

definition creds_within :: "(BearerCredential \<Rightarrow> bool) \<Rightarrow> idstore \<Rightarrow> idstore \<Rightarrow> bool" where
  "creds_within P st st' \<longleftrightarrow> is_accounts st' = is_accounts st
     \<and> (\<forall>h. is_creds st' h = is_creds st h \<or> is_creds st' h = None \<and> (\<exists>c. is_creds st h = Some (Some c) \<and> P c))"

lemma within_refl [simp]: "creds_within P st st"
  by (simp add: creds_within_def)

lemma within_trans: "creds_within P a b \<Longrightarrow> creds_within P b c \<Longrightarrow> creds_within P a c"
  unfolding creds_within_def by metis

lemma within_remove: "is_creds st n = Some (Some c) \<Longrightarrow> P c \<Longrightarrow> creds_within P st (fst (remove_cred ok n st))"
  by (auto simp: creds_within_def remove_cred_def)

definition revoker :: "(BearerCredential \<Rightarrow> bool) \<Rightarrow> ('s \<Rightarrow> 's) \<Rightarrow> (string \<Rightarrow> bool) \<Rightarrow> BearerCredential \<Rightarrow> string \<Rightarrow> 's \<times> idstore \<Rightarrow> ('s \<times> idstore) \<times> id_error option" where
  "revoker P g rm c n x =
     (case x of (u, st) \<Rightarrow> if P c then (case remove_cred (rm n) n st of (st', e) \<Rightarrow> ((g u, st'), e)) else ((u, st), None))"

lemma revoker_pair:
  "revoker P g rm c n (u, st) = (if P c then (case remove_cred (rm n) n st of (st', e) \<Rightarrow> ((g u, st'), e)) else ((u, st), None))"
  by (simp add: revoker_def)

lemma each_revoker:
  assumes "each_cred (revoker P g rm) ns (u, st) = ((u', st'), e)"
  shows "creds_within P st st' \<and> (e = None \<longrightarrow> (\<forall>h \<in> set ns. \<forall>c. is_creds st' h = Some (Some c) \<longrightarrow> \<not> P c))"
  using assms
proof (induction ns arbitrary: u st)
  case (Cons n ns)
  show ?case
  proof (cases "\<exists>c. is_creds st n = Some (Some c)")
    case False
    then have "each_cred (revoker P g rm) ns (u, st) = ((u', st'), e)" using Cons.prems by (auto split: option.splits)
    note ih = Cons.IH [OF this]
    have "\<nexists>c. is_creds st' n = Some (Some c)" using ih False unfolding creds_within_def by (metis option.distinct(1))
    then show ?thesis using ih by auto
  next
    case True
    then obtain c where c: "is_creds st n = Some (Some c)" by blast
    show ?thesis
    proof (cases "P c")
      case False
      then have "each_cred (revoker P g rm) ns (u, st) = ((u', st'), e)" using Cons.prems c by (simp add: revoker_pair)
      note ih = Cons.IH [OF this]
      have "\<not> P c'" if "is_creds st' n = Some (Some c')" for c'
        using ih that c False unfolding creds_within_def by (metis option.distinct(1) option.inject)
      then show ?thesis using ih by auto
    next
      case P: True
      note w = within_remove [of st n c P "rm n", OF c P]
      show ?thesis
      proof (cases "rm n")
        case True
        let ?st = "st\<lparr>is_creds := (is_creds st)(n := None)\<rparr>"
        have "each_cred (revoker P g rm) ns (g u, ?st) = ((u', st'), e)" using Cons.prems c P True by (simp add: revoker_pair remove_cred_def)
        note ih = Cons.IH [OF this]
        have "creds_within P st st'" using ih w True by (auto simp: remove_cred_def elim: within_trans [rotated])
        moreover have "is_creds st' n = None"
          using conjunct1 [OF ih] unfolding creds_within_def by (auto dest: spec [of _ n])
        ultimately show ?thesis using ih by auto
      next
        case False
        then show ?thesis using Cons.prems c P by (auto simp: revoker_pair remove_cred_def)
      qed
    qed
  qed
qed simp

lemma revoke_all_each:
  "RevokeAllForSubject ls rm subject st =
     (case forEach ls (revoker (\<lambda>c. bc_Subject c = subject) (\<lambda>_. ()) rm) ((), st) of ((_, st'), e) \<Rightarrow> (st', e))"
  unfolding RevokeAllForSubject_def revoker_def by (simp add: case_prod_beta' split_def)

lemma revoke_id_each:
  "RevokeByID ls rm subject i st =
     (case forEach ls (revoker (\<lambda>c. bc_Subject c = subject \<and> bc_ID c = i) (\<lambda>_. True) rm) (False, st) of
        ((_, st'), Some e) \<Rightarrow> (st', Some e)
      | ((found, st'), None) \<Rightarrow> (st', if found then None else Some ErrNoCredential))"
  unfolding RevokeByID_def revoker_def by (simp add: case_prod_beta' split_def)

text \<open>A listing that names every file.\<close>

definition lists_all :: "string list option \<Rightarrow> idstore \<Rightarrow> bool" where
  "lists_all ls st \<longleftrightarrow> (\<forall>ns. ls = Some ns \<longrightarrow> dom (is_creds st) \<subseteq> set ns)"

lemma revoke_all_within:
  assumes "RevokeAllForSubject ls rm subject st = (st', e)"
  shows "creds_within (\<lambda>c. bc_Subject c = subject) st st'"
    "e = None \<Longrightarrow> lists_all ls st \<Longrightarrow> is_creds st' h = Some (Some c) \<Longrightarrow> bc_Subject c \<noteq> subject"
proof -
  show w: "creds_within (\<lambda>c. bc_Subject c = subject) st st'"
    using assms each_revoker [of "\<lambda>c. bc_Subject c = subject" "\<lambda>_. ()" rm] unfolding revoke_all_each forEach_def
    by (auto split: option.splits prod.splits)
  assume e: "e = None" and ls: "lists_all ls st" and c: "is_creds st' h = Some (Some c)"
  obtain ns where ns: "ls = Some ns" "each_cred (revoker (\<lambda>c. bc_Subject c = subject) (\<lambda>_. ()) rm) ns ((), st) = (((), st'), None)"
    using assms e unfolding revoke_all_each forEach_def by (auto split: option.splits prod.splits)
  have "is_creds st h \<noteq> None" using w c unfolding creds_within_def by (metis option.distinct(1))
  then have "h \<in> set ns" using ls ns(1) by (auto simp: lists_all_def)
  then show "bc_Subject c \<noteq> subject" using each_revoker [OF ns(2)] c by blast
qed

lemma revoke_id_within:
  assumes "RevokeByID ls rm subject i st = (st', e)"
  shows "creds_within (\<lambda>c. bc_Subject c = subject \<and> bc_ID c = i) st st'"
  using assms each_revoker [of "\<lambda>c. bc_Subject c = subject \<and> bc_ID c = i" "\<lambda>_. True" rm] unfolding revoke_id_each forEach_def
  by (auto split: option.splits prod.splits)


section \<open>Runs of the identity layer\<close>

text \<open>What surrounds one operation, the operations, and their effect on the stores.\<close>

record id_env =
  ie_idkey :: kdf
  ie_salt :: "bytes option"
  ie_secret :: "bytes option"
  ie_ok :: "nat \<Rightarrow> bool"
  ie_ls :: "string list option"
  ie_rm :: "string \<Rightarrow> bool"
  ie_now :: int
  ie_cid :: string

datatype id_op =
    OpCreateAccount string string
  | OpDisableAccount string
  | OpDeleteAccount string
  | OpChangePassword string string
  | OpLogin string string
  | OpLogout string
  | OpCreateToken string string
  | OpRevokeToken string string
  | OpBasic "Credential option"
  | OpBearer "Credential option"

fun id_exec :: "id_env \<Rightarrow> id_op \<Rightarrow> idstore \<Rightarrow> idstore" where
  "id_exec e (OpCreateAccount u p) st = fst (CreateAccount (ie_idkey e) (ie_salt e) (ie_ok e 0) (ie_now e) u p st)"
| "id_exec e (OpDisableAccount u) st = fst (DisableAccount (ie_ok e 0) (ie_ls e) (ie_rm e) u st)"
| "id_exec e (OpDeleteAccount u) st = fst (DeleteAccount (ie_ok e 0) (ie_ls e) (ie_rm e) u st)"
| "id_exec e (OpChangePassword u p) st = fst (ChangePassword (ie_idkey e) (ie_salt e) (ie_ok e 0) u p st)"
| "id_exec e (OpLogin u p) st = fst (Login (ie_idkey e) (ie_salt e) (ie_ok e) (ie_now e) (ie_secret e) (ie_cid e) u p st)"
| "id_exec e (OpLogout s) st = fst (Logout (ie_ok e 0) s st)"
| "id_exec e (OpCreateToken u n) st = fst (CreateToken (ie_ok e 0) (ie_now e) (ie_secret e) (ie_cid e) u n st)"
| "id_exec e (OpRevokeToken u i) st = fst (RevokeToken (ie_ls e) (ie_rm e) u i st)"
| "id_exec e (OpBasic c) st = fst (basic_authenticate (ie_idkey e) (ie_salt e) (ie_ok e 0) c st)"
| "id_exec e (OpBearer c) st = fst (bearer_authenticate (ie_ok e 0) (ie_now e) c st)"

definition id_exec_all :: "(id_env \<times> id_op) list \<Rightarrow> idstore \<Rightarrow> idstore" where
  "id_exec_all ops st = fold (\<lambda>(e, opr). id_exec e opr) ops st"

text \<open>Every operation changes the credentials only in one of three ways: it removes some, it updates the last use of one, or
  it files the one it minted.\<close>

definition minted :: "id_env \<Rightarrow> string option" where
  "minted e = map_option snd (NewSecret (ie_secret e))"

definition cred_change :: "id_env \<Rightarrow> idstore \<Rightarrow> idstore \<Rightarrow> bool" where
  "cred_change e st st' \<longleftrightarrow> (\<forall>h x. is_creds st' h = Some x \<longrightarrow>
     is_creds st h = Some x
     \<or> (\<exists>c. is_creds st h = Some (Some c) \<and> x = Some (c\<lparr>bc_LastUsedAt := ie_now e\<rparr>))
     \<or> minted e = Some h \<and> (\<exists>c. x = Some c \<and> bc_SecretHash c = h \<and> \<not> bc_Revoked c
         \<and> (bc_Kind c = KindSession \<longrightarrow> bc_ExpiresAt c = bc_CreatedAt c + sessionAbsolute \<and> bc_CreatedAt c = ie_now e
              \<and> bc_IdleSeconds c = 7200 \<and> bc_LastUsedAt c = ie_now e)))"

lemma change_same: "is_creds st' = is_creds st \<Longrightarrow> cred_change e st st'"
  by (simp add: cred_change_def)

lemma change_within: "creds_within P st st' \<Longrightarrow> cred_change e st st'"
  unfolding cred_change_def creds_within_def by (metis option.distinct(1))

lemma acct_creds [simp]:
  "is_creds (fst (acct_create ok a st)) = is_creds st" "is_creds (fst (acct_update ok a st)) = is_creds st"
  "is_creds (fst (acct_delete ok u st)) = is_creds st"
  by (simp_all add: acct_create_def acct_update_def acct_delete_def)

lemma check_creds [simp]: "is_creds (fst (check_password idkey rand ok u p st)) = is_creds st"
  by (auto simp: check_password_def split: sum.splits prod.splits pw_error.splits)

lemma exec_change: "cred_change e st (id_exec e opr st)"
proof (cases opr)
  case (OpCreateAccount u p)
  then show ?thesis by (auto simp: CreateAccount_def split: sum.splits intro!: change_same)
next
  case (OpDisableAccount u)
  have "cred_change e st (fst (RevokeAllForSubject ls rm u (fst (acct_update ok a st))))" for ls rm ok a
    using change_within [OF revoke_all_within(1), of ls rm u "fst (acct_update ok a st)"]
    by (cases "RevokeAllForSubject ls rm u (fst (acct_update ok a st))") (simp add: cred_change_def)
  with OpDisableAccount show ?thesis
    by (auto simp: DisableAccount_def split: sum.splits option.splits prod.splits intro: change_same)
       (metis fst_conv acct_creds(2) change_same)+
next
  case (OpDeleteAccount u)
  have "cred_change e st (fst (RevokeAllForSubject ls rm u st))" for ls rm
    using change_within [OF revoke_all_within(1), of ls rm u st] by (cases "RevokeAllForSubject ls rm u st") simp
  moreover have "cred_change e st (fst (acct_delete ok u (fst (RevokeAllForSubject ls rm u st))))" for ok ls rm
    using calculation [of ls rm] by (simp add: cred_change_def)
  ultimately show ?thesis using OpDeleteAccount
    by (auto simp: DeleteAccount_def split: sum.splits option.splits prod.splits intro: change_same) (metis fst_conv)+
next
  case (OpChangePassword u p)
  then show ?thesis by (auto simp: ChangePassword_def split: sum.splits intro!: change_same)
next
  case (OpLogin u p)
  obtain st1 r where r: "check_password (ie_idkey e) (ie_salt e) (ie_ok e 0) u p st = (st1, r)" by fastforce
  have same: "is_creds st1 = is_creds st" using check_creds [of "ie_idkey e" "ie_salt e" "ie_ok e 0" u p st] by (simp add: r)
  show ?thesis unfolding OpLogin
    by (auto simp: Login_def r NewSecret_def cred_put_def cred_change_def minted_def same sessionIdle_def second_def split: sum.splits option.splits)
next
  case (OpLogout s)
  then show ?thesis by (auto simp: Logout_def DeleteBySecretHash_def remove_cred_def cred_change_def)
next
  case (OpCreateToken u n)
  then show ?thesis by (auto simp: CreateToken_def NewSecret_def cred_put_def cred_change_def minted_def split: option.splits)
next
  case (OpRevokeToken u i)
  then show ?thesis using change_within [OF revoke_id_within, of "ie_ls e" "ie_rm e" u i st]
    by (cases "RevokeByID (ie_ls e) (ie_rm e) u i st") (simp add: RevokeToken_def)
next
  case (OpBasic c)
  have "is_creds (fst (basic_authenticate k r ok c st)) = is_creds st" for k r ok
    by (auto simp: basic_authenticate_def split: option.splits sum.splits prod.splits) (metis check_creds fst_conv)+
  then show ?thesis unfolding OpBasic by (simp add: change_same)
next
  case (OpBearer c)
  have "cred_change e st (fst (Touch ok h (ie_now e) st))" for ok h
    by (auto simp: Touch_def cred_change_def split: option.splits)
  then show ?thesis unfolding OpBearer by (auto simp: bearer_authenticate_def change_same split: option.splits sum.splits)
qed


lemma exec_all_dead:
  assumes "is_creds st h = None" "\<forall>e opr. (e, opr) \<in> set ops \<longrightarrow> minted e \<noteq> Some h"
  shows "is_creds (id_exec_all ops st) h = None"
  using assms
proof (induction ops arbitrary: st)
  case (Cons x ops)
  obtain e opr where x: "x = (e, opr)" by fastforce
  have "is_creds (id_exec e opr st) h = None"
    using exec_change [of e st opr] Cons.prems unfolding cred_change_def x by (metis list.set_intros(1) not_None_eq option.distinct(1))
  moreover have "id_exec_all (x # ops) st = id_exec_all ops (id_exec e opr st)" by (simp add: id_exec_all_def x)
  moreover have "\<forall>e opr. (e, opr) \<in> set ops \<longrightarrow> minted e \<noteq> Some h" using Cons.prems(2) by (meson list.set_intros(2))
  ultimately show ?case using Cons.IH [of "id_exec e opr st"] by metis
qed (simp add: id_exec_all_def)

lemma bearer_dead:
  "is_creds st (HashSecret (cr_Token cr)) = None \<Longrightarrow> \<exists>e. bearer_authenticate ok now (Some cr) st = (st, Inl e)"
  by (simp add: bearer_authenticate_def GetBySecretHash_def)

text \<open>What ends a credential: deleting or disabling its account, logging out with its secret, or revoking it by its identifier.\<close>

definition ends :: "bool \<Rightarrow> string list option \<Rightarrow> (string \<Rightarrow> bool) \<Rightarrow> id_op \<Rightarrow> string \<Rightarrow> BearerCredential \<Rightarrow> idstore \<Rightarrow> idstore \<Rightarrow> bool" where
  "ends ok ls rm opr token c st st' =
     (case opr of
        OpDeleteAccount u \<Rightarrow> bc_Subject c = u \<and> DeleteAccount ok ls rm u st = (st', None)
      | OpDisableAccount u \<Rightarrow> bc_Subject c = u \<and> DisableAccount ok ls rm u st = (st', None)
      | OpLogout s \<Rightarrow> s = token \<and> Logout ok s st = (st', None)
      | OpRevokeToken u i \<Rightarrow> bc_Subject c = u \<and> bc_ID c = i \<and> RevokeToken ls rm u i st = (st', None)
      | _ \<Rightarrow> False)"

lemma revoke_id_gone:
  assumes "RevokeByID ls rm subject i st = (st', None)" "lists_all ls st" "is_creds st' h = Some (Some c)"
  shows "\<not> (bc_Subject c = subject \<and> bc_ID c = i)"
proof -
  let ?P = "\<lambda>c. bc_Subject c = subject \<and> bc_ID c = i"
  obtain ns f where ns: "ls = Some ns" "each_cred (revoker ?P (\<lambda>_. True) rm) ns (False, st) = ((f, st'), None)"
    using assms(1) unfolding revoke_id_each forEach_def by (auto split: option.splits prod.splits)
  have "is_creds st h \<noteq> None" using revoke_id_within [OF assms(1)] assms(3) unfolding creds_within_def by (metis option.distinct(1))
  then have "h \<in> set ns" using assms(2) ns(1) by (auto simp: lists_all_def)
  then show ?thesis using each_revoker [OF ns(2)] assms(3) by blast
qed

lemma ends_credential:
  assumes "is_creds st (HashSecret token) = Some (Some c)" "lists_all ls st" "ends ok ls rm opr token c st st'"
  shows "is_creds st' (HashSecret token) = None"
proof -
  have within: "is_creds st2 (HashSecret token) = None"
    if "creds_within P st1 st2" "is_creds st1 = is_creds st" "\<And>c. is_creds st2 (HashSecret token) = Some (Some c) \<Longrightarrow> \<not> P c" "P c" for P st1 st2
    using that assms(1) unfolding creds_within_def by metis
  show ?thesis
  proof (cases opr)
    case (OpDeleteAccount u)
    then obtain st1 where r: "RevokeAllForSubject ls rm u st = (st1, None)" "st' = fst (acct_delete ok u st1)" "bc_Subject c = u"
      using assms(3) by (auto simp: ends_def DeleteAccount_def split: sum.splits prod.splits option.splits)
    then show ?thesis using within [OF revoke_all_within(1) [OF r(1)]] revoke_all_within(2) [OF r(1) refl assms(2)] by simp
  next
    case (OpDisableAccount u)
    then obtain a st1 where r: "st1 = fst (acct_update ok a st)" "RevokeAllForSubject ls rm u st1 = (st', None)" "bc_Subject c = u"
      using assms(3) by (auto simp: ends_def DisableAccount_def split: sum.splits prod.splits option.splits) (metis fst_conv)
    have "lists_all ls st1" using assms(2) r(1) by (simp add: lists_all_def)
    then show ?thesis using within [OF revoke_all_within(1) [OF r(2)]] revoke_all_within(2) [OF r(2) refl] r(1,3) by simp
  next
    case (OpLogout s)
    then show ?thesis using assms(1,3) by (auto simp: ends_def Logout_def DeleteBySecretHash_def remove_cred_def split: if_splits)
  next
    case (OpRevokeToken u i)
    then have r: "RevokeByID ls rm u i st = (st', None)" "bc_Subject c = u \<and> bc_ID c = i" using assms(3) by (auto simp: ends_def RevokeToken_def)
    show ?thesis using within [OF revoke_id_within [OF r(1)] refl] revoke_id_gone [OF r(1) assms(2)] r(2) by blast
  qed (use assms(3) in \<open>simp_all add: ends_def\<close>)
qed

text \<open>C36. A credential that was ended, by deleting or disabling its account, by logging out or by revoking it, never authenticates
  again: not after any sequence of operations on the identity layer, not even when the account is made anew or
  enabled, as long as no new secret has its hash.\<close>

theorem ended_credential_is_dead:
  assumes "is_creds st (HashSecret token) = Some (Some c)" "lists_all ls st" "ends ok ls rm opr token c st st1"
    and "\<forall>e opr'. (e, opr') \<in> set ops \<longrightarrow> minted e \<noteq> Some (HashSecret token)"
    and "cr_Token cr = token"
  shows "\<exists>e. bearer_authenticate ok' now (Some cr) (id_exec_all ops st1) = (id_exec_all ops st1, Inl e)"
  using bearer_dead [of "id_exec_all ops st1" cr] exec_all_dead [OF ends_credential [OF assms(1-3)] assms(4)] assms(5) by simp


text \<open>A store with the account of \<open>ann\<close> and a token of hers; the account is deleted and made again.\<close>

definition ann :: Account where
  "ann = \<lparr>ac_Username = ''ann'', ac_PasswordHash = [], ac_State = AccountActive, ac_CreatedAt = 1\<rparr>"

definition ann_token :: BearerCredential where
  "ann_token = \<lparr>bc_ID = ''cred_1'', bc_Kind = KindToken, bc_Subject = ''ann'', bc_Name = ''ci'', bc_SecretHash = HashSecret ''tok'',
     bc_CreatedAt = 1, bc_ExpiresAt = 0, bc_IdleSeconds = 0, bc_LastUsedAt = 0, bc_Revoked = False\<rparr>"

definition ann_store :: idstore where
  "ann_store = \<lparr>is_accounts = [''ann'' \<mapsto> Some ann], is_creds = [HashSecret ''tok'' \<mapsto> Some ann_token]\<rparr>"

definition ann_env :: id_env where
  "ann_env = \<lparr>ie_idkey = toy_kdf, ie_salt = Some ''salt'', ie_secret = None, ie_ok = (\<lambda>_. True), ie_ls = None, ie_rm = (\<lambda>_. True),
     ie_now = 5, ie_cid = []\<rparr>"

definition tok_cred :: Credential where
  "tok_cred = \<lparr>cr_Scheme = SchemeBearer, cr_User = [], cr_Secret = [], cr_Token = ''tok''\<rparr>"

lemma valid_ann [simp]: "ValidUsername ''ann''"
  by (simp add: ValidUsername_def user_char_def)

lemma ann_deleted:
  "DeleteAccount True (Some [HashSecret ''tok'']) (\<lambda>_. True) ''ann'' ann_store = (\<lparr>is_accounts = Map.empty, is_creds = Map.empty\<rparr>, None)"
  by (simp add: DeleteAccount_def acct_get_def ann_store_def RevokeAllForSubject_def forEach_def remove_cred_def ann_token_def acct_delete_def)

theorem ended_credential_is_dead_witness:
  "bearer_authenticate True 9 (Some tok_cred) ann_store = (ann_store\<lparr>is_creds := [HashSecret ''tok'' \<mapsto> Some (ann_token\<lparr>bc_LastUsedAt := 9\<rparr>)]\<rparr>, Inr \<lparr>id_ID = ''ann'', id_Method = MethodBearer\<rparr>)
   \<and> (\<exists>e. snd (bearer_authenticate True 9 (Some tok_cred)
        (id_exec_all [(ann_env, OpCreateAccount ''ann'' ''password'')] \<lparr>is_accounts = Map.empty, is_creds = Map.empty\<rparr>)) = Inl e)"
proof -
  have a: "is_creds ann_store (HashSecret ''tok'') = Some (Some ann_token)" by (simp add: ann_store_def)
  have b: "lists_all (Some [HashSecret ''tok'']) ann_store" by (simp add: lists_all_def ann_store_def)
  have c: "ends True (Some [HashSecret ''tok'']) (\<lambda>_. True) (OpDeleteAccount ''ann'') ''tok'' ann_token ann_store
      \<lparr>is_accounts = Map.empty, is_creds = Map.empty\<rparr>" by (simp add: ends_def ann_deleted) (simp add: ann_token_def)
  have d: "\<forall>e opr'. (e, opr') \<in> set [(ann_env, OpCreateAccount ''ann'' ''password'')] \<longrightarrow> minted e \<noteq> Some (HashSecret ''tok'')"
    by (simp add: minted_def NewSecret_def ann_env_def)
  have e: "cr_Token tok_cred = ''tok''" by (simp add: tok_cred_def)
  have "bearer_authenticate True 9 (Some tok_cred) ann_store = (ann_store\<lparr>is_creds := [HashSecret ''tok'' \<mapsto> Some (ann_token\<lparr>bc_LastUsedAt := 9\<rparr>)]\<rparr>, Inr \<lparr>id_ID = ''ann'', id_Method = MethodBearer\<rparr>)"
    by (simp add: bearer_authenticate_def tok_cred_def GetBySecretHash_def ann_store_def ann_token_def valid_def acct_get_def ann_def Touch_def)
  with ended_credential_is_dead [OF a b c d e, of True 9] show ?thesis by (metis snd_conv)
qed


section \<open>Logging in\<close>

lemma created_account:
  assumes "CreateAccount idkey (Some salt) ok now u pw st = (st1, None)"
  obtains h where "HashPassword idkey (Some salt) pw = Inr h" "ValidUsername u"
    "is_accounts st1 = (is_accounts st)(u \<mapsto> Some \<lparr>ac_Username = u, ac_PasswordHash = h, ac_State = AccountActive, ac_CreatedAt = now\<rparr>)"
    "is_creds st1 = is_creds st"
  using assms that by (auto simp: CreateAccount_def acct_create_def split: if_splits sum.splits)

lemma check_created:
  assumes "kdf_ok idkey" "CreateAccount idkey (Some salt) ok now u pw st = (st1, None)"
  shows "check_password idkey rand ok' u q st1 =
    (st1, if idkey q salt 2 65536 4 32 = idkey pw salt 2 65536 4 32 then Inr (the (the (is_accounts st1 u))) else Inl ErrInvalidCredentials)"
proof -
  obtain h where h: "HashPassword idkey (Some salt) pw = Inr h" "ValidUsername u"
    "is_accounts st1 = (is_accounts st)(u \<mapsto> Some \<lparr>ac_Username = u, ac_PasswordHash = h, ac_State = AccountActive, ac_CreatedAt = now\<rparr>)"
    using created_account [OF assms(2)] by blast
  show ?thesis using hash_verifies [OF assms(1) h(1), of q] h(2,3) by (simp add: check_password_def acct_get_def)
qed

lemma idle_two_hours: "idle_window 7200 = 7200 * second"
  by (simp add: idle_window_def second_def)

text \<open>C38. After an account was created, logging in with a password that derives another key fails and changes nothing; logging
  in with the password returns a secret and an expiry of 24 hours, and the secret authenticates as the account during the
  two hours that follow.\<close>

theorem login_session:
  assumes "kdf_ok idkey" "CreateAccount idkey (Some salt) ok0 now0 u pw st = (st1, None)" "0 < now" "now \<le> t" "t \<le> now + 2 * 3600 * second"
  shows "(if idkey q salt 2 65536 4 32 \<noteq> idkey pw salt 2 65536 4 32
          then Login idkey rand (\<lambda>_. True) now (Some b) cid u q st1 = (st1, Inl ErrInvalidCredentials)
          else (case Login idkey rand (\<lambda>_. True) now (Some b) cid u q st1 of
                  (st2, Inr (secret, expires)) \<Rightarrow> expires = now + 24 * 3600 * second
                     \<and> snd (bearer_authenticate ok t (Some \<lparr>cr_Scheme = SchemeBearer, cr_User = [], cr_Secret = [], cr_Token = secret\<rparr>) st2)
                         = Inr \<lparr>id_ID = u, id_Method = MethodBearer\<rparr>
                | _ \<Rightarrow> False))"
proof (cases "idkey q salt 2 65536 4 32 = idkey pw salt 2 65536 4 32")
  case False
  then show ?thesis using check_created [OF assms(1,2), of rand True q] by (simp add: Login_def)
next
  case True
  obtain h where h: "ValidUsername u"
    "is_accounts st1 = (is_accounts st)(u \<mapsto> Some \<lparr>ac_Username = u, ac_PasswordHash = h, ac_State = AccountActive, ac_CreatedAt = now0\<rparr>)"
    using created_account [OF assms(2)] by blast
  have w: "idle_window (sessionIdle div second) = 7200 * second" using idle_two_hours by (simp add: sessionIdle_def second_def)
  have t: "\<not> now + sessionAbsolute < t" "\<not> now + 7200 * second < t" using assms(5) by (simp_all add: sessionAbsolute_def second_def)
  show ?thesis
    using check_created [OF assms(1,2), of rand True q] True h t assms(3)
    by (simp add: Login_def NewSecret_def cred_put_def bearer_authenticate_def GetBySecretHash_def valid_def w acct_get_def sessionAbsolute_def)
qed

theorem login_session_witness:
  "\<exists>st1. CreateAccount toy_kdf (Some ''salt'') True 1 ''ann'' ''password'' \<lparr>is_accounts = Map.empty, is_creds = Map.empty\<rparr> = (st1, None)
     \<and> Login toy_kdf None (\<lambda>_. True) 5 (Some ''abc'') ''cred_1'' ''ann'' ''guessing'' st1 = (st1, Inl ErrInvalidCredentials)"
proof -
  obtain h where h: "HashPassword toy_kdf (Some ''salt'') ''password'' = Inr h"
    by (simp add: HashPassword_def defaultArgon2_def toy_kdf_def)
  define st1 :: idstore where "st1 = \<lparr>is_accounts = [''ann'' \<mapsto> Some \<lparr>ac_Username = ''ann'', ac_PasswordHash = h, ac_State = AccountActive, ac_CreatedAt = 1\<rparr>], is_creds = Map.empty\<rparr>"
  have c: "CreateAccount toy_kdf (Some ''salt'') True 1 ''ann'' ''password'' \<lparr>is_accounts = Map.empty, is_creds = Map.empty\<rparr> = (st1, None)"
    by (simp add: CreateAccount_def h ValidPassword_def MinPasswordLen_def MaxPasswordLen_def acct_create_def st1_def)
  have "toy_kdf ''guessing'' ''salt'' 2 65536 4 32 \<noteq> toy_kdf ''password'' ''salt'' 2 65536 4 32" by (simp add: toy_kdf_def)
  then show ?thesis
    using c login_session [OF toy_kdf_ok c, of 5 6 "''guessing''" None "''abc''" "''cred_1''" True] by (simp add: second_def)
qed

text \<open>A token minted for a name that has no account: \<^verbatim>\<open>CreateToken\<close> does not look. The token starts to authenticate when
  somebody else gets the name.\<close>

lemma token_outlives_account:
  assumes "CreateAccount idkey (Some salt) ok0 now0 u pw (fst (CreateToken True now (Some b) cid u n \<lparr>is_accounts = Map.empty, is_creds = Map.empty\<rparr>)) = (st1, None)"
  shows "\<exists>secret. snd (CreateToken True now (Some b) cid u n \<lparr>is_accounts = Map.empty, is_creds = Map.empty\<rparr>) = Inr (cid, secret)
    \<and> snd (bearer_authenticate ok t (Some \<lparr>cr_Scheme = SchemeBearer, cr_User = [], cr_Secret = [], cr_Token = secret\<rparr>) st1)
        = Inr \<lparr>id_ID = u, id_Method = MethodBearer\<rparr>"
proof -
  obtain h where h: "ValidUsername u"
    "is_accounts st1 = (is_accounts (fst (CreateToken True now (Some b) cid u n \<lparr>is_accounts = Map.empty, is_creds = Map.empty\<rparr>)))
       (u \<mapsto> Some \<lparr>ac_Username = u, ac_PasswordHash = h, ac_State = AccountActive, ac_CreatedAt = now0\<rparr>)"
    "is_creds st1 = is_creds (fst (CreateToken True now (Some b) cid u n \<lparr>is_accounts = Map.empty, is_creds = Map.empty\<rparr>))"
    using created_account [OF assms] by blast
  then show ?thesis
    by (simp add: CreateToken_def NewSecret_def cred_put_def bearer_authenticate_def GetBySecretHash_def valid_def acct_get_def)
qed

text \<open>The name of the anonymous subject is an ordinary user name.\<close>

lemma anonymous_is_a_username: "ValidUsername (id_ID Anonymous)"
  by (simp add: Anonymous_def ValidUsername_def user_char_def)


section \<open>Sessions end\<close>

definition sessions_ok :: "idstore \<Rightarrow> bool" where
  "sessions_ok st \<longleftrightarrow> (\<forall>h c. is_creds st h = Some (Some c) \<and> bc_Kind c = KindSession \<longrightarrow>
     0 < bc_CreatedAt c \<and> bc_ExpiresAt c = bc_CreatedAt c + sessionAbsolute \<and> bc_IdleSeconds c = 7200 \<and> 0 < bc_LastUsedAt c)"

lemma change_sessions:
  assumes "cred_change e st st'" "0 < ie_now e" "sessions_ok st"
  shows "sessions_ok st'"
  unfolding sessions_ok_def
proof (intro allI impI, elim conjE)
  fix h c assume c: "is_creds st' h = Some (Some c)" "bc_Kind c = KindSession"
  from assms(1) c(1) consider "is_creds st h = Some (Some c)"
    | c0 where "is_creds st h = Some (Some c0)" "c = c0\<lparr>bc_LastUsedAt := ie_now e\<rparr>"
    | "bc_Kind c = KindSession \<longrightarrow> bc_ExpiresAt c = bc_CreatedAt c + sessionAbsolute \<and> bc_CreatedAt c = ie_now e
              \<and> bc_IdleSeconds c = 7200 \<and> bc_LastUsedAt c = ie_now e"
    unfolding cred_change_def by blast
  then show "0 < bc_CreatedAt c \<and> bc_ExpiresAt c = bc_CreatedAt c + sessionAbsolute \<and> bc_IdleSeconds c = 7200 \<and> 0 < bc_LastUsedAt c"
  proof cases
    case 2
    then have "bc_Kind c0 = KindSession" using c(2) by simp
    with 2 assms(2,3) show ?thesis by (simp add: sessions_ok_def)
  qed (use assms(2,3) c in \<open>auto simp: sessions_ok_def\<close>)
qed

lemma exec_all_sessions:
  "sessions_ok st \<Longrightarrow> \<forall>e opr. (e, opr) \<in> set ops \<longrightarrow> 0 < ie_now e \<Longrightarrow> sessions_ok (id_exec_all ops st)"
proof (induction ops arbitrary: st)
  case (Cons x ops)
  obtain e opr where x: "x = (e, opr)" by fastforce
  have "sessions_ok (id_exec e opr st)"
    using change_sessions [OF exec_change [of e st opr] _ Cons.prems(1)] Cons.prems(2) x by auto
  moreover have "id_exec_all (x # ops) st = id_exec_all ops (id_exec e opr st)" by (simp add: id_exec_all_def x)
  moreover have "\<forall>e opr. (e, opr) \<in> set ops \<longrightarrow> 0 < ie_now e" using Cons.prems(2) by (meson list.set_intros(2))
  ultimately show ?case using Cons.IH by metis
qed (simp add: id_exec_all_def)

text \<open>C37. Whatever operations built the stores, a bearer secret authenticates only if its hash names a stored credential
  that belongs to the resulting identity, the account of that identity is active, and, for a session, at most 24 hours have passed
  since the login and at most two hours since its last use.\<close>

theorem bearer_sound:
  assumes "\<forall>e opr. (e, opr) \<in> set ops \<longrightarrow> 0 < ie_now e" "st = id_exec_all ops \<lparr>is_accounts = Map.empty, is_creds = Map.empty\<rparr>"
    and "bearer_authenticate ok now (Some cr) st = (st', Inr i)"
  shows "\<exists>c a. is_creds st (HashSecret (cr_Token cr)) = Some (Some c) \<and> bc_Subject c = id_ID i
    \<and> is_accounts st (id_ID i) = Some (Some a) \<and> ac_State a = AccountActive
    \<and> (bc_Kind c = KindSession \<longrightarrow> now \<le> bc_CreatedAt c + 24 * 3600 * second \<and> now \<le> bc_LastUsedAt c + 2 * 3600 * second)"
proof -
  have s: "sessions_ok st" unfolding assms(2) by (rule exec_all_sessions [OF _ assms(1)]) (simp add: sessions_ok_def)
  obtain c a where c: "is_creds st (HashSecret (cr_Token cr)) = Some (Some c)" "valid c now" "bc_Subject c = id_ID i"
    "is_accounts st (bc_Subject c) = Some (Some a)" "ac_State a = AccountActive"
    using assms(3) by (auto simp: bearer_authenticate_def GetBySecretHash_def acct_get_def split: option.splits sum.splits if_splits)
  have "now \<le> bc_CreatedAt c + 24 * 3600 * second \<and> now \<le> bc_LastUsedAt c + 2 * 3600 * second" if "bc_Kind c = KindSession"
  proof -
    have k: "0 < bc_CreatedAt c" "bc_ExpiresAt c = bc_CreatedAt c + sessionAbsolute" "bc_IdleSeconds c = 7200" "0 < bc_LastUsedAt c"
      using s c(1) that by (auto simp: sessions_ok_def)
    then show ?thesis using c(2) idle_two_hours by (auto simp: valid_def sessionAbsolute_def second_def)
  qed
  then show ?thesis using c by auto
qed

definition login_env :: "bytes \<Rightarrow> id_env" where
  "login_env b = \<lparr>ie_idkey = toy_kdf, ie_salt = Some ''salt'', ie_secret = Some b, ie_ok = (\<lambda>_. True), ie_ls = None, ie_rm = (\<lambda>_. True),
     ie_now = 5, ie_cid = ''cred_1''\<rparr>"

theorem bearer_sound_witness:
  "let st = id_exec_all [(login_env ''abc'', OpCreateAccount ''ann'' ''password''), (login_env ''abc'', OpLogin ''ann'' ''password'')]
              \<lparr>is_accounts = Map.empty, is_creds = Map.empty\<rparr>;
       cr = \<lparr>cr_Scheme = SchemeBearer, cr_User = [], cr_Secret = [], cr_Token = b64_raw b64_url ''abc''\<rparr>
   in snd (bearer_authenticate True 6 (Some cr) st) = Inr \<lparr>id_ID = ''ann'', id_Method = MethodBearer\<rparr>
      \<and> (\<exists>c. is_creds st (HashSecret (cr_Token cr)) = Some (Some c) \<and> bc_Subject c = ''ann'')"
proof -
  obtain h where h: "HashPassword toy_kdf (Some ''salt'') ''password'' = Inr h"
    by (simp add: HashPassword_def defaultArgon2_def toy_kdf_def)
  define st1 :: idstore where "st1 = \<lparr>is_accounts = [''ann'' \<mapsto> Some \<lparr>ac_Username = ''ann'', ac_PasswordHash = h, ac_State = AccountActive, ac_CreatedAt = 5\<rparr>], is_creds = Map.empty\<rparr>"
  have c: "CreateAccount toy_kdf (Some ''salt'') True 5 ''ann'' ''password'' \<lparr>is_accounts = Map.empty, is_creds = Map.empty\<rparr> = (st1, None)"
    by (simp add: CreateAccount_def h ValidPassword_def MinPasswordLen_def MaxPasswordLen_def acct_create_def st1_def)
  let ?ops = "[(login_env ''abc'', OpCreateAccount ''ann'' ''password''), (login_env ''abc'', OpLogin ''ann'' ''password'')]"
  let ?cr = "\<lparr>cr_Scheme = SchemeBearer, cr_User = [], cr_Secret = [], cr_Token = b64_raw b64_url ''abc''\<rparr>"
  define st where "st = id_exec_all ?ops \<lparr>is_accounts = Map.empty, is_creds = Map.empty\<rparr>"
  have chk: "check_password toy_kdf (Some ''salt'') True ''ann'' ''password'' st1 = (st1, Inr (the (the (is_accounts st1 ''ann''))))"
    using check_created [OF toy_kdf_ok c] by simp
  have got: "snd (bearer_authenticate True 6 (Some ?cr) st) = Inr \<lparr>id_ID = ''ann'', id_Method = MethodBearer\<rparr>"
    using c chk idle_two_hours unfolding st_def
    by (simp add: id_exec_all_def login_env_def Login_def NewSecret_def cred_put_def bearer_authenticate_def GetBySecretHash_def valid_def
        acct_get_def st1_def sessionAbsolute_def sessionIdle_def second_def del: b64_raw.simps)
  then have auth: "bearer_authenticate True 6 (Some ?cr) st = (fst (bearer_authenticate True 6 (Some ?cr) st), Inr \<lparr>id_ID = ''ann'', id_Method = MethodBearer\<rparr>)"
    by (metis prod.collapse)
  have "\<forall>e opr. (e, opr) \<in> set ?ops \<longrightarrow> 0 < ie_now e" by (auto simp: login_env_def)
  then have "\<exists>c. is_creds st (HashSecret (cr_Token ?cr)) = Some (Some c) \<and> bc_Subject c = ''ann''"
    using bearer_sound [OF _ st_def auth] by auto
  with got show ?thesis unfolding Let_def st_def [symmetric] by blast
qed

end
