(* ===== verification/Repo_Manager.thy ===== *)
theory Repo_Manager
  imports Authz Go_Sort
begin

text \<open>
  \<^verbatim>\<open>internal/repomanager\<close>: the life cycle of the repositories a server hosts. A repository is three artifacts on disk:
  its content (a directory named after it), its policy file (named after it) and its metadata record (named after its identifier);
  the manager keeps the metadata in two maps. The disk of the model has the three artifacts: the content of a
  repository is a token, so that it can be seen whether a directory was made or found. Every operation
  returns the disks it passes through, one after each step that changed it, since a crash can stop it after any of them. Which steps fail
  is the argument \<open>ok\<close>, by their number in the operation; errors of removals are ignored, as in the code.
\<close>

section \<open>Names, states and records\<close>

datatype RepoState = StateCreating | StateActive | StateArchived | StateDeleting

definition live :: "RepoState \<Rightarrow> bool" where
  "live s \<longleftrightarrow> s = StateActive \<or> s = StateArchived"

definition VisibilityPrivate :: string where "VisibilityPrivate = ''private''"
definition VisibilityPublic :: string where "VisibilityPublic = ''public''"

definition valid_visibility :: "string \<Rightarrow> bool" where
  "valid_visibility v \<longleftrightarrow> v = VisibilityPrivate \<or> v = VisibilityPublic"

definition name_char :: "char \<Rightarrow> bool" where
  "name_char c \<longleftrightarrow> (let n = of_char c :: nat in (65 \<le> n \<and> n \<le> 90) \<or> (97 \<le> n \<and> n \<le> 122) \<or> (48 \<le> n \<and> n \<le> 57))
     \<or> c = CHR ''.'' \<or> c = CHR ''_'' \<or> c = CHR ''-''"

definition ValidName :: "string \<Rightarrow> bool" where
  "ValidName name \<longleftrightarrow>
     \<not> (name = [] \<or> name = ''.'' \<or> name = ''..'')
     \<and> \<not> (hd name = CHR ''_'' \<or> hd name = CHR ''.'')
     \<and> \<not> Contains name ''..'' \<and> list_all name_char name"

record Metadata =
  md_ID :: string
  md_Name :: string
  md_Owner :: string
  md_Visibility :: string
  md_State :: RepoState
  md_Description :: string
  md_CreatedAt :: nat
  md_UpdatedAt :: nat

definition ownerCaps :: "Capability list" where
  "ownerCaps = [CapRead, CapCreateRef, CapPush, CapForcePush, CapDeleteRef, CapDeleteRepo, CapRenameRepo, CapAdmin]"

section \<open>The disk\<close>

record rdisk =
  dk_meta :: "string \<rightharpoonup> Metadata"
  dk_content :: "string \<rightharpoonup> nat"
  dk_policy :: "string \<rightharpoonup> (string \<times> Capability list) list"

definition writeMeta :: "bool \<Rightarrow> Metadata \<Rightarrow> rdisk \<Rightarrow> rdisk" where
  "writeMeta ok md d = (if ok then d\<lparr>dk_meta := (dk_meta d)(md_ID md \<mapsto> md)\<rparr> else d)"

definition removeMeta :: "bool \<Rightarrow> string \<Rightarrow> rdisk \<Rightarrow> rdisk" where
  "removeMeta ok i d = (if ok then d\<lparr>dk_meta := (dk_meta d)(i := None)\<rparr> else d)"

definition remove_content :: "bool \<Rightarrow> string \<Rightarrow> rdisk \<Rightarrow> rdisk" where
  "remove_content ok name d = (if ok then d\<lparr>dk_content := (dk_content d)(name := None)\<rparr> else d)"

definition remove_policy :: "bool \<Rightarrow> string \<Rightarrow> rdisk \<Rightarrow> rdisk" where
  "remove_policy ok name d = (if ok then d\<lparr>dk_policy := (dk_policy d)(name := None)\<rparr> else d)"

text \<open>\<^verbatim>\<open>repository.Init\<close> makes the directories that are missing and keeps what is there; \<open>fresh\<close> is the token of
  content that was made.\<close>

definition init_content :: "nat \<Rightarrow> string \<Rightarrow> rdisk \<Rightarrow> rdisk" where
  "init_content fresh name d =
     (if dk_content d name = None then d\<lparr>dk_content := (dk_content d)(name \<mapsto> fresh)\<rparr> else d)"

definition seed_policy :: "string \<Rightarrow> string \<Rightarrow> rdisk \<Rightarrow> rdisk" where
  "seed_policy name owner d = d\<lparr>dk_policy := (dk_policy d)(name \<mapsto> [(owner, ownerCaps)])\<rparr>"

text \<open>\<^verbatim>\<open>os.Rename\<close> of a directory onto a name that has none (onto a directory with files in it it fails), and of
  a file.\<close>

definition move_content :: "string \<Rightarrow> string \<Rightarrow> rdisk \<Rightarrow> rdisk" where
  "move_content a b d = d\<lparr>dk_content := (dk_content d)(b := dk_content d a, a := None)\<rparr>"

definition move_policy :: "string \<Rightarrow> string \<Rightarrow> rdisk \<Rightarrow> rdisk" where
  "move_policy a b d = d\<lparr>dk_policy := (dk_policy d)(b := dk_policy d a, a := None)\<rparr>"

section \<open>The manager\<close>

record Manager =
  rm_byName :: "string \<rightharpoonup> Metadata"
  rm_byID :: "string \<rightharpoonup> Metadata"
  rm_loaded :: bool

definition NewManager :: Manager where
  "NewManager = \<lparr>rm_byName = Map.empty, rm_byID = Map.empty, rm_loaded = False\<rparr>"

text \<open>\<open>scan\<close> is \<^verbatim>\<open>scanMeta\<close>: the records in the order of the directory, or an error.\<close>

definition load_records :: "Metadata list \<Rightarrow> Manager \<Rightarrow> Manager" where
  "load_records metas m =
     (fold (\<lambda>md m. m\<lparr>rm_byID := (rm_byID m)(md_ID md \<mapsto> md), rm_byName := (rm_byName m)(md_Name md \<mapsto> md)\<rparr>) metas m)\<lparr>rm_loaded := True\<rparr>"

definition load :: "(rdisk \<Rightarrow> Metadata list option) \<Rightarrow> rdisk \<Rightarrow> Manager \<Rightarrow> Manager option" where
  "load scan d m = (if rm_loaded m then Some m else map_option (\<lambda>metas. load_records metas m) (scan d))"

text \<open>A change of a record the two maps share.\<close>

definition put_md :: "Metadata \<Rightarrow> Manager \<Rightarrow> Manager" where
  "put_md md m = m\<lparr>rm_byID := (rm_byID m)(md_ID md \<mapsto> md), rm_byName := (rm_byName m)(md_Name md \<mapsto> md)\<rparr>"

definition drop_md :: "Metadata \<Rightarrow> Manager \<Rightarrow> Manager" where
  "drop_md md m = m\<lparr>rm_byID := (rm_byID m)(md_ID md := None), rm_byName := (rm_byName m)(md_Name md := None)\<rparr>"

text \<open>\<^verbatim>\<open>purge\<close> and \<^verbatim>\<open>rollback\<close>, with the steps numbered from \<open>k\<close>.\<close>

definition purge :: "(nat \<Rightarrow> bool) \<Rightarrow> nat \<Rightarrow> Metadata \<Rightarrow> Manager \<times> rdisk list \<Rightarrow> Manager \<times> rdisk list" where
  "purge ok k md s =
     (case s of (m, tr) \<Rightarrow>
        let d1 = remove_content (ok k) (md_Name md) (last tr);
            d2 = remove_policy (ok (k + 1)) (md_Name md) d1;
            d3 = removeMeta (ok (k + 2)) (md_ID md) d2
        in (drop_md md m, tr @ [d1, d2, d3]))"

definition rollback :: "(nat \<Rightarrow> bool) \<Rightarrow> nat \<Rightarrow> Metadata \<Rightarrow> bool \<Rightarrow> bool \<Rightarrow> Manager \<times> rdisk list \<Rightarrow> Manager \<times> rdisk list" where
  "rollback ok k md content policy s =
     (case s of (m, tr) \<Rightarrow>
        let d1 = (if policy then remove_policy (ok k) (md_Name md) (last tr) else last tr);
            d2 = (if content then remove_content (ok (k + 1)) (md_Name md) d1 else d1);
            d3 = removeMeta (ok (k + 2)) (md_ID md) d2
        in (drop_md md m, tr @ [d1, d2, d3]))"

datatype rm_error = ErrExists | ErrNotFound | ErrInvalidName | ErrDisk

text \<open>The steps of \<^verbatim>\<open>Create\<close> after the name is free: metadata (0), content (1; when it fails, \<open>ok 2\<close> says whether the directory was
  made before the failure), policy (3), activation (4).\<close>

definition create_steps ::
    "(nat \<Rightarrow> bool) \<Rightarrow> nat \<Rightarrow> nat \<Rightarrow> Metadata \<Rightarrow> Manager \<times> rdisk list \<Rightarrow> Manager \<times> rdisk list \<times> (rm_error + Metadata)" where
  "create_steps ok fresh now md s =
     (case s of (m, tr) \<Rightarrow>
        let d0 = last tr; name = md_Name md in
        if \<not> ok 0 then (m, tr, Inl ErrDisk)
        else let d1 = writeMeta True md d0; m1 = put_md md m in
        if \<not> ok 1 then
          (let d2 = (if ok 2 then init_content fresh name d1 else d1);
               (m2, tr2) = rollback ok 10 md False False (m1, tr @ [d1, d2])
           in (m2, tr2, Inl ErrDisk))
        else let d2 = init_content fresh name d1 in
        if \<not> ok 3 then
          (let (m2, tr2) = rollback ok 10 md True False (m1, tr @ [d1, d2]) in (m2, tr2, Inl ErrDisk))
        else let d3 = seed_policy name (md_Owner md) d2;
                 md' = md\<lparr>md_State := StateActive, md_UpdatedAt := now\<rparr>;
                 m3 = put_md md' m1 in
        if \<not> ok 4 then
          (let (m4, tr4) = rollback ok 10 md' True True (m3, tr @ [d1, d2, d3]) in (m4, tr4, Inl ErrDisk))
        else (m3, tr @ [d1, d2, d3, writeMeta True md' d3], Inr md'))"

definition Create ::
    "(nat \<Rightarrow> bool) \<Rightarrow> (rdisk \<Rightarrow> Metadata list option) \<Rightarrow> nat \<Rightarrow> nat \<Rightarrow> string \<Rightarrow> string \<Rightarrow> string \<Rightarrow> string \<Rightarrow> string
     \<Rightarrow> Manager \<Rightarrow> rdisk \<Rightarrow> Manager \<times> rdisk list \<times> (rm_error + Metadata)" where
  "Create ok scan fresh now newID name owner vis0 desc m0 d =
     (if \<not> ValidName name then (m0, [d], Inl ErrInvalidName)
      else let vis = (if vis0 = [] then VisibilityPrivate else vis0) in
      if \<not> valid_visibility vis then (m0, [d], Inl ErrInvalidName)
      else case load scan d m0 of
        None \<Rightarrow> (m0, [d], Inl ErrDisk)
      | Some m \<Rightarrow>
          let md = \<lparr>md_ID = newID, md_Name = name, md_Owner = owner, md_Visibility = vis, md_State = StateCreating,
                    md_Description = desc, md_CreatedAt = now, md_UpdatedAt = now\<rparr>
          in case rm_byName m name of
               None \<Rightarrow> create_steps ok fresh now md (m, [d])
             | Some old \<Rightarrow>
                 if live (md_State old) then (m, [d], Inl ErrExists)
                 else create_steps ok fresh now md (purge ok 20 old (m, [d])))"

definition Delete_repo ::
    "(nat \<Rightarrow> bool) \<Rightarrow> (rdisk \<Rightarrow> Metadata list option) \<Rightarrow> nat \<Rightarrow> string \<Rightarrow> Manager \<Rightarrow> rdisk \<Rightarrow> Manager \<times> rdisk list \<times> (rm_error + unit)" where
  "Delete_repo ok scan now name m0 d =
     (case load scan d m0 of
        None \<Rightarrow> (m0, [d], Inl ErrDisk)
      | Some m \<Rightarrow>
          (case rm_byName m name of
             None \<Rightarrow> (m, [d], Inl ErrNotFound)
           | Some md \<Rightarrow>
               if \<not> live (md_State md) then (m, [d], Inl ErrNotFound)
               else let md' = md\<lparr>md_State := StateDeleting, md_UpdatedAt := now\<rparr>; m1 = put_md md' m in
                 if \<not> ok 0 then (m1, [d], Inl ErrDisk)
                 else (case purge ok 20 md' (m1, [d, writeMeta True md' d]) of (m2, tr) \<Rightarrow> (m2, tr, Inr ()))))"

text \<open>\<^verbatim>\<open>Rename\<close>: content (0), policy (1), the revert of the content (2), metadata (3).\<close>

definition rename_steps ::
    "(nat \<Rightarrow> bool) \<Rightarrow> nat \<Rightarrow> string \<Rightarrow> string \<Rightarrow> Metadata \<Rightarrow> Manager \<times> rdisk list \<Rightarrow> Manager \<times> rdisk list \<times> (rm_error + Metadata)" where
  "rename_steps ok now oldName newName md s =
     (case s of (m, tr) \<Rightarrow>
        let d0 = last tr in
        if \<not> ok 0 \<or> dk_content d0 oldName = None \<or> dk_content d0 newName \<noteq> None then (m, tr, Inl ErrDisk)
        else let d1 = move_content oldName newName d0 in
        if \<not> ok 1 \<or> dk_policy d1 oldName = None
        then (m, tr @ [d1, if ok 2 then move_content newName oldName d1 else d1], Inl ErrDisk)
        else let d2 = move_policy oldName newName d1;
                 md' = md\<lparr>md_Name := newName, md_UpdatedAt := now\<rparr>;
                 m1 = put_md md' (m\<lparr>rm_byName := (rm_byName m)(oldName := None)\<rparr>)
             in if \<not> ok 3 then (m1, tr @ [d1, d2], Inl ErrDisk)
                else (m1, tr @ [d1, d2, writeMeta True md' d2], Inr md'))"

definition Rename ::
    "(nat \<Rightarrow> bool) \<Rightarrow> (rdisk \<Rightarrow> Metadata list option) \<Rightarrow> nat \<Rightarrow> string \<Rightarrow> string \<Rightarrow> Manager \<Rightarrow> rdisk
     \<Rightarrow> Manager \<times> rdisk list \<times> (rm_error + Metadata)" where
  "Rename ok scan now oldName newName m0 d =
     (if \<not> ValidName newName then (m0, [d], Inl ErrInvalidName)
      else case load scan d m0 of
        None \<Rightarrow> (m0, [d], Inl ErrDisk)
      | Some m \<Rightarrow>
          (case rm_byName m oldName of
             None \<Rightarrow> (m, [d], Inl ErrNotFound)
           | Some md \<Rightarrow>
               if \<not> live (md_State md) then (m, [d], Inl ErrNotFound)
               else if oldName = newName then (m, [d], Inr md)
               else case rm_byName m newName of
                 None \<Rightarrow> rename_steps ok now oldName newName md (m, [d])
               | Some other \<Rightarrow>
                   if live (md_State other) then (m, [d], Inl ErrExists)
                   else rename_steps ok now oldName newName md (purge ok 20 other (m, [d]))))"

definition Get_repo :: "(rdisk \<Rightarrow> Metadata list option) \<Rightarrow> string \<Rightarrow> Manager \<Rightarrow> rdisk \<Rightarrow> rm_error + Metadata" where
  "Get_repo scan name m d =
     (case load scan d m of
        None \<Rightarrow> Inl ErrDisk
      | Some m \<Rightarrow>
          (case rm_byName m name of
             None \<Rightarrow> Inl ErrNotFound
           | Some md \<Rightarrow> if live (md_State md) then Inr md else Inl ErrNotFound))"

text \<open>\<^verbatim>\<open>List\<close> visits the map in the order \<open>ord\<close> and sorts by name.\<close>

definition List_repos :: "(string set \<Rightarrow> string list) \<Rightarrow> (rdisk \<Rightarrow> Metadata list option) \<Rightarrow> Manager \<Rightarrow> rdisk \<Rightarrow> rm_error + Metadata list" where
  "List_repos ord scan m d =
     (case load scan d m of
        None \<Rightarrow> Inl ErrDisk
      | Some m \<Rightarrow>
          Inr (sort_by md_Name (filter (\<lambda>md. live (md_State md)) (map (\<lambda>n. the (rm_byName m n)) (ord (dom (rm_byName m)))))))"

definition Servable :: "(rdisk \<Rightarrow> Metadata list option) \<Rightarrow> string \<Rightarrow> Manager \<Rightarrow> rdisk \<Rightarrow> bool" where
  "Servable scan name m d =
     (case load scan d m of
        None \<Rightarrow> False
      | Some m \<Rightarrow> (case rm_byName m name of None \<Rightarrow> False | Some md \<Rightarrow> md_State md = StateActive))"


section \<open>Invariants\<close>

text \<open>Records are filed under their identifier, no two have the same name, and a live one has its
  artifacts.\<close>

definition artifacts :: "rdisk \<Rightarrow> string \<Rightarrow> bool" where
  "artifacts d name \<longleftrightarrow> dk_content d name \<noteq> None \<and> dk_policy d name \<noteq> None"

definition disk_ok :: "rdisk \<Rightarrow> bool" where
  "disk_ok d \<longleftrightarrow> (\<forall>i md. dk_meta d i = Some md \<longrightarrow> md_ID md = i \<and> (live (md_State md) \<longrightarrow> artifacts d (md_Name md)))
     \<and> (\<forall>i j a b. dk_meta d i = Some a \<and> dk_meta d j = Some b \<and> md_Name a = md_Name b \<longrightarrow> i = j)"

text \<open>The maps of a manager that has loaded are the records on disk.\<close>

definition mem_ok :: "Manager \<Rightarrow> rdisk \<Rightarrow> bool" where
  "mem_ok m d \<longleftrightarrow> (\<forall>n md. rm_byName m n = Some md \<longleftrightarrow> md_Name md = n \<and> dk_meta d (md_ID md) = Some md)"

definition mgr_ok :: "Manager \<Rightarrow> rdisk \<Rightarrow> bool" where
  "mgr_ok m d \<longleftrightarrow> disk_ok d \<and> (if rm_loaded m then mem_ok m d else m = NewManager)"

definition no_live :: "string \<Rightarrow> rdisk \<Rightarrow> bool" where
  "no_live name d \<longleftrightarrow> (\<forall>i md. dk_meta d i = Some md \<and> md_Name md = name \<longrightarrow> \<not> live (md_State md))"

lemma disk_uniq:
  assumes "disk_ok d" "dk_meta d i = Some a" "dk_meta d j = Some b" "md_Name a = md_Name b"
  shows "i = j \<and> a = b"
proof -
  have "i = j" using assms unfolding disk_ok_def by blast
  with assms(2,3) show ?thesis by simp
qed

lemma disk_remove:
  "disk_ok d \<Longrightarrow> no_live n d \<Longrightarrow> disk_ok (remove_content b n d) \<and> no_live n (remove_content b n d)"
  "disk_ok d \<Longrightarrow> no_live n d \<Longrightarrow> disk_ok (remove_policy b n d) \<and> no_live n (remove_policy b n d)"
  "disk_ok d \<Longrightarrow> disk_ok (removeMeta b i d)"
  by (auto simp: disk_ok_def no_live_def artifacts_def remove_content_def remove_policy_def removeMeta_def)

lemma disk_write:
  "disk_ok d \<Longrightarrow> dk_meta d (md_ID md) = None \<or> (\<exists>old. dk_meta d (md_ID md) = Some old \<and> md_Name old = md_Name md) \<Longrightarrow>
   \<forall>i a. dk_meta d i = Some a \<and> md_Name a = md_Name md \<longrightarrow> i = md_ID md \<Longrightarrow>
   (live (md_State md) \<Longrightarrow> artifacts d (md_Name md)) \<Longrightarrow> disk_ok (writeMeta b md d)"
  by (auto simp: disk_ok_def artifacts_def writeMeta_def)

lemma disk_grow:
  "disk_ok d \<Longrightarrow> disk_ok (init_content fresh n d)" "disk_ok d \<Longrightarrow> disk_ok (seed_policy n owner d)"
  by (auto simp: disk_ok_def artifacts_def init_content_def seed_policy_def)

lemma meta_frame [simp]:
  "dk_meta (init_content fresh n d) = dk_meta d" "dk_meta (seed_policy n owner d) = dk_meta d"
  "dk_meta (remove_content b n d) = dk_meta d" "dk_meta (remove_policy b n d) = dk_meta d"
  "dk_meta (move_content n k d) = dk_meta d" "dk_meta (move_policy n k d) = dk_meta d"
  by (simp_all add: init_content_def seed_policy_def remove_content_def remove_policy_def move_content_def move_policy_def)

lemma no_live_meta: "dk_meta d' = dk_meta d \<Longrightarrow> no_live n d' = no_live n d"
  by (simp add: no_live_def)

lemma load_fold:
  fixes xs m0
  defines "m' \<equiv> fold (\<lambda>md m. m\<lparr>rm_byID := (rm_byID m)(md_ID md \<mapsto> md), rm_byName := (rm_byName m)(md_Name md \<mapsto> md)\<rparr>) xs m0"
  shows "(rm_byName m' n = Some md \<longrightarrow> (md \<in> set xs \<and> md_Name md = n) \<or> rm_byName m0 n = Some md)
    \<and> (md \<in> set xs \<and> md_Name md = n \<longrightarrow> (\<exists>md'. rm_byName m' n = Some md' \<and> md' \<in> set xs \<and> md_Name md' = n))"
  unfolding m'_def
proof (induction xs rule: rev_induct)
  case (snoc x xs)
  then show ?case by auto
qed simp

lemma load_ok:
  assumes "mgr_ok m d" "load scan d m = Some m'" "\<forall>d metas. scan d = Some metas \<longrightarrow> set metas = ran (dk_meta d)"
  shows "mem_ok m' d" "rm_loaded m'"
proof -
  show "rm_loaded m'" using assms(2) by (auto simp: load_def load_records_def split: if_splits)
  show "mem_ok m' d"
  proof (cases "rm_loaded m")
    case True
    with assms(1,2) show ?thesis by (simp add: load_def mgr_ok_def)
  next
    case False
    then obtain metas where metas: "scan d = Some metas" "m' = load_records metas NewManager"
      using assms(1,2) by (auto simp: load_def mgr_ok_def)
    have set: "set metas = ran (dk_meta d)" using assms(3) metas(1) by blast
    have ok: "disk_ok d" using assms(1) by (simp add: mgr_ok_def)
    have uniq: "a = b" if "a \<in> set metas" "b \<in> set metas" "md_Name a = md_Name b" for a b
      using ok that unfolding set ran_def disk_ok_def by (smt (verit) mem_Collect_eq option.inject)
    have "rm_byName m' n = Some md \<longleftrightarrow> md \<in> set metas \<and> md_Name md = n" for n md
      using load_fold [of metas NewManager n md] uniq unfolding metas(2) load_records_def by (auto simp: NewManager_def)
    moreover have "md \<in> set metas \<longleftrightarrow> dk_meta d (md_ID md) = Some md" for md
      using ok unfolding set ran_def disk_ok_def by auto
    ultimately show ?thesis by (auto simp: mem_ok_def)
  qed
qed


text \<open>Removing a tombstone leaves the manager in order at every step and touches no other name.\<close>

definition same_others :: "string set \<Rightarrow> rdisk \<Rightarrow> rdisk \<Rightarrow> bool" where
  "same_others N d d' \<longleftrightarrow> (\<forall>n. n \<notin> N \<longrightarrow> dk_content d' n = dk_content d n \<and> dk_policy d' n = dk_policy d n)
     \<and> (\<forall>i md. md_Name md \<notin> N \<longrightarrow> dk_meta d' i = Some md \<longleftrightarrow> dk_meta d i = Some md)"

lemma mem_drop:
  assumes "mem_ok m d" "disk_ok d" "rm_byName m n = Some md" "dk_meta d' = (dk_meta d)(md_ID md := None)"
  shows "mem_ok (drop_md md m) d'" "\<forall>i a. dk_meta d' i = Some a \<longrightarrow> md_Name a \<noteq> n"
proof -
  have md: "md_Name md = n" "dk_meta d (md_ID md) = Some md" using assms(1,3) by (auto simp: mem_ok_def)
  have uniq: "i = md_ID md" if "dk_meta d i = Some a" "md_Name a = n" for i a
    using disk_uniq [OF assms(2) that(1) md(2)] md(1) that(2) by simp
  then show gone: "\<forall>i a. dk_meta d' i = Some a \<longrightarrow> md_Name a \<noteq> n" using assms(4) by auto
  have "rm_byName (drop_md md m) k = Some a \<longleftrightarrow> md_Name a = k \<and> dk_meta d' (md_ID a) = Some a" for k a
  proof (cases "k = n")
    case True
    with gone md(1) show ?thesis by (auto simp: drop_md_def)
  next
    case False
    then have "rm_byName (drop_md md m) k = Some a \<longleftrightarrow> md_Name a = k \<and> dk_meta d (md_ID a) = Some a"
      using assms(1) md(1) unfolding mem_ok_def drop_md_def by simp
    with False md assms(4) show ?thesis by auto
  qed
  then show "mem_ok (drop_md md m) d'" by (simp add: mem_ok_def)
qed

lemma purge_ok:
  assumes "mem_ok m (last tr)" "rm_byName m n = Some md" "\<not> live (md_State md)" "\<forall>d \<in> set tr. disk_ok d" "tr \<noteq> []"
    and "ok (k + 2)" "purge ok k md (m, tr) = (m', tr')"
  shows "mem_ok m' (last tr')" "\<forall>d \<in> set tr'. disk_ok d" "tr' \<noteq> []" "rm_loaded m' = rm_loaded m"
    "\<forall>i a. dk_meta (last tr') i = Some a \<longrightarrow> md_Name a \<noteq> n" "dk_meta (last tr') = (dk_meta (last tr))(md_ID md := None)"
proof -
  have ok: "disk_ok (last tr)" using assms(4,5) by simp
  have md: "md_Name md = n" "dk_meta (last tr) (md_ID md) = Some md" using assms(1,2) by (auto simp: mem_ok_def)
  have "no_live n (last tr)" unfolding no_live_def
    using disk_uniq [OF ok _ md(2)] md(1) assms(3) by metis
  note d1 = disk_remove(1) [OF ok this, of "ok k"]
  note d2 = disk_remove(2) [OF conjunct1 [OF d1] conjunct2 [OF d1], of "ok (k + 1)"]
  let ?d2 = "remove_policy (ok (k + 1)) n (remove_content (ok k) n (last tr))"
  have p: "m' = drop_md md m" "tr' = tr @ [remove_content (ok k) n (last tr), ?d2, removeMeta True (md_ID md) ?d2]"
    using assms(6,7) md(1) by (simp_all add: purge_def Let_def)
  show meta: "dk_meta (last tr') = (dk_meta (last tr))(md_ID md := None)" by (simp add: p(2) removeMeta_def)
  show "mem_ok m' (last tr')" "\<forall>i a. dk_meta (last tr') i = Some a \<longrightarrow> md_Name a \<noteq> n"
    using mem_drop [OF assms(1) ok assms(2) meta] by (simp_all add: p(1))
  show "\<forall>d \<in> set tr'. disk_ok d" using assms(4) d1 d2 disk_remove(3) by (auto simp: p(2))
  show "tr' \<noteq> []" "rm_loaded m' = rm_loaded m" by (simp_all add: p drop_md_def)
qed

lemma mem_put:
  assumes "mem_ok m d" "\<forall>i a. dk_meta d i = Some a \<and> md_Name a = md_Name md \<longrightarrow> i = md_ID md"
    and "dk_meta d (md_ID md) = None \<or> (\<exists>old. dk_meta d (md_ID md) = Some old \<and> md_Name old = md_Name md)"
    and "dk_meta d' = (dk_meta d)(md_ID md \<mapsto> md)"
  shows "mem_ok (put_md md m) d'"
proof -
  have "rm_byName (put_md md m) k = Some a \<longleftrightarrow> md_Name a = k \<and> dk_meta d' (md_ID a) = Some a" for k a
  proof (cases "k = md_Name md")
    case True
    with assms(2,4) show ?thesis by (auto simp: put_md_def split: if_splits)
  next
    case False
    with assms show ?thesis by (auto simp: put_md_def mem_ok_def)
  qed
  then show ?thesis by (simp add: mem_ok_def)
qed


lemma rollback_ok:
  assumes "mem_ok m (last tr)" "rm_byName m (md_Name md) = Some md0" "md_ID md0 = md_ID md" "\<not> live (md_State md0)"
    and "\<forall>d \<in> set tr. disk_ok d" "tr \<noteq> []" "ok (k + 2)" "rollback ok k md c p (m, tr) = (m', tr')"
  shows "mem_ok m' (last tr')" "\<forall>d \<in> set tr'. disk_ok d" "tr' \<noteq> []" "rm_loaded m' = rm_loaded m"
proof -
  let ?n = "md_Name md"
  have ok: "disk_ok (last tr)" using assms(5,6) by simp
  have md: "md_Name md0 = ?n" "dk_meta (last tr) (md_ID md) = Some md0" using assms(1-3) by (auto simp: mem_ok_def)
  have nl: "no_live ?n (last tr)" unfolding no_live_def using disk_uniq [OF ok _ md(2)] md(1) assms(4) by metis
  let ?d1 = "if p then remove_policy (ok k) ?n (last tr) else last tr"
  let ?d2 = "if c then remove_content (ok (k + 1)) ?n ?d1 else ?d1"
  have d1: "disk_ok ?d1 \<and> no_live ?n ?d1" using disk_remove(2) [OF ok nl] ok nl by simp
  have d2: "disk_ok ?d2" using disk_remove(1) [OF conjunct1 [OF d1] conjunct2 [OF d1]] d1 by simp
  have p: "m' = drop_md md m" "tr' = tr @ [?d1, ?d2, removeMeta True (md_ID md) ?d2]"
    using assms(7,8) by (simp_all add: rollback_def Let_def)
  have meta: "dk_meta (last tr') = (dk_meta (last tr))(md_ID md0 := None)" by (simp add: p(2) removeMeta_def assms(3))
  have "drop_md md m = drop_md md0 m" using md(1) assms(3) by (simp add: drop_md_def)
  then show "mem_ok m' (last tr')" using mem_drop(1) [OF assms(1) ok assms(2) meta] by (simp add: p(1))
  show "\<forall>d \<in> set tr'. disk_ok d" using assms(5) d1 d2 disk_remove(3) [OF d2] unfolding p(2) by auto
  show "tr' \<noteq> []" "rm_loaded m' = rm_loaded m" by (simp_all add: p drop_md_def)
qed

text \<open>What an operation keeps: every disk it passes is in order, and at its end the maps are the disk.\<close>

definition kept :: "Manager \<times> rdisk list \<times> 'r \<Rightarrow> bool" where
  "kept s = (case s of (m, tr, r) \<Rightarrow> tr \<noteq> [] \<and> (\<forall>d \<in> set tr. disk_ok d) \<and> rm_loaded m \<and> mem_ok m (last tr))"

lemma create_steps_ok:
  assumes "mem_ok m (last tr)" "rm_loaded m" "\<forall>d \<in> set tr. disk_ok d" "tr \<noteq> []"
    and "\<forall>i a. dk_meta (last tr) i = Some a \<longrightarrow> md_Name a \<noteq> md_Name md" "dk_meta (last tr) (md_ID md) = None"
    and "md_State md = StateCreating" "ok 12"
  shows "kept (create_steps ok fresh now md (m, tr))"
proof -
  let ?n = "md_Name md" and ?d1 = "writeMeta True md (last tr)"
  let ?d2 = "init_content fresh ?n ?d1" let ?d3 = "seed_policy ?n (md_Owner md) ?d2"
  let ?md' = "md\<lparr>md_State := StateActive, md_UpdatedAt := now\<rparr>"
  have ok: "disk_ok (last tr)" using assms(3,4) by simp
  have meta1: "dk_meta ?d1 = (dk_meta (last tr))(md_ID md \<mapsto> md)" by (simp add: writeMeta_def)
  have uniq1: "\<forall>i a. dk_meta ?d1 i = Some a \<and> md_Name a = ?n \<longrightarrow> i = md_ID md" using assms(5) by (auto simp: meta1)
  have d1: "disk_ok ?d1" using assms(5-7) by (intro disk_write ok) (auto simp: live_def)
  have d2: "disk_ok ?d2" and d3: "disk_ok ?d3" using d1 disk_grow by auto
  have m1: "mem_ok (put_md md m) ?d1" using assms(5,6) by (intro mem_put [OF assms(1)] meta1) auto
  have name1: "rm_byName (put_md md m) ?n = Some md" by (simp add: put_md_def)
  have same: "mem_ok (put_md md m) d' = mem_ok (put_md md m) ?d1" if "dk_meta d' = dk_meta ?d1" for d'
    using that by (simp add: mem_ok_def)
  have dead: "\<not> live (md_State md)" using assms(7) by (simp add: live_def)
  have l1: "rm_loaded (put_md md m)" using assms(2) by (simp add: put_md_def)
  have undone: "kept (case rollback ok 10 x c p (mm, tr @ xs) of (m2, tr2) \<Rightarrow> (m2, tr2, Inl e))"
    if "mm = put_md md m \<and> x = md \<or> mm = put_md ?md' (put_md md m) \<and> x = ?md'"
       "xs \<noteq> []" "\<forall>d \<in> set xs. disk_ok d" "dk_meta (last xs) = dk_meta ?d1" for mm x c p xs and e :: rm_error
  proof -
    have "drop_md ?md' (put_md ?md' (put_md md m)) = drop_md md (put_md md m)" by (simp add: drop_md_def put_md_def)
    then have eq: "rollback ok 10 x c p (mm, tr @ xs) = rollback ok 10 md c p (put_md md m, tr @ xs)"
      using that(1) by (auto simp: rollback_def Let_def)
    obtain m2 tr2 where r: "rollback ok 10 md c p (put_md md m, tr @ xs) = (m2, tr2)" by fastforce
    have "last (tr @ xs) = last xs" using that(2) by simp
    then have mem: "mem_ok (put_md md m) (last (tr @ xs))" using same [OF that(4)] m1 by (simp only:)
    have all: "\<forall>d \<in> set (tr @ xs). disk_ok d" "tr @ xs \<noteq> []" "ok (10 + 2)" using that(2,3) assms(3,8) by auto
    show ?thesis using rollback_ok [OF mem name1 refl dead all r] l1 unfolding kept_def eq r by simp
  qed
  consider "\<not> ok 0" | "ok 0" "\<not> ok 1" | "ok 0" "ok 1" "\<not> ok 3" | "ok 0" "ok 1" "ok 3" "\<not> ok 4" | "ok 0" "ok 1" "ok 3" "ok 4" by blast
  then show ?thesis
  proof cases
    case 1
    with assms show ?thesis by (simp add: create_steps_def kept_def Let_def)
  next
    case 2
    let ?xs = "[?d1, if ok 2 then ?d2 else ?d1]"
    have "kept (case rollback ok 10 md False False (put_md md m, tr @ ?xs) of (m2, tr2) \<Rightarrow> (m2, tr2, Inl ErrDisk))"
      by (rule undone) (use d1 d2 in auto)
    with 2 show ?thesis by (simp add: create_steps_def Let_def)
  next
    case 3
    have "kept (case rollback ok 10 md True False (put_md md m, tr @ [?d1, ?d2]) of (m2, tr2) \<Rightarrow> (m2, tr2, Inl ErrDisk))"
      by (rule undone) (use d1 d2 in auto)
    with 3 show ?thesis by (simp add: create_steps_def Let_def)
  next
    case 4
    have "kept (case rollback ok 10 ?md' True True (put_md ?md' (put_md md m), tr @ [?d1, ?d2, ?d3]) of (m2, tr2) \<Rightarrow> (m2, tr2, Inl ErrDisk))"
      by (rule undone) (use d1 d2 d3 in auto)
    with 4 show ?thesis by (simp add: create_steps_def Let_def)
  next
    case 5
    let ?d4 = "writeMeta True ?md' ?d3"
    have art: "artifacts ?d3 ?n" by (auto simp: artifacts_def init_content_def seed_policy_def)
    have meta3: "dk_meta ?d3 = dk_meta ?d1" by simp
    have old: "dk_meta ?d3 (md_ID ?md') = Some md \<and> md_Name md = md_Name ?md'" unfolding meta3 meta1 by simp
    have uniq3: "\<forall>i a. dk_meta ?d3 i = Some a \<and> md_Name a = md_Name ?md' \<longrightarrow> i = md_ID ?md'"
      using uniq1 unfolding meta3 by simp
    have d4: "disk_ok ?d4"
    proof (rule disk_write [OF d3 _ uniq3])
      show "artifacts ?d3 (md_Name ?md')" using art by simp
    qed (use old in blast)
    have m3: "mem_ok (put_md md m) ?d3" using same [OF meta3] m1 by (simp only:)
    have "mem_ok (put_md ?md' (put_md md m)) ?d4"
    proof (rule mem_put [OF m3 uniq3])
      show "dk_meta ?d4 = (dk_meta ?d3)(md_ID ?md' \<mapsto> ?md')" unfolding writeMeta_def by simp
    qed (use old in blast)
    moreover have "create_steps ok fresh now md (m, tr) = (put_md ?md' (put_md md m), tr @ [?d1, ?d2, ?d3, ?d4], Inr ?md')"
      using 5 unfolding create_steps_def Let_def by simp
    moreover have "\<forall>d \<in> set (tr @ [?d1, ?d2, ?d3, ?d4]). disk_ok d" using assms(3) d1 d2 d3 d4 by (auto simp only: set_append list.set Un_iff insert_iff empty_iff)
    moreover have "rm_loaded (put_md ?md' (put_md md m))" using assms(2) unfolding put_md_def by simp
    ultimately show ?thesis unfolding kept_def by simp
  qed
qed

text \<open>What an operation of a server keeps: all disks it passes, and the manager at its end.\<close>

definition mgr_kept :: "Manager \<times> rdisk list \<times> 'r \<Rightarrow> bool" where
  "mgr_kept s = (case s of (m, tr, r) \<Rightarrow> tr \<noteq> [] \<and> (\<forall>d \<in> set tr. disk_ok d) \<and> mgr_ok m (last tr))"

lemma kept_mgr: "kept s \<Longrightarrow> mgr_kept s"
  by (auto simp: kept_def mgr_kept_def mgr_ok_def)

lemma unchanged_kept: "disk_ok d \<Longrightarrow> mem_ok m d \<Longrightarrow> rm_loaded m \<Longrightarrow> kept (m, [d], r)"
  by (simp add: kept_def)

lemma mem_none: "mem_ok m d \<Longrightarrow> disk_ok d \<Longrightarrow> rm_byName m n = None \<Longrightarrow> dk_meta d i = Some a \<Longrightarrow> md_Name a \<noteq> n"
  unfolding mem_ok_def disk_ok_def by (metis option.distinct(1))

definition exact_scan :: "(rdisk \<Rightarrow> Metadata list option) \<Rightarrow> bool" where
  "exact_scan scan \<longleftrightarrow> (\<forall>d metas. scan d = Some metas \<longrightarrow> set metas = ran (dk_meta d))"

lemma Create_kept:
  assumes "mgr_ok m0 d" "exact_scan scan" "ok 12" "ok 22" "dk_meta d newID = None"
  shows "mgr_kept (Create ok scan fresh now newID name owner vis desc m0 d)"
proof -
  have id: "mgr_kept (m0, [d], r)" for r :: "rm_error + Metadata" using assms(1) by (simp add: mgr_kept_def mgr_ok_def)
  have ok: "disk_ok d" using assms(1) by (simp add: mgr_ok_def)
  show ?thesis
  proof (cases "load scan d m0")
    case None
    then show ?thesis using id by (simp add: Create_def Let_def)
  next
    case (Some m)
    note l = load_ok [OF assms(1) Some assms(2) [unfolded exact_scan_def]]
    define md where "md v = \<lparr>md_ID = newID, md_Name = name, md_Owner = owner, md_Visibility = v, md_State = StateCreating,
                    md_Description = desc, md_CreatedAt = now, md_UpdatedAt = now\<rparr>" for v
    have mdf: "md_ID (md v) = newID" "md_Name (md v) = name" "md_State (md v) = StateCreating" for v by (simp_all add: md_def)
    have "mgr_kept (case rm_byName m name of None \<Rightarrow> create_steps ok fresh now (md v) (m, [d])
             | Some old \<Rightarrow> if live (md_State old) then (m, [d], Inl ErrExists)
                 else create_steps ok fresh now (md v) (purge ok 20 old (m, [d])))" for v
    proof (cases "rm_byName m name")
      case n: None
      have "kept (create_steps ok fresh now (md v) (m, [d]))"
        using l ok assms(3,5) mem_none [OF l(1) ok n] by (intro create_steps_ok) (simp_all add: mdf)
      then show ?thesis using n kept_mgr by simp
    next
      case (Some old)
      show ?thesis
      proof (cases "live (md_State old)")
        case True
        with Some show ?thesis by (simp add: kept_mgr [OF unchanged_kept [OF ok l]])
      next
        case False
        obtain m' tr' where p: "purge ok 20 old (m, [d]) = (m', tr')" by fastforce
        note q = purge_ok [of m "[d]", simplified, OF l(1) Some False ok _ p, simplified, OF assms(4)]
        have "kept (create_steps ok fresh now (md v) (m', tr'))"
          using q l(2) assms(3,5) by (intro create_steps_ok) (auto simp: mdf)
        then show ?thesis using Some False p kept_mgr by simp
      qed
    qed
    then show ?thesis using id Some unfolding Create_def Let_def md_def by simp
  qed
qed

lemma Delete_kept:
  assumes "mgr_ok m0 d" "exact_scan scan" "ok 0" "ok 22"
  shows "mgr_kept (Delete_repo ok scan now name m0 d)"
proof (cases "load scan d m0")
  case None
  then show ?thesis using assms(1) by (simp add: Delete_repo_def mgr_kept_def mgr_ok_def)
next
  case load: (Some m)
  have ok: "disk_ok d" using assms(1) by (simp add: mgr_ok_def)
  note l = load_ok [OF assms(1) load assms(2) [unfolded exact_scan_def]]
  show ?thesis
  proof (cases "\<exists>md. rm_byName m name = Some md \<and> live (md_State md)")
    case False
    then have "Delete_repo ok scan now name m0 d = (m, [d], Inl ErrNotFound)"
      using load by (auto simp: Delete_repo_def split: option.split)
    then show ?thesis by (simp add: kept_mgr [OF unchanged_kept [OF ok l]])
  next
    case True
    then obtain md where md: "rm_byName m name = Some md" "live (md_State md)" by blast
    let ?md' = "md\<lparr>md_State := StateDeleting, md_UpdatedAt := now\<rparr>" and ?tr = "[d, writeMeta True (md\<lparr>md_State := StateDeleting, md_UpdatedAt := now\<rparr>) d]"
    have rec: "md_Name md = name" "dk_meta d (md_ID md) = Some md" using l(1) md(1) by (auto simp: mem_ok_def)
    have uniq: "\<forall>i a. dk_meta d i = Some a \<and> md_Name a = md_Name ?md' \<longrightarrow> i = md_ID ?md'"
      using disk_uniq [OF ok _ rec(2)] rec(1) by simp
    have old: "dk_meta d (md_ID ?md') = None \<or> (\<exists>old. dk_meta d (md_ID ?md') = Some old \<and> md_Name old = md_Name ?md')"
      using rec by simp
    have d1: "disk_ok (writeMeta True ?md' d)" by (rule disk_write [OF ok old uniq]) (simp add: live_def)
    have m1: "mem_ok (put_md ?md' m) (last ?tr)" using mem_put [OF l(1) uniq old] by (simp add: writeMeta_def)
    obtain m' tr' where p: "purge ok 20 ?md' (put_md ?md' m, ?tr) = (m', tr')" by fastforce
    have byn: "rm_byName (put_md ?md' m) name = Some ?md'" using rec(1) by (simp add: put_md_def)
    have "\<not> live (md_State ?md')" "\<forall>d \<in> set ?tr. disk_ok d" "?tr \<noteq> []" "ok (20 + 2)" using d1 ok assms(4) by (simp_all add: live_def)
    note q = purge_ok [OF m1 byn this p]
    have "rm_loaded m'" using q(4) l(2) by (simp add: put_md_def)
    then have "kept (m', tr', Inr ())" using q by (simp add: kept_def)
    moreover have "Delete_repo ok scan now name m0 d = (m', tr', Inr ())" using load md assms(3) p by (simp add: Delete_repo_def Let_def)
    ultimately show ?thesis using kept_mgr by metis
  qed
qed


lemma rename_steps_ok:
  assumes "mem_ok m (last tr)" "rm_loaded m" "disk_ok (last tr)" "tr \<noteq> []"
    and "rm_byName m old = Some md" "live (md_State md)" "old \<noteq> new"
    and "\<forall>i a. dk_meta (last tr) i = Some a \<longrightarrow> md_Name a \<noteq> new" "ok 2" "ok 3"
    and "rename_steps ok now old new md (m, tr) = (m', tr', r)"
  shows "mgr_ok m' (last tr')"
proof -
  let ?d = "last tr"
  have rec: "md_Name md = old" "dk_meta ?d (md_ID md) = Some md" using assms(1,5) by (auto simp: mem_ok_def)
  have uniq: "i = md_ID md" if "dk_meta ?d i = Some a" "md_Name a = old" for i a
    using disk_uniq [OF assms(3) that(1) rec(2)] rec(1) that(2) by simp
  have same: "mgr_ok m ?d" using assms(1-3) by (simp add: mgr_ok_def)
  consider "\<not> ok 0 \<or> dk_content ?d old = None \<or> dk_content ?d new \<noteq> None"
    | "ok 0 \<and> dk_content ?d old \<noteq> None \<and> dk_content ?d new = None" "\<not> ok 1 \<or> dk_policy ?d old = None"
    | "ok 0 \<and> dk_content ?d old \<noteq> None \<and> dk_content ?d new = None" "ok 1" "dk_policy ?d old \<noteq> None" by (cases "ok 0"; cases "ok 1"; cases "dk_policy ?d old = None"; cases "dk_content ?d old = None"; cases "dk_content ?d new = None"; simp)
  then show ?thesis
  proof cases
    case 1
    then have "m' = m" "tr' = tr" using assms(11) by (auto simp: rename_steps_def Let_def)
    then show ?thesis using same by simp
  next
    case 2
    have undo: "move_content new old (move_content old new ?d) = ?d" using 2(1) assms(7) by (auto simp: move_content_def fun_eq_iff intro!: rdisk.equality)
    have "dk_policy (move_content old new ?d) = dk_policy ?d" by (simp add: move_content_def)
    then have "m' = m" "last tr' = move_content new old (move_content old new ?d)"
      using 2 assms(9,11) by (auto simp: rename_steps_def Let_def)
    then show ?thesis using same undo by simp
  next
    case 3
    let ?d2 = "move_policy old new (move_content old new ?d)" and ?md' = "md\<lparr>md_Name := new, md_UpdatedAt := now\<rparr>"
    let ?m = "put_md ?md' (m\<lparr>rm_byName := (rm_byName m)(old := None)\<rparr>)" and ?d3 = "writeMeta True (md\<lparr>md_Name := new, md_UpdatedAt := now\<rparr>) (move_policy old new (move_content old new (last tr)))"
    have "dk_policy (move_content old new ?d) = dk_policy ?d" by (simp add: move_content_def)
    then have r: "m' = ?m" "last tr' = ?d3" using 3 assms(10,11) by (auto simp: rename_steps_def Let_def)
    have meta: "dk_meta ?d3 = (dk_meta ?d)(md_ID md \<mapsto> ?md')" by (simp add: writeMeta_def)
    have art: "artifacts ?d3 n" if "n = new \<or> n \<noteq> old \<and> artifacts ?d n" for n
      using that 3 assms(7) by (auto simp: artifacts_def writeMeta_def move_policy_def move_content_def)
    have names: "md_Name a \<noteq> old \<and> md_Name a \<noteq> new" if "dk_meta ?d i = Some a" "i \<noteq> md_ID md" for i a
      using uniq that assms(8) by blast
    have dok: "disk_ok ?d3" unfolding disk_ok_def
    proof (intro conjI allI impI)
      fix i a assume "dk_meta ?d3 i = Some a"
      then have i: "i = md_ID md \<and> a = ?md' \<or> i \<noteq> md_ID md \<and> dk_meta ?d i = Some a" unfolding meta by (auto split: if_splits)
      then show "md_ID a = i" using assms(3) by (auto simp: disk_ok_def)
      show "artifacts ?d3 (md_Name a)" if "live (md_State a)"
      proof (rule art)
        show "md_Name a = new \<or> md_Name a \<noteq> old \<and> artifacts ?d (md_Name a)"
          using i that names assms(3) by (auto simp: disk_ok_def)
      qed
    next
      fix i j a b assume "dk_meta ?d3 i = Some a \<and> dk_meta ?d3 j = Some b \<and> md_Name a = md_Name b"
      then have i: "i = md_ID md \<and> md_Name a = new \<or> i \<noteq> md_ID md \<and> dk_meta ?d i = Some a"
        and j: "j = md_ID md \<and> md_Name b = new \<or> j \<noteq> md_ID md \<and> dk_meta ?d j = Some b" and e: "md_Name a = md_Name b"
        unfolding meta by (auto split: if_splits)
      from i show "i = j"
      proof
        assume "i = md_ID md \<and> md_Name a = new"
        then show ?thesis using j e assms(8) by auto
      next
        assume i: "i \<noteq> md_ID md \<and> dk_meta ?d i = Some a"
        then have "md_Name b \<noteq> new" using assms(8) e by auto
        then show ?thesis using j i disk_uniq [OF assms(3), of i a j b] e by blast
      qed
    qed
    have "rm_byName ?m k = Some a \<longleftrightarrow> md_Name a = k \<and> dk_meta ?d3 (md_ID a) = Some a" for k a
    proof (cases "k = new \<or> k = old")
      case True
      then show ?thesis using names assms(7,8) rec unfolding meta by (auto simp: put_md_def)
    next
      case False
      then have "rm_byName ?m k = Some a \<longleftrightarrow> md_Name a = k \<and> dk_meta ?d (md_ID a) = Some a"
        using assms(1) by (simp add: put_md_def mem_ok_def)
      then show ?thesis using False rec unfolding meta by auto
    qed
    then have "mem_ok ?m ?d3" by (simp add: mem_ok_def)
    then show ?thesis unfolding r mgr_ok_def using dok assms(2) by (simp add: put_md_def)
  qed
qed

lemma Rename_kept:
  assumes "mgr_ok m0 d" "exact_scan scan" "ok 2" "ok 3" "ok 22" "Rename ok scan now old new m0 d = (m', tr', r)"
  shows "mgr_ok m' (last tr')"
proof (cases "ValidName new")
  case False
  then have "m' = m0 \<and> tr' = [d]" using assms(6) by (simp add: Rename_def)
  then show ?thesis using assms(1) by simp
next
  case valid: True
  show ?thesis
  proof (cases "load scan d m0")
    case None
    then have "m' = m0 \<and> tr' = [d]" using assms(6) valid by (simp add: Rename_def)
    then show ?thesis using assms(1) by simp
  next
    case load: (Some m)
    have ok: "disk_ok d" using assms(1) by (simp add: mgr_ok_def)
    note l = load_ok [OF assms(1) load assms(2) [unfolded exact_scan_def]]
    have same: "mgr_ok m d" using l ok by (simp add: mgr_ok_def)
    show ?thesis
    proof (cases "rm_byName m old")
      case None
      then have "m' = m \<and> tr' = [d]" using assms(6) valid load by (simp add: Rename_def)
      then show ?thesis using same by simp
    next
      case md: (Some md)
      show ?thesis
      proof (cases "live (md_State md) \<and> old \<noteq> new")
        case False
        then have "m' = m \<and> tr' = [d]" using assms(6) valid load md by (cases "live (md_State md)") (simp_all add: Rename_def)
        then show ?thesis using same by simp
      next
        case go: True
        show ?thesis
        proof (cases "rm_byName m new")
          case None
          have steps: "rename_steps ok now old new md (m, [d]) = (m', tr', r)" using assms(6) load valid go md None by (simp add: Rename_def)
          have free: "\<forall>i a. dk_meta (last [d]) i = Some a \<longrightarrow> md_Name a \<noteq> new" using mem_none [OF l(1) ok None] by simp
          show ?thesis using rename_steps_ok [OF _ l(2) _ _ md _ _ free assms(3,4) steps] l(1) ok go by simp
        next
          case other: (Some other)
          show ?thesis
          proof (cases "live (md_State other)")
            case True
            then have "m' = m \<and> tr' = [d]" using assms(6) valid load md go other by (simp add: Rename_def)
            then show ?thesis using same by simp
          next
            case dead: False
            obtain m1 tr1 where p: "purge ok 20 other (m, [d]) = (m1, tr1)" by fastforce
            note q = purge_ok [of m "[d]", simplified, OF l(1) other dead ok _ p, simplified, OF assms(5)]
            have steps: "rename_steps ok now old new md (m1, tr1) = (m', tr', r)" using assms(6) load valid go md other dead p by (simp add: Rename_def)
            have "md_Name other = new" using l(1) other by (simp add: mem_ok_def)
            moreover have "m1 = drop_md other m" using p by (simp add: purge_def Let_def)
            ultimately have md1: "rm_byName m1 old = Some md" using md go by (simp add: drop_md_def)
            have "disk_ok (last tr1)" using q(2,3) by simp
            then show ?thesis
              using rename_steps_ok [OF q(1) _ _ q(3) md1 _ _ q(5) assms(3,4) steps] q(4) l(2) go by simp
          qed
        qed
      qed
    qed
  qed
qed

section \<open>Every reachable server\<close>

text \<open>The life of a server that starts on an empty disk: operations, and crashes inside \<^verbatim>\<open>Create\<close> and \<^verbatim>\<open>Delete\<close> after any of their
  steps, with a restart. The steps that must not fail are the removal of a metadata record, the tombstone of \<^verbatim>\<open>Delete\<close>, and
  the revert and the metadata record of \<^verbatim>\<open>Rename\<close>; identifiers are new.\<close>

datatype rm_op =
    OpCreate nat nat string string string string string
  | OpDelete nat string
  | OpRename nat string string

fun run_op :: "(nat \<Rightarrow> bool) \<Rightarrow> (rdisk \<Rightarrow> Metadata list option) \<Rightarrow> rm_op \<Rightarrow> Manager \<Rightarrow> rdisk \<Rightarrow> Manager \<times> rdisk list" where
  "run_op ok scan (OpCreate fresh now newID name owner vis desc) m d = (case Create ok scan fresh now newID name owner vis desc m d of (m', tr, r) \<Rightarrow> (m', tr))"
| "run_op ok scan (OpDelete now name) m d = (case Delete_repo ok scan now name m d of (m', tr, r) \<Rightarrow> (m', tr))"
| "run_op ok scan (OpRename now old new) m d = (case Rename ok scan now old new m d of (m', tr, r) \<Rightarrow> (m', tr))"

fun op_sure :: "(nat \<Rightarrow> bool) \<Rightarrow> rdisk \<Rightarrow> rm_op \<Rightarrow> bool" where
  "op_sure ok d (OpCreate fresh now newID name owner vis desc) \<longleftrightarrow> ok 12 \<and> ok 22 \<and> dk_meta d newID = None"
| "op_sure ok d (OpDelete now name) \<longleftrightarrow> ok 0 \<and> ok 22"
| "op_sure ok d (OpRename now old new) \<longleftrightarrow> ok 2 \<and> ok 3 \<and> ok 22"

fun crash_safe :: "rm_op \<Rightarrow> bool" where
  "crash_safe (OpRename now old new) = False"
| "crash_safe _ = True"

definition empty_disk :: rdisk where
  "empty_disk = \<lparr>dk_meta = Map.empty, dk_content = Map.empty, dk_policy = Map.empty\<rparr>"

inductive repo_reach :: "(rdisk \<Rightarrow> Metadata list option) \<Rightarrow> Manager \<Rightarrow> rdisk \<Rightarrow> bool" for scan where
  rr_start: "repo_reach scan NewManager empty_disk"
| rr_run: "repo_reach scan m d \<Longrightarrow> op_sure ok d opr \<Longrightarrow> run_op ok scan opr m d = (m', tr) \<Longrightarrow> repo_reach scan m' (last tr)"
| rr_crash: "repo_reach scan m d \<Longrightarrow> op_sure ok d opr \<Longrightarrow> crash_safe opr \<Longrightarrow> run_op ok scan opr m d = (m', tr) \<Longrightarrow> x \<in> set tr \<Longrightarrow>
    repo_reach scan NewManager x"

lemma new_ok: "disk_ok d \<Longrightarrow> mgr_ok NewManager d"
  by (simp add: mgr_ok_def NewManager_def)

lemma run_op_kept:
  assumes "mgr_ok m d" "exact_scan scan" "op_sure ok d opr" "run_op ok scan opr m d = (m', tr)"
  shows "mgr_ok m' (last tr)" "crash_safe opr \<Longrightarrow> x \<in> set tr \<Longrightarrow> mgr_ok NewManager x"
proof -
  have "mgr_ok m' (last tr) \<and> (crash_safe opr \<longrightarrow> (\<forall>x \<in> set tr. disk_ok x))"
  proof (cases opr)
    case (OpCreate fresh now newID name owner vis desc)
    obtain r where "Create ok scan fresh now newID name owner vis desc m d = (m', tr, r)"
      using assms(4) unfolding OpCreate run_op.simps by (auto split: prod.splits)
    moreover have "mgr_kept (Create ok scan fresh now newID name owner vis desc m d)"
      using assms(3) unfolding OpCreate by (intro Create_kept [OF assms(1,2)]) simp_all
    ultimately show ?thesis unfolding mgr_kept_def by simp
  next
    case (OpDelete now name)
    obtain r where "Delete_repo ok scan now name m d = (m', tr, r)"
      using assms(4) unfolding OpDelete run_op.simps by (auto split: prod.splits)
    moreover have "mgr_kept (Delete_repo ok scan now name m d)"
      using assms(3) unfolding OpDelete by (intro Delete_kept [OF assms(1,2)]) simp_all
    ultimately show ?thesis unfolding mgr_kept_def by simp
  next
    case (OpRename now old new)
    obtain r where r: "Rename ok scan now old new m d = (m', tr, r)"
      using assms(4) unfolding OpRename run_op.simps by (auto split: prod.splits)
    have "mgr_ok m' (last tr)"
      using assms(3) unfolding OpRename by (intro Rename_kept [OF assms(1,2) _ _ _ r]) simp_all
    then show ?thesis unfolding OpRename by simp
  qed
  then show "mgr_ok m' (last tr)" "crash_safe opr \<Longrightarrow> x \<in> set tr \<Longrightarrow> mgr_ok NewManager x" using new_ok by auto
qed

lemma reach_ok:
  assumes "repo_reach scan m d" "exact_scan scan"
  shows "mgr_ok m d"
  using assms(1)
proof induction
  case rr_start
  show ?case by (rule new_ok) (simp add: disk_ok_def empty_disk_def)
next
  case (rr_run m d ok opr m' tr)
  show ?case by (rule run_op_kept(1) [OF rr_run(4) assms(2) rr_run(2,3)])
next
  case (rr_crash m d ok opr m' tr x)
  show ?case by (rule run_op_kept(2) [OF rr_crash(6) assms(2) rr_crash(2,4,3,5)])
qed


text \<open>C35. On every server that is reachable by creating, deleting and renaming repositories, with crashes inside creations
  and deletions, the data plane serves only repositories whose content and policy are on the disk and whose metadata record
  there says active: a creation or deletion that stopped half way is never served.\<close>

theorem servable_has_artifacts:
  assumes "exact_scan scan" "repo_reach scan m d" "Servable scan name m d"
  shows "artifacts d name \<and> (\<exists>md. dk_meta d (md_ID md) = Some md \<and> md_Name md = name \<and> md_State md = StateActive)"
proof -
  have ok: "mgr_ok m d" using reach_ok assms(1,2) by blast
  obtain m' md where m': "load scan d m = Some m'" "rm_byName m' name = Some md" "md_State md = StateActive"
    using assms(3) by (auto simp: Servable_def split: option.splits)
  have "mem_ok m' d" using load_ok(1) [OF ok m'(1)] assms(1) by (simp add: exact_scan_def)
  then have md: "md_Name md = name" "dk_meta d (md_ID md) = Some md" using m'(2) by (auto simp: mem_ok_def)
  moreover have "artifacts d (md_Name md)" using ok md(2) m'(3) by (auto simp: mgr_ok_def disk_ok_def live_def)
  ultimately show ?thesis using m'(3) by auto
qed

text \<open>A server whose directory lists the one record it has: it creates the repository \<open>a\<close> for \<open>ann\<close>.\<close>

definition one_md :: "RepoState \<Rightarrow> Metadata" where
  "one_md s = \<lparr>md_ID = ''repo_1'', md_Name = ''a'', md_Owner = ''ann'', md_Visibility = ''private'', md_State = s,
     md_Description = '''', md_CreatedAt = 5, md_UpdatedAt = 5\<rparr>"

definition scan_one :: "rdisk \<Rightarrow> Metadata list option" where
  "scan_one d =
     (if dom (dk_meta d) \<subseteq> {''repo_1''} then Some (case dk_meta d ''repo_1'' of None \<Rightarrow> [] | Some md \<Rightarrow> [md]) else None)"

lemma scan_one_exact: "exact_scan scan_one"
proof -
  have "set metas = ran (dk_meta d)" if "scan_one d = Some metas" for d metas
  proof -
    have sub: "dom (dk_meta d) \<subseteq> {''repo_1''}" using that by (auto simp: scan_one_def split: if_splits)
    have "x \<in> ran (dk_meta d) \<longleftrightarrow> dk_meta d ''repo_1'' = Some x" for x using sub by (auto simp: ran_def dom_def)
    moreover have "x \<in> set metas \<longleftrightarrow> dk_meta d ''repo_1'' = Some x" for x
      using that sub by (auto simp: scan_one_def split: option.splits)
    ultimately show ?thesis by blast
  qed
  then show ?thesis unfolding exact_scan_def by blast
qed

lemma valid_a: "ValidName ''a''" "ValidName ''b''"
  by (simp_all add: ValidName_def name_char_def HasPrefix_def)

definition one_disk :: rdisk where
  "one_disk = \<lparr>dk_meta = [''repo_1'' \<mapsto> one_md StateActive], dk_content = [''a'' \<mapsto> 1], dk_policy = [''a'' \<mapsto> [(''ann'', ownerCaps)]]\<rparr>"

lemma create_one:
  "Create (\<lambda>_. True) scan_one 1 5 ''repo_1'' ''a'' ''ann'' '''' '''' NewManager empty_disk =
     (m, tr, r) \<Longrightarrow> last tr = one_disk \<and> rm_byName m ''a'' = Some (one_md StateActive) \<and> rm_loaded m \<and> r = Inr (one_md StateActive)"
  by (auto simp: Create_def valid_a VisibilityPrivate_def valid_visibility_def load_def NewManager_def scan_one_def
      empty_disk_def load_records_def create_steps_def Let_def writeMeta_def init_content_def seed_policy_def put_md_def one_disk_def one_md_def)


theorem servable_has_artifacts_witness:
  "\<exists>m. repo_reach scan_one m one_disk \<and> Servable scan_one ''a'' m one_disk \<and> artifacts one_disk ''a''"
proof -
  obtain m tr r where c: "Create (\<lambda>_. True) scan_one 1 5 ''repo_1'' ''a'' ''ann'' '''' '''' NewManager empty_disk = (m, tr, r)"
    by (metis prod_cases3)
  note one = create_one [OF c]
  have run: "run_op (\<lambda>_. True) scan_one (OpCreate 1 5 ''repo_1'' ''a'' ''ann'' '''' '''') NewManager empty_disk = (m, tr)" unfolding run_op.simps c by simp
  have sure: "op_sure (\<lambda>_. True) empty_disk (OpCreate 1 5 ''repo_1'' ''a'' ''ann'' '''' '''')" by (simp add: empty_disk_def)
  have reach: "repo_reach scan_one m one_disk" using rr_run [OF rr_start sure run] one by simp
  have serv: "Servable scan_one ''a'' m one_disk" using one by (simp add: Servable_def load_def one_md_def)
  from servable_has_artifacts [OF scan_one_exact reach serv] reach serv show ?thesis by blast
qed

text \<open>\<^verbatim>\<open>Rename\<close> is not among the operations a crash may stop: it moves the content before the record. After a crash between
  the two, the server comes back with a repository that is active under a name that has no content and no policy.\<close>

lemma rename_crash_serves_nothing:
  "\<exists>d \<in> set (fst (snd (Rename (\<lambda>_. True) scan_one 6 ''a'' ''b'' NewManager one_disk))).
     Servable scan_one ''a'' NewManager d \<and> dk_content d ''a'' = None \<and> dk_policy d ''a'' = None"
  by (simp add: Rename_def valid_a load_def NewManager_def scan_one_def one_disk_def load_records_def one_md_def live_def
      rename_steps_def Let_def move_content_def move_policy_def Servable_def writeMeta_def)

text \<open>A \<^verbatim>\<open>Delete\<close> whose tombstone cannot be written reports the failure, but the record in memory already says deleting:
  the next creation of the name by anybody purges the repository that was not deleted.\<close>

lemma failed_delete_then_create:
  "(case Delete_repo (\<lambda>k. k \<noteq> 0) scan_one 6 ''a'' NewManager one_disk of (m, tr, r) \<Rightarrow>
      r = Inl ErrDisk \<and> tr = [one_disk]
      \<and> (case Create (\<lambda>_. True) scan_one 2 7 ''repo_2'' ''a'' ''bob'' '''' '''' m one_disk of (m', tr', r') \<Rightarrow>
           dk_content (last tr') ''a'' = Some 2 \<and> dk_policy (last tr') ''a'' = Some [(''bob'', ownerCaps)]))"
  by (simp add: Delete_repo_def load_def NewManager_def scan_one_def one_disk_def load_records_def one_md_def live_def Let_def put_md_def
      Create_def valid_a VisibilityPrivate_def valid_visibility_def purge_def remove_content_def remove_policy_def
      removeMeta_def drop_md_def create_steps_def writeMeta_def init_content_def seed_policy_def)

end
