(* ===== verification/Tree_Files.thy ===== *)
theory Tree_Files
  imports Enumerate_Objects "HOL-Library.List_Lexorder" "HOL-Library.Char_ord"
begin

text \<open>
  \<^verbatim>\<open>pkg/diff/diff.go\<close>: the files under a tree object and the difference of two trees. A Go map from
  paths to blobs is a HOL map; \<open>ord\<close> is the unspecified order in which its keys are visited. Tree objects
  are read from the store one by one and nothing in the code stops a cycle, so the recursion carries fuel:
  \<open>None\<close> is a descent deeper than the fuel, and \<open>collectFiles_total\<close> shows that fuel above the depth of
  the tree is enough.
\<close>

section \<open>Files of a tree\<close>

type_synonym file_map = "string \<rightharpoonup> ObjectID"

fun collectFiles :: "nat \<Rightarrow> reader \<Rightarrow> ObjectID \<Rightarrow> string \<Rightarrow> file_map \<Rightarrow> (file_map \<times> verr option) option"
and collect_entries :: "nat \<Rightarrow> reader \<Rightarrow> TreeEntry list \<Rightarrow> string \<Rightarrow> file_map \<Rightarrow> (file_map \<times> verr option) option"
where
  "collectFiles 0 rd t prefix m = None"
| "collectFiles (Suc n) rd t prefix m =
     (case readTree rd t of
        Inl e \<Rightarrow> Some (m, Some e)
      | Inr es \<Rightarrow> collect_entries n rd es prefix m)"
| "collect_entries n rd [] prefix m = Some (m, None)"
| "collect_entries n rd (e # es) prefix m =
     (let p = prefix @ te_Name e in
      if te_Mode e = modeSubtree then
        (case collectFiles n rd (te_Hash e) (p @ ''/'') m of
           None \<Rightarrow> None
         | Some (m', Some err) \<Rightarrow> Some (m', Some err)
         | Some (m', None) \<Rightarrow> collect_entries n rd es prefix m')
      else collect_entries n rd es prefix (m(p \<mapsto> te_Hash e)))"

section \<open>Differences of two trees\<close>

datatype ChangeType = Added | Deleted | Modified

record FileDiff =
  fd_Type :: ChangeType
  OldPath :: string
  NewPath :: string
  OldBlob :: ObjectID
  NewBlob :: ObjectID

definition FileDiff_Path :: "FileDiff \<Rightarrow> string" where
  "FileDiff_Path f = (if NewPath f \<noteq> [] then NewPath f else OldPath f)"

definition old_diff :: "file_map \<Rightarrow> file_map \<Rightarrow> string \<Rightarrow> FileDiff list" where
  "old_diff oldFiles newFiles p =
     (case (oldFiles p, newFiles p) of
        (Some ob, None) \<Rightarrow> [\<lparr>fd_Type = Deleted, OldPath = p, NewPath = [], OldBlob = ob, NewBlob = 0\<rparr>]
      | (Some ob, Some nb) \<Rightarrow>
          if ob \<noteq> nb then [\<lparr>fd_Type = Modified, OldPath = p, NewPath = p, OldBlob = ob, NewBlob = nb\<rparr>] else []
      | _ \<Rightarrow> [])"

definition new_diff :: "file_map \<Rightarrow> file_map \<Rightarrow> string \<Rightarrow> FileDiff list" where
  "new_diff oldFiles newFiles p =
     (case (oldFiles p, newFiles p) of
        (None, Some nb) \<Rightarrow> [\<lparr>fd_Type = Added, OldPath = [], NewPath = p, OldBlob = 0, NewBlob = nb\<rparr>]
      | _ \<Rightarrow> [])"

definition diff_maps :: "(string set \<Rightarrow> string list) \<Rightarrow> file_map \<Rightarrow> file_map \<Rightarrow> FileDiff list" where
  "diff_maps ord oldFiles newFiles =
     sort_by FileDiff_Path
       (concat (map (old_diff oldFiles newFiles) (ord (dom oldFiles)))
        @ concat (map (new_diff oldFiles newFiles) (ord (dom newFiles))))"

definition tree_map :: "nat \<Rightarrow> reader \<Rightarrow> ObjectID \<Rightarrow> (verr + file_map) option" where
  "tree_map n rd t =
     (if t = 0 then Some (Inr Map.empty)
      else case collectFiles n rd t [] Map.empty of
             None \<Rightarrow> None
           | Some (m, Some e) \<Rightarrow> Some (Inl e)
           | Some (m, None) \<Rightarrow> Some (Inr m))"

definition DiffTrees ::
    "(string set \<Rightarrow> string list) \<Rightarrow> nat \<Rightarrow> reader \<Rightarrow> ObjectID \<Rightarrow> ObjectID \<Rightarrow> (verr + FileDiff list) option" where
  "DiffTrees ord n rd oldTreeID newTreeID =
     (case tree_map n rd oldTreeID of
        None \<Rightarrow> None
      | Some (Inl e) \<Rightarrow> Some (Inl e)
      | Some (Inr oldFiles) \<Rightarrow>
          (case tree_map n rd newTreeID of
             None \<Rightarrow> None
           | Some (Inl e) \<Rightarrow> Some (Inl e)
           | Some (Inr newFiles) \<Rightarrow> Some (Inr (diff_maps ord oldFiles newFiles))))"

text \<open>A map's keys are visited once each.\<close>

definition key_order :: "(string set \<Rightarrow> string list) \<Rightarrow> bool" where
  "key_order ord \<longleftrightarrow> (\<forall>S. finite S \<longrightarrow> set (ord S) = S \<and> distinct (ord S))"

section \<open>What a tree contains\<close>

text \<open>The specification: a path under a tree is an entry name, or a directory name, a slash and a path
  under that directory.\<close>

inductive file_at :: "reader \<Rightarrow> ObjectID \<Rightarrow> string \<Rightarrow> ObjectID \<Rightarrow> bool" for rd where
  plain: "rd t = Inr (Tree es) \<Longrightarrow> e \<in> set es \<Longrightarrow> te_Mode e \<noteq> modeSubtree \<Longrightarrow> file_at rd t (te_Name e) (te_Hash e)"
| nested: "rd t = Inr (Tree es) \<Longrightarrow> e \<in> set es \<Longrightarrow> te_Mode e = modeSubtree \<Longrightarrow> file_at rd (te_Hash e) p h \<Longrightarrow>
    file_at rd t (te_Name e @ ''/'' @ p) h"

inductive_cases file_atE: "file_at rd t p h"

text \<open>Trees as the builder makes them: no entry name holds a slash, and no name occurs twice.\<close>

definition names_ok :: "reader \<Rightarrow> bool" where
  "names_ok rd \<longleftrightarrow> (\<forall>t es. rd t = Inr (Tree es) \<longrightarrow>
     distinct (map te_Name es) \<and> (\<forall>e \<in> set es. CHR ''/'' \<notin> set (te_Name e)))"

text \<open>Trees of bounded depth.\<close>

inductive depth :: "reader \<Rightarrow> ObjectID \<Rightarrow> nat \<Rightarrow> bool" for rd where
  unreadable: "(\<And>es. rd t \<noteq> Inr (Tree es)) \<Longrightarrow> depth rd t n"
| tree: "rd t = Inr (Tree es) \<Longrightarrow> (\<And>e. e \<in> set es \<Longrightarrow> te_Mode e = modeSubtree \<Longrightarrow> depth rd (te_Hash e) n) \<Longrightarrow>
    depth rd t (Suc n)"

section \<open>Collecting is exact\<close>

lemma collect_total:
  "depth rd t d \<Longrightarrow> d < n \<Longrightarrow> collectFiles n rd t prefix m \<noteq> None"
proof (induction arbitrary: n prefix m rule: depth.induct)
  case (unreadable t d)
  then obtain k where "n = Suc k" by (cases n) auto
  moreover have "\<exists>e. readTree rd t = Inl e" using unreadable(1) readTree_iff [of rd t] by (cases "readTree rd t") auto
  ultimately show ?case by auto
next
  case (tree t es d)
  then obtain k where k: "n = Suc k" "d < k" by (cases n) auto
  have "collect_entries k rd fs prefix m \<noteq> None" if "set fs \<subseteq> set es" for fs m
    using that
  proof (induction fs arbitrary: m)
    case (Cons f fs)
    then have f: "f \<in> set es" "set fs \<subseteq> set es" by auto
    show ?case
    proof (cases "te_Mode f = modeSubtree")
      case True
      have "collectFiles k rd (te_Hash f) (prefix @ te_Name f @ ''/'') m \<noteq> None"
        using tree.IH [OF f(1) True k(2)] .
      with True Cons.IH [OF f(2)] show ?thesis by (auto simp: Let_def split: option.splits)
    qed (use Cons.IH [OF f(2)] in \<open>auto simp: Let_def\<close>)
  qed simp
  with tree(1) k show ?case by (simp add: readTree_def)
qed

definition entry_at :: "reader \<Rightarrow> TreeEntry list \<Rightarrow> string \<Rightarrow> ObjectID \<Rightarrow> bool" where
  "entry_at rd es q h \<longleftrightarrow> (\<exists>e \<in> set es.
     (te_Mode e \<noteq> modeSubtree \<and> q = te_Name e \<and> h = te_Hash e)
     \<or> (te_Mode e = modeSubtree \<and> (\<exists>q'. q = te_Name e @ ''/'' @ q' \<and> file_at rd (te_Hash e) q' h)))"

lemma file_at_entry: "file_at rd t q h \<longleftrightarrow> (\<exists>es. rd t = Inr (Tree es) \<and> entry_at rd es q h)"
  by (subst file_at.simps) (auto simp: entry_at_def)

lemma entry_at_Cons: "entry_at rd (e # es) q h \<longleftrightarrow>
    (if te_Mode e = modeSubtree then \<exists>q'. q = te_Name e @ ''/'' @ q' \<and> file_at rd (te_Hash e) q' h
     else q = te_Name e \<and> h = te_Hash e) \<or> entry_at rd es q h"
  by (auto simp: entry_at_def)

lemma collect_entries_ConsE:
  assumes "collect_entries n rd (e # es) prefix m = Some (m', r)"
  obtains (subtree) m1 r1 where "te_Mode e = modeSubtree"
      "collectFiles n rd (te_Hash e) ((prefix @ te_Name e) @ ''/'') m = Some (m1, r1)"
      "if r1 = None then collect_entries n rd es prefix m1 = Some (m', r) else m' = m1 \<and> r = r1"
  | (leaf) "te_Mode e \<noteq> modeSubtree" "collect_entries n rd es prefix (m(prefix @ te_Name e \<mapsto> te_Hash e)) = Some (m', r)"
  using assms by (auto simp: Let_def split: if_splits option.splits prod.splits)

declare collect_entries.simps(2) [simp del]

lemma collect_keeps:
  shows "collectFiles n rd t prefix m = Some (m', r) \<Longrightarrow> m p \<noteq> None \<Longrightarrow> m' p \<noteq> None"
    and "collect_entries n rd es prefix m = Some (m', r) \<Longrightarrow> m p \<noteq> None \<Longrightarrow> m' p \<noteq> None"
proof (induction n rd t prefix m and n rd es prefix m arbitrary: m' r and m' r rule: collectFiles_collect_entries.induct)
  case (4 n rd e es prefix m)
  from "4.prems"(1) show ?case
  proof (cases rule: collect_entries_ConsE)
    case (subtree m1 r1)
    have m1: "m1 p \<noteq> None" using "4.IH"(1) [OF refl subtree(1,2) "4.prems"(2)] .
    show ?thesis
    proof (cases r1)
      case None
      with subtree have "collectFiles n rd (te_Hash e) ((prefix @ te_Name e) @ ''/'') m = Some (m1, None)"
        "collect_entries n rd es prefix m1 = Some (m', r)" by simp_all
      from "4.IH"(2) [OF refl subtree(1) this(1) refl refl this(2) m1] show ?thesis .
    qed (use subtree(3) m1 in auto)
  next
    case leaf
    have "(m(prefix @ te_Name e \<mapsto> te_Hash e)) p \<noteq> None" using "4.prems"(2) by simp
    from "4.IH"(3) [OF refl leaf this] show ?thesis .
  qed
qed (auto split: sum.splits)

lemma entry_at_mono: "entry_at rd es q h \<Longrightarrow> entry_at rd (e # es) q h"
  by (simp add: entry_at_Cons)

lemma collect_sound:
  shows "collectFiles n rd t prefix m = Some (m', r) \<Longrightarrow> m' p = Some h \<Longrightarrow>
      m p = Some h \<or> (\<exists>q. p = prefix @ q \<and> file_at rd t q h)"
    and "collect_entries n rd es prefix m = Some (m', r) \<Longrightarrow> m' p = Some h \<Longrightarrow>
      m p = Some h \<or> (\<exists>q. p = prefix @ q \<and> entry_at rd es q h)"
proof (induction n rd t prefix m and n rd es prefix m arbitrary: m' r and m' r rule: collectFiles_collect_entries.induct)
  case (2 n rd t prefix m)
  show ?case
  proof (cases "readTree rd t")
    case (Inl e)
    with 2 show ?thesis by simp
  next
    case (Inr es)
    have c: "collect_entries n rd es prefix m = Some (m', r)" using "2.prems"(1) Inr by simp
    have "rd t = Inr (Tree es)" using Inr by (simp add: readTree_iff)
    with "2.IH" [OF Inr c "2.prems"(2)] show ?thesis by (auto simp: file_at_entry)
  qed
next
  case (4 n rd e es prefix m)
  from "4.prems"(1) show ?case
  proof (cases rule: collect_entries_ConsE)
    case (subtree m1 r1)
    have first: "m p = Some h \<or> (\<exists>q. p = prefix @ q \<and> entry_at rd (e # es) q h)" if "m1 p = Some h"
      using "4.IH"(1) [OF refl subtree(1,2) that] subtree(1) by (auto simp: entry_at_Cons)
    show ?thesis
    proof (cases r1)
      case None
      with subtree have "collectFiles n rd (te_Hash e) ((prefix @ te_Name e) @ ''/'') m = Some (m1, None)"
        "collect_entries n rd es prefix m1 = Some (m', r)" by simp_all
      from "4.IH"(2) [OF refl subtree(1) this(1) refl refl this(2) "4.prems"(2)] first
      show ?thesis using entry_at_mono by blast
    next
      case (Some err)
      with subtree(3) first "4.prems"(2) show ?thesis by auto
    qed
  next
    case leaf
    from "4.IH"(3) [OF refl leaf(1) leaf(2) "4.prems"(2)] leaf(1) show ?thesis
      by (auto simp: entry_at_Cons split: if_splits)
  qed
qed auto

lemma collect_complete:
  shows "collectFiles n rd t prefix m = Some (m', None) \<Longrightarrow> file_at rd t q h \<Longrightarrow> m' (prefix @ q) \<noteq> None"
    and "collect_entries n rd es prefix m = Some (m', None) \<Longrightarrow> entry_at rd es q h \<Longrightarrow> m' (prefix @ q) \<noteq> None"
proof (induction n rd t prefix m and n rd es prefix m arbitrary: m' q and m' q rule: collectFiles_collect_entries.induct)
  case (2 n rd t prefix m)
  from "2.prems"(2) obtain es where es: "rd t = Inr (Tree es)" "entry_at rd es q h" by (auto simp: file_at_entry)
  then have r: "readTree rd t = Inr es" by (simp add: readTree_iff)
  with "2.prems"(1) have "collect_entries n rd es prefix m = Some (m', None)" by simp
  from "2.IH" [OF r this es(2)] show ?case .
next
  case (4 n rd e es prefix m)
  from "4.prems"(1) show ?case
  proof (cases rule: collect_entries_ConsE)
    case (subtree m1 r1)
    then have c: "collectFiles n rd (te_Hash e) ((prefix @ te_Name e) @ ''/'') m = Some (m1, None)"
        "collect_entries n rd es prefix m1 = Some (m', None)" by (auto split: if_splits)
    consider q' where "q = te_Name e @ ''/'' @ q'" "file_at rd (te_Hash e) q' h" | "entry_at rd es q h"
      using "4.prems"(2) subtree(1) by (auto simp: entry_at_Cons)
    then show ?thesis
    proof cases
      case 1
      from "4.IH"(1) [OF refl subtree(1) c(1) 1(2)] have "m1 (prefix @ q) \<noteq> None" using 1(1) by simp
      with collect_keeps(2) [OF c(2)] show ?thesis by blast
    next
      case 2
      from "4.IH"(2) [OF refl subtree(1) c(1) refl refl c(2) 2] show ?thesis .
    qed
  next
    case leaf
    show ?thesis
    proof (cases "entry_at rd es q h")
      case True
      from "4.IH"(3) [OF refl leaf(1) leaf(2) True] show ?thesis .
    next
      case False
      with "4.prems"(2) leaf(1) have "q = te_Name e" by (auto simp: entry_at_Cons)
      with collect_keeps(2) [OF leaf(2), of "prefix @ q"] show ?thesis by simp
    qed
  qed
qed (auto simp: entry_at_def)


text \<open>Names without slashes split a path in only one way, so a path has at most one blob.\<close>

lemma slash_split: "c \<notin> set x \<Longrightarrow> c \<notin> set y \<Longrightarrow> x @ c # p = y @ c # q \<longleftrightarrow> x = y \<and> p = q"
proof (induction x arbitrary: y)
  case Nil
  then show ?case by (cases y) auto
next
  case (Cons a x)
  then show ?case by (cases y) auto
qed

lemma names_ok_entry:
  "names_ok rd \<Longrightarrow> rd t = Inr (Tree es) \<Longrightarrow> e \<in> set es \<Longrightarrow> e' \<in> set es \<Longrightarrow> te_Name e = te_Name e' \<Longrightarrow> e = e'"
  by (auto simp: names_ok_def distinct_map inj_on_def)

lemma file_at_unique:
  "file_at rd t p h \<Longrightarrow> names_ok rd \<Longrightarrow> file_at rd t p h' \<Longrightarrow> h = h'"
proof (induction arbitrary: h' rule: file_at.induct)
  case (plain t es e)
  have s: "CHR ''/'' \<notin> set (te_Name e)" using plain by (auto simp: names_ok_def)
  have "entry_at rd es (te_Name e) h'" using plain.prems(2) plain(1) by (simp add: file_at_entry [of rd t])
  then obtain e' where e': "e' \<in> set es" "te_Name e = te_Name e'" "h' = te_Hash e'"
    using s by (auto simp: entry_at_def)
  with names_ok_entry [OF plain.prems(1) plain(1,2) e'(1)] show ?case by simp
next
  case (nested t es e p h)
  have s: "CHR ''/'' \<notin> set (te_Name x)" if "x \<in> set es" for x using nested that by (auto simp: names_ok_def)
  have "entry_at rd es (te_Name e @ ''/'' @ p) h'" using nested.prems(2) nested(1) by (simp add: file_at_entry [of rd t])
  then obtain e' where e': "e' \<in> set es" and
    alt: "te_Name e @ ''/'' @ p = te_Name e' \<or> (\<exists>q. te_Name e @ ''/'' @ p = te_Name e' @ ''/'' @ q \<and> file_at rd (te_Hash e') q h')"
    by (auto simp: entry_at_def)
  from alt show ?case
  proof
    assume "te_Name e @ ''/'' @ p = te_Name e'"
    then have "CHR ''/'' \<in> set (te_Name e')" by (metis append_Cons in_set_conv_decomp)
    with s [OF e'] show ?thesis by blast
  next
    assume "\<exists>q. te_Name e @ ''/'' @ p = te_Name e' @ ''/'' @ q \<and> file_at rd (te_Hash e') q h'"
    then obtain q where q: "te_Name e = te_Name e'" "p = q" "file_at rd (te_Hash e') q h'"
      using slash_split [OF s [OF nested(2)] s [OF e']] by auto
    with names_ok_entry [OF nested.prems(1) nested(1,2) e'] have "e = e'" by simp
    with q nested.IH [OF nested.prems(1)] show ?thesis by simp
  qed
qed

lemma collect_exact:
  assumes "collectFiles n rd t [] Map.empty = Some (m, None)" "names_ok rd"
  shows "m p = Some h \<longleftrightarrow> file_at rd t p h"
proof
  assume "m p = Some h"
  with collect_sound(1) [OF assms(1)] show "file_at rd t p h" by fastforce
next
  assume f: "file_at rd t p h"
  with collect_complete(1) [OF assms(1)] obtain h' where h': "m p = Some h'" by fastforce
  with collect_sound(1) [OF assms(1)] have "file_at rd t p h'" by fastforce
  with f h' file_at_unique assms(2) show "m p = Some h" by blast
qed

section \<open>Differences\<close>

lemma collect_finite:
  shows "collectFiles n rd t prefix m = Some (m', r) \<Longrightarrow> finite (dom m) \<Longrightarrow> finite (dom m')"
    and "collect_entries n rd es prefix m = Some (m', r) \<Longrightarrow> finite (dom m) \<Longrightarrow> finite (dom m')"
proof (induction n rd t prefix m and n rd es prefix m arbitrary: m' r and m' r rule: collectFiles_collect_entries.induct)
  case (4 n rd e es prefix m)
  from "4.prems"(1) show ?case
  proof (cases rule: collect_entries_ConsE)
    case (subtree m1 r1)
    have m1: "finite (dom m1)" using "4.IH"(1) [OF refl subtree(1,2) "4.prems"(2)] .
    show ?thesis
    proof (cases r1)
      case None
      with subtree have "collectFiles n rd (te_Hash e) ((prefix @ te_Name e) @ ''/'') m = Some (m1, None)"
        "collect_entries n rd es prefix m1 = Some (m', r)" by simp_all
      from "4.IH"(2) [OF refl subtree(1) this(1) refl refl this(2) m1] show ?thesis .
    qed (use subtree(3) m1 in auto)
  next
    case leaf
    have "finite (dom (m(prefix @ te_Name e \<mapsto> te_Hash e)))" using "4.prems"(2) by simp
    from "4.IH"(3) [OF refl leaf this] show ?thesis .
  qed
qed (auto split: sum.splits)

definition diff_at :: "file_map \<Rightarrow> file_map \<Rightarrow> string \<Rightarrow> FileDiff list" where
  "diff_at old new p = old_diff old new p @ new_diff old new p"

lemma diff_at_cases:
  "diff_at old new p = (case (old p, new p) of
      (Some ob, None) \<Rightarrow> [\<lparr>fd_Type = Deleted, OldPath = p, NewPath = [], OldBlob = ob, NewBlob = 0\<rparr>]
    | (Some ob, Some nb) \<Rightarrow> if ob \<noteq> nb then [\<lparr>fd_Type = Modified, OldPath = p, NewPath = p, OldBlob = ob, NewBlob = nb\<rparr>] else []
    | (None, Some nb) \<Rightarrow> [\<lparr>fd_Type = Added, OldPath = [], NewPath = p, OldBlob = 0, NewBlob = nb\<rparr>]
    | _ \<Rightarrow> [])"
  by (auto simp: diff_at_def old_diff_def new_diff_def split: option.splits)

lemma diff_at_path: "d \<in> set (diff_at old new p) \<Longrightarrow> FileDiff_Path d = p"
  by (auto simp: diff_at_cases FileDiff_Path_def split: option.splits if_splits)

lemma set_diff_maps:
  assumes "key_order ord" "finite (dom old)" "finite (dom new)"
  shows "set (diff_maps ord old new) = (\<Union>p. set (diff_at old new p))"
proof -
  have "set (ord (dom old)) = dom old" "set (ord (dom new)) = dom new" using assms by (auto simp: key_order_def)
  then have "set (diff_maps ord old new) = (\<Union>p \<in> dom old. set (old_diff old new p)) \<union> (\<Union>p \<in> dom new. set (new_diff old new p))"
    by (simp add: diff_maps_def)
  moreover have "old_diff old new p = []" if "p \<notin> dom old" for p using that by (auto simp: old_diff_def split: option.splits)
  moreover have "new_diff old new p = []" if "p \<notin> dom new" for p using that by (auto simp: new_diff_def split: option.splits)
  ultimately show ?thesis by (fastforce simp: diff_at_def)
qed

lemma distinct_paths_diff:
  assumes "distinct ps" "\<And>p d. d \<in> set (f p) \<Longrightarrow> FileDiff_Path d = p" "\<And>p. length (f p) \<le> 1"
  shows "distinct (map FileDiff_Path (concat (map f ps)))"
  using assms(1)
proof (induction ps)
  case (Cons p ps)
  have "distinct (map FileDiff_Path (f p))" using assms(3) [of p] by (cases "f p"; cases "tl (f p)") auto
  with Cons assms(2) show ?case by (fastforce simp: distinct_map)
qed simp

lemma diff_maps_sorted:
  assumes "key_order ord" "finite (dom old)" "finite (dom new)"
  shows "strictly_by FileDiff_Path (diff_maps ord old new)"
proof -
  have d: "distinct (ord (dom old))" "distinct (ord (dom new))" using assms by (auto simp: key_order_def)
  have o: "FileDiff_Path x = p \<and> old p \<noteq> None" if "x \<in> set (old_diff old new p)" for x p
    using that by (cases "old p"; cases "new p") (auto simp: old_diff_def FileDiff_Path_def split: if_splits)
  have n: "FileDiff_Path x = p \<and> old p = None" if "x \<in> set (new_diff old new p)" for x p
    using that by (auto simp: new_diff_def FileDiff_Path_def split: option.splits)
  have l: "length (old_diff old new p) \<le> 1" "length (new_diff old new p) \<le> 1" for p
    by (auto simp: old_diff_def new_diff_def split: option.splits)
  have "distinct (map FileDiff_Path (concat (map (old_diff old new) (ord (dom old))) @ concat (map (new_diff old new) (ord (dom new)))))"
    using distinct_paths_diff [OF d(1), of "old_diff old new"] distinct_paths_diff [OF d(2), of "new_diff old new"] o n l
    by fastforce
  then show ?thesis unfolding diff_maps_def by (rule sort_by_strict)
qed


text \<open>Applying a difference to the old files.\<close>

definition apply_diff :: "FileDiff \<Rightarrow> file_map \<Rightarrow> file_map" where
  "apply_diff d m = m(FileDiff_Path d := if fd_Type d = Deleted then None else Some (NewBlob d))"

lemma apply_diff_at: "d \<in> set (diff_at old new p) \<Longrightarrow> apply_diff d m = m(p := new p) \<and> old p \<noteq> new p"
  using diff_at_path [of d old new p]
  by (cases "old p"; cases "new p") (auto simp: diff_at_cases apply_diff_def split: if_splits)

lemma fold_apply_diff:
  "\<forall>d \<in> set ds. \<exists>p. d \<in> set (diff_at old new p) \<Longrightarrow>
     fold apply_diff ds m = (\<lambda>p. if p \<in> FileDiff_Path ` set ds then new p else m p)"
proof (induction ds arbitrary: m)
  case (Cons d ds)
  then obtain p where p: "d \<in> set (diff_at old new p)" by auto
  have "apply_diff d m = m(p := new p)" "FileDiff_Path d = p"
    using apply_diff_at [OF p] diff_at_path [OF p] by blast+
  then show ?case using Cons by (auto simp: fun_eq_iff)
qed simp

lemma diff_maps_patch:
  assumes "key_order ord" "finite (dom old)" "finite (dom new)"
  shows "fold apply_diff (diff_maps ord old new) old = new"
proof -
  note s = set_diff_maps [OF assms]
  have "\<forall>d \<in> set (diff_maps ord old new). \<exists>p. d \<in> set (diff_at old new p)" unfolding s by blast
  note f = fold_apply_diff [OF this]
  have "p \<in> FileDiff_Path ` set (diff_maps ord old new)" if ne: "old p \<noteq> new p" for p
  proof -
    have "diff_at old new p \<noteq> []" using ne by (cases "old p"; cases "new p") (auto simp: diff_at_cases)
    then obtain d where "d \<in> set (diff_at old new p)" by (cases "diff_at old new p") auto
    moreover from this have "FileDiff_Path d = p" by (rule diff_at_path)
    ultimately show ?thesis unfolding s by blast
  qed
  then show ?thesis unfolding f by (intro ext) metis
qed

lemma tree_map_finite: "tree_map n rd t = Some (Inr m) \<Longrightarrow> finite (dom m)"
  using collect_finite(1) [of n rd t "[]" Map.empty] by (auto simp: tree_map_def split: if_splits option.splits)

lemma DiffTreesE:
  assumes "DiffTrees ord n rd a b = Some (Inr ds)"
  obtains old new where "tree_map n rd a = Some (Inr old)" "tree_map n rd b = Some (Inr new)"
    "ds = diff_maps ord old new" "finite (dom old)" "finite (dom new)"
  using assms tree_map_finite by (auto simp: DiffTrees_def split: option.splits sum.splits)

section \<open>Properties\<close>

text \<open>Reading a tree is exact: with fuel above the depth of the tree the collection returns, and when it
  reports no error the map it built sends a path to a blob exactly when the nested tree objects have that
  blob at that path (trees with slash-free, distinct entry names, as the builder writes them).\<close>

theorem tree_map_exact:
  assumes "depth rd t d" "d < n" "names_ok rd" "t \<noteq> 0"
  shows "\<exists>r. tree_map n rd t = Some r \<and> (\<forall>m p h. r = Inr m \<longrightarrow> (m p = Some h \<longleftrightarrow> file_at rd t p h))"
proof -
  obtain m r where c: "collectFiles n rd t [] Map.empty = Some (m, r)" using collect_total [OF assms(1,2)] by fastforce
  show ?thesis
  proof (cases r)
    case None
    have "tree_map n rd t = Some (Inr m)" using c None assms(4) by (simp add: tree_map_def)
    moreover have "\<forall>p h. m p = Some h \<longleftrightarrow> file_at rd t p h" using collect_exact c None assms(3) by blast
    ultimately show ?thesis by blast
  qed (use c assms(4) in \<open>auto simp: tree_map_def\<close>)
qed

lemma sample_names_ok: "names_ok sample_reader"
  by (auto simp: names_ok_def sample_reader_def split: if_splits)

lemma sample_depth: "depth sample_reader 2 2"
proof -
  have "depth sample_reader 5 1"
    using depth.tree [of sample_reader 5 "[\<lparr>te_Mode = 33188, te_Hash = 7, te_Name = ''g''\<rparr>]" 0]
    by (simp add: sample_reader_def modeSubtree_def)
  then have "depth sample_reader 2 (Suc 1)"
    by (intro depth.tree [of sample_reader 2 "[\<lparr>te_Mode = modeSubtree, te_Hash = 5, te_Name = ''d''\<rparr>,
        \<lparr>te_Mode = 33188, te_Hash = 6, te_Name = ''f''\<rparr>]"]) (auto simp: sample_reader_def modeSubtree_def)
  then show ?thesis by (simp add: numeral_2_eq_2)
qed

lemma sample_tree_maps:
  "tree_map (Suc (Suc (Suc 0))) sample_reader 2 = Some (Inr [''d/g'' \<mapsto> 7, ''f'' \<mapsto> 6])"
  "tree_map (Suc (Suc (Suc 0))) sample_reader 5 = Some (Inr [''g'' \<mapsto> 7])"
  by (simp_all add: tree_map_def readTree_def sample_reader_def modeSubtree_def collect_entries.simps Let_def)

theorem tree_map_exact_witness: "file_at sample_reader 2 ''d/g'' 7"
proof -
  have "\<forall>p h. [''d/g'' \<mapsto> 7, ''f'' \<mapsto> 6] p = Some h \<longleftrightarrow> file_at sample_reader 2 p h"
    using tree_map_exact [OF sample_depth _ sample_names_ok, of "Suc (Suc (Suc 0))"] by (simp add: sample_tree_maps)
  from this [rule_format, of "''d/g''" 7] show ?thesis by simp
qed

text \<open>C23. Differences are exact: the changes \<^verbatim>\<open>DiffTrees\<close> reports turn the old tree's files into the new
  tree's files, each reported path really differs, and the report is strictly sorted by path, whatever
  order Go visits the two maps in.\<close>

theorem diff_trees_patch:
  assumes "DiffTrees ord n rd a b = Some (Inr ds)" "key_order ord"
  shows "\<exists>old new. tree_map n rd a = Some (Inr old) \<and> tree_map n rd b = Some (Inr new)
    \<and> fold apply_diff ds old = new
    \<and> (\<forall>d \<in> set ds. old (FileDiff_Path d) \<noteq> new (FileDiff_Path d)) \<and> strictly_by FileDiff_Path ds"
proof -
  obtain old new where m: "tree_map n rd a = Some (Inr old)" "tree_map n rd b = Some (Inr new)"
    "ds = diff_maps ord old new" "finite (dom old)" "finite (dom new)"
    using assms(1) by (rule DiffTreesE)
  have "old (FileDiff_Path d) \<noteq> new (FileDiff_Path d)" if "d \<in> set ds" for d
    using that set_diff_maps [OF assms(2) m(4,5)] apply_diff_at diff_at_path unfolding m(3) by fastforce
  with m diff_maps_patch [OF assms(2) m(4,5)] diff_maps_sorted [OF assms(2) m(4,5)] show ?thesis by blast
qed

lemma sorted_key_order: "key_order sorted_list_of_set"
  by (simp add: key_order_def)

theorem diff_trees_patch_witness:
  "\<exists>ds. DiffTrees sorted_list_of_set (Suc (Suc (Suc 0))) sample_reader 5 2 = Some (Inr ds)
     \<and> fold apply_diff ds [''g'' \<mapsto> 7] = [''d/g'' \<mapsto> 7, ''f'' \<mapsto> 6]"
proof -
  obtain ds where ds: "DiffTrees sorted_list_of_set (Suc (Suc (Suc 0))) sample_reader 5 2 = Some (Inr ds)"
    by (simp add: DiffTrees_def sample_tree_maps)
  from diff_trees_patch [OF ds sorted_key_order] ds show ?thesis by (auto simp: sample_tree_maps)
qed

end
