(* ===== verification/Merge_Engine.thy ===== *)
theory Merge_Engine
  imports Tree_Files Three_Way Index_File Refs Pack
begin

text \<open>
  \<^verbatim>\<open>internal/merge/merge.go\<close>: fast-forward, checkout and the three-way merge of two commits. The engine
  works on the object store, the working directory and the index at once; the first two are one file
  system here, as on disk, and every \<^verbatim>\<open>store.Read\<close> reads what is on disk at that moment. The outcomes of
  the system calls (\<open>in_io\<close>, \<open>in_rm\<close>) and Zstandard are part of the inputs. A computation is \<open>None\<close> when it does not return (the line merge of
  \<^verbatim>\<open>Three_Way\<close> can loop) or when the fuel of a tree descent is used up, and \<open>Panic\<close> when Go panics.
\<close>

section \<open>Index updates\<close>

fun update_entries :: "Entry list \<Rightarrow> string \<Rightarrow> BlobID \<Rightarrow> Entry list" where
  "update_entries [] p b = [\<lparr>Fingerprint = 0, ie_ObjectID = b, ie_State = StateAdded, ie_Path = p\<rparr>]"
| "update_entries (e # es) p b =
     (if ie_Path e = p then e\<lparr>ie_ObjectID := b, ie_State := StateModified\<rparr> # es else e # update_entries es p b)"

definition updateIndex :: "Index \<Rightarrow> string \<Rightarrow> BlobID \<Rightarrow> Index" where
  "updateIndex idx p b = idx\<lparr>Entries := update_entries (Entries idx) p b\<rparr>"

definition removeFromIndex :: "Index \<Rightarrow> string \<Rightarrow> Index" where
  "removeFromIndex idx p = idx\<lparr>Entries := filter (\<lambda>e. ie_Path e \<noteq> p) (Entries idx)\<rparr>"

section \<open>Reading blobs\<close>

definition readBlobData :: "reader \<Rightarrow> ObjectID \<Rightarrow> bytes" where
  "readBlobData rd i = (if i = 0 then [] else case rd i of Inr (Blob d) \<Rightarrow> d | _ \<Rightarrow> [])"

definition readBlobObj :: "reader \<Rightarrow> ObjectID \<Rightarrow> verr + bytes" where
  "readBlobObj rd i = bind_res (rd i) (\<lambda>obj. case obj of Blob d \<Rightarrow> Inr d | _ \<Rightarrow> Inl (ErrMsg ''is not a blob''))"

text \<open>\<^verbatim>\<open>collectTreeFiles\<close> differs from \<^verbatim>\<open>collectFiles\<close> in that it drops the error of a nested call.\<close>

fun collectTreeFiles :: "nat \<Rightarrow> reader \<Rightarrow> ObjectID \<Rightarrow> string \<Rightarrow> file_map \<Rightarrow> (file_map \<times> verr option) option"
and collect_tree_entries :: "nat \<Rightarrow> reader \<Rightarrow> TreeEntry list \<Rightarrow> string \<Rightarrow> file_map \<Rightarrow> (file_map \<times> verr option) option"
where
  "collectTreeFiles 0 rd t prefix m = None"
| "collectTreeFiles (Suc n) rd t prefix m =
     (case readTree rd t of
        Inl e \<Rightarrow> Some (m, Some e)
      | Inr es \<Rightarrow> collect_tree_entries n rd es prefix m)"
| "collect_tree_entries n rd [] prefix m = Some (m, None)"
| "collect_tree_entries n rd (e # es) prefix m =
     (let p = prefix @ te_Name e in
      if te_Mode e = modeSubtree then
        (case collectTreeFiles n rd (te_Hash e) (p @ ''/'') m of
           None \<Rightarrow> None
         | Some (m', _) \<Rightarrow> collect_tree_entries n rd es prefix m')
      else collect_tree_entries n rd es prefix (m(p \<mapsto> te_Hash e)))"

text \<open>The caller ignores the error of \<^verbatim>\<open>findBlobInTree\<close> and goes on with the zero identifier.\<close>

definition findBlobInTree :: "nat \<Rightarrow> reader \<Rightarrow> TreeID \<Rightarrow> string \<Rightarrow> ObjectID option" where
  "findBlobInTree n rd t p =
     (case collectTreeFiles n rd t [] Map.empty of
        None \<Rightarrow> None
      | Some (m, Some _) \<Rightarrow> Some 0
      | Some (m, None) \<Rightarrow> Some (case m p of None \<Rightarrow> 0 | Some i \<Rightarrow> i))"

section \<open>State\<close>

record Inputs =
  in_zstd :: zstd
  in_io :: io
  in_rm :: "path \<Rightarrow> bool"
  in_VaraDir :: path
  in_RootDir :: path
  OurCommit :: CommitID
  TheirCommit :: CommitID
  OurLabel :: string
  TheirLabel :: string

record mstate =
  mg_fs :: fs
  mg_idx :: Index

datatype merge_kind = Success | Conflict | FastForward

record Output =
  Result_kind :: merge_kind
  NewCommitID :: CommitID
  Conflicts :: "string list"

definition in_store :: "Inputs \<Rightarrow> Store" where
  "in_store inp = NewStore (in_VaraDir inp)"

definition reader_at :: "Inputs \<Rightarrow> fs \<Rightarrow> reader" where
  "reader_at inp fs = Store_Read (in_zstd inp) (in_store inp) fs"

definition absPath :: "Inputs \<Rightarrow> string \<Rightarrow> path" where
  "absPath inp p = filepath_Join (in_RootDir inp) p"

text \<open>\<^verbatim>\<open>os.MkdirAll\<close> of the parent followed by \<^verbatim>\<open>os.WriteFile\<close>.\<close>

definition put_file :: "Inputs \<Rightarrow> path \<Rightarrow> bytes \<Rightarrow> fs \<Rightarrow> fs \<times> (verr + unit)" where
  "put_file inp p data fs =
     (if \<not> io_mkdir (in_io inp) (filepath_Dir p) then (fs, Inl ErrIO) else os_WriteFile (in_io inp) p data fs)"

section \<open>Applying one side\<close>

record fileChange =
  changeType :: ChangeType
  fc_blobID :: ObjectID

definition applyChange :: "Inputs \<Rightarrow> string \<Rightarrow> fileChange \<Rightarrow> mstate \<Rightarrow> mstate \<times> (verr + unit)" where
  "applyChange inp p fc st =
     (let ap = absPath inp p in
      if changeType fc = Deleted
      then (st\<lparr>mg_fs := if in_rm inp ap then os_Remove ap (mg_fs st) else mg_fs st,
               mg_idx := removeFromIndex (mg_idx st) p\<rparr>, Inr ())
      else case put_file inp ap (readBlobData (reader_at inp (mg_fs st)) (fc_blobID fc)) (mg_fs st) of
             (fs1, Inl e) \<Rightarrow> (st\<lparr>mg_fs := fs1\<rparr>, Inl e)
           | (fs1, Inr _) \<Rightarrow> (st\<lparr>mg_fs := fs1, mg_idx := updateIndex (mg_idx st) p (fc_blobID fc)\<rparr>, Inr ()))"

definition mergeFileContent ::
    "nat \<Rightarrow> Inputs \<Rightarrow> string \<Rightarrow> TreeID \<Rightarrow> ObjectID \<Rightarrow> ObjectID \<Rightarrow> mstate \<Rightarrow> (mstate \<times> (verr + bool)) outcome option" where
  "mergeFileContent n inp p baseTree ourBlob theirBlob st =
     (let rd = reader_at inp (mg_fs st) in
      case findBlobInTree n rd baseTree p of
        None \<Rightarrow> None
      | Some baseBlob \<Rightarrow>
          (case ThreeWayMerge (readBlobData rd baseBlob) (readBlobData rd ourBlob) (readBlobData rd theirBlob)
                  (OurLabel inp) (TheirLabel inp) of
             None \<Rightarrow> None
           | Some Panic \<Rightarrow> Some Panic
           | Some (Done (merged, hasConflict)) \<Rightarrow> Some (Done
               (case put_file inp (absPath inp p) merged (mg_fs st) of
                  (fs1, Inl e) \<Rightarrow> (st\<lparr>mg_fs := fs1\<rparr>, Inl e)
                | (fs1, Inr _) \<Rightarrow>
                    (case Store_Write (in_zstd inp) (in_io inp) (in_store inp) (Blob merged) fs1 of
                       (fs2, Inl e) \<Rightarrow> (st\<lparr>mg_fs := fs2\<rparr>, Inl e)
                     | (fs2, Inr b) \<Rightarrow> (st\<lparr>mg_fs := fs2, mg_idx := updateIndex (mg_idx st) p b\<rparr>, Inr hasConflict))))))"

section \<open>Checkout and fast-forward\<close>

fun checkoutTreeEntries :: "nat \<Rightarrow> Inputs \<Rightarrow> ObjectID \<Rightarrow> string \<Rightarrow> mstate \<Rightarrow> (mstate \<times> (verr + unit)) option"
and checkout_entries :: "nat \<Rightarrow> Inputs \<Rightarrow> TreeEntry list \<Rightarrow> string \<Rightarrow> mstate \<Rightarrow> (mstate \<times> (verr + unit)) option"
where
  "checkoutTreeEntries 0 inp t prefix st = None"
| "checkoutTreeEntries (Suc n) inp t prefix st =
     (case readTree (reader_at inp (mg_fs st)) t of
        Inl e \<Rightarrow> Some (st, Inl e)
      | Inr es \<Rightarrow> checkout_entries n inp es prefix st)"
| "checkout_entries n inp [] prefix st = Some (st, Inr ())"
| "checkout_entries n inp (e # es) prefix st =
     (let p = prefix @ te_Name e in
      if te_Mode e = modeSubtree then
        (case checkoutTreeEntries n inp (te_Hash e) (p @ ''/'') st of
           None \<Rightarrow> None
         | Some (st', Inl err) \<Rightarrow> Some (st', Inl err)
         | Some (st', Inr _) \<Rightarrow> checkout_entries n inp es prefix st')
      else case readBlobObj (reader_at inp (mg_fs st)) (te_Hash e) of
             Inl err \<Rightarrow> Some (st, Inl err)
           | Inr data \<Rightarrow>
               (case os_WriteFile (in_io inp) (absPath inp p) data (mg_fs st) of
                  (fs1, Inl err) \<Rightarrow> Some (st\<lparr>mg_fs := fs1\<rparr>, Inl err)
                | (fs1, Inr _) \<Rightarrow>
                    checkout_entries n inp es prefix
                      (st\<lparr>mg_fs := fs1, mg_idx := updateIndex (mg_idx st) p (te_Hash e)\<rparr>)))"

definition checkoutTree :: "nat \<Rightarrow> Inputs \<Rightarrow> TreeID \<Rightarrow> mstate \<Rightarrow> (mstate \<times> (verr + unit)) option" where
  "checkoutTree n inp t st = checkoutTreeEntries n inp t [] st"

definition fastForward :: "nat \<Rightarrow> Inputs \<Rightarrow> mstate \<Rightarrow> (mstate \<times> (verr + unit)) option" where
  "fastForward n inp st =
     (case readCommit (reader_at inp (mg_fs st)) (TheirCommit inp) of
        Inl e \<Rightarrow> Some (st, Inl e)
      | Inr c \<Rightarrow> checkoutTree n inp (TreeHash c) st)"

section \<open>Three-way merge\<close>

definition change_map :: "FileDiff list \<Rightarrow> string \<rightharpoonup> fileChange" where
  "change_map ds = fold (\<lambda>d m. m(FileDiff_Path d \<mapsto> \<lparr>changeType = fd_Type d, fc_blobID = NewBlob d\<rparr>)) ds Map.empty"

text \<open>One iteration over \<^verbatim>\<open>allPaths\<close>; the answer says whether the path is a conflict.\<close>

definition merge_path ::
    "nat \<Rightarrow> Inputs \<Rightarrow> TreeID \<Rightarrow> fileChange option \<Rightarrow> fileChange option \<Rightarrow> string \<Rightarrow> mstate \<Rightarrow> (mstate \<times> (verr + bool)) outcome option" where
  "merge_path n inp baseTree oc tc p st =
     (let keep = (\<lambda>fc. case applyChange inp p fc st of (st', r) \<Rightarrow> Some (Done (st', bind_res r (\<lambda>_. Inr False)))) in
      case (oc, tc) of
        (Some o1, None) \<Rightarrow> keep o1
      | (None, Some t1) \<Rightarrow> keep t1
      | (None, None) \<Rightarrow> Some (Done (st, Inr False))
      | (Some o1, Some t1) \<Rightarrow>
          if fc_blobID o1 = fc_blobID t1 then keep o1
          else if changeType o1 = Modified \<and> changeType t1 = Modified
          then mergeFileContent n inp p baseTree (fc_blobID o1) (fc_blobID t1) st
          else Some (Done (st, Inr True)))"

fun merge_paths ::
    "nat \<Rightarrow> Inputs \<Rightarrow> TreeID \<Rightarrow> (string \<rightharpoonup> fileChange) \<Rightarrow> (string \<rightharpoonup> fileChange) \<Rightarrow> string list \<Rightarrow> string list \<Rightarrow> mstate
     \<Rightarrow> (mstate \<times> (verr + string list)) outcome option" where
  "merge_paths n inp bt ours theirs [] cs st = Some (Done (st, Inr cs))"
| "merge_paths n inp bt ours theirs (p # ps) cs st =
     (case merge_path n inp bt (ours p) (theirs p) p st of
        None \<Rightarrow> None
      | Some Panic \<Rightarrow> Some Panic
      | Some (Done (st', Inl e)) \<Rightarrow> Some (Done (st', Inl e))
      | Some (Done (st', Inr c)) \<Rightarrow> merge_paths n inp bt ours theirs ps (if c then cs @ [p] else cs) st')"

definition no_commit :: CommitID where
  "no_commit = 0"

text \<open>The end of \<^verbatim>\<open>threeWay\<close>: record \<^verbatim>\<open>MERGE_HEAD\<close> when conflicts remain.\<close>

definition finish_merge :: "nat \<Rightarrow> Inputs \<Rightarrow> string list \<Rightarrow> mstate \<Rightarrow> mstate \<times> (verr + Output)" where
  "finish_merge retries inp conflicts st =
     (if conflicts \<noteq> [] then
        (let mh = filepath_Join (in_VaraDir inp) ''MERGE_HEAD'' in
         case WriteFile (in_io inp) retries (mh @ ''.tmp'') mh (BaseID_String (TheirCommit inp) @ [LF]) (mg_fs st) of
           (tr, Inl e) \<Rightarrow> (st\<lparr>mg_fs := last tr\<rparr>, Inl e)
         | (tr, Inr _) \<Rightarrow> (st\<lparr>mg_fs := last tr\<rparr>, Inr \<lparr>Result_kind = Conflict, NewCommitID = no_commit, Conflicts = conflicts\<rparr>))
      else (st, Inr \<lparr>Result_kind = Success, NewCommitID = no_commit, Conflicts = []\<rparr>))"

definition threeWay ::
    "(string set \<Rightarrow> string list) \<Rightarrow> nat \<Rightarrow> nat \<Rightarrow> Inputs \<Rightarrow> CommitID \<Rightarrow> mstate \<Rightarrow> (mstate \<times> (verr + Output)) outcome option" where
  "threeWay ord n retries inp base st =
     (let rd = reader_at inp (mg_fs st) in
      case bind_res (readCommit rd base) (\<lambda>b. bind_res (readCommit rd (OurCommit inp)) (\<lambda>u.
             bind_res (readCommit rd (TheirCommit inp)) (\<lambda>t. Inr (TreeHash b, TreeHash u, TreeHash t)))) of
        Inl e \<Rightarrow> Some (Done (st, Inl e))
      | Inr (bt, ot, tt) \<Rightarrow>
          (case (DiffTrees ord n rd bt ot, DiffTrees ord n rd bt tt) of
             (None, _) \<Rightarrow> None
           | (Some (Inl e), _) \<Rightarrow> Some (Done (st, Inl e))
           | (Some (Inr _), None) \<Rightarrow> None
           | (Some (Inr _), Some (Inl e)) \<Rightarrow> Some (Done (st, Inl e))
           | (Some (Inr diffOurs), Some (Inr diffTheirs)) \<Rightarrow>
               (let ours = change_map diffOurs; theirs = change_map diffTheirs in
                case merge_paths n inp bt ours theirs (ord (dom ours \<union> dom theirs)) [] st of
                  None \<Rightarrow> None
                | Some Panic \<Rightarrow> Some Panic
                | Some (Done (st', Inl e)) \<Rightarrow> Some (Done (st', Inl e))
                | Some (Done (st', Inr conflicts)) \<Rightarrow> Some (Done (finish_merge retries inp conflicts st')))))"

definition Merge ::
    "(string set \<Rightarrow> string list) \<Rightarrow> nat \<Rightarrow> nat \<Rightarrow> Inputs \<Rightarrow> mstate \<Rightarrow> (mstate \<times> (verr + Output)) outcome option" where
  "Merge ord n retries inp st =
     (case MergeBase (reader_at inp (mg_fs st)) (OurCommit inp) (TheirCommit inp) of
        Inl e \<Rightarrow> Some (Done (st, Inl e))
      | Inr base \<Rightarrow>
          if base = OurCommit inp then
            (case fastForward n inp st of
               None \<Rightarrow> None
             | Some (st', Inl e) \<Rightarrow> Some (Done (st', Inl e))
             | Some (st', Inr _) \<Rightarrow>
                 Some (Done (st', Inr \<lparr>Result_kind = FastForward, NewCommitID = TheirCommit inp, Conflicts = []\<rparr>)))
          else if base = TheirCommit inp then
            Some (Done (st, Inr \<lparr>Result_kind = Success, NewCommitID = OurCommit inp, Conflicts = []\<rparr>))
          else threeWay ord n retries inp base st)"


section \<open>The index as a map\<close>

definition index_map :: "Index \<Rightarrow> file_map" where
  "index_map idx p =
     map_option ie_ObjectID (find (\<lambda>e. ie_Path e = p \<and> ie_State e \<noteq> StateDeleted) (Entries idx))"

lemma state_distinct [simp]: "StateAdded \<noteq> StateDeleted" "StateModified \<noteq> StateDeleted"
  by (simp_all add: StateAdded_def StateModified_def StateDeleted_def)

lemma index_map_update [simp]: "index_map (updateIndex idx p b) = (index_map idx)(p \<mapsto> b)"
proof
  fix q
  have "find (\<lambda>e. ie_Path e = q \<and> ie_State e \<noteq> StateDeleted) (update_entries es p b) =
      (if q = p then Some (case find (\<lambda>e. ie_Path e = p) es of
          None \<Rightarrow> \<lparr>Fingerprint = 0, ie_ObjectID = b, ie_State = StateAdded, ie_Path = p\<rparr>
        | Some e \<Rightarrow> e\<lparr>ie_ObjectID := b, ie_State := StateModified\<rparr>)
       else find (\<lambda>e. ie_Path e = q \<and> ie_State e \<noteq> StateDeleted) es)" for es
    by (induction es) auto
  then show "index_map (updateIndex idx p b) q = ((index_map idx)(p \<mapsto> b)) q"
    by (simp add: index_map_def updateIndex_def split: option.splits)
qed

lemma index_map_remove [simp]: "index_map (removeFromIndex idx p) = (index_map idx)(p := None)"
proof
  fix q
  have "find (\<lambda>e. ie_Path e = q \<and> ie_State e \<noteq> StateDeleted) (filter (\<lambda>e. ie_Path e \<noteq> p) es) =
      (if q = p then None else find (\<lambda>e. ie_Path e = q \<and> ie_State e \<noteq> StateDeleted) es)" for es :: "Entry list"
    by (induction es) auto
  then show "index_map (removeFromIndex idx p) q = ((index_map idx)(p := None)) q"
    by (cases "q = p") (simp_all add: index_map_def removeFromIndex_def)
qed

section \<open>Reads survive the merge\<close>

text \<open>What was readable stays readable.\<close>

definition keeps :: "reader \<Rightarrow> reader \<Rightarrow> bool" where
  "keeps rd rd' \<longleftrightarrow> (\<forall>i obj. rd i = Inr obj \<longrightarrow> rd' i = Inr obj)"

lemma keeps_refl [simp]: "keeps rd rd"
  by (simp add: keeps_def)

lemma keeps_trans: "keeps a b \<Longrightarrow> keeps b c \<Longrightarrow> keeps a c"
  by (simp add: keeps_def)

text \<open>The file of the working directory for \<open>p\<close> is not an object file.\<close>

definition outside_store :: "Inputs \<Rightarrow> string \<Rightarrow> bool" where
  "outside_store inp p \<longleftrightarrow> (\<forall>i. absPath inp p \<noteq> object_path (in_store inp) i)"

lemma outside_storeD [simp]: "outside_store inp p \<Longrightarrow> object_path (in_store inp) i \<noteq> absPath inp p"
  unfolding outside_store_def by metis

lemma reader_at_cong:
  "(\<And>i. fs' (object_path (in_store inp) i) = fs (object_path (in_store inp) i)) \<Longrightarrow> reader_at inp fs' = reader_at inp fs"
  by (intro ext) (simp add: reader_at_def Store_Read_def)

lemma reader_put_file:
  assumes "outside_store inp p" "put_file inp (absPath inp p) data fs = (fs', r)"
  shows "reader_at inp fs' = reader_at inp fs"
  by (rule reader_at_cong)
     (use assms in \<open>auto simp: put_file_def os_WriteFile_def split: if_splits\<close>)

lemma reader_remove: "outside_store inp p \<Longrightarrow> reader_at inp (os_Remove (absPath inp p) fs) = reader_at inp fs"
  by (rule reader_at_cong) (auto simp: os_Remove_def)

lemma reader_store_write:
  assumes "Store_Write (in_zstd inp) io (in_store inp) obj fs = (fs', r)"
  shows "keeps (reader_at inp fs) (reader_at inp fs')"
proof -
  have "fs' (object_path (in_store inp) i) = fs (object_path (in_store inp) i)" if "fs (object_path (in_store inp) i) \<noteq> None" for i
    using Store_Write_object_files [OF assms, of i] that by auto
  then show ?thesis by (force simp: keeps_def reader_at_def Store_Read_Inr)
qed

section \<open>One path\<close>

definition fc_value :: "fileChange \<Rightarrow> ObjectID option" where
  "fc_value fc = (if changeType fc = Deleted then None else Some (fc_blobID fc))"

lemma applyChange_ok:
  assumes "applyChange inp p fc st = (st', Inr ())" "outside_store inp p"
  shows "index_map (mg_idx st') = (index_map (mg_idx st))(p := fc_value fc) \<and>
         reader_at inp (mg_fs st') = reader_at inp (mg_fs st)"
  using assms reader_remove [OF assms(2)] reader_put_file [OF assms(2)]
  by (auto simp: applyChange_def fc_value_def Let_def split: if_splits prod.splits sum.splits)

lemma mergeFileContent_ok:
  assumes "mergeFileContent n inp p bt ob tb st = Some (Done (st', Inr c))" "outside_store inp p"
  shows "\<exists>bb merged. findBlobInTree n (reader_at inp (mg_fs st)) bt p = Some bb \<and>
     ThreeWayMerge (readBlobData (reader_at inp (mg_fs st)) bb) (readBlobData (reader_at inp (mg_fs st)) ob)
       (readBlobData (reader_at inp (mg_fs st)) tb) (OurLabel inp) (TheirLabel inp) = Some (Done (merged, c)) \<and>
     index_map (mg_idx st') = (index_map (mg_idx st))(p \<mapsto> BlobHash merged) \<and>
     keeps (reader_at inp (mg_fs st)) (reader_at inp (mg_fs st'))"
proof -
  let ?rd = "reader_at inp (mg_fs st)"
  from assms(1) obtain bb merged c' where
    b: "findBlobInTree n ?rd bt p = Some bb"
    and t: "ThreeWayMerge (readBlobData ?rd bb) (readBlobData ?rd ob) (readBlobData ?rd tb) (OurLabel inp) (TheirLabel inp)
        = Some (Done (merged, c'))"
    by (auto simp: mergeFileContent_def Let_def split: option.splits outcome.splits)
  obtain fs1 r1 where f1: "put_file inp (absPath inp p) merged (mg_fs st) = (fs1, r1)" by fastforce
  obtain fs2 r2 where f2: "Store_Write (in_zstd inp) (in_io inp) (in_store inp) (Blob merged) fs1 = (fs2, r2)" by fastforce
  from assms(1) b t f1 f2 have r: "\<exists>b. r2 = Inr b \<and> st' = st\<lparr>mg_fs := fs2, mg_idx := updateIndex (mg_idx st) p b\<rparr>" "c = c'"
    by (auto simp: mergeFileContent_def Let_def split: sum.splits)
  then obtain i where i: "r2 = Inr i" "st' = st\<lparr>mg_fs := fs2, mg_idx := updateIndex (mg_idx st) p i\<rparr>" by blast
  have "i = BlobHash merged" using Store_Write_ok [of "in_zstd inp" "in_io inp" "in_store inp" "Blob merged" fs1 fs2 i] f2 i(1)
    by (simp add: BlobHash_def)
  moreover have "keeps ?rd (reader_at inp fs2)"
    using reader_store_write [OF f2] reader_put_file [OF assms(2) f1] by simp
  ultimately show ?thesis using b t r(2) i(2) by auto
qed

text \<open>What one iteration does to the index and whether it is a conflict.\<close>

definition path_result :: "nat \<Rightarrow> Inputs \<Rightarrow> TreeID \<Rightarrow> fileChange option \<Rightarrow> fileChange option \<Rightarrow> string \<Rightarrow> reader
    \<Rightarrow> ObjectID option \<Rightarrow> ObjectID option \<Rightarrow> bool \<Rightarrow> bool" where
  "path_result n inp bt oc tc p rd old new c \<longleftrightarrow>
     (case (oc, tc) of
        (Some o1, None) \<Rightarrow> new = fc_value o1 \<and> \<not> c
      | (None, Some t1) \<Rightarrow> new = fc_value t1 \<and> \<not> c
      | (None, None) \<Rightarrow> new = old \<and> \<not> c
      | (Some o1, Some t1) \<Rightarrow>
          if fc_blobID o1 = fc_blobID t1 then new = fc_value o1 \<and> \<not> c
          else if changeType o1 = Modified \<and> changeType t1 = Modified then
            (\<exists>bb merged. findBlobInTree n rd bt p = Some bb \<and>
               ThreeWayMerge (readBlobData rd bb) (readBlobData rd (fc_blobID o1)) (readBlobData rd (fc_blobID t1))
                 (OurLabel inp) (TheirLabel inp) = Some (Done (merged, c)) \<and> new = Some (BlobHash merged))
          else new = old \<and> c)"

lemma merge_path_ok:
  assumes "merge_path n inp bt oc tc p st = Some (Done (st', Inr c))" "outside_store inp p"
  shows "path_result n inp bt oc tc p (reader_at inp (mg_fs st)) (index_map (mg_idx st) p) (index_map (mg_idx st') p) c
    \<and> (\<forall>q. q \<noteq> p \<longrightarrow> index_map (mg_idx st') q = index_map (mg_idx st) q)
    \<and> keeps (reader_at inp (mg_fs st)) (reader_at inp (mg_fs st'))"
proof -
  have keep: "index_map (mg_idx st') = (index_map (mg_idx st))(p := fc_value fc) \<and> \<not> c \<and>
      reader_at inp (mg_fs st') = reader_at inp (mg_fs st)"
    if k: "(case applyChange inp p fc st of (st', r) \<Rightarrow> Some (Done (st', bind_res r (\<lambda>_. Inr False)))) = Some (Done (st', Inr c))" for fc
  proof -
    from k have "applyChange inp p fc st = (st', Inr ())" "\<not> c" by (auto simp: bind_res_eq_Inr split: prod.splits)
    with applyChange_ok [OF this(1) assms(2)] show ?thesis by blast
  qed
  show ?thesis
  proof (cases oc; cases tc)
    fix o1 t1
    assume ot: "oc = Some o1" "tc = Some t1"
    show ?thesis
    proof (cases "fc_blobID o1 = fc_blobID t1")
      case True
      with assms(1) ot keep [of o1] show ?thesis by (auto simp: merge_path_def path_result_def Let_def)
    next
      case False
      show ?thesis
      proof (cases "changeType o1 = Modified \<and> changeType t1 = Modified")
        case True
        with assms(1) ot False have "mergeFileContent n inp p bt (fc_blobID o1) (fc_blobID t1) st = Some (Done (st', Inr c))"
          by (simp add: merge_path_def)
        from mergeFileContent_ok [OF this assms(2)] ot True False show ?thesis by (auto simp: path_result_def)
      next
        case structural: False
        with assms(1) ot False show ?thesis by (auto simp: merge_path_def path_result_def)
      qed
    qed
  qed (use assms(1) keep in \<open>auto simp: merge_path_def path_result_def Let_def\<close>)
qed


section \<open>All paths\<close>

lemma merge_paths_ok:
  "merge_paths n inp bt ours theirs ps cs st = Some (Done (st', Inr cs')) \<Longrightarrow> distinct ps \<Longrightarrow>
   \<forall>p \<in> set ps. outside_store inp p \<Longrightarrow> set cs \<inter> set ps = {} \<Longrightarrow>
   (\<forall>q. q \<notin> set ps \<longrightarrow> index_map (mg_idx st') q = index_map (mg_idx st) q \<and> (q \<in> set cs' \<longleftrightarrow> q \<in> set cs)) \<and>
   (\<forall>p \<in> set ps. \<exists>rd. keeps (reader_at inp (mg_fs st)) rd \<and>
      path_result n inp bt (ours p) (theirs p) p rd (index_map (mg_idx st) p) (index_map (mg_idx st') p) (p \<in> set cs'))"
proof (induction ps arbitrary: cs st)
  case Nil
  then show ?case by auto
next
  case (Cons p ps)
  from Cons.prems(1) obtain st1 c where m: "merge_path n inp bt (ours p) (theirs p) p st = Some (Done (st1, Inr c))"
    and r: "merge_paths n inp bt ours theirs ps (if c then cs @ [p] else cs) st1 = Some (Done (st', Inr cs'))"
    by (auto split: option.splits outcome.splits prod.splits sum.splits)
  note first = merge_path_ok [OF m]
  have "distinct ps" "\<forall>p \<in> set ps. outside_store inp p" "set (if c then cs @ [p] else cs) \<inter> set ps = {}"
    using Cons.prems(2,3,4) by auto
  note rest = Cons.IH [OF r this]
  have p: "outside_store inp p" "p \<notin> set ps" "p \<notin> set cs" using Cons.prems(2,3,4) by auto
  have at_p: "index_map (mg_idx st') p = index_map (mg_idx st1) p" "p \<in> set cs' \<longleftrightarrow> c"
    using rest p by (auto split: if_splits)
  show ?case
  proof (intro conjI allI impI ballI)
    fix q
    assume "q \<notin> set (p # ps)"
    then have "q \<noteq> p" "q \<notin> set ps" by auto
    then show "index_map (mg_idx st') q = index_map (mg_idx st) q" "q \<in> set cs' \<longleftrightarrow> q \<in> set cs"
      using rest first [OF p(1)] by (auto split: if_splits)
  next
    fix q
    assume q: "q \<in> set (p # ps)"
    show "\<exists>rd. keeps (reader_at inp (mg_fs st)) rd \<and>
      path_result n inp bt (ours q) (theirs q) q rd (index_map (mg_idx st) q) (index_map (mg_idx st') q) (q \<in> set cs')"
    proof (cases "q = p")
      case True
      with first [OF p(1)] at_p show ?thesis by (intro exI [of _ "reader_at inp (mg_fs st)"]) simp
    next
      case False
      with q have "q \<in> set ps" by simp
      then obtain rd where rd: "keeps (reader_at inp (mg_fs st1)) rd"
        "path_result n inp bt (ours q) (theirs q) q rd (index_map (mg_idx st1) q) (index_map (mg_idx st') q) (q \<in> set cs')"
        using rest by blast
      moreover have "keeps (reader_at inp (mg_fs st)) rd" using first [OF p(1)] rd(1) keeps_trans by blast
      moreover have "index_map (mg_idx st1) q = index_map (mg_idx st) q" using first [OF p(1)] False by blast
      ultimately show ?thesis by metis
    qed
  qed
qed

text \<open>The change recorded for a path, read off the two file maps.\<close>

definition change_at :: "file_map \<Rightarrow> file_map \<Rightarrow> string \<Rightarrow> fileChange option" where
  "change_at old new p = (case (old p, new p) of
      (Some ob, None) \<Rightarrow> Some \<lparr>changeType = Deleted, fc_blobID = 0\<rparr>
    | (Some ob, Some nb) \<Rightarrow> if ob \<noteq> nb then Some \<lparr>changeType = Modified, fc_blobID = nb\<rparr> else None
    | (None, Some nb) \<Rightarrow> Some \<lparr>changeType = Added, fc_blobID = nb\<rparr>
    | (None, None) \<Rightarrow> None)"

lemma fold_change_map:
  "\<forall>d \<in> set ds. \<exists>p. d \<in> set (diff_at old new p) \<Longrightarrow>
     fold (\<lambda>d m. m(FileDiff_Path d \<mapsto> \<lparr>changeType = fd_Type d, fc_blobID = NewBlob d\<rparr>)) ds m =
     (\<lambda>p. if p \<in> FileDiff_Path ` set ds then change_at old new p else m p)"
proof (induction ds arbitrary: m)
  case (Cons d ds)
  then obtain p where p: "d \<in> set (diff_at old new p)" by auto
  have "FileDiff_Path d = p" using diff_at_path [OF p] .
  moreover have "change_at old new p = Some \<lparr>changeType = fd_Type d, fc_blobID = NewBlob d\<rparr>"
    using p by (cases "old p"; cases "new p") (auto simp: diff_at_cases change_at_def split: if_splits)
  ultimately show ?case using Cons by (auto simp: fun_eq_iff)
qed simp

lemma change_map_diff:
  assumes "key_order ord" "finite (dom old)" "finite (dom new)"
  shows "change_map (diff_maps ord old new) = change_at old new"
proof -
  note s = set_diff_maps [OF assms]
  have "\<forall>d \<in> set (diff_maps ord old new). \<exists>p. d \<in> set (diff_at old new p)" unfolding s by blast
  note f = fold_change_map [OF this]
  have "p \<in> FileDiff_Path ` set (diff_maps ord old new)" if ne: "change_at old new p \<noteq> None" for p
  proof -
    have "diff_at old new p \<noteq> []" using ne
      by (cases "old p"; cases "new p") (auto simp: diff_at_cases change_at_def split: if_splits)
    then obtain d where "d \<in> set (diff_at old new p)" by (cases "diff_at old new p") auto
    moreover from this have "FileDiff_Path d = p" by (rule diff_at_path)
    ultimately show ?thesis unfolding s by blast
  qed
  then show ?thesis unfolding change_map_def f by (intro ext) metis
qed

lemma keeps_readTree: "keeps rd rd' \<Longrightarrow> readTree rd t = Inr es \<Longrightarrow> readTree rd' t = Inr es"
  by (simp add: keeps_def readTree_iff)

lemma collectTreeFiles_keeps:
  shows "collectFiles n rd t prefix m = Some (m', None) \<Longrightarrow> keeps rd rd' \<Longrightarrow> collectTreeFiles n rd' t prefix m = Some (m', None)"
    and "collect_entries n rd es prefix m = Some (m', None) \<Longrightarrow> keeps rd rd' \<Longrightarrow> collect_tree_entries n rd' es prefix m = Some (m', None)"
proof (induction n rd t prefix m and n rd es prefix m arbitrary: m' and m' rule: collectFiles_collect_entries.induct)
  case (2 n rd t prefix m)
  then show ?case using keeps_readTree [of rd rd' t] by (auto split: sum.splits)
next
  case (4 n rd e es prefix m)
  from "4.prems"(1) show ?case
  proof (cases rule: collect_entries_ConsE)
    case (subtree m1 r1)
    then have c: "collectFiles n rd (te_Hash e) ((prefix @ te_Name e) @ ''/'') m = Some (m1, None)"
        "collect_entries n rd es prefix m1 = Some (m', None)" by (auto split: if_splits)
    from "4.IH"(1) [OF refl subtree(1) c(1) "4.prems"(2)] "4.IH"(2) [OF refl subtree(1) c(1) refl refl c(2) "4.prems"(2)] subtree(1)
    show ?thesis by (simp add: Let_def)
  next
    case leaf
    from "4.IH"(3) [OF refl leaf "4.prems"(2)] leaf(1) show ?thesis by (simp add: Let_def fun_upd_def)
  qed
qed auto

lemma findBlob_keeps:
  assumes "tree_map n rd t = Some (Inr m)" "m p = Some i" "keeps rd rd'"
  shows "findBlobInTree n rd' t p = Some i"
  using assms collectTreeFiles_keeps(1) [of n rd t "[]" Map.empty m rd']
  by (auto simp: tree_map_def findBlobInTree_def split: if_splits option.splits)


section \<open>The abstract merge\<close>

text \<open>The specification of a three-way merge of one path: a side that left the path alone yields to the
  other, equal changes agree, and everything else needs a decision. The value of a path is its blob, or
  \<open>None\<close> where it does not exist.\<close>

definition merge3 :: "'a option \<Rightarrow> 'a option \<Rightarrow> 'a option \<Rightarrow> 'a option option" where
  "merge3 b u t = (if u = b then Some t else if t = b then Some u else if u = t then Some u else None)"

text \<open>What the engine's \<^verbatim>\<open>switch\<close> decides about one path, in terms of the three file maps.\<close>

lemma path_result_spec:
  assumes pr: "path_result n inp bt (change_at b u p) (change_at b t p) p rd (u p) new c"
    and nz: "u p \<noteq> Some 0" "t p \<noteq> Some 0"
  shows "case merge3 (b p) (u p) (t p) of
      Some v \<Rightarrow> new = v \<and> \<not> c
    | None \<Rightarrow>
       (case (b p, u p, t p) of
          (Some bb, Some ub, Some tb) \<Rightarrow>
            \<exists>bb' merged. findBlobInTree n rd bt p = Some bb' \<and>
               ThreeWayMerge (readBlobData rd bb') (readBlobData rd ub) (readBlobData rd tb) (OurLabel inp) (TheirLabel inp)
                 = Some (Done (merged, c)) \<and> new = Some (BlobHash merged)
        | _ \<Rightarrow> new = u p \<and> c)"
  using pr nz
  by (cases "b p"; cases "u p"; cases "t p")
     (auto simp: path_result_def change_at_def merge3_def fc_value_def split: if_splits)

lemma threeWay_Inr:
  assumes "threeWay ord n retries inp base st = Some (Done (st', Inr out))"
  obtains cb cu ct diffOurs diffTheirs stp where
    "readCommit (reader_at inp (mg_fs st)) base = Inr cb"
    "readCommit (reader_at inp (mg_fs st)) (OurCommit inp) = Inr cu"
    "readCommit (reader_at inp (mg_fs st)) (TheirCommit inp) = Inr ct"
    "DiffTrees ord n (reader_at inp (mg_fs st)) (TreeHash cb) (TreeHash cu) = Some (Inr diffOurs)"
    "DiffTrees ord n (reader_at inp (mg_fs st)) (TreeHash cb) (TreeHash ct) = Some (Inr diffTheirs)"
    "merge_paths n inp (TreeHash cb) (change_map diffOurs) (change_map diffTheirs)
       (ord (dom (change_map diffOurs) \<union> dom (change_map diffTheirs))) [] st = Some (Done (stp, Inr (Conflicts out)))"
    "mg_idx st' = mg_idx stp" "Result_kind out = (if Conflicts out = [] then Success else Conflict)"
proof -
  let ?rd = "reader_at inp (mg_fs st)"
  obtain cb where cb: "readCommit ?rd base = Inr cb" using assms
    by (cases "readCommit ?rd base") (auto simp: threeWay_def Let_def)
  obtain cu where cu: "readCommit ?rd (OurCommit inp) = Inr cu" using assms cb
    by (cases "readCommit ?rd (OurCommit inp)") (auto simp: threeWay_def Let_def)
  obtain ct where ct: "readCommit ?rd (TheirCommit inp) = Inr ct" using assms cb cu
    by (cases "readCommit ?rd (TheirCommit inp)") (auto simp: threeWay_def Let_def)
  obtain d1 where d1: "DiffTrees ord n ?rd (TreeHash cb) (TreeHash cu) = Some (Inr d1)" using assms cb cu ct
    by (auto simp: threeWay_def Let_def split: option.splits sum.splits)
  obtain d2 where d2: "DiffTrees ord n ?rd (TreeHash cb) (TreeHash ct) = Some (Inr d2)" using assms cb cu ct d1
    by (auto simp: threeWay_def Let_def split: option.splits sum.splits)
  let ?m = "merge_paths n inp (TreeHash cb) (change_map d1) (change_map d2) (ord (dom (change_map d1) \<union> dom (change_map d2))) [] st"
  obtain stp cs where m: "?m = Some (Done (stp, Inr cs))" and f: "finish_merge retries inp cs stp = (st', Inr out)"
    using assms cb cu ct d1 d2
    by (auto simp: threeWay_def Let_def split: option.splits outcome.splits prod.splits sum.splits)
  have "mg_idx st' = mg_idx stp" "Conflicts out = cs" "Result_kind out = (if cs = [] then Success else Conflict)"
    using f by (auto simp: finish_merge_def Let_def split: if_splits prod.splits sum.splits)
  with m show ?thesis by (intro that [OF cb cu ct d1 d2]) auto
qed

lemma DiffTrees_maps:
  "DiffTrees ord n rd a b = Some (Inr ds) \<Longrightarrow> tree_map n rd a = Some (Inr old) \<Longrightarrow> tree_map n rd b = Some (Inr new) \<Longrightarrow>
   key_order ord \<Longrightarrow> change_map ds = change_at old new \<and> finite (dom (change_map ds))"
proof -
  assume d: "DiffTrees ord n rd a b = Some (Inr ds)" "tree_map n rd a = Some (Inr old)" "tree_map n rd b = Some (Inr new)" "key_order ord"
  then have f: "finite (dom old)" "finite (dom new)" "ds = diff_maps ord old new"
    using tree_map_finite by (auto simp: DiffTrees_def)
  have "dom (change_at old new) \<subseteq> dom old \<union> dom new" by (auto simp: change_at_def split: option.splits)
  with f change_map_diff [OF d(4) f(1,2)] show ?thesis by (metis finite_UnI finite_subset)
qed

section \<open>Checkout\<close>

lemma collect_add:
  shows "collectFiles n rd t prefix m = Some (m', None) \<Longrightarrow> collectFiles n rd t prefix (w ++ m) = Some (w ++ m', None)"
    and "collect_entries n rd es prefix m = Some (m', None) \<Longrightarrow> collect_entries n rd es prefix (w ++ m) = Some (w ++ m', None)"
proof (induction n rd t prefix m and n rd es prefix m arbitrary: m' and m' rule: collectFiles_collect_entries.induct)
  case (2 n rd t prefix m)
  then show ?case by (auto split: sum.splits)
next
  case (4 n rd e es prefix m)
  from "4.prems" show ?case
  proof (cases rule: collect_entries_ConsE)
    case (subtree m1 r1)
    then have c: "collectFiles n rd (te_Hash e) ((prefix @ te_Name e) @ ''/'') m = Some (m1, None)"
        "collect_entries n rd es prefix m1 = Some (m', None)" by (auto split: if_splits)
    from "4.IH"(1) [OF refl subtree(1) c(1)] "4.IH"(2) [OF refl subtree(1) c(1) refl refl c(2)] subtree(1)
    show ?thesis by (simp add: collect_entries.simps Let_def)
  next
    case leaf
    have "collect_entries n rd es prefix ((w ++ m)(prefix @ te_Name e \<mapsto> te_Hash e)) = Some (w ++ m', None)"
      using "4.IH"(3) [OF refl leaf] by (simp only: map_add_upd)
    with leaf(1) show ?thesis by (simp only: collect_entries.simps Let_def if_False)
  qed
qed auto

text \<open>The files written so far (\<open>w\<close>) are on disk with the contents of their blobs.\<close>

definition on_disk :: "Inputs \<Rightarrow> reader \<Rightarrow> file_map \<Rightarrow> fs \<Rightarrow> bool" where
  "on_disk inp rd w fs \<longleftrightarrow> (\<forall>p h. w p = Some h \<longrightarrow> (\<exists>d. rd h = Inr (Blob d) \<and> fs (absPath inp p) = Some d))"

definition checked_out :: "Inputs \<Rightarrow> reader \<Rightarrow> string set \<Rightarrow> file_map \<Rightarrow> mstate \<Rightarrow> bool" where
  "checked_out inp rd D w st \<longleftrightarrow> reader_at inp (mg_fs st) = rd \<and> dom w \<subseteq> D \<and> on_disk inp rd w (mg_fs st)"

lemma readBlobObj_iff: "readBlobObj rd h = Inr d \<longleftrightarrow> rd h = Inr (Blob d)"
  by (cases "rd h"; cases "projr (rd h)") (auto simp: readBlobObj_def)

lemma checkout_write:
  assumes "os_WriteFile (in_io inp) (absPath inp p) d (mg_fs st) = (fs1, Inr u)" "rd h = Inr (Blob d)"
    and "checked_out inp rd D w st" "p \<in> D" "\<forall>p \<in> D. outside_store inp p" "inj_on (absPath inp) D"
  shows "checked_out inp rd D (w(p \<mapsto> h)) (st\<lparr>mg_fs := fs1, mg_idx := i\<rparr>) \<and> (\<forall>a. a \<notin> absPath inp ` D \<longrightarrow> fs1 a = mg_fs st a)"
proof -
  have fs1: "fs1 = (mg_fs st)(absPath inp p \<mapsto> d)" using assms(1) by (auto simp: os_WriteFile_def split: if_splits)
  have "reader_at inp fs1 = reader_at inp (mg_fs st)"
    by (rule reader_at_cong) (use assms(4,5) fs1 in simp)
  moreover have "absPath inp q \<noteq> absPath inp p" if "q \<in> dom w" "q \<noteq> p" for q
    using assms(3,4,6) that by (auto simp: checked_out_def inj_on_def)
  ultimately show ?thesis using assms(2-4) fs1 by (fastforce simp: checked_out_def on_disk_def)
qed

lemma checkout_ok:
  shows "checkoutTreeEntries n inp t prefix st = Some (st', Inr ()) \<Longrightarrow> checked_out inp rd D w st \<Longrightarrow>
      \<forall>q h. file_at rd t q h \<longrightarrow> prefix @ q \<in> D \<Longrightarrow> \<forall>p \<in> D. outside_store inp p \<Longrightarrow> inj_on (absPath inp) D \<Longrightarrow>
      collectFiles n rd t prefix (index_map (mg_idx st)) = Some (index_map (mg_idx st'), None) \<and>
      (\<exists>w'. collectFiles n rd t prefix w = Some (w', None) \<and> checked_out inp rd D w' st') \<and>
      (\<forall>a. a \<notin> absPath inp ` D \<longrightarrow> mg_fs st' a = mg_fs st a)"
    and "checkout_entries n inp es prefix st = Some (st', Inr ()) \<Longrightarrow> checked_out inp rd D w st \<Longrightarrow>
      \<forall>q h. entry_at rd es q h \<longrightarrow> prefix @ q \<in> D \<Longrightarrow> \<forall>p \<in> D. outside_store inp p \<Longrightarrow> inj_on (absPath inp) D \<Longrightarrow>
      collect_entries n rd es prefix (index_map (mg_idx st)) = Some (index_map (mg_idx st'), None) \<and>
      (\<exists>w'. collect_entries n rd es prefix w = Some (w', None) \<and> checked_out inp rd D w' st') \<and>
      (\<forall>a. a \<notin> absPath inp ` D \<longrightarrow> mg_fs st' a = mg_fs st a)"
proof (induction n inp t prefix st and n inp es prefix st arbitrary: w st' and w st'
    rule: checkoutTreeEntries_checkout_entries.induct)
  case (2 n inp t prefix st)
  have rd: "reader_at inp (mg_fs st) = rd" using "2.prems"(2) by (simp add: checked_out_def)
  with "2.prems"(1) obtain es where es: "readTree rd t = Inr es" "checkout_entries n inp es prefix st = Some (st', Inr ())"
    by (auto split: sum.splits)
  have "\<forall>q h. entry_at rd es q h \<longrightarrow> prefix @ q \<in> D"
    using "2.prems"(3) es(1) by (auto simp: file_at_entry readTree_iff)
  from "2.IH" [OF es(1) [folded rd] es(2) "2.prems"(2) this "2.prems"(4,5)] es(1) show ?case by simp
next
  case (3 n inp prefix st)
  then show ?case by auto
next
  case (4 n inp e es prefix st)
  let ?p = "prefix @ te_Name e"
  have rd: "reader_at inp (mg_fs st) = rd" using "4.prems"(2) by (simp add: checked_out_def)
  have rest: "\<forall>q h. entry_at rd es q h \<longrightarrow> prefix @ q \<in> D" using "4.prems"(3) entry_at_mono by blast
  show ?case
  proof (cases "te_Mode e = modeSubtree")
    case True
    with "4.prems"(1) obtain st1 where c: "checkoutTreeEntries n inp (te_Hash e) (?p @ ''/'') st = Some (st1, Inr ())"
        "checkout_entries n inp es prefix st1 = Some (st', Inr ())"
      by (auto simp: Let_def split: option.splits sum.splits)
    have "\<forall>q h. file_at rd (te_Hash e) q h \<longrightarrow> (?p @ ''/'') @ q \<in> D"
      using "4.prems"(3) True by (auto simp: entry_at_Cons)
    note first = "4.IH"(1) [OF refl True c(1) "4.prems"(2) this "4.prems"(4,5)]
    then obtain w1 where w1: "collectFiles n rd (te_Hash e) (?p @ ''/'') w = Some (w1, None)" "checked_out inp rd D w1 st1" by blast
    note second = "4.IH"(2) [OF refl True c(1) refl refl c(2) w1(2) rest "4.prems"(4,5)]
    from first second w1 True show ?thesis by (simp add: collect_entries.simps Let_def)
  next
    case False
    obtain d where d: "readBlobObj rd (te_Hash e) = Inr d" using "4.prems"(1) False rd
      by (cases "readBlobObj rd (te_Hash e)") (auto simp: Let_def)
    obtain fs1 u where f: "os_WriteFile (in_io inp) (absPath inp ?p) d (mg_fs st) = (fs1, Inr u)"
      using "4.prems"(1) False rd d by (cases "os_WriteFile (in_io inp) (absPath inp ?p) d (mg_fs st)") (auto simp: Let_def split: sum.splits)
    let ?st = "st\<lparr>mg_fs := fs1, mg_idx := updateIndex (mg_idx st) ?p (te_Hash e)\<rparr>"
    have c: "checkout_entries n inp es prefix ?st = Some (st', Inr ())" using "4.prems"(1) False rd d f by (simp add: Let_def)
    have "entry_at rd (e # es) (te_Name e) (te_Hash e)" using False by (simp add: entry_at_Cons)
    with "4.prems"(3) have "?p \<in> D" by blast
    then have w: "checked_out inp rd D (w(?p \<mapsto> te_Hash e)) ?st" "\<forall>a. a \<notin> absPath inp ` D \<longrightarrow> fs1 a = mg_fs st a"
      using checkout_write [OF f _ "4.prems"(2)] d "4.prems"(4,5) by (auto simp: readBlobObj_iff)
    have "readBlobObj (reader_at inp (mg_fs st)) (te_Hash e) = Inr d" using d rd by simp
    from "4.IH"(3) [OF refl False this f [symmetric] refl c w(1) rest "4.prems"(4,5)] w(2) False show ?thesis
      by (simp add: collect_entries.simps Let_def fun_upd_def)
  qed
qed simp

lemma checkoutTree_ok:
  assumes "checkoutTree n inp t st = Some (st', Inr ())" "names_ok (reader_at inp (mg_fs st))"
    and D: "D = {p. \<exists>h. file_at (reader_at inp (mg_fs st)) t p h}" "\<forall>p \<in> D. outside_store inp p" "inj_on (absPath inp) D"
  obtains m where "\<forall>p h. m p = Some h \<longleftrightarrow> file_at (reader_at inp (mg_fs st)) t p h"
    "index_map (mg_idx st') = index_map (mg_idx st) ++ m"
    "on_disk inp (reader_at inp (mg_fs st)) m (mg_fs st')"
    "\<forall>a. a \<notin> absPath inp ` D \<longrightarrow> mg_fs st' a = mg_fs st a"
proof -
  let ?rd = "reader_at inp (mg_fs st)"
  have co: "checked_out inp ?rd D Map.empty st" by (simp add: checked_out_def on_disk_def)
  have fD: "\<forall>q h. file_at ?rd t q h \<longrightarrow> [] @ q \<in> D" by (auto simp: D(1))
  note ok = checkout_ok(1) [OF assms(1) [unfolded checkoutTree_def] co fD D(2,3)]
  then obtain m where m: "collectFiles n ?rd t [] Map.empty = Some (m, None)" "checked_out inp ?rd D m st'" by blast
  have "collectFiles n ?rd t [] (index_map (mg_idx st)) = Some (index_map (mg_idx st) ++ m, None)"
    using collect_add(1) [OF m(1), of "index_map (mg_idx st)"] by simp
  then have "index_map (mg_idx st') = index_map (mg_idx st) ++ m" using ok by simp
  with m ok collect_exact [OF m(1) assms(2)] show ?thesis by (intro that [of m]) (auto simp: checked_out_def)
qed

section \<open>Properties\<close>

lemma three_way_spec:
  assumes run: "threeWay ord n retries inp base st = Some (Done (st', Inr out))" and ord: "key_order ord"
    and commits: "readCommit (reader_at inp (mg_fs st)) base = Inr cb"
      "readCommit (reader_at inp (mg_fs st)) (OurCommit inp) = Inr cu"
      "readCommit (reader_at inp (mg_fs st)) (TheirCommit inp) = Inr ct"
    and trees: "tree_map n (reader_at inp (mg_fs st)) (TreeHash cb) = Some (Inr b)"
      "tree_map n (reader_at inp (mg_fs st)) (TreeHash cu) = Some (Inr u)"
      "tree_map n (reader_at inp (mg_fs st)) (TreeHash ct) = Some (Inr t)"
    and blobs: "\<And>p h. b p = Some h \<or> u p = Some h \<or> t p = Some h \<Longrightarrow>
      h \<noteq> 0 \<and> (\<exists>d. reader_at inp (mg_fs st) h = Inr (Blob d)) \<and> outside_store inp p"
    and clean: "index_map (mg_idx st) = u"
  shows "(case merge3 (b p) (u p) (t p) of
      Some v \<Rightarrow> index_map (mg_idx st') p = v \<and> p \<notin> set (Conflicts out)
    | None \<Rightarrow>
       (case (b p, u p, t p) of
          (Some bb, Some ub, Some tb) \<Rightarrow>
            \<exists>merged. ThreeWayMerge (readBlobData (reader_at inp (mg_fs st)) bb) (readBlobData (reader_at inp (mg_fs st)) ub)
                 (readBlobData (reader_at inp (mg_fs st)) tb) (OurLabel inp) (TheirLabel inp)
                 = Some (Done (merged, p \<in> set (Conflicts out)))
               \<and> index_map (mg_idx st') p = Some (BlobHash merged)
        | _ \<Rightarrow> index_map (mg_idx st') p = u p \<and> p \<in> set (Conflicts out)))
    \<and> Result_kind out = (if Conflicts out = [] then Success else Conflict)"
proof -
  let ?rd = "reader_at inp (mg_fs st)"
  obtain d1 d2 stp where d1: "DiffTrees ord n ?rd (TreeHash cb) (TreeHash cu) = Some (Inr d1)"
    and d2: "DiffTrees ord n ?rd (TreeHash cb) (TreeHash ct) = Some (Inr d2)"
    and m: "merge_paths n inp (TreeHash cb) (change_map d1) (change_map d2) (ord (dom (change_map d1) \<union> dom (change_map d2))) [] st
         = Some (Done (stp, Inr (Conflicts out)))"
    and e: "mg_idx st' = mg_idx stp" "Result_kind out = (if Conflicts out = [] then Success else Conflict)"
    using run commits by (elim threeWay_Inr) auto
  have cm: "change_map d1 = change_at b u" "change_map d2 = change_at b t" "finite (dom (change_map d1))" "finite (dom (change_map d2))"
    using DiffTrees_maps [OF d1 trees(1,2) ord] DiffTrees_maps [OF d2 trees(1,3) ord] by auto
  let ?ps = "ord (dom (change_at b u) \<union> dom (change_at b t))"
  have ps: "set ?ps = dom (change_at b u) \<union> dom (change_at b t)" "distinct ?ps"
    using ord cm unfolding key_order_def by auto
  have out: "\<forall>p \<in> set ?ps. outside_store inp p"
    unfolding ps(1) using blobs by (fastforce simp: change_at_def split: option.splits if_splits)
  note mp = merge_paths_ok [OF m [unfolded cm(1,2)] ps(2) out]
  have "\<exists>rd. keeps ?rd rd \<and> path_result n inp (TreeHash cb) (change_at b u p) (change_at b t p) p rd
      (u p) (index_map (mg_idx st') p) (p \<in> set (Conflicts out))"
  proof (cases "p \<in> set ?ps")
    case True
    with mp clean e(1) show ?thesis by auto
  next
    case False
    then have "change_at b u p = None" "change_at b t p = None" unfolding ps(1) by auto
    with mp False clean e(1) show ?thesis by (intro exI [of _ ?rd]) (simp add: path_result_def)
  qed
  then obtain rd where rd: "keeps ?rd rd" and pr: "path_result n inp (TreeHash cb) (change_at b u p) (change_at b t p) p rd
      (u p) (index_map (mg_idx st') p) (p \<in> set (Conflicts out))" by blast
  have nz: "u p \<noteq> Some 0" "t p \<noteq> Some 0" using blobs by blast+
  have same: "readBlobData rd h = readBlobData ?rd h" if "b p = Some h \<or> u p = Some h \<or> t p = Some h" for h
    using blobs [OF that] rd by (auto simp: readBlobData_def keeps_def)
  have base: "findBlobInTree n rd (TreeHash cb) p = Some h" if "b p = Some h" for h
    using findBlob_keeps [OF trees(1) that rd] .
  from path_result_spec [OF pr nz] same base e(2) show ?thesis by (auto split: option.splits)
qed



text \<open>A history with one commit of the empty tree.\<close>

definition sample_root :: Object where
  "sample_root = CommitObj \<lparr>TreeHash = 0, Parents = [], Author = ''a'', Message = ''m'', Timestamp = 0\<rparr>"

definition sample_inputs :: Inputs where
  "sample_inputs = \<lparr>in_zstd = zstd_id, in_io = io_ok, in_rm = \<lambda>_. True, in_VaraDir = ''/r/.vara'', in_RootDir = ''/r'',
     OurCommit = Compute (Serialize sample_root), TheirCommit = Compute (Serialize sample_root), OurLabel = ''a'', TheirLabel = ''b''\<rparr>"

definition one_object :: "Object \<Rightarrow> fs" where
  "one_object obj = [object_path (in_store sample_inputs) (Compute (Serialize obj)) \<mapsto> Serialize obj]"

lemma one_object_read:
  "wf_object obj \<Longrightarrow> reader_at sample_inputs (one_object obj) i =
     (if i = Compute (Serialize obj) then Inr obj else Inl ErrObjectNotFound)"
  by (auto simp: reader_at_def Store_Read_def sample_inputs_def one_object_def zstd_id_def objects.dec_enc)


text \<open>What a checkout, and so a fast-forward, leaves: every file of the tree is in the index with its blob
  and on disk with the content of that blob, and nothing else changes. In particular an entry and a file that
  the tree does not have any more stay in the index and on disk: the result is the old index overlaid with the
  tree, not the tree.\<close>

theorem checkout_overlays:
  assumes "checkoutTree n inp t st = Some (st', Inr ())" "names_ok (reader_at inp (mg_fs st))"
    and "\<forall>p h. file_at (reader_at inp (mg_fs st)) t p h \<longrightarrow> outside_store inp p"
    and "inj_on (absPath inp) {p. \<exists>h. file_at (reader_at inp (mg_fs st)) t p h}"
  shows "\<exists>m. (\<forall>p h. m p = Some h \<longleftrightarrow> file_at (reader_at inp (mg_fs st)) t p h)
    \<and> index_map (mg_idx st') = index_map (mg_idx st) ++ m
    \<and> (\<forall>p h. m p = Some h \<longrightarrow> (\<exists>d. reader_at inp (mg_fs st) h = Inr (Blob d) \<and> mg_fs st' (absPath inp p) = Some d))
    \<and> (\<forall>a. a \<notin> absPath inp ` dom m \<longrightarrow> mg_fs st' a = mg_fs st a)"
proof -
  let ?D = "{p. \<exists>h. file_at (reader_at inp (mg_fs st)) t p h}"
  have "\<forall>p \<in> ?D. outside_store inp p" using assms(3) by blast
  from checkoutTree_ok [OF assms(1,2) refl this assms(4)] obtain m where
    m: "\<forall>p h. m p = Some h \<longleftrightarrow> file_at (reader_at inp (mg_fs st)) t p h"
    "index_map (mg_idx st') = index_map (mg_idx st) ++ m"
    "on_disk inp (reader_at inp (mg_fs st)) m (mg_fs st')"
    "\<forall>a. a \<notin> absPath inp ` ?D \<longrightarrow> mg_fs st' a = mg_fs st a" .
  have D: "?D = dom m" using m(1) by auto
  show ?thesis
  proof (intro exI [of _ m] conjI)
    show "\<forall>p h. m p = Some h \<longrightarrow> (\<exists>d. reader_at inp (mg_fs st) h = Inr (Blob d) \<and> mg_fs st' (absPath inp p) = Some d)"
      using m(3) by (simp add: on_disk_def)
    show "\<forall>a. a \<notin> absPath inp ` dom m \<longrightarrow> mg_fs st' a = mg_fs st a" using m(4) unfolding D .
  qed (use m in blast)+
qed

theorem checkout_overlays_witness:
  "\<exists>st'. checkoutTree (Suc 0) sample_inputs (Compute (Serialize (Tree [])))
       \<lparr>mg_fs = one_object (Tree []), mg_idx = updateIndex New ''gone'' 5\<rparr> = Some (st', Inr ())
     \<and> index_map (mg_idx st') ''gone'' = Some 5"
proof -
  let ?st = "\<lparr>mg_fs = one_object (Tree []), mg_idx = updateIndex New ''gone'' 5\<rparr>"
  let ?t = "Compute (Serialize (Tree []))"
  have rd: "reader_at sample_inputs (mg_fs ?st) i = (if i = ?t then Inr (Tree []) else Inl ErrObjectNotFound)" for i
    using one_object_read [of "Tree []" i] by simp
  have run: "checkoutTree (Suc 0) sample_inputs ?t ?st = Some (?st, Inr ())"
    by (simp add: checkoutTree_def readTree_def one_object_read del: Serialize.simps)
  have none: "\<not> file_at (reader_at sample_inputs (mg_fs ?st)) ?t p h" for p h
    by (subst file_at_entry) (simp add: one_object_read entry_at_def del: Serialize.simps)
  have "es = []" if "reader_at sample_inputs (mg_fs ?st) i = Inr (Tree es)" for i es
    using that unfolding rd by (cases "i = ?t") simp_all
  then have "names_ok (reader_at sample_inputs (mg_fs ?st))"
    unfolding names_ok_def by fastforce
  from checkout_overlays [OF run this] none obtain m where
    m: "\<forall>p h. m p = Some h \<longleftrightarrow> file_at (reader_at sample_inputs (mg_fs ?st)) ?t p h"
       "index_map (mg_idx ?st) = index_map (mg_idx ?st) ++ m" by auto
  have "m = Map.empty" using m(1) none by (intro ext) (metis option.exhaust)
  with run show ?thesis by auto
qed

text \<open>Entry names are not validated: a tree object whose entry is called \<^verbatim>\<open>../evil\<close> decodes without error,
  and the path a checkout writes for it lies outside the working directory.\<close>

theorem checkout_escapes_root:
  "let es = [\<lparr>te_Mode = 33188, te_Hash = h, te_Name = ''../evil''\<rparr>] in
   Deserialize (Serialize (Tree es)) = Inr (Tree es) \<and> absPath (inp\<lparr>in_RootDir := ''/home/u''\<rparr>) ''../evil'' = ''/home/evil''"
proof -
  have "filepath_Join ''/home/u'' ''../evil'' = ''/home/evil''" by code_simp
  then show ?thesis
    using objects.dec_enc [of "Tree [\<lparr>te_Mode = 33188, te_Hash = h, te_Name = ''../evil''\<rparr>]"]
    by (simp add: absPath_def Let_def del: Serialize.simps)
qed

end
