(* ===== verification/Tree_Build.thy ===== *)
theory Tree_Build
  imports Merge_Engine Go_Strings "HOL-Library.AList"
begin

text \<open>
  \<^verbatim>\<open>pkg/tree\<close> and \<^verbatim>\<open>pkg/builder\<close>: from the index to tree and commit objects. The children of a node are a Go map: an
  association list here, updated in place of an old key, and visited in an order the language leaves open, the argument
  \<open>ord\<close> of \<open>visit\<close>, which puts the children of every node in that order. A step through a node that is a file assigns
  to a nil map, which panics: the result of the step is \<open>None\<close>.
\<close>

section \<open>Nodes\<close>

datatype Node = BlobNode ObjectID u32 | DirNode "(string \<times> Node) list"

definition blobMode :: u32 where "blobMode = 33188"

fun insert_path :: "string list \<Rightarrow> Node \<Rightarrow> Node \<Rightarrow> Node option" where
  "insert_path [] leaf n = Some n"
| "insert_path (p # ps) leaf (BlobNode h m) = None"
| "insert_path [p] leaf (DirNode ch) = Some (DirNode (AList.update p leaf ch))"
| "insert_path (p # q # ps) leaf (DirNode ch) =
     (case insert_path (q # ps) leaf (case map_of ch p of None \<Rightarrow> DirNode [] | Some c \<Rightarrow> c) of
        None \<Rightarrow> None
      | Some c' \<Rightarrow> Some (DirNode (AList.update p c' ch)))"

fun build_entries :: "Entry list \<Rightarrow> Node \<Rightarrow> Node option" where
  "build_entries [] n = Some n"
| "build_entries (e # es) n =
     (if ie_State e = StateDeleted then build_entries es n
      else case insert_path (Split (ie_Path e) (CHR ''/'')) (BlobNode (ie_ObjectID e) blobMode) n of
        None \<Rightarrow> None
      | Some n' \<Rightarrow> build_entries es n')"

definition BuildFromIndex :: "Index \<Rightarrow> Node option" where
  "BuildFromIndex idx = build_entries (Entries idx) (DirNode [])"

section \<open>Writing the trees\<close>

definition child_mode :: "Node \<Rightarrow> u32" where
  "child_mode n = (case n of BlobNode _ m \<Rightarrow> m | DirNode _ \<Rightarrow> modeSubtree)"

fun writeNode :: "zstd \<Rightarrow> io \<Rightarrow> Store \<Rightarrow> Node \<Rightarrow> fs \<Rightarrow> fs \<times> (verr + ObjectID)"
and write_children :: "zstd \<Rightarrow> io \<Rightarrow> Store \<Rightarrow> (string \<times> Node) list \<Rightarrow> fs \<Rightarrow> fs \<times> (verr + TreeEntry list)" where
  "writeNode z io s (BlobNode h m) fs = (fs, Inr h)"
| "writeNode z io s (DirNode ch) fs =
     (case write_children z io s ch fs of
        (fs1, Inl e) \<Rightarrow> (fs1, Inl e)
      | (fs1, Inr entries) \<Rightarrow> Store_Write z io s (NewTree entries) fs1)"
| "write_children z io s [] fs = (fs, Inr [])"
| "write_children z io s ((name, child) # ch) fs =
     (case writeNode z io s child fs of
        (fs1, Inl e) \<Rightarrow> (fs1, Inl e)
      | (fs1, Inr hash) \<Rightarrow>
          (case write_children z io s ch fs1 of
             (fs2, Inl e) \<Rightarrow> (fs2, Inl e)
           | (fs2, Inr entries) \<Rightarrow> (fs2, Inr (\<lparr>te_Mode = child_mode child, te_Hash = hash, te_Name = name\<rparr> # entries))))"

fun visit :: "(string set \<Rightarrow> string list) \<Rightarrow> Node \<Rightarrow> Node" where
  "visit ord (BlobNode h m) = BlobNode h m"
| "visit ord (DirNode ch) =
     (let ch' = map (\<lambda>x. (fst x, visit ord (snd x))) ch
      in DirNode (map (\<lambda>p. (p, the (map_of ch' p))) (ord (set (map fst ch)))))"

definition BuildTree :: "(string set \<Rightarrow> string list) \<Rightarrow> zstd \<Rightarrow> io \<Rightarrow> Store \<Rightarrow> Index \<Rightarrow> fs \<Rightarrow> (fs \<times> (verr + ObjectID)) option" where
  "BuildTree ord z io s idx fs =
     (case BuildFromIndex idx of
        None \<Rightarrow> None
      | Some root \<Rightarrow> Some (writeNode z io s (visit ord root) fs))"

definition BuildCommit ::
    "zstd \<Rightarrow> io \<Rightarrow> u64 \<Rightarrow> Store \<Rightarrow> TreeID \<Rightarrow> CommitID list \<Rightarrow> string \<Rightarrow> string \<Rightarrow> fs \<Rightarrow> fs \<times> (verr + CommitID)" where
  "BuildCommit z io now s treeID parents author message fs =
     Store_Write z io s (CommitObj \<lparr>TreeHash = treeID, Parents = parents, Author = author, Message = message, Timestamp = now\<rparr>) fs"

section \<open>What a node holds\<close>

fun node_at :: "string list \<Rightarrow> Node \<Rightarrow> Node option" where
  "node_at [] n = Some n"
| "node_at (p # ps) (DirNode ch) = (case map_of ch p of None \<Rightarrow> None | Some c \<Rightarrow> node_at ps c)"
| "node_at (p # ps) (BlobNode h m) = None"

definition blob_at :: "Node \<Rightarrow> string list \<Rightarrow> ObjectID \<Rightarrow> bool" where
  "blob_at n ps h \<longleftrightarrow> node_at ps n = Some (BlobNode h blobMode)"

definition file_node :: "Node \<Rightarrow> bool" where
  "file_node n \<longleftrightarrow> (\<exists>h m. n = BlobNode h m)"

lemma map_of_update: "map_of (AList.update p c ch) = (map_of ch)(p \<mapsto> c)"
  by (simp add: update_conv')

text \<open>Inserting a file: it fails only below another file, and when the place is free, or holds a file, it changes this file only.\<close>

definition clash_free :: "string list \<Rightarrow> Node \<Rightarrow> bool" where
  "clash_free ps n \<longleftrightarrow> (\<forall>qs r h m. ps = qs @ r \<and> r \<noteq> [] \<longrightarrow> node_at qs n \<noteq> Some (BlobNode h m))
     \<and> (\<forall>ch. node_at ps n \<noteq> Some (DirNode ch))"

lemma clash_free_step:
  assumes "clash_free (p # ps) (DirNode ch)"
  shows "clash_free ps (case map_of ch p of None \<Rightarrow> DirNode [] | Some c \<Rightarrow> c) \<or> ps = []"
proof (cases "map_of ch p")
  case None
  have "node_at qs (DirNode []) = (if qs = [] then Some (DirNode []) else None)" for qs by (cases qs) auto
  then show ?thesis using None by (auto simp: clash_free_def)
next
  case (Some c)
  have "node_at (p # qs) (DirNode ch) = node_at qs c" for qs using Some by simp
  then show ?thesis using assms Some unfolding clash_free_def by (metis append_Cons option.case(2))
qed

lemma insert_ok:
  assumes "ps \<noteq> []" "clash_free ps n"
  shows "\<exists>ch'. insert_path ps (BlobNode h blobMode) n = Some (DirNode ch')
    \<and> (\<forall>qs g. blob_at (DirNode ch') qs g \<longleftrightarrow> (if qs = ps then g = h else blob_at n qs g))"
  using assms
proof (induction ps "BlobNode h blobMode" n rule: insert_path.induct)
  case (2 p ps h' m)
  then have "node_at [] (BlobNode h' m) \<noteq> Some (BlobNode h' m)" unfolding clash_free_def by (metis append_Nil list.distinct(1))
  then show ?case by simp
next
  case (3 p ch)
  have "blob_at (DirNode (AList.update p (BlobNode h blobMode) ch)) qs g \<longleftrightarrow> (if qs = [p] then g = h else blob_at (DirNode ch) qs g)" for qs g
  proof (cases qs)
    case (Cons q qs')
    show ?thesis
    proof (cases "q = p")
      case True
      have nodir: "map_of ch p \<noteq> Some (DirNode c)" for c using 3 unfolding clash_free_def by (auto split: option.splits)
      have "\<not> blob_at (DirNode ch) (p # r # rs) g" for r rs
        using nodir unfolding blob_at_def by (cases "map_of ch p"; cases "the (map_of ch p)") auto
      then show ?thesis using Cons True by (cases qs') (auto simp: blob_at_def map_of_update)
    next
      case False
      then show ?thesis using Cons by (simp add: blob_at_def map_of_update)
    qed
  qed (simp add: blob_at_def)
  then show ?case by simp
next
  case (4 p q ps ch)
  let ?c = "case map_of ch p of None \<Rightarrow> DirNode [] | Some c \<Rightarrow> c"
  have "clash_free (q # ps) ?c" using clash_free_step [OF 4(3)] by blast
  from 4(1) [OF _ this] obtain ch' where ih: "insert_path (q # ps) (BlobNode h blobMode) ?c = Some (DirNode ch')"
    "\<forall>qs g. blob_at (DirNode ch') qs g \<longleftrightarrow> (if qs = q # ps then g = h else blob_at ?c qs g)" by auto
  have "blob_at (DirNode (AList.update p (DirNode ch') ch)) rs g \<longleftrightarrow> (if rs = p # q # ps then g = h else blob_at (DirNode ch) rs g)" for rs g
  proof (cases "\<exists>rs'. rs = p # rs'")
    case True
    then obtain rs' where rs: "rs = p # rs'" by blast
    have "blob_at (DirNode (AList.update p (DirNode ch') ch)) rs g \<longleftrightarrow> blob_at (DirNode ch') rs' g"
      by (simp add: blob_at_def rs map_of_update)
    also have "\<dots> \<longleftrightarrow> (if rs' = q # ps then g = h else blob_at ?c rs' g)" using ih(2) by blast
    also have "blob_at ?c rs' g \<longleftrightarrow> blob_at (DirNode ch) rs g" if "rs' \<noteq> q # ps"
      by (cases rs'; cases "map_of ch p") (auto simp: blob_at_def rs)
    ultimately show ?thesis using rs by auto
  next
    case False
    then show ?thesis by (cases rs) (auto simp: blob_at_def map_of_update)
  qed
  then show ?case using ih(1) by simp
qed simp


section \<open>Nodes built from an index\<close>

text \<open>Well-formed nodes: distinct names without slash and NUL, and one mode of files.\<close>

fun wf_node :: "Node \<Rightarrow> bool" where
  "wf_node (BlobNode h m) \<longleftrightarrow> m = blobMode"
| "wf_node (DirNode ch) \<longleftrightarrow> distinct (map fst ch)
     \<and> (\<forall>x \<in> set ch. CHR ''/'' \<notin> set (fst x) \<and> NUL \<notin> set (fst x) \<and> wf_node (snd x))"

lemma wf_child: "wf_node (DirNode ch) \<Longrightarrow> map_of ch p = Some c \<Longrightarrow> wf_node c"
  by (metis map_of_SomeD snd_conv wf_node.simps(2))

lemma wf_update:
  assumes "wf_node (DirNode ch)" "wf_node c" "CHR ''/'' \<notin> set p" "NUL \<notin> set p"
  shows "wf_node (DirNode (AList.update p c ch))"
proof -
  have d: "distinct (map fst (AList.update p c ch))" using assms(1) by (simp add: distinct_update)
  have "CHR ''/'' \<notin> set q \<and> NUL \<notin> set q \<and> wf_node n" if "(q, n) \<in> set (AList.update p c ch)" for q n
  proof -
    have "map_of (AList.update p c ch) q = Some n" using that d by simp
    then show ?thesis using assms by (auto simp: map_of_update split: if_splits dest!: map_of_SomeD)
  qed
  with d show ?thesis by (auto simp del: update_keys)
qed

lemma wf_insert:
  "wf_node n \<Longrightarrow> (\<forall>p \<in> set ps. CHR ''/'' \<notin> set p \<and> NUL \<notin> set p) \<Longrightarrow> insert_path ps (BlobNode h blobMode) n = Some n' \<Longrightarrow> wf_node n'"
proof (induction ps "BlobNode h blobMode" n arbitrary: n' rule: insert_path.induct)
  case (3 p ch)
  then show ?case using wf_update [of ch "BlobNode h blobMode" p] by auto
next
  case (4 p q ps ch)
  let ?c = "case map_of ch p of None \<Rightarrow> DirNode [] | Some c \<Rightarrow> c"
  obtain c' where c': "insert_path (q # ps) (BlobNode h blobMode) ?c = Some c'" "n' = DirNode (AList.update p c' ch)"
    using 4(4) by (auto split: option.splits)
  have "wf_node ?c" using 4(2) wf_child by (cases "map_of ch p") auto
  then have "wf_node c'" using 4(1) [OF _ _ c'(1)] 4(3) by simp
  then show ?case using wf_update [OF 4(2), of c' p] 4(3) unfolding c'(2) by (simp del: wf_node.simps)
qed auto

lemma node_at_wf: "wf_node n \<Longrightarrow> node_at qs n = Some (BlobNode h m) \<Longrightarrow> m = blobMode"
  by (induction qs n rule: node_at.induct) (auto split: option.splits dest: wf_child)

lemma insert_dirs:
  "insert_path ps (BlobNode h m) n = Some n' \<Longrightarrow> node_at qs n' = Some (DirNode c) \<Longrightarrow>
    (\<exists>c'. node_at qs n = Some (DirNode c')) \<or> (\<exists>r. r \<noteq> [] \<and> ps = qs @ r)"
proof (induction ps "BlobNode h m" n arbitrary: n' qs c rule: insert_path.induct)
  case (3 p ch)
  show ?case
  proof (cases qs)
    case (Cons q rs)
    have "node_at rs (BlobNode h m) \<noteq> Some (DirNode c)" by (cases rs) simp_all
    then show ?thesis using 3 Cons by (cases "q = p") (auto simp: map_of_update)
  qed simp
next
  case (4 p q ps ch)
  let ?c = "case map_of ch p of None \<Rightarrow> DirNode [] | Some c \<Rightarrow> c"
  obtain c' where c': "insert_path (q # ps) (BlobNode h m) ?c = Some c'" "n' = DirNode (AList.update p c' ch)"
    using 4(2) by (auto split: option.splits)
  show ?case
  proof (cases "\<exists>rs. qs = p # rs")
    case True
    then obtain rs where rs: "qs = p # rs" by blast
    then have "node_at rs c' = Some (DirNode c)" using 4(3) c'(2) by (simp add: map_of_update)
    from 4(1) [OF c'(1) this] show ?thesis
    proof
      assume "\<exists>c''. node_at rs ?c = Some (DirNode c'')"
      then show ?thesis by (cases "map_of ch p"; cases rs) (auto simp: rs)
    qed (auto simp: rs)
  next
    case False
    then show ?thesis using 4(3) c'(2) by (cases qs) (auto simp: map_of_update)
  qed
qed auto

definition comps :: "Entry \<Rightarrow> string list" where
  "comps e = Split (ie_Path e) (CHR ''/'')"

definition staged :: "Entry list \<Rightarrow> Entry list" where
  "staged es = filter (\<lambda>e. ie_State e \<noteq> StateDeleted) es"

text \<open>An index without clashes: staged paths are distinct, no path names a directory of another, and no NUL.\<close>

definition clash_free_index :: "Index \<Rightarrow> bool" where
  "clash_free_index idx \<longleftrightarrow> distinct (map ie_Path (staged (Entries idx)))
     \<and> (\<forall>e \<in> set (staged (Entries idx)). NUL \<notin> set (ie_Path e)
          \<and> (\<forall>e' \<in> set (staged (Entries idx)). \<not> HasPrefix (ie_Path e') (ie_Path e @ ''/'')))"

lemma comps_prefix:
  assumes "comps e' = comps e @ r" "r \<noteq> []"
  shows "HasPrefix (ie_Path e') (ie_Path e @ ''/'')"
proof -
  have "ie_Path e' = Join (comps e @ r) ''/''" using Join_Split [of "ie_Path e'" "CHR ''/''"] assms(1) by (simp add: comps_def)
  also have "\<dots> = Join (comps e) ''/'' @ ''/'' @ Join r ''/''" by (rule Join_append) (simp_all add: comps_def Split_nonempty assms(2))
  also have "Join (comps e) ''/'' = ie_Path e" by (simp add: comps_def Join_Split)
  finally show ?thesis by (simp add: HasPrefix_iff)
qed

lemma comps_inj: "comps e = comps e' \<longleftrightarrow> ie_Path e = ie_Path e'"
  by (metis Join_Split comps_def)

lemma comps_chars: "p \<in> set (comps e) \<Longrightarrow> NUL \<notin> set (ie_Path e) \<Longrightarrow> CHR ''/'' \<notin> set p \<and> NUL \<notin> set p"
  unfolding comps_def using Split_sep_free Split_part by fastforce

definition holds :: "Entry list \<Rightarrow> Node \<Rightarrow> bool" where
  "holds es n \<longleftrightarrow> wf_node n \<and> (\<exists>ch. n = DirNode ch)
     \<and> (\<forall>qs h. blob_at n qs h \<longleftrightarrow> (\<exists>e \<in> set es. comps e = qs \<and> ie_ObjectID e = h))
     \<and> (\<forall>qs c. node_at qs n = Some (DirNode c) \<and> qs \<noteq> [] \<longrightarrow> (\<exists>e \<in> set es. \<exists>r. r \<noteq> [] \<and> comps e = qs @ r))"

lemma holds_step:
  assumes "holds es n" "clash_free_index \<lparr>Entries = es @ e # fs\<rparr>" "ie_State e \<noteq> StateDeleted" "staged es = es"
  shows "\<exists>n'. insert_path (comps e) (BlobNode (ie_ObjectID e) blobMode) n = Some n' \<and> holds (es @ [e]) n'"
proof -
  have st: "staged (es @ e # fs) = es @ e # staged fs" using assms(3,4) by (simp add: staged_def)
  have cf: "\<not> HasPrefix (ie_Path a) (ie_Path b @ ''/'')" "NUL \<notin> set (ie_Path e)" if "a \<in> set (es @ [e])" "b \<in> set (es @ [e])" for a b
    using assms(2) that unfolding clash_free_index_def by (auto simp: st)
  have "ie_Path e \<notin> ie_Path ` set es" using assms(2) unfolding clash_free_index_def by (simp add: st)
  then have new: "ie_Path a \<noteq> ie_Path e" if "a \<in> set es" for a using that by (metis imageI)
  have ne: "comps e \<noteq> []" by (simp add: comps_def Split_nonempty)
  have free: "clash_free (comps e) n" unfolding clash_free_def
  proof (intro conjI allI impI)
    fix qs r h m assume r: "comps e = qs @ r \<and> r \<noteq> []"
    show "node_at qs n \<noteq> Some (BlobNode h m)"
    proof
      assume b: "node_at qs n = Some (BlobNode h m)"
      then have "blob_at n qs h" using assms(1) node_at_wf by (auto simp: holds_def blob_at_def)
      then obtain a where "a \<in> set es" "comps a = qs" using assms(1) by (auto simp: holds_def)
      then show False using comps_prefix [of e a r] r cf(1) [of e a] by auto
    qed
  next
    fix ch show "node_at (comps e) n \<noteq> Some (DirNode ch)"
    proof
      assume "node_at (comps e) n = Some (DirNode ch)"
      then obtain a r where "a \<in> set es" "r \<noteq> []" "comps a = comps e @ r" using assms(1) ne by (auto simp: holds_def)
      then show False using comps_prefix [of a e r] cf(1) [of a e] by auto
    qed
  qed
  from insert_ok [OF ne free, of "ie_ObjectID e"] obtain ch' where n':
    "insert_path (comps e) (BlobNode (ie_ObjectID e) blobMode) n = Some (DirNode ch')"
    "\<forall>qs g. blob_at (DirNode ch') qs g \<longleftrightarrow> (if qs = comps e then g = ie_ObjectID e else blob_at n qs g)" by blast
  have "wf_node (DirNode ch')" using wf_insert [OF _ _ n'(1)] assms(1) comps_chars cf(2) by (auto simp: holds_def)
  moreover have "blob_at (DirNode ch') qs g \<longleftrightarrow> (\<exists>a \<in> set (es @ [e]). comps a = qs \<and> ie_ObjectID a = g)" for qs g
    using n'(2) assms(1) new by (auto simp: holds_def comps_inj)
  moreover have "\<exists>a \<in> set (es @ [e]). \<exists>r. r \<noteq> [] \<and> comps a = qs @ r" if "node_at qs (DirNode ch') = Some (DirNode c)" "qs \<noteq> []" for qs c
    using insert_dirs [OF n'(1) that(1)] assms(1) that(2) unfolding holds_def by (metis Un_iff list.set_intros(1) set_append)
  ultimately have "holds (es @ [e]) (DirNode ch')" unfolding holds_def by blast
  then show ?thesis using n'(1) by blast
qed


lemma build_holds:
  assumes "holds es n" "clash_free_index \<lparr>Entries = es @ fs\<rparr>" "staged es = es"
  shows "\<exists>n'. build_entries fs n = Some n' \<and> holds (es @ staged fs) n'"
  using assms
proof (induction fs arbitrary: es n)
  case Nil
  then show ?case by (simp add: staged_def)
next
  case (Cons e fs)
  show ?case
  proof (cases "ie_State e = StateDeleted")
    case True
    have "clash_free_index \<lparr>Entries = es @ fs\<rparr>" using Cons.prems(2) True by (simp add: clash_free_index_def staged_def)
    from Cons.IH [OF Cons.prems(1) this Cons.prems(3)] show ?thesis using True by (simp add: staged_def)
  next
    case False
    from holds_step [OF Cons.prems(1,2) False Cons.prems(3)] obtain n' where
      n': "insert_path (comps e) (BlobNode (ie_ObjectID e) blobMode) n = Some n'" "holds (es @ [e]) n'" by blast
    have "staged (es @ [e]) = es @ [e]" using Cons.prems(3) False by (simp add: staged_def)
    moreover have "clash_free_index \<lparr>Entries = (es @ [e]) @ fs\<rparr>" using Cons.prems(2) by simp
    ultimately obtain n'' where "build_entries fs n' = Some n''" "holds ((es @ [e]) @ staged fs) n''" using Cons.IH [OF n'(2)] by blast
    then show ?thesis using n'(1) False by (auto simp: comps_def staged_def)
  qed
qed

lemma BuildFromIndex_holds:
  assumes "clash_free_index idx"
  shows "\<exists>root. BuildFromIndex idx = Some root \<and> holds (staged (Entries idx)) root"
proof -
  have "node_at qs (DirNode []) = (if qs = [] then Some (DirNode []) else None)" for qs by (cases qs) auto
  then have "holds [] (DirNode [])" by (auto simp: holds_def blob_at_def)
  moreover have "clash_free_index \<lparr>Entries = [] @ Entries idx\<rparr>" using assms by (simp add: clash_free_index_def)
  ultimately show ?thesis using build_holds [of "[]" "DirNode []" "Entries idx"] by (simp add: BuildFromIndex_def staged_def)
qed

text \<open>Without clashes the files of the root are the index.\<close>

lemma holds_index_map:
  assumes "clash_free_index idx" "holds (staged (Entries idx)) n"
  shows "(\<exists>qs. blob_at n qs h \<and> p = Join qs ''/'') \<longleftrightarrow> index_map idx p = Some h"
proof -
  have "(\<exists>qs. blob_at n qs h \<and> p = Join qs ''/'') \<longleftrightarrow> (\<exists>e \<in> set (staged (Entries idx)). ie_Path e = p \<and> ie_ObjectID e = h)"
    using assms(2) unfolding holds_def comps_def by (metis Join_Split)
  also have "\<dots> \<longleftrightarrow> index_map idx p = Some h"
  proof
    assume "\<exists>e \<in> set (staged (Entries idx)). ie_Path e = p \<and> ie_ObjectID e = h"
    then obtain e where e: "e \<in> set (staged (Entries idx))" "ie_Path e = p" "ie_ObjectID e = h" by blast
    then have "find (\<lambda>e. ie_Path e = p \<and> ie_State e \<noteq> StateDeleted) (Entries idx) \<noteq> None"
      by (auto simp: find_None_iff staged_def)
    then obtain f where f: "find (\<lambda>e. ie_Path e = p \<and> ie_State e \<noteq> StateDeleted) (Entries idx) = Some f" by blast
    then have "f \<in> set (staged (Entries idx))" "ie_Path f = p" by (auto simp: find_Some_iff staged_def)
    then have "f = e" using assms(1) e unfolding clash_free_index_def by (metis distinct_map inj_on_def)
    then show "index_map idx p = Some h" using f e(3) by (simp add: index_map_def)
  next
    assume "index_map idx p = Some h"
    then obtain f where f: "find (\<lambda>e. ie_Path e = p \<and> ie_State e \<noteq> StateDeleted) (Entries idx) = Some f" "ie_ObjectID f = h"
      by (auto simp: index_map_def)
    then have "f \<in> set (Entries idx)" "ie_Path f = p" "ie_State f \<noteq> StateDeleted" by (auto simp: find_Some_iff)
    then show "\<exists>e \<in> set (staged (Entries idx)). ie_Path e = p \<and> ie_ObjectID e = h" using f(2) by (auto simp: staged_def)
  qed
  finally show ?thesis .
qed

section \<open>Nodes on disk\<close>

inductive stored :: "reader \<Rightarrow> Node \<Rightarrow> ObjectID \<Rightarrow> bool" for rd where
  stored_blob: "stored rd (BlobNode h m) h"
| stored_dir: "rd t = Inr (Tree es) \<Longrightarrow>
    (\<And>p c. (p, c) \<in> set ch \<Longrightarrow> \<exists>e \<in> set es. te_Name e = p \<and> te_Mode e = child_mode c \<and> stored rd c (te_Hash e)) \<Longrightarrow>
    (\<And>e. e \<in> set es \<Longrightarrow> \<exists>c. (te_Name e, c) \<in> set ch \<and> te_Mode e = child_mode c \<and> stored rd c (te_Hash e)) \<Longrightarrow>
    stored rd (DirNode ch) t"

inductive_cases stored_blobE: "stored rd (BlobNode h m) t"
inductive_cases stored_dirE: "stored rd (DirNode ch) t"

lemma stored_keeps: "stored rd n t \<Longrightarrow> keeps rd rd' \<Longrightarrow> stored rd' n t"
proof (induction rule: stored.induct)
  case (stored_dir t es ch)
  show ?case
  proof (rule stored.stored_dir)
    show "rd' t = Inr (Tree es)" using stored_dir(1,4) by (simp add: keeps_def)
  qed (use stored_dir in blast)+
qed (rule stored_blob)

lemma blob_mode_file: "blobMode \<noteq> modeSubtree"
  by (simp add: blobMode_def modeSubtree_def)

lemma stored_has_files:
  "wf_node n \<Longrightarrow> stored rd n t \<Longrightarrow> blob_at n qs h \<Longrightarrow> qs \<noteq> [] \<Longrightarrow> file_at rd t (Join qs ''/'') h"
proof (induction qs arbitrary: n t)
  case (Cons q qs)
  obtain ch where n: "n = DirNode ch" using Cons.prems(3) by (cases n) (auto simp: blob_at_def)
  obtain c where c: "map_of ch q = Some c" "blob_at c qs h" using Cons.prems(3) by (auto simp: n blob_at_def split: option.splits)
  from Cons.prems(2) obtain es where es: "rd t = Inr (Tree es)"
    "\<And>p c. (p, c) \<in> set ch \<Longrightarrow> \<exists>e \<in> set es. te_Name e = p \<and> te_Mode e = child_mode c \<and> stored rd c (te_Hash e)"
    unfolding n by (auto elim: stored_dirE)
  obtain e where e: "e \<in> set es" "te_Name e = q" "te_Mode e = child_mode c" "stored rd c (te_Hash e)"
    using es(2) [OF map_of_SomeD [OF c(1)]] by blast
  show ?case
  proof (cases qs)
    case Nil
    then have "c = BlobNode h blobMode" using c(2) by (simp add: blob_at_def)
    then have "te_Mode e \<noteq> modeSubtree" "te_Hash e = h" using e(3,4) blob_mode_file by (auto simp: child_mode_def elim: stored_blobE)
    then show ?thesis using file_at.plain [of rd t es e] es(1) e(1,2) Nil by auto
  next
    case (Cons r rs)
    obtain ch' where "c = DirNode ch'" using c(2) Cons by (cases c) (auto simp: blob_at_def)
    then have "te_Mode e = modeSubtree" using e(3) by (simp add: child_mode_def)
    moreover have "file_at rd (te_Hash e) (Join qs ''/'') h"
      using Cons.IH [OF _ e(4) c(2)] wf_child c(1) Cons.prems(1) Cons unfolding n by blast
    ultimately have "file_at rd t (te_Name e @ ''/'' @ Join qs ''/'') h" using file_at.nested [of rd t es e] es(1) e(1) by blast
    then show ?thesis using e(2) Cons by simp
  qed
qed simp

lemma stored_entry:
  assumes "stored rd (DirNode ch) t" "rd t = Inr (Tree es)" "e \<in> set es"
  shows "\<exists>c. (te_Name e, c) \<in> set ch \<and> te_Mode e = child_mode c \<and> stored rd c (te_Hash e)"
  using assms(1)
proof (rule stored_dirE)
  fix es' assume "rd t = Inr (Tree es')"
    "\<And>e. e \<in> set es' \<Longrightarrow> \<exists>c. (te_Name e, c) \<in> set ch \<and> te_Mode e = child_mode c \<and> stored rd c (te_Hash e)"
  then show ?thesis using assms(2,3) by simp
qed

lemma stored_only_files:
  "file_at rd t p h \<Longrightarrow> wf_node n \<Longrightarrow> stored rd n t \<Longrightarrow> n = DirNode ch \<Longrightarrow> \<exists>qs. qs \<noteq> [] \<and> blob_at n qs h \<and> p = Join qs ''/''"
proof (induction arbitrary: n ch rule: file_at.induct)
  case (plain t es e)
  obtain c where c: "(te_Name e, c) \<in> set ch" "te_Mode e = child_mode c" "stored rd c (te_Hash e)"
    using stored_entry [of rd ch t es e] plain(1,2,5,6) by blast
  then obtain h m where b: "c = BlobNode h m" using plain(3) by (cases c) (auto simp: child_mode_def)
  have "map_of ch (te_Name e) = Some c" using c(1) plain(4,6) by simp
  moreover have "h = te_Hash e" "m = blobMode" using c(3) b plain(4,6) c(1) by (auto elim: stored_blobE)
  ultimately have "blob_at n [te_Name e] (te_Hash e)" using b plain(6) by (simp add: blob_at_def)
  then show ?case by force
next
  case (nested t es e p h)
  obtain c where c: "(te_Name e, c) \<in> set ch" "te_Mode e = child_mode c" "stored rd c (te_Hash e)"
    using stored_entry [of rd ch t es e] nested(1,2,7,8) by blast
  have wfc: "wf_node c" using c(1) nested(6,8) by fastforce
  obtain ch' where d: "c = DirNode ch'"
    using c(2) nested(3) wfc blob_mode_file by (cases c) (auto simp: child_mode_def)
  obtain qs where qs: "qs \<noteq> []" "blob_at c qs h" "p = Join qs ''/''" using nested(5) [OF wfc c(3) d] by blast
  have "map_of ch (te_Name e) = Some c" using c(1) nested(6,8) by simp
  then have "blob_at n (te_Name e # qs) h" using qs(2) nested(8) by (simp add: blob_at_def)
  moreover have "te_Name e @ ''/'' @ p = Join (te_Name e # qs) ''/''" using qs(1,3) by (cases qs) auto
  ultimately show ?case by blast
qed


section \<open>Writing stores the node\<close>

text \<open>The identifiers and the tree objects a node gives rise to.\<close>

fun node_id :: "Node \<Rightarrow> ObjectID" where
  "node_id (BlobNode h m) = h"
| "node_id (DirNode ch) =
     Compute (Serialize (NewTree (map (\<lambda>x. \<lparr>te_Mode = child_mode (snd x), te_Hash = node_id (snd x), te_Name = fst x\<rparr>) ch)))"

definition node_tree :: "(string \<times> Node) list \<Rightarrow> Object" where
  "node_tree ch = NewTree (map (\<lambda>x. \<lparr>te_Mode = child_mode (snd x), te_Hash = node_id (snd x), te_Name = fst x\<rparr>) ch)"

fun node_objs :: "Node \<Rightarrow> Object set" where
  "node_objs (BlobNode h m) = {}"
| "node_objs (DirNode ch) = insert (node_tree ch) (\<Union>x \<in> set ch. node_objs (snd x))"

definition readable :: "zstd \<Rightarrow> Store \<Rightarrow> fs \<Rightarrow> Object set" where
  "readable z s fs = {obj. \<exists>i. Store_Read z s fs i = Inr obj}"

definition no_collision :: "Object set \<Rightarrow> bool" where
  "no_collision R \<longleftrightarrow> (\<forall>a \<in> R. \<forall>b \<in> R. Compute (Serialize a) = Compute (Serialize b) \<longrightarrow> a = b)"

lemma sort_by_set: "set (sort_by te_Name es) = set es"
  by simp

lemma write_one:
  assumes "zstd_ok z" "store_ok z s fs" "wf_object obj" "readable z s fs \<subseteq> R" "obj \<in> R" "no_collision R"
    and "Store_Write z io s obj fs = (fs', Inr t)"
  shows "store_ok z s fs' \<and> readable z s fs' \<subseteq> R \<and> keeps (Store_Read z s fs) (Store_Read z s fs') \<and> Store_Read z s fs' t = Inr obj"
proof -
  note rd = Store_Write_reads [OF assms(1-3,7)]
  have t: "t = Compute (Serialize obj)" using Store_Write_ok [OF assms(7)] by blast
  have same: "Store_Read z s fs t = Inr obj" if ex: "fs (object_path s t) \<noteq> None"
  proof -
    obtain old where old: "Store_Read z s fs t = Inr old" using assms(2) ex unfolding store_ok_def by blast
    then have "Compute (Serialize old) = t" "old \<in> R" using assms(4) by (auto simp: Store_Read_Inr readable_def)
    then have "old = obj" using assms(5,6) t unfolding no_collision_def by blast
    then show ?thesis using old by simp
  qed
  have "Store_Read z s fs i \<noteq> Inr a" if "fs (object_path s i) = None" for i a using that by (simp add: Store_Read_def)
  then have "keeps (Store_Read z s fs) (Store_Read z s fs')" unfolding keeps_def rd by auto
  moreover have "Store_Read z s fs' t = Inr obj" using rd [of t] same by (cases "fs (object_path s t)") auto
  moreover have "readable z s fs' \<subseteq> R" using assms(4,5) unfolding readable_def rd by (auto split: if_splits)
  ultimately show ?thesis using Store_Write_extends [OF assms(1-3,7)] by blast
qed

lemma write_stored:
  assumes R: "no_collision R"
  shows "zstd_ok z \<Longrightarrow> wf_node n \<Longrightarrow> node_objs n \<subseteq> R \<Longrightarrow> store_ok z s fs \<Longrightarrow> readable z s fs \<subseteq> R \<Longrightarrow> writeNode z io s n fs = (fs', Inr t) \<Longrightarrow>
      t = node_id n \<and> store_ok z s fs' \<and> readable z s fs' \<subseteq> R \<and> keeps (Store_Read z s fs) (Store_Read z s fs') \<and> stored (Store_Read z s fs') n t"
    and "zstd_ok z \<Longrightarrow> (\<forall>x \<in> set ch. wf_node (snd x) \<and> node_objs (snd x) \<subseteq> R) \<Longrightarrow> store_ok z s fs \<Longrightarrow> readable z s fs \<subseteq> R \<Longrightarrow>
      write_children z io s ch fs = (fs', Inr es) \<Longrightarrow>
      es = map (\<lambda>x. \<lparr>te_Mode = child_mode (snd x), te_Hash = node_id (snd x), te_Name = fst x\<rparr>) ch \<and> store_ok z s fs' \<and> readable z s fs' \<subseteq> R
      \<and> keeps (Store_Read z s fs) (Store_Read z s fs') \<and> (\<forall>x \<in> set ch. stored (Store_Read z s fs') (snd x) (node_id (snd x)))"
proof (induction z io s n fs and z io s ch fs arbitrary: fs' t and fs' es rule: writeNode_write_children.induct)
  case (1 z io s h m fs)
  then show ?case by (simp add: stored_blob)
next
  case (2 z io s ch fs)
  obtain fs1 es where w: "write_children z io s ch fs = (fs1, Inr es)" "Store_Write z io s (NewTree es) fs1 = (fs', Inr t)"
    using 2(7) by (auto split: prod.splits sum.splits)
  have "\<forall>x \<in> set ch. wf_node (snd x) \<and> node_objs (snd x) \<subseteq> R" using 2(3,4) by auto
  note ih = 2(1) [OF 2(2) this 2(5,6) w(1)]
  have obj: "NewTree es = node_tree ch" using ih by (simp add: node_tree_def)
  have names: "te_Name ` set es = fst ` set ch" using ih by force
  have "wf_object (NewTree es)" using 2(3) ih by (auto simp: NewTree_def)
  from write_one [OF 2(2) _ this _ _ R w(2)] ih obj 2(4)
  have o: "store_ok z s fs' \<and> readable z s fs' \<subseteq> R \<and> keeps (Store_Read z s fs1) (Store_Read z s fs') \<and> Store_Read z s fs' t = Inr (NewTree es)" by auto
  have t: "t = node_id (DirNode ch)" using Store_Write_ok [OF w(2)] obj by (simp add: node_tree_def)
  have st: "stored (Store_Read z s fs') (snd x) (node_id (snd x))" if "x \<in> set ch" for x using ih o that stored_keeps by blast
  have "stored (Store_Read z s fs') (DirNode ch) t"
  proof (rule stored_dir)
    show "Store_Read z s fs' t = Inr (Tree (sort_by te_Name es))" using o by (simp add: NewTree_def)
    fix p c assume "(p, c) \<in> set ch"
    then show "\<exists>e \<in> set (sort_by te_Name es). te_Name e = p \<and> te_Mode e = child_mode c \<and> stored (Store_Read z s fs') c (te_Hash e)"
      using ih st [of "(p, c)"] by force
  next
    fix e assume "e \<in> set (sort_by te_Name es)"
    then obtain x where "x \<in> set ch" "e = \<lparr>te_Mode = child_mode (snd x), te_Hash = node_id (snd x), te_Name = fst x\<rparr>" using ih by auto
    then show "\<exists>c. (te_Name e, c) \<in> set ch \<and> te_Mode e = child_mode c \<and> stored (Store_Read z s fs') c (te_Hash e)"
      using st [of x] by (intro exI [of _ "snd x"]) simp
  qed
  then show ?case using t o ih keeps_trans by blast
next
  case (3 z io s fs)
  then show ?case by simp
next
  case (4 z io s name child ch fs)
  obtain fs1 i fs2 es' where w: "writeNode z io s child fs = (fs1, Inr i)" "write_children z io s ch fs1 = (fs', Inr es')"
    "es = \<lparr>te_Mode = child_mode child, te_Hash = i, te_Name = name\<rparr> # es'"
    using 4(7) by (auto split: prod.splits sum.splits)
  have c: "wf_node child" "node_objs child \<subseteq> R" "\<forall>x \<in> set ch. wf_node (snd x) \<and> node_objs (snd x) \<subseteq> R" using 4(4) by auto
  note ih1 = 4(1) [OF 4(3) c(1,2) 4(5,6) w(1)]
  have ih1': "store_ok z s fs1" "readable z s fs1 \<subseteq> R" using ih1 by auto
  note ih2 = 4(2) [OF w(1) [symmetric] refl 4(3) c(3) ih1' w(2)]
  show ?case using ih1 ih2 w(3) keeps_trans stored_keeps by auto
qed


section \<open>The order of visits does not matter\<close>

lemma map_of_visit:
  assumes "key_order ord"
  shows "visit ord (DirNode ch) = DirNode ch' \<Longrightarrow> map_of ch' p = map_option (visit ord) (map_of ch p)"
    and "visit ord (DirNode ch) = DirNode ch' \<Longrightarrow> distinct (map fst ch') \<and> set (map fst ch') = set (map fst ch)"
proof -
  let ?K = "set (map fst ch)"
  let ?cs = "map (\<lambda>x. (fst x, visit ord (snd x))) ch"
  have K: "set (ord ?K) = ?K" "distinct (ord ?K)" using assms by (simp_all add: key_order_def)
  have cs: "map_of ?cs p = map_option (visit ord) (map_of ch p)" for p by (induction ch) auto
  assume v: "visit ord (DirNode ch) = DirNode ch'"
  then have ch': "ch' = map (\<lambda>p. (p, the (map_of ?cs p))) (ord ?K)" by (simp add: Let_def)
  show "distinct (map fst ch') \<and> set (map fst ch') = set (map fst ch)" unfolding ch' using K by (simp add: comp_def)
  have "map_of (map (\<lambda>p. (p, f p)) ks) p = (if p \<in> set ks then Some (f p) else None)" for f :: "string \<Rightarrow> Node" and ks by (induction ks) auto
  then show "map_of ch' p = map_option (visit ord) (map_of ch p)"
    unfolding ch' using K cs [of p] map_of_eq_None_iff [of ch p] by (cases "map_of ch p") auto
qed

lemma visit_dir: "\<exists>ch'. visit ord (DirNode ch) = DirNode ch'"
  by (simp add: Let_def)

lemma visit_node_at: "key_order ord \<Longrightarrow> node_at qs (visit ord n) = map_option (visit ord) (node_at qs n)"
proof (induction qs n rule: node_at.induct)
  case (2 p ps ch)
  obtain ch' where v: "visit ord (DirNode ch) = DirNode ch'" using visit_dir by blast
  show ?case
  proof (cases "map_of ch p")
    case None
    then show ?thesis using map_of_visit(1) [OF 2(2) v, of p] by (simp add: v del: visit.simps)
  next
    case (Some c)
    then show ?thesis using map_of_visit(1) [OF 2(2) v, of p] 2(1) [OF Some 2(2)] by (simp add: v del: visit.simps)
  qed
qed simp_all

lemma visit_blob_at: "key_order ord \<Longrightarrow> blob_at (visit ord n) qs h \<longleftrightarrow> blob_at n qs h"
proof -
  assume "key_order ord"
  moreover have "visit ord m = BlobNode h blobMode \<longleftrightarrow> m = BlobNode h blobMode" for m by (cases m) (auto simp: Let_def)
  ultimately show ?thesis by (simp add: blob_at_def visit_node_at)
qed

lemma visit_wf: "key_order ord \<Longrightarrow> wf_node n \<Longrightarrow> wf_node (visit ord n)"
proof (induction n)
  case (DirNode ch)
  obtain ch' where v: "visit ord (DirNode ch) = DirNode ch'" using visit_dir by blast
  note k = map_of_visit(2) [OF DirNode(2) v]
  have "CHR ''/'' \<notin> set (fst x) \<and> NUL \<notin> set (fst x) \<and> wf_node (snd x)" if "x \<in> set ch'" for x
  proof -
    obtain p c' where x: "x = (p, c')" by fastforce
    have "map_of ch' p = Some c'" using k that x by simp
    then obtain c where c: "map_of ch p = Some c" "c' = visit ord c" using map_of_visit(1) [OF DirNode(2) v, of p] by auto
    then have m: "(p, c) \<in> set ch" by (simp add: map_of_SomeD)
    then have "wf_node c" using DirNode(3) by fastforce
    then have "wf_node c'" using DirNode(1) [OF m, of c] DirNode(2) c(2) by simp
    then show ?thesis using DirNode(3) m x by fastforce
  qed
  then show ?case using k v by (simp del: visit.simps)
qed simp

lemma built_tree:
  assumes "key_order ord" "zstd_ok z" "store_ok z s fs" "clash_free_index idx" "no_collision R" "readable z s fs \<subseteq> R"
    and "node_objs (visit ord (the (BuildFromIndex idx))) \<subseteq> R" "BuildTree ord z io s idx fs = Some (fs', Inr t)"
  shows "keeps (Store_Read z s fs') rd \<Longrightarrow> file_at rd t p h \<longleftrightarrow> index_map idx p = Some h" "keeps (Store_Read z s fs) (Store_Read z s fs')"
    "store_ok z s fs'" "readable z s fs' \<subseteq> R"
proof -
  obtain root where root: "BuildFromIndex idx = Some root" "holds (staged (Entries idx)) root"
    using BuildFromIndex_holds [OF assms(4)] by blast
  let ?n = "visit ord root"
  have w: "writeNode z io s ?n fs = (fs', Inr t)" using assms(8) root(1) by (simp add: BuildTree_def)
  have wf: "wf_node ?n" using root(2) visit_wf [OF assms(1)] by (simp add: holds_def)
  obtain ch where ch: "?n = DirNode ch" using root(2) visit_dir unfolding holds_def by metis
  have st: "stored (Store_Read z s fs') ?n t" "keeps (Store_Read z s fs) (Store_Read z s fs')" "store_ok z s fs'" "readable z s fs' \<subseteq> R"
    using write_stored(1) [OF assms(5) assms(2) wf _ assms(3,6) w] assms(7) root(1) by auto
  then show "keeps (Store_Read z s fs) (Store_Read z s fs')" "store_ok z s fs'" "readable z s fs' \<subseteq> R" by simp_all
  assume "keeps (Store_Read z s fs') rd"
  then have rd: "stored rd ?n t" using st(1) stored_keeps by blast
  have "file_at rd t p h \<longleftrightarrow> (\<exists>qs. blob_at ?n qs h \<and> p = Join qs ''/'')"
  proof
    assume "file_at rd t p h"
    then show "\<exists>qs. blob_at ?n qs h \<and> p = Join qs ''/''" using stored_only_files [OF _ wf rd ch] by blast
  next
    assume "\<exists>qs. blob_at ?n qs h \<and> p = Join qs ''/''"
    then obtain qs where qs: "blob_at ?n qs h" "p = Join qs ''/''" by blast
    then have "qs \<noteq> []" by (auto simp: blob_at_def ch)
    then show "file_at rd t p h" using stored_has_files [OF wf rd qs(1)] qs(2) by simp
  qed
  also have "\<dots> \<longleftrightarrow> index_map idx p = Some h"
    using holds_index_map [OF assms(4) root(2), of h p] visit_blob_at [OF assms(1)] by simp
  finally show "file_at rd t p h \<longleftrightarrow> index_map idx p = Some h" .
qed

text \<open>Only object files and their temporary names change.\<close>

definition object_file :: "Store \<Rightarrow> path \<Rightarrow> bool" where
  "object_file s a \<longleftrightarrow> (\<exists>i. a = object_path s i \<or> a = object_path s i @ ''.tmp'')"

lemma Store_Write_only_objects: "\<not> object_file s a \<Longrightarrow> fst (Store_Write z io s obj fs) a = fs a"
  by (auto simp: object_file_def Store_Write_def Let_def os_WriteFile_def os_Rename_def os_Remove_def split: prod.splits sum.splits)

lemma writeNode_frame:
  shows "\<not> object_file s a \<Longrightarrow> fst (writeNode z io s n fs) a = fs a" "\<not> object_file s a \<Longrightarrow> fst (write_children z io s ch fs) a = fs a"
proof (induction z io s n fs and z io s ch fs rule: writeNode_write_children.induct)
  case (2 z io s ch fs)
  then show ?case using Store_Write_only_objects by (auto split: prod.splits sum.splits)
qed (auto split: prod.splits sum.splits)

lemma BuildTree_frame: "BuildTree ord z io s idx fs = Some (fs', r) \<Longrightarrow> \<not> object_file s a \<Longrightarrow> fs' a = fs a"
  using writeNode_frame(1) [of s a z io] by (auto simp: BuildTree_def split: option.splits) (metis fst_conv)

text \<open>C39. Building a tree from an index in which no path is staged twice and no staged path is a directory of another never panics,
  and when the store reports no error the tree written has exactly the files of the index; objects that were readable stay so. The order in
  which maps are visited does not matter. (No two objects involved have the same SHA-256 digest.)\<close>

theorem build_tree_exact:
  assumes "key_order ord" "zstd_ok z" "store_ok z s fs" "clash_free_index idx"
    and "no_collision (readable z s fs \<union> node_objs (visit ord (the (BuildFromIndex idx))))"
  shows "\<exists>fs' r. BuildTree ord z io s idx fs = Some (fs', r) \<and> (\<forall>t. r = Inr t \<longrightarrow>
    (\<forall>p h. file_at (Store_Read z s fs') t p h \<longleftrightarrow> index_map idx p = Some h)
    \<and> (\<forall>i obj. Store_Read z s fs i = Inr obj \<longrightarrow> Store_Read z s fs' i = Inr obj))"
proof -
  obtain root where root: "BuildFromIndex idx = Some root" using BuildFromIndex_holds [OF assms(4)] by blast
  obtain fs' r where w: "BuildTree ord z io s idx fs = Some (fs', r)" using root by (cases "writeNode z io s (visit ord root) fs") (simp add: BuildTree_def)
  then show ?thesis using built_tree [OF assms(1-5)] by (auto simp: keeps_def)
qed

definition one_file :: Index where
  "one_file = \<lparr>Entries = [\<lparr>Fingerprint = 0, ie_ObjectID = 7, ie_State = StateAdded, ie_Path = ''a''\<rparr>]\<rparr>"

lemma one_file_node: "BuildFromIndex one_file = Some (DirNode [(''a'', BlobNode 7 blobMode)])"
  by (simp add: BuildFromIndex_def one_file_def Split_def)

lemma one_file_ok: "clash_free_index one_file"
  by (simp add: clash_free_index_def one_file_def staged_def HasPrefix_def)

theorem build_tree_exact_witness:
  "\<exists>fs' t. BuildTree sorted_list_of_set zstd_id io_ok (NewStore ''v'') one_file Map.empty = Some (fs', Inr t)
     \<and> file_at (Store_Read zstd_id (NewStore ''v'') fs') t ''a'' 7"
proof -
  have objs: "node_objs (visit sorted_list_of_set (DirNode [(''a'', BlobNode 7 blobMode)])) = {node_tree [(''a'', BlobNode 7 blobMode)]}"
    by simp
  have "readable zstd_id (NewStore ''v'') Map.empty = {}" by (simp add: readable_def Store_Read_empty)
  then have nc: "no_collision (readable zstd_id (NewStore ''v'') Map.empty \<union> node_objs (visit sorted_list_of_set (the (BuildFromIndex one_file))))"
    by (simp add: one_file_node no_collision_def del: visit.simps add: objs)
  obtain fs' t where b: "BuildTree sorted_list_of_set zstd_id io_ok (NewStore ''v'') one_file Map.empty = Some (fs', Inr t)"
    using Store_Write_io_ok [of zstd_id "NewStore ''v''" "NewTree [\<lparr>te_Mode = blobMode, te_Hash = 7, te_Name = ''a''\<rparr>]" Map.empty]
    by (auto simp: BuildTree_def one_file_node child_mode_def)
  have "index_map one_file ''a'' = Some 7" by (simp add: index_map_def one_file_def)
  then show ?thesis
    using build_tree_exact [OF sorted_key_order sample_store_ok(2,1) one_file_ok nc, of io_ok] b by auto
qed

text \<open>The two clashes. A tracked file replaced by a directory stays in the index, in front of the new entry: the builder panics.
  In the other order the file silently replaces the directory.\<close>

definition entry_of :: "string \<Rightarrow> BlobID \<Rightarrow> Entry" where
  "entry_of p h = \<lparr>Fingerprint = 0, ie_ObjectID = h, ie_State = StateAdded, ie_Path = p\<rparr>"

lemma build_panics: "BuildTree ord z io s \<lparr>Entries = [entry_of ''a'' 1, entry_of ''a/b'' 2]\<rparr> fs = None"
  by (simp add: BuildTree_def BuildFromIndex_def entry_of_def Split_def)

lemma build_drops_directory: "BuildFromIndex \<lparr>Entries = [entry_of ''a/b'' 2, entry_of ''a'' 1]\<rparr> = Some (DirNode [(''a'', BlobNode 1 blobMode)])"
  by (simp add: BuildFromIndex_def entry_of_def Split_def)

end
