(* ===== verification/Graph_Index.thy ===== *)
theory Graph_Index
  imports Commit_Graph Refs Go_Sort Go_Strings "HOL-Library.Multiset"
begin

text \<open>
  \<^verbatim>\<open>pkg/graphindex\<close> and \<^verbatim>\<open>internal/commands/history.go\<close>: the binary commit graph index, how it is built from the store and read
  back, and the history that is shown from it. The parser ignores the errors of its reads: a read past the end leaves zero
  bytes (\<open>read_buf\<close>) or a zero number (\<open>read_u32\<close>, \<open>read_u64\<close>). An index out of range is a panic, \<open>None\<close>. The
  iteration order of Go maps is the argument \<open>ord\<close>, the listing of \<^verbatim>\<open>refs/heads\<close> without its subdirectories is \<open>heads\<close>.
  The recursion of \<^verbatim>\<open>computeGen\<close> is that of \<^verbatim>\<open>graph.Generation\<close> over the commits read before and takes its fuel;
  \<open>None\<close> from \<open>Build\<close> means that the fuel ran out, as it does on a cyclic history.
\<close>

section \<open>Entries\<close>

record GEntry =
  ge_ID :: CommitID
  ge_Generation :: u32
  ge_Timestamp :: u64
  ge_Parents :: "CommitID list"
  ge_Author :: string
  ge_Message :: string

record GIndex =
  byID :: "CommitID \<rightharpoonup> GEntry"
  all_entries :: "GEntry list"

definition Lookup :: "GIndex \<Rightarrow> CommitID \<Rightarrow> GEntry option" where
  "Lookup idx i = byID idx i"

definition gi_magic :: string where "gi_magic = ''VAGI''"
definition gi_version :: u32 where "gi_version = 1"

section \<open>Writing\<close>

definition commit_row :: "GEntry \<Rightarrow> u32 \<Rightarrow> u32 \<Rightarrow> bytes" where
  "commit_row e parentOffset metaOffset =
     word_bytes (ge_ID e) @ word_bytes (ge_Generation e) @ word_bytes (ge_Timestamp e) @ word_bytes parentOffset
       @ word_bytes (of_nat (length (ge_Parents e)) :: u32) @ word_bytes metaOffset"

definition meta_bytes :: "GEntry \<Rightarrow> bytes" where
  "meta_bytes e = ge_Author e @ [NUL] @ ge_Message e @ [NUL]"

definition parent_bytes :: "GEntry \<Rightarrow> bytes" where
  "parent_bytes e = concat (map word_bytes (ge_Parents e))"

text \<open>The rows of the commit table: the number of parents and of meta bytes so far are the offsets, both kept to 32 bits.\<close>

fun commit_rows :: "u32 \<Rightarrow> nat \<Rightarrow> GEntry list \<Rightarrow> bytes" where
  "commit_rows parentOffset metaLen [] = []"
| "commit_rows parentOffset metaLen (e # es) =
     commit_row e parentOffset (of_nat metaLen)
       @ commit_rows (parentOffset + of_nat (length (ge_Parents e))) (metaLen + length (meta_bytes e)) es"

definition index_body :: "GEntry list \<Rightarrow> bytes" where
  "index_body es =
     gi_magic @ word_bytes gi_version @ word_bytes (of_nat (length es) :: u32) @ word_bytes (0 :: u32)
       @ commit_rows 0 0 es @ concat (map parent_bytes es) @ concat (map meta_bytes es)"

definition index_bytes :: "GEntry list \<Rightarrow> bytes" where
  "index_bytes es = index_body es @ word_bytes (Compute (index_body es))"

definition index_path :: "path \<Rightarrow> path" where
  "index_path varaDir = filepath_Join varaDir ''graph.idx''"

definition writeIndex :: "io \<Rightarrow> path \<Rightarrow> GEntry list \<Rightarrow> fs \<Rightarrow> fs \<times> (verr + unit)" where
  "writeIndex io varaDir es fs =
     (let p = index_path varaDir; tmp = p @ ''.tmp'' in
      case os_WriteFile io tmp (index_bytes es) fs of
        (fs1, Inl e) \<Rightarrow> (fs1, Inl e)
      | (fs1, Inr _) \<Rightarrow>
          if io_rename io tmp 0 then (os_Rename tmp p fs1, Inr ()) else (os_Remove tmp fs1, Inl ErrIO))"

section \<open>Reading\<close>

definition read_buf :: "nat \<Rightarrow> bytes \<Rightarrow> bytes \<times> bytes" where
  "read_buf n r = (take n r @ replicate (n - length r) NUL, drop n r)"

definition read_u32 :: "bytes \<Rightarrow> u32 \<times> bytes" where
  "read_u32 r = (if length r < 4 then (0, []) else (bytes_word (take 4 r), drop 4 r))"

definition read_u64 :: "bytes \<Rightarrow> u64 \<times> bytes" where
  "read_u64 r = (if length r < 8 then (0, []) else (bytes_word (take 8 r), drop 8 r))"

record rawEntry =
  rw_id :: CommitID
  rw_generation :: u32
  rw_timestamp :: u64
  rw_parentOffset :: u32
  rw_parentCount :: u32
  rw_metaOffset :: u32

fun read_raws :: "nat \<Rightarrow> bytes \<Rightarrow> rawEntry list \<times> bytes" where
  "read_raws 0 r = ([], r)"
| "read_raws (Suc n) r =
     (let (idb, r1) = read_buf 32 r; (g, r2) = read_u32 r1; (t, r3) = read_u64 r2; (po, r4) = read_u32 r3;
          (pc, r5) = read_u32 r4; (mo, r6) = read_u32 r5; (raws, r7) = read_raws n r6
      in (\<lparr>rw_id = bytes_word idb, rw_generation = g, rw_timestamp = t, rw_parentOffset = po, rw_parentCount = pc, rw_metaOffset = mo\<rparr> # raws, r7))"

fun read_parents :: "nat \<Rightarrow> bytes \<Rightarrow> CommitID list \<times> bytes" where
  "read_parents 0 r = ([], r)"
| "read_parents (Suc n) r = (let (b, r1) = read_buf 32 r; (ps, r2) = read_parents n r1 in (bytes_word b # ps, r2))"

definition totalParents :: "rawEntry list \<Rightarrow> u32" where
  "totalParents raws = fold (\<lambda>w n. n + rw_parentCount w) raws 0"

definition raw_parents :: "CommitID list \<Rightarrow> rawEntry \<Rightarrow> CommitID list option" where
  "raw_parents pd w =
     (let ks = map (\<lambda>j. unat (rw_parentOffset w + of_nat j)) [0 ..< unat (rw_parentCount w)]
      in if list_all (\<lambda>k. k < length pd) ks then Some (map (\<lambda>k. pd ! k) ks) else None)"

definition readMeta :: "bytes \<Rightarrow> u32 \<Rightarrow> string \<times> string" where
  "readMeta meta off =
     (if length meta \<le> unat off then ([], [])
      else let rest = drop (unat off) meta; author = takeWhile (\<lambda>c. c \<noteq> NUL) rest
           in (author, takeWhile (\<lambda>c. c \<noteq> NUL) (drop (Suc (length author)) rest)))"

fun raw_entries :: "CommitID list \<Rightarrow> bytes \<Rightarrow> rawEntry list \<Rightarrow> GEntry list option" where
  "raw_entries pd meta [] = Some []"
| "raw_entries pd meta (w # ws) =
     (case raw_parents pd w of
        None \<Rightarrow> None
      | Some ps \<Rightarrow>
          (let (author, msg) = readMeta meta (rw_metaOffset w) in
           map_option (\<lambda>es. \<lparr>ge_ID = rw_id w, ge_Generation = rw_generation w, ge_Timestamp = rw_timestamp w, ge_Parents = ps,
              ge_Author = author, ge_Message = msg\<rparr> # es) (raw_entries pd meta ws)))"

definition index_of_entries :: "GEntry list \<Rightarrow> GIndex" where
  "index_of_entries es = \<lparr>byID = fold (\<lambda>e m. m(ge_ID e \<mapsto> e)) es Map.empty, all_entries = es\<rparr>"

definition parseIndex :: "bytes \<Rightarrow> (verr + GIndex) option" where
  "parseIndex data =
     (if length data < 48 then Some (Inl (ErrMsg ''graphindex: file too short''))
      else let body = take (length data - 32) data; storedSum = drop (length data - 32) data in
      if word_bytes (Compute body) \<noteq> storedSum then Some (Inl (ErrMsg ''graphindex: checksum mismatch''))
      else let (mg, r1) = read_buf 4 body in
      if mg \<noteq> gi_magic then Some (Inl (ErrMsg ''graphindex: bad magic''))
      else let (ver, r2) = read_u32 r1; (cnt, r3) = read_u32 r2; (reserved, r4) = read_u32 r3 in
      if ver \<noteq> gi_version then Some (Inl (ErrMsg ''graphindex: unsupported version''))
      else let (raws, r5) = read_raws (unat cnt) r4;
               (pd, meta) = read_parents (unat (totalParents raws)) r5
           in map_option (\<lambda>es. Inr (index_of_entries es)) (raw_entries pd meta raws))"

definition Load :: "path \<Rightarrow> fs \<Rightarrow> (verr + GIndex) option" where
  "Load varaDir fs = (case fs (index_path varaDir) of None \<Rightarrow> Some (Inl ErrIO) | Some data \<Rightarrow> parseIndex data)"

definition Invalidate :: "path \<Rightarrow> fs \<Rightarrow> fs" where
  "Invalidate varaDir fs = os_Remove (index_path varaDir) fs"

section \<open>Building\<close>

definition addTip :: "string \<Rightarrow> CommitID list \<Rightarrow> CommitID list" where
  "addTip hexID0 tips =
     (let hexID = TrimSpace hexID0 in
      if length hexID < 64 then tips
      else case ParseHex (take 64 hexID) of
        Inl _ \<Rightarrow> tips
      | Inr i \<Rightarrow> if i \<in> set tips then tips else tips @ [i])"

definition head_tip :: "path \<Rightarrow> fs \<Rightarrow> CommitID list" where
  "head_tip varaDir fs =
     (case fs (filepath_Join varaDir ''HEAD'') of
        None \<Rightarrow> []
      | Some headData \<Rightarrow>
          (let content = TrimSpace headData in
           if HasPrefix content ''ref: '' then
             (case fs (filepath_Join varaDir (TrimPrefix content ''ref: '')) of None \<Rightarrow> [] | Some refData \<Rightarrow> addTip refData [])
           else addTip content []))"

definition collectTips :: "string list \<Rightarrow> path \<Rightarrow> fs \<Rightarrow> CommitID list" where
  "collectTips heads varaDir fs =
     fold (\<lambda>name tips. case fs (filepath_Join varaDir (''refs/heads/'' @ name)) of None \<Rightarrow> tips | Some data \<Rightarrow> addTip data tips)
       heads (head_tip varaDir fs)"

function raw_commits :: "reader \<Rightarrow> CommitID list \<Rightarrow> CommitID set \<Rightarrow> (CommitID \<rightharpoonup> Commit) \<Rightarrow> verr + (CommitID \<rightharpoonup> Commit)" where
  "raw_commits rd [] v raw = Inr raw"
| "raw_commits rd (i # q) v raw =
     bind_res (readCommit rd i) (\<lambda>c. case enqueue (Parents c) q v of (q', v') \<Rightarrow> raw_commits rd q' v' (raw(i \<mapsto> c)))"
  by pat_completeness auto
termination
  by (relation "measure (\<lambda>(rd, q, v, raw). card (UNIV - v) + length q)")
     (auto split: prod.splits dest: enqueue_budget enqueue_budget [OF sym])

definition raw_reader :: "(CommitID \<rightharpoonup> Commit) \<Rightarrow> reader" where
  "raw_reader raw i = (case raw i of None \<Rightarrow> Inl ErrObjectNotFound | Some c \<Rightarrow> Inr (CommitObj c))"

fun compute_gens :: "nat \<Rightarrow> (CommitID \<rightharpoonup> Commit) \<Rightarrow> CommitID list \<Rightarrow> gen_cache \<Rightarrow> gen_cache option" where
  "compute_gens n raw [] cache = Some cache"
| "compute_gens n raw (i # is) cache =
     (case Generation n (raw_reader raw) i cache of
        None \<Rightarrow> None
      | Some (cache', _) \<Rightarrow> compute_gens n raw is cache')"

definition gentry :: "(CommitID \<rightharpoonup> Commit) \<Rightarrow> gen_cache \<Rightarrow> CommitID \<Rightarrow> GEntry" where
  "gentry raw cache i =
     (let c = the (raw i) in
      \<lparr>ge_ID = i, ge_Generation = of_nat (case cache i of None \<Rightarrow> 0 | Some g \<Rightarrow> g), ge_Timestamp = Timestamp c, ge_Parents = Parents c,
       ge_Author = Author c, ge_Message = Message c\<rparr>)"

definition Build_index ::
    "(CommitID set \<Rightarrow> CommitID list) \<Rightarrow> nat \<Rightarrow> reader \<Rightarrow> io \<Rightarrow> string list \<Rightarrow> path \<Rightarrow> fs \<Rightarrow> (fs \<times> (verr + unit)) option" where
  "Build_index ord n rd io heads varaDir fs =
     (let tips = collectTips heads varaDir fs in
      if tips = [] then Some (writeIndex io varaDir [] fs)
      else case enqueue tips [] {} of (q, v) \<Rightarrow>
        (case raw_commits rd q v Map.empty of
           Inl e \<Rightarrow> Some (fs, Inl e)
         | Inr raw \<Rightarrow>
             (case compute_gens n raw (ord (dom raw)) Map.empty of
                None \<Rightarrow> None
              | Some cache \<Rightarrow> Some (writeIndex io varaDir (map (gentry raw cache) (ord (dom raw))) fs))))"

definition LoadOrBuild ::
    "(CommitID set \<Rightarrow> CommitID list) \<Rightarrow> nat \<Rightarrow> reader \<Rightarrow> io \<Rightarrow> string list \<Rightarrow> path \<Rightarrow> fs \<Rightarrow> (fs \<times> (verr + GIndex)) option" where
  "LoadOrBuild ord n rd io heads varaDir fs =
     (case Load varaDir fs of
        None \<Rightarrow> None
      | Some (Inr idx) \<Rightarrow> Some (fs, Inr idx)
      | Some (Inl _) \<Rightarrow>
          (case Build_index ord n rd io heads varaDir fs of
             None \<Rightarrow> None
           | Some (fs1, Inl e) \<Rightarrow> Some (fs1, Inl e)
           | Some (fs1, Inr _) \<Rightarrow> map_option (\<lambda>r. (fs1, r)) (Load varaDir fs1)))"

section \<open>History\<close>

function history_entries :: "GIndex \<Rightarrow> CommitID list \<Rightarrow> CommitID set \<Rightarrow> GEntry list" where
  "history_entries idx [] v = []"
| "history_entries idx (i # q) v =
     (case Lookup idx i of
        None \<Rightarrow> history_entries idx q v
      | Some e \<Rightarrow> (case enqueue (ge_Parents e) q v of (q', v') \<Rightarrow> e # history_entries idx q' v'))"
  by pat_completeness auto
termination
  by (relation "measure (\<lambda>(idx, q, v). card (UNIV - v) + length q)")
     (auto split: prod.splits dest: enqueue_budget enqueue_budget [OF sym])


text \<open>Newest first: higher generation, then newer timestamp (a signed number). \<^verbatim>\<open>sort.Slice\<close> leaves the order of equal
  elements open: \<open>srt\<close> is any sort by this comparison.\<close>

definition before :: "GEntry \<Rightarrow> GEntry \<Rightarrow> bool" where
  "before a b \<longleftrightarrow> (if ge_Generation a \<noteq> ge_Generation b then ge_Generation b < ge_Generation a
     else sint (ge_Timestamp b) < sint (ge_Timestamp a))"

definition sorts_by :: "('a \<Rightarrow> 'a \<Rightarrow> bool) \<Rightarrow> ('a list \<Rightarrow> 'a list) \<Rightarrow> bool" where
  "sorts_by lt srt \<longleftrightarrow> (\<forall>xs. mset (srt xs) = mset xs \<and> sorted_wrt (\<lambda>a b. \<not> lt b a) (srt xs))"

definition indent_lines :: "string \<Rightarrow> string" where
  "indent_lines msg = concat (map (\<lambda>l. ''    '' @ l @ [LF]) (Split msg LF))"

text \<open>\<open>date\<close> formats a Unix time (\<^verbatim>\<open>time.RFC1123Z\<close>).\<close>

definition format_entry :: "(u64 \<Rightarrow> string) \<Rightarrow> CommitID \<Rightarrow> CommitID list \<Rightarrow> string \<Rightarrow> u64 \<Rightarrow> string \<Rightarrow> string" where
  "format_entry date i parents author ts msg =
     ''commit '' @ BaseID_String i @ [LF]
     @ (if parents \<noteq> [] then ''parents: '' @ Join (map (\<lambda>p. take 7 (BaseID_String p)) parents) '', '' @ [LF] else [])
     @ ''author: '' @ author @ [LF] @ ''date:   '' @ date ts @ [LF] @ [LF] @ indent_lines msg @ [LF]"

definition formatIndexEntry :: "(u64 \<Rightarrow> string) \<Rightarrow> GEntry \<Rightarrow> string" where
  "formatIndexEntry date e = format_entry date (ge_ID e) (ge_Parents e) (ge_Author e) (ge_Timestamp e) (ge_Message e)"

definition formatCommit :: "(u64 \<Rightarrow> string) \<Rightarrow> CommitID \<Rightarrow> Commit \<Rightarrow> string" where
  "formatCommit date i c = format_entry date i (Parents c) (Author c) (Timestamp c) (Message c)"

definition ordered_history :: "(GEntry list \<Rightarrow> GEntry list) \<Rightarrow> GIndex \<Rightarrow> CommitID \<Rightarrow> GEntry list" where
  "ordered_history srt idx headID = srt (history_entries idx [headID] {headID})"

definition historyFromIndex :: "(u64 \<Rightarrow> string) \<Rightarrow> (GEntry list \<Rightarrow> GEntry list) \<Rightarrow> GIndex \<Rightarrow> CommitID \<Rightarrow> string" where
  "historyFromIndex date srt idx headID = concat (map (formatIndexEntry date) (ordered_history srt idx headID))"

function store_history :: "(u64 \<Rightarrow> string) \<Rightarrow> reader \<Rightarrow> CommitID list \<Rightarrow> CommitID set \<Rightarrow> verr + string" where
  "store_history date rd [] v = Inr []"
| "store_history date rd (i # q) v =
     bind_res (readCommit rd i) (\<lambda>c. case enqueue (Parents c) q v of (q', v') \<Rightarrow>
       bind_res (store_history date rd q' v') (\<lambda>s. Inr (formatCommit date i c @ s)))"
  by pat_completeness auto
termination
  by (relation "measure (\<lambda>(date, rd, q, v). card (UNIV - v) + length q)")
     (auto split: prod.splits dest: enqueue_budget enqueue_budget [OF sym])

definition historyFromStore :: "(u64 \<Rightarrow> string) \<Rightarrow> reader \<Rightarrow> CommitID \<Rightarrow> verr + string" where
  "historyFromStore date rd headID = store_history date rd [headID] {headID}"

definition resolveHEAD :: "path \<Rightarrow> fs \<Rightarrow> verr + CommitID" where
  "resolveHEAD varaDir fs =
     (case fs (filepath_Join varaDir ''HEAD'') of
        None \<Rightarrow> Inl (ErrMsg ''repository has no commits yet'')
      | Some headData \<Rightarrow>
          if headData = [] then Inl (ErrMsg ''repository has no commits yet'')
          else let content = TrimSpace headData in
          if HasPrefix content ''ref: '' then
            (case fs (filepath_Join varaDir (TrimPrefix content ''ref: '')) of
               None \<Rightarrow> Inl (ErrMsg ''repository has no commits yet'')
             | Some refData \<Rightarrow>
                 if length refData < 64 then Inl (ErrMsg ''repository has no commits yet'')
                 else ParseHex (TrimSpace refData))
          else if length content \<ge> 64 then ParseHex (take 64 content)
          else Inl (ErrMsg ''repository has no commits yet''))"

definition RunHistory ::
    "(u64 \<Rightarrow> string) \<Rightarrow> (GEntry list \<Rightarrow> GEntry list) \<Rightarrow> (CommitID set \<Rightarrow> CommitID list) \<Rightarrow> nat \<Rightarrow> reader \<Rightarrow> io \<Rightarrow> string list \<Rightarrow> path
     \<Rightarrow> fs \<Rightarrow> (fs \<times> (verr + string)) option" where
  "RunHistory date srt ord n rd io heads varaDir fs =
     (case resolveHEAD varaDir fs of
        Inl e \<Rightarrow> Some (fs, Inl e)
      | Inr headID \<Rightarrow>
          (case LoadOrBuild ord n rd io heads varaDir fs of
             None \<Rightarrow> None
           | Some (fs1, Inl _) \<Rightarrow> Some (fs1, historyFromStore date rd headID)
           | Some (fs1, Inr idx) \<Rightarrow> Some (fs1, Inr (historyFromIndex date srt idx headID))))"

section \<open>The file format round trips\<close>

definition wf_entry :: "GEntry \<Rightarrow> bool" where
  "wf_entry e \<longleftrightarrow> NUL \<notin> set (ge_Author e) \<and> NUL \<notin> set (ge_Message e)"

definition wf_entries :: "GEntry list \<Rightarrow> bool" where
  "wf_entries es \<longleftrightarrow> list_all wf_entry es \<and> length es < 2 ^ 32 \<and> length (concat (map ge_Parents es)) < 2 ^ 32
     \<and> length (concat (map meta_bytes es)) < 2 ^ 32"

lemma read_buf_append: "length b = n \<Longrightarrow> read_buf n (b @ r) = (b, r)"
  by (simp add: read_buf_def)

lemma read_words [simp]:
  "read_u32 (word_bytes (a :: u32) @ r) = (a, r)" "read_u64 (word_bytes (b :: u64) @ r) = (b, r)"
  "read_buf 32 (word_bytes (i :: CommitID) @ r) = (word_bytes i, r)"
  by (simp_all add: read_u32_def read_u64_def read_buf_append)

definition raw_of :: "u32 \<Rightarrow> nat \<Rightarrow> GEntry \<Rightarrow> rawEntry" where
  "raw_of po ml e = \<lparr>rw_id = ge_ID e, rw_generation = ge_Generation e, rw_timestamp = ge_Timestamp e, rw_parentOffset = po,
     rw_parentCount = of_nat (length (ge_Parents e)), rw_metaOffset = of_nat ml\<rparr>"

fun raws_of :: "u32 \<Rightarrow> nat \<Rightarrow> GEntry list \<Rightarrow> rawEntry list" where
  "raws_of po ml [] = []"
| "raws_of po ml (e # es) = raw_of po ml e # raws_of (po + of_nat (length (ge_Parents e))) (ml + length (meta_bytes e)) es"

lemma read_raws_rows: "read_raws (length es) (commit_rows po ml es @ r) = (raws_of po ml es, r)"
proof (induction es arbitrary: po ml)
  case (Cons e es)
  then show ?case by (simp add: commit_row_def raw_of_def Let_def)
qed simp

lemma read_parents_bytes: "read_parents (length ps) (concat (map word_bytes ps) @ r) = (ps, r)"
  by (induction ps) (simp_all add: Let_def)

lemma parent_bytes_concat: "concat (map parent_bytes es) = concat (map word_bytes (concat (map ge_Parents es)))"
  by (induction es) (simp_all add: parent_bytes_def)

lemma totalParents_raws: "totalParents (raws_of po ml es) = of_nat (length (concat (map ge_Parents es)))"
proof -
  have "fold (\<lambda>w n. n + rw_parentCount w) (raws_of po ml es) k = k + of_nat (length (concat (map ge_Parents es)))" for k :: u32
  proof (induction es arbitrary: po ml k)
    case (Cons e es)
    then show ?case by (simp add: raw_of_def ac_simps)
  qed simp
  from this [of 0] show ?thesis by (simp add: totalParents_def)
qed

lemma readMeta_at:
  assumes "meta = a @ meta_bytes e @ b" "wf_entry e" "length meta < 2 ^ 32"
  shows "readMeta meta (of_nat (length a)) = (ge_Author e, ge_Message e)"
proof -
  have n: "unat (of_nat (length a) :: u32) = length a" using assms(1,3) by simp
  have "takeWhile (\<lambda>c. c \<noteq> NUL) (x @ NUL # y) = x" if "NUL \<notin> set x" for x y :: string
    using that by (subst takeWhile_append2) auto
  then show ?thesis using assms(1,2) unfolding readMeta_def n by (simp add: Let_def meta_bytes_def wf_entry_def)
qed

lemma raw_parents_at:
  assumes "pd = a @ ge_Parents e @ b" "length pd < 2 ^ 32"
  shows "raw_parents pd (raw_of (of_nat (length a)) ml e) = Some (ge_Parents e)"
proof -
  let ?n = "length (ge_Parents e)"
  have pc: "unat (of_nat ?n :: u32) = ?n" using assms by simp
  have k: "unat (of_nat (length a) + of_nat j :: u32) = length a + j" if "j < ?n" for j
  proof -
    have "of_nat (length a) + of_nat j = (of_nat (length a + j) :: u32)" by simp
    moreover have "length a + j < 2 ^ 32" using assms that by simp
    ultimately show ?thesis by (metis unat_of_nat_len32)
  qed
  have ks: "map (\<lambda>j. unat (rw_parentOffset (raw_of (of_nat (length a)) ml e) + of_nat j)) [0 ..< unat (rw_parentCount (raw_of (of_nat (length a)) ml e))]
      = map (\<lambda>j. length a + j) [0 ..< ?n]"
    using k pc by (simp add: raw_of_def)
  have "map (\<lambda>k. pd ! k) (map (\<lambda>j. length a + j) [0 ..< ?n]) = ge_Parents e"
    by (rule nth_equalityI) (simp_all add: assms(1) nth_append)
  then show ?thesis unfolding raw_parents_def Let_def ks using assms(1) by (simp add: list_all_iff)
qed

lemma raw_entries_raws:
  assumes "length (pa @ concat (map ge_Parents es)) < 2 ^ 32" "length (ma @ concat (map meta_bytes es)) < 2 ^ 32" "list_all wf_entry es"
  shows "raw_entries (pa @ concat (map ge_Parents es)) (ma @ concat (map meta_bytes es)) (raws_of (of_nat (length pa)) (length ma) es) = Some es"
  using assms
proof (induction es arbitrary: pa ma)
  case (Cons e es)
  let ?pd = "pa @ concat (map ge_Parents (e # es))" and ?meta = "ma @ concat (map meta_bytes (e # es))"
  have p: "raw_parents ?pd (raw_of (of_nat (length pa)) (length ma) e) = Some (ge_Parents e)"
    using Cons.prems(1) by (intro raw_parents_at [of _ pa e "concat (map ge_Parents es)"]) simp_all
  have m: "readMeta ?meta (of_nat (length ma)) = (ge_Author e, ge_Message e)"
    using Cons.prems(2,3) by (intro readMeta_at [of _ ma e "concat (map meta_bytes es)"]) simp_all
  have ih: "raw_entries ?pd ?meta (raws_of (of_nat (length pa) + of_nat (length (ge_Parents e))) (length ma + length (meta_bytes e)) es) = Some es"
    using Cons.IH [of "pa @ ge_Parents e" "ma @ meta_bytes e"] Cons.prems by simp
  have "rw_metaOffset (raw_of (of_nat (length pa)) (length ma) e) = of_nat (length ma)" by (simp add: raw_of_def)
  then show ?case using p m ih unfolding raws_of.simps raw_entries.simps by (simp add: Let_def raw_of_def)
qed simp

lemma parse_written:
  assumes "wf_entries es"
  shows "parseIndex (index_bytes es) = Some (Inr (index_of_entries es))"
proof -
  let ?sum = "word_bytes (Compute (index_body es))"
  have len: "length (index_bytes es) = length (index_body es) + 32" by (simp add: index_bytes_def)
  have body: "take (length (index_bytes es) - 32) (index_bytes es) = index_body es"
    "drop (length (index_bytes es) - 32) (index_bytes es) = ?sum" unfolding len by (simp_all add: index_bytes_def)
  have long: "\<not> length (index_bytes es) < 48" by (simp add: len index_body_def gi_magic_def)
  let ?r4 = "commit_rows 0 0 es @ concat (map parent_bytes es) @ concat (map meta_bytes es)"
  have magic: "read_buf 4 (index_body es) = (gi_magic, word_bytes gi_version @ word_bytes (of_nat (length es) :: u32) @ word_bytes (0 :: u32) @ ?r4)"
    unfolding index_body_def by (rule read_buf_append) (simp add: gi_magic_def)
  have cnt: "unat (of_nat (length es) :: u32) = length es" using assms by (simp add: wf_entries_def)
  have raws: "read_raws (length es) ?r4 = (raws_of 0 0 es, concat (map parent_bytes es) @ concat (map meta_bytes es))"
    by (rule read_raws_rows)
  have tot: "unat (totalParents (raws_of 0 0 es)) = length (concat (map ge_Parents es))"
    using assms unfolding totalParents_raws wf_entries_def by (metis unat_of_nat_len32)
  have pd: "read_parents (length (concat (map ge_Parents es))) (concat (map parent_bytes es) @ concat (map meta_bytes es))
      = (concat (map ge_Parents es), concat (map meta_bytes es))"
    unfolding parent_bytes_concat by (rule read_parents_bytes)
  have es: "raw_entries (concat (map ge_Parents es)) (concat (map meta_bytes es)) (raws_of 0 0 es) = Some es"
    using raw_entries_raws [of "[]" es "[]"] assms by (simp add: wf_entries_def)
  show ?thesis
    unfolding parseIndex_def Let_def body magic prod.case
    using long es by (simp add: cnt raws tot pd)
qed


section \<open>Building reads exactly the reachable commits\<close>

lemma raw_collect:
  assumes "raw_commits rd q v raw = Inr raw'" "dom raw = v - set q" "set q \<subseteq> v" "distinct q" "\<forall>i c. raw i = Some c \<longrightarrow> readCommit rd i = Inr c"
  shows "collect_loop rd q v = Inr (dom raw') \<and> (\<forall>i c. raw' i = Some c \<longrightarrow> readCommit rd i = Inr c)"
  using assms
proof (induction rd q v raw rule: raw_commits.induct)
  case (2 rd i q v raw)
  from 2(2) obtain c where r: "readCommit rd i = Inr c" by (auto simp: res_simps)
  obtain q2 v2 where e: "enqueue (Parents c) q v = (q2, v2)" by fastforce
  have rest: "raw_commits rd q2 v2 (raw(i \<mapsto> c)) = Inr raw'" using 2(2) r e by simp
  obtain new where new: "q2 = q @ new" "distinct new" "set new = set (Parents c) - v" "v2 = v \<union> set (Parents c)"
    using enqueue_spec [OF e] by blast
  have "dom (raw(i \<mapsto> c)) = v2 - set q2" "set q2 \<subseteq> v2" "distinct q2" "\<forall>j d. (raw(i \<mapsto> c)) j = Some d \<longrightarrow> readCommit rd j = Inr d"
    using 2(3-6) new r by auto
  from 2(1) [OF r e [symmetric] rest this] show ?case using r e by simp
qed auto

lemma raw_reachable:
  assumes "enqueue tips [] {} = (q, v)" "raw_commits rd q v Map.empty = Inr raw"
  shows "dom raw = (parent_rel rd)\<^sup>* `` set tips" "raw i = Some c \<Longrightarrow> readCommit rd i = Inr c"
proof -
  obtain new where new: "q = new" "distinct new" "set new = set tips" "v = set tips" using enqueue_spec [OF assms(1)] by auto
  have "collect_loop rd q v = Inr (dom raw) \<and> (\<forall>i c. raw i = Some c \<longrightarrow> readCommit rd i = Inr c)"
    using raw_collect [OF assms(2)] new by auto
  then have l: "collect_loop rd q v = Inr (dom raw)" and c: "\<forall>i c. raw i = Some c \<longrightarrow> readCommit rd i = Inr c" by auto
  have "expanded rd q v" using new by (simp add: expanded_def)
  from collect_loop_sound [OF l this] have s: "v \<subseteq> dom raw" "dom raw \<subseteq> (parent_rel rd)\<^sup>* `` v" "parent_rel rd `` dom raw \<subseteq> dom raw" by auto
  have "(parent_rel rd)\<^sup>* `` v \<subseteq> dom raw" using rtrancl_closed [OF s(3)] s(1) by blast
  then show "dom raw = (parent_rel rd)\<^sup>* `` set tips" using s(2) new by auto
  show "readCommit rd i = Inr c" if "raw i = Some c" using c that by blast
qed

lemma raw_reader_iff: "readCommit (raw_reader raw) i = Inr c \<longleftrightarrow> raw i = Some c"
  by (auto simp: readCommit_def raw_reader_def split: option.splits)

section \<open>Generations of the commits read\<close>

lemma gen_dom:
  "Generation n rd i cache = Some (cache', r) \<Longrightarrow> dom cache \<subseteq> dom cache' \<and> (\<forall>g. r = Inr g \<longrightarrow> i \<in> dom cache')"
  "max_parent n rd ps cache m = Some (cache', r) \<Longrightarrow> dom cache \<subseteq> dom cache'"
proof (induction n rd i cache and n rd ps cache m arbitrary: cache' r and cache' r rule: Generation_max_parent.induct)
  case (2 n rd i cache)
  show ?case
  proof (cases "cache i")
    case None
    then show ?thesis using 2 by (auto split: sum.splits if_splits option.splits) blast+
  qed (use 2 in auto)
next
  case (4 n rd p ps cache m)
  obtain c1 r1 where g: "Generation n rd p cache = Some (c1, r1)" using 4(3) by (auto split: option.splits)
  note d1 = 4(1) [OF g]
  show ?case
  proof (cases r1)
    case (Inl e)
    then show ?thesis using 4(3) g d1 by simp
  next
    case (Inr k)
    then have "max_parent n rd ps c1 (if m < k then k else m) = Some (cache', r)" using 4(3) g by simp
    from 4(2) [OF g refl Inr this] d1 show ?thesis by blast
  qed
qed auto


lemma gens_computed:
  assumes "\<forall>i \<in> set is. \<exists>g < n. is_gen (raw_reader raw) i g" "cache_ok (raw_reader raw) cache"
  shows "\<exists>cache'. compute_gens n raw is cache = Some cache' \<and> cache_ok (raw_reader raw) cache' \<and> dom cache \<subseteq> dom cache' \<and> set is \<subseteq> dom cache'"
  using assms
proof (induction "is" arbitrary: cache)
  case (Cons i "is")
  obtain g where g: "g < n" "is_gen (raw_reader raw) i g" using Cons.prems(1) by auto
  obtain c1 where c1: "Generation n (raw_reader raw) i cache = Some (c1, Inr g)" using Generation_complete [OF g(2) Cons.prems(2) g(1)] by blast
  note d = gen_dom(1) [OF c1]
  have ok: "cache_ok (raw_reader raw) c1" using Generation_sound(1) [OF c1 Cons.prems(2)] by blast
  have rest: "\<forall>i \<in> set is. \<exists>g < n. is_gen (raw_reader raw) i g" using Cons.prems(1) by simp
  from Cons.IH [OF rest ok] obtain c2 where c2: "compute_gens n raw is c1 = Some c2" "cache_ok (raw_reader raw) c2" "dom c1 \<subseteq> dom c2" "set is \<subseteq> dom c2"
    by blast
  have "i \<in> dom c2" using d c2(3) by blast
  moreover have "dom cache \<subseteq> dom c2" using d c2(3) by blast
  ultimately show ?case using c1 c2 by auto
qed auto

lemma is_gen_mono:
  assumes "\<And>i c. readCommit rd i = Inr c \<Longrightarrow> i \<in> A \<Longrightarrow> readCommit rd' i = Inr c" "\<And>i c. i \<in> A \<Longrightarrow> readCommit rd i = Inr c \<Longrightarrow> set (Parents c) \<subseteq> A"
  shows "is_gen rd i g \<Longrightarrow> i \<in> A \<Longrightarrow> is_gen rd' i g"
proof (induction rule: is_gen.induct)
  case (root i c)
  then show ?case using assms(1) by (intro is_gen.root)
next
  case (child i c gs)
  have sub: "set (Parents c) \<subseteq> A" using assms(2) child(1,4) by blast
  have "list_all2 (is_gen rd') (Parents c) gs"
    using child(3) sub unfolding list_all2_conv_all_nth by (metis nth_mem subset_iff)
  then show ?case using is_gen.child [of rd' i c gs] assms(1) child(1,2,4) by blast
qed


section \<open>The index after a build\<close>

definition commit_of :: "reader \<Rightarrow> CommitID \<Rightarrow> Commit" where
  "commit_of rd i = (case readCommit rd i of Inr c \<Rightarrow> c | Inl _ \<Rightarrow> \<lparr>TreeHash = 0, Parents = [], Author = [], Message = [], Timestamp = 0\<rparr>)"

text \<open>A history that fits the format: no NUL in authors and messages, and tables below 4 GiB entries and bytes.\<close>

definition fits :: "reader \<Rightarrow> CommitID set \<Rightarrow> bool" where
  "fits rd S \<longleftrightarrow> (\<forall>i \<in> S. NUL \<notin> set (Author (commit_of rd i)) \<and> NUL \<notin> set (Message (commit_of rd i)))
     \<and> card S < 2 ^ 32 \<and> (\<Sum>i \<in> S. length (Parents (commit_of rd i))) < 2 ^ 32
     \<and> (\<Sum>i \<in> S. length (Author (commit_of rd i)) + length (Message (commit_of rd i)) + 2) < 2 ^ 32"

definition set_order :: "(CommitID set \<Rightarrow> CommitID list) \<Rightarrow> bool" where
  "set_order ord \<longleftrightarrow> (\<forall>S. set (ord S) = S \<and> distinct (ord S))"

lemma fits_wf:
  assumes "fits rd (dom raw)" "set_order ord" "\<And>i c. raw i = Some c \<Longrightarrow> readCommit rd i = Inr c"
  shows "wf_entries (map (gentry raw cache) (ord (dom raw)))"
proof -
  let ?xs = "ord (dom raw)"
  have o: "set ?xs = dom raw" "distinct ?xs" using assms(2) by (auto simp: set_order_def)
  have c: "the (raw i) = commit_of rd i" if "i \<in> set ?xs" for i using that o(1) assms(3) by (auto simp: commit_of_def)
  have "length ?xs = card (dom raw)" using o distinct_card by metis
  moreover have "list_all wf_entry (map (gentry raw cache) ?xs)"
    using assms(1) c o(1) by (auto simp: list_all_iff fits_def wf_entry_def gentry_def Let_def)
  moreover have "length (concat (map ge_Parents (map (gentry raw cache) ?xs))) = (\<Sum>i \<in> dom raw. length (Parents (commit_of rd i)))"
  proof -
    have "length (concat (map ge_Parents (map (gentry raw cache) ?xs))) = sum_list (map (\<lambda>i. length (Parents (commit_of rd i))) ?xs)"
      using c by (simp add: length_concat gentry_def Let_def comp_def cong: map_cong)
    then show ?thesis using o by (simp add: sum_list_distinct_conv_sum_set)
  qed
  moreover have "length (concat (map meta_bytes (map (gentry raw cache) ?xs)))
      = (\<Sum>i \<in> dom raw. length (Author (commit_of rd i)) + length (Message (commit_of rd i)) + 2)"
  proof -
    have "length (concat (map meta_bytes (map (gentry raw cache) ?xs)))
        = sum_list (map (\<lambda>i. length (Author (commit_of rd i)) + length (Message (commit_of rd i)) + 2) ?xs)"
      using c by (simp add: length_concat gentry_def Let_def comp_def meta_bytes_def cong: map_cong)
    then show ?thesis using o by (simp add: sum_list_distinct_conv_sum_set)
  qed
  ultimately show ?thesis using assms(1) by (simp add: wf_entries_def fits_def)
qed

lemma byID_entries:
  assumes "distinct (map ge_ID es)"
  shows "byID (index_of_entries es) i = Some e \<longleftrightarrow> e \<in> set es \<and> ge_ID e = i"
proof -
  have f: "fold (\<lambda>e m. m(ge_ID e \<mapsto> e)) es m i = Some e \<longleftrightarrow> (e \<in> set es \<and> ge_ID e = i) \<or> (i \<notin> ge_ID ` set es \<and> m i = Some e)" for m
    using assms
  proof (induction es arbitrary: m)
    case (Cons a es)
    have "fold (\<lambda>e m. m(ge_ID e \<mapsto> e)) (a # es) m i = Some e \<longleftrightarrow>
        (e \<in> set es \<and> ge_ID e = i) \<or> (i \<notin> ge_ID ` set es \<and> (m(ge_ID a \<mapsto> a)) i = Some e)"
      using Cons.IH [of "m(ge_ID a \<mapsto> a)"] Cons.prems by (simp only: fold.simps comp_apply list.map distinct.simps)
    also have "\<dots> \<longleftrightarrow> (e \<in> set (a # es) \<and> ge_ID e = i) \<or> (i \<notin> ge_ID ` set (a # es) \<and> m i = Some e)"
      using Cons.prems by (auto simp: image_iff)
    finally show ?case .
  qed simp
  show ?thesis unfolding index_of_entries_def using f [of Map.empty] by simp
qed

lemma writeIndex_ok: "writeIndex io varaDir es fs = (fs', Inr u) \<Longrightarrow> fs' (index_path varaDir) = Some (index_bytes es)"
  by (auto simp: writeIndex_def Let_def os_WriteFile_def os_Rename_def os_Remove_def split: if_splits prod.splits sum.splits)

text \<open>The index that represents a set of commits.\<close>

definition represents :: "reader \<Rightarrow> CommitID set \<Rightarrow> GIndex \<Rightarrow> bool" where
  "represents rd S idx \<longleftrightarrow> (\<forall>i. (Lookup idx i \<noteq> None \<longleftrightarrow> i \<in> S) \<and> (\<forall>e. Lookup idx i = Some e \<longrightarrow> (\<exists>c g. readCommit rd i = Inr c \<and> is_gen rd i g
     \<and> e = \<lparr>ge_ID = i, ge_Generation = of_nat g, ge_Timestamp = Timestamp c, ge_Parents = Parents c, ge_Author = Author c, ge_Message = Message c\<rparr>)))"

lemma build_represents:
  assumes "set_order ord" "fits rd S" "S = (parent_rel rd)\<^sup>* `` set (collectTips heads varaDir fs)"
    and "\<forall>i \<in> S. \<exists>g < n. is_gen rd i g"
  shows "\<exists>fs' r. Build_index ord n rd io heads varaDir fs = Some (fs', r) \<and> (r = Inr () \<longrightarrow> (\<exists>idx. Load varaDir fs' = Some (Inr idx) \<and> represents rd S idx))"
proof (cases "collectTips heads varaDir fs = []")
  case True
  obtain fs' r where w: "writeIndex io varaDir [] fs = (fs', r)" by fastforce
  have wf: "wf_entries []" by (simp add: wf_entries_def)
  have "represents rd S (index_of_entries [])" using assms(3) True by (simp add: represents_def Lookup_def index_of_entries_def)
  then show ?thesis using w True writeIndex_ok [of io varaDir "[]" fs fs'] parse_written [OF wf] by (auto simp: Build_index_def Load_def)
next
  case tips: False
  obtain q v where e: "enqueue (collectTips heads varaDir fs) [] {} = (q, v)" by fastforce
  show ?thesis
  proof (cases "raw_commits rd q v Map.empty")
    case (Inl err)
    then show ?thesis using tips e by (simp add: Build_index_def Let_def)
  next
    case (Inr raw)
    note r = raw_reachable [OF e Inr]
    have dom: "dom raw = S" using r(1) assms(3) by simp
    have closed: "set (Parents c) \<subseteq> S" if "raw i = Some c" for i c
    proof -
      have "i \<in> S" "readCommit rd i = Inr c" using that dom r(2) by auto
      then show ?thesis using parents_reach [of rd i c] assms(3) by (auto intro: rtrancl_trans)
    qed
    have up: "readCommit (raw_reader raw) i = Inr c" if "readCommit rd i = Inr c" "i \<in> S" for i c
      using that r(2) dom unfolding raw_reader_iff by fastforce
    have gens: "\<forall>i \<in> set (ord (dom raw)). \<exists>g < n. is_gen (raw_reader raw) i g"
    proof
      fix i assume "i \<in> set (ord (dom raw))"
      then have i: "i \<in> S" using assms(1) dom by (simp add: set_order_def)
      then obtain g where g: "g < n" "is_gen rd i g" using assms(4) by blast
      have "is_gen (raw_reader raw) i g"
      proof (rule is_gen_mono [OF _ _ g(2) i])
        show "set (Parents c) \<subseteq> S" if "j \<in> S" "readCommit rd j = Inr c" for j c
          using up [OF that(2,1)] closed by (simp add: raw_reader_iff)
      qed (rule up)
      then show "\<exists>g < n. is_gen (raw_reader raw) i g" using g(1) by blast
    qed
    obtain cache where c: "compute_gens n raw (ord (dom raw)) Map.empty = Some cache" "cache_ok (raw_reader raw) cache" "set (ord (dom raw)) \<subseteq> dom cache"
      using gens_computed [OF gens, of Map.empty] by (auto simp: cache_ok_def)
    let ?es = "map (gentry raw cache) (ord (dom raw))"
    obtain fs' res where w: "writeIndex io varaDir ?es fs = (fs', res)" by fastforce
    have b: "Build_index ord n rd io heads varaDir fs = Some (fs', res)" using tips e Inr c(1) w by (simp add: Build_index_def Let_def)
    have o: "set (ord (dom raw)) = S" "distinct (ord (dom raw))" using assms(1) dom by (auto simp: set_order_def)
    have ids: "map ge_ID ?es = ord (dom raw)" by (simp add: comp_def gentry_def Let_def)
    have look: "Lookup (index_of_entries ?es) i = Some x \<longleftrightarrow> i \<in> S \<and> x = gentry raw cache i" for i x
    proof -
      have "Lookup (index_of_entries ?es) i = Some x \<longleftrightarrow> x \<in> set ?es \<and> ge_ID x = i"
        unfolding Lookup_def by (rule byID_entries) (simp only: ids o(2))
      then show ?thesis using o(1) by (auto simp: gentry_def Let_def)
    qed
    have "\<exists>cm g. readCommit rd i = Inr cm \<and> is_gen rd i g \<and> gentry raw cache i =
        \<lparr>ge_ID = i, ge_Generation = of_nat g, ge_Timestamp = Timestamp cm, ge_Parents = Parents cm, ge_Author = Author cm, ge_Message = Message cm\<rparr>"
      if inS: "i \<in> S" for i
    proof -
      obtain cm where cm: "raw i = Some cm" using inS dom by blast
      obtain g where g: "cache i = Some g" using c(3) o(1) inS by blast
      have "is_gen (raw_reader raw) i g" using c(2) g by (simp add: cache_ok_def)
      then have "is_gen rd i g" by (rule is_gen_mono [where A = UNIV, rotated 2]) (auto simp: raw_reader_iff r(2))
      then show ?thesis using cm g r(2) [OF cm] by (auto simp: gentry_def Let_def)
    qed
    then have "represents rd S (index_of_entries ?es)" unfolding represents_def using look by (metis not_None_eq)
    moreover have "parseIndex (index_bytes ?es) = Some (Inr (index_of_entries ?es))"
      by (rule parse_written, rule fits_wf [of rd]) (use assms(1,2) dom r(2) in auto)
    ultimately show ?thesis using b w writeIndex_ok [of io varaDir ?es fs fs'] by (auto simp: Load_def)
  qed
qed


section \<open>The history shown\<close>

lemma history_walk:
  assumes "represents rd S idx" "parent_rel rd `` S \<subseteq> S" "collect_loop rd q v = Inr v'" "set q \<subseteq> v" "distinct q" "set q \<subseteq> S"
  shows "set (map ge_ID (history_entries idx q v)) = set q \<union> (v' - v) \<and> distinct (map ge_ID (history_entries idx q v))
    \<and> set (history_entries idx q v) \<subseteq> {e. \<exists>i. Lookup idx i = Some e \<and> ge_ID e = i} \<and> v \<subseteq> v'"
  using assms
proof (induction idx q v rule: history_entries.induct)
  case (2 idx i q v)
  have "i \<in> S" using 2(8) by simp
  then obtain e c where e: "Lookup idx i = Some e" "readCommit rd i = Inr c" "ge_ID e = i" "ge_Parents e = Parents c"
    using 2(3) unfolding represents_def by fastforce
  obtain q2 v2 where enq: "enqueue (Parents c) q v = (q2, v2)" by fastforce
  obtain new where new: "q2 = q @ new" "distinct new" "set new = set (Parents c) - v" "v2 = v \<union> set (Parents c)"
    using enqueue_spec [OF enq] by blast
  have l: "collect_loop rd q2 v2 = Inr v'" using 2(5) e(2) enq by simp
  have "set (Parents c) \<subseteq> S" using 2(4) \<open>i \<in> S\<close> parent_rel_image [OF e(2)] by blast
  then have side: "set q2 \<subseteq> v2" "distinct q2" "set q2 \<subseteq> S" using 2(6-8) new by auto
  note ih = 2(2) [OF e(1) enq [folded e(4), symmetric] 2(3,4) l side]
  have h: "history_entries idx (i # q) v = e # history_entries idx q2 v2" using e enq by simp
  have "i \<notin> set q2" "i \<in> v2" using 2(6,7) new by auto
  then have "i \<notin> set (map ge_ID (history_entries idx q2 v2))" using ih by blast
  moreover have "set (e3 # []) \<subseteq> {e. \<exists>i. Lookup idx i = Some e \<and> ge_ID e = i}" if "e3 = e" for e3 using that e by auto
  moreover have "insert i (set q2 \<union> (v' - v2)) = set (i # q) \<union> (v' - v)" using new ih 2(6) by auto
  ultimately show ?case using ih h e(3) new(4) by auto
qed simp

lemma gen_less_descendant:
  assumes "(a, b) \<in> (parent_rel rd)\<^sup>+" "is_gen rd a g" "is_gen rd b k"
  shows "k < g"
  using assms
proof (induction arbitrary: k rule: trancl_induct)
  case (base y)
  then show ?case using is_gen_parent_less by blast
next
  case (step y z)
  obtain c where c: "readCommit rd y = Inr c" "z \<in> set (Parents c)" using step(2) by (auto simp: parent_rel_def)
  have "\<exists>gy. is_gen rd y gy"
  proof -
    have "\<exists>g. is_gen rd b g" if "(a, b) \<in> (parent_rel rd)\<^sup>+" "is_gen rd a ga" for a b ga
      using that
    proof (induction rule: trancl_induct)
      case (base y)
      then show ?case by (auto elim!: is_gen.cases simp: parent_rel_def list_all2_conv_all_nth in_set_conv_nth) blast
    next
      case (step y z)
      then obtain gy where "is_gen rd y gy" by blast
      then show ?case using step(2) by (auto elim!: is_gen.cases simp: parent_rel_def list_all2_conv_all_nth in_set_conv_nth) blast
    qed
    then show ?thesis using step(1,4) by blast
  qed
  then obtain gy where gy: "is_gen rd y gy" by blast
  have "gy < g" using step(3) [OF step(4) gy] .
  moreover have "k < gy" using is_gen_parent_less [OF gy step(2) step(5)] .
  ultimately show ?case by simp
qed


lemma represents_dom: "represents rd S idx \<Longrightarrow> i \<in> S \<longleftrightarrow> (\<exists>e. Lookup idx i = Some e)"
  unfolding represents_def by (metis not_None_eq)

lemma represents_entry:
  assumes "represents rd S idx" "Lookup idx i = Some e"
  shows "\<exists>c g. readCommit rd i = Inr c \<and> is_gen rd i g \<and> ge_ID e = i \<and> ge_Generation e = of_nat g \<and> ge_Parents e = Parents c"
proof -
  have "\<forall>e. Lookup idx i = Some e \<longrightarrow> (\<exists>c g. readCommit rd i = Inr c \<and> is_gen rd i g
     \<and> e = \<lparr>ge_ID = i, ge_Generation = of_nat g, ge_Timestamp = Timestamp c, ge_Parents = Parents c, ge_Author = Author c, ge_Message = Message c\<rparr>)"
    using assms(1) unfolding represents_def by (rule allE [where x = i]) (rule conjunct2)
  with assms(2) obtain c g where "readCommit rd i = Inr c" "is_gen rd i g"
    "e = \<lparr>ge_ID = i, ge_Generation = of_nat g, ge_Timestamp = Timestamp c, ge_Parents = Parents c, ge_Author = Author c, ge_Message = Message c\<rparr>" by auto
  then show ?thesis by (intro exI [of _ c] exI [of _ g]) simp
qed

lemma sorted_children_first:
  assumes "represents rd S idx" "\<forall>i \<in> S. \<exists>g < 2 ^ 32. is_gen rd i g" "sorted_wrt (\<lambda>a b. \<not> before b a) es"
    and "set es \<subseteq> {e. \<exists>i. Lookup idx i = Some e \<and> ge_ID e = i}"
  shows "sorted_wrt (\<lambda>a b. (ge_ID b, ge_ID a) \<notin> (parent_rel rd)\<^sup>+) es"
proof (rule sorted_wrt_mono_rel [OF _ assms(3)])
  fix a b assume ab: "a \<in> set es" "b \<in> set es" "\<not> before b a"
  have gen: "\<exists>g. is_gen rd (ge_ID x) g \<and> g < 2 ^ 32 \<and> ge_Generation x = of_nat g" if "x \<in> set es" for x
  proof -
    have l: "Lookup idx (ge_ID x) = Some x" using that assms(4) by auto
    then have "ge_ID x \<in> S" using represents_dom [OF assms(1)] by blast
    then obtain g where g: "g < 2 ^ 32" "is_gen rd (ge_ID x) g" using assms(2) by blast
    obtain g' where g': "is_gen rd (ge_ID x) g'" "ge_Generation x = of_nat g'" using represents_entry [OF assms(1) l] by blast
    have "g' = g" using is_gen_unique [OF g'(1) g(2)] .
    then have "ge_Generation x = of_nat g" using g'(2) by simp
    then show ?thesis using g by blast
  qed
  show "(ge_ID b, ge_ID a) \<notin> (parent_rel rd)\<^sup>+"
  proof
    assume d: "(ge_ID b, ge_ID a) \<in> (parent_rel rd)\<^sup>+"
    obtain ga where ga: "is_gen rd (ge_ID a) ga" "ga < 2 ^ 32" "ge_Generation a = of_nat ga" using gen [OF ab(1)] by blast
    obtain gb where gb: "is_gen rd (ge_ID b) gb" "gb < 2 ^ 32" "ge_Generation b = of_nat gb" using gen [OF ab(2)] by blast
    have "ga < gb" using gen_less_descendant [OF d gb(1) ga(1)] .
    then have lt: "ge_Generation a < ge_Generation b" using ga(2,3) gb(2,3) by (simp add: word_less_nat_alt)
    then have "ge_Generation b \<noteq> ge_Generation a" by simp
    then show False using ab(3) lt by (simp add: before_def)
  qed
qed

text \<open>C40. After the graph index was built (for a history that fits the format and whose generation numbers stay below the fuel),
  loading it succeeds, and the history shown for a head that the branch files or HEAD lead to lists exactly the ancestors of the head, every
  commit once, and never a commit after one of its ancestors.\<close>

theorem history_complete:
  assumes "set_order ord" "sorts_by before srt" "S = (parent_rel rd)\<^sup>* `` set (collectTips heads varaDir fs)" "fits rd S"
    and "\<forall>i \<in> S. \<exists>g < n. is_gen rd i g" "n \<le> 2 ^ 32" "headID \<in> S" "Build_index ord n rd io heads varaDir fs = Some (fs', Inr ())"
  shows "\<exists>idx. Load varaDir fs' = Some (Inr idx)
    \<and> set (map ge_ID (ordered_history srt idx headID)) = ancestors rd headID
    \<and> distinct (map ge_ID (ordered_history srt idx headID))
    \<and> sorted_wrt (\<lambda>a b. (ge_ID b, ge_ID a) \<notin> (parent_rel rd)\<^sup>+) (ordered_history srt idx headID)"
proof -
  obtain idx where idx: "Load varaDir fs' = Some (Inr idx)" "represents rd S idx"
    using build_represents [OF assms(1,4,3,5), of io] assms(8) by auto
  have closed: "parent_rel rd `` S \<subseteq> S" unfolding assms(3) by (auto intro: rtrancl_into_rtrancl)
  have anc: "ancestors rd headID \<subseteq> S" using rtrancl_closed [OF closed assms(7)] by blast
  have "\<exists>c. readCommit rd x = Inr c" if "x \<in> ancestors rd headID" for x
  proof -
    have "x \<in> S" using anc that by (rule subsetD)
    then obtain e where "Lookup idx x = Some e" unfolding represents_dom [OF idx(2)] by blast
    then show ?thesis using represents_entry [OF idx(2)] by blast
  qed
  then have "readable_from rd headID" by (simp add: readable_from_def)
  from collectAncestors_total [OF this] have l: "collect_loop rd [headID] {headID} = Inr (ancestors rd headID)"
    by (simp add: collectAncestors_def)
  let ?es = "history_entries idx [headID] {headID}"
  have w: "set (map ge_ID ?es) = ancestors rd headID" "distinct (map ge_ID ?es)" "set ?es \<subseteq> {e. \<exists>i. Lookup idx i = Some e \<and> ge_ID e = i}"
    using history_walk [OF idx(2) closed l] assms(7) by auto
  have srt: "mset (ordered_history srt idx headID) = mset ?es" "sorted_wrt (\<lambda>a b. \<not> before b a) (ordered_history srt idx headID)"
    using assms(2) by (auto simp: sorts_by_def ordered_history_def)
  have same: "set (ordered_history srt idx headID) = set ?es" using srt(1) by (metis set_mset_mset)
  have "mset (map ge_ID (ordered_history srt idx headID)) = mset (map ge_ID ?es)" using srt(1) by simp
  then have "distinct (map ge_ID (ordered_history srt idx headID))" using w(2) by (metis mset_eq_imp_distinct_iff)
  moreover have "sorted_wrt (\<lambda>a b. (ge_ID b, ge_ID a) \<notin> (parent_rel rd)\<^sup>+) (ordered_history srt idx headID)"
  proof (rule sorted_children_first [OF idx(2) _ srt(2)])
    show "\<forall>i \<in> S. \<exists>g < 2 ^ 32. is_gen rd i g" using assms(5,6) by (meson less_le_trans)
  qed (use same w(3) in simp)
  moreover have "set (map ge_ID (ordered_history srt idx headID)) = ancestors rd headID" using same w(1) by simp
  ultimately show ?thesis using idx(1) by blast
qed


text \<open>A sort by one number: generation first, then time.\<close>

definition newest_key :: "GEntry \<Rightarrow> int" where
  "newest_key e = - (uint (ge_Generation e) * 2 ^ 65 + sint (ge_Timestamp e))"

lemma sort_newest: "sorts_by before (sort_key newest_key)"
proof -
  have ts: "- (2 ^ 63) \<le> sint (t :: u64) \<and> sint t < 2 ^ 63" for t using sint_range_size [of t] by (simp add: word_size)
  have "\<not> before b a" if "newest_key a \<le> newest_key b" for a b
  proof
    assume bf: "before b a"
    show False
    proof (cases "ge_Generation b = ge_Generation a")
      case True
      then show False using bf that by (simp add: before_def newest_key_def)
    next
      case False
      then have "uint (ge_Generation a) + 1 \<le> uint (ge_Generation b)" using bf by (simp add: before_def word_less_def)
      then show False using that ts [of "ge_Timestamp a"] ts [of "ge_Timestamp b"] by (simp add: newest_key_def)
    qed
  qed
  moreover have "sorted_wrt (\<lambda>a b. newest_key a \<le> newest_key b) (sort_key newest_key xs)" for xs
    using sorted_sort_key [of newest_key xs] by (simp add: sorted_map)
  ultimately have "sorted_wrt (\<lambda>a b. \<not> before b a) (sort_key newest_key xs)" for xs
    using sorted_wrt_mono_rel [of "sort_key newest_key xs" "\<lambda>a b. newest_key a \<le> newest_key b" "\<lambda>a b. \<not> before b a"] by blast
  then show ?thesis by (simp add: sorts_by_def)
qed

definition one_head :: fs where
  "one_head = [''/v/HEAD'' \<mapsto> BaseID_String 1 @ [LF]]"

lemma one_head_tips: "collectTips [] ''/v'' one_head = [1]"
proof -
  have p: "filepath_Join ''/v'' ''HEAD'' = ''/v/HEAD''" by code_simp
  have "\<not> HasPrefix (BaseID_String 1) ''ref: ''" using id_not_symbolic [of 1] by (simp add: ref_prefix_def)
  moreover have t: "TrimSpace (BaseID_String 1 @ [LF]) = BaseID_String 1" by simp
  moreover have "TrimSpace (BaseID_String 1) = BaseID_String 1"
    by (rule TrimSpace_graphic) (use BaseID_String_graphic [of _ 1] hd_in_set [of "BaseID_String 1"] last_in_set [of "BaseID_String 1"] in auto)
  ultimately show ?thesis by (simp add: collectTips_def head_tip_def one_head_def p addTip_def Let_def)
qed

theorem history_complete_witness:
  "\<exists>fs' idx. Build_index sorted_list_of_set 1 sample_rd io_ok [] ''/v'' one_head = Some (fs', Inr ()) \<and> Load ''/v'' fs' = Some (Inr idx)
     \<and> map ge_ID (ordered_history (sort_key newest_key) idx 1) = [1]"
proof -
  have one: "ancestors sample_rd 1 = {1}"
  proof -
    have "(parent_rel sample_rd)\<^sup>* `` {1} \<subseteq> {1}"
      using rtrancl_closed [of "parent_rel sample_rd" "{1}" 1] parent_rel_image [OF sample_readCommit(1)] by auto
    then show ?thesis by auto
  qed
  have S: "{1} = (parent_rel sample_rd)\<^sup>* `` set (collectTips [] ''/v'' one_head)" using one by (simp add: one_head_tips)
  have fits: "fits sample_rd {1}" by (simp add: fits_def commit_of_def)
  have ord: "set_order sorted_list_of_set" by (simp add: set_order_def)
  have gen: "\<forall>i \<in> {1}. \<exists>g < 1. is_gen sample_rd i g" using sample_gen(1) by auto
  obtain fs' where b: "Build_index sorted_list_of_set 1 sample_rd io_ok [] ''/v'' one_head = Some (fs', Inr ())"
    by (simp add: Build_index_def one_head_tips raw_reader_def readCommit_def sample_rd_def mk_commit_def writeIndex_def os_WriteFile_def io_ok_def Let_def)
  from history_complete [OF ord sort_newest S fits gen _ _ b, of 1] obtain idx where idx: "Load ''/v'' fs' = Some (Inr idx)"
    "set (map ge_ID (ordered_history (sort_key newest_key) idx 1)) = {1}" "distinct (map ge_ID (ordered_history (sort_key newest_key) idx 1))"
    using one by auto
  have "length (map ge_ID (ordered_history (sort_key newest_key) idx 1)) = 1" using idx(2,3) distinct_card by fastforce
  then obtain x where x: "map ge_ID (ordered_history (sort_key newest_key) idx 1) = [x]" by (metis length_0_conv length_Suc_conv One_nat_def)
  then have "x = 1" using idx(2) unfolding x by simp
  then have "map ge_ID (ordered_history (sort_key newest_key) idx 1) = [1]" using x by simp
  with b idx(1) show ?thesis by (intro exI [of _ fs'] exI [of _ idx] conjI)
qed

text \<open>A head the index does not have (the tips of branches in subdirectories are not collected) gives an empty history, without an error.\<close>

lemma history_missing_head:
  assumes "sorts_by before srt" "Lookup idx headID = None"
  shows "historyFromIndex date srt idx headID = []"
proof -
  have "mset (srt []) = mset []" using assms(1) unfolding sorts_by_def by blast
  then show ?thesis using assms(2) by (simp add: historyFromIndex_def ordered_history_def)
qed

text \<open>A file with a correct checksum whose first row points behind the parent array makes the parser panic.\<close>

lemma parse_panics:
  defines "body \<equiv> gi_magic @ word_bytes gi_version @ word_bytes (1 :: u32) @ word_bytes (0 :: u32)
      @ word_bytes (0 :: CommitID) @ word_bytes (0 :: u32) @ word_bytes (0 :: u64) @ word_bytes (5 :: u32) @ word_bytes (1 :: u32) @ word_bytes (0 :: u32)
      @ word_bytes (0 :: CommitID)"
  shows "parseIndex (body @ word_bytes (Compute body)) = None"
proof -
  have len: "length (body @ word_bytes (Compute body)) = length body + 32" by simp
  have long: "\<not> length (body @ word_bytes (Compute body)) < 48" by (simp add: body_def gi_magic_def)
  have magic: "read_buf 4 body = (gi_magic, drop 4 body)" by (simp add: read_buf_def body_def gi_magic_def)
  have rest: "drop 4 body = word_bytes gi_version @ word_bytes (1 :: u32) @ word_bytes (0 :: u32)
      @ word_bytes (0 :: CommitID) @ word_bytes (0 :: u32) @ word_bytes (0 :: u64) @ word_bytes (5 :: u32) @ word_bytes (1 :: u32) @ word_bytes (0 :: u32)
      @ word_bytes (0 :: CommitID)" by (simp add: body_def gi_magic_def)
  have pd: "read_buf 32 (word_bytes (0 :: CommitID)) = (word_bytes (0 :: CommitID), [])"
    using read_words(3) [of 0 "[]"] by simp
  show ?thesis
    unfolding parseIndex_def Let_def len using long magic
    by (simp add: rest totalParents_def pd raw_parents_def Let_def)
qed

end
