(* ===== verification/Control_Plane.thy ===== *)
theory Control_Plane
  imports Server Accounts Repo_Manager
begin

text \<open>
  The control plane of the server (\<^verbatim>\<open>internal/server/control.go\<close>, \<^verbatim>\<open>accounts.go\<close>, \<^verbatim>\<open>middleware.go\<close>): the management API over the
  repository manager of \<open>Repo_Manager\<close> and the account manager of \<open>Accounts\<close>, behind the authentication and authorization of \<open>Server\<close>. A
  handler is a function of the state of all of them. The standard library hands it a request whose body decodes
  to the argument \<open>body\<close> or does not (\<open>None\<close>); times in answers stay numbers. The repository manager and the policy store work
  on one disk: \<open>ce_files\<close> gives the files of the server once the manager has left its artifacts as they are.
\<close>

section \<open>State and answers\<close>

definition ServerResource :: string where "ServerResource = ''_server''"

record cenv =
  ce_s :: senv
  ce_src :: source
  ce_id :: id_env
  ce_mok :: "nat \<Rightarrow> bool"
  ce_scan :: "rdisk \<Rightarrow> Metadata list option"
  ce_ord :: "string set \<Rightarrow> string list"
  ce_fresh :: nat
  ce_tick :: nat
  ce_newID :: string
  ce_files :: "rdisk \<Rightarrow> fs \<Rightarrow> fs"

record cworld =
  cw_w :: world
  cw_mgr :: Manager
  cw_disk :: rdisk
  cw_ids :: idstore

record RepositoryDescriptor =
  rd_ID :: string
  rd_Name :: string
  rd_Owner :: string
  rd_Visibility :: string
  rd_State :: RepoState
  rd_Description :: string
  rd_Archived :: bool
  rd_CreatedAt :: nat
  rd_UpdatedAt :: nat

record AccountDescriptor =
  ad_Username :: string
  ad_State :: AccountState
  ad_CreatedAt :: int

record WhoamiResponse =
  wh_ID :: string
  wh_Method :: IdentityMethod
  wh_Anonymous :: bool
  wh_Repository :: string
  wh_Capabilities :: "(Capability \<times> bool) list"

text \<open>\<open>LoginResp body cookie expires\<close>: the secret in the body, or in the cookie.\<close>

datatype CResp =
    Plain Response
  | ReposResp "RepositoryDescriptor list"
  | RepoResp nat RepositoryDescriptor
  | NoContent
  | LoginResp string "(string \<times> bool) option" int
  | TokenResp string string string int
  | TokensResp "TokenInfo list"
  | AccountResp AccountDescriptor
  | WhoamiResp WhoamiResponse

abbreviation Err :: "nat \<Rightarrow> string \<Rightarrow> CResp" where "Err n msg \<equiv> Plain (ErrorResp n msg)"

definition descriptorOf :: "Metadata \<Rightarrow> RepositoryDescriptor" where
  "descriptorOf m =
     \<lparr>rd_ID = md_ID m, rd_Name = md_Name m, rd_Owner = md_Owner m, rd_Visibility = md_Visibility m, rd_State = md_State m,
      rd_Description = md_Description m, rd_Archived = (md_State m = StateArchived), rd_CreatedAt = md_CreatedAt m,
      rd_UpdatedAt = md_UpdatedAt m\<rparr>"

definition accountDescriptorOf :: "Account \<Rightarrow> AccountDescriptor" where
  "accountDescriptorOf a = \<lparr>ad_Username = ac_Username a, ad_State = ac_State a, ad_CreatedAt = ac_CreatedAt a\<rparr>"

fun writeManagerError :: "rm_error \<Rightarrow> CResp" where
  "writeManagerError ErrExists = Err 409 ''REPOSITORY_EXISTS''"
| "writeManagerError ErrNotFound = Err 404 ''UNKNOWN_REPOSITORY''"
| "writeManagerError ErrInvalidName = Err 400 ''MALFORMED_REQUEST''"
| "writeManagerError ErrDisk = Err 500 ''INTERNAL''"

text \<open>A panic leaves the handler; the middleware turns it into a 500.\<close>

fun writeAccountError :: "id_error \<Rightarrow> CResp" where
  "writeAccountError ErrAccountExists = Err 409 ''ACCOUNT_EXISTS''"
| "writeAccountError ErrNoAccount = Err 404 ''NOT_FOUND''"
| "writeAccountError ErrNoCredential = Err 404 ''NOT_FOUND''"
| "writeAccountError ErrWeakPassword = Err 400 ''MALFORMED_REQUEST''"
| "writeAccountError _ = Err 500 ''INTERNAL''"

section \<open>Authentication and authorization\<close>

text \<open>The credential the preamble hands to the identity source, when it gets that far.\<close>

definition source_asked :: "senv \<Rightarrow> Request \<Rightarrow> world \<Rightarrow> Credential option option" where
  "source_asked e q w =
     (if q_proto q \<noteq> [] \<and> Major (q_proto q) \<noteq> Major Version then None
      else case q_cred q of
        Inl _ \<Rightarrow> None
      | Inr cred \<Rightarrow>
          if (case cred of None \<Rightarrow> False
              | Some c \<Rightarrow> cr_Scheme c = SchemeBasic \<and> throttled (e_lower e) (e_clock e) (q_host q) (cr_User c) (w_guard w) \<noteq> None)
          then None else Some cred)"

text \<open>\<^verbatim>\<open>authn\<close> with a source that works on the stores.\<close>

definition c_authn :: "cenv \<Rightarrow> Request \<Rightarrow> cworld \<Rightarrow> cworld \<times> (CResp + Identity)" where
  "c_authn e q c =
     (let finish = (\<lambda>ids ans. case authn ((ce_s e)\<lparr>e_auth := \<lambda>_. ans\<rparr>) q (cw_w c) of
                      (w', Inl r) \<Rightarrow> (c\<lparr>cw_w := w', cw_ids := ids\<rparr>, Inl (Plain r))
                    | (w', Inr i) \<Rightarrow> (c\<lparr>cw_w := w', cw_ids := ids\<rparr>, Inr i))
      in case source_asked (ce_s e) q (cw_w c) of
           None \<Rightarrow> finish (cw_ids c) (Inl [])
         | Some cred \<Rightarrow>
             (case ce_src e cred (cw_ids c) of
                (ids, Inl AuthPanic) \<Rightarrow> (c\<lparr>cw_ids := ids\<rparr>, Inl (Err 500 ''INTERNAL''))
              | (ids, Inl (AuthError m)) \<Rightarrow> finish ids (Inl m)
              | (ids, Inr i) \<Rightarrow> finish ids (Inr i)))"

definition c_authorize :: "cenv \<Rightarrow> Server \<Rightarrow> Identity \<Rightarrow> Capability \<Rightarrow> string \<Rightarrow> cworld \<Rightarrow> cworld \<times> CResp option" where
  "c_authorize e sv i cap repo c =
     (case authorize (ce_s e) sv i cap repo (cw_w c) of (w', r) \<Rightarrow> (c\<lparr>cw_w := w'\<rparr>, map_option Plain r))"

definition authorizeServer :: "cenv \<Rightarrow> Server \<Rightarrow> Identity \<Rightarrow> Capability \<Rightarrow> cworld \<Rightarrow> cworld \<times> CResp option" where
  "authorizeServer e sv i cap c = c_authorize e sv i cap ServerResource c"

fun authorizeAny :: "cenv \<Rightarrow> Server \<Rightarrow> Identity \<Rightarrow> string \<Rightarrow> Capability list \<Rightarrow> cworld \<Rightarrow> cworld \<times> CResp option" where
  "authorizeAny e sv i repo caps c =
     (if \<not> sv_authz sv then (c, None)
      else case caps of
        [] \<Rightarrow> (c, Some (Err 403 ''UNAUTHORIZED''))
      | cap # rest \<Rightarrow>
          (case c_authorize e sv i cap repo c of
             (c', None) \<Rightarrow> (c', None)
           | (c', Some _) \<Rightarrow> authorizeAny e sv i repo rest c'))"

definition hasCapability :: "cenv \<Rightarrow> Server \<Rightarrow> Identity \<Rightarrow> Capability \<Rightarrow> string \<Rightarrow> cworld \<Rightarrow> cworld \<times> bool" where
  "hasCapability e sv i cap repo c =
     (if \<not> sv_authz sv then (c, True) else case c_authorize e sv i cap repo c of (c', r) \<Rightarrow> (c', r = None))"

text \<open>A handler that begins by authenticating.\<close>

definition authenticated :: "cenv \<Rightarrow> Request \<Rightarrow> cworld \<Rightarrow> (Identity \<Rightarrow> cworld \<Rightarrow> cworld \<times> CResp) \<Rightarrow> cworld \<times> CResp" where
  "authenticated e q c k = (case c_authn e q c of (c1, Inl r) \<Rightarrow> (c1, r) | (c1, Inr i) \<Rightarrow> k i c1)"

definition checked :: "cworld \<times> CResp option \<Rightarrow> (cworld \<Rightarrow> cworld \<times> CResp) \<Rightarrow> cworld \<times> CResp" where
  "checked a k = (case a of (c, Some r) \<Rightarrow> (c, r) | (c, None) \<Rightarrow> k c)"

section \<open>Repositories\<close>

text \<open>What a call of the manager leaves: its maps, the last disk of its trace and the files there.\<close>

definition manager_call :: "cenv \<Rightarrow> Manager \<times> rdisk list \<times> 'a \<Rightarrow> cworld \<Rightarrow> cworld \<times> 'a" where
  "manager_call e x c =
     (case x of (m, tr, a) \<Rightarrow>
        (c\<lparr>cw_mgr := m, cw_disk := last tr, cw_w := (cw_w c)\<lparr>w_fs := ce_files e (last tr) (w_fs (cw_w c))\<rparr>\<rparr>, a))"

definition manager_loaded :: "cenv \<Rightarrow> cworld \<Rightarrow> cworld" where
  "manager_loaded e c = (case load (ce_scan e) (cw_disk c) (cw_mgr c) of None \<Rightarrow> c | Some m \<Rightarrow> c\<lparr>cw_mgr := m\<rparr>)"

definition handleListRepos :: "cenv \<Rightarrow> Server \<Rightarrow> Request \<Rightarrow> cworld \<Rightarrow> cworld \<times> CResp" where
  "handleListRepos e sv q c =
     authenticated e q c (\<lambda>i c1. checked (authorizeServer e sv i CapListRepos c1) (\<lambda>c2.
       (manager_loaded e c2,
        case List_repos (ce_ord e) (ce_scan e) (cw_mgr c2) (cw_disk c2) of
          Inl _ \<Rightarrow> Err 500 ''INTERNAL''
        | Inr metas \<Rightarrow> ReposResp (map descriptorOf metas))))"

definition handleCreateRepo :: "cenv \<Rightarrow> Server \<Rightarrow> Request \<Rightarrow> (string \<times> string \<times> string) option \<Rightarrow> cworld \<Rightarrow> cworld \<times> CResp" where
  "handleCreateRepo e sv q body c =
     authenticated e q c (\<lambda>i c1. checked (authorizeServer e sv i CapCreateRepo c1) (\<lambda>c2.
       case body of
         None \<Rightarrow> (c2, Err 400 ''MALFORMED_REQUEST'')
       | Some (name, vis, desc) \<Rightarrow>
           (case manager_call e (Create (ce_mok e) (ce_scan e) (ce_fresh e) (ce_tick e) (ce_newID e) name (id_ID i) vis desc
                                   (cw_mgr c2) (cw_disk c2)) c2 of
              (c3, Inl err) \<Rightarrow> (c3, writeManagerError err)
            | (c3, Inr md) \<Rightarrow> (c3, RepoResp 201 (descriptorOf md)))))"

definition handleGetRepo :: "cenv \<Rightarrow> Server \<Rightarrow> Request \<Rightarrow> cworld \<Rightarrow> cworld \<times> CResp" where
  "handleGetRepo e sv q c =
     authenticated e q c (\<lambda>i c1. checked (authorizeAny e sv i (q_repo q) [CapAdmin, CapRead] c1) (\<lambda>c2.
       (manager_loaded e c2,
        case Get_repo (ce_scan e) (q_repo q) (cw_mgr c2) (cw_disk c2) of
          Inl err \<Rightarrow> writeManagerError err
        | Inr md \<Rightarrow> RepoResp 200 (descriptorOf md))))"

definition handleDeleteRepo :: "cenv \<Rightarrow> Server \<Rightarrow> Request \<Rightarrow> cworld \<Rightarrow> cworld \<times> CResp" where
  "handleDeleteRepo e sv q c =
     authenticated e q c (\<lambda>i c1. checked (c_authorize e sv i CapDeleteRepo (q_repo q) c1) (\<lambda>c2.
       case manager_call e (Delete_repo (ce_mok e) (ce_scan e) (ce_tick e) (q_repo q) (cw_mgr c2) (cw_disk c2)) c2 of
         (c3, Inl err) \<Rightarrow> (c3, writeManagerError err)
       | (c3, Inr _) \<Rightarrow> (c3, NoContent)))"

definition handleRenameRepo :: "cenv \<Rightarrow> Server \<Rightarrow> Request \<Rightarrow> string option \<Rightarrow> cworld \<Rightarrow> cworld \<times> CResp" where
  "handleRenameRepo e sv q body c =
     authenticated e q c (\<lambda>i c1. checked (c_authorize e sv i CapRenameRepo (q_repo q) c1) (\<lambda>c2.
       checked (authorizeServer e sv i CapCreateRepo c2) (\<lambda>c3.
         case body of
           None \<Rightarrow> (c3, Err 400 ''MALFORMED_REQUEST'')
         | Some newName \<Rightarrow>
             (case manager_call e (Rename (ce_mok e) (ce_scan e) (ce_tick e) (q_repo q) newName (cw_mgr c3) (cw_disk c3)) c3 of
                (c4, Inl err) \<Rightarrow> (c4, writeManagerError err)
              | (c4, Inr md) \<Rightarrow> (c4, RepoResp 200 (descriptorOf md))))))"

definition handleReserved :: "cenv \<Rightarrow> Server \<Rightarrow> Request \<Rightarrow> cworld \<Rightarrow> cworld \<times> CResp" where
  "handleReserved e sv q c = authenticated e q c (\<lambda>i c1. (c1, Err 501 ''NOT_IMPLEMENTED''))"

section \<open>Sessions, tokens and accounts\<close>

text \<open>The login handler asks the guard itself; \<open>cookie\<close> is the query parameter and \<open>https\<close> tells how the request came.\<close>

definition handleLogin :: "cenv \<Rightarrow> Request \<Rightarrow> (string \<times> string) option \<Rightarrow> bool \<Rightarrow> bool \<Rightarrow> cworld \<Rightarrow> cworld \<times> CResp" where
  "handleLogin e q body cookie https c =
     (case body of
        None \<Rightarrow> (c, Err 400 ''MALFORMED_REQUEST'')
      | Some (username, password) \<Rightarrow>
          let s = ce_s e; d = ce_id e; w = cw_w c in
          if throttled (e_lower s) (e_clock s) (q_host q) username (w_guard w) \<noteq> None then (c, Err 429 ''RATE_LIMITED'')
          else case Login (ie_idkey d) (ie_salt d) (ie_ok d) (ie_now d) (ie_secret d) (ie_cid d) username password (cw_ids c) of
            (ids, Inl Panic_argon2) \<Rightarrow> (c\<lparr>cw_ids := ids\<rparr>, Err 500 ''INTERNAL'')
          | (ids, Inl _) \<Rightarrow>
              (c\<lparr>cw_ids := ids, cw_w := w\<lparr>w_guard := guard_failed (e_lower s) (e_clock s) (q_host q) username (w_guard w)\<rparr>\<rparr>,
               Err 401 ''UNAUTHENTICATED'')
          | (ids, Inr (secret, expiresAt)) \<Rightarrow>
              (c\<lparr>cw_ids := ids, cw_w := w\<lparr>w_guard := guard_succeeded (e_lower s) (q_host q) username (w_guard w)\<rparr>\<rparr>,
               if cookie then LoginResp [] (Some (secret, https)) expiresAt else LoginResp secret None expiresAt))"

definition handleLogout :: "cenv \<Rightarrow> Request \<Rightarrow> cworld \<Rightarrow> cworld \<times> CResp" where
  "handleLogout e q c =
     authenticated e q c (\<lambda>i c1.
       case q_cred q of
         Inr (Some cred) \<Rightarrow>
           if cr_Scheme cred \<noteq> SchemeBearer then (c1, Err 400 ''MALFORMED_REQUEST'')
           else (case Logout (ie_ok (ce_id e) 0) (cr_Token cred) (cw_ids c1) of
                   (ids, Some _) \<Rightarrow> (c1\<lparr>cw_ids := ids\<rparr>, Err 500 ''INTERNAL'')
                 | (ids, None) \<Rightarrow> (c1\<lparr>cw_ids := ids\<rparr>, NoContent))
       | _ \<Rightarrow> (c1, Err 400 ''MALFORMED_REQUEST''))"

definition handleCreateToken :: "cenv \<Rightarrow> Request \<Rightarrow> string option \<Rightarrow> cworld \<Rightarrow> cworld \<times> CResp" where
  "handleCreateToken e q body c =
     authenticated e q c (\<lambda>i c1.
       if id_ID i = id_ID Anonymous then (c1, Err 401 ''UNAUTHENTICATED'')
       else case body of
         None \<Rightarrow> (c1, Err 400 ''MALFORMED_REQUEST'')
       | Some name \<Rightarrow>
           let d = ce_id e in
           (case CreateToken (ie_ok d 0) (ie_now d) (ie_secret d) (ie_cid d) (id_ID i) name (cw_ids c1) of
              (ids, Inl _) \<Rightarrow> (c1\<lparr>cw_ids := ids\<rparr>, Err 500 ''INTERNAL'')
            | (ids, Inr (tokenID, secret)) \<Rightarrow> (c1\<lparr>cw_ids := ids\<rparr>, TokenResp tokenID name secret (ie_now d))))"

definition handleListTokens :: "cenv \<Rightarrow> Request \<Rightarrow> cworld \<Rightarrow> cworld \<times> CResp" where
  "handleListTokens e q c =
     authenticated e q c (\<lambda>i c1.
       if id_ID i = id_ID Anonymous then (c1, Err 401 ''UNAUTHENTICATED'')
       else (c1, case ListTokens (ie_ls (ce_id e)) (id_ID i) (cw_ids c1) of
                   Inl _ \<Rightarrow> Err 500 ''INTERNAL''
                 | Inr infos \<Rightarrow> TokensResp infos))"

definition handleRevokeToken :: "cenv \<Rightarrow> Request \<Rightarrow> string \<Rightarrow> cworld \<Rightarrow> cworld \<times> CResp" where
  "handleRevokeToken e q tid c =
     authenticated e q c (\<lambda>i c1.
       if id_ID i = id_ID Anonymous then (c1, Err 401 ''UNAUTHENTICATED'')
       else case RevokeToken (ie_ls (ce_id e)) (ie_rm (ce_id e)) (id_ID i) tid (cw_ids c1) of
              (ids, Some err) \<Rightarrow> (c1\<lparr>cw_ids := ids\<rparr>, writeAccountError err)
            | (ids, None) \<Rightarrow> (c1\<lparr>cw_ids := ids\<rparr>, NoContent))"

definition handleCreateAccount :: "cenv \<Rightarrow> Server \<Rightarrow> Request \<Rightarrow> (string \<times> string) option \<Rightarrow> cworld \<Rightarrow> cworld \<times> CResp" where
  "handleCreateAccount e sv q body c =
     authenticated e q c (\<lambda>i c1. checked (authorizeServer e sv i CapManageAccounts c1) (\<lambda>c2.
       case body of
         None \<Rightarrow> (c2, Err 400 ''MALFORMED_REQUEST'')
       | Some (username, password) \<Rightarrow>
           let d = ce_id e in
           (case CreateAccount (ie_idkey d) (ie_salt d) (ie_ok d 0) (ie_now d) username password (cw_ids c2) of
              (ids, Some err) \<Rightarrow> (c2\<lparr>cw_ids := ids\<rparr>, writeAccountError err)
            | (ids, None) \<Rightarrow>
                (c2\<lparr>cw_ids := ids\<rparr>,
                 case acct_get username ids of
                   Inl _ \<Rightarrow> Err 500 ''INTERNAL''
                 | Inr a \<Rightarrow> AccountResp (accountDescriptorOf a)))))"

definition account_done :: "cworld \<Rightarrow> idstore \<times> id_error option \<Rightarrow> cworld \<times> CResp" where
  "account_done c x = (case x of (ids, Some err) \<Rightarrow> (c\<lparr>cw_ids := ids\<rparr>, writeAccountError err) | (ids, None) \<Rightarrow> (c\<lparr>cw_ids := ids\<rparr>, NoContent))"

definition handleDeleteAccount :: "cenv \<Rightarrow> Server \<Rightarrow> Request \<Rightarrow> string \<Rightarrow> cworld \<Rightarrow> cworld \<times> CResp" where
  "handleDeleteAccount e sv q username c =
     authenticated e q c (\<lambda>i c1. checked (authorizeServer e sv i CapManageAccounts c1) (\<lambda>c2.
       account_done c2 (DeleteAccount (ie_ok (ce_id e) 0) (ie_ls (ce_id e)) (ie_rm (ce_id e)) username (cw_ids c2))))"

definition handleDisableAccount :: "cenv \<Rightarrow> Server \<Rightarrow> Request \<Rightarrow> string \<Rightarrow> cworld \<Rightarrow> cworld \<times> CResp" where
  "handleDisableAccount e sv q username c =
     authenticated e q c (\<lambda>i c1. checked (authorizeServer e sv i CapManageAccounts c1) (\<lambda>c2.
       account_done c2 (DisableAccount (ie_ok (ce_id e) 0) (ie_ls (ce_id e)) (ie_rm (ce_id e)) username (cw_ids c2))))"

definition handleSetPassword :: "cenv \<Rightarrow> Server \<Rightarrow> Request \<Rightarrow> string \<Rightarrow> string option \<Rightarrow> cworld \<Rightarrow> cworld \<times> CResp" where
  "handleSetPassword e sv q username body c =
     authenticated e q c (\<lambda>i c1.
       checked (if id_ID i \<noteq> username then authorizeServer e sv i CapManageAccounts c1
                else if id_ID i = id_ID Anonymous then (c1, Some (Err 401 ''UNAUTHENTICATED''))
                else (c1, None)) (\<lambda>c2.
         case body of
           None \<Rightarrow> (c2, Err 400 ''MALFORMED_REQUEST'')
         | Some pw \<Rightarrow>
             account_done c2 (ChangePassword (ie_idkey (ce_id e)) (ie_salt (ce_id e)) (ie_ok (ce_id e) 0) username pw (cw_ids c2))))"

definition repoScopeCaps :: "Capability list" where
  "repoScopeCaps = [CapRead, CapCreateRef, CapPush, CapForcePush, CapDeleteRef, CapDeleteRepo, CapRenameRepo, CapAdmin]"

definition serverScopeCaps :: "Capability list" where
  "serverScopeCaps = [CapCreateRepo, CapListRepos, CapManageAccounts]"

fun report_caps :: "cenv \<Rightarrow> Server \<Rightarrow> Identity \<Rightarrow> string \<Rightarrow> Capability list \<Rightarrow> cworld \<Rightarrow> cworld \<times> (Capability \<times> bool) list" where
  "report_caps e sv i repo [] c = (c, [])"
| "report_caps e sv i repo (cap # caps) c =
     (case hasCapability e sv i cap repo c of (c1, b) \<Rightarrow>
        (case report_caps e sv i repo caps c1 of (c2, bs) \<Rightarrow> (c2, (cap, b) # bs)))"

text \<open>\<open>repo\<close> is the query parameter, empty when it is missing.\<close>

definition handleWhoami :: "cenv \<Rightarrow> Server \<Rightarrow> Request \<Rightarrow> string \<Rightarrow> cworld \<Rightarrow> cworld \<times> CResp" where
  "handleWhoami e sv q repo c =
     authenticated e q c (\<lambda>i c1.
       case (if repo = [] then (c1, [])
             else report_caps e sv i repo (if repo = ServerResource then serverScopeCaps else repoScopeCaps) c1) of
         (c2, caps) \<Rightarrow>
           (c2, WhoamiResp \<lparr>wh_ID = id_ID i, wh_Method = id_Method i, wh_Anonymous = (id_ID i = id_ID Anonymous),
                            wh_Repository = repo, wh_Capabilities = caps\<rparr>))"

section \<open>Routes and middleware\<close>

datatype route =
    ListRepos | CreateRepo "(string \<times> string \<times> string) option" | GetRepo | DeleteRepo | RenameRepo "string option" | ReservedRoute
  | LoginRoute "(string \<times> string) option" bool bool | LogoutRoute
  | CreateTokenRoute "string option" | ListTokensRoute | RevokeTokenRoute string
  | CreateAccountRoute "(string \<times> string) option" | DeleteAccountRoute string | DisableAccountRoute string
  | SetPasswordRoute string "string option" | Whoami string

fun handle :: "cenv \<Rightarrow> Server \<Rightarrow> Request \<Rightarrow> route \<Rightarrow> cworld \<Rightarrow> cworld \<times> CResp" where
  "handle e sv q ListRepos c = handleListRepos e sv q c"
| "handle e sv q (CreateRepo body) c = handleCreateRepo e sv q body c"
| "handle e sv q GetRepo c = handleGetRepo e sv q c"
| "handle e sv q DeleteRepo c = handleDeleteRepo e sv q c"
| "handle e sv q (RenameRepo body) c = handleRenameRepo e sv q body c"
| "handle e sv q ReservedRoute c = handleReserved e sv q c"
| "handle e sv q (LoginRoute body cookie https) c = handleLogin e q body cookie https c"
| "handle e sv q LogoutRoute c = handleLogout e q c"
| "handle e sv q (CreateTokenRoute body) c = handleCreateToken e q body c"
| "handle e sv q ListTokensRoute c = handleListTokens e q c"
| "handle e sv q (RevokeTokenRoute tid) c = handleRevokeToken e q tid c"
| "handle e sv q (CreateAccountRoute body) c = handleCreateAccount e sv q body c"
| "handle e sv q (DeleteAccountRoute u) c = handleDeleteAccount e sv q u c"
| "handle e sv q (DisableAccountRoute u) c = handleDisableAccount e sv q u c"
| "handle e sv q (SetPasswordRoute u body) c = handleSetPassword e sv q u body c"
| "handle e sv q (Whoami repo) c = handleWhoami e sv q repo c"

text \<open>The middleware: \<open>urlHost\<close> is the host of a parsed origin (\<open>None\<close>: it does not parse) and \<open>eqFold\<close> is \<^verbatim>\<open>strings.EqualFold\<close>.\<close>

record browser =
  b_site :: string
  b_origin :: string
  b_host :: string
  b_forwarded :: string

definition isUnsafeMethod :: "string \<Rightarrow> bool" where
  "isUnsafeMethod m \<longleftrightarrow> m \<in> {''POST'', ''PUT'', ''PATCH'', ''DELETE''}"

definition crossSiteBrowserRequest :: "(string \<Rightarrow> string option) \<Rightarrow> (string \<Rightarrow> string \<Rightarrow> bool) \<Rightarrow> browser \<Rightarrow> bool" where
  "crossSiteBrowserRequest urlHost eqFold b =
     (if b_site b = ''cross-site'' then True
      else if b_origin b = [] \<or> (b_origin b = ''null'' \<and> b_site b = []) then False
      else case urlHost (b_origin b) of
        None \<Rightarrow> True
      | Some h \<Rightarrow> if h = [] then True
                  else \<not> list_ex (\<lambda>x. x \<noteq> [] \<and> eqFold x h) [b_host b, b_forwarded b])"

fun route_method :: "route \<Rightarrow> string" where
  "route_method ListRepos = ''GET''"
| "route_method (CreateRepo _) = ''POST''"
| "route_method GetRepo = ''GET''"
| "route_method DeleteRepo = ''DELETE''"
| "route_method (RenameRepo _) = ''POST''"
| "route_method ReservedRoute = ''POST''"
| "route_method (LoginRoute _ _ _) = ''POST''"
| "route_method LogoutRoute = ''DELETE''"
| "route_method (CreateTokenRoute _) = ''POST''"
| "route_method ListTokensRoute = ''GET''"
| "route_method (RevokeTokenRoute _) = ''DELETE''"
| "route_method (CreateAccountRoute _) = ''POST''"
| "route_method (DeleteAccountRoute _) = ''DELETE''"
| "route_method (DisableAccountRoute _) = ''POST''"
| "route_method (SetPasswordRoute _ _) = ''PUT''"
| "route_method (Whoami _) = ''GET''"

definition withMiddleware ::
    "(string \<Rightarrow> string option) \<Rightarrow> (string \<Rightarrow> string \<Rightarrow> bool) \<Rightarrow> cenv \<Rightarrow> Server \<Rightarrow> browser \<Rightarrow> Request \<Rightarrow> route \<Rightarrow> cworld \<Rightarrow> cworld \<times> CResp" where
  "withMiddleware urlHost eqFold e sv b q rt c =
     (if isUnsafeMethod (route_method rt) \<and> crossSiteBrowserRequest urlHost eqFold b then (c, Err 403 ''CROSS_ORIGIN'')
      else handle e sv q rt c)"

definition validRequestID :: "string \<Rightarrow> bool" where
  "validRequestID s \<longleftrightarrow> s \<noteq> [] \<and> length s \<le> 64
     \<and> list_all (\<lambda>ch. let n = of_char ch :: nat in (97 \<le> n \<and> n \<le> 122) \<or> (65 \<le> n \<and> n \<le> 90) \<or> (48 \<le> n \<and> n \<le> 57)
          \<or> ch = CHR ''-'' \<or> ch = CHR ''_'') s"


section \<open>What the checks leave\<close>

lemma c_authn_frame:
  assumes "c_authn e q c = (c1, x)"
  shows "cw_disk c1 = cw_disk c" "cw_mgr c1 = cw_mgr c" "w_fs (cw_w c1) = w_fs (cw_w c)" "w_policies (cw_w c1) = w_policies (cw_w c)"
proof -
  have f: "w_fs w' = w_fs w \<and> w_policies w' = w_policies w" if "authn s q w = (w', y)" for s w w' y
    using that by (auto simp: authn_def Let_def split: prod.splits sum.splits option.splits if_splits)
  have g: "cw_disk c1 = cw_disk c \<and> cw_mgr c1 = cw_mgr c \<and> (cw_w c1 = cw_w c \<or> (\<exists>s y. authn s q (cw_w c) = (cw_w c1, y)))"
    using assms by (auto simp: c_authn_def Let_def split: prod.splits sum.splits option.splits auth_error.splits)
  then show "cw_disk c1 = cw_disk c" "cw_mgr c1 = cw_mgr c" "w_fs (cw_w c1) = w_fs (cw_w c)" "w_policies (cw_w c1) = w_policies (cw_w c)"
    using f by auto
qed

text \<open>The state up to what a decision may cache.\<close>

definition same_state :: "cenv \<Rightarrow> cworld \<Rightarrow> cworld \<Rightarrow> bool" where
  "same_state e c c' \<longleftrightarrow> cw_disk c' = cw_disk c \<and> cw_mgr c' = cw_mgr c \<and> cw_ids c' = cw_ids c \<and> w_fs (cw_w c') = w_fs (cw_w c)
     \<and> policies_ok (ce_s e) (cw_w c') \<and> policy_of (ce_s e) (cw_w c') = policy_of (ce_s e) (cw_w c)"

lemma same_trans: "same_state e a b \<Longrightarrow> same_state e b c \<Longrightarrow> same_state e a c"
  unfolding same_state_def by (elim conjE, intro conjI) (assumption | erule trans)+

definition may :: "cenv \<Rightarrow> cworld \<Rightarrow> Identity \<Rightarrow> Capability \<Rightarrow> string \<Rightarrow> bool" where
  "may e c i cap res \<longleftrightarrow> Allows (Some (policy_of (ce_s e) (cw_w c) res)) (id_ID i) cap"

lemma may_same: "same_state e c c' \<Longrightarrow> may e c' = may e c"
  unfolding same_state_def may_def by (elim conjE) (intro ext, simp only:)

lemma c_authorize_exact:
  assumes "c_authorize e sv i cap res c = (c', r)" "sv_authz sv" "policies_ok (ce_s e) (cw_w c)"
  shows "same_state e c c'" "r = (if may e c i cap res then None else Some (Err 403 ''UNAUTHORIZED''))"
proof -
  obtain w' r' where a: "authorize (ce_s e) sv i cap res (cw_w c) = (w', r')" by fastforce
  note x = authorize_exact [OF a assms(3,2)]
  show "same_state e c c'" "r = (if may e c i cap res then None else Some (Err 403 ''UNAUTHORIZED''))"
    using assms(1) a x by (auto simp: c_authorize_def same_state_def may_def)
qed

lemma authorizeAny_exact:
  "authorizeAny e sv i res caps c = (c', r) \<Longrightarrow> sv_authz sv \<Longrightarrow> policies_ok (ce_s e) (cw_w c) \<Longrightarrow>
   same_state e c c' \<and> r = (if \<exists>cap \<in> set caps. may e c i cap res then None else Some (Err 403 ''UNAUTHORIZED''))"
proof (induction caps arbitrary: c)
  case Nil
  then show ?case by (auto simp: same_state_def)
next
  case (Cons cap caps)
  obtain c1 r1 where a: "c_authorize e sv i cap res c = (c1, r1)" by fastforce
  note x = c_authorize_exact [OF a Cons.prems(2,3)]
  show ?case
  proof (cases r1)
    case None
    with Cons.prems(1,2) a x show ?thesis by (auto split: if_splits)
  next
    case (Some err)
    with Cons.prems(1,2) a have "authorizeAny e sv i res caps c1 = (c', r)" by (subst (asm) authorizeAny.simps) simp
    moreover have "policies_ok (ce_s e) (cw_w c1)" using x(1) by (simp add: same_state_def)
    ultimately have "same_state e c1 c'" "r = (if \<exists>cap \<in> set caps. may e c1 i cap res then None else Some (Err 403 ''UNAUTHORIZED''))"
      using Cons.IH Cons.prems(2) by blast+
    with x Some may_same [OF x(1)] show ?thesis by (auto intro: same_trans split: if_splits)
  qed
qed

lemma hasCapability_exact:
  assumes "hasCapability e sv i cap res c = (c', b)" "sv_authz sv" "policies_ok (ce_s e) (cw_w c)"
  shows "same_state e c c'" "b = may e c i cap res"
proof -
  obtain c1 r where a: "c_authorize e sv i cap res c = (c1, r)" by fastforce
  note x = c_authorize_exact [OF a assms(2,3)]
  show "same_state e c c'" "b = may e c i cap res" using assms(1,2) a x by (auto simp: hasCapability_def split: if_splits)
qed

lemma report_caps_exact:
  "report_caps e sv i res caps c = (c', bs) \<Longrightarrow> sv_authz sv \<Longrightarrow> policies_ok (ce_s e) (cw_w c) \<Longrightarrow>
   same_state e c c' \<and> bs = map (\<lambda>cap. (cap, may e c i cap res)) caps"
proof (induction caps arbitrary: c bs)
  case Nil
  then show ?case by (auto simp: same_state_def)
next
  case (Cons cap caps)
  obtain c1 b where a: "hasCapability e sv i cap res c = (c1, b)" by fastforce
  note x = hasCapability_exact [OF a Cons.prems(2,3)]
  obtain bs1 where r: "report_caps e sv i res caps c1 = (c', bs1)" "bs = (cap, b) # bs1"
    using Cons.prems(1) a by (auto split: prod.splits)
  have "policies_ok (ce_s e) (cw_w c1)" using x(1) by (simp add: same_state_def)
  from Cons.IH [OF r(1) Cons.prems(2) this] r(2) x may_same [OF x(1)] show ?case by (auto intro: same_trans)
qed



section \<open>Who may do what\<close>

definition entitled :: "cenv \<Rightarrow> cworld \<Rightarrow> Request \<Rightarrow> Identity \<Rightarrow> route \<Rightarrow> bool" where
  "entitled e c q i rt =
     (case rt of
        ListRepos \<Rightarrow> may e c i CapListRepos ServerResource
      | CreateRepo _ \<Rightarrow> may e c i CapCreateRepo ServerResource
      | GetRepo \<Rightarrow> may e c i CapAdmin (q_repo q) \<or> may e c i CapRead (q_repo q)
      | DeleteRepo \<Rightarrow> may e c i CapDeleteRepo (q_repo q)
      | RenameRepo _ \<Rightarrow> may e c i CapRenameRepo (q_repo q) \<and> may e c i CapCreateRepo ServerResource
      | CreateTokenRoute _ \<Rightarrow> id_ID i \<noteq> id_ID Anonymous
      | ListTokensRoute \<Rightarrow> id_ID i \<noteq> id_ID Anonymous
      | RevokeTokenRoute _ \<Rightarrow> id_ID i \<noteq> id_ID Anonymous
      | CreateAccountRoute _ \<Rightarrow> may e c i CapManageAccounts ServerResource
      | DeleteAccountRoute _ \<Rightarrow> may e c i CapManageAccounts ServerResource
      | DisableAccountRoute _ \<Rightarrow> may e c i CapManageAccounts ServerResource
      | SetPasswordRoute u _ \<Rightarrow> (if id_ID i = u then u \<noteq> id_ID Anonymous else may e c i CapManageAccounts ServerResource)
      | _ \<Rightarrow> True)"

definition refusal :: "CResp \<Rightarrow> bool" where
  "refusal r \<longleftrightarrow> r = Err 403 ''UNAUTHORIZED'' \<or> r = Err 401 ''UNAUTHENTICATED''"

lemma not_refusal [simp]:
  "\<not> refusal (writeManagerError x)" "\<not> refusal (writeAccountError y)" "\<not> refusal NoContent" "\<not> refusal (ReposResp a)" "\<not> refusal (RepoResp n b)"
  "\<not> refusal (TokenResp s1 s2 s3 t)" "\<not> refusal (TokensResp ts)" "\<not> refusal (AccountResp ad)" "\<not> refusal (WhoamiResp wr)"
  "\<not> refusal (Err 400 m)" "\<not> refusal (Err 500 m)" "\<not> refusal (Err 501 m)" "refusal (Err 403 ''UNAUTHORIZED'')" "refusal (Err 401 ''UNAUTHENTICATED'')"
  by (cases x; simp add: refusal_def) (cases y; simp add: refusal_def; fail | simp add: refusal_def)+

text \<open>A check either refuses, and nothing has happened, or goes on with the same state.\<close>

lemma checked_authorize:
  assumes "checked (c_authorize e sv i cap res c) k = (c', r)" "sv_authz sv" "policies_ok (ce_s e) (cw_w c)"
  obtains (denied) "\<not> may e c i cap res" "same_state e c c'" "r = Err 403 ''UNAUTHORIZED''"
  | (allowed) c2 where "may e c i cap res" "same_state e c c2" "k c2 = (c', r)"
proof -
  obtain c2 x where a: "c_authorize e sv i cap res c = (c2, x)" by fastforce
  note x = c_authorize_exact [OF a assms(2,3)]
  show thesis using assms(1) a x that by (auto simp: checked_def split: if_splits)
qed

lemma same_ok: "same_state e c c' \<Longrightarrow> policies_ok (ce_s e) (cw_w c')"
  by (simp add: same_state_def)

lemma account_done_response: "account_done c x = (c', r) \<Longrightarrow> \<not> refusal r \<and> c' = c\<lparr>cw_ids := fst x\<rparr>"
  by (auto simp: account_done_def split: prod.splits option.splits)

lemma manager_call_frame: "manager_call e x c = (c', a) \<Longrightarrow> cw_ids c' = cw_ids c"
  by (auto simp: manager_call_def split: prod.splits)

lemma authn_same:
  assumes "c_authn e q c = (c1, x)" "policies_ok (ce_s e) (cw_w c)"
  shows "policies_ok (ce_s e) (cw_w c1)" "may e c1 = may e c" "same_state e c1 c1"
proof -
  note f = c_authn_frame [OF assms(1)]
  show "policies_ok (ce_s e) (cw_w c1)" using assms(2) by (simp add: policies_ok_def f)
  then show "same_state e c1 c1" by (simp add: same_state_def)
  show "may e c1 = may e c" by (intro ext) (simp add: may_def f)
qed

text \<open>The verdict on an authenticated request, by route.\<close>

definition verdict :: "cenv \<Rightarrow> cworld \<Rightarrow> bool \<Rightarrow> cworld \<times> CResp \<Rightarrow> bool" where
  "verdict e c b x \<longleftrightarrow> (refusal (snd x) \<longleftrightarrow> \<not> b) \<and> (\<not> b \<longrightarrow> same_state e c (fst x))"

lemma verdict_done [intro]: "b \<Longrightarrow> \<not> refusal (snd x) \<Longrightarrow> verdict e c b x"
  by (simp add: verdict_def)

lemma verdict_checked:
  assumes "sv_authz sv" "policies_ok (ce_s e) (cw_w c)"
    and "\<And>c2. same_state e c c2 \<Longrightarrow> may e c i cap res \<Longrightarrow> verdict e c b (k c2)"
  shows "verdict e c (may e c i cap res \<and> b) (checked (c_authorize e sv i cap res c) k)"
proof (cases "checked (c_authorize e sv i cap res c) k")
  case (Pair c' r)
  from this assms(1,2) show ?thesis
  proof (cases rule: checked_authorize)
    case denied
    then show ?thesis using Pair by (simp add: verdict_def)
  next
    case (allowed c2)
    then show ?thesis using assms(3) [OF allowed(2,1)] Pair by simp
  qed
qed

lemma verdict_gate:
  assumes "sv_authz sv" "policies_ok (ce_s e) (cw_w c)" "\<And>c2. \<not> refusal (snd (k c2))"
  shows "verdict e c (may e c i cap res) (checked (c_authorize e sv i cap res c) k)"
  using verdict_checked [OF assms(1,2), of i cap res True k] assms(3) by (simp add: verdict_done)

lemma verdict_any:
  assumes "sv_authz sv" "policies_ok (ce_s e) (cw_w c)" "\<And>c2. \<not> refusal (snd (k c2))"
  shows "verdict e c (\<exists>cap \<in> set caps. may e c i cap res) (checked (authorizeAny e sv i res caps c) k)"
proof -
  obtain c2 x where a: "authorizeAny e sv i res caps c = (c2, x)" by fastforce
  from authorizeAny_exact [OF a assms(1,2)] assms(3) a show ?thesis by (auto simp: checked_def verdict_def)
qed

lemma handle_verdict:
  assumes "c_authn e q c = (c1, Inr i)" "sv_authz sv" "policies_ok (ce_s e) (cw_w c)" "\<nexists>b x y. rt = LoginRoute b x y"
  shows "verdict e c1 (entitled e c q i rt) (handle e sv q rt c)"
proof -
  note s = authn_same [OF assms(1,3)]
  note gate = verdict_gate [OF assms(2) s(1)]
  have a: "authenticated e q c k = k i c1" for k using assms(1) by (simp add: authenticated_def)
  show ?thesis
  proof (cases rt)
    case ListRepos
    show ?thesis unfolding ListRepos handle.simps handleListRepos_def a entitled_def authorizeServer_def route.case s(2) [symmetric]
      by (rule gate) (simp split: sum.split)
  next
    case (CreateRepo body)
    show ?thesis unfolding CreateRepo handle.simps handleCreateRepo_def a entitled_def authorizeServer_def route.case s(2) [symmetric]
      by (rule gate) (simp split: sum.split option.split prod.split)
  next
    case GetRepo
    have "verdict e c1 (\<exists>cap \<in> set [CapAdmin, CapRead]. may e c1 i cap (q_repo q)) (handleGetRepo e sv q c)"
      unfolding handleGetRepo_def a by (rule verdict_any [OF assms(2) s(1)]) (simp split: sum.split)
    then show ?thesis by (simp add: GetRepo entitled_def s(2))
  next
    case DeleteRepo
    show ?thesis unfolding DeleteRepo handle.simps handleDeleteRepo_def a entitled_def route.case s(2) [symmetric]
      by (rule gate) (simp split: sum.split prod.split)
  next
    case (RenameRepo body)
    show ?thesis unfolding RenameRepo handle.simps handleRenameRepo_def a entitled_def route.case s(2) [symmetric]
    proof (rule verdict_checked [OF assms(2) s(1)])
      fix c2 assume c2: "same_state e c1 c2" "may e c1 i CapRenameRepo (q_repo q)"
      let ?k = "\<lambda>c3. case body of None \<Rightarrow> (c3, Err 400 ''MALFORMED_REQUEST'')
         | Some newName \<Rightarrow>
             (case manager_call e (Rename (ce_mok e) (ce_scan e) (ce_tick e) (q_repo q) newName (cw_mgr c3) (cw_disk c3)) c3 of
                (c4, Inl err) \<Rightarrow> (c4, writeManagerError err)
              | (c4, Inr md) \<Rightarrow> (c4, RepoResp 200 (descriptorOf md)))"
      have "verdict e c2 (may e c2 i CapCreateRepo ServerResource) (checked (authorizeServer e sv i CapCreateRepo c2) ?k)"
        unfolding authorizeServer_def by (rule verdict_gate [OF assms(2) same_ok [OF c2(1)]]) (simp split: sum.split option.split prod.split)
      then show "verdict e c1 (may e c1 i CapCreateRepo ServerResource) (checked (authorizeServer e sv i CapCreateRepo c2) ?k)"
        unfolding verdict_def may_same [OF c2(1)] using same_trans [OF c2(1)] by blast
    qed
  next
    case ReservedRoute
    show ?thesis unfolding ReservedRoute handle.simps handleReserved_def a by (rule verdict_done) (simp_all add: entitled_def)
  next
    case LoginRoute
    then show ?thesis using assms(4) by blast
  next
    case LogoutRoute
    show ?thesis unfolding LogoutRoute handle.simps handleLogout_def a
      by (rule verdict_done) (simp_all add: entitled_def split: sum.split option.split prod.split)
  next
    case (CreateTokenRoute body)
    show ?thesis unfolding CreateTokenRoute handle.simps handleCreateToken_def a
      by (simp add: verdict_def entitled_def s(3) Let_def split: option.split prod.split sum.split)
  next
    case ListTokensRoute
    show ?thesis unfolding ListTokensRoute handle.simps handleListTokens_def a
      by (simp add: verdict_def entitled_def s(3) split: sum.split)
  next
    case (RevokeTokenRoute tid)
    show ?thesis unfolding RevokeTokenRoute handle.simps handleRevokeToken_def a
      by (simp add: verdict_def entitled_def s(3) split: prod.split option.split)
  next
    case (CreateAccountRoute body)
    show ?thesis unfolding CreateAccountRoute handle.simps handleCreateAccount_def a entitled_def authorizeServer_def route.case s(2) [symmetric]
      by (rule gate) (simp add: Let_def split: sum.split option.split prod.split)
  next
    case (DeleteAccountRoute u)
    show ?thesis unfolding DeleteAccountRoute handle.simps handleDeleteAccount_def a entitled_def authorizeServer_def route.case s(2) [symmetric]
      by (rule gate) (simp add: account_done_def split: option.split prod.split)
  next
    case (DisableAccountRoute u)
    show ?thesis unfolding DisableAccountRoute handle.simps handleDisableAccount_def a entitled_def authorizeServer_def route.case s(2) [symmetric]
      by (rule gate) (simp add: account_done_def split: option.split prod.split)
  next
    case (SetPasswordRoute u body)
    show ?thesis
    proof (cases "id_ID i = u")
      case True
      then show ?thesis unfolding SetPasswordRoute handle.simps handleSetPassword_def a
        by (simp add: verdict_def entitled_def s(3) checked_def account_done_def split: option.split prod.split)
    next
      case False
      have "verdict e c1 (may e c1 i CapManageAccounts ServerResource) (handleSetPassword e sv q u body c)"
        unfolding handleSetPassword_def a authorizeServer_def if_P [OF False]
        by (rule gate) (simp add: account_done_def split: option.split prod.split)
      with False show ?thesis by (simp add: SetPasswordRoute entitled_def s(2))
    qed
  next
    case (Whoami res)
    show ?thesis unfolding Whoami handle.simps handleWhoami_def a
      by (rule verdict_done) (simp_all add: entitled_def split: prod.split)
  qed
qed

text \<open>C33. The control plane does only what the caller is entitled to. For every route but the login, an authenticated request is refused
  exactly when the caller lacks what the route needs under the policies in force (for a rename both the capability on the repository and the one to create, for
  the password of another the management of accounts), and a refused request leaves the repositories, their metadata, the files, the accounts and
  the credentials as they were.\<close>

theorem control_plane_refuses:
  assumes "c_authn e q c = (c1, Inr i)" "sv_authz sv" "policies_ok (ce_s e) (cw_w c)" "\<nexists>b x y. rt = LoginRoute b x y"
    and "handle e sv q rt c = (c', r)"
  shows "(r = Err 403 ''UNAUTHORIZED'' \<or> r = Err 401 ''UNAUTHENTICATED'') = (\<not> entitled e c q i rt)
    \<and> (\<not> entitled e c q i rt \<longrightarrow> cw_disk c' = cw_disk c \<and> cw_mgr c' = cw_mgr c \<and> w_fs (cw_w c') = w_fs (cw_w c) \<and> cw_ids c' = cw_ids c1)"
proof -
  have v: "verdict e c1 (entitled e c q i rt) (c', r)" using handle_verdict [OF assms(1-4)] assms(5) by simp
  show ?thesis
  proof (intro conjI impI)
    show "(r = Err 403 ''UNAUTHORIZED'' \<or> r = Err 401 ''UNAUTHENTICATED'') = (\<not> entitled e c q i rt)"
      using v by (simp add: verdict_def refusal_def)
    assume "\<not> entitled e c q i rt"
    then have "same_state e c1 c'" using v by (simp add: verdict_def)
    with c_authn_frame [OF assms(1)] show "cw_disk c' = cw_disk c" "cw_mgr c' = cw_mgr c" "w_fs (cw_w c') = w_fs (cw_w c)" "cw_ids c' = cw_ids c1"
      by (simp_all add: same_state_def)
  qed
qed


section \<open>What a caller can do to others\<close>

lemma ids_c_authorize [simp]: "cw_ids (fst (c_authorize e sv i cap res c)) = cw_ids c"
  by (simp add: c_authorize_def split: prod.split)

lemma ids_c_authorizeD: "c_authorize e sv i cap res c = (c', r) \<Longrightarrow> cw_ids c' = cw_ids c"
  using ids_c_authorize by (metis fst_conv)

lemma ids_authorizeServer [simp]: "cw_ids (fst (authorizeServer e sv i cap c)) = cw_ids c"
  by (simp add: authorizeServer_def)

lemma ids_authorizeAny [simp]: "cw_ids (fst (authorizeAny e sv i res caps c)) = cw_ids c"
proof (induction caps arbitrary: c)
  case (Cons cap caps)
  obtain c1 r where a: "c_authorize e sv i cap res c = (c1, r)" by fastforce
  then have "cw_ids c1 = cw_ids c" using ids_c_authorize by (metis fst_conv)
  with Cons.IH a show ?case by (subst authorizeAny.simps) (simp split: option.split del: authorizeAny.simps)
qed simp

lemma ids_report_caps [simp]: "cw_ids (fst (report_caps e sv i res caps c)) = cw_ids c"
proof (induction caps arbitrary: c)
  case (Cons cap caps)
  obtain c1 b where a: "hasCapability e sv i cap res c = (c1, b)" by fastforce
  then have "cw_ids c1 = cw_ids c" by (auto simp: hasCapability_def split: if_splits prod.splits dest: ids_c_authorizeD)
  with Cons.IH [of c1] a show ?case by (cases "report_caps e sv i res caps c1") simp
qed simp

lemma ids_report_capsD: "report_caps e sv i res caps c = (c', bs) \<Longrightarrow> cw_ids c' = cw_ids c"
  using ids_report_caps by (metis fst_conv)

lemma ids_checked: "(\<And>c2. cw_ids (fst (k c2)) = cw_ids c2) \<Longrightarrow> cw_ids (fst (checked a k)) = cw_ids (fst a)"
  by (cases a) (simp add: checked_def split: option.split)

lemma ids_manager [simp]: "cw_ids (fst (manager_call e x c)) = cw_ids c" "cw_ids (manager_loaded e c) = cw_ids c"
  by (simp_all add: manager_call_def manager_loaded_def split: prod.split option.split)

text \<open>The routes that leave the identity stores to authentication.\<close>

fun ids_route :: "route \<Rightarrow> bool" where
  "ids_route (LoginRoute _ _ _) = True"
| "ids_route LogoutRoute = True"
| "ids_route (CreateTokenRoute _) = True"
| "ids_route (RevokeTokenRoute _) = True"
| "ids_route (CreateAccountRoute _) = True"
| "ids_route (DeleteAccountRoute _) = True"
| "ids_route (DisableAccountRoute _) = True"
| "ids_route (SetPasswordRoute _ _) = True"
| "ids_route _ = False"

lemma other_routes:
  assumes "c_authn e q c = (c1, Inr i)" "\<not> ids_route rt"
  shows "cw_ids (fst (handle e sv q rt c)) = cw_ids c1"
proof -
  have a: "authenticated e q c k = k i c1" for k using assms(1) by (simp add: authenticated_def)
  have m: "cw_ids (fst (case manager_call e x c2 of (c3, Inl err) \<Rightarrow> (c3, f err) | (c3, Inr y) \<Rightarrow> (c3, g y))) = cw_ids c2" for x c2 f g
    by (auto split: prod.split sum.split dest: manager_call_frame)
  from assms(2) show ?thesis
  proof (cases rt)
    case (CreateRepo body)
    then show ?thesis unfolding CreateRepo handle.simps handleCreateRepo_def a
      by (subst ids_checked) (simp_all add: m split: option.split prod.split)
  next
    case (RenameRepo body)
    have k: "cw_ids (fst (checked (authorizeServer e sv i CapCreateRepo c2) (\<lambda>c3. case body of None \<Rightarrow> (c3, Err 400 ''MALFORMED_REQUEST'')
         | Some newName \<Rightarrow>
             (case manager_call e (Rename (ce_mok e) (ce_scan e) (ce_tick e) (q_repo q) newName (cw_mgr c3) (cw_disk c3)) c3 of
                (c4, Inl err) \<Rightarrow> (c4, writeManagerError err)
              | (c4, Inr md) \<Rightarrow> (c4, RepoResp 200 (descriptorOf md)))))) = cw_ids c2" for c2
      by (subst ids_checked) (simp_all add: m split: option.split)
    show ?thesis unfolding RenameRepo handle.simps handleRenameRepo_def a by (subst ids_checked [OF k]) simp
  next
    case (Whoami res)
    show ?thesis unfolding Whoami handle.simps handleWhoami_def a
      by (auto split: prod.split dest: ids_report_capsD)
  qed (simp_all del: authorizeAny.simps add: a handleListRepos_def handleGetRepo_def handleDeleteRepo_def handleReserved_def handleListTokens_def ids_checked m
         split: option.split)
qed

text \<open>\<open>own_only i ids ids'\<close>: nothing of the stores has changed that is not \<open>i\<close>'s, but for the credentials filed under the
  names \<open>hs\<close>.\<close>

definition own_only :: "string set \<Rightarrow> string \<Rightarrow> idstore \<Rightarrow> idstore \<Rightarrow> bool" where
  "own_only hs u ids ids' \<longleftrightarrow> (\<forall>v. v \<noteq> u \<longrightarrow> is_accounts ids' v = is_accounts ids v)
     \<and> (\<forall>h. h \<notin> hs \<longrightarrow> (\<forall>cr. is_creds ids h = Some (Some cr) \<longrightarrow> bc_Subject cr \<noteq> u \<longrightarrow> is_creds ids' h = is_creds ids h))"

lemma own_refl [simp]: "own_only hs u ids ids"
  by (simp add: own_only_def)

definition filed_by_name :: "idstore \<Rightarrow> bool" where
  "filed_by_name ids \<longleftrightarrow> (\<forall>u a. is_accounts ids u = Some (Some a) \<longrightarrow> ac_Username a = u)"

lemma own_ChangePassword:
  assumes "filed_by_name ids"
  shows "own_only hs u ids (fst (ChangePassword idkey rand ok u pw ids))"
  using assms by (auto simp: own_only_def ChangePassword_def acct_get_def acct_update_def filed_by_name_def split: sum.splits option.splits)

lemma own_RevokeToken: "own_only hs u ids (fst (RevokeToken ls rm u tid ids))"
proof -
  obtain ids' x where r: "RevokeByID ls rm u tid ids = (ids', x)" by fastforce
  from revoke_id_within [OF r] show ?thesis unfolding own_only_def creds_within_def RevokeToken_def r fst_conv
    by (metis option.inject)
qed

lemma own_CreateToken: "set_option (map_option snd (NewSecret secret)) \<subseteq> hs \<Longrightarrow> own_only hs u ids (fst (CreateToken ok now secret cid u name ids))"
  by (auto simp: own_only_def CreateToken_def cred_put_def split: option.splits prod.splits)

lemma own_Logout: "HashSecret token \<in> hs \<Longrightarrow> own_only hs u ids (fst (Logout ok token ids))"
  by (auto simp: own_only_def Logout_def DeleteBySecretHash_def remove_cred_def)

text \<open>The names a request itself brings: that of the credential it presents, and that of the secret made for it.\<close>

definition brought :: "cenv \<Rightarrow> Request \<Rightarrow> string set" where
  "brought e q = set_option (minted (ce_id e)) \<union> {HashSecret (cr_Token cr) | cr. q_cred q = Inr (Some cr)}"

lemma account_done_ids: "cw_ids (fst (account_done c x)) = fst x"
  by (simp add: account_done_def split: prod.split option.split)

lemma own_authenticated:
  assumes "c_authn e q c = (c1, Inr i)" "sv_authz sv" "policies_ok (ce_s e) (cw_w c)" "\<nexists>b x y. rt = LoginRoute b x y"
    and "\<not> may e c i CapManageAccounts ServerResource" "filed_by_name (cw_ids c1)"
  shows "own_only (brought e q) (id_ID i) (cw_ids c1) (cw_ids (fst (handle e sv q rt c)))"
proof (cases "entitled e c q i rt")
  case False
  then have "same_state e c1 (fst (handle e sv q rt c))" using handle_verdict [OF assms(1-4)] by (simp add: verdict_def)
  then show ?thesis by (simp add: same_state_def)
next
  case True
  have a: "authenticated e q c k = k i c1" for k using assms(1) by (simp add: authenticated_def)
  show ?thesis
  proof (cases "ids_route rt")
    case False
    then show ?thesis using other_routes [OF assms(1)] by simp
  next
    case route: True
    then show ?thesis
    proof (cases rt)
      case LogoutRoute
      have "own_only (brought e q) (id_ID i) (cw_ids c1) (fst (Logout ok (cr_Token cr) (cw_ids c1)))" if "q_cred q = Inr (Some cr)" for cr ok
        by (rule own_Logout) (use that in \<open>auto simp: brought_def\<close>)
      then show ?thesis unfolding LogoutRoute handle.simps handleLogout_def a
        by (auto split: sum.split option.split prod.split) (metis fst_conv)+
    next
      case (CreateTokenRoute body)
      have "own_only (brought e q) (id_ID i) (cw_ids c1) (fst (CreateToken ok now (ie_secret (ce_id e)) cid (id_ID i) name (cw_ids c1)))" for ok now cid name
        by (rule own_CreateToken) (auto simp: brought_def minted_def)
      then show ?thesis unfolding CreateTokenRoute handle.simps handleCreateToken_def a
        by (auto simp: Let_def split: sum.split option.split prod.split) (metis fst_conv)+
    next
      case (RevokeTokenRoute tid)
      show ?thesis unfolding RevokeTokenRoute handle.simps handleRevokeToken_def a
        using own_RevokeToken [of "brought e q" "id_ID i" "cw_ids c1"] by (auto split: option.split prod.split) (metis fst_conv)+
    next
      case (SetPasswordRoute u body)
      with True assms(5) have u: "u = id_ID i" "u \<noteq> id_ID Anonymous" by (auto simp: entitled_def split: if_splits)
      show ?thesis unfolding SetPasswordRoute handle.simps handleSetPassword_def a
        using own_ChangePassword [OF assms(6)] u by (simp add: checked_def account_done_ids split: option.split)
    qed (use True assms(4,5) in \<open>auto simp: entitled_def\<close>)
  qed
qed

text \<open>C34. Accounts are private to their owners. Whatever an authenticated caller without the management of accounts sends (the login apart),
  the account of every other user stays as it is, and so does every credential of another subject, except a credential that the request itself
  presents, and one whose name is the hash of the new random secret.\<close>

theorem others_untouched:
  assumes "c_authn e q c = (c1, Inr i)" "sv_authz sv" "policies_ok (ce_s e) (cw_w c)" "\<nexists>b x y. rt = LoginRoute b x y"
    and "\<not> Allows (Some (policy_of (ce_s e) (cw_w c) ServerResource)) (id_ID i) CapManageAccounts" "filed_by_name (cw_ids c1)"
    and "handle e sv q rt c = (c', r)" "v \<noteq> id_ID i"
  shows "is_accounts (cw_ids c') v = is_accounts (cw_ids c1) v
    \<and> (\<forall>h cr. is_creds (cw_ids c1) h = Some (Some cr) \<and> bc_Subject cr = v \<and> h \<notin> brought e q \<longrightarrow> is_creds (cw_ids c') h = Some (Some cr))"
proof -
  have "own_only (brought e q) (id_ID i) (cw_ids c1) (cw_ids c')"
    using own_authenticated [OF assms(1-4) _ assms(6)] assms(5,7) by (simp add: may_def)
  then show ?thesis using assms(8) by (auto simp: own_only_def)
qed

text \<open>What \<^verbatim>\<open>whoami\<close> reports is what authorization decides: with a resource named, the answer lists for each capability of
  its scope whether a request that needs it would pass under the policies in force, and asking changes nothing.\<close>

theorem whoami_reports_decisions:
  assumes "c_authn e q c = (c1, Inr i)" "sv_authz sv" "policies_ok (ce_s e) (cw_w c)" "res \<noteq> []"
    and "handleWhoami e sv q res c = (c', r)"
  shows "r = WhoamiResp \<lparr>wh_ID = id_ID i, wh_Method = id_Method i, wh_Anonymous = (id_ID i = ''anonymous''), wh_Repository = res,
      wh_Capabilities = map (\<lambda>cap. (cap, snd (c_authorize e sv i cap res c1) = None))
        (if res = ServerResource then serverScopeCaps else repoScopeCaps)\<rparr>
    \<and> cw_ids c' = cw_ids c1 \<and> cw_disk c' = cw_disk c \<and> w_fs (cw_w c') = w_fs (cw_w c)"
proof -
  note s = authn_same [OF assms(1,3)]
  let ?caps = "if res = ServerResource then serverScopeCaps else repoScopeCaps"
  obtain bs where bs: "report_caps e sv i res ?caps c1 = (c', bs)"
    "r = WhoamiResp \<lparr>wh_ID = id_ID i, wh_Method = id_Method i, wh_Anonymous = (id_ID i = id_ID Anonymous), wh_Repository = res, wh_Capabilities = bs\<rparr>"
    using assms(1,4,5) unfolding handleWhoami_def authenticated_def by (simp split: prod.splits)
  have "may e c1 i cap res = (snd (c_authorize e sv i cap res c1) = None)" for cap
    using c_authorize_exact(2) [OF prod.collapse [symmetric] assms(2) s(1), of i cap res] by auto
  with report_caps_exact [OF bs(1) assms(2) s(1)] bs(2) c_authn_frame [OF assms(1)] show ?thesis
    by (simp add: Anonymous_def same_state_def)
qed


section \<open>A small control plane\<close>

text \<open>The server of the data plane's samples, where everyone is \<open>alice\<close>; \<open>bob\<close> has an account and a token.\<close>

definition small_alice :: Identity where "small_alice = \<lparr>id_ID = ''alice'', id_Method = MethodBearer\<rparr>"

definition small_cenv :: cenv where
  "small_cenv = \<lparr>ce_s = small_env, ce_src = (\<lambda>_ st. (st, Inr small_alice)),
     ce_id = \<lparr>ie_idkey = toy_kdf, ie_salt = None, ie_secret = None, ie_ok = (\<lambda>_. True), ie_ls = Some [''h''], ie_rm = (\<lambda>_. True), ie_now = 1, ie_cid = ''c''\<rparr>,
     ce_mok = (\<lambda>_. True), ce_scan = (\<lambda>_. Some []), ce_ord = (\<lambda>_. []), ce_fresh = 0, ce_tick = 0, ce_newID = ''n'', ce_files = (\<lambda>_ f. f)\<rparr>"

definition bob_token :: BearerCredential where
  "bob_token = \<lparr>bc_ID = ''t1'', bc_Kind = KindToken, bc_Subject = ''bob'', bc_Name = ''ci'', bc_SecretHash = ''h'', bc_CreatedAt = 0,
     bc_ExpiresAt = 0, bc_IdleSeconds = 0, bc_LastUsedAt = 0, bc_Revoked = False\<rparr>"

definition small_cworld :: cworld where
  "small_cworld = \<lparr>cw_w = small_world, cw_mgr = NewManager, cw_disk = \<lparr>dk_meta = Map.empty, dk_content = Map.empty, dk_policy = Map.empty\<rparr>,
     cw_ids = \<lparr>is_accounts = [''bob'' \<mapsto> Some \<lparr>ac_Username = ''bob'', ac_PasswordHash = ''x'', ac_State = AccountActive, ac_CreatedAt = 0\<rparr>],
               is_creds = [''h'' \<mapsto> Some bob_token]\<rparr>\<rparr>"

definition small_crequest :: Request where
  "small_crequest = small_request\<lparr>q_cred := Inr None\<rparr>"

lemma small_authn: "c_authn small_cenv small_crequest small_cworld = (small_cworld, Inr small_alice)"
  by (simp add: c_authn_def source_asked_def authn_def small_cenv_def small_crequest_def small_request_def small_cworld_def)

lemma small_cpolicy:
  "policies_ok (ce_s small_cenv) (cw_w small_cworld)"
  "may small_cenv small_cworld small_alice cap ''repo'' \<longleftrightarrow> cap \<in> {CapRead, CapPush}"
  "\<not> may small_cenv small_cworld small_alice cap ServerResource"
proof -
  show "policies_ok (ce_s small_cenv) (cw_w small_cworld)" using small_policy(1) by (simp add: small_cenv_def small_cworld_def)
  show "may small_cenv small_cworld small_alice cap ''repo'' \<longleftrightarrow> cap \<in> {CapRead, CapPush}"
    using small_policy(2) by (simp add: may_def small_cenv_def small_cworld_def small_alice_def)
  have "filepath_Join ''/p'' (ServerResource @ ''.json'') = ''/p/_server.json''" by code_simp
  moreover have "srv_fs ''/p/_server.json'' = None" using short_not_object [of "''/p/_server.json''"] by (simp add: srv_fs_def)
  ultimately show "\<not> may small_cenv small_cworld small_alice cap ServerResource"
    by (simp add: may_def in_force_def small_cenv_def small_cworld_def small_env_def small_world_def LoadPolicy_def DenyAll_def Allows_def)
qed

lemma small_authz: "sv_authz small_server" by (simp add: small_server_def)

theorem control_plane_refuses_witness:
  "snd (handle small_cenv small_server small_crequest DeleteRepo small_cworld) \<in> {Err 403 ''UNAUTHORIZED'', Err 401 ''UNAUTHENTICATED''}
    \<and> cw_disk (fst (handle small_cenv small_server small_crequest DeleteRepo small_cworld)) = cw_disk small_cworld"
proof -
  have "\<not> entitled small_cenv small_cworld small_crequest small_alice DeleteRepo"
    by (simp add: entitled_def small_crequest_def small_request_def small_cpolicy(2) CapDeleteRepo_def CapRead_def CapPush_def)
  with control_plane_refuses [OF small_authn small_authz small_cpolicy(1) _ prod.collapse [symmetric], of DeleteRepo] show ?thesis
    by simp
qed

theorem others_untouched_witness:
  "is_creds (cw_ids (fst (handle small_cenv small_server small_crequest (RevokeTokenRoute ''t1'') small_cworld))) ''h'' = Some (Some bob_token)"
proof -
  have "brought small_cenv small_crequest = {}"
    by (simp add: brought_def minted_def small_cenv_def small_crequest_def NewSecret_def)
  moreover have "is_creds (cw_ids small_cworld) ''h'' = Some (Some bob_token)" "bc_Subject bob_token = ''bob''"
    by (simp_all add: small_cworld_def bob_token_def)
  moreover have "filed_by_name (cw_ids small_cworld)" by (simp add: filed_by_name_def small_cworld_def)
  moreover have "''bob'' \<noteq> id_ID small_alice" by (simp add: small_alice_def)
  ultimately show ?thesis
    using others_untouched [OF small_authn small_authz small_cpolicy(1) _ small_cpolicy(3) [unfolded may_def] _ prod.collapse [symmetric], of "RevokeTokenRoute ''t1''" "''bob''"]
    by auto
qed

theorem whoami_reports_decisions_witness:
  "\<exists>caps. snd (handleWhoami small_cenv small_server small_crequest ''repo'' small_cworld)
     = WhoamiResp \<lparr>wh_ID = ''alice'', wh_Method = MethodBearer, wh_Anonymous = False, wh_Repository = ''repo'', wh_Capabilities = caps\<rparr>
     \<and> map fst caps = repoScopeCaps"
  using whoami_reports_decisions [OF small_authn small_authz small_cpolicy(1) _ prod.collapse [symmetric], of "''repo''"]
  by (simp add: small_alice_def ServerResource_def comp_def)

section \<open>Findings\<close>

text \<open>A request from another site reaches no handler that changes something, but the answer's code is not one of the protocol's.\<close>

lemma cross_site_stopped:
  assumes "crossSiteBrowserRequest urlHost eqFold b" "isUnsafeMethod (route_method rt)"
  shows "withMiddleware urlHost eqFold e sv b q rt c = (c, Err 403 ''CROSS_ORIGIN'')"
  using assms by (simp add: withMiddleware_def)

text \<open>The handlers of the control plane and \<^verbatim>\<open>whoami\<close> do not check the name of the repository before they authorize, unlike those of the
  data plane, and the policy store joins it to its root: the decision on the name \<^verbatim>\<open>../x\<close> is taken from a file outside the policy root.\<close>

theorem policy_outside_root:
  assumes "mtime ''/srv/x.json'' = StatTime t" "LoadPolicy unjson fs ''/srv/x.json'' = Inr pol"
  shows "\<not> validRepo ''../x'' \<and> fst (snd (PolicyFor unjson mtime fs \<lparr>ps_root = ''/srv/policies'', ps_byRepo = Map.empty\<rparr> ''../x'')) = pol"
proof -
  have "filepath_Join ''/srv/policies'' (''../x'' @ ''.json'') = ''/srv/x.json''" "\<not> validRepo ''../x''" by code_simp+
  with assms show ?thesis by (simp add: PolicyFor_def Let_def)
qed

text \<open>\<^verbatim>\<open>Logout\<close> removes whatever credential is presented: an API token that is used to log out is gone.\<close>

theorem logout_revokes_token:
  assumes "c_authn e q c = (c1, Inr i)" "q_cred q = Inr (Some cr)" "cr_Scheme cr = SchemeBearer" "ie_ok (ce_id e) 0"
    and "is_creds (cw_ids c1) (HashSecret (cr_Token cr)) = Some (Some tok)" "bc_Kind tok = KindToken"
  shows "is_creds (cw_ids (fst (handleLogout e q c))) (HashSecret (cr_Token cr)) = None"
  using assms by (simp add: handleLogout_def authenticated_def Logout_def DeleteBySecretHash_def remove_cred_def)

end
