(* ===== verification/Merge_State.thy ===== *)
theory Merge_State
  imports Merge_Engine
begin

text \<open>
  The state of a merge that stopped at conflicts: the file \<^verbatim>\<open>MERGE_HEAD\<close> (\<^verbatim>\<open>pkg/recovery\<close>) and the record of the conflicted paths
  in \<^verbatim>\<open>CONFLICTS\<close> (\<^verbatim>\<open>internal/mergestate\<close>). The JSON codec of the standard library is a pair of arguments.
\<close>

section \<open>The record of conflicts\<close>

datatype Kind = KindContent | KindModifyDelete

record Side =
  sd_Present :: bool
  sd_Blob :: string

record CEntry =
  cf_Path :: string
  cf_Kind :: Kind
  cf_Base :: Side
  cf_Ours :: Side
  cf_Theirs :: Side
  cf_Resolved :: bool

record MState =
  ms_Version :: int
  ms_OurLabel :: string
  ms_TheirLabel :: string
  ms_Entries :: "CEntry list"
  ms_MergeTouched :: "string list"

definition ms_version :: int where "ms_version = 1"

definition MState_Lookup :: "MState \<Rightarrow> string \<Rightarrow> CEntry option" where
  "MState_Lookup st p = find (\<lambda>e. cf_Path e = p) (ms_Entries st)"

definition MergeInvolved :: "MState \<Rightarrow> string \<Rightarrow> bool" where
  "MergeInvolved st p \<longleftrightarrow> p \<in> set (ms_MergeTouched st) \<or> MState_Lookup st p \<noteq> None"

definition MState_Paths :: "MState \<Rightarrow> string list" where
  "MState_Paths st = map cf_Path (ms_Entries st)"

definition UnresolvedPaths :: "MState \<Rightarrow> string list" where
  "UnresolvedPaths st = map cf_Path (filter (\<lambda>e. \<not> cf_Resolved e) (ms_Entries st))"

definition AllResolved :: "MState \<Rightarrow> bool" where
  "AllResolved st \<longleftrightarrow> list_all cf_Resolved (ms_Entries st)"

fun set_resolved :: "string \<Rightarrow> bool \<Rightarrow> CEntry list \<Rightarrow> CEntry list \<times> bool" where
  "set_resolved p b [] = ([], False)"
| "set_resolved p b (e # es) =
     (if cf_Path e = p then (e\<lparr>cf_Resolved := b\<rparr> # es, True)
      else case set_resolved p b es of (es', found) \<Rightarrow> (e # es', found))"

definition SetResolved :: "string \<Rightarrow> bool \<Rightarrow> MState \<Rightarrow> MState \<times> bool" where
  "SetResolved p b st = (case set_resolved p b (ms_Entries st) of (es, found) \<Rightarrow> (st\<lparr>ms_Entries := es\<rparr>, found))"

section \<open>The files\<close>

definition conflicts_path :: "path \<Rightarrow> path" where
  "conflicts_path varaDir = filepath_Join varaDir ''CONFLICTS''"

definition MState_Write :: "(MState \<Rightarrow> bytes option) \<Rightarrow> io \<Rightarrow> path \<Rightarrow> MState \<Rightarrow> fs \<Rightarrow> fs \<times> (verr + MState)" where
  "MState_Write json io varaDir st0 fs =
     (let st = (if ms_Version st0 = 0 then st0\<lparr>ms_Version := ms_version\<rparr> else st0);
          p = conflicts_path varaDir; tmp = p @ ''.tmp''
      in case json st of
           None \<Rightarrow> (fs, Inl ErrIO)
         | Some data \<Rightarrow>
             (case os_WriteFile io tmp (data @ [LF]) fs of
                (fs1, Inl e) \<Rightarrow> (fs1, Inl e)
              | (fs1, Inr _) \<Rightarrow>
                  if io_rename io tmp 0 then (os_Rename tmp p fs1, Inr st) else (os_Remove tmp fs1, Inl ErrIO)))"

text \<open>\<open>Inr None\<close>: no file. A file that does not decode is an error.\<close>

definition MState_Read :: "(bytes \<Rightarrow> MState option) \<Rightarrow> path \<Rightarrow> fs \<Rightarrow> verr + MState option" where
  "MState_Read unjson varaDir fs =
     (case fs (conflicts_path varaDir) of
        None \<Rightarrow> Inr None
      | Some data \<Rightarrow> (case unjson data of None \<Rightarrow> Inl ErrIO | Some st \<Rightarrow> Inr (Some st)))"

text \<open>\<open>rm\<close> tells whether a removal succeeds.\<close>

definition remove_file :: "(path \<Rightarrow> bool) \<Rightarrow> path \<Rightarrow> fs \<Rightarrow> fs \<times> (verr + unit)" where
  "remove_file rm p fs = (if fs p = None then (fs, Inr ()) else if rm p then (os_Remove p fs, Inr ()) else (fs, Inl ErrIO))"

definition MState_Clear :: "(path \<Rightarrow> bool) \<Rightarrow> path \<Rightarrow> fs \<Rightarrow> fs \<times> (verr + unit)" where
  "MState_Clear rm varaDir fs = remove_file rm (conflicts_path varaDir) fs"

definition merge_head_path :: "path \<Rightarrow> path" where
  "merge_head_path varaDir = filepath_Join varaDir ''MERGE_HEAD''"

definition MergeInProgress :: "path \<Rightarrow> fs \<Rightarrow> bool" where
  "MergeInProgress varaDir fs \<longleftrightarrow> fs (merge_head_path varaDir) \<noteq> None"

definition ClearMergeHead :: "(path \<Rightarrow> bool) \<Rightarrow> path \<Rightarrow> fs \<Rightarrow> fs \<times> (verr + unit)" where
  "ClearMergeHead rm varaDir fs = remove_file rm (merge_head_path varaDir) fs"

definition readMergeHead :: "path \<Rightarrow> fs \<Rightarrow> CommitID option" where
  "readMergeHead varaDir fs =
     (case fs (merge_head_path varaDir) of
        None \<Rightarrow> None
      | Some data \<Rightarrow> (case ParseHex (TrimSpace data) of Inl _ \<Rightarrow> None | Inr i \<Rightarrow> Some i))"

section \<open>Laws\<close>

lemma AllResolved_iff: "AllResolved st \<longleftrightarrow> UnresolvedPaths st = []"
  by (auto simp: AllResolved_def UnresolvedPaths_def list_all_iff filter_empty_conv)

lemma set_resolved_found: "snd (set_resolved p b es) \<longleftrightarrow> p \<in> cf_Path ` set es"
  by (induction es) (auto split: prod.splits)

lemma set_resolved_paths: "map cf_Path (fst (set_resolved p b es)) = map cf_Path es"
  by (induction es) (auto split: prod.splits)

lemma SetResolved_unresolved:
  assumes "distinct (MState_Paths st)"
  shows "set (UnresolvedPaths (fst (SetResolved p True st))) = set (UnresolvedPaths st) - {p}"
proof -
  have "distinct (map cf_Path es) \<Longrightarrow>
    cf_Path ` {e \<in> set (fst (set_resolved p True es)). \<not> cf_Resolved e} = cf_Path ` {e \<in> set es. \<not> cf_Resolved e} - {p}" for es
  proof (induction es)
    case (Cons e es)
    then show ?case by (cases "set_resolved p True es") (auto simp: image_iff split: if_splits)
  qed simp
  from this [of "ms_Entries st"] assms show ?thesis
    by (cases "set_resolved p True (ms_Entries st)") (simp add: UnresolvedPaths_def SetResolved_def MState_Paths_def)
qed

lemma MState_roundtrip:
  assumes "MState_Write json io varaDir st fs = (fs', Inr st')" "\<forall>s data. json s = Some data \<longrightarrow> unjson (data @ [LF]) = Some s"
  shows "MState_Read unjson varaDir fs' = Inr (Some st')" "ms_Entries st' = ms_Entries st" "ms_MergeTouched st' = ms_MergeTouched st"
proof -
  obtain data fs1 where w: "json st' = Some data" "os_WriteFile io (conflicts_path varaDir @ ''.tmp'') (data @ [LF]) fs = (fs1, Inr ())"
      "fs' = os_Rename (conflicts_path varaDir @ ''.tmp'') (conflicts_path varaDir) fs1"
    "st' = (if ms_Version st = 0 then st\<lparr>ms_Version := ms_version\<rparr> else st)"
    using assms(1) by (auto simp: MState_Write_def Let_def split: option.splits prod.splits sum.splits if_splits)
  have "fs1 (conflicts_path varaDir @ ''.tmp'') = Some (data @ [LF])" using w(2) by (auto simp: os_WriteFile_def split: if_splits)
  then have "fs' (conflicts_path varaDir) = Some (data @ [LF])" by (simp add: w(3) os_Rename_def)
  then show "MState_Read unjson varaDir fs' = Inr (Some st')" using assms(2) w(1) by (simp add: MState_Read_def)
  show "ms_Entries st' = ms_Entries st" "ms_MergeTouched st' = ms_MergeTouched st" by (simp_all add: w(4))
qed

end
