(* ===== verification/Worktree.thy ===== *)
theory Worktree
  imports Merge_Engine Reflog
begin

text \<open>
  The working directory: the ignore rules (\<^verbatim>\<open>pkg/ignore\<close>), the walk over the files that are not ignored
  (\<^verbatim>\<open>internal/worktree\<close>) and their comparison with the index (\<^verbatim>\<open>pkg/scanner\<close>). What \<^verbatim>\<open>filepath.Walk\<close> visits is the argument
  \<open>visits\<close>: the repository-relative names with a flag for directories, a directory right before everything below it.
\<close>

section \<open>Ignore rules\<close>

definition ignore_rules :: "string list \<Rightarrow> string list" where
  "ignore_rules lines = filter (\<lambda>l. l \<noteq> [] \<and> \<not> HasPrefix l ''#'') (map (\<lambda>l. TrimSpace (drop_CR l)) lines)"

definition Load_ignore :: "path \<Rightarrow> fs \<Rightarrow> verr + string list" where
  "Load_ignore p fs =
     (case fs p of
        None \<Rightarrow> Inr []
      | Some data \<Rightarrow>
          if list_ex (\<lambda>l. length l \<ge> MaxScanTokenSize) (raw_lines [] data) then Inl ErrIO
          else Inr (ignore_rules (raw_lines [] data)))"

definition matchRule :: "string \<Rightarrow> string \<Rightarrow> bool" where
  "matchRule rule p =
     (if HasPrefix rule ''*.'' then HasSuffix p (TrimPrefix rule ''*'')
      else if HasSuffix rule ''/'' then
        (let dir = TrimSuffix rule ''/'' in
         p = dir \<or> HasPrefix p (dir @ ''/'') \<or> Contains p (''/'' @ dir @ ''/'') \<or> HasSuffix p (''/'' @ dir))
      else p = rule \<or> HasSuffix p (''/'' @ rule) \<or> HasPrefix p (rule @ ''/''))"

definition Ignore :: "string list \<Rightarrow> string \<Rightarrow> bool" where
  "Ignore rules p \<longleftrightarrow> p = ''.vara'' \<or> HasPrefix p ''.vara/'' \<or> list_ex (\<lambda>r. matchRule r p) rules"

section \<open>Walking\<close>

function walk_files :: "string list \<Rightarrow> (string \<times> bool) list \<Rightarrow> string list" where
  "walk_files rules [] = []"
| "walk_files rules ((rel, isDir) # vs) =
     (if rel = ''.'' then walk_files rules vs
      else if Ignore rules rel then
        (if isDir then walk_files rules (dropWhile (\<lambda>v. HasPrefix (fst v) (rel @ ''/'')) vs) else walk_files rules vs)
      else if isDir then walk_files rules vs
      else rel # walk_files rules vs)"
  by pat_completeness auto
termination
  by (relation "measure (\<lambda>(_, vs). length vs)") (auto simp: length_dropWhile_le le_imp_less_Suc)

text \<open>\<open>visits\<close> is \<open>None\<close> when the walk meets an error.\<close>

definition Worktree_Walk :: "path \<Rightarrow> (string \<times> bool) list option \<Rightarrow> fs \<Rightarrow> verr + string list" where
  "Worktree_Walk root visits fs =
     bind_res (Load_ignore (filepath_Join root ''.varaignore'') fs) (\<lambda>rules.
       case visits of None \<Rightarrow> Inl ErrIO | Some vs \<Rightarrow> Inr (walk_files rules vs))"

section \<open>Scanning\<close>

datatype FileStatus = StatusUntracked | StatusModified | StatusDeleted | StatusAdded | StatusClean

definition entry_map :: "Index \<Rightarrow> string \<rightharpoonup> Entry" where
  "entry_map idx = fold (\<lambda>e m. m(ie_Path e \<mapsto> e)) (Entries idx) Map.empty"

fun scan_walk :: "path \<Rightarrow> fs \<Rightarrow> string list \<Rightarrow> (string \<rightharpoonup> Entry) \<Rightarrow> (string \<rightharpoonup> FileStatus) \<Rightarrow> verr + (string \<rightharpoonup> Entry) \<times> (string \<rightharpoonup> FileStatus)" where
  "scan_walk root fs [] m res = Inr (m, res)"
| "scan_walk root fs (p # ps) m res =
     (case m p of
        None \<Rightarrow> scan_walk root fs ps m (res(p \<mapsto> StatusUntracked))
      | Some e \<Rightarrow>
          (case fs (filepath_Join root p) of
             None \<Rightarrow> Inl ErrIO
           | Some content \<Rightarrow>
               scan_walk root fs ps (m(p := None))
                 (res(p \<mapsto> (if BlobHash content = ie_ObjectID e then StatusClean else StatusModified)))))"

definition Scan :: "path \<Rightarrow> (string \<times> bool) list option \<Rightarrow> Index \<Rightarrow> fs \<Rightarrow> verr + (string \<rightharpoonup> FileStatus)" where
  "Scan root visits idx fs =
     bind_res (Worktree_Walk root visits fs) (\<lambda>files.
     bind_res (scan_walk root fs files (entry_map idx) Map.empty) (\<lambda>(m, res).
       Inr (\<lambda>p. if m p \<noteq> None then Some StatusDeleted else res p)))"

section \<open>What a scan says\<close>

lemma walk_sound: "p \<in> set (walk_files rules vs) \<Longrightarrow> (p, False) \<in> set vs \<and> \<not> Ignore rules p"
  by (induction rules vs rule: walk_files.induct) (auto split: if_splits dest: set_dropWhileD)

lemma walk_distinct: "distinct (map fst vs) \<Longrightarrow> distinct (walk_files rules vs)"
proof (induction rules vs rule: walk_files.induct)
  case (2 rules rel isDir vs)
  have "distinct (map fst (dropWhile P vs))" for P
    using 2(6) by (metis distinct.simps(2) distinct_append list.simps(9) map_append takeWhile_dropWhile_id)
  moreover have "rel \<notin> set (walk_files rules vs)" using 2(6) walk_sound [of rel rules vs] by (force simp: image_iff)
  ultimately show ?case using 2 by auto
qed simp

text \<open>A walk skips whole directories: of the files, it leaves out those that are ignored and those below an ignored directory.\<close>

definition below_ignored :: "string list \<Rightarrow> (string \<times> bool) list \<Rightarrow> string \<Rightarrow> bool" where
  "below_ignored rules vs p \<longleftrightarrow> (\<exists>d. (d, True) \<in> set vs \<and> d \<noteq> ''.'' \<and> Ignore rules d \<and> HasPrefix p (d @ ''/''))"

lemma walk_complete:
  "(p, False) \<in> set vs \<Longrightarrow> \<not> Ignore rules p \<Longrightarrow> \<not> below_ignored rules vs p \<Longrightarrow> p \<noteq> ''.'' \<Longrightarrow> p \<in> set (walk_files rules vs)"
proof (induction rules vs rule: walk_files.induct)
  case (2 rules rel isDir vs)
  have rest: "\<not> below_ignored rules vs p" using 2(8) by (auto simp: below_ignored_def)
  show ?case
  proof (cases "rel \<noteq> ''.'' \<and> Ignore rules rel \<and> isDir")
    case True
    let ?vs = "dropWhile (\<lambda>v. HasPrefix (fst v) (rel @ ''/'')) vs"
    have "\<not> HasPrefix p (rel @ ''/'')" using 2(8) True by (auto simp: below_ignored_def)
    moreover have "(p, False) \<in> set vs" using 2(6) True by auto
    ultimately have "(p, False) \<in> set ?vs"
      by (metis (no_types, lifting) Un_iff fst_conv set_append set_takeWhileD takeWhile_dropWhile_id)
    moreover have "\<not> below_ignored rules ?vs p" using rest by (auto simp: below_ignored_def dest: set_dropWhileD)
    ultimately show ?thesis using 2(2) True 2(7,9) by auto
  next
    case False
    with 2 rest show ?thesis by (auto split: if_splits)
  qed
qed simp

lemma scan_files_spec:
  "scan_walk root fs ps m res = Inr (m', res') \<Longrightarrow> distinct ps \<Longrightarrow>
   m' p = (if p \<in> set ps then None else m p)
   \<and> res' p = (if p \<in> set ps then
        Some (case m p of None \<Rightarrow> StatusUntracked
              | Some e \<Rightarrow> if map_option BlobHash (fs (filepath_Join root p)) = Some (ie_ObjectID e) then StatusClean else StatusModified)
      else res p)"
proof (induction root fs ps m res rule: scan_walk.induct)
  case (2 root fs q ps m res)
  show ?case
  proof (cases "m q")
    case None
    then have "scan_walk root fs ps m (res(q \<mapsto> StatusUntracked)) = Inr (m', res')" using 2(3) by simp
    from 2(1) [OF None this] 2(4) None show ?thesis by auto
  next
    case (Some e)
    then obtain content where c: "fs (filepath_Join root q) = Some content" using 2(3) by (auto split: option.splits)
    then have "scan_walk root fs ps (m(q := None)) (res(q \<mapsto> (if BlobHash content = ie_ObjectID e then StatusClean else StatusModified)))
        = Inr (m', res')" using 2(3) Some by simp
    from 2(2) [OF Some c this] 2(4) Some c show ?thesis by auto
  qed
qed auto

lemma entry_map_snoc: "entry_map \<lparr>Entries = es @ [e]\<rparr> = (entry_map \<lparr>Entries = es\<rparr>)(ie_Path e \<mapsto> e)"
  by (simp add: entry_map_def)

lemma entry_map_dom: "dom (entry_map idx) = ie_Path ` set (Entries idx)"
proof -
  have "dom (entry_map \<lparr>Entries = es\<rparr>) = ie_Path ` set es" for es
  proof (induction es rule: rev_induct)
    case (snoc e es)
    then show ?case unfolding entry_map_snoc dom_fun_upd by simp
  qed (simp add: entry_map_def)
  then show ?thesis by (metis Index.cases Index.select_convs(1))
qed

section \<open>Properties\<close>

text \<open>A scan classifies every path by content alone. A file that the walk reaches is untracked when the index has no entry for it, clean when
  its contents hash to the blob of the entry, and modified otherwise; an entry of the index that the walk does not reach is deleted; other
  paths are not mentioned.\<close>

theorem scan_exact:
  assumes "Scan root (Some vs) idx fs = Inr res" "Load_ignore (filepath_Join root ''.varaignore'') fs = Inr rules" "distinct (map fst vs)"
  shows "res p =
    (if p \<in> set (walk_files rules vs) then
       Some (case entry_map idx p of None \<Rightarrow> StatusUntracked
             | Some e \<Rightarrow> if map_option BlobHash (fs (filepath_Join root p)) = Some (ie_ObjectID e) then StatusClean else StatusModified)
     else if p \<in> ie_Path ` set (Entries idx) then Some StatusDeleted else None)"
proof -
  obtain m r where s: "scan_walk root fs (walk_files rules vs) (entry_map idx) Map.empty = Inr (m, r)"
    "res = (\<lambda>p. if m p \<noteq> None then Some StatusDeleted else r p)"
    using assms(1,2) by (auto simp: Scan_def Worktree_Walk_def bind_res_eq_Inr)
  note spec = scan_files_spec [OF s(1) walk_distinct [OF assms(3)], of p]
  have "entry_map idx p \<noteq> None \<longleftrightarrow> p \<in> ie_Path ` set (Entries idx)" using entry_map_dom [of idx] by auto
  with spec show ?thesis by (auto simp: s(2))
qed

end
