(* ===== verification/Snapshots.thy ===== *)
theory Snapshots
  imports Reflog
begin

text \<open>
  Snapshots of the working directory: \<^verbatim>\<open>pkg/snapshot\<close> makes an archive of it in \<^verbatim>\<open>.vara/snapshots\<close>, \<^verbatim>\<open>internal/undo\<close> writes
  one back. The archive format (\<^verbatim>\<open>archive/tar\<close> inside a Zstandard stream) is the argument \<open>codec\<close>; what \<^verbatim>\<open>filepath.Walk\<close> lists is
  the argument \<open>walk\<close>, the files under the root as absolute paths in its order, or \<open>None\<close> when it fails. The roots are absolute
  and clean, as \<^verbatim>\<open>filepath.Abs\<close> leaves them.
\<close>

section \<open>Archives\<close>

datatype tar_entry = TarFile string bytes | TarDir string | TarOther string

text \<open>\<open>unpack\<close> is \<open>None\<close> when the stream cannot be opened; its flag is false when it breaks off after the entries it gives.\<close>

record codec =
  pack :: "(string \<times> bytes) list \<Rightarrow> bytes"
  unpack :: "bytes \<Rightarrow> (tar_entry list \<times> bool) option"

definition codec_ok :: "codec \<Rightarrow> bool" where
  "codec_ok c \<longleftrightarrow> (\<forall>fs. unpack c (pack c fs) = Some (map (\<lambda>(n, d). TarFile n d) fs, True))"

definition under :: "path \<Rightarrow> path \<Rightarrow> bool" where
  "under dir p \<longleftrightarrow> p = dir \<or> HasPrefix p (dir @ ''/'')"

section \<open>Creating\<close>

definition snap_name :: "string \<Rightarrow> string \<Rightarrow> string \<Rightarrow> nat \<Rightarrow> string" where
  "snap_name timestamp command commitHex n =
     (let base = ''snap-'' @ timestamp @ ''-'' @ command @ ''-'' @ (if length commitHex > 7 then take 7 commitHex else commitHex)
      in if n < 2 then base @ ''.tar.zst'' else base @ ''.'' @ dec_nat n @ ''.tar.zst'')"

definition snap_numbers :: "nat list" where
  "snap_numbers = 1 # [2 ..< 1000]"

text \<open>The exclusive open, with the numbers that are left to try.\<close>

fun open_excl :: "io \<Rightarrow> path \<Rightarrow> (nat \<Rightarrow> string) \<Rightarrow> nat list \<Rightarrow> fs \<Rightarrow> path option" where
  "open_excl io dir name [] fs = None"
| "open_excl io dir name (n # ns) fs =
     (let p = filepath_Join dir (name n) in
      if fs p \<noteq> None then open_excl io dir name ns fs
      else if io_open io p then Some p else None)"

definition archive_files :: "path \<Rightarrow> path \<Rightarrow> path list \<Rightarrow> fs \<Rightarrow> (string \<times> bytes) list" where
  "archive_files varaAbs rootAbs listed fs =
     map (\<lambda>p. (drop (length rootAbs + 1) p, the (fs p))) (filter (\<lambda>p. \<not> under varaAbs p) listed)"

text \<open>A failure after the archive file exists removes it.\<close>

definition Create_snapshot ::
    "codec \<Rightarrow> io \<Rightarrow> path list option \<Rightarrow> string \<Rightarrow> path \<Rightarrow> path \<Rightarrow> string \<Rightarrow> string \<Rightarrow> fs \<Rightarrow> fs \<times> (verr + path)" where
  "Create_snapshot c io walk timestamp varaAbs rootAbs command commitHex fs =
     (let dir = filepath_Join varaAbs ''snapshots'' in
      if \<not> io_mkdir io dir then (fs, Inl ErrIO)
      else case open_excl io dir (snap_name timestamp command commitHex) snap_numbers fs of
        None \<Rightarrow> (fs, Inl ErrIO)
      | Some p \<Rightarrow>
          (case walk of
             None \<Rightarrow> (os_Remove p fs, Inl ErrIO)
           | Some listed \<Rightarrow>
               if \<not> io_write io p \<or> \<not> io_close io p \<or> list_ex (\<lambda>q. \<not> under varaAbs q \<and> fs q = None) listed
               then (os_Remove p fs, Inl ErrIO)
               else (fs(p \<mapsto> pack c (archive_files varaAbs rootAbs listed fs)), Inr p)))"

definition List_snapshots :: "(string \<times> bool) list option \<Rightarrow> string list" where
  "List_snapshots entries =
     (case entries of None \<Rightarrow> [] | Some es \<Rightarrow> map fst (filter (\<lambda>(n, isDir). \<not> isDir \<and> HasSuffix n ''.tar.zst'') es))"

section \<open>Restoring\<close>

text \<open>The first pass decides about every entry before anything is written: a directory has no data.\<close>

fun plan_restore :: "path \<Rightarrow> tar_entry list \<Rightarrow> verr + (path \<times> bytes option) list" where
  "plan_restore rootAbs [] = Inr []"
| "plan_restore rootAbs (e # es) =
     (let name = (case e of TarFile n _ \<Rightarrow> n | TarDir n \<Rightarrow> n | TarOther n \<Rightarrow> n);
          target = filepath_Join rootAbs name
      in if \<not> under rootAbs target then Inl (ErrMsg ''points outside the repository'')
         else case e of
           TarOther _ \<Rightarrow> Inl (ErrMsg ''is not a plain file'')
         | TarDir _ \<Rightarrow> bind_res (plan_restore rootAbs es) (\<lambda>ps. Inr ((target, None) # ps))
         | TarFile _ d \<Rightarrow> bind_res (plan_restore rootAbs es) (\<lambda>ps. Inr ((target, Some d) # ps)))"

fun write_plan :: "io \<Rightarrow> (path \<times> bytes option) list \<Rightarrow> nat \<Rightarrow> fs \<Rightarrow> fs \<times> nat \<times> verr option" where
  "write_plan io [] n fs = (fs, n, None)"
| "write_plan io ((p, None) # ps) n fs =
     (if \<not> io_mkdir io p then (fs, n, Some ErrIO) else write_plan io ps n fs)"
| "write_plan io ((p, Some d) # ps) n fs =
     (if \<not> io_mkdir io (filepath_Dir p) then (fs, n, Some ErrIO)
      else case os_WriteFile io p d fs of
        (fs1, Inl e) \<Rightarrow> (fs1, n, Some e)
      | (fs1, Inr _) \<Rightarrow> write_plan io ps (n + 1) fs1)"

definition RestoreSnapshot :: "codec \<Rightarrow> io \<Rightarrow> path \<Rightarrow> path \<Rightarrow> fs \<Rightarrow> fs \<times> nat \<times> verr option" where
  "RestoreSnapshot c io rootAbs snapPath fs =
     (case fs snapPath of
        None \<Rightarrow> (fs, 0, Some ErrIO)
      | Some data \<Rightarrow>
          (case unpack c data of
             None \<Rightarrow> (fs, 0, Some ErrIO)
           | Some (es, ok) \<Rightarrow>
               (case plan_restore rootAbs es of
                  Inl e \<Rightarrow> (fs, 0, Some e)
                | Inr ps \<Rightarrow> if \<not> ok then (fs, 0, Some ErrIO) else write_plan io ps 0 fs)))"

section \<open>What is written\<close>

lemma open_excl_fresh: "open_excl io dir name ns fs = Some p \<Longrightarrow> fs p = None"
  by (induction ns) (auto simp: Let_def split: if_splits)

lemma plan_confined: "plan_restore rootAbs es = Inr ps \<Longrightarrow> (p, d) \<in> set ps \<Longrightarrow> under rootAbs p"
proof (induction es arbitrary: ps)
  case (Cons e es)
  from Cons.prems(1) obtain qs where qs: "plan_restore rootAbs es = Inr qs" "set ps \<subseteq> insert (hd ps) (set qs)"
    by (auto simp: Let_def bind_res_eq_Inr split: if_splits tar_entry.splits)
  from Cons.prems(1) have "under rootAbs (fst (hd ps))"
    by (auto simp: Let_def bind_res_eq_Inr split: if_splits tar_entry.splits)
  with Cons.IH [OF qs(1)] qs(2) Cons.prems(2) show ?case by (metis fst_conv insertE subsetD)
qed simp

lemma write_plan_frame: "(\<And>d. (p, Some d) \<notin> set ps) \<Longrightarrow> fst (write_plan io ps n fs) p = fs p"
proof (induction io ps n fs rule: write_plan.induct)
  case (3 io q d ps n fs)
  then have "q \<noteq> p" by auto
  then have "fst (os_WriteFile io q d fs) p = fs p" by (simp add: os_WriteFile_def)
  with 3 show ?case by (auto split: prod.splits sum.splits)
qed auto

lemma write_plan_written:
  "write_plan io ps n fs = (fs', m, None) \<Longrightarrow> (p, Some d) \<in> set ps \<Longrightarrow> {d'. (p, Some d') \<in> set ps} \<subseteq> {d} \<Longrightarrow> fs' p = Some d"
proof (induction io ps n fs rule: write_plan.induct)
  case (2 io q ps n fs)
  have ok: "io_mkdir io q" using 2(2) by (rule contrapos_pp) simp
  then have "write_plan io ps n fs = (fs', m, None)" using 2(2) by simp
  from 2(1) [OF _ this] ok 2(3,4) show ?case by simp
next
  case (3 io q e ps n fs)
  from 3(2) obtain fs1 where w: "os_WriteFile io q e fs = (fs1, Inr ())" "write_plan io ps (n + 1) fs1 = (fs', m, None)" "io_mkdir io (filepath_Dir q)"
    by (auto split: if_splits prod.splits sum.splits)
  show ?case
  proof (cases "\<exists>d'. (p, Some d') \<in> set ps")
    case True
    then have "(p, Some d) \<in> set ps" using 3(4) by auto
    with 3(1) [OF _ w(1) [symmetric] refl w(2)] 3(4) w(3) show ?thesis by auto
  next
    case False
    then have "q = p" "e = d" using 3(3) by auto
    moreover have "fs' p = fs1 p" using write_plan_frame [of p ps io "n + 1" fs1] False w(2) by simp
    ultimately show ?thesis using w(1) by (auto simp: os_WriteFile_def split: if_splits)
  qed
qed simp

text \<open>What the walk of a directory gives: its files, once each.\<close>

definition walk_ok :: "path \<Rightarrow> path list option \<Rightarrow> fs \<Rightarrow> bool" where
  "walk_ok rootAbs walk fs \<longleftrightarrow> (\<forall>listed. walk = Some listed \<longrightarrow>
     (\<forall>p. p \<in> set listed \<longleftrightarrow> fs p \<noteq> None \<and> HasPrefix p (rootAbs @ ''/'')) \<and> (\<forall>p \<in> set listed. filepath_Clean p = p))"

lemma Join_rel:
  assumes "HasPrefix p (rootAbs @ ''/'')" "filepath_Clean p = p" "rootAbs \<noteq> []"
  shows "filepath_Join rootAbs (drop (length rootAbs + 1) p) = p"
  using assms by (auto simp: HasPrefix_iff filepath_Join_def)

lemma plan_of_files:
  assumes "\<forall>p \<in> set ps. HasPrefix p (rootAbs @ ''/'') \<and> filepath_Clean p = p" "rootAbs \<noteq> []"
  shows "plan_restore rootAbs (map (\<lambda>(n, d). TarFile n d) (map (\<lambda>p. (drop (length rootAbs + 1) p, the (fs p))) ps))
    = Inr (map (\<lambda>p. (p, Some (the (fs p)))) ps)"
  using assms
proof (induction ps)
  case (Cons p ps)
  then have j: "filepath_Join rootAbs (drop (length rootAbs + 1) p) = p" using Join_rel by simp
  with Cons show ?case by (simp add: Let_def under_def del: drop_Suc)
qed simp

section \<open>Properties\<close>

text \<open>A snapshot brings back the working directory. Once \<^verbatim>\<open>Create\<close> has returned, and as long as the archive stays as it is, a
  successful restore puts back every file that was under the root outside \<^verbatim>\<open>.vara\<close> with its contents, whatever happened to it since, and
  changes no other file.\<close>

theorem snapshot_restores:
  assumes "Create_snapshot c io walk timestamp varaAbs rootAbs command commitHex fs = (fs1, Inr snapPath)"
    and "codec_ok c" "walk_ok rootAbs walk fs" "rootAbs \<noteq> []"
    and "fs2 snapPath = fs1 snapPath" "RestoreSnapshot c io' rootAbs snapPath fs2 = (fs3, n, None)"
  shows "fs3 p = (if HasPrefix p (rootAbs @ ''/'') \<and> \<not> under varaAbs p \<and> fs p \<noteq> None then fs p else fs2 p)"
proof -
  obtain listed where l: "walk = Some listed" "fs1 snapPath = Some (pack c (archive_files varaAbs rootAbs listed fs))"
    using assms(1) by (auto simp: Create_snapshot_def Let_def split: if_splits option.splits)
  let ?ps = "filter (\<lambda>p. \<not> under varaAbs p) listed"
  have ps: "p \<in> set ?ps \<longleftrightarrow> fs p \<noteq> None \<and> HasPrefix p (rootAbs @ ''/'') \<and> \<not> under varaAbs p" for p
    using assms(3) l(1) by (auto simp: walk_ok_def)
  have "\<forall>p \<in> set ?ps. HasPrefix p (rootAbs @ ''/'') \<and> filepath_Clean p = p" using assms(3) l(1) by (auto simp: walk_ok_def)
  note plan = plan_of_files [OF this assms(4), of fs]
  let ?w = "map (\<lambda>p. (p, Some (the (fs p)))) ?ps"
  have w: "write_plan io' ?w 0 fs2 = (fs3, n, None)"
    using assms(2,5,6) l(2) plan by (simp add: RestoreSnapshot_def codec_ok_def archive_files_def)
  show ?thesis
  proof (cases "p \<in> set ?ps")
    case True
    have "fs3 p = Some (the (fs p))" by (rule write_plan_written [OF w]) (use True in auto)
    with True ps show ?thesis by (auto simp: ps)
  next
    case False
    have "fst (write_plan io' ?w 0 fs2) p = fs2 p" by (rule write_plan_frame) (use False in auto)
    with w False ps show ?thesis by auto
  qed
qed

text \<open>A restore stays inside the repository: whatever bytes are in the archive, a file outside the root is not touched, and an archive with an
  entry that would land outside, or one that breaks off, changes nothing at all.\<close>

theorem restore_confined:
  assumes "RestoreSnapshot c io rootAbs snapPath fs = (fs', n, r)" "\<not> under rootAbs p"
  shows "fs' p = fs p"
proof -
  consider "fs' = fs" | es ps where "plan_restore rootAbs es = Inr ps" "write_plan io ps 0 fs = (fs', n, r)"
    using assms(1) by (auto simp: RestoreSnapshot_def split: option.splits sum.splits if_splits)
  then show ?thesis
  proof cases
    case (2 es ps)
    have "fst (write_plan io ps 0 fs) p = fs p" by (rule write_plan_frame) (use plan_confined [OF 2(1)] assms(2) in blast)
    with 2(2) show ?thesis by simp
  qed simp
qed


section \<open>A sample\<close>

text \<open>A simple archive format, where every character of a string is marked and the string ends with a mark.\<close>

definition mark_string :: "string \<Rightarrow> bytes" where
  "mark_string s = concat (map (\<lambda>c. [CHR ''x'', c]) s) @ ''e''"

fun unmark :: "bytes \<Rightarrow> (string \<times> bytes) option" where
  "unmark (a # bs) =
     (if a = CHR ''e'' then Some ([], bs)
      else case bs of [] \<Rightarrow> None | c # rest \<Rightarrow> map_option (\<lambda>(s, r). (c # s, r)) (unmark rest))"
| "unmark [] = None"

fun unpack_marked :: "nat \<Rightarrow> bytes \<Rightarrow> tar_entry list \<times> bool" where
  "unpack_marked 0 bs = ([], bs = [])"
| "unpack_marked (Suc n) bs =
     (if bs = [] then ([], True)
      else case unmark bs of
        None \<Rightarrow> ([], False)
      | Some (name, r) \<Rightarrow>
          (case unmark r of None \<Rightarrow> ([], False)
           | Some (d, r') \<Rightarrow> (case unpack_marked n r' of (es, ok) \<Rightarrow> (TarFile name d # es, ok))))"

definition marked_codec :: codec where
  "marked_codec = \<lparr>pack = (\<lambda>fs. concat (map (\<lambda>(n, d). mark_string n @ mark_string d) fs)), unpack = (\<lambda>bs. Some (unpack_marked (length bs) bs))\<rparr>"

lemma unmark_mark: "unmark (mark_string s @ r) = Some (s, r)"
  by (induction s) (auto simp: mark_string_def)

lemma unpack_marked_pack:
  "length (concat (map (\<lambda>(n, d). mark_string n @ mark_string d) fs)) \<le> k \<Longrightarrow>
   unpack_marked k (concat (map (\<lambda>(n, d). mark_string n @ mark_string d) fs)) = (map (\<lambda>(n, d). TarFile n d) fs, True)"
proof (induction fs arbitrary: k)
  case Nil
  then show ?case by (cases k) simp_all
next
  case (Cons f fs)
  obtain n d where f: "f = (n, d)" by fastforce
  have ne: "mark_string n \<noteq> []" "0 < length (mark_string n)" by (simp_all add: mark_string_def)
  from Cons.prems f have len: "length (mark_string n) + length (concat (map (\<lambda>(n, d). mark_string n @ mark_string d) fs)) \<le> k" by simp
  define k' where "k' = k - 1"
  have k: "k = Suc k'" "length (concat (map (\<lambda>(n, d). mark_string n @ mark_string d) fs)) \<le> k'"
    using len ne(2) unfolding k'_def by linarith+
  from Cons.IH [OF k(2)] ne show ?case by (simp add: f k(1) unmark_mark)
qed

lemma marked_codec_ok: "codec_ok marked_codec"
  unfolding codec_ok_def marked_codec_def by (simp add: unpack_marked_pack)

lemma open_first:
  assumes "fs (filepath_Join dir (name 1)) = None" "io_open io (filepath_Join dir (name 1))"
  shows "open_excl io dir name snap_numbers fs = Some (filepath_Join dir (name 1))"
  unfolding snap_numbers_def by (subst open_excl.simps) (use assms in \<open>simp add: Let_def\<close>)

theorem snapshot_restores_witness:
  "\<exists>fs1 p fs3. Create_snapshot marked_codec io_ok (Some [''/r/a'']) ''t'' ''/r/.vara'' ''/r'' ''switch'' ''c'' [''/r/a'' \<mapsto> ''hi''] = (fs1, Inr p)
     \<and> RestoreSnapshot marked_codec io_ok ''/r'' p (fs1(''/r/a'' := None)) = (fs3, 1, None) \<and> fs3 ''/r/a'' = Some ''hi''"
proof -
  let ?fs = "[''/r/a'' \<mapsto> ''hi''] :: fs"
  let ?p = "''/r/.vara/snapshots/snap-t-switch-c.tar.zst''"
  have paths: "filepath_Join ''/r/.vara'' ''snapshots'' = ''/r/.vara/snapshots''"
    "filepath_Join ''/r/.vara/snapshots'' (snap_name ''t'' ''switch'' ''c'' 1) = ?p" "filepath_Clean ''/r/a'' = ''/r/a''"
    "\<not> under ''/r/.vara'' ''/r/a''" "under ''/r'' ''/r/a''" "HasPrefix ''/r/a'' ''/r/''"
    "filepath_Join ''/r'' ''a'' = ''/r/a''"
    by code_simp+
  have "open_excl io_ok ''/r/.vara/snapshots'' (snap_name ''t'' ''switch'' ''c'') snap_numbers ?fs = Some ?p"
    using open_first [of ?fs "''/r/.vara/snapshots''" "snap_name ''t'' ''switch'' ''c''" io_ok] paths(2) by (simp add: io_ok_def)
  then obtain fs1 where c: "Create_snapshot marked_codec io_ok (Some [''/r/a'']) ''t'' ''/r/.vara'' ''/r'' ''switch'' ''c'' ?fs = (fs1, Inr ?p)"
    and arch: "fs1 ?p = Some (pack marked_codec [(''a'', ''hi'')])"
    using paths by (simp add: Create_snapshot_def Let_def io_ok_def archive_files_def)
  have w: "walk_ok ''/r'' (Some [''/r/a'']) ?fs" using paths by (auto simp: walk_ok_def)
  let ?fs2 = "fs1(''/r/a'' := None)"
  have "unpack marked_codec (pack marked_codec [(''a'', ''hi'')]) = Some ([TarFile ''a'' ''hi''], True)"
    using marked_codec_ok by (simp add: codec_ok_def)
  then obtain fs3 where r: "RestoreSnapshot marked_codec io_ok ''/r'' ?p ?fs2 = (fs3, 1, None)"
    using arch paths by (simp add: RestoreSnapshot_def Let_def io_ok_def os_WriteFile_def)
  have "fs3 ''/r/a'' = Some ''hi''"
    using snapshot_restores [OF c marked_codec_ok w _ _ r, of "''/r/a''"] paths by simp
  with c r show ?thesis by blast
qed

theorem restore_confined_witness:
  "\<exists>fs' n. RestoreSnapshot \<lparr>pack = \<lambda>_. [], unpack = \<lambda>_. Some ([TarFile ''../evil'' ''x''], True)\<rparr> io_ok ''/r'' ''/s'' [''/s'' \<mapsto> [], ''/evil'' \<mapsto> ''y''] = (fs', n, Some (ErrMsg ''points outside the repository''))
     \<and> fs' ''/evil'' = Some ''y''"
proof -
  have u: "\<not> under ''/r'' (filepath_Join ''/r'' ''../evil'')" "\<not> under ''/r'' ''/evil''" by code_simp+
  let ?R = "RestoreSnapshot \<lparr>pack = \<lambda>_. [], unpack = \<lambda>_. Some ([TarFile ''../evil'' ''x''], True)\<rparr> io_ok ''/r'' ''/s'' [''/s'' \<mapsto> [], ''/evil'' \<mapsto> ''y'']"
  obtain fs' n where r: "?R = (fs', n, Some (ErrMsg ''points outside the repository''))" using u(1) by (simp add: RestoreSnapshot_def Let_def)
  from restore_confined [OF r u(2)] r show ?thesis by auto
qed

end
