(* ===== verification/Command_Base.thy ===== *)
theory Command_Base
  imports Merge_State Worktree Tree_Build Transactions Snapshots Graph_Index
begin

text \<open>
  What the commands of \<^verbatim>\<open>internal/commands\<close> share: the context of a command (\<^verbatim>\<open>context.go\<close>), the state it works on, the transaction around it, and the
  helpers that read trees, check them out, and write the index, the references and the reflog. The state is
  the disk, the index in memory (\<^verbatim>\<open>ctx.Index\<close>), and the locks and journals of \<open>Transactions\<close>. A command that does not return
  is \<open>None\<close>; an error or a panic of Go is a value.
\<close>

section \<open>Environment and state\<close>

text \<open>The outcomes of the system calls, the clock and the identity are fixed for one command. \<open>x_json\<close> and \<open>x_unjson\<close> are the codec of the conflict record,
  \<open>x_visits\<close> and \<open>x_walk\<close> what the walks of the working directory see, \<open>x_mtime\<close> the modification time of a file just written, \<open>x_depth\<close> the fuel for the descent into
  trees, \<open>x_author\<close> the configured identity.\<close>

record cmd_env =
  x_root :: path
  x_vara :: path
  x_zstd :: zstd
  x_io :: io
  x_retries :: nat
  x_rm :: "path \<Rightarrow> bool"
  x_depth :: nat
  x_mtime :: "path \<Rightarrow> u64"
  x_now :: int
  x_stamp :: u64
  x_author :: "string option"
  x_actor :: string
  x_ord :: "string set \<Rightarrow> string list"
  x_json :: "MState \<Rightarrow> bytes option"
  x_unjson :: "bytes \<Rightarrow> MState option"
  x_visits :: "fs \<Rightarrow> (string \<times> bool) list option"
  x_walk :: "fs \<Rightarrow> path list option"
  x_codec :: codec
  x_avail :: "string \<Rightarrow> bool"
  x_flush :: "State \<Rightarrow> bool"
  x_pid :: pid
  x_txid :: string
  x_timestamp :: string

record rstate =
  r_fs :: fs
  r_idx :: Index
  r_w :: "locks \<times> journals"
  r_txn :: Transaction

datatype cmd_error = CErr string | CPanic

type_synonym 'a cmd = "rstate \<Rightarrow> (rstate \<times> (cmd_error + 'a)) option"

definition cret :: "'a \<Rightarrow> 'a cmd" where "cret a s = Some (s, Inr a)"

definition cfail :: "string \<Rightarrow> 'a cmd" where "cfail m s = Some (s, Inl (CErr m))"

definition cbind :: "'a cmd \<Rightarrow> ('a \<Rightarrow> 'b cmd) \<Rightarrow> 'b cmd" where
  "cbind m f s = (case m s of None \<Rightarrow> None | Some (s1, Inl e) \<Rightarrow> Some (s1, Inl e) | Some (s1, Inr a) \<Rightarrow> f a s1)"

text \<open>An operation on the disk: with its error reported, and with its error ignored.\<close>

definition on_fs :: "string \<Rightarrow> (fs \<Rightarrow> fs \<times> ('e + 'a)) \<Rightarrow> 'a cmd" where
  "on_fs m f s =
     (case f (r_fs s) of
        (fs', Inl _) \<Rightarrow> Some (s\<lparr>r_fs := fs'\<rparr>, Inl (CErr m))
      | (fs', Inr a) \<Rightarrow> Some (s\<lparr>r_fs := fs'\<rparr>, Inr a))"

definition quietly :: "(fs \<Rightarrow> fs) \<Rightarrow> unit cmd" where
  "quietly f s = Some (s\<lparr>r_fs := f (r_fs s)\<rparr>, Inr ())"

definition reading :: "string \<Rightarrow> (fs \<Rightarrow> 'e + 'a) \<Rightarrow> 'a cmd" where
  "reading m f s = Some (s, case f (r_fs s) of Inl _ \<Rightarrow> Inl (CErr m) | Inr a \<Rightarrow> Inr a)"

definition get_state :: "rstate cmd" where "get_state s = Some (s, Inr s)"

definition put_index :: "Index \<Rightarrow> unit cmd" where "put_index idx s = Some (s\<lparr>r_idx := idx\<rparr>, Inr ())"

definition cwhen :: "bool \<Rightarrow> unit cmd \<Rightarrow> unit cmd" where
  "cwhen b m = (if b then m else cret ())"

section \<open>Reading\<close>

definition x_store :: "cmd_env \<Rightarrow> Store" where "x_store x = NewStore (x_vara x)"

definition x_read :: "cmd_env \<Rightarrow> fs \<Rightarrow> reader" where
  "x_read x fs = Store_Read (x_zstd x) (x_store x) fs"

definition x_refs :: "cmd_env \<Rightarrow> FSResolver" where "x_refs x = \<lparr>VaraDir = x_vara x\<rparr>"

definition x_logs :: "cmd_env \<Rightarrow> LogManager" where "x_logs x = \<lparr>log_VaraDir = x_vara x\<rparr>"

definition wpath :: "cmd_env \<Rightarrow> string \<Rightarrow> path" where "wpath x p = filepath_Join (x_root x) p"

definition resolve :: "cmd_env \<Rightarrow> string \<Rightarrow> (ref_error + CommitID) cmd" where
  "resolve x name s = map_option (\<lambda>r. (s, Inr r)) (Resolve_ref (x_refs x) (r_fs s) name)"

definition symbolic :: "cmd_env \<Rightarrow> string \<Rightarrow> (ref_error + string) cmd" where
  "symbolic x name s = Some (s, Inr (ResolveSymbolic (x_refs x) (r_fs s) name))"

definition commitTree :: "cmd_env \<Rightarrow> CommitID \<Rightarrow> fs \<Rightarrow> verr + TreeID" where
  "commitTree x c fs = bind_res (readCommit (x_read x fs) c) (\<lambda>co. Inr (TreeHash co))"

definition blobContent :: "cmd_env \<Rightarrow> BlobID \<Rightarrow> fs \<Rightarrow> verr + bytes" where
  "blobContent x b fs = readBlobObj (x_read x fs) b"

definition treeBlobs :: "cmd_env \<Rightarrow> TreeID \<Rightarrow> file_map cmd" where
  "treeBlobs x t s =
     (case collectFiles (x_depth x) (x_read x (r_fs s)) t [] Map.empty of
        None \<Rightarrow> None
      | Some (_, Some _) \<Rightarrow> Some (s, Inl (CErr ''read tree''))
      | Some (m, None) \<Rightarrow> Some (s, Inr m))"

definition parseBlobID :: "string \<Rightarrow> BlobID option" where
  "parseBlobID h = (if h = [] then None else case ParseHex h of Inl _ \<Rightarrow> None | Inr i \<Rightarrow> Some i)"

section \<open>Writing\<close>

definition atomicWriteFile :: "cmd_env \<Rightarrow> path \<Rightarrow> bytes \<Rightarrow> fs \<Rightarrow> fs \<times> (verr + unit)" where
  "atomicWriteFile x p content fs =
     (case WriteFile (x_io x) (x_retries x) (p @ ''.tmp'') p content fs of (tr, r) \<Rightarrow> (last tr, r))"

definition index_file :: "cmd_env \<Rightarrow> path" where "index_file x = filepath_Join (x_vara x) ''index''"

definition ctx_writeIndex :: "cmd_env \<Rightarrow> unit cmd" where
  "ctx_writeIndex x s = on_fs ''write index'' (atomicWriteFile x (index_file x) (Index_Serialize (r_idx s))) s"

definition head_file :: "cmd_env \<Rightarrow> path" where "head_file x = filepath_Join (x_vara x) ''HEAD''"

definition update_ref :: "cmd_env \<Rightarrow> string \<Rightarrow> CommitID \<Rightarrow> unit cmd" where
  "update_ref x name c s =
     (case Update_ref (x_io x) (x_retries x) (x_refs x) name c (r_fs s) of
        None \<Rightarrow> None
      | Some (fs', Inl _) \<Rightarrow> Some (s\<lparr>r_fs := fs'\<rparr>, Inl (CErr ''update ref''))
      | Some (fs', Inr _) \<Rightarrow> Some (s\<lparr>r_fs := fs'\<rparr>, Inr ()))"

definition advanceRef :: "cmd_env \<Rightarrow> CommitID \<Rightarrow> unit cmd" where
  "advanceRef x c =
     cbind (symbolic x ''HEAD'') (\<lambda>r.
       case r of
         Inl _ \<Rightarrow> on_fs ''update HEAD'' (atomicWriteFile x (head_file x) (BaseID_String c @ [LF]))
       | Inr ref \<Rightarrow> update_ref x ref c)"

definition log_append :: "cmd_env \<Rightarrow> string \<Rightarrow> CommitID \<Rightarrow> CommitID \<Rightarrow> string \<Rightarrow> fs \<Rightarrow> fs \<times> (verr + unit)" where
  "log_append x ref old new msg fs = Reflog_Append (x_io x) (x_now x) (x_logs x) ref old new (x_actor x) msg fs"

definition appendReflog :: "cmd_env \<Rightarrow> CommitID \<Rightarrow> CommitID \<Rightarrow> string \<Rightarrow> unit cmd" where
  "appendReflog x old new msg =
     cbind (quietly (\<lambda>fs. fst (log_append x ''HEAD'' old new msg fs))) (\<lambda>_.
     cbind (symbolic x ''HEAD'') (\<lambda>r.
       case r of Inl _ \<Rightarrow> cret () | Inr ref \<Rightarrow> quietly (\<lambda>fs. fst (log_append x ref old new msg fs))))"

definition snapshot :: "cmd_env \<Rightarrow> string \<Rightarrow> string \<Rightarrow> unit cmd" where
  "snapshot x command hex =
     quietly (\<lambda>fs. fst (Create_snapshot (x_codec x) (x_io x) (x_walk x fs) (x_timestamp x) (x_vara x) (x_root x) command hex fs))"

section \<open>Checkout\<close>

fun co_tree :: "nat \<Rightarrow> cmd_env \<Rightarrow> ObjectID \<Rightarrow> string \<Rightarrow> fs \<times> Entry list \<Rightarrow> ((fs \<times> Entry list) \<times> (verr + unit)) option"
and co_entries :: "nat \<Rightarrow> cmd_env \<Rightarrow> TreeEntry list \<Rightarrow> string \<Rightarrow> fs \<times> Entry list \<Rightarrow> ((fs \<times> Entry list) \<times> (verr + unit)) option"
where
  "co_tree 0 x t prefix st = None"
| "co_tree (Suc n) x t prefix st =
     (case readTree (x_read x (fst st)) t of
        Inl e \<Rightarrow> Some (st, Inl e)
      | Inr es \<Rightarrow> co_entries n x es prefix st)"
| "co_entries n x [] prefix st = Some (st, Inr ())"
| "co_entries n x (e # es) prefix st =
     (let p = prefix @ te_Name e; a = wpath x p in
      if te_Mode e = modeSubtree then
        (if \<not> io_mkdir (x_io x) a then Some (st, Inl ErrIO)
         else case co_tree n x (te_Hash e) (p @ ''/'') st of
           None \<Rightarrow> None
         | Some (st', Inl err) \<Rightarrow> Some (st', Inl err)
         | Some (st', Inr _) \<Rightarrow> co_entries n x es prefix st')
      else case readBlobObj (x_read x (fst st)) (te_Hash e) of
             Inl err \<Rightarrow> Some (st, Inl err)
           | Inr data \<Rightarrow>
               if \<not> io_mkdir (x_io x) (filepath_Dir a) then Some (st, Inl ErrIO)
               else (case os_WriteFile (x_io x) a data (fst st) of
                  (fs1, Inl err) \<Rightarrow> Some ((fs1, snd st), Inl err)
                | (fs1, Inr _) \<Rightarrow>
                    co_entries n x es prefix
                      (fs1, snd st @ [\<lparr>Fingerprint = x_mtime x a, ie_ObjectID = te_Hash e, ie_State = StateUnmodified, ie_Path = p\<rparr>])))"

text \<open>The checkout of a tree into a new index, which is returned.\<close>

definition checkout_new :: "cmd_env \<Rightarrow> TreeID \<Rightarrow> Index cmd" where
  "checkout_new x t s =
     (case co_tree (x_depth x) x t [] (r_fs s, []) of
        None \<Rightarrow> None
      | Some ((fs', es), Inl _) \<Rightarrow> Some (s\<lparr>r_fs := fs'\<rparr>, Inl (CErr ''checkout''))
      | Some ((fs', es), Inr _) \<Rightarrow> Some (s\<lparr>r_fs := fs'\<rparr>, Inr \<lparr>Entries = es\<rparr>))"

definition collectIndexPaths :: "Index \<Rightarrow> string set" where
  "collectIndexPaths idx = ie_Path ` set (Entries idx)"

text \<open>The loop that removes the files of the old index that the new one does not have; failures are ignored.\<close>

definition remove_stale :: "cmd_env \<Rightarrow> string list \<Rightarrow> unit cmd" where
  "remove_stale x ps = quietly (\<lambda>fs. fold (\<lambda>p fs. fst (remove_file (x_rm x) (wpath x p) fs)) ps fs)"

section \<open>Transactions\<close>

text \<open>\<^verbatim>\<open>transaction.Begin\<close> with the deferred \<^verbatim>\<open>Rollback\<close>, which runs however the command ends.\<close>

definition with_txn :: "cmd_env \<Rightarrow> string \<Rightarrow> 'a cmd \<Rightarrow> 'a cmd" where
  "with_txn x command body s =
     (case Begin_txn (x_avail x) (io_mkdir (x_io x) (filepath_Join (x_vara x) ''journal'')) (x_flush x StateBegin) (x_pid x) (x_vara x) (x_txid x)
             command [NameRefs, NameIndex] (r_w s) of
        (w, Inl _) \<Rightarrow> Some (s\<lparr>r_w := w\<rparr>, Inl (CErr ''begin''))
      | (w, Inr t) \<Rightarrow>
          (case body (s\<lparr>r_w := w, r_txn := t\<rparr>) of
             None \<Rightarrow> None
           | Some (s1, r) \<Rightarrow>
               (case Rollback_txn (x_flush x StateFailed) (r_txn s1) (r_w s1) of
                  (t', w') \<Rightarrow> Some (s1\<lparr>r_txn := t', r_w := w'\<rparr>, r))))"

definition set_state :: "cmd_env \<Rightarrow> State \<Rightarrow> unit cmd" where
  "set_state x st s =
     (case SetState (x_flush x st) st (r_txn s) (snd (r_w s)) of
        (t, js, Inl _) \<Rightarrow> Some (s\<lparr>r_txn := t, r_w := (fst (r_w s), js)\<rparr>, Inl (CErr ''journal''))
      | (t, js, Inr _) \<Rightarrow> Some (s\<lparr>r_txn := t, r_w := (fst (r_w s), js)\<rparr>, Inr ()))"

definition track_ref :: "string \<Rightarrow> string \<Rightarrow> unit cmd" where
  "track_ref name hex s = Some (s\<lparr>r_txn := TrackRef name hex (r_txn s)\<rparr>, Inr ())"

definition commit_txn :: "cmd_env \<Rightarrow> unit cmd" where
  "commit_txn x s =
     (case Commit_txn (x_flush x StateComplete) (r_txn s) (r_w s) of
        (t, w, Inl _) \<Rightarrow> Some (s\<lparr>r_txn := t, r_w := w\<rparr>, Inl (CErr ''commit transaction''))
      | (t, w, Inr _) \<Rightarrow> Some (s\<lparr>r_txn := t, r_w := w\<rparr>, Inr ()))"


section \<open>Paths below the repository directory\<close>

definition clean_dir :: "path \<Rightarrow> bool" where
  "clean_dir d \<longleftrightarrow> HasPrefix d ''/'' \<and> filepath_Clean d = d \<and> d \<noteq> ''/''"

definition plain_name :: "string \<Rightarrow> bool" where
  "plain_name n \<longleftrightarrow> list_all (\<lambda>c. c \<noteq> [] \<and> c \<noteq> ''.'' \<and> c \<noteq> ''..'') (Split n (CHR ''/''))"

lemma Join_plain:
  assumes "clean_dir d" "plain_name n"
  shows "filepath_Join d n = d @ ''/'' @ n"
proof -
  let ?ps = "clean_parts True [] (Split d (CHR ''/''))"
  have d: "d = ''/'' @ Join ?ps ''/''" "d \<noteq> []" "HasPrefix (d @ ''/'' @ n) ''/''" and ne: "?ps \<noteq> []"
    using assms(1) by (auto simp: clean_dir_def filepath_Clean_def Let_def HasPrefix_iff split: if_splits)
  have n: "''..'' \<notin> set (Split n (CHR ''/''))" "filter (\<lambda>c. c \<noteq> '''' \<and> c \<noteq> ''.'') (Split n (CHR ''/'')) = Split n (CHR ''/'')"
    using assms(2) by (auto simp: plain_name_def list_all_iff filter_id_conv)
  have "clean_parts True [] (Split (d @ ''/'' @ n) (CHR ''/'')) = ?ps @ Split n (CHR ''/'')"
    using Split_append_sep [of d "CHR ''/''" n] clean_parts_plain [OF n(1)] n(2) by (simp add: clean_parts_append)
  then have "filepath_Join d n = ''/'' @ Join (?ps @ Split n (CHR ''/'')) ''/''"
    using d(2,3) by (simp add: filepath_Join_def filepath_Clean_def Let_def)
  also have "\<dots> = ''/'' @ Join ?ps ''/'' @ ''/'' @ n"
    using Join_append [OF ne Split_nonempty] Join_Split by simp
  also have "\<dots> = d @ ''/'' @ n" using d(1) by simp
  finally show ?thesis .
qed


section \<open>What a checkout leaves\<close>

text \<open>The inputs of the merge engine that the same context gives.\<close>

definition engine :: "cmd_env \<Rightarrow> CommitID \<Rightarrow> CommitID \<Rightarrow> string \<Rightarrow> string \<Rightarrow> Inputs" where
  "engine x our their ourLabel theirLabel =
     \<lparr>in_zstd = x_zstd x, in_io = x_io x, in_rm = x_rm x, in_VaraDir = x_vara x, in_RootDir = x_root x,
      OurCommit = our, TheirCommit = their, OurLabel = ourLabel, TheirLabel = theirLabel\<rparr>"

lemma engine_simps [simp]:
  "reader_at (engine x a b l m) fs = x_read x fs" "absPath (engine x a b l m) = wpath x" "in_io (engine x a b l m) = x_io x"
  "in_store (engine x a b l m) = x_store x"
  by (simp_all add: engine_def reader_at_def in_store_def absPath_def x_read_def x_store_def wpath_def fun_eq_iff)

definition outside :: "cmd_env \<Rightarrow> string \<Rightarrow> bool" where
  "outside x p \<longleftrightarrow> \<not> under (x_vara x) (wpath x p)"

lemma object_under: "under (x_vara x) (object_path (x_store x) i)"
  by (simp add: under_def HasPrefix_iff object_path_def shard_dir_def x_store_def NewStore_def)

lemma outside_outside_store: "outside x p \<Longrightarrow> outside_store (engine x a b l m) p"
  using object_under [of x] by (auto simp: outside_def outside_store_def)

abbreviation coState :: "fs \<Rightarrow> mstate" where
  "coState fs \<equiv> \<lparr>mg_fs = fs, mg_idx = New\<rparr>"

abbreviation eng :: "cmd_env \<Rightarrow> Inputs" where
  "eng x \<equiv> engine x 0 0 [] []"

text \<open>The file map that a list of entries adds up to.\<close>

definition noted :: "Entry list \<Rightarrow> file_map \<Rightarrow> file_map" where
  "noted es w = fold (\<lambda>e m. m(ie_Path e \<mapsto> ie_ObjectID e)) es w"

lemma noted_simps [simp]:
  "noted [] w = w" "noted (e # es) w = noted es (w(ie_Path e \<mapsto> ie_ObjectID e))" "noted (es @ es') w = noted es' (noted es w)"
  by (simp_all add: noted_def)

lemma co_ok:
  shows "co_tree n x t prefix st = Some (st', Inr ()) \<Longrightarrow> checked_out (eng x) rd D w (coState (fst st)) \<Longrightarrow>
      \<forall>q h. file_at rd t q h \<longrightarrow> prefix @ q \<in> D \<Longrightarrow> \<forall>p \<in> D. outside x p \<Longrightarrow> inj_on (wpath x) D \<Longrightarrow>
      \<exists>w' new. collectFiles n rd t prefix w = Some (w', None) \<and> checked_out (eng x) rd D w' (coState (fst st')) \<and>
        snd st' = snd st @ new \<and> w' = noted new w \<and>
        (\<forall>e \<in> set new. ie_State e = StateUnmodified \<and> (\<exists>q. ie_Path e = prefix @ q \<and> file_at rd t q (ie_ObjectID e))) \<and>
        (\<forall>a. a \<notin> wpath x ` D \<longrightarrow> fst st' a = fst st a)"
    and "co_entries n x es prefix st = Some (st', Inr ()) \<Longrightarrow> checked_out (eng x) rd D w (coState (fst st)) \<Longrightarrow>
      \<forall>q h. entry_at rd es q h \<longrightarrow> prefix @ q \<in> D \<Longrightarrow> \<forall>p \<in> D. outside x p \<Longrightarrow> inj_on (wpath x) D \<Longrightarrow>
      \<exists>w' new. collect_entries n rd es prefix w = Some (w', None) \<and> checked_out (eng x) rd D w' (coState (fst st')) \<and>
        snd st' = snd st @ new \<and> w' = noted new w \<and>
        (\<forall>e \<in> set new. ie_State e = StateUnmodified \<and> (\<exists>q. ie_Path e = prefix @ q \<and> entry_at rd es q (ie_ObjectID e))) \<and>
        (\<forall>a. a \<notin> wpath x ` D \<longrightarrow> fst st' a = fst st a)"
proof (induction n x t prefix st and n x es prefix st arbitrary: w st' and w st' rule: co_tree_co_entries.induct)
  case (2 n x t prefix st)
  have rd: "x_read x (fst st) = rd" using "2.prems"(2) by (simp add: checked_out_def)
  with "2.prems"(1) obtain es where es: "readTree rd t = Inr es" "co_entries n x es prefix st = Some (st', Inr ())"
    by (auto split: sum.splits)
  have f: "entry_at rd es q h \<longleftrightarrow> file_at rd t q h" for q h using es(1) by (auto simp: file_at_entry readTree_iff)
  then have "\<forall>q h. entry_at rd es q h \<longrightarrow> prefix @ q \<in> D" using "2.prems"(3) by simp
  from "2.IH" [OF es(1) [folded rd] es(2) "2.prems"(2) this "2.prems"(4,5)] es(1) show ?case by (simp add: f)
next
  case (3 n x prefix st)
  then show ?case by (intro exI [of _ w] exI [of _ "[]"]) simp
next
  case (4 n x e es prefix st)
  let ?p = "prefix @ te_Name e"
  have rd: "x_read x (fst st) = rd" using "4.prems"(2) by (simp add: checked_out_def)
  have rest: "\<forall>q h. entry_at rd es q h \<longrightarrow> prefix @ q \<in> D" using "4.prems"(3) entry_at_mono by blast
  show ?case
  proof (cases "te_Mode e = modeSubtree")
    case True
    have mk: "io_mkdir (x_io x) (wpath x ?p)" using "4.prems"(1) True by (auto simp: Let_def split: if_splits)
    with "4.prems"(1) True obtain st1 where c: "co_tree n x (te_Hash e) (?p @ ''/'') st = Some (st1, Inr ())"
        "co_entries n x es prefix st1 = Some (st', Inr ())"
      by (auto simp: Let_def split: option.splits sum.splits)
    have "\<forall>q h. file_at rd (te_Hash e) q h \<longrightarrow> (?p @ ''/'') @ q \<in> D"
      using "4.prems"(3) True by (auto simp: entry_at_Cons)
    from "4.IH"(1) [OF refl refl True _ c(1) "4.prems"(2) this "4.prems"(4,5)] mk
    obtain w1 new1 where w1: "collectFiles n rd (te_Hash e) (?p @ ''/'') w = Some (w1, None)" "checked_out (eng x) rd D w1 (coState (fst st1))"
      "snd st1 = snd st @ new1" "w1 = noted new1 w"
      "\<forall>e' \<in> set new1. ie_State e' = StateUnmodified \<and> (\<exists>q. ie_Path e' = (?p @ ''/'') @ q \<and> file_at rd (te_Hash e) q (ie_ObjectID e'))"
      "\<forall>a. a \<notin> wpath x ` D \<longrightarrow> fst st1 a = fst st a" by auto
    from "4.IH"(2) [OF refl refl True _ c(1) refl refl c(2) w1(2) rest "4.prems"(4,5)] mk
    obtain w2 new2 where w2: "collect_entries n rd es prefix w1 = Some (w2, None)" "checked_out (eng x) rd D w2 (coState (fst st'))"
      "snd st' = snd st1 @ new2" "w2 = noted new2 w1"
      "\<forall>e' \<in> set new2. ie_State e' = StateUnmodified \<and> (\<exists>q. ie_Path e' = prefix @ q \<and> entry_at rd es q (ie_ObjectID e'))"
      "\<forall>a. a \<notin> wpath x ` D \<longrightarrow> fst st' a = fst st1 a" by auto
    have e1: "ie_State e' = StateUnmodified \<and> (\<exists>q. ie_Path e' = prefix @ q \<and> entry_at rd (e # es) q (ie_ObjectID e'))" if inn: "e' \<in> set (new1 @ new2)" for e'
    proof -
      from inn consider "e' \<in> set new1" | "e' \<in> set new2" by auto
      then show ?thesis
      proof cases
        case 1
        with w1(5) obtain q where "ie_State e' = StateUnmodified" "ie_Path e' = prefix @ (te_Name e @ ''/'' @ q)" "file_at rd (te_Hash e) q (ie_ObjectID e')" by auto
        moreover from this True have "entry_at rd (e # es) (te_Name e @ ''/'' @ q) (ie_ObjectID e')" by (auto simp: entry_at_Cons)
        ultimately show ?thesis by blast
      next
        case 2
        with w2(5) show ?thesis using entry_at_mono by blast
      qed
    qed
    show ?thesis
      by (intro exI [of _ w2] exI [of _ "new1 @ new2"]) (use w1 w2 e1 True in \<open>simp add: collect_entries.simps Let_def\<close>)
  next
    case False
    obtain d where d: "readBlobObj rd (te_Hash e) = Inr d" using "4.prems"(1) False rd
      by (cases "readBlobObj rd (te_Hash e)") (auto simp: Let_def)
    have mk: "io_mkdir (x_io x) (filepath_Dir (wpath x ?p))" using "4.prems"(1) False rd d by (auto simp: Let_def split: if_splits)
    obtain fs1 u where f: "os_WriteFile (x_io x) (wpath x ?p) d (fst st) = (fs1, Inr u)"
      using "4.prems"(1) False rd d mk by (cases "os_WriteFile (x_io x) (wpath x ?p) d (fst st)") (auto simp: Let_def split: sum.splits)
    let ?e = "\<lparr>Fingerprint = x_mtime x (wpath x ?p), ie_ObjectID = te_Hash e, ie_State = StateUnmodified, ie_Path = ?p\<rparr>"
    have c: "co_entries n x es prefix (fs1, snd st @ [?e]) = Some (st', Inr ())" using "4.prems"(1) False rd d f mk by (simp add: Let_def)
    have en: "entry_at rd (e # es) (te_Name e) (te_Hash e)" using False by (simp add: entry_at_Cons)
    with "4.prems"(3) have pD: "?p \<in> D" by blast
    have f': "os_WriteFile (in_io (eng x)) (absPath (eng x) ?p) d (mg_fs (coState (fst st))) = (fs1, Inr u)" using f by simp
    define v where "v = w(?p \<mapsto> te_Hash e)"
    have w: "checked_out (eng x) rd D v (coState fs1)" "\<forall>a. a \<notin> wpath x ` D \<longrightarrow> fs1 a = fst st a"
      using checkout_write [OF f' _ "4.prems"(2) pD, of "te_Hash e" New] d "4.prems"(4,5) outside_outside_store [of x]
      unfolding v_def by (auto simp: readBlobObj_iff image_def)
    have rb: "readBlobObj (x_read x (fst st)) (te_Hash e) = Inr d" using d rd by simp
    from "4.IH"(3) [OF refl refl False rb _ f [symmetric] refl c _ rest "4.prems"(4,5), of v] mk w(1)
    obtain w2 new2 where w2: "collect_entries n rd es prefix v = Some (w2, None)" "checked_out (eng x) rd D w2 (coState (fst st'))"
      "snd st' = (snd st @ [?e]) @ new2" "w2 = noted new2 v"
      "\<forall>e' \<in> set new2. ie_State e' = StateUnmodified \<and> (\<exists>q. ie_Path e' = prefix @ q \<and> entry_at rd es q (ie_ObjectID e'))"
      "\<forall>a. a \<notin> wpath x ` D \<longrightarrow> fst st' a = fs1 a" by auto
    have e1: "ie_State e' = StateUnmodified \<and> (\<exists>q. ie_Path e' = prefix @ q \<and> entry_at rd (e # es) q (ie_ObjectID e'))" if "e' \<in> set (?e # new2)" for e'
      using that w2(5) en entry_at_mono by auto
    show ?thesis
      by (intro exI [of _ w2] exI [of _ "?e # new2"]) (use w2 e1 w(2) False in \<open>simp add: collect_entries.simps Let_def v_def fun_upd_def\<close>)
  qed
qed simp


lemma checkout_new_ok:
  assumes "checkout_new x t s = Some (s', Inr idx)" "names_ok (x_read x (r_fs s))"
    and D: "D = {p. \<exists>h. file_at (x_read x (r_fs s)) t p h}" "\<forall>p \<in> D. outside x p" "inj_on (wpath x) D"
  shows "index_map idx p = Some h \<longleftrightarrow> file_at (x_read x (r_fs s)) t p h" "collectIndexPaths idx = D"
    "\<forall>e \<in> set (Entries idx). ie_State e = StateUnmodified"
    "file_at (x_read x (r_fs s)) t p h \<Longrightarrow> \<exists>d. x_read x (r_fs s) h = Inr (Blob d) \<and> r_fs s' (wpath x p) = Some d"
    "a \<notin> wpath x ` D \<Longrightarrow> r_fs s' a = r_fs s a" "x_read x (r_fs s') = x_read x (r_fs s)" "s' = s\<lparr>r_fs := r_fs s'\<rparr>"
proof -
  let ?rd = "x_read x (r_fs s)"
  obtain fs' es where co: "co_tree (x_depth x) x t [] (r_fs s, []) = Some ((fs', es), Inr ())" "s' = s\<lparr>r_fs := fs'\<rparr>" "idx = \<lparr>Entries = es\<rparr>"
    using assms(1) by (auto simp: checkout_new_def split: option.splits prod.splits sum.splits)
  have "checked_out (eng x) ?rd D Map.empty (coState (fst (r_fs s, [] :: Entry list)))" by (simp add: checked_out_def on_disk_def)
  from co_ok(1) [OF co(1) this _ D(2,3)] D(1)
  obtain w new where w: "collectFiles (x_depth x) ?rd t [] Map.empty = Some (w, None)" "checked_out (eng x) ?rd D w (coState fs')"
      "es = new" "w = noted new Map.empty" "\<forall>e \<in> set new. ie_State e = StateUnmodified \<and> file_at ?rd t (ie_Path e) (ie_ObjectID e)"
      "\<forall>a. a \<notin> wpath x ` D \<longrightarrow> fs' a = r_fs s a"
    by auto
  have exact: "w p = Some h \<longleftrightarrow> file_at ?rd t p h" for p h by (rule collect_exact [OF w(1) assms(2)])
  have dom: "dom (noted es m) = dom m \<union> ie_Path ` set es" for es m by (induction es arbitrary: m) auto
  have "dom w = D" using exact D(1) by auto
  then have paths: "ie_Path ` set new = D" using dom [of new Map.empty] w(4) by simp
  have found: "index_map \<lparr>Entries = new\<rparr> p = Some h \<longleftrightarrow> file_at ?rd t p h" for p h
  proof
    assume "index_map \<lparr>Entries = new\<rparr> p = Some h"
    then show "file_at ?rd t p h" using w(5) by (auto simp: index_map_def find_Some_iff)
  next
    assume f: "file_at ?rd t p h"
    then have "p \<in> ie_Path ` set new" using D(1) by (auto simp: paths)
    then obtain e where "e \<in> set new" "ie_Path e = p" by auto
    then have "find (\<lambda>e. ie_Path e = p \<and> ie_State e \<noteq> StateDeleted) new \<noteq> None"
      using w(5) by (auto simp: find_None_iff StateUnmodified_def StateDeleted_def)
    then obtain e' where e': "find (\<lambda>e. ie_Path e = p \<and> ie_State e \<noteq> StateDeleted) new = Some e'" by blast
    moreover from e' have "e' \<in> set new" "ie_Path e' = p" by (auto simp: find_Some_iff)
    moreover from this w(5) have "file_at ?rd t p (ie_ObjectID e')" by auto
    ultimately show "index_map \<lparr>Entries = new\<rparr> p = Some h" using file_at_unique [OF f assms(2)] by (auto simp: index_map_def)
  qed
  show "index_map idx p = Some h \<longleftrightarrow> file_at ?rd t p h" using found w(3) co(3) by simp
  show "collectIndexPaths idx = D" "\<forall>e \<in> set (Entries idx). ie_State e = StateUnmodified"
    using paths w(3,5) co(3) by (auto simp: collectIndexPaths_def)
  show "\<exists>d. ?rd h = Inr (Blob d) \<and> r_fs s' (wpath x p) = Some d" if "file_at ?rd t p h"
    using w(2) exact that co(2) by (auto simp: checked_out_def on_disk_def)
  show "a \<notin> wpath x ` D \<Longrightarrow> r_fs s' a = r_fs s a" using w(6) co(2) by simp
  show "x_read x (r_fs s') = ?rd" using w(2) co(2) by (simp add: checked_out_def)
  show "s' = s\<lparr>r_fs := r_fs s'\<rparr>" using co(2) by simp
qed

section \<open>Steps that keep the working directory and the objects\<close>

definition meta :: "string \<Rightarrow> bool" where
  "meta rest \<longleftrightarrow> length rest > 2 \<and> rest ! 2 \<noteq> CHR ''/''"

definition meta_path :: "cmd_env \<Rightarrow> path \<Rightarrow> bool" where
  "meta_path x a \<longleftrightarrow> (\<exists>rest. a = x_vara x @ ''/'' @ rest \<and> meta rest)"

lemma meta_append: "meta r \<Longrightarrow> meta (r @ r')"
  by (auto simp: meta_def nth_append)

lemma meta_path_append: "meta_path x a \<Longrightarrow> meta_path x (a @ r)"
  using meta_append by (force simp: meta_path_def)

lemma meta_path_plain: "clean_dir (x_vara x) \<Longrightarrow> plain_name n \<Longrightarrow> meta n \<Longrightarrow> meta_path x (filepath_Join (x_vara x) n)"
  by (auto simp: meta_path_def Join_plain)

lemma meta_not_object: "meta_path x a \<Longrightarrow> a \<noteq> object_path (x_store x) i"
proof
  assume "meta_path x a" "a = object_path (x_store x) i"
  then obtain rest where r: "meta rest" "rest = take 2 (BaseID_String i) @ ''/'' @ drop 2 (BaseID_String i)"
    by (auto simp: meta_path_def object_path_def shard_dir_def x_store_def NewStore_def)
  have "length (take 2 (BaseID_String i)) = 2" by simp
  then have "rest ! 2 = CHR ''/''" using r(2) by (simp add: nth_append)
  with r(1) show False by (simp add: meta_def)
qed

lemma meta_under: "meta_path x a \<Longrightarrow> under (x_vara x) a"
  by (auto simp: meta_path_def under_def HasPrefix_iff)

text \<open>Only files of the repository that are not objects differ.\<close>

definition quiet :: "cmd_env \<Rightarrow> fs \<Rightarrow> fs \<Rightarrow> bool" where
  "quiet x fs fs' \<longleftrightarrow> (\<forall>a. \<not> meta_path x a \<longrightarrow> fs' a = fs a)"

lemma quiet_refl [simp]: "quiet x fs fs" by (simp add: quiet_def)

lemma quiet_trans: "quiet x a b \<Longrightarrow> quiet x b c \<Longrightarrow> quiet x a c" by (simp add: quiet_def)

lemma quiet_outside: "quiet x fs fs' \<Longrightarrow> \<not> under (x_vara x) a \<Longrightarrow> fs' a = fs a"
  using meta_under by (auto simp: quiet_def)

lemma quiet_read: "quiet x fs fs' \<Longrightarrow> x_read x fs' = x_read x fs"
proof (rule ext)
  fix i assume "quiet x fs fs'"
  then have "fs' (object_path (x_store x) i) = fs (object_path (x_store x) i)" using meta_not_object [of x _ i] unfolding quiet_def by blast
  then show "x_read x fs' i = x_read x fs i" by (simp add: x_read_def Store_Read_def)
qed

lemma quiet_upd: "meta_path x a \<Longrightarrow> quiet x fs (fs(a := v))"
  by (auto simp: quiet_def)

lemma quiet_WriteFile:
  assumes "meta_path x a" shows "quiet x fs (fst (atomicWriteFile x a data fs))"
proof -
  obtain tr r where w: "WriteFile (x_io x) (x_retries x) (a @ ''.tmp'') a data fs = (tr, r)" by fastforce
  have "last tr \<in> set tr" using WriteFile_trace_nonempty [of "x_io x" "x_retries x" "a @ ''.tmp''" a data fs] w by simp
  then have "last tr q = fs q" if "\<not> meta_path x q" for q
    using WriteFile_frame [of q "a @ ''.tmp''" a "last tr" "x_io x" "x_retries x" data fs] w that assms meta_path_append by auto
  then show ?thesis by (simp add: quiet_def atomicWriteFile_def w)
qed

lemma quiet_remove: "meta_path x a \<Longrightarrow> quiet x fs (fst (remove_file rm a fs))"
  by (auto simp: quiet_def remove_file_def os_Remove_def)

lemma quiet_log: "meta_path x (reflogPath (x_logs x) ref) \<Longrightarrow> quiet x fs (fst (log_append x ref old new msg fs))"
  by (auto simp: quiet_def log_append_def Reflog_Append_def Let_def)

lemma quiet_snapshot:
  assumes "clean_dir (x_vara x)" "CHR ''/'' \<notin> set (x_timestamp x)" "CHR ''/'' \<notin> set command" "CHR ''/'' \<notin> set hex"
  shows "quiet x fs (fst (Create_snapshot c io lst (x_timestamp x) (x_vara x) root command hex fs))"
proof -
  have dir: "filepath_Join (x_vara x) ''snapshots'' = x_vara x @ ''/snapshots''"
    using Join_plain [OF assms(1), of "''snapshots''"] by (simp add: plain_name_def Split_def)
  have digits: "CHR ''/'' \<notin> set (dec_nat n)" for n using dec_nat_chars [of "CHR ''/''" n] by auto
  have "CHR ''/'' \<notin> set (snap_name (x_timestamp x) command hex n)" for n
    using assms(2-4) digits by (auto simp: snap_name_def Let_def dest: in_set_takeD)
  then have "Split (''snapshots/'' @ snap_name (x_timestamp x) command hex n) (CHR ''/'') = [''snapshots'', snap_name (x_timestamp x) command hex n]" for n
    using Split_append [of "CHR ''/''" "''snapshots''"] Split_no_sep by simp
  then have plain: "plain_name (''snapshots/'' @ snap_name (x_timestamp x) command hex n)" for n
    by (simp add: plain_name_def) (simp add: snap_name_def Let_def)
  have j: "filepath_Join (x_vara x @ ''/snapshots'') (snap_name (x_timestamp x) command hex n) = filepath_Join (x_vara x) (''snapshots/'' @ snap_name (x_timestamp x) command hex n)" for n
    using assms(1) by (auto simp: filepath_Join_def clean_dir_def HasPrefix_iff)
  have "meta_path x p" if "open_excl io (x_vara x @ ''/snapshots'') (snap_name (x_timestamp x) command hex) ns fs = Some p" for ns p
    using that meta_path_plain [OF assms(1) plain] by (induction ns) (auto simp: Let_def j meta_def split: if_splits)
  then show ?thesis by (auto simp: Create_snapshot_def dir Let_def quiet_def os_Remove_def split: option.split)
qed


section \<open>Steps that succeed\<close>

lemma cbindE:
  assumes "cbind m f s = Some (s', Inr b)"
  obtains s1 a where "m s = Some (s1, Inr a)" "f a s1 = Some (s', Inr b)"
  using assms by (auto simp: cbind_def split: option.splits prod.splits sum.splits)

lemma cret_iff [simp]: "cret a s = Some (s', Inr b) \<longleftrightarrow> s' = s \<and> b = a"
  by (auto simp: cret_def)

lemma cfail_iff [simp]: "cfail m s = Some (s', Inr b) \<longleftrightarrow> False"
  by (simp add: cfail_def)

lemma get_state_iff [simp]: "get_state s = Some (s', Inr b) \<longleftrightarrow> s' = s \<and> b = s"
  by (auto simp: get_state_def)

lemma reading_iff: "reading m f s = Some (s', Inr a) \<longleftrightarrow> s' = s \<and> f (r_fs s) = Inr a"
  by (auto simp: reading_def split: sum.splits)

lemma on_fs_iff: "on_fs m f s = Some (s', Inr a) \<longleftrightarrow> f (r_fs s) = (r_fs s', Inr a) \<and> s' = s\<lparr>r_fs := r_fs s'\<rparr>"
  by (auto simp: on_fs_def split: prod.splits sum.splits)

lemma quietly_iff: "quietly f s = Some (s', Inr a) \<longleftrightarrow> s' = s\<lparr>r_fs := f (r_fs s)\<rparr>"
  by (auto simp: quietly_def)

lemma put_index_iff: "put_index i s = Some (s', Inr a) \<longleftrightarrow> s' = s\<lparr>r_idx := i\<rparr>"
  by (auto simp: put_index_def)

lemma resolve_iff: "resolve x n s = Some (s', Inr a) \<longleftrightarrow> s' = s \<and> Resolve_ref (x_refs x) (r_fs s) n = Some a"
  by (auto simp: resolve_def)

lemma symbolic_iff: "symbolic x n s = Some (s', Inr a) \<longleftrightarrow> s' = s \<and> a = ResolveSymbolic (x_refs x) (r_fs s) n"
  by (auto simp: symbolic_def)

text \<open>Keeping the books of the transaction.\<close>

definition books :: "rstate \<Rightarrow> rstate \<Rightarrow> bool" where
  "books s s' \<longleftrightarrow> r_fs s' = r_fs s \<and> r_idx s' = r_idx s"

lemma books_steps:
  "set_state x st s = Some (s', r) \<Longrightarrow> books s s'" "track_ref n h s = Some (s', r') \<Longrightarrow> books s s'" "commit_txn x s = Some (s', r) \<Longrightarrow> books s s'"
  by (auto simp: set_state_def track_ref_def commit_txn_def books_def split: prod.splits sum.splits)

lemma with_txnE:
  assumes "with_txn x command body s = Some (s', Inr a)"
  obtains s1 s2 where "books s s1" "body s1 = Some (s2, Inr a)" "books s2 s'"
proof -
  obtain w r where b: "Begin_txn (x_avail x) (io_mkdir (x_io x) (filepath_Join (x_vara x) ''journal'')) (x_flush x StateBegin) (x_pid x) (x_vara x) (x_txid x)
             command [NameRefs, NameIndex] (r_w s) = (w, r)" by fastforce
  with assms obtain t where t: "r = Inr t" by (cases r) (auto simp: with_txn_def)
  with assms b obtain s2 where s2: "body (s\<lparr>r_w := w, r_txn := t\<rparr>) = Some (s2, Inr a)"
    by (auto simp: with_txn_def split: option.splits prod.splits)
  with assms b t have "books s2 s'" by (auto simp: with_txn_def books_def split: prod.splits)
  with s2 show thesis by (intro that [of "s\<lparr>r_w := w, r_txn := t\<rparr>" s2]) (simp_all add: books_def)
qed

text \<open>However a command ends, its transaction gives the locks back.\<close>

definition keeps_locks :: "'a cmd \<Rightarrow> bool" where
  "keeps_locks m \<longleftrightarrow> (\<forall>s s' r. m s = Some (s', r) \<longrightarrow> fst (r_w s') = fst (r_w s) \<and> t_locks (r_txn s') = t_locks (r_txn s) \<and> t_committed (r_txn s') = t_committed (r_txn s))"

definition releases :: "'a cmd \<Rightarrow> bool" where
  "releases m \<longleftrightarrow> (\<forall>s s' r. m s = Some (s', r) \<longrightarrow> \<not> t_committed (r_txn s) \<longrightarrow>
     (if t_committed (r_txn s') then fst (r_w s') = releaseLocks (t_locks (r_txn s)) (fst (r_w s))
      else fst (r_w s') = fst (r_w s) \<and> t_locks (r_txn s') = t_locks (r_txn s)))"

lemma keeps_locks_steps [intro, simp]:
  "keeps_locks (cret a)" "keeps_locks (cfail m)" "keeps_locks get_state" "keeps_locks (reading m f)" "keeps_locks (on_fs m g)"
  "keeps_locks (quietly q)" "keeps_locks (put_index i)" "keeps_locks (resolve x n)" "keeps_locks (symbolic x n)" "keeps_locks (set_state x st)"
  "keeps_locks (track_ref n h)" "keeps_locks (checkout_new x t)" "keeps_locks (ctx_writeIndex x)" "keeps_locks (remove_stale x ps)"
  "keeps_locks (update_ref x n c)"
  by (auto simp: keeps_locks_def cret_def cfail_def get_state_def reading_def on_fs_def quietly_def put_index_def resolve_def symbolic_def set_state_def
      track_ref_def checkout_new_def ctx_writeIndex_def remove_stale_def update_ref_def SetState_def TrackRef_def Let_def split: prod.splits sum.splits option.splits)

lemma releases_bind:
  assumes "keeps_locks m" "\<And>a. releases (f a)"
  shows "releases (cbind m f)"
  unfolding releases_def
proof (intro allI impI)
  fix s s' r assume b: "cbind m f s = Some (s', r)" and nc: "\<not> t_committed (r_txn s)"
  obtain s1 r1 where m: "m s = Some (s1, r1)" using b by (cases "m s") (auto simp: cbind_def)
  have k: "fst (r_w s1) = fst (r_w s)" "t_locks (r_txn s1) = t_locks (r_txn s)" "t_committed (r_txn s1) = t_committed (r_txn s)"
    using assms(1) m by (simp_all add: keeps_locks_def)
  show "if t_committed (r_txn s') then fst (r_w s') = releaseLocks (t_locks (r_txn s)) (fst (r_w s))
        else fst (r_w s') = fst (r_w s) \<and> t_locks (r_txn s') = t_locks (r_txn s)"
  proof (cases r1)
    case (Inl e)
    then have "s' = s1" using b m by (simp add: cbind_def)
    then show ?thesis using k nc by simp
  next
    case (Inr a)
    then have "f a s1 = Some (s', r)" using b m by (simp add: cbind_def)
    from assms(2) [unfolded releases_def, rule_format, OF this] k nc show ?thesis by simp
  qed
qed

lemma releases_keeps: "keeps_locks m \<Longrightarrow> releases m"
  by (auto simp: keeps_locks_def releases_def)

lemma releases_commit: "releases (commit_txn x)"
  by (auto simp: releases_def commit_txn_def Commit_txn_def Let_def split: prod.splits sum.splits)

lemma releases_commit_then: "releases (cbind (commit_txn x) (\<lambda>_. cret a))"
  by (auto simp: releases_def cbind_def cret_def commit_txn_def Commit_txn_def Let_def split: prod.splits sum.splits)

lemma with_txn_releases:
  assumes "with_txn x command body s = Some (s', r)" "releases body" "fst (r_w s) NameRefs = None" "fst (r_w s) NameIndex = None"
  shows "fst (r_w s') = fst (r_w s)"
proof -
  obtain w b where b: "Begin_txn (x_avail x) (io_mkdir (x_io x) (filepath_Join (x_vara x) ''journal'')) (x_flush x StateBegin) (x_pid x) (x_vara x) (x_txid x)
             command [NameRefs, NameIndex] (r_w s) = (w, b)" by fastforce
  have ne: "NameRefs \<noteq> NameIndex" by (simp add: NameRefs_def NameIndex_def)
  let ?l = "(fst (r_w s))(NameRefs \<mapsto> x_pid x, NameIndex \<mapsto> x_pid x)"
  have given: "releaseLocks [NameRefs, NameIndex] ?l = fst (r_w s)" "releaseLocks [NameRefs] ((fst (r_w s))(NameRefs \<mapsto> x_pid x)) = fst (r_w s)"
    using assms(3,4) ne by (auto simp: releaseLocks_def Release_def fun_eq_iff)
  show ?thesis
  proof (cases b)
    case (Inl e)
    then have "s' = s\<lparr>r_w := w\<rparr>" using assms(1) b by (simp add: with_txn_def)
    moreover have "fst w = fst (r_w s)" using b Inl assms(3,4) ne given
      by (auto simp: Begin_txn_def try_lock_def Let_def releaseLocks_def Release_def fun_upd_def flush_journal_def split: if_splits prod.splits sum.splits)
    ultimately show ?thesis by simp
  next
    case (Inr t)
    have t: "fst w = ?l" "t_locks t = [NameRefs, NameIndex]" "\<not> t_committed t"
      using b Inr assms(3,4) ne by (auto simp: Begin_txn_def try_lock_def Let_def flush_journal_def split: if_splits prod.splits sum.splits)
    obtain s1 r1 where body: "body (s\<lparr>r_w := w, r_txn := t\<rparr>) = Some (s1, r1)" using assms(1) b Inr by (auto simp: with_txn_def split: option.splits prod.splits)
    note rel = assms(2) [unfolded releases_def, rule_format, OF body]
    have s': "fst (r_w s') = fst (snd (Rollback_txn (x_flush x StateFailed) (r_txn s1) (r_w s1)))"
      using assms(1) b Inr body by (auto simp: with_txn_def split: prod.splits)
    show ?thesis
    proof (cases "t_committed (r_txn s1)")
      case True
      then show ?thesis using rel t s' given by (simp add: Rollback_txn_def)
    next
      case False
      then show ?thesis using rel t s' given by (simp add: Rollback_txn_def Let_def split: prod.splits)
    qed
  qed
qed

end
