(* ===== verification/Commands.thy ===== *)
theory Commands
  imports Command_Base Conflict_Markers
begin

text \<open>
  The commands of \<^verbatim>\<open>internal/commands\<close> that work on one repository: \<^verbatim>\<open>switch\<close>, \<^verbatim>\<open>branch\<close>, \<^verbatim>\<open>add\<close>, \<^verbatim>\<open>rm\<close>, \<^verbatim>\<open>commit\<close>,
  \<^verbatim>\<open>merge --abort\<close> and \<^verbatim>\<open>merge --continue\<close>, each as the sequence of its steps with every error of the code. The texts of error messages are
  abbreviated.
\<close>

section \<open>Switching branches\<close>

text \<open>What \<^verbatim>\<open>RunSwitch\<close> and \<^verbatim>\<open>RunMergeAbort\<close> do with a tree: check it out, remove the files of the old index that it does not have, and write the new index.\<close>

definition quoted :: "string \<Rightarrow> string" where
  "quoted t = [CHR 0x27] @ t @ [CHR 0x27]"

definition replace_tree :: "cmd_env \<Rightarrow> TreeID \<Rightarrow> unit cmd" where
  "replace_tree x t =
     cbind get_state (\<lambda>s0.
     cbind (checkout_new x t) (\<lambda>newIdx.
     cbind (remove_stale x (x_ord x (collectIndexPaths (r_idx s0) - collectIndexPaths newIdx))) (\<lambda>_.
     cbind (put_index newIdx) (\<lambda>_.
     ctx_writeIndex x))))"

definition switch_body :: "cmd_env \<Rightarrow> string \<Rightarrow> string \<Rightarrow> CommitID \<Rightarrow> CommitID \<Rightarrow> string \<Rightarrow> string cmd" where
  "switch_body x b ref target cid from =
     cbind (set_state x StateExecute) (\<lambda>_.
     cbind (reading ''read target commit'' (commitTree x target)) (\<lambda>tree.
     cbind (replace_tree x tree) (\<lambda>_.
     cbind (set_state x StateVerify) (\<lambda>_.
     cbind (on_fs ''update HEAD'' (atomicWriteFile x (head_file x) (ref_prefix @ ref @ [LF]))) (\<lambda>_.
     cbind (track_ref ''HEAD'' (BaseID_String target)) (\<lambda>_.
     cbind (quietly (\<lambda>fs. fst (log_append x ''HEAD'' cid target (''switch: moving from '' @ from @ '' to '' @ b) fs))) (\<lambda>_.
     cbind (set_state x StateCommit) (\<lambda>_.
     cbind (commit_txn x) (\<lambda>_. cret (''Switched to branch '' @ quoted b @ [LF]))))))))))"

definition RunSwitch :: "cmd_env \<Rightarrow> string \<Rightarrow> string cmd" where
  "RunSwitch x b =
     (let ref = ''refs/heads/'' @ b in
      if b = [] then cfail ''branch name required''
      else if ValidateName b \<noteq> None then cfail ''invalid branch name''
      else
        cbind (resolve x ref) (\<lambda>t.
        case t of Inl _ \<Rightarrow> cfail ''branch not found'' | Inr target \<Rightarrow>
        cbind (symbolic x ''HEAD'') (\<lambda>cur.
        if cur = Inr ref then cret (''Already on '' @ quoted b @ [LF])
        else
        cbind (resolve x ''HEAD'') (\<lambda>h.
        let cid = (case h of Inl _ \<Rightarrow> 0 | Inr c \<Rightarrow> c);
            hex = (case h of Inl _ \<Rightarrow> replicate 64 (CHR ''0'') | Inr c \<Rightarrow> BaseID_String c);
            from = (case cur of Inl _ \<Rightarrow> ''HEAD'' | Inr r \<Rightarrow> TrimPrefix r ''refs/heads/'')
        in cbind (snapshot x ''switch'' hex) (\<lambda>_. with_txn x ''switch'' (switch_body x b ref target cid from))))))"

section \<open>Branches\<close>

text \<open>\<open>names\<close> are the reference files in the order \<^verbatim>\<open>List\<close> walks them.\<close>

definition branch_lines :: "cmd_env \<Rightarrow> string list \<Rightarrow> fs \<Rightarrow> string" where
  "branch_lines x names fs =
     (let head = (case ResolveSymbolic (x_refs x) fs ''HEAD'' of Inl _ \<Rightarrow> [] | Inr t \<Rightarrow> t) in
      concat (map (\<lambda>r.
        if \<not> HasPrefix (ref_Name r) ''refs/heads/'' then []
        else (if head = ref_Name r then ''* '' else ''  '') @ TrimPrefix (ref_Name r) ''refs/heads/'' @ [LF]) (List_refs (x_refs x) fs names)))"

definition RunBranch :: "cmd_env \<Rightarrow> string list \<Rightarrow> string \<Rightarrow> string cmd" where
  "RunBranch x names name =
     (if name = [] then cbind get_state (\<lambda>s. cret (branch_lines x names (r_fs s)))
      else
        cbind (resolve x ''HEAD'') (\<lambda>h.
        case h of Inl _ \<Rightarrow> cfail ''HEAD is not a valid commit'' | Inr c \<Rightarrow>
        let ref = ''refs/heads/'' @ name in
        cbind (on_fs ''cannot create branch'' (Create_ref (x_io x) (x_retries x) (x_refs x) ref c)) (\<lambda>_.
        cbind (quietly (\<lambda>fs. fst (log_append x ref 0 c ''branch: Created from HEAD'' fs))) (\<lambda>_. cret []))))"

section \<open>Staging\<close>

definition matchesAny :: "string \<Rightarrow> string list \<Rightarrow> bool" where
  "matchesAny p specs \<longleftrightarrow> list_ex (\<lambda>spec. spec = p \<or> HasPrefix p (TrimSuffix spec ''/'' @ ''/'')) specs"

fun stage_entries :: "string \<Rightarrow> BlobID \<Rightarrow> u64 \<Rightarrow> Entry list \<Rightarrow> Entry list" where
  "stage_entries p b fp [] = [\<lparr>Fingerprint = fp, ie_ObjectID = b, ie_State = StateAdded, ie_Path = p\<rparr>]"
| "stage_entries p b fp (e # es) =
     (if ie_Path e = p then e\<lparr>ie_ObjectID := b, Fingerprint := fp, ie_State := StateModified\<rparr> # es else e # stage_entries p b fp es)"

definition stage :: "string \<Rightarrow> BlobID \<Rightarrow> u64 \<Rightarrow> Index \<Rightarrow> Index" where
  "stage p b fp idx = idx\<lparr>Entries := stage_entries p b fp (Entries idx)\<rparr>"

definition modify_index :: "(Index \<Rightarrow> Index) \<Rightarrow> unit cmd" where
  "modify_index f s = Some (s\<lparr>r_idx := f (r_idx s)\<rparr>, Inr ())"

text \<open>The loop over the candidates; it returns, for each, whether its contents are free of conflict markers.\<close>

fun add_paths :: "cmd_env \<Rightarrow> string list \<Rightarrow> (string \<times> bool) list cmd" where
  "add_paths x [] = cret []"
| "add_paths x (p # ps) =
     cbind (reading ''add'' (\<lambda>fs. case fs (wpath x p) of None \<Rightarrow> Inl () | Some d \<Rightarrow> Inr d)) (\<lambda>content.
     cbind (on_fs ''add'' (Store_Write (x_zstd x) (x_io x) (x_store x) (Blob content))) (\<lambda>b.
     cbind (modify_index (stage p b (x_mtime x (wpath x p)))) (\<lambda>_.
     cbind (add_paths x ps) (\<lambda>r. cret ((p, \<not> HasMarkers content) # r)))))"

definition save_index_plain :: "cmd_env \<Rightarrow> unit cmd" where
  "save_index_plain x s =
     on_fs ''write index'' (\<lambda>fs.
       let p = index_file x; tmp = p @ ''.tmp'' in
       case os_WriteFile (x_io x) tmp (Index_Serialize (r_idx s)) fs of
         (fs1, Inl e) \<Rightarrow> (fs1, Inl e)
       | (fs1, Inr _) \<Rightarrow> if io_rename (x_io x) tmp 0 then (os_Rename tmp p fs1, Inr ()) else (fs1, Inl ErrIO)) s"

text \<open>\<^verbatim>\<open>markResolvedByAdd\<close> and \<^verbatim>\<open>markRemovedResolved\<close>: a record that cannot be read is passed over.\<close>

definition mark_resolved :: "string list \<Rightarrow> MState \<Rightarrow> MState \<times> bool" where
  "mark_resolved ps st =
     fold (\<lambda>p (st, changed).
       if MState_Lookup st p = None then (st, changed)
       else case SetResolved p True st of (st', found) \<Rightarrow> (st', changed \<or> found)) ps (st, False)"

definition markResolved :: "cmd_env \<Rightarrow> string list \<Rightarrow> unit cmd" where
  "markResolved x ps =
     cbind get_state (\<lambda>s.
       case MState_Read (x_unjson x) (x_vara x) (r_fs s) of
         Inr (Some st) \<Rightarrow>
           (case mark_resolved ps st of (st', changed) \<Rightarrow>
              if \<not> changed then cret ()
              else cbind (on_fs ''write conflict record'' (MState_Write (x_json x) (x_io x) (x_vara x) st')) (\<lambda>_. cret ()))
       | _ \<Rightarrow> cret ())"

definition candidates :: "string list \<Rightarrow> (string \<rightharpoonup> FileStatus) \<Rightarrow> string set" where
  "candidates specs res =
     {p. (res p = Some StatusModified \<or> res p = Some StatusUntracked) \<and> (''.'' \<in> set specs \<or> matchesAny p specs)}"

definition RunAdd :: "cmd_env \<Rightarrow> string list \<Rightarrow> unit cmd" where
  "RunAdd x specs =
     (if specs = [] then cfail ''nothing specified''
      else
        cbind get_state (\<lambda>s.
        case Scan (x_root x) (x_visits x (r_fs s)) (r_idx s) (r_fs s) of
          Inl _ \<Rightarrow> cfail ''scan failed''
        | Inr res \<Rightarrow>
            if list_ex (\<lambda>spec. spec \<noteq> ''.'' \<and> \<not> (\<exists>p \<in> dom res. matchesAny p [spec])) specs then cfail ''did not match any files''
            else
              let toAdd = x_ord x (candidates specs res) in
              if toAdd = [] then cret ()
              else
                cbind (add_paths x toAdd) (\<lambda>clean.
                cbind (save_index_plain x) (\<lambda>_.
                markResolved x (map fst (filter snd clean))))))"

section \<open>Removing\<close>

fun remove_entries :: "cmd_env \<Rightarrow> string set \<Rightarrow> Entry list \<Rightarrow> Entry list cmd" where
  "remove_entries x matched [] = cret []"
| "remove_entries x matched (e # es) =
     (if ie_Path e \<notin> matched then cbind (remove_entries x matched es) (\<lambda>r. cret (e # r))
      else
        cbind (on_fs ''rm'' (remove_file (x_rm x) (wpath x (ie_Path e)))) (\<lambda>_.
        cbind (remove_entries x matched es) (\<lambda>r. cret (e\<lparr>ie_State := StateDeleted\<rparr> # r))))"

definition RunRm :: "cmd_env \<Rightarrow> string list \<Rightarrow> string cmd" where
  "RunRm x specs =
     (if specs = [] then cfail ''nothing specified''
      else
        cbind get_state (\<lambda>s.
        let matched = ie_Path ` set (filter (\<lambda>e. ie_State e \<noteq> StateDeleted \<and> matchesAny (ie_Path e) specs) (Entries (r_idx s))) in
        if matched = {} then cfail ''pathspec did not match any tracked files''
        else
          cbind (remove_entries x matched (Entries (r_idx s))) (\<lambda>es.
          cbind (put_index ((r_idx s)\<lparr>Entries := es\<rparr>)) (\<lambda>_.
          cbind (ctx_writeIndex x) (\<lambda>_.
          cbind (markResolved x (sort_by id (x_ord x matched))) (\<lambda>_.
          cret (concat (map (\<lambda>p. ''rm '' @ quoted p @ [LF]) (sort_by id (x_ord x matched))))))))))"

section \<open>Committing\<close>

definition unresolvedConflicts :: "cmd_env \<Rightarrow> Index \<Rightarrow> fs \<Rightarrow> string set" where
  "unresolvedConflicts x idx fs =
     (case MState_Read (x_unjson x) (x_vara x) fs of
        Inr (Some st) \<Rightarrow> set (UnresolvedPaths st)
      | _ \<Rightarrow> {p \<in> ie_Path ` set (filter (\<lambda>e. ie_State e \<noteq> StateDeleted) (Entries idx)).
              case fs (wpath x p) of None \<Rightarrow> False | Some d \<Rightarrow> HasMarkers d})"

definition head_parents :: "cmd_env \<Rightarrow> fs \<Rightarrow> CommitID list" where
  "head_parents x fs =
     (let of_text = (\<lambda>t. case ParseHex (TrimSpace t) of Inl _ \<Rightarrow> [] | Inr c \<Rightarrow> [c]) in
      case fs (head_file x) of
        None \<Rightarrow> []
      | Some d \<Rightarrow>
          if d = [] then []
          else
            let content = TrimSpace d in
            if HasPrefix content ref_prefix then
              (case fs (filepath_Join (x_vara x) (TrimPrefix content ref_prefix)) of
                 None \<Rightarrow> []
               | Some rd \<Rightarrow> if length rd \<ge> 64 then of_text rd else [])
            else if length content \<ge> 64 then of_text content
            else [])"

definition unmodified :: "Index \<Rightarrow> Index" where
  "unmodified idx = idx\<lparr>Entries := map (\<lambda>e. e\<lparr>ie_State := StateUnmodified\<rparr>) (filter (\<lambda>e. ie_State e \<noteq> StateDeleted) (Entries idx))\<rparr>"

definition build_tree :: "cmd_env \<Rightarrow> ObjectID cmd" where
  "build_tree x s =
     (case BuildTree (x_ord x) (x_zstd x) (x_io x) (x_store x) (r_idx s) (r_fs s) of
        None \<Rightarrow> Some (s, Inl CPanic)
      | Some (fs', Inl _) \<Rightarrow> Some (s\<lparr>r_fs := fs'\<rparr>, Inl (CErr ''build tree''))
      | Some (fs', Inr t) \<Rightarrow> Some (s\<lparr>r_fs := fs'\<rparr>, Inr t))"

definition commitAuthor :: "cmd_env \<Rightarrow> string cmd" where
  "commitAuthor x = (case x_author x of None \<Rightarrow> cfail ''no identity'' | Some a \<Rightarrow> cret a)"

definition build_commit :: "cmd_env \<Rightarrow> TreeID \<Rightarrow> CommitID list \<Rightarrow> string \<Rightarrow> string \<Rightarrow> CommitID cmd" where
  "build_commit x t parents author message =
     on_fs ''build commit'' (BuildCommit (x_zstd x) (x_io x) (x_stamp x) (x_store x) t parents author message)"

text \<open>Step 4: move the branch of HEAD, or start on main.\<close>

definition move_head :: "cmd_env \<Rightarrow> bool \<Rightarrow> CommitID \<Rightarrow> unit cmd" where
  "move_head x has_head c =
     (if has_head then update_ref x ''HEAD'' c
      else
        cbind (update_ref x ''refs/heads/main'' c) (\<lambda>_.
        on_fs ''set HEAD'' (Symbolic (x_io x) (x_retries x) (x_refs x) ''HEAD'' ''refs/heads/main'')))"

definition subject :: "string \<Rightarrow> string" where
  "subject message = takeWhile (\<lambda>c. c \<noteq> LF) message"

definition nothing_new :: "cmd_env \<Rightarrow> CommitID list \<Rightarrow> ObjectID \<Rightarrow> Index \<Rightarrow> fs \<Rightarrow> bool" where
  "nothing_new x parents t idx fs =
     (case parents of
        [] \<Rightarrow> Entries idx = []
      | p # _ \<Rightarrow> (case commitTree x p fs of Inl _ \<Rightarrow> False | Inr pt \<Rightarrow> pt = t))"

definition RunCommitWith :: "cmd_env \<Rightarrow> bool \<Rightarrow> string \<Rightarrow> CommitID cmd" where
  "RunCommitWith x allowEmpty message =
     (if message = [] then cfail ''empty commit message''
      else
        cbind get_state (\<lambda>s0.
        let merging = MergeInProgress (x_vara x) (r_fs s0) in
        if merging \<and> unresolvedConflicts x (r_idx s0) (r_fs s0) \<noteq> {} then cfail ''unresolved conflicts''
        else
          cbind (build_tree x) (\<lambda>t.
          cbind get_state (\<lambda>s1.
          let fs = r_fs s1;
              parents = head_parents x fs @ (if merging then (case readMergeHead (x_vara x) fs of None \<Rightarrow> [] | Some m \<Rightarrow> [m]) else [])
          in if \<not> merging \<and> \<not> allowEmpty \<and> nothing_new x parents t (r_idx s1) fs then cfail ''nothing to commit''
          else
            cbind (commitAuthor x) (\<lambda>author.
            cbind (build_commit x t parents author message) (\<lambda>c.
            cbind (move_head x (fs (head_file x) \<noteq> None \<and> fs (head_file x) \<noteq> Some []) c) (\<lambda>_.
            cbind (appendReflog x (case parents of [] \<Rightarrow> 0 | p # _ \<Rightarrow> p) c (''commit: '' @ subject message)) (\<lambda>_.
            cbind (modify_index unmodified) (\<lambda>_.
            cbind (ctx_writeIndex x) (\<lambda>_.
            cbind (quietly (Invalidate (x_vara x))) (\<lambda>_.
            cbind (cwhen merging (quietly (\<lambda>fs. fst (MState_Clear (x_rm x) (x_vara x) (fst (ClearMergeHead (x_rm x) (x_vara x) fs)))))) (\<lambda>_.
            cret c))))))))))))"

definition RunCommit :: "cmd_env \<Rightarrow> string \<Rightarrow> CommitID cmd" where
  "RunCommit x message = RunCommitWith x False message"

definition defaultMergeMessage :: "cmd_env \<Rightarrow> fs \<Rightarrow> string" where
  "defaultMergeMessage x fs =
     (case MState_Read (x_unjson x) (x_vara x) fs of
        Inr (Some st) \<Rightarrow> if ms_TheirLabel st \<noteq> [] then ''Merge branch '' @ quoted (ms_TheirLabel st) else ''Merge commit''
      | _ \<Rightarrow> ''Merge commit'')"

definition RunMergeContinue :: "cmd_env \<Rightarrow> string \<Rightarrow> CommitID cmd" where
  "RunMergeContinue x message =
     cbind get_state (\<lambda>s.
       if \<not> MergeInProgress (x_vara x) (r_fs s) then cfail ''no merge in progress''
       else if unresolvedConflicts x (r_idx s) (r_fs s) \<noteq> {} then cfail ''cannot continue''
       else RunCommit x (if message = [] then defaultMergeMessage x (r_fs s) else message))"

section \<open>Aborting a merge\<close>

text \<open>What stands between an abort and one path the merge did not touch; \<open>Inl\<close>: the blob of HEAD cannot be read.\<close>

definition clobbers :: "cmd_env \<Rightarrow> file_map \<Rightarrow> fs \<Rightarrow> string \<Rightarrow> verr + bool" where
  "clobbers x headBlobs fs p =
     (case (headBlobs p, fs (wpath x p)) of
        (Some _, None) \<Rightarrow> Inr True
      | (Some h, Some disk) \<Rightarrow> bind_res (blobContent x h fs) (\<lambda>d. Inr (disk \<noteq> d))
      | (None, Some _) \<Rightarrow> Inr True
      | (None, None) \<Rightarrow> Inr False)"

text \<open>The paths the abort looks at, and whether one of them stops it.\<close>

definition abort_paths :: "Index \<Rightarrow> file_map \<Rightarrow> MState option \<Rightarrow> string set" where
  "abort_paths idx headBlobs rec =
     (let idxPaths = ie_Path ` set (filter (\<lambda>e. ie_State e \<noteq> StateDeleted) (Entries idx));
          involved = (\<lambda>p. case rec of None \<Rightarrow> False | Some st \<Rightarrow> MergeInvolved st p)
      in {p \<in> dom headBlobs \<union> idxPaths. \<not> involved p})"

definition abort_blocked :: "cmd_env \<Rightarrow> file_map \<Rightarrow> fs \<Rightarrow> string list \<Rightarrow> bool" where
  "abort_blocked x headBlobs fs ps \<longleftrightarrow> list_ex (\<lambda>p. clobbers x headBlobs fs p \<noteq> Inr False) ps"

definition abort_body :: "cmd_env \<Rightarrow> CommitID \<Rightarrow> TreeID \<Rightarrow> string cmd" where
  "abort_body x head headTree =
     cbind (set_state x StateExecute) (\<lambda>_.
     cbind (replace_tree x headTree) (\<lambda>_.
     cbind (set_state x StateVerify) (\<lambda>_.
     cbind (on_fs ''clear MERGE_HEAD'' (ClearMergeHead (x_rm x) (x_vara x))) (\<lambda>_.
     cbind (on_fs ''clear conflict record'' (MState_Clear (x_rm x) (x_vara x))) (\<lambda>_.
     cbind (commit_txn x) (\<lambda>_. cret (''Merge aborted. Restored to '' @ take 7 (BaseID_String head) @ ''.'' @ [LF])))))))"

definition RunMergeAbort :: "cmd_env \<Rightarrow> string cmd" where
  "RunMergeAbort x =
     cbind get_state (\<lambda>s.
     if \<not> MergeInProgress (x_vara x) (r_fs s) then cfail ''no merge in progress''
     else
       cbind (resolve x ''HEAD'') (\<lambda>h.
       case h of Inl _ \<Rightarrow> cfail ''HEAD is not a valid commit'' | Inr head \<Rightarrow>
       cbind (reading ''read HEAD'' (commitTree x head)) (\<lambda>headTree.
       cbind (treeBlobs x headTree) (\<lambda>headBlobs.
       cbind (reading ''read conflict state'' (MState_Read (x_unjson x) (x_vara x))) (\<lambda>rec.
       if abort_blocked x headBlobs (r_fs s) (x_ord x (abort_paths (r_idx s) headBlobs rec)) then cfail ''cannot abort''
       else
         cbind (snapshot x ''merge-abort'' (BaseID_String head)) (\<lambda>_. with_txn x ''merge-abort'' (abort_body x head headTree)))))))"


section \<open>Names\<close>

definition cmd_ok :: "cmd_env \<Rightarrow> bool" where
  "cmd_ok x \<longleftrightarrow> clean_dir (x_vara x) \<and> CHR ''/'' \<notin> set (x_timestamp x) \<and> key_order (x_ord x) \<and> (\<forall>p. x_rm x p)"

lemma meta_names:
  assumes "clean_dir (x_vara x)"
  shows "meta_path x (index_file x)" "meta_path x (head_file x)" "meta_path x (merge_head_path (x_vara x))"
    "meta_path x (conflicts_path (x_vara x))" "meta_path x (reflogPath (x_logs x) ''HEAD'')" "meta_path x (index_path (x_vara x))"
  unfolding index_file_def head_file_def merge_head_path_def conflicts_path_def reflogPath_def x_logs_def index_path_def LogManager.select_convs
  by (rule meta_path_plain [OF assms]; simp add: plain_name_def Split_def meta_def)+

lemma head_not_log: "clean_dir (x_vara x) \<Longrightarrow> head_file x \<noteq> reflogPath (x_logs x) ''HEAD''"
proof -
  assume c: "clean_dir (x_vara x)"
  have "plain_name ''HEAD''" "plain_name ''logs/HEAD''" by (simp_all add: plain_name_def Split_def)
  then show ?thesis by (simp add: head_file_def reflogPath_def x_logs_def Join_plain [OF c])
qed

lemma fold_remove:
  assumes "\<forall>p. rm p"
  shows "fold (\<lambda>p fs. fst (remove_file rm (wpath x p) fs)) ps fs a = (if a \<in> wpath x ` set ps then None else fs a)"
  using assms by (induction ps arbitrary: fs) (auto simp: remove_file_def os_Remove_def)

lemma hex_no_slash: "CHR ''/'' \<notin> set (BaseID_String i)"
proof -
  have "\<forall>k \<in> {..< 16}. ''0123456789abcdef'' ! k \<noteq> CHR ''/''" by code_simp
  then have "CHR ''/'' \<noteq> hex_digit n" for n by (metis hex_digit_def lessThan_iff mod_less_divisor zero_less_numeral)
  then have "CHR ''/'' \<notin> set (hex_EncodeToString bs)" for bs by (induction bs) auto
  then show ?thesis by (simp add: BaseID_String_def)
qed

section \<open>Switching\<close>

text \<open>The files of a tree.\<close>

definition files_of :: "cmd_env \<Rightarrow> fs \<Rightarrow> TreeID \<Rightarrow> string set" where
  "files_of x fs t = {p. \<exists>h. file_at (x_read x fs) t p h}"

text \<open>Paths that are distinct files outside the repository directory.\<close>

definition work_paths :: "cmd_env \<Rightarrow> string set \<Rightarrow> bool" where
  "work_paths x P \<longleftrightarrow> (\<forall>p \<in> P. outside x p) \<and> inj_on (wpath x) P"

lemma work_paths_mono: "work_paths x P \<Longrightarrow> Q \<subseteq> P \<Longrightarrow> work_paths x Q"
  by (auto simp: work_paths_def inj_on_def)

text \<open>The working directory and the index show a tree; \<open>P\<close> are the paths that were tracked before.\<close>

definition shows_tree :: "cmd_env \<Rightarrow> fs \<Rightarrow> TreeID \<Rightarrow> string set \<Rightarrow> rstate \<Rightarrow> bool" where
  "shows_tree x fs t P s' \<longleftrightarrow>
     (\<forall>p h. index_map (r_idx s') p = Some h \<longleftrightarrow> file_at (x_read x fs) t p h)
     \<and> (\<forall>p h. file_at (x_read x fs) t p h \<longrightarrow> (\<exists>d. x_read x fs h = Inr (Blob d) \<and> r_fs s' (wpath x p) = Some d))
     \<and> (\<forall>p \<in> P - files_of x fs t. r_fs s' (wpath x p) = None)
     \<and> (\<forall>a. \<not> under (x_vara x) a \<and> a \<notin> wpath x ` (files_of x fs t \<union> P) \<longrightarrow> r_fs s' a = fs a)
     \<and> x_read x (r_fs s') = x_read x fs \<and> (\<forall>e \<in> set (Entries (r_idx s')). ie_State e = StateUnmodified)"

lemma checkout_shows:
  assumes "checkout_new x t s = Some (s1, Inr idx)"
    and "remove_stale x (x_ord x (collectIndexPaths (r_idx s) - collectIndexPaths idx)) s1 = Some (s2, Inr u)"
    and "cmd_ok x" "names_ok (x_read x (r_fs s))" "work_paths x (files_of x (r_fs s) t \<union> collectIndexPaths (r_idx s))"
  shows "shows_tree x (r_fs s) t (collectIndexPaths (r_idx s)) (s2\<lparr>r_idx := idx\<rparr>)"
proof -
  let ?D = "files_of x (r_fs s) t" and ?P = "collectIndexPaths (r_idx s)"
  have D: "?D = {p. \<exists>h. file_at (x_read x (r_fs s)) t p h}" "\<forall>p \<in> ?D. outside x p" "inj_on (wpath x) ?D"
    using work_paths_mono [OF assms(5), of ?D] by (auto simp: files_of_def work_paths_def)
  note co = checkout_new_ok [OF assms(1,4) D]
  have fin: "set (x_ord x (?P - collectIndexPaths idx)) = ?P - ?D"
    using assms(3) co(2) by (simp add: cmd_ok_def key_order_def collectIndexPaths_def)
  have s2: "r_fs s2 a = (if a \<in> wpath x ` (?P - ?D) then None else r_fs s1 a)" for a
    using assms(2,3) fin fold_remove [of "x_rm x" x "x_ord x (?P - collectIndexPaths idx)" "r_fs s1" a]
    by (auto simp: remove_stale_def quietly_iff cmd_ok_def)
  have clash: "wpath x p \<notin> wpath x ` (?P - ?D)" if "p \<in> ?D" for p
    using assms(5) that unfolding work_paths_def inj_on_def by blast
  have "\<not> under (x_vara x) (wpath x p)" if "p \<in> ?P" for p using assms(5) that by (auto simp: work_paths_def outside_def)
  then have "r_fs s2 (object_path (x_store x) i) = r_fs s1 (object_path (x_store x) i)" for i
    using object_under [of x i] by (force simp: s2)
  then have rd: "x_read x (r_fs s2) = x_read x (r_fs s1)" by (simp add: x_read_def Store_Read_def fun_eq_iff)
  show ?thesis
    unfolding shows_tree_def
  proof (intro conjI allI ballI impI)
    fix p h assume f: "file_at (x_read x (r_fs s)) t p h"
    then have "p \<in> ?D" by (auto simp: files_of_def)
    with co(4) [OF f] clash show "\<exists>d. x_read x (r_fs s) h = Inr (Blob d) \<and> r_fs (s2\<lparr>r_idx := idx\<rparr>) (wpath x p) = Some d" by (auto simp: s2)
  next
    fix a assume a: "\<not> under (x_vara x) a \<and> a \<notin> wpath x ` (?D \<union> ?P)"
    then show "r_fs (s2\<lparr>r_idx := idx\<rparr>) a = r_fs s a" using co(5) [of a] by (auto simp: s2)
  qed (use co(1,3,6) rd in \<open>auto simp: s2\<close>)
qed

lemma shows_quiet:
  assumes "shows_tree x fs t P s" "quiet x (r_fs s) (r_fs s')" "r_idx s' = r_idx s" "work_paths x (files_of x fs t \<union> P)"
  shows "shows_tree x fs t P s'"
proof -
  have q: "r_fs s' (wpath x p) = r_fs s (wpath x p)" if "p \<in> files_of x fs t \<union> P" for p
    using quiet_outside [OF assms(2)] assms(4) that by (auto simp: work_paths_def outside_def)
  have q2: "r_fs s' a = r_fs s a" if "\<not> under (x_vara x) a" for a using quiet_outside [OF assms(2) that] .
  have "\<exists>d. x_read x fs h = Inr (Blob d) \<and> r_fs s' (wpath x p) = Some d" if f: "file_at (x_read x fs) t p h" for p h
  proof -
    have "r_fs s' (wpath x p) = r_fs s (wpath x p)" using q [of p] f by (auto simp: files_of_def)
    with assms(1) f show ?thesis by (auto simp: shows_tree_def)
  qed
  with assms(1,3) quiet_read [OF assms(2)] q q2 show ?thesis unfolding shows_tree_def by auto
qed

lemma ctx_writeIndex_quiet:
  assumes "ctx_writeIndex x s = Some (s', r)" "clean_dir (x_vara x)"
  shows "quiet x (r_fs s) (r_fs s')" "r_idx s' = r_idx s"
  using assms quiet_WriteFile [OF meta_names(1) [OF assms(2)], of "r_fs s" "Index_Serialize (r_idx s)"]
  by (auto simp: ctx_writeIndex_def on_fs_def split: prod.splits sum.splits)

lemma replace_tree_ok:
  assumes "replace_tree x t s = Some (s', Inr u)" "cmd_ok x" "names_ok (x_read x (r_fs s))"
    and "work_paths x (files_of x (r_fs s) t \<union> collectIndexPaths (r_idx s))"
  shows "shows_tree x (r_fs s) t (collectIndexPaths (r_idx s)) s'"
proof -
  have c: "clean_dir (x_vara x)" using assms(2) by (simp add: cmd_ok_def)
  from assms(1) obtain s1 idx s2 v where
    co: "checkout_new x t s = Some (s1, Inr idx)" "remove_stale x (x_ord x (collectIndexPaths (r_idx s) - collectIndexPaths idx)) s1 = Some (s2, Inr v)"
    and w: "ctx_writeIndex x (s2\<lparr>r_idx := idx\<rparr>) = Some (s', Inr u)"
    unfolding replace_tree_def by (elim cbindE) (auto simp: put_index_iff)
  show ?thesis by (rule shows_quiet [OF checkout_shows [OF co assms(2-4)] _ _ assms(4)]) (use ctx_writeIndex_quiet [OF w c] in simp_all)
qed

lemma atomic_written:
  assumes "atomicWriteFile x a data fs = (fs', Inr u)"
  shows "fs' a = Some data"
proof -
  obtain tr where w: "WriteFile (x_io x) (x_retries x) (a @ ''.tmp'') a data fs = (tr, Inr u)" "fs' = last tr"
    using assms by (auto simp: atomicWriteFile_def split: prod.splits)
  from WriteFile_last [OF _ w(1)] w(2) show ?thesis by simp
qed

lemma switch_body_ok:
  assumes "switch_body x b ref target cid from s = Some (s', Inr msg)" "cmd_ok x" "commitTree x target (r_fs s) = Inr t"
    and "names_ok (x_read x (r_fs s))" "work_paths x (files_of x (r_fs s) t \<union> collectIndexPaths (r_idx s))"
  shows "shows_tree x (r_fs s) t (collectIndexPaths (r_idx s)) s'" "r_fs s' (head_file x) = Some (ref_prefix @ ref @ [LF])"
proof -
  have c: "clean_dir (x_vara x)" using assms(2) by (simp add: cmd_ok_def)
  define line where "line = ''switch: moving from '' @ from @ '' to '' @ b"
  from assms(1) obtain s1 s2 s3 s4 s5 s7 u where
    b1: "books s s1" and r: "replace_tree x t s1 = Some (s2, Inr ())" and b2: "books s2 s3"
    and h: "on_fs ''update HEAD'' (atomicWriteFile x (head_file x) (ref_prefix @ ref @ [LF])) s3 = Some (s4, Inr u)"
    and b3: "books s4 s5" and l: "books (s5\<lparr>r_fs := fst (log_append x ''HEAD'' cid target line (r_fs s5))\<rparr>) s7" and b4: "books s7 s'"
    unfolding switch_body_def line_def [symmetric]
    by (elim cbindE) (auto simp: reading_iff quietly_iff assms(3) books_def dest!: books_steps)
  have sh: "shows_tree x (r_fs s) t (collectIndexPaths (r_idx s)) s2"
    using replace_tree_ok [OF r assms(2)] assms(4,5) b1 by (simp add: books_def)
  have h': "atomicWriteFile x (head_file x) (ref_prefix @ ref @ [LF]) (r_fs s3) = (r_fs s4, Inr u)" "r_idx s4 = r_idx s3"
    using h by (auto simp: on_fs_iff) (metis rstate.ext_inject rstate.surjective rstate.update_convs(1))
  have q: "quiet x (r_fs s3) (r_fs s4)" using quiet_WriteFile [OF meta_names(2) [OF c], of "r_fs s3"] h'(1) by (metis fst_conv)
  have q2: "quiet x (r_fs s5) (r_fs s7)" using quiet_log [OF meta_names(5) [OF c]] l by (simp add: books_def)
  have "quiet x (r_fs s2) (r_fs s')" using q q2 b2 b3 b4 quiet_trans by (auto simp: books_def)
  moreover have "r_idx s' = r_idx s2" using b2 b3 b4 l h'(2) by (simp add: books_def)
  ultimately show "shows_tree x (r_fs s) t (collectIndexPaths (r_idx s)) s'" using shows_quiet [OF sh _ _ assms(5)] by blast
  have "r_fs s4 (head_file x) = Some (ref_prefix @ ref @ [LF])" using atomic_written [OF h'(1)] .
  moreover have "fst (log_append x ''HEAD'' cid target line fs) (head_file x) = fs (head_file x)" for fs
    using head_not_log [OF c] by (simp add: log_append_def Reflog_Append_def Let_def)
  ultimately show "r_fs s' (head_file x) = Some (ref_prefix @ ref @ [LF])" using b3 b4 l by (simp add: books_def)
qed


lemma cbind_lookups:
  "cbind (resolve x n) f s = (case Resolve_ref (x_refs x) (r_fs s) n of None \<Rightarrow> None | Some r \<Rightarrow> f r s)"
  "cbind (symbolic x n) g s = g (ResolveSymbolic (x_refs x) (r_fs s) n) s"
  "cbind get_state k s = k s s"
  by (auto simp: cbind_def resolve_def symbolic_def get_state_def split: option.split)

lemma shows_from:
  assumes "shows_tree x fs t P s" "x_read x fs = x_read x fs0" "\<And>a. \<not> under (x_vara x) a \<Longrightarrow> fs a = fs0 a"
  shows "shows_tree x fs0 t P s"
  using assms unfolding shows_tree_def files_of_def by auto

lemma snapshotE:
  assumes "snapshot x command hex s = Some (s', Inr u)" "cmd_ok x" "CHR ''/'' \<notin> set command" "CHR ''/'' \<notin> set hex"
  obtains "quiet x (r_fs s) (r_fs s')" "r_idx s' = r_idx s" "r_w s' = r_w s"
  using assms quiet_snapshot [of x command hex] by (auto simp: snapshot_def quietly_iff cmd_ok_def)

text \<open>A command takes a snapshot, then runs its body in a transaction: what the body shows of the disk after the snapshot holds of the disk before it.\<close>

lemma guarded_ok:
  assumes "cbind (snapshot x command hex) (\<lambda>_. with_txn x name body) s = Some (s', Inr msg)" "cmd_ok x" "CHR ''/'' \<notin> set command" "CHR ''/'' \<notin> set hex"
    and "names_ok (x_read x (r_fs s))" "work_paths x (files_of x (r_fs s) t \<union> collectIndexPaths (r_idx s))"
    and body: "\<And>s1 s2. body s1 = Some (s2, Inr msg) \<Longrightarrow> x_read x (r_fs s1) = x_read x (r_fs s) \<Longrightarrow> quiet x (r_fs s) (r_fs s1) \<Longrightarrow> r_idx s1 = r_idx s \<Longrightarrow>
      names_ok (x_read x (r_fs s1)) \<Longrightarrow> work_paths x (files_of x (r_fs s1) t \<union> collectIndexPaths (r_idx s1)) \<Longrightarrow>
      shows_tree x (r_fs s1) t (collectIndexPaths (r_idx s1)) s2 \<and> Q (r_fs s2)"
  shows "shows_tree x (r_fs s) t (collectIndexPaths (r_idx s)) s' \<and> Q (r_fs s')"
proof -
  obtain s0 u where sn: "snapshot x command hex s = Some (s0, Inr u)" "with_txn x name body s0 = Some (s', Inr msg)"
    using assms(1) by (elim cbindE) auto
  obtain q: "quiet x (r_fs s) (r_fs s0)" "r_idx s0 = r_idx s" "r_w s0 = r_w s" using snapshotE [OF sn(1) assms(2-4)] .
  obtain s1 s2 where b: "books s0 s1" "body s1 = Some (s2, Inr msg)" "books s2 s'" using with_txnE [OF sn(2)] .
  have rd: "x_read x (r_fs s1) = x_read x (r_fs s)" "r_idx s1 = r_idx s" "quiet x (r_fs s) (r_fs s1)"
    using quiet_read [OF q(1)] q b(1) by (simp_all add: books_def)
  from body [OF b(2) rd(1,3,2)] rd assms(5,6) have "shows_tree x (r_fs s1) t (collectIndexPaths (r_idx s1)) s2" "Q (r_fs s2)"
    by (simp_all add: files_of_def)
  from shows_from [OF this(1) rd(1)] quiet_outside [OF rd(3)] rd(2) this(2) b(3) show ?thesis by (auto simp: books_def shows_tree_def)
qed

lemma RunSwitch_ok:
  assumes "RunSwitch x b s = Some (s', Inr msg)" "Resolve_ref (x_refs x) (r_fs s) (''refs/heads/'' @ b) = Some (Inr target)"
    and "ResolveSymbolic (x_refs x) (r_fs s) ''HEAD'' \<noteq> Inr (''refs/heads/'' @ b)" "commitTree x target (r_fs s) = Inr t"
    and "cmd_ok x" "names_ok (x_read x (r_fs s))" "work_paths x (files_of x (r_fs s) t \<union> collectIndexPaths (r_idx s))"
  shows "shows_tree x (r_fs s) t (collectIndexPaths (r_idx s)) s' \<and> r_fs s' (head_file x) = Some (ref_prefix @ (''refs/heads/'' @ b) @ [LF])"
proof -
  have "b \<noteq> []" "ValidateName b = None" using assms(1) by (auto simp: RunSwitch_def Let_def split: if_splits)
  with assms(1-3) obtain cid fr and h :: "ref_error + CommitID" where
    r: "cbind (snapshot x ''switch'' (case h of Inl _ \<Rightarrow> replicate 64 (CHR ''0'') | Inr c \<Rightarrow> BaseID_String c))
        (\<lambda>_. with_txn x ''switch'' (switch_body x b (''refs/heads/'' @ b) target cid fr)) s = Some (s', Inr msg)"
    by (simp add: RunSwitch_def Let_def cbind_lookups split: option.splits)
  have tree: "commitTree x target fs = Inr t" if "x_read x fs = x_read x (r_fs s)" for fs using assms(4) that by (simp add: commitTree_def)
  show ?thesis
  proof (rule guarded_ok [OF r assms(5) _ _ assms(6,7)])
    show "CHR ''/'' \<notin> set (case h of Inl _ \<Rightarrow> replicate 64 (CHR ''0'') | Inr c \<Rightarrow> BaseID_String c)" using hex_no_slash by (auto split: sum.split)
  qed (use switch_body_ok [OF _ assms(5) tree] in \<open>simp, blast\<close>)
qed


section \<open>Aborting\<close>

lemma on_fs_remove:
  assumes "\<forall>p. rm p"
  shows "on_fs m (remove_file rm a) s = Some (s\<lparr>r_fs := (r_fs s)(a := None)\<rparr>, Inr ())"
proof (cases "r_fs s a")
  case None
  then have "(r_fs s)(a := None) = r_fs s" by auto
  with None show ?thesis by (simp add: on_fs_def remove_file_def)
qed (use assms in \<open>simp add: on_fs_def remove_file_def os_Remove_def\<close>)

lemma clear_remove: "ClearMergeHead rm d = remove_file rm (merge_head_path d)" "MState_Clear rm d = remove_file rm (conflicts_path d)"
  by (auto simp: ClearMergeHead_def MState_Clear_def fun_eq_iff)

lemma abort_body_ok:
  assumes "abort_body x head t s = Some (s', Inr msg)" "cmd_ok x"
    and "names_ok (x_read x (r_fs s))" "work_paths x (files_of x (r_fs s) t \<union> collectIndexPaths (r_idx s))"
  shows "shows_tree x (r_fs s) t (collectIndexPaths (r_idx s)) s'" "\<not> MergeInProgress (x_vara x) (r_fs s')" "r_fs s' (conflicts_path (x_vara x)) = None"
proof -
  have c: "clean_dir (x_vara x)" and rm: "\<forall>p. x_rm x p" using assms(2) by (simp_all add: cmd_ok_def)
  from assms(1) obtain s1 s2 s3 s4 s5 u v where
    b1: "books s s1" and r: "replace_tree x t s1 = Some (s2, Inr ())" and b2: "books s2 s3"
    and h: "on_fs ''clear MERGE_HEAD'' (ClearMergeHead (x_rm x) (x_vara x)) s3 = Some (s4, Inr u)"
    and m: "on_fs ''clear conflict record'' (MState_Clear (x_rm x) (x_vara x)) s4 = Some (s5, Inr v)" and b3: "books s5 s'"
    unfolding abort_body_def by (elim cbindE) (auto dest!: books_steps)
  have sh: "shows_tree x (r_fs s) t (collectIndexPaths (r_idx s)) s2"
    using replace_tree_ok [OF r assms(2)] assms(3,4) b1 by (simp add: books_def)
  have d: "s4 = s3\<lparr>r_fs := (r_fs s3)(merge_head_path (x_vara x) := None)\<rparr>" "s5 = s4\<lparr>r_fs := (r_fs s4)(conflicts_path (x_vara x) := None)\<rparr>"
    using h m on_fs_remove [OF rm] by (auto simp: clear_remove)
  have "quiet x (r_fs s2) (r_fs s')" "r_idx s' = r_idx s2"
    using b2 b3 d quiet_trans [OF quiet_upd [OF meta_names(3) [OF c]] quiet_upd [OF meta_names(4) [OF c]]] by (simp_all add: books_def)
  from shows_quiet [OF sh this assms(4)] show "shows_tree x (r_fs s) t (collectIndexPaths (r_idx s)) s'" .
  have "r_fs s' = (r_fs s3)(merge_head_path (x_vara x) := None, conflicts_path (x_vara x) := None)" using d b3 by (simp add: books_def)
  then show "\<not> MergeInProgress (x_vara x) (r_fs s')" "r_fs s' (conflicts_path (x_vara x)) = None" by (simp_all add: MergeInProgress_def)
qed

definition kept_safe :: "cmd_env \<Rightarrow> file_map \<Rightarrow> fs \<Rightarrow> string \<Rightarrow> bool" where
  "kept_safe x headBlobs fs p \<longleftrightarrow>
     (case headBlobs p of
        Some h \<Rightarrow> (\<exists>d. fs (wpath x p) = Some d \<and> x_read x fs h = Inr (Blob d))
      | None \<Rightarrow> fs (wpath x p) = None)"

lemma clobbers_iff: "clobbers x headBlobs fs p = Inr False \<longleftrightarrow> kept_safe x headBlobs fs p"
  by (auto simp: clobbers_def kept_safe_def blobContent_def readBlobObj_iff bind_res_eq_Inr split: option.splits)

lemma RunMergeAbort_cases:
  assumes "RunMergeAbort x s = Some (s', Inr msg)"
  obtains head t headBlobs rec where
    "Resolve_ref (x_refs x) (r_fs s) ''HEAD'' = Some (Inr head)" "commitTree x head (r_fs s) = Inr t"
    "treeBlobs x t s = Some (s, Inr headBlobs)" "MState_Read (x_unjson x) (x_vara x) (r_fs s) = Inr rec"
    "\<forall>p \<in> set (x_ord x (abort_paths (r_idx s) headBlobs rec)). kept_safe x headBlobs (r_fs s) p"
    "cbind (snapshot x ''merge-abort'' (BaseID_String head)) (\<lambda>_. with_txn x ''merge-abort'' (abort_body x head t)) s = Some (s', Inr msg)"
proof -
  have bs: "treeBlobs x t s0 = Some (s1, Inr m) \<Longrightarrow> s1 = s0" for t s0 s1 m by (auto simp: treeBlobs_def split: option.splits prod.splits)
  have ok: "\<not> abort_blocked x m fs ps \<longleftrightarrow> (\<forall>p \<in> set ps. kept_safe x m fs p)" for m fs ps
    by (auto simp: abort_blocked_def list_ex_iff clobbers_iff)
  from assms obtain h where h: "Resolve_ref (x_refs x) (r_fs s) ''HEAD'' = Some h" "MergeInProgress (x_vara x) (r_fs s)"
    unfolding RunMergeAbort_def cbind_lookups by (auto split: option.splits if_splits)
  with assms obtain head where head: "h = Inr head" unfolding RunMergeAbort_def cbind_lookups by (auto split: sum.splits)
  from assms obtain t s1 s2 m rec where "commitTree x head (r_fs s) = Inr t" "treeBlobs x t s = Some (s1, Inr m)"
      "reading ''read conflict state'' (MState_Read (x_unjson x) (x_vara x)) s1 = Some (s2, Inr rec)"
      "(if abort_blocked x m (r_fs s) (x_ord x (abort_paths (r_idx s) m rec)) then cfail ''cannot abort''
       else cbind (snapshot x ''merge-abort'' (BaseID_String head)) (\<lambda>_. with_txn x ''merge-abort'' (abort_body x head t))) s2 = Some (s', Inr msg)"
    using h head by (simp add: RunMergeAbort_def cbind_lookups) (elim cbindE, simp add: reading_iff)
  with h head bs show thesis by (intro that) (auto simp: reading_iff ok split: if_splits)
qed


lemma treeBlobs_exact:
  assumes "treeBlobs x t s = Some (s', Inr m)" "names_ok (x_read x (r_fs s))"
  shows "m p = Some h \<longleftrightarrow> file_at (x_read x (r_fs s)) t p h" "finite (dom m)"
proof -
  have c: "collectFiles (x_depth x) (x_read x (r_fs s)) t [] Map.empty = Some (m, None)"
    using assms(1) by (auto simp: treeBlobs_def split: option.splits prod.splits)
  show "m p = Some h \<longleftrightarrow> file_at (x_read x (r_fs s)) t p h" using collect_exact [OF c assms(2)] .
  show "finite (dom m)" using collect_finite(1) [OF c] by simp
qed

text \<open>The files an abort must not change: those of HEAD and those staged now that the merge did not touch.\<close>

definition users_files :: "cmd_env \<Rightarrow> rstate \<Rightarrow> TreeID \<Rightarrow> string set" where
  "users_files x s t =
     {p. (p \<in> files_of x (r_fs s) t \<or> index_map (r_idx s) p \<noteq> None)
       \<and> (case MState_Read (x_unjson x) (x_vara x) (r_fs s) of Inr (Some st) \<Rightarrow> \<not> MergeInvolved st p | _ \<Rightarrow> True)}"

lemma index_map_None: "index_map idx p \<noteq> None \<longleftrightarrow> p \<in> ie_Path ` set (filter (\<lambda>e. ie_State e \<noteq> StateDeleted) (Entries idx))"
  by (auto simp: index_map_def find_None_iff image_iff)

lemma abort_keeps:
  assumes "\<forall>p \<in> set (x_ord x (abort_paths (r_idx s) m rec)). kept_safe x m (r_fs s) p" "treeBlobs x t s = Some (s, Inr m)"
    and "MState_Read (x_unjson x) (x_vara x) (r_fs s) = Inr rec" "shows_tree x (r_fs s) t (collectIndexPaths (r_idx s)) s'"
    and "key_order (x_ord x)" "names_ok (x_read x (r_fs s))" "p \<in> users_files x s t"
  shows "r_fs s' (wpath x p) = r_fs s (wpath x p)"
proof -
  note m = treeBlobs_exact [OF assms(2,6)]
  have "finite (abort_paths (r_idx s) m rec)" using m(2) by (auto simp: abort_paths_def Let_def)
  then have "set (x_ord x (abort_paths (r_idx s) m rec)) = abort_paths (r_idx s) m rec" using assms(5) by (simp add: key_order_def)
  moreover have "p \<in> abort_paths (r_idx s) m rec"
    using assms(3,7) m(1) by (auto simp: abort_paths_def users_files_def files_of_def index_map_None [simplified] Let_def dom_def split: option.splits)
  ultimately have k: "kept_safe x m (r_fs s) p" using assms(1) by blast
  show ?thesis
  proof (cases "m p")
    case None
    then have "p \<in> collectIndexPaths (r_idx s) - files_of x (r_fs s) t"
      using assms(7) m(1) [of p] index_map_None [of "r_idx s" p] by (auto simp: users_files_def files_of_def collectIndexPaths_def)
    with None k assms(4) show ?thesis by (auto simp: kept_safe_def shows_tree_def)
  next
    case (Some h)
    with m(1) have "file_at (x_read x (r_fs s)) t p h" by blast
    with assms(4) obtain d where "x_read x (r_fs s) h = Inr (Blob d)" "r_fs s' (wpath x p) = Some d" unfolding shows_tree_def by blast
    with Some k show ?thesis by (auto simp: kept_safe_def)
  qed
qed

end
