(* ===== verification/Sample_Repo.thy ===== *)
theory Sample_Repo
  imports Object_Format
begin

text \<open>
  A small repository for examples: a blob, a tree with that blob as its only file, and a commit of the tree, with their real SHA-256 identifiers. The
  digests are evaluated by the simplifier, block by block, and agree with the ones other implementations compute.
\<close>

text \<open>SHA-256 of one block, in steps that the simplifier can take: the message schedule, and four groups of sixteen rounds.\<close>

definition sha_part :: "nat \<Rightarrow> u32 list \<Rightarrow> u32 list \<Rightarrow> u32 list" where
  "sha_part q ws = fold sha_round (zip (take 16 (drop (16 * q) sha_K)) (take 16 (drop (16 * q) ws)))"

lemma sha_compress_parts:
  assumes "sha_expand 48 (rev w) = rev ws" "length ws = 64"
    and "sha_part 0 ws h = a" "sha_part 1 ws a = b" "sha_part 2 ws b = c" "sha_part 3 ws c = d"
  shows "sha_compress w h = map2 (+) h d"
proof -
  have split4: "zs = take 16 zs @ take 16 (drop 16 zs) @ take 16 (drop 32 zs) @ take 16 (drop 48 zs)" if "length zs = 64" for zs :: "(u32 \<times> u32) list"
    using that take_add [of 16 48 zs] take_add [of 16 32 "drop 16 zs"] take_add [of 16 16 "drop 32 zs"] by simp
  have "length sha_K = 64" by (simp add: sha_K_def)
  then have "fold sha_round (zip sha_K ws) h = d"
    using assms(2-6) by (subst split4) (simp_all add: take_zip drop_zip sha_part_def)
  then show ?thesis using assms(1) by (simp add: sha_compress_def)
qed

lemma chunks_concat: "\<forall>c \<in> set cs. length c = n \<Longrightarrow> chunks (length cs) n (concat cs) = cs"
  by (induction cs) auto

lemma concat_word_bytes: "\<forall>c \<in> set cs. length c = 4 \<Longrightarrow> concat (map word_bytes (map bytes_word cs :: u32 list)) = concat cs"
  by (induction cs) auto

text \<open>The digest of a padded message: \<open>cs\<close> are its blocks, each as sixteen words of four bytes, \<open>hs\<close> the words of the digest.\<close>

lemma chunks_blocks:
  "\<forall>c \<in> set cs. length (concat c) = 64 \<Longrightarrow> chunks (length (concat (map concat cs)) div 64) 64 (concat (map concat cs)) = map concat cs"
  by (induction cs) (auto simp: div_add_self1)

lemma Compute_blocks:
  assumes "sha_pad m = concat (map concat cs)" "\<forall>c \<in> set cs. length c = 16 \<and> (\<forall>b \<in> set c. length b = 4)"
    and "fold (\<lambda>c. sha_compress (map bytes_word c)) cs sha_H0 = map bytes_word hs" "\<forall>c \<in> set hs. length c = 4"
  shows "Compute m = bytes_word (concat hs)"
proof -
  have "length (concat c) = length c * 4" if "\<forall>b \<in> set c. length b = 4" for c :: "bytes list" using that by (induction c) auto
  then have "\<forall>c \<in> set cs. length (concat c) = 64" using assms(2) by simp
  from chunks_blocks [OF this] have blocks: "chunks (length (sha_pad m) div 64) 64 (sha_pad m) = map concat cs" using assms(1) by simp
  have each: "chunks 16 4 (concat c) = c" if "c \<in> set cs" for c using chunks_concat [of c 4] assms(2) that by force
  have "fold (\<lambda>block. sha_compress (map bytes_word (chunks 16 4 block))) (map concat cs) h = fold (\<lambda>c. sha_compress (map bytes_word c)) cs h" for h
    using each by (induction cs arbitrary: h) auto
  then have "sha256_words m = map bytes_word hs" using blocks assms(3) by (simp add: sha256_words_def Let_def)
  then show ?thesis using concat_word_bytes [OF assms(4)] by (simp add: Compute_def)
qed

lemma sha_pad_bytes:
  assumes "z = (119 - length m mod 64) mod 64" "length bs = length m + z + 9" "take (length m) bs = m" "bs ! length m = CHR 0x80"
    and "list_all (\<lambda>c. c = NUL) (take z (drop (Suc (length m)) bs))" "be_val (drop (length m + z + 1) bs) = 8 * length m"
  shows "sha_pad m = bs"
proof -
  let ?z = "take z (drop (Suc (length m)) bs)"
  have "bs = take (length m) bs @ bs ! length m # drop (Suc (length m)) bs" using assms(2) by (simp add: id_take_nth_drop)
  also have "drop (Suc (length m)) bs = ?z @ drop (length m + z + 1) bs"
    using append_take_drop_id [of z "drop (Suc (length m)) bs"] by (simp add: add.commute)
  finally have bs: "bs = m @ [CHR 0x80] @ ?z @ drop (length m + z + 1) bs" using assms(3,4) by simp
  have "?z = replicate z NUL" using assms(2,5) by (intro replicate_eqI) (auto simp: list_all_iff)
  moreover have "length (drop (length m + z + 1) bs) = 8" using assms(2) by simp
  from be_bytes_be_val [OF this] have "be_bytes 8 (8 * length m) = drop (length m + z + 1) bs" using assms(6) by simp
  ultimately show ?thesis using bs assms(1) by (simp add: sha_pad_def)
qed

definition demo_blob_ws :: "u32 list" where
  "demo_blob_ws =
     [1986097761, 761425007, 1647998513, 7897088, 0, 0, 0, 0, 0, 0, 0, 0, 0, 0, 0, 112, 3075388526, 547868435, 249673266, 517758388, 3990683329,
     2775268258, 3766729946, 2983924036, 3396721617, 4186467908, 1971101366, 682721455, 2180769496, 3503036936, 562970509, 3213100016, 1520957568,
     538676493, 3076848532, 4191671499, 1078805890, 514079253, 91436228, 1929425308, 1960864558, 1169676632, 3820018095, 3642734900, 632631755, 2472252155,
     3386389473, 3844899464, 3172895856, 3596617515, 2786684572, 2159784635, 2513019568, 3711733321, 3937135889, 1337469105, 616323912, 1929980543,
     2819474524, 4259641034, 1601479734, 970693868, 233342510, 496275154]"

lemma demo_blob_schedule: "sha_expand 48 [112, 0, 0, 0, 0, 0, 0, 0, 0, 0, 0, 0, 7897088, 1647998513, 761425007, 1986097761] = rev demo_blob_ws"
  by code_simp

lemma demo_blob_part0: "sha_part 0 demo_blob_ws sha_H0 = [1647886873, 3664862235, 2316662453, 3432683641, 2972161629, 1646761075, 187427290, 227481404]"
  by code_simp

lemma demo_blob_part1: "sha_part 1 demo_blob_ws [1647886873, 3664862235, 2316662453, 3432683641, 2972161629, 1646761075, 187427290, 227481404] = [4113493614, 1087653786, 3772068671, 2706595018, 3612823065, 998378409, 644431397, 1934149560]"
  by code_simp

lemma demo_blob_part2: "sha_part 2 demo_blob_ws [4113493614, 1087653786, 3772068671, 2706595018, 3612823065, 998378409, 644431397, 1934149560] = [1232905550, 4032765562, 2647042791, 3757370430, 3772149263, 8674893, 2196008263, 1304837017]"
  by code_simp

lemma demo_blob_part3: "sha_part 3 demo_blob_ws [1232905550, 4032765562, 2647042791, 3757370430, 3772149263, 8674893, 2196008263, 1304837017] = [1812298738, 1876687359, 3988301943, 113014286, 223483984, 623757365, 2275195384, 2359652038]"
  by code_simp

lemma demo_blob_words: "sha_compress [1986097761, 761425007, 1647998513, 7897088, 0, 0, 0, 0, 0, 0, 0, 0, 0, 0, 0, 112] sha_H0 = [3591332441, 725854340, 707238889, 2886495048, 1583377103, 3224580289, 2803930019, 3901111263]"
  using sha_compress_parts [of _ "demo_blob_ws", OF _ _ demo_blob_part0 demo_blob_part1 demo_blob_part2 demo_blob_part3] demo_blob_schedule
  by (simp add: demo_blob_ws_def sha_H0_def)

definition demo_blob_blocks :: "bytes list list" where
  "demo_blob_blocks =
     [[[CHR 0x76, CHR 0x61, CHR 0x72, CHR 0x61], [CHR 0x2d, CHR 0x62, CHR 0x6c, CHR 0x6f], [CHR 0x62, CHR 0x3a, CHR 0x76, CHR 0x31], [CHR 0x00, CHR 0x78,
      CHR 0x80, CHR 0x00], [CHR 0x00, CHR 0x00, CHR 0x00, CHR 0x00], [CHR 0x00, CHR 0x00, CHR 0x00, CHR 0x00], [CHR 0x00, CHR 0x00, CHR 0x00, CHR 0x00],
      [CHR 0x00, CHR 0x00, CHR 0x00, CHR 0x00], [CHR 0x00, CHR 0x00, CHR 0x00, CHR 0x00], [CHR 0x00, CHR 0x00, CHR 0x00, CHR 0x00], [CHR 0x00, CHR 0x00, CHR
      0x00, CHR 0x00], [CHR 0x00, CHR 0x00, CHR 0x00, CHR 0x00], [CHR 0x00, CHR 0x00, CHR 0x00, CHR 0x00], [CHR 0x00, CHR 0x00, CHR 0x00, CHR 0x00], [CHR
      0x00, CHR 0x00, CHR 0x00, CHR 0x00], [CHR 0x00, CHR 0x00, CHR 0x00, CHR 0x70]]]"

definition demo_blob_digest :: "bytes list" where
  "demo_blob_digest =
     [[CHR 0xd6, CHR 0x0f, CHR 0x62, CHR 0x59], [CHR 0x2b, CHR 0x43, CHR 0xa8, CHR 0x84], [CHR 0x2a, CHR 0x27, CHR 0x9b, CHR 0xe9], [CHR 0xac, CHR 0x0c,
     CHR 0x6b, CHR 0x48], [CHR 0x5e, CHR 0x60, CHR 0x6a, CHR 0xcf], [CHR 0xc0, CHR 0x33, CHR 0x30, CHR 0xc1], [CHR 0xa7, CHR 0x20, CHR 0x93, CHR 0xa3],
     [CHR 0xe8, CHR 0x86, CHR 0x3b, CHR 0xdf]]"

definition demo_blob_id :: BaseID where
  "demo_blob_id = bytes_word (concat demo_blob_digest)"

definition demo_blob_obj :: Object where
  "demo_blob_obj = Blob ''x''"

lemma demo_blob_bytes: "Serialize demo_blob_obj = [CHR 0x76, CHR 0x61, CHR 0x72, CHR 0x61, CHR 0x2d, CHR 0x62, CHR 0x6c, CHR 0x6f, CHR 0x62, CHR 0x3a, CHR 0x76, CHR 0x31, CHR 0x00, CHR 0x78]"
  by (simp add: demo_blob_obj_def Blob_Serialize_def ObjectType_string_def WriteHeader_def)

lemma demo_blob_pad: "sha_pad (Serialize demo_blob_obj) = concat (map concat demo_blob_blocks)"
  unfolding demo_blob_bytes demo_blob_blocks_def by (rule sha_pad_bytes [of 41]) simp_all

lemma demo_blob_hash: "Compute (Serialize demo_blob_obj) = demo_blob_id"
  unfolding demo_blob_id_def
proof (rule Compute_blocks [OF demo_blob_pad])
  show "fold (\<lambda>c. sha_compress (map bytes_word c)) demo_blob_blocks sha_H0 = map bytes_word demo_blob_digest"
    unfolding demo_blob_blocks_def demo_blob_digest_def by (simp add: bytes_word_def demo_blob_words)
qed (simp_all add: demo_blob_blocks_def demo_blob_digest_def)

lemma small_words:
  "word_bytes (33188 :: u32) = [CHR 0x00, CHR 0x00, CHR 0x81, CHR 0xa4]" "word_bytes (0 :: u32) = [CHR 0x00, CHR 0x00, CHR 0x00, CHR 0x00]"
  "word_bytes (7 :: u64) = [CHR 0x00, CHR 0x00, CHR 0x00, CHR 0x00, CHR 0x00, CHR 0x00, CHR 0x00, CHR 0x07]"
  using word_bytes_word_sized(2) [of "[CHR 0x00, CHR 0x00, CHR 0x81, CHR 0xa4]"] word_bytes_word_sized(2) [of "[CHR 0x00, CHR 0x00, CHR 0x00, CHR 0x00]"]
    word_bytes_word_sized(3) [of "[CHR 0x00, CHR 0x00, CHR 0x00, CHR 0x00, CHR 0x00, CHR 0x00, CHR 0x00, CHR 0x07]"]
  by (simp_all add: bytes_word_def)


definition demo_tree_ws :: "u32 list" where
  "demo_tree_ws =
     [1986097761, 762606181, 1698330161, 129, 2765492066, 1496007592, 2217355163, 3920366699, 1214144618, 3485479728, 3248955539, 2749924923, 3748003968,
     0, 0, 408, 428790662, 3824940636, 3203983551, 3075397959, 2579156659, 3208524886, 2362449546, 625674944, 2914857131, 1786624759, 4195741488,
     1112889301, 3907329033, 2379266751, 2205219609, 3016472435, 1057713726, 3726263925, 201066140, 3550515668, 3803650591, 2696170439, 4117001447,
     533707127, 3452988119, 2810645056, 4243864844, 3541904485, 1656789521, 3564003989, 508882720, 517628485, 854072861, 2437650384, 2206277664,
     3568020008, 4110432366, 736972861, 853699337, 23069294, 791990555, 900142050, 1596068239, 1001874748, 2198854859, 3720771777, 1191781081, 2099148650]"

lemma demo_tree_schedule: "sha_expand 48 [408, 0, 0, 3748003968, 2749924923, 3248955539, 3485479728, 1214144618, 3920366699, 2217355163, 1496007592, 2765492066, 129, 1698330161, 762606181,
     1986097761] = rev demo_tree_ws"
  by code_simp

lemma demo_tree_part0: "sha_part 0 demo_tree_ws sha_H0 = [4116943807, 3445492498, 1728754694, 628151167, 2215014643, 2720212576, 574469863, 1081097185]"
  by code_simp

lemma demo_tree_part1: "sha_part 1 demo_tree_ws [4116943807, 3445492498, 1728754694, 628151167, 2215014643, 2720212576, 574469863, 1081097185] = [3800997187, 3457736106, 1502582967, 3132551015, 2526712583, 3872834962, 1131585470, 838994358]"
  by code_simp

lemma demo_tree_part2: "sha_part 2 demo_tree_ws [3800997187, 3457736106, 1502582967, 3132551015, 2526712583, 3872834962, 1131585470, 838994358] = [2936691572, 40225689, 1578421945, 2422790206, 781108679, 3849144533, 2611772236, 2109177079]"
  by code_simp

lemma demo_tree_part3: "sha_part 3 demo_tree_ws [2936691572, 40225689, 1578421945, 2422790206, 781108679, 3849144533, 2611772236, 2109177079] = [2792881716, 732103423, 1636606555, 2577485680, 3366768940, 3187798063, 1016532950, 1410726632]"
  by code_simp

lemma demo_tree_words: "sha_compress [1986097761, 762606181, 1698330161, 129, 2765492066, 1496007592, 2217355163, 3920366699, 1214144618, 3485479728, 3248955539, 2749924923, 3748003968,
     0, 0, 408] sha_H0 = [276948123, 3876237700, 2650510797, 1055999146, 431694763, 1493653691, 1545267585, 2952185857]"
  using sha_compress_parts [of _ "demo_tree_ws", OF _ _ demo_tree_part0 demo_tree_part1 demo_tree_part2 demo_tree_part3] demo_tree_schedule
  by (simp add: demo_tree_ws_def sha_H0_def)

definition demo_tree_blocks :: "bytes list list" where
  "demo_tree_blocks =
     [[[CHR 0x76, CHR 0x61, CHR 0x72, CHR 0x61], [CHR 0x2d, CHR 0x74, CHR 0x72, CHR 0x65], [CHR 0x65, CHR 0x3a, CHR 0x76, CHR 0x31], [CHR 0x00, CHR 0x00,
      CHR 0x00, CHR 0x81], [CHR 0xa4, CHR 0xd6, CHR 0x0f, CHR 0x62], [CHR 0x59, CHR 0x2b, CHR 0x43, CHR 0xa8], [CHR 0x84, CHR 0x2a, CHR 0x27, CHR 0x9b],
      [CHR 0xe9, CHR 0xac, CHR 0x0c, CHR 0x6b], [CHR 0x48, CHR 0x5e, CHR 0x60, CHR 0x6a], [CHR 0xcf, CHR 0xc0, CHR 0x33, CHR 0x30], [CHR 0xc1, CHR 0xa7, CHR
      0x20, CHR 0x93], [CHR 0xa3, CHR 0xe8, CHR 0x86, CHR 0x3b], [CHR 0xdf, CHR 0x66, CHR 0x00, CHR 0x80], [CHR 0x00, CHR 0x00, CHR 0x00, CHR 0x00], [CHR
      0x00, CHR 0x00, CHR 0x00, CHR 0x00], [CHR 0x00, CHR 0x00, CHR 0x01, CHR 0x98]]]"

definition demo_tree_digest :: "bytes list" where
  "demo_tree_digest =
     [[CHR 0x10, CHR 0x81, CHR 0xe4, CHR 0x9b], [CHR 0xe7, CHR 0x0a, CHR 0xb1, CHR 0x84], [CHR 0x9d, CHR 0xfb, CHR 0x95, CHR 0xcd], [CHR 0x3e, CHR 0xf1,
     CHR 0x44, CHR 0xaa], [CHR 0x19, CHR 0xbb, CHR 0x23, CHR 0xab], [CHR 0x59, CHR 0x07, CHR 0x58, CHR 0xbb], [CHR 0x5c, CHR 0x1a, CHR 0xe9, CHR 0x81],
     [CHR 0xaf, CHR 0xf6, CHR 0xc8, CHR 0x01]]"

definition demo_tree_id :: BaseID where
  "demo_tree_id = bytes_word (concat demo_tree_digest)"

definition demo_tree_obj :: Object where
  "demo_tree_obj = Tree [\<lparr>te_Mode = 33188, te_Hash = demo_blob_id, te_Name = ''f''\<rparr>]"

lemma demo_tree_bytes: "Serialize demo_tree_obj = [CHR 0x76, CHR 0x61, CHR 0x72, CHR 0x61, CHR 0x2d, CHR 0x74, CHR 0x72, CHR 0x65, CHR 0x65, CHR 0x3a, CHR 0x76, CHR 0x31, CHR 0x00, CHR 0x00, CHR 0x00,
     CHR 0x81, CHR 0xa4, CHR 0xd6, CHR 0x0f, CHR 0x62, CHR 0x59, CHR 0x2b, CHR 0x43, CHR 0xa8, CHR 0x84, CHR 0x2a, CHR 0x27, CHR 0x9b, CHR 0xe9, CHR 0xac,
     CHR 0x0c, CHR 0x6b, CHR 0x48, CHR 0x5e, CHR 0x60, CHR 0x6a, CHR 0xcf, CHR 0xc0, CHR 0x33, CHR 0x30, CHR 0xc1, CHR 0xa7, CHR 0x20, CHR 0x93, CHR 0xa3,
     CHR 0xe8, CHR 0x86, CHR 0x3b, CHR 0xdf, CHR 0x66, CHR 0x00]"
  by (simp add: demo_tree_obj_def Tree_Serialize_def ObjectType_string_def entry_bytes_def small_words demo_blob_id_def demo_blob_digest_def WriteHeader_def)

lemma demo_tree_pad: "sha_pad (Serialize demo_tree_obj) = concat (map concat demo_tree_blocks)"
  unfolding demo_tree_bytes demo_tree_blocks_def by (rule sha_pad_bytes [of 4]) simp_all

lemma demo_tree_hash: "Compute (Serialize demo_tree_obj) = demo_tree_id"
  unfolding demo_tree_id_def
proof (rule Compute_blocks [OF demo_tree_pad])
  show "fold (\<lambda>c. sha_compress (map bytes_word c)) demo_tree_blocks sha_H0 = map bytes_word demo_tree_digest"
    unfolding demo_tree_blocks_def demo_tree_digest_def by (simp add: bytes_word_def demo_tree_words)
qed (simp_all add: demo_tree_blocks_def demo_tree_digest_def)

definition demo_commit1_ws :: "u32 list" where
  "demo_commit1_ws =
     [1986097761, 761491309, 1835627578, 1982922768, 2179242983, 179405981, 4220898622, 4047809049, 3139677017, 123255644, 451510703, 4140302592, 0, 0,
     1889, 7176192, 2235870761, 3703993260, 2505078761, 1737260713, 292903228, 3440653566, 185435462, 1646374748, 2686832214, 3154742800, 11811661,
     4280460834, 1742946880, 3604000516, 2342578613, 1259540919, 2313637498, 2767520366, 618158322, 486982229, 4173039316, 4265784487, 3909538533,
     3285379193, 1303111351, 2661925725, 2699809147, 778353435, 831985293, 3402312646, 1554564155, 3239677070, 745268539, 884344142, 4202598365,
     1744110631, 1456454874, 3754281183, 635943407, 3959860109, 2254702573, 817292058, 2841794093, 218721411, 3516094993, 3634899288, 1974524099,
     3821687357]"

lemma demo_commit1_schedule: "sha_expand 48 [7176192, 1889, 0, 0, 4140302592, 451510703, 123255644, 3139677017, 4047809049, 4220898622, 179405981, 2179242983, 1982922768, 1835627578, 761491309,
     1986097761] = rev demo_commit1_ws"
  by code_simp

lemma demo_commit1_part0: "sha_part 0 demo_commit1_ws sha_H0 = [5614575, 655678141, 2015294431, 4044195907, 1688620216, 1301513336, 876654498, 2967916511]"
  by code_simp

lemma demo_commit1_part1: "sha_part 1 demo_commit1_ws [5614575, 655678141, 2015294431, 4044195907, 1688620216, 1301513336, 876654498, 2967916511] = [1632656725, 1375263731, 2257218132, 255374261, 3432048983, 2589241208, 2439165109, 1226306553]"
  by code_simp

lemma demo_commit1_part2: "sha_part 2 demo_commit1_ws [1632656725, 1375263731, 2257218132, 255374261, 3432048983, 2589241208, 2439165109, 1226306553] = [557255631, 4096593726, 2221363254, 1767041798, 1897290753, 3140541525, 3194258997, 3694672585]"
  by code_simp

lemma demo_commit1_part3: "sha_part 3 demo_commit1_ws [557255631, 4096593726, 2221363254, 1767041798, 1897290753, 3140541525, 3194258997, 3694672585] = [834249562, 4068982964, 2722590454, 462113058, 812281561, 1459607083, 498482392, 1339022613]"
  by code_simp

lemma demo_commit1_words: "sha_compress [1986097761, 761491309, 1835627578, 1982922768, 2179242983, 179405981, 4220898622, 4047809049, 3139677017, 123255644, 451510703, 4140302592, 0, 0,
     1889, 7176192] sha_H0 = [2613283265, 2918149945, 3736494696, 3235593820, 2172174680, 4060430007, 1027217027, 2880481838]"
  using sha_compress_parts [of _ "demo_commit1_ws", OF _ _ demo_commit1_part0 demo_commit1_part1 demo_commit1_part2 demo_commit1_part3] demo_commit1_schedule
  by (simp add: demo_commit1_ws_def sha_H0_def)

definition demo_commit2_ws :: "u32 list" where
  "demo_commit2_ws =
     [0, 0, 0, 0, 0, 0, 0, 0, 0, 0, 0, 0, 0, 0, 0, 496, 0, 12976128, 0, 3221238267, 0, 519215116, 496, 520105985, 25952256, 503802988, 1073780210,
     1539050776, 2001338417, 2268711834, 1065318410, 3727417081, 4046209067, 3579507737, 3890729239, 1543813351, 1470854178, 174478591, 3230314118,
     4047636089, 3664933868, 331044640, 1279895834, 1625550989, 3128802849, 2611428575, 3112390537, 2352895771, 1728757930, 3395887545, 1814481124,
     1588488895, 456140757, 2050720847, 3493110059, 1761558500, 16272765, 1330502678, 3305640977, 224491457, 2699635099, 3633897049, 2276623058,
     3926813270]"

lemma demo_commit2_schedule: "sha_expand 48 [496, 0, 0, 0, 0, 0, 0, 0, 0, 0, 0, 0, 0, 0, 0, 0] = rev demo_commit2_ws"
  by code_simp

lemma demo_commit2_part0: "sha_part 0 demo_commit2_ws [2613283265, 2918149945, 3736494696, 3235593820, 2172174680, 4060430007, 1027217027, 2880481838] = [4137474036, 433784457, 766574696, 2954250681, 2746835170, 2349098941, 2811081340, 995862718]"
  by code_simp

lemma demo_commit2_part1: "sha_part 1 demo_commit2_ws [4137474036, 433784457, 766574696, 2954250681, 2746835170, 2349098941, 2811081340, 995862718] = [4106438513, 632483035, 3863752821, 4248535069, 2528055273, 672330182, 552871159, 1894718096]"
  by code_simp

lemma demo_commit2_part2: "sha_part 2 demo_commit2_ws [4106438513, 632483035, 3863752821, 4248535069, 2528055273, 672330182, 552871159, 1894718096] = [2126804889, 992189036, 2806366705, 1887677370, 3289478606, 3445463099, 2128678512, 1628362613]"
  by code_simp

lemma demo_commit2_part3: "sha_part 3 demo_commit2_ws [2126804889, 992189036, 2806366705, 1887677370, 3289478606, 3445463099, 2128678512, 1628362613] = [1935095101, 4003415020, 3660386360, 2275508790, 131026321, 2778722454, 1895763553, 4172791336]"
  by code_simp

lemma demo_commit2_words: "sha_compress [0, 0, 0, 0, 0, 0, 0, 0, 0, 0, 0, 0, 0, 0, 0, 496] [2613283265, 2918149945, 3736494696, 3235593820, 2172174680, 4060430007, 1027217027, 2880481838] = [253411070, 2626597669, 3101913760, 1216135314, 2303201001, 2544185165, 2922980580, 2758305878]"
  using sha_compress_parts [of _ "demo_commit2_ws", OF _ _ demo_commit2_part0 demo_commit2_part1 demo_commit2_part2 demo_commit2_part3] demo_commit2_schedule
  by (simp add: demo_commit2_ws_def sha_H0_def)

definition demo_commit_blocks :: "bytes list list" where
  "demo_commit_blocks =
     [[[CHR 0x76, CHR 0x61, CHR 0x72, CHR 0x61], [CHR 0x2d, CHR 0x63, CHR 0x6f, CHR 0x6d], [CHR 0x6d, CHR 0x69, CHR 0x74, CHR 0x3a], [CHR 0x76, CHR 0x31,
      CHR 0x00, CHR 0x10], [CHR 0x81, CHR 0xe4, CHR 0x9b, CHR 0xe7], [CHR 0x0a, CHR 0xb1, CHR 0x84, CHR 0x9d], [CHR 0xfb, CHR 0x95, CHR 0xcd, CHR 0x3e],
      [CHR 0xf1, CHR 0x44, CHR 0xaa, CHR 0x19], [CHR 0xbb, CHR 0x23, CHR 0xab, CHR 0x59], [CHR 0x07, CHR 0x58, CHR 0xbb, CHR 0x5c], [CHR 0x1a, CHR 0xe9, CHR
      0x81, CHR 0xaf], [CHR 0xf6, CHR 0xc8, CHR 0x01, CHR 0x00], [CHR 0x00, CHR 0x00, CHR 0x00, CHR 0x00], [CHR 0x00, CHR 0x00, CHR 0x00, CHR 0x00], [CHR
      0x00, CHR 0x00, CHR 0x07, CHR 0x61], [CHR 0x00, CHR 0x6d, CHR 0x80, CHR 0x00]],
      [[CHR 0x00, CHR 0x00, CHR 0x00, CHR 0x00], [CHR 0x00, CHR 0x00, CHR 0x00, CHR 0x00], [CHR 0x00, CHR 0x00, CHR 0x00, CHR 0x00], [CHR 0x00, CHR 0x00,
      CHR 0x00, CHR 0x00], [CHR 0x00, CHR 0x00, CHR 0x00, CHR 0x00], [CHR 0x00, CHR 0x00, CHR 0x00, CHR 0x00], [CHR 0x00, CHR 0x00, CHR 0x00, CHR 0x00],
      [CHR 0x00, CHR 0x00, CHR 0x00, CHR 0x00], [CHR 0x00, CHR 0x00, CHR 0x00, CHR 0x00], [CHR 0x00, CHR 0x00, CHR 0x00, CHR 0x00], [CHR 0x00, CHR 0x00, CHR
      0x00, CHR 0x00], [CHR 0x00, CHR 0x00, CHR 0x00, CHR 0x00], [CHR 0x00, CHR 0x00, CHR 0x00, CHR 0x00], [CHR 0x00, CHR 0x00, CHR 0x00, CHR 0x00], [CHR
      0x00, CHR 0x00, CHR 0x00, CHR 0x00], [CHR 0x00, CHR 0x00, CHR 0x01, CHR 0xf0]]]"

definition demo_commit_digest :: "bytes list" where
  "demo_commit_digest =
     [[CHR 0x0f, CHR 0x1a, CHR 0xbe, CHR 0xfe], [CHR 0x9c, CHR 0x8e, CHR 0xb3, CHR 0x25], [CHR 0xb8, CHR 0xe3, CHR 0x72, CHR 0xa0], [CHR 0x48, CHR 0x7c,
     CHR 0xc0, CHR 0x92], [CHR 0x89, CHR 0x48, CHR 0x0e, CHR 0xe9], [CHR 0x97, CHR 0xa5, CHR 0x2f, CHR 0x4d], [CHR 0xae, CHR 0x39, CHR 0x24, CHR 0xe4],
     [CHR 0xa4, CHR 0x68, CHR 0x68, CHR 0x56]]"

definition demo_commit_id :: BaseID where
  "demo_commit_id = bytes_word (concat demo_commit_digest)"

definition demo_commit_obj :: Object where
  "demo_commit_obj = CommitObj \<lparr>TreeHash = demo_tree_id, Parents = [], Author = ''a'', Message = ''m'', Timestamp = 7\<rparr>"

lemma demo_commit_bytes: "Serialize demo_commit_obj = [CHR 0x76, CHR 0x61, CHR 0x72, CHR 0x61, CHR 0x2d, CHR 0x63, CHR 0x6f, CHR 0x6d, CHR 0x6d, CHR 0x69, CHR 0x74, CHR 0x3a, CHR 0x76, CHR 0x31, CHR 0x00,
     CHR 0x10, CHR 0x81, CHR 0xe4, CHR 0x9b, CHR 0xe7, CHR 0x0a, CHR 0xb1, CHR 0x84, CHR 0x9d, CHR 0xfb, CHR 0x95, CHR 0xcd, CHR 0x3e, CHR 0xf1, CHR 0x44,
     CHR 0xaa, CHR 0x19, CHR 0xbb, CHR 0x23, CHR 0xab, CHR 0x59, CHR 0x07, CHR 0x58, CHR 0xbb, CHR 0x5c, CHR 0x1a, CHR 0xe9, CHR 0x81, CHR 0xaf, CHR 0xf6,
     CHR 0xc8, CHR 0x01, CHR 0x00, CHR 0x00, CHR 0x00, CHR 0x00, CHR 0x00, CHR 0x00, CHR 0x00, CHR 0x00, CHR 0x00, CHR 0x00, CHR 0x00, CHR 0x07, CHR 0x61,
     CHR 0x00, CHR 0x6d]"
  by (simp add: demo_commit_obj_def Commit_Serialize_def ObjectType_string_def small_words demo_tree_id_def demo_tree_digest_def WriteHeader_def)

lemma demo_commit_pad: "sha_pad (Serialize demo_commit_obj) = concat (map concat demo_commit_blocks)"
  unfolding demo_commit_bytes demo_commit_blocks_def by (rule sha_pad_bytes [of 57]) simp_all

lemma demo_commit_hash: "Compute (Serialize demo_commit_obj) = demo_commit_id"
  unfolding demo_commit_id_def
proof (rule Compute_blocks [OF demo_commit_pad])
  show "fold (\<lambda>c. sha_compress (map bytes_word c)) demo_commit_blocks sha_H0 = map bytes_word demo_commit_digest"
    unfolding demo_commit_blocks_def demo_commit_digest_def by (simp add: bytes_word_def demo_commit1_words demo_commit2_words)
qed (simp_all add: demo_commit_blocks_def demo_commit_digest_def)

lemma demo_ids [simp]: "demo_blob_id \<noteq> demo_tree_id" "demo_blob_id \<noteq> demo_commit_id" "demo_tree_id \<noteq> demo_commit_id"
proof -
  have "word_bytes demo_blob_id = concat demo_blob_digest" "word_bytes demo_tree_id = concat demo_tree_digest" "word_bytes demo_commit_id = concat demo_commit_digest"
    by (simp_all add: demo_blob_id_def demo_tree_id_def demo_commit_id_def demo_blob_digest_def demo_tree_digest_def demo_commit_digest_def)
  then show "demo_blob_id \<noteq> demo_tree_id" "demo_blob_id \<noteq> demo_commit_id" "demo_tree_id \<noteq> demo_commit_id" by (auto simp: demo_blob_digest_def demo_tree_digest_def demo_commit_digest_def)
qed

end
