(* ===== verification/Command_Runs.thy ===== *)
theory Command_Runs
  imports Commands Sample_Repo
begin

text \<open>
  Commands that succeed: a small calculus of total correctness for the command monad, and with it what \<^verbatim>\<open>switch\<close> and \<^verbatim>\<open>merge --abort\<close> do when the
  system calls work, the objects of the tree are there and the locks are free. The examples run on the repository of \<open>Sample_Repo\<close>.
\<close>

section \<open>Total correctness\<close>

definition runs :: "'a cmd \<Rightarrow> rstate \<Rightarrow> ('a \<Rightarrow> rstate \<Rightarrow> bool) \<Rightarrow> bool" where
  "runs m s Q \<longleftrightarrow> (\<exists>s' a. m s = Some (s', Inr a) \<and> Q a s')"

lemma runs_bind: "runs m s (\<lambda>a s'. runs (f a) s' Q) \<Longrightarrow> runs (cbind m f) s Q"
  by (auto simp: runs_def cbind_def)

lemma runs_mono: "runs m s Q \<Longrightarrow> (\<And>a s'. Q a s' \<Longrightarrow> R a s') \<Longrightarrow> runs m s R"
  by (auto simp: runs_def)

text \<open>Every system call works.\<close>

definition works :: "cmd_env \<Rightarrow> bool" where
  "works x \<longleftrightarrow> cmd_ok x \<and> x_io x = io_ok \<and> (\<forall>n. x_avail x n) \<and> (\<forall>st. x_flush x st)"

definition always :: "'a cmd \<Rightarrow> bool" where
  "always m \<longleftrightarrow> (\<forall>s. runs m s (\<lambda>_ _. True))"

lemma always_bind: "always m \<Longrightarrow> (\<And>a. always (f a)) \<Longrightarrow> always (cbind m f)"
  unfolding always_def
proof
  fix s assume a: "\<forall>s. runs m s (\<lambda>_ _. True)" "\<And>a. \<forall>s. runs (f a) s (\<lambda>_ _. True)"
  from a(1) obtain s1 b where "m s = Some (s1, Inr b)" unfolding runs_def by blast
  moreover from a(2) [of b] obtain s2 c where "f b s1 = Some (s2, Inr c)" unfolding runs_def by blast
  ultimately show "runs (cbind m f) s (\<lambda>_ _. True)" by (simp add: runs_def cbind_def)
qed

lemma runs_then: "runs m s Q \<Longrightarrow> (\<And>a. always (f a)) \<Longrightarrow> runs (cbind m f) s (\<lambda>_ _. True)"
  by (rule runs_bind) (auto simp: always_def runs_def)

lemma runs_after: "m s = Some (s', Inr a) \<Longrightarrow> runs (f a) s' Q \<Longrightarrow> runs (cbind m f) s Q"
  by (auto simp: runs_def cbind_def)

lemma atomic_works: "x_io x = io_ok \<Longrightarrow> snd (atomicWriteFile x a d fs) = Inr ()"
proof -
  have "renameFile io_ok tmp k n" for tmp k n by (cases n) (simp_all add: io_ok_def)
  then show "x_io x = io_ok \<Longrightarrow> snd (atomicWriteFile x a d fs) = Inr ()" by (simp add: atomicWriteFile_def WriteFile_def io_ok_def Let_def)
qed

lemma always_atomic: "works x \<Longrightarrow> always (on_fs m (atomicWriteFile x a d))"
  unfolding always_def
proof
  fix s :: rstate assume "works x"
  then have "atomicWriteFile x a d (r_fs s) = (fst (atomicWriteFile x a d (r_fs s)), Inr ())" by (metis atomic_works prod.collapse works_def)
  then show "runs (on_fs m (atomicWriteFile x a d)) s (\<lambda>_ _. True)" unfolding runs_def on_fs_def by (metis (no_types, lifting) old.prod.case sum.case(2))
qed

lemma always_steps:
  assumes "works x"
  shows "always (set_state x st)" "always (commit_txn x)" "always (track_ref n h)" "always (cret a)" "always get_state" "always (put_index i)"
    "always (quietly q)" "always (remove_stale x ps)" "always (ctx_writeIndex x)"
    "always (on_fs m (ClearMergeHead (x_rm x) (x_vara x)))" "always (on_fs m (MState_Clear (x_rm x) (x_vara x)))"
  using assms always_atomic [OF assms]
  by (auto simp: always_def runs_def works_def cmd_ok_def set_state_def commit_txn_def track_ref_def SetState_def Commit_txn_def flush_journal_def Let_def
      cret_def get_state_def put_index_def quietly_def remove_stale_def ctx_writeIndex_def clear_remove on_fs_remove)

section \<open>A checkout that succeeds\<close>

lemma read_outside: "outside x p \<Longrightarrow> x_read x (fs(wpath x p := v)) = x_read x fs"
proof -
  assume "outside x p"
  then have "object_path (x_store x) i \<noteq> wpath x p" for i using object_under [of x i] by (metis outside_def)
  then show ?thesis by (simp add: x_read_def Store_Read_def fun_eq_iff)
qed

text \<open>A tree whose files can all be read, none of them inside the repository directory.\<close>

definition complete :: "cmd_env \<Rightarrow> reader \<Rightarrow> string \<Rightarrow> (string \<Rightarrow> ObjectID \<Rightarrow> bool) \<Rightarrow> bool" where
  "complete x rd prefix F \<longleftrightarrow> (\<forall>q h. F q h \<longrightarrow> (\<exists>d. rd h = Inr (Blob d)) \<and> outside x (prefix @ q))"

lemma co_total:
  shows "collectFiles n rd t prefix w = Some (w', None) \<Longrightarrow> x_read x (fst st) = rd \<Longrightarrow> x_io x = io_ok \<Longrightarrow>
      complete x rd prefix (file_at rd t) \<Longrightarrow> \<exists>st'. co_tree n x t prefix st = Some (st', Inr ()) \<and> x_read x (fst st') = rd"
    and "collect_entries n rd es prefix w = Some (w', None) \<Longrightarrow> x_read x (fst st) = rd \<Longrightarrow> x_io x = io_ok \<Longrightarrow>
      complete x rd prefix (entry_at rd es) \<Longrightarrow> \<exists>st'. co_entries n x es prefix st = Some (st', Inr ()) \<and> x_read x (fst st') = rd"
proof (induction n rd t prefix w and n rd es prefix w arbitrary: w' st and w' st rule: collectFiles_collect_entries.induct)
  case (2 n rd t prefix m)
  then obtain es where es: "readTree rd t = Inr es" "collect_entries n rd es prefix m = Some (w', None)" by (auto split: sum.splits)
  have "entry_at rd es q h \<longleftrightarrow> file_at rd t q h" for q h using es(1) by (auto simp: file_at_entry readTree_iff)
  with 2 es show ?case by (simp add: complete_def)
next
  case (3 n rd prefix m)
  then show ?case by simp
next
  case (4 n rd e es prefix m)
  let ?p = "prefix @ te_Name e"
  have rest: "complete x rd prefix (entry_at rd es)" using "4.prems"(4) entry_at_mono unfolding complete_def by blast
  show ?case
  proof (cases "te_Mode e = modeSubtree")
    case True
    with "4.prems"(1) obtain m1 where m1: "collectFiles n rd (te_Hash e) (?p @ ''/'') m = Some (m1, None)" "collect_entries n rd es prefix m1 = Some (w', None)"
      by (auto simp: collect_entries.simps Let_def split: option.splits)
    have "complete x rd (?p @ ''/'') (file_at rd (te_Hash e))" using "4.prems"(4) True by (auto simp: complete_def entry_at_Cons)
    from "4.IH"(1) [OF refl True m1(1) "4.prems"(2,3) this]
    obtain st1 where st1: "co_tree n x (te_Hash e) (?p @ ''/'') st = Some (st1, Inr ())" "x_read x (fst st1) = rd" by blast
    from "4.IH"(2) [OF refl True m1(1) refl refl m1(2) st1(2) "4.prems"(3) rest] st1 True "4.prems"(3) show ?thesis by (auto simp: Let_def io_ok_def)
  next
    case False
    from "4.prems"(4) False obtain d where d: "rd (te_Hash e) = Inr (Blob d)" "outside x ?p" by (auto simp: complete_def entry_at_Cons)
    let ?st = "((fst st)(wpath x ?p \<mapsto> d), snd st @ [\<lparr>Fingerprint = x_mtime x (wpath x ?p), ie_ObjectID = te_Hash e, ie_State = StateUnmodified, ie_Path = ?p\<rparr>])"
    have "x_read x (fst ?st) = rd" using read_outside [OF d(2)] "4.prems"(2) by simp
    moreover have "collect_entries n rd es prefix (m(?p \<mapsto> te_Hash e)) = Some (w', None)" using "4.prems"(1) False by (simp add: collect_entries.simps Let_def)
    ultimately obtain st' where st': "co_entries n x es prefix ?st = Some (st', Inr ())" "x_read x (fst st') = rd"
      using "4.IH"(3) [OF refl False _ _ "4.prems"(3) rest] by blast
    have "readBlobObj (x_read x (fst st)) (te_Hash e) = Inr d" using d(1) "4.prems"(2) by (simp add: readBlobObj_iff)
    with st' False "4.prems"(3) show ?thesis by (simp add: Let_def os_WriteFile_def io_ok_def)
  qed
qed simp

lemma checkout_runs:
  assumes "works x" "collectFiles (x_depth x) (x_read x (r_fs s)) t [] Map.empty = Some (m, None)"
    and "complete x (x_read x (r_fs s)) [] (file_at (x_read x (r_fs s)) t)"
  shows "runs (checkout_new x t) s (\<lambda>_ _. True)"
proof -
  have "\<exists>st'. co_tree (x_depth x) x t [] (r_fs s, []) = Some (st', Inr ()) \<and> x_read x (fst st') = x_read x (r_fs s)"
    using co_total(1) [OF assms(2) _ _ assms(3)] assms(1) by (simp add: works_def)
  then obtain fs' es where "co_tree (x_depth x) x t [] (r_fs s, []) = Some ((fs', es), Inr ())" by auto
  then show ?thesis by (simp add: runs_def checkout_new_def)
qed

text \<open>The tree can be checked out.\<close>

definition available :: "cmd_env \<Rightarrow> fs \<Rightarrow> TreeID \<Rightarrow> bool" where
  "available x fs t \<longleftrightarrow> (\<exists>m. collectFiles (x_depth x) (x_read x fs) t [] Map.empty = Some (m, None))
     \<and> (\<forall>p h. file_at (x_read x fs) t p h \<longrightarrow> (\<exists>d. x_read x fs h = Inr (Blob d)) \<and> outside x p)"

lemma replace_runs:
  assumes "works x" "available x (r_fs s) t"
  shows "runs (replace_tree x t) s (\<lambda>_ _. True)"
proof -
  obtain m where "collectFiles (x_depth x) (x_read x (r_fs s)) t [] Map.empty = Some (m, None)" using assms(2) by (auto simp: available_def)
  then have co: "runs (checkout_new x t) s (\<lambda>_ _. True)" by (rule checkout_runs [OF assms(1)]) (use assms(2) in \<open>auto simp: available_def complete_def\<close>)
  show ?thesis unfolding replace_tree_def
    by (rule runs_after [where s' = s and a = s]) (auto simp: get_state_def intro!: runs_then [OF co] always_bind always_steps [OF assms(1)])
qed

lemma txn_runs:
  assumes "works x" "fst (r_w s) NameRefs = None" "fst (r_w s) NameIndex = None"
    and body: "\<And>s1. books s s1 \<Longrightarrow> runs body s1 (\<lambda>_ _. True)"
  shows "runs (with_txn x command body) s (\<lambda>_ _. True)"
proof -
  have "NameRefs \<noteq> NameIndex" by (simp add: NameRefs_def NameIndex_def)
  then obtain w t where b: "Begin_txn (x_avail x) (io_mkdir (x_io x) (filepath_Join (x_vara x) ''journal'')) (x_flush x StateBegin) (x_pid x) (x_vara x) (x_txid x)
             command [NameRefs, NameIndex] (r_w s) = (w, Inr t)"
    using assms(1-3) by (simp add: Begin_txn_def try_lock_def works_def io_ok_def flush_journal_def Let_def)
  have "runs body (s\<lparr>r_w := w, r_txn := t\<rparr>) (\<lambda>_ _. True)" by (rule body) (simp add: books_def)
  then obtain s2 a where "body (s\<lparr>r_w := w, r_txn := t\<rparr>) = Some (s2, Inr a)" by (auto simp: runs_def)
  with b show ?thesis by (simp add: runs_def with_txn_def split: prod.splits)
qed

lemma guarded_runs:
  assumes "works x" "fst (r_w s) NameRefs = None" "fst (r_w s) NameIndex = None" "CHR ''/'' \<notin> set command" "CHR ''/'' \<notin> set hex"
    and body: "\<And>s1. x_read x (r_fs s1) = x_read x (r_fs s) \<Longrightarrow> runs body s1 (\<lambda>_ _. True)"
  shows "runs (cbind (snapshot x command hex) (\<lambda>_. with_txn x name body)) s (\<lambda>_ _. True)"
proof -
  obtain s0 u where sn: "snapshot x command hex s = Some (s0, Inr u)" by (simp add: snapshot_def quietly_def)
  have "cmd_ok x" using assms(1) by (simp add: works_def)
  then obtain q: "quiet x (r_fs s) (r_fs s0)" "r_idx s0 = r_idx s" "r_w s0 = r_w s" using snapshotE [OF sn _ assms(4,5)] by blast
  show ?thesis
    by (rule runs_after [where m = "snapshot x command hex", OF sn], rule txn_runs [OF assms(1)]) (use q assms(2,3) body quiet_read [OF q(1)] in \<open>auto simp: books_def\<close>)
qed

lemma available_read: "x_read x fs = x_read x fs' \<Longrightarrow> available x fs t = available x fs' t"
  by (simp add: available_def)

lemma switch_body_runs:
  assumes "works x" "commitTree x target (r_fs s) = Inr t" "available x (r_fs s) t"
  shows "runs (switch_body x b ref target cid fr) s (\<lambda>_ _. True)"
proof -
  obtain s1 u where s1: "set_state x StateExecute s = Some (s1, Inr u)" using always_steps(1) [OF assms(1)] unfolding always_def runs_def by blast
  then have f: "r_fs s1 = r_fs s" using books_steps(1) by (auto simp: books_def)
  show ?thesis
    unfolding switch_body_def
    by (rule runs_after [where m = "set_state x StateExecute", OF s1], rule runs_after [of _ s1 s1 t])
      (use f assms in \<open>auto simp: reading_def intro!: runs_then [OF replace_runs] always_bind always_steps [OF assms(1)] always_atomic\<close>)
qed

lemma keeps_bind: "keeps_locks m \<Longrightarrow> (\<And>a. keeps_locks (f a)) \<Longrightarrow> keeps_locks (cbind m f)"
proof -
  assume a: "keeps_locks m" "\<And>a. keeps_locks (f a)"
  show "keeps_locks (cbind m f)"
    unfolding keeps_locks_def
  proof (intro allI impI)
    fix s s' r assume b: "cbind m f s = Some (s', r)"
    then obtain s1 r1 where m: "m s = Some (s1, r1)" by (cases "m s") (auto simp: cbind_def)
    have k: "fst (r_w s1) = fst (r_w s) \<and> t_locks (r_txn s1) = t_locks (r_txn s) \<and> t_committed (r_txn s1) = t_committed (r_txn s)"
      using a(1) m by (simp add: keeps_locks_def)
    show "fst (r_w s') = fst (r_w s) \<and> t_locks (r_txn s') = t_locks (r_txn s) \<and> t_committed (r_txn s') = t_committed (r_txn s)"
    proof (cases r1)
      case (Inl e)
      with b m k show ?thesis by (simp add: cbind_def)
    next
      case (Inr c)
      with b m have "f c s1 = Some (s', r)" by (simp add: cbind_def)
      with a(2) [of c, unfolded keeps_locks_def, rule_format, OF this] k show ?thesis by simp
    qed
  qed
qed

lemma switch_body_releases: "releases (switch_body x b ref target cid fr)"
  unfolding switch_body_def replace_tree_def
  by (intro releases_bind keeps_bind releases_commit_then keeps_locks_steps)

lemma guarded_releases:
  assumes "cbind (snapshot x command hex) (\<lambda>_. with_txn x name body) s = Some (s', r)" "releases body" "fst (r_w s) NameRefs = None" "fst (r_w s) NameIndex = None"
  shows "fst (r_w s') = fst (r_w s)"
proof -
  obtain s0 where "snapshot x command hex s = Some (s0, Inr ())" "r_w s0 = r_w s" by (simp add: snapshot_def quietly_def)
  with assms(1) have "with_txn x name body s0 = Some (s', r)" by (simp add: cbind_def)
  from with_txn_releases [OF this assms(2)] assms(3,4) \<open>r_w s0 = r_w s\<close> show ?thesis by simp
qed

lemma RunSwitch_releases:
  assumes "RunSwitch x b s = Some (s', r)" "fst (r_w s) NameRefs = None" "fst (r_w s) NameIndex = None"
  shows "fst (r_w s') = fst (r_w s)"
  using assms guarded_releases [OF _ switch_body_releases assms(2,3), of x]
  by (auto simp: RunSwitch_def Let_def cbind_lookups cfail_def cret_def split: if_splits option.splits sum.splits)

lemma RunSwitch_says:
  assumes "RunSwitch x b s = Some (s', Inr msg)" "ResolveSymbolic (x_refs x) (r_fs s) ''HEAD'' \<noteq> Inr (''refs/heads/'' @ b)"
  shows "msg = ''Switched to branch '' @ quoted b @ [LF]"
proof -
  have body: "msg = ''Switched to branch '' @ quoted b @ [LF]" if "switch_body x b ref target cid fr s1 = Some (s2, Inr msg)" for ref target cid fr s1 s2
    using that unfolding switch_body_def by (elim cbindE) simp
  have "msg = ''Switched to branch '' @ quoted b @ [LF]"
    if r: "cbind (snapshot x ''switch'' hex) (\<lambda>_. with_txn x ''switch'' (switch_body x b ref target cid fr)) s = Some (s', Inr msg)" for hex ref target cid fr
  proof -
    obtain s0 u where "with_txn x ''switch'' (switch_body x b ref target cid fr) s0 = Some (s', Inr msg)" using r by (elim cbindE) auto
    then show ?thesis by (rule with_txnE) (use body in blast)
  qed
  with assms show ?thesis by (auto simp: RunSwitch_def Let_def cbind_lookups split: if_splits option.splits sum.splits)
qed

text \<open>C12. When the system calls work, the branch names a commit whose files are in the store and the locks are free, \<^verbatim>\<open>switch\<close> succeeds: the index and the working
  directory then show exactly the tree of the branch, files that were tracked and are not in it are gone, every other file outside the repository directory is as it was,
  HEAD names the branch, and no lock is left behind.\<close>

theorem switch_works:
  assumes "works x" "b \<noteq> []" "ValidateName b = None" "Resolve_ref (x_refs x) (r_fs s) (''refs/heads/'' @ b) = Some (Inr target)"
    and "ResolveSymbolic (x_refs x) (r_fs s) ''HEAD'' \<noteq> Inr (''refs/heads/'' @ b)" "Resolve_ref (x_refs x) (r_fs s) ''HEAD'' \<noteq> None"
    and "commitTree x target (r_fs s) = Inr t" "available x (r_fs s) t" "names_ok (x_read x (r_fs s))"
    and "work_paths x (files_of x (r_fs s) t \<union> collectIndexPaths (r_idx s))" "fst (r_w s) NameRefs = None" "fst (r_w s) NameIndex = None"
  shows "\<exists>s'. RunSwitch x b s = Some (s', Inr (''Switched to branch '' @ quoted b @ [LF])) \<and> shows_tree x (r_fs s) t (collectIndexPaths (r_idx s)) s'
    \<and> r_fs s' (head_file x) = Some (ref_prefix @ (''refs/heads/'' @ b) @ [LF]) \<and> fst (r_w s') = fst (r_w s)"
proof -
  have "runs (RunSwitch x b) s (\<lambda>_ _. True)"
  proof -
    obtain h where h: "Resolve_ref (x_refs x) (r_fs s) ''HEAD'' = Some h" using assms(6) by blast
    let ?hex = "case h of Inl _ \<Rightarrow> replicate 64 (CHR ''0'') | Inr c \<Rightarrow> BaseID_String c"
    have hex: "CHR ''/'' \<notin> set ?hex" using hex_no_slash by (auto split: sum.split)
    have "runs (switch_body x b (''refs/heads/'' @ b) target cid fr) s1 (\<lambda>_ _. True)" if "x_read x (r_fs s1) = x_read x (r_fs s)" for s1 cid fr
      using that assms(7,8) available_read [OF that, of t] by (intro switch_body_runs [OF assms(1)]) (simp_all add: commitTree_def)
    from guarded_runs [OF assms(1,11,12) _ hex this] show ?thesis
      using assms(2-5) h by (simp add: runs_def RunSwitch_def Let_def cbind_lookups)
  qed
  then obtain s' msg where r: "RunSwitch x b s = Some (s', Inr msg)" by (auto simp: runs_def)
  from RunSwitch_ok [OF r assms(4,5,7) _ assms(9,10)] assms(1) RunSwitch_says [OF r assms(5)] RunSwitch_releases [OF r assms(11,12)] r
  show ?thesis by (auto simp: works_def)
qed


section \<open>Aborting a merge\<close>

lemma abort_body_runs:
  assumes "works x" "available x (r_fs s) t"
  shows "runs (abort_body x head t) s (\<lambda>_ _. True)"
proof -
  obtain s1 u where s1: "set_state x StateExecute s = Some (s1, Inr u)" using always_steps(1) [OF assms(1)] unfolding always_def runs_def by blast
  then have f: "r_fs s1 = r_fs s" using books_steps(1) by (auto simp: books_def)
  show ?thesis
    unfolding abort_body_def
    by (rule runs_after [where m = "set_state x StateExecute", OF s1])
      (use f assms in \<open>auto intro!: runs_then [OF replace_runs] always_bind always_steps [OF assms(1)]\<close>)
qed

lemma abort_body_releases: "releases (abort_body x head t)"
  unfolding abort_body_def replace_tree_def by (intro releases_bind keeps_bind releases_commit_then keeps_locks_steps)

text \<open>A file of the user is as HEAD has it.\<close>

definition intact :: "cmd_env \<Rightarrow> rstate \<Rightarrow> TreeID \<Rightarrow> string \<Rightarrow> bool" where
  "intact x s t p \<longleftrightarrow>
     (\<forall>h. file_at (x_read x (r_fs s)) t p h \<longrightarrow> (\<exists>d. r_fs s (wpath x p) = Some d \<and> x_read x (r_fs s) h = Inr (Blob d)))
     \<and> (p \<notin> files_of x (r_fs s) t \<longrightarrow> r_fs s (wpath x p) = None)"

lemma abort_steps:
  assumes "works x" "names_ok (x_read x (r_fs s))" "available x (r_fs s) t" "MState_Read (x_unjson x) (x_vara x) (r_fs s) = Inr rec"
  obtains m where "treeBlobs x t s = Some (s, Inr m)"
    "abort_blocked x m (r_fs s) (x_ord x (abort_paths (r_idx s) m rec)) \<longleftrightarrow> \<not> (\<forall>p \<in> users_files x s t. intact x s t p)"
proof -
  obtain m where c: "collectFiles (x_depth x) (x_read x (r_fs s)) t [] Map.empty = Some (m, None)" using assms(3) by (auto simp: available_def)
  then have tb: "treeBlobs x t s = Some (s, Inr m)" by (simp add: treeBlobs_def)
  note m = treeBlobs_exact [OF tb assms(2)]
  have "finite (abort_paths (r_idx s) m rec)" using m(2) by (auto simp: abort_paths_def Let_def)
  then have ord: "set (x_ord x (abort_paths (r_idx s) m rec)) = abort_paths (r_idx s) m rec" using assms(1) by (simp add: works_def cmd_ok_def key_order_def)
  have paths: "p \<in> abort_paths (r_idx s) m rec \<longleftrightarrow> p \<in> users_files x s t" for p
    using assms(4) m(1) index_map_None [of "r_idx s" p] by (auto simp: abort_paths_def users_files_def files_of_def Let_def dom_def split: option.splits)
  have safe: "kept_safe x m (r_fs s) p \<longleftrightarrow> intact x s t p" for p
  proof (cases "m p")
    case None
    then have "\<not> file_at (x_read x (r_fs s)) t p h" for h using m(1) by (metis option.distinct(1))
    with None show ?thesis by (auto simp: kept_safe_def intact_def files_of_def)
  next
    case (Some h)
    then have "file_at (x_read x (r_fs s)) t p h' \<longleftrightarrow> h' = h" for h' using m(1) [of p h'] by auto
    with Some show ?thesis by (auto simp: kept_safe_def intact_def files_of_def)
  qed
  show thesis
    by (rule that [OF tb]) (use ord paths safe in \<open>auto simp: abort_blocked_def list_ex_iff clobbers_iff\<close>)
qed

lemma abort_restored:
  assumes "RunMergeAbort x s = Some (s', Inr msg)" "Resolve_ref (x_refs x) (r_fs s) ''HEAD'' = Some (Inr head)" "commitTree x head (r_fs s) = Inr t"
    and "cmd_ok x" "names_ok (x_read x (r_fs s))" "work_paths x (files_of x (r_fs s) t \<union> collectIndexPaths (r_idx s))"
  shows "shows_tree x (r_fs s) t (collectIndexPaths (r_idx s)) s' \<and> \<not> MergeInProgress (x_vara x) (r_fs s')
    \<and> r_fs s' (conflicts_path (x_vara x)) = None \<and> (\<forall>p \<in> users_files x s t. r_fs s' (wpath x p) = r_fs s (wpath x p))"
proof -
  obtain m rec where c: "treeBlobs x t s = Some (s, Inr m)" "MState_Read (x_unjson x) (x_vara x) (r_fs s) = Inr rec"
      "\<forall>p \<in> set (x_ord x (abort_paths (r_idx s) m rec)). kept_safe x m (r_fs s) p"
      "cbind (snapshot x ''merge-abort'' (BaseID_String head)) (\<lambda>_. with_txn x ''merge-abort'' (abort_body x head t)) s = Some (s', Inr msg)"
  proof (cases rule: RunMergeAbort_cases [OF assms(1), case_names steps])
    case (steps head' t' m rec)
    then have "head' = head" "t' = t" using assms(2,3) by simp_all
    with steps show thesis by (intro that) simp_all
  qed
  have "shows_tree x (r_fs s) t (collectIndexPaths (r_idx s)) s' \<and> (\<lambda>fs. \<not> MergeInProgress (x_vara x) fs \<and> fs (conflicts_path (x_vara x)) = None) (r_fs s')"
  proof (rule guarded_ok [OF c(4) assms(4) _ hex_no_slash assms(5,6)])
    fix s1 s2
    assume b: "abort_body x head t s1 = Some (s2, Inr msg)" "names_ok (x_read x (r_fs s1))"
      "work_paths x (files_of x (r_fs s1) t \<union> collectIndexPaths (r_idx s1))"
    from abort_body_ok [OF b(1) assms(4) b(2,3)]
    show "shows_tree x (r_fs s1) t (collectIndexPaths (r_idx s1)) s2
        \<and> (\<lambda>fs. \<not> MergeInProgress (x_vara x) fs \<and> fs (conflicts_path (x_vara x)) = None) (r_fs s2)" by simp
  qed simp
  moreover have "key_order (x_ord x)" using assms(4) by (simp add: cmd_ok_def)
  ultimately show ?thesis using abort_keeps [OF c(3,1,2) _ _ assms(5)] by blast
qed

text \<open>C13. While a merge is in progress and the system calls work, \<^verbatim>\<open>merge --abort\<close> refuses, changing nothing, exactly when a file of HEAD or of the index that the merge
  did not touch differs from HEAD; otherwise it succeeds: the index and the working directory show exactly the tree of HEAD, no merge is in progress, the conflict
  record is gone, no file of the user has changed, and no lock is left behind.\<close>

theorem abort_exact:
  assumes "works x" "MergeInProgress (x_vara x) (r_fs s)" "Resolve_ref (x_refs x) (r_fs s) ''HEAD'' = Some (Inr head)" "commitTree x head (r_fs s) = Inr t"
    and "available x (r_fs s) t" "names_ok (x_read x (r_fs s))" "MState_Read (x_unjson x) (x_vara x) (r_fs s) = Inr rec"
    and "work_paths x (files_of x (r_fs s) t \<union> collectIndexPaths (r_idx s))" "fst (r_w s) NameRefs = None" "fst (r_w s) NameIndex = None"
  shows "if \<forall>p \<in> users_files x s t. intact x s t p
    then \<exists>s' msg. RunMergeAbort x s = Some (s', Inr msg) \<and> shows_tree x (r_fs s) t (collectIndexPaths (r_idx s)) s'
      \<and> \<not> MergeInProgress (x_vara x) (r_fs s') \<and> r_fs s' (conflicts_path (x_vara x)) = None
      \<and> (\<forall>p \<in> users_files x s t. r_fs s' (wpath x p) = r_fs s (wpath x p)) \<and> fst (r_w s') = fst (r_w s)
    else RunMergeAbort x s = Some (s, Inl (CErr ''cannot abort''))"
proof -
  obtain m where m: "treeBlobs x t s = Some (s, Inr m)"
    "abort_blocked x m (r_fs s) (x_ord x (abort_paths (r_idx s) m rec)) \<longleftrightarrow> \<not> (\<forall>p \<in> users_files x s t. intact x s t p)"
    using abort_steps [OF assms(1,6,5,7)] .
  let ?go = "cbind (snapshot x ''merge-abort'' (BaseID_String head)) (\<lambda>_. with_txn x ''merge-abort'' (abort_body x head t))"
  have run: "RunMergeAbort x s = (if \<forall>p \<in> users_files x s t. intact x s t p then ?go s else Some (s, Inl (CErr ''cannot abort'')))"
    using assms(2-4,7) m by (simp add: RunMergeAbort_def cbind_lookups cbind_def reading_def get_state_def resolve_def cfail_def)
  have body: "runs (abort_body x head t) s1 (\<lambda>_ _. True)" if "x_read x (r_fs s1) = x_read x (r_fs s)" for s1
    using abort_body_runs [OF assms(1)] available_read [OF that] assms(5) by blast
  have "runs ?go s (\<lambda>_ _. True)" by (rule guarded_runs [OF assms(1,9,10) _ hex_no_slash body]) simp
  then obtain s' msg where go: "?go s = Some (s', Inr msg)" by (auto simp: runs_def)
  show ?thesis
  proof (cases "\<forall>p \<in> users_files x s t. intact x s t p")
    case True
    with run go have r: "RunMergeAbort x s = Some (s', Inr msg)" by simp
    from abort_restored [OF r assms(3,4) _ assms(6,8)] guarded_releases [OF go abort_body_releases assms(9,10)] r True assms(1)
    show ?thesis by (auto simp: works_def)
  next
    case False
    then show ?thesis using run unfolding if_not_P [OF False] by blast
  qed
qed


section \<open>A sample repository\<close>

definition demo_record :: MState where
  "demo_record = \<lparr>ms_Version = 1, ms_OurLabel = ''main'', ms_TheirLabel = ''dev'',
     ms_Entries = [\<lparr>cf_Path = ''f'', cf_Kind = KindContent, cf_Base = \<lparr>sd_Present = False, sd_Blob = []\<rparr>,
       cf_Ours = \<lparr>sd_Present = True, sd_Blob = BaseID_String demo_blob_id\<rparr>, cf_Theirs = \<lparr>sd_Present = True, sd_Blob = []\<rparr>, cf_Resolved = False\<rparr>],
     ms_MergeTouched = []\<rparr>"

definition demo_x :: cmd_env where
  "demo_x = \<lparr>x_root = ''/w'', x_vara = ''/w/.vara'', x_zstd = zstd_id, x_io = io_ok, x_retries = 0, x_rm = (\<lambda>_. True), x_depth = 1, x_mtime = (\<lambda>_. 0),
     x_now = 0, x_stamp = 7, x_author = Some ''a'', x_actor = ''a'', x_ord = sorted_list_of_set, x_json = (\<lambda>_. Some ''c''), x_unjson = (\<lambda>_. Some demo_record),
     x_visits = (\<lambda>_. None), x_walk = (\<lambda>_. None), x_codec = marked_codec, x_avail = (\<lambda>_. True), x_flush = (\<lambda>_. True), x_pid = 1, x_txid = ''1'',
     x_timestamp = ''t''\<rparr>"

definition demo_objects :: fs where
  "demo_objects = [object_path (NewStore ''/w/.vara'') demo_blob_id \<mapsto> Serialize demo_blob_obj,
     object_path (NewStore ''/w/.vara'') demo_tree_id \<mapsto> Serialize demo_tree_obj,
     object_path (NewStore ''/w/.vara'') demo_commit_id \<mapsto> Serialize demo_commit_obj]"

definition demo_files :: "(path \<times> bytes) list" where
  "demo_files = [(''/w/.vara/HEAD'', ''ref: refs/heads/main'' @ [LF]), (''/w/.vara/refs/heads/main'', BaseID_String demo_commit_id @ [LF]),
     (''/w/.vara/refs/heads/dev'', BaseID_String demo_commit_id @ [LF]), (''/w/.vara/MERGE_HEAD'', BaseID_String demo_commit_id), (''/w/.vara/CONFLICTS'', ''c''),
     (''/w/f'', ''<<<''), (''/w/g'', ''old''), (''/w/u'', ''note'')]"

definition demo_fs :: fs where "demo_fs = demo_objects ++ map_of demo_files"

definition demo_state :: "string \<Rightarrow> rstate" where
  "demo_state p = \<lparr>r_fs = demo_fs, r_idx = \<lparr>Entries = [\<lparr>Fingerprint = 0, ie_ObjectID = demo_blob_id, ie_State = StateUnmodified, ie_Path = p\<rparr>]\<rparr>,
     r_w = (Map.empty, Map.empty),
     r_txn = \<lparr>t_id = [], t_j = \<lparr>j_ID = [], j_State = StateBegin, j_Command = [], j_Objects = [], j_Refs = Map.empty\<rparr>, t_path = [], t_locks = [], t_committed = True\<rparr>\<rparr>"

lemma demo_sel [simp]:
  "x_root demo_x = ''/w''" "x_vara demo_x = ''/w/.vara''" "x_zstd demo_x = zstd_id" "x_io demo_x = io_ok" "x_rm demo_x = (\<lambda>_. True)" "x_depth demo_x = 1"
  "x_ord demo_x = sorted_list_of_set" "x_unjson demo_x = (\<lambda>_. Some demo_record)" "x_avail demo_x = (\<lambda>_. True)" "x_flush demo_x = (\<lambda>_. True)"
  "x_timestamp demo_x = ''t''" "r_fs (demo_state p) = demo_fs" "r_w (demo_state p) = (Map.empty, Map.empty)" "collectIndexPaths (r_idx (demo_state p)) = {p}"
  by (simp_all add: demo_x_def demo_state_def collectIndexPaths_def)

lemma demo_short: "length a < 70 \<Longrightarrow> demo_fs a = map_of demo_files a"
proof -
  assume a: "length a < 70"
  have "a \<noteq> object_path (NewStore ''/w/.vara'') i" for i using a length_object_path [of "NewStore ''/w/.vara''" i] by (auto simp: NewStore_def)
  then have "demo_objects a = None" by (simp add: demo_objects_def)
  then show ?thesis by (simp add: demo_fs_def map_add_def split: option.split)
qed

lemma demo_object: "demo_fs (object_path (NewStore ''/w/.vara'') i) = demo_objects (object_path (NewStore ''/w/.vara'') i)"
proof -
  have "length (object_path (NewStore ''/w/.vara'') i) = 74" by (simp add: length_object_path NewStore_def)
  moreover have "\<forall>a \<in> fst ` set demo_files. length a < 70" by (simp add: demo_files_def)
  ultimately have "map_of demo_files (object_path (NewStore ''/w/.vara'') i) = None" by (force simp: map_of_eq_None_iff)
  then show ?thesis by (simp add: demo_fs_def map_add_def)
qed

lemma demo_read:
  "x_read demo_x demo_fs i =
     (if i = demo_blob_id then Inr demo_blob_obj else if i = demo_tree_id then Inr demo_tree_obj else if i = demo_commit_id then Inr demo_commit_obj
      else Inl ErrObjectNotFound)"
proof -
  have wf: "wf_object demo_blob_obj" "wf_object demo_tree_obj" "wf_object demo_commit_obj"
    by (simp_all add: demo_blob_obj_def demo_tree_obj_def demo_commit_obj_def)
  have st: "x_store demo_x = NewStore ''/w/.vara''" by (simp add: x_store_def)
  show ?thesis
    unfolding x_read_def Store_Read_def st demo_object demo_objects_def
    using wf demo_ids objects.dec_enc by (simp add: zstd_id_def demo_blob_hash demo_tree_hash demo_commit_hash)
qed


lemmas demo_ids_sym [simp] = demo_ids [symmetric]

lemma shows_treeD:
  assumes "shows_tree x fs t P s"
  shows "file_at (x_read x fs) t p h \<Longrightarrow> \<exists>d. x_read x fs h = Inr (Blob d) \<and> r_fs s (wpath x p) = Some d"
    "p \<in> P \<Longrightarrow> p \<notin> files_of x fs t \<Longrightarrow> r_fs s (wpath x p) = None"
    "\<not> Snapshots.under (x_vara x) a \<Longrightarrow> a \<notin> wpath x ` (files_of x fs t \<union> P) \<Longrightarrow> r_fs s a = fs a"
  using assms by (auto simp: shows_tree_def)

lemma demo_tree: "file_at (x_read demo_x demo_fs) demo_tree_id p h \<longleftrightarrow> p = ''f'' \<and> h = demo_blob_id"
proof -
  have "x_read demo_x demo_fs demo_tree_id = Inr (Tree [\<lparr>te_Mode = 33188, te_Hash = demo_blob_id, te_Name = ''f''\<rparr>])"
    by (simp add: demo_read demo_tree_obj_def)
  then have "file_at (x_read demo_x demo_fs) demo_tree_id p h \<longleftrightarrow>
      entry_at (x_read demo_x demo_fs) [\<lparr>te_Mode = 33188, te_Hash = demo_blob_id, te_Name = ''f''\<rparr>] p h"
    by (subst file_at_entry) simp
  then show ?thesis by (simp add: entry_at_def modeSubtree_def)
qed

lemma demo_files_of: "files_of demo_x demo_fs demo_tree_id = {''f''}"
  by (simp add: files_of_def demo_tree)

lemma demo_paths:
  "wpath demo_x ''f'' = ''/w/f''" "wpath demo_x ''g'' = ''/w/g''" "wpath demo_x ''u'' = ''/w/u''" "head_file demo_x = ''/w/.vara/HEAD''"
  "merge_head_path ''/w/.vara'' = ''/w/.vara/MERGE_HEAD''" "conflicts_path ''/w/.vara'' = ''/w/.vara/CONFLICTS''"
  "refPath (x_refs demo_x) ''HEAD'' = ''/w/.vara/HEAD''" "refPath (x_refs demo_x) ''refs/heads/main'' = ''/w/.vara/refs/heads/main''"
  "refPath (x_refs demo_x) ''refs/heads/dev'' = ''/w/.vara/refs/heads/dev''"
  unfolding wpath_def head_file_def x_refs_def merge_head_path_def conflicts_path_def demo_sel by code_simp+

lemma demo_works: "works demo_x"
proof -
  have "clean_dir ''/w/.vara''" by code_simp
  then show ?thesis by (simp add: works_def cmd_ok_def sorted_key_order)
qed

lemma demo_outside: "outside demo_x ''f''" "outside demo_x ''g''" "work_paths demo_x {''f'', ''g''}" "work_paths demo_x {''f''}"
  by (auto simp: outside_def work_paths_def demo_paths Snapshots.under_def HasPrefix_def inj_on_def)

lemma demo_names: "names_ok (x_read demo_x demo_fs)"
  by (auto simp: names_ok_def demo_read demo_blob_obj_def demo_tree_obj_def demo_commit_obj_def split: if_splits)

lemma demo_available: "available demo_x demo_fs demo_tree_id"
proof -
  have "readTree (x_read demo_x demo_fs) demo_tree_id = Inr [\<lparr>te_Mode = 33188, te_Hash = demo_blob_id, te_Name = ''f''\<rparr>]"
    using demo_ids by (simp add: readTree_iff demo_read demo_tree_obj_def)
  then have "collectFiles (Suc 0) (x_read demo_x demo_fs) demo_tree_id [] Map.empty = Some ([''f'' \<mapsto> demo_blob_id], None)"
    by (simp add: collectFiles.simps collect_entries.simps modeSubtree_def)
  then show ?thesis by (auto simp: available_def demo_tree demo_read demo_blob_obj_def demo_outside)
qed

lemma demo_commit: "commitTree demo_x demo_commit_id demo_fs = Inr demo_tree_id"
  using demo_ids by (simp add: commitTree_def bind_res_eq_Inr readCommit_iff demo_read demo_commit_obj_def)

lemma demo_refs:
  "Resolve_ref (x_refs demo_x) demo_fs (''refs/heads/'' @ ''dev'') = Some (Inr demo_commit_id)" "Resolve_ref (x_refs demo_x) demo_fs ''HEAD'' = Some (Inr demo_commit_id)"
  "ResolveSymbolic (x_refs demo_x) demo_fs ''HEAD'' = Inr ''refs/heads/main''"
proof -
  have c: "ref_content (x_refs demo_x) demo_fs ''HEAD'' = Some ''ref: refs/heads/main''" "ref_content (x_refs demo_x) demo_fs ''refs/heads/main'' = Some (BaseID_String demo_commit_id)"
      "ref_content (x_refs demo_x) demo_fs ''refs/heads/dev'' = Some (BaseID_String demo_commit_id)"
    using sample_trim by (simp_all add: ref_content_def demo_paths demo_short demo_files_def)
  have s: "sym_step (x_refs demo_x) demo_fs ''HEAD'' = Some ''refs/heads/main''" "sym_step (x_refs demo_x) demo_fs ''refs/heads/main'' = None"
      "sym_step (x_refs demo_x) demo_fs ''refs/heads/dev'' = None"
    using c by (simp_all add: sym_step_def) (simp add: ref_prefix_def HasPrefix_def TrimPrefix_def)
  have d: "resolves (x_refs demo_x) demo_fs 0 ''refs/heads/main'' demo_commit_id" "resolves (x_refs demo_x) demo_fs 0 ''refs/heads/dev'' demo_commit_id"
    by (rule resolves.direct [OF s(2) c(2)], simp) (rule resolves.direct [OF s(3) c(3)], simp)
  show "Resolve_ref (x_refs demo_x) demo_fs (''refs/heads/'' @ ''dev'') = Some (Inr demo_commit_id)"
    using resolve_loop_complete [OF d(2), of "{}"] by (simp add: Resolve_ref_def)
  show "Resolve_ref (x_refs demo_x) demo_fs ''HEAD'' = Some (Inr demo_commit_id)"
    using resolve_loop_complete [OF resolves.symbolic [OF s(1) d(1)], of "{}"] by (simp add: Resolve_ref_def)
  show "ResolveSymbolic (x_refs demo_x) demo_fs ''HEAD'' = Inr ''refs/heads/main''"
    using c(1) by (simp add: ResolveSymbolic_def ref_prefix_def HasPrefix_def TrimPrefix_def)
qed

theorem switch_works_witness:
  "\<exists>s'. RunSwitch demo_x ''dev'' (demo_state ''g'') = Some (s', Inr (''Switched to branch '' @ quoted ''dev'' @ [LF]))
     \<and> r_fs s' ''/w/f'' = Some ''x'' \<and> r_fs s' ''/w/g'' = None \<and> r_fs s' ''/w/u'' = Some ''note''
     \<and> r_fs s' ''/w/.vara/HEAD'' = Some (''ref: refs/heads/dev'' @ [LF])"
proof -
  have v: "ValidateName ''dev'' = None" by code_simp
  obtain s' where r: "RunSwitch demo_x ''dev'' (demo_state ''g'') = Some (s', Inr (''Switched to branch '' @ quoted ''dev'' @ [LF]))"
      and sh: "shows_tree demo_x demo_fs demo_tree_id {''g''} s'" and h: "r_fs s' (head_file demo_x) = Some (ref_prefix @ (''refs/heads/'' @ ''dev'') @ [LF])"
    using switch_works [OF demo_works _ v, of "demo_state ''g''" demo_commit_id demo_tree_id] demo_refs demo_commit demo_available demo_names demo_outside(3)
    by (auto simp: demo_files_of insert_commute)
  have "r_fs s' ''/w/f'' = Some ''x''"
    using shows_treeD(1) [OF sh, of "''f''" demo_blob_id] by (simp add: demo_tree demo_read demo_blob_obj_def demo_paths)
  moreover have "r_fs s' ''/w/g'' = None" using shows_treeD(2) [OF sh, of "''g''"] by (simp add: demo_paths demo_files_of)
  moreover have "r_fs s' ''/w/u'' = Some ''note''"
    using shows_treeD(3) [OF sh, of "''/w/u''"] by (simp add: demo_files_of demo_paths Snapshots.under_def HasPrefix_def demo_short demo_files_def)
  ultimately show ?thesis using r h by (auto simp: demo_paths ref_prefix_def)
qed

theorem abort_exact_witness:
  "\<exists>s' msg. RunMergeAbort demo_x (demo_state ''f'') = Some (s', Inr msg) \<and> r_fs s' ''/w/f'' = Some ''x'' \<and> r_fs s' ''/w/.vara/MERGE_HEAD'' = None"
proof -
  have m: "MergeInProgress (x_vara demo_x) demo_fs" by (simp add: MergeInProgress_def demo_paths demo_short demo_files_def)
  have rec: "MState_Read (x_unjson demo_x) (x_vara demo_x) demo_fs = Inr (Some demo_record)"
    by (simp add: MState_Read_def demo_paths demo_short demo_files_def)
  have "index_map (r_idx (demo_state ''f'')) p \<noteq> None \<longleftrightarrow> p = ''f''" for p by (auto simp: index_map_def demo_state_def StateUnmodified_def StateDeleted_def)
  then have u: "users_files demo_x (demo_state ''f'') demo_tree_id = {}"
    using rec by (auto simp: users_files_def demo_files_of MergeInvolved_def MState_Lookup_def demo_record_def)
  from abort_exact [where s = "demo_state ''f''", OF demo_works, of demo_commit_id demo_tree_id "Some demo_record"] m rec demo_refs(2) demo_commit demo_available
    demo_names demo_outside(4)
  obtain s' msg where r: "RunMergeAbort demo_x (demo_state ''f'') = Some (s', Inr msg)" "shows_tree demo_x demo_fs demo_tree_id {''f''} s'"
      "\<not> MergeInProgress ''/w/.vara'' (r_fs s')"
    by (auto simp: u demo_files_of)
  have "r_fs s' ''/w/f'' = Some ''x''"
    using shows_treeD(1) [OF r(2), of "''f''" demo_blob_id] by (simp add: demo_tree demo_read demo_blob_obj_def demo_paths)
  with r show ?thesis by (auto simp: MergeInProgress_def demo_paths)
qed

end
