(* ===== verification/Commit_Command.thy ===== *)
theory Commit_Command
  imports Command_Runs
begin

text \<open>
  What \<^verbatim>\<open>vara commit\<close> records: the tree of the index, the parents, and the branch of HEAD that moves. The steps after the commit object is written change neither objects nor
  references, which the relation \<open>settled\<close> expresses.
\<close>

section \<open>Steps that keep objects and references\<close>

definition ref_file :: "cmd_env \<Rightarrow> path \<Rightarrow> bool" where
  "ref_file x a \<longleftrightarrow> a = head_file x \<or> HasPrefix a (x_vara x @ ''/refs/'')"

definition settled :: "cmd_env \<Rightarrow> fs \<Rightarrow> fs \<Rightarrow> bool" where
  "settled x fs fs' \<longleftrightarrow> quiet x fs fs' \<and> (\<forall>a. ref_file x a \<longrightarrow> fs' a = fs a)"

text \<open>Names of files in the repository directory that are neither objects nor references.\<close>

definition side_name :: "string \<Rightarrow> bool" where
  "side_name n \<longleftrightarrow> plain_name n \<and> meta n \<and> hd n \<noteq> CHR ''H'' \<and> hd n \<noteq> CHR ''r''"

lemma settled_refl [simp]: "settled x fs fs" by (simp add: settled_def)

lemma settled_trans: "settled x a b \<Longrightarrow> settled x b c \<Longrightarrow> settled x a c"
  using quiet_trans by (auto simp: settled_def)

lemma settled_outside: "settled x fs fs' \<Longrightarrow> \<not> Snapshots.under (x_vara x) a \<Longrightarrow> fs' a = fs a"
  using quiet_outside by (auto simp: settled_def)

lemma head_file_eq: "clean_dir (x_vara x) \<Longrightarrow> head_file x = x_vara x @ ''/HEAD''"
  using Join_plain [of "x_vara x" "''HEAD''"] by (simp add: head_file_def plain_name_def Split_def)

lemma side_path:
  assumes "clean_dir (x_vara x)" "side_name n"
  shows "\<not> ref_file x (filepath_Join (x_vara x) n @ r)" "meta_path x (filepath_Join (x_vara x) n)"
proof -
  have j: "filepath_Join (x_vara x) n = x_vara x @ ''/'' @ n" using Join_plain assms by (simp add: side_name_def)
  have "n \<noteq> []" using assms(2) by (auto simp: side_name_def meta_def)
  then show "\<not> ref_file x (filepath_Join (x_vara x) n @ r)"
    using assms j by (cases n) (auto simp: ref_file_def head_file_eq HasPrefix_iff side_name_def)
  show "meta_path x (filepath_Join (x_vara x) n)" using meta_path_plain assms by (simp add: side_name_def)
qed

lemma settled_steps:
  assumes "clean_dir (x_vara x)" "side_name n"
  shows "settled x fs (fst (atomicWriteFile x (filepath_Join (x_vara x) n) d fs))" "settled x fs (fs(filepath_Join (x_vara x) n := v))"
proof -
  let ?a = "filepath_Join (x_vara x) n"
  note p = side_path [OF assms]
  obtain tr r where w: "WriteFile (x_io x) (x_retries x) (?a @ ''.tmp'') ?a d fs = (tr, r)" by fastforce
  have "last tr \<in> set tr" using WriteFile_trace_nonempty [of "x_io x" "x_retries x" "?a @ ''.tmp''" ?a d fs] w by simp
  then have "last tr q = fs q" if "ref_file x q" for q
    using WriteFile_frame [of q "?a @ ''.tmp''" ?a "last tr" "x_io x" "x_retries x" d fs] w that p(1) [of "''.tmp''"] p(1) [of "[]"] by auto
  then show "settled x fs (fst (atomicWriteFile x ?a d fs))" using quiet_WriteFile [OF p(2), of fs d] by (simp add: settled_def atomicWriteFile_def w)
  show "settled x fs (fs(?a := v))" using quiet_upd [OF p(2)] p(1) [of "[]"] by (auto simp: settled_def)
qed

lemma side_names: "side_name ''index''" "side_name ''graph.idx''" "side_name ''MERGE_HEAD''" "side_name ''CONFLICTS''" "side_name ''logs/HEAD''"
  by (simp_all add: side_name_def plain_name_def meta_def Split_def)

lemma log_side: "plain_name ref \<Longrightarrow> side_name (''logs/'' @ ref)"
  using Split_append [of "CHR ''/''" "''logs''" ref] by (auto simp: side_name_def plain_name_def meta_def)

lemma settled_log:
  assumes "clean_dir (x_vara x)" "plain_name ref"
  shows "settled x fs (fst (log_append x ref old new msg fs))"
  using settled_steps(2) [OF assms(1) log_side [OF assms(2)]]
  by (auto simp: log_append_def Reflog_Append_def reflogPath_def x_logs_def Let_def)

section \<open>The references of HEAD\<close>

lemma length_TrimSpace: "length (TrimSpace s) \<le> length s"
proof -
  have "length (trim_runes n rs t) \<le> length t" for n rs t
    by (induction n rs t rule: trim_runes.induct) (auto split: option.split intro: order.trans)
  then show ?thesis unfolding TrimSpace_def Let_def length_rev by (metis length_rev order.trans)
qed

lemma refPath_eq: "clean_dir (x_vara x) \<Longrightarrow> plain_name n \<Longrightarrow> refPath (x_refs x) n = x_vara x @ ''/'' @ n"
  using Join_plain by (simp add: refPath_def x_refs_def)

text \<open>HEAD is on a branch.\<close>

definition on_branch :: "cmd_env \<Rightarrow> fs \<Rightarrow> string \<Rightarrow> bool" where
  "on_branch x fs ref \<longleftrightarrow> plain_name ref \<and> HasPrefix ref ''refs/'' \<and> ResolveSymbolic (x_refs x) fs ''HEAD'' = Inr ref
     \<and> sym_step (x_refs x) fs ref = None \<and> fs (refPath (x_refs x) ref @ ''.lock'') = None"

lemma branch_names:
  assumes "on_branch x fs ref" "clean_dir (x_vara x)"
  shows "refPath (x_refs x) ref = x_vara x @ ''/'' @ ref" "ref_file x (refPath (x_refs x) ref)" "meta_path x (refPath (x_refs x) ref)"
    "refPath (x_refs x) ''HEAD'' = head_file x" "refPath (x_refs x) ref \<noteq> head_file x" "refPath (x_refs x) ref @ ''.lock'' \<noteq> head_file x"
    "filepath_Join (x_vara x) ref = refPath (x_refs x) ref"
proof -
  have p: "plain_name ref" "HasPrefix ref ''refs/''" using assms(1) by (simp_all add: on_branch_def)
  then show r: "refPath (x_refs x) ref = x_vara x @ ''/'' @ ref" using refPath_eq [OF assms(2)] by simp
  obtain q where q: "ref = ''refs/'' @ q" using p(2) by (auto simp: HasPrefix_iff)
  with r show "ref_file x (refPath (x_refs x) ref)" by (simp add: ref_file_def HasPrefix_iff)
  show "meta_path x (refPath (x_refs x) ref)" using r q by (auto simp: meta_path_def meta_def)
  show "refPath (x_refs x) ''HEAD'' = head_file x" by (simp add: refPath_def x_refs_def head_file_def)
  show "refPath (x_refs x) ref \<noteq> head_file x" "refPath (x_refs x) ref @ ''.lock'' \<noteq> head_file x" using r q assms(2) by (auto simp: head_file_eq)
  show "filepath_Join (x_vara x) ref = refPath (x_refs x) ref" by (simp add: refPath_def x_refs_def)
qed

text \<open>What is read of the references when HEAD is on a branch.\<close>

lemma branch_steps:
  assumes "on_branch x fs ref" "clean_dir (x_vara x)"
  shows "sym_step (x_refs x) fs ''HEAD'' = Some ref" "leads (x_refs x) fs ''HEAD'' ref" "follow (x_refs x) fs ''HEAD'' = Some ref"
    "\<exists>d. fs (head_file x) = Some d \<and> d \<noteq> [] \<and> HasPrefix (TrimSpace d) ref_prefix \<and> TrimPrefix (TrimSpace d) ref_prefix = ref"
proof -
  have sy: "ResolveSymbolic (x_refs x) fs ''HEAD'' = Inr ref" "sym_step (x_refs x) fs ref = None" using assms(1) by (simp_all add: on_branch_def)
  show s: "sym_step (x_refs x) fs ''HEAD'' = Some ref" using sy(1) by (auto simp: ResolveSymbolic_def sym_step_def split: option.splits if_splits)
  show l: "leads (x_refs x) fs ''HEAD'' ref" by (rule leads.step [OF s leads.stop [OF sy(2)]])
  show "follow (x_refs x) fs ''HEAD'' = Some ref" using follow_complete [OF l] .
  obtain d where d: "fs (head_file x) = Some d" "HasPrefix (TrimSpace d) ref_prefix" "TrimPrefix (TrimSpace d) ref_prefix = ref"
    using s branch_names(4) [OF assms] by (auto simp: sym_step_def ref_content_def split: option.splits if_splits)
  have "d \<noteq> []" using d(2) by (auto simp: ref_prefix_def HasPrefix_def TrimSpace_def)
  with d show "\<exists>d. fs (head_file x) = Some d \<and> d \<noteq> [] \<and> HasPrefix (TrimSpace d) ref_prefix \<and> TrimPrefix (TrimSpace d) ref_prefix = ref" by blast
qed

text \<open>The parent a commit takes from HEAD is the commit HEAD resolves to.\<close>

definition head_commit :: "cmd_env \<Rightarrow> fs \<Rightarrow> CommitID list" where
  "head_commit x fs = (case Resolve_ref (x_refs x) fs ''HEAD'' of Some (Inr p) \<Rightarrow> [p] | _ \<Rightarrow> [])"

lemma head_parents_branch:
  assumes "on_branch x fs ref" "clean_dir (x_vara x)"
  shows "head_parents x fs = head_commit x fs"
proof -
  obtain d where d: "fs (head_file x) = Some d" "d \<noteq> []" "HasPrefix (TrimSpace d) ref_prefix" "TrimPrefix (TrimSpace d) ref_prefix = ref"
    using branch_steps(4) [OF assms] by blast
  have sy: "sym_step (x_refs x) fs ref = None" using assms(1) by (simp add: on_branch_def)
  have "ref \<noteq> ''HEAD''" using assms(1) by (auto simp: on_branch_def HasPrefix_def)
  then have r: "Resolve_ref (x_refs x) fs ''HEAD'' = (case ref_content (x_refs x) fs ref of
      None \<Rightarrow> Some (Inl (RefNotFound ref))
    | Some content \<Rightarrow> (case ParseHex content of Inl _ \<Rightarrow> Some (Inl (InvalidContent ref)) | Inr i \<Rightarrow> Some (Inr i)))"
    using resolve_loop_step [OF branch_steps(1) [OF assms], of "{}"] resolve_loop.simps [of "x_refs x" fs "{''HEAD''}" ref] sy
    by (auto simp: Resolve_ref_def sym_step_def split: option.splits if_splits)
  have len: "length rd \<ge> 64" if p: "ParseHex (TrimSpace rd) = Inr i" for rd i
  proof -
    have "length (TrimSpace rd) = 64" using p by (auto simp: ParseHex_def split: if_splits)
    then show ?thesis using length_TrimSpace [of rd] by simp
  qed
  show ?thesis
  proof (cases "fs (refPath (x_refs x) ref)")
    case None
    then show ?thesis using d r branch_names(7) [OF assms] by (simp add: head_parents_def head_commit_def ref_content_def Let_def)
  next
    case (Some rd)
    then show ?thesis using d r branch_names(7) [OF assms] len [of rd]
      by (cases "ParseHex (TrimSpace rd)") (auto simp: head_parents_def head_commit_def ref_content_def Let_def)
  qed
qed


section \<open>The steps of a commit\<close>

lemma ref_file_meta: "ref_file x a \<Longrightarrow> clean_dir (x_vara x) \<Longrightarrow> meta_path x a"
  using meta_names(2) by (auto simp: ref_file_def HasPrefix_iff meta_path_def meta_def)

lemma meta_not_object_file: "meta_path x a \<Longrightarrow> \<not> object_file (x_store x) a"
proof
  assume m: "meta_path x a" and "object_file (x_store x) a"
  then obtain i r where a: "a = object_path (x_store x) i @ r" by (auto simp: object_file_def intro: that [of _ "[]"])
  with m obtain rest where r: "meta rest" "rest = take 2 (BaseID_String i) @ ''/'' @ drop 2 (BaseID_String i) @ r"
    by (auto simp: meta_path_def object_path_def shard_dir_def x_store_def NewStore_def)
  have "length (take 2 (BaseID_String i)) = 2" by simp
  then have "rest ! 2 = CHR ''/''" using r(2) by (simp add: nth_append)
  with r(1) show False by (simp add: meta_def)
qed

text \<open>The commit that is recorded for a tree.\<close>

definition commit_of :: "cmd_env \<Rightarrow> rstate \<Rightarrow> string \<Rightarrow> TreeID \<Rightarrow> Commit" where
  "commit_of x s msg t =
     \<lparr>TreeHash = t,
      Parents = head_commit x (r_fs s) @
        (if MergeInProgress (x_vara x) (r_fs s) then (case readMergeHead (x_vara x) (r_fs s) of None \<Rightarrow> [] | Some m \<Rightarrow> [m]) else []),
      Author = the (x_author x), Message = msg, Timestamp = x_stamp x\<rparr>"

lemma on_branch_cong:
  assumes "\<And>a. ref_file x a \<Longrightarrow> fs' a = fs a" "on_branch x fs ref" "clean_dir (x_vara x)"
  shows "on_branch x fs' ref" "head_commit x fs' = head_commit x fs"
proof -
  have r: "fs' (head_file x) = fs (head_file x)" "fs' (refPath (x_refs x) ref) = fs (refPath (x_refs x) ref)"
    "fs' (refPath (x_refs x) ref @ ''.lock'') = fs (refPath (x_refs x) ref @ ''.lock'')"
    using assms(1) branch_names [OF assms(2,3)] by (auto simp: ref_file_def HasPrefix_iff)
  note n = branch_names(4) [OF assms(2,3)]
  show "on_branch x fs' ref" using assms(2) r by (simp add: on_branch_def ResolveSymbolic_def sym_step_def ref_content_def n)
  then have "head_commit x fs' = head_parents x fs'" "head_commit x fs = head_parents x fs" using head_parents_branch assms(2,3) by simp_all
  moreover obtain d where "fs (head_file x) = Some d" "HasPrefix (TrimSpace d) ref_prefix" "TrimPrefix (TrimSpace d) ref_prefix = ref"
    using branch_steps(4) [OF assms(2,3)] by blast
  ultimately show "head_commit x fs' = head_commit x fs" using r branch_names(7) [OF assms(2,3)] by (simp add: head_parents_def Let_def)
qed

text \<open>The branch HEAD is on, after its file has been written.\<close>

lemma branch_written:
  assumes "write_ref io n (x_refs x) ref (BaseID_String c @ [LF]) fs = (fs', Inr ())" "on_branch x fs ref" "clean_dir (x_vara x)"
  shows "on_branch x fs' ref" "ref_content (x_refs x) fs' ref = Some (BaseID_String c)" "quiet x fs fs'"
proof -
  note n = branch_names [OF assms(2,3)]
  have fs': "fs' = (fs(refPath (x_refs x) ref \<mapsto> BaseID_String c @ [LF]))(refPath (x_refs x) ref @ ''.lock'' := None)" using write_ref_result(1) [OF assms(1) refl] .
  show c: "ref_content (x_refs x) fs' ref = Some (BaseID_String c)" using fs' by (simp add: ref_content_def)
  show "quiet x fs fs'" using fs' n(3) meta_path_append [OF n(3)] by (auto simp: quiet_def)
  have "fs' (head_file x) = fs (head_file x)" using fs' n(5,6) by auto
  then show "on_branch x fs' ref" using assms(2) c fs' by (auto simp: on_branch_def ResolveSymbolic_def sym_step_def ref_content_def n(4))
qed

lemma move_head_branch:
  assumes "move_head x (fs (head_file x) \<noteq> None \<and> fs (head_file x) \<noteq> Some []) c s = Some (s', Inr u)" "on_branch x (r_fs s) ref" "clean_dir (x_vara x)"
    and "fs (head_file x) = r_fs s (head_file x)"
  shows "on_branch x (r_fs s') ref" "ref_content (x_refs x) (r_fs s') ref = Some (BaseID_String c)" "quiet x (r_fs s) (r_fs s')" "s' = s\<lparr>r_fs := r_fs s'\<rparr>"
proof -
  have "fs (head_file x) \<noteq> None \<and> fs (head_file x) \<noteq> Some []" using branch_steps(4) [OF assms(2,3)] assms(4) by auto
  with assms(1) have "update_ref x ''HEAD'' c s = Some (s', Inr u)" by (simp add: move_head_def)
  then obtain fs' where up: "Update_ref (x_io x) (x_retries x) (x_refs x) ''HEAD'' c (r_fs s) = Some (fs', Inr ())" "s' = s\<lparr>r_fs := fs'\<rparr>"
    by (auto simp: update_ref_def split: option.splits sum.splits)
  then have "write_ref (x_io x) (x_retries x) (x_refs x) ref (BaseID_String c @ [LF]) (r_fs s) = (fs', Inr ())"
    using branch_steps(3) [OF assms(2,3)] by (simp add: Update_ref_def)
  from branch_written [OF this assms(2,3)] up(2)
  show "on_branch x (r_fs s') ref" "ref_content (x_refs x) (r_fs s') ref = Some (BaseID_String c)" "quiet x (r_fs s) (r_fs s')" "s' = s\<lparr>r_fs := r_fs s'\<rparr>" by simp_all
qed

lemma resolve_branch:
  assumes "on_branch x fs ref" "clean_dir (x_vara x)" "ref_content (x_refs x) fs ref = Some (BaseID_String c)"
  shows "Resolve_ref (x_refs x) fs ''HEAD'' = Some (Inr c)"
proof -
  have "sym_step (x_refs x) fs ref = None" using assms(1) by (simp add: on_branch_def)
  from resolves.symbolic [OF branch_steps(1) [OF assms(1,2)] resolves.direct [OF this assms(3)]]
  show ?thesis unfolding Resolve_ref_def by (intro resolve_loop_complete) auto
qed

lemma log_settled:
  assumes "appendReflog x old c line s = Some (s', Inr u)" "on_branch x (r_fs s) ref" "clean_dir (x_vara x)"
  shows "settled x (r_fs s) (r_fs s')" "r_idx s' = r_idx s"
proof -
  have p: "plain_name ref" "plain_name ''HEAD''" using assms(2) by (simp_all add: on_branch_def plain_name_def Split_def)
  define fs1 where "fs1 = fst (log_append x ''HEAD'' old c line (r_fs s))"
  have st: "settled x (r_fs s) fs1" unfolding fs1_def by (rule settled_log [OF assms(3) p(2)])
  then have "on_branch x fs1 ref" using on_branch_cong(1) [OF _ assms(2,3)] by (simp add: settled_def)
  then have "s' = s\<lparr>r_fs := fst (log_append x ref old c line fs1)\<rparr>"
    using assms(1) by (simp add: appendReflog_def cbind_def quietly_def symbolic_def on_branch_def fs1_def)
  then show "settled x (r_fs s) (r_fs s')" "r_idx s' = r_idx s" using settled_trans [OF st settled_log [OF assms(3) p(1)]] by simp_all
qed

lemma index_settled:
  assumes "ctx_writeIndex x s = Some (s', Inr u)" "clean_dir (x_vara x)"
  shows "settled x (r_fs s) (r_fs s')" "r_idx s' = r_idx s"
proof -
  from assms(1) have "atomicWriteFile x (index_file x) (Index_Serialize (r_idx s)) (r_fs s) = (r_fs s', Inr u)" "r_idx s' = r_idx s"
    by (auto simp: ctx_writeIndex_def on_fs_def split: prod.splits sum.splits)
  then show "settled x (r_fs s) (r_fs s')" "r_idx s' = r_idx s"
    using settled_steps(1) [OF assms(2) side_names(1), of "r_fs s" "Index_Serialize (r_idx s)"] by (simp_all add: index_file_def)
qed

text \<open>Everything after the branch has moved.\<close>

lemma commit_tail:
  assumes "cbind (appendReflog x old c line) (\<lambda>_. cbind (modify_index unmodified) (\<lambda>_. cbind (ctx_writeIndex x) (\<lambda>_.
      cbind (quietly (Invalidate (x_vara x))) (\<lambda>_. cbind (cwhen merging (quietly (\<lambda>fs. fst (MState_Clear (x_rm x) (x_vara x) (fst (ClearMergeHead (x_rm x) (x_vara x) fs)))))) (\<lambda>_.
      cret c))))) s = Some (s', Inr c')"
    and "on_branch x (r_fs s) ref" "cmd_ok x"
  shows "settled x (r_fs s) (r_fs s')" "r_idx s' = unmodified (r_idx s)" "c' = c" "merging \<Longrightarrow> \<not> MergeInProgress (x_vara x) (r_fs s')"
proof -
  have cl: "clean_dir (x_vara x)" and rm: "\<forall>p. x_rm x p" using assms(3) by (simp_all add: cmd_ok_def)
  define clear where "clear = (\<lambda>fs. fst (MState_Clear (x_rm x) (x_vara x) (fst (ClearMergeHead (x_rm x) (x_vara x) fs))))"
  have cleared: "clear fs = fs(merge_head_path (x_vara x) := None, conflicts_path (x_vara x) := None)" for fs
    using rm by (auto simp: clear_def clear_remove remove_file_def os_Remove_def fun_eq_iff)
  from assms(1) obtain s1 s2 s3 u where
    a: "appendReflog x old c line s = Some (s1, Inr ())" and w: "ctx_writeIndex x (s1\<lparr>r_idx := unmodified (r_idx s1)\<rparr>) = Some (s2, Inr u)"
    and i: "s3 = s2\<lparr>r_fs := Invalidate (x_vara x) (r_fs s2)\<rparr>" and m: "cwhen merging (quietly clear) s3 = Some (s', Inr ())" and c': "c' = c"
    unfolding clear_def by (elim cbindE) (auto simp: modify_index_def quietly_iff)
  show "c' = c" by (rule c')
  note s1 = log_settled [OF a assms(2) cl]
  have s2: "settled x (r_fs s1) (r_fs s2)" "r_idx s2 = unmodified (r_idx s)" using index_settled [OF w cl] s1(2) by simp_all
  have s3: "settled x (r_fs s2) (r_fs s3)" "r_idx s3 = r_idx s2"
    using settled_steps(2) [OF cl side_names(2)] by (simp_all add: i Invalidate_def os_Remove_def index_path_def)
  have s': "r_fs s' = (if merging then clear (r_fs s3) else r_fs s3)" "r_idx s' = r_idx s3" using m by (auto simp: cwhen_def quietly_iff split: if_splits)
  have "settled x fs (clear fs)" for fs
    using settled_trans [OF settled_steps(2) [OF cl side_names(3), of fs None] settled_steps(2) [OF cl side_names(4)]]
    by (simp add: cleared merge_head_path_def conflicts_path_def)
  then have "settled x (r_fs s3) (r_fs s')" by (simp add: s'(1))
  then show "settled x (r_fs s) (r_fs s')" using s1(1) s2(1) s3(1) settled_trans by meson
  show "r_idx s' = unmodified (r_idx s)" using s2(2) s3(2) s'(2) by simp
  show "merging \<Longrightarrow> \<not> MergeInProgress (x_vara x) (r_fs s')" by (simp add: s'(1) cleared MergeInProgress_def)
qed


lemma commit_steps:
  assumes "RunCommitWith x allow msg s = Some (s', Inr c)" "on_branch x (r_fs s) ref" "cmd_ok x"
    and "BuildTree (x_ord x) (x_zstd x) (x_io x) (x_store x) (r_idx s) (r_fs s) = Some (fs1, Inr t)"
  obtains fs2 fs3 where "MergeInProgress (x_vara x) (r_fs s) \<Longrightarrow> unresolvedConflicts x (r_idx s) (r_fs s) = {}"
    "Store_Write (x_zstd x) (x_io x) (x_store x) (CommitObj (commit_of x s msg t)) fs1 = (fs2, Inr c)"
    "on_branch x fs3 ref" "ref_content (x_refs x) fs3 ref = Some (BaseID_String c)" "quiet x fs2 fs3" "settled x fs3 (r_fs s')"
    "r_idx s' = unmodified (r_idx s)" "MergeInProgress (x_vara x) (r_fs s) \<Longrightarrow> \<not> MergeInProgress (x_vara x) (r_fs s')"
proof -
  have cl: "clean_dir (x_vara x)" using assms(3) by (simp add: cmd_ok_def)
  let ?merging = "MergeInProgress (x_vara x) (r_fs s)"
  have same: "fs1 a = r_fs s a" if "meta_path x a" for a using BuildTree_frame [OF assms(4)] meta_not_object_file [OF that] by blast
  have ref: "fs1 a = r_fs s a" if "ref_file x a" for a using same [OF ref_file_meta [OF that cl]] .
  note br = on_branch_cong [OF ref assms(2) cl]
  have mh: "readMergeHead (x_vara x) fs1 = readMergeHead (x_vara x) (r_fs s)" using same [OF meta_names(3) [OF cl]] by (simp add: readMergeHead_def merge_head_path_def)
  let ?parents = "head_parents x fs1 @ (if ?merging then (case readMergeHead (x_vara x) fs1 of None \<Rightarrow> [] | Some m \<Rightarrow> [m]) else [])"
  have par: "?parents = Parents (commit_of x s msg t)" using head_parents_branch [OF br(1) cl] br(2) mh by (simp add: commit_of_def)
  have bt: "build_tree x s = Some (s\<lparr>r_fs := fs1\<rparr>, Inr t)" using assms(4) by (simp add: build_tree_def)
  from assms(1) have ok: "msg \<noteq> []" "?merging \<Longrightarrow> unresolvedConflicts x (r_idx s) (r_fs s) = {}"
    by (auto simp: RunCommitWith_def cbind_lookups Let_def split: if_splits)
  define finish where "finish c = cbind (appendReflog x (case ?parents of [] \<Rightarrow> 0 | p # _ \<Rightarrow> p) c (''commit: '' @ subject msg)) (\<lambda>_.
      cbind (modify_index unmodified) (\<lambda>_. cbind (ctx_writeIndex x) (\<lambda>_. cbind (quietly (Invalidate (x_vara x))) (\<lambda>_.
      cbind (cwhen ?merging (quietly (\<lambda>fs. fst (MState_Clear (x_rm x) (x_vara x) (fst (ClearMergeHead (x_rm x) (x_vara x) fs)))))) (\<lambda>_. cret c)))))" for c
  let ?s1 = "s\<lparr>r_fs := fs1\<rparr>" and ?has = "fs1 (head_file x) \<noteq> None \<and> fs1 (head_file x) \<noteq> Some []"
  have "cbind (commitAuthor x) (\<lambda>author. cbind (build_commit x t ?parents author msg) (\<lambda>c. cbind (move_head x ?has c) (\<lambda>_. finish c))) ?s1 = Some (s', Inr c)"
    using assms(1) ok bt unfolding finish_def
    by (auto simp: RunCommitWith_def cbind_lookups Let_def cbind_def [of "build_tree x"] split: if_splits)
  then obtain author c' s2 s3 where au: "x_author x = Some author" and bc: "build_commit x t ?parents author msg ?s1 = Some (s2, Inr c')"
    and mv: "move_head x ?has c' s2 = Some (s3, Inr ())" and fin: "finish c' s3 = Some (s', Inr c)"
    by (elim cbindE) (auto simp: commitAuthor_def split: option.splits)
  have co: "\<lparr>TreeHash = t, Parents = ?parents, Author = author, Message = msg, Timestamp = x_stamp x\<rparr> = commit_of x s msg t"
    using par au by (simp add: commit_of_def)
  have w: "Store_Write (x_zstd x) (x_io x) (x_store x) (CommitObj (commit_of x s msg t)) fs1 = (r_fs s2, Inr c')" and s2: "s2 = s\<lparr>r_fs := r_fs s2\<rparr>"
    using bc unfolding build_commit_def on_fs_def BuildCommit_def co by (auto split: prod.splits sum.splits)
  have "r_fs s2 a = fs1 a" if "meta_path x a" for a
    using Store_Write_only_objects [OF meta_not_object_file [OF that], of "x_zstd x" "x_io x" "CommitObj (commit_of x s msg t)" fs1] w by simp
  then have eq: "r_fs s2 a = fs1 a" if "ref_file x a" for a
    using ref_file_meta [OF that cl] by blast
  have br2: "on_branch x (r_fs s2) ref" by (rule on_branch_cong(1) [OF eq br(1) cl])
  have hd: "fs1 (head_file x) = r_fs s2 (head_file x)" using eq [of "head_file x"] by (simp add: ref_file_def)
  note h = move_head_branch [where fs = fs1, OF mv br2 cl hd]
  note fine = commit_tail [OF fin [unfolded finish_def] h(1) assms(3)]
  have "r_idx s3 = r_idx s" by (subst h(4), subst s2) simp
  then show thesis using that [OF ok(2) _ h(1) _ h(3) fine(1) _ fine(4)] w h(2) fine(2,3) by simp
qed

lemma commit_of_wf: "NUL \<notin> set (the (x_author x)) \<Longrightarrow> wf_object (CommitObj (commit_of x s msg t))"
proof -
  have "length (head_commit x (r_fs s)) \<le> 1" by (auto simp: head_commit_def split: option.split sum.split)
  moreover have "length (if b then (case m of None \<Rightarrow> [] | Some i \<Rightarrow> [i]) else []) \<le> 1" for b and m :: "CommitID option" by (simp split: option.split)
  ultimately have "length (Parents (commit_of x s msg t)) \<le> 2" by (simp add: commit_of_def split: option.split)
  moreover assume "NUL \<notin> set (the (x_author x))"
  ultimately show ?thesis by (simp add: commit_of_def)
qed

lemma outside_not_object: "\<not> Snapshots.under (x_vara x) a \<Longrightarrow> \<not> object_file (x_store x) a"
proof
  assume "\<not> Snapshots.under (x_vara x) a" "object_file (x_store x) a"
  then obtain i r where "a = object_path (x_store x) i @ r" "\<not> Snapshots.under (x_vara x) a" by (auto simp: object_file_def intro: that [of _ "[]"])
  then show False by (simp add: Snapshots.under_def HasPrefix_iff object_path_def shard_dir_def x_store_def NewStore_def)
qed

text \<open>A tree built from an index and a commit written after it.\<close>

lemma commit_written:
  assumes "BuildTree (x_ord x) (x_zstd x) (x_io x) (x_store x) idx fs = Some (fs1, Inr t)" "Store_Write (x_zstd x) (x_io x) (x_store x) obj fs1 = (fs2, Inr c)"
    and "cmd_ok x" "zstd_ok (x_zstd x)" "store_ok (x_zstd x) (x_store x) fs" "clash_free_index idx" "wf_object obj"
    and "no_collision (readable (x_zstd x) (x_store x) fs \<union> node_objs (visit (x_ord x) (the (BuildFromIndex idx))) \<union> {obj})"
  shows "x_read x fs2 c = Inr obj" "file_at (x_read x fs2) t p h \<longleftrightarrow> index_map idx p = Some h" "keeps (x_read x fs) (x_read x fs2)"
proof -
  have ord: "key_order (x_ord x)" using assms(3) by (simp add: cmd_ok_def)
  let ?R = "readable (x_zstd x) (x_store x) fs \<union> node_objs (visit (x_ord x) (the (BuildFromIndex idx))) \<union> {obj}"
  have sub: "readable (x_zstd x) (x_store x) fs \<subseteq> ?R" "node_objs (visit (x_ord x) (the (BuildFromIndex idx))) \<subseteq> ?R" by auto
  note b = built_tree [OF ord assms(4,5,6,8) sub assms(1)]
  note o = write_one [OF assms(4) b(3) assms(7) b(4) _ assms(8,2)]
  show "x_read x fs2 c = Inr obj" using o by (simp add: x_read_def)
  have "keeps (Store_Read (x_zstd x) (x_store x) fs1) (x_read x fs2)" using o by (simp add: x_read_def [abs_def])
  then show "file_at (x_read x fs2) t p h \<longleftrightarrow> index_map idx p = Some h" by (rule b(1))
  show "keeps (x_read x fs) (x_read x fs2)" using keeps_trans [OF b(2), of "x_read x fs2"] o by (simp add: x_read_def [abs_def])
qed

section \<open>What a commit records\<close>

text \<open>C9. A commit that succeeds on a branch. The object it returns is stored and is the commit with the given message, the author and
  the time of the run, whose parents are the commit the branch was at (none on an unborn branch) followed by the commit being merged when a merge is
  in progress; its tree has exactly the files of the index. HEAD resolves to it, through the same branch. Every entry of the index is
  unmodified, no object is lost, no file outside the repository directory changes, and a merge in progress had no conflict left and is over. (No two objects
  involved have the same SHA-256 digest; the author name holds no NUL byte; nobody holds the lock of the branch.)\<close>

theorem commit_records:
  assumes "RunCommitWith x allow msg s = Some (s', Inr c)" "on_branch x (r_fs s) ref" "cmd_ok x" "zstd_ok (x_zstd x)"
    and "store_ok (x_zstd x) (x_store x) (r_fs s)" "clash_free_index (r_idx s)" "NUL \<notin> set (the (x_author x))"
    and "BuildTree (x_ord x) (x_zstd x) (x_io x) (x_store x) (r_idx s) (r_fs s) = Some (fs1, Inr t)"
    and "no_collision (readable (x_zstd x) (x_store x) (r_fs s) \<union> node_objs (visit (x_ord x) (the (BuildFromIndex (r_idx s)))) \<union> {CommitObj (commit_of x s msg t)})"
  shows "x_read x (r_fs s') c = Inr (CommitObj (commit_of x s msg t))
    \<and> (\<forall>p h. file_at (x_read x (r_fs s')) t p h \<longleftrightarrow> index_map (r_idx s) p = Some h)
    \<and> Resolve_ref (x_refs x) (r_fs s') ''HEAD'' = Some (Inr c) \<and> on_branch x (r_fs s') ref
    \<and> r_idx s' = unmodified (r_idx s)
    \<and> (\<forall>i obj. x_read x (r_fs s) i = Inr obj \<longrightarrow> x_read x (r_fs s') i = Inr obj)
    \<and> (\<forall>a. \<not> Snapshots.under (x_vara x) a \<longrightarrow> r_fs s' a = r_fs s a)
    \<and> (MergeInProgress (x_vara x) (r_fs s) \<longrightarrow> unresolvedConflicts x (r_idx s) (r_fs s) = {} \<and> \<not> MergeInProgress (x_vara x) (r_fs s'))"
proof -
  obtain fs2 fs3 where un: "MergeInProgress (x_vara x) (r_fs s) \<Longrightarrow> unresolvedConflicts x (r_idx s) (r_fs s) = {}"
    and w: "Store_Write (x_zstd x) (x_io x) (x_store x) (CommitObj (commit_of x s msg t)) fs1 = (fs2, Inr c)"
    and br: "on_branch x fs3 ref" "ref_content (x_refs x) fs3 ref = Some (BaseID_String c)" and q: "quiet x fs2 fs3" and st: "settled x fs3 (r_fs s')"
    and idx: "r_idx s' = unmodified (r_idx s)" and mg: "MergeInProgress (x_vara x) (r_fs s) \<Longrightarrow> \<not> MergeInProgress (x_vara x) (r_fs s')"
    using commit_steps [OF assms(1-3,8)] by blast
  have cl: "clean_dir (x_vara x)" using assms(3) by (simp add: cmd_ok_def)
  note o = commit_written [OF assms(8) w assms(3-6) commit_of_wf [OF assms(7)] assms(9)]
  have read: "x_read x (r_fs s') = x_read x fs2" using quiet_read [OF quiet_trans [OF q]] st by (simp add: settled_def)
  have br': "on_branch x (r_fs s') ref" using on_branch_cong(1) [OF _ br(1) cl] st by (simp add: settled_def)
  have "ref_content (x_refs x) (r_fs s') ref = Some (BaseID_String c)"
    using br(2) branch_names(2) [OF br(1) cl] st by (simp add: settled_def ref_content_def)
  then have res: "Resolve_ref (x_refs x) (r_fs s') ''HEAD'' = Some (Inr c)" using resolve_branch [OF br' cl] by blast
  have out: "r_fs s' a = r_fs s a" if "\<not> Snapshots.under (x_vara x) a" for a
    using settled_outside [OF st that] quiet_outside [OF q that] Store_Write_only_objects [OF outside_not_object [OF that]] w BuildTree_frame [OF assms(8) outside_not_object [OF that]]
    by (metis fst_conv)
  show ?thesis using o res br' idx out un mg by (simp add: read keeps_def)
qed

text \<open>When the system calls work, a commit on a branch that has something to record succeeds.\<close>

lemma always_reflog: "works x \<Longrightarrow> always (appendReflog x old c line)"
  unfolding appendReflog_def
  by (intro always_bind always_steps) (auto simp: symbolic_def always_def runs_def cret_def quietly_def split: sum.split)

lemma write_ref_works: "\<exists>fs'. write_ref io_ok n r name content fs = (fs', Inr ())"
proof -
  have "renameFile io_ok tmp k m" for tmp k m by (cases m) (simp_all add: io_ok_def)
  then show ?thesis by (simp add: write_ref_def atomicWrite_def WriteFile_def io_ok_def Let_def)
qed

lemma commit_runs:
  assumes "works x" "on_branch x (r_fs s) ref" "x_author x = Some author" "msg \<noteq> []" "\<not> MergeInProgress (x_vara x) (r_fs s)"
    and "BuildTree (x_ord x) (x_zstd x) (x_io x) (x_store x) (r_idx s) (r_fs s) = Some (fs1, Inr t)" "\<not> nothing_new x (head_commit x (r_fs s)) t (r_idx s) fs1"
  shows "\<exists>s' c. RunCommitWith x allow msg s = Some (s', Inr c)"
proof -
  have cl: "clean_dir (x_vara x)" and io: "x_io x = io_ok" using assms(1) by (simp_all add: works_def cmd_ok_def)
  have ref: "fs1 a = r_fs s a" if "ref_file x a" for a
    using BuildTree_frame [OF assms(6)] meta_not_object_file [OF ref_file_meta [OF that cl]] by blast
  note br = on_branch_cong [OF ref assms(2) cl]
  let ?co = "CommitObj \<lparr>TreeHash = t, Parents = head_parents x fs1, Author = author, Message = msg, Timestamp = x_stamp x\<rparr>"
  obtain fs2 c where w: "Store_Write (x_zstd x) (x_io x) (x_store x) ?co fs1 = (fs2, Inr c)" using Store_Write_io_ok io by metis
  have bt: "build_tree x s = Some (s\<lparr>r_fs := fs1\<rparr>, Inr t)" using assms(6) by (simp add: build_tree_def)
  have bc: "build_commit x t (head_parents x fs1) author msg (s\<lparr>r_fs := fs1\<rparr>) = Some (s\<lparr>r_fs := fs2\<rparr>, Inr c)"
    using w by (simp add: build_commit_def on_fs_def BuildCommit_def)
  have "fs2 a = fs1 a" if "ref_file x a" for a
    using Store_Write_only_objects [OF meta_not_object_file [OF ref_file_meta [OF that cl]], of "x_zstd x" "x_io x" ?co fs1] w by simp
  then have br2: "on_branch x fs2 ref" by (rule on_branch_cong(1) [OF _ br(1) cl])
  obtain d where "fs1 (head_file x) = Some d" "d \<noteq> []" using branch_steps(4) [OF br(1) cl] by blast
  then have has: "fs1 (head_file x) \<noteq> None \<and> fs1 (head_file x) \<noteq> Some []" by simp
  have up: "runs (update_ref x ''HEAD'' c) (s\<lparr>r_fs := fs2\<rparr>) (\<lambda>_ _. True)"
    using branch_steps(3) [OF br2 cl] write_ref_works [of "x_retries x" "x_refs x" ref "BaseID_String c @ [LF]" fs2] io
    by (auto simp: runs_def update_ref_def Update_ref_def)
  have new: "\<not> nothing_new x (head_parents x fs1) t (r_idx s) fs1" using assms(7) head_parents_branch [OF br(1) cl] br(2) by simp
  let ?old = "case head_parents x fs1 of [] \<Rightarrow> 0 | p # _ \<Rightarrow> p"
  have tail: "always (cbind (appendReflog x ?old c (''commit: '' @ subject msg)) (\<lambda>_. cbind (modify_index unmodified) (\<lambda>_. cbind (ctx_writeIndex x) (\<lambda>_.
      cbind (quietly (Invalidate (x_vara x))) (\<lambda>_. cbind (cwhen False q) (\<lambda>_. cret c))))))" for q
    by (intro always_bind always_steps [OF assms(1)] always_reflog [OF assms(1)]) (auto simp: always_def runs_def modify_index_def cwhen_def cret_def)
  have made: "runs (move_head x (fs1 (head_file x) \<noteq> None \<and> fs1 (head_file x) \<noteq> Some []) c) (s\<lparr>r_fs := fs2\<rparr>) (\<lambda>_ _. True)"
    using up has by (simp add: move_head_def)
  have "runs (RunCommitWith x allow msg) s (\<lambda>_ _. True)"
    using runs_then [OF made tail] assms(3-5) new unfolding runs_def RunCommitWith_def
    by (simp add: cbind_lookups Let_def cbind_def [of "build_tree x"] bt commitAuthor_def cbind_def [of "cret a" for a] cret_def [of author]
        cbind_def [of "build_commit x t p author msg" for p] bc)
  then show ?thesis by (auto simp: runs_def)
qed

text \<open>The first commit of a repository: one file is staged and the branch does not exist yet.\<close>

definition first_fs :: fs where
  "first_fs = [''/w/.vara/HEAD'' \<mapsto> ''ref: refs/heads/main'' @ [LF]]"

definition first_index :: Index where
  "first_index = \<lparr>Entries = [\<lparr>Fingerprint = 0, ie_ObjectID = demo_blob_id, ie_State = StateAdded, ie_Path = ''f''\<rparr>]\<rparr>"

definition first_state :: rstate where
  "first_state = (demo_state ''f'')\<lparr>r_fs := first_fs, r_idx := first_index\<rparr>"

lemma first_branch: "on_branch demo_x first_fs ''refs/heads/main''" "head_commit demo_x first_fs = []"
proof -
  have c: "ref_content (x_refs demo_x) first_fs ''HEAD'' = Some ''ref: refs/heads/main''" "ref_content (x_refs demo_x) first_fs ''refs/heads/main'' = None"
    using sample_trim by (simp_all add: ref_content_def demo_paths first_fs_def)
  show b: "on_branch demo_x first_fs ''refs/heads/main''"
    using c by (simp add: on_branch_def ResolveSymbolic_def sym_step_def plain_name_def Split_def ref_prefix_def HasPrefix_def TrimPrefix_def demo_paths first_fs_def)
  have cl: "clean_dir (x_vara demo_x)" using demo_works by (simp add: works_def cmd_ok_def)
  from head_parents_branch [OF b cl] show "head_commit demo_x first_fs = []"
    using sample_trim branch_names(7) [OF b cl] by (simp add: head_parents_def demo_paths first_fs_def Let_def ref_prefix_def HasPrefix_def TrimPrefix_def)
qed

lemma first_commit_of: "CommitObj (commit_of demo_x first_state ''m'' demo_tree_id) = demo_commit_obj"
  using first_branch(2) by (simp add: commit_of_def first_state_def demo_commit_obj_def MergeInProgress_def demo_paths first_fs_def demo_x_def)

lemma first_node: "BuildFromIndex first_index = Some (DirNode [(''f'', BlobNode demo_blob_id blobMode)])"
  by (simp add: BuildFromIndex_def first_index_def Split_def)

lemma first_tree: "NewTree [\<lparr>te_Mode = blobMode, te_Hash = demo_blob_id, te_Name = ''f''\<rparr>] = demo_tree_obj"
  by (simp add: NewTree_def demo_tree_obj_def blobMode_def sort_by_def)

lemma first_objs: "node_objs (visit sorted_list_of_set (the (BuildFromIndex first_index))) = {demo_tree_obj}"
  by (simp add: first_node node_tree_def child_mode_def first_tree)

theorem commit_records_witness:
  "\<exists>s' c. RunCommitWith demo_x False ''m'' first_state = Some (s', Inr c)
     \<and> x_read demo_x (r_fs s') c = Inr demo_commit_obj \<and> Resolve_ref (x_refs demo_x) (r_fs s') ''HEAD'' = Some (Inr c)
     \<and> file_at (x_read demo_x (r_fs s')) demo_tree_id ''f'' demo_blob_id"
proof -
  have st: "r_fs first_state = first_fs" "r_idx first_state = first_index" by (simp_all add: first_state_def)
  have none: "first_fs (object_path (x_store demo_x) i) = None" for i
    using length_object_path [of "NewStore ''/w/.vara''" i] by (auto simp: first_fs_def x_store_def NewStore_def)
  then have "Store_Read zstd_id (x_store demo_x) first_fs i = Inl ErrObjectNotFound" for i by (simp add: Store_Read_def)
  then have ok: "store_ok zstd_id (x_store demo_x) first_fs" and rd: "readable zstd_id (x_store demo_x) first_fs = {}"
    by (simp_all add: store_ok_def readable_def none)
  obtain fs1 where b: "BuildTree sorted_list_of_set zstd_id io_ok (x_store demo_x) first_index first_fs = Some (fs1, Inr demo_tree_id)"
    using Store_Write_io_ok [of zstd_id "x_store demo_x" demo_tree_obj first_fs] demo_tree_hash
    by (auto simp: BuildTree_def first_node child_mode_def first_tree)
  have nc: "no_collision ({} \<union> {demo_tree_obj} \<union> {demo_commit_obj})"
    using demo_ids by (simp add: no_collision_def demo_tree_hash demo_commit_hash)
  have cf: "clash_free_index first_index" by (simp add: clash_free_index_def first_index_def staged_def HasPrefix_def)
  have new: "\<not> nothing_new demo_x (head_commit demo_x first_fs) demo_tree_id first_index fs1"
    using first_branch(2) by (simp add: nothing_new_def first_index_def)
  have "\<not> MergeInProgress (x_vara demo_x) first_fs" by (simp add: MergeInProgress_def demo_paths first_fs_def)
  from commit_runs [OF demo_works, of first_state, unfolded st, OF first_branch(1) _ _ this, of "''a''" "''m''" fs1 demo_tree_id False] b new
  obtain s' c where r: "RunCommitWith demo_x False ''m'' first_state = Some (s', Inr c)" by (auto simp: demo_x_def)
  have "cmd_ok demo_x" "NUL \<notin> set (the (x_author demo_x))" using demo_works by (simp_all add: works_def demo_x_def)
  note res = commit_records [OF r, unfolded st, OF first_branch(1) this(1) _ _ cf this(2)]
  have "index_map first_index ''f'' = Some demo_blob_id" by (simp add: index_map_def first_index_def)
  then show ?thesis using res [of fs1 demo_tree_id] b ok rd nc r by (simp add: first_commit_of first_objs sample_store_ok(2))
qed

end
