(* ===== verification/Config_File.thy ===== *)
theory Config_File
  imports Refs
begin

text \<open>
  \<^verbatim>\<open>pkg/config/config.go\<close>: the INI file \<^verbatim>\<open>.vara/config\<close>, its parser and printer, and the remotes kept in it; with \<^verbatim>\<open>vara remote\<close>
  (\<^verbatim>\<open>internal/commands/remote.go\<close>). A section keeps a map of keys and the list of keys in file order; both are one association list here. \<^verbatim>\<open>strings.ToLower\<close>
  is the byte map on ASCII strings; on other strings it needs the Unicode tables, and the argument \<open>u\<close> stands for it.
\<close>

section \<open>Lower case\<close>

definition ascii :: "char \<Rightarrow> bool" where "ascii c \<longleftrightarrow> (of_char c :: nat) < 128"

definition lower_char :: "char \<Rightarrow> char" where
  "lower_char c = (if 65 \<le> (of_char c :: nat) \<and> (of_char c :: nat) \<le> 90 then char_of ((of_char c :: nat) + 32) else c)"

definition ToLower :: "(string \<Rightarrow> string) \<Rightarrow> string \<Rightarrow> string" where
  "ToLower u s = (if list_all ascii s then map lower_char s else u s)"

section \<open>Sections\<close>

record Section =
  sec_Name :: string
  sec_Subname :: string
  sec_pairs :: "(string \<times> string) list"

type_synonym Config = "Section list"

definition NewConfig :: Config where "NewConfig = []"

definition sec_get :: "(string \<Rightarrow> string) \<Rightarrow> Section \<Rightarrow> string \<Rightarrow> string option" where
  "sec_get u s key = map_of (sec_pairs s) (ToLower u key)"

fun put_pair :: "string \<Rightarrow> string \<Rightarrow> (string \<times> string) list \<Rightarrow> (string \<times> string) list" where
  "put_pair k v [] = [(k, v)]"
| "put_pair k v (p # ps) = (if fst p = k then (k, v) # ps else p # put_pair k v ps)"

definition sec_set :: "(string \<Rightarrow> string) \<Rightarrow> string \<Rightarrow> string \<Rightarrow> Section \<Rightarrow> Section" where
  "sec_set u key v s = s\<lparr>sec_pairs := put_pair (ToLower u key) v (sec_pairs s)\<rparr>"

definition sectionKey :: "(string \<Rightarrow> string) \<Rightarrow> string \<Rightarrow> string \<Rightarrow> string" where
  "sectionKey u name subname = ToLower u name @ [NUL] @ subname"

definition key_of :: "(string \<Rightarrow> string) \<Rightarrow> Section \<Rightarrow> string" where
  "key_of u s = sectionKey u (sec_Name s) (sec_Subname s)"

text \<open>The position of a section; \<^verbatim>\<open>find\<close> returns a pointer to it.\<close>

fun find_section :: "(string \<Rightarrow> string) \<Rightarrow> string \<Rightarrow> Config \<Rightarrow> nat option" where
  "find_section u k [] = None"
| "find_section u k (s # ss) = (if key_of u s = k then Some 0 else map_option Suc (find_section u k ss))"

definition findOrCreate :: "(string \<Rightarrow> string) \<Rightarrow> string \<Rightarrow> string \<Rightarrow> Config \<Rightarrow> Config \<times> nat" where
  "findOrCreate u name subname c =
     (case find_section u (sectionKey u name subname) c of
        Some i \<Rightarrow> (c, i)
      | None \<Rightarrow> (c @ [\<lparr>sec_Name = name, sec_Subname = subname, sec_pairs = []\<rparr>], length c))"

definition Config_Get :: "(string \<Rightarrow> string) \<Rightarrow> Config \<Rightarrow> string \<Rightarrow> string \<Rightarrow> string \<Rightarrow> string option" where
  "Config_Get u c name subname key =
     (case find_section u (sectionKey u name subname) c of None \<Rightarrow> None | Some i \<Rightarrow> sec_get u (c ! i) key)"

definition Config_Entries :: "(string \<Rightarrow> string) \<Rightarrow> Config \<Rightarrow> string \<Rightarrow> string \<Rightarrow> (string \<times> string) list" where
  "Config_Entries u c name subname =
     (case find_section u (sectionKey u name subname) c of None \<Rightarrow> [] | Some i \<Rightarrow> sec_pairs (c ! i))"

definition set_at :: "(string \<Rightarrow> string) \<Rightarrow> nat \<Rightarrow> string \<Rightarrow> string \<Rightarrow> Config \<Rightarrow> Config" where
  "set_at u i key v c = c[i := sec_set u key v (c ! i)]"

definition Config_Set :: "(string \<Rightarrow> string) \<Rightarrow> string \<Rightarrow> string \<Rightarrow> string \<Rightarrow> string \<Rightarrow> Config \<Rightarrow> Config" where
  "Config_Set u name subname key v c = (case findOrCreate u name subname c of (c', i) \<Rightarrow> set_at u i key v c')"

definition RemoveSection :: "(string \<Rightarrow> string) \<Rightarrow> string \<Rightarrow> string \<Rightarrow> Config \<Rightarrow> Config" where
  "RemoveSection u name subname c = filter (\<lambda>s. key_of u s \<noteq> sectionKey u name subname) c"

section \<open>The file\<close>

datatype config_error = UnterminatedHeader | UnterminatedSubname | EmptySection | ExpectedPair | OutsideSection | LineTooLong

definition QUOTE :: char where "QUOTE = CHR 0x22"

definition parseHeader :: "string \<Rightarrow> config_error + (string \<times> string)" where
  "parseHeader raw =
     (if last raw \<noteq> CHR '']'' then Inl UnterminatedHeader
      else
        let inner = TrimSpace (butlast (tl raw)) in
        if QUOTE \<in> set inner then
          let name = TrimSpace (takeWhile (\<lambda>c. c \<noteq> QUOTE) inner);
              rest = tl (dropWhile (\<lambda>c. c \<noteq> QUOTE) inner)
          in if QUOTE \<notin> set rest then Inl UnterminatedSubname
             else if name = [] then Inl EmptySection
             else Inr (name, takeWhile (\<lambda>c. c \<noteq> QUOTE) rest)
        else if inner = [] then Inl EmptySection
        else Inr (inner, []))"

definition parse_line :: "(string \<Rightarrow> string) \<Rightarrow> string \<Rightarrow> Config \<times> nat option \<Rightarrow> config_error + (Config \<times> nat option)" where
  "parse_line u line st =
     (let raw = TrimSpace line in
      if raw = [] \<or> hd raw = CHR ''#'' \<or> hd raw = CHR '';'' then Inr st
      else if hd raw = CHR ''['' then
        (case parseHeader raw of
           Inl e \<Rightarrow> Inl e
         | Inr (name, subname) \<Rightarrow> (case findOrCreate u name subname (fst st) of (c, i) \<Rightarrow> Inr (c, Some i)))
      else if CHR ''='' \<notin> set raw then Inl ExpectedPair
      else (case snd st of
              None \<Rightarrow> Inl OutsideSection
            | Some i \<Rightarrow>
                let key = TrimSpace (takeWhile (\<lambda>c. c \<noteq> CHR ''='') raw); val = TrimSpace (tl (dropWhile (\<lambda>c. c \<noteq> CHR ''='') raw))
                in Inr (set_at u i key val (fst st), Some i)))"

text \<open>\<^verbatim>\<open>bufio.Scanner\<close>: lines end at a line feed, one carriage return before it is dropped, and a line of more than
  65535 bytes stops the scan with an error. The other errors are reported with the number of their line.\<close>

definition dropCR :: "string \<Rightarrow> string" where
  "dropCR s = (if s \<noteq> [] \<and> last s = CHR 0x0D then butlast s else s)"

definition scan_lines :: "string \<Rightarrow> string list" where
  "scan_lines text = (let ls = Split text LF in if last ls = [] then butlast ls else ls)"

fun config_lines :: "(string \<Rightarrow> string) \<Rightarrow> nat \<Rightarrow> string list \<Rightarrow> Config \<times> nat option \<Rightarrow> (nat \<times> config_error) + Config" where
  "config_lines u n [] st = Inr (fst st)"
| "config_lines u n (l # ls) st =
     (if length l > 65535 then Inl (n, LineTooLong)
      else case parse_line u (dropCR l) st of Inl e \<Rightarrow> Inl (Suc n, e) | Inr st' \<Rightarrow> config_lines u (Suc n) ls st')"

definition Config_Parse :: "(string \<Rightarrow> string) \<Rightarrow> string \<Rightarrow> (nat \<times> config_error) + Config" where
  "Config_Parse u text = config_lines u 0 (scan_lines text) (NewConfig, None)"

definition header_line :: "Section \<Rightarrow> string" where
  "header_line s = (if sec_Subname s \<noteq> [] then ''['' @ sec_Name s @ '' '' @ [QUOTE] @ sec_Subname s @ [QUOTE] @ '']'' else ''['' @ sec_Name s @ '']'')"

definition pair_line :: "string \<times> string \<Rightarrow> string" where
  "pair_line p = [CHR 0x09] @ fst p @ '' = '' @ snd p"

definition section_text :: "Section \<Rightarrow> string" where
  "section_text s = header_line s @ [LF] @ concat (map (\<lambda>p. pair_line p @ [LF]) (sec_pairs s))"

definition Config_Serialize :: "Config \<Rightarrow> string" where
  "Config_Serialize c = (case c of [] \<Rightarrow> [] | s # ss \<Rightarrow> section_text s @ concat (map (\<lambda>s. [LF] @ section_text s) ss))"

definition Config_Load :: "(string \<Rightarrow> string) \<Rightarrow> path \<Rightarrow> fs \<Rightarrow> (nat \<times> config_error) + Config" where
  "Config_Load u p fs = (case fs p of None \<Rightarrow> Inr NewConfig | Some data \<Rightarrow> Config_Parse u data)"

definition Config_Save :: "io \<Rightarrow> path \<Rightarrow> Config \<Rightarrow> fs \<Rightarrow> fs \<times> (verr + unit)" where
  "Config_Save io p c fs =
     (let tmp = p @ ''.tmp'' in
      if \<not> io_mkdir io (filepath_Dir p) then (fs, Inl ErrIO)
      else case os_WriteFile io tmp (Config_Serialize c) fs of
             (fs1, Inl e) \<Rightarrow> (fs1, Inl e)
           | (fs1, Inr _) \<Rightarrow> if io_rename io tmp 0 then (os_Rename tmp p fs1, Inr ()) else (os_Remove tmp fs1, Inl ErrIO))"

section \<open>Remotes\<close>

record Remote =
  rem_Name :: string
  rem_URL :: string
  rem_Fetch :: string

definition DefaultFetchRefspec :: "string \<Rightarrow> string" where
  "DefaultFetchRefspec name = ''+refs/heads/*:refs/remotes/'' @ name @ ''/*''"

definition Config_Remote :: "(string \<Rightarrow> string) \<Rightarrow> Config \<Rightarrow> string \<Rightarrow> Remote option" where
  "Config_Remote u c name =
     (case find_section u (sectionKey u ''remote'' name) c of
        None \<Rightarrow> None
      | Some i \<Rightarrow>
          (case sec_get u (c ! i) ''url'' of
             None \<Rightarrow> None
           | Some url \<Rightarrow> Some \<lparr>rem_Name = name, rem_URL = url,
               rem_Fetch = (case sec_get u (c ! i) ''fetch'' of None \<Rightarrow> DefaultFetchRefspec name | Some f \<Rightarrow> f)\<rparr>))"

definition Config_Remotes :: "(string \<Rightarrow> string) \<Rightarrow> Config \<Rightarrow> Remote list" where
  "Config_Remotes u c =
     sort_by rem_Name (List.map_filter (\<lambda>s. if ToLower u (sec_Name s) \<noteq> ''remote'' \<or> sec_Subname s = [] then None else Config_Remote u c (sec_Subname s)) c)"

definition AddRemote :: "(string \<Rightarrow> string) \<Rightarrow> string \<Rightarrow> string \<Rightarrow> Config \<Rightarrow> Config" where
  "AddRemote u name url c = Config_Set u ''remote'' name ''fetch'' (DefaultFetchRefspec name) (Config_Set u ''remote'' name ''url'' url c)"

definition RemoveRemote :: "(string \<Rightarrow> string) \<Rightarrow> string \<Rightarrow> Config \<Rightarrow> Config \<times> bool" where
  "RemoveRemote u name c =
     (if find_section u (sectionKey u ''remote'' name) c = None then (c, False) else (RemoveSection u ''remote'' name c, True))"

text \<open>\<^verbatim>\<open>vara remote\<close>. \<open>norm\<close> is \<^verbatim>\<open>normalizeRemoteLocation\<close>, which asks for the current directory.\<close>

datatype remote_error = RLoad "nat \<times> config_error" | RUsage | RName name_error | RExists | RSave verr | RNoSuch | RUnknown

definition configPath :: "path \<Rightarrow> path" where "configPath varaDir = filepath_Join varaDir ''config''"

definition RunRemote :: "(string \<Rightarrow> string) \<Rightarrow> io \<Rightarrow> (string \<Rightarrow> string) \<Rightarrow> path \<Rightarrow> string list \<Rightarrow> fs \<Rightarrow> fs \<times> (remote_error + string)" where
  "RunRemote u io norm varaDir args fs =
     (case Config_Load u (configPath varaDir) fs of
        Inl e \<Rightarrow> (fs, Inl (RLoad e))
      | Inr cfg \<Rightarrow>
          let save = (\<lambda>c. case Config_Save io (configPath varaDir) c fs of (fs', Inl e) \<Rightarrow> (fs', Inl (RSave e)) | (fs', Inr _) \<Rightarrow> (fs', Inr [])) in
          (case args of
             [] \<Rightarrow> (fs, Inr (concat (map (\<lambda>r. rem_Name r @ [CHR 0x09] @ rem_URL r @ [LF]) (Config_Remotes u cfg))))
           | cmd # rest \<Rightarrow>
               if cmd = ''add'' then
                 (case rest of
                    [name, url] \<Rightarrow>
                      (case ValidateName name of
                         Some e \<Rightarrow> (fs, Inl (RName e))
                       | None \<Rightarrow>
                           if Config_Remote u cfg name \<noteq> None then (fs, Inl RExists)
                           else save (AddRemote u name (norm url) cfg))
                  | _ \<Rightarrow> (fs, Inl RUsage))
               else if cmd = ''remove'' \<or> cmd = ''rm'' then
                 (case rest of
                    [name] \<Rightarrow> (case RemoveRemote u name cfg of (c, found) \<Rightarrow> if \<not> found then (fs, Inl RNoSuch) else save c)
                  | _ \<Rightarrow> (fs, Inl RUsage))
               else (fs, Inl RUnknown)))"

section \<open>Trimming\<close>

text \<open>A string that trimming leaves alone, and trimming around it.\<close>

definition neat :: "string \<Rightarrow> bool" where "neat s \<longleftrightarrow> TrimSpace s = s"

definition blank :: "char \<Rightarrow> bool" where "blank c \<longleftrightarrow> c \<in> {CHR 0x09, CHR 0x20}"

lemma space_rune_list: "list_all (\<lambda>r. r \<noteq> [] \<and> (length r = 1 \<or> list_all (\<lambda>c. \<not> ascii c) r)) space_runes"
  by (simp add: space_runes_def ascii_def upt_rec)

lemma space_rune_bytes:
  "\<forall>r \<in> set space_runes. r \<noteq> [] \<and> (length r = 1 \<or> list_all (\<lambda>c. \<not> ascii c) r)"
  "\<forall>r \<in> set (map rev space_runes). r \<noteq> [] \<and> (length r = 1 \<or> list_all (\<lambda>c. \<not> ascii c) r)"
  using space_rune_list by (simp_all add: list_all_iff)

lemma blank_runes: "blank b \<Longrightarrow> [b] \<in> set space_runes"
proof -
  have "[CHR 0x09] \<in> set space_runes" "[CHR 0x20] \<in> set space_runes" by code_simp+
  then show "blank b \<Longrightarrow> [b] \<in> set space_runes" by (auto simp: blank_def)
qed

lemma blank_rune:
  assumes "rs = space_runes \<or> rs = map rev space_runes" "blank b"
  shows "find (HasPrefix (b # s)) rs = Some [b]"
proof -
  have facts: "\<forall>r \<in> set rs. r \<noteq> [] \<and> (length r = 1 \<or> list_all (\<lambda>c. \<not> ascii c) r)" "[b] \<in> set rs"
    using assms(1) space_rune_bytes blank_runes [OF assms(2)] by (elim disjE; force)+
  have "ascii b" using assms(2) by (auto simp: blank_def ascii_def)
  then have one: "r = [b]" if "r \<in> set rs" "HasPrefix (b # s) r" for r
    using facts(1) that by (cases r) (auto simp: HasPrefix_iff list_all_iff)
  obtain r where r: "find (HasPrefix (b # s)) rs = Some r"
    using facts(2) HasPrefix_append [of "[b]" s] by (metis append_Cons append_Nil find_None_iff not_None_eq)
  then have "r \<in> set rs" "HasPrefix (b # s) r" by (auto simp: find_Some_iff)
  then show ?thesis using one r by simp
qed

definition stuck :: "string list \<Rightarrow> string \<Rightarrow> bool" where
  "stuck rs s \<longleftrightarrow> (\<forall>r \<in> set rs. \<not> HasPrefix s r)"

lemma trim_stuck: "stuck rs s \<Longrightarrow> trim_runes n rs s = s"
proof (cases n)
  case (Suc m)
  assume "stuck rs s"
  then have "find (HasPrefix s) rs = None" by (auto simp: stuck_def find_None_iff)
  with Suc show ?thesis by simp
qed simp

lemma trim_blanks:
  assumes "rs = space_runes \<or> rs = map rev space_runes" "stuck rs s" "list_all blank w" "length w \<le> n"
  shows "trim_runes n rs (w @ s) = s"
  using assms(3,4)
proof (induction w arbitrary: n)
  case (Cons b w)
  then obtain m where "n = Suc m" by (cases n) auto
  with Cons blank_rune [OF assms(1), of b "w @ s"] show ?case by simp
qed (simp add: trim_stuck [OF assms(2)])

lemma trim_shorter: "\<forall>r \<in> set rs. r \<noteq> [] \<Longrightarrow> length (trim_runes n rs s) \<le> length s \<and> (n \<noteq> 0 \<and> s \<noteq> [] \<and> \<not> stuck rs s \<longrightarrow> length (trim_runes n rs s) < length s)"
proof (induction n arbitrary: s)
  case (Suc n)
  show ?case
  proof (cases "find (HasPrefix s) rs")
    case None
    then have "stuck rs s" by (auto simp: find_None_iff stuck_def)
    with None show ?thesis by simp
  next
    case (Some r)
    then have "r \<in> set rs" "HasPrefix s r" by (auto simp: find_Some_iff)
    then have "length (drop (length r) s) < length s" using Suc(2) by (auto simp: HasPrefix_iff)
    moreover have "length (trim_runes n rs (drop (length r) s)) \<le> length (drop (length r) s)" using Suc by blast
    ultimately show ?thesis using Some by simp
  qed
qed simp

lemma stuck_Nil: "\<forall>r \<in> set rs. r \<noteq> [] \<Longrightarrow> stuck rs []"
  by (auto simp: stuck_def HasPrefix_def)

lemma neat_stuck: "neat s \<Longrightarrow> stuck space_runes s \<and> stuck (map rev space_runes) (rev s)"
proof
  assume n: "neat s"
  let ?t = "trim_runes (length s) space_runes s"
  have ne: "\<forall>r \<in> set space_runes. r \<noteq> []" "\<forall>r \<in> set (map rev space_runes). r \<noteq> []" using space_rune_bytes by auto
  have len: "length s \<le> length ?t" using n trim_shorter [OF ne(2), of "length ?t" "rev ?t"] by (simp add: neat_def TrimSpace_def Let_def) (metis length_rev)
  show 1: "stuck space_runes s"
    using trim_shorter [OF ne(1), of "length s" s] len stuck_Nil [OF ne(1)] by (cases "s = []") auto
  then have "?t = s" by (rule trim_stuck)
  then have "rev (trim_runes (length s) (map rev space_runes) (rev s)) = s" using n by (simp add: neat_def TrimSpace_def Let_def)
  then have "length (trim_runes (length s) (map rev space_runes) (rev s)) = length s" by (metis length_rev)
  then show "stuck (map rev space_runes) (rev s)"
    using trim_shorter [OF ne(2), of "length s" "rev s"] stuck_Nil [OF ne(2)] by (cases "s = []") auto
qed

lemma neat_iff: "neat s \<longleftrightarrow> stuck space_runes s \<and> stuck (map rev space_runes) (rev s)"
proof
  assume "stuck space_runes s \<and> stuck (map rev space_runes) (rev s)"
  then show "neat s" by (simp add: neat_def TrimSpace_def Let_def trim_stuck)
qed (rule neat_stuck)

text \<open>What follows with an ASCII character does not change how the front is trimmed.\<close>

lemma stuck_append:
  assumes "rs = space_runes \<or> rs = map rev space_runes" "stuck rs s" "s \<noteq> []" "x = [] \<or> ascii (hd x)"
  shows "stuck rs (s @ x)"
  unfolding stuck_def
proof safe
  fix r assume r: "r \<in> set rs" "HasPrefix (s @ x) r"
  show False
  proof (cases "length r \<le> length s")
    case True
    then have "HasPrefix s r" using r(2) by (simp add: HasPrefix_def)
    then show False using assms(2) r(1) by (auto simp: stuck_def)
  next
    case False
    then obtain c x' where x: "x = c # x'" using r(2) by (cases x) (auto simp: HasPrefix_def)
    then have "c \<in> set r" using r(2) False by (auto simp: HasPrefix_iff append_eq_append_conv2 Cons_eq_append_conv)
    moreover have "length r \<noteq> 1" using False assms(3) by (cases s) auto
    ultimately have "\<not> ascii c" using space_rune_bytes assms(1) r(1) by (elim disjE) (fastforce simp: list_all_iff)+
    then show False using assms(4) x by simp
  qed
qed

lemma neat_join:
  assumes "neat a" "neat b" "a \<noteq> []" "b \<noteq> []" "x = [] \<or> ascii (hd x)" "x = [] \<or> ascii (last x)" "x = [] \<Longrightarrow> ascii (hd b) \<and> ascii (last a)"
  shows "neat (a @ x @ b)"
proof -
  have "stuck space_runes (a @ (x @ b))" using neat_stuck [OF assms(1)] assms(3,5,7) by (intro stuck_append) (auto simp: hd_append)
  moreover have "stuck (map rev space_runes) (rev b @ (rev x @ rev a))"
    using neat_stuck [OF assms(2)] assms(3,4,6,7) by (intro stuck_append) (auto simp: hd_append hd_rev)
  ultimately show ?thesis by (simp add: neat_iff)
qed

lemma TrimSpace_pad:
  assumes "neat s" "list_all blank a" "list_all blank b"
  shows "TrimSpace (a @ s @ b) = s"
proof (cases "s = []")
  case True
  have "stuck space_runes []" "stuck (map rev space_runes) []" using neat_stuck [OF assms(1)] True by simp_all
  then show ?thesis using trim_blanks [of space_runes "[]" "a @ b" "length (a @ b)"] assms(2,3) True by (simp add: TrimSpace_def Let_def trim_stuck)
next
  case False
  note st = neat_stuck [OF assms(1)]
  have "b = [] \<or> ascii (hd b)" using assms(3) by (cases b) (auto simp: blank_def ascii_def)
  then have "stuck space_runes (s @ b)" using st False by (intro stuck_append) auto
  then have "trim_runes (length (a @ s @ b)) space_runes (a @ s @ b) = s @ b" by (intro trim_blanks assms) simp_all
  moreover have "trim_runes (length (s @ b)) (map rev space_runes) (rev b @ rev s) = rev s" by (intro trim_blanks) (use st assms(3) in \<open>auto simp: list_all_iff\<close>)
  ultimately show ?thesis by (simp add: TrimSpace_def Let_def)
qed

lemma neat_graphic: "graphic c \<Longrightarrow> neat [c]"
  using TrimSpace_graphic(1) [of "[c]"] by (simp add: neat_def)

lemma neat_Nil: "neat []" by (simp add: neat_def TrimSpace_def)

section \<open>One line\<close>

definition tidy_pair :: "(string \<Rightarrow> string) \<Rightarrow> string \<times> string \<Rightarrow> bool" where
  "tidy_pair u p \<longleftrightarrow> neat (fst p) \<and> neat (snd p) \<and> CHR ''='' \<notin> set (fst p) \<and> LF \<notin> set (fst p) \<and> LF \<notin> set (snd p)
     \<and> (fst p = [] \<or> hd (fst p) \<notin> {CHR ''#'', CHR '';'', CHR ''[''}) \<and> ToLower u (fst p) = fst p \<and> length (pair_line p) \<le> 65535"

lemma eq_sign: "neat ''=''" "ascii (CHR ''='')" "ascii (CHR '' '')" "blank (CHR '' '')" "blank (CHR 0x09)"
  by (simp_all add: neat_graphic graphic_def ascii_def blank_def)

lemma neat_CR: "neat s \<Longrightarrow> s \<noteq> [] \<Longrightarrow> last s \<noteq> CHR 0x0D"
proof
  assume "neat s" "s \<noteq> []" "last s = CHR 0x0D"
  moreover have "[CHR 0x0D] \<in> set (map rev space_runes)" by code_simp
  moreover have "HasPrefix (rev s) [last s]" using \<open>s \<noteq> []\<close> by (cases s rule: rev_cases) (auto simp: HasPrefix_def)
  ultimately show False using neat_stuck unfolding stuck_def by metis
qed

lemma parse_pair:
  assumes "tidy_pair u p"
  shows "parse_line u (dropCR (pair_line p)) (c, Some i) = Inr (set_at u i (fst p) (snd p) c, Some i)"
proof -
  obtain k v where p: "p = (k, v)" by fastforce
  have k: "neat k" "CHR ''='' \<notin> set k" "k = [] \<or> hd k \<notin> {CHR ''#'', CHR '';'', CHR ''[''}" and v: "neat v" using assms p by (auto simp: tidy_pair_def)
  define a where "a = (if k = [] then '''' else k @ '' '')"
  define b where "b = (if v = [] then '''' else '' '' @ v)"
  have front: "neat (a @ ''='')" if "k \<noteq> []" using neat_join [OF k(1) eq_sign(1) that, of "'' ''"] that eq_sign(3) by (simp add: a_def)
  have core: "neat (a @ ''='' @ b)"
  proof (cases "v = []")
    case True
    then show ?thesis using front eq_sign(1) by (cases "k = []") (simp_all add: a_def b_def)
  next
    case False
    have "neat (a @ ''='')" using front eq_sign(1) by (cases "k = []") (simp_all add: a_def)
    from neat_join [OF this v _ False, of "'' ''"] show ?thesis using False eq_sign(3) by (simp add: b_def)
  qed
  have line: "pair_line p = ([CHR 0x09] @ (if k = [] then '' '' else '''')) @ (a @ ''='' @ b) @ (if v = [] then '' '' else '''')"
    by (simp add: pair_line_def p a_def b_def)
  have "last (pair_line p) \<noteq> CHR 0x0D" using neat_CR [OF v] by (simp add: p pair_line_def)
  then have "dropCR (pair_line p) = pair_line p" by (simp add: dropCR_def)
  moreover have "list_all blank ([CHR 0x09] @ (if k = [] then '' '' else ''''))" "list_all blank (if v = [] then '' '' else '''')" using eq_sign(4,5) by simp_all
  ultimately have raw: "TrimSpace (dropCR (pair_line p)) = a @ ''='' @ b" using TrimSpace_pad [OF core] line by metis
  have "CHR ''='' \<notin> set a" using k(2) by (simp add: a_def)
  then have tw: "takeWhile (\<lambda>x. x \<noteq> CHR ''='') (a @ ''='' @ b) = a" "dropWhile (\<lambda>x. x \<noteq> CHR ''='') (a @ ''='' @ b) = ''='' @ b"
    by (auto simp: takeWhile_append dropWhile_append)
  have "TrimSpace a = k" "TrimSpace b = v"
    using TrimSpace_pad [OF k(1), of "[]" "'' ''"] TrimSpace_pad [OF v, of "'' ''" "[]"] eq_sign(4) neat_Nil by (auto simp: a_def b_def neat_def)
  moreover have "hd (a @ ''='' @ b) \<notin> {CHR ''#'', CHR '';'', CHR ''[''}" using k(3) by (auto simp: a_def)
  ultimately show ?thesis using raw tw by (simp add: parse_line_def Let_def p)
qed

definition tidy_section :: "(string \<Rightarrow> string) \<Rightarrow> Section \<Rightarrow> bool" where
  "tidy_section u s \<longleftrightarrow> sec_Name s \<noteq> [] \<and> neat (sec_Name s) \<and> QUOTE \<notin> set (sec_Name s) \<and> LF \<notin> set (sec_Name s)
     \<and> QUOTE \<notin> set (sec_Subname s) \<and> LF \<notin> set (sec_Subname s) \<and> length (header_line s) \<le> 65535
     \<and> distinct (map fst (sec_pairs s)) \<and> (\<forall>p \<in> set (sec_pairs s). tidy_pair u p)"

lemma stuck_graphic: "graphic c \<Longrightarrow> \<forall>r \<in> set rs. r \<noteq> [] \<and> \<not> graphic (hd r) \<Longrightarrow> stuck rs (c # s)"
  unfolding stuck_def HasPrefix_iff by (metis hd_append2 list.sel(1))

lemma header_form:
  "\<exists>inner. header_line s = ''['' @ inner @ '']'' \<and> inner = sec_Name s @ (if sec_Subname s = [] then [] else '' '' @ [QUOTE] @ sec_Subname s @ [QUOTE])"
  by (simp add: header_line_def)

lemma parse_header:
  assumes "tidy_section u s"
  shows "parse_line u (dropCR (header_line s)) st = (case findOrCreate u (sec_Name s) (sec_Subname s) (fst st) of (c, i) \<Rightarrow> Inr (c, Some i))"
proof -
  let ?n = "sec_Name s" and ?sub = "sec_Subname s"
  have n: "?n \<noteq> []" "neat ?n" "QUOTE \<notin> set ?n" and sub: "QUOTE \<notin> set ?sub" using assms by (auto simp: tidy_section_def)
  define inner where "inner = ?n @ (if ?sub = [] then [] else '' '' @ [QUOTE] @ ?sub @ [QUOTE])"
  have h: "header_line s = ''['' @ inner @ '']''" using header_form [of s] by (simp add: inner_def)
  have raw: "dropCR (header_line s) = header_line s" "TrimSpace (header_line s) = header_line s"
    using TrimSpace_graphic(1) [of "header_line s"] by (simp_all add: h dropCR_def graphic_def)
  have q: "neat [QUOTE]" "ascii QUOTE" by (simp_all add: QUOTE_def neat_graphic graphic_def ascii_def)
  have inn: "TrimSpace inner = inner"
  proof (cases "?sub = []")
    case False
    have "stuck space_runes inner" using neat_stuck [OF n(2)] n(1) eq_sign(3) by (auto simp: inner_def intro!: stuck_append)
    moreover have "stuck (map rev space_runes) (QUOTE # rev ?sub @ [QUOTE] @ '' '' @ rev ?n)"
      using space_runes_facts(2) by (intro stuck_graphic) (auto simp: graphic_def QUOTE_def)
    ultimately have "neat inner" using False by (simp add: neat_iff inner_def)
    then show ?thesis by (simp add: neat_def)
  next
    case True
    then show ?thesis using n(2) by (simp add: inner_def neat_def)
  qed
  have "parseHeader (header_line s) = Inr (?n, ?sub)"
  proof (cases "?sub = []")
    case True
    then show ?thesis using inn n by (simp add: parseHeader_def h Let_def inner_def)
  next
    case False
    have "takeWhile (\<lambda>c. c \<noteq> QUOTE) inner = ?n @ '' ''" "dropWhile (\<lambda>c. c \<noteq> QUOTE) inner = [QUOTE] @ ?sub @ [QUOTE]"
      using n(3) False by (auto simp: inner_def takeWhile_append dropWhile_append QUOTE_def)
    moreover have "takeWhile (\<lambda>c. c \<noteq> QUOTE) (?sub @ [QUOTE]) = ?sub" using sub by (auto simp: takeWhile_append)
    moreover have "TrimSpace (?n @ '' '') = ?n" using TrimSpace_pad [OF n(2), of "[]" "'' ''"] eq_sign(4) by simp
    moreover have "QUOTE \<in> set inner" using False by (simp add: inner_def)
    ultimately show ?thesis using inn n(1) by (simp add: parseHeader_def h Let_def)
  qed
  then show ?thesis using raw by (simp add: parse_line_def Let_def h)
qed

section \<open>Whole files\<close>

definition section_lines :: "Section \<Rightarrow> string list" where
  "section_lines s = header_line s # map pair_line (sec_pairs s)"

definition tidy :: "(string \<Rightarrow> string) \<Rightarrow> Config \<Rightarrow> bool" where
  "tidy u c \<longleftrightarrow> distinct (map (key_of u) c) \<and> (\<forall>s \<in> set c. tidy_section u s)"

lemma put_pair_new: "k \<notin> fst ` set ps \<Longrightarrow> put_pair k v ps = ps @ [(k, v)]"
  by (induction ps) auto

lemma find_section_None: "find_section u k c = None \<longleftrightarrow> k \<notin> key_of u ` set c"
  by (induction c) auto

lemma parse_pairs:
  "distinct (map fst (sec_pairs s @ ps)) \<Longrightarrow> \<forall>p \<in> set ps. tidy_pair u p \<Longrightarrow>
    config_lines u n (map pair_line ps @ ls) (c @ [s], Some (length c)) = config_lines u (n + length ps) ls (c @ [s\<lparr>sec_pairs := sec_pairs s @ ps\<rparr>], Some (length c))"
proof (induction ps arbitrary: s n)
  case (Cons p ps)
  obtain k v where p: "p = (k, v)" by fastforce
  have t: "tidy_pair u p" using Cons(3) by simp
  then have "ToLower u k = k" "\<not> 65535 < length (pair_line p)" using p by (auto simp: tidy_pair_def)
  moreover have "put_pair k v (sec_pairs s) = sec_pairs s @ [p]" using Cons(2) p by (auto simp: put_pair_new)
  ultimately have "config_lines u n (map pair_line (p # ps) @ ls) (c @ [s], Some (length c))
      = config_lines u (Suc n) (map pair_line ps @ ls) (c @ [s\<lparr>sec_pairs := sec_pairs s @ [p]\<rparr>], Some (length c))"
    using parse_pair [OF t, of "c @ [s]" "length c"] p by (simp add: set_at_def sec_set_def)
  also have "\<dots> = config_lines u (Suc n + length ps) ls (c @ [s\<lparr>sec_pairs := sec_pairs s @ p # ps\<rparr>], Some (length c))"
    using Cons(1) [of "s\<lparr>sec_pairs := sec_pairs s @ [p]\<rparr>" "Suc n"] Cons(2,3) by simp
  finally show ?case by simp
qed simp

lemma parse_section:
  assumes "tidy_section u s" "key_of u s \<notin> key_of u ` set c"
  shows "config_lines u n (section_lines s @ ls) (c, i) = config_lines u (n + length (section_lines s)) ls (c @ [s], Some (length c))"
proof -
  let ?s0 = "\<lparr>sec_Name = sec_Name s, sec_Subname = sec_Subname s, sec_pairs = []\<rparr>"
  have "findOrCreate u (sec_Name s) (sec_Subname s) c = (c @ [?s0], length c)"
    using assms(2) find_section_None [of u "key_of u s" c] by (simp add: findOrCreate_def key_of_def)
  moreover have "\<not> 65535 < length (header_line s)" using assms(1) by (simp add: tidy_section_def)
  ultimately have "config_lines u n (section_lines s @ ls) (c, i) = config_lines u (Suc n) (map pair_line (sec_pairs s) @ ls) (c @ [?s0], Some (length c))"
    using parse_header [OF assms(1), of "(c, i)"] by (simp add: section_lines_def)
  also have "\<dots> = config_lines u (Suc n + length (sec_pairs s)) ls (c @ [s], Some (length c))"
    using parse_pairs [of ?s0 "sec_pairs s"] assms(1) by (cases s) (simp add: tidy_section_def)
  finally show ?thesis by (simp add: section_lines_def)
qed

lemma parse_blank: "config_lines u n ([] # ls) st = config_lines u (Suc n) ls st"
  using neat_Nil by (simp add: parse_line_def dropCR_def neat_def)

lemma parse_sections:
  "tidy u (c @ ss) \<Longrightarrow> config_lines u n (concat (map (\<lambda>s. [] # section_lines s) ss)) (c, i) = Inr (c @ ss)"
proof (induction ss arbitrary: c n i)
  case (Cons s ss)
  have s: "tidy_section u s" "key_of u s \<notin> key_of u ` set c" and t: "tidy u ((c @ [s]) @ ss)" using Cons(2) by (auto simp: tidy_def)
  show ?case using parse_section [OF s, of "Suc n"] Cons(1) [OF t] by (simp add: parse_blank del: config_lines.simps(2))
qed simp

lemma scan_joined: "\<forall>l \<in> set ls. LF \<notin> set l \<Longrightarrow> scan_lines (concat (map (\<lambda>l. l @ [LF]) ls)) = ls"
proof -
  assume "\<forall>l \<in> set ls. LF \<notin> set l"
  then have "Split (concat (map (\<lambda>l. l @ [LF]) ls)) LF = ls @ [[]]"
    by (induction ls) (simp_all add: Split_append Split_no_sep)
  then show ?thesis by (simp add: scan_lines_def Let_def)
qed

lemma concat_lines: "concat (map (\<lambda>l. l @ [LF]) (concat lss)) = concat (map (\<lambda>ls. concat (map (\<lambda>l. l @ [LF]) ls)) lss)"
  by (induction lss) simp_all

lemma section_text_lines: "section_text s = concat (map (\<lambda>l. l @ [LF]) (section_lines s))"
  by (simp add: section_text_def section_lines_def comp_def)

lemma section_lines_LF: "tidy_section u s \<Longrightarrow> l \<in> set (section_lines s) \<Longrightarrow> LF \<notin> set l"
  by (auto simp: section_lines_def tidy_section_def tidy_pair_def header_line_def pair_line_def QUOTE_def split: if_splits)

lemma config_roundtrip_aux:
  assumes "tidy u c"
  shows "Config_Parse u (Config_Serialize c) = Inr c"
proof (cases c)
  case Nil
  then show ?thesis by (simp add: Config_Serialize_def Config_Parse_def scan_lines_def Split_def NewConfig_def)
next
  case (Cons s ss)
  let ?ls = "section_lines s @ concat (map (\<lambda>s. [] # section_lines s) ss)"
  have ser: "Config_Serialize c = concat (map (\<lambda>l. l @ [LF]) ?ls)"
    by (simp add: Cons Config_Serialize_def section_text_lines concat_lines comp_def)
  have "\<forall>l \<in> set ?ls. LF \<notin> set l" using assms section_lines_LF [of u] by (auto simp: Cons tidy_def)
  then have "scan_lines (Config_Serialize c) = ?ls" unfolding ser by (rule scan_joined)
  then have "Config_Parse u (Config_Serialize c) = config_lines u 0 ?ls ([], None)" by (simp add: Config_Parse_def NewConfig_def)
  also have "\<dots> = config_lines u (length (section_lines s)) (concat (map (\<lambda>s. [] # section_lines s) ss)) ([s], Some 0)"
    using parse_section [of u s "[]" 0] assms by (simp add: Cons tidy_def)
  finally show ?thesis using parse_sections [of u "[s]" ss] assms by (simp add: Cons)
qed

interpretation config_text: decoder Config_Serialize "Config_Parse u" "tidy u" for u
  by unfold_locales (rule config_roundtrip_aux)

text \<open>C25. Writing a configuration and reading it back gives the same configuration: the same sections in the same order, with the same keys, in the same order, and the same
  values. The conditions are those a file that was read satisfies: no two sections with the same name, keys in lower case without \<^verbatim>\<open>=\<close> and not starting like a comment or a header, names
  without quotation marks, nothing to trim, no line breaks and no line longer than the scanner accepts.\<close>

theorem config_roundtrip:
  "tidy u c \<Longrightarrow> Config_Parse u (Config_Serialize c) = Inr c"
  by (rule config_text.dec_enc)

definition sample_config :: Config where
  "sample_config = [\<lparr>sec_Name = ''merge'', sec_Subname = [], sec_pairs = [(''strategy'', ''union'')]\<rparr>,
     \<lparr>sec_Name = ''remote'', sec_Subname = ''origin'', sec_pairs = [(''url'', ''/srv/v''), (''fetch'', ''+refs/heads/*:refs/remotes/origin/*'')]\<rparr>]"

lemma tidy_sample: "tidy id sample_config"
proof -
  have "neat s" if "s \<noteq> []" "graphic (hd s)" "graphic (last s)" for s using that TrimSpace_graphic(1) by (simp add: neat_def)
  then show ?thesis
    by (simp add: tidy_def sample_config_def key_of_def sectionKey_def tidy_section_def tidy_pair_def header_line_def pair_line_def QUOTE_def ToLower_def ascii_def lower_char_def graphic_def)
qed

theorem config_roundtrip_witness:
  "Config_Parse id (Config_Serialize sample_config) = Inr sample_config"
  by (rule config_roundtrip [OF tidy_sample])

section \<open>Changing a configuration\<close>

lemma find_section_Some: "find_section u k c = Some i \<Longrightarrow> i < length c \<and> key_of u (c ! i) = k"
  by (induction c arbitrary: i) (auto split: if_splits)

lemma key_of_sec_set [simp]: "key_of u (sec_set u key v s) = key_of u s"
  by (simp add: key_of_def sec_set_def)

lemma map_of_put_pair: "map_of (put_pair k v ps) = (map_of ps)(k \<mapsto> v)"
  by (induction ps) auto

lemma sec_get_set: "sec_get u (sec_set u key v s) key' = (if ToLower u key' = ToLower u key then Some v else sec_get u s key')"
  by (simp add: sec_get_def sec_set_def map_of_put_pair)

lemma header_sec_set [simp]: "header_line (sec_set u key v s) = header_line s"
  by (simp add: header_line_def sec_set_def)

lemma find_section_cong: "map (key_of u) c = map (key_of u) c' \<Longrightarrow> find_section u k c = find_section u k c'"
  by (induction c c' rule: list_induct2') auto

lemma find_section_snoc: "find_section u k (c @ [s]) = (case find_section u k c of Some i \<Rightarrow> Some i | None \<Rightarrow> if key_of u s = k then Some (length c) else None)"
  by (induction c) (auto split: option.split)

text \<open>After \<^verbatim>\<open>Set\<close>, \<^verbatim>\<open>Get\<close> returns the new value for that key and the old value for every other.\<close>

lemma Get_Set:
  "Config_Get u (Config_Set u name subname key v c) name' subname' key' =
     (if sectionKey u name' subname' = sectionKey u name subname \<and> ToLower u key' = ToLower u key then Some v else Config_Get u c name' subname' key')"
proof (cases "find_section u (sectionKey u name subname) c")
  case None
  then show ?thesis
    by (auto simp: Config_Get_def Config_Set_def findOrCreate_def set_at_def find_section_snoc sec_get_set nth_append key_of_def [of u "\<lparr>sec_Name = a, sec_Subname = b, sec_pairs = []\<rparr>" for a b]
        sec_get_def [of u "\<lparr>sec_Name = a, sec_Subname = b, sec_pairs = []\<rparr>" for a b] dest: find_section_Some split: option.split)
next
  case (Some i)
  note i = find_section_Some [OF Some]
  have "map (key_of u) (c[i := sec_set u key v (c ! i)]) = map (key_of u) c" using i by (simp add: map_update list_update_same_conv)
  then have f: "find_section u k (c[i := sec_set u key v (c ! i)]) = find_section u k c" for k by (rule find_section_cong)
  show ?thesis
  proof (cases "sectionKey u name' subname' = sectionKey u name subname")
    case True
    then show ?thesis using Some i by (simp add: Config_Get_def Config_Set_def findOrCreate_def set_at_def f sec_get_set)
  next
    case False
    have "j \<noteq> i" if "find_section u (sectionKey u name' subname') c = Some j" for j using find_section_Some [OF that] i False by auto
    then show ?thesis using Some i False by (auto simp: Config_Get_def Config_Set_def findOrCreate_def set_at_def f split: option.split)
  qed
qed

lemma tidy_put_pair:
  assumes "distinct (map fst ps)" "\<forall>p \<in> set ps. tidy_pair u p" "tidy_pair u (k, v)"
  shows "distinct (map fst (put_pair k v ps)) \<and> (\<forall>p \<in> set (put_pair k v ps). tidy_pair u p)"
proof -
  have "fst ` set (put_pair k v ps) = insert k (fst ` set ps)" for ps by (induction ps) auto
  then have "distinct (map fst ps) \<Longrightarrow> distinct (map fst (put_pair k v ps))" for ps by (induction ps) auto
  moreover have "set (put_pair k v ps) \<subseteq> insert (k, v) (set ps)" by (induction ps) auto
  ultimately show ?thesis using assms by blast
qed

lemma tidy_Set:
  assumes "tidy u c" "tidy_section u \<lparr>sec_Name = name, sec_Subname = subname, sec_pairs = []\<rparr>" "tidy_pair u (ToLower u key, v)"
  shows "tidy u (Config_Set u name subname key v c)"
proof (cases "find_section u (sectionKey u name subname) c")
  case None
  then have "sectionKey u name subname \<notin> key_of u ` set c" by (simp add: find_section_None)
  with None assms show ?thesis
    by (auto simp: tidy_def Config_Set_def findOrCreate_def set_at_def key_of_def sec_set_def tidy_section_def header_line_def nth_append list_update_append)
next
  case (Some i)
  note i = find_section_Some [OF Some]
  have "tidy_section u (c ! i)" using i assms(1) by (simp add: tidy_def)
  then have "tidy_section u (sec_set u key v (c ! i))"
    using tidy_put_pair [OF _ _ assms(3), of "sec_pairs (c ! i)"] header_sec_set [of u key v "c ! i"] unfolding tidy_section_def sec_set_def by simp
  moreover have "map (key_of u) (c[i := sec_set u key v (c ! i)]) = map (key_of u) c" using i by (simp add: map_update list_update_same_conv)
  ultimately show ?thesis
    using Some assms(1) set_update_subset_insert [of c i "sec_set u key v (c ! i)"] by (auto simp: tidy_def Config_Set_def findOrCreate_def set_at_def)
qed

lemma Config_Remote_Get:
  "Config_Remote u c name = (case Config_Get u c ''remote'' name ''url'' of None \<Rightarrow> None
     | Some url \<Rightarrow> Some \<lparr>rem_Name = name, rem_URL = url, rem_Fetch = (case Config_Get u c ''remote'' name ''fetch'' of None \<Rightarrow> DefaultFetchRefspec name | Some f \<Rightarrow> f)\<rparr>)"
  by (simp add: Config_Remote_def Config_Get_def split: option.split)

lemma remote_keys: "ToLower u ''url'' = ''url''" "ToLower u ''fetch'' = ''fetch''" "ToLower u ''remote'' = ''remote''"
  by (simp_all add: ToLower_def ascii_def lower_char_def)

lemma Remote_AddRemote:
  "Config_Remote u (AddRemote u name url c) name' =
     (if name' = name then Some \<lparr>rem_Name = name, rem_URL = url, rem_Fetch = DefaultFetchRefspec name\<rparr> else Config_Remote u c name')"
  by (simp add: Config_Remote_Get AddRemote_def Get_Set remote_keys sectionKey_def split: option.split)

text \<open>A remote name that a file can hold.\<close>

definition storable :: "string \<Rightarrow> string \<Rightarrow> bool" where
  "storable name url \<longleftrightarrow> QUOTE \<notin> set name \<and> LF \<notin> set name \<and> length name < 65000 \<and> neat url \<and> LF \<notin> set url \<and> length url < 65000"

lemma neat_ends: "s \<noteq> [] \<Longrightarrow> graphic (hd s) \<Longrightarrow> graphic (last s) \<Longrightarrow> neat s"
  using TrimSpace_graphic(1) by (simp add: neat_def)

lemma tidy_AddRemote:
  assumes "tidy u c" "storable name url"
  shows "tidy u (AddRemote u name url c)"
proof -
  have "tidy_section u \<lparr>sec_Name = ''remote'', sec_Subname = name, sec_pairs = []\<rparr>"
    using assms(2) neat_ends [of "''remote''"] by (simp add: tidy_section_def storable_def header_line_def QUOTE_def graphic_def)
  moreover have "tidy_pair u (''url'', url)" "tidy_pair u (''fetch'', DefaultFetchRefspec name)"
    using assms(2) neat_ends [of "''url''"] neat_ends [of "''fetch''"] neat_ends [of "DefaultFetchRefspec name"]
    by (auto simp: tidy_pair_def storable_def pair_line_def graphic_def remote_keys DefaultFetchRefspec_def)
  ultimately show ?thesis using assms(1) by (auto simp: AddRemote_def remote_keys intro!: tidy_Set)
qed

text \<open>\<^verbatim>\<open>vara remote add\<close> that succeeds, on a configuration file with something in it or none: the file written loads, has the new remote with the
  location and the default refspec, and every other remote as before. (The name and the location have to be storable: no quotation mark in the name, no line break, nothing to trim.)\<close>

theorem remote_add_lasts:
  assumes "RunRemote u io norm d [''add'', name, url] fs = (fs', Inr out)" "Config_Load u (configPath d) fs = Inr c" "tidy u c" "storable name (norm url)"
  shows "\<exists>c'. Config_Load u (configPath d) fs' = Inr c' \<and> tidy u c'
    \<and> Config_Remote u c' name = Some \<lparr>rem_Name = name, rem_URL = norm url, rem_Fetch = DefaultFetchRefspec name\<rparr>
    \<and> (\<forall>n. n \<noteq> name \<longrightarrow> Config_Remote u c' n = Config_Remote u c n)"
proof -
  let ?c = "AddRemote u name (norm url) c" and ?p = "configPath d"
  have "Config_Save io ?p ?c fs = (fs', Inr ())"
    using assms(1,2) by (auto simp: RunRemote_def Let_def split: option.splits if_splits prod.splits sum.splits)
  then have "fs' ?p = Some (Config_Serialize ?c)"
    by (auto simp: Config_Save_def Let_def os_WriteFile_def os_Rename_def split: if_splits prod.splits sum.splits)
  then have "Config_Load u ?p fs' = Inr ?c" using config_roundtrip_aux [OF tidy_AddRemote [OF assms(3,4)]] by (simp add: Config_Load_def)
  then show ?thesis using tidy_AddRemote [OF assms(3,4)] by (auto simp: Remote_AddRemote)
qed

theorem remote_add_lasts_witness:
  "\<exists>fs' c'. RunRemote id io_ok id ''/v'' [''add'', ''origin'', ''/srv/v''] Map.empty = (fs', Inr []) \<and> Config_Load id ''/v/config'' fs' = Inr c'
     \<and> Config_Remote id c' ''origin'' = Some \<lparr>rem_Name = ''origin'', rem_URL = ''/srv/v'', rem_Fetch = ''+refs/heads/*:refs/remotes/origin/*''\<rparr>"
proof -
  have p: "configPath ''/v'' = ''/v/config''" unfolding configPath_def by code_simp
  have v: "ValidateName ''origin'' = None" by code_simp
  have "storable ''origin'' ''/srv/v''" using neat_ends [of "''/srv/v''"] by (simp add: storable_def QUOTE_def graphic_def)
  moreover obtain fs' where "RunRemote id io_ok id ''/v'' [''add'', ''origin'', ''/srv/v''] Map.empty = (fs', Inr [])"
    using v by (simp add: RunRemote_def Let_def p Config_Load_def NewConfig_def Config_Remote_def Config_Save_def io_ok_def os_WriteFile_def)
  ultimately show ?thesis
    using remote_add_lasts [of id io_ok id "''/v''" "''origin''" "''/srv/v''" Map.empty fs' "[]" "[]"]
    by (auto simp: p Config_Load_def NewConfig_def tidy_def DefaultFetchRefspec_def)
qed

end
