(* ===== verification/Smart_Merge.thy ===== *)
theory Smart_Merge
  imports Config_File Merge_Engine
begin

text \<open>
  \<^verbatim>\<open>internal/smartmerge/smartmerge.go\<close>: the structural merge of JSON, YAML and TOML documents. A decoded document (\<^verbatim>\<open>any\<close> in Go) is a tree of objects, arrays
  and scalars; an object is an association list in key order, so that equal objects are equal lists. The scalars are a type parameter: equality on them is the
  equality of \<^verbatim>\<open>reflect.DeepEqual\<close>, so the not-a-number values of YAML and TOML are left out. The codecs of the three languages are arguments.
\<close>

section \<open>Documents\<close>

datatype 'a jv = Null | Leaf 'a | Arr "'a jv list" | Obj "(string \<times> 'a jv) list"
  | Mark (mark_base: "'a jv option") (mark_ours: "'a jv option") (mark_theirs: "'a jv option")

text \<open>A side of a mark is \<^verbatim>\<open>absent\<close>, here \<open>None\<close>, when it does not have the key.\<close>

definition all_keys :: "(string \<times> 'a jv) list \<Rightarrow> (string \<times> 'a jv) list \<Rightarrow> (string \<times> 'a jv) list \<Rightarrow> string list" where
  "all_keys b u t = sorted_list_of_set (set (map fst b @ map fst u @ map fst t))"

definition obj_fields :: "'a jv \<Rightarrow> (string \<times> 'a jv) list" where
  "obj_fields v = (case v of Obj m \<Rightarrow> m | _ \<Rightarrow> [])"

section \<open>The merge\<close>

lemma map_of_size [termination_simp]: "map_of m k = Some v \<Longrightarrow> size v < Suc (size_list (size_prod (\<lambda>_. 0) size) m)"
  by (induction m) (auto split: if_splits)

function (sequential) mergeTree :: "'a jv \<Rightarrow> 'a jv \<Rightarrow> 'a jv \<Rightarrow> 'a jv \<times> nat"
and objectMerge :: "(string \<times> 'a jv) list \<Rightarrow> (string \<times> 'a jv) list \<Rightarrow> (string \<times> 'a jv) list \<Rightarrow> string list \<Rightarrow> (string \<times> 'a jv) list \<times> nat"
and keyMerge :: "'a jv option \<Rightarrow> 'a jv option \<Rightarrow> 'a jv option \<Rightarrow> 'a jv option \<times> nat"
where
  "mergeTree b u t =
     (if u = t then (u, 0)
      else if b = u then (t, 0)
      else if b = t then (u, 0)
      else case (u, t) of
        (Obj um, Obj tm) \<Rightarrow> (case objectMerge (obj_fields b) um tm (all_keys (obj_fields b) um tm) of (out, n) \<Rightarrow> (Obj out, n))
      | _ \<Rightarrow> (Mark (Some b) (Some u) (Some t), 1))"
| "objectMerge b u t [] = ([], 0)"
| "objectMerge b u t (k # ks) =
     (case keyMerge (map_of b k) (map_of u k) (map_of t k) of
        (v, c) \<Rightarrow> (case objectMerge b u t ks of (out, n) \<Rightarrow> ((case v of None \<Rightarrow> out | Some x \<Rightarrow> (k, x) # out), c + n)))"
| "keyMerge b u t =
     (if u = t then (u, 0)
      else if b = u then (t, 0)
      else if b = t then (u, 0)
      else case (u, t) of
        (Some uv, Some tv) \<Rightarrow> (case mergeTree (case b of None \<Rightarrow> Null | Some bv \<Rightarrow> bv) uv tv of (m, c) \<Rightarrow> (Some m, c))
      | _ \<Rightarrow> (Some (Mark b u t), 1))"
  by pat_completeness auto
termination
  by (relation "inv_image (less_than <*lex*> less_than <*lex*> less_than) (\<lambda>x. case x of
      Inl (b, u, t) \<Rightarrow> (size u, 1, 0)
    | Inr (Inl (b, u, t, ks)) \<Rightarrow> (size (Obj u), 0, length ks)
    | Inr (Inr (b, u, t)) \<Rightarrow> (case u of None \<Rightarrow> 0 | Some v \<Rightarrow> size v, 2, 0))")
     (auto split: option.split dest: map_of_size)

declare mergeTree.simps [simp del]
declare keyMerge.simps [simp del]

fun containsConflict :: "'a jv \<Rightarrow> bool" where
  "containsConflict (Mark _ _ _) = True"
| "containsConflict (Obj m) = list_ex (\<lambda>p. containsConflict (snd p)) m"
| "containsConflict (Arr vs) = list_ex containsConflict vs"
| "containsConflict _ = False"

section \<open>Rendering conflicts\<close>

text \<open>\<open>cd_indent prefix v\<close> is \<^verbatim>\<open>MarshalIndent(v, prefix, "  ")\<close> and \<open>cd_plain v\<close> is \<^verbatim>\<open>Marshal(v)\<close>; an error is \<open>None\<close>.\<close>

record 'a doc_codec =
  cd_decode :: "bytes \<Rightarrow> 'a jv option"
  cd_indent :: "string \<Rightarrow> 'a jv \<Rightarrow> bytes option"
  cd_plain :: "'a jv \<Rightarrow> bytes option"
  cd_key :: "string \<Rightarrow> bytes option"

definition or_empty :: "bytes option \<Rightarrow> bytes" where "or_empty r = (case r of None \<Rightarrow> [] | Some d \<Rightarrow> d)"

definition writeSide :: "'a doc_codec \<Rightarrow> string \<Rightarrow> 'a jv option \<Rightarrow> bytes" where
  "writeSide cd indent v = (case v of None \<Rightarrow> [] | Some x \<Rightarrow> (case cd_indent cd indent x of None \<Rightarrow> [] | Some d \<Rightarrow> indent @ d @ [LF]))"

text \<open>The frame of a conflict, for both renderers: \<open>w\<close> writes one side.\<close>

definition conflict_block :: "('a jv option \<Rightarrow> bytes) \<Rightarrow> string \<Rightarrow> string \<Rightarrow> 'a jv option \<Rightarrow> 'a jv option \<Rightarrow> 'a jv option \<Rightarrow> bytes" where
  "conflict_block w ourLabel theirLabel b u t =
     ''<<<<<<< '' @ ourLabel @ [LF] @ w u @ ''||||||| base'' @ [LF] @ w b @ ''======='' @ [LF] @ w t @ ''>>>>>>> '' @ theirLabel @ [LF]"

definition writeConflict :: "'a doc_codec \<Rightarrow> string \<Rightarrow> string \<Rightarrow> string \<Rightarrow> 'a jv option \<Rightarrow> 'a jv option \<Rightarrow> 'a jv option \<Rightarrow> bytes" where
  "writeConflict cd indent ourLabel theirLabel b u t = conflict_block (writeSide cd indent) ourLabel theirLabel b u t"

fun writeNode_JSON :: "'a doc_codec \<Rightarrow> string \<Rightarrow> string \<Rightarrow> string \<Rightarrow> 'a jv \<Rightarrow> bytes"
and write_fields :: "'a doc_codec \<Rightarrow> string \<Rightarrow> string \<Rightarrow> string \<Rightarrow> (string \<times> 'a jv) list \<Rightarrow> bytes"
and write_items :: "'a doc_codec \<Rightarrow> string \<Rightarrow> string \<Rightarrow> string \<Rightarrow> 'a jv list \<Rightarrow> bytes"
where
  "writeNode_JSON cd indent ol thl (Mark b u t) = writeConflict cd indent ol thl b u t"
| "writeNode_JSON cd indent ol thl (Obj m) =
     (if m = [] then ''{}'' else ''{'' @ [LF] @ write_fields cd (indent @ ''  '') ol thl m @ indent @ ''}'')"
| "writeNode_JSON cd indent ol thl (Arr vs) =
     (if vs = [] then ''[]'' else ''['' @ [LF] @ write_items cd (indent @ ''  '') ol thl vs @ indent @ '']'')"
| "writeNode_JSON cd indent ol thl v = or_empty (cd_plain cd v)"
| "write_fields cd child ol thl [] = []"
| "write_fields cd child ol thl ((k, Mark b u t) # ms) =
     child @ or_empty (cd_key cd k) @ '':'' @ [LF] @ writeConflict cd child ol thl b u t @ write_fields cd child ol thl ms"
| "write_fields cd child ol thl ((k, v) # ms) =
     child @ or_empty (cd_key cd k) @ '': '' @ writeNode_JSON cd child ol thl v @ (if ms = [] then [] else '','') @ [LF] @ write_fields cd child ol thl ms"
| "write_items cd child ol thl [] = []"
| "write_items cd child ol thl (Mark b u t # vs) = writeConflict cd child ol thl b u t @ write_items cd child ol thl vs"
| "write_items cd child ol thl (v # vs) = child @ writeNode_JSON cd child ol thl v @ (if vs = [] then [] else '','') @ [LF] @ write_items cd child ol thl vs"

definition renderJSON :: "'a doc_codec \<Rightarrow> 'a jv \<Rightarrow> string \<Rightarrow> string \<Rightarrow> bytes" where
  "renderJSON cd v ol thl = writeNode_JSON cd [] ol thl v @ [LF]"

definition writeIndented :: "string \<Rightarrow> bytes \<Rightarrow> bytes" where
  "writeIndented indent data = concat (map (\<lambda>l. if l = [] then [LF] else indent @ l @ [LF]) (Split (TrimRight data {LF}) LF))"

definition writeYAMLSide :: "'a doc_codec \<Rightarrow> string \<Rightarrow> 'a jv option \<Rightarrow> bytes" where
  "writeYAMLSide cd indent v = (case v of None \<Rightarrow> [] | Some x \<Rightarrow> (case cd_plain cd x of None \<Rightarrow> [] | Some d \<Rightarrow> writeIndented indent d))"

definition writeYAMLConflict :: "'a doc_codec \<Rightarrow> string \<Rightarrow> string \<Rightarrow> string \<Rightarrow> 'a jv option \<Rightarrow> 'a jv option \<Rightarrow> 'a jv option \<Rightarrow> bytes" where
  "writeYAMLConflict cd indent ol thl b u t = conflict_block (writeYAMLSide cd indent) ol thl b u t"

text \<open>The part of a string before the last occurrence of a separator.\<close>

fun before_last :: "string \<Rightarrow> string \<Rightarrow> string option" where
  "before_last sep [] = (if sep = [] then Some [] else None)"
| "before_last sep (c # s) = (case before_last sep s of Some r \<Rightarrow> Some (c # r) | None \<Rightarrow> if HasPrefix (c # s) sep then Some [] else None)"

definition yamlKey :: "'a doc_codec \<Rightarrow> string \<Rightarrow> string" where
  "yamlKey cd k =
     (case cd_plain cd (Obj [(k, Null)]) of
        None \<Rightarrow> k
      | Some d \<Rightarrow> (case before_last '': '' (TrimRight d {LF}) of None \<Rightarrow> k | Some r \<Rightarrow> r))"

fun writeYAMLNode :: "'a doc_codec \<Rightarrow> string \<Rightarrow> string \<Rightarrow> string \<Rightarrow> 'a jv \<Rightarrow> bytes"
and write_yaml_fields :: "'a doc_codec \<Rightarrow> string \<Rightarrow> string \<Rightarrow> string \<Rightarrow> (string \<times> 'a jv) list \<Rightarrow> bytes"
where
  "writeYAMLNode cd indent ol thl (Mark b u t) = writeYAMLConflict cd indent ol thl b u t"
| "writeYAMLNode cd indent ol thl (Obj m) = write_yaml_fields cd indent ol thl m"
| "writeYAMLNode cd indent ol thl v = writeIndented indent (or_empty (cd_plain cd v))"
| "write_yaml_fields cd indent ol thl [] = []"
| "write_yaml_fields cd indent ol thl ((k, Mark b u t) # ms) =
     indent @ yamlKey cd k @ '':'' @ [LF] @ writeYAMLConflict cd (indent @ ''  '') ol thl b u t @ write_yaml_fields cd indent ol thl ms"
| "write_yaml_fields cd indent ol thl ((k, v) # ms) =
     (if containsConflict v then indent @ yamlKey cd k @ '':'' @ [LF] @ writeYAMLNode cd (indent @ ''  '') ol thl v
      else writeIndented indent (or_empty (cd_plain cd (Obj [(k, v)]))))
     @ write_yaml_fields cd indent ol thl ms"

definition renderYAML :: "'a doc_codec \<Rightarrow> 'a jv \<Rightarrow> string \<Rightarrow> string \<Rightarrow> bytes" where
  "renderYAML cd v ol thl = writeYAMLNode cd [] ol thl v"

section \<open>The drivers\<close>

record smart_result =
  sr_Merged :: bytes
  sr_Conflicts :: nat
  sr_ParseOK :: bool
  sr_Rendered :: bool

definition no_result :: smart_result where
  "no_result = \<lparr>sr_Merged = [], sr_Conflicts = 0, sr_ParseOK = False, sr_Rendered = False\<rparr>"

text \<open>What the three drivers share: decode, merge, and encode a clean result with \<open>enc\<close> or a conflicted one with \<open>rend\<close>.\<close>

definition structured :: "('a jv \<Rightarrow> bytes option) \<Rightarrow> ('a jv \<Rightarrow> bytes option) \<Rightarrow> 'a jv option \<Rightarrow> 'a jv option \<Rightarrow> 'a jv option \<Rightarrow> smart_result" where
  "structured enc rend b u t =
     (case (b, u, t) of
        (Some bv, Some uv, Some tv) \<Rightarrow>
          (case mergeTree bv uv tv of (m, n) \<Rightarrow>
             if n = 0 then (case enc m of None \<Rightarrow> no_result | Some d \<Rightarrow> \<lparr>sr_Merged = d, sr_Conflicts = 0, sr_ParseOK = True, sr_Rendered = False\<rparr>)
             else (case rend m of
                     None \<Rightarrow> \<lparr>sr_Merged = [], sr_Conflicts = n, sr_ParseOK = True, sr_Rendered = False\<rparr>
                   | Some d \<Rightarrow> \<lparr>sr_Merged = d, sr_Conflicts = n, sr_ParseOK = True, sr_Rendered = True\<rparr>))
      | _ \<Rightarrow> no_result)"

definition MergeJSON :: "'a doc_codec \<Rightarrow> bytes \<Rightarrow> bytes \<Rightarrow> bytes \<Rightarrow> string \<Rightarrow> string \<Rightarrow> smart_result" where
  "MergeJSON cd base ours theirs ol thl =
     structured (\<lambda>m. map_option (\<lambda>d. d @ [LF]) (cd_indent cd [] m)) (\<lambda>m. Some (renderJSON cd m ol thl)) (cd_decode cd base) (cd_decode cd ours) (cd_decode cd theirs)"

text \<open>Decoding includes \<^verbatim>\<open>normalizeYAML\<close>.\<close>

definition MergeYAML :: "'a doc_codec \<Rightarrow> bytes \<Rightarrow> bytes \<Rightarrow> bytes \<Rightarrow> string \<Rightarrow> string \<Rightarrow> smart_result" where
  "MergeYAML cd base ours theirs ol thl =
     structured (cd_plain cd) (\<lambda>m. Some (renderYAML cd m ol thl)) (cd_decode cd base) (cd_decode cd ours) (cd_decode cd theirs)"

definition MergeTOML :: "'a doc_codec \<Rightarrow> bytes \<Rightarrow> bytes \<Rightarrow> bytes \<Rightarrow> smart_result" where
  "MergeTOML cd base ours theirs = structured (cd_plain cd) (\<lambda>_. None) (cd_decode cd base) (cd_decode cd ours) (cd_decode cd theirs)"

definition driverJSON :: string where "driverJSON = ''structured-json''"
definition driverYAML :: string where "driverYAML = ''structured-yaml''"
definition driverTOML :: string where "driverTOML = ''structured-toml''"

definition filepath_Ext :: "string \<Rightarrow> string" where
  "filepath_Ext p =
     (let r = rev p; e = takeWhile (\<lambda>c. c \<noteq> CHR ''/'' \<and> c \<noteq> CHR ''.'') r; rest = drop (length e) r
      in if rest \<noteq> [] \<and> hd rest = CHR ''.'' then CHR ''.'' # rev e else [])"

definition SelectDriver :: "(string \<Rightarrow> string) \<Rightarrow> string \<Rightarrow> Config option \<Rightarrow> string" where
  "SelectDriver u p cfg =
     (case cfg of
        None \<Rightarrow> []
      | Some c \<Rightarrow>
          let ext = TrimPrefix (ToLower u (filepath_Ext p)) ''.''; key = (if ext = ''yml'' then ''yaml'' else ext) in
          (case Config_Get u c ''merge'' [] (''driver.'' @ key) of
             None \<Rightarrow> []
           | Some v \<Rightarrow>
               if ext = ''json'' \<and> v = driverJSON then driverJSON
               else if (ext = ''yaml'' \<or> ext = ''yml'') \<and> v = driverYAML then driverYAML
               else if ext = ''toml'' \<and> v = driverTOML then driverTOML
               else []))"

record 'a codecs =
  json_codec :: "'a doc_codec"
  yaml_codec :: "'a doc_codec"
  toml_codec :: "'a doc_codec"

definition SmartMerge :: "'a codecs \<Rightarrow> string \<Rightarrow> bytes \<Rightarrow> bytes \<Rightarrow> bytes \<Rightarrow> string \<Rightarrow> string \<Rightarrow> smart_result" where
  "SmartMerge cs driver base ours theirs ol thl =
     (if driver = driverJSON then MergeJSON (json_codec cs) base ours theirs ol thl
      else if driver = driverYAML then MergeYAML (yaml_codec cs) base ours theirs ol thl
      else if driver = driverTOML then MergeTOML (toml_codec cs) base ours theirs
      else no_result)"

section \<open>What a merge without conflicts holds\<close>

fun look :: "string list \<Rightarrow> 'a jv \<Rightarrow> 'a jv option" where
  "look [] v = Some v"
| "look (k # ks) v = (case map_of (obj_fields v) k of None \<Rightarrow> None | Some w \<Rightarrow> look ks w)"

definition olook :: "string list \<Rightarrow> 'a jv option \<Rightarrow> 'a jv option" where
  "olook ks v = (case v of None \<Rightarrow> None | Some w \<Rightarrow> look ks w)"

definition is_obj :: "'a jv option \<Rightarrow> bool" where
  "is_obj v \<longleftrightarrow> (\<exists>m. v = Some (Obj m))"

text \<open>One value \<open>m\<close> merges the three others: what the abstract merge decides, or an object where both sides are objects.\<close>

definition merges :: "'a jv option \<Rightarrow> 'a jv option \<Rightarrow> 'a jv option \<Rightarrow> 'a jv option \<Rightarrow> bool" where
  "merges b u t m \<longleftrightarrow> (case merge3 b u t of Some v \<Rightarrow> m = v | None \<Rightarrow> is_obj u \<and> is_obj t \<and> is_obj m)"

lemma merges_simps:
  "merges b u u u" "merges u u t t" "merges t u t u"
  by (auto simp: merges_def merge3_def)

text \<open>A side that adds a key does not add it with the value \<^verbatim>\<open>null\<close>.\<close>

definition no_new_null :: "'a jv option \<Rightarrow> 'a jv option \<Rightarrow> bool" where
  "no_new_null b v \<longleftrightarrow> (\<forall>ks. olook ks v = Some Null \<longrightarrow> olook ks b \<noteq> None)"

lemma objectMerge_map:
  assumes "objectMerge b u t ks = (out, n)" "distinct ks"
  shows "map_of out k = (if k \<in> set ks then fst (keyMerge (map_of b k) (map_of u k) (map_of t k)) else None)"
    and "n = 0 \<Longrightarrow> k \<in> set ks \<Longrightarrow> snd (keyMerge (map_of b k) (map_of u k) (map_of t k)) = 0"
  using assms by (induction ks arbitrary: out n) (auto split: prod.splits option.splits)

lemma all_keys: "set (all_keys b u t) = fst ` set b \<union> fst ` set u \<union> fst ` set t" "distinct (all_keys b u t)"
  by (auto simp: all_keys_def)

lemma all_keys_swap: "all_keys b t u = all_keys b u t"
  by (simp add: all_keys_def Un_commute Un_left_commute)

lemma keyMerge_none [simp]: "keyMerge None None None = (None, 0)"
  by (simp add: keyMerge.simps)

lemma object_fields:
  assumes "objectMerge b u t (all_keys b u t) = (out, 0)"
  shows "keyMerge (map_of b k) (map_of u k) (map_of t k) = (map_of out k, 0)"
proof (cases "k \<in> set (all_keys b u t)")
  case True
  then show ?thesis using objectMerge_map [OF assms all_keys(2)] by (metis prod.collapse)
next
  case False
  then have "map_of b k = None" "map_of u k = None" "map_of t k = None" by (auto simp: all_keys(1) map_of_eq_None_iff)
  then show ?thesis using objectMerge_map(1) [OF assms all_keys(2), of k] False by simp
qed

lemma look_step: "look (k # ks) v = olook ks (map_of (obj_fields v) k)"
  by (simp add: olook_def)

text \<open>What \<^verbatim>\<open>keyMerge\<close> guarantees of one key when it reports no conflict.\<close>

definition key_spec :: "'a jv option \<Rightarrow> 'a jv option \<Rightarrow> 'a jv option \<Rightarrow> bool" where
  "key_spec b u t \<longleftrightarrow> (\<forall>m ks. keyMerge b u t = (m, 0) \<longrightarrow> no_new_null b u \<longrightarrow> no_new_null b t \<longrightarrow> merges (olook ks b) (olook ks u) (olook ks t) (olook ks m))"

lemma no_new_null_field: "no_new_null (Some b) (Some v) \<Longrightarrow> no_new_null (map_of (obj_fields b) k) (map_of (obj_fields v) k)"
  unfolding no_new_null_def by (metis look_step olook_def option.simps(5))

lemma null_base:
  assumes "no_new_null None (Some v)"
  shows "no_new_null (Some Null) (Some v)" "v \<noteq> Null"
proof -
  show "v \<noteq> Null" using assms unfolding no_new_null_def by (auto simp: olook_def dest: spec [of _ "[]"])
  have "olook ks (Some v) \<noteq> Some Null" for ks using assms unfolding no_new_null_def by (auto simp: olook_def)
  then show "no_new_null (Some Null) (Some v)" by (simp add: no_new_null_def)
qed

lemma look_null: "ks \<noteq> [] \<Longrightarrow> look ks Null = None"
  by (cases ks) (simp_all add: obj_fields_def)

lemma merge_spec:
  shows "mergeTree (b :: 'a jv) u t = (m, 0) \<Longrightarrow> no_new_null (Some b) (Some u) \<Longrightarrow> no_new_null (Some b) (Some t) \<Longrightarrow> merges (look ks b) (look ks u) (look ks t) (look ks m)"
    and "\<forall>k \<in> set kl. key_spec (map_of (bm :: (string \<times> 'a jv) list) k) (map_of um k) (map_of tm k)"
    and "key_spec (bo :: 'a jv option) uo to"
proof (induction b u t and bm um tm kl and bo uo to arbitrary: m ks rule: mergeTree_objectMerge_keyMerge.induct)
  case (1 b u t)
  show ?case
  proof (cases "u = t \<or> b = u \<or> b = t")
    case True
    then show ?thesis using 1(2) merges_simps by (auto simp: mergeTree.simps split: if_splits)
  next
    case False
    with 1(2) obtain um tm out where o: "u = Obj um" "t = Obj tm" "objectMerge (obj_fields b) um tm (all_keys (obj_fields b) um tm) = (out, 0)" "m = Obj out"
      by (auto simp: mergeTree.simps split: jv.splits prod.splits)
    show ?thesis
    proof (cases ks)
      case Nil
      then show ?thesis using False o by (auto simp: merges_def merge3_def is_obj_def)
    next
      case (Cons k ks')
      let ?b = "map_of (obj_fields b) k" and ?u = "map_of um k" and ?t = "map_of tm k"
      have key: "keyMerge ?b ?u ?t = (map_of out k, 0)" by (rule object_fields [OF o(3)])
      have "key_spec ?b ?u ?t"
      proof (cases "k \<in> set (all_keys (obj_fields b) um tm)")
        case True
        then show ?thesis using 1(1) False o(1,2) by auto
      next
        case out: False
        then have "?b = None" "?u = None" "?t = None" by (auto simp: all_keys(1) map_of_eq_None_iff)
        then show ?thesis by (simp add: key_spec_def merges_simps)
      qed
      moreover have "no_new_null ?b ?u" "no_new_null ?b ?t" using no_new_null_field [OF 1(3)] no_new_null_field [OF 1(4)] o(1,2) by (simp_all add: obj_fields_def)
      ultimately have "merges (olook ks' ?b) (olook ks' ?u) (olook ks' ?t) (olook ks' (map_of out k))" using key by (simp add: key_spec_def)
      then show ?thesis by (simp add: Cons look_step o(1,2,4) obj_fields_def del: look.simps)
    qed
  qed
next
  case (4 b u t)
  show ?case unfolding key_spec_def
  proof (intro allI impI)
    fix m ks assume k: "keyMerge b u t = (m, 0)" and nn: "no_new_null b u" "no_new_null b t"
    show "merges (olook ks b) (olook ks u) (olook ks t) (olook ks m)"
    proof (cases "u = t \<or> b = u \<or> b = t")
      case True
      then show ?thesis using k merges_simps by (auto simp: keyMerge.simps split: if_splits)
    next
      case False
      let ?bv = "case b of None \<Rightarrow> Null | Some bv \<Rightarrow> bv"
      obtain uv tv m' where o: "u = Some uv" "t = Some tv" "mergeTree ?bv uv tv = (m', 0)" "m = Some m'"
        using k False by (auto simp: keyMerge.simps split: option.splits prod.splits if_splits)
      have "no_new_null (Some ?bv) (Some uv)" "no_new_null (Some ?bv) (Some tv)" using nn o(1,2) null_base by (auto split: option.split)
      then have r: "merges (look ks ?bv) (look ks uv) (look ks tv) (look ks m')" using 4 False o by auto
      show ?thesis
      proof (cases b)
        case None
        then have "uv \<noteq> Null" "tv \<noteq> Null" "uv \<noteq> tv" using nn o(1,2) null_base(2) False by auto
        moreover have "ks \<noteq> [] \<Longrightarrow> look ks (Null :: 'a jv) = None" by (rule look_null)
        ultimately show ?thesis using r None o by (cases "ks = []") (auto simp: olook_def merges_def merge3_def)
      next
        case (Some bv)
        then show ?thesis using r o by (simp add: olook_def)
      qed
    qed
  qed
next
  case (3 b u t k ks)
  obtain x y where "keyMerge (map_of b k) (map_of u k) (map_of t k) = (x, y)" by fastforce
  with 3 show ?case by simp
qed simp

section \<open>Conflicts are counted and do not depend on the order of the sides\<close>

fun marks :: "'a jv \<Rightarrow> nat" where
  "marks (Mark _ _ _) = 1"
| "marks (Obj m) = sum_list (map (\<lambda>p. marks (snd p)) m)"
| "marks (Arr vs) = sum_list (map marks vs)"
| "marks _ = 0"

lemma marks_field: "marks (Obj m) = 0 \<Longrightarrow> map_of m k = Some v \<Longrightarrow> marks v = 0"
  by (auto dest!: map_of_SomeD simp: sum_list_eq_0_iff)

lemma marks_obj_fields: "marks b = 0 \<Longrightarrow> map_of (obj_fields b) k = Some v \<Longrightarrow> marks v = 0"
  using marks_field by (cases b) (auto simp: obj_fields_def)

definition omarks :: "'a jv option \<Rightarrow> nat" where "omarks v = (case v of None \<Rightarrow> 0 | Some w \<Rightarrow> marks w)"

lemma omarks_field: "marks v = 0 \<Longrightarrow> omarks (map_of (obj_fields v) k) = 0"
  using marks_obj_fields by (cases "map_of (obj_fields v) k") (auto simp: omarks_def)

lemma merge_marks:
  shows "marks (b :: 'a jv) = 0 \<Longrightarrow> marks u = 0 \<Longrightarrow> marks t = 0 \<Longrightarrow> marks (fst (mergeTree b u t)) = snd (mergeTree b u t)"
    and "(\<forall>k. omarks (map_of (bm :: (string \<times> 'a jv) list) k) = 0 \<and> omarks (map_of um k) = 0 \<and> omarks (map_of tm k) = 0) \<Longrightarrow>
      marks (Obj (fst (objectMerge bm um tm kl))) = snd (objectMerge bm um tm kl)"
    and "omarks (bo :: 'a jv option) = 0 \<Longrightarrow> omarks uo = 0 \<Longrightarrow> omarks to = 0 \<Longrightarrow> omarks (fst (keyMerge bo uo to)) = snd (keyMerge bo uo to)"
proof (induction b u t and bm um tm kl and bo uo to rule: mergeTree_objectMerge_keyMerge.induct)
  case (1 b u t)
  show ?case
  proof (cases "u = t \<or> b = u \<or> b = t")
    case True
    then show ?thesis using 1(2-4) by (auto simp: mergeTree.simps)
  next
    case False
    show ?thesis
    proof (cases "\<exists>um tm. u = Obj um \<and> t = Obj tm")
      case True
      then obtain um tm where o: "u = Obj um" "t = Obj tm" by blast
      have "\<forall>k. omarks (map_of (obj_fields b) k) = 0 \<and> omarks (map_of um k) = 0 \<and> omarks (map_of tm k) = 0"
        using omarks_field [OF 1(2)] omarks_field [OF 1(3)] omarks_field [OF 1(4)] o by (simp add: obj_fields_def)
      then show ?thesis using 1(1) False o by (auto simp: mergeTree.simps split: prod.split)
    next
      case no: False
      then show ?thesis using False by (auto simp: mergeTree.simps split: jv.split)
    qed
  qed
next
  case (3 b u t k ks)
  then show ?case by (auto simp: omarks_def split: prod.splits option.splits)
next
  case (4 b u t)
  then show ?case by (auto simp: keyMerge.simps omarks_def split: option.splits prod.splits if_splits)
qed simp_all

text \<open>Exchanging the sides exchanges them in the marks and changes nothing else.\<close>

fun mirror :: "'a jv \<Rightarrow> 'a jv" where
  "mirror (Mark b u t) = Mark b t u"
| "mirror (Obj m) = Obj (map (\<lambda>p. (fst p, mirror (snd p))) m)"
| "mirror v = v"

lemma mirror_clean: "marks v = 0 \<Longrightarrow> mirror v = v"
proof (induction v rule: mirror.induct)
  case (2 m)
  then show ?case by (auto simp: sum_list_eq_0_iff intro!: map_idI)
qed auto

lemma merge_mirror:
  shows "marks (b :: 'a jv) = 0 \<Longrightarrow> marks u = 0 \<Longrightarrow> marks t = 0 \<Longrightarrow> mergeTree b t u = (mirror (fst (mergeTree b u t)), snd (mergeTree b u t))"
    and "(\<forall>k. omarks (map_of (bm :: (string \<times> 'a jv) list) k) = 0 \<and> omarks (map_of um k) = 0 \<and> omarks (map_of tm k) = 0) \<Longrightarrow>
      objectMerge bm tm um kl = (map (\<lambda>p. (fst p, mirror (snd p))) (fst (objectMerge bm um tm kl)), snd (objectMerge bm um tm kl))"
    and "omarks (bo :: 'a jv option) = 0 \<Longrightarrow> omarks uo = 0 \<Longrightarrow> omarks to = 0 \<Longrightarrow> keyMerge bo to uo = (map_option mirror (fst (keyMerge bo uo to)), snd (keyMerge bo uo to))"
proof (induction b u t and bm um tm kl and bo uo to rule: mergeTree_objectMerge_keyMerge.induct)
  case (1 b u t)
  show ?case
  proof (cases "u = t \<or> b = u \<or> b = t")
    case True
    then show ?thesis using 1(2-4) by (auto simp: mergeTree.simps mirror_clean)
  next
    case False
    show ?thesis
    proof (cases "\<exists>um tm. u = Obj um \<and> t = Obj tm")
      case True
      then obtain um tm where o: "u = Obj um" "t = Obj tm" by blast
      have "\<forall>k. omarks (map_of (obj_fields b) k) = 0 \<and> omarks (map_of um k) = 0 \<and> omarks (map_of tm k) = 0"
        using omarks_field [OF 1(2)] omarks_field [OF 1(3)] omarks_field [OF 1(4)] o by (simp add: obj_fields_def)
      moreover have "all_keys (obj_fields b) tm um = all_keys (obj_fields b) um tm" by (rule all_keys_swap)
      ultimately show ?thesis using 1(1) False o by (auto simp: mergeTree.simps split: prod.split)
    next
      case no: False
      then show ?thesis using False by (auto simp: mergeTree.simps split: jv.split)
    qed
  qed
next
  case (3 b u t k ks)
  obtain x y where "keyMerge (map_of b k) (map_of u k) (map_of t k) = (x, y)" by fastforce
  with 3 show ?case by (auto split: prod.splits option.splits)
next
  case (4 b u t)
  have "map_option mirror v = v" if "omarks v = 0" for v :: "'a jv option" using that mirror_clean by (cases v) (auto simp: omarks_def)
  then show ?case using 4 by (auto simp: keyMerge.simps omarks_def split: option.splits prod.splits if_splits)
qed simp_all



text \<open>Both sides add the same key, one of them with \<^verbatim>\<open>null\<close>: the other value is taken without a conflict, although the sides disagree.\<close>

lemma null_addition_lost: "mergeTree (Obj []) (Obj [(k, Null)]) (Obj [(k, Leaf x)]) = (Obj [(k, Leaf x)], 0)"
  by (simp add: mergeTree.simps keyMerge.simps obj_fields_def all_keys_def)

end
