(* ===== verification/Resolve_Command.thy ===== *)
theory Resolve_Command
  imports Commit_Command Smart_Merge Conflict_Render
begin

text \<open>
  \<^verbatim>\<open>vara resolve\<close> (\<^verbatim>\<open>internal/commands/resolve.go\<close>): settling the conflicts a merge left, from the sides recorded in \<^verbatim>\<open>CONFLICTS\<close> or, without a record, from the markers
  in the working tree. What the command prints is kept as a value: how many files it resolved, which ones need a choice and which ones still have conflicts.
\<close>

section \<open>Settings\<close>

text \<open>The Unicode tables of \<^verbatim>\<open>strings.ToLower\<close>, \<^verbatim>\<open>path.Match\<close> (true when it matches without an error) and the document codecs.\<close>

record 'a menv =
  me_lower :: "string \<Rightarrow> string"
  me_match :: "string \<Rightarrow> string \<Rightarrow> bool"
  me_codecs :: "'a codecs"

definition loadConfig :: "'a menv \<Rightarrow> cmd_env \<Rightarrow> fs \<Rightarrow> Config option" where
  "loadConfig me x fs = (case Config_Load (me_lower me) (configPath (x_vara x)) fs of Inl _ \<Rightarrow> None | Inr c \<Rightarrow> Some c)"

definition configuredMarkerStyle :: "'a menv \<Rightarrow> cmd_env \<Rightarrow> fs \<Rightarrow> MarkerStyle" where
  "configuredMarkerStyle me x fs =
     (case loadConfig me x fs of
        None \<Rightarrow> StyleZdiff3
      | Some c \<Rightarrow>
          (case Config_Get (me_lower me) c ''merge'' [] ''conflictStyle'' of
             None \<Rightarrow> StyleZdiff3
           | Some v \<Rightarrow> (case ParseMarkerStyle v of (st, ok) \<Rightarrow> if ok then st else StyleZdiff3)))"

text \<open>The structural driver enabled for a path, applied to the three sides.\<close>

definition structural :: "'a menv \<Rightarrow> Config option \<Rightarrow> string \<Rightarrow> bytes \<Rightarrow> bytes \<Rightarrow> bytes \<Rightarrow> string \<Rightarrow> string \<Rightarrow> smart_result option" where
  "structural me cfg p base ours theirs ol thl =
     (let driver = SelectDriver (me_lower me) p cfg in
      if driver = [] then None else Some (SmartMerge (me_codecs me) driver base ours theirs ol thl))"

section \<open>Steps\<close>

text \<open>A computation without effects that may panic or not return.\<close>

definition lift_pure :: "'b outcome option \<Rightarrow> 'b cmd" where
  "lift_pure r s = (case r of None \<Rightarrow> None | Some Panic \<Rightarrow> Some (s, Inl CPanic) | Some (Done a) \<Rightarrow> Some (s, Inr a))"

definition restageResolved :: "cmd_env \<Rightarrow> string \<Rightarrow> bytes \<Rightarrow> unit cmd" where
  "restageResolved x p data =
     cbind (on_fs ''resolve: write'' (os_WriteFile (x_io x) (wpath x p) data)) (\<lambda>_.
     cbind (on_fs ''resolve: store'' (Store_Write (x_zstd x) (x_io x) (x_store x) (Blob data))) (\<lambda>i.
     modify_index (stage p i (x_mtime x (wpath x p)))))"

definition sideContent :: "cmd_env \<Rightarrow> Side \<Rightarrow> fs \<Rightarrow> verr + bytes" where
  "sideContent x sd fs =
     (if \<not> sd_Present sd then Inr []
      else case parseBlobID (sd_Blob sd) of None \<Rightarrow> Inl (ErrMsg ''corrupt conflict record'') | Some i \<Rightarrow> blobContent x i fs)"

definition chosenPresentSide :: "CEntry \<Rightarrow> Strategy \<Rightarrow> Side option" where
  "chosenPresentSide e strat = (case strat of Ours \<Rightarrow> Some (cf_Ours e) | Theirs \<Rightarrow> Some (cf_Theirs e) | _ \<Rightarrow> None)"

fun delete_entry :: "string \<Rightarrow> Entry list \<Rightarrow> Entry list" where
  "delete_entry p [] = []"
| "delete_entry p (e # es) = (if ie_Path e = p then e\<lparr>ie_State := StateDeleted\<rparr> # es else e # delete_entry p es)"

definition applyDeletion :: "cmd_env \<Rightarrow> string \<Rightarrow> unit cmd" where
  "applyDeletion x p =
     cbind (on_fs ''resolve: delete'' (remove_file (x_rm x) (wpath x p))) (\<lambda>_.
     modify_index (\<lambda>idx. idx\<lparr>Entries := delete_entry p (Entries idx)\<rparr>))"

definition applyModifyDeleteChoice :: "cmd_env \<Rightarrow> CEntry \<Rightarrow> Side \<Rightarrow> unit cmd" where
  "applyModifyDeleteChoice x e sd =
     (if \<not> sd_Present sd then applyDeletion x (cf_Path e)
      else cbind (reading ''resolve'' (sideContent x sd)) (restageResolved x (cf_Path e)))"

definition conflictLabels :: "MState \<Rightarrow> string \<times> string" where
  "conflictLabels st = (if ms_OurLabel st = [] then ''ours'' else ms_OurLabel st, if ms_TheirLabel st = [] then ''theirs'' else ms_TheirLabel st)"

definition renderSides :: "bytes \<Rightarrow> bytes \<Rightarrow> bytes \<Rightarrow> string \<times> string \<Rightarrow> bytes cmd" where
  "renderSides base ours theirs labels = cbind (lift_pure (ThreeWayMerge base ours theirs (fst labels) (snd labels))) (\<lambda>r. cret (fst r))"

definition read_sides :: "cmd_env \<Rightarrow> CEntry \<Rightarrow> (bytes \<times> bytes \<times> bytes) cmd" where
  "read_sides x e =
     cbind (reading ''resolve'' (sideContent x (cf_Base e))) (\<lambda>b.
     cbind (reading ''resolve'' (sideContent x (cf_Ours e))) (\<lambda>u.
     cbind (reading ''resolve'' (sideContent x (cf_Theirs e))) (\<lambda>t. cret (b, u, t))))"

definition renderConflict :: "cmd_env \<Rightarrow> MState \<Rightarrow> CEntry \<Rightarrow> bytes cmd" where
  "renderConflict x st e = cbind (read_sides x e) (\<lambda>(b, u, t). renderSides b u t (conflictLabels st))"

definition resolveContent :: "'a menv \<Rightarrow> cmd_env \<Rightarrow> MState \<Rightarrow> CEntry \<Rightarrow> Strategy \<Rightarrow> MarkerStyle \<Rightarrow> Config option \<Rightarrow> (bytes \<times> Stats) cmd" where
  "resolveContent me x st e strat style cfg =
     cbind (read_sides x e) (\<lambda>(b, u, t).
     let labels = conflictLabels st;
         whole = (\<lambda>d. cbind (renderSides b u t labels) (\<lambda>r. cret (d, \<lparr>Total = Count r, Resolved = Count r, Remaining = 0\<rparr>)))
     in case strat of
          Ours \<Rightarrow> whole u
        | Theirs \<Rightarrow> whole t
        | Auto \<Rightarrow>
            let lines = lift_pure (Render b u t (fst labels) (snd labels) style) in
            (case structural me cfg (cf_Path e) b u t (fst labels) (snd labels) of
               None \<Rightarrow> lines
             | Some r \<Rightarrow>
                 if sr_ParseOK r \<and> (sr_Conflicts r = 0 \<or> sr_Rendered r)
                 then cret (sr_Merged r, \<lparr>Total = sr_Conflicts r, Resolved = 0, Remaining = sr_Conflicts r\<rparr>)
                 else lines)
        | Union \<Rightarrow>
            cbind (renderSides b u t labels) (\<lambda>r.
            case Resolve r strat of Inl _ \<Rightarrow> cfail ''resolve'' | Inr o1 \<Rightarrow> cret o1))"

text \<open>\<^verbatim>\<open>entryIsBinary\<close> stops at the first binary side.\<close>

fun any_binary :: "cmd_env \<Rightarrow> Side list \<Rightarrow> fs \<Rightarrow> verr + bool" where
  "any_binary x [] fs = Inr False"
| "any_binary x (sd # sds) fs = bind_res (sideContent x sd fs) (\<lambda>d. if IsBinary d then Inr True else any_binary x sds fs)"

definition entryIsBinary :: "cmd_env \<Rightarrow> CEntry \<Rightarrow> fs \<Rightarrow> verr + bool" where
  "entryIsBinary x e fs = any_binary x [cf_Base e, cf_Ours e, cf_Theirs e] fs"

section \<open>The command\<close>

record ResolveArgs =
  ra_Strategy :: "Strategy option"
  ra_List :: bool
  ra_Paths :: "string list"
  ra_Style :: "MarkerStyle option"

datatype resolve_out = NoConflicts bool | Listed "(string \<times> bool \<times> nat option) list" | Settled nat "string list" "string list" bool

record progress =
  pg_state :: MState
  pg_resolved :: nat
  pg_choice :: "string list"
  pg_still :: "string list"

definition mark_done :: "string \<Rightarrow> progress \<Rightarrow> progress" where
  "mark_done p pg = pg\<lparr>pg_state := fst (SetResolved p True (pg_state pg)), pg_resolved := Suc (pg_resolved pg)\<rparr>"

definition resolve_entry :: "'a menv \<Rightarrow> cmd_env \<Rightarrow> MState \<Rightarrow> Strategy \<Rightarrow> MarkerStyle \<Rightarrow> Config option \<Rightarrow> CEntry \<Rightarrow> progress \<Rightarrow> progress cmd" where
  "resolve_entry me x st0 strat style cfg e pg =
     (let p = cf_Path e; wait = cret (pg\<lparr>pg_choice := pg_choice pg @ [p]\<rparr>) in
      case cf_Kind e of
        KindModifyDelete \<Rightarrow>
          (case chosenPresentSide e strat of
             None \<Rightarrow> wait
           | Some sd \<Rightarrow> cbind (applyModifyDeleteChoice x e sd) (\<lambda>_. cret (mark_done p pg)))
      | KindContent \<Rightarrow>
          cbind (reading ''resolve'' (entryIsBinary x e)) (\<lambda>bin.
          if bin then
            (case chosenPresentSide e strat of
               None \<Rightarrow> wait
             | Some sd \<Rightarrow>
                 cbind (reading ''resolve'' (sideContent x sd)) (\<lambda>d.
                 cbind (restageResolved x p d) (\<lambda>_. cret (mark_done p pg))))
          else
            cbind (resolveContent me x st0 e strat style cfg) (\<lambda>(out, stats).
            cbind (restageResolved x p out) (\<lambda>_.
            cret (if Remaining stats = 0 then mark_done p pg
                  else pg\<lparr>pg_state := fst (SetResolved p False (pg_state pg)), pg_still := pg_still pg @ [p]\<rparr>)))))"

fun resolve_entries :: "'a menv \<Rightarrow> cmd_env \<Rightarrow> MState \<Rightarrow> Strategy \<Rightarrow> MarkerStyle \<Rightarrow> Config option \<Rightarrow> CEntry list \<Rightarrow> progress \<Rightarrow> progress cmd" where
  "resolve_entries me x st0 strat style cfg [] pg = cret pg"
| "resolve_entries me x st0 strat style cfg (e # es) pg =
     cbind (resolve_entry me x st0 strat style cfg e pg) (\<lambda>pg'. resolve_entries me x st0 strat style cfg es pg')"

fun list_conflicts :: "cmd_env \<Rightarrow> MState \<Rightarrow> CEntry list \<Rightarrow> (string \<times> bool \<times> nat option) list cmd" where
  "list_conflicts x st [] = cret []"
| "list_conflicts x st (e # es) =
     cbind (if cf_Kind e = KindModifyDelete then cret None else cbind (renderConflict x st e) (\<lambda>r. cret (Some (Count r)))) (\<lambda>n.
     cbind (list_conflicts x st es) (\<lambda>r. cret ((cf_Path e, cf_Resolved e, n) # r)))"

definition filterEntriesByPathspecs :: "CEntry list \<Rightarrow> string list \<Rightarrow> CEntry list" where
  "filterEntriesByPathspecs es specs = filter (\<lambda>e. matchesAny (cf_Path e) specs) es"

definition noConflictsMessage :: "cmd_env \<Rightarrow> resolve_out cmd" where
  "noConflictsMessage x = cbind get_state (\<lambda>s. cret (NoConflicts (MergeInProgress (x_vara x) (r_fs s))))"

definition the_strategy :: "ResolveArgs \<Rightarrow> Strategy" where
  "the_strategy ra = (case ra_Strategy ra of None \<Rightarrow> Auto | Some st \<Rightarrow> st)"

definition resolveFromSidecar :: "'a menv \<Rightarrow> cmd_env \<Rightarrow> ResolveArgs \<Rightarrow> MarkerStyle \<Rightarrow> MState \<Rightarrow> resolve_out cmd" where
  "resolveFromSidecar me x ra style st =
     (let entries = (if ra_Paths ra = [] then ms_Entries st else filterEntriesByPathspecs (ms_Entries st) (ra_Paths ra)) in
      if entries = [] then noConflictsMessage x
      else
        cbind get_state (\<lambda>s.
        let cfg = loadConfig me x (r_fs s) in
        if ra_List ra then cbind (list_conflicts x st entries) (\<lambda>r. cret (Listed r))
        else
          cbind (resolve_entries me x st (the_strategy ra) style cfg entries \<lparr>pg_state = st, pg_resolved = 0, pg_choice = [], pg_still = []\<rparr>) (\<lambda>pg.
          cbind (ctx_writeIndex x) (\<lambda>_.
          cbind (on_fs ''update conflict state'' (MState_Write (x_json x) (x_io x) (x_vara x) (pg_state pg))) (\<lambda>_.
          cret (Settled (pg_resolved pg) (pg_choice pg) (pg_still pg) (AllResolved (pg_state pg))))))))"

text \<open>Without a record: the tracked files with markers, each path once, in the order of the paths.\<close>

fun first_paths :: "string set \<Rightarrow> Entry list \<Rightarrow> string list" where
  "first_paths seen [] = []"
| "first_paths seen (e # es) =
     (if ie_State e = StateDeleted \<or> ie_Path e \<in> seen then first_paths seen es else ie_Path e # first_paths (insert (ie_Path e) seen) es)"

definition findConflictedFiles :: "cmd_env \<Rightarrow> Index \<Rightarrow> fs \<Rightarrow> (string \<times> bytes) list" where
  "findConflictedFiles x idx fs =
     sort_by fst (List.map_filter (\<lambda>p. case fs (wpath x p) of None \<Rightarrow> None | Some d \<Rightarrow> if HasMarkers d then Some (p, d) else None) (first_paths {} (Entries idx)))"

fun resolve_marked :: "cmd_env \<Rightarrow> Strategy \<Rightarrow> (string \<times> bytes) list \<Rightarrow> nat \<times> string list \<Rightarrow> (nat \<times> string list) cmd" where
  "resolve_marked x strat [] acc = cret acc"
| "resolve_marked x strat ((p, d) # fs) acc =
     (case Resolve d strat of
        Inl _ \<Rightarrow> cfail ''resolve''
      | Inr (out, stats) \<Rightarrow>
          cbind (restageResolved x p out) (\<lambda>_.
          resolve_marked x strat fs (if Remaining stats = 0 then (Suc (fst acc), snd acc) else (fst acc, snd acc @ [p]))))"

definition resolveLegacy :: "cmd_env \<Rightarrow> ResolveArgs \<Rightarrow> resolve_out cmd" where
  "resolveLegacy x ra =
     cbind get_state (\<lambda>s.
     let found = findConflictedFiles x (r_idx s) (r_fs s);
         files = (if ra_Paths ra = [] then found else filter (\<lambda>f. matchesAny (fst f) (ra_Paths ra)) found)
     in if files = [] then noConflictsMessage x
        else if ra_List ra then cret (Listed (map (\<lambda>f. (fst f, False, Some (Count (snd f)))) files))
        else
          cbind (resolve_marked x (the_strategy ra) files (0, [])) (\<lambda>(n, still).
          cbind (ctx_writeIndex x) (\<lambda>_.
          cbind get_state (\<lambda>s1. cret (Settled n [] still (still = [] \<and> MergeInProgress (x_vara x) (r_fs s1)))))))"

definition RunResolve :: "'a menv \<Rightarrow> cmd_env \<Rightarrow> ResolveArgs \<Rightarrow> resolve_out cmd" where
  "RunResolve me x ra =
     cbind get_state (\<lambda>s.
     let style = (case ra_Style ra of Some st \<Rightarrow> st | None \<Rightarrow> configuredMarkerStyle me x (r_fs s)) in
     case MState_Read (x_unjson x) (x_vara x) (r_fs s) of
       Inl _ \<Rightarrow> cfail ''read conflict state''
     | Inr (Some st) \<Rightarrow> resolveFromSidecar me x ra style st
     | Inr None \<Rightarrow> resolveLegacy x ra)"

end
