(* ===== verification/Sample_Merge.thy ===== *)
theory Sample_Merge
  imports Sample_Repo
begin

text \<open>
  Two more commits for examples: a child of the commit of \<open>Sample_Repo\<close>, and the merge of the two, with their real SHA-256 identifiers.
\<close>

lemma more_words:
  "word_bytes (1 :: u32) = [CHR 0x00, CHR 0x00, CHR 0x00, CHR 0x01]" "word_bytes (2 :: u32) = [CHR 0x00, CHR 0x00, CHR 0x00, CHR 0x02]"
  using word_bytes_word_sized(2) [of "[CHR 0x00, CHR 0x00, CHR 0x00, CHR 0x01]"] word_bytes_word_sized(2) [of "[CHR 0x00, CHR 0x00, CHR 0x00, CHR 0x02]"]
  by (simp_all add: bytes_word_def)

definition demo_child1_ws :: "u32 list" where
  "demo_child1_ws =
     [1986097761, 761491309, 1835627578, 1982922768, 2179242983, 179405981, 4220898622, 4047809049, 3139677017, 123255644, 451510703, 4140302592, 271,
     448724636, 2394105272, 3815940168, 2016479342, 1893468624, 2005193764, 4123376840, 3885170624, 351202402, 108419408, 1676837581, 2847275863,
     3439892019, 1930377369, 1451990499, 351790618, 2285034671, 673949494, 1425453656, 2571083704, 3866357375, 3934159863, 3092543953, 2133981614,
     665696219, 1433744712, 788626884, 670717911, 997855754, 3078679846, 4030312985, 2700994336, 1303675920, 3173699108, 3582326531, 743479508, 900768922,
     3829532528, 3449377858, 4020379749, 1019820231, 1372583291, 1443617270, 4182566479, 409153098, 3058420551, 4284258697, 2195180012, 1822733312,
     2449296716, 659925372]"

lemma demo_child1_schedule: "sha_expand 48 [3815940168, 2394105272, 448724636, 271, 4140302592, 451510703, 123255644, 3139677017, 4047809049, 4220898622, 179405981, 2179242983, 1982922768,
     1835627578, 761491309, 1986097761] = rev demo_child1_ws"
  by code_simp

lemma demo_child1_part0: "sha_part 0 demo_child1_ws sha_H0 = [1375758650, 2766042616, 2843557904, 4044196178, 1446135049, 1972730519, 757808784, 2967916782]"
  by code_simp

lemma demo_child1_part1: "sha_part 1 demo_child1_ws [1375758650, 2766042616, 2843557904, 4044196178, 1446135049, 1972730519, 757808784, 2967916782] = [29857805, 737051129, 1378875866, 2462004536, 659995450, 1380415927, 2937629618, 2094363827]"
  by code_simp

lemma demo_child1_part2: "sha_part 2 demo_child1_ws [29857805, 737051129, 1378875866, 2462004536, 659995450, 1380415927, 2937629618, 2094363827] = [3434922016, 1995562781, 2108539198, 2141566510, 3738148858, 1391159884, 3432635579, 3562706951]"
  by code_simp

lemma demo_child1_part3: "sha_part 3 demo_child1_ws [3434922016, 1995562781, 2108539198, 2141566510, 3738148858, 1391159884, 3432635579, 3562706951] = [1467171411, 3732973564, 1246515598, 4068197342, 2186015537, 1875601017, 535654231, 1350051056]"
  by code_simp

lemma demo_child1_words: "sha_compress [1986097761, 761491309, 1835627578, 1982922768, 2179242983, 179405981, 4220898622, 4047809049, 3139677017, 123255644, 451510703, 4140302592, 271,
     448724636, 2394105272, 3815940168] sha_H0 = [3246205114, 2582140545, 2260419840, 2546710808, 3545908656, 181456645, 1064388866, 2891510281]"
  using sha_compress_parts [of _ "demo_child1_ws", OF _ _ demo_child1_part0 demo_child1_part1 demo_child1_part2 demo_child1_part3] demo_child1_schedule
  by (simp add: demo_child1_ws_def sha_H0_def)

definition demo_child2_ws :: "u32 list" where
  "demo_child2_ws =
     [2092995209, 1208936855, 2771340718, 958719140, 1751668224, 0, 1889, 7241728, 0, 0, 0, 0, 0, 0, 0, 752, 448046443, 3820554236, 3788336103, 4105939204,
     2166347141, 1702365954, 2959036101, 538658172, 844071411, 2884042438, 629609874, 565268149, 3454681784, 1055106946, 1779387311, 3586629745,
     3080972771, 3058143001, 2325626839, 3878227232, 2732357826, 3312400181, 1721038724, 1432212708, 4116505741, 1830853637, 963787029, 447728178,
     3644923149, 1129362007, 2106406561, 1182398963, 683838350, 3846387421, 3631101528, 1294264399, 2196300195, 1714954908, 3507228906, 3481725524,
     2239469309, 2432425714, 3590549204, 2046142517, 2759334077, 1984042441, 3971200765, 3487560882]"

lemma demo_child2_schedule: "sha_expand 48 [752, 0, 0, 0, 0, 0, 0, 0, 7241728, 1889, 0, 1751668224, 958719140, 2771340718, 1208936855, 2092995209] = rev demo_child2_ws"
  by code_simp

lemma demo_child2_part0: "sha_part 0 demo_child2_ws [3246205114, 2582140545, 2260419840, 2546710808, 3545908656, 181456645, 1064388866, 2891510281] = [1007700039, 2765482326, 22707522, 3395240114, 4240025768, 295577907, 2591111300, 2423119332]"
  by code_simp

lemma demo_child2_part1: "sha_part 1 demo_child2_ws [1007700039, 2765482326, 22707522, 3395240114, 4240025768, 295577907, 2591111300, 2423119332] = [3360393690, 2696012743, 1617991275, 312266005, 1086171584, 1165559959, 4204469334, 1104127465]"
  by code_simp

lemma demo_child2_part2: "sha_part 2 demo_child2_ws [3360393690, 2696012743, 1617991275, 312266005, 1086171584, 1165559959, 4204469334, 1104127465] = [3030760136, 1423192629, 3390961886, 1492302386, 3479742529, 2462151692, 140963789, 245869168]"
  by code_simp

lemma demo_child2_part3: "sha_part 3 demo_child2_ws [3030760136, 1423192629, 3390961886, 1492302386, 3479742529, 2462151692, 140963789, 245869168] = [3603647149, 1325567459, 928065489, 849077758, 283633761, 64554836, 2731442242, 398602278]"
  by code_simp

lemma demo_child2_words: "sha_compress [2092995209, 1208936855, 2771340718, 958719140, 1751668224, 0, 1889, 7241728, 0, 0, 0, 0, 0, 0, 0, 752] [3246205114, 2582140545, 2260419840, 2546710808, 3545908656, 181456645, 1064388866, 2891510281] = [2554884967, 3907708004, 3188485329, 3395788566, 3829542417, 246011481, 3795831108, 3290112559]"
  using sha_compress_parts [of _ "demo_child2_ws", OF _ _ demo_child2_part0 demo_child2_part1 demo_child2_part2 demo_child2_part3] demo_child2_schedule
  by (simp add: demo_child2_ws_def sha_H0_def)

definition demo_child_blocks :: "bytes list list" where
  "demo_child_blocks =
     [[[CHR 0x76, CHR 0x61, CHR 0x72, CHR 0x61], [CHR 0x2d, CHR 0x63, CHR 0x6f, CHR 0x6d], [CHR 0x6d, CHR 0x69, CHR 0x74, CHR 0x3a], [CHR 0x76, CHR 0x31,
      CHR 0x00, CHR 0x10], [CHR 0x81, CHR 0xe4, CHR 0x9b, CHR 0xe7], [CHR 0x0a, CHR 0xb1, CHR 0x84, CHR 0x9d], [CHR 0xfb, CHR 0x95, CHR 0xcd, CHR 0x3e],
      [CHR 0xf1, CHR 0x44, CHR 0xaa, CHR 0x19], [CHR 0xbb, CHR 0x23, CHR 0xab, CHR 0x59], [CHR 0x07, CHR 0x58, CHR 0xbb, CHR 0x5c], [CHR 0x1a, CHR 0xe9, CHR
      0x81, CHR 0xaf], [CHR 0xf6, CHR 0xc8, CHR 0x01, CHR 0x00], [CHR 0x00, CHR 0x00, CHR 0x01, CHR 0x0f], [CHR 0x1a, CHR 0xbe, CHR 0xfe, CHR 0x9c], [CHR
      0x8e, CHR 0xb3, CHR 0x25, CHR 0xb8], [CHR 0xe3, CHR 0x72, CHR 0xa0, CHR 0x48]],
      [[CHR 0x7c, CHR 0xc0, CHR 0x92, CHR 0x89], [CHR 0x48, CHR 0x0e, CHR 0xe9, CHR 0x97], [CHR 0xa5, CHR 0x2f, CHR 0x4d, CHR 0xae], [CHR 0x39, CHR 0x24,
      CHR 0xe4, CHR 0xa4], [CHR 0x68, CHR 0x68, CHR 0x56, CHR 0x00], [CHR 0x00, CHR 0x00, CHR 0x00, CHR 0x00], [CHR 0x00, CHR 0x00, CHR 0x07, CHR 0x61],
      [CHR 0x00, CHR 0x6e, CHR 0x80, CHR 0x00], [CHR 0x00, CHR 0x00, CHR 0x00, CHR 0x00], [CHR 0x00, CHR 0x00, CHR 0x00, CHR 0x00], [CHR 0x00, CHR 0x00, CHR
      0x00, CHR 0x00], [CHR 0x00, CHR 0x00, CHR 0x00, CHR 0x00], [CHR 0x00, CHR 0x00, CHR 0x00, CHR 0x00], [CHR 0x00, CHR 0x00, CHR 0x00, CHR 0x00], [CHR
      0x00, CHR 0x00, CHR 0x00, CHR 0x00], [CHR 0x00, CHR 0x00, CHR 0x02, CHR 0xf0]]]"

definition demo_child_digest :: "bytes list" where
  "demo_child_digest =
     [[CHR 0x98, CHR 0x48, CHR 0x73, CHR 0x67], [CHR 0xe8, CHR 0xea, CHR 0xe4, CHR 0x64], [CHR 0xbe, CHR 0x0c, CHR 0x6c, CHR 0xd1], [CHR 0xca, CHR 0x67,
     CHR 0x9f, CHR 0x16], [CHR 0xe4, CHR 0x42, CHR 0x2e, CHR 0x11], [CHR 0x0e, CHR 0xa9, CHR 0xd6, CHR 0x59], [CHR 0xe2, CHR 0x3f, CHR 0xc9, CHR 0x44],
     [CHR 0xc4, CHR 0x1b, CHR 0x22, CHR 0x2f]]"

definition demo_child_id :: BaseID where
  "demo_child_id = bytes_word (concat demo_child_digest)"

definition demo_child_obj :: Object where
  "demo_child_obj = CommitObj \<lparr>TreeHash = demo_tree_id, Parents = [demo_commit_id], Author = ''a'', Message = ''n'', Timestamp = 7\<rparr>"

lemma demo_child_bytes: "Serialize demo_child_obj = [CHR 0x76, CHR 0x61, CHR 0x72, CHR 0x61, CHR 0x2d, CHR 0x63, CHR 0x6f, CHR 0x6d, CHR 0x6d, CHR 0x69, CHR 0x74, CHR 0x3a, CHR 0x76, CHR 0x31, CHR 0x00,
     CHR 0x10, CHR 0x81, CHR 0xe4, CHR 0x9b, CHR 0xe7, CHR 0x0a, CHR 0xb1, CHR 0x84, CHR 0x9d, CHR 0xfb, CHR 0x95, CHR 0xcd, CHR 0x3e, CHR 0xf1, CHR 0x44,
     CHR 0xaa, CHR 0x19, CHR 0xbb, CHR 0x23, CHR 0xab, CHR 0x59, CHR 0x07, CHR 0x58, CHR 0xbb, CHR 0x5c, CHR 0x1a, CHR 0xe9, CHR 0x81, CHR 0xaf, CHR 0xf6,
     CHR 0xc8, CHR 0x01, CHR 0x00, CHR 0x00, CHR 0x00, CHR 0x01, CHR 0x0f, CHR 0x1a, CHR 0xbe, CHR 0xfe, CHR 0x9c, CHR 0x8e, CHR 0xb3, CHR 0x25, CHR 0xb8,
     CHR 0xe3, CHR 0x72, CHR 0xa0, CHR 0x48, CHR 0x7c, CHR 0xc0, CHR 0x92, CHR 0x89, CHR 0x48, CHR 0x0e, CHR 0xe9, CHR 0x97, CHR 0xa5, CHR 0x2f, CHR 0x4d,
     CHR 0xae, CHR 0x39, CHR 0x24, CHR 0xe4, CHR 0xa4, CHR 0x68, CHR 0x68, CHR 0x56, CHR 0x00, CHR 0x00, CHR 0x00, CHR 0x00, CHR 0x00, CHR 0x00, CHR 0x00,
     CHR 0x07, CHR 0x61, CHR 0x00, CHR 0x6e]"
  by (simp add: demo_child_obj_def Commit_Serialize_def ObjectType_string_def small_words more_words demo_tree_id_def demo_tree_digest_def demo_commit_id_def demo_commit_digest_def WriteHeader_def)

lemma demo_child_pad: "sha_pad (Serialize demo_child_obj) = concat (map concat demo_child_blocks)"
  unfolding demo_child_bytes demo_child_blocks_def by (rule sha_pad_bytes [of 25]) simp_all

lemma demo_child_hash: "Compute (Serialize demo_child_obj) = demo_child_id"
  unfolding demo_child_id_def
proof (rule Compute_blocks [OF demo_child_pad])
  show "fold (\<lambda>c. sha_compress (map bytes_word c)) demo_child_blocks sha_H0 = map bytes_word demo_child_digest"
    unfolding demo_child_blocks_def demo_child_digest_def by (simp add: bytes_word_def demo_child1_words demo_child2_words)
qed (simp_all add: demo_child_blocks_def demo_child_digest_def)

definition demo_join1_ws :: "u32 list" where
  "demo_join1_ws =
     [1986097761, 761491309, 1835627578, 1982922768, 2179242983, 179405981, 4220898622, 4047809049, 3139677017, 123255644, 451510703, 4140302592, 664,
     1215522792, 3940836542, 208458186, 1088036703, 1604695264, 515134393, 3706948133, 3362264733, 3150020408, 419317386, 288940340, 2626582773,
     3486054692, 177543084, 1398481942, 3846650715, 3518358120, 419751480, 664113718, 2801029434, 1251255397, 3344045035, 2955022229, 530107573,
     2707914345, 313003126, 1872012410, 1560558464, 2054239903, 1160171913, 2519420754, 3970130219, 4250998059, 1901411926, 2726785607, 1161960201,
     849154635, 1794353073, 587675906, 3710013462, 2077500968, 3886129792, 1386291042, 4041731897, 1073442926, 3602097437, 3683293205, 464299152,
     4053728672, 3528936271, 3517446346]"

lemma demo_join1_schedule: "sha_expand 48 [208458186, 3940836542, 1215522792, 664, 4140302592, 451510703, 123255644, 3139677017, 4047809049, 4220898622, 179405981, 2179242983, 1982922768,
     1835627578, 761491309, 1986097761] = rev demo_join1_ws"
  by code_simp

lemma demo_join1_part0: "sha_part 0 demo_join1_ws sha_H0 = [3725486939, 3969360691, 3252050330, 4044196571, 3841266234, 923529919, 1774089079, 2967917175]"
  by code_simp

lemma demo_join1_part1: "sha_part 1 demo_join1_ws [3725486939, 3969360691, 3252050330, 4044196571, 3841266234, 923529919, 1774089079, 2967917175] = [240950003, 3989303069, 4101471192, 1760559947, 3376903873, 2524082830, 3537959002, 803330336]"
  by code_simp

lemma demo_join1_part2: "sha_part 2 demo_join1_ws [240950003, 3989303069, 4101471192, 1760559947, 3376903873, 2524082830, 3537959002, 803330336] = [2239312128, 1269971003, 2222561479, 4068597956, 1497125657, 2271253565, 3019689910, 3750478634]"
  by code_simp

lemma demo_join1_part3: "sha_part 3 demo_join1_ws [2239312128, 1269971003, 2222561479, 4068597956, 1497125657, 2271253565, 3019689910, 3750478634] = [320642009, 2944685959, 2364666204, 3197285637, 392774761, 935233498, 3477181890, 1610346452]"
  by code_simp

lemma demo_join1_words: "sha_compress [1986097761, 761491309, 1835627578, 1982922768, 2179242983, 179405981, 4220898622, 4047809049, 3139677017, 123255644, 451510703, 4140302592, 664,
     1215522792, 3940836542, 208458186] sha_H0 = [2099675712, 1793852940, 3378570446, 1675799103, 1752667880, 3536056422, 4005916525, 3151805677]"
  using sha_compress_parts [of _ "demo_join1_ws", OF _ _ demo_join1_part0 demo_join1_part1 demo_join1_part2 demo_join1_part3] demo_join1_schedule
  by (simp add: demo_join1_ws_def sha_H0_def)

definition demo_join2_ws :: "u32 list" where
  "demo_join2_ws =
     [1738479332, 1110315278, 2849397218, 1070154948, 455225103, 448724636, 2394105272, 3815940168, 2092995209, 1208936855, 2771340718, 958719140,
     1751668224, 0, 1889, 5072242, 1133293316, 1267105836, 2217033477, 3468996430, 3626717033, 2262906590, 2200629890, 509101937, 2372731107, 2450096631,
     180536427, 445623720, 704897382, 1785389409, 1749243394, 3849848178, 2304666331, 2898608448, 1180728785, 484134103, 1413450171, 1759417220,
     2395916132, 3656309346, 2462609137, 4111231993, 439305909, 1490792462, 1445916129, 2208493787, 3854861511, 3676725589, 364797930, 2027931197,
     31485459, 756202088, 3017377997, 3258111649, 3344921393, 203590119, 1529686705, 3314956819, 1929618989, 1514278590, 3682047644, 1138998230,
     1411002367, 574279574]"

lemma demo_join2_schedule: "sha_expand 48 [5072242, 1889, 0, 1751668224, 958719140, 2771340718, 1208936855, 2092995209, 3815940168, 2394105272, 448724636, 455225103, 1070154948, 2849397218,
     1110315278, 1738479332] = rev demo_join2_ws"
  by code_simp

lemma demo_join2_part0: "sha_part 0 demo_join2_ws [2099675712, 1793852940, 3378570446, 1675799103, 1752667880, 3536056422, 4005916525, 3151805677] = [2902610687, 3642594593, 3674366709, 3955114017, 1076581750, 1801256533, 1897182421, 2922201867]"
  by code_simp

lemma demo_join2_part1: "sha_part 1 demo_join2_ws [2902610687, 3642594593, 3674366709, 3955114017, 1076581750, 1801256533, 1897182421, 2922201867] = [1181796676, 2043539877, 4163297548, 2165102165, 3226783562, 1042434435, 1169014201, 3695514530]"
  by code_simp

lemma demo_join2_part2: "sha_part 2 demo_join2_ws [1181796676, 2043539877, 4163297548, 2165102165, 3226783562, 1042434435, 1169014201, 3695514530] = [3584256606, 1320638187, 1648875943, 766841926, 3556592058, 383706583, 99416539, 3693523242]"
  by code_simp

lemma demo_join2_part3: "sha_part 3 demo_join2_ws [3584256606, 1320638187, 1648875943, 766841926, 3556592058, 383706583, 99416539, 3693523242] = [707335447, 2677375900, 3043746193, 1174301395, 4121659281, 1121457795, 362314020, 1423745541]"
  by code_simp

lemma demo_join2_words: "sha_compress [1738479332, 1110315278, 2849397218, 1070154948, 455225103, 448724636, 2394105272, 3815940168, 2092995209, 1208936855, 2771340718, 958719140,
     1751668224, 0, 1889, 5072242] [2099675712, 1793852940, 3378570446, 1675799103, 1752667880, 3536056422, 4005916525, 3151805677] = [2807011159, 176261544, 2127349343, 2850100498, 1579359865, 362546921, 73263249, 280583922]"
  using sha_compress_parts [of _ "demo_join2_ws", OF _ _ demo_join2_part0 demo_join2_part1 demo_join2_part2 demo_join2_part3] demo_join2_schedule
  by (simp add: demo_join2_ws_def sha_H0_def)

definition demo_join3_ws :: "u32 list" where
  "demo_join3_ws =
     [1734680674, 1918987875, 1746937700, 662700032, 0, 0, 0, 0, 0, 0, 0, 0, 0, 0, 0, 1128, 4204090346, 1093127438, 1888860304, 1186373956, 1799754550,
     2224752165, 3420925367, 3733760009, 3028791890, 835203149, 1980026499, 2305384455, 2200394518, 1745395064, 4134535343, 2951622747, 348275871,
     3591468381, 2363693510, 1132635778, 1566218183, 1075013888, 3075501479, 745303432, 1445853987, 3048579199, 1118166092, 914898415, 4085832990,
     2041186369, 3332482377, 4176031242, 2901267152, 648376574, 3151794641, 1851077371, 2227378607, 2296094384, 2931031137, 3366442242, 2150427827,
     1768433562, 1957864659, 3879809577, 2468986790, 3385928177, 3099268496, 3950710553]"

lemma demo_join3_schedule: "sha_expand 48 [1128, 0, 0, 0, 0, 0, 0, 0, 0, 0, 0, 0, 662700032, 1746937700, 1918987875, 1734680674] = rev demo_join3_ws"
  by code_simp

lemma demo_join3_part0: "sha_part 0 demo_join3_ws [2807011159, 176261544, 2127349343, 2850100498, 1579359865, 362546921, 73263249, 280583922] = [507582815, 3748240512, 3904302183, 698382154, 3401769313, 2818844989, 550437301, 885374870]"
  by code_simp

lemma demo_join3_part1: "sha_part 1 demo_join3_ws [507582815, 3748240512, 3904302183, 698382154, 3401769313, 2818844989, 550437301, 885374870] = [733520473, 1460438615, 3389157438, 1065552916, 1214900889, 1314020179, 3199862462, 2275474535]"
  by code_simp

lemma demo_join3_part2: "sha_part 2 demo_join3_ws [733520473, 1460438615, 3389157438, 1065552916, 1214900889, 1314020179, 3199862462, 2275474535] = [1838156067, 2832107236, 1817041893, 4247995903, 1945119641, 1594120464, 2443079048, 764631150]"
  by code_simp

lemma demo_join3_part3: "sha_part 3 demo_join3_ws [1838156067, 2832107236, 1817041893, 4247995903, 1945119641, 1594120464, 2443079048, 764631150] = [3881525538, 1086701016, 358198215, 2200382634, 472805354, 1897919660, 644541656, 1380915804]"
  by code_simp

lemma demo_join3_words: "sha_compress [1734680674, 1918987875, 1746937700, 662700032, 0, 0, 0, 0, 0, 0, 0, 0, 0, 0, 0, 1128] [2807011159, 176261544, 2127349343, 2850100498, 1579359865, 362546921, 73263249, 280583922] = [2393569401, 1262962560, 2485547558, 755515836, 2052165219, 2260466581, 717804905, 1661499726]"
  using sha_compress_parts [of _ "demo_join3_ws", OF _ _ demo_join3_part0 demo_join3_part1 demo_join3_part2 demo_join3_part3] demo_join3_schedule
  by (simp add: demo_join3_ws_def sha_H0_def)

definition demo_join_blocks :: "bytes list list" where
  "demo_join_blocks =
     [[[CHR 0x76, CHR 0x61, CHR 0x72, CHR 0x61], [CHR 0x2d, CHR 0x63, CHR 0x6f, CHR 0x6d], [CHR 0x6d, CHR 0x69, CHR 0x74, CHR 0x3a], [CHR 0x76, CHR 0x31,
      CHR 0x00, CHR 0x10], [CHR 0x81, CHR 0xe4, CHR 0x9b, CHR 0xe7], [CHR 0x0a, CHR 0xb1, CHR 0x84, CHR 0x9d], [CHR 0xfb, CHR 0x95, CHR 0xcd, CHR 0x3e],
      [CHR 0xf1, CHR 0x44, CHR 0xaa, CHR 0x19], [CHR 0xbb, CHR 0x23, CHR 0xab, CHR 0x59], [CHR 0x07, CHR 0x58, CHR 0xbb, CHR 0x5c], [CHR 0x1a, CHR 0xe9, CHR
      0x81, CHR 0xaf], [CHR 0xf6, CHR 0xc8, CHR 0x01, CHR 0x00], [CHR 0x00, CHR 0x00, CHR 0x02, CHR 0x98], [CHR 0x48, CHR 0x73, CHR 0x67, CHR 0xe8], [CHR
      0xea, CHR 0xe4, CHR 0x64, CHR 0xbe], [CHR 0x0c, CHR 0x6c, CHR 0xd1, CHR 0xca]],
      [[CHR 0x67, CHR 0x9f, CHR 0x16, CHR 0xe4], [CHR 0x42, CHR 0x2e, CHR 0x11, CHR 0x0e], [CHR 0xa9, CHR 0xd6, CHR 0x59, CHR 0xe2], [CHR 0x3f, CHR 0xc9,
      CHR 0x44, CHR 0xc4], [CHR 0x1b, CHR 0x22, CHR 0x2f, CHR 0x0f], [CHR 0x1a, CHR 0xbe, CHR 0xfe, CHR 0x9c], [CHR 0x8e, CHR 0xb3, CHR 0x25, CHR 0xb8],
      [CHR 0xe3, CHR 0x72, CHR 0xa0, CHR 0x48], [CHR 0x7c, CHR 0xc0, CHR 0x92, CHR 0x89], [CHR 0x48, CHR 0x0e, CHR 0xe9, CHR 0x97], [CHR 0xa5, CHR 0x2f, CHR
      0x4d, CHR 0xae], [CHR 0x39, CHR 0x24, CHR 0xe4, CHR 0xa4], [CHR 0x68, CHR 0x68, CHR 0x56, CHR 0x00], [CHR 0x00, CHR 0x00, CHR 0x00, CHR 0x00], [CHR
      0x00, CHR 0x00, CHR 0x07, CHR 0x61], [CHR 0x00, CHR 0x4d, CHR 0x65, CHR 0x72]],
      [[CHR 0x67, CHR 0x65, CHR 0x20, CHR 0x62], [CHR 0x72, CHR 0x61, CHR 0x6e, CHR 0x63], [CHR 0x68, CHR 0x20, CHR 0x27, CHR 0x64], [CHR 0x27, CHR 0x80,
      CHR 0x00, CHR 0x00], [CHR 0x00, CHR 0x00, CHR 0x00, CHR 0x00], [CHR 0x00, CHR 0x00, CHR 0x00, CHR 0x00], [CHR 0x00, CHR 0x00, CHR 0x00, CHR 0x00],
      [CHR 0x00, CHR 0x00, CHR 0x00, CHR 0x00], [CHR 0x00, CHR 0x00, CHR 0x00, CHR 0x00], [CHR 0x00, CHR 0x00, CHR 0x00, CHR 0x00], [CHR 0x00, CHR 0x00, CHR
      0x00, CHR 0x00], [CHR 0x00, CHR 0x00, CHR 0x00, CHR 0x00], [CHR 0x00, CHR 0x00, CHR 0x00, CHR 0x00], [CHR 0x00, CHR 0x00, CHR 0x00, CHR 0x00], [CHR
      0x00, CHR 0x00, CHR 0x00, CHR 0x00], [CHR 0x00, CHR 0x00, CHR 0x04, CHR 0x68]]]"

definition demo_join_digest :: "bytes list" where
  "demo_join_digest =
     [[CHR 0x8e, CHR 0xaa, CHR 0xf8, CHR 0x79], [CHR 0x4b, CHR 0x47, CHR 0x47, CHR 0x80], [CHR 0x94, CHR 0x26, CHR 0x72, CHR 0x26], [CHR 0x2d, CHR 0x08,
     CHR 0x41, CHR 0xbc], [CHR 0x7a, CHR 0x51, CHR 0x8e, CHR 0x63], [CHR 0x86, CHR 0xbb, CHR 0xfb, CHR 0x95], [CHR 0x2a, CHR 0xc8, CHR 0xd5, CHR 0x69],
     [CHR 0x63, CHR 0x08, CHR 0x79, CHR 0x4e]]"

definition demo_join_id :: BaseID where
  "demo_join_id = bytes_word (concat demo_join_digest)"

definition demo_join_obj :: Object where
  "demo_join_obj = CommitObj \<lparr>TreeHash = demo_tree_id, Parents = [demo_child_id, demo_commit_id], Author = ''a'', Message = ''Merge branch '' @ [CHR 0x27] @ ''d'' @ [CHR 0x27], Timestamp = 7\<rparr>"

lemma demo_join_bytes: "Serialize demo_join_obj = [CHR 0x76, CHR 0x61, CHR 0x72, CHR 0x61, CHR 0x2d, CHR 0x63, CHR 0x6f, CHR 0x6d, CHR 0x6d, CHR 0x69, CHR 0x74, CHR 0x3a, CHR 0x76, CHR 0x31, CHR 0x00,
     CHR 0x10, CHR 0x81, CHR 0xe4, CHR 0x9b, CHR 0xe7, CHR 0x0a, CHR 0xb1, CHR 0x84, CHR 0x9d, CHR 0xfb, CHR 0x95, CHR 0xcd, CHR 0x3e, CHR 0xf1, CHR 0x44,
     CHR 0xaa, CHR 0x19, CHR 0xbb, CHR 0x23, CHR 0xab, CHR 0x59, CHR 0x07, CHR 0x58, CHR 0xbb, CHR 0x5c, CHR 0x1a, CHR 0xe9, CHR 0x81, CHR 0xaf, CHR 0xf6,
     CHR 0xc8, CHR 0x01, CHR 0x00, CHR 0x00, CHR 0x00, CHR 0x02, CHR 0x98, CHR 0x48, CHR 0x73, CHR 0x67, CHR 0xe8, CHR 0xea, CHR 0xe4, CHR 0x64, CHR 0xbe,
     CHR 0x0c, CHR 0x6c, CHR 0xd1, CHR 0xca, CHR 0x67, CHR 0x9f, CHR 0x16, CHR 0xe4, CHR 0x42, CHR 0x2e, CHR 0x11, CHR 0x0e, CHR 0xa9, CHR 0xd6, CHR 0x59,
     CHR 0xe2, CHR 0x3f, CHR 0xc9, CHR 0x44, CHR 0xc4, CHR 0x1b, CHR 0x22, CHR 0x2f, CHR 0x0f, CHR 0x1a, CHR 0xbe, CHR 0xfe, CHR 0x9c, CHR 0x8e, CHR 0xb3,
     CHR 0x25, CHR 0xb8, CHR 0xe3, CHR 0x72, CHR 0xa0, CHR 0x48, CHR 0x7c, CHR 0xc0, CHR 0x92, CHR 0x89, CHR 0x48, CHR 0x0e, CHR 0xe9, CHR 0x97, CHR 0xa5,
     CHR 0x2f, CHR 0x4d, CHR 0xae, CHR 0x39, CHR 0x24, CHR 0xe4, CHR 0xa4, CHR 0x68, CHR 0x68, CHR 0x56, CHR 0x00, CHR 0x00, CHR 0x00, CHR 0x00, CHR 0x00,
     CHR 0x00, CHR 0x00, CHR 0x07, CHR 0x61, CHR 0x00, CHR 0x4d, CHR 0x65, CHR 0x72, CHR 0x67, CHR 0x65, CHR 0x20, CHR 0x62, CHR 0x72, CHR 0x61, CHR 0x6e,
     CHR 0x63, CHR 0x68, CHR 0x20, CHR 0x27, CHR 0x64, CHR 0x27]"
  by (simp add: demo_join_obj_def Commit_Serialize_def ObjectType_string_def small_words more_words demo_tree_id_def demo_tree_digest_def demo_commit_id_def demo_commit_digest_def demo_child_id_def demo_child_digest_def WriteHeader_def)

lemma demo_join_pad: "sha_pad (Serialize demo_join_obj) = concat (map concat demo_join_blocks)"
  unfolding demo_join_bytes demo_join_blocks_def by (rule sha_pad_bytes [of 42]) simp_all

lemma demo_join_hash: "Compute (Serialize demo_join_obj) = demo_join_id"
  unfolding demo_join_id_def
proof (rule Compute_blocks [OF demo_join_pad])
  show "fold (\<lambda>c. sha_compress (map bytes_word c)) demo_join_blocks sha_H0 = map bytes_word demo_join_digest"
    unfolding demo_join_blocks_def demo_join_digest_def by (simp add: bytes_word_def demo_join1_words demo_join2_words demo_join3_words)
qed (simp_all add: demo_join_blocks_def demo_join_digest_def)

lemma demo_merge_bytes:
  "word_bytes demo_blob_id = concat demo_blob_digest" "word_bytes demo_tree_id = concat demo_tree_digest" "word_bytes demo_commit_id = concat demo_commit_digest"
  "word_bytes demo_child_id = concat demo_child_digest" "word_bytes demo_join_id = concat demo_join_digest"
  by (simp_all add: demo_blob_id_def demo_tree_id_def demo_commit_id_def demo_child_id_def demo_join_id_def demo_blob_digest_def demo_tree_digest_def demo_commit_digest_def
      demo_child_digest_def demo_join_digest_def)

lemma demo_merge_ids [simp]:
  "demo_blob_id \<noteq> demo_child_id" "demo_tree_id \<noteq> demo_child_id" "demo_commit_id \<noteq> demo_child_id"
  "demo_blob_id \<noteq> demo_join_id" "demo_tree_id \<noteq> demo_join_id" "demo_commit_id \<noteq> demo_join_id" "demo_child_id \<noteq> demo_join_id"
  using demo_merge_bytes by (auto simp: demo_blob_digest_def demo_tree_digest_def demo_commit_digest_def demo_child_digest_def demo_join_digest_def)

end
