(* ===== verification/Merge_Command.thy ===== *)
theory Merge_Command
  imports Resolve_Command Sample_Merge
begin

text \<open>
  \<^verbatim>\<open>vara merge\<close> (\<^verbatim>\<open>internal/commands/merge.go\<close>, \<^verbatim>\<open>mergepolicy.go\<close>): the pipeline around the merge engine. It resolves both commits, runs the engine inside a transaction, and
  then fast-forwards the branch, records the merge commit, or re-decides the conflicts with the base-aware renderer, records those that remain and applies the merge policy. The interactive
  session of the policy is left out; \<^verbatim>\<open>opts.Interactive\<close> is nil. What the command prints is kept as a value.
\<close>

section \<open>Policy\<close>

record MergeOptions =
  mo_Strategy :: "Strategy option"
  mo_Manual :: bool

record mergePolicy =
  mp_opts :: MergeOptions
  mp_def :: "Strategy option"
  mp_rules :: "(string \<times> Strategy option) list"
  mp_invalid :: "string list"

definition validMergeStrategy :: "Strategy \<Rightarrow> bool" where
  "validMergeStrategy st \<longleftrightarrow> st = Ours \<or> st = Theirs \<or> st = Union"

definition ParseMergeStrategy :: "'a menv \<Rightarrow> string \<Rightarrow> Strategy option" where
  "ParseMergeStrategy me v =
     (case ParseStrategy (ToLower (me_lower me) (TrimSpace v)) of None \<Rightarrow> None | Some st \<Rightarrow> if validMergeStrategy st then Some st else None)"

text \<open>\<^verbatim>\<open>strings.EqualFold(v, "manual")\<close>: the letters of \<^verbatim>\<open>manual\<close> fold to ASCII letters only.\<close>

definition is_manual :: "string \<Rightarrow> bool" where
  "is_manual v \<longleftrightarrow> map lower_char v = ''manual''"

definition loadMergePolicy :: "'a menv \<Rightarrow> Config option \<Rightarrow> MergeOptions \<Rightarrow> mergePolicy" where
  "loadMergePolicy me cfg opts =
     (let p = \<lparr>mp_opts = opts, mp_def = None, mp_rules = [], mp_invalid = []\<rparr> in
      if mo_Manual opts \<or> mo_Strategy opts \<noteq> None then p
      else case cfg of
        None \<Rightarrow> p
      | Some c \<Rightarrow>
          let p1 = (case Config_Get (me_lower me) c ''merge'' [] ''strategy'' of
                None \<Rightarrow> p
              | Some v \<Rightarrow>
                  if is_manual (TrimSpace v) then p
                  else case ParseMergeStrategy me v of Some st \<Rightarrow> p\<lparr>mp_def := Some st\<rparr> | None \<Rightarrow> p\<lparr>mp_invalid := [''merge.strategy'']\<rparr>)
          in fold (\<lambda>(k, v) q.
               if is_manual (TrimSpace v) then q\<lparr>mp_rules := mp_rules q @ [(k, None)]\<rparr>
               else case ParseMergeStrategy me v of
                 Some st \<Rightarrow> q\<lparr>mp_rules := mp_rules q @ [(k, Some st)]\<rparr>
               | None \<Rightarrow> q\<lparr>mp_invalid := mp_invalid q @ [''merge.rule '' @ k]\<rparr>) (Config_Entries (me_lower me) c ''merge'' ''rule'') p1)"

function (sequential) matchSegments :: "(string \<Rightarrow> string \<Rightarrow> bool) \<Rightarrow> string list \<Rightarrow> string list \<Rightarrow> bool" where
  "matchSegments mt [] seg \<longleftrightarrow> seg = []"
| "matchSegments mt (p # pat) seg \<longleftrightarrow>
     (if p = ''**'' then
        (if pat = [] then seg \<noteq> [] else list_ex (\<lambda>i. matchSegments mt pat (drop i seg)) [0 ..< Suc (length seg)])
      else case seg of [] \<Rightarrow> False | s # rest \<Rightarrow> mt p s \<and> matchSegments mt pat rest)"
  by pat_completeness auto
termination by (relation "measure (\<lambda>(mt, pat, seg). length pat)") auto

definition trim_slashes :: "string \<Rightarrow> string" where
  "trim_slashes s = TrimRight (dropWhile (\<lambda>c. c = CHR ''/'') s) {CHR ''/''}"

definition path_Base :: "string \<Rightarrow> string" where
  "path_Base p =
     (let q = TrimRight p {CHR ''/''} in if p = [] then ''.'' else if q = [] then ''/'' else last (Split q (CHR ''/'')))"

definition matchMergePattern :: "'a menv \<Rightarrow> string \<Rightarrow> string \<Rightarrow> bool" where
  "matchMergePattern me pattern file =
     (let pat = ToLower (me_lower me) (trim_slashes pattern); f = ToLower (me_lower me) file in
      if pat = [] then False
      else if CHR ''/'' \<notin> set pat then me_match me pat (path_Base f)
      else matchSegments (me_match me) (Split pat (CHR ''/'')) (Split f (CHR ''/'')))"

definition strategyFor :: "'a menv \<Rightarrow> mergePolicy \<Rightarrow> string \<Rightarrow> Strategy option" where
  "strategyFor me p file =
     (if mo_Manual (mp_opts p) then None
      else case mo_Strategy (mp_opts p) of
        Some st \<Rightarrow> Some st
      | None \<Rightarrow> (case find (\<lambda>r. matchMergePattern me (fst r) file) (mp_rules p) of Some r \<Rightarrow> snd r | None \<Rightarrow> mp_def p))"

text \<open>What a merge reports.\<close>

datatype merge_out = FastForwarded CommitID | MergeCommitted CommitID | AutoMerged CommitID | StillConflicted "string list" | PolicyOpen "string list" | PolicyMerged CommitID

definition resolve_args :: "Strategy \<Rightarrow> string list \<Rightarrow> ResolveArgs" where
  "resolve_args st ps = \<lparr>ra_Strategy = Some st, ra_List = False, ra_Paths = ps, ra_Style = None\<rparr>"

text \<open>The strategies in their order; \<open>False\<close> means that one of them failed, which is only reported.\<close>

fun apply_strategies :: "'a menv \<Rightarrow> cmd_env \<Rightarrow> (Strategy \<times> string list) list \<Rightarrow> bool cmd" where
  "apply_strategies me x [] = cret True"
| "apply_strategies me x ((st, files) # rest) =
     (if files = [] then apply_strategies me x rest
      else (\<lambda>s. case RunResolve me x (resolve_args st (sort_by id files)) s of
        None \<Rightarrow> None
      | Some (s1, Inl CPanic) \<Rightarrow> Some (s1, Inl CPanic)
      | Some (s1, Inl _) \<Rightarrow> Some (s1, Inr False)
      | Some (s1, Inr _) \<Rightarrow> apply_strategies me x rest s1))"

definition applyMergePolicy :: "'a menv \<Rightarrow> cmd_env \<Rightarrow> MState \<Rightarrow> MergeOptions \<Rightarrow> merge_out cmd" where
  "applyMergePolicy me x st opts =
     cbind get_state (\<lambda>s.
     let pol = loadMergePolicy me (loadConfig me x (r_fs s)) opts;
         chosen = (\<lambda>k. filter (\<lambda>f. strategyFor me pol f = Some k) (MState_Paths st))
     in if list_all (\<lambda>f. strategyFor me pol f = None) (MState_Paths st) then cret (StillConflicted (MState_Paths st))
        else
          cbind (apply_strategies me x [(Ours, chosen Ours), (Theirs, chosen Theirs), (Union, chosen Union)]) (\<lambda>ok.
          if \<not> ok then cret (StillConflicted (MState_Paths st))
          else
            cbind get_state (\<lambda>s1.
            case MState_Read (x_unjson x) (x_vara x) (r_fs s1) of
              Inl _ \<Rightarrow> cfail ''read conflict state''
            | Inr None \<Rightarrow> cret (PolicyOpen [])
            | Inr (Some st1) \<Rightarrow>
                if UnresolvedPaths st1 \<noteq> [] then cret (PolicyOpen (UnresolvedPaths st1))
                else cbind (RunMergeContinue x []) (\<lambda>c. cret (PolicyMerged c)))))"

section \<open>Recording the conflicts\<close>

definition sideOf :: "file_map \<Rightarrow> string \<Rightarrow> Side" where
  "sideOf m p = (case m p of Some i \<Rightarrow> \<lparr>sd_Present = True, sd_Blob = BaseID_String i\<rparr> | None \<Rightarrow> \<lparr>sd_Present = False, sd_Blob = []\<rparr>)"

definition sideBlobs :: "cmd_env \<Rightarrow> CommitID \<Rightarrow> file_map cmd" where
  "sideBlobs x c = cbind (reading ''read commit'' (commitTree x c)) (treeBlobs x)"

text \<open>The base, ours and theirs of a merge, as maps from path to blob.\<close>

definition three_maps :: "cmd_env \<Rightarrow> CommitID \<Rightarrow> CommitID \<Rightarrow> (file_map \<times> file_map \<times> file_map) cmd" where
  "three_maps x our their =
     cbind (reading ''find merge base'' (\<lambda>fs. MergeBase (x_read x fs) our their)) (\<lambda>base.
     cbind (sideBlobs x base) (\<lambda>b. cbind (sideBlobs x our) (\<lambda>u. cbind (sideBlobs x their) (\<lambda>t. cret (b, u, t)))))"

definition conflict_entry :: "file_map \<Rightarrow> file_map \<Rightarrow> file_map \<Rightarrow> string \<Rightarrow> CEntry" where
  "conflict_entry b u t p =
     \<lparr>cf_Path = p, cf_Kind = (if sd_Present (sideOf u p) \<noteq> sd_Present (sideOf t p) then KindModifyDelete else KindContent),
      cf_Base = sideOf b p, cf_Ours = sideOf u p, cf_Theirs = sideOf t p, cf_Resolved = False\<rparr>"

definition mergeTouchedPaths :: "cmd_env \<Rightarrow> Index \<Rightarrow> file_map \<Rightarrow> string list" where
  "mergeTouchedPaths x idx headMap =
     (let idxMap = fold (\<lambda>e m. if ie_State e = StateDeleted then m else m(ie_Path e \<mapsto> ie_ObjectID e)) (Entries idx) Map.empty
      in sort_by id (x_ord x {p \<in> dom idxMap \<union> dom headMap. idxMap p \<noteq> headMap p}))"

definition new_record :: "string \<Rightarrow> string \<Rightarrow> CEntry list \<Rightarrow> string list \<Rightarrow> MState" where
  "new_record ourLabel theirLabel es touched =
     \<lparr>ms_Version = ms_version, ms_OurLabel = ourLabel, ms_TheirLabel = theirLabel, ms_Entries = es, ms_MergeTouched = touched\<rparr>"

definition writeConflictSidecar :: "cmd_env \<Rightarrow> CommitID \<Rightarrow> CommitID \<Rightarrow> string \<Rightarrow> string \<Rightarrow> string list \<Rightarrow> unit cmd" where
  "writeConflictSidecar x our their ourLabel theirLabel conflicts =
     cbind (three_maps x our their) (\<lambda>(b, u, t).
     cbind get_state (\<lambda>s.
     cbind (on_fs ''record conflicts'' (MState_Write (x_json x) (x_io x) (x_vara x)
        (new_record ourLabel theirLabel (map (conflict_entry b u t) conflicts) (mergeTouchedPaths x (r_idx s) u)))) (\<lambda>_. cret ())))"

text \<open>One conflicted path: \<open>None\<close> when it is settled.\<close>

definition refine_path ::
    "'a menv \<Rightarrow> cmd_env \<Rightarrow> Config option \<Rightarrow> string \<Rightarrow> string \<Rightarrow> MarkerStyle \<Rightarrow> file_map \<Rightarrow> file_map \<Rightarrow> file_map \<Rightarrow> string \<Rightarrow> CEntry option cmd" where
  "refine_path me x cfg ourLabel theirLabel style b u t p =
     (let e = conflict_entry b u t p in
      if cf_Kind e = KindModifyDelete then cret (Some e)
      else
        cbind (read_sides x e) (\<lambda>(bb, ub, tb).
        if IsBinary bb \<or> IsBinary ub \<or> IsBinary tb then cbind (restageResolved x p ub) (\<lambda>_. cret (Some e))
        else
          let lines = cbind (lift_pure (Render bb ub tb ourLabel theirLabel style)) (\<lambda>(merged, stats).
                cbind (restageResolved x p merged) (\<lambda>_. cret (if Remaining stats = 0 then None else Some e)))
          in case structural me cfg p bb ub tb ourLabel theirLabel of
               None \<Rightarrow> lines
             | Some r \<Rightarrow>
                 if sr_ParseOK r \<and> sr_Conflicts r = 0 then cbind (restageResolved x p (sr_Merged r)) (\<lambda>_. cret None)
                 else if sr_ParseOK r \<and> sr_Rendered r then cbind (restageResolved x p (sr_Merged r)) (\<lambda>_. cret (Some e))
                 else lines))"

fun refine_paths ::
    "'a menv \<Rightarrow> cmd_env \<Rightarrow> Config option \<Rightarrow> string \<Rightarrow> string \<Rightarrow> MarkerStyle \<Rightarrow> file_map \<Rightarrow> file_map \<Rightarrow> file_map \<Rightarrow> string list \<Rightarrow> CEntry list cmd" where
  "refine_paths me x cfg ol thl style b u t [] = cret []"
| "refine_paths me x cfg ol thl style b u t (p # ps) =
     cbind (refine_path me x cfg ol thl style b u t p) (\<lambda>r.
     cbind (refine_paths me x cfg ol thl style b u t ps) (\<lambda>es. cret (case r of None \<Rightarrow> es | Some e \<Rightarrow> e # es)))"

definition refineConflicts :: "'a menv \<Rightarrow> cmd_env \<Rightarrow> CommitID \<Rightarrow> CommitID \<Rightarrow> string \<Rightarrow> string \<Rightarrow> string list \<Rightarrow> MarkerStyle \<Rightarrow> MState cmd" where
  "refineConflicts me x our their ourLabel theirLabel conflicts style =
     cbind (three_maps x our their) (\<lambda>(b, u, t).
     cbind get_state (\<lambda>s0.
     cbind (refine_paths me x (loadConfig me x (r_fs s0)) ourLabel theirLabel style b u t conflicts) (\<lambda>es.
     cbind get_state (\<lambda>s1. cret (new_record ourLabel theirLabel es (mergeTouchedPaths x (r_idx s1) u))))))"

section \<open>The merge\<close>

definition merge_inputs :: "cmd_env \<Rightarrow> CommitID \<Rightarrow> CommitID \<Rightarrow> string \<Rightarrow> string \<Rightarrow> Inputs" where
  "merge_inputs x our their ourLabel theirLabel =
     \<lparr>in_zstd = x_zstd x, in_io = x_io x, in_rm = x_rm x, in_VaraDir = x_vara x, in_RootDir = x_root x,
      OurCommit = our, TheirCommit = their, OurLabel = ourLabel, TheirLabel = theirLabel\<rparr>"

definition run_engine :: "cmd_env \<Rightarrow> Inputs \<Rightarrow> Output cmd" where
  "run_engine x inp s =
     (case Merge (x_ord x) (x_depth x) (x_retries x) inp \<lparr>mg_fs = r_fs s, mg_idx = r_idx s\<rparr> of
        None \<Rightarrow> None
      | Some Panic \<Rightarrow> Some (s, Inl CPanic)
      | Some (Done (st, Inl _)) \<Rightarrow> Some (s\<lparr>r_fs := mg_fs st, r_idx := mg_idx st\<rparr>, Inl (CErr ''merge''))
      | Some (Done (st, Inr out)) \<Rightarrow> Some (s\<lparr>r_fs := mg_fs st, r_idx := mg_idx st\<rparr>, Inr out))"

definition concludeMerge :: "cmd_env \<Rightarrow> CommitID \<Rightarrow> CommitID \<Rightarrow> string \<Rightarrow> bool \<Rightarrow> CommitID cmd" where
  "concludeMerge x our their theirLabel clearMergeHead =
     cbind (set_state x StateVerify) (\<lambda>_.
     cbind (build_tree x) (\<lambda>t.
     cbind (commitAuthor x) (\<lambda>author.
     cbind (build_commit x t [our, their] author (''Merge branch '' @ quoted theirLabel)) (\<lambda>c.
     cbind (ctx_writeIndex x) (\<lambda>_.
     cbind (cwhen clearMergeHead (cbind (on_fs ''clear MERGE_HEAD'' (ClearMergeHead (x_rm x) (x_vara x))) (\<lambda>_.
        quietly (\<lambda>fs. fst (MState_Clear (x_rm x) (x_vara x) fs))))) (\<lambda>_.
     cbind (advanceRef x c) (\<lambda>_.
     cbind (track_ref ''HEAD'' (BaseID_String c)) (\<lambda>_.
     cbind (appendReflog x our c (''merge '' @ theirLabel @ '': Merge made by '' @ quoted ''recursive'')) (\<lambda>_.
     cbind (commit_txn x) (\<lambda>_.
     cbind (quietly (Invalidate (x_vara x))) (\<lambda>_. cret c)))))))))))"

text \<open>What happens inside the transaction; the policy runs after it has been committed.\<close>

datatype txn_out = Finished merge_out | Recorded MState

definition conflict_body :: "'a menv \<Rightarrow> cmd_env \<Rightarrow> CommitID \<Rightarrow> CommitID \<Rightarrow> string \<Rightarrow> string \<Rightarrow> string list \<Rightarrow> txn_out cmd" where
  "conflict_body me x our their ourLabel theirLabel conflicts =
     cbind get_state (\<lambda>s0. (\<lambda>s.
       case refineConflicts me x our their ourLabel theirLabel conflicts (configuredMarkerStyle me x (r_fs s0)) s of
         None \<Rightarrow> None
       | Some (s1, Inl CPanic) \<Rightarrow> Some (s1, Inl CPanic)
       | Some (s1, Inl (CErr _)) \<Rightarrow>
           cbind (ctx_writeIndex x) (\<lambda>_.
           cbind (\<lambda>s2. case writeConflictSidecar x our their ourLabel theirLabel conflicts s2 of
                     None \<Rightarrow> None | Some (s3, Inl CPanic) \<Rightarrow> Some (s3, Inl CPanic) | Some (s3, _) \<Rightarrow> Some (s3, Inr ())) (\<lambda>_.
           cbind (commit_txn x) (\<lambda>_. cret (Finished (StillConflicted conflicts))))) s1
       | Some (s1, Inr st) \<Rightarrow>
           (if ms_Entries st = [] then cbind (concludeMerge x our their theirLabel True) (\<lambda>c. cret (Finished (AutoMerged c)))
            else
              cbind (ctx_writeIndex x) (\<lambda>_.
              cbind (quietly (\<lambda>fs. fst (MState_Write (x_json x) (x_io x) (x_vara x) st fs))) (\<lambda>_.
              cbind (commit_txn x) (\<lambda>_. cret (Recorded st))))) s1))"

definition forward_body :: "cmd_env \<Rightarrow> CommitID \<Rightarrow> string \<Rightarrow> CommitID \<Rightarrow> txn_out cmd" where
  "forward_body x our theirLabel new =
     cbind (ctx_writeIndex x) (\<lambda>_.
     cbind (set_state x StateVerify) (\<lambda>_.
     cbind (advanceRef x new) (\<lambda>_.
     cbind (track_ref ''HEAD'' (BaseID_String new)) (\<lambda>_.
     cbind (appendReflog x our new (''merge '' @ theirLabel @ '': Fast-forward'')) (\<lambda>_.
     cbind (commit_txn x) (\<lambda>_.
     cbind (quietly (Invalidate (x_vara x))) (\<lambda>_. cret (Finished (FastForwarded new)))))))))"

definition merge_body :: "'a menv \<Rightarrow> cmd_env \<Rightarrow> CommitID \<Rightarrow> CommitID \<Rightarrow> string \<Rightarrow> txn_out cmd" where
  "merge_body me x our their theirLabel =
     cbind (set_state x StateExecute) (\<lambda>_.
     cbind (symbolic x ''HEAD'') (\<lambda>cur.
     let ourLabel = (case cur of Inl _ \<Rightarrow> ''HEAD'' | Inr r \<Rightarrow> TrimPrefix r ''refs/heads/'') in
     cbind (run_engine x (merge_inputs x our their ourLabel theirLabel)) (\<lambda>out.
     case Result_kind out of
       Conflict \<Rightarrow> conflict_body me x our their ourLabel theirLabel (Conflicts out)
     | FastForward \<Rightarrow> forward_body x our theirLabel (NewCommitID out)
     | Success \<Rightarrow> cbind (concludeMerge x our their theirLabel False) (\<lambda>c. cret (Finished (MergeCommitted c))))))"

definition checkoutCommit :: "cmd_env \<Rightarrow> CommitID \<Rightarrow> unit cmd" where
  "checkoutCommit x c =
     cbind (reading ''read commit'' (commitTree x c)) (\<lambda>t.
     cbind (checkout_new x t) (\<lambda>newIdx.
     cbind (put_index newIdx) (\<lambda>_. ctx_writeIndex x)))"

definition fastForwardUnborn :: "cmd_env \<Rightarrow> string \<Rightarrow> CommitID \<Rightarrow> string \<Rightarrow> merge_out cmd" where
  "fastForwardUnborn x headRef their theirLabel =
     cbind get_state (\<lambda>s.
     if Entries (r_idx s) \<noteq> [] then cfail ''you have staged files but no commit yet''
     else
       cbind (reading ''merge'' (commitTree x their)) (\<lambda>tree.
       cbind (treeBlobs x tree) (\<lambda>blobs.
       if \<exists>p \<in> dom blobs. \<exists>d. r_fs s (wpath x p) = Some d \<and> Some (BlobHash d) \<noteq> blobs p then cfail ''pulling would overwrite your local files''
       else
         with_txn x ''merge'' (
           cbind (set_state x StateExecute) (\<lambda>_.
           cbind (checkoutCommit x their) (\<lambda>_.
           cbind (update_ref x headRef their) (\<lambda>_.
           cbind (appendReflog x 0 their (''merge '' @ theirLabel @ '': Fast-forward'')) (\<lambda>_.
           cbind (quietly (Invalidate (x_vara x))) (\<lambda>_.
           cbind (commit_txn x) (\<lambda>_. cret (FastForwarded their))))))))))) "

definition MergeIntoHEADWith :: "'a menv \<Rightarrow> cmd_env \<Rightarrow> CommitID \<Rightarrow> string \<Rightarrow> MergeOptions \<Rightarrow> merge_out cmd" where
  "MergeIntoHEADWith me x their theirLabel opts =
     cbind (resolve x ''HEAD'') (\<lambda>h.
     case h of
       Inl _ \<Rightarrow>
         cbind (symbolic x ''HEAD'') (\<lambda>cur.
         case cur of
           Inr headRef \<Rightarrow> fastForwardUnborn x headRef their theirLabel
         | Inl _ \<Rightarrow> cfail ''HEAD is not a valid commit; nothing to merge into'')
     | Inr our \<Rightarrow>
         cbind (snapshot x ''merge'' (BaseID_String our)) (\<lambda>_.
         cbind (with_txn x ''merge'' (merge_body me x our their theirLabel)) (\<lambda>r.
         case r of Finished out \<Rightarrow> cret out | Recorded st \<Rightarrow> applyMergePolicy me x st opts)))"

definition RunMergeWith :: "'a menv \<Rightarrow> cmd_env \<Rightarrow> string \<Rightarrow> MergeOptions \<Rightarrow> merge_out cmd" where
  "RunMergeWith me x branchName opts =
     (if branchName = [] then cfail ''branch name required''
      else if ValidateName branchName \<noteq> None then cfail ''invalid branch name''
      else
        cbind (resolve x (''refs/heads/'' @ branchName)) (\<lambda>r.
        case r of
          Inl _ \<Rightarrow> cfail ''branch not found''
        | Inr their \<Rightarrow> MergeIntoHEADWith me x their branchName opts))"

definition RunMerge :: "'a menv \<Rightarrow> cmd_env \<Rightarrow> string \<Rightarrow> merge_out cmd" where
  "RunMerge me x branchName = RunMergeWith me x branchName \<lparr>mo_Strategy = None, mo_Manual = False\<rparr>"

section \<open>Steps that only add objects and change the working tree\<close>

definition grows :: "cmd_env \<Rightarrow> fs \<Rightarrow> fs \<Rightarrow> bool" where
  "grows x fs fs' \<longleftrightarrow> (\<forall>a. meta_path x a \<longrightarrow> fs' a = fs a) \<and> keeps (x_read x fs) (x_read x fs')
     \<and> (zstd_ok (x_zstd x) \<longrightarrow> store_ok (x_zstd x) (x_store x) fs \<longrightarrow> store_ok (x_zstd x) (x_store x) fs')"

lemma grows_refl [simp]: "grows x fs fs" by (simp add: grows_def)

lemma grows_trans: "grows x a b \<Longrightarrow> grows x b c \<Longrightarrow> grows x a c"
  using keeps_trans by (auto simp: grows_def)

lemma grows_work: "outside x p \<Longrightarrow> grows x fs (fs(wpath x p := v))"
proof -
  assume o: "outside x p"
  have "object_path (x_store x) i \<noteq> wpath x p" for i using o object_under [of x i] by (metis outside_def)
  moreover have "meta_path x a \<Longrightarrow> a \<noteq> wpath x p" for a using o meta_under by (auto simp: outside_def)
  ultimately show ?thesis using read_outside [OF o, of fs v] by (auto simp: grows_def store_ok_def x_read_def [abs_def])
qed

lemma grows_store:
  assumes "Store_Write (x_zstd x) io (x_store x) obj fs = (fs', r)" "wf_object obj"
  shows "grows x fs fs'"
proof -
  have "fs' a = fs a" if "meta_path x a" for a using Store_Write_only_objects [OF meta_not_object_file [OF that], of "x_zstd x" io obj fs] assms(1) by simp
  moreover have "fs' (object_path (x_store x) i) = fs (object_path (x_store x) i)" if "fs (object_path (x_store x) i) \<noteq> None" for i
    using Store_Write_object_files [OF assms(1), of i] that by auto
  then have "keeps (x_read x fs) (x_read x fs')" by (force simp: keeps_def x_read_def Store_Read_Inr)
  ultimately show ?thesis using Store_Write_extends [OF _ _ assms(2,1)] by (simp add: grows_def)
qed

lemma inputs_are [simp]:
  "reader_at (merge_inputs x our their ol thl) = x_read x" "absPath (merge_inputs x our their ol thl) = wpath x" "in_store (merge_inputs x our their ol thl) = x_store x"
  "in_zstd (merge_inputs x our their ol thl) = x_zstd x" "OurCommit (merge_inputs x our their ol thl) = our" "TheirCommit (merge_inputs x our their ol thl) = their"
  "Inputs.OurLabel (merge_inputs x our their ol thl) = ol" "Inputs.TheirLabel (merge_inputs x our their ol thl) = thl"
  by (auto simp: merge_inputs_def reader_at_def x_read_def in_store_def x_store_def absPath_def wpath_def fun_eq_iff)

lemma outside_store_iff: "outside x p \<Longrightarrow> outside_store (merge_inputs x our their ol thl) p"
  unfolding outside_store_def inputs_are using object_under [of x] by (metis outside_def)

lemma grows_put: "outside x p \<Longrightarrow> grows x fs (fst (put_file inp (wpath x p) d fs))"
  using grows_work by (auto simp: put_file_def os_WriteFile_def)

lemma grows_remove: "outside x p \<Longrightarrow> grows x fs (os_Remove (wpath x p) fs)"
  using grows_work by (simp add: os_Remove_def)

lemma grows_path:
  assumes "merge_path n (merge_inputs x our their ol thl) bt oc tc p st = Some (Done (st', r))" "outside x p"
  shows "grows x (mg_fs st) (mg_fs st')"
proof -
  let ?inp = "merge_inputs x our their ol thl"
  have a: "grows x (mg_fs st) (mg_fs (fst (applyChange ?inp p fc st)))" for fc
    using grows_put [OF assms(2), of "mg_fs st" ?inp] grows_remove [OF assms(2)]
    by (auto simp: applyChange_def Let_def split: prod.splits sum.splits) (metis fst_conv)+
  have b: "grows x (mg_fs st) (mg_fs st')" if mc: "mergeFileContent n ?inp p bt ob tb st = Some (Done (st', r))" for ob tb
  proof -
    have put: "put_file ?inp (wpath x p) d (mg_fs st) = (f, r') \<Longrightarrow> grows x (mg_fs st) f" for d f r'
      using grows_put [OF assms(2), of "mg_fs st" ?inp d] by simp
    have "put_file ?inp (wpath x p) d (mg_fs st) = (f, r') \<Longrightarrow> Store_Write (x_zstd x) (in_io ?inp) (x_store x) (Blob d) f = (f', r'') \<Longrightarrow> grows x (mg_fs st) f'" for d f r' f' r''
      using grows_trans [OF put grows_store] by simp
    then show ?thesis using mc put by (auto simp: mergeFileContent_def Let_def split: option.splits outcome.splits prod.splits sum.splits)
  qed
  have c: "st' = fst (applyChange ?inp p fc st)"
    if "(case applyChange ?inp p fc st of (st', r) \<Rightarrow> Some (Done (st', bind_res r (\<lambda>_. Inr False)))) = Some (Done (st', r))" for fc
    using that by (auto split: prod.splits)
  show ?thesis
    using assms(1) a b c by (cases oc; cases tc) (auto simp: merge_path_def Let_def split: if_splits)
qed

lemma grows_paths:
  "merge_paths n (merge_inputs x our their ol thl) bt ours theirs ps cs st = Some (Done (st', r)) \<Longrightarrow> \<forall>p \<in> set ps. outside x p \<Longrightarrow> grows x (mg_fs st) (mg_fs st')"
proof (induction ps arbitrary: cs st)
  case (Cons p ps)
  then obtain st1 r1 where m: "merge_path n (merge_inputs x our their ol thl) bt (ours p) (theirs p) p st = Some (Done (st1, r1))"
    by (auto split: option.splits outcome.splits)
  have g: "grows x (mg_fs st) (mg_fs st1)" using grows_path [OF m] Cons.prems(2) by simp
  show ?case
  proof (cases r1)
    case (Inl e)
    then show ?thesis using Cons.prems(1) m g by simp
  next
    case (Inr c)
    then show ?thesis using Cons.prems Cons.IH m grows_trans [OF g] by simp
  qed
qed simp

section \<open>A merge without conflicts\<close>

lemma threeWay_steps:
  assumes "threeWay ord n retries inp base st = Some (Done (st', Inr out))" "Conflicts out = []"
    and "readCommit (reader_at inp (mg_fs st)) base = Inr cb" "readCommit (reader_at inp (mg_fs st)) (OurCommit inp) = Inr cu"
      "readCommit (reader_at inp (mg_fs st)) (TheirCommit inp) = Inr ct"
  obtains d1 d2 where "DiffTrees ord n (reader_at inp (mg_fs st)) (TreeHash cb) (TreeHash cu) = Some (Inr d1)"
    "DiffTrees ord n (reader_at inp (mg_fs st)) (TreeHash cb) (TreeHash ct) = Some (Inr d2)"
    "merge_paths n inp (TreeHash cb) (change_map d1) (change_map d2) (ord (dom (change_map d1) \<union> dom (change_map d2))) [] st = Some (Done (st', Inr []))"
proof -
  obtain d1 d2 stp where d: "DiffTrees ord n (reader_at inp (mg_fs st)) (TreeHash cb) (TreeHash cu) = Some (Inr d1)"
    "DiffTrees ord n (reader_at inp (mg_fs st)) (TreeHash cb) (TreeHash ct) = Some (Inr d2)"
    "merge_paths n inp (TreeHash cb) (change_map d1) (change_map d2) (ord (dom (change_map d1) \<union> dom (change_map d2))) [] st = Some (Done (stp, Inr []))"
    using assms(1) by (elim threeWay_Inr) (use assms(2-5) in auto)
  then have "finish_merge retries inp [] stp = (st', Inr out)" using assms(1,3-5) by (simp add: threeWay_def Let_def)
  then have "st' = stp" by (simp add: finish_merge_def)
  with d show thesis by (intro that) auto
qed

text \<open>The three sides of a merge: their trees can be read, their blobs too, and none of their files lies in the repository directory.\<close>

definition sides :: "cmd_env \<Rightarrow> fs \<Rightarrow> CommitID \<Rightarrow> CommitID \<Rightarrow> CommitID \<Rightarrow> file_map \<Rightarrow> file_map \<Rightarrow> file_map \<Rightarrow> bool" where
  "sides x fs base our their b u t \<longleftrightarrow>
     (\<exists>cb cu ct. readCommit (x_read x fs) base = Inr cb \<and> readCommit (x_read x fs) our = Inr cu \<and> readCommit (x_read x fs) their = Inr ct
       \<and> tree_map (x_depth x) (x_read x fs) (TreeHash cb) = Some (Inr b) \<and> tree_map (x_depth x) (x_read x fs) (TreeHash cu) = Some (Inr u)
       \<and> tree_map (x_depth x) (x_read x fs) (TreeHash ct) = Some (Inr t))
     \<and> (\<forall>p h. b p = Some h \<or> u p = Some h \<or> t p = Some h \<longrightarrow> h \<noteq> 0 \<and> (\<exists>d. x_read x fs h = Inr (Blob d)) \<and> outside x p)"

text \<open>What the merged files are: what the abstract merge decides, or a line merge that left no conflict.\<close>

definition merged_file :: "reader \<Rightarrow> string \<Rightarrow> string \<Rightarrow> BlobID option \<Rightarrow> BlobID option \<Rightarrow> BlobID option \<Rightarrow> BlobID option \<Rightarrow> bool" where
  "merged_file rd ol thl b u t m \<longleftrightarrow>
     (case merge3 b u t of
        Some v \<Rightarrow> m = v
      | None \<Rightarrow> \<exists>bb ub tb merged. b = Some bb \<and> u = Some ub \<and> t = Some tb
          \<and> ThreeWayMerge (readBlobData rd bb) (readBlobData rd ub) (readBlobData rd tb) ol thl = Some (Done (merged, False)) \<and> m = Some (BlobHash merged))"

lemma engine_success:
  assumes "Merge (x_ord x) (x_depth x) (x_retries x) (merge_inputs x our their ol thl) st = Some (Done (st', Inr out))" "Result_kind out = Success" "key_order (x_ord x)"
    and "MergeBase (x_read x (mg_fs st)) our their = Inr base" "sides x (mg_fs st) base our their b u t" "index_map (mg_idx st) = u"
  shows "merged_file (x_read x (mg_fs st)) ol thl (b p) (u p) (t p) (index_map (mg_idx st') p)" "grows x (mg_fs st) (mg_fs st')"
proof -
  let ?inp = "merge_inputs x our their ol thl"
  obtain cb cu ct where c: "readCommit (x_read x (mg_fs st)) base = Inr cb" "readCommit (x_read x (mg_fs st)) our = Inr cu" "readCommit (x_read x (mg_fs st)) their = Inr ct"
    and tr: "tree_map (x_depth x) (x_read x (mg_fs st)) (TreeHash cb) = Some (Inr b)" "tree_map (x_depth x) (x_read x (mg_fs st)) (TreeHash cu) = Some (Inr u)"
      "tree_map (x_depth x) (x_read x (mg_fs st)) (TreeHash ct) = Some (Inr t)" using assms(5) unfolding sides_def by blast
  have bl: "h \<noteq> 0 \<and> (\<exists>d. x_read x (mg_fs st) h = Inr (Blob d)) \<and> outside x p" if "b p = Some h \<or> u p = Some h \<or> t p = Some h" for p h
    using assms(5) that unfolding sides_def by blast
  show "merged_file (x_read x (mg_fs st)) ol thl (b p) (u p) (t p) (index_map (mg_idx st') p)" "grows x (mg_fs st) (mg_fs st')"
  proof (atomize (full), cases "base = their")
    case True
    then have "st' = st" using assms(1,2,4) by (auto simp: Merge_def split: if_splits option.splits prod.splits sum.splits)
    moreover have "b = t" using True c tr by simp
    ultimately show "merged_file (x_read x (mg_fs st)) ol thl (b p) (u p) (t p) (index_map (mg_idx st') p) \<and> grows x (mg_fs st) (mg_fs st')"
      using assms(6) by (auto simp: merged_file_def merge3_def)
  next
    case False
    have tw: "threeWay (x_ord x) (x_depth x) (x_retries x) ?inp base st = Some (Done (st', Inr out))"
      using assms(1,2,4) False by (auto simp: Merge_def split: if_splits option.splits prod.splits sum.splits)
    note sp = three_way_spec [OF tw assms(3), unfolded inputs_are, OF c tr _ assms(6)]
    have cs: "Conflicts out = []" using sp [of p] bl outside_store_iff assms(2) by (metis (no_types, lifting) merge_kind.distinct(1))
    from sp [of p] bl outside_store_iff cs
    have mf: "merged_file (x_read x (mg_fs st)) ol thl (b p) (u p) (t p) (index_map (mg_idx st') p)"
      by (auto simp: merged_file_def split: option.splits)
    obtain d1 d2 where d: "DiffTrees (x_ord x) (x_depth x) (x_read x (mg_fs st)) (TreeHash cb) (TreeHash cu) = Some (Inr d1)"
      "DiffTrees (x_ord x) (x_depth x) (x_read x (mg_fs st)) (TreeHash cb) (TreeHash ct) = Some (Inr d2)"
      "merge_paths (x_depth x) ?inp (TreeHash cb) (change_map d1) (change_map d2) (x_ord x (dom (change_map d1) \<union> dom (change_map d2))) [] st = Some (Done (st', Inr []))"
      using threeWay_steps [OF tw cs, unfolded inputs_are, OF c] .
    have cm: "change_map d1 = change_at b u" "change_map d2 = change_at b t" "finite (dom (change_map d1))" "finite (dom (change_map d2))"
      using DiffTrees_maps [OF d(1) tr(1,2) assms(3)] DiffTrees_maps [OF d(2) tr(1,3) assms(3)] by auto
    have "\<forall>p \<in> set (x_ord x (dom (change_map d1) \<union> dom (change_map d2))). outside x p"
      using cm assms(3) bl unfolding key_order_def by (fastforce simp: change_at_def split: option.splits if_splits)
    then show "merged_file (x_read x (mg_fs st)) ol thl (b p) (u p) (t p) (index_map (mg_idx st') p) \<and> grows x (mg_fs st) (mg_fs st')"
      using mf grows_paths [OF d(3)] by blast
  qed
qed

lemma advance_branch:
  assumes "advanceRef x c s = Some (s', Inr u)" "on_branch x (r_fs s) ref" "clean_dir (x_vara x)"
  shows "on_branch x (r_fs s') ref" "ref_content (x_refs x) (r_fs s') ref = Some (BaseID_String c)" "quiet x (r_fs s) (r_fs s')" "r_idx s' = r_idx s"
proof -
  have sy: "ResolveSymbolic (x_refs x) (r_fs s) ''HEAD'' = Inr ref" "sym_step (x_refs x) (r_fs s) ref = None" using assms(2) by (simp_all add: on_branch_def)
  have "update_ref x ref c s = Some (s', Inr u)" using assms(1) sy(1) by (simp add: advanceRef_def cbind_lookups)
  then obtain fs' where up: "Update_ref (x_io x) (x_retries x) (x_refs x) ref c (r_fs s) = Some (fs', Inr ())" "s' = s\<lparr>r_fs := fs'\<rparr>"
    by (auto simp: update_ref_def split: option.splits sum.splits)
  then have "write_ref (x_io x) (x_retries x) (x_refs x) ref (BaseID_String c @ [LF]) (r_fs s) = (fs', Inr ())"
    using follow_complete [OF leads.stop [OF sy(2)]] by (simp add: Update_ref_def)
  from branch_written [OF this assms(2,3)] up(2)
  show "on_branch x (r_fs s') ref" "ref_content (x_refs x) (r_fs s') ref = Some (BaseID_String c)" "quiet x (r_fs s) (r_fs s')" "r_idx s' = r_idx s" by simp_all
qed

text \<open>The commit a merge records.\<close>

definition merge_commit :: "cmd_env \<Rightarrow> CommitID \<Rightarrow> CommitID \<Rightarrow> string \<Rightarrow> TreeID \<Rightarrow> Commit" where
  "merge_commit x our their theirLabel t =
     \<lparr>TreeHash = t, Parents = [our, their], Author = the (x_author x), Message = ''Merge branch '' @ quoted theirLabel, Timestamp = x_stamp x\<rparr>"

lemma conclude_steps:
  assumes "concludeMerge x our their thl False s = Some (s', Inr c)" "on_branch x (r_fs s) ref" "cmd_ok x"
    and "BuildTree (x_ord x) (x_zstd x) (x_io x) (x_store x) (r_idx s) (r_fs s) = Some (fs1, Inr t)"
  obtains fs2 where "Store_Write (x_zstd x) (x_io x) (x_store x) (CommitObj (merge_commit x our their thl t)) fs1 = (fs2, Inr c)"
    "quiet x fs2 (r_fs s')" "on_branch x (r_fs s') ref" "ref_content (x_refs x) (r_fs s') ref = Some (BaseID_String c)" "r_idx s' = r_idx s"
proof -
  have cl: "clean_dir (x_vara x)" using assms(3) by (simp add: cmd_ok_def)
  from assms(1) obtain a1 a2 a3 a4 a5 a6 a7 a8 author t' u where
    b1: "books s a1" and bt: "build_tree x a1 = Some (a2, Inr t')" and au: "x_author x = Some author"
    and bc: "build_commit x t' [our, their] author (''Merge branch '' @ quoted thl) a2 = Some (a3, Inr c)"
    and wi: "ctx_writeIndex x a3 = Some (a4, Inr u)" and ad: "advanceRef x c a4 = Some (a5, Inr ())" and b2: "books a5 a6"
    and lg: "appendReflog x our c (''merge '' @ thl @ '': Merge made by '' @ quoted ''recursive'') a6 = Some (a7, Inr ())" and b3: "books a7 a8"
    and iv: "s' = a8\<lparr>r_fs := Invalidate (x_vara x) (r_fs a8)\<rparr>"
    unfolding concludeMerge_def by (elim cbindE) (auto dest!: books_steps simp: commitAuthor_def cwhen_def quietly_iff split: option.splits)
  have e1: "r_fs a1 = r_fs s" "r_idx a1 = r_idx s" using b1 by (simp_all add: books_def)
  have a2: "a2 = a1\<lparr>r_fs := fs1\<rparr>" "t' = t" using bt assms(4) e1 by (auto simp: build_tree_def)
  have co: "\<lparr>TreeHash = t, Parents = [our, their], Author = author, Message = ''Merge branch '' @ quoted thl, Timestamp = x_stamp x\<rparr> = merge_commit x our their thl t"
    using au by (simp add: merge_commit_def)
  have w: "Store_Write (x_zstd x) (x_io x) (x_store x) (CommitObj (merge_commit x our their thl t)) fs1 = (r_fs a3, Inr c)" and i3: "r_idx a3 = r_idx s"
    using bc a2 e1 unfolding build_commit_def on_fs_def BuildCommit_def a2(2) co by (auto split: prod.splits sum.splits)
  have meta: "r_fs a3 a = r_fs s a" if "meta_path x a" for a
    using Store_Write_only_objects [OF meta_not_object_file [OF that], of "x_zstd x" "x_io x" "CommitObj (merge_commit x our their thl t)" fs1] w
      BuildTree_frame [OF assms(4) meta_not_object_file [OF that]] by simp
  have o3: "on_branch x (r_fs a3) ref" by (rule on_branch_cong(1) [OF meta [OF ref_file_meta] assms(2) cl]) (use cl in auto)
  note wi' = index_settled [OF wi cl]
  have o4: "on_branch x (r_fs a4) ref" using on_branch_cong(1) [OF _ o3 cl] wi'(1) by (simp add: settled_def)
  note ad' = advance_branch [OF ad o4 cl]
  have e6: "r_fs a6 = r_fs a5" "r_idx a6 = r_idx a5" "r_fs a8 = r_fs a7" "r_idx a8 = r_idx a7" using b2 b3 by (simp_all add: books_def)
  note lg' = log_settled [OF lg, unfolded e6, OF ad'(1) cl]
  have "settled x (r_fs a7) (r_fs s')" using settled_steps(2) [OF cl side_names(2)] by (simp add: iv e6 Invalidate_def os_Remove_def index_path_def)
  then have st: "settled x (r_fs a5) (r_fs s')" using lg'(1) settled_trans by blast
  have o': "on_branch x (r_fs s') ref" using on_branch_cong(1) [OF _ ad'(1) cl] st by (simp add: settled_def)
  have rc: "ref_content (x_refs x) (r_fs s') ref = Some (BaseID_String c)" using ad'(2) branch_names(2) [OF ad'(1) cl] st by (simp add: settled_def ref_content_def)
  have q: "quiet x (r_fs a3) (r_fs s')" using wi'(1) ad'(3) st quiet_trans unfolding settled_def by meson
  have "r_idx s' = r_idx s" using iv e6 lg'(2) ad'(4) wi'(2) i3 by simp
  then show thesis by (rule that [OF w q o' rc])
qed

lemma forward_not_committed: "forward_body x our thl n s \<noteq> Some (s', Inr (Finished (MergeCommitted c)))"
proof
  assume "forward_body x our thl n s = Some (s', Inr (Finished (MergeCommitted c)))"
  then show False unfolding forward_body_def by (elim cbindE) (simp add: cret_def)
qed

lemma conflict_not_committed: "conflict_body me x our their ol thl cs s \<noteq> Some (s', Inr (Finished (MergeCommitted c)))"
proof
  assume "conflict_body me x our their ol thl cs s = Some (s', Inr (Finished (MergeCommitted c)))"
  then show False
    unfolding conflict_body_def cbind_lookups
    by (auto elim!: cbindE simp: cret_def split: option.splits prod.splits sum.splits cmd_error.splits if_splits)
qed

lemma merge_body_clean:
  assumes "merge_body me x our their thl s = Some (s', Inr (Finished (MergeCommitted c)))" "on_branch x (r_fs s) ref"
    and "Merge (x_ord x) (x_depth x) (x_retries x) (merge_inputs x our their (TrimPrefix ref ''refs/heads/'') thl) \<lparr>mg_fs = r_fs s, mg_idx = r_idx s\<rparr> = Some (Done (st, Inr out))"
  obtains s1 where "books s s1" "Result_kind out = Success"
    "concludeMerge x our their thl False (s1\<lparr>r_fs := mg_fs st, r_idx := mg_idx st\<rparr>) = Some (s', Inr c)"
proof -
  have sy: "ResolveSymbolic (x_refs x) (r_fs s) ''HEAD'' = Inr ref" using assms(2) by (simp add: on_branch_def)
  let ?inp = "merge_inputs x our their (TrimPrefix ref ''refs/heads/'') thl"
  obtain s1 where s1: "books s s1" "cbind (run_engine x ?inp) (\<lambda>out. case Result_kind out of
       Conflict \<Rightarrow> conflict_body me x our their (TrimPrefix ref ''refs/heads/'') thl (Conflicts out)
     | FastForward \<Rightarrow> forward_body x our thl (NewCommitID out)
     | Success \<Rightarrow> cbind (concludeMerge x our their thl False) (\<lambda>c. cret (Finished (MergeCommitted c)))) s1 = Some (s', Inr (Finished (MergeCommitted c)))"
  proof -
    obtain s1 where s1: "books s s1" "cbind (symbolic x ''HEAD'') (\<lambda>cur. let ourLabel = (case cur of Inl _ \<Rightarrow> ''HEAD'' | Inr r \<Rightarrow> TrimPrefix r ''refs/heads/'') in
     cbind (run_engine x (merge_inputs x our their ourLabel thl)) (\<lambda>out. case Result_kind out of
       Conflict \<Rightarrow> conflict_body me x our their ourLabel thl (Conflicts out)
     | FastForward \<Rightarrow> forward_body x our thl (NewCommitID out)
     | Success \<Rightarrow> cbind (concludeMerge x our their thl False) (\<lambda>c. cret (Finished (MergeCommitted c))))) s1 = Some (s', Inr (Finished (MergeCommitted c)))"
      using assms(1) unfolding merge_body_def by (elim cbindE [of "set_state x StateExecute"]) (auto dest!: books_steps)
    then have "ResolveSymbolic (x_refs x) (r_fs s1) ''HEAD'' = Inr ref" using sy by (simp add: books_def)
    then show thesis using s1 that unfolding cbind_lookups by (simp add: Let_def)
  qed
  have "run_engine x ?inp s1 = Some (s1\<lparr>r_fs := mg_fs st, r_idx := mg_idx st\<rparr>, Inr out)" using s1(1) assms(3) by (simp add: run_engine_def books_def)
  then have r: "(case Result_kind out of
       Conflict \<Rightarrow> conflict_body me x our their (TrimPrefix ref ''refs/heads/'') thl (Conflicts out)
     | FastForward \<Rightarrow> forward_body x our thl (NewCommitID out)
     | Success \<Rightarrow> cbind (concludeMerge x our their thl False) (\<lambda>c. cret (Finished (MergeCommitted c)))) (s1\<lparr>r_fs := mg_fs st, r_idx := mg_idx st\<rparr>) = Some (s', Inr (Finished (MergeCommitted c)))"
    using s1(2) by (simp add: cbind_def)
  show thesis
  proof (cases "Result_kind out")
    case Success
    then show thesis using r by (intro that [OF s1(1)]) (auto elim!: cbindE simp: cret_def)
  next
    case Conflict
    then show thesis using r by (simp add: conflict_not_committed)
  next
    case FastForward
    then show thesis using r forward_not_committed by simp
  qed
qed


text \<open>When the system calls work, a clean merge is recorded.\<close>

lemma conclude_runs:
  assumes "works x" "on_branch x (r_fs s) ref" "x_author x = Some author"
    and "BuildTree (x_ord x) (x_zstd x) (x_io x) (x_store x) (r_idx s) (r_fs s) = Some (fs1, Inr t)"
  shows "runs (concludeMerge x our their thl False) s (\<lambda>_ _. True)"
proof -
  have cl: "clean_dir (x_vara x)" and io: "x_io x = io_ok" using assms(1) by (simp_all add: works_def cmd_ok_def)
  obtain a1 where a1: "set_state x StateVerify s = Some (a1, Inr ())" "books s a1"
    using always_steps(1) [OF assms(1)] books_steps(1) by (fastforce simp: always_def runs_def)
  let ?co = "CommitObj \<lparr>TreeHash = t, Parents = [our, their], Author = author, Message = ''Merge branch '' @ quoted thl, Timestamp = x_stamp x\<rparr>"
  obtain fs2 c where w: "Store_Write (x_zstd x) (x_io x) (x_store x) ?co fs1 = (fs2, Inr c)" using Store_Write_io_ok io by metis
  have bt: "build_tree x a1 = Some (a1\<lparr>r_fs := fs1\<rparr>, Inr t)" using assms(4) a1(2) by (simp add: build_tree_def books_def)
  have bc: "build_commit x t [our, their] author (''Merge branch '' @ quoted thl) (a1\<lparr>r_fs := fs1\<rparr>) = Some (a1\<lparr>r_fs := fs2\<rparr>, Inr c)"
    using w by (simp add: build_commit_def on_fs_def BuildCommit_def)
  obtain a4 where a4: "ctx_writeIndex x (a1\<lparr>r_fs := fs2\<rparr>) = Some (a4, Inr ())" using always_steps(9) [OF assms(1)] by (fastforce simp: always_def runs_def)
  have "fs2 a = r_fs s a" if "meta_path x a" for a
    using Store_Write_only_objects [OF meta_not_object_file [OF that], of "x_zstd x" "x_io x" ?co fs1] w BuildTree_frame [OF assms(4) meta_not_object_file [OF that]] by simp
  then have "on_branch x fs2 ref" by (intro on_branch_cong(1) [OF _ assms(2) cl]) (simp add: ref_file_meta cl)
  then have ob: "on_branch x (r_fs a4) ref" using on_branch_cong(1) [of x "r_fs a4" fs2 ref] index_settled(1) [OF a4 cl] cl by (simp add: settled_def)
  have sy: "ResolveSymbolic (x_refs x) (r_fs a4) ''HEAD'' = Inr ref" "follow (x_refs x) (r_fs a4) ref = Some ref"
    using ob follow_complete [OF leads.stop] by (simp_all add: on_branch_def)
  have ad: "runs (advanceRef x c) a4 (\<lambda>_ _. True)"
    using write_ref_works [of "x_retries x" "x_refs x" ref "BaseID_String c @ [LF]" "r_fs a4"] io sy
    by (auto simp: runs_def advanceRef_def cbind_lookups update_ref_def Update_ref_def)
  have last: "always (cbind (track_ref ''HEAD'' (BaseID_String c)) (\<lambda>_. cbind (appendReflog x our c (''merge '' @ thl @ '': Merge made by '' @ quoted ''recursive'')) (\<lambda>_.
      cbind (commit_txn x) (\<lambda>_. cbind (quietly (Invalidate (x_vara x))) (\<lambda>_. cret c)))))"
    by (intro always_bind always_steps [OF assms(1)] always_reflog [OF assms(1)])
  show ?thesis
    unfolding concludeMerge_def
    apply (rule runs_after [where m = "set_state x StateVerify", OF a1(1)])
    apply (rule runs_after [where m = "build_tree x", OF bt])
    apply (rule runs_after [where m = "commitAuthor x" and a = author and s' = "a1\<lparr>r_fs := fs1\<rparr>"], simp add: commitAuthor_def assms(3) cret_def)
    apply (rule runs_after [where m = "build_commit x t [our, their] author (''Merge branch '' @ quoted thl)", OF bc])
    apply (rule runs_after [where m = "ctx_writeIndex x", OF a4])
    apply (rule runs_after [where m = "cwhen False m" and a = "()" and s' = a4 for m], simp add: cwhen_def cret_def)
    by (rule runs_then [OF ad last])
qed


text \<open>A branch that is one commit ahead of the branch it merges.\<close>

definition ahead_objects :: fs where
  "ahead_objects = demo_objects(object_path (NewStore ''/w/.vara'') demo_child_id \<mapsto> Serialize demo_child_obj)"

definition ahead_fs :: fs where
  "ahead_fs = ahead_objects(''/w/.vara/HEAD'' \<mapsto> ''ref: refs/heads/main'' @ [LF], ''/w/.vara/refs/heads/main'' \<mapsto> BaseID_String demo_child_id @ [LF])"

definition ahead_state :: rstate where
  "ahead_state = (demo_state ''f'')\<lparr>r_fs := ahead_fs\<rparr>"

lemma ahead_files: "ahead_fs (object_path (NewStore ''/w/.vara'') i) = ahead_objects (object_path (NewStore ''/w/.vara'') i)"
  using length_object_path [of "NewStore ''/w/.vara''" i] by (auto simp: ahead_fs_def NewStore_def)

lemma ahead_file:
  "ahead_fs (object_path (NewStore ''/w/.vara'') i) =
     (if i = demo_blob_id then Some (Serialize demo_blob_obj) else if i = demo_tree_id then Some (Serialize demo_tree_obj)
      else if i = demo_commit_id then Some (Serialize demo_commit_obj) else if i = demo_child_id then Some (Serialize demo_child_obj) else None)"
  unfolding ahead_files ahead_objects_def demo_objects_def by simp

lemma ahead_read:
  "x_read demo_x ahead_fs i =
     (if i = demo_blob_id then Inr demo_blob_obj else if i = demo_tree_id then Inr demo_tree_obj else if i = demo_commit_id then Inr demo_commit_obj
      else if i = demo_child_id then Inr demo_child_obj else Inl ErrObjectNotFound)"
proof -
  have wf: "wf_object demo_blob_obj" "wf_object demo_tree_obj" "wf_object demo_commit_obj" "wf_object demo_child_obj"
    by (simp_all add: demo_blob_obj_def demo_tree_obj_def demo_commit_obj_def demo_child_obj_def)
  have st: "x_store demo_x = NewStore ''/w/.vara''" by (simp add: x_store_def)
  show ?thesis
    unfolding x_read_def Store_Read_def st ahead_file
    using wf demo_ids objects.dec_enc by (simp add: zstd_id_def demo_blob_hash demo_tree_hash demo_commit_hash demo_child_hash)
qed


lemma ahead_branch: "on_branch demo_x ahead_fs ''refs/heads/main''"
proof -
  have o: "ahead_objects a = None" if "length a < 70" for a
    using that length_object_path [of "NewStore ''/w/.vara''"] by (auto simp: ahead_objects_def demo_objects_def NewStore_def)
  have "ref_content (x_refs demo_x) ahead_fs ''HEAD'' = Some ''ref: refs/heads/main''" "ref_content (x_refs demo_x) ahead_fs ''refs/heads/main'' = Some (BaseID_String demo_child_id)"
    using sample_trim by (simp_all add: ref_content_def demo_paths ahead_fs_def)
  then show ?thesis
    by (simp add: on_branch_def ResolveSymbolic_def sym_step_def plain_name_def Split_def demo_paths ahead_fs_def o) (simp add: ref_prefix_def HasPrefix_def TrimPrefix_def)
qed

lemma demo_nonzero: "demo_blob_id \<noteq> 0" "demo_tree_id \<noteq> 0" "demo_commit_id \<noteq> 0" "demo_child_id \<noteq> 0"
proof -
  have "be_bytes n 0 = replicate n NUL" for n by (induction n) (simp_all add: char_of_def)
  then have "hd (word_bytes (0 :: BaseID)) = NUL" by (simp add: word_bytes_def)
  then show "demo_blob_id \<noteq> 0" "demo_tree_id \<noteq> 0" "demo_commit_id \<noteq> 0" "demo_child_id \<noteq> 0"
    using demo_merge_bytes by (auto simp: demo_blob_digest_def demo_tree_digest_def demo_commit_digest_def demo_child_digest_def)
qed

lemmas demo_merge_ids_sym [simp] = demo_merge_ids [symmetric]

lemma ahead_commits:
  "readCommit (x_read demo_x ahead_fs) demo_commit_id = Inr \<lparr>TreeHash = demo_tree_id, Parents = [], Author = ''a'', Message = ''m'', Timestamp = 7\<rparr>"
  "readCommit (x_read demo_x ahead_fs) demo_child_id = Inr \<lparr>TreeHash = demo_tree_id, Parents = [demo_commit_id], Author = ''a'', Message = ''n'', Timestamp = 7\<rparr>"
  by (simp_all add: readCommit_iff ahead_read demo_commit_obj_def demo_child_obj_def)

lemma ahead_base: "MergeBase (x_read demo_x ahead_fs) demo_child_id demo_commit_id = Inr demo_commit_id"
  by (simp add: MergeBase_def collectAncestors_def ahead_commits)

lemma ahead_sides: "sides demo_x ahead_fs demo_commit_id demo_child_id demo_commit_id [''f'' \<mapsto> demo_blob_id] [''f'' \<mapsto> demo_blob_id] [''f'' \<mapsto> demo_blob_id]"
proof -
  have "readTree (x_read demo_x ahead_fs) demo_tree_id = Inr [\<lparr>te_Mode = 33188, te_Hash = demo_blob_id, te_Name = ''f''\<rparr>]"
    by (simp add: readTree_iff ahead_read demo_tree_obj_def)
  then have "tree_map (x_depth demo_x) (x_read demo_x ahead_fs) demo_tree_id = Some (Inr [''f'' \<mapsto> demo_blob_id])"
    by (simp add: tree_map_def demo_nonzero collectFiles.simps collect_entries.simps modeSubtree_def)
  then show ?thesis by (auto simp: sides_def ahead_commits ahead_read demo_blob_obj_def demo_outside demo_nonzero split: if_splits)
qed


lemma ahead_store: "store_ok zstd_id (x_store demo_x) ahead_fs" "readable zstd_id (x_store demo_x) ahead_fs \<subseteq> {demo_blob_obj, demo_tree_obj, demo_commit_obj, demo_child_obj}"
proof -
  have st: "x_store demo_x = NewStore ''/w/.vara''" by (simp add: x_store_def)
  have rd: "Store_Read zstd_id (x_store demo_x) ahead_fs i =
     (if i = demo_blob_id then Inr demo_blob_obj else if i = demo_tree_id then Inr demo_tree_obj else if i = demo_commit_id then Inr demo_commit_obj
      else if i = demo_child_id then Inr demo_child_obj else Inl ErrObjectNotFound)" for i
    using ahead_read [of i] by (simp add: x_read_def)
  note rd = rd [unfolded st]
  show "store_ok zstd_id (x_store demo_x) ahead_fs" "readable zstd_id (x_store demo_x) ahead_fs \<subseteq> {demo_blob_obj, demo_tree_obj, demo_commit_obj, demo_child_obj}"
    by (auto simp: store_ok_def readable_def rd st ahead_file split: if_splits)
qed

lemma ahead_index: "r_fs ahead_state = ahead_fs" "index_map (r_idx ahead_state) = [''f'' \<mapsto> demo_blob_id]" "clash_free_index (r_idx ahead_state)"
  "BuildFromIndex (r_idx ahead_state) = Some (DirNode [(''f'', BlobNode demo_blob_id blobMode)])"
  by (auto simp: ahead_state_def demo_state_def index_map_def clash_free_index_def staged_def HasPrefix_def BuildFromIndex_def Split_def fun_eq_iff StateUnmodified_def StateDeleted_def)


end
