(* ===== verification/Resolve_Settles.thy ===== *)
theory Resolve_Settles
  imports Merge_Command
begin

text \<open>
  What \<^verbatim>\<open>vara resolve --ours\<close> and \<^verbatim>\<open>--theirs\<close> leave behind (\<^verbatim>\<open>Resolve_Command\<close>): every recorded conflict is settled with the chosen side, on disk and in the index.
\<close>

section \<open>One file\<close>

text \<open>Every path has at most one index entry.\<close>

definition one_entry :: "Index \<Rightarrow> bool" where
  "one_entry idx \<longleftrightarrow> distinct (map ie_Path (Entries idx))"

lemma paths_staged: "set (map ie_Path (stage_entries p i fp es)) = insert p (set (map ie_Path es))" "map ie_Path (delete_entry p es) = map ie_Path es"
  by (induction es) auto

lemma one_entry_staged: "one_entry idx \<Longrightarrow> one_entry (stage p i fp idx)" "one_entry idx \<Longrightarrow> one_entry (idx\<lparr>Entries := delete_entry p (Entries idx)\<rparr>)"
proof -
  have "distinct (map ie_Path es) \<Longrightarrow> distinct (map ie_Path (stage_entries p i fp es))" for es
    using paths_staged(1) [of p i fp] by (induction es) auto
  then show "one_entry idx \<Longrightarrow> one_entry (stage p i fp idx)" by (simp add: one_entry_def stage_def)
  show "one_entry idx \<Longrightarrow> one_entry (idx\<lparr>Entries := delete_entry p (Entries idx)\<rparr>)" by (simp add: one_entry_def paths_staged)
qed

lemma index_map_staged:
  assumes "one_entry idx"
  shows "index_map (stage p i fp idx) = (index_map idx)(p \<mapsto> i)" "index_map (idx\<lparr>Entries := delete_entry p (Entries idx)\<rparr>) = (index_map idx)(p := None)"
proof -
  let ?f = "\<lambda>q es. map_option ie_ObjectID (find (\<lambda>e. ie_Path e = q \<and> ie_State e \<noteq> StateDeleted) es)"
  have none: "q \<notin> set (map ie_Path es) \<Longrightarrow> ?f q es = None" for q es by (induction es) auto
  have "distinct (map ie_Path es) \<Longrightarrow> ?f q (stage_entries p i fp es) = (if q = p then Some i else ?f q es)" for q es
    by (induction es) (auto simp: StateAdded_def StateModified_def StateDeleted_def)
  then show "index_map (stage p i fp idx) = (index_map idx)(p \<mapsto> i)" using assms by (auto simp: index_map_def stage_def one_entry_def fun_eq_iff)
  have "distinct (map ie_Path es) \<Longrightarrow> ?f q (delete_entry p es) = (if q = p then None else ?f q es)" for q es
  proof (induction es)
    case (Cons e es)
    then show ?case using none [of p es] by auto
  qed simp
  then show "index_map (idx\<lparr>Entries := delete_entry p (Entries idx)\<rparr>) = (index_map idx)(p := None)" using assms by (auto simp: index_map_def one_entry_def fun_eq_iff)
qed

text \<open>A step that touches one file of the working directory and its index entry.\<close>

definition touches :: "cmd_env \<Rightarrow> string \<Rightarrow> rstate \<Rightarrow> rstate \<Rightarrow> bool" where
  "touches x p s s' \<longleftrightarrow> grows x (r_fs s) (r_fs s') \<and> (\<forall>a. \<not> Snapshots.under (x_vara x) a \<and> a \<noteq> wpath x p \<longrightarrow> r_fs s' a = r_fs s a)
     \<and> (\<forall>q. q \<noteq> p \<longrightarrow> index_map (r_idx s') q = index_map (r_idx s) q) \<and> one_entry (r_idx s')"

lemma object_file_under: "object_file (x_store x) a \<Longrightarrow> Snapshots.under (x_vara x) a"
  by (auto simp: object_file_def Snapshots.under_def HasPrefix_iff object_path_def shard_dir_def x_store_def NewStore_def)

lemma restaged:
  assumes "restageResolved x p d s = Some (s', Inr u)" "outside x p" "one_entry (r_idx s)"
  shows "touches x p s s'" "r_fs s' (wpath x p) = Some d" "index_map (r_idx s') p = Some (BlobHash d)"
proof -
  from assms(1) obtain fs1 fs2 i where w: "os_WriteFile (x_io x) (wpath x p) d (r_fs s) = (fs1, Inr ())" "Store_Write (x_zstd x) (x_io x) (x_store x) (Blob d) fs1 = (fs2, Inr i)"
    and s': "s' = s\<lparr>r_fs := fs2, r_idx := stage p i (x_mtime x (wpath x p)) (r_idx s)\<rparr>"
    unfolding restageResolved_def by (elim cbindE) (auto simp: on_fs_def modify_index_def split: prod.splits sum.splits)
  have f1: "fs1 = (r_fs s)(wpath x p \<mapsto> d)" using w(1) by (auto simp: os_WriteFile_def split: if_splits)
  have fr: "fs2 a = fs1 a" if "\<not> Snapshots.under (x_vara x) a" for a
    using Store_Write_only_objects [of "x_store x" a "x_zstd x" "x_io x" "Blob d" fs1] object_file_under that w(2) by auto
  have i: "i = BlobHash d" using Store_Write_ok [OF w(2)] by (simp add: BlobHash_def)
  have "grows x (r_fs s) fs1" using grows_work [OF assms(2)] f1 by simp
  then have "grows x (r_fs s) fs2" using grows_trans grows_store [OF w(2)] by simp
  then show "touches x p s s'" using fr f1 s' assms(3) by (auto simp: touches_def index_map_staged one_entry_staged)
  show "r_fs s' (wpath x p) = Some d" using fr [of "wpath x p"] assms(2) f1 s' by (simp add: outside_def)
  show "index_map (r_idx s') p = Some (BlobHash d)" using s' i assms(3) by (simp add: index_map_staged)
qed

lemma deleted:
  assumes "applyDeletion x p s = Some (s', Inr u)" "outside x p" "one_entry (r_idx s)"
  shows "touches x p s s'" "r_fs s' (wpath x p) = None" "index_map (r_idx s') p = None"
proof -
  from assms(1) have s': "s' = s\<lparr>r_fs := (r_fs s)(wpath x p := None), r_idx := (r_idx s)\<lparr>Entries := delete_entry p (Entries (r_idx s))\<rparr>\<rparr>"
    unfolding applyDeletion_def by (elim cbindE) (auto simp: on_fs_def modify_index_def remove_file_def os_Remove_def fun_upd_idem split: prod.splits sum.splits if_splits)
  show "touches x p s s'" unfolding s' using grows_work [OF assms(2)] assms(3) by (auto simp: touches_def index_map_staged one_entry_staged)
  show "r_fs s' (wpath x p) = None" "index_map (r_idx s') p = None" unfolding s' using assms(3) by (simp_all add: index_map_staged)
qed


section \<open>One conflict\<close>

text \<open>The side a strategy takes, and a path that holds it: the recorded blob on disk and in the index, or neither.\<close>

definition chosen_side :: "Strategy \<Rightarrow> CEntry \<Rightarrow> Side" where
  "chosen_side strat e = (if strat = Ours then cf_Ours e else cf_Theirs e)"

definition holds_side :: "cmd_env \<Rightarrow> string \<Rightarrow> Side \<Rightarrow> rstate \<Rightarrow> bool" where
  "holds_side x p sd s \<longleftrightarrow>
     (if sd_Present sd
      then \<exists>i d. parseBlobID (sd_Blob sd) = Some i \<and> x_read x (r_fs s) i = Inr (Blob d) \<and> r_fs s (wpath x p) = Some d \<and> index_map (r_idx s) p = Some i
      else r_fs s (wpath x p) = None \<and> index_map (r_idx s) p = None)"

lemma blob_id: "x_read x fs i = Inr (Blob d) \<Longrightarrow> BlobHash d = i"
  by (auto simp: x_read_def Store_Read_Inr BlobHash_def)

lemma sideContent_present:
  "sd_Present sd \<Longrightarrow> sideContent x sd fs = Inr d \<longleftrightarrow> (\<exists>i. parseBlobID (sd_Blob sd) = Some i \<and> x_read x fs i = Inr (Blob d))"
  by (auto simp: sideContent_def blobContent_def readBlobObj_iff split: option.splits)

lemma restaged_side:
  assumes "restageResolved x p d s = Some (s', Inr u)" "outside x p" "one_entry (r_idx s)" "sideContent x sd (r_fs s) = Inr d" "sd_Present sd"
  shows "touches x p s s' \<and> holds_side x p sd s'"
  using restaged [OF assms(1-3)] assms(4,5) blob_id by (fastforce simp: holds_side_def sideContent_present touches_def grows_def keeps_def)

lemma lift_pure_iff: "lift_pure r s = Some (s', Inr a) \<longleftrightarrow> s' = s \<and> r = Some (Done a)"
  by (auto simp: lift_pure_def split: option.splits outcome.splits)

lemma whole_side:
  assumes "resolveContent me x st e strat style cfg s = Some (s', Inr (out, stats))" "strat = Ours \<or> strat = Theirs"
  shows "s' = s" "sideContent x (chosen_side strat e) (r_fs s) = Inr out" "Remaining stats = 0"
proof -
  have "s' = s \<and> sideContent x (chosen_side strat e) (r_fs s) = Inr out \<and> Remaining stats = 0"
    using assms by (auto simp: resolveContent_def read_sides_def renderSides_def chosen_side_def reading_iff lift_pure_iff Let_def elim!: cbindE)
  then show "s' = s" "sideContent x (chosen_side strat e) (r_fs s) = Inr out" "Remaining stats = 0" by simp_all
qed

lemma settled_entry:
  assumes "resolve_entry me x st strat style cfg e pg s = Some (s', Inr pg')" "strat = Ours \<or> strat = Theirs"
    and "outside x (cf_Path e)" "one_entry (r_idx s)" "cf_Kind e = KindContent \<longrightarrow> sd_Present (chosen_side strat e)"
  shows "pg' = mark_done (cf_Path e) pg \<and> touches x (cf_Path e) s s' \<and> holds_side x (cf_Path e) (chosen_side strat e) s'"
proof -
  let ?sd = "chosen_side strat e" and ?p = "cf_Path e"
  have ch: "chosenPresentSide e strat = Some ?sd" using assms(2) by (auto simp: chosenPresentSide_def chosen_side_def)
  show ?thesis
  proof (cases "cf_Kind e")
    case KindModifyDelete
    then have a: "applyModifyDeleteChoice x e ?sd s = Some (s', Inr ())" and pg: "pg' = mark_done ?p pg"
      using assms(1) ch by (auto simp: resolve_entry_def Let_def elim!: cbindE)
    show ?thesis
    proof (cases "sd_Present ?sd")
      case True
      then obtain d where "sideContent x ?sd (r_fs s) = Inr d" "restageResolved x ?p d s = Some (s', Inr ())"
        using a by (auto simp: applyModifyDeleteChoice_def reading_iff elim!: cbindE)
      then show ?thesis using restaged_side [OF _ assms(3,4) _ True] pg by blast
    next
      case False
      then have "applyDeletion x ?p s = Some (s', Inr ())" using a by (simp add: applyModifyDeleteChoice_def)
      then show ?thesis using deleted [OF _ assms(3,4)] pg False by (simp add: holds_side_def)
    qed
  next
    case KindContent
    have "\<exists>d. sideContent x ?sd (r_fs s) = Inr d \<and> restageResolved x ?p d s = Some (s', Inr ()) \<and> pg' = mark_done ?p pg"
      using assms(1) ch whole_side [where me = me and x = x and st = st and e = e and style = style and cfg = cfg and s = s, OF _ assms(2)] KindContent
      by (fastforce simp: resolve_entry_def Let_def reading_iff split: if_splits elim!: cbindE)
    then show ?thesis using restaged_side [OF _ assms(3,4)] KindContent assms(5) by blast
  qed
qed


section \<open>All conflicts\<close>

lemma touches_holds:
  assumes "touches x q s s'" "holds_side x p sd s" "outside x p" "wpath x p \<noteq> wpath x q"
  shows "holds_side x p sd s'"
proof -
  have "p \<noteq> q" using assms(4) by auto
  moreover have "keeps (x_read x (r_fs s)) (x_read x (r_fs s'))" using assms(1) by (simp add: touches_def grows_def)
  ultimately show ?thesis using assms by (auto simp: holds_side_def touches_def outside_def keeps_def)
qed

lemma settled_entries:
  assumes "resolve_entries me x st strat style cfg es pg s = Some (s', Inr pg')" "strat = Ours \<or> strat = Theirs"
    and "work_paths x (cf_Path ` set es)" "distinct (map cf_Path es)" "one_entry (r_idx s)" "\<forall>e \<in> set es. cf_Kind e = KindContent \<longrightarrow> sd_Present (chosen_side strat e)"
  shows "pg' = fold (mark_done \<circ> cf_Path) es pg \<and> (\<forall>e \<in> set es. holds_side x (cf_Path e) (chosen_side strat e) s') \<and> keeps (x_read x (r_fs s)) (x_read x (r_fs s'))
    \<and> (\<forall>a. \<not> Snapshots.under (x_vara x) a \<and> a \<notin> wpath x ` cf_Path ` set es \<longrightarrow> r_fs s' a = r_fs s a)
    \<and> (\<forall>p sd. holds_side x p sd s \<and> outside x p \<and> wpath x p \<notin> wpath x ` cf_Path ` set es \<longrightarrow> holds_side x p sd s')
    \<and> (\<forall>q. q \<notin> cf_Path ` set es \<longrightarrow> index_map (r_idx s') q = index_map (r_idx s) q)"
  using assms
proof (induction es arbitrary: pg s)
  case (Cons e es)
  then obtain s1 pg1 where e: "resolve_entry me x st strat style cfg e pg s = Some (s1, Inr pg1)" and r: "resolve_entries me x st strat style cfg es pg1 s1 = Some (s', Inr pg')"
    by (auto elim!: cbindE)
  have o: "outside x (cf_Path e)" "wpath x (cf_Path e) \<notin> wpath x ` cf_Path ` set es"
    using Cons.prems(3,4) by (auto simp: work_paths_def inj_on_def)
  have st: "pg1 = mark_done (cf_Path e) pg" "touches x (cf_Path e) s s1" "holds_side x (cf_Path e) (chosen_side strat e) s1"
    using settled_entry [OF e assms(2) o(1) Cons.prems(5)] Cons.prems(6) by simp_all
  have t: "grows x (r_fs s) (r_fs s1)" "one_entry (r_idx s1)" using st(2) by (simp_all add: touches_def)
  have "work_paths x (cf_Path ` set es)" by (rule work_paths_mono [OF Cons.prems(3)]) auto
  note ih = Cons.IH [OF r assms(2) this _ t(2)]
  have "keeps (x_read x (r_fs s)) (x_read x (r_fs s1))" using t(1) by (simp add: grows_def)
  then show ?case using ih Cons.prems(4,6) st o touches_holds [OF st(2)] keeps_trans unfolding touches_def by auto
qed simp

lemma marked_all:
  assumes "distinct (map cf_Path (ms_Entries (pg_state pg)))"
  shows "set (UnresolvedPaths (pg_state (fold (mark_done \<circ> cf_Path) es pg))) = set (UnresolvedPaths (pg_state pg)) - cf_Path ` set es
    \<and> pg_resolved (fold (mark_done \<circ> cf_Path) es pg) = pg_resolved pg + length es
    \<and> pg_choice (fold (mark_done \<circ> cf_Path) es pg) = pg_choice pg \<and> pg_still (fold (mark_done \<circ> cf_Path) es pg) = pg_still pg"
  using assms
proof (induction es arbitrary: pg)
  case (Cons e es)
  have "map cf_Path (ms_Entries (fst (SetResolved p b st))) = map cf_Path (ms_Entries st)" for p b st
    using set_resolved_paths [of p b "ms_Entries st"] by (auto simp: SetResolved_def split: prod.splits)
  with Cons show ?case using SetResolved_unresolved [of "pg_state pg" "cf_Path e"] by (auto simp: mark_done_def MState_Paths_def)
qed simp

lemma record_quiet:
  assumes "MState_Write json io (x_vara x) st fs = (fs', r)" "clean_dir (x_vara x)"
  shows "quiet x fs fs'"
proof -
  have "meta_path x (conflicts_path (x_vara x))" using side_path(2) [OF assms(2) side_names(4)] by (simp add: conflicts_path_def)
  then have "meta_path x (conflicts_path (x_vara x))" "meta_path x (conflicts_path (x_vara x) @ ''.tmp'')" by (simp_all add: meta_path_append)
  then show ?thesis
    using assms(1) by (auto simp: quiet_def MState_Write_def Let_def os_WriteFile_def os_Rename_def os_Remove_def split: option.splits if_splits prod.splits sum.splits)
qed


lemma quiet_holds:
  assumes "quiet x (r_fs s) (r_fs s')" "r_idx s' = r_idx s" "holds_side x p sd s" "outside x p"
  shows "holds_side x p sd s'"
proof -
  have "\<not> meta_path x (wpath x p)" using meta_under assms(4) by (auto simp: outside_def)
  then have "r_fs s' (wpath x p) = r_fs s (wpath x p)" using assms(1) by (simp add: quiet_def)
  then show ?thesis using quiet_read [OF assms(1)] assms(2,3) by (auto simp: holds_side_def)
qed

text \<open>C11. \<^verbatim>\<open>vara resolve --ours\<close> or \<^verbatim>\<open>--theirs\<close> that succeeds settles every recorded conflict, whatever its kind: each conflicted path holds the chosen side, on disk and in the index, or is gone from both
  when that side had deleted it; no conflict is left open; files of the working directory outside the record and their index entries are as before, and no object is lost. (The record names every path once, no path
  leaves the working directory, and a content conflict has the chosen side.)\<close>

theorem resolve_settles:
  assumes "RunResolve me x ra s = Some (s', Inr out)" "ra_Strategy ra = Some strat" "strat = Ours \<or> strat = Theirs" "\<not> ra_List ra" "ra_Paths ra = []"
    and "MState_Read (x_unjson x) (x_vara x) (r_fs s) = Inr (Some st)" "ms_Entries st \<noteq> []" "distinct (MState_Paths st)" "work_paths x (set (MState_Paths st))"
    and "\<forall>e \<in> set (ms_Entries st). cf_Kind e = KindContent \<longrightarrow> sd_Present (chosen_side strat e)" "one_entry (r_idx s)" "clean_dir (x_vara x)"
  shows "out = Settled (length (ms_Entries st)) [] [] True
    \<and> (\<forall>e \<in> set (ms_Entries st). holds_side x (cf_Path e) (chosen_side strat e) s')
    \<and> (\<forall>a. \<not> Snapshots.under (x_vara x) a \<and> a \<notin> wpath x ` set (MState_Paths st) \<longrightarrow> r_fs s' a = r_fs s a)
    \<and> (\<forall>q. q \<notin> set (MState_Paths st) \<longrightarrow> index_map (r_idx s') q = index_map (r_idx s) q)
    \<and> (\<forall>i obj. x_read x (r_fs s) i = Inr obj \<longrightarrow> x_read x (r_fs s') i = Inr obj)"
proof -
  let ?es = "ms_Entries st" and ?pg0 = "\<lparr>pg_state = st, pg_resolved = 0, pg_choice = [], pg_still = []\<rparr>"
  have paths: "set (MState_Paths st) = cf_Path ` set ?es" "distinct (map cf_Path ?es)" using assms(8) by (simp_all add: MState_Paths_def)
  obtain style cfg pg s1 s2 where e: "resolve_entries me x st strat style cfg ?es ?pg0 s = Some (s1, Inr pg)" and i: "ctx_writeIndex x s1 = Some (s2, Inr ())"
    and m: "quiet x (r_fs s2) (r_fs s')" "r_idx s' = r_idx s2" and out: "out = Settled (pg_resolved pg) (pg_choice pg) (pg_still pg) (AllResolved (pg_state pg))"
    using assms(1,2,4-7) record_quiet [OF _ assms(12)]
    by (auto simp: RunResolve_def cbind_lookups resolveFromSidecar_def the_strategy_def Let_def on_fs_def elim!: cbindE split: prod.splits sum.splits)
  note se = settled_entries [OF e assms(3) _ paths(2) assms(11,10)]
  have q: "quiet x (r_fs s1) (r_fs s')" "r_idx s' = r_idx s1" using index_settled [OF i assms(12)] m quiet_trans by (auto simp: settled_def)
  have ou: "\<forall>e \<in> set ?es. outside x (cf_Path e)" using assms(9) paths by (simp add: work_paths_def)
  have pg: "pg = fold (mark_done \<circ> cf_Path) ?es ?pg0" using se assms(9) paths by simp
  note ma = marked_all [of ?pg0 ?es, folded pg]
  have "set (UnresolvedPaths st) \<subseteq> cf_Path ` set ?es" by (auto simp: UnresolvedPaths_def)
  then have "set (UnresolvedPaths (pg_state pg)) = {}" using ma paths(2) by simp
  then have "AllResolved (pg_state pg)" by (simp add: UnresolvedPaths_def AllResolved_def list_all_iff)
  then have "out = Settled (length ?es) [] [] True" using out ma paths(2) by simp
  moreover have "r_fs s' a = r_fs s1 a" if "\<not> Snapshots.under (x_vara x) a" for a using q(1) meta_under that by (metis quiet_def)
  moreover have "\<forall>e \<in> set ?es. holds_side x (cf_Path e) (chosen_side strat e) s'" using se assms(9) paths(1) ou quiet_holds [OF q] by simp
  ultimately show ?thesis using se assms(9) paths(1) quiet_read [OF q(1)] q(2) by (simp add: keeps_def)
qed


text \<open>A conflict between our edit and their deletion of a file, settled with our side.\<close>

definition kept_record :: MState where
  "kept_record = \<lparr>ms_Version = 1, ms_OurLabel = ''main'', ms_TheirLabel = ''dev'',
     ms_Entries = [\<lparr>cf_Path = ''f'', cf_Kind = KindModifyDelete, cf_Base = \<lparr>sd_Present = True, sd_Blob = BaseID_String demo_blob_id\<rparr>,
       cf_Ours = \<lparr>sd_Present = True, sd_Blob = BaseID_String demo_blob_id\<rparr>, cf_Theirs = \<lparr>sd_Present = False, sd_Blob = []\<rparr>, cf_Resolved = False\<rparr>],
     ms_MergeTouched = []\<rparr>"

definition kept_x :: cmd_env where "kept_x = demo_x\<lparr>x_unjson := (\<lambda>_. Some kept_record)\<rparr>"

definition kept_args :: ResolveArgs where
  "kept_args = \<lparr>ra_Strategy = Some Ours, ra_List = False, ra_Paths = [], ra_Style = Some StyleMerge\<rparr>"

theorem resolve_settles_witness:
  "\<forall>me :: nat menv. \<exists>s'. RunResolve me kept_x kept_args (demo_state ''f'') = Some (s', Inr (Settled 1 [] [] True))
     \<and> r_fs s' ''/w/f'' = Some ''x'' \<and> index_map (r_idx s') ''f'' = Some demo_blob_id \<and> r_fs s' ''/w/u'' = Some ''note''"
proof
  fix me :: "nat menv"
  have sel: "x_vara kept_x = ''/w/.vara''" "wpath kept_x = wpath demo_x" "x_read kept_x = x_read demo_x" "x_store kept_x = x_store demo_x" "x_zstd kept_x = zstd_id" "x_io kept_x = io_ok"
    by (auto simp: kept_x_def wpath_def x_read_def x_store_def fun_eq_iff)
  have wk: "works kept_x" using demo_works by (simp add: works_def cmd_ok_def kept_x_def)
  have rd: "MState_Read (x_unjson kept_x) (x_vara kept_x) (r_fs (demo_state ''f'')) = Inr (Some kept_record)"
    by (simp add: MState_Read_def demo_paths demo_short demo_files_def kept_x_def)
  have sc: "sideContent kept_x (cf_Ours (hd (ms_Entries kept_record))) demo_fs = Inr ''x''"
    by (simp add: sideContent_present kept_record_def parseBlobID_def sel demo_read demo_blob_obj_def)
  obtain fs2 where w: "Store_Write zstd_id io_ok (x_store demo_x) (Blob ''x'') (demo_fs(''/w/f'' \<mapsto> ''x'')) = (fs2, Inr (Compute (Serialize (Blob ''x''))))"
    using Store_Write_io_ok by blast
  have rs: "runs (restageResolved kept_x ''f'' ''x'') (demo_state ''f'') (\<lambda>_ _. True)"
    using w by (simp add: runs_def restageResolved_def cbind_def on_fs_def os_WriteFile_def io_ok_def sel demo_paths modify_index_def)
  have al: "always (ctx_writeIndex kept_x)" using always_steps(9) [OF wk] .
  have aw: "always (on_fs ''update conflict state'' (MState_Write (x_json kept_x) (x_io kept_x) (x_vara kept_x) st))" for st
    by (auto simp: always_def runs_def on_fs_def MState_Write_def Let_def kept_x_def demo_x_def os_WriteFile_def io_ok_def)
  obtain s1 where s1: "restageResolved kept_x ''f'' ''x'' (demo_state ''f'') = Some (s1, Inr ())" using rs by (auto simp: runs_def)
  let ?pg0 = "\<lparr>pg_state = kept_record, pg_resolved = 0, pg_choice = [], pg_still = []\<rparr>"
  obtain pg where "resolve_entries me kept_x kept_record Ours StyleMerge (loadConfig me kept_x demo_fs) (ms_Entries kept_record) ?pg0 (demo_state ''f'') = Some (s1, Inr pg)"
    using s1 sc by (simp add: kept_record_def resolve_entry_def chosenPresentSide_def applyModifyDeleteChoice_def reading_def cbind_def cret_def Let_def)
  moreover have "ms_Entries kept_record \<noteq> []" by (simp add: kept_record_def)
  moreover have "always (cbind (ctx_writeIndex kept_x) (\<lambda>_. cbind (on_fs ''update conflict state'' (MState_Write (x_json kept_x) (x_io kept_x) (x_vara kept_x) (pg_state pg))) (\<lambda>_.
      cret (Settled (pg_resolved pg) (pg_choice pg) (pg_still pg) (AllResolved (pg_state pg))))))" for pg
    by (intro always_bind al aw always_steps [OF wk])
  ultimately have "runs (RunResolve me kept_x kept_args) (demo_state ''f'') (\<lambda>_ _. True)"
    using rd by (auto simp: runs_def always_def RunResolve_def resolveFromSidecar_def cbind_lookups kept_args_def the_strategy_def Let_def cbind_def [of "resolve_entries _ _ _ _ _ _ _ _"])
  then obtain s' out where r: "RunResolve me kept_x kept_args (demo_state ''f'') = Some (s', Inr out)" by (auto simp: runs_def)
  have "clean_dir (x_vara kept_x)" using wk by (simp add: works_def cmd_ok_def)
  note res = resolve_settles [OF r _ _ _ _ rd _ _ _ _ _ this, of Ours]
  have "work_paths kept_x {''f''}" using demo_outside(4) by (simp add: work_paths_def outside_def sel)
  moreover have "one_entry (r_idx (demo_state ''f''))" by (simp add: one_entry_def demo_state_def)
  ultimately have "out = Settled 1 [] [] True" "holds_side kept_x ''f'' \<lparr>sd_Present = True, sd_Blob = BaseID_String demo_blob_id\<rparr> s'"
      "\<And>a. \<not> Snapshots.under ''/w/.vara'' a \<Longrightarrow> a \<noteq> ''/w/f'' \<Longrightarrow> r_fs s' a = demo_fs a" "x_read demo_x (r_fs s') demo_blob_id = Inr demo_blob_obj"
    using res by (auto simp: kept_args_def kept_record_def MState_Paths_def chosen_side_def sel demo_paths demo_read)
  then show "\<exists>s'. RunResolve me kept_x kept_args (demo_state ''f'') = Some (s', Inr (Settled 1 [] [] True))
     \<and> r_fs s' ''/w/f'' = Some ''x'' \<and> index_map (r_idx s') ''f'' = Some demo_blob_id \<and> r_fs s' ''/w/u'' = Some ''note''"
    using r by (auto simp: holds_side_def sel demo_paths parseBlobID_def demo_blob_obj_def Snapshots.under_def HasPrefix_def demo_short demo_files_def)
qed

end
