(* ===== verification/Spec2Isabelle.thy ===== *)
theory Spec2Isabelle
  imports Index_File Conflict_Render Reflog Transactions Verify_Repo Accounts Repo_Manager Tree_Build Graph_Index Control_Plane Resolve_Settles
begin

text \<open>
  \<^bold>\<open>Vara: a verification development.\<close>

  Vara is a version control system in Go: a content-addressed object store, a staging index, references with
  a log, a commit graph, line and tree diffs, a three-way merge engine with conflict handling, transactions
  with lock files, object transfer between repositories, and garbage collection. This development translates
  that core, function by function, into executable HOL definitions and proves what makes each part correct.
  Names follow the source; paths below are relative to \<^verbatim>\<open>src/\<close>.

  \<^bold>\<open>Theories and sources.\<close>

  \<^item> \<^verbatim>\<open>Vara_Prelude\<close>: byte strings, results as sums (\<open>bind_res\<close>), big-endian words, Go slices with their
    bounds checks, and the locales \<open>decoder\<close> and \<open>canonical_codec\<close> that state what an encoder and its decoder
    owe each other (interpreted for objects, identifiers, the index file and the configuration). \<^verbatim>\<open>Go_Strings\<close>, \<^verbatim>\<open>Go_Sort\<close>: the parts of \<^verbatim>\<open>strings\<close> and \<^verbatim>\<open>sort\<close> the code uses.
  \<^item> \<^verbatim>\<open>Sha256\<close>, \<^verbatim>\<open>Object_Format\<close> (\<^verbatim>\<open>pkg/hash\<close>, \<^verbatim>\<open>pkg/types\<close>, \<^verbatim>\<open>pkg/object\<close>): SHA-256 itself, identifiers, blobs, trees and
    commits, and their encodings. The decoder accepts exactly the encodings.
  \<^item> \<^verbatim>\<open>Object_Store\<close> (\<^verbatim>\<open>pkg/object/store.go\<close>, \<^verbatim>\<open>internal/fsutil\<close>): a file system as a map from paths to bytes, the
    atomic replace as the sequence of states a crash could leave, and the store with its invariant \<open>store_ok\<close>.
    The locale \<open>object_source\<close> is the contract readers of the store rely on.
  \<^item> \<^verbatim>\<open>Index_File\<close> (\<^verbatim>\<open>pkg/index\<close>), \<^verbatim>\<open>Refs\<close> (\<^verbatim>\<open>pkg/refs\<close>), \<^verbatim>\<open>Reflog\<close> (\<^verbatim>\<open>pkg/reflog\<close>, undo selection of \<^verbatim>\<open>pkg/recovery\<close>),
    \<^verbatim>\<open>Transactions\<close> (\<^verbatim>\<open>internal/locking\<close>, \<^verbatim>\<open>internal/transaction\<close>, \<^verbatim>\<open>ScanJournal\<close>): the repository's files. Several
    processes competing for locks are a step relation; exclusion and absence of deadlock hold in every
    reachable state.
  \<^item> \<^verbatim>\<open>Commit_Graph\<close> (\<^verbatim>\<open>pkg/graph\<close>): walker, ancestors, merge base, generation numbers, against the ancestor
    relation.
  \<^item> \<^verbatim>\<open>Enumerate_Objects\<close>, \<^verbatim>\<open>Pack\<close> (\<^verbatim>\<open>pkg/transfer\<close>), \<^verbatim>\<open>Garbage_Collection\<close> (\<^verbatim>\<open>pkg/gc\<close>): which objects are sent, the stream that
    carries them, and the sweep; completeness, round trip and exactness.
  \<^item> \<^verbatim>\<open>Myers_Diff\<close>, \<^verbatim>\<open>Three_Way\<close>, \<^verbatim>\<open>Tree_Files\<close> (\<^verbatim>\<open>pkg/diff\<close>): the line diff is a shortest script; the engine's line merge,
    including where it loops and where it panics; the files of a tree and the difference of two trees.
  \<^item> \<^verbatim>\<open>Conflict_Markers\<close>, \<^verbatim>\<open>Conflict_Render\<close> (\<^verbatim>\<open>internal/conflict\<close>): reading, resolving and rendering conflict markers.
  \<^item> \<^verbatim>\<open>Merge_Engine\<close> (\<^verbatim>\<open>internal/merge\<close>): checkout, fast-forward and the three-way merge on the file system and the
    index, shown to refine the abstract merge of three file maps.

  \<^item> \<^verbatim>\<open>Tree_Build\<close> (\<^verbatim>\<open>pkg/tree\<close>, \<^verbatim>\<open>pkg/builder\<close>): the trees written from an index hold exactly its files. \<^verbatim>\<open>Graph_Index\<close>
    (\<^verbatim>\<open>pkg/graphindex\<close>, \<^verbatim>\<open>history.go\<close>): the binary graph index and the history shown from it.
  \<^item> \<^verbatim>\<open>Verify_Repo\<close> (\<^verbatim>\<open>pkg/verify\<close>): what a repository reported healthy is; the cycle check against the parent relation.
  \<^item> \<^verbatim>\<open>Remote_Transport\<close> (\<^verbatim>\<open>internal/transport\<close>), \<^verbatim>\<open>Authz\<close> (\<^verbatim>\<open>internal/authz\<close>), \<^verbatim>\<open>Throttle\<close>, \<^verbatim>\<open>Server\<close>, \<^verbatim>\<open>Control_Plane\<close>
    (\<^verbatim>\<open>internal/server\<close>, \<^verbatim>\<open>internal/protocol\<close>), \<^verbatim>\<open>Repo_Manager\<close> (\<^verbatim>\<open>internal/repomanager\<close>), \<^verbatim>\<open>Passwords\<close>, \<^verbatim>\<open>Accounts\<close>
    (\<^verbatim>\<open>internal/identity\<close>): fetch and push, who may do what, the limiter of password guessing, the handlers, the life
    cycle of hosted repositories with crashes, accounts and their credentials. A push without the force capability
    keeps history; a refused request has no effect; an ended credential stays dead.
  \<^item> \<^verbatim>\<open>Snapshots\<close> (\<^verbatim>\<open>pkg/snapshot\<close>, \<^verbatim>\<open>internal/undo\<close>), \<^verbatim>\<open>Merge_State\<close> (\<^verbatim>\<open>internal/mergestate\<close>), \<^verbatim>\<open>Worktree\<close> (\<^verbatim>\<open>pkg/ignore\<close>,
    \<^verbatim>\<open>internal/worktree\<close>, \<^verbatim>\<open>pkg/scanner\<close>), \<^verbatim>\<open>Config_File\<close> (\<^verbatim>\<open>pkg/config\<close>, \<^verbatim>\<open>vara remote\<close>), \<^verbatim>\<open>Smart_Merge\<close>
    (\<^verbatim>\<open>internal/smartmerge\<close>): archives of the working directory, the record of a stopped merge, ignore rules and
    scanning, the configuration file with its parser and printer, and the merge of JSON, YAML and TOML documents,
    which refines the same abstract merge as the engine, key path by key path.
  \<^item> \<^verbatim>\<open>Command_Base\<close>, \<^verbatim>\<open>Commands\<close>, \<^verbatim>\<open>Resolve_Command\<close>, \<^verbatim>\<open>Merge_Command\<close> (\<^verbatim>\<open>internal/commands\<close>): the commands as programs of a
    monad with a state (disk, index, locks, transaction), errors and panics. \<^verbatim>\<open>Command_Runs\<close> is a small calculus of
    total correctness for them, with \<^verbatim>\<open>switch\<close> and \<^verbatim>\<open>merge --abort\<close>; \<^verbatim>\<open>Commit_Command\<close> and \<^verbatim>\<open>Merge_Command\<close> show what a
    commit and a merge record: the commit object, its tree, the branch HEAD is on, and that nothing is lost; \<^verbatim>\<open>Resolve_Settles\<close>
    shows that resolving with one side leaves that side on disk and in the index for every conflict. Here the
    components meet: index, tree building, store, references, reflog, transactions and the merge engine.
    \<^verbatim>\<open>Sample_Repo\<close> and \<^verbatim>\<open>Sample_Merge\<close> hold the concrete objects, with evaluated SHA-256 identifiers, of the examples.

  \<^bold>\<open>Conventions.\<close> A Go error is \<open>Inl\<close> of \<open>verr\<close> (or of the component's own error type) and every early return is a
  branch. A panic is \<open>None\<close> or the outcome \<open>Panic\<close>. A loop that may not end is a \<open>partial_function (option)\<close>
  (references, line merge) or carries fuel, with a lemma that fuel above the height of the recursion is enough:
  \<open>Generation\<close> (the generation number), \<open>collectFiles\<close> (the depth of the tree). Breadth-first walks need
  neither: identifiers have 256 bits, and every step uses up an identifier. What the operating system answers
  (outcomes of system calls, directory listings), the order in which Go visits a map and the zstd library are
  arguments; the hypotheses on them are \<open>listing_ok\<close>, \<open>map_order\<close>, \<open>key_order\<close> and \<open>zstd_ok\<close>. SHA-256 is
  computed, never assumed injective: theorems that would need it ask that the objects at hand do not collide.

  \<^bold>\<open>Findings.\<close> Several theorems state behaviour the code surely does not intend: the line merge loops on an
  appended line and panics on some overlaps, \<open>Update\<close> loops on cyclic references, a fast-forward keeps deleted
  files, tree entry names can leave the working directory, a pack can announce a length that panics the reader,
  garbage collection deletes staged blobs, a pushed reference name can leave the repository, a push without updates
  is not authorized, a crash in a rename leaves a repository without content, a tracked file that becomes a directory
  panics the commit, a null value hides an addition in the structural merge. They are marked as such where they are
  proved.

  \<^bold>\<open>Not modelled.\<close> Argument parsing and printed texts of the command line (\<^verbatim>\<open>cmd/vara\<close>) and the interactive
  resolve session; undo, clone, fetch, pull and push as commands (the undo selection, snapshots and
  transports under them are modelled); the HTTP
  client, the request decoding of the server and the read-only hub API; device identities and the client's
  credential file (key files around standard cryptography); the JSON, YAML, TOML, tar and zstd codecs, which are
  arguments; file modes and directories of the file system, and time other than as an argument.
\<close>

end
